(* ===== verification/Ns_Prelude.thy ===== *)
theory Ns_Prelude
  imports Complex_Main
begin

text \<open>
  Numbers of the simulator's own TCP (C++): an \<open>int\<close> is an \<open>int\<close> here with the wrap-around to
  32 bits written out (\<open>i32\<close>), a \<open>short\<close> likewise (\<open>i16\<close>); a \<open>double\<close> is a rational number, that
  is, arithmetic without rounding; a conversion of a \<open>double\<close> to \<open>int\<close> truncates (\<open>trunc_int\<close>).
  The constants are those of \<open>tcp/tcp.h\<close>.
\<close>

definition i32 :: "int \<Rightarrow> int" where
  "i32 x = (x + 2147483648) mod 4294967296 - 2147483648"

definition i16 :: "int \<Rightarrow> int" where
  "i16 x = (x + 32768) mod 65536 - 32768"

lemma i32_id: "- 2147483648 \<le> x \<Longrightarrow> x < 2147483648 \<Longrightarrow> i32 x = x"
  by (simp add: i32_def)

definition trunc_int :: "rat \<Rightarrow> int" where
  "trunc_int x = (if 0 \<le> x then \<lfloor>x\<rfloor> else \<lceil>x\<rceil>)"

lemma trunc_int_of_int [simp]: "trunc_int (of_int i) = i"
  by (simp add: trunc_int_def)

lemma trunc_int_le: "0 \<le> x \<Longrightarrow> of_int (trunc_int x) \<le> x"
  by (simp add: trunc_int_def)

definition CWND_ACTION_DUPACK :: int where "CWND_ACTION_DUPACK = 1"
definition CWND_ACTION_TIMEOUT :: int where "CWND_ACTION_TIMEOUT = 2"
definition CWND_ACTION_ECN :: int where "CWND_ACTION_ECN = 3"
definition CWND_ACTION_EXITED :: int where "CWND_ACTION_EXITED = 4"

definition TCP_MAXSEQ :: int where "TCP_MAXSEQ = 1073741824"

text \<open>\<open>limited_slow_start\<close> of \<open>tcp/tcp.cc\<close>, which the full agent and the subflows of MPTCP use.\<close>

definition limited_slow_start :: "rat \<Rightarrow> int \<Rightarrow> rat \<Rightarrow> rat" where
  "limited_slow_start cwnd max_ssthresh increment =
     (if max_ssthresh \<le> 0 then increment
      else let round = trunc_int (cwnd / (of_int max_ssthresh / 2));
               increment1 = (if 0 < round then 1 / of_int round else 0)
           in if increment < increment1 then increment1 else increment)"

end
