(* ===== verification/Mptcp.thy ===== *)
theory Mptcp
  imports Ns_Prelude
begin

text \<open>
  Multipath TCP (\<open>tcp/mptcp.cc\<close>, \<open>mptcp.h\<close>, \<open>tcp/mptcp-full.cc\<close>, \<open>mptcp-full.h\<close>):
  the core that splits a stream over subflows, the data sequence mappings of a subflow, the
  data-level acknowledgment, and the coupled increase of the window.

  The subflows are embedded in the core's array. What TCP itself does when it
  transmits (\<open>send_much\<close>) is a separate step; queueing bytes is \<open>advance_bytes\<close>.
\<close>

section \<open>State\<close>

definition MAX_SUBFLOW :: nat where "MAX_SUBFLOW = 100"

record dsn_mapping =
  sseqnum :: int
  dseqnum :: int
  maplen :: int
  sentseq :: int

record dack_mapping =
  dk_ackno :: int
  dk_length :: int

datatype tcp_state = TCPS_CLOSED | TCPS_LISTEN | TCPS_SYN_SENT | TCPS_SYN_RECEIVED | TCPS_ESTABLISHED
  | TCPS_CLOSE_WAIT | TCPS_FIN_WAIT_1 | TCPS_CLOSING | TCPS_LAST_ACK | TCPS_FIN_WAIT_2

text \<open>A subflow (\<open>MpFullTcpAgent\<close>): what the core and the mappings use of the TCP state.\<close>

record mpflow =
  fl_state :: tcp_state
  fl_size :: int
  fl_curseq :: int
  fl_iss :: int
  fl_cwnd :: rat
  fl_ssthresh :: int
  fl_maxseq :: int
  fl_highest_ack :: int
  fl_t_srtt :: int
  fl_srtt_bits :: nat \<comment> \<open>\<open>T_SRTT_BITS\<close>, a bound variable of the agent\<close>
  fl_t_backoff :: int
  fl_dupacks :: int
  fl_fastrecov :: bool
  fl_increase_num :: rat
  fl_max_ssthresh :: int
  fl_maxcwnd :: int
  fl_last_cwnd_action :: int
  fl_initial_window :: rat \<comment> \<open>what \<open>set_initial_window\<close> gives\<close>
  fl_wnd :: rat
  fl_srtt_init :: int \<comment> \<open>in ticks\<close>
  fl_primary :: bool
  fl_allow_slowstart :: bool
  fl_mpcapable :: bool
  fl_mpjoin :: bool
  fl_mpack :: bool
  fl_dsnmap :: "dsn_mapping list"
  fl_recv_dsnmap :: "dsn_mapping list"

record subflow =
  sf_used :: bool
  sf_addr :: int
  sf_port :: int
  sf_daddr :: int
  sf_dport :: int
  sf_tcp :: mpflow

record dstinfo =
  ds_addr :: int
  ds_port :: int
  ds_active :: bool

record mptcp =
  subflows :: "subflow list"
  sub_num :: nat
  dsts :: "dstinfo list"
  dst_num :: nat
  total_bytes :: int
  mcurseq :: int
  mackno :: int
  infinite_send :: bool
  lia :: bool
  lia_dctcp :: bool
  alpha :: rat
  dackmap :: "dack_mapping list"

section \<open>A subflow\<close>

definition mptcp_get_cwnd :: "mpflow \<Rightarrow> rat" where
  "mptcp_get_cwnd f = (if fl_fastrecov f then of_int (fl_ssthresh f) else fl_cwnd f)"

text \<open>\<open>tick\<close> is the clock granularity \<open>tcp_tick_\<close> in seconds.\<close>

definition mptcp_get_srtt :: "rat \<Rightarrow> mpflow \<Rightarrow> rat" where
  "mptcp_get_srtt tick f = of_int (fl_t_srtt f div 2 ^ fl_srtt_bits f) * tick"

definition mptcp_add_mapping :: "int \<Rightarrow> int \<Rightarrow> mpflow \<Rightarrow> mpflow" where
  "mptcp_add_mapping dseq len f =
     f\<lparr>fl_dsnmap := fl_dsnmap f @ [\<lparr>sseqnum = i32 (fl_curseq f + 1), dseqnum = dseq, maplen = len, sentseq = 0\<rparr>]\<rparr>"

definition mptcp_recv_add_mapping :: "int \<Rightarrow> int \<Rightarrow> int \<Rightarrow> mpflow \<Rightarrow> mpflow" where
  "mptcp_recv_add_mapping dseq sseq len f =
     f\<lparr>fl_recv_dsnmap := fl_recv_dsnmap f @ [\<lparr>sseqnum = sseq, dseqnum = dseq, maplen = len, sentseq = 0\<rparr>]\<rparr>"

text \<open>Erases the first mapping that ends before \<open>seqnum\<close>, and no other.\<close>

fun remove_first :: "int \<Rightarrow> dsn_mapping list \<Rightarrow> dsn_mapping list" where
  "remove_first seqnum [] = []"
| "remove_first seqnum (p # ps) =
     (if i32 (dseqnum p + maplen p) < seqnum then ps else p # remove_first seqnum ps)"

definition mptcp_remove_mapping :: "int \<Rightarrow> mpflow \<Rightarrow> mpflow" where
  "mptcp_remove_mapping seqnum f = f\<lparr>fl_dsnmap := remove_first seqnum (fl_dsnmap f)\<rparr>"

text \<open>
  \<open>SackFullTcpAgent::reset\<close>, and \<open>FullTcpAgent::advance_bytes\<close> up to its call of
  \<open>send_much\<close>: in the states closed and listen the agent is reset and connects; in the closing
  states nothing is queued.
\<close>

definition tcp_reset :: "mpflow \<Rightarrow> mpflow" where
  "tcp_reset f =
     (let s = trunc_int (fl_wnd f);
          s = (if 0 < fl_max_ssthresh f \<and> fl_max_ssthresh f < s then fl_max_ssthresh f else s)
      in f\<lparr>fl_t_srtt := i32 (fl_srtt_init f * 2 ^ fl_srtt_bits f), fl_t_backoff := 1, fl_dupacks := 0, fl_curseq := 0,
           fl_cwnd := fl_initial_window f, fl_maxseq := -1, fl_highest_ack := -1, fl_ssthresh := s,
           fl_last_cwnd_action := 0, fl_fastrecov := False\<rparr>)"

definition queue_bytes :: "int \<Rightarrow> mpflow \<Rightarrow> mpflow" where
  "queue_bytes nb f = f\<lparr>fl_curseq := i32 ((if fl_curseq f < fl_iss f then fl_iss f else fl_curseq f) + nb)\<rparr>"

definition reconnect :: "int \<Rightarrow> mpflow \<Rightarrow> mpflow" where
  "reconnect nb f = (tcp_reset f)\<lparr>fl_curseq := i32 (fl_iss f + nb), fl_state := TCPS_SYN_SENT\<rparr>"

definition advance_bytes :: "int \<Rightarrow> mpflow \<Rightarrow> mpflow" where
  "advance_bytes nb f =
     (case fl_state f of
        TCPS_CLOSED \<Rightarrow> reconnect nb f
      | TCPS_LISTEN \<Rightarrow> reconnect nb f
      | TCPS_ESTABLISHED \<Rightarrow> queue_bytes nb f
      | TCPS_SYN_SENT \<Rightarrow> queue_bytes nb f
      | TCPS_SYN_RECEIVED \<Rightarrow> queue_bytes nb f
      | _ \<Rightarrow> f)"

section \<open>The core\<close>

definition upd_flow :: "nat \<Rightarrow> (mpflow \<Rightarrow> mpflow) \<Rightarrow> mptcp \<Rightarrow> mptcp" where
  "upd_flow i g m = m\<lparr>subflows := (subflows m)[i := (subflows m ! i)\<lparr>sf_tcp := g (sf_tcp (subflows m ! i))\<rparr>]\<rparr>"

fun search :: "('a \<Rightarrow> bool) \<Rightarrow> 'a list \<Rightarrow> nat option" where
  "search P [] = None"
| "search P (x # xs) = (if P x then Some 0 else map_option Suc (search P xs))"

definition get_subnum :: "mptcp \<Rightarrow> nat option" where
  "get_subnum m = search (\<lambda>s. \<not> sf_used s) (subflows m)"

definition find_subflow_port :: "int \<Rightarrow> int \<Rightarrow> mptcp \<Rightarrow> nat option" where
  "find_subflow_port addr port m = search (\<lambda>s. sf_addr s = addr \<and> sf_port s = port) (subflows m)"

definition find_subflow :: "int \<Rightarrow> mptcp \<Rightarrow> nat option" where
  "find_subflow addr m = search (\<lambda>s. sf_addr s = addr) (subflows m)"

text \<open>
  The constructors: all slots free. The members \<open>dst_num_\<close> and \<open>alpha_\<close> are not initialised,
  so that their values are arguments; so is the object behind the null pointer \<open>tcp_\<close>.
\<close>

definition new_mptcp :: "mpflow \<Rightarrow> nat \<Rightarrow> rat \<Rightarrow> mptcp" where
  "new_mptcp f dn al = \<lparr>
     subflows = replicate MAX_SUBFLOW
       \<lparr>sf_used = False, sf_addr = 0, sf_port = 0, sf_daddr = -1, sf_dport = -1, sf_tcp = f\<rparr>,
     sub_num = 0, dsts = replicate MAX_SUBFLOW \<lparr>ds_addr = -1, ds_port = -1, ds_active = False\<rparr>, dst_num = dn,
     total_bytes = 0, mcurseq = 1, mackno = 1, infinite_send = False, lia = False, lia_dctcp = False, alpha = al,
     dackmap = []\<rparr>"

text \<open>\<open>abort ()\<close> when the array is full.\<close>

definition add_destination :: "int \<Rightarrow> int \<Rightarrow> mptcp \<Rightarrow> mptcp option" where
  "add_destination addr port m =
     (case search (\<lambda>d. \<not> ds_active d) (dsts m) of
        None \<Rightarrow> None
      | Some i \<Rightarrow> Some (m\<lparr>dsts := (dsts m)[i := \<lparr>ds_addr = addr, ds_port = port, ds_active = True\<rparr>],
          dst_num := dst_num m + 1\<rparr>))"

text \<open>The \<open>attach-tcp\<close> command; with all subflows in use the index is \<open>-1\<close>.\<close>

definition attach_tcp :: "int \<Rightarrow> int \<Rightarrow> mpflow \<Rightarrow> mptcp \<Rightarrow> mptcp option" where
  "attach_tcp addr port f m =
     (case get_subnum m of
        None \<Rightarrow> None
      | Some i \<Rightarrow> Some (m\<lparr>subflows := (subflows m)[i := (subflows m ! i)\<lparr>sf_tcp := f, sf_used := True,
          sf_addr := addr, sf_port := port\<rparr>], sub_num := sub_num m + 1\<rparr>))"

text \<open>
  The \<open>reset\<close> command gives each subflow the first destination that it can reach and that no
  subflow before it has taken. Reachability is asked of the subflow's classifier.
\<close>

fun assign_dst :: "(nat \<Rightarrow> int \<Rightarrow> int \<Rightarrow> bool) \<Rightarrow> nat \<Rightarrow> (dstinfo \<times> bool) list \<Rightarrow> (dstinfo option \<times> bool list)" where
  "assign_dst routable i [] = (None, [])"
| "assign_dst routable i ((d, used) # ds) =
     (if \<not> used \<and> routable i (ds_addr d) (ds_port d) then (Some d, True # map snd ds)
      else let (r, us) = assign_dst routable i ds in (r, used # us))"

definition set_dst :: "nat \<Rightarrow> dstinfo option \<Rightarrow> mptcp \<Rightarrow> mptcp" where
  "set_dst i r m = (case r of None \<Rightarrow> m
     | Some d \<Rightarrow> m\<lparr>subflows := (subflows m)[i := (subflows m ! i)\<lparr>sf_daddr := ds_addr d, sf_dport := ds_port d\<rparr>]\<rparr>)"

fun reset_loop :: "(nat \<Rightarrow> int \<Rightarrow> int \<Rightarrow> bool) \<Rightarrow> nat list \<Rightarrow> bool list \<Rightarrow> mptcp \<Rightarrow> mptcp" where
  "reset_loop routable [] used m = m"
| "reset_loop routable (i # is) used m =
     (let (r, used) = assign_dst routable i (zip (take (dst_num m) (dsts m)) used)
      in reset_loop routable is used (set_dst i r m))"

definition mptcp_reset :: "(nat \<Rightarrow> int \<Rightarrow> int \<Rightarrow> bool) \<Rightarrow> mptcp \<Rightarrow> mptcp option" where
  "mptcp_reset routable m =
     (let m = reset_loop routable [0..<sub_num m] (replicate (dst_num m) False) m
      in if sf_used (subflows m ! 0) then Some (upd_flow 0 (\<lambda>f. f\<lparr>fl_primary := True\<rparr>) m) else None)"

text \<open>
  The \<open>add-multihome-interface\<close> command sets the port of the subflow bound to an address:
  \<open>Inl ()\<close> is \<open>TCL_ERROR\<close>, \<open>None\<close> a call through the null pointer of an unused
  subflow. (The pointers to the target and the link are not modelled.)
\<close>

definition add_interface :: "int \<Rightarrow> int \<Rightarrow> mptcp \<Rightarrow> (unit + mptcp) option" where
  "add_interface addr port m =
     (case find_subflow addr m of
        None \<Rightarrow> Some (Inl ())
      | Some i \<Rightarrow> if sf_used (subflows m ! i)
          then Some (Inr (m\<lparr>subflows := (subflows m)[i := (subflows m ! i)\<lparr>sf_port := port\<rparr>]\<rparr>)) else None)"

text \<open>
  One turn of \<open>send_control\<close>: at most one segment for subflow \<open>i\<close>. (Slow start is allowed on
  every subflow: both branches of the source set it.)
\<close>

definition send_bytes :: "int \<Rightarrow> mpflow \<Rightarrow> int option" where
  "send_bytes tot f =
     (let mss = fl_size f;
          cwnd = mptcp_get_cwnd f * of_int mss;
          outstanding = i32 (i32 (fl_maxseq f - fl_highest_ack f) - i32 (fl_dupacks f * mss));
          outstanding = (if outstanding \<le> 0 then 0 else outstanding);
          sendbytes = trunc_int (cwnd - of_int outstanding)
      in if 4 \<le> fl_t_backoff f then None
         else if sendbytes < mss then None
         else let sendbytes = (if tot < sendbytes then tot else sendbytes)
              in Some (if mss < sendbytes then mss else sendbytes))"

definition allow_slowstart :: "mpflow \<Rightarrow> mpflow" where
  "allow_slowstart f =
     (if fl_t_backoff f < 4 \<and> mptcp_get_cwnd f * of_int (fl_size f) < of_int (i32 (fl_ssthresh f * fl_size f))
      then f\<lparr>fl_allow_slowstart := True\<rparr> else f)"

definition send_turn :: "nat \<Rightarrow> mptcp \<Rightarrow> mptcp" where
  "send_turn i m =
     (let m = upd_flow i allow_slowstart m
      in case send_bytes (total_bytes m) (sf_tcp (subflows m ! i)) of
           None \<Rightarrow> m
         | Some n \<Rightarrow>
             (let m = upd_flow i (\<lambda>f. advance_bytes n (mptcp_add_mapping (mcurseq m) n f)) m
              in m\<lparr>mcurseq := i32 (mcurseq m + n),
                   total_bytes := (if infinite_send m then total_bytes m else i32 (total_bytes m - n))\<rparr>))"

definition send_control :: "mptcp \<Rightarrow> mptcp" where
  "send_control m = (if 0 < total_bytes m then fold send_turn [0..<sub_num m] m else m)"

definition hand_over :: "int \<Rightarrow> mptcp \<Rightarrow> mptcp" where
  "hand_over nbytes m =
     (if nbytes = -1 then m\<lparr>infinite_send := True, total_bytes := TCP_MAXSEQ\<rparr>
      else m\<lparr>total_bytes := nbytes, infinite_send := False\<rparr>)"

definition mptcp_sendmsg :: "int \<Rightarrow> mptcp \<Rightarrow> mptcp" where
  "mptcp_sendmsg nbytes m = send_control (hand_over nbytes m)"

section \<open>Data-level acknowledgment\<close>

fun extend_block :: "int \<Rightarrow> int \<Rightarrow> dack_mapping list \<Rightarrow> dack_mapping list option" where
  "extend_block ackno len [] = None"
| "extend_block ackno len (p # ps) =
     (if dk_ackno p \<le> ackno \<and> ackno \<le> i32 (dk_ackno p + dk_length p)
         \<and> i32 (dk_ackno p + dk_length p) < i32 (ackno + len)
      then Some (p\<lparr>dk_length := i32 (i32 (ackno + len) - dk_ackno p)\<rparr> # ps)
      else map_option (Cons p) (extend_block ackno len ps))"

fun cumulate :: "int \<Rightarrow> int \<Rightarrow> int \<Rightarrow> dack_mapping list \<Rightarrow> int \<times> dack_mapping list" where
  "cumulate ackno len mack [] = (mack, [])"
| "cumulate ackno len mack (p # ps) =
     (let mack = (if dk_ackno p \<le> mack \<and> mack \<le> i32 (dk_ackno p + dk_length p) then i32 (ackno + len) else mack);
          (mack', ps') = cumulate ackno len mack ps
      in (mack', if i32 (dk_ackno p + dk_length p) < mack then ps' else p # ps'))"

definition set_dataack :: "int \<Rightarrow> int \<Rightarrow> mptcp \<Rightarrow> mptcp" where
  "set_dataack ackno len m =
     (let ps = (case extend_block ackno len (dackmap m) of
                  None \<Rightarrow> dackmap m @ [\<lparr>dk_ackno = ackno, dk_length = len\<rparr>] | Some ps \<Rightarrow> ps);
          (mack, ps) = cumulate ackno len (mackno m) ps
      in m\<lparr>mackno := mack, dackmap := ps\<rparr>)"

text \<open>The mappings that end before \<open>ackno\<close> are erased up to the first that contains it.\<close>

fun getack_scan :: "int \<Rightarrow> dsn_mapping list \<Rightarrow> dsn_mapping option \<times> dsn_mapping list" where
  "getack_scan ackno [] = (None, [])"
| "getack_scan ackno (p # ps) =
     (if sseqnum p \<le> ackno \<and> ackno \<le> i32 (sseqnum p + maplen p) then (Some p, p # ps)
      else let (r, ps') = getack_scan ackno ps
           in (r, if i32 (sseqnum p + maplen p) < ackno then ps' else p # ps'))"

text \<open>\<open>None\<close>: \<open>abort ()\<close>, no mapping was found.\<close>

definition mptcp_recv_getack :: "nat \<Rightarrow> int \<Rightarrow> mptcp \<Rightarrow> (int \<times> mptcp) option" where
  "mptcp_recv_getack i ackno m =
     (if ackno = 1 then Some (0, m)
      else case getack_scan ackno (fl_recv_dsnmap (sf_tcp (subflows m ! i))) of
             (None, _) \<Rightarrow> None
           | (Some p, ps) \<Rightarrow>
               (let m = upd_flow i (\<lambda>f. f\<lparr>fl_recv_dsnmap := ps\<rparr>) m;
                    m = set_dataack (dseqnum p) (i32 (ackno - sseqnum p)) m
                in Some (mackno m, m)))"

section \<open>Options of a packet\<close>

record mp_option =
  mp_capable :: bool
  mp_join :: bool
  mp_ack :: int
  mp_dsn :: int
  mp_subseq :: int
  mp_dsnlen :: int

definition no_option :: mp_option where
  "no_option = \<lparr>mp_capable = False, mp_join = False, mp_ack = 0, mp_dsn = 0, mp_subseq = 0, mp_dsnlen = 0\<rparr>"

definition MPTCP_CAPABLEOPTION_SIZE :: int where "MPTCP_CAPABLEOPTION_SIZE = 12"
definition MPTCP_JOINOPTION_SIZE :: int where "MPTCP_JOINOPTION_SIZE = 7"
definition MPTCP_ACKOPTION_SIZE :: int where "MPTCP_ACKOPTION_SIZE = 10"
definition MPTCP_DATAOPTION_SIZE :: int where "MPTCP_DATAOPTION_SIZE = 16"

text \<open>
  The mapping attached to a data segment: the first that contains it and has not been sent, or was
  sent with this segment. It is marked as sent.
\<close>

fun attach_mapping :: "int \<Rightarrow> dsn_mapping list \<Rightarrow> dsn_mapping option \<times> dsn_mapping list" where
  "attach_mapping seqno [] = (None, [])"
| "attach_mapping seqno (p # ps) =
     (if sseqnum p \<le> seqno \<and> seqno < i32 (sseqnum p + maplen p) \<and> (sentseq p = 0 \<or> sentseq p = seqno)
      then (Some p, p\<lparr>sentseq := seqno\<rparr> # ps)
      else let (r, ps') = attach_mapping seqno ps in (r, p # ps'))"

text \<open>The MPTCP part of \<open>sendpacket\<close>: the options with their size.\<close>

definition mp_handshake :: "mpflow \<Rightarrow> bool \<Rightarrow> mp_option \<times> int" where
  "mp_handshake f ackflag =
     (if \<not> ackflag then
        if fl_primary f then (no_option\<lparr>mp_capable := True\<rparr>, MPTCP_CAPABLEOPTION_SIZE)
        else (no_option\<lparr>mp_join := True\<rparr>, MPTCP_JOINOPTION_SIZE)
      else (no_option\<lparr>mp_capable := fl_mpcapable f, mp_join := fl_mpjoin f\<rparr>,
        (if fl_mpcapable f then MPTCP_CAPABLEOPTION_SIZE else 0) + (if fl_mpjoin f then MPTCP_JOINOPTION_SIZE else 0)))"

definition attach_data :: "nat \<Rightarrow> int \<Rightarrow> mp_option \<times> int \<times> mptcp \<Rightarrow> mp_option \<times> int \<times> mptcp" where
  "attach_data i seqno r =
     (let (h, n, m) = r;
          (p, ps) = attach_mapping seqno (fl_dsnmap (sf_tcp (subflows m ! i)));
          m = upd_flow i (\<lambda>f. f\<lparr>fl_dsnmap := ps\<rparr>) m
      in case p of None \<Rightarrow> (h, n, m)
         | Some p \<Rightarrow> (h\<lparr>mp_dsn := dseqnum p, mp_subseq := sseqnum p, mp_dsnlen := maplen p\<rparr>,
             n + MPTCP_DATAOPTION_SIZE, m))"

definition mp_sendpacket :: "nat \<Rightarrow> int \<Rightarrow> int \<Rightarrow> bool \<Rightarrow> bool \<Rightarrow> int \<Rightarrow> mptcp \<Rightarrow> (mp_option \<times> int \<times> mptcp) option" where
  "mp_sendpacket i seqno ackno syn ackflag datalen m =
     (let r = (if syn then let (h, n) = mp_handshake (sf_tcp (subflows m ! i)) ackflag in Some (h, n, m)
               else map_option (\<lambda>(a, m). (no_option\<lparr>mp_ack := a\<rparr>, if a \<noteq> 0 then MPTCP_ACKOPTION_SIZE else 0, m))
                      (mptcp_recv_getack i ackno m))
      in if datalen \<noteq> 0 then map_option (attach_data i seqno) r else r)"

text \<open>
  The options of a received packet, processed by the core before the subflow's \<open>recv\<close>; the
  subflow is found by the destination address. \<open>None\<close>: \<open>abort ()\<close>, or a call through the null
  pointer of an unused subflow (their address is 0).
\<close>

definition recv_options :: "int \<Rightarrow> int \<Rightarrow> int \<Rightarrow> mp_option \<Rightarrow> mptcp \<Rightarrow> mptcp option" where
  "recv_options daddr saddr sport h m =
     (case find_subflow daddr m of
        None \<Rightarrow> None
      | Some i \<Rightarrow>
          if \<not> sf_used (subflows m ! i) then None else
          (let m = (if mp_capable h then upd_flow i (\<lambda>f. f\<lparr>fl_mpcapable := True\<rparr>) m else m);
               m = (if mp_join h then upd_flow i (\<lambda>f. f\<lparr>fl_mpjoin := True\<rparr>) m else m);
               m = (if mp_ack h \<noteq> 0 then upd_flow i (mptcp_remove_mapping (mp_ack h)) m else m);
               m = (if mp_dsn h \<noteq> 0
                    then upd_flow i (\<lambda>f. mptcp_recv_add_mapping (mp_dsn h) (mp_subseq h) (mp_dsnlen h) (f\<lparr>fl_mpack := True\<rparr>)) m
                    else m)
           in Some (m\<lparr>subflows := (subflows m)[i := (subflows m ! i)\<lparr>sf_daddr := saddr, sf_dport := sport\<rparr>]\<rparr>)))"

text \<open>
  \<open>recv\<close> of the core; \<open>tcp_recv i\<close> stands for \<open>FullTcpAgent::recv\<close> of the subflow, which may call
  back into the core.
\<close>

definition mptcp_recv :: "(nat \<Rightarrow> mptcp \<Rightarrow> mptcp) \<Rightarrow> int \<Rightarrow> int \<Rightarrow> int \<Rightarrow> mp_option \<Rightarrow> mptcp \<Rightarrow> mptcp option" where
  "mptcp_recv tcp_recv daddr saddr sport h m =
     (case find_subflow daddr m of
        None \<Rightarrow> None
      | Some i \<Rightarrow> map_option (\<lambda>m. send_control (tcp_recv i m)) (recv_options daddr saddr sport h m))"

section \<open>Coupled congestion control\<close>

text \<open>
  The loop of \<open>calculate_alpha\<close> over the subflows: the largest \<open>cwnd / rtt ^ 2\<close>, the sum of
  \<open>cwnd / rtt\<close>, the total window, the smallest round-trip time. \<open>None\<close> is the early return on
  a round-trip time that is too small.
\<close>

fun alpha_loop :: "rat \<Rightarrow> bool \<Rightarrow> bool \<Rightarrow> mpflow list \<Rightarrow> rat \<times> rat \<times> int \<times> rat \<Rightarrow> (rat \<times> rat \<times> int \<times> rat) option" where
  "alpha_loop tick l ld [] acc = Some acc"
| "alpha_loop tick l ld (f # fs) (mx, sm, tot, mn) =
     (if 4 \<le> fl_t_backoff f then alpha_loop tick l ld fs (mx, sm, tot, mn)
      else let rtt = mptcp_get_srtt tick f; cwnd = trunc_int (mptcp_get_cwnd f)
      in if rtt < 1 / 1000000 then None
      else let t = of_int cwnd / (rtt * rtt);
               mx = (if l \<and> mx < t then t else mx);
               mn = (if \<not> l \<and> ld \<and> (mn = 0 \<or> rtt < mn) then rtt else mn)
      in alpha_loop tick l ld fs (mx, sm + of_int cwnd / rtt, i32 (tot + cwnd), mn))"

definition active_flows :: "mptcp \<Rightarrow> mpflow list" where
  "active_flows m = map sf_tcp (take (sub_num m) (subflows m))"

definition calculate_alpha :: "rat \<Rightarrow> mptcp \<Rightarrow> mptcp" where
  "calculate_alpha tick m =
     (case alpha_loop tick (lia m) (lia_dctcp m) (active_flows m) (1 / 1000, 0, 0, 0) of
        None \<Rightarrow> m
      | Some (mx, sm, tot, mn) \<Rightarrow>
          if sm < 1 / 1000 then m
          else if mn < 1 / 1000 then
            if lia m \<and> \<not> lia_dctcp m then m\<lparr>alpha := of_int tot * mx / (sm * sm)\<rparr>
            else if lia_dctcp m \<and> \<not> lia m then m\<lparr>alpha := (of_int tot / mn) / sm\<rparr>
            else m
          else m)"

definition get_totalcwnd :: "mptcp \<Rightarrow> rat" where
  "get_totalcwnd m = sum_list (map mptcp_get_cwnd (active_flows m))"

definition coupled_increment :: "rat \<Rightarrow> rat \<Rightarrow> mpflow \<Rightarrow> rat" where
  "coupled_increment al totalcwnd f =
     (if 1 / 10 < totalcwnd then
        let oincrement = fl_increase_num f / fl_cwnd f;
            increment = fl_increase_num f / fl_cwnd f * (fl_cwnd f / totalcwnd) * al
        in if oincrement < increment then oincrement else increment
      else fl_increase_num f / fl_cwnd f)"

definition next_cwnd :: "rat \<Rightarrow> rat \<Rightarrow> mpflow \<Rightarrow> rat" where
  "next_cwnd al totalcwnd f =
     (let w = (if fl_cwnd f < of_int (fl_ssthresh f) \<and> fl_allow_slowstart f then fl_cwnd f + 1
               else let inc = coupled_increment al totalcwnd f;
                        inc = (if (fl_last_cwnd_action f = 0 \<or> fl_last_cwnd_action f = CWND_ACTION_TIMEOUT)
                                  \<and> 0 < fl_max_ssthresh f
                               then limited_slow_start (fl_cwnd f) (fl_max_ssthresh f) inc else inc)
                    in fl_cwnd f + inc)
      in if fl_maxcwnd f \<noteq> 0 \<and> fl_maxcwnd f < trunc_int w then of_int (fl_maxcwnd f) else w)"

definition mp_opencwnd :: "rat \<Rightarrow> nat \<Rightarrow> mptcp \<Rightarrow> mptcp" where
  "mp_opencwnd tick i m =
     (let m = calculate_alpha tick m
      in upd_flow i (\<lambda>f. f\<lparr>fl_cwnd := next_cwnd (alpha m) (get_totalcwnd m) f\<rparr>) m)"

text \<open>
  \<open>timeout_action\<close> and \<open>dupack_action\<close>: TCP's own reaction (\<open>act\<close>) on the subflow, then the factor.
\<close>

definition mp_tcp_action :: "rat \<Rightarrow> (mpflow \<Rightarrow> mpflow) \<Rightarrow> nat \<Rightarrow> mptcp \<Rightarrow> mptcp" where
  "mp_tcp_action tick act i m = calculate_alpha tick (upd_flow i act m)"

section \<open>No byte of the stream is mapped twice\<close>

definition dsn_range :: "dsn_mapping \<Rightarrow> int set" where
  "dsn_range p = {dseqnum p ..< dseqnum p + maplen p}"

definition owners :: "int \<Rightarrow> dsn_mapping list \<Rightarrow> nat" where
  "owners d ps = length (filter (\<lambda>p. d \<in> dsn_range p) ps)"

text \<open>The number of mappings, over all subflows, that contain byte \<open>d\<close> of the stream.\<close>

definition byte_owners :: "mptcp \<Rightarrow> int \<Rightarrow> nat" where
  "byte_owners m d = sum_list (map (\<lambda>s. owners d (fl_dsnmap (sf_tcp s))) (subflows m))"

text \<open>
  \<open>mcurseq_\<close> is an \<open>int\<close> and stays in range: what is left of a message fits, and when the application
  sends without end (\<open>infinite_send_\<close>, where \<open>total_bytes_\<close> is not reduced) the next segments fit.
\<close>

definition stream_ok :: "mptcp \<Rightarrow> bool" where
  "stream_ok m \<longleftrightarrow> sub_num m \<le> length (subflows m)
     \<and> 1 \<le> mcurseq m \<and> 0 \<le> total_bytes m \<and> mcurseq m < 2147483648 \<and> total_bytes m < 2147483648
     \<and> (infinite_send m \<or> mcurseq m + total_bytes m < 2147483648)
     \<and> (\<forall>s \<in> set (subflows m). 0 \<le> fl_size (sf_tcp s))
     \<and> (\<forall>d. byte_owners m d \<le> (if 1 \<le> d \<and> d < mcurseq m then 1 else 0))"

definition turns_fit :: "nat list \<Rightarrow> mptcp \<Rightarrow> bool" where
  "turns_fit js m \<longleftrightarrow> infinite_send m \<longrightarrow> mcurseq m + (\<Sum>i\<leftarrow>js. fl_size (sf_tcp (subflows m ! i))) < 2147483648"

lemma owners_append [simp]: "owners d (ps @ qs) = owners d ps + owners d qs"
  by (simp add: owners_def)

lemma owners_Cons [simp]: "owners d (p # ps) = (if d \<in> dsn_range p then 1 else 0) + owners d ps"
  by (simp add: owners_def)

lemma owners_Nil [simp]: "owners d [] = 0"
  by (simp add: owners_def)

lemma byte_owners_fields [simp]:
  "byte_owners (m\<lparr>total_bytes := t\<rparr>) d = byte_owners m d" "byte_owners (m\<lparr>mcurseq := c\<rparr>) d = byte_owners m d"
  "byte_owners (m\<lparr>mackno := a\<rparr>) d = byte_owners m d" "byte_owners (m\<lparr>dackmap := ps\<rparr>) d = byte_owners m d"
  "byte_owners (m\<lparr>alpha := al\<rparr>) d = byte_owners m d" "byte_owners (m\<lparr>infinite_send := b\<rparr>) d = byte_owners m d"
  by (simp_all add: byte_owners_def)

lemma upd_flow_fields [simp]:
  "sub_num (upd_flow i g m) = sub_num m" "total_bytes (upd_flow i g m) = total_bytes m"
  "mcurseq (upd_flow i g m) = mcurseq m" "infinite_send (upd_flow i g m) = infinite_send m"
  "length (subflows (upd_flow i g m)) = length (subflows m)"
  by (simp_all add: upd_flow_def)

lemma upd_flow_same: "i < length (subflows m) \<Longrightarrow> sf_tcp (subflows (upd_flow i g m) ! i) = g (sf_tcp (subflows m ! i))"
  by (simp add: upd_flow_def)

lemma byte_owners_upd:
  assumes "i < length (subflows m)"
  shows "byte_owners (upd_flow i g m) d + owners d (fl_dsnmap (sf_tcp (subflows m ! i)))
    = byte_owners m d + owners d (fl_dsnmap (g (sf_tcp (subflows m ! i))))"
proof -
  let ?f = "\<lambda>s. owners d (fl_dsnmap (sf_tcp s))"
  have le: "?f (subflows m ! i) \<le> byte_owners m d"
    unfolding byte_owners_def using assms by (intro member_le_sum_list) simp_all
  have "byte_owners (upd_flow i g m) d
      = sum_list ((map ?f (subflows m))[i := owners d (fl_dsnmap (g (sf_tcp (subflows m ! i))))])"
    by (simp add: byte_owners_def upd_flow_def map_update)
  also have "\<dots> = byte_owners m d + owners d (fl_dsnmap (g (sf_tcp (subflows m ! i)))) - ?f (subflows m ! i)"
    using assms by (simp add: sum_list_update byte_owners_def)
  finally show ?thesis using le by simp
qed

text \<open>An update that leaves the mappings alone, or only removes some.\<close>

lemma byte_owners_upd_le:
  assumes "owners d (fl_dsnmap (g (sf_tcp (subflows m ! i)))) \<le> owners d (fl_dsnmap (sf_tcp (subflows m ! i)))"
  shows "byte_owners (upd_flow i g m) d \<le> byte_owners m d"
proof (cases "i < length (subflows m)")
  case True
  then show ?thesis using byte_owners_upd [OF True, of g d] assms by simp
next
  case False
  then have "upd_flow i g m = m" by (simp add: upd_flow_def linorder_not_less list_update_beyond)
  then show ?thesis by simp
qed

lemma stream_ok_upd_flow:
  assumes "stream_ok m" and "\<And>f d. owners d (fl_dsnmap (g f)) \<le> owners d (fl_dsnmap f)"
    and "\<And>f. fl_size (g f) = fl_size f"
  shows "stream_ok (upd_flow i g m)"
proof -
  have "0 \<le> fl_size (sf_tcp s)" if "s \<in> set (subflows (upd_flow i g m))" for s
  proof (cases "i < length (subflows m)")
    case True
    then have "subflows m ! i \<in> set (subflows m)" by simp
    then have "0 \<le> fl_size (sf_tcp (subflows m ! i))" using assms(1) by (simp add: stream_ok_def)
    moreover have "s = (subflows m ! i)\<lparr>sf_tcp := g (sf_tcp (subflows m ! i))\<rparr> \<or> s \<in> set (subflows m)"
      using that set_update_subset_insert [of "subflows m" i] by (auto simp: upd_flow_def)
    ultimately show ?thesis using assms(1,3) by (auto simp: stream_ok_def)
  next
    case False
    then show ?thesis using that assms(1) by (simp add: upd_flow_def stream_ok_def linorder_not_less list_update_beyond)
  qed
  moreover have "byte_owners (upd_flow i g m) d \<le> (if 1 \<le> d \<and> d < mcurseq m then 1 else 0)" for d
    using byte_owners_upd_le [where g = g and m = m and i = i and d = d, OF assms(2)] assms(1) unfolding stream_ok_def by (meson order_trans)
  ultimately show ?thesis using assms(1) by (simp add: stream_ok_def)
qed

lemma advance_bytes_maps [simp]:
  "fl_dsnmap (advance_bytes n f) = fl_dsnmap f" "fl_size (advance_bytes n f) = fl_size f"
  by (simp_all add: advance_bytes_def reconnect_def queue_bytes_def tcp_reset_def Let_def split: tcp_state.splits)

lemma allow_slowstart_maps [simp]:
  "fl_dsnmap (allow_slowstart f) = fl_dsnmap f" "fl_size (allow_slowstart f) = fl_size f"
  by (simp_all add: allow_slowstart_def)

lemma send_bytes_bounds:
  assumes "send_bytes tot f = Some n" and "0 \<le> tot" and "0 \<le> fl_size f"
  shows "0 \<le> n \<and> n \<le> tot \<and> n \<le> fl_size f"
  using assms by (auto simp: send_bytes_def Let_def split: if_splits)

text \<open>
  What the core relies on when it, or TCP, acts on a subflow: the mappings may only become fewer,
  and the segment size stays.
\<close>

locale flow_action =
  fixes act :: "mpflow \<Rightarrow> mpflow"
  assumes act_maps: "owners d (fl_dsnmap (act f)) \<le> owners d (fl_dsnmap f)"
    and act_size: "fl_size (act f) = fl_size f"
begin

lemma act_stream: "stream_ok m \<Longrightarrow> stream_ok (upd_flow i act m)"
  by (rule stream_ok_upd_flow) (simp_all add: act_maps act_size)

lemma act_owners: "byte_owners (upd_flow i act m) d \<le> byte_owners m d"
  by (rule byte_owners_upd_le) (rule act_maps)

end

interpretation slowstart: flow_action allow_slowstart
  by unfold_locales simp_all

interpretation queueing: flow_action "advance_bytes n" for n
  by unfold_locales simp_all

lemma owners_remove_first: "owners d (remove_first n ps) \<le> owners d ps"
  by (induction ps) auto

interpretation removal: flow_action "mptcp_remove_mapping n" for n
  by unfold_locales (simp_all add: mptcp_remove_mapping_def owners_remove_first)

interpretation recording: flow_action "mptcp_recv_add_mapping d s n" for d s n
  by unfold_locales (simp_all add: mptcp_recv_add_mapping_def)

lemma owners_attach: "owners d (snd (attach_mapping n ps)) = owners d ps"
  by (induction ps) (auto simp: dsn_range_def split_def Let_def)

interpretation sending: flow_action "\<lambda>f. f\<lparr>fl_dsnmap := snd (attach_mapping n (fl_dsnmap f))\<rparr>" for n
  by unfold_locales (simp_all add: owners_attach)

interpretation growth: flow_action "\<lambda>f. f\<lparr>fl_cwnd := next_cwnd al w f\<rparr>" for al w
  by unfold_locales simp_all

text \<open>
  What sending does: the bytes between the old and the new \<open>mcurseq_\<close> are mapped, each once, and taken
  off the total unless the application sends without end.
\<close>

definition maps_next :: "mptcp \<Rightarrow> mptcp \<Rightarrow> bool" where
  "maps_next m m' \<longleftrightarrow> stream_ok m' \<and> sub_num m' = sub_num m \<and> infinite_send m' = infinite_send m
    \<and> total_bytes m' = (if infinite_send m then total_bytes m else total_bytes m - (mcurseq m' - mcurseq m))
    \<and> mcurseq m \<le> mcurseq m' \<and> length (subflows m') = length (subflows m)
    \<and> (\<forall>j<length (subflows m). fl_size (sf_tcp (subflows m' ! j)) = fl_size (sf_tcp (subflows m ! j)))
    \<and> (\<forall>d. byte_owners m' d = byte_owners m d + (if mcurseq m \<le> d \<and> d < mcurseq m' then 1 else 0))"

lemma maps_next_refl [simp]: "maps_next m m = stream_ok m"
  by (simp add: maps_next_def)

lemma maps_next_trans [trans]: "maps_next a b \<Longrightarrow> maps_next b c \<Longrightarrow> maps_next a c"
  by (auto simp: maps_next_def)

lemma upd_flow_sizes:
  assumes "\<And>f. fl_size (g f) = fl_size f" and "j < length (subflows m)"
  shows "fl_size (sf_tcp (subflows (upd_flow i g m) ! j)) = fl_size (sf_tcp (subflows m ! j))"
  using assms by (cases "i = j") (simp_all add: upd_flow_def)

lemma nth_of_set:
  assumes "x \<in> set xs" and "length xs = n"
  obtains j where "j < n" and "xs ! j = x"
  using assms by (auto simp: in_set_conv_nth)

lemma send_turn_maps:
  assumes "stream_ok m" and "i < sub_num m" and "turns_fit [i] m"
  shows "maps_next m (send_turn i m) \<and> mcurseq (send_turn i m) \<le> mcurseq m + fl_size (sf_tcp (subflows m ! i))"
proof -
  define m1 where "m1 = upd_flow i allow_slowstart m"
  have i: "i < length (subflows m)" using assms by (simp add: stream_ok_def)
  have ok1: "stream_ok m1" unfolding m1_def by (rule slowstart.act_stream [OF assms(1)])
  have b1: "byte_owners m1 d = byte_owners m d" for d
    using byte_owners_upd [OF i, of allow_slowstart d] by (simp add: m1_def)
  have f1: "mcurseq m1 = mcurseq m" "total_bytes m1 = total_bytes m" "sub_num m1 = sub_num m"
    "infinite_send m1 = infinite_send m" "i < length (subflows m1)" "length (subflows m1) = length (subflows m)"
    using i by (simp_all add: m1_def)
  have z1: "fl_size (sf_tcp (subflows m1 ! j)) = fl_size (sf_tcp (subflows m ! j))" if "j < length (subflows m)" for j
    unfolding m1_def by (rule upd_flow_sizes [OF _ that]) simp
  have s: "subflows m1 ! i \<in> set (subflows m1)" using f1(5) by simp
  then have z0: "0 \<le> fl_size (sf_tcp (subflows m1 ! i))" using ok1 by (simp add: stream_ok_def)
  show ?thesis
  proof (cases "send_bytes (total_bytes m1) (sf_tcp (subflows m1 ! i))")
    case None
    then have "send_turn i m = m1" by (simp add: send_turn_def Let_def m1_def)
    then show ?thesis using ok1 b1 f1 z1 z0 i by (simp add: maps_next_def)
  next
    case (Some n)
    define g where "g = (\<lambda>f. advance_bytes n (mptcp_add_mapping (mcurseq m1) n f))"
    define m2 where "m2 = upd_flow i g m1"
    have t: "send_turn i m = m2\<lparr>mcurseq := i32 (mcurseq m2 + n),
        total_bytes := (if infinite_send m2 then total_bytes m2 else i32 (total_bytes m2 - n))\<rparr>"
      using Some by (simp add: send_turn_def Let_def m1_def m2_def g_def)
    have n: "0 \<le> n" "n \<le> total_bytes m" "n \<le> fl_size (sf_tcp (subflows m ! i))"
      using send_bytes_bounds [OF Some _ z0] ok1 f1(2) z1 [OF i] by (simp_all add: stream_ok_def)
    have lim: "1 \<le> mcurseq m" "mcurseq m + n < 2147483648" "total_bytes m < 2147483648"
      using assms(1,3) n by (auto simp: stream_ok_def turns_fit_def)
    have c: "mcurseq (send_turn i m) = mcurseq m + n"
      "total_bytes (send_turn i m) = (if infinite_send m then total_bytes m else total_bytes m - n)"
      using n lim f1 by (simp_all add: t m2_def i32_id)
    have own: "byte_owners (send_turn i m) d
        = byte_owners m d + (if mcurseq m \<le> d \<and> d < mcurseq m + n then 1 else 0)" for d
      using byte_owners_upd [OF f1(5), of g d] b1 f1(1)
      by (simp add: t m2_def g_def mptcp_add_mapping_def dsn_range_def)
    have bound: "byte_owners (send_turn i m) d \<le> (if 1 \<le> d \<and> d < mcurseq m + n then 1 else 0)" for d
    proof -
      have "byte_owners m d \<le> (if 1 \<le> d \<and> d < mcurseq m then 1 else 0)" using assms(1) unfolding stream_ok_def by blast
      then show ?thesis using own [of d] n(1) lim(1) by (simp split: if_splits)
    qed
    have z2: "fl_size (sf_tcp (subflows (send_turn i m) ! j)) = fl_size (sf_tcp (subflows m ! j))" if "j < length (subflows m)" for j
      using upd_flow_sizes [of g j m1 i] z1 [OF that] that f1(6) by (simp add: t m2_def g_def mptcp_add_mapping_def)
    have l: "length (subflows (send_turn i m)) = length (subflows m)" "sub_num (send_turn i m) = sub_num m"
      "infinite_send (send_turn i m) = infinite_send m"
      using f1 by (simp_all add: t m2_def)
    have sz: "0 \<le> fl_size (sf_tcp x)" if xin: "x \<in> set (subflows (send_turn i m))" for x
    proof -
      obtain j where j: "j < length (subflows m)" "subflows (send_turn i m) ! j = x"
        by (rule nth_of_set [OF xin l(1)])
      then have "0 \<le> fl_size (sf_tcp (subflows m ! j))" using assms(1) by (simp add: stream_ok_def)
      then show ?thesis using z2 [OF j(1)] by (simp add: j(2))
    qed
    have old: "sub_num m \<le> length (subflows m)" "infinite_send m \<or> mcurseq m + total_bytes m < 2147483648"
      using assms(1) by (simp_all add: stream_ok_def)
    have nums: "1 \<le> mcurseq (send_turn i m)" "mcurseq (send_turn i m) < 2147483648"
      "0 \<le> total_bytes (send_turn i m)" "total_bytes (send_turn i m) < 2147483648"
      "infinite_send m \<or> mcurseq (send_turn i m) + total_bytes (send_turn i m) < 2147483648"
      using n lim old(2) unfolding c by (cases "infinite_send m"; simp)+
    have ok: "stream_ok (send_turn i m)"
      unfolding stream_ok_def l using old(1) nums sz bound unfolding c by blast
    have "total_bytes (send_turn i m) = (if infinite_send m then total_bytes m else total_bytes m - (mcurseq (send_turn i m) - mcurseq m))"
      and "mcurseq m \<le> mcurseq (send_turn i m)"
      using n(1) unfolding c by simp_all
    moreover have "\<forall>d. byte_owners (send_turn i m) d
        = byte_owners m d + (if mcurseq m \<le> d \<and> d < mcurseq (send_turn i m) then 1 else 0)"
      using own unfolding c by blast
    ultimately have "maps_next m (send_turn i m)"
      unfolding maps_next_def using ok l z2 by blast
    then show ?thesis using n(3) unfolding c by simp
  qed
qed

lemma turns_fit_Cons:
  assumes "stream_ok m" and "\<forall>j \<in> set (i # js). j < sub_num m" and "turns_fit (i # js) m"
  shows "turns_fit [i] m" and "turns_fit js (send_turn i m)"
proof -
  have i: "i < sub_num m" and l: "sub_num m \<le> length (subflows m)" using assms(1,2) by (simp_all add: stream_ok_def)
  have "0 \<le> fl_size (sf_tcp (subflows m ! j))" if "j < sub_num m" for j
    using that l assms(1) by (auto simp: stream_ok_def)
  then have "0 \<le> (\<Sum>j\<leftarrow>js. fl_size (sf_tcp (subflows m ! j)))"
    using assms(2) by (intro sum_list_nonneg) auto
  then show fit: "turns_fit [i] m"
    using assms(3) by (auto simp: turns_fit_def)
  note t = send_turn_maps [OF assms(1) i fit]
  have e: "(\<Sum>j\<leftarrow>js. fl_size (sf_tcp (subflows (send_turn i m) ! j))) = (\<Sum>j\<leftarrow>js. fl_size (sf_tcp (subflows m ! j)))"
    using t l assms(2) by (intro arg_cong [where f = sum_list] map_cong refl) (auto simp: maps_next_def)
  show "turns_fit js (send_turn i m)"
    using t assms(3) unfolding turns_fit_def e by (auto simp: maps_next_def)
qed

lemma send_loop_maps:
  assumes "stream_ok m" and "\<forall>i \<in> set js. i < sub_num m" and "turns_fit js m"
  shows "maps_next m (fold send_turn js m)"
  using assms
proof (induction "js" arbitrary: m)
  case (Cons i js)
  note fit = turns_fit_Cons [OF Cons.prems]
  have t: "maps_next m (send_turn i m)"
    using send_turn_maps [OF Cons.prems(1) _ fit(1)] Cons.prems(2) by simp
  then have "maps_next (send_turn i m) (fold send_turn js (send_turn i m))"
    using fit(2) Cons.prems(2) by (intro Cons.IH) (auto simp: maps_next_def)
  then show ?case using t maps_next_trans by fastforce
qed simp

text \<open>\<open>send_control\<close> is a turn for every subflow.\<close>

lemma send_control_maps:
  assumes "stream_ok m" and "turns_fit [0..<sub_num m] m"
  shows "maps_next m (send_control m)"
  using send_loop_maps [OF assms(1) _ assms(2)] assms(1) by (simp add: send_control_def)

lemma stream_ok_fields:
  "stream_ok (m\<lparr>mackno := a, dackmap := ps\<rparr>) = stream_ok m" "stream_ok (m\<lparr>alpha := al\<rparr>) = stream_ok m"
  by (simp_all add: stream_ok_def)

lemma stream_ok_endpoint:
  "stream_ok m \<Longrightarrow> stream_ok (m\<lparr>subflows := (subflows m)[i := (subflows m ! i)\<lparr>sf_daddr := a, sf_dport := p\<rparr>]\<rparr>)"
proof -
  assume ok: "stream_ok m"
  let ?s = "(subflows m ! i)\<lparr>sf_daddr := a, sf_dport := p\<rparr>"
  have "map sf_tcp ((subflows m)[i := ?s]) = map sf_tcp (subflows m)"
    by (cases "i < length (subflows m)")
      (simp_all add: map_update list_update_same_conv linorder_not_less list_update_beyond)
  then have e: "map (h \<circ> sf_tcp) ((subflows m)[i := ?s]) = map (h \<circ> sf_tcp) (subflows m)" for h :: "mpflow \<Rightarrow> nat"
    by (simp only: map_map [symmetric])
  have "map (\<lambda>s. owners d (fl_dsnmap (sf_tcp s))) ((subflows m)[i := ?s]) = map (\<lambda>s. owners d (fl_dsnmap (sf_tcp s))) (subflows m)" for d
    using e [of "\<lambda>f. owners d (fl_dsnmap f)"] by (simp add: o_def)
  moreover have "sf_tcp ` set ((subflows m)[i := ?s]) = sf_tcp ` set (subflows m)"
    using arg_cong [OF \<open>map sf_tcp ((subflows m)[i := ?s]) = map sf_tcp (subflows m)\<close>, of set] by simp
  then have "\<forall>s \<in> set ((subflows m)[i := ?s]). 0 \<le> fl_size (sf_tcp s)"
    using ok unfolding stream_ok_def by (metis (no_types, lifting) imageE imageI)
  ultimately show ?thesis using ok by (simp add: stream_ok_def byte_owners_def)
qed

lemma recv_options_ok: "stream_ok m \<Longrightarrow> recv_options daddr saddr sport h m = Some m' \<Longrightarrow> stream_ok m'"
  by (auto simp: recv_options_def Let_def mptcp_recv_add_mapping_def
      intro!: stream_ok_endpoint removal.act_stream stream_ok_upd_flow split: option.splits if_splits)

lemma recv_getack_ok: "stream_ok m \<Longrightarrow> mptcp_recv_getack i a m = Some (r, m') \<Longrightarrow> stream_ok m'"
  by (auto simp: mptcp_recv_getack_def set_dataack_def Let_def stream_ok_fields
      intro!: stream_ok_upd_flow split: if_splits option.splits prod.splits)

lemma attach_data_ok:
  assumes "stream_ok m" and "attach_data i s (h, n, m) = (h', n', m')"
  shows "stream_ok m'"
proof -
  let ?g = "\<lambda>f. f\<lparr>fl_dsnmap := snd (attach_mapping s (fl_dsnmap f))\<rparr>"
  have "m' = upd_flow i ?g m"
    using assms(2) by (auto simp: attach_data_def Let_def split_def upd_flow_def split: option.splits)
  then show ?thesis using sending.act_stream [OF assms(1)] by simp
qed

lemma sendpacket_ok:
  assumes "stream_ok m" and "mp_sendpacket i s a syn af dl m = Some (h, n, m')"
  shows "stream_ok m'"
proof -
  define r where "r = (if syn then let (h, n) = mp_handshake (sf_tcp (subflows m ! i)) af in Some (h, n, m)
      else map_option (\<lambda>(a, m). (no_option\<lparr>mp_ack := a\<rparr>, if a \<noteq> 0 then MPTCP_ACKOPTION_SIZE else 0, m))
             (mptcp_recv_getack i a m))"
  have r: "stream_ok m1" if "r = Some (h1, n1, m1)" for h1 n1 m1
    using that assms(1) recv_getack_ok [OF assms(1)] by (auto simp: r_def split_def Let_def split: if_splits)
  have "(if dl \<noteq> 0 then map_option (attach_data i s) r else r) = Some (h, n, m')"
    using assms(2) by (simp only: mp_sendpacket_def r_def Let_def)
  then show ?thesis using r attach_data_ok by (cases "dl = 0") auto
qed

lemma calculate_alpha_ok: "stream_ok m \<Longrightarrow> stream_ok (calculate_alpha tick m)"
  by (simp add: calculate_alpha_def stream_ok_fields split_def split: option.splits)

lemma opencwnd_ok: "stream_ok m \<Longrightarrow> stream_ok (mp_opencwnd tick i m)"
  unfolding mp_opencwnd_def Let_def by (intro growth.act_stream calculate_alpha_ok)

text \<open>
  The steps of the core and its subflows: the application hands over bytes, or starts to send without
  end (\<open>sendmsg\<close> with \<open>- 1\<close>), \<open>send_control\<close> does one turn (between two turns the subflow
  transmits), a packet arrives, a packet leaves, a window opens, and whatever else TCP does on a
  subflow that leaves the mappings and the segment size alone. The sequence numbers fit an
  \<open>int\<close>: a message does not go beyond it, and an endless turn neither.
\<close>

inductive mp_step :: "mptcp \<Rightarrow> mptcp \<Rightarrow> bool" where
  app: "0 \<le> n \<Longrightarrow> mcurseq m + n < 2147483648 \<Longrightarrow> mp_step m (hand_over n m)"
| endless: "mp_step m (hand_over (- 1) m)"
| turn: "i < sub_num m \<Longrightarrow> turns_fit [i] m \<Longrightarrow> mp_step m (send_turn i m)"
| arrive: "recv_options daddr saddr sport h m = Some m' \<Longrightarrow> mp_step m m'"
| leave: "mp_sendpacket i s a syn af dl m = Some (h, n, m') \<Longrightarrow> mp_step m m'"
| opens: "mp_step m (mp_opencwnd tick i m)"
| tcp: "(\<And>f. fl_dsnmap (g f) = fl_dsnmap f) \<Longrightarrow> (\<And>f. fl_size (g f) = fl_size f) \<Longrightarrow> mp_step m (upd_flow i g m)"

inductive_cases mp_stepE: "mp_step m m'"

lemma mp_step_ok: "mp_step m m' \<Longrightarrow> stream_ok m \<Longrightarrow> stream_ok m'"
proof (induction rule: mp_step.induct)
  case (app n m)
  then show ?case by (simp add: stream_ok_def hand_over_def)
next
  case (endless m)
  then show ?case by (simp add: stream_ok_def hand_over_def TCP_MAXSEQ_def)
next
  case (turn i m)
  then show ?case using send_turn_maps unfolding maps_next_def by blast
next
  case (arrive daddr saddr sport h m m')
  then show ?case using recv_options_ok by blast
next
  case (leave i s a syn af dl m h n m')
  then show ?case using sendpacket_ok by blast
next
  case (opens m tick i)
  then show ?case by (rule opencwnd_ok)
next
  case (tcp g m i)
  then show ?case by (intro stream_ok_upd_flow) simp_all
qed

lemma mp_reach_ok: "mp_step\<^sup>*\<^sup>* m m' \<Longrightarrow> stream_ok m \<Longrightarrow> stream_ok m'"
  by (induction rule: rtranclp_induct) (blast intro: mp_step_ok)+

text \<open>\<open>sendmsg\<close> itself is a sequence of such steps.\<close>

lemma sub_num_send_turn [simp]: "sub_num (send_turn i m) = sub_num m"
  by (simp add: send_turn_def Let_def split: option.split)

lemma infinite_send_turn [simp]: "infinite_send (send_turn i m) = infinite_send m"
  by (simp add: send_turn_def Let_def split: option.split)

lemma turns_reach:
  "stream_ok m \<Longrightarrow> \<forall>i \<in> set js. i < sub_num m \<Longrightarrow> turns_fit js m \<Longrightarrow> mp_step\<^sup>*\<^sup>* m (fold send_turn js m)"
proof (induction js arbitrary: m)
  case (Cons i js)
  note fit = turns_fit_Cons [OF Cons.prems]
  have "mp_step m (send_turn i m)" using Cons.prems(2) fit(1) by (intro mp_step.turn) simp_all
  moreover have "mp_step\<^sup>*\<^sup>* (send_turn i m) (fold send_turn js (send_turn i m))"
    using Cons.prems fit(2) send_turn_maps [OF Cons.prems(1) _ fit(1)] by (intro Cons.IH) (simp_all add: maps_next_def)
  ultimately show ?case by (simp add: converse_rtranclp_into_rtranclp)
qed simp

lemma sendmsg_reaches:
  assumes "stream_ok m" and "mp_step m (hand_over n m)" and "turns_fit [0..<sub_num m] (hand_over n m)"
  shows "mp_step\<^sup>*\<^sup>* m (mptcp_sendmsg n m)"
proof -
  have "sub_num (hand_over n m) = sub_num m" by (simp add: hand_over_def)
  then have "mp_step\<^sup>*\<^sup>* (hand_over n m) (mptcp_sendmsg n m)"
    using turns_reach [OF mp_step_ok [OF assms(2,1)], of "[0..<sub_num m]"] assms(3)
    by (simp add: mptcp_sendmsg_def send_control_def)
  then show ?thesis using assms(2) by (rule converse_rtranclp_into_rtranclp [rotated])
qed

text \<open>
  The whole of \<open>recv\<close> keeps the stream when the subflow's TCP does; so do the reactions to a loss.
\<close>

lemma mptcp_recv_ok:
  assumes "stream_ok m" and "mptcp_recv tcp_recv daddr saddr sport h m = Some m'"
    and "\<And>i m. stream_ok m \<Longrightarrow> stream_ok (tcp_recv i m) \<and> turns_fit [0..<sub_num (tcp_recv i m)] (tcp_recv i m)"
  shows "stream_ok m'"
  using assms recv_options_ok send_control_maps unfolding maps_next_def by (fastforce simp: mptcp_recv_def split: option.splits)

lemma mp_tcp_action_ok: "flow_action act \<Longrightarrow> stream_ok m \<Longrightarrow> stream_ok (mp_tcp_action tick act i m)"
  unfolding mp_tcp_action_def by (intro calculate_alpha_ok flow_action.act_stream)

text \<open>A new core whose agents are attached one after the other fills its slots in order.\<close>

lemma search_used: "search (\<lambda>b. \<not> b) (replicate n True @ False # bs) = Some n"
  by (induction n) simp_all

lemma search_map: "search P (map f xs) = search (P \<circ> f) xs"
  by (induction xs) simp_all

definition slots_filled :: "nat \<Rightarrow> mptcp \<Rightarrow> bool" where
  "slots_filled n m \<longleftrightarrow> sub_num m = n \<and> length (subflows m) = MAX_SUBFLOW \<and> n \<le> MAX_SUBFLOW
     \<and> map sf_used (subflows m) = replicate n True @ replicate (MAX_SUBFLOW - n) False"

lemma new_mptcp_slots: "slots_filled 0 (new_mptcp f dn al)"
  by (simp add: slots_filled_def new_mptcp_def)

lemma attach_next_slot:
  assumes "slots_filled n m" and "n < MAX_SUBFLOW"
  shows "\<exists>m'. attach_tcp addr port f m = Some m' \<and> slots_filled (Suc n) m' \<and> sf_tcp (subflows m' ! n) = f"
proof -
  have u: "map sf_used (subflows m) = replicate n True @ False # replicate (MAX_SUBFLOW - Suc n) False"
    using assms by (simp add: slots_filled_def Suc_diff_Suc flip: replicate_Suc)
  then have g: "get_subnum m = Some n"
    using search_map [of "\<lambda>b. \<not> b" sf_used "subflows m"] by (simp add: get_subnum_def search_used o_def)
  have "(map sf_used (subflows m))[n := True] = replicate (Suc n) True @ replicate (MAX_SUBFLOW - Suc n) False"
    unfolding u by (simp add: list_update_append replicate_app_Cons_same)
  then show ?thesis using assms g by (auto simp: attach_tcp_def slots_filled_def map_update)
qed

text \<open>With all slots taken, the index is \<open>-1\<close> and the store is outside the array.\<close>

lemma attach_overflows: "slots_filled MAX_SUBFLOW m \<Longrightarrow> attach_tcp addr port f m = None"
proof -
  assume "slots_filled MAX_SUBFLOW m"
  then have "map sf_used (subflows m) = replicate MAX_SUBFLOW True" by (simp add: slots_filled_def)
  moreover have "search (\<lambda>b. \<not> b) (replicate n True) = None" for n by (induction n) simp_all
  ultimately show ?thesis using search_map [of "\<lambda>b. \<not> b" sf_used "subflows m"]
    by (simp add: attach_tcp_def get_subnum_def o_def)
qed

section \<open>The data-level acknowledgment\<close>

text \<open>
  Data that arrive in stream order are acknowledged exactly: each block extends the only record,
  and the cumulative acknowledgment is its end.
\<close>

definition ack_ready :: "mptcp \<Rightarrow> bool" where
  "ack_ready m \<longleftrightarrow> 0 \<le> mackno m \<and> (dackmap m = []
     \<or> (\<exists>p. dackmap m = [p] \<and> 0 \<le> dk_ackno p \<and> 0 \<le> dk_length p \<and> dk_ackno p + dk_length p = mackno m))"

lemma set_dataack_next:
  assumes "ack_ready m" and "0 < n" and "mackno m + n < 2147483648"
  shows "mackno (set_dataack (mackno m) n m) = mackno m + n" and "ack_ready (set_dataack (mackno m) n m)"
proof -
  have m: "0 \<le> mackno m" using assms(1) by (simp add: ack_ready_def)
  have "mackno (set_dataack (mackno m) n m) = mackno m + n \<and> ack_ready (set_dataack (mackno m) n m)"
  proof (cases "dackmap m = []")
    case True
    then show ?thesis using assms m by (simp add: set_dataack_def ack_ready_def i32_id Let_def)
  next
    case False
    then obtain p where p: "dackmap m = [p]" "0 \<le> dk_ackno p" "0 \<le> dk_length p" "dk_ackno p + dk_length p = mackno m"
      using assms(1) by (auto simp: ack_ready_def)
    then show ?thesis using assms(2,3) m by (simp add: set_dataack_def ack_ready_def i32_id Let_def)
  qed
  then show "mackno (set_dataack (mackno m) n m) = mackno m + n" "ack_ready (set_dataack (mackno m) n m)" by simp_all
qed

definition arrive_next :: "int \<Rightarrow> mptcp \<Rightarrow> mptcp" where
  "arrive_next n m = set_dataack (mackno m) n m"

lemma in_order_acks:
  assumes "ack_ready m" and "\<forall>n \<in> set ns. 0 < n" and "mackno m + sum_list ns < 2147483648"
  shows "mackno (fold arrive_next ns m) = mackno m + sum_list ns"
  using assms
proof (induction ns arbitrary: m)
  case (Cons n ns)
  have "0 \<le> sum_list ns" using Cons.prems(2) by (intro sum_list_nonneg) (auto intro: less_imp_le)
  then have b: "mackno m + n < 2147483648" "0 < n" using Cons.prems by simp_all
  note s = set_dataack_next [OF Cons.prems(1) b(2,1)]
  show ?case using Cons.IH [of "arrive_next n m"] s Cons.prems(2,3) by (simp add: arrive_next_def)
qed simp

text \<open>
  A block beyond a gap is acknowledged together with the gap: the record that contains the
  cumulative acknowledgment moves it to the end of the new block, whichever block that is.
\<close>

lemma set_dataack_gap:
  assumes "dackmap m = [p]" and "dk_ackno p \<le> mackno m" and "mackno m \<le> dk_ackno p + dk_length p"
    and "0 \<le> dk_ackno p" and "dk_ackno p + dk_length p < b" and "0 \<le> n" and "b + n < 2147483648"
  shows "mackno (set_dataack b n m) = b + n"
  using assms by (simp add: set_dataack_def i32_id Let_def)

text \<open>An old block moves it backwards.\<close>

lemma set_dataack_old:
  assumes "dackmap m = [p]" and "dk_ackno p \<le> mackno m" and "mackno m = dk_ackno p + dk_length p"
    and "0 \<le> dk_ackno p" and "dk_ackno p \<le> b" and "0 \<le> n" and "b + n < mackno m" and "mackno m < 2147483648"
  shows "mackno (set_dataack b n m) = b + n"
  using assms by (simp add: set_dataack_def i32_id Let_def)

lemma set_dataack_follows:
  assumes "dackmap m = [p]" and "mackno m = dk_ackno p + dk_length p" and "0 \<le> dk_ackno p" and "0 \<le> dk_length p"
    and "mackno m < 2147483648" and "0 \<le> n" and "b + n < 2147483648"
    and "mackno m < b \<or> dk_ackno p \<le> b \<and> b + n < mackno m"
  shows "mackno (set_dataack b n m) = b + n"
  using assms(8)
proof
  assume "mackno m < b"
  with assms(2-7) show ?thesis by (intro set_dataack_gap [OF assms(1)]) linarith+
next
  assume "dk_ackno p \<le> b \<and> b + n < mackno m"
  with assms(2-7) show ?thesis by (intro set_dataack_old [OF assms(1)]) linarith+
qed

section \<open>The coupled increase\<close>

text \<open>On a good path: the round-trip time is not too small, the window is at least one segment.\<close>

definition path_up :: "rat \<Rightarrow> mpflow \<Rightarrow> bool" where
  "path_up tick f \<longleftrightarrow> fl_t_backoff f < 4 \<and> 1 / 1000000 \<le> mptcp_get_srtt tick f \<and> 1 \<le> trunc_int (mptcp_get_cwnd f)"

definition total_window :: "mpflow list \<Rightarrow> int" where
  "total_window fs = sum_list (map (\<lambda>f. trunc_int (mptcp_get_cwnd f)) fs)"

text \<open>With equal round-trip times \<open>r\<close>, the loop computes \<open>W / r\<close> and a maximum of at most \<open>W / r\<^sup>2\<close>.\<close>

lemma alpha_loop_equal_rtt:
  assumes "\<forall>f \<in> set fs. path_up tick f \<and> mptcp_get_srtt tick f = r" and "0 \<le> tot"
    and "tot + total_window fs < 2147483648" and "0 < r"
  shows "\<exists>mx'. alpha_loop tick True False fs (mx, sm, tot, mn)
      = Some (mx', sm + of_int (total_window fs) / r, tot + total_window fs, mn)
    \<and> mx \<le> mx' \<and> mx' \<le> max mx (of_int (total_window fs) / (r * r)) \<and> 0 \<le> total_window fs"
  using assms(1-3)
proof (induction fs arbitrary: mx sm tot)
  case Nil
  then show ?case by (simp add: total_window_def)
next
  case (Cons f fs)
  define c where "c = trunc_int (mptcp_get_cwnd f)"
  define mx1 where "mx1 = (if mx < of_int c / (r * r) then of_int c / (r * r) else mx)"
  have f: "fl_t_backoff f < 4" "mptcp_get_srtt tick f = r" "1 / 1000000 \<le> r" "1 \<le> c"
    using Cons.prems(1) by (auto simp: path_up_def c_def)
  have w: "total_window (f # fs) = c + total_window fs" by (simp add: total_window_def c_def)
  have pos: "0 \<le> total_window fs" unfolding total_window_def
    using Cons.prems(1) by (intro sum_list_nonneg) (auto simp: path_up_def intro: order_trans [of 0 1])
  have t: "i32 (tot + c) = tot + c" using Cons.prems(2,3) w pos f(4) by (intro i32_id) linarith+
  obtain mx' where IH: "alpha_loop tick True False fs (mx1, sm + of_int c / r, tot + c, mn)
      = Some (mx', sm + of_int c / r + of_int (total_window fs) / r, tot + c + total_window fs, mn)"
    "mx1 \<le> mx'" "mx' \<le> max mx1 (of_int (total_window fs) / (r * r))"
    using Cons.IH [of "tot + c" mx1 "sm + of_int c / r"] Cons.prems w f(4) by auto
  have "alpha_loop tick True False (f # fs) (mx, sm, tot, mn)
      = alpha_loop tick True False fs (mx1, sm + of_int c / r, tot + c, mn)"
    using f t by (simp add: Let_def mx1_def c_def)
  moreover have "sm + of_int c / r + of_int (total_window fs) / r = sm + of_int (total_window (f # fs)) / r"
    by (simp add: w add_divide_distrib)
  moreover have "tot + c + total_window fs = tot + total_window (f # fs)" by (simp add: w)
  moreover have "mx \<le> mx'" using IH(2) by (auto simp: mx1_def split: if_splits)
  moreover have "mx' \<le> max mx (of_int (total_window (f # fs)) / (r * r))"
  proof -
    have "of_int c / (r * r) \<le> of_int (total_window (f # fs)) / (r * r)"
      "of_int (total_window fs) / (r * r) \<le> of_int (total_window (f # fs)) / (r * r)"
      using pos f(4) by (simp_all add: w divide_right_mono)
    then show ?thesis using IH(3) by (auto simp: mx1_def split: if_splits)
  qed
  ultimately show ?case using IH(1) w pos f(4) by auto
qed

text \<open>
  With equal round-trip times LIA's factor is between 0 and 1, so that the subflows together grow
  no faster than one TCP.
\<close>

lemma lia_equal_rtt:
  assumes "lia m" and "\<not> lia_dctcp m" and "active_flows m \<noteq> []"
    and "\<forall>f \<in> set (active_flows m). path_up tick f \<and> mptcp_get_srtt tick f = r"
    and "total_window (active_flows m) < 2147483648" and "1 / 1000000 \<le> r" and "r \<le> 30"
  shows "0 \<le> alpha (calculate_alpha tick m) \<and> alpha (calculate_alpha tick m) \<le> 1"
proof -
  define W :: rat where "W = of_int (total_window (active_flows m))"
  have r: "0 < r" using assms(6) by (rule less_le_trans [rotated]) simp
  obtain mx where l: "alpha_loop tick True False (active_flows m) (1 / 1000, 0, 0, 0)
      = Some (mx, W / r, total_window (active_flows m), 0)" "1 / 1000 \<le> mx" "mx \<le> max (1 / 1000) (W / (r * r))"
    using alpha_loop_equal_rtt [OF assms(4), of 0 "1 / 1000" 0 0] assms(5) r by (auto simp: W_def)
  obtain f fs where e: "active_flows m = f # fs" using assms(3) by (cases "active_flows m") auto
  have "0 \<le> total_window fs" unfolding total_window_def
    using assms(4) e by (intro sum_list_nonneg) (auto simp: path_up_def intro: order_trans [of 0 1])
  moreover have "1 \<le> trunc_int (mptcp_get_cwnd f)" using assms(4) e by (simp add: path_up_def)
  ultimately have "1 \<le> total_window (active_flows m)" by (simp add: e total_window_def)
  then have W: "1 \<le> W" unfolding W_def by simp
  have "W / r \<ge> 1 / 30"
  proof -
    have "1 / 30 \<le> 1 / r" using assms(7) r by (simp add: field_simps)
    also have "\<dots> \<le> W / r" using W r by (intro divide_right_mono) simp_all
    finally show ?thesis .
  qed
  then have s: "\<not> W / r < 1 / 1000" by linarith
  have a: "alpha (calculate_alpha tick m) = W * mx / ((W / r) * (W / r))"
    using assms(1,2) l(1) s by (simp add: calculate_alpha_def W_def)
  also have "\<dots> = mx * (r * r) / W" using W r by (simp add: field_simps)
  finally have a: "alpha (calculate_alpha tick m) = mx * (r * r) / W" .
  have "mx * (r * r) \<le> W"
  proof (cases "W / (r * r) \<le> 1 / 1000")
    case True
    then have "mx \<le> 1 / 1000" using l(3) by simp
    then have "mx * (r * r) \<le> 1 / 1000 * (30 * 30)"
      using assms(7) r l(2) by (intro mult_mono) (auto simp: less_imp_le intro: mult_mono order_trans [of 0 "1/1000"])
    then show ?thesis using W by linarith
  next
    case False
    then have "mx \<le> W / (r * r)" using l(3) by simp
    then show ?thesis using r by (simp add: field_simps)
  qed
  then show ?thesis unfolding a using W l(2) r by (simp add: field_simps)
qed

lemma calculate_alpha_fields [simp]:
  "active_flows (calculate_alpha tick m) = active_flows m" "get_totalcwnd (calculate_alpha tick m) = get_totalcwnd m"
  "subflows (calculate_alpha tick m) = subflows m"
  by (simp_all add: calculate_alpha_def active_flows_def get_totalcwnd_def split_def split: option.split)

text \<open>The increase is at most that of one TCP, and at most the flow's share \<open>\<alpha> / W\<close>.\<close>

lemma coupled_le_reno: "coupled_increment al w f \<le> fl_increase_num f / fl_cwnd f"
  by (simp add: coupled_increment_def Let_def)

lemma coupled_le_share:
  assumes "1 / 10 < w" and "0 < fl_cwnd f"
  shows "coupled_increment al w f \<le> fl_increase_num f * al / w"
  using assms by (simp add: coupled_increment_def Let_def)

lemma coupled_nonneg:
  assumes "0 \<le> al" and "0 < fl_cwnd f" and "0 \<le> fl_increase_num f"
  shows "0 \<le> coupled_increment al w f"
  using assms by (simp add: coupled_increment_def Let_def)

lemma next_cwnd_bounds:
  assumes "0 \<le> al" and "0 < fl_cwnd f" and "0 \<le> fl_increase_num f" and "fl_max_ssthresh f \<le> 0" and "fl_maxcwnd f = 0"
  shows "fl_cwnd f \<le> next_cwnd al w f"
    and "next_cwnd al w f \<le> fl_cwnd f + (if fl_cwnd f < of_int (fl_ssthresh f) \<and> fl_allow_slowstart f then 1
      else fl_increase_num f / fl_cwnd f)"
  using assms coupled_le_reno [of al w f] coupled_nonneg [of al f w]
  by (simp_all add: next_cwnd_def Let_def)

lemma opencwnd_bounds:
  assumes "0 \<le> alpha (calculate_alpha tick m)" and "i < length (subflows m)" and "f = sf_tcp (subflows m ! i)"
    and "0 < fl_cwnd f" and "0 \<le> fl_increase_num f" and "fl_max_ssthresh f \<le> 0" and "fl_maxcwnd f = 0"
  shows "fl_cwnd f \<le> fl_cwnd (sf_tcp (subflows (mp_opencwnd tick i m) ! i))
    \<and> fl_cwnd (sf_tcp (subflows (mp_opencwnd tick i m) ! i)) \<le> fl_cwnd f
        + (if fl_cwnd f < of_int (fl_ssthresh f) \<and> fl_allow_slowstart f then 1 else fl_increase_num f / fl_cwnd f)"
  using next_cwnd_bounds [OF assms(1,4-7)] assms(2,3) by (simp add: mp_opencwnd_def Let_def upd_flow_def)

text \<open>
  With equal round-trip times, all subflows together grow by at most one segment per round trip:
  each window's worth of acknowledgments adds \<open>cwnd * increment\<close>.
\<close>

lemma path_up_cwnd: "path_up tick f \<Longrightarrow> \<not> fl_fastrecov f \<Longrightarrow> 1 \<le> fl_cwnd f"
proof -
  assume a: "path_up tick f" "\<not> fl_fastrecov f"
  then have t: "1 \<le> trunc_int (fl_cwnd f)" by (simp add: path_up_def mptcp_get_cwnd_def)
  show ?thesis
  proof (cases "0 \<le> fl_cwnd f")
    case True
    have "(1::rat) \<le> of_int (trunc_int (fl_cwnd f))" using t by simp
    then show ?thesis using trunc_int_le [OF True] by linarith
  next
    case False
    then have "\<lceil>fl_cwnd f\<rceil> \<le> 0" by (simp add: ceiling_le_iff)
    then show ?thesis using t False by (simp add: trunc_int_def)
  qed
qed

lemma lia_total_growth:
  assumes "lia m" and "\<not> lia_dctcp m" and "active_flows m \<noteq> []"
    and "\<forall>f \<in> set (active_flows m). path_up tick f \<and> mptcp_get_srtt tick f = r \<and> \<not> fl_fastrecov f \<and> fl_increase_num f = 1"
    and "total_window (active_flows m) < 2147483648" and "1 / 1000000 \<le> r" and "r \<le> 30"
  shows "(\<Sum>f \<leftarrow> active_flows m. fl_cwnd f * coupled_increment (alpha (calculate_alpha tick m)) (get_totalcwnd m) f) \<le> 1"
proof -
  define al where "al = alpha (calculate_alpha tick m)"
  define w where "w = get_totalcwnd m"
  have al: "al \<le> 1" unfolding al_def using assms by (intro lia_equal_rtt [THEN conjunct2]) auto
  have c: "1 \<le> fl_cwnd f" "mptcp_get_cwnd f = fl_cwnd f" "fl_increase_num f = 1" if "f \<in> set (active_flows m)" for f
    using assms(4) that path_up_cwnd by (auto simp: mptcp_get_cwnd_def)
  have w: "w = (\<Sum>f \<leftarrow> active_flows m. fl_cwnd f)"
    unfolding w_def get_totalcwnd_def using c(2) by (simp cong: map_cong)
  obtain f fs where e: "active_flows m = f # fs" using assms(3) by (cases "active_flows m") auto
  have "0 \<le> (\<Sum>f \<leftarrow> fs. fl_cwnd f)" using c(1) e by (intro sum_list_nonneg) (auto intro: order_trans [of 0 1])
  then have w1: "1 \<le> w" using c(1) [of f] e by (simp add: w)
  have "(\<Sum>f \<leftarrow> active_flows m. fl_cwnd f * coupled_increment al w f) \<le> (\<Sum>f \<leftarrow> active_flows m. fl_cwnd f * (al / w))"
  proof (rule sum_list_mono)
    fix f assume f: "f \<in> set (active_flows m)"
    have "coupled_increment al w f \<le> al / w"
      using coupled_le_share [of w f al] w1 c [OF f] by simp
    then show "fl_cwnd f * coupled_increment al w f \<le> fl_cwnd f * (al / w)"
      using c(1) [OF f] by (intro mult_left_mono) auto
  qed
  also have "\<dots> = (\<Sum>f \<leftarrow> active_flows m. fl_cwnd f) * (al / w)" by (rule sum_list_mult_const)
  also have "\<dots> = w * (al / w)" by (simp only: w)
  also have "\<dots> = al" using w1 by simp
  finally show ?thesis using al by (simp add: al_def w_def)
qed

text \<open>
  The other mode (\<open>lia_dctcp_alpha_\<close>): over the paths without many timeouts, the total window by the
  smallest round-trip time by the sum of \<open>cwnd / rtt\<close>, which is at least 1. But the factor is left as it
  is unless the smallest round-trip time is below one millisecond (the guard \<open>min_rtt < 0.001\<close>).
\<close>

definition live_flows :: "mptcp \<Rightarrow> mpflow list" where
  "live_flows m = filter (\<lambda>f. fl_t_backoff f < 4) (active_flows m)"

definition path_rate :: "rat \<Rightarrow> mpflow \<Rightarrow> rat" where
  "path_rate tick f = of_int (trunc_int (mptcp_get_cwnd f)) / mptcp_get_srtt tick f"

lemma alpha_loop_live: "alpha_loop tick l ld fs acc = alpha_loop tick l ld (filter (\<lambda>f. fl_t_backoff f < 4) fs) acc"
  by (induction fs arbitrary: acc) (auto simp: Let_def split_def)

lemma alpha_loop_slow: "\<exists>f\<in>set fs. fl_t_backoff f < 4 \<and> mptcp_get_srtt tick f < 1 / 1000000 \<Longrightarrow> alpha_loop tick l ld fs acc = None"
proof (induction fs arbitrary: acc)
  case (Cons g fs)
  obtain mx sm tot mn where acc: "acc = (mx, sm, tot, mn)"
    by (cases acc)
  show ?case
  proof (cases "\<exists>f\<in>set fs. fl_t_backoff f < 4 \<and> mptcp_get_srtt tick f < 1 / 1000000")
    case True
    then have "alpha_loop tick l ld fs acc = None" for acc
      by (rule Cons.IH)
    then show ?thesis
      by (simp add: acc Let_def)
  next
    case False
    then have "fl_t_backoff g < 4 \<and> mptcp_get_srtt tick g < 1 / 1000000"
      using Cons.prems False by auto
    then show ?thesis
      by (simp add: acc Let_def)
  qed
qed simp

lemma alpha_loop_dctcp:
  assumes "\<forall>f\<in>set fs. fl_t_backoff f < 4 \<and> 1 / 1000000 \<le> mptcp_get_srtt tick f \<and> 0 \<le> trunc_int (mptcp_get_cwnd f)"
    and "0 \<le> tot" and "tot + total_window fs < 2147483648" and "0 < mn"
  shows "alpha_loop tick False True fs (mx, sm, tot, mn)
    = Some (mx, sm + (\<Sum>f\<leftarrow>fs. path_rate tick f), tot + total_window fs, fold min (map (mptcp_get_srtt tick) fs) mn)"
  using assms
proof (induction fs arbitrary: sm tot mn)
  case (Cons f fs)
  let ?c = "trunc_int (mptcp_get_cwnd f)" and ?r = "mptcp_get_srtt tick f"
  have f: "fl_t_backoff f < 4" "1 / 1000000 \<le> ?r" "0 \<le> ?c" and w: "total_window (f # fs) = ?c + total_window fs"
    using Cons.prems(1) by (simp_all add: total_window_def)
  have "0 \<le> total_window fs"
    unfolding total_window_def using Cons.prems(1) by (intro sum_list_nonneg) auto
  then have t: "i32 (tot + ?c) = tot + ?c" and le: "tot + ?c + total_window fs < 2147483648"
    using Cons.prems(2,3) w f(3) by (auto intro!: i32_id)
  have m: "(if mn = 0 \<or> ?r < mn then ?r else mn) = min ?r mn" "0 < min ?r mn"
    using Cons.prems(4) f(2) by (auto simp: min_def)
  have "alpha_loop tick False True (f # fs) (mx, sm, tot, mn)
      = alpha_loop tick False True fs (mx, sm + path_rate tick f, tot + ?c, min ?r mn)"
    using f(1,2) by (simp add: Let_def t path_rate_def m(1))
  also have "\<dots> = Some (mx, sm + path_rate tick f + (\<Sum>f\<leftarrow>fs. path_rate tick f), tot + ?c + total_window fs,
      fold min (map (mptcp_get_srtt tick) fs) (min ?r mn))"
    using Cons.prems(1,2) f(3) le m(2) by (intro Cons.IH) auto
  finally show ?case
    by (simp add: w add.assoc)
qed (simp add: total_window_def)

lemma fold_min_Min: "fold min xs x = Min (insert x (set xs))" for x :: rat
  by (simp add: Min.set_eq_fold [symmetric])

lemma rates_total:
  assumes "\<forall>f\<in>set fs. 0 < mn \<and> mn \<le> mptcp_get_srtt tick f \<and> 0 \<le> trunc_int (mptcp_get_cwnd f)"
  shows "(\<Sum>f\<leftarrow>fs. path_rate tick f) * mn \<le> of_int (total_window fs)"
  using assms
proof (induction fs)
  case (Cons f fs)
  let ?c = "of_int (trunc_int (mptcp_get_cwnd f)) :: rat" and ?r = "mptcp_get_srtt tick f"
  have f: "0 < mn" "mn \<le> ?r" "0 \<le> ?c"
    using Cons.prems by simp_all
  then have "?c * mn \<le> ?c * ?r"
    by (intro mult_left_mono) simp_all
  then have "path_rate tick f * mn \<le> ?c"
    using f by (simp add: path_rate_def field_simps)
  then show ?case
    using Cons.IH Cons.prems by (simp add: total_window_def distrib_right)
qed (simp add: total_window_def)

lemma dctcp_mode_value:
  assumes mode: "\<not> lia m" "lia_dctcp m" and fs: "fs = live_flows m"
    and c: "\<forall>f\<in>set fs. 0 \<le> trunc_int (mptcp_get_cwnd f)" and w: "total_window fs < 2147483648"
    and sm: "sm = (\<Sum>f\<leftarrow>fs. path_rate tick f)" and mn: "mn = Min (mptcp_get_srtt tick ` set fs)"
  shows "calculate_alpha tick m =
      (if (\<exists>f\<in>set fs. mptcp_get_srtt tick f < 1 / 1000000) \<or> sm < 1 / 1000 \<or> 1 / 1000 \<le> mn then m
       else m\<lparr>alpha := of_int (total_window fs) / mn / sm\<rparr>)"
    and "\<forall>f\<in>set fs. 1 / 1000000 \<le> mptcp_get_srtt tick f \<Longrightarrow> 1 / 1000 \<le> sm \<Longrightarrow> 1 \<le> of_int (total_window fs) / mn / sm"
proof -
  have l: "alpha_loop tick False True (active_flows m) acc = alpha_loop tick False True fs acc" for acc
    using alpha_loop_live [of tick False True "active_flows m"] by (simp add: fs live_flows_def)
  have up: "\<forall>f\<in>set fs. fl_t_backoff f < 4"
    by (simp add: fs live_flows_def)
  have val: "alpha_loop tick False True fs (1 / 1000, 0, 0, 0) = Some (1 / 1000, sm, total_window fs, mn) \<and> 0 < mn \<and> sm * mn \<le> of_int (total_window fs)"
    if r: "\<forall>f\<in>set fs. 1 / 1000000 \<le> mptcp_get_srtt tick f" and ne: "fs \<noteq> []"
  proof -
    obtain g gs where g: "fs = g # gs"
      using ne by (cases fs) auto
    let ?c = "trunc_int (mptcp_get_cwnd g)" and ?r = "mptcp_get_srtt tick g"
    have wg: "total_window fs = ?c + total_window gs"
      by (simp add: g total_window_def)
    have "0 \<le> total_window gs"
      unfolding total_window_def using c g by (intro sum_list_nonneg) auto
    then have i: "i32 ?c = ?c" "0 \<le> ?c" "?c + total_window gs < 2147483648"
      using c g w wg by (auto intro!: i32_id)
    have r0: "0 < ?r" "\<not> ?r < 1 / 1000000"
      using r g by auto
    have "alpha_loop tick False True fs (1 / 1000, 0, 0, 0)
        = alpha_loop tick False True gs (1 / 1000, path_rate tick g, ?c, ?r)"
      using up r0(2) by (simp add: g Let_def i(1) path_rate_def)
    also have "\<dots> = Some (1 / 1000, sm, total_window fs, mn)"
      using up r c g i r0(1) alpha_loop_dctcp [of gs tick ?c ?r "1 / 1000" "path_rate tick g"]
      by (simp add: sm mn fold_min_Min g total_window_def)
    finally have v: "alpha_loop tick False True fs (1 / 1000, 0, 0, 0) = Some (1 / 1000, sm, total_window fs, mn)" .
    have "mn \<in> mptcp_get_srtt tick ` set fs" and le: "\<forall>f\<in>set fs. mn \<le> mptcp_get_srtt tick f"
      using ne by (simp_all add: mn)
    then have "0 < mn"
      using r by fastforce
    then show ?thesis
      using v rates_total [of fs mn tick] le c by (simp add: sm)
  qed
  have e: "fs = [] \<Longrightarrow> alpha_loop tick False True fs (1 / 1000, 0, 0, 0) = Some (1 / 1000, 0, 0, 0) \<and> sm = 0"
    by (simp add: sm)
  show "calculate_alpha tick m =
      (if (\<exists>f\<in>set fs. mptcp_get_srtt tick f < 1 / 1000000) \<or> sm < 1 / 1000 \<or> 1 / 1000 \<le> mn then m
       else m\<lparr>alpha := of_int (total_window fs) / mn / sm\<rparr>)"
  proof (cases "\<exists>f\<in>set fs. mptcp_get_srtt tick f < 1 / 1000000")
    case True
    then have "alpha_loop tick False True fs (1 / 1000, 0, 0, 0) = None"
      using up by (intro alpha_loop_slow) auto
    then show ?thesis
      using True mode l by (simp add: calculate_alpha_def)
  next
    case False
    then have r: "\<forall>f\<in>set fs. 1 / 1000000 \<le> mptcp_get_srtt tick f"
      by (simp add: not_less)
    show ?thesis
    proof (cases "fs = []")
      case True
      then show ?thesis
        using e mode by (simp add: calculate_alpha_def l)
    next
      case False
      then have "alpha_loop tick (lia m) (lia_dctcp m) (active_flows m) (1 / 1000, 0, 0, 0) = Some (1 / 1000, sm, total_window fs, mn)"
        using val [OF r] mode by (simp add: l)
      then show ?thesis
        using \<open>\<not> (\<exists>f\<in>set fs. mptcp_get_srtt tick f < 1 / 1000000)\<close> mode by (simp add: calculate_alpha_def)
    qed
  qed
  assume r: "\<forall>f\<in>set fs. 1 / 1000000 \<le> mptcp_get_srtt tick f" and s: "1 / 1000 \<le> sm"
  then have "fs \<noteq> []"
    using e by auto
  then show "1 \<le> of_int (total_window fs) / mn / sm"
    using val [OF r] s by (simp add: field_simps)
qed

end
