(* ===== verification/Dctcp.thy ===== *)
theory Dctcp
  imports Ns_Prelude "HOL-Library.Word"
begin

text \<open>
  Data Center TCP and explicit congestion notification in the simulator's TCP
  (\<open>tcp/tcp.cc\<close>, \<open>tcp/tcp-full.cc\<close>): the retransmission timer, the cut of the window
  (\<open>slowdown\<close>), the reaction to an ECN echo (\<open>ecn\<close>), the sender's estimate of the fraction of
  marked bytes (\<open>update_dctcp_alpha\<close>), and the receiver's state machine that echoes the marks.
\<close>

unbundle bit_operations_syntax

section \<open>The sender's state\<close>

record full_tcp =
  ft_cwnd :: rat
  ft_ssthresh :: int
  ft_wnd :: rat
  ft_frto :: int
  ft_recover :: int
  ft_maxseq :: int
  ft_highest_ack :: int
  ft_size_b :: int
  ft_last_cwnd_action :: int
  ft_wnd_option :: int
  ft_precision_reduce :: bool
  ft_decrease_num :: rat
  ft_low_window :: int
  ft_first_decrease :: int
  ft_wnd_restart :: rat
  ft_wnd_init :: rat
  ft_W_used :: int
  ft_ncwndcuts :: int
  ft_ncwndcuts1 :: int
  ft_necnresponses :: int
  ft_cong_action :: bool
  ft_fcnt :: rat
  ft_count_t :: int
  ft_ecn_backoff :: bool
  ft_t_rtt :: int
  ft_t_srtt :: int
  ft_t_rttvar :: int
  ft_t_rtxcur :: rat
  ft_t_backoff :: int
  ft_srtt_bits :: nat
  ft_rttvar_bits :: nat
  ft_rttvar_exp :: nat
  ft_tcp_tick :: rat
  ft_minrto :: rat
  ft_maxrto :: rat
  ft_boot_time :: rat
  ft_rfc2988 :: bool
  ft_use_rtt :: bool
  ft_ts_option :: bool
  ft_dctcp :: bool
  ft_dctcp_alpha :: rat
  ft_dctcp_g :: rat
  ft_dctcp_total :: int
  ft_dctcp_marked :: int
  ft_dctcp_alpha_update_seq :: int
  ft_dctcp_maxseq :: int

section \<open>The retransmission timer\<close>

text \<open>\<open>None\<close> is \<open>exit (1)\<close> on a negative timeout. The call clears \<open>use_rtt_\<close>.\<close>

definition rtt_timeout :: "full_tcp \<Rightarrow> (rat \<times> full_tcp) option" where
  "rtt_timeout s =
     (let t = (if ft_rfc2988 s then
                 if ft_t_rtxcur s < ft_minrto s \<and> \<not> ft_use_rtt s then ft_minrto s * of_int (ft_t_backoff s)
                 else ft_t_rtxcur s * of_int (ft_t_backoff s)
               else let t = ft_t_rtxcur s * of_int (ft_t_backoff s) in if t < ft_minrto s then ft_minrto s else t);
          t = (if ft_maxrto s < t then ft_maxrto s else t)
      in if t < 2 * ft_tcp_tick s then
           if t < 0 then None
           else if ft_use_rtt s \<and> t < ft_tcp_tick s then Some (ft_tcp_tick s, s\<lparr>ft_use_rtt := False\<rparr>)
           else Some (2 * ft_tcp_tick s, s\<lparr>ft_use_rtt := False\<rparr>)
         else Some (t, s\<lparr>ft_use_rtt := False\<rparr>))"

definition shift_left :: "int \<Rightarrow> nat \<Rightarrow> int" where
  "shift_left x n = i32 (x * 2 ^ n)"

definition rat_fmod :: "rat \<Rightarrow> rat \<Rightarrow> rat" where
  "rat_fmod x y = x - of_int (trunc_int (x / y)) * y"

text \<open>\<open>rtt_update\<close>: the sample in ticks, then the two averages; \<open>delta\<close> is a \<open>short\<close>.\<close>

definition rtt_sample :: "rat \<Rightarrow> rat \<Rightarrow> full_tcp \<Rightarrow> int" where
  "rtt_sample now tao s =
     (let t = (if ft_ts_option s then trunc_int (tao / ft_tcp_tick s + 1 / 2)
               else trunc_int ((tao + rat_fmod (now - tao + ft_boot_time s) (ft_tcp_tick s)) / ft_tcp_tick s))
      in if t < 1 then 1 else t)"

definition rtt_average :: "full_tcp \<Rightarrow> full_tcp" where
  "rtt_average s =
     (if ft_t_srtt s \<noteq> 0 then
        let delta = i16 (ft_t_rtt s - ft_t_srtt s div 2 ^ ft_srtt_bits s);
            srtt = i32 (ft_t_srtt s + delta);
            delta = (if delta < 0 then i16 (- delta) else delta);
            delta = i16 (delta - ft_t_rttvar s div 2 ^ ft_rttvar_bits s);
            rttvar = i32 (ft_t_rttvar s + delta)
        in s\<lparr>ft_t_srtt := (if srtt \<le> 0 then 1 else srtt), ft_t_rttvar := (if rttvar \<le> 0 then 1 else rttvar)\<rparr>
      else s\<lparr>ft_t_srtt := shift_left (ft_t_rtt s) (ft_srtt_bits s), ft_t_rttvar := shift_left (ft_t_rtt s) (ft_rttvar_bits s - 1)\<rparr>)"

definition tcp_rtt_update :: "rat \<Rightarrow> rat \<Rightarrow> full_tcp \<Rightarrow> full_tcp" where
  "tcp_rtt_update now tao s =
     (let s = rtt_average (s\<lparr>ft_t_rtt := rtt_sample now tao s\<rparr>)
      in s\<lparr>ft_t_rtxcur := of_int (i32 (shift_left (ft_t_rttvar s) (nat (int (ft_rttvar_exp s) + (int (ft_srtt_bits s) - int (ft_rttvar_bits s)))) + ft_t_srtt s)
             div 2 ^ ft_srtt_bits s) * ft_tcp_tick s\<rparr>)"

definition rtt_backoff :: "full_tcp \<Rightarrow> full_tcp option" where
  "rtt_backoff s =
     (let far = (\<lambda>s. if 8 < ft_t_backoff s
                then s\<lparr>ft_t_rttvar := i32 (ft_t_rttvar s + ft_t_srtt s div 2 ^ ft_srtt_bits s), ft_t_srtt := 0\<rparr> else s)
      in if ft_t_backoff s < 64 then Some (far (s\<lparr>ft_t_backoff := shift_left (ft_t_backoff s) 1\<rparr>))
         else if ft_rfc2988 s then
           map_option (\<lambda>(t, s). far (if t < ft_maxrto s then s\<lparr>ft_t_backoff := shift_left (ft_t_backoff s) 1\<rparr> else s)) (rtt_timeout s)
         else Some (far s))"

section \<open>The window and its cuts\<close>

definition force_wnd :: "int \<Rightarrow> full_tcp \<Rightarrow> int" where
  "force_wnd num s = i32 (ft_recover s + num - ft_highest_ack s)"

definition window :: "full_tcp \<Rightarrow> int" where
  "window s =
     (if ft_frto s = 2 then if of_int (force_wnd 2 s) < ft_wnd s then force_wnd 2 s else trunc_int (ft_wnd s)
      else if ft_cwnd s < ft_wnd s then trunc_int (ft_cwnd s) else trunc_int (ft_wnd s))"

definition windowd :: "full_tcp \<Rightarrow> rat" where
  "windowd s = (if ft_cwnd s < ft_wnd s then ft_cwnd s else ft_wnd s)"

definition CLOSE_SSTHRESH_HALF :: "32 word" where "CLOSE_SSTHRESH_HALF = 0x1"
definition CLOSE_CWND_HALF :: "32 word" where "CLOSE_CWND_HALF = 0x2"
definition CLOSE_CWND_RESTART :: "32 word" where "CLOSE_CWND_RESTART = 0x4"
definition CLOSE_CWND_INIT :: "32 word" where "CLOSE_CWND_INIT = 0x8"
definition CLOSE_CWND_ONE :: "32 word" where "CLOSE_CWND_ONE = 0x10"
definition THREE_QUARTER_SSTHRESH :: "32 word" where "THREE_QUARTER_SSTHRESH = 0x80"
definition CLOSE_CWND_HALF_WAY :: "32 word" where "CLOSE_CWND_HALF_WAY = 0x100"
definition CWND_HALF_WITH_MIN :: "32 word" where "CWND_HALF_WITH_MIN = 0x200"
definition TCP_IDLE :: "32 word" where "TCP_IDLE = 0x400"
definition NO_OUTSTANDING_DATA :: "32 word" where "NO_OUTSTANDING_DATA = 0x800"
definition CLOSE_SSTHRESH_DCTCP :: "32 word" where "CLOSE_SSTHRESH_DCTCP = 0x1000"
definition CLOSE_CWND_DCTCP :: "32 word" where "CLOSE_CWND_DCTCP = 0x2000"

lemmas how_flags = CLOSE_SSTHRESH_HALF_def CLOSE_CWND_HALF_def CLOSE_CWND_RESTART_def CLOSE_CWND_INIT_def
  CLOSE_CWND_ONE_def THREE_QUARTER_SSTHRESH_def CLOSE_CWND_HALF_WAY_def CWND_HALF_WITH_MIN_def TCP_IDLE_def
  NO_OUTSTANDING_DATA_def CLOSE_SSTHRESH_DCTCP_def CLOSE_CWND_DCTCP_def

definition has :: "32 word \<Rightarrow> 32 word \<Rightarrow> bool" where
  "has how flag \<longleftrightarrow> how AND flag \<noteq> 0"

text \<open>
  The three values the cut works with: half the window, the decreased window, the window; and the
  factor of the decrease, which the high-speed option recomputes. \<open>pow_l\<close> is
  \<open>pow (x, l_parameter_)\<close> of the C library, \<open>decrease\<close> the result of \<open>decrease_param ()\<close>.
\<close>

definition cut_values :: "(rat \<Rightarrow> rat) \<Rightarrow> rat \<Rightarrow> full_tcp \<Rightarrow> rat \<times> rat \<times> rat \<times> rat" where
  "cut_values pow_l decrease s =
     (let fast = ft_wnd_option s = 8 \<and> of_int (ft_low_window s) < ft_cwnd s;
          dn = (if ft_wnd_option s \<noteq> 6 \<and> fast then decrease else ft_decrease_num s)
      in if ft_precision_reduce s then
           (windowd s / 2,
            (if ft_wnd_option s = 6 then windowd s - (1 - ft_decrease_num s) * pow_l (windowd s)
             else if fast then windowd s - decrease * windowd s
             else ft_decrease_num s * windowd s),
            windowd s, dn)
         else
           (of_int (trunc_int (of_int (window s) / 2)),
            of_int (trunc_int
              (if ft_wnd_option s = 6 then of_int (window s) - (1 - ft_decrease_num s) * pow_l (of_int (window s))
               else if fast then windowd s - decrease * windowd s
               else ft_decrease_num s * of_int (window s))),
            of_int (window s), dn))"

definition cut_ssthresh :: "32 word \<Rightarrow> bool \<Rightarrow> rat \<Rightarrow> rat \<Rightarrow> full_tcp \<Rightarrow> int" where
  "cut_ssthresh how slowstart halfwin decreasewin s =
     (if has how CLOSE_SSTHRESH_HALF then
        if ft_first_decrease s = 1 \<or> slowstart \<or> ft_last_cwnd_action s = CWND_ACTION_TIMEOUT
        then trunc_int halfwin else trunc_int decreasewin
      else if has how CLOSE_SSTHRESH_DCTCP then trunc_int ((1 - ft_dctcp_alpha s / 2) * windowd s)
      else if has how THREE_QUARTER_SSTHRESH then
        if of_int (ft_ssthresh s) < 3 * ft_cwnd s / 4 then trunc_int (3 * ft_cwnd s / 4) else ft_ssthresh s
      else ft_ssthresh s)"

definition cut_cwnd :: "32 word \<Rightarrow> bool \<Rightarrow> rat \<Rightarrow> rat \<Rightarrow> rat \<Rightarrow> full_tcp \<Rightarrow> rat" where
  "cut_cwnd how slowstart halfwin decreasewin win s =
     (if has how CLOSE_CWND_HALF then
        if ft_first_decrease s = 1 \<or> slowstart \<or> ft_decrease_num s = 1 / 2 then halfwin else decreasewin
      else if has how CLOSE_CWND_DCTCP then (1 - ft_dctcp_alpha s / 2) * windowd s
      else if has how CWND_HALF_WITH_MIN then if decreasewin < 1 then 1 else decreasewin
      else if has how CLOSE_CWND_RESTART then of_int (trunc_int (ft_wnd_restart s))
      else if has how CLOSE_CWND_INIT then of_int (trunc_int (ft_wnd_init s))
      else if has how CLOSE_CWND_ONE then 1
      else if has how CLOSE_CWND_HALF_WAY then
        let c = of_int (ft_W_used s) + ft_decrease_num s * (win - of_int (ft_W_used s)) in if c < 1 then 1 else c
      else ft_cwnd s)"

definition slowdown :: "(rat \<Rightarrow> rat) \<Rightarrow> rat \<Rightarrow> 32 word \<Rightarrow> full_tcp \<Rightarrow> full_tcp" where
  "slowdown pow_l decrease how s =
     (let slowstart = ft_cwnd s < of_int (ft_ssthresh s);
          (halfwin, decreasewin, win, dn) = cut_values pow_l decrease s;
          s = s\<lparr>ft_ncwndcuts := i32 (ft_ncwndcuts s + 1),
                ft_ncwndcuts1 := (if \<not> has how TCP_IDLE \<and> \<not> has how NO_OUTSTANDING_DATA
                               then i32 (ft_ncwndcuts1 s + 1) else ft_ncwndcuts1 s),
                ft_decrease_num := dn\<rparr>;
          t = cut_ssthresh how slowstart halfwin decreasewin s;
          c = cut_cwnd how slowstart halfwin decreasewin win s
      in s\<lparr>ft_ssthresh := (if t < 2 then 2 else t), ft_cwnd := (if c < 1 then 1 else c),
           ft_cong_action := (has how (CLOSE_CWND_HALF OR CLOSE_CWND_RESTART OR CLOSE_CWND_INIT OR CLOSE_CWND_ONE
                             OR CLOSE_CWND_DCTCP) \<or> ft_cong_action s),
           ft_fcnt := 0, ft_count_t := 0, ft_first_decrease := (if ft_first_decrease s = 1 then 0 else ft_first_decrease s)\<rparr>)"

text \<open>The reaction to an ECN echo, at most once per window of data.\<close>

definition ecn_begin :: "full_tcp \<Rightarrow> full_tcp option" where
  "ecn_begin s =
     (let s = s\<lparr>ft_recover := ft_maxseq s, ft_last_cwnd_action := CWND_ACTION_ECN\<rparr>
      in if ft_cwnd s \<le> 1 then if ft_ecn_backoff s then rtt_backoff s else Some (s\<lparr>ft_ecn_backoff := True\<rparr>)
         else Some (s\<lparr>ft_ecn_backoff := False\<rparr>))"

definition ecn :: "(rat \<Rightarrow> rat) \<Rightarrow> rat \<Rightarrow> int \<Rightarrow> full_tcp \<Rightarrow> full_tcp option" where
  "ecn pow_l decrease seqno s =
     (if ft_recover s < seqno \<or> ft_last_cwnd_action s = CWND_ACTION_TIMEOUT then
        map_option (\<lambda>s. (slowdown pow_l decrease
            (if ft_dctcp s then CLOSE_CWND_DCTCP OR CLOSE_SSTHRESH_DCTCP else CLOSE_CWND_HALF OR CLOSE_SSTHRESH_HALF) s)
            \<lparr>ft_necnresponses := i32 (ft_necnresponses s + 1)\<rparr>)
          (ecn_begin s)
      else Some s)"

section \<open>The sender's estimate\<close>

definition update_dctcp_alpha :: "int \<Rightarrow> bool \<Rightarrow> full_tcp \<Rightarrow> full_tcp" where
  "update_dctcp_alpha ackno ecnbit s =
     (let acked = i32 (ackno - ft_highest_ack s);
          acked = (if acked \<le> 0 then ft_size_b s else acked);
          total = i32 (ft_dctcp_total s + acked);
          marked = (if ecnbit then i32 (ft_dctcp_marked s + acked) else ft_dctcp_marked s)
      in if ft_dctcp_alpha_update_seq s < ackno then
           let temp = (if 0 < total then of_int marked / of_int total else 0)
           in s\<lparr>ft_dctcp_alpha_update_seq := ft_dctcp_maxseq s,
                ft_dctcp_alpha := (1 - ft_dctcp_g s) * ft_dctcp_alpha s + ft_dctcp_g s * temp,
                ft_dctcp_marked := 0, ft_dctcp_total := 0\<rparr>
         else s\<lparr>ft_dctcp_total := total, ft_dctcp_marked := marked\<rparr>)"

text \<open>An acknowledgment: the estimate first, then \<open>newack\<close> advances the highest acknowledgment.\<close>

definition ack_arrives :: "int \<times> bool \<Rightarrow> full_tcp \<Rightarrow> full_tcp" where
  "ack_arrives a s =
     (let s = update_dctcp_alpha (fst a) (snd a) s
      in if ft_highest_ack s < fst a then s\<lparr>ft_highest_ack := fst a\<rparr> else s)"

section \<open>The receiver\<close>

record ecn_rx =
  rx_ecn :: bool
  rx_ect :: bool
  rx_dctcp :: bool
  rx_recent_ce :: bool
  rx_ce_transition :: bool
  rx_rcv_nxt :: int
  rx_last_ack_sent :: int
  rx_acknow :: bool
  rx_delack :: bool
  rx_irs :: int
  rx_spa_thresh :: int
  rx_segs_per_ack :: int
  rx_maxseg :: int
  rx_acks :: "(int \<times> bool) list" \<comment> \<open>the acknowledgments sent: number and ECN echo\<close>

text \<open>The marks of an arriving packet (both the predicted and the slow path of \<open>recv\<close>).\<close>

definition ce_update :: "bool \<Rightarrow> bool \<Rightarrow> bool \<Rightarrow> int \<Rightarrow> ecn_rx \<Rightarrow> ecn_rx" where
  "ce_update ce ect cwr datalen r =
     (if rx_ecn r then
        if rx_dctcp r then
          if ce \<and> ect then
            if \<not> rx_recent_ce r then r\<lparr>rx_ce_transition := True, rx_recent_ce := True\<rparr> else r\<lparr>rx_ce_transition := False\<rparr>
          else if 0 < datalen \<and> \<not> ce \<and> ect then
            if rx_recent_ce r then r\<lparr>rx_ce_transition := True, rx_recent_ce := False\<rparr> else r\<lparr>rx_ce_transition := False\<rparr>
          else r
        else if ce \<and> ect then r\<lparr>rx_recent_ce := True\<rparr>
        else if cwr then r\<lparr>rx_recent_ce := False\<rparr>
        else r
      else r)"

definition need_send :: "ecn_rx \<Rightarrow> bool" where
  "need_send r \<longleftrightarrow> rx_acknow r
     \<or> (let spa = (if 0 < rx_spa_thresh r \<and> i32 (rx_rcv_nxt r - rx_irs r) < rx_spa_thresh r then 1 else rx_segs_per_ack r)
        in i32 (spa * rx_maxseg r) \<le> i32 (rx_rcv_nxt r - rx_last_ack_sent r))"

text \<open>A segment leaves (\<open>foutput\<close>, \<open>sendpacket\<close>): its acknowledgment and its echo.\<close>

definition output_ack :: "ecn_rx \<Rightarrow> ecn_rx" where
  "output_ack r = r\<lparr>rx_acks := rx_acks r @ [(rx_rcv_nxt r, rx_ecn r \<and> rx_ect r \<and> rx_recent_ce r)],
     rx_last_ack_sent := rx_rcv_nxt r, rx_acknow := False, rx_delack := False\<rparr>"

text \<open>
  The next segment in order: when the marks have changed, what is pending is acknowledged at once
  with the previous state; then the data are taken, and acknowledged when enough are pending.
\<close>

definition ack_previous :: "ecn_rx \<Rightarrow> ecn_rx" where
  "ack_previous r =
     (if rx_dctcp r \<and> rx_ce_transition r \<and> 0 < i32 (rx_rcv_nxt r - rx_last_ack_sent r) then
        let r = output_ack (r\<lparr>rx_acknow := True, rx_recent_ce := \<not> rx_recent_ce r\<rparr>)
        in r\<lparr>rx_recent_ce := \<not> rx_recent_ce r\<rparr>
      else r)"

definition take_data :: "int \<Rightarrow> ecn_rx \<Rightarrow> ecn_rx" where
  "take_data datalen r =
     (let r = r\<lparr>rx_rcv_nxt := i32 (rx_rcv_nxt r + datalen), rx_delack := True\<rparr>
      in if need_send r then output_ack r else r)"

text \<open>
  The pure incoming segment of the predicted path: it acknowledges nothing new and finds the queue
  empty. (A segment that passes the test for that path and then falls through to the slow one, as
  segments that acknowledge new data do, goes through \<open>ce_update\<close> twice: \<open>fall_through_skips_ack\<close>.)
\<close>

definition recv_in_order :: "bool \<Rightarrow> bool \<Rightarrow> bool \<Rightarrow> int \<Rightarrow> ecn_rx \<Rightarrow> ecn_rx" where
  "recv_in_order ce ect cwr datalen r = take_data datalen (ack_previous (ce_update ce ect cwr datalen r))"

text \<open>The delayed-acknowledgment timer.\<close>

definition delack_timeout :: "ecn_rx \<Rightarrow> ecn_rx" where
  "delack_timeout r = (if rx_delack r then output_ack (r\<lparr>rx_delack := False, rx_acknow := True\<rparr>) else r)"

text \<open>What happens at the receiver: a segment, the timer, or a segment of its own that leaves.\<close>

datatype rx_event = Segment int bool | Delack | Output

fun rx_step :: "rx_event \<Rightarrow> ecn_rx \<Rightarrow> ecn_rx" where
  "rx_step (Segment n ce) r = recv_in_order ce True False n r"
| "rx_step Delack r = delack_timeout r"
| "rx_step Output r = output_ack r"

fun event_bytes :: "rx_event \<Rightarrow> int" where
  "event_bytes (Segment n ce) = n"
| "event_bytes _ = 0"

fun event_marked :: "rx_event \<Rightarrow> int" where
  "event_marked (Segment n ce) = (if ce then n else 0)"
| "event_marked _ = 0"

definition sent_bytes :: "rx_event list \<Rightarrow> int" where
  "sent_bytes es = sum_list (map event_bytes es)"

definition marked_bytes :: "rx_event list \<Rightarrow> int" where
  "marked_bytes es = sum_list (map event_marked es)"

text \<open>The ECT and echo bits of a packet: in \<open>FullTcpAgent\<close>, and in the MPTCP subflow's own version.\<close>

definition syn_ect :: "bool \<Rightarrow> bool \<Rightarrow> bool \<Rightarrow> bool \<Rightarrow> bool \<Rightarrow> bool" where
  "syn_ect e ecn_syn ecn_syn_next syn ackflag \<longleftrightarrow> e \<and> ecn_syn \<and> ecn_syn_next \<and> syn \<and> ackflag"

definition full_ect :: "bool \<Rightarrow> bool \<Rightarrow> bool \<Rightarrow> bool \<Rightarrow> int \<Rightarrow> bool" where
  "full_ect d e ect synect datalen =
     (let b = (if 0 < datalen \<and> e then ect else if synect then ect else False) in if d then ect else b)"

definition mp_ect :: "bool \<Rightarrow> bool \<Rightarrow> bool \<Rightarrow> int \<Rightarrow> bool" where
  "mp_ect e ect synect datalen = (if 0 < datalen \<and> e then ect else if synect then ect else False)"

section \<open>The timer is bounded\<close>

lemma rtt_sample_pos: "1 \<le> rtt_sample now tao s"
  by (simp add: rtt_sample_def Let_def)

lemma rtt_average_pos:
  assumes "ft_t_srtt s \<noteq> 0"
  shows "1 \<le> ft_t_srtt (rtt_average s)" and "1 \<le> ft_t_rttvar (rtt_average s)"
  using assms by (simp_all add: rtt_average_def Let_def)

lemma rtt_timeout_bounds:
  assumes "rtt_timeout s = Some (t, s')" and "0 \<le> ft_tcp_tick s"
  shows "ft_tcp_tick s \<le> t \<and> t \<le> max (ft_maxrto s) (2 * ft_tcp_tick s) \<and> \<not> ft_use_rtt s'"
  using assms by (auto simp: rtt_timeout_def Let_def split: if_splits)

section \<open>The cuts\<close>

lemma slowdown_floors: "2 \<le> ft_ssthresh (slowdown pow_l d how s) \<and> 1 \<le> ft_cwnd (slowdown pow_l d how s)"
  by (simp add: slowdown_def Let_def split_def)

lemma dctcp_flags [simp]:
  "has (CLOSE_CWND_DCTCP OR CLOSE_SSTHRESH_DCTCP) CLOSE_CWND_HALF = False"
  "has (CLOSE_CWND_DCTCP OR CLOSE_SSTHRESH_DCTCP) CLOSE_SSTHRESH_HALF = False"
  "has (CLOSE_CWND_DCTCP OR CLOSE_SSTHRESH_DCTCP) CLOSE_CWND_DCTCP = True"
  "has (CLOSE_CWND_DCTCP OR CLOSE_SSTHRESH_DCTCP) CLOSE_SSTHRESH_DCTCP = True"
  by (simp_all add: has_def how_flags)

text \<open>DCTCP cuts the window by the factor \<open>1 - \<alpha> / 2\<close>, to no less than one segment.\<close>

lemma slowdown_dctcp:
  "ft_cwnd (slowdown pow_l d (CLOSE_CWND_DCTCP OR CLOSE_SSTHRESH_DCTCP) s) = max 1 ((1 - ft_dctcp_alpha s / 2) * windowd s)"
  by (simp add: slowdown_def Let_def split_def cut_cwnd_def windowd_def)

lemma slowdown_fields [simp]:
  "ft_recover (slowdown pow_l d how s) = ft_recover s" "ft_maxseq (slowdown pow_l d how s) = ft_maxseq s"
  "ft_last_cwnd_action (slowdown pow_l d how s) = ft_last_cwnd_action s"
  by (simp_all add: slowdown_def Let_def split_def)

lemma rtt_timeout_state: "rtt_timeout s = Some (t, s') \<Longrightarrow> s' = s\<lparr>ft_use_rtt := False\<rparr>"
  unfolding rtt_timeout_def Let_def by (simp split: if_splits)

lemma rtt_backoff_fields:
  assumes "rtt_backoff s = Some s'"
  shows "ft_recover s' = ft_recover s \<and> ft_maxseq s' = ft_maxseq s \<and> ft_last_cwnd_action s' = ft_last_cwnd_action s \<and> ft_cwnd s' = ft_cwnd s
    \<and> ft_wnd s' = ft_wnd s \<and> ft_dctcp s' = ft_dctcp s \<and> ft_dctcp_alpha s' = ft_dctcp_alpha s"
  using assms by (auto simp: rtt_backoff_def Let_def dest!: rtt_timeout_state split: if_splits)

lemma ecn_begin_fields:
  assumes "ecn_begin s = Some s'"
  shows "ft_recover s' = ft_maxseq s \<and> ft_maxseq s' = ft_maxseq s \<and> ft_last_cwnd_action s' = CWND_ACTION_ECN \<and> ft_cwnd s' = ft_cwnd s
    \<and> ft_wnd s' = ft_wnd s \<and> ft_dctcp s' = ft_dctcp s \<and> ft_dctcp_alpha s' = ft_dctcp_alpha s"
  using assms by (auto simp: ecn_begin_def Let_def split: if_splits dest!: rtt_backoff_fields)

text \<open>
  Once per window: after a cut, no echo for data up to \<open>maxseq_\<close> cuts again. The cut itself
  is \<open>1 - \<alpha> / 2\<close>.
\<close>

lemma ecn_once:
  assumes "ecn pow_l d n s = Some s'" and "ft_recover s < n \<or> ft_last_cwnd_action s = CWND_ACTION_TIMEOUT"
    and "k \<le> ft_maxseq s"
  shows "ecn pow_l' d' k s' = Some s'"
proof -
  obtain s1 how where s1: "ecn_begin s = Some s1"
    and s': "s' = (slowdown pow_l d how s1)\<lparr>ft_necnresponses := i32 (ft_necnresponses s1 + 1)\<rparr>"
    using assms(1,2) by (auto simp: ecn_def split: if_splits)
  show ?thesis using ecn_begin_fields [OF s1] s' assms(3)
    by (simp add: ecn_def CWND_ACTION_ECN_def CWND_ACTION_TIMEOUT_def)
qed

lemma ecn_cut:
  assumes "ecn pow_l d n s = Some s'" and "ft_recover s < n \<or> ft_last_cwnd_action s = CWND_ACTION_TIMEOUT" and "ft_dctcp s"
  shows "ft_cwnd s' = max 1 ((1 - ft_dctcp_alpha s / 2) * windowd s) \<and> 2 \<le> ft_ssthresh s'"
proof -
  obtain s1 where s1: "ecn_begin s = Some s1"
    and s': "s' = (slowdown pow_l d (CLOSE_CWND_DCTCP OR CLOSE_SSTHRESH_DCTCP) s1)
        \<lparr>ft_necnresponses := i32 (ft_necnresponses s1 + 1)\<rparr>"
    using assms ecn_begin_fields by (fastforce simp: ecn_def split: if_splits)
  show ?thesis using ecn_begin_fields [OF s1] s' slowdown_floors [of pow_l d _ s1]
    by (simp add: slowdown_dctcp windowd_def)
qed

lemma ecn_cut_bounds:
  assumes "0 \<le> ft_dctcp_alpha s" and "ft_dctcp_alpha s \<le> 1" and "0 \<le> windowd s"
  shows "windowd s / 2 \<le> (1 - ft_dctcp_alpha s / 2) * windowd s \<and> (1 - ft_dctcp_alpha s / 2) * windowd s \<le> windowd s"
proof -
  have "1 / 2 * windowd s \<le> (1 - ft_dctcp_alpha s / 2) * windowd s" "(1 - ft_dctcp_alpha s / 2) * windowd s \<le> 1 * windowd s"
    using assms by (intro mult_right_mono; simp)+
  then show ?thesis by simp
qed

lemma ecn_begin_returns:
  assumes "1 < ft_cwnd s \<or> \<not> ft_ecn_backoff s \<or> \<not> ft_rfc2988 s"
  shows "\<exists>s'. ecn_begin s = Some s'"
  using assms by (auto simp: ecn_begin_def rtt_backoff_def Let_def)

lemma ecn_response:
  assumes "1 < ft_cwnd s \<or> \<not> ft_ecn_backoff s \<or> \<not> ft_rfc2988 s"
    and "ft_recover s < n \<or> ft_last_cwnd_action s = CWND_ACTION_TIMEOUT" and "ft_dctcp s"
    and "0 \<le> ft_dctcp_alpha s" and "ft_dctcp_alpha s \<le> 1" and "0 \<le> windowd s"
  shows "\<exists>s'. ecn pow_l d n s = Some s' \<and> ft_cwnd s' = max 1 ((1 - ft_dctcp_alpha s / 2) * windowd s)
    \<and> windowd s / 2 \<le> ft_cwnd s' \<and> ft_cwnd s' \<le> max 1 (windowd s) \<and> 2 \<le> ft_ssthresh s'
    \<and> (\<forall>k \<le> ft_maxseq s. ecn pow_l d k s' = Some s')"
proof -
  obtain s' where s': "ecn pow_l d n s = Some s'"
    using ecn_begin_returns [OF assms(1)] assms(2) by (auto simp: ecn_def)
  show ?thesis
    using s' ecn_cut [OF s' assms(2,3)] ecn_cut_bounds [OF assms(4-6)] ecn_once [OF s' assms(2)]
    by (intro exI [of _ s']) auto
qed

section \<open>The estimate stays a fraction\<close>

definition estimate_ok :: "full_tcp \<Rightarrow> bool" where
  "estimate_ok s \<longleftrightarrow> 0 \<le> ft_dctcp_g s \<and> ft_dctcp_g s \<le> 1 \<and> 0 \<le> ft_dctcp_alpha s \<and> ft_dctcp_alpha s \<le> 1
     \<and> 0 \<le> ft_dctcp_marked s \<and> ft_dctcp_marked s \<le> ft_dctcp_total s \<and> 0 < ft_size_b s \<and> 0 \<le> ft_highest_ack s"

lemma convex_unit:
  fixes g a t :: rat
  assumes "0 \<le> g" "g \<le> 1" "0 \<le> a" "a \<le> 1" "0 \<le> t" "t \<le> 1"
  shows "0 \<le> (1 - g) * a + g * t" and "(1 - g) * a + g * t \<le> 1"
proof -
  show "0 \<le> (1 - g) * a + g * t" using assms by simp
  have "(1 - g) * a \<le> (1 - g) * 1" "g * t \<le> g * 1" using assms by (intro mult_left_mono; simp)+
  then show "(1 - g) * a + g * t \<le> 1" by simp
qed

text \<open>\<open>K\<close> bounds the acknowledgment numbers; the counters cannot overflow before \<open>2\<^sup>3\<^sup>1\<close> bytes.\<close>

lemma ack_arrives_ok:
  assumes "estimate_ok s" and "0 \<le> k" and "k \<le> K" and "ft_highest_ack s \<le> K" and "0 \<le> N"
    and "ft_dctcp_total s + (K - ft_highest_ack s) + ft_size_b s * (N + 1) < 2147483648" and "K < 2147483648"
  shows "estimate_ok (ack_arrives (k, e) s) \<and> ft_highest_ack (ack_arrives (k, e) s) \<le> K
    \<and> ft_size_b (ack_arrives (k, e) s) = ft_size_b s
    \<and> ft_dctcp_total (ack_arrives (k, e) s) + (K - ft_highest_ack (ack_arrives (k, e) s)) + ft_size_b s * N < 2147483648"
proof -
  define acked where "acked = (if k \<le> ft_highest_ack s then ft_size_b s else k - ft_highest_ack s)"
  have ok: "0 < ft_size_b s" "0 \<le> ft_highest_ack s" "0 \<le> ft_dctcp_marked s" "ft_dctcp_marked s \<le> ft_dctcp_total s"
    using assms(1) by (simp_all add: estimate_ok_def)
  have sN: "0 \<le> ft_size_b s * N" using ok assms(5) by simp
  have d: "ft_size_b s * (N + 1) = ft_size_b s * N + ft_size_b s" by (simp add: distrib_left)
  have a: "0 < acked" "ft_dctcp_total s + acked + (K - (if ft_highest_ack s < k then k else ft_highest_ack s)) + ft_size_b s * N < 2147483648"
    using ok assms(3,4,6) d by (auto simp: acked_def)
  have K: "K - ft_highest_ack s < 2147483648" "0 \<le> K - (if ft_highest_ack s < k then k else ft_highest_ack s)"
    using assms(3,4,6) ok sN d by auto
  have i: "i32 (k - ft_highest_ack s) = k - ft_highest_ack s" using assms(2,3,7) K(1) ok(2) assms(4,6) sN d ok
    by (intro i32_id) linarith+
  have t: "i32 (ft_dctcp_total s + acked) = ft_dctcp_total s + acked"
    "i32 (ft_dctcp_marked s + acked) = ft_dctcp_marked s + acked"
    using a K(2) sN ok by (intro i32_id; linarith)+
  define temp :: rat where "temp = (if 0 < ft_dctcp_total s + acked
      then of_int (if e then ft_dctcp_marked s + acked else ft_dctcp_marked s) / of_int (ft_dctcp_total s + acked) else 0)"
  have temp: "0 \<le> temp" "temp \<le> 1" using a(1) ok by (auto simp: temp_def)
  have u: "update_dctcp_alpha k e s = (if ft_dctcp_alpha_update_seq s < k
      then s\<lparr>ft_dctcp_alpha_update_seq := ft_dctcp_maxseq s, ft_dctcp_alpha := (1 - ft_dctcp_g s) * ft_dctcp_alpha s + ft_dctcp_g s * temp,
          ft_dctcp_marked := 0, ft_dctcp_total := 0\<rparr>
      else s\<lparr>ft_dctcp_total := ft_dctcp_total s + acked,
          ft_dctcp_marked := (if e then ft_dctcp_marked s + acked else ft_dctcp_marked s)\<rparr>)"
    using t by (simp add: update_dctcp_alpha_def Let_def i acked_def temp_def split del: if_split cong: if_cong)
  have g: "0 \<le> ft_dctcp_g s" "ft_dctcp_g s \<le> 1" "0 \<le> ft_dctcp_alpha s" "ft_dctcp_alpha s \<le> 1"
    using assms(1) by (simp_all add: estimate_ok_def)
  note cv = convex_unit [OF g temp]
  show ?thesis
  proof (cases "ft_dctcp_alpha_update_seq s < k")
    case True
    then show ?thesis using u g ok cv assms(2-4) a K by (auto simp: ack_arrives_def Let_def estimate_ok_def)
  next
    case False
    then show ?thesis using u g ok assms(2-4) a K by (auto simp: ack_arrives_def Let_def estimate_ok_def)
  qed
qed

text \<open>For a whole sequence of acknowledgments.\<close>

lemma estimate_run:
  assumes "estimate_ok s" and "\<forall>a \<in> set as. 0 \<le> fst a \<and> fst a \<le> K" and "ft_highest_ack s \<le> K" and "K < 2147483648"
    and "ft_dctcp_total s + (K - ft_highest_ack s) + ft_size_b s * int (length as) < 2147483648"
  shows "estimate_ok (fold ack_arrives as s)"
  using assms
proof (induction as arbitrary: s)
  case (Cons a as)
  obtain k e where a: "a = (k, e)" by (cases a)
  have "estimate_ok (ack_arrives (k, e) s) \<and> ft_highest_ack (ack_arrives (k, e) s) \<le> K
    \<and> ft_size_b (ack_arrives (k, e) s) = ft_size_b s
    \<and> ft_dctcp_total (ack_arrives (k, e) s) + (K - ft_highest_ack (ack_arrives (k, e) s)) + ft_size_b s * int (length as) < 2147483648"
    using Cons.prems by (intro ack_arrives_ok) (auto simp: a algebra_simps)
  then show ?case using Cons.IH [of "ack_arrives (k, e) s"] Cons.prems(2,4) by (simp add: a)
qed simp

section \<open>The receiver echoes every mark\<close>

text \<open>The bytes that the acknowledgments report as marked, and the last number acknowledged.\<close>

fun echoed :: "int \<Rightarrow> (int \<times> bool) list \<Rightarrow> int" where
  "echoed a [] = 0"
| "echoed a ((k, e) # as) = (if e then k - a else 0) + echoed k as"

definition last_ack :: "int \<Rightarrow> (int \<times> bool) list \<Rightarrow> int" where
  "last_ack a as = (if as = [] then a else fst (last as))"

lemma last_ack_simps [simp]:
  "last_ack a [] = a" "last_ack a (as @ [(k, e)]) = k" "last_ack a ((k, e) # as) = last_ack k as"
  by (simp_all add: last_ack_def)

lemma echoed_snoc [simp]: "echoed a (as @ [(k, e)]) = echoed a as + (if e then k - last_ack a as else 0)"
  by (induction a as rule: echoed.induct) simp_all

text \<open>
  The receiver's invariant: everything not yet acknowledged has arrived with the marks of the
  current state.
\<close>

definition rx_ok :: "int \<Rightarrow> int \<Rightarrow> ecn_rx \<Rightarrow> bool" where
  "rx_ok a M r \<longleftrightarrow> rx_ecn r \<and> rx_ect r \<and> rx_dctcp r \<and> last_ack a (rx_acks r) = rx_last_ack_sent r
     \<and> 0 \<le> rx_last_ack_sent r \<and> rx_last_ack_sent r \<le> rx_rcv_nxt r \<and> rx_rcv_nxt r < 2147483648
     \<and> echoed a (rx_acks r) + (if rx_recent_ce r then rx_rcv_nxt r - rx_last_ack_sent r else 0) = M"

lemma output_ack_fields [simp]:
  "rx_rcv_nxt (output_ack r) = rx_rcv_nxt r" "rx_last_ack_sent (output_ack r) = rx_rcv_nxt r"
  "rx_recent_ce (output_ack r) = rx_recent_ce r" "rx_acknow (output_ack r) = False"
  by (simp_all add: output_ack_def)

lemma output_ack_ok: "rx_ok a M r \<Longrightarrow> rx_ok a M (output_ack r)"
  by (auto simp: rx_ok_def output_ack_def)

lemma rx_ok_flags [simp]:
  "rx_ok a M (r\<lparr>rx_acknow := b\<rparr>) = rx_ok a M r" "rx_ok a M (r\<lparr>rx_delack := b\<rparr>) = rx_ok a M r"
  "rx_ok a M (r\<lparr>rx_ce_transition := b\<rparr>) = rx_ok a M r"
  by (simp_all add: rx_ok_def)

text \<open>With nothing pending the state can be changed.\<close>

lemma rx_ok_flip: "rx_ok a M r \<Longrightarrow> rx_last_ack_sent r = rx_rcv_nxt r \<Longrightarrow> rx_ok a M (r\<lparr>rx_recent_ce := b\<rparr>)"
  by (simp add: rx_ok_def split: if_splits)

text \<open>The update of the marks, and the acknowledgment it makes necessary.\<close>

lemma marks_ok:
  assumes "rx_ok a M r" and "0 < n"
  shows "rx_ok a M (ack_previous (ce_update ce True False n r))
    \<and> rx_recent_ce (ack_previous (ce_update ce True False n r)) = ce
    \<and> rx_rcv_nxt (ack_previous (ce_update ce True False n r)) = rx_rcv_nxt r"
proof -
  have f: "rx_ecn r" "rx_dctcp r" using assms(1) by (simp_all add: rx_ok_def)
  show ?thesis
  proof (cases "rx_recent_ce r = ce")
    case True
    then have "ack_previous (ce_update ce True False n r) = r\<lparr>rx_ce_transition := False\<rparr>"
      using f assms(2) by (auto simp: ce_update_def ack_previous_def)
    then show ?thesis using assms(1) True by simp
  next
    case False
    define r1 where "r1 = r\<lparr>rx_ce_transition := True, rx_recent_ce := ce\<rparr>"
    have u: "ce_update ce True False n r = r1" using f assms(2) False by (auto simp: ce_update_def r1_def)
    have p: "i32 (rx_rcv_nxt r - rx_last_ack_sent r) = rx_rcv_nxt r - rx_last_ack_sent r"
      using assms(1) by (intro i32_id) (auto simp: rx_ok_def)
    show ?thesis
    proof (cases "0 < rx_rcv_nxt r - rx_last_ack_sent r")
      case pending: True
      define r2 where "r2 = output_ack (r\<lparr>rx_ce_transition := True, rx_acknow := True\<rparr>)"
      have flip: "(\<not> ce) = rx_recent_ce r" using False by auto
      have e: "r1\<lparr>rx_acknow := True, rx_recent_ce := \<not> rx_recent_ce r1\<rparr> = r\<lparr>rx_ce_transition := True, rx_acknow := True\<rparr>"
        by (simp add: r1_def flip)
      have "ack_previous r1 = (let r = output_ack (r1\<lparr>rx_acknow := True, rx_recent_ce := \<not> rx_recent_ce r1\<rparr>)
          in r\<lparr>rx_recent_ce := \<not> rx_recent_ce r\<rparr>)"
        using f pending p by (simp add: ack_previous_def r1_def)
      also have "\<dots> = r2\<lparr>rx_recent_ce := ce\<rparr>"
      proof -
        have "rx_recent_ce r2 = (\<not> ce)" by (simp add: r2_def flip)
        then show ?thesis unfolding e r2_def [symmetric] Let_def by simp
      qed
      finally have "ack_previous r1 = r2\<lparr>rx_recent_ce := ce\<rparr>" .
      moreover have "rx_ok a M r2" unfolding r2_def using assms(1) by (intro output_ack_ok) simp
      ultimately show ?thesis using rx_ok_flip [of a M r2 ce] by (simp add: u r2_def)
    next
      case none: False
      then have e: "rx_last_ack_sent r = rx_rcv_nxt r" using assms(1) by (simp add: rx_ok_def)
      then have "ack_previous r1 = r1" using p by (simp add: ack_previous_def r1_def i32_def)
      moreover have "rx_ok a M r1" unfolding r1_def using assms(1) e rx_ok_flip [of a M "r\<lparr>rx_ce_transition := True\<rparr>" ce] by simp
      ultimately show ?thesis by (simp add: u r1_def)
    qed
  qed
qed

lemma take_data_ok:
  assumes "rx_ok a M r" and "rx_recent_ce r = ce" and "0 < n" and "rx_rcv_nxt r + n < 2147483648"
  shows "rx_ok a (M + (if ce then n else 0)) (take_data n r) \<and> rx_rcv_nxt (take_data n r) = rx_rcv_nxt r + n"
proof -
  define r1 where "r1 = r\<lparr>rx_rcv_nxt := i32 (rx_rcv_nxt r + n), rx_delack := True\<rparr>"
  have e: "i32 (rx_rcv_nxt r + n) = rx_rcv_nxt r + n" using assms by (intro i32_id) (auto simp: rx_ok_def)
  have "rx_ok a (M + (if ce then n else 0)) r1" "rx_rcv_nxt r1 = rx_rcv_nxt r + n"
    using assms e by (auto simp: rx_ok_def r1_def)
  then show ?thesis using output_ack_ok by (simp add: take_data_def Let_def r1_def [symmetric])
qed

lemma rx_step_ok:
  assumes "rx_ok a M r" and "\<forall>n ce. ev = Segment n ce \<longrightarrow> 0 < n" and "rx_rcv_nxt r + event_bytes ev < 2147483648"
  shows "rx_ok a (M + event_marked ev) (rx_step ev r) \<and> rx_rcv_nxt (rx_step ev r) = rx_rcv_nxt r + event_bytes ev"
proof (cases ev)
  case (Segment n ce)
  then show ?thesis
    using marks_ok [OF assms(1), of n ce] assms(2,3) take_data_ok [of a M "ack_previous (ce_update ce True False n r)" ce n]
    by (simp add: recv_in_order_def)
next
  case Delack
  then show ?thesis using assms(1) output_ack_ok [of a M "r\<lparr>rx_delack := False, rx_acknow := True\<rparr>"] by (simp add: delack_timeout_def)
next
  case Output
  then show ?thesis using assms(1) output_ack_ok by simp
qed

lemma sent_bytes_nonneg: "\<forall>n ce. Segment n ce \<in> set es \<longrightarrow> 0 < n \<Longrightarrow> 0 \<le> sent_bytes es"
proof (induction es)
  case (Cons ev es)
  then have "0 \<le> event_bytes ev" by (cases ev rule: rx_event.exhaust) (auto intro: less_imp_le)
  moreover have "0 \<le> sent_bytes es" using Cons.prems by (intro Cons.IH) simp
  ultimately show ?case by (simp add: sent_bytes_def)
qed (simp add: sent_bytes_def)

lemma rx_run_ok:
  assumes "rx_ok a M r" and "\<forall>n ce. Segment n ce \<in> set es \<longrightarrow> 0 < n" and "rx_rcv_nxt r + sent_bytes es < 2147483648"
  shows "rx_ok a (M + marked_bytes es) (fold rx_step es r) \<and> rx_rcv_nxt (fold rx_step es r) = rx_rcv_nxt r + sent_bytes es"
  using assms
proof (induction es arbitrary: M r)
  case (Cons ev es)
  have "0 \<le> sent_bytes es" using Cons.prems(2) by (intro sent_bytes_nonneg) simp
  then have "rx_ok a (M + event_marked ev) (rx_step ev r) \<and> rx_rcv_nxt (rx_step ev r) = rx_rcv_nxt r + event_bytes ev"
    using Cons.prems by (intro rx_step_ok) (auto simp: sent_bytes_def)
  moreover have "\<forall>n ce. Segment n ce \<in> set es \<longrightarrow> 0 < n" using Cons.prems(2) by simp
  ultimately show ?case using Cons.IH [of "M + event_marked ev" "rx_step ev r"] Cons.prems(3)
    by (simp add: sent_bytes_def marked_bytes_def algebra_simps)
qed (simp add: sent_bytes_def marked_bytes_def)

text \<open>A receiver of a DCTCP connection that has acknowledged everything up to \<open>a\<close>.\<close>

definition rx_start :: "int \<Rightarrow> ecn_rx \<Rightarrow> bool" where
  "rx_start a r \<longleftrightarrow> rx_ecn r \<and> rx_ect r \<and> rx_dctcp r \<and> rx_acks r = [] \<and> rx_last_ack_sent r = a \<and> rx_rcv_nxt r = a \<and> 0 \<le> a"

lemma echoes_exact:
  assumes "rx_start a r" and "\<forall>n ce. Segment n ce \<in> set es \<longrightarrow> 0 < n" and "a + sent_bytes es < 2147483648"
  shows "echoed a (rx_acks (fold rx_step (es @ [Output]) r)) = marked_bytes es
    \<and> last_ack a (rx_acks (fold rx_step (es @ [Output]) r)) = a + sent_bytes es"
proof -
  have "0 \<le> sent_bytes es" using assms(2) by (rule sent_bytes_nonneg)
  then have "rx_ok a 0 r" using assms(1,3) by (simp add: rx_start_def rx_ok_def)
  then have "rx_ok a (marked_bytes es) (fold rx_step es r) \<and> rx_rcv_nxt (fold rx_step es r) = a + sent_bytes es"
    using rx_run_ok [of a 0 r es] assms by (simp add: rx_start_def)
  then have "rx_ok a (marked_bytes es) (fold rx_step (es @ [Output]) r)"
    "rx_last_ack_sent (fold rx_step (es @ [Output]) r) = rx_rcv_nxt (fold rx_step (es @ [Output]) r)"
    "rx_rcv_nxt (fold rx_step (es @ [Output]) r) = a + sent_bytes es"
    using output_ack_ok by simp_all
  then show ?thesis by (simp add: rx_ok_def split: if_splits)
qed

text \<open>
  A marked pure acknowledgment sets the state without this care (the guard on the length is only
  on the other branch): what is pending without marks is then reported as marked.
\<close>

lemma pure_ack_mismarks:
  assumes "rx_start a r" and "\<not> rx_recent_ce r" and "0 < n" and "a + n < 2147483648"
    and "\<not> need_send (r\<lparr>rx_ce_transition := False, rx_rcv_nxt := a + n, rx_delack := True\<rparr>)"
  shows "rx_acks (output_ack (ce_update True True False 0 (recv_in_order False True False n r))) = [(a + n, True)]"
proof -
  have f: "rx_ecn r" "rx_dctcp r" "rx_ect r" "rx_acks r = []" "rx_rcv_nxt r = a" "rx_last_ack_sent r = a" "0 \<le> a"
    using assms(1) by (simp_all add: rx_start_def)
  have e: "i32 (a + n) = a + n" using f assms by (intro i32_id) simp_all
  have "recv_in_order False True False n r = r\<lparr>rx_ce_transition := False, rx_rcv_nxt := a + n, rx_delack := True\<rparr>"
    using f assms(2,3,5) e by (simp add: recv_in_order_def ce_update_def ack_previous_def take_data_def Let_def)
  then show ?thesis using f assms(2) by (simp add: ce_update_def output_ack_def)
qed

text \<open>
  A segment that falls through from the predicted path to the slow one updates the state twice: the
  second update clears the transition, and what is pending from before the change is not
  acknowledged with the previous state.
\<close>

lemma fall_through_skips_ack:
  assumes "0 < n" and "rx_ecn r" and "rx_dctcp r"
  shows "ack_previous (ce_update ce True cwr n (ce_update ce True cwr n r)) = (ce_update ce True cwr n r)\<lparr>rx_ce_transition := False\<rparr>"
  using assms by (simp add: ce_update_def ack_previous_def)

section \<open>From the marks to the estimate\<close>

text \<open>Acknowledgments that each acknowledge something new.\<close>

fun increasing :: "int \<Rightarrow> (int \<times> bool) list \<Rightarrow> bool" where
  "increasing a [] = True"
| "increasing a ((k, e) # as) = (a < k \<and> increasing k as)"

lemma increasing_last: "increasing a as \<Longrightarrow> a \<le> last_ack a as"
  by (induction a as rule: increasing.induct) auto

lemma echoed_bounds: "increasing a as \<Longrightarrow> 0 \<le> echoed a as \<and> echoed a as \<le> last_ack a as - a"
  by (induction a as rule: increasing.induct) (auto dest: increasing_last)

text \<open>One acknowledgment before the barrier is counted, the first beyond it updates the estimate.\<close>

lemma ack_counts:
  assumes "ft_highest_ack s < k" and "0 \<le> ft_highest_ack s" and "k \<le> ft_dctcp_alpha_update_seq s"
    and "0 \<le> ft_dctcp_marked s" and "ft_dctcp_marked s \<le> ft_dctcp_total s" and "ft_dctcp_total s + (k - ft_highest_ack s) < 2147483648"
    and "k < 2147483648"
  shows "ack_arrives (k, e) s = s\<lparr>ft_dctcp_total := ft_dctcp_total s + (k - ft_highest_ack s),
    ft_dctcp_marked := ft_dctcp_marked s + (if e then k - ft_highest_ack s else 0), ft_highest_ack := k\<rparr>"
  using assms by (simp add: ack_arrives_def update_dctcp_alpha_def Let_def i32_id)

lemma ack_updates:
  assumes "ft_highest_ack s < k" and "0 \<le> ft_highest_ack s" and "ft_dctcp_alpha_update_seq s < k"
    and "0 \<le> ft_dctcp_marked s" and "ft_dctcp_marked s \<le> ft_dctcp_total s" and "ft_dctcp_total s + (k - ft_highest_ack s) < 2147483648"
    and "k < 2147483648"
  shows "ft_dctcp_alpha (ack_arrives (k, e) s) = (1 - ft_dctcp_g s) * ft_dctcp_alpha s + ft_dctcp_g s
    * (of_int (ft_dctcp_marked s + (if e then k - ft_highest_ack s else 0)) / of_int (ft_dctcp_total s + (k - ft_highest_ack s)))"
  using assms by (simp add: ack_arrives_def update_dctcp_alpha_def Let_def i32_id)

lemma acks_count:
  assumes "increasing (ft_highest_ack s) as" and "\<forall>x \<in> set as. fst x \<le> ft_dctcp_alpha_update_seq s"
    and "0 \<le> ft_highest_ack s" and "0 \<le> ft_dctcp_marked s" and "ft_dctcp_marked s \<le> ft_dctcp_total s"
    and "ft_dctcp_total s + (last_ack (ft_highest_ack s) as - ft_highest_ack s) < 2147483648"
    and "last_ack (ft_highest_ack s) as < 2147483648"
  shows "fold ack_arrives as s = s\<lparr>ft_dctcp_total := ft_dctcp_total s + (last_ack (ft_highest_ack s) as - ft_highest_ack s),
    ft_dctcp_marked := ft_dctcp_marked s + echoed (ft_highest_ack s) as, ft_highest_ack := last_ack (ft_highest_ack s) as\<rparr>"
  using assms
proof (induction as arbitrary: s)
  case (Cons x as)
  obtain k e where x: "x = (k, e)" by (cases x)
  have inc: "ft_highest_ack s < k" "increasing k as" using Cons.prems(1) by (simp_all add: x)
  note l = increasing_last [OF inc(2)]
  have s: "ack_arrives (k, e) s = s\<lparr>ft_dctcp_total := ft_dctcp_total s + (k - ft_highest_ack s),
    ft_dctcp_marked := ft_dctcp_marked s + (if e then k - ft_highest_ack s else 0), ft_highest_ack := k\<rparr>"
    using Cons.prems inc(1) l by (intro ack_counts) (auto simp: x)
  show ?case unfolding x fold_simps s
    using Cons.prems inc l by (subst Cons.IH) (auto simp: x)
qed simp

text \<open>
  From the marks on the data to the estimate: when the acknowledgments of a window have arrived,
  the estimate has moved by \<open>g\<close> towards the fraction of bytes that were marked.
\<close>

lemma estimate_exact:
  assumes "rx_start a r" and "\<forall>n ce. Segment n ce \<in> set es \<longrightarrow> 0 < n" and "a + sent_bytes es < 2147483648"
    and "rx_acks (fold rx_step (es @ [Output]) r) = as @ [(k, e)]" and "increasing a (as @ [(k, e)])"
    and "ft_highest_ack s = a" and "ft_dctcp_total s = 0" and "ft_dctcp_marked s = 0"
    and "\<forall>x \<in> set as. fst x \<le> ft_dctcp_alpha_update_seq s" and "ft_dctcp_alpha_update_seq s < k"
  shows "ft_dctcp_alpha (fold ack_arrives (rx_acks (fold rx_step (es @ [Output]) r)) s)
    = (1 - ft_dctcp_g s) * ft_dctcp_alpha s + ft_dctcp_g s * (of_int (marked_bytes es) / of_int (sent_bytes es))"
proof -
  have a0: "0 \<le> a" using assms(1) by (simp add: rx_start_def)
  have ex: "echoed a as + (if e then k - last_ack a as else 0) = marked_bytes es" "k = a + sent_bytes es"
    using echoes_exact [OF assms(1-3)] unfolding assms(4) by simp_all
  have inc: "increasing a as \<and> last_ack a as < k"
    using assms(5) by (induction a as rule: increasing.induct) auto
  note b = echoed_bounds [OF conjunct1 [OF inc]] increasing_last [OF conjunct1 [OF inc]]
  have f: "fold ack_arrives as s = s\<lparr>ft_dctcp_total := last_ack a as - a, ft_dctcp_marked := echoed a as, ft_highest_ack := last_ack a as\<rparr>"
    using acks_count [of s as] assms a0 inc b ex(2) by simp
  have "ft_dctcp_alpha (ack_arrives (k, e) (fold ack_arrives as s))
    = (1 - ft_dctcp_g s) * ft_dctcp_alpha s + ft_dctcp_g s * (of_int (echoed a as + (if e then k - last_ack a as else 0)) / of_int (k - a))"
    unfolding f using assms a0 inc b ex(2) by (subst ack_updates) simp_all
  then show ?thesis unfolding assms(4) using ex by simp
qed

section \<open>Acknowledgments of an MPTCP subflow are not ECN-capable\<close>

lemma pure_ack_ect: "full_ect True e ect False 0 = ect" "mp_ect e ect False 0 = False"
  by (simp_all add: full_ect_def mp_ect_def)

end
