(* ===== verification/Packet_Queue.thy ===== *)
theory Packet_Queue
  imports Ns_Prelude "HOL-Library.Multiset" "HOL-Library.Sublist"
begin

text \<open>
  The queues of the links (\<open>queue/queue.h\<close>, \<open>queue/queue.cc\<close>): the linked list of packets
  \<open>PacketQueue\<close>, the base class \<open>Queue\<close> that a discipline extends (its state is a record that the
  disciplines extend, its virtual \<open>enque\<close> and \<open>deque\<close> are arguments), and the interface
  \<open>queue_discipline\<close> under which the base class keeps every packet, in the order of arrival.

  A packet is its identity (the pointer), its size and the two flags of ECN. The doubles are
  rational numbers; the clock, the draws of the random number generator and the values of \<open>exp\<close> and
  \<open>pow\<close> come with each call, in a \<open>qenv\<close>.
\<close>

section \<open>The list of packets\<close>

record qpkt =
  pk_uid :: nat
  pk_size :: int
  pk_ect :: bool
  pk_ce :: bool

record pqueue =
  pq_list :: "qpkt list"
  pq_len :: int
  pq_bytes :: int

definition pq_new :: pqueue where
  "pq_new = \<lparr>pq_list = [], pq_len = 0, pq_bytes = 0\<rparr>"

definition pq_enque :: "qpkt \<Rightarrow> pqueue \<Rightarrow> pqueue" where
  "pq_enque p q = q\<lparr>pq_list := pq_list q @ [p], pq_len := i32 (pq_len q + 1),
     pq_bytes := i32 (pq_bytes q + pk_size p)\<rparr>"

definition pq_enqueHead :: "qpkt \<Rightarrow> pqueue \<Rightarrow> pqueue" where
  "pq_enqueHead p q = q\<lparr>pq_list := p # pq_list q, pq_len := i32 (pq_len q + 1),
     pq_bytes := i32 (pq_bytes q + pk_size p)\<rparr>"

definition pq_deque :: "pqueue \<Rightarrow> pqueue \<times> qpkt option" where
  "pq_deque q = (case pq_list q of
       [] \<Rightarrow> (q, None)
     | p # ps \<Rightarrow> (q\<lparr>pq_list := ps, pq_len := i32 (pq_len q - 1),
                   pq_bytes := i32 (pq_bytes q - pk_size p)\<rparr>, Some p))"

fun lookup_from :: "int \<Rightarrow> qpkt list \<Rightarrow> qpkt option" where
  "lookup_from n [] = None"
| "lookup_from n (p # ps) = (if n - 1 < 0 then Some p else lookup_from (n - 1) ps)"

definition pq_lookup :: "int \<Rightarrow> pqueue \<Rightarrow> qpkt option" where
  "pq_lookup n q = lookup_from n (pq_list q)"

definition pq_tail :: "pqueue \<Rightarrow> qpkt option" where
  "pq_tail q = (if pq_list q = [] then None else Some (last (pq_list q)))"

text \<open>\<open>remove\<close> goes along the list to the target and unlinks it; it aborts at the end of the list.\<close>

fun unlink_pkt :: "nat \<Rightarrow> qpkt list \<Rightarrow> (qpkt \<times> qpkt list) option" where
  "unlink_pkt u [] = None"
| "unlink_pkt u (p # ps) =
     (if pk_uid p = u then Some (p, ps)
      else case unlink_pkt u ps of None \<Rightarrow> None | Some (r, rs) \<Rightarrow> Some (r, p # rs))"

definition pq_remove :: "qpkt \<Rightarrow> pqueue \<Rightarrow> pqueue option" where
  "pq_remove target q = (case unlink_pkt (pk_uid target) (pq_list q) of
       None \<Rightarrow> None
     | Some (p, ps) \<Rightarrow> Some (q\<lparr>pq_list := ps, pq_len := i32 (pq_len q - 1),
                                pq_bytes := i32 (pq_bytes q - pk_size p)\<rparr>))"

definition uids :: "qpkt list \<Rightarrow> nat list" where
  "uids ps = map pk_uid ps"

definition sum_size :: "qpkt list \<Rightarrow> int" where
  "sum_size ps = sum_list (map pk_size ps)"

text \<open>The counters are those of the list, and no packet is linked twice.\<close>

definition pq_ok :: "pqueue \<Rightarrow> bool" where
  "pq_ok q \<longleftrightarrow> pq_len q = int (length (pq_list q)) \<and> pq_bytes q = sum_size (pq_list q)
     \<and> distinct (uids (pq_list q))"

section \<open>The base class\<close>

record qenv =
  qe_now :: rat
  qe_uniform :: rat
  qe_integer :: "int \<Rightarrow> int"
  qe_exp :: "rat \<Rightarrow> rat"
  qe_pow :: "rat \<Rightarrow> rat \<Rightarrow> rat"

record qbase =
  q_lim :: int
  q_blocked :: bool
  q_unblock_on_resume :: bool
  q_pq :: pqueue
  q_true_ave :: rat
  q_total_time :: rat
  q_last_change :: rat
  q_old_util :: rat
  q_util_weight :: rat
  q_util_check_intv :: rat
  q_period_begin :: rat
  q_cur_util :: rat
  q_buf_slot :: int
  q_util_buf :: "rat list"
  q_util_records :: int

abbreviation pkts :: "'a qbase_scheme \<Rightarrow> qpkt list" where
  "pkts q \<equiv> pq_list (q_pq q)"

definition updateStats :: "rat \<Rightarrow> int \<Rightarrow> 'a qbase_scheme \<Rightarrow> 'a qbase_scheme" where
  "updateStats now queuesize q =
     (let newtime = now - q_total_time q
      in if newtime > 0
         then q\<lparr>q_true_ave := (q_total_time q * q_true_ave q + newtime * of_int queuesize) / now,
                q_total_time := now\<rparr>
         else q)"

text \<open>The slots that a long interval fills; the guard stops after \<open>util_records_\<close> of them.\<close>

fun util_slots :: "nat \<Rightarrow> rat \<Rightarrow> rat \<Rightarrow> rat \<Rightarrow> rat \<Rightarrow> 'a qbase_scheme \<Rightarrow> 'a qbase_scheme" where
  "util_slots 0 tot_intv intv int_end link_state q = q"
| "util_slots (Suc g) tot_intv intv int_end link_state q =
     (if tot_intv + intv > q_util_check_intv q
      then util_slots g tot_intv (intv - q_util_check_intv q) int_end link_state
             (q\<lparr>q_period_begin := int_end,
                q_util_buf := (q_util_buf q)[nat (q_buf_slot q) := q_cur_util q],
                q_buf_slot := (q_buf_slot q + 1) mod q_util_records q,
                q_cur_util := link_state\<rparr>)
      else q)"

definition utilUpdate :: "(rat \<Rightarrow> rat) \<Rightarrow> rat \<Rightarrow> rat \<Rightarrow> bool \<Rightarrow> 'a qbase_scheme \<Rightarrow> 'a qbase_scheme" where
  "utilUpdate ex int_begin int_end blocked q =
     (let link_state = of_bool blocked;
          decay = ex (- q_util_weight q * (int_end - int_begin));
          q1 = q\<lparr>q_old_util := link_state + (q_old_util q - link_state) * decay\<rparr>;
          intv = int_end - int_begin;
          tot_intv = int_begin - q_period_begin q
      in if q_util_records q = 0 then q1
         else if intv \<noteq> 0 \<or> tot_intv \<noteq> 0
         then util_slots (nat (q_util_records q)) tot_intv intv int_end link_state
                (q1\<lparr>q_cur_util := (link_state * intv + q_cur_util q * tot_intv) / (intv + tot_intv)\<rparr>)
         else q1)"

definition utilization :: "qenv \<Rightarrow> 'a qbase_scheme \<Rightarrow> 'a qbase_scheme \<times> rat" where
  "utilization e q =
     (let q' = (utilUpdate (qe_exp e) (q_last_change q) (qe_now e) (q_blocked q) q)
                 \<lparr>q_last_change := qe_now e\<rparr>
      in (q', q_old_util q'))"

definition peak_utilization :: "qenv \<Rightarrow> 'a qbase_scheme \<Rightarrow> 'a qbase_scheme \<times> rat" where
  "peak_utilization e q =
     (if q_util_records q = 0 then utilization e q
      else let q' = (utilUpdate (qe_exp e) (q_last_change q) (qe_now e) (q_blocked q) q)
                      \<lparr>q_last_change := qe_now e\<rparr>
           in (q', foldl (\<lambda>peak u. if u > peak then u else peak) 0
                     (take (nat (q_util_records q')) (q_util_buf q'))))"

type_synonym 'q enquer = "qenv \<Rightarrow> qpkt \<Rightarrow> 'q \<Rightarrow> ('q \<times> qpkt list) option"
type_synonym 'q dequer = "qenv \<Rightarrow> 'q \<Rightarrow> 'q \<times> qpkt option"

text \<open>
  \<open>recv\<close>: the new state, the packet sent to the target and the packets dropped; \<open>None\<close> is a run that
  aborts. \<open>resume\<close> is called back when the link is free again.
\<close>

definition queue_recv :: "'a qbase_scheme enquer \<Rightarrow> 'a qbase_scheme dequer \<Rightarrow> qenv \<Rightarrow> qpkt
    \<Rightarrow> 'a qbase_scheme \<Rightarrow> ('a qbase_scheme \<times> qpkt list \<times> qpkt list) option" where
  "queue_recv enq deq e p q = (case enq e p q of
       None \<Rightarrow> None
     | Some (q1, ds) \<Rightarrow>
         if q_blocked q1 then Some (q1, [], ds)
         else (case deq e q1 of
             (q2, None) \<Rightarrow> Some (q2, [], ds)
           | (q2, Some p') \<Rightarrow>
               Some ((utilUpdate (qe_exp e) (q_last_change q2) (qe_now e) (q_blocked q2) q2)
                       \<lparr>q_last_change := qe_now e, q_blocked := True\<rparr>, [p'], ds)))"

definition queue_resume :: "'a qbase_scheme dequer \<Rightarrow> qenv \<Rightarrow> 'a qbase_scheme
    \<Rightarrow> 'a qbase_scheme \<times> qpkt list" where
  "queue_resume deq e q = (case deq e q of
       (q1, Some p) \<Rightarrow> (q1, [p])
     | (q1, None) \<Rightarrow>
         ((utilUpdate (qe_exp e) (q_last_change q1) (qe_now e) (q_blocked q1) q1)
            \<lparr>q_last_change := qe_now e, q_blocked := \<not> q_unblock_on_resume q1\<rparr>, []))"

text \<open>The loop of \<open>reset\<close>, with fuel: \<open>queue_drain_all\<close> shows that one round per packet is enough.\<close>

fun queue_drain :: "'a qbase_scheme dequer \<Rightarrow> qenv \<Rightarrow> nat \<Rightarrow> 'a qbase_scheme
    \<Rightarrow> ('a qbase_scheme \<times> qpkt list) option" where
  "queue_drain deq e 0 q = None"
| "queue_drain deq e (Suc n) q = (case deq e q of
       (q1, None) \<Rightarrow> Some (q1, [])
     | (q1, Some p) \<Rightarrow> (case queue_drain deq e n q1 of
           None \<Rightarrow> None | Some (q2, ds) \<Rightarrow> Some (q2, p # ds)))"

definition queue_reset :: "'a qbase_scheme dequer \<Rightarrow> qenv \<Rightarrow> 'a qbase_scheme
    \<Rightarrow> ('a qbase_scheme \<times> qpkt list) option" where
  "queue_reset deq e q = queue_drain deq e (Suc (length (pkts q)))
     (q\<lparr>q_total_time := 0, q_true_ave := 0\<rparr>)"

section \<open>Lemmas on the list of packets\<close>

lemma uids_simps [simp]:
  "uids [] = []" "uids (p # ps) = pk_uid p # uids ps" "uids (ps @ rs) = uids ps @ uids rs"
  by (simp_all add: uids_def)

lemma sum_size_simps [simp]:
  "sum_size [] = 0" "sum_size (p # ps) = pk_size p + sum_size ps"
  "sum_size (ps @ rs) = sum_size ps + sum_size rs"
  by (simp_all add: sum_size_def)

lemma uid_in_uids: "p \<in> set ps \<Longrightarrow> pk_uid p \<in> set (uids ps)"
  by (simp add: uids_def)

lemma length_uids [simp]: "length (uids ps) = length ps"
  by (simp add: uids_def)

lemma sum_size_bounds:
  "\<forall>p\<in>set ps. 0 < pk_size p \<and> pk_size p \<le> M \<Longrightarrow>
     int (length ps) \<le> sum_size ps \<and> sum_size ps \<le> M * int (length ps)"
  by (induction ps) (auto simp: algebra_simps)

lemma lookup_from_nth:
  "0 \<le> n \<Longrightarrow> n < int (length ps) \<Longrightarrow> lookup_from n ps = Some (ps ! nat n)"
proof (induction n ps rule: lookup_from.induct)
  case (2 n p ps)
  then show ?case
    by (cases "n = 0") (auto simp: nth_Cons' nat_diff_distrib)
qed simp

lemma lookup_from_beyond: "int (length ps) \<le> n \<Longrightarrow> lookup_from n ps = None"
  by (induction n ps rule: lookup_from.induct) auto

lemma unlink_pkt_None: "unlink_pkt u ps = None \<longleftrightarrow> u \<notin> set (uids ps)"
  by (induction u ps rule: unlink_pkt.induct) (auto split: option.splits)

lemma unlink_pkt_at:
  "distinct (uids (xs @ p # ys)) \<Longrightarrow> unlink_pkt (pk_uid p) (xs @ p # ys) = Some (p, xs @ ys)"
  by (induction xs) auto

text \<open>The bounds in which the counters are exact: sizes of at most \<open>M\<close> bytes, at most \<open>N\<close> packets.\<close>

definition pkt_ok :: "int \<Rightarrow> qpkt \<Rightarrow> bool" where
  "pkt_ok M p \<longleftrightarrow> 0 < pk_size p \<and> pk_size p \<le> M"

definition pq_within :: "int \<Rightarrow> int \<Rightarrow> pqueue \<Rightarrow> bool" where
  "pq_within M N q \<longleftrightarrow> pq_ok q \<and> (\<forall>p\<in>set (pq_list q). pkt_ok M p) \<and> int (length (pq_list q)) \<le> N"

definition counters_fit :: "int \<Rightarrow> int \<Rightarrow> bool" where
  "counters_fit M N \<longleftrightarrow> 1 \<le> M \<and> M * N < 2147483648"

lemma counters_fit_less: "counters_fit M N \<Longrightarrow> K \<le> N \<Longrightarrow> counters_fit M K"
  unfolding counters_fit_def by (meson dual_order.strict_trans2 mult_left_mono order_trans zero_le_one)

lemma counters_exact:
  assumes "counters_fit M N" "\<forall>p\<in>set ps. pkt_ok M p" "int (length ps) \<le> N"
  shows "i32 (int (length ps)) = int (length ps)" "i32 (sum_size ps) = sum_size ps"
proof -
  have b: "int (length ps) \<le> sum_size ps" "sum_size ps \<le> M * int (length ps)"
    using sum_size_bounds [of ps M] assms(2) by (auto simp: pkt_ok_def)
  have "M * int (length ps) \<le> M * N"
    using assms(1,3) by (intro mult_left_mono) (auto simp: counters_fit_def)
  then have "sum_size ps < 2147483648"
    using b assms(1) unfolding counters_fit_def by linarith
  with b show "i32 (int (length ps)) = int (length ps)" "i32 (sum_size ps) = sum_size ps"
    by (auto intro!: i32_id)
qed

lemma pq_enque_list [simp]: "pq_list (pq_enque p q) = pq_list q @ [p]"
  by (simp add: pq_enque_def)

lemma pq_new_within: "0 \<le> N \<Longrightarrow> pq_within M N pq_new"
  by (simp add: pq_within_def pq_ok_def pq_new_def)

lemma pq_enque_within:
  assumes "pq_within M N q" "counters_fit M (N + 1)" "pkt_ok M p" "pk_uid p \<notin> set (uids (pq_list q))"
  shows "pq_within M (int (length (pq_list q)) + 1) (pq_enque p q)"
    and "pq_len (pq_enque p q) = pq_len q + 1" "pq_bytes (pq_enque p q) = pq_bytes q + pk_size p"
proof -
  have w: "pq_len q = int (length (pq_list q))" "pq_bytes q = sum_size (pq_list q)"
    "distinct (uids (pq_list q))" "\<forall>p\<in>set (pq_list q). pkt_ok M p" "int (length (pq_list q)) \<le> N"
    using assms(1) by (auto simp: pq_within_def pq_ok_def)
  have e: "i32 (pq_len q + 1) = pq_len q + 1" "i32 (pq_bytes q + pk_size p) = pq_bytes q + pk_size p"
    using counters_exact [OF assms(2), of "pq_list q @ [p]"] w assms(3) by (auto simp: add.commute)
  show "pq_len (pq_enque p q) = pq_len q + 1" "pq_bytes (pq_enque p q) = pq_bytes q + pk_size p"
    using e by (simp_all add: pq_enque_def)
  show "pq_within M (int (length (pq_list q)) + 1) (pq_enque p q)"
    using w e assms(3,4) by (auto simp: pq_within_def pq_ok_def pq_enque_def)
qed

lemma pq_unlinked_within:
  assumes "pq_within M N q" "counters_fit M N" "pq_list q = xs @ p # ys"
  shows "pq_within M (int (length (pq_list q)) - 1)
    (q\<lparr>pq_list := xs @ ys, pq_len := i32 (pq_len q - 1), pq_bytes := i32 (pq_bytes q - pk_size p)\<rparr>)"
  using assms counters_exact [OF assms(2), of "xs @ ys"]
  by (auto simp: pq_within_def pq_ok_def)

lemma pq_deque_within:
  assumes "pq_within M N q" "counters_fit M N" "pq_deque q = (q', Some p)"
  shows "pq_within M (int (length (pq_list q)) - 1) q'" "pq_list q = p # pq_list q'"
  using assms(3) pq_unlinked_within [OF assms(1,2), of "[]"]
  by (auto simp: pq_deque_def split: list.splits)

lemma pq_deque_None: "pq_deque q = (q', None) \<longleftrightarrow> q' = q \<and> pq_list q = []"
  by (auto simp: pq_deque_def split: list.splits)

lemma pq_remove_within:
  assumes "pq_within M N q" "counters_fit M N" "pq_list q = xs @ p # ys"
  obtains q' where "pq_remove p q = Some q'" "pq_list q' = xs @ ys"
    "pq_within M (int (length (pq_list q)) - 1) q'"
proof
  have "distinct (uids (xs @ p # ys))"
    using assms(1,3) by (simp add: pq_within_def pq_ok_def)
  then show "pq_remove p q = Some
      (q\<lparr>pq_list := xs @ ys, pq_len := i32 (pq_len q - 1), pq_bytes := i32 (pq_bytes q - pk_size p)\<rparr>)"
    unfolding pq_remove_def assms(3) by (simp add: unlink_pkt_at del: uids_simps)
qed (simp_all add: pq_unlinked_within [OF assms])

lemma pq_enqueHead_deque:
  assumes "pq_within M N q" "counters_fit M (N + 1)" "pkt_ok M p"
  shows "pq_deque (pq_enqueHead p q) = (q, Some p)"
  using assms counters_exact [OF assms(2), of "p # pq_list q"]
    counters_exact [OF assms(2), of "pq_list q"]
  by (auto simp: pq_deque_def pq_enqueHead_def pq_within_def pq_ok_def pkt_ok_def algebra_simps)

section \<open>Lemmas on the base class\<close>

lemma util_slots_keeps [simp]:
  "q_pq (util_slots g a b c d q) = q_pq q" "q_blocked (util_slots g a b c d q) = q_blocked q"
  "q_unblock_on_resume (util_slots g a b c d q) = q_unblock_on_resume q"
  "q_lim (util_slots g a b c d q) = q_lim q" "qbase.more (util_slots g a b c d q) = qbase.more q"
  "q_last_change (util_slots g a b c d q) = q_last_change q"
  by (induction g a b c d q rule: util_slots.induct) auto

lemma utilUpdate_keeps [simp]:
  "q_pq (utilUpdate ex a b c q) = q_pq q" "q_blocked (utilUpdate ex a b c q) = q_blocked q"
  "q_unblock_on_resume (utilUpdate ex a b c q) = q_unblock_on_resume q"
  "q_lim (utilUpdate ex a b c q) = q_lim q" "qbase.more (utilUpdate ex a b c q) = qbase.more q"
  "q_last_change (utilUpdate ex a b c q) = q_last_change q"
  by (simp_all add: utilUpdate_def Let_def)

lemma updateStats_keeps [simp]:
  "q_pq (updateStats t n q) = q_pq q" "q_blocked (updateStats t n q) = q_blocked q"
  "q_unblock_on_resume (updateStats t n q) = q_unblock_on_resume q"
  "q_lim (updateStats t n q) = q_lim q" "qbase.more (updateStats t n q) = qbase.more q"
  by (simp_all add: updateStats_def Let_def)

text \<open>The average of the summary statistics is the integral of the sampled sizes over the time.\<close>

lemma updateStats_integral:
  assumes "0 \<le> q_total_time q" "q_total_time q \<le> now"
  shows "q_total_time (updateStats now n q) = now"
    and "q_true_ave (updateStats now n q) * now =
      q_true_ave q * q_total_time q + of_int n * (now - q_total_time q)"
proof -
  show "q_total_time (updateStats now n q) = now"
    using assms by (auto simp: updateStats_def Let_def)
  show "q_true_ave (updateStats now n q) * now =
      q_true_ave q * q_total_time q + of_int n * (now - q_total_time q)"
  proof (cases "q_total_time q < now")
    case True
    then have "now \<noteq> 0"
      using assms(1) by simp
    with True show ?thesis
      by (simp add: updateStats_def Let_def mult.commute)
  qed (use assms(2) in \<open>simp add: updateStats_def Let_def\<close>)
qed

text \<open>
  The utilisation: every average and every recorded slot is in \<open>[0, 1]\<close>, and the slot that is
  written next exists.
\<close>

definition in_unit :: "rat \<Rightarrow> bool" where
  "in_unit x \<longleftrightarrow> 0 \<le> x \<and> x \<le> 1"

definition util_ok :: "'a qbase_scheme \<Rightarrow> bool" where
  "util_ok q \<longleftrightarrow> in_unit (q_old_util q) \<and> in_unit (q_cur_util q) \<and> (\<forall>u\<in>set (q_util_buf q). in_unit u)
     \<and> q_period_begin q \<le> q_last_change q \<and> 0 \<le> q_util_records q
     \<and> length (q_util_buf q) = nat (q_util_records q)
     \<and> 0 \<le> q_buf_slot q \<and> (0 < q_util_records q \<longrightarrow> q_buf_slot q < q_util_records q)"

definition exp_decays :: "(rat \<Rightarrow> rat) \<Rightarrow> bool" where
  "exp_decays ex \<longleftrightarrow> (\<forall>x\<le>0. in_unit (ex x))"

lemma in_unit_mix:
  assumes "in_unit x" "in_unit y" "0 \<le> a" "0 \<le> b" "a + b \<noteq> 0"
  shows "in_unit ((x * a + y * b) / (a + b))"
proof -
  have "0 < a + b"
    using assms(3-5) by simp
  moreover have "0 \<le> x * a + y * b"
    using assms by (simp add: in_unit_def)
  moreover have "x * a \<le> a" "y * b \<le> b"
    using assms by (simp_all add: in_unit_def mult_left_le_one_le)
  ultimately show ?thesis
    by (auto simp: in_unit_def)
qed

lemma util_slots_ok:
  assumes "\<forall>u\<in>set (q_util_buf q). in_unit u" "in_unit (q_cur_util q)" "in_unit l" "q_period_begin q \<le> t"
    and "0 < q_util_records q" "length (q_util_buf q) = nat (q_util_records q)"
    and "0 \<le> q_buf_slot q" "q_buf_slot q < q_util_records q" "in_unit (q_old_util q)"
  shows "util_ok ((util_slots g a b t l q)\<lparr>q_last_change := t\<rparr>)"
  using assms
proof (induction g a b t l q rule: util_slots.induct)
  case (1 tot intv t l q)
  then show ?case by (simp add: util_ok_def)
next
  case (2 g tot intv t l q)
  show ?case
  proof (cases "tot + intv > q_util_check_intv q")
    case True
    have "\<forall>u\<in>set ((q_util_buf q)[nat (q_buf_slot q) := q_cur_util q]). in_unit u"
      using "2.prems"(1,2) set_update_subset_insert by fastforce
    then show ?thesis
      using True 2 by (simp add: util_ok_def)
  next
    case False
    then show ?thesis
      using "2.prems" by (simp add: util_ok_def)
  qed
qed

lemma utilUpdate_ok:
  assumes ok: "util_ok q" and ex: "exp_decays ex" and w: "0 \<le> q_util_weight q"
    and t: "q_last_change q \<le> t"
  shows "util_ok ((utilUpdate ex (q_last_change q) t b q)\<lparr>q_last_change := t\<rparr>)"
proof -
  let ?d = "ex (- q_util_weight q * (t - q_last_change q))"
  let ?u = "of_bool b + (q_old_util q - of_bool b) * ?d"
  let ?q1 = "q\<lparr>q_old_util := ?u\<rparr>"
  have d: "in_unit ?d"
    using ex w t by (simp add: exp_decays_def)
  have l: "in_unit (of_bool b)"
    by (simp add: in_unit_def)
  have "?u = (of_bool b * (1 - ?d) + q_old_util q * ?d) / ((1 - ?d) + ?d)"
    by (simp add: algebra_simps)
  then have u: "in_unit ?u"
    using in_unit_mix [OF l, of "q_old_util q" "1 - ?d" ?d] ok d by (simp add: util_ok_def in_unit_def)
  have p: "q_period_begin q \<le> t"
    using ok t by (simp add: util_ok_def)
  show ?thesis
  proof (cases "q_util_records q \<noteq> 0 \<and> (t - q_last_change q \<noteq> 0 \<or> q_last_change q - q_period_begin q \<noteq> 0)")
    case True
    let ?c = "(of_bool b * (t - q_last_change q) + q_cur_util q * (q_last_change q - q_period_begin q))
        / ((t - q_last_change q) + (q_last_change q - q_period_begin q))"
    let ?q2 = "?q1\<lparr>q_cur_util := ?c\<rparr>"
    have c: "in_unit ?c"
      by (rule in_unit_mix [OF l]) (use True ok t in \<open>auto simp: util_ok_def\<close>)
    have eq: "utilUpdate ex (q_last_change q) t b q = util_slots (nat (q_util_records q))
        (q_last_change q - q_period_begin q) (t - q_last_change q) t (of_bool b) ?q2"
      using True by (simp only: utilUpdate_def Let_def) presburger
    have "0 < q_util_records q"
      using True ok unfolding util_ok_def by linarith
    with ok show ?thesis
      unfolding eq util_ok_def [of q]
      by (intro util_slots_ok) (use c u l p in \<open>simp_all only: qbase.simps\<close>, simp_all)
  next
    case False
    then show ?thesis
      using ok u p by (auto simp: utilUpdate_def Let_def util_ok_def)
  qed
qed

lemma utilization_ok:
  assumes "util_ok q" "exp_decays (qe_exp e)" "0 \<le> q_util_weight q" "q_last_change q \<le> qe_now e"
  shows "util_ok (fst (utilization e q)) \<and> in_unit (snd (utilization e q))"
  using utilUpdate_ok [OF assms] by (auto simp: utilization_def Let_def util_ok_def)

lemma foldl_peak:
  "foldl (\<lambda>peak u. if u > peak then u else peak) (x :: rat) us = Max (insert x (set us))"
proof (induction us arbitrary: x)
  case (Cons u us)
  show ?case
    by (cases "u > x") (auto simp: Cons.IH insert_commute [of x u] Max_insert2 max_def
      simp del: Max_insert intro!: Max_eq_if)
qed simp

lemma peak_utilization_ok:
  assumes "util_ok q" "exp_decays (qe_exp e)" "0 \<le> q_util_weight q" "q_last_change q \<le> qe_now e"
  shows "util_ok (fst (peak_utilization e q)) \<and> in_unit (snd (peak_utilization e q))"
proof (cases "q_util_records q = 0")
  case False
  let ?q = "(utilUpdate (qe_exp e) (q_last_change q) (qe_now e) (q_blocked q) q)\<lparr>q_last_change := qe_now e\<rparr>"
  have ok: "util_ok ?q"
    by (rule utilUpdate_ok [OF assms])
  let ?us = "take (nat (q_util_records ?q)) (q_util_buf ?q)"
  have "\<forall>u\<in>set ?us. in_unit u"
    using ok unfolding util_ok_def by (auto dest: in_set_takeD)
  then have "in_unit (Max (insert 0 (set ?us)))"
    using Max_in [of "insert 0 (set ?us)"] by (auto simp: in_unit_def simp del: Max_insert Max_in)
  then show ?thesis
    using False ok by (simp add: peak_utilization_def Let_def foldl_peak del: Max_insert)
qed (use utilization_ok [OF assms] in \<open>simp add: peak_utilization_def\<close>)

end
