(* ===== verification/Queue_Link.thy ===== *)
theory Queue_Link
  imports Packet_Queue
begin

text \<open>
  A queue in front of a link: the packets that arrive (\<open>Queue::recv\<close>) and the calls by which the
  link asks for the next one (\<open>Queue::resume\<close>), in any order. \<open>queue_discipline\<close> is what the base
  class needs of the \<open>enque\<close> and \<open>deque\<close> of a discipline; the lemmas of the locale are its promises to
  the network: a call always returns, no packet is lost or invented, packets leave in the order of
  arrival, and a link that is free has nothing waiting.
\<close>

datatype qevent = Arrive qenv qpkt | Resume qenv

fun link_run :: "'a qbase_scheme enquer \<Rightarrow> 'a qbase_scheme dequer \<Rightarrow> qevent list \<Rightarrow> 'a qbase_scheme
    \<Rightarrow> ('a qbase_scheme \<times> qpkt list \<times> qpkt list) option" where
  "link_run enq deq [] q = Some (q, [], [])"
| "link_run enq deq (Arrive e p # evs) q = (case queue_recv enq deq e p q of
       None \<Rightarrow> None
     | Some (q1, s1, d1) \<Rightarrow> (case link_run enq deq evs q1 of
           None \<Rightarrow> None
         | Some (q2, s2, d2) \<Rightarrow> Some (q2, s1 @ s2, d1 @ d2)))"
| "link_run enq deq (Resume e # evs) q = (case queue_resume deq e q of
       (q1, s1) \<Rightarrow> (case link_run enq deq evs q1 of
           None \<Rightarrow> None
         | Some (q2, s2, d2) \<Rightarrow> Some (q2, s1 @ s2, d2)))"

fun arrivals :: "qevent list \<Rightarrow> qpkt list" where
  "arrivals [] = []"
| "arrivals (Arrive e p # evs) = p # arrivals evs"
| "arrivals (Resume e # evs) = arrivals evs"

fun event_env :: "qevent \<Rightarrow> qenv" where
  "event_env (Arrive e p) = e"
| "event_env (Resume e) = e"

definition events_ok :: "(qenv \<Rightarrow> bool) \<Rightarrow> int \<Rightarrow> qevent list \<Rightarrow> bool" where
  "events_ok env M evs \<longleftrightarrow> (\<forall>ev\<in>set evs. env (event_env ev)) \<and> (\<forall>p\<in>set (arrivals evs). pkt_ok M p)"

lemma events_ok_simps [simp]:
  "events_ok env M []"
  "events_ok env M (Arrive e p # evs) \<longleftrightarrow> env e \<and> pkt_ok M p \<and> events_ok env M evs"
  "events_ok env M (Resume e # evs) \<longleftrightarrow> env e \<and> events_ok env M evs"
  by (auto simp: events_ok_def)

text \<open>
  \<open>kept q ps q' s d\<close>: from the queue \<open>q\<close> and the arrivals \<open>ps\<close> to the queue \<open>q'\<close>, the packets \<open>s\<close> sent
  and the packets \<open>d\<close> dropped.
\<close>

definition works :: "'a qbase_scheme \<Rightarrow> bool" where
  "works q \<longleftrightarrow> (q_unblock_on_resume q \<and> \<not> q_blocked q \<longrightarrow> pkts q = [])"

definition kept :: "'a qbase_scheme \<Rightarrow> qpkt list \<Rightarrow> 'a qbase_scheme \<Rightarrow> qpkt list \<Rightarrow> qpkt list \<Rightarrow> bool" where
  "kept q ps q' s d \<longleftrightarrow>
     mset (uids (pkts q @ ps)) = mset (uids s) + mset (uids d) + mset (uids (pkts q'))
     \<and> subseq (uids (s @ pkts q')) (uids (pkts q @ ps))
     \<and> (works q \<longrightarrow> works q') \<and> q_unblock_on_resume q' = q_unblock_on_resume q"

lemma kept_refl: "kept q [] q [] []"
  by (simp add: kept_def)

lemma mset_flow:
  fixes A P B S D :: "'b multiset"
  assumes "A + P = S + D + B" "B + P' = S' + D' + C"
  shows "A + (P + P') = (S + S') + (D + D') + C"
proof -
  have "A + (P + P') = S + D + (B + P')"
    using assms(1) by (simp flip: add.assoc)
  then show ?thesis
    unfolding assms(2) by (simp add: ac_simps)
qed

lemma kept_trans:
  assumes "kept q ps q1 s d" "kept q1 ps' q2 s' d'"
  shows "kept q (ps @ ps') q2 (s @ s') (d @ d')"
proof -
  have "subseq (uids s @ uids (s' @ pkts q2)) (uids s @ uids (pkts q1 @ ps'))"
    using assms(2) by (simp add: kept_def subseq_append')
  moreover have "subseq (uids (s @ pkts q1) @ uids ps') (uids (pkts q @ ps) @ uids ps')"
    using assms(1) by (simp add: kept_def del: uids_simps)
  ultimately have "subseq (uids ((s @ s') @ pkts q2)) (uids (pkts q @ (ps @ ps')))"
    using subseq_order.order_trans by fastforce
  moreover have "mset (uids (pkts q @ (ps @ ps'))) =
      mset (uids (s @ s')) + mset (uids (d @ d')) + mset (uids (pkts q2))"
    using assms mset_flow [of "mset (uids (pkts q))" "mset (uids ps)"] by (simp add: kept_def)
  ultimately show ?thesis
    using assms by (simp add: kept_def)
qed

lemma subseq_drop_mid: "subseq (xs @ ys) (xs @ y # ys)"
  by (induction xs) auto

lemma distinct_submset:
  assumes "mset xs \<subseteq># mset ys" "distinct ys"
  shows "distinct xs"
proof -
  obtain zs where "mset ys = mset (xs @ zs)"
    using assms(1) by (metis ex_mset mset_append subset_mset.add_diff_inverse)
  then have "distinct (xs @ zs)"
    using assms(2) mset_eq_imp_distinct_iff by blast
  then show ?thesis by simp
qed

lemma kept_fresh:
  assumes "kept q ps q1 s d" "distinct (uids (pkts q @ ps @ ps'))"
  shows "distinct (uids (pkts q1 @ ps'))"
proof -
  have "mset (uids (pkts q1)) \<subseteq># mset (uids (pkts q @ ps))"
    using assms(1) by (simp add: kept_def)
  then have "mset (uids (pkts q1 @ ps')) \<subseteq># mset (uids (pkts q @ ps @ ps'))"
    by simp
  with assms(2) show ?thesis
    using distinct_submset by blast
qed

locale queue_discipline =
  fixes enq :: "'a qbase_scheme enquer" and deq :: "'a qbase_scheme dequer"
    and inv :: "'a qbase_scheme \<Rightarrow> bool" and env :: "qenv \<Rightarrow> bool" and M :: int
  assumes enq_returns: "inv q \<Longrightarrow> env e \<Longrightarrow> pkt_ok M p \<Longrightarrow> pk_uid p \<notin> set (uids (pkts q)) \<Longrightarrow>
      \<exists>q' ds. enq e p q = Some (q', ds)"
    and enq_keeps: "inv q \<Longrightarrow> env e \<Longrightarrow> pkt_ok M p \<Longrightarrow> pk_uid p \<notin> set (uids (pkts q)) \<Longrightarrow>
      enq e p q = Some (q', ds) \<Longrightarrow> inv q' \<and> q_blocked q' = q_blocked q
      \<and> q_unblock_on_resume q' = q_unblock_on_resume q
      \<and> mset (uids (pkts q')) + mset (uids ds) = mset (uids (pkts q @ [p]))
      \<and> subseq (uids (pkts q')) (uids (pkts q @ [p]))"
    and deq_keeps: "inv q \<Longrightarrow> deq e q = (q', r) \<Longrightarrow> inv q' \<and> q_blocked q' = q_blocked q
      \<and> q_unblock_on_resume q' = q_unblock_on_resume q"
    and deq_head: "inv q \<Longrightarrow> deq e q = (q', Some p) \<Longrightarrow> pkts q = p # pkts q'"
    and deq_empty: "inv q \<Longrightarrow> deq e q = (q', None) \<Longrightarrow> pkts q = [] \<and> pkts q' = []"
    and inv_link: "inv q \<Longrightarrow> inv ((utilUpdate ex a b c q)\<lparr>q_last_change := t, q_blocked := d\<rparr>)"
    and inv_stats: "inv q \<Longrightarrow> inv (q\<lparr>q_total_time := 0, q_true_ave := 0\<rparr>)"
begin

lemma enq_kept:
  assumes "inv q" "env e" "pkt_ok M p" "pk_uid p \<notin> set (uids (pkts q))" "enq e p q = Some (q1, ds)"
  shows "q_blocked q1 \<Longrightarrow> kept q [p] q1 [] ds"
    and "pkts q1 = [] \<Longrightarrow> kept q [p] q1 [] ds"
    and "pkts q1 = r # pkts q2 \<Longrightarrow> q_blocked q2 \<Longrightarrow> q_unblock_on_resume q2 = q_unblock_on_resume q1 \<Longrightarrow>
      kept q [p] q2 [r] ds"
  using enq_keeps [OF assms] by (auto simp: kept_def works_def ac_simps)

lemma recv_ok:
  assumes "inv q" "env e" "pkt_ok M p" "pk_uid p \<notin> set (uids (pkts q))"
  obtains q' s d where "queue_recv enq deq e p q = Some (q', s, d)" "inv q'" "kept q [p] q' s d"
proof -
  obtain q1 ds where e: "enq e p q = Some (q1, ds)"
    using enq_returns [OF assms] by blast
  have i: "inv q1"
    using enq_keeps [OF assms e] by simp
  show thesis
  proof (cases "q_blocked q1")
    case True
    then show ?thesis
      using that e i enq_kept(1) [OF assms e] by (simp add: queue_recv_def)
  next
    case False
    obtain q2 r where d: "deq e q1 = (q2, r)"
      by fastforce
    have i2: "inv q2" "q_unblock_on_resume q2 = q_unblock_on_resume q1" "q_blocked q2 = q_blocked q1"
      using deq_keeps [OF i d] by auto
    show ?thesis
    proof (cases r)
      case None
      have "kept q [p] q2 [] ds"
        using enq_kept(2) [OF assms e] deq_empty [OF i] d None i2(2,3)
        by (auto simp: kept_def works_def)
      then show ?thesis
        using that e False d None i2(1) by (simp add: queue_recv_def)
    next
      case (Some p')
      then show ?thesis
        using that e False d i2 inv_link [OF i2(1)] enq_kept(3) [OF assms e] deq_head [OF i] 
        by (simp add: queue_recv_def)
    qed
  qed
qed

lemma resume_ok:
  assumes "inv q" "queue_resume deq e q = (q', s)"
  shows "inv q'" "kept q [] q' s []" "pkts q \<noteq> [] \<Longrightarrow> s = [hd (pkts q)]"
proof -
  obtain q1 r where d: "deq e q = (q1, r)"
    by fastforce
  have k: "inv q1" "q_unblock_on_resume q1 = q_unblock_on_resume q" "q_blocked q1 = q_blocked q"
    using deq_keeps [OF assms(1) d] by auto
  show "inv q'"
    using assms(2) d k(1) inv_link [OF k(1)] by (auto simp: queue_resume_def split: option.splits)
  show "kept q [] q' s []" "pkts q \<noteq> [] \<Longrightarrow> s = [hd (pkts q)]"
    using assms(2) d k deq_head [OF assms(1)] deq_empty [OF assms(1)]
    by (auto simp: queue_resume_def kept_def works_def split: option.splits)
qed

lemma link_run_ok:
  assumes "inv q" "events_ok env M evs" "distinct (uids (pkts q @ arrivals evs))"
  obtains q' s d where "link_run enq deq evs q = Some (q', s, d)" "inv q'"
    "kept q (arrivals evs) q' s d"
proof -
  have "\<exists>q' s d. link_run enq deq evs q = Some (q', s, d) \<and> inv q' \<and> kept q (arrivals evs) q' s d"
    using assms
  proof (induction evs arbitrary: q)
    case Nil
    then show ?case by (simp add: kept_refl)
  next
    case (Cons ev evs)
    show ?case
    proof (cases ev)
      case (Arrive e p)
      obtain q1 s d where 1: "queue_recv enq deq e p q = Some (q1, s, d)" "inv q1" "kept q [p] q1 s d"
        by (rule recv_ok [of q e p]) (use Cons.prems Arrive in auto)
      obtain q2 s2 d2 where 2: "link_run enq deq evs q1 = Some (q2, s2, d2)" "inv q2"
          "kept q1 (arrivals evs) q2 s2 d2"
        using Cons.IH [OF 1(2)] Cons.prems(2,3) kept_fresh [OF 1(3), of "arrivals evs"] Arrive by auto
      then show ?thesis
        using 1 kept_trans [OF 1(3) 2(3)] Arrive by simp
    next
      case (Resume e)
      obtain q1 s where 1: "queue_resume deq e q = (q1, s)"
        by fastforce
      note r = resume_ok [OF Cons.prems(1) 1]
      obtain q2 s2 d2 where 2: "link_run enq deq evs q1 = Some (q2, s2, d2)" "inv q2"
          "kept q1 (arrivals evs) q2 s2 d2"
        using Cons.IH [OF r(1)] Cons.prems(2,3) kept_fresh [OF r(2), of "arrivals evs"] Resume by auto
      then show ?thesis
        using 1 kept_trans [OF r(2) 2(3)] Resume by simp
    qed
  qed
  then show thesis
    using that by blast
qed

lemma queue_drain_all:
  "inv q \<Longrightarrow> length (pkts q) < n \<Longrightarrow>
     \<exists>q'. queue_drain deq e n q = Some (q', pkts q) \<and> inv q' \<and> pkts q' = []"
proof (induction n arbitrary: q)
  case (Suc n)
  obtain q1 r where d: "deq e q = (q1, r)"
    by fastforce
  have i: "inv q1"
    using deq_keeps [OF Suc.prems(1) d] by simp
  show ?case
  proof (cases r)
    case None
    then show ?thesis
      using d i deq_empty [OF Suc.prems(1)] by simp
  next
    case (Some p)
    have h: "pkts q = p # pkts q1"
      using deq_head [OF Suc.prems(1)] d Some by simp
    then show ?thesis
      using Suc.IH [OF i] Suc.prems(2) d Some by auto
  qed
qed simp

lemma queue_reset_empties:
  assumes "inv q"
  obtains q' where "queue_reset deq e q = Some (q', pkts q)" "inv q'" "pkts q' = []"
  using queue_drain_all [OF inv_stats [OF assms], of "Suc (length (pkts q))" e]
  by (auto simp: queue_reset_def)

end

end
