(* ===== verification/Red_Queue.thy ===== *)
theory Red_Queue
  imports Queue_Link "HOL-Library.Monad_Syntax" "HOL-Library.Signed_Division"
begin

text \<open>
  The RED queue (\<open>queue/red.cc\<close>, \<open>queue/red.h\<close>), by which the switches of the DCTCP and MDTCP
  scenarios mark: the parameters \<open>edp\<close>, the variables \<open>edv\<close>, the estimator of the average, the drop
  probability, early drop or mark, arrival and departure, and the reset.

  The doubles are rational numbers. A division of doubles by zero gives an infinity, which they do
  not have: the result is then \<open>None\<close> (\<open>rdiv\<close>), as it is for a division of \<open>int\<close> by zero, which
  traps.
\<close>

section \<open>Parameters and variables\<close>

record edp =
  ep_mean_pktsize :: int
  ep_idle_pktsize :: int
  ep_bytes :: bool
  ep_wait :: bool
  ep_setbit :: bool
  ep_gentle :: bool
  ep_th_min :: rat
  ep_th_min_pkts :: rat
  ep_th_max :: rat
  ep_th_max_pkts :: rat
  ep_max_p_inv :: rat
  ep_mark_p :: rat
  ep_use_mark_p :: bool
  ep_q_w :: rat
  ep_adaptive :: int
  ep_cautious :: int
  ep_alpha :: rat
  ep_beta :: rat
  ep_interval :: rat
  ep_targetdelay :: rat
  ep_top :: rat
  ep_bottom :: rat
  ep_feng_adaptive :: int
  ep_ptc :: rat
  ep_delay :: rat

datatype edv_status = Above | Below | Between

record edv =
  ev_v_ave :: rat
  ev_v_prob1 :: rat
  ev_v_slope :: rat
  ev_v_prob :: rat
  ev_v_a :: rat
  ev_v_b :: rat
  ev_v_c :: rat
  ev_v_d :: rat
  ev_count :: int
  ev_count_bytes :: int
  ev_old :: int
  ev_cur_max_p :: rat
  ev_lastset :: rat
  ev_status :: edv_status

text \<open>\<open>rd_link\<close> is the bandwidth of the link, once the queue has one.\<close>

record red = qbase +
  rd_edp :: edp
  rd_edv :: edv
  rd_idle :: bool
  rd_idletime :: rat
  rd_summarystats :: bool
  rd_qib :: bool
  rd_drop_front :: bool
  rd_drop_rand :: bool
  rd_ns1_compat :: bool
  rd_curq :: int
  rd_link :: "rat option"

definition rdiv :: "rat \<Rightarrow> rat \<Rightarrow> rat option" where
  "rdiv x y = (if y = 0 then None else Some (x / y))"

text \<open>\<open>initParams\<close> leaves \<open>mark_p\<close>, \<open>use_mark_p\<close> and the status of the variables as they were.\<close>

definition initParams_edp :: "edp \<Rightarrow> edp" where
  "initParams_edp ep = ep\<lparr>ep_mean_pktsize := 0, ep_idle_pktsize := 0, ep_bytes := False, ep_wait := False,
     ep_setbit := False, ep_gentle := False, ep_th_min := 0, ep_th_min_pkts := 0, ep_th_max := 0,
     ep_th_max_pkts := 0, ep_max_p_inv := 0, ep_q_w := 0, ep_adaptive := 0, ep_cautious := 0,
     ep_alpha := 0, ep_beta := 0, ep_interval := 0, ep_targetdelay := 0, ep_top := 0, ep_bottom := 0,
     ep_feng_adaptive := 0, ep_ptc := 0, ep_delay := 0\<rparr>"

definition initParams_edv :: "edv \<Rightarrow> edv" where
  "initParams_edv ev = ev\<lparr>ev_v_ave := 0, ev_v_prob1 := 0, ev_v_slope := 0, ev_v_prob := 0, ev_v_a := 0,
     ev_v_b := 0, ev_v_c := 0, ev_v_d := 0, ev_count := 0, ev_count_bytes := 0, ev_old := 0,
     ev_cur_max_p := 1, ev_lastset := 0\<rparr>"

definition initialize_params :: "(rat \<Rightarrow> rat) \<Rightarrow> rat \<Rightarrow> edp \<Rightarrow> edp option" where
  "initialize_params ex bandwidth ep = do {
     ep1 \<leftarrow> (if ep_q_w ep = 0 then do {
                 x \<leftarrow> rdiv (- 1) (ep_ptc ep);
                 Some (ep\<lparr>ep_q_w := 1 - ex x\<rparr>) }
             else if ep_q_w ep = - 1 then do {
                 y \<leftarrow> rdiv 1 (ep_ptc ep);
                 let rtt = 3 * (ep_delay ep + y);
                 let rtt = (if rtt < 1 / 10 then 1 / 10 else rtt);
                 x \<leftarrow> rdiv (- 1) (10 * rtt * ep_ptc ep);
                 Some (ep\<lparr>ep_q_w := 1 - ex x\<rparr>) }
             else if ep_q_w ep = - 2 then do {
                 x \<leftarrow> rdiv (- 10) (ep_ptc ep);
                 Some (ep\<lparr>ep_q_w := 1 - ex x\<rparr>) }
             else Some ep);
     let ep2 = (if ep_th_min_pkts ep1 = 0
                then let targetqueue = ep_targetdelay ep1 * ep_ptc ep1
                     in ep1\<lparr>ep_th_min_pkts := (if 5 < targetqueue / 2 then targetqueue / 2 else 5)\<rparr>
                else ep1);
     let ep3 = (if ep_th_max_pkts ep2 = 0 then ep2\<lparr>ep_th_max_pkts := 3 * ep_th_min_pkts ep2\<rparr> else ep2);
     if ep_bottom ep3 = 0
     then do {
       bottom1 \<leftarrow> rdiv 80000 bandwidth;
       Some (ep3\<lparr>ep_bottom := (if bottom1 < 1 / 100 then bottom1 else 1 / 100)\<rparr>) }
     else Some ep3 }"

text \<open>The \<open>link\<close> command tells the queue its bandwidth and delay.\<close>

definition red_link :: "(rat \<Rightarrow> rat) \<Rightarrow> rat \<Rightarrow> rat \<Rightarrow> red \<Rightarrow> red option" where
  "red_link ex bandwidth delay q = do {
     ptc \<leftarrow> rdiv bandwidth (8 * of_int (ep_mean_pktsize (rd_edp q)));
     let ep = (rd_edp q)\<lparr>ep_ptc := ptc, ep_delay := delay\<rparr>;
     ep' \<leftarrow> (if ep_q_w ep \<le> 0 \<or> ep_th_min_pkts ep = 0 \<or> ep_th_max_pkts ep = 0
             then initialize_params ex bandwidth ep else Some ep);
     Some (q\<lparr>rd_link := Some bandwidth, rd_edp := ep'\<rparr>) }"

section \<open>The average queue size\<close>

definition updateMaxPFeng :: "edp \<Rightarrow> rat \<Rightarrow> edv \<Rightarrow> edv option" where
  "updateMaxPFeng ep new_ave ev = do {
     let ev1 = (if ep_th_min ep < new_ave \<and> new_ave < ep_th_max ep then ev\<lparr>ev_status := Between\<rparr> else ev);
     ev2 \<leftarrow> (if new_ave < ep_th_min ep \<and> ev_status ev1 \<noteq> Below
             then do {
               max_p \<leftarrow> rdiv (ev_cur_max_p ev1) (ep_alpha ep);
               Some (ev1\<lparr>ev_status := Below, ev_cur_max_p := max_p\<rparr>) }
             else Some ev1);
     Some (if new_ave > ep_th_max ep \<and> ev_status ev2 \<noteq> Above
           then ev2\<lparr>ev_status := Above, ev_cur_max_p := ev_cur_max_p ev2 * ep_beta ep\<rparr> else ev2) }"

definition updateMaxP :: "edp \<Rightarrow> rat \<Rightarrow> rat \<Rightarrow> edv \<Rightarrow> edv" where
  "updateMaxP ep new_ave now ev =
     (let part = 4 / 10 * (ep_th_max ep - ep_th_min ep)
      in if new_ave < ep_th_min ep + part \<and> ev_cur_max_p ev > ep_bottom ep
         then ev\<lparr>ev_cur_max_p := ev_cur_max_p ev * ep_beta ep, ev_lastset := now\<rparr>
         else if new_ave > ep_th_max ep - part \<and> ep_top ep > ev_cur_max_p ev
         then let alpha = (if ep_alpha ep > 1 / 4 * ev_cur_max_p ev then 1 / 4 * ev_cur_max_p ev
                           else ep_alpha ep)
              in ev\<lparr>ev_cur_max_p := ev_cur_max_p ev + alpha, ev_lastset := now\<rparr>
         else ev)"

text \<open>The loop \<open>while (--m >= 1)\<close>: it stands for the packets that an idle link would have sent.\<close>

function est_loop :: "rat \<Rightarrow> int \<Rightarrow> rat \<Rightarrow> rat" where
  "est_loop q_w m ave = (if m - 1 \<ge> 1 then est_loop q_w (m - 1) (ave * (1 - q_w)) else ave)"
  by pat_completeness auto
termination
  by (relation "measure (\<lambda>(q_w, m, ave). nat m)") auto

declare est_loop.simps [simp del]

definition estimate :: "int \<Rightarrow> int \<Rightarrow> rat \<Rightarrow> rat \<Rightarrow> rat" where
  "estimate nqueued m ave q_w = est_loop q_w m ave * (1 - q_w) + q_w * of_int nqueued"

definition estimator :: "edp \<Rightarrow> rat \<Rightarrow> int \<Rightarrow> int \<Rightarrow> rat \<Rightarrow> rat \<Rightarrow> edv \<Rightarrow> (edv \<times> rat) option" where
  "estimator ep now nqueued m ave q_w ev = do {
     let new_ave = estimate nqueued m ave q_w;
     ev' \<leftarrow> (if ep_adaptive ep = 1
             then (if ep_feng_adaptive ep = 1 then updateMaxPFeng ep new_ave ev
                   else if now > ev_lastset ev + ep_interval ep then Some (updateMaxP ep new_ave now ev)
                   else Some ev)
             else Some ev);
     Some (ev', new_ave) }"

text \<open>The estimator that is only kept for compatibility.\<close>

definition run_estimator :: "edp \<Rightarrow> int \<Rightarrow> int \<Rightarrow> edv \<Rightarrow> edv" where
  "run_estimator ep nqueued m ev =
     (let f = est_loop (ep_q_w ep) m (ev_v_ave ev);
          f = f * (1 - ep_q_w ep);
          f = f + ep_q_w ep * of_int nqueued
      in ev\<lparr>ev_v_ave := f, ev_v_slope := ev_v_slope ev\<rparr>)"

section \<open>The drop probability\<close>

definition calculate_p_new :: "rat \<Rightarrow> rat \<Rightarrow> bool \<Rightarrow> rat \<Rightarrow> rat \<Rightarrow> rat \<Rightarrow> rat \<Rightarrow> rat \<Rightarrow> rat" where
  "calculate_p_new v_ave th_max gentle v_a v_b v_c v_d max_p =
     (let p = (if gentle \<and> v_ave \<ge> th_max then v_c * v_ave + v_d
               else if \<not> gentle \<and> v_ave \<ge> th_max then 1
               else (v_a * v_ave + v_b) * max_p)
      in if p > 1 then 1 else p)"

definition calculate_p :: "rat \<Rightarrow> rat \<Rightarrow> bool \<Rightarrow> rat \<Rightarrow> rat \<Rightarrow> rat \<Rightarrow> rat \<Rightarrow> rat \<Rightarrow> rat option" where
  "calculate_p v_ave th_max gentle v_a v_b v_c v_d max_p_inv = do {
     max_p \<leftarrow> rdiv 1 max_p_inv;
     Some (calculate_p_new v_ave th_max gentle v_a v_b v_c v_d max_p) }"

definition modify_p :: "rat \<Rightarrow> int \<Rightarrow> int \<Rightarrow> bool \<Rightarrow> int \<Rightarrow> bool \<Rightarrow> int \<Rightarrow> rat option" where
  "modify_p p cnt count_bytes bytes mean_pktsize wait sz =
     (if bytes \<and> mean_pktsize = 0 then None
      else let count1 = (if bytes then of_int (count_bytes sdiv mean_pktsize) else of_int cnt);
               p1 = (if wait
                     then (if count1 * p < 1 then 0
                           else if count1 * p < 2 then p / (2 - count1 * p)
                           else 1)
                     else (if count1 * p < 1 then p / (1 - count1 * p) else 1));
               p2 = (if bytes \<and> p1 < 1 then p1 * of_int sz / of_int mean_pktsize else p1)
           in Some (if p2 > 1 then 1 else p2))"

definition red_qsize :: "red \<Rightarrow> int" where
  "red_qsize q = (if rd_qib q then pq_bytes (q_pq q) else pq_len (q_pq q))"

definition pickPacketForECN :: "qpkt \<Rightarrow> qpkt" where
  "pickPacketForECN pkt = pkt"

text \<open>
  The draw that the mode \<open>cautious_ = 2\<close> scales by the ratio of the queue to its average: the
  comparison with 1 fails for the infinity (or the NaN) of an average that is zero.
\<close>

definition cautious_draw :: "int \<Rightarrow> rat \<Rightarrow> rat \<Rightarrow> rat option" where
  "cautious_draw qsize scaled u =
     (if scaled = 0 then (if 0 \<le> qsize then Some u else None)
      else let ratio = of_int qsize / scaled
           in if ratio < 1 then (if ratio = 0 then None else Some (u * (1 / ratio))) else Some u)"

text \<open>\<open>drop_early\<close>: the queue, the packet (perhaps marked) and whether it is to be dropped.\<close>

definition drop_early :: "qenv \<Rightarrow> qpkt \<Rightarrow> red \<Rightarrow> (red \<times> qpkt \<times> bool) option" where
  "drop_early e pkt q =
     (let ep = rd_edp q; ev = rd_edv q;
          prob1 = calculate_p_new (ev_v_ave ev) (ep_th_max ep) (ep_gentle ep) (ev_v_a ev) (ev_v_b ev)
                    (ev_v_c ev) (ev_v_d ev) (ev_cur_max_p ev)
      in case modify_p prob1 (ev_count ev) (ev_count_bytes ev) (ep_bytes ep) (ep_mean_pktsize ep)
                (ep_wait ep) (pk_size pkt) of
          None \<Rightarrow> None
        | Some prob \<Rightarrow>
            let ev1 = ev\<lparr>ev_v_prob1 := prob1, ev_v_prob := prob\<rparr>;
                fraction = qe_pow e (1 - ep_q_w ep) (ep_ptc ep * (5 / 100))
            in if ep_cautious ep = 1 \<and> of_int (red_qsize q) < fraction * ev_v_ave ev
               then Some (q\<lparr>rd_edv := ev1\<rparr>, pkt, False)
               else (case (if ep_cautious ep = 2
                           then cautious_draw (red_qsize q) (fraction * ev_v_ave ev) (qe_uniform e)
                           else Some (qe_uniform e)) of
                   None \<Rightarrow> None
                 | Some u \<Rightarrow>
                     if u \<le> prob
                     then let q2 = q\<lparr>rd_edv := ev1\<lparr>ev_count := 0, ev_count_bytes := 0\<rparr>\<rparr>
                          in if ep_setbit ep \<and> pk_ect (pickPacketForECN pkt)
                                \<and> (\<not> ep_use_mark_p ep \<or> prob1 \<le> ep_mark_p ep)
                             then Some (q2, pkt\<lparr>pk_ce := True\<rparr>, False)
                             else Some (q2, pkt, True)
                     else Some (q\<lparr>rd_edv := ev1\<rparr>, pkt, False)))"

section \<open>Arrival and departure\<close>

datatype dtype = DTYPE_NONE | DTYPE_FORCED | DTYPE_UNFORCED

definition pickPacketToDrop :: "qenv \<Rightarrow> red \<Rightarrow> pqueue \<Rightarrow> qpkt option" where
  "pickPacketToDrop e q l =
     pq_lookup (if rd_drop_front q then min 1 (pq_len l - 1)
                else if rd_drop_rand q then qe_integer e (pq_len l)
                else pq_len l - 1) l"

text \<open>The packets that could have been sent while the queue was idle.\<close>

definition idle_slots :: "qenv \<Rightarrow> red \<Rightarrow> int option" where
  "idle_slots e q =
     (if \<not> rd_idle q then Some 0
      else let ep = rd_edp q; idle = qe_now e - rd_idletime q
           in if ep_cautious ep = 3
              then do {
                ptc \<leftarrow> rdiv (ep_ptc ep * of_int (ep_mean_pktsize ep)) (of_int (ep_idle_pktsize ep));
                Some (i32 (trunc_int (ptc * idle))) }
              else Some (i32 (trunc_int (ep_ptc ep * idle))))"

definition red_stats :: "qenv \<Rightarrow> red \<Rightarrow> red" where
  "red_stats e q = (if rd_summarystats q then updateStats (qe_now e) (red_qsize q) q else q)"

definition red_average :: "qenv \<Rightarrow> qpkt \<Rightarrow> int \<Rightarrow> red \<Rightarrow> red option" where
  "red_average e p m q = do {
     (ev, ave) \<leftarrow> estimator (rd_edp q) (qe_now e) (red_qsize q) (i32 (m + 1)) (ev_v_ave (rd_edv q))
                   (ep_q_w (rd_edp q)) (rd_edv q);
     Some ((red_stats e q)\<lparr>rd_idle := False, rd_curq := red_qsize q,
             rd_edv := ev\<lparr>ev_v_ave := ave, ev_count := i32 (ev_count ev + 1),
                          ev_count_bytes := i32 (ev_count_bytes ev + pk_size p)\<rparr>\<rparr>) }"

definition red_limit :: "'a red_scheme \<Rightarrow> int" where
  "red_limit q = (if rd_qib q then i32 (q_lim q * ep_mean_pktsize (rd_edp q)) else q_lim q)"

definition red_decide :: "qenv \<Rightarrow> qpkt \<Rightarrow> red \<Rightarrow> (red \<times> qpkt \<times> dtype) option" where
  "red_decide e p q =
     (let ep = rd_edp q; ev = rd_edv q; qavg = ev_v_ave ev; qlen = red_qsize q
      in if qavg \<ge> ep_th_min ep \<and> qlen > 1
         then (if \<not> ep_use_mark_p ep \<and> ((\<not> ep_gentle ep \<and> qavg \<ge> ep_th_max ep)
                                          \<or> (ep_gentle ep \<and> qavg \<ge> 2 * ep_th_max ep))
               then Some (q, p, DTYPE_FORCED)
               else if ev_old ev = 0
               then Some (q\<lparr>rd_edv := ev\<lparr>ev_count := 1, ev_count_bytes := pk_size p, ev_old := 1\<rparr>\<rparr>, p,
                          DTYPE_NONE)
               else (case drop_early e p q of
                   None \<Rightarrow> None
                 | Some (q', p', early) \<Rightarrow> Some (q', p', if early then DTYPE_UNFORCED else DTYPE_NONE)))
         else Some (q\<lparr>rd_edv := ev\<lparr>ev_v_prob := 0, ev_old := 0\<rparr>\<rparr>, p, DTYPE_NONE))"

definition red_admit :: "qenv \<Rightarrow> qpkt \<Rightarrow> dtype \<Rightarrow> red \<Rightarrow> (red \<times> qpkt list) option" where
  "red_admit e p droptype q = (case droptype of
       DTYPE_UNFORCED \<Rightarrow>
         (let pkt_to_drop = pickPacketForECN p
          in if pkt_to_drop \<noteq> p
             then (case pq_remove pkt_to_drop (pq_enque p (q_pq q)) of
                 None \<Rightarrow> None | Some l \<Rightarrow> Some (q\<lparr>q_pq := l\<rparr>, [pkt_to_drop]))
             else Some (q, [p]))
     | DTYPE_NONE \<Rightarrow> Some (q\<lparr>q_pq := pq_enque p (q_pq q)\<rparr>, [])
     | DTYPE_FORCED \<Rightarrow>
         (let l = pq_enque p (q_pq q)
          in case pickPacketToDrop e q l of
              None \<Rightarrow> None
            | Some victim \<Rightarrow> (case pq_remove victim l of
                  None \<Rightarrow> None
                | Some l' \<Rightarrow>
                    Some (if rd_ns1_compat q then q\<lparr>q_pq := l'\<rparr>
                          else q\<lparr>q_pq := l', rd_edv := (rd_edv q)\<lparr>ev_count := 0, ev_count_bytes := 0\<rparr>\<rparr>,
                          [victim]))))"

definition red_enque :: "red enquer" where
  "red_enque e p q = do {
     m \<leftarrow> idle_slots e q;
     q1 \<leftarrow> red_average e p m q;
     (q2, p', droptype) \<leftarrow> red_decide e p q1;
     red_admit e p' (if red_qsize q1 \<ge> red_limit q1 then DTYPE_FORCED else droptype) q2 }"

definition red_deque :: "red dequer" where
  "red_deque e q =
     (let q1 = red_stats e q
      in case pq_deque (q_pq q1) of
          (l, Some p) \<Rightarrow> (q1\<lparr>q_pq := l, rd_idle := False\<rparr>, Some p)
        | (l, None) \<Rightarrow> (q1\<lparr>q_pq := l, rd_idle := True, rd_idletime := qe_now e\<rparr>, None))"

definition red_reset :: "qenv \<Rightarrow> red \<Rightarrow> (red \<times> qpkt list) option" where
  "red_reset e q = do {
     ep1 \<leftarrow> (case rd_link q of
               None \<Rightarrow> Some (rd_edp q)
             | Some bandwidth \<Rightarrow> do {
                 ptc \<leftarrow> rdiv bandwidth (8 * of_int (ep_mean_pktsize (rd_edp q)));
                 initialize_params (qe_exp e) bandwidth ((rd_edp q)\<lparr>ep_ptc := ptc\<rparr>) });
     let ep2 = (if ep_th_max_pkts ep1 = 0 then ep1\<lparr>ep_th_max_pkts := 3 * ep_th_min_pkts ep1\<rparr> else ep1);
     let ep3 = (if rd_qib q
                then ep2\<lparr>ep_th_min := ep_th_min_pkts ep2 * of_int (ep_mean_pktsize ep2),
                         ep_th_max := ep_th_max_pkts ep2 * of_int (ep_mean_pktsize ep2)\<rparr>
                else ep2\<lparr>ep_th_min := ep_th_min_pkts ep2, ep_th_max := ep_th_max_pkts ep2\<rparr>);
     let th_diff = ep_th_max ep3 - ep_th_min ep3;
     let th_diff = (if th_diff = 0 then 1 else th_diff);
     max_p \<leftarrow> rdiv 1 (ep_max_p_inv ep3);
     let ev1 = (rd_edv q)\<lparr>ev_v_ave := 0, ev_v_slope := 0, ev_count := 0, ev_count_bytes := 0, ev_old := 0,
                  ev_v_a := 1 / th_diff, ev_cur_max_p := max_p, ev_v_b := - ep_th_min ep3 / th_diff,
                  ev_lastset := 0\<rparr>;
     ev2 \<leftarrow> (if ep_gentle ep3
             then do {
               c \<leftarrow> rdiv (1 - max_p) (ep_th_max ep3);
               Some (ev1\<lparr>ev_v_c := c, ev_v_d := 2 * max_p - 1\<rparr>) }
             else Some ev1);
     queue_reset red_deque e
       (q\<lparr>rd_edp := ep3, rd_edv := ev2, rd_idle := True, rd_idletime := qe_now e\<rparr>) }"

section \<open>The estimator\<close>

lemma est_loop_power: "est_loop q_w m ave = ave * (1 - q_w) ^ nat (m - 1)"
proof (induction q_w m ave rule: est_loop.induct)
  case (1 q_w m ave)
  show ?case
  proof (cases "m - 1 \<ge> 1")
    case True
    then have "nat (m - 1) = Suc (nat (m - 1 - 1))"
      by simp
    then show ?thesis
      using 1 True by (simp add: est_loop.simps [of q_w m ave])
  qed (simp add: est_loop.simps [of q_w m ave])
qed

lemma estimate_closed:
  "estimate n m ave q_w = ave * (1 - q_w) ^ Suc (nat (m - 1)) + q_w * of_int n"
  by (simp add: estimate_def est_loop_power)

lemma estimate_bounds:
  assumes "in_unit q_w" "0 \<le> ave" "ave \<le> B" "0 \<le> n" "of_int n \<le> B"
  shows "0 \<le> estimate n m ave q_w" "estimate n m ave q_w \<le> B"
proof -
  let ?k = "(1 - q_w) ^ Suc (nat (m - 1))"
  have k: "0 \<le> ?k" "?k \<le> 1 - q_w"
    using assms(1) mult_left_mono [of "(1 - q_w) ^ nat (m - 1)" 1 "1 - q_w"]
    by (auto simp: in_unit_def power_le_one)
  then show "0 \<le> estimate n m ave q_w"
    unfolding estimate_closed using assms by (intro add_nonneg_nonneg mult_nonneg_nonneg) (auto simp: in_unit_def)
  have "ave * ?k \<le> B * (1 - q_w)"
    using assms k by (intro mult_mono) auto
  moreover have "q_w * of_int n \<le> q_w * B"
    using assms(1,5) by (intro mult_left_mono) (auto simp: in_unit_def)
  ultimately show "estimate n m ave q_w \<le> B"
    unfolding estimate_closed by (simp add: algebra_simps)
qed

lemma run_estimator_same:
  "run_estimator ep n m ev = ev\<lparr>ev_v_ave := estimate n m (ev_v_ave ev) (ep_q_w ep)\<rparr>"
  by (simp add: run_estimator_def estimate_def Let_def)

section \<open>The probabilities\<close>

definition th_diff :: "edp \<Rightarrow> rat" where
  "th_diff ep = (if ep_th_max ep - ep_th_min ep = 0 then 1 else ep_th_max ep - ep_th_min ep)"

definition red_params_ok :: "edp \<Rightarrow> bool" where
  "red_params_ok ep \<longleftrightarrow> (ep_bytes ep \<longrightarrow> 0 < ep_mean_pktsize ep)
     \<and> (ep_cautious ep = 3 \<longrightarrow> ep_idle_pktsize ep \<noteq> 0)
     \<and> (ep_adaptive ep = 1 \<longrightarrow> 0 < ep_alpha ep \<and> 0 \<le> ep_beta ep)
     \<and> in_unit (ep_q_w ep) \<and> ep_th_min ep \<le> ep_th_max ep"

text \<open>The coefficients are those that \<open>reset\<close> computes (\<open>reset_curve\<close> below).\<close>

definition red_curve :: "edp \<Rightarrow> edv \<Rightarrow> bool" where
  "red_curve ep ev \<longleftrightarrow> 0 \<le> ev_cur_max_p ev \<and> ev_v_a ev = 1 / th_diff ep
     \<and> ev_v_b ev = - ep_th_min ep / th_diff ep
     \<and> (ep_gentle ep \<longrightarrow> 0 \<le> ev_v_c ev \<and> 0 \<le> ev_v_c ev * ep_th_max ep + ev_v_d ev)"

definition red_p :: "edp \<Rightarrow> edv \<Rightarrow> rat" where
  "red_p ep ev = calculate_p_new (ev_v_ave ev) (ep_th_max ep) (ep_gentle ep) (ev_v_a ev) (ev_v_b ev)
     (ev_v_c ev) (ev_v_d ev) (ev_cur_max_p ev)"

lemma th_diff_pos: "ep_th_min ep \<le> ep_th_max ep \<Longrightarrow> 0 < th_diff ep"
  by (simp add: th_diff_def)

lemma red_p_linear:
  assumes "red_curve ep ev" "ev_v_ave ev < ep_th_max ep"
  shows "red_p ep ev = min 1 ((ev_v_ave ev - ep_th_min ep) / th_diff ep * ev_cur_max_p ev)"
  using assms by (simp add: red_p_def calculate_p_new_def red_curve_def Let_def diff_divide_distrib)

lemma red_p_unit:
  assumes "red_curve ep ev" "ep_th_min ep \<le> ep_th_max ep" "ep_th_min ep \<le> ev_v_ave ev"
  shows "in_unit (red_p ep ev)"
proof (cases "ev_v_ave ev < ep_th_max ep")
  case True
  have "0 \<le> (ev_v_ave ev - ep_th_min ep) / th_diff ep * ev_cur_max_p ev"
    using assms th_diff_pos [OF assms(2)] by (simp add: red_curve_def)
  then show ?thesis
    unfolding red_p_linear [OF assms(1) True] by (simp add: in_unit_def)
next
  case False
  show ?thesis
  proof (cases "ep_gentle ep")
    case True
    have "ev_v_c ev * ep_th_max ep \<le> ev_v_c ev * ev_v_ave ev"
      using assms(1) True False by (intro mult_left_mono) (auto simp: red_curve_def)
    then have "0 \<le> ev_v_c ev * ev_v_ave ev + ev_v_d ev"
      using assms(1) True by (simp add: red_curve_def)
    then show ?thesis
      using True False by (simp add: red_p_def calculate_p_new_def Let_def in_unit_def)
  next
    case gentle: False
    then show ?thesis
      using False by (simp add: red_p_def calculate_p_new_def Let_def in_unit_def)
  qed
qed

lemma modify_p_unit:
  assumes "in_unit p" "bytes \<longrightarrow> 0 < mean \<and> 0 \<le> sz"
  shows "\<exists>p'. modify_p p cnt cb bytes mean wait sz = Some p' \<and> in_unit p'"
proof -
  define count1 :: rat where "count1 = (if bytes then of_int (cb sdiv mean) else of_int cnt)"
  define p1 where "p1 = (if wait
                     then (if count1 * p < 1 then 0
                           else if count1 * p < 2 then p / (2 - count1 * p)
                           else 1)
                     else (if count1 * p < 1 then p / (1 - count1 * p) else 1))"
  have p1: "0 \<le> p1"
    using assms(1) by (auto simp: p1_def in_unit_def)
  then have "0 \<le> (if bytes \<and> p1 < 1 then p1 * of_int sz / of_int mean else p1)"
    using assms(2) by auto
  moreover have "modify_p p cnt cb bytes mean wait sz =
      (let p2 = (if bytes \<and> p1 < 1 then p1 * of_int sz / of_int mean else p1)
       in Some (if p2 > 1 then 1 else p2))"
    using assms(2) unfolding modify_p_def Let_def p1_def count1_def by auto
  ultimately show ?thesis
    by (auto simp: Let_def in_unit_def split: if_splits)
qed

section \<open>Arrival\<close>

text \<open>The parts of the queue that the estimator and the drop logic leave alone.\<close>

definition red_frame :: "red \<Rightarrow> red \<Rightarrow> bool" where
  "red_frame q q' \<longleftrightarrow> q_pq q' = q_pq q \<and> q_lim q' = q_lim q \<and> q_blocked q' = q_blocked q
     \<and> q_unblock_on_resume q' = q_unblock_on_resume q \<and> rd_edp q' = rd_edp q \<and> rd_qib q' = rd_qib q
     \<and> rd_drop_front q' = rd_drop_front q \<and> rd_drop_rand q' = rd_drop_rand q
     \<and> rd_ns1_compat q' = rd_ns1_compat q"

lemma red_frame_refl [simp]: "red_frame q q"
  by (simp add: red_frame_def)

lemma red_frame_trans: "red_frame q q1 \<Longrightarrow> red_frame q1 q2 \<Longrightarrow> red_frame q q2"
  by (simp add: red_frame_def)

lemma red_frame_edv [simp]: "red_frame q (q\<lparr>rd_edv := ev\<rparr>)"
  by (simp add: red_frame_def)

lemma red_frame_stats: "red_frame q (red_stats e q)"
  by (simp add: red_frame_def red_stats_def updateStats_def Let_def)

lemma red_frame_qsize: "red_frame q q' \<Longrightarrow> red_qsize q' = red_qsize q \<and> red_limit q' = red_limit q"
  by (simp add: red_frame_def red_qsize_def red_limit_def)

lemma rdiv_Some: "y \<noteq> 0 \<Longrightarrow> rdiv x y = Some (x / y)"
  by (simp add: rdiv_def)

text \<open>Adapting \<open>max_p\<close> changes it, its time stamp and its status only.\<close>

definition adapted :: "edv \<Rightarrow> edv \<Rightarrow> bool" where
  "adapted ev ev' \<longleftrightarrow> ev_v_ave ev' = ev_v_ave ev \<and> ev_v_prob1 ev' = ev_v_prob1 ev
     \<and> ev_v_slope ev' = ev_v_slope ev \<and> ev_v_prob ev' = ev_v_prob ev \<and> ev_v_a ev' = ev_v_a ev
     \<and> ev_v_b ev' = ev_v_b ev \<and> ev_v_c ev' = ev_v_c ev \<and> ev_v_d ev' = ev_v_d ev
     \<and> ev_count ev' = ev_count ev \<and> ev_count_bytes ev' = ev_count_bytes ev \<and> ev_old ev' = ev_old ev"

lemma adapted_refl [simp]: "adapted ev ev"
  by (simp add: adapted_def)

lemma updateMaxPFeng_ok:
  assumes "0 < ep_alpha ep" "0 \<le> ep_beta ep" "0 \<le> ev_cur_max_p ev"
  obtains ev' where "updateMaxPFeng ep a ev = Some ev'" "adapted ev ev'" "0 \<le> ev_cur_max_p ev'"
proof -
  have "\<exists>ev'. updateMaxPFeng ep a ev = Some ev' \<and> adapted ev ev' \<and> 0 \<le> ev_cur_max_p ev'"
    using assms
    by (cases "a < ep_th_min ep"; cases "a > ep_th_max ep"; cases "ep_th_min ep < a";
        cases "ev_status ev")
      (simp_all add: updateMaxPFeng_def rdiv_Some adapted_def Let_def)
  then show thesis
    using that by blast
qed

lemma updateMaxP_ok:
  assumes "0 < ep_alpha ep" "0 \<le> ep_beta ep" "0 \<le> ev_cur_max_p ev"
  shows "adapted ev (updateMaxP ep a t ev)" "0 \<le> ev_cur_max_p (updateMaxP ep a t ev)"
  using assms by (auto simp: updateMaxP_def adapted_def Let_def)

lemma estimator_ok:
  assumes "red_params_ok ep" "0 \<le> ev_cur_max_p ev"
  obtains ev' where "estimator ep t n m ave q_w ev = Some (ev', estimate n m ave q_w)"
    "adapted ev ev'" "0 \<le> ev_cur_max_p ev'"
proof (cases "ep_adaptive ep = 1")
  case True
  then have a: "0 < ep_alpha ep" "0 \<le> ep_beta ep"
    using assms(1) by (simp_all add: red_params_ok_def)
  obtain ev1 where "updateMaxPFeng ep (estimate n m ave q_w) ev = Some ev1" "adapted ev ev1"
      "0 \<le> ev_cur_max_p ev1"
    by (rule updateMaxPFeng_ok [OF a assms(2)])
  then show ?thesis
    using that True updateMaxP_ok [OF a assms(2)] assms(2)
    by (cases "ep_feng_adaptive ep = 1"; cases "t > ev_lastset ev + ep_interval ep")
      (auto simp: estimator_def Let_def)
qed (use that assms(2) in \<open>simp add: estimator_def Let_def\<close>)

lemma adapted_curve:
  "adapted ev ev' \<Longrightarrow> 0 \<le> ev_cur_max_p ev' \<Longrightarrow> red_curve ep ev \<Longrightarrow> red_curve ep ev'"
  by (simp add: adapted_def red_curve_def)

lemma red_average_ok:
  assumes "red_params_ok (rd_edp q)" "red_curve (rd_edp q) (rd_edv q)"
  obtains q1 where "red_average e p m q = Some q1" "red_frame q q1" "red_curve (rd_edp q) (rd_edv q1)"
    "ev_v_ave (rd_edv q1) = estimate (red_qsize q) (i32 (m + 1)) (ev_v_ave (rd_edv q)) (ep_q_w (rd_edp q))"
    "ev_v_prob (rd_edv q1) = ev_v_prob (rd_edv q)" "ev_old (rd_edv q1) = ev_old (rd_edv q)"
    "ev_count (rd_edv q1) = i32 (ev_count (rd_edv q) + 1)"
    "ev_count_bytes (rd_edv q1) = i32 (ev_count_bytes (rd_edv q) + pk_size p)"
proof -
  obtain ev where ev: "estimator (rd_edp q) (qe_now e) (red_qsize q) (i32 (m + 1)) (ev_v_ave (rd_edv q))
        (ep_q_w (rd_edp q)) (rd_edv q)
      = Some (ev, estimate (red_qsize q) (i32 (m + 1)) (ev_v_ave (rd_edv q)) (ep_q_w (rd_edp q)))"
      "adapted (rd_edv q) ev" "0 \<le> ev_cur_max_p ev"
    using estimator_ok [OF assms(1)] assms(2) unfolding red_curve_def by metis
  have k: "red_curve (rd_edp q) ev"
    using adapted_curve [OF ev(2,3) assms(2)] .
  have same: "ev_v_prob ev = ev_v_prob (rd_edv q)" "ev_old ev = ev_old (rd_edv q)"
    "ev_count ev = ev_count (rd_edv q)" "ev_count_bytes ev = ev_count_bytes (rd_edv q)"
    using ev(2) by (simp_all add: adapted_def)
  let ?ave = "estimate (red_qsize q) (i32 (m + 1)) (ev_v_ave (rd_edv q)) (ep_q_w (rd_edp q))"
  show thesis
    by (rule that [of "(red_stats e q)\<lparr>rd_idle := False, rd_curq := red_qsize q,
             rd_edv := ev\<lparr>ev_v_ave := ?ave, ev_count := i32 (ev_count ev + 1),
                          ev_count_bytes := i32 (ev_count_bytes ev + pk_size p)\<rparr>\<rparr>"])
      (use ev(1) k same red_frame_stats [of q e] in
      \<open>simp_all add: red_average_def red_frame_def red_curve_def\<close>)
qed

text \<open>The packet that is queued: the one that arrived, or the same one marked.\<close>

definition same_pkt :: "qpkt \<Rightarrow> qpkt \<Rightarrow> bool" where
  "same_pkt p p' \<longleftrightarrow> p' = p \<or> (pk_ect p \<and> p' = p\<lparr>pk_ce := True\<rparr>)"

lemma same_pkt_uid: "same_pkt p p' \<Longrightarrow> pk_uid p' = pk_uid p \<and> pk_size p' = pk_size p"
  by (auto simp: same_pkt_def)

lemma cautious_draw_some: "1 < n \<Longrightarrow> \<exists>u'. cautious_draw n x u = Some u'"
  by (auto simp: cautious_draw_def Let_def)

text \<open>
  \<open>drop_early\<close> returns, and the probability that it leaves is the linear (or gentle) one of the average,
  corrected by the count. A mark is only put on a packet that may carry it.
\<close>

lemma drop_early_ok:
  assumes "red_params_ok (rd_edp q)" "red_curve (rd_edp q) (rd_edv q)" "0 < pk_size p"
    and "ep_th_min (rd_edp q) \<le> ev_v_ave (rd_edv q)" "1 < red_qsize q"
  obtains q' p' d where "drop_early e p q = Some (q', p', d)" "red_frame q q'"
    "red_curve (rd_edp q) (rd_edv q')" "ev_v_ave (rd_edv q') = ev_v_ave (rd_edv q)"
    "in_unit (ev_v_prob (rd_edv q'))" "in_unit (ev_v_prob1 (rd_edv q'))" "ev_old (rd_edv q') = ev_old (rd_edv q)"
    "same_pkt p p'" "p' \<noteq> p \<Longrightarrow> ep_setbit (rd_edp q)"
    "d \<Longrightarrow> \<not> (ep_setbit (rd_edp q) \<and> pk_ect p \<and> ep_use_mark_p (rd_edp q) \<and> 1 \<le> ep_mark_p (rd_edp q))"
proof -
  let ?ep = "rd_edp q" and ?ev = "rd_edv q"
  let ?p1 = "red_p ?ep ?ev"
  have p1: "in_unit ?p1"
    using red_p_unit [OF assms(2) _ assms(4)] assms(1) by (simp add: red_params_ok_def)
  obtain pr where pr: "modify_p ?p1 (ev_count ?ev) (ev_count_bytes ?ev) (ep_bytes ?ep)
      (ep_mean_pktsize ?ep) (ep_wait ?ep) (pk_size p) = Some pr" "in_unit pr"
    using modify_p_unit [OF p1, of "ep_bytes ?ep" "ep_mean_pktsize ?ep" "pk_size p"] assms(1,3)
    by (fastforce simp: red_params_ok_def)
  let ?fr = "qe_pow e (1 - ep_q_w ?ep) (ep_ptc ?ep * (5 / 100))"
  obtain u where u: "(if ep_cautious ?ep = 2
      then cautious_draw (red_qsize q) (?fr * ev_v_ave ?ev) (qe_uniform e) else Some (qe_uniform e)) = Some u"
    using cautious_draw_some [OF assms(5)] by (cases "ep_cautious ?ep = 2") auto
  let ?ev1 = "?ev\<lparr>ev_v_prob1 := ?p1, ev_v_prob := pr\<rparr>"
  define hit where "hit \<longleftrightarrow>
    u \<le> pr \<and> \<not> (ep_cautious ?ep = 1 \<and> of_int (red_qsize q) < ?fr * ev_v_ave ?ev)"
  define mark where "mark \<longleftrightarrow>
    ep_setbit ?ep \<and> pk_ect p \<and> (\<not> ep_use_mark_p ?ep \<or> ?p1 \<le> ep_mark_p ?ep)"
  define ev2 where "ev2 = (if hit then ?ev1\<lparr>ev_count := 0, ev_count_bytes := 0\<rparr> else ?ev1)"
  have eq: "drop_early e p q = Some
      (q\<lparr>rd_edv := ev2\<rparr>, if hit \<and> mark then p\<lparr>pk_ce := True\<rparr> else p, hit \<and> \<not> mark)"
    using pr(1) u unfolding drop_early_def red_p_def [symmetric] pickPacketForECN_def Let_def
      ev2_def hit_def mark_def by auto
  have ev2: "red_curve ?ep ev2" "ev_v_ave ev2 = ev_v_ave ?ev" "ev_v_prob ev2 = pr" "ev_v_prob1 ev2 = ?p1"
    "ev_old ev2 = ev_old ?ev"
    using assms(2) by (simp_all add: ev2_def red_curve_def)
  show thesis
  proof (rule that [OF eq])
    show "same_pkt p (if hit \<and> mark then p\<lparr>pk_ce := True\<rparr> else p)"
      by (simp add: same_pkt_def mark_def)
    assume "(if hit \<and> mark then p\<lparr>pk_ce := True\<rparr> else p) \<noteq> p"
    then show "ep_setbit ?ep"
      by (auto simp: mark_def split: if_splits)
  next
    assume "hit \<and> \<not> mark"
    then show "\<not> (ep_setbit ?ep \<and> pk_ect p \<and> ep_use_mark_p ?ep \<and> 1 \<le> ep_mark_p ?ep)"
      using p1 by (auto simp: mark_def in_unit_def)
  qed (use ev2 p1 pr(2) in simp_all)
qed

lemma red_decide_ok:
  assumes "red_params_ok (rd_edp q)" "red_curve (rd_edp q) (rd_edv q)" "0 < pk_size p"
    "in_unit (ev_v_prob (rd_edv q))"
  obtains q' p' d where "red_decide e p q = Some (q', p', d)" "red_frame q q'"
    "red_curve (rd_edp q) (rd_edv q')" "ev_v_ave (rd_edv q') = ev_v_ave (rd_edv q)"
    "in_unit (ev_v_prob (rd_edv q'))" "same_pkt p p'" "p' \<noteq> p \<Longrightarrow> ep_setbit (rd_edp q)"
    "d \<noteq> DTYPE_NONE \<Longrightarrow>
       \<not> (ep_setbit (rd_edp q) \<and> pk_ect p \<and> ep_use_mark_p (rd_edp q) \<and> 1 \<le> ep_mark_p (rd_edp q))"
proof (cases "ev_v_ave (rd_edv q) \<ge> ep_th_min (rd_edp q) \<and> red_qsize q > 1")
  case above: True
  let ?forced = "\<not> ep_use_mark_p (rd_edp q) \<and>
      ((\<not> ep_gentle (rd_edp q) \<and> ev_v_ave (rd_edv q) \<ge> ep_th_max (rd_edp q))
       \<or> (ep_gentle (rd_edp q) \<and> ev_v_ave (rd_edv q) \<ge> 2 * ep_th_max (rd_edp q)))"
  show ?thesis
  proof (cases "?forced \<or> ev_old (rd_edv q) = 0")
    case True
    show ?thesis
    proof (cases ?forced)
      case forced: True
      then have "red_decide e p q = Some (q, p, DTYPE_FORCED)"
        using above by (simp add: red_decide_def Let_def)
      then show ?thesis
        by (rule that) (use assms forced in \<open>auto simp: same_pkt_def\<close>)
    next
      case False
      with True above have "red_decide e p q = Some
          (q\<lparr>rd_edv := (rd_edv q)\<lparr>ev_count := 1, ev_count_bytes := pk_size p, ev_old := 1\<rparr>\<rparr>, p, DTYPE_NONE)"
        unfolding red_decide_def Let_def by simp
      then show ?thesis
        by (rule that) (use assms in \<open>auto simp: same_pkt_def red_curve_def\<close>)
    qed
  next
    case False
    obtain q' p' d where e: "drop_early e p q = Some (q', p', d)" "red_frame q q'"
        "red_curve (rd_edp q) (rd_edv q')" "ev_v_ave (rd_edv q') = ev_v_ave (rd_edv q)"
        "in_unit (ev_v_prob (rd_edv q'))" "same_pkt p p'" "p' \<noteq> p \<Longrightarrow> ep_setbit (rd_edp q)"
        "d \<Longrightarrow> \<not> (ep_setbit (rd_edp q) \<and> pk_ect p \<and> ep_use_mark_p (rd_edp q) \<and> 1 \<le> ep_mark_p (rd_edp q))"
      using drop_early_ok [OF assms(1-3)] above by metis
    have "red_decide e p q = Some (q', p', if d then DTYPE_UNFORCED else DTYPE_NONE)"
      using above False e(1) unfolding red_decide_def Let_def by simp
    then show ?thesis
      by (rule that) (use e in \<open>auto split: if_splits\<close>)
  qed
next
  case False
  then have "red_decide e p q =
      Some (q\<lparr>rd_edv := (rd_edv q)\<lparr>ev_v_prob := 0, ev_old := 0\<rparr>\<rparr>, p, DTYPE_NONE)"
    by (simp only: red_decide_def Let_def if_False if_not_P [OF False])
  then show ?thesis
    by (rule that) (use assms in \<open>auto simp: same_pkt_def red_curve_def in_unit_def\<close>)
qed

text \<open>The most packets, and the largest average, of a queue whose packets have at most \<open>M\<close> bytes.\<close>

definition red_room :: "'a red_scheme \<Rightarrow> int" where
  "red_room q = max 0 (red_limit q)"

definition red_top :: "int \<Rightarrow> 'a red_scheme \<Rightarrow> int" where
  "red_top M q = (if rd_qib q then M * red_room q else red_room q)"

definition draws_ok :: "qenv \<Rightarrow> bool" where
  "draws_ok e \<longleftrightarrow> (\<forall>k>0. 0 \<le> qe_integer e k \<and> qe_integer e k < k)"

definition red_inv :: "int \<Rightarrow> red \<Rightarrow> bool" where
  "red_inv M q \<longleftrightarrow> red_params_ok (rd_edp q) \<and> red_curve (rd_edp q) (rd_edv q)
     \<and> in_unit (ev_v_prob (rd_edv q)) \<and> counters_fit M (red_room q + 1) \<and> pq_within M (red_room q) (q_pq q)
     \<and> 0 \<le> ev_v_ave (rd_edv q) \<and> ev_v_ave (rd_edv q) \<le> of_int (red_top M q)"

lemma red_qsize_bounds:
  assumes "pq_within M (red_room q) (q_pq q)" "1 \<le> M"
  shows "0 \<le> red_qsize q" "red_qsize q \<le> red_top M q" "int (length (pkts q)) \<le> red_qsize q"
proof -
  have w: "pq_len (q_pq q) = int (length (pkts q))" "pq_bytes (q_pq q) = sum_size (pkts q)"
    "\<forall>p\<in>set (pkts q). 0 < pk_size p \<and> pk_size p \<le> M" "int (length (pkts q)) \<le> red_room q"
    using assms(1) by (auto simp: pq_within_def pq_ok_def pkt_ok_def)
  have b: "int (length (pkts q)) \<le> sum_size (pkts q)" "sum_size (pkts q) \<le> M * int (length (pkts q))"
    using sum_size_bounds [OF w(3)] by auto
  have "M * int (length (pkts q)) \<le> M * red_room q"
    using w(4) assms(2) by (intro mult_left_mono) auto
  with w b show "0 \<le> red_qsize q" "red_qsize q \<le> red_top M q" "int (length (pkts q)) \<le> red_qsize q"
    by (auto simp: red_qsize_def red_top_def)
qed

text \<open>The victim of a forced drop is on the list.\<close>

lemma pickPacketToDrop_ok:
  assumes "draws_ok e" "pq_len l = int (length (pq_list l))" "pq_list l \<noteq> []"
  obtains n where "n < length (pq_list l)" "pickPacketToDrop e q l = Some (pq_list l ! n)"
proof -
  let ?v = "if rd_drop_front q then min 1 (pq_len l - 1)
            else if rd_drop_rand q then qe_integer e (pq_len l) else pq_len l - 1"
  have "0 < pq_len l"
    using assms(2,3) by simp
  then have "0 \<le> ?v \<and> ?v < int (length (pq_list l))"
    using assms(1,2) by (auto simp: draws_ok_def)
  then show thesis
    using that [of "nat ?v"] lookup_from_nth [of ?v "pq_list l"]
    by (simp add: pickPacketToDrop_def pq_lookup_def nat_less_iff)
qed

text \<open>What an arrival does to the list, once the packet may carry a mark.\<close>

lemma red_admit_ok:
  assumes "pq_within M (red_room q) (q_pq q)" "counters_fit M (red_room q + 1)" "draws_ok e"
    and "pkt_ok M p" "pk_uid p \<notin> set (uids (pkts q))"
    and room: "d \<noteq> DTYPE_FORCED \<Longrightarrow> red_qsize q < red_limit q"
  obtains q' ds where "red_admit e p d q = Some (q', ds)" "pq_within M (red_room q) (q_pq q')"
    "mset (pkts q' @ ds) = mset (pkts q @ [p])" "subseq (pkts q') (pkts q @ [p])"
    "red_frame (q\<lparr>q_pq := q_pq q'\<rparr>) q'" "rd_edv q' = rd_edv q
       \<or> rd_edv q' = (rd_edv q)\<lparr>ev_count := 0, ev_count_bytes := 0\<rparr>" "d = DTYPE_NONE \<longrightarrow> ds = []"
proof -
  have M: "1 \<le> M"
    using assms(2) by (simp add: counters_fit_def)
  note e = pq_enque_within(1) [OF assms(1,2,4,5)]
  have len: "int (length (pkts q)) \<le> red_room q"
    using assms(1) by (simp add: pq_within_def)
  have e_ok: "pq_len (pq_enque p (q_pq q)) = int (length (pq_list (pq_enque p (q_pq q))))"
    using e by (simp add: pq_within_def pq_ok_def)
  show thesis
  proof (cases d)
    case DTYPE_NONE
    then have "int (length (pkts q)) + 1 \<le> red_room q"
      using room red_qsize_bounds(3) [OF assms(1) M] by (simp add: red_room_def)
    then have "pq_within M (red_room q) (pq_enque p (q_pq q))"
      using e by (simp add: pq_within_def)
    then show ?thesis
      by (intro that [of "q\<lparr>q_pq := pq_enque p (q_pq q)\<rparr>" "[]"])
        (simp_all add: DTYPE_NONE red_admit_def red_frame_def)
  next
    case DTYPE_UNFORCED
    then show ?thesis
      by (intro that [of q "[p]"]) (use assms(1) in \<open>auto simp: red_admit_def pickPacketForECN_def intro: subseq_rev_drop_many\<close>)
  next
    case DTYPE_FORCED
    let ?l = "pq_enque p (q_pq q)"
    obtain n where n: "n < length (pq_list ?l)" "pickPacketToDrop e q ?l = Some (pq_list ?l ! n)"
      by (rule pickPacketToDrop_ok [OF assms(3) e_ok]) auto
    note split = id_take_nth_drop [OF n(1)]
    obtain l' where l': "pq_remove (pq_list ?l ! n) ?l = Some l'"
        "pq_list l' = take n (pq_list ?l) @ drop (Suc n) (pq_list ?l)"
        "pq_within M (int (length (pq_list ?l)) - 1) l'"
      by (rule pq_remove_within [OF e _ split]) (use counters_fit_less [OF assms(2)] len in auto)
    have w: "pq_within M (red_room q) l'"
      using l'(3) len by (simp add: pq_within_def)
    have m: "mset (pq_list l' @ [pq_list ?l ! n]) = mset (pq_list ?l)"
      unfolding l'(2) by (subst (4) split) simp
    have s: "subseq (pq_list l') (pq_list ?l)"
      using subseq_drop_mid split unfolding l'(2) by metis
    let ?q = "if rd_ns1_compat q then q\<lparr>q_pq := l'\<rparr>
        else q\<lparr>q_pq := l', rd_edv := (rd_edv q)\<lparr>ev_count := 0, ev_count_bytes := 0\<rparr>\<rparr>"
    have "red_admit e p d q = Some (?q, [pq_list ?l ! n])"
      using n(2) l'(1) DTYPE_FORCED by (simp add: red_admit_def Let_def)
    then show ?thesis
      by (rule that) (use w m s DTYPE_FORCED in \<open>simp_all add: red_frame_def\<close>)
  qed
qed

lemma idle_slots_ok: "red_params_ok (rd_edp q) \<Longrightarrow> \<exists>m. idle_slots e q = Some m"
  by (simp add: idle_slots_def red_params_ok_def rdiv_def Let_def)

lemma red_top_frame: "red_frame q q' \<Longrightarrow> red_top M q' = red_top M q \<and> red_room q' = red_room q"
  by (simp add: red_frame_def red_top_def red_room_def red_limit_def)

text \<open>
  An arrival: the call returns, the packet queued is the one that arrived or that one marked, one packet
  at most is dropped, the others keep their order, and the invariant holds again.
\<close>

lemma red_enque_ok:
  assumes inv: "red_inv M q" and e: "draws_ok e" and p: "pkt_ok M p" "pk_uid p \<notin> set (uids (pkts q))"
  obtains q' ds p' where "red_enque e p q = Some (q', ds)" "red_inv M q'" "same_pkt p p'"
    "p' \<noteq> p \<Longrightarrow> ep_setbit (rd_edp q)" "mset (pkts q' @ ds) = mset (pkts q @ [p'])"
    "subseq (pkts q') (pkts q @ [p'])" "red_frame (q\<lparr>q_pq := q_pq q'\<rparr>) q'"
    "ep_setbit (rd_edp q) \<Longrightarrow> pk_ect p \<Longrightarrow> ep_use_mark_p (rd_edp q) \<Longrightarrow> 1 \<le> ep_mark_p (rd_edp q) \<Longrightarrow>
       red_qsize q < red_limit q \<Longrightarrow> ds = []"
proof -
  have i: "red_params_ok (rd_edp q)" "red_curve (rd_edp q) (rd_edv q)" "in_unit (ev_v_prob (rd_edv q))"
    "counters_fit M (red_room q + 1)" "pq_within M (red_room q) (q_pq q)"
    "0 \<le> ev_v_ave (rd_edv q)" "ev_v_ave (rd_edv q) \<le> of_int (red_top M q)"
    using inv by (simp_all add: red_inv_def)
  have size: "0 < pk_size p" and M: "1 \<le> M"
    using p(1) i(4) by (simp_all add: pkt_ok_def counters_fit_def)
  obtain m where m: "idle_slots e q = Some m"
    using idle_slots_ok [OF i(1)] by blast
  obtain q1 where q1: "red_average e p m q = Some q1" "red_frame q q1" "red_curve (rd_edp q) (rd_edv q1)"
    "ev_v_ave (rd_edv q1) = estimate (red_qsize q) (i32 (m + 1)) (ev_v_ave (rd_edv q)) (ep_q_w (rd_edp q))"
    "ev_v_prob (rd_edv q1) = ev_v_prob (rd_edv q)"
    by (rule red_average_ok [OF i(1,2)])
  have edp1: "rd_edp q1 = rd_edp q" "q_pq q1 = q_pq q"
    using q1(2) by (simp_all add: red_frame_def)
  have ave: "0 \<le> ev_v_ave (rd_edv q1) \<and> ev_v_ave (rd_edv q1) \<le> of_int (red_top M q)"
    unfolding q1(4) using red_qsize_bounds [OF i(5) M] i
    by (intro conjI estimate_bounds) (auto simp: red_params_ok_def)
  obtain q2 p' d where q2: "red_decide e p q1 = Some (q2, p', d)" "red_frame q1 q2"
    "red_curve (rd_edp q) (rd_edv q2)" "ev_v_ave (rd_edv q2) = ev_v_ave (rd_edv q1)"
    "in_unit (ev_v_prob (rd_edv q2))" "same_pkt p p'" "p' \<noteq> p \<Longrightarrow> ep_setbit (rd_edp q)"
    "d \<noteq> DTYPE_NONE \<Longrightarrow>
       \<not> (ep_setbit (rd_edp q) \<and> pk_ect p \<and> ep_use_mark_p (rd_edp q) \<and> 1 \<le> ep_mark_p (rd_edp q))"
    using red_decide_ok [of q1 p e] i(1,3) q1(3,5) size unfolding edp1 by auto
  have f2: "red_frame q q2"
    using red_frame_trans [OF q1(2) q2(2)] .
  note same = red_frame_qsize [OF q1(2)] red_frame_qsize [OF f2] red_top_frame [OF f2, of M]
  have pq2: "q_pq q2 = q_pq q" "rd_edp q2 = rd_edp q"
    using f2 by (simp_all add: red_frame_def)
  let ?d = "if red_qsize q \<ge> red_limit q then DTYPE_FORCED else d"
  have pre: "pq_within M (red_room q2) (q_pq q2)" "counters_fit M (red_room q2 + 1)" "pkt_ok M p'"
    "pk_uid p' \<notin> set (uids (pkts q2))" "?d \<noteq> DTYPE_FORCED \<Longrightarrow> red_qsize q2 < red_limit q2"
    using i(4,5) p same_pkt_uid [OF q2(6)] same pq2 by (auto simp: pkt_ok_def split: if_splits)
  obtain q' ds where q': "red_admit e p' ?d q2 = Some (q', ds)" "pq_within M (red_room q2) (q_pq q')"
    "mset (pkts q' @ ds) = mset (pkts q2 @ [p'])" "subseq (pkts q') (pkts q2 @ [p'])"
    "red_frame (q2\<lparr>q_pq := q_pq q'\<rparr>) q'" "rd_edv q' = rd_edv q2
       \<or> rd_edv q' = (rd_edv q2)\<lparr>ev_count := 0, ev_count_bytes := 0\<rparr>" "?d = DTYPE_NONE \<longrightarrow> ds = []"
    by (rule red_admit_ok [OF pre(1,2) e pre(3-5)])
  note q' = q' [unfolded pq2]
  have enque: "red_enque e p q = Some (q', ds)"
    using m q1(1) q2(1) q'(1) same by (simp add: red_enque_def)
  have f': "red_frame (q\<lparr>q_pq := q_pq q'\<rparr>) q'"
    using q'(5) f2 by (simp add: red_frame_def)
  have sizes: "red_room q' = red_room q" "red_top M q' = red_top M q"
    using f' by (simp_all add: red_frame_def red_top_def red_room_def red_limit_def)
  have ev': "red_curve (rd_edp q) (rd_edv q') \<and> ev_v_ave (rd_edv q') = ev_v_ave (rd_edv q1)
      \<and> in_unit (ev_v_prob (rd_edv q'))"
    using q'(6)
  proof
    assume "rd_edv q' = rd_edv q2"
    then show ?thesis
      using q2(3-5) by simp
  next
    assume r: "rd_edv q' = (rd_edv q2)\<lparr>ev_count := 0, ev_count_bytes := 0\<rparr>"
    show ?thesis
      unfolding r using q2(3-5) by (simp add: red_curve_def)
  qed
  have "rd_edp q' = rd_edp q"
    using f' by (simp add: red_frame_def)
  moreover have "pq_within M (red_room q) (q_pq q')"
    using q'(2) same by simp
  ultimately have "red_inv M q'"
    unfolding red_inv_def using ev' sizes i(1,4) ave by simp
  moreover have "ds = []" if "ep_setbit (rd_edp q)" "pk_ect p" "ep_use_mark_p (rd_edp q)"
      "1 \<le> ep_mark_p (rd_edp q)" "red_qsize q < red_limit q"
    using that q2(8) q'(7) by auto
  ultimately show thesis
    using that [OF enque _ q2(6) q2(7) q'(3,4) f'] by blast
qed

lemma red_deque_ok:
  assumes "red_inv M q" "red_deque e q = (q', r)"
  shows "red_inv M q'" "red_frame (q\<lparr>q_pq := q_pq q'\<rparr>) q'"
    "pkts q = (case r of None \<Rightarrow> [] | Some p \<Rightarrow> [p]) @ pkts q'" "r = None \<Longrightarrow> pkts q = []"
proof -
  have w: "pq_within M (red_room q) (q_pq q)" "counters_fit M (red_room q)"
    using assms(1) counters_fit_less by (auto simp: red_inv_def)
  have s: "red_frame q (red_stats e q)" "rd_edv (red_stats e q) = rd_edv q"
    by (simp_all add: red_frame_stats) (simp add: red_stats_def updateStats_def Let_def)
  obtain l r' where l': "pq_deque (q_pq q) = (l, r')"
    by fastforce
  then have d: "pq_deque (q_pq (red_stats e q)) = (l, r')"
    using s(1) by (simp add: red_frame_def)
  have q': "r = r' \<and> q' = (case r' of None \<Rightarrow>
        (red_stats e q)\<lparr>q_pq := l, rd_idle := True, rd_idletime := qe_now e\<rparr>
      | Some p \<Rightarrow> (red_stats e q)\<lparr>q_pq := l, rd_idle := False\<rparr>)"
    using assms(2) unfolding red_deque_def Let_def d by (cases r') auto
  then have l: "pq_deque (q_pq q) = (l, r)" and eqs: "q_pq q' = l" "rd_edv q' = rd_edv q"
    using l' s(2) by (simp_all split: option.splits)
  show f: "red_frame (q\<lparr>q_pq := q_pq q'\<rparr>) q'"
    using q' s(1) by (simp add: red_frame_def split: option.splits)
  have x: "pq_within M (red_room q) l \<and> pkts q = (case r of None \<Rightarrow> [] | Some p \<Rightarrow> [p]) @ pq_list l
      \<and> (r = None \<longrightarrow> pkts q = [])"
  proof (cases r)
    case None
    then show ?thesis
      using l w(1) pq_deque_None by auto
  next
    case (Some p)
    then show ?thesis
      using l pq_deque_within [OF w] w(1) by (auto simp: pq_within_def)
  qed
  have sizes: "red_room q' = red_room q" "red_top M q' = red_top M q"
    using f by (simp_all add: red_frame_def red_top_def red_room_def red_limit_def)
  show "red_inv M q'"
    using assms(1) x eqs f sizes by (simp add: red_inv_def red_frame_def)
  show "pkts q = (case r of None \<Rightarrow> [] | Some p \<Rightarrow> [p]) @ pkts q'" "r = None \<Longrightarrow> pkts q = []"
    using x eqs by auto
qed

lemma util_red_keeps [simp]:
  "rd_qib (util_slots g a b c d q) = rd_qib q" "rd_qib (utilUpdate ex x y z q) = rd_qib q"
  "rd_edp (util_slots g a b c d q) = rd_edp q" "rd_edp (utilUpdate ex x y z q) = rd_edp q"
  "rd_edv (util_slots g a b c d q) = rd_edv q" "rd_edv (utilUpdate ex x y z q) = rd_edv q"
  for q :: "'a red_scheme"
proof -
  show slots: "rd_qib (util_slots g a b c d q) = rd_qib q" "rd_edp (util_slots g a b c d q) = rd_edp q"
    "rd_edv (util_slots g a b c d q) = rd_edv q" for g a b c d and q :: "'a red_scheme"
    by (induction g a b c d q rule: util_slots.induct) auto
  show "rd_qib (utilUpdate ex x y z q) = rd_qib q" "rd_edp (utilUpdate ex x y z q) = rd_edp q"
    "rd_edv (utilUpdate ex x y z q) = rd_edv q"
    by (simp_all add: utilUpdate_def Let_def slots)
qed

lemma red_room_keeps [simp]:
  "red_room ((utilUpdate ex x y z q)\<lparr>q_last_change := t, q_blocked := d\<rparr>) = red_room q"
  "red_top M ((utilUpdate ex x y z q)\<lparr>q_last_change := t, q_blocked := d\<rparr>) = red_top M q"
  "red_room (q\<lparr>q_total_time := t, q_true_ave := a\<rparr>) = red_room q"
  "red_top M (q\<lparr>q_total_time := t, q_true_ave := a\<rparr>) = red_top M q" for q :: red
  by (simp_all add: red_room_def red_top_def red_limit_def)

interpretation rq: queue_discipline red_enque red_deque "red_inv M" draws_ok M for M
proof unfold_locales
  fix q :: red and e p
  assume "red_inv M q" "draws_ok e" "pkt_ok M p" "pk_uid p \<notin> set (uids (pkts q))"
  then show "\<exists>q' ds. red_enque e p q = Some (q', ds)"
    by (rule red_enque_ok) blast
next
  fix q q' :: red and e p ds
  assume a: "red_inv M q" "draws_ok e" "pkt_ok M p" "pk_uid p \<notin> set (uids (pkts q))"
    and en: "red_enque e p q = Some (q', ds)"
  obtain p' where r: "red_inv M q'" "same_pkt p p'" "mset (pkts q' @ ds) = mset (pkts q @ [p'])"
      "subseq (pkts q') (pkts q @ [p'])" "red_frame (q\<lparr>q_pq := q_pq q'\<rparr>) q'"
    using red_enque_ok [OF a] en by (metis option.inject prod.inject)
  have u: "uids [p'] = uids [p]"
    using same_pkt_uid [OF r(2)] by simp
  have "mset (uids (pkts q' @ ds)) = mset (uids (pkts q @ [p']))"
    using arg_cong [OF r(3), of "image_mset pk_uid"] by (simp add: uids_def)
  moreover have "subseq (uids (pkts q')) (uids (pkts q @ [p']))"
    unfolding uids_def by (rule subseq_map [OF r(4)])
  ultimately show "red_inv M q' \<and> q_blocked q' = q_blocked q
      \<and> q_unblock_on_resume q' = q_unblock_on_resume q
      \<and> mset (uids (pkts q')) + mset (uids ds) = mset (uids (pkts q @ [p]))
      \<and> subseq (uids (pkts q')) (uids (pkts q @ [p]))"
    using r(1,5) u by (simp add: red_frame_def)
next
  fix q q' :: red and e r
  assume a: "red_inv M q" "red_deque e q = (q', r)"
  show "red_inv M q' \<and> q_blocked q' = q_blocked q \<and> q_unblock_on_resume q' = q_unblock_on_resume q"
    using red_deque_ok(1,2) [OF a] by (simp add: red_frame_def)
next
  fix q q' :: red and e p
  assume "red_inv M q" "red_deque e q = (q', Some p)"
  then show "pkts q = p # pkts q'"
    using red_deque_ok(3) by fastforce
next
  fix q q' :: red and e
  assume a: "red_inv M q" "red_deque e q = (q', None)"
  show "pkts q = [] \<and> pkts q' = []"
    using red_deque_ok(3,4) [OF a] by simp
next
  fix q :: red and ex a b c t d
  assume "red_inv M q"
  then show "red_inv M ((utilUpdate ex a b c q)\<lparr>q_last_change := t, q_blocked := d\<rparr>)"
    by (simp add: red_inv_def)
next
  fix q :: red
  assume "red_inv M q"
  then show "red_inv M (q\<lparr>q_total_time := 0, q_true_ave := 0\<rparr>)"
    by (simp add: red_inv_def)
qed

end
