(* ===== verification/Red_Marking.thy ===== *)
theory Red_Marking
  imports Red_Queue
begin

text \<open>
  What RED makes of its parameters: the law of the gaps between two notifications, the gentle mode
  and what the adaptation of \<open>max_p\<close> does to it, the range of \<open>max_p\<close>, the reset, and the step marking of
  a switch configured for DCTCP.
\<close>

section \<open>The gap between two notifications\<close>

text \<open>
  The probability that \<open>modify_p\<close> gives the \<open>k\<close>-th packet after a notification, for an average that
  does not move (\<open>p\<close> is constant), and the law of the gap.
\<close>

definition notify_p :: "bool \<Rightarrow> rat \<Rightarrow> nat \<Rightarrow> rat" where
  "notify_p wait p k = (case modify_p p (int k) 0 False 0 wait 0 of None \<Rightarrow> 0 | Some x \<Rightarrow> x)"

primrec gap_miss :: "bool \<Rightarrow> rat \<Rightarrow> nat \<Rightarrow> rat" where
  "gap_miss wait p 0 = 1"
| "gap_miss wait p (Suc k) = gap_miss wait p k * (1 - notify_p wait p (Suc k))"

definition gap_law :: "bool \<Rightarrow> rat \<Rightarrow> nat \<Rightarrow> rat" where
  "gap_law wait p k = gap_miss wait p (k - 1) * notify_p wait p k"

lemma clip_le: "x \<le> 1 \<Longrightarrow> (if x > 1 then 1 else x) = x" for x :: rat
  by simp

lemma notify_p_no_wait:
  assumes "0 \<le> p"
  shows "notify_p False p k = (if of_nat k * p + p \<le> 1 then p / (1 - of_nat k * p) else 1)"
proof (cases "of_nat k * p + p \<le> 1")
  case True
  show ?thesis
  proof (cases "of_nat k * p < 1")
    case less: True
    then have "p / (1 - of_nat k * p) \<le> 1"
      using True by (simp add: field_simps)
    then show ?thesis
      using less True by (simp add: notify_p_def modify_p_def)
  next
    case False
    then have "p = 0"
      using True assms by linarith
    with False show ?thesis
      by simp
  qed
next
  case False
  then have "of_nat k * p < 1 \<Longrightarrow> p / (1 - of_nat k * p) > 1"
    by (simp add: field_simps)
  then show ?thesis
    using False by (simp add: notify_p_def modify_p_def Let_def)
qed

lemma telescope: "x \<noteq> 0 \<Longrightarrow> x / c * (1 - y / x) = (x - y) / c" for x y c :: rat
  by (simp add: right_diff_distrib diff_divide_distrib)

lemma gap_miss_no_wait:
  assumes "0 < p" "p < 1"
  shows "of_nat k * p + p \<le> 1 \<Longrightarrow> gap_miss False p k = (1 - of_nat (Suc k) * p) / (1 - p)"
proof (induction k)
  case 0
  then show ?case
    using assms by simp
next
  case (Suc k)
  let ?x = "1 - of_nat (Suc k) * p"
  have x: "0 < ?x" "p / ?x \<le> 1"
    using Suc.prems assms by (simp_all add: field_simps)
  have n: "notify_p False p (Suc k) = p / ?x"
    using Suc.prems assms(1) by (simp only: notify_p_no_wait [OF less_imp_le [OF assms(1)]] if_P)
  have "of_nat k * p + p \<le> 1"
    using Suc.prems assms(1) by (simp add: algebra_simps)
  then have "gap_miss False p (Suc k) = ?x / (1 - p) * (1 - p / ?x)"
    using Suc.IH n by simp
  also have "\<dots> = (?x - p) / (1 - p)"
    by (rule telescope) (use x(1) in simp)
  finally show ?case
    by (simp add: algebra_simps)
qed

lemma gap_uniform:
  assumes "0 < p" "p < 1" "1 \<le> k" "of_nat (Suc k) * p \<le> 1"
  shows "gap_law False p k = p / (1 - p)"
proof -
  obtain j where k: "k = Suc j"
    using assms(3) by (cases k) auto
  let ?x = "1 - of_nat k * p"
  have c: "of_nat k * p + p \<le> 1"
    using assms(4) by (simp add: algebra_simps)
  have x: "?x \<noteq> 0"
    using c assms(1) by auto
  have "gap_miss False p j = ?x / (1 - p)"
    using gap_miss_no_wait [OF assms(1,2), of j] c assms(1) unfolding k by (simp add: algebra_simps)
  moreover have "notify_p False p k = p / ?x"
    by (simp only: notify_p_no_wait [OF less_imp_le [OF assms(1)]] if_P [OF c])
  ultimately have "gap_law False p k = ?x / (1 - p) * (p / ?x)"
    unfolding gap_law_def using k by simp
  then show ?thesis
    using x by simp
qed

text \<open>With \<open>wait_\<close>, and \<open>p = 1 / n\<close>: none of the first \<open>n - 1\<close>, then each of the next \<open>n\<close> equally often.\<close>

lemma notify_p_wait:
  assumes "0 < n" "k < 2 * n"
  shows "notify_p True (1 / of_nat n) k = (if k < n then 0 else 1 / of_nat (2 * n - k))"
proof (cases "k < n")
  case True
  then show ?thesis
    using assms by (simp add: notify_p_def modify_p_def)
next
  case False
  have k: "(of_nat k * (1 / of_nat n) :: rat) < 2" "\<not> (of_nat k * (1 / of_nat n) :: rat) < 1"
  proof -
    have "(of_nat k :: rat) < of_nat (2 * n)" "(of_nat n :: rat) \<le> of_nat k" "(0 :: rat) < of_nat n"
      using assms False by (simp_all only: of_nat_less_iff of_nat_le_iff of_nat_0_less_iff)
    then show "(of_nat k * (1 / of_nat n) :: rat) < 2" "\<not> (of_nat k * (1 / of_nat n) :: rat) < 1"
      by (simp_all add: field_simps)
  qed
  have "(1 / of_nat n) / (2 - of_nat k * (1 / of_nat n)) = (1 / of_nat (2 * n - k) :: rat)"
    using assms by (simp add: field_simps of_nat_diff)
  moreover have "(1 / of_nat (2 * n - k) :: rat) \<le> 1"
    using assms by simp
  ultimately show ?thesis
    using k False by (simp add: notify_p_def modify_p_def)
qed

lemma gap_miss_wait:
  assumes "0 < n"
  shows "k < 2 * n \<Longrightarrow> gap_miss True (1 / of_nat n) k = (if k < n then 1 else of_nat (2 * n - Suc k) / of_nat n)"
proof (induction k)
  case (Suc k)
  note n = notify_p_wait [OF assms Suc.prems]
  consider "Suc k < n" | "Suc k = n" | "n < Suc k"
    by linarith
  then show ?case
  proof cases
    case 3
    let ?y = "of_nat (2 * n - Suc k) :: rat"
    have y: "?y \<noteq> 0"
      using Suc.prems by simp
    have "gap_miss True (1 / of_nat n) (Suc k) = ?y / of_nat n * (1 - 1 / ?y)"
      using Suc 3 n by (simp del: of_nat_mult of_nat_diff of_nat_Suc)
    also have "\<dots> = (?y - 1) / of_nat n"
      by (rule telescope [OF y])
    also have "\<dots> = of_nat (2 * n - Suc (Suc k)) / of_nat n"
      using Suc.prems by (simp add: of_nat_diff)
    finally show ?thesis
      using 3 by simp
  next
    case 2
    then have e: "2 * n - Suc k = n" "2 * n - Suc (Suc k) = n - 1" "k < n" "\<not> Suc k < n"
      by simp_all
    have "gap_miss True (1 / of_nat n) (Suc k) = 1 - 1 / of_nat n"
      using Suc n e by simp
    also have "\<dots> = of_nat (n - 1) / of_nat n"
      using assms by (simp add: of_nat_diff diff_divide_distrib)
    finally show ?thesis
      by (simp only: e if_False)
  qed (use Suc n in simp)
qed (use assms in simp)

lemma gap_uniform_wait:
  assumes "0 < n" "1 \<le> k" "k < 2 * n"
  shows "gap_law True (1 / of_nat n) k = (if k < n then 0 else 1 / of_nat n)"
proof -
  obtain j where k: "k = Suc j"
    using assms(2) by (cases k) auto
  show ?thesis
    using notify_p_wait [OF assms(1,3)] gap_miss_wait [OF assms(1), of j] assms(3) unfolding gap_law_def k
    by (auto simp: field_simps)
qed

section \<open>The gentle mode\<close>

text \<open>
  With the coefficients of \<open>reset\<close> the curve is continuous: \<open>max_p\<close> at the upper threshold, from both
  sides, and 1 at twice the threshold.
\<close>

definition gentle_coeffs :: "edp \<Rightarrow> edv \<Rightarrow> rat \<Rightarrow> bool" where
  "gentle_coeffs ep ev max_p \<longleftrightarrow> ep_gentle ep \<and> 0 < ep_th_max ep
     \<and> ev_v_c ev = (1 - max_p) / ep_th_max ep \<and> ev_v_d ev = 2 * max_p - 1"

lemma gentle_at:
  assumes "gentle_coeffs ep ev max_p" "0 \<le> max_p" "max_p \<le> 1" "0 \<le> x" "x \<le> 1"
    "ev_v_ave ev = (1 + x) * ep_th_max ep"
  shows "red_p ep ev = max_p + x * (1 - max_p)"
proof -
  have x: "ep_th_max ep \<le> ev_v_ave ev"
    using assms(1,4) unfolding assms(6) by (simp add: gentle_coeffs_def algebra_simps)
  have eq: "ev_v_c ev * ev_v_ave ev + ev_v_d ev = max_p + x * (1 - max_p)"
  proof -
    have "(1 - max_p) / ep_th_max ep * ((1 + x) * ep_th_max ep) = (1 - max_p) * (1 + x)"
      using assms(1) by (simp add: gentle_coeffs_def)
    then show ?thesis
      using assms(1) unfolding assms(6) by (simp add: gentle_coeffs_def algebra_simps)
  qed
  have "x * (1 - max_p) \<le> 1 - max_p"
    using assms(3,5) by (simp add: mult_left_le_one_le assms(4))
  then have "max_p + x * (1 - max_p) \<le> 1"
    by simp
  with x eq assms(1) show ?thesis
    by (simp add: red_p_def calculate_p_new_def Let_def gentle_coeffs_def)
qed

lemma gentle_coeffs_curve:
  assumes "gentle_coeffs ep ev max_p" "0 \<le> max_p" "max_p \<le> 1"
  shows "0 \<le> ev_v_c ev \<and> 0 \<le> ev_v_c ev * ep_th_max ep + ev_v_d ev"
  using assms by (simp add: gentle_coeffs_def)

text \<open>
  Adapting \<open>max_p\<close> leaves \<open>v_c\<close> and \<open>v_d\<close> as they are: the curve then jumps at the threshold, and
  downwards when \<open>max_p\<close> has grown.
\<close>

lemma gentle_jump:
  assumes "gentle_coeffs ep ev max_p" "0 \<le> max_p" "max_p < ev_cur_max_p ev" "ev_cur_max_p ev \<le> 1"
    and "red_curve ep ev" "ep_th_min ep < ep_th_max ep" "ev_v_ave ev = ep_th_max ep"
  shows "red_p ep ev = max_p"
    and "\<exists>a < ep_th_max ep. red_p ep (ev\<lparr>ev_v_ave := a\<rparr>) > red_p ep ev"
proof -
  show at: "red_p ep ev = max_p"
    using gentle_at [OF assms(1,2), of 0] assms(3,4,7) by simp
  let ?c = "ev_cur_max_p ev"
  let ?d = "ep_th_max ep - ep_th_min ep"
  define r where "r = (max_p + ?c) / (2 * ?c)"
  let ?a = "ep_th_min ep + r * ?d"
  have c: "0 < ?c" "0 < ?d" "0 < 2 * ?c"
    using assms(2,3,6) by auto
  have "r < 1"
    using assms(3) c by (simp add: r_def)
  then have "r * ?d < 1 * ?d"
    using c(2) by (intro mult_strict_right_mono)
  then have a: "?a < ep_th_max ep"
    by (simp add: algebra_simps)
  have curve: "red_curve ep (ev\<lparr>ev_v_ave := ?a\<rparr>)"
    using assms(5) by (simp add: red_curve_def)
  have "red_p ep (ev\<lparr>ev_v_ave := ?a\<rparr>) = min 1 (r * ?d / th_diff ep * ?c)"
    using red_p_linear [OF curve] a by simp
  also have "r * ?d / th_diff ep * ?c = (max_p + ?c) / 2"
    using c by (simp add: th_diff_def r_def)
  finally have "red_p ep (ev\<lparr>ev_v_ave := ?a\<rparr>) > max_p"
    using assms(3,4) by simp
  with a at show "\<exists>a < ep_th_max ep. red_p ep (ev\<lparr>ev_v_ave := a\<rparr>) > red_p ep ev"
    by auto
qed

section \<open>The range of the adapted \<open>max_p\<close>\<close>

text \<open>
  \<open>top_\<close> and \<open>bottom_\<close> are tested before the change: one step can go past them, by a quarter and by
  the factor \<open>beta_\<close>.
\<close>

lemma updateMaxP_range:
  assumes "0 < ep_beta ep" "ep_beta ep \<le> 1" "0 \<le> ep_alpha ep" "0 \<le> ev_cur_max_p ev"
  shows "min (ev_cur_max_p ev) (ep_bottom ep * ep_beta ep) \<le> ev_cur_max_p (updateMaxP ep a t ev)"
    and "ev_cur_max_p (updateMaxP ep a t ev) \<le> max (ev_cur_max_p ev) (5 / 4 * ep_top ep)"
proof -
  have down: "ev_cur_max_p ev * ep_beta ep \<le> ev_cur_max_p ev"
    using assms by (simp add: mult_left_le)
  have keep: "ep_bottom ep * ep_beta ep \<le> ev_cur_max_p ev * ep_beta ep" if "ep_bottom ep < ev_cur_max_p ev"
    using that assms(1) by simp
  show "min (ev_cur_max_p ev) (ep_bottom ep * ep_beta ep) \<le> ev_cur_max_p (updateMaxP ep a t ev)"
    using keep assms(3,4) by (auto simp: updateMaxP_def Let_def min_def)
  show "ev_cur_max_p (updateMaxP ep a t ev) \<le> max (ev_cur_max_p ev) (5 / 4 * ep_top ep)"
    using down assms(3,4) by (auto simp: updateMaxP_def Let_def max_def)
qed

text \<open>It falls below the target range and grows above it.\<close>

lemma updateMaxP_direction:
  assumes "0 < ep_beta ep" "ep_beta ep < 1" "0 < ep_alpha ep" "0 < ev_cur_max_p ev"
    "ep_th_min ep < ep_th_max ep"
  shows "a < ep_th_min ep + 4 / 10 * (ep_th_max ep - ep_th_min ep) \<Longrightarrow> ep_bottom ep < ev_cur_max_p ev \<Longrightarrow>
      ev_cur_max_p (updateMaxP ep a t ev) < ev_cur_max_p ev"
    and "ep_th_max ep - 4 / 10 * (ep_th_max ep - ep_th_min ep) < a \<Longrightarrow> ev_cur_max_p ev < ep_top ep \<Longrightarrow>
      ev_cur_max_p ev < ev_cur_max_p (updateMaxP ep a t ev)"
proof -
  assume "a < ep_th_min ep + 4 / 10 * (ep_th_max ep - ep_th_min ep)" "ep_bottom ep < ev_cur_max_p ev"
  then show "ev_cur_max_p (updateMaxP ep a t ev) < ev_cur_max_p ev"
    using assms by (simp add: updateMaxP_def Let_def)
next
  assume a: "ep_th_max ep - 4 / 10 * (ep_th_max ep - ep_th_min ep) < a" "ev_cur_max_p ev < ep_top ep"
  have "\<not> a < ep_th_min ep + 4 / 10 * (ep_th_max ep - ep_th_min ep)"
    using a(1) assms(5) by (simp add: field_simps)
  then show "ev_cur_max_p ev < ev_cur_max_p (updateMaxP ep a t ev)"
    using a assms by (simp add: updateMaxP_def Let_def)
qed

section \<open>The reset\<close>

text \<open>A configuration: weight and thresholds may be left to the automatic setting (0, -1, -2).\<close>

definition red_config_ok :: "(rat \<Rightarrow> rat) \<Rightarrow> edp \<Rightarrow> bool" where
  "red_config_ok ex ep \<longleftrightarrow> 0 < ep_mean_pktsize ep \<and> exp_decays ex
     \<and> (ep_q_w ep = 0 \<or> ep_q_w ep = - 1 \<or> ep_q_w ep = - 2 \<or> in_unit (ep_q_w ep)) \<and> 0 \<le> ep_delay ep
     \<and> 0 \<le> ep_th_min_pkts ep
     \<and> (ep_th_max_pkts ep = 0 \<or> (0 < ep_th_min_pkts ep \<and> ep_th_min_pkts ep \<le> ep_th_max_pkts ep))
     \<and> 1 \<le> ep_max_p_inv ep \<and> (ep_cautious ep = 3 \<longrightarrow> ep_idle_pktsize ep \<noteq> 0)
     \<and> (ep_adaptive ep = 1 \<longrightarrow> 0 < ep_alpha ep \<and> 0 \<le> ep_beta ep)"

text \<open>The parameters that \<open>initialize_params\<close> does not set.\<close>

definition same_switches :: "edp \<Rightarrow> edp \<Rightarrow> bool" where
  "same_switches ep ep' \<longleftrightarrow> ep_mean_pktsize ep' = ep_mean_pktsize ep
     \<and> ep_idle_pktsize ep' = ep_idle_pktsize ep \<and> ep_bytes ep' = ep_bytes ep \<and> ep_wait ep' = ep_wait ep
     \<and> ep_setbit ep' = ep_setbit ep \<and> ep_gentle ep' = ep_gentle ep \<and> ep_max_p_inv ep' = ep_max_p_inv ep
     \<and> ep_mark_p ep' = ep_mark_p ep \<and> ep_use_mark_p ep' = ep_use_mark_p ep
     \<and> ep_adaptive ep' = ep_adaptive ep \<and> ep_cautious ep' = ep_cautious ep
     \<and> ep_alpha ep' = ep_alpha ep \<and> ep_beta ep' = ep_beta ep"

definition weighted :: "(rat \<Rightarrow> rat) \<Rightarrow> edp \<Rightarrow> edp option" where
  "weighted ex ep =
     (if ep_q_w ep = 0 then do { x \<leftarrow> rdiv (- 1) (ep_ptc ep); Some (ep\<lparr>ep_q_w := 1 - ex x\<rparr>) }
      else if ep_q_w ep = - 1 then do {
        y \<leftarrow> rdiv 1 (ep_ptc ep);
        let rtt = 3 * (ep_delay ep + y);
        let rtt = (if rtt < 1 / 10 then 1 / 10 else rtt);
        x \<leftarrow> rdiv (- 1) (10 * rtt * ep_ptc ep);
        Some (ep\<lparr>ep_q_w := 1 - ex x\<rparr>) }
      else if ep_q_w ep = - 2 then do { x \<leftarrow> rdiv (- 10) (ep_ptc ep); Some (ep\<lparr>ep_q_w := 1 - ex x\<rparr>) }
      else Some ep)"

lemma weighted_ok:
  assumes "red_config_ok ex ep" "0 < ep_ptc ep"
  obtains w where "weighted ex ep = Some (ep\<lparr>ep_q_w := w\<rparr>)" "in_unit w"
proof -
  have ex: "in_unit (1 - ex x)" if "x \<le> 0" for x
    using assms(1) that by (simp add: red_config_ok_def exp_decays_def in_unit_def)
  let ?r = "3 * (ep_delay ep + 1 / ep_ptc ep)"
  let ?rtt = "if ?r < 1 / 10 then 1 / 10 else ?r"
  have rtt: "0 < ?rtt"
    by simp
  have div: "- 1 / (10 * ?rtt * ep_ptc ep) \<le> 0" "- 1 / ep_ptc ep \<le> 0" "- 10 / ep_ptc ep \<le> 0"
    using rtt assms(2) by (simp_all add: divide_nonpos_pos del: if_split)
  consider "ep_q_w ep = 0" | "ep_q_w ep = - 1" | "ep_q_w ep = - 2"
    | "ep_q_w ep \<noteq> 0" "ep_q_w ep \<noteq> - 1" "ep_q_w ep \<noteq> - 2" "in_unit (ep_q_w ep)"
    using assms(1) by (auto simp: red_config_ok_def)
  then show thesis
  proof cases
    case 1
    then show ?thesis
      using that [OF _ ex [OF div(2)]] assms(2) by (simp add: weighted_def rdiv_Some)
  next
    case 2
    have "10 * ?rtt * ep_ptc ep \<noteq> 0"
      using rtt assms(2) by simp
    then show ?thesis
      using that [OF _ ex [OF div(1)]] assms(2) 2 by (simp add: weighted_def rdiv_Some Let_def)
  next
    case 3
    then show ?thesis
      using that [OF _ ex [OF div(3)]] assms(2) by (simp add: weighted_def rdiv_Some)
  next
    case 4
    then show ?thesis
      using that [of "ep_q_w ep"] by (simp add: weighted_def)
  qed
qed

lemma initialize_params_ok:
  assumes "red_config_ok ex ep" "0 < ep_ptc ep" "0 < bw"
  obtains ep' where "initialize_params ex bw ep = Some ep'" "same_switches ep ep'" "in_unit (ep_q_w ep')"
    "0 < ep_th_min_pkts ep'" "ep_th_min_pkts ep' \<le> ep_th_max_pkts ep'"
proof -
  obtain w where w: "weighted ex ep = Some (ep\<lparr>ep_q_w := w\<rparr>)" "in_unit w"
    by (rule weighted_ok [OF assms(1,2)])
  let ?tq = "ep_targetdelay ep * ep_ptc ep"
  let ?min = "if ep_th_min_pkts ep = 0 then if 5 < ?tq / 2 then ?tq / 2 else 5 else ep_th_min_pkts ep"
  let ?max = "if ep_th_max_pkts ep = 0 then 3 * ?min else ep_th_max_pkts ep"
  let ?bot = "if ep_bottom ep = 0 then if 80000 / bw < 1 / 100 then 80000 / bw else 1 / 100 else ep_bottom ep"
  have "initialize_params ex bw ep =
      Some (ep\<lparr>ep_q_w := w, ep_th_min_pkts := ?min, ep_th_max_pkts := ?max, ep_bottom := ?bot\<rparr>)"
    using w(1) assms(3)
    unfolding initialize_params_def weighted_def [symmetric] by (simp add: Let_def rdiv_Some)
  moreover have "0 < ?min"
    using assms(1) by (auto simp: red_config_ok_def)
  moreover have "?min \<le> ?max"
    using \<open>0 < ?min\<close> assms(1) by (auto simp: red_config_ok_def simp del: divide_less_eq)
  ultimately show thesis
    using that w(2) by (simp add: same_switches_def)
qed

text \<open>Emptying the queue leaves parameters and variables alone.\<close>

lemma red_deque_vars:
  "red_deque e q = (q', r) \<Longrightarrow> rd_edp q' = rd_edp q \<and> rd_edv q' = rd_edv q \<and> rd_qib q' = rd_qib q"
  by (auto simp: red_deque_def red_stats_def updateStats_def Let_def
    split: prod.splits option.splits if_splits)

lemma red_drain_vars:
  "queue_drain red_deque e n q = Some (q', ds) \<Longrightarrow> rd_edp q' = rd_edp q \<and> rd_edv q' = rd_edv q"
proof (induction n arbitrary: q ds)
  case (Suc n)
  obtain q1 r where d: "red_deque e q = (q1, r)"
    by fastforce
  have "rd_edp q1 = rd_edp q \<and> rd_edv q1 = rd_edv q"
    using red_deque_vars [OF d] by simp
  then show ?case
    using Suc.prems d Suc.IH [of q1] by (auto split: option.splits)
qed simp

lemma red_reset_ok:
  assumes c: "red_config_ok (qe_exp e) (rd_edp q)" and link: "rd_link q = Some bw" "0 < bw"
    and q: "pq_within M (red_room q) (q_pq q)" "counters_fit M (red_room q + 1)"
      "in_unit (ev_v_prob (rd_edv q))"
  obtains q' where "red_reset e q = Some (q', pkts q)" "red_inv M q'" "pkts q' = []"
    "ep_gentle (rd_edp q) \<Longrightarrow> gentle_coeffs (rd_edp q') (rd_edv q') (1 / ep_max_p_inv (rd_edp q))"
    "ev_cur_max_p (rd_edv q') = 1 / ep_max_p_inv (rd_edp q)" "ev_v_ave (rd_edv q') = 0"
    "ev_count (rd_edv q') = 0" "ev_old (rd_edv q') = 0"
proof -
  let ?ep = "rd_edp q"
  let ?ptc = "bw / (8 * of_int (ep_mean_pktsize ?ep))"
  have mean: "0 < ep_mean_pktsize ?ep" and inv: "1 \<le> ep_max_p_inv ?ep"
    using c by (simp_all add: red_config_ok_def)
  have ptc: "0 < ?ptc"
    using mean link(2) by simp
  have "red_config_ok (qe_exp e) (?ep\<lparr>ep_ptc := ?ptc\<rparr>)"
    using c by (simp add: red_config_ok_def)
  then obtain ep1 where ep1: "initialize_params (qe_exp e) bw (?ep\<lparr>ep_ptc := ?ptc\<rparr>) = Some ep1"
      "same_switches (?ep\<lparr>ep_ptc := ?ptc\<rparr>) ep1" "in_unit (ep_q_w ep1)"
      "0 < ep_th_min_pkts ep1" "ep_th_min_pkts ep1 \<le> ep_th_max_pkts ep1"
    using ptc link(2) by (auto intro: initialize_params_ok)
  define u where "u = (if rd_qib q then of_int (ep_mean_pktsize ?ep) else (1 :: rat))"
  define ep3 where "ep3 = ep1\<lparr>ep_th_min := ep_th_min_pkts ep1 * u, ep_th_max := ep_th_max_pkts ep1 * u\<rparr>"
  have u: "0 < u"
    using mean by (simp add: u_def)
  have sw: "ep_mean_pktsize ep1 = ep_mean_pktsize ?ep" "ep_gentle ep1 = ep_gentle ?ep"
    "ep_max_p_inv ep1 = ep_max_p_inv ?ep"
    using ep1(2) by (simp_all add: same_switches_def)
  have th: "0 < ep_th_min ep3" "ep_th_min ep3 \<le> ep_th_max ep3" "0 < ep_th_max ep3"
    using ep1(4,5) u by (simp_all add: ep3_def mult_right_mono)
  let ?p = "1 / ep_max_p_inv ?ep"
  have p: "0 \<le> ?p" "?p \<le> 1"
    using inv by simp_all
  let ?ev1 = "(rd_edv q)\<lparr>ev_v_ave := 0, ev_v_slope := 0, ev_count := 0, ev_count_bytes := 0, ev_old := 0,
      ev_v_a := 1 / th_diff ep3, ev_cur_max_p := ?p, ev_v_b := - ep_th_min ep3 / th_diff ep3, ev_lastset := 0\<rparr>"
  define ev2 where "ev2 = (if ep_gentle ep1
      then ?ev1\<lparr>ev_v_c := (1 - ?p) / ep_th_max ep3, ev_v_d := 2 * ?p - 1\<rparr> else ?ev1)"
  let ?q = "q\<lparr>rd_edp := ep3, rd_edv := ev2, rd_idle := True, rd_idletime := qe_now e\<rparr>"
  have reset: "red_reset e q = queue_reset red_deque e ?q"
    using link ep1(1,4,5) mean inv th(3) sw
    by (simp add: red_reset_def rdiv_Some Let_def ep3_def u_def ev2_def th_diff_def cong: if_cong)
  have room: "red_room ?q = red_room q" "red_top M ?q = red_top M q"
    using sw by (simp_all add: red_room_def red_top_def red_limit_def ep3_def)
  have "red_params_ok ep3"
    using c mean ep1(2,3) th(2) by (auto simp: red_params_ok_def red_config_ok_def same_switches_def ep3_def)
  moreover have "red_curve ep3 ev2"
  proof -
    have "gentle_coeffs ep3 ev2 ?p" if "ep_gentle ep1"
      using that th(3) by (simp add: gentle_coeffs_def ev2_def ep3_def)
    from gentle_coeffs_curve [OF this p] p(1) show ?thesis
      by (auto simp: red_curve_def ev2_def ep3_def)
  qed
  moreover have "0 \<le> red_top M ?q"
    using q(2) by (simp add: red_top_def red_room_def counters_fit_def)
  ultimately have inv_q: "red_inv M ?q"
    unfolding red_inv_def room using q by (simp add: ev2_def)
  obtain q' where q': "queue_reset red_deque e ?q = Some (q', pkts q)" "red_inv M q'" "pkts q' = []"
    using rq.queue_reset_empties [OF inv_q, of e] by auto
  have vars: "rd_edp q' = ep3 \<and> rd_edv q' = ev2"
    using red_drain_vars [OF q'(1) [unfolded queue_reset_def]] by simp
  show thesis
    by (rule that [of q']) (use q' reset vars sw th(3) in
      \<open>auto simp: gentle_coeffs_def ev2_def ep3_def\<close>)
qed

section \<open>Step marking\<close>

text \<open>
  The configuration of a DCTCP switch: the instantaneous queue (\<open>q_weight_ 1\<close>), one threshold \<open>K\<close>, marks
  instead of drops.
\<close>

definition step_marking :: "rat \<Rightarrow> edp \<Rightarrow> bool" where
  "step_marking K ep \<longleftrightarrow> ep_q_w ep = 1 \<and> ep_th_min ep = K \<and> ep_th_max ep = K \<and> \<not> ep_gentle ep
     \<and> ep_setbit ep \<and> ep_use_mark_p ep \<and> 1 \<le> ep_mark_p ep \<and> ep_adaptive ep \<noteq> 1
     \<and> ep_cautious ep \<noteq> 1 \<and> ep_cautious ep \<noteq> 2"

text \<open>The counters since the last notification are those of the packets that came, and count this one.\<close>

definition counts_ok :: "qpkt \<Rightarrow> red \<Rightarrow> bool" where
  "counts_ok p q \<longleftrightarrow> 0 \<le> ev_count (rd_edv q) \<and> ev_count (rd_edv q) < 2147483647
     \<and> (ep_bytes (rd_edp q) \<longrightarrow> 0 \<le> ev_count_bytes (rd_edv q)
          \<and> ev_count_bytes (rd_edv q) + pk_size p < 2147483648
          \<and> 0 < ep_mean_pktsize (rd_edp q) \<and> ep_mean_pktsize (rd_edp q) \<le> pk_size p)"

lemma modify_p_one:
  assumes "if bytes then 0 < mean \<and> mean \<le> cb else 1 \<le> cnt"
  shows "modify_p 1 cnt cb bytes mean wait sz = Some 1"
proof -
  have "1 \<le> cb sdiv mean" if "0 < mean" "mean \<le> cb"
    using that by (simp add: signed_divide_int_def pos_imp_zdiv_pos_iff int_one_le_iff_zero_less)
  with assms have "(1 :: rat) \<le> (if bytes then of_int (cb sdiv mean) else of_int cnt)"
    by auto
  moreover have "x = 1" if "1 \<le> x" "x < 2" "x = of_int z" for x :: rat and z :: int
    using that by simp
  ultimately show ?thesis
    using assms by (auto simp: modify_p_def Let_def)
qed

lemma step_marking_arrival:
  assumes inv: "red_inv M q" and st: "step_marking K (rd_edp q)" and p: "pk_ect p" "0 < pk_size p"
    and c: "counts_ok p q" and u: "qe_uniform e \<le> 1" and room: "red_qsize q < red_limit q"
  defines "over \<equiv> K \<le> of_int (red_qsize q) \<and> 1 < red_qsize q"
  obtains q' where "red_enque e p q = Some (q', [])"
    "pkts q' = pkts q @ [if over \<and> ev_old (rd_edv q) \<noteq> 0 then p\<lparr>pk_ce := True\<rparr> else p]"
    "ev_old (rd_edv q') \<noteq> 0 \<longleftrightarrow> over" "rd_edp q' = rd_edp q" "rd_qib q' = rd_qib q"
    "0 \<le> ev_count (rd_edv q')" "ev_count (rd_edv q') \<le> ev_count (rd_edv q) + 1"
proof -
  let ?ep = "rd_edp q" and ?ev = "rd_edv q"
  have i: "red_params_ok ?ep" "red_curve ?ep ?ev"
    using inv by (simp_all add: red_inv_def)
  obtain m where m: "idle_slots e q = Some m"
    using idle_slots_ok [OF i(1)] by blast
  obtain q1 where q1: "red_average e p m q = Some q1" "red_frame q q1"
    "ev_v_ave (rd_edv q1) = estimate (red_qsize q) (i32 (m + 1)) (ev_v_ave ?ev) (ep_q_w ?ep)"
    "ev_old (rd_edv q1) = ev_old ?ev" "ev_count (rd_edv q1) = i32 (ev_count ?ev + 1)"
    "ev_count_bytes (rd_edv q1) = i32 (ev_count_bytes ?ev + pk_size p)"
    by (rule red_average_ok [OF i])
  note same = red_frame_qsize [OF q1(2)]
  have q1_same: "rd_edp q1 = ?ep" "q_pq q1 = q_pq q" "rd_qib q1 = rd_qib q"
    using q1(2) by (simp_all add: red_frame_def)
  have cnt: "ev_count (rd_edv q1) = ev_count ?ev + 1" "0 \<le> ev_count ?ev"
    using c q1(5) by (simp_all add: counts_ok_def i32_id)
  have ave: "ev_v_ave (rd_edv q1) = of_int (red_qsize q)"
    unfolding q1(3) estimate_closed using st by (simp add: step_marking_def)
  have none: "\<not> red_limit q1 \<le> red_qsize q1"
    using room same by simp
  show thesis
  proof (cases "over \<and> ev_old ?ev \<noteq> 0")
    case True
    have one: "red_p ?ep (rd_edv q1) = 1"
      using True st ave by (simp add: over_def red_p_def calculate_p_new_def step_marking_def)
    have "modify_p 1 (ev_count (rd_edv q1)) (ev_count_bytes (rd_edv q1)) (ep_bytes ?ep) (ep_mean_pktsize ?ep)
        (ep_wait ?ep) (pk_size p) = Some 1"
      by (rule modify_p_one) (use c p(2) in \<open>auto simp: q1(5,6) counts_ok_def i32_id\<close>)
    then have "drop_early e p q1 = Some (q1\<lparr>rd_edv := (rd_edv q1)\<lparr>ev_v_prob1 := 1, ev_v_prob := 1,
        ev_count := 0, ev_count_bytes := 0\<rparr>\<rparr>, p\<lparr>pk_ce := True\<rparr>, False)"
      using st p(1) u one q1_same
      by (simp add: drop_early_def red_p_def [symmetric] pickPacketForECN_def step_marking_def Let_def)
    then have "red_decide e p q1 = Some (q1\<lparr>rd_edv := (rd_edv q1)\<lparr>ev_v_prob1 := 1, ev_v_prob := 1,
        ev_count := 0, ev_count_bytes := 0\<rparr>\<rparr>, p\<lparr>pk_ce := True\<rparr>, DTYPE_NONE)"
      using True st ave same q1(4) q1_same by (simp add: red_decide_def Let_def over_def step_marking_def)
    then have "red_enque e p q = Some (q1\<lparr>rd_edv := (rd_edv q1)\<lparr>ev_v_prob1 := 1, ev_v_prob := 1,
        ev_count := 0, ev_count_bytes := 0\<rparr>, q_pq := pq_enque (p\<lparr>pk_ce := True\<rparr>) (q_pq q)\<rparr>, [])"
      using m q1(1) none q1_same by (simp add: red_enque_def red_admit_def)
    then show ?thesis
      by (rule that) (use True q1(4) q1_same cnt in simp_all)
  next
    case False
    define ev2 where "ev2 = (if over then (rd_edv q1)\<lparr>ev_count := 1, ev_count_bytes := pk_size p, ev_old := 1\<rparr>
        else (rd_edv q1)\<lparr>ev_v_prob := 0, ev_old := 0\<rparr>)"
    have "red_decide e p q1 = Some (q1\<lparr>rd_edv := ev2\<rparr>, p, DTYPE_NONE)"
      using False st ave same q1(4) q1_same
      by (auto simp: red_decide_def Let_def over_def step_marking_def ev2_def)
    then have "red_enque e p q = Some (q1\<lparr>rd_edv := ev2, q_pq := pq_enque p (q_pq q)\<rparr>, [])"
      using m q1(1) none q1_same by (simp add: red_enque_def red_admit_def)
    then show ?thesis
      by (rule that) (use False q1(4) q1_same cnt in \<open>auto simp: ev2_def\<close>)
  qed
qed

end
