(* ===== verification/Drop_Tail.thy ===== *)
theory Drop_Tail
  imports Queue_Link
begin

text \<open>
  The drop-tail queue (\<open>queue/drop-tail.cc\<close>): its operations, the bound that it keeps, what
  \<open>shrink_queue\<close> leaves, and that it is a \<open>queue_discipline\<close>.
\<close>

section \<open>State and operations\<close>

record dropt = qbase +
  dt_drop_front :: bool
  dt_summarystats :: bool
  dt_qib :: bool
  dt_mean_pktsize :: int

definition dt_size :: "dropt \<Rightarrow> int" where
  "dt_size q = (if dt_qib q then pq_bytes (q_pq q) else pq_len (q_pq q))"

definition dt_stats :: "qenv \<Rightarrow> dropt \<Rightarrow> dropt" where
  "dt_stats e q = (if dt_summarystats q then updateStats (qe_now e) (dt_size q) q else q)"

definition droptail_enque :: "dropt enquer" where
  "droptail_enque e p q =
     (let q1 = dt_stats e q;
          qlimBytes = i32 (q_lim q * dt_mean_pktsize q)
      in if (\<not> dt_qib q \<and> i32 (pq_len (q_pq q) + 1) \<ge> q_lim q)
            \<or> (dt_qib q \<and> i32 (pq_bytes (q_pq q) + pk_size p) \<ge> qlimBytes)
         then (if dt_drop_front q
               then (case pq_deque (pq_enque p (q_pq q)) of
                   (pq', Some pp) \<Rightarrow> Some (q1\<lparr>q_pq := pq'\<rparr>, [pp])
                 | (pq', None) \<Rightarrow> None)
               else Some (q1, [p]))
         else Some (q1\<lparr>q_pq := pq_enque p (q_pq q)\<rparr>, []))"

definition droptail_deque :: "dropt dequer" where
  "droptail_deque e q = (case pq_deque (q_pq q) of (pq', r) \<Rightarrow> ((dt_stats e q)\<lparr>q_pq := pq'\<rparr>, r))"

text \<open>\<open>shrink_queue\<close>: one round of the loop (\<open>None\<close>: there is no packet to drop), and the loop.\<close>

definition shrink_step :: "bool \<Rightarrow> pqueue \<Rightarrow> (pqueue \<times> qpkt) option" where
  "shrink_step front q =
     (if front then (case pq_deque q of (q', Some p) \<Rightarrow> Some (q', p) | (q', None) \<Rightarrow> None)
      else (case pq_tail q of
          None \<Rightarrow> None
        | Some p \<Rightarrow> (case pq_remove p q of None \<Rightarrow> None | Some q' \<Rightarrow> Some (q', p))))"

lemma unlink_pkt_shorter: "unlink_pkt u ps = Some (p, rs) \<Longrightarrow> length rs < length ps"
  by (induction u ps arbitrary: rs rule: unlink_pkt.induct) (auto split: if_splits option.splits)

lemma shrink_step_shorter:
  "shrink_step front q = Some (q', p) \<Longrightarrow> length (pq_list q') < length (pq_list q)"
  using unlink_pkt_shorter
  by (fastforce simp: shrink_step_def pq_deque_def pq_remove_def
    split: if_splits option.splits list.splits)

function shrink_loop :: "(pqueue \<Rightarrow> bool) \<Rightarrow> bool \<Rightarrow> pqueue \<Rightarrow> (pqueue \<times> qpkt list) option" where
  "shrink_loop over front q =
     (if over q
      then (case shrink_step front q of
          None \<Rightarrow> None
        | Some (q', p) \<Rightarrow> (case shrink_loop over front q' of
              None \<Rightarrow> None | Some (q2, ds) \<Rightarrow> Some (q2, p # ds)))
      else Some (q, []))"
  by pat_completeness auto
termination
  by (relation "measure (\<lambda>(over, front, q). length (pq_list q))") (auto dest: shrink_step_shorter)

declare shrink_loop.simps [simp del]

definition dt_over :: "dropt \<Rightarrow> pqueue \<Rightarrow> bool" where
  "dt_over q l \<longleftrightarrow> (\<not> dt_qib q \<and> pq_len l > q_lim q)
     \<or> (dt_qib q \<and> pq_bytes l > i32 (q_lim q * dt_mean_pktsize q))"

definition shrink_queue :: "dropt \<Rightarrow> (dropt \<times> qpkt list) option" where
  "shrink_queue q = (case shrink_loop (dt_over q) (dt_drop_front q) (q_pq q) of
       None \<Rightarrow> None
     | Some (l, ds) \<Rightarrow> Some (q\<lparr>q_pq := l\<rparr>, ds))"

definition droptail_reset :: "qenv \<Rightarrow> dropt \<Rightarrow> (dropt \<times> qpkt list) option" where
  "droptail_reset = queue_reset droptail_deque"

section \<open>The bound\<close>

text \<open>
  The limit in the unit of the queue; the most packets that the queue holds is one less, whatever the
  unit (a packet has at least one byte).
\<close>

definition dt_limit :: "'a dropt_scheme \<Rightarrow> int" where
  "dt_limit q = (if dt_qib q then i32 (q_lim q * dt_mean_pktsize q) else q_lim q)"

definition dt_room :: "'a dropt_scheme \<Rightarrow> int" where
  "dt_room q = max 0 (dt_limit q - 1)"

definition dt_inv :: "int \<Rightarrow> dropt \<Rightarrow> bool" where
  "dt_inv M q \<longleftrightarrow> counters_fit M (dt_room q + 1) \<and> pq_within M (dt_room q) (q_pq q)"

lemma dt_stats_keeps [simp]:
  "q_pq (dt_stats e q) = q_pq q" "q_blocked (dt_stats e q) = q_blocked q"
  "q_unblock_on_resume (dt_stats e q) = q_unblock_on_resume q" "q_lim (dt_stats e q) = q_lim q"
  "dropt.more (dt_stats e q) = dropt.more q" "dt_room (dt_stats e q) = dt_room q"
  by (auto simp: dt_stats_def updateStats_def Let_def dt_room_def dt_limit_def)

lemma dt_room_update [simp]:
  "dt_room (q\<lparr>q_pq := l\<rparr>) = dt_room q" "dt_room (q\<lparr>q_last_change := t, q_blocked := b\<rparr>) = dt_room q"
  "dt_room (q\<lparr>q_total_time := t, q_true_ave := a\<rparr>) = dt_room q"
  by (simp_all add: dt_room_def dt_limit_def)

text \<open>The test of \<open>enque\<close> without the wrap-around: a packet is refused one place too early.\<close>

definition dt_fits :: "qpkt \<Rightarrow> dropt \<Rightarrow> bool" where
  "dt_fits p q \<longleftrightarrow> (if dt_qib q then sum_size (pkts q) + pk_size p < dt_limit q
     else int (length (pkts q)) + 1 < dt_limit q)"

lemma dt_counters:
  assumes "dt_inv M q" "pkt_ok M p"
  shows "pq_len (q_pq q) = int (length (pkts q))" "pq_bytes (q_pq q) = sum_size (pkts q)"
    "i32 (int (length (pkts q)) + 1) = int (length (pkts q)) + 1"
    "i32 (sum_size (pkts q) + pk_size p) = sum_size (pkts q) + pk_size p"
proof -
  have w: "pq_within M (dt_room q) (q_pq q)" "counters_fit M (dt_room q + 1)"
    using assms(1) by (simp_all add: dt_inv_def)
  show "pq_len (q_pq q) = int (length (pkts q))" "pq_bytes (q_pq q) = sum_size (pkts q)"
    using w(1) by (simp_all add: pq_within_def pq_ok_def)
  show "i32 (int (length (pkts q)) + 1) = int (length (pkts q)) + 1"
    "i32 (sum_size (pkts q) + pk_size p) = sum_size (pkts q) + pk_size p"
    using counters_exact [OF w(2), of "pkts q @ [p]"] w(1) assms(2)
    by (auto simp: pq_within_def add.commute)
qed

lemma droptail_enque_cases:
  assumes "dt_inv M q" "pkt_ok M p"
  shows "droptail_enque e p q = Some (
     if dt_fits p q then ((dt_stats e q)\<lparr>q_pq := pq_enque p (q_pq q)\<rparr>, [])
     else if dt_drop_front q
     then ((dt_stats e q)\<lparr>q_pq := fst (pq_deque (pq_enque p (q_pq q)))\<rparr>, [hd (pkts q @ [p])])
     else (dt_stats e q, [p]))"
proof -
  have "pq_deque (pq_enque p (q_pq q)) =
      (fst (pq_deque (pq_enque p (q_pq q))), Some (hd (pkts q @ [p])))"
    by (cases "pkts q") (simp_all add: pq_deque_def)
  then obtain l where "pq_deque (pq_enque p (q_pq q)) = (l, Some (hd (pkts q @ [p])))"
    by metis
  then show ?thesis
    using dt_counters [OF assms]
    by (auto simp: droptail_enque_def Let_def dt_fits_def dt_limit_def)
qed

text \<open>What is on the list afterwards.\<close>

lemma droptail_enque_pkts:
  assumes "dt_inv M q" "pkt_ok M p" "droptail_enque e p q = Some (q', ds)"
  shows "pkts q' = (if dt_fits p q then pkts q @ [p]
           else if dt_drop_front q then tl (pkts q @ [p]) else pkts q)"
    and "ds = (if dt_fits p q then [] else if dt_drop_front q then [hd (pkts q @ [p])] else [p])"
proof -
  have t: "pq_list (fst (pq_deque (pq_enque p (q_pq q)))) = tl (pkts q @ [p])"
    by (cases "pkts q") (simp_all add: pq_deque_def)
  show "pkts q' = (if dt_fits p q then pkts q @ [p]
           else if dt_drop_front q then tl (pkts q @ [p]) else pkts q)"
    and "ds = (if dt_fits p q then [] else if dt_drop_front q then [hd (pkts q @ [p])] else [p])"
    using assms(3) t unfolding droptail_enque_cases [OF assms(1,2)] by (auto split: if_splits)
qed

lemma droptail_enque_inv:
  assumes "dt_inv M q" "pkt_ok M p" "pk_uid p \<notin> set (uids (pkts q))"
    and "droptail_enque e p q = Some (q', ds)"
  shows "dt_inv M q'" "dt_room q' = dt_room q" "q_blocked q' = q_blocked q"
    "q_unblock_on_resume q' = q_unblock_on_resume q"
proof -
  have w: "pq_within M (dt_room q) (q_pq q)" "counters_fit M (dt_room q + 1)"
    using assms(1) by (simp_all add: dt_inv_def)
  have len: "int (length (pkts q)) \<le> dt_room q" "int (length (pkts q)) \<le> sum_size (pkts q)"
    using w(1) sum_size_bounds [of "pkts q" M] by (auto simp: pq_within_def pkt_ok_def)
  note e = pq_enque_within(1) [OF w assms(2,3)]
  show keep: "dt_room q' = dt_room q" "q_blocked q' = q_blocked q"
    "q_unblock_on_resume q' = q_unblock_on_resume q"
    using assms(4) unfolding droptail_enque_cases [OF assms(1,2)] by (auto split: if_splits)
  show "dt_inv M q'"
  proof (cases "dt_fits p q")
    case True
    then have "int (length (pkts q)) + 1 \<le> dt_room q"
      using len assms(2) unfolding dt_fits_def dt_room_def pkt_ok_def by (auto split: if_splits)
    then have "pq_within M (dt_room q) (pq_enque p (q_pq q))"
      using e by (simp add: pq_within_def)
    with True show ?thesis
      using assms(4) w(2) unfolding droptail_enque_cases [OF assms(1,2)] by (auto simp: dt_inv_def)
  next
    case False
    show ?thesis
    proof (cases "dt_drop_front q")
      case front: True
      obtain l r where d: "pq_deque (pq_enque p (q_pq q)) = (l, Some r)"
        by (cases "pkts q") (simp_all add: pq_deque_def)
      have "pq_within M (dt_room q) l"
        using pq_deque_within(1) [OF e counters_fit_less [OF w(2)] d] len(1) by (auto simp: pq_within_def)
      then show ?thesis
        using assms(4) False front w(2) d unfolding droptail_enque_cases [OF assms(1,2)]
        by (auto simp: dt_inv_def)
    next
      case tail: False
      then show ?thesis
        using assms(4) False w unfolding droptail_enque_cases [OF assms(1,2)] by (auto simp: dt_inv_def)
    qed
  qed
qed

text \<open>
  In bytes, dropping one packet at the front makes no room for a larger one: the queue then grows
  beyond its limit.
\<close>

lemma drop_front_bytes:
  assumes "dt_inv M q" "pkt_ok M p" "droptail_enque e p q = Some (q', ds)" "dt_drop_front q" "\<not> dt_fits p q"
  shows "sum_size (pkts q') = sum_size (pkts q) + pk_size p - pk_size (hd (pkts q @ [p]))"
  using droptail_enque_pkts(1) [OF assms(1-3)] assms(4,5) by (cases "pkts q") auto

lemma droptail_deque_inv:
  assumes "dt_inv M q" "droptail_deque e q = (q', r)"
  shows "dt_inv M q'" "q_blocked q' = q_blocked q" "q_unblock_on_resume q' = q_unblock_on_resume q"
    "pkts q = (case r of None \<Rightarrow> [] | Some p \<Rightarrow> [p]) @ pkts q'" "r = None \<Longrightarrow> pkts q = []"
proof -
  have w: "pq_within M (dt_room q) (q_pq q)" "counters_fit M (dt_room q + 1)"
    using assms(1) by (simp_all add: dt_inv_def)
  obtain l where d: "pq_deque (q_pq q) = (l, r)" and q': "q' = (dt_stats e q)\<lparr>q_pq := l\<rparr>"
    using assms(2) by (auto simp: droptail_deque_def split: prod.splits)
  show "q_blocked q' = q_blocked q" "q_unblock_on_resume q' = q_unblock_on_resume q"
    using q' by simp_all
  have fit: "counters_fit M (dt_room q)"
    using counters_fit_less [OF w(2), of "dt_room q"] by simp
  have "pq_within M (dt_room q) l \<and> pkts q = (case r of None \<Rightarrow> [] | Some p \<Rightarrow> [p]) @ pq_list l
      \<and> (r = None \<longrightarrow> pkts q = [])"
  proof (cases r)
    case None
    then show ?thesis
      using d w(1) pq_deque_None by auto
  next
    case (Some p)
    then show ?thesis
      using d pq_deque_within [OF w(1) fit] w(1) by (auto simp: pq_within_def)
  qed
  then show "dt_inv M q'" "pkts q = (case r of None \<Rightarrow> [] | Some p \<Rightarrow> [p]) @ pkts q'"
    "r = None \<Longrightarrow> pkts q = []"
    using q' w(2) by (auto simp: dt_inv_def split: option.splits)
qed

lemma util_dropt_keeps [simp]:
  "dt_qib (util_slots g a b c d q) = dt_qib q" "dt_qib (utilUpdate ex x y z q) = dt_qib q"
  "dt_mean_pktsize (util_slots g a b c d q) = dt_mean_pktsize q"
  "dt_mean_pktsize (utilUpdate ex x y z q) = dt_mean_pktsize q" for q :: "'a dropt_scheme"
proof -
  show slots: "dt_qib (util_slots g a b c d q) = dt_qib q"
    "dt_mean_pktsize (util_slots g a b c d q) = dt_mean_pktsize q" for g a b c d and q :: "'a dropt_scheme"
    by (induction g a b c d q rule: util_slots.induct) auto
  show "dt_qib (utilUpdate ex x y z q) = dt_qib q"
    "dt_mean_pktsize (utilUpdate ex x y z q) = dt_mean_pktsize q"
    by (simp_all add: utilUpdate_def Let_def slots)
qed

interpretation dt: queue_discipline droptail_enque droptail_deque "dt_inv M" "\<lambda>e. True" M for M
proof unfold_locales
  fix q :: dropt and e p
  assume "dt_inv M q" "pkt_ok M p"
  then show "\<exists>q' ds. droptail_enque e p q = Some (q', ds)"
    using droptail_enque_cases by (metis surj_pair)
next
  fix q q' :: dropt and e p ds
  assume a: "dt_inv M q" "pkt_ok M p" "pk_uid p \<notin> set (uids (pkts q))"
    "droptail_enque e p q = Some (q', ds)"
  have "mset (uids (pkts q')) + mset (uids ds) = mset (uids (pkts q @ [p]))
      \<and> subseq (uids (pkts q')) (uids (pkts q @ [p]))"
    unfolding droptail_enque_pkts [OF a(1,2,4)]
    by (cases "pkts q") (auto intro: subseq_rev_drop_many)
  then show "dt_inv M q' \<and> q_blocked q' = q_blocked q
      \<and> q_unblock_on_resume q' = q_unblock_on_resume q
      \<and> mset (uids (pkts q')) + mset (uids ds) = mset (uids (pkts q @ [p]))
      \<and> subseq (uids (pkts q')) (uids (pkts q @ [p]))"
    using droptail_enque_inv [OF a] by simp
next
  fix q q' :: dropt and e r
  assume a: "dt_inv M q" "droptail_deque e q = (q', r)"
  show "dt_inv M q' \<and> q_blocked q' = q_blocked q \<and> q_unblock_on_resume q' = q_unblock_on_resume q"
    using droptail_deque_inv [OF a] by simp
next
  fix q q' :: dropt and e p
  assume "dt_inv M q" "droptail_deque e q = (q', Some p)"
  then show "pkts q = p # pkts q'"
    using droptail_deque_inv(4) by fastforce
next
  fix q q' :: dropt and e
  assume a: "dt_inv M q" "droptail_deque e q = (q', None)"
  show "pkts q = [] \<and> pkts q' = []"
    using droptail_deque_inv(4,5) [OF a] by simp
next
  fix q :: dropt and ex a b c t d
  assume "dt_inv M q"
  moreover have "dt_room (utilUpdate ex a b c q) = dt_room q"
    by (simp add: dt_room_def dt_limit_def)
  ultimately show "dt_inv M ((utilUpdate ex a b c q)\<lparr>q_last_change := t, q_blocked := d\<rparr>)"
    by (simp add: dt_inv_def)
next
  fix q :: dropt
  assume "dt_inv M q"
  then show "dt_inv M (q\<lparr>q_total_time := 0, q_true_ave := 0\<rparr>)"
    by (simp add: dt_inv_def)
qed

section \<open>Shrinking the queue\<close>

text \<open>
  The loop ends with a queue that is within the limit, keeps the packets of the other end in their
  order, and drops no more than it has to.
\<close>

lemma shrink_loop_ok:
  assumes "pq_within M N l" "counters_fit M N"
    and "\<And>l. pq_within M N l \<Longrightarrow> over l = ov (pq_list l)" "\<not> ov []"
  shows "\<exists>l' ds. shrink_loop over front l = Some (l', ds) \<and> pq_within M N l' \<and> \<not> ov (pq_list l')
    \<and> pq_list l = (if front then ds @ pq_list l' else pq_list l' @ rev ds)
    \<and> (ds \<noteq> [] \<longrightarrow> ov (if front then last ds # pq_list l' else pq_list l' @ [last ds]))"
  using assms(1)
proof (induction "length (pq_list l)" arbitrary: l rule: less_induct)
  case less
  show ?case
  proof (cases "over l")
    case False
    then show ?thesis
      using less.prems assms(3) by (simp add: shrink_loop.simps)
  next
    case True
    then have ne: "pq_list l \<noteq> []"
      using less.prems assms(3,4) by auto
    have "\<exists>l1 p. shrink_step front l = Some (l1, p) \<and> pq_within M N l1
        \<and> pq_list l = (if front then p # pq_list l1 else pq_list l1 @ [p])"
    proof (cases front)
      case True
      obtain l1 p where d: "pq_deque l = (l1, Some p)"
        using ne by (cases "pq_list l") (simp_all add: pq_deque_def)
      then show ?thesis
        using True pq_deque_within [OF less.prems assms(2) d] less.prems
        by (auto simp: shrink_step_def pq_within_def)
    next
      case False
      obtain l1 where "pq_remove (last (pq_list l)) l = Some l1" "pq_list l1 = butlast (pq_list l)"
          "pq_within M (int (length (pq_list l)) - 1) l1"
        using pq_remove_within [OF less.prems assms(2), of "butlast (pq_list l)" "last (pq_list l)" "[]"] ne
        by auto
      then show ?thesis
        using False ne less.prems by (auto simp: shrink_step_def pq_tail_def pq_within_def)
    qed
    then obtain l1 p where s: "shrink_step front l = Some (l1, p)" "pq_within M N l1"
        "pq_list l = (if front then p # pq_list l1 else pq_list l1 @ [p])"
      by blast
    obtain l' ds where r: "shrink_loop over front l1 = Some (l', ds)" "pq_within M N l'" "\<not> ov (pq_list l')"
        "pq_list l1 = (if front then ds @ pq_list l' else pq_list l' @ rev ds)"
        "ds \<noteq> [] \<longrightarrow> ov (if front then last ds # pq_list l' else pq_list l' @ [last ds])"
      using less.hyps [OF shrink_step_shorter [OF s(1)] s(2)] by blast
    have "shrink_loop over front l = Some (l', p # ds)"
      using True s(1) r(1) by (simp add: shrink_loop.simps [of over front l])
    moreover have "ov (pq_list l)"
      using True assms(3) less.prems by simp
    ultimately show ?thesis
      using r s(3) by (cases front; cases "ds = []") auto
  qed
qed

definition dt_fits_limit :: "dropt \<Rightarrow> qpkt list \<Rightarrow> bool" where
  "dt_fits_limit q ps \<longleftrightarrow> (if dt_qib q then sum_size ps else int (length ps)) \<le> dt_limit q"

lemma shrink_queue_ok:
  assumes "pq_within M N (q_pq q)" "counters_fit M N" "0 \<le> dt_limit q"
  obtains l ds where "shrink_queue q = Some (q\<lparr>q_pq := l\<rparr>, ds)" "pq_ok l" "dt_fits_limit q (pq_list l)"
    "pkts q = (if dt_drop_front q then ds @ pq_list l else pq_list l @ rev ds)"
    "ds \<noteq> [] \<Longrightarrow> \<not> dt_fits_limit q (if dt_drop_front q then last ds # pq_list l else pq_list l @ [last ds])"
proof -
  have ov: "dt_over q l = (\<not> dt_fits_limit q (pq_list l))" if "pq_within M N l" for l
    using that by (auto simp: pq_within_def pq_ok_def dt_over_def dt_fits_limit_def dt_limit_def)
  have "\<not> \<not> dt_fits_limit q []"
    using assms(3) by (simp add: dt_fits_limit_def)
  from shrink_loop_ok [where ov = "\<lambda>ps. \<not> dt_fits_limit q ps" and front = "dt_drop_front q",
      OF assms(1,2) ov this]
  show thesis
    using that by (fastforce simp: shrink_queue_def pq_within_def)
qed

end
