(* ===== verification/Reassembly.thy ===== *)
theory Reassembly
  imports Ns_Prelude "HOL-Library.Multiset"
begin

text \<open>
  The reassembly queue of the full TCP agent (\<open>tcp/rq.cc\<close>, \<open>tcp/rq.h\<close>): segments of sequence
  numbers, linked in the order of the numbers (FIFO) and in the order of insertion (LIFO).

  The FIFO is the list of its segments and the LIFO the list of their addresses, top first; a
  segment keeps the address it was allocated at. \<open>p->next_\<close> and \<open>q->prev_\<close> are looked up in the
  FIFO (\<open>next_of\<close>, \<open>prev_of\<close>). \<open>None\<close> is a run that aborts, follows a null or dangling pointer,
  or links a segment between two that are not neighbours. The free list is not observable.
\<close>

unbundle bit_operations_syntax

section \<open>The queue\<close>

record seginfo =
  sg_addr :: nat
  sg_start :: int
  sg_end :: int
  sg_pflags :: int
  sg_rqflags :: int
  sg_cnt :: int

record rqueue =
  rq_fifo :: "seginfo list"
  rq_lifo :: "nat list"
  rq_total :: int
  rq_rcv_nxt :: int
  rq_fresh :: nat

definition rq_new :: "int \<Rightarrow> rqueue" where
  "rq_new rcvnxt = \<lparr>rq_fifo = [], rq_lifo = [], rq_total = 0, rq_rcv_nxt = rcvnxt, rq_fresh = 0\<rparr>"

definition rq_empty :: "rqueue \<Rightarrow> bool" where
  "rq_empty q \<longleftrightarrow> rq_fifo q = []"

definition rq_maxseq :: "rqueue \<Rightarrow> int" where
  "rq_maxseq q = (if rq_fifo q = [] then - 1 else sg_end (last (rq_fifo q)))"

definition rq_minseq :: "rqueue \<Rightarrow> int" where
  "rq_minseq q = (if rq_fifo q = [] then - 1 else sg_start (hd (rq_fifo q)))"

text \<open>Following pointers.\<close>

fun seg_at :: "nat \<Rightarrow> seginfo list \<Rightarrow> seginfo option" where
  "seg_at a [] = None"
| "seg_at a (s # ss) = (if sg_addr s = a then Some s else seg_at a ss)"

fun next_of :: "nat \<Rightarrow> seginfo list \<Rightarrow> nat option" where
  "next_of a [] = None"
| "next_of a [s] = None"
| "next_of a (s # t # ss) = (if sg_addr s = a then Some (sg_addr t) else next_of a (t # ss))"

fun prev_of :: "nat \<Rightarrow> seginfo list \<Rightarrow> nat option" where
  "prev_of a [] = None"
| "prev_of a [s] = None"
| "prev_of a (s # t # ss) = (if sg_addr t = a then Some (sg_addr s) else prev_of a (t # ss))"

definition head_of :: "seginfo list \<Rightarrow> nat option" where
  "head_of ss = (case ss of [] \<Rightarrow> None | s # _ \<Rightarrow> Some (sg_addr s))"

definition tail_of :: "seginfo list \<Rightarrow> nat option" where
  "tail_of ss = (if ss = [] then None else Some (sg_addr (last ss)))"

definition upd_seg :: "nat \<Rightarrow> (seginfo \<Rightarrow> seginfo) \<Rightarrow> rqueue \<Rightarrow> rqueue" where
  "upd_seg a f q = q\<lparr>rq_fifo := map (\<lambda>s. if sg_addr s = a then f s else s) (rq_fifo q)\<rparr>"

text \<open>Unlinking from both lists (\<open>fremove\<close> and \<open>sremove\<close>, which the code always calls together).\<close>

definition fremove :: "nat \<Rightarrow> rqueue \<Rightarrow> rqueue" where
  "fremove a q = q\<lparr>rq_fifo := filter (\<lambda>s. sg_addr s \<noteq> a) (rq_fifo q)\<rparr>"

definition sremove :: "nat \<Rightarrow> rqueue \<Rightarrow> rqueue" where
  "sremove a q = q\<lparr>rq_lifo := filter (\<lambda>b. b \<noteq> a) (rq_lifo q)\<rparr>"

definition rq_push :: "nat \<Rightarrow> rqueue \<Rightarrow> rqueue" where
  "rq_push a q = q\<lparr>rq_lifo := a # rq_lifo q\<rparr>"

definition rq_clear :: "rqueue \<Rightarrow> rqueue" where
  "rq_clear q = q\<lparr>rq_fifo := [], rq_lifo := [], rq_total := 0\<rparr>"

definition rq_init :: "int \<Rightarrow> rqueue \<Rightarrow> rqueue" where
  "rq_init rcvnxt q = rq_clear (q\<lparr>rq_rcv_nxt := rcvnxt\<rparr>)"

section \<open>Removing what has been passed on\<close>

fun clear_loop :: "int \<Rightarrow> seginfo list \<Rightarrow> int \<Rightarrow> rqueue \<Rightarrow> int \<times> seginfo list \<times> rqueue" where
  "clear_loop seq [] flag q = (flag, [], q)"
| "clear_loop seq (p # ps) flag q =
     (if sg_end p \<le> seq
      then clear_loop seq ps (flag OR sg_pflags p)
             (fremove (sg_addr p) (sremove (sg_addr p)
               (q\<lparr>rq_total := i32 (rq_total q - (sg_end p - sg_start p))\<rparr>)))
      else (flag, p # ps, q))"

definition clearto :: "int \<Rightarrow> rqueue \<Rightarrow> int \<times> rqueue" where
  "clearto seq q = (case clear_loop seq (rq_fifo q) 0 q of
       (flag, [], q1) \<Rightarrow> (flag, q1)
     | (flag, p # _, q1) \<Rightarrow>
         if sg_start p \<le> seq \<and> sg_end p > seq
         then (flag OR sg_pflags p,
               upd_seg (sg_addr p) (\<lambda>s. s\<lparr>sg_start := seq\<rparr>)
                 (q1\<lparr>rq_total := i32 (rq_total q1 - (seq - sg_start p))\<rparr>))
         else (flag, q1))"

definition cleartonxt :: "rqueue \<Rightarrow> int \<times> rqueue" where
  "cleartonxt q = clearto (rq_rcv_nxt q) q"

section \<open>What the queue reports\<close>

fun gensack_from :: "seginfo list \<Rightarrow> nat list \<Rightarrow> nat \<Rightarrow> (int \<times> int) list" where
  "gensack_from ss (a # as) (Suc n) = (case seg_at a ss of
       None \<Rightarrow> []
     | Some s \<Rightarrow> (sg_start s, sg_end s) # gensack_from ss as n)"
| "gensack_from ss as n = []"

definition gensack :: "nat \<Rightarrow> rqueue \<Rightarrow> (int \<times> int) list" where
  "gensack maxsblock q = gensack_from (rq_fifo q) (rq_lifo q) maxsblock"

fun cnts :: "seginfo list \<Rightarrow> int \<times> int" where
  "cnts [] = (0, 0)"
| "cnts (p # ps) = (case cnts ps of (blks, bytes) \<Rightarrow> (blks + 1, bytes + (sg_end p - sg_start p)))"

text \<open>The hole, the number of blocks above it and their bytes.\<close>

fun nexthole_from :: "int \<Rightarrow> seginfo list \<Rightarrow> int \<times> int \<times> int" where
  "nexthole_from seq [] = (- 1, - 1, - 1)"
| "nexthole_from seq (p # ps) =
     (if sg_start p > seq then (seq, cnts (p # ps))
      else if sg_start p \<le> seq \<and> sg_end p \<ge> seq
      then (sg_end p, if ps = [] then (- 1, - 1) else cnts ps)
      else nexthole_from seq ps)"

definition nexthole :: "int \<Rightarrow> rqueue \<Rightarrow> int \<times> int \<times> int" where
  "nexthole seq q = nexthole_from seq (rq_fifo q)"

section \<open>Adding a segment\<close>

text \<open>\<open>coalesce\<close>, with the addresses of the segment before, the new one and the one after.\<close>

definition coalesce :: "nat option \<Rightarrow> nat \<Rightarrow> nat option \<Rightarrow> rqueue \<Rightarrow> (int \<times> rqueue) option" where
  "coalesce pa na qa Q = (case seg_at na (rq_fifo Q) of
       None \<Rightarrow> None
     | Some n \<Rightarrow>
         let p = Option.bind pa (\<lambda>a. seg_at a (rq_fifo Q)); q = Option.bind qa (\<lambda>a. seg_at a (rq_fifo Q));
             joins_p = (case p of None \<Rightarrow> False | Some p \<Rightarrow> sg_end p = sg_start n);
             joins_q = (case q of None \<Rightarrow> False | Some q \<Rightarrow> sg_end n = sg_start q);
             (flags, ra, Q1) =
               (if joins_p \<and> joins_q
                then let p = the p; q = the q
                     in (sg_pflags p OR sg_pflags n, pa,
                         upd_seg (sg_addr p) (\<lambda>s. s\<lparr>sg_end := sg_end q,
                             sg_cnt := i32 (sg_cnt p + (sg_cnt n + sg_cnt q)),
                             sg_pflags := sg_pflags p OR sg_pflags n\<rparr>)
                           (fremove (sg_addr q) (sremove (sg_addr q) (fremove na (sremove na Q)))))
                else if joins_p
                then let p = the p
                     in (sg_pflags p OR sg_pflags n, pa,
                         upd_seg (sg_addr p) (\<lambda>s. s\<lparr>sg_end := sg_end n,
                             sg_pflags := sg_pflags p OR sg_pflags n, sg_cnt := i32 (sg_cnt p + sg_cnt n)\<rparr>)
                           (fremove na (sremove na Q)))
                else if joins_q
                then let q = the q
                     in (sg_pflags q OR sg_pflags n, qa,
                         upd_seg (sg_addr q) (\<lambda>s. s\<lparr>sg_start := sg_start n,
                             sg_pflags := sg_pflags q OR sg_pflags n, sg_cnt := i32 (sg_cnt q + sg_cnt n)\<rparr>)
                           (fremove na (sremove na Q)))
                else (0, pa, Q))
         in (case Option.bind ra (\<lambda>a. seg_at a (rq_fifo Q1)) of
               None \<Rightarrow> None
             | Some r \<Rightarrow>
                 Some (flags, if rq_rcv_nxt Q1 \<ge> sg_start r then Q1\<lparr>rq_rcv_nxt := sg_end r\<rparr> else Q1)))"

fun link_after :: "nat \<Rightarrow> seginfo \<Rightarrow> seginfo list \<Rightarrow> seginfo list" where
  "link_after a n [] = []"
| "link_after a n (s # ss) = (if sg_addr s = a then s # n # ss else s # link_after a n ss)"

text \<open>From the label \<open>endfast\<close> on: a new segment between \<open>p\<close> and \<open>q\<close>.\<close>

definition rq_insert :: "nat option \<Rightarrow> nat option \<Rightarrow> int \<Rightarrow> int \<Rightarrow> int \<Rightarrow> int \<Rightarrow> int \<Rightarrow> bool \<Rightarrow> rqueue
    \<Rightarrow> (int \<times> rqueue) option" where
  "rq_insert p q start e tiflags rqflags initcnt needmerge Q =
     (if (case p of None \<Rightarrow> head_of (rq_fifo Q) | Some a \<Rightarrow> next_of a (rq_fifo Q)) \<noteq> q then None
      else let a = rq_fresh Q;
               n = \<lparr>sg_addr = a, sg_start = start, sg_end = e, sg_pflags = tiflags,
                    sg_rqflags = rqflags, sg_cnt = initcnt\<rparr>;
               Q1 = rq_push a (Q\<lparr>rq_fresh := Suc a,
                      rq_fifo := (case p of None \<Rightarrow> n # rq_fifo Q | Some b \<Rightarrow> link_after b n (rq_fifo Q))\<rparr>);
               Q2 = Q1\<lparr>rq_total := i32 (rq_total Q1 + (e - start))\<rparr>
           in if needmerge then coalesce p a q Q2
              else Some (tiflags, if rq_rcv_nxt Q2 \<ge> start then Q2\<lparr>rq_rcv_nxt := e\<rparr> else Q2))"

text \<open>The loop over the segments from \<open>p\<close> to \<open>q\<close>: it returns at an exact overlap (\<open>Inl\<close>).\<close>

fun kill :: "int \<Rightarrow> int \<Rightarrow> seginfo list \<Rightarrow> int \<Rightarrow> int \<Rightarrow> bool \<Rightarrow> rqueue
    \<Rightarrow> (int \<times> rqueue) + (int \<times> int \<times> bool \<times> rqueue)" where
  "kill start e [] tiflags initcnt altered Q = Inr (tiflags, initcnt, altered, Q)"
| "kill start e (r # rs) tiflags initcnt altered Q =
     (if start = sg_start r \<and> e = sg_end r
      then Inl (sg_pflags r OR tiflags,
                upd_seg (sg_addr r) (\<lambda>s. s\<lparr>sg_pflags := sg_pflags r OR tiflags\<rparr>) Q)
      else if start \<le> sg_start r \<and> e \<ge> sg_end r
      then kill start e rs (tiflags OR sg_pflags r) (i32 (initcnt + sg_cnt r)) True
             (sremove (sg_addr r) (fremove (sg_addr r)
               (Q\<lparr>rq_total := i32 (rq_total Q - (sg_end r - sg_start r))\<rparr>)))
      else kill start e rs tiflags initcnt altered Q)"

text \<open>The segments before and after the new one, and the range that the loop visits.\<close>

definition seg_before :: "int \<Rightarrow> seginfo list \<Rightarrow> nat option" where
  "seg_before start ss = map_option sg_addr (List.find (\<lambda>s. \<not> sg_end s > start) (rev ss))"

definition seg_after :: "int \<Rightarrow> seginfo list \<Rightarrow> nat option" where
  "seg_after e ss = map_option sg_addr (List.find (\<lambda>s. \<not> sg_start s < e) ss)"

definition seg_range :: "nat option \<Rightarrow> nat option \<Rightarrow> seginfo list \<Rightarrow> seginfo list" where
  "seg_range p q ss =
     takeWhile (\<lambda>s. Some (sg_addr s) \<noteq> q)
       (case p of None \<Rightarrow> ss | Some a \<Rightarrow> dropWhile (\<lambda>s. sg_addr s \<noteq> a) ss)"

text \<open>The merge with a segment that overlaps on the left: start, the neighbour and the queue after it.\<close>

definition merge_left :: "nat option \<Rightarrow> int \<Rightarrow> int \<Rightarrow> int \<Rightarrow> rqueue
    \<Rightarrow> (nat option \<times> int \<times> int \<times> bool \<times> rqueue) option" where
  "merge_left p start tiflags initcnt Q =
     (case (case p of None \<Rightarrow> head_of (rq_fifo Q) | Some a \<Rightarrow> next_of a (rq_fifo Q)) of
       None \<Rightarrow> None
     | Some b \<Rightarrow> (case seg_at b (rq_fifo Q) of
           None \<Rightarrow> None
         | Some l \<Rightarrow>
             if p = None \<or> sg_start l < start
             then let l' = (if start < sg_start l then l\<lparr>sg_start := start\<rparr> else l);
                      Q1 = (if start < sg_start l
                            then Q\<lparr>rq_total := i32 (rq_total Q + (sg_start l - start))\<rparr> else Q)
                  in Some (Some b, sg_end l, i32 (initcnt - 1), True,
                       upd_seg b (\<lambda>s. l'\<lparr>sg_pflags := sg_pflags l OR tiflags,
                                        sg_cnt := i32 (sg_cnt l + 1)\<rparr>) Q1)
             else Some (p, start, initcnt, False, Q)))"

definition merge_right :: "nat option \<Rightarrow> int \<Rightarrow> int \<Rightarrow> bool \<Rightarrow> rqueue
    \<Rightarrow> (nat option \<times> int \<times> bool \<times> rqueue) option" where
  "merge_right q e tiflags needmerge Q =
     (case (case q of None \<Rightarrow> tail_of (rq_fifo Q) | Some a \<Rightarrow> prev_of a (rq_fifo Q)) of
       None \<Rightarrow> None
     | Some b \<Rightarrow> (case seg_at b (rq_fifo Q) of
           None \<Rightarrow> None
         | Some r \<Rightarrow>
             if q = None \<or> sg_end r > e
             then let r' = (if e > sg_end r then r\<lparr>sg_end := e\<rparr> else r);
                      Q1 = (if e > sg_end r
                            then Q\<lparr>rq_total := i32 (rq_total Q + (e - sg_end r))\<rparr> else Q)
                  in Some (Some b, sg_start r, True,
                       upd_seg b (\<lambda>s. r'\<lparr>sg_pflags := sg_pflags r OR tiflags\<rparr>) Q1)
             else Some (q, e, needmerge, Q)))"

definition rq_merge :: "nat option \<Rightarrow> nat option \<Rightarrow> int \<Rightarrow> int \<Rightarrow> int \<Rightarrow> int \<Rightarrow> int \<Rightarrow> rqueue
    \<Rightarrow> (int \<times> rqueue) option" where
  "rq_merge p q start e tiflags rqflags initcnt Q =
     (case merge_left p start tiflags initcnt Q of
       None \<Rightarrow> None
     | Some (p1, start1, initcnt1, needmerge1, Q1) \<Rightarrow> (case merge_right q e tiflags needmerge1 Q1 of
           None \<Rightarrow> None
         | Some (q1, e1, needmerge2, Q2) \<Rightarrow>
             if e1 \<le> start1
             then (case rq_fifo Q2 of
                 [] \<Rightarrow> None
               | h # _ \<Rightarrow>
                   Some (tiflags, if rq_rcv_nxt Q2 \<ge> sg_start h then Q2\<lparr>rq_rcv_nxt := sg_end h\<rparr> else Q2))
             else let adjacent = (\<not> needmerge2 \<and> Option.bind p1 (\<lambda>a. next_of a (rq_fifo Q2)) = q1 \<and>
                        (case (Option.bind p1 (\<lambda>a. seg_at a (rq_fifo Q2)),
                               Option.bind q1 (\<lambda>a. seg_at a (rq_fifo Q2))) of
                          (Some ps, Some qs) \<Rightarrow> sg_end ps \<le> start1 \<and> sg_start qs \<ge> e1
                            \<and> (sg_end ps = start1 \<or> sg_start qs = e1)
                        | _ \<Rightarrow> False))
                  in rq_insert p1 q1 start1 e1 tiflags rqflags initcnt1 (needmerge2 \<or> adjacent) Q2))"

lemma kill_shorter:
  "kill start e rs f c alt Q = Inr (f1, c1, alt1, Q1) \<Longrightarrow>
     length (rq_fifo Q1) \<le> length (rq_fifo Q)
     \<and> (set rs \<subseteq> set (rq_fifo Q) \<longrightarrow> alt1 \<longrightarrow> alt \<or> length (rq_fifo Q1) < length (rq_fifo Q))"
proof (induction start e rs f c alt Q arbitrary: f1 c1 alt1 Q1 rule: kill.induct)
  case (2 start e r rs f c alt Q)
  let ?Q = "sremove (sg_addr r) (fremove (sg_addr r)
               (Q\<lparr>rq_total := i32 (rq_total Q - (sg_end r - sg_start r))\<rparr>))"
  have le: "length (rq_fifo ?Q) \<le> length (rq_fifo Q)"
    by (simp add: fremove_def sremove_def)
  have lt: "r \<in> set (rq_fifo Q) \<Longrightarrow> length (rq_fifo ?Q) < length (rq_fifo Q)"
    by (simp add: fremove_def sremove_def) (metis (mono_tags, lifting) length_filter_less)
  show ?case
  proof (cases "start \<le> sg_start r \<and> e \<ge> sg_end r \<and> \<not> (start = sg_start r \<and> e = sg_end r)")
    case True
    have "length (rq_fifo Q1) \<le> length (rq_fifo ?Q)"
      using True "2.prems" "2.IH"(1) by auto
    with le lt show ?thesis
      by (auto simp: less_le_trans)
  next
    case False
    then show ?thesis
      using "2.prems" "2.IH"(2) by (auto split: if_splits)
  qed
qed simp

lemma seg_range_subset: "set (seg_range p q ss) \<subseteq> set ss"
  by (auto simp: seg_range_def split: option.splits dest: set_takeWhileD set_dropWhileD)

text \<open>From the label \<open>again2\<close> on.\<close>

function rq_again :: "int \<Rightarrow> int \<Rightarrow> int \<Rightarrow> int \<Rightarrow> int \<Rightarrow> rqueue \<Rightarrow> (int \<times> rqueue) option" where
  "rq_again start e tiflags rqflags initcnt Q = (case rq_fifo Q of
       [] \<Rightarrow> None
     | h # _ \<Rightarrow>
         let t = last (rq_fifo Q)
         in if start \<ge> sg_end t
            then rq_insert (Some (sg_addr t)) None start e tiflags rqflags initcnt (start = sg_end t) Q
            else if e \<le> sg_start h
            then rq_insert None (Some (sg_addr h)) start e tiflags rqflags initcnt (e = sg_start h) Q
            else let q = seg_after e (rq_fifo Q); p = seg_before start (rq_fifo Q)
                 in case kill start e (seg_range p q (rq_fifo Q)) tiflags initcnt False Q of
                      Inl res \<Rightarrow> Some res
                    | Inr (tiflags1, initcnt1, altered, Q1) \<Rightarrow>
                        if rq_empty Q1
                        then (if p = None \<and> q = None
                              then rq_insert None None start e tiflags1 rqflags initcnt1 False Q1 else None)
                        else if altered then rq_again start e tiflags1 rqflags initcnt1 Q1
                        else rq_merge p q start e tiflags1 rqflags initcnt1 Q1)"
  by pat_completeness auto
termination
proof (relation "measure (\<lambda>(s, e, f, r, c, Q). length (rq_fifo Q))", goal_cases)
  case (2 start e f r c Q h ss t q p res x1 y1 x2 altered Q1)
  then show ?case
    using kill_shorter [of start e "seg_range p q (rq_fifo Q)" f c False Q] seg_range_subset by fastforce
qed simp

declare rq_again.simps [simp del]

definition rq_add :: "int \<Rightarrow> int \<Rightarrow> int \<Rightarrow> int \<Rightarrow> rqueue \<Rightarrow> (int \<times> rqueue) option" where
  "rq_add start e tiflags rqflags Q =
     (if e < start then None
      else if rq_fifo Q = []
      then (if rq_lifo Q \<noteq> [] then None
            else let a = rq_fresh Q
                 in Some (tiflags, Q\<lparr>rq_fresh := Suc a, rq_lifo := [a],
                      rq_fifo := [\<lparr>sg_addr = a, sg_start = start, sg_end = e, sg_pflags = tiflags,
                                   sg_rqflags = rqflags, sg_cnt = 1\<rparr>],
                      rq_total := i32 (e - start),
                      rq_rcv_nxt := (if rq_rcv_nxt Q \<ge> start then e else rq_rcv_nxt Q)\<rparr>))
      else rq_again start e tiflags rqflags 1 Q)"

section \<open>What the queue means\<close>

definition seg_len :: "seginfo \<Rightarrow> int" where
  "seg_len s = sg_end s - sg_start s"

definition covers :: "seginfo list \<Rightarrow> int set" where
  "covers ss = (\<Union>s\<in>set ss. {sg_start s..<sg_end s})"

definition segs_ok :: "seginfo list \<Rightarrow> bool" where
  "segs_ok ss \<longleftrightarrow> sorted_wrt (\<lambda>s t. sg_end s < sg_start t) ss \<and> (\<forall>s\<in>set ss. sg_start s < sg_end s)
     \<and> distinct (map sg_addr ss)"

definition rq_ok :: "rqueue \<Rightarrow> bool" where
  "rq_ok Q \<longleftrightarrow> segs_ok (rq_fifo Q) \<and> distinct (rq_lifo Q)
     \<and> set (rq_lifo Q) = sg_addr ` set (rq_fifo Q) \<and> (\<forall>a\<in>set (rq_lifo Q). a < rq_fresh Q)
     \<and> rq_total Q = i32 (sum_list (map seg_len (rq_fifo Q)))"

lemma covers_simps [simp]:
  "covers [] = {}"
  "covers (s # ss) = {sg_start s..<sg_end s} \<union> covers ss"
  "covers (ss @ ts) = covers ss \<union> covers ts"
  by (auto simp: covers_def)

lemma i32_add: "i32 (i32 a + b) = i32 (a + b)" "i32 (b + i32 a) = i32 (b + a)" "i32 (i32 a - b) = i32 (a - b)"
  by (simp_all add: i32_def) (simp_all add: mod_simps algebra_simps)

lemma upd_absent [simp]:
  "a \<notin> sg_addr ` set X \<Longrightarrow> map (\<lambda>s. if sg_addr s = a then f s else s) X = X"
  by (induction X) auto

lemma rem_absent [simp]: "a \<notin> sg_addr ` set X \<Longrightarrow> filter (\<lambda>s. sg_addr s \<noteq> a) X = X"
  by (induction X) auto

lemma seg_at_append: "seg_at a (X @ Y) = (case seg_at a X of None \<Rightarrow> seg_at a Y | Some s \<Rightarrow> Some s)"
  by (induction X) auto

lemma seg_at_absent [simp]: "a \<notin> sg_addr ` set X \<Longrightarrow> seg_at a X = None"
  by (induction X) auto

lemma seg_at_mid: "distinct (map sg_addr (X @ r # Y)) \<Longrightarrow> seg_at (sg_addr r) (X @ r # Y) = Some r"
  by (induction X) auto

lemma seg_at_in: "distinct (map sg_addr ss) \<Longrightarrow> s \<in> set ss \<Longrightarrow> seg_at (sg_addr s) ss = Some s"
  by (metis seg_at_mid split_list)

lemma next_mid: "distinct (map sg_addr (X @ r # t # Y)) \<Longrightarrow> next_of (sg_addr r) (X @ r # t # Y) = Some (sg_addr t)"
  by (induction X rule: induct_list012) auto

lemma next_last: "distinct (map sg_addr (X @ [r])) \<Longrightarrow> next_of (sg_addr r) (X @ [r]) = None"
  by (induction X rule: induct_list012) auto

lemma prev_mid: "distinct (map sg_addr (X @ r # t # Y)) \<Longrightarrow> prev_of (sg_addr t) (X @ r # t # Y) = Some (sg_addr r)"
  by (induction X rule: induct_list012) auto

lemma link_after_mid: "distinct (map sg_addr (X @ r # Y)) \<Longrightarrow> link_after (sg_addr r) n (X @ r # Y) = X @ r # n # Y"
  by (induction X) auto

lemma segs_ok_append:
  "segs_ok (ss @ ts) \<longleftrightarrow> segs_ok ss \<and> segs_ok ts \<and> (\<forall>s\<in>set ss. \<forall>t\<in>set ts. sg_end s < sg_start t)
     \<and> sg_addr ` set ss \<inter> sg_addr ` set ts = {}"
  by (auto simp: segs_ok_def sorted_wrt_append)

lemma segs_ok_Cons:
  "segs_ok (s # ts) \<longleftrightarrow> sg_start s < sg_end s \<and> segs_ok ts \<and> (\<forall>t\<in>set ts. sg_end s < sg_start t)
     \<and> sg_addr s \<notin> sg_addr ` set ts"
  by (auto simp: segs_ok_def)

lemma segs_ok_Nil [simp]: "segs_ok []"
  by (simp add: segs_ok_def)

lemma segs_ok_addr: "segs_ok ss \<Longrightarrow> distinct (map sg_addr ss)"
  by (simp add: segs_ok_def)

text \<open>The segments are the maximal runs of what is covered.\<close>

lemma one_segment:
  assumes "segs_ok ss" "{a..<b} \<subseteq> covers ss" "a < b"
  shows "\<exists>r\<in>set ss. sg_start r \<le> a \<and> b \<le> sg_end r"
proof -
  from assms have "a \<in> covers ss"
    by auto
  then obtain r where r: "r \<in> set ss" "sg_start r \<le> a" "a < sg_end r"
    by (auto simp: covers_def)
  show ?thesis
  proof (cases "b \<le> sg_end r")
    case False
    with r assms have "sg_end r \<in> covers ss"
      by auto
    then obtain t where t: "t \<in> set ss" "sg_start t \<le> sg_end r" "sg_end r < sg_end t"
      by (auto simp: covers_def)
    then have "r \<noteq> t"
      by auto
    from split_list [OF r(1)] obtain X Y where "ss = X @ r # Y"
      by blast
    with assms(1) t \<open>r \<noteq> t\<close> r show ?thesis
      by (auto simp: segs_ok_append segs_ok_Cons)
  qed (use r in blast)
qed

lemma same_segment:
  assumes "segs_ok ss" "r \<in> set ss" "t \<in> set ss" "sg_start r \<le> x" "x < sg_end r" "sg_start t \<le> x" "x < sg_end t"
  shows "r = t"
proof (rule ccontr)
  assume "r \<noteq> t"
  from split_list [OF assms(2)] obtain X Y where "ss = X @ r # Y"
    by blast
  with assms \<open>r \<noteq> t\<close> show False
    by (auto simp: segs_ok_append segs_ok_Cons)
qed

end
