(* ===== verification/Reassembly_Add.thy ===== *)
theory Reassembly_Add
  imports Reassembly
begin

text \<open>
  What the operations of the reassembly queue do: every one keeps the queue well formed, and \<open>add\<close>
  returns, adds exactly the bytes of its segment and moves \<open>rcv_nxt\<close> over the block that holds them.
\<close>

unbundle bit_operations_syntax

section \<open>Joining neighbours\<close>

text \<open>
  The segment that holds \<open>x\<close> afterwards decides whether \<open>rcv_nxt\<close> moves, and it moves to its end.
\<close>

definition moves :: "int \<Rightarrow> rqueue \<Rightarrow> rqueue \<Rightarrow> bool" where
  "moves x Q Q' \<longleftrightarrow> (\<forall>r\<in>set (rq_fifo Q'). sg_start r \<le> x \<and> x < sg_end r \<longrightarrow>
     rq_rcv_nxt Q' = (if sg_start r \<le> rq_rcv_nxt Q then sg_end r else rq_rcv_nxt Q))"

lemma movesI:
  assumes "segs_ok (rq_fifo Q')" "r \<in> set (rq_fifo Q')" "sg_start r \<le> x" "x < sg_end r"
    "rq_rcv_nxt Q' = (if sg_start r \<le> rq_rcv_nxt Q then sg_end r else rq_rcv_nxt Q)"
  shows "moves x Q Q'"
  using assms same_segment unfolding moves_def by blast

text \<open>A new segment \<open>n\<close> has been linked between \<open>X\<close> and \<open>Y\<close>, which it may touch.\<close>

definition new_linked :: "seginfo list \<Rightarrow> seginfo \<Rightarrow> seginfo list \<Rightarrow> rqueue \<Rightarrow> bool" where
  "new_linked X n Y Q \<longleftrightarrow> rq_fifo Q = X @ n # Y \<and> segs_ok (X @ Y) \<and> sg_addr n \<notin> sg_addr ` set (X @ Y)
     \<and> sg_start n < sg_end n \<and> (\<forall>x\<in>set X. sg_end x \<le> sg_start n) \<and> (\<forall>y\<in>set Y. sg_end n \<le> sg_start y)
     \<and> distinct (rq_lifo Q) \<and> set (rq_lifo Q) = sg_addr ` set (rq_fifo Q)
     \<and> (\<forall>a\<in>set (rq_lifo Q). a < rq_fresh Q)
     \<and> rq_total Q = i32 (sum_list (map seg_len (rq_fifo Q)))"

lemma rq_ok_join:
  assumes "new_linked X n Y Q" "segs_ok ss" "sg_addr ` set ss = sg_addr ` set (rq_fifo Q) - D"
    "sum_list (map seg_len ss) = sum_list (map seg_len (rq_fifo Q))"
  shows "rq_ok (Q\<lparr>rq_fifo := ss, rq_lifo := filter (\<lambda>a. a \<notin> D) (rq_lifo Q), rq_rcv_nxt := v\<rparr>)"
  using assms by (auto simp: rq_ok_def new_linked_def)

lemma coalesce_both:
  assumes L: "new_linked (X @ [p]) n (q # Y) Q" and j: "sg_end p = sg_start n" "sg_end n = sg_start q"
  shows "\<exists>f Q'. coalesce (Some (sg_addr p)) (sg_addr n) (Some (sg_addr q)) Q = Some (f, Q')
     \<and> rq_ok Q' \<and> covers (rq_fifo Q') = covers (rq_fifo Q) \<and> moves (sg_start n) Q Q'"
proof -
  have F: "rq_fifo Q = X @ p # n # q # Y"
    using L by (simp add: new_linked_def)
  have ok: "segs_ok (X @ p # q # Y)"
    using L by (simp add: new_linked_def)
  have d: "sg_addr p \<noteq> sg_addr n" "sg_addr q \<noteq> sg_addr n" "sg_addr p \<noteq> sg_addr q" "sg_addr q \<noteq> sg_addr p"
    "sg_addr n \<notin> sg_addr ` set X" "sg_addr n \<notin> sg_addr ` set Y" "sg_addr p \<notin> sg_addr ` set X"
    "sg_addr p \<notin> sg_addr ` set Y" "sg_addr q \<notin> sg_addr ` set X" "sg_addr q \<notin> sg_addr ` set Y"
    using L ok by (auto simp: new_linked_def segs_ok_append segs_ok_Cons)
  define p' where "p' = p\<lparr>sg_end := sg_end q, sg_cnt := i32 (sg_cnt p + (sg_cnt n + sg_cnt q)),
                          sg_pflags := sg_pflags p OR sg_pflags n\<rparr>"
  have p': "sg_addr p' = sg_addr p" "sg_start p' = sg_start p" "sg_end p' = sg_end q"
    by (simp_all add: p'_def)
  define v where "v = (if sg_start p \<le> rq_rcv_nxt Q then sg_end q else rq_rcv_nxt Q)"
  define Q' where "Q' = Q\<lparr>rq_fifo := X @ p' # Y,
     rq_lifo := filter (\<lambda>a. a \<notin> {sg_addr n, sg_addr q}) (rq_lifo Q), rq_rcv_nxt := v\<rparr>"
  have ok': "segs_ok (X @ p' # Y)"
    using ok by (auto simp: segs_ok_append segs_ok_Cons p')
  have at: "seg_at (sg_addr n) (rq_fifo Q) = Some n" "seg_at (sg_addr p) (rq_fifo Q) = Some p"
    "seg_at (sg_addr q) (rq_fifo Q) = Some q"
    using d by (simp_all add: F seg_at_append)
  define Q1 where "Q1 = fremove (sg_addr q) (sremove (sg_addr q) (fremove (sg_addr n) (sremove (sg_addr n) Q)))"
  have F1: "rq_fifo Q1 = X @ p # Y"
    using d by (simp add: Q1_def fremove_def sremove_def F)
  have Q2: "upd_seg (sg_addr p) (\<lambda>s. s\<lparr>sg_end := sg_end q,
      sg_cnt := i32 (sg_cnt p + (sg_cnt n + sg_cnt q)), sg_pflags := sg_pflags p OR sg_pflags n\<rparr>) Q1
    = Q1\<lparr>rq_fifo := X @ p' # Y\<rparr>"
    using d by (simp add: upd_seg_def F1 p'_def)
  have at': "seg_at (sg_addr p) (X @ p' # Y) = Some p'"
    using d by (simp add: seg_at_append p')
  have "coalesce (Some (sg_addr p)) (sg_addr n) (Some (sg_addr q)) Q = Some (sg_pflags p OR sg_pflags n, Q')"
    unfolding coalesce_def at Let_def Q1_def [symmetric]
    apply (simp add: at j)
    apply (simp only: Q1_def [symmetric] Q2)
    apply (simp add: at' p')
    apply (simp add: Q'_def v_def Q1_def fremove_def sremove_def conj_commute)
    done
  moreover have "rq_ok Q'"
    unfolding Q'_def by (rule rq_ok_join [OF L ok']) (use d j in \<open>auto simp: F p' seg_len_def intro: rev_image_eqI\<close>)
  moreover have "covers (rq_fifo Q') = covers (rq_fifo Q)"
    using L j by (auto simp: Q'_def F p' new_linked_def segs_ok_append segs_ok_Cons)
  moreover have "moves (sg_start n) Q Q'"
    by (rule movesI [of _ p'])
      (use L ok' j in \<open>auto simp: Q'_def v_def p' new_linked_def segs_ok_append segs_ok_Cons\<close>)
  ultimately show ?thesis
    by blast
qed

lemma coalesce_left:
  assumes L: "new_linked (X @ [p]) n Y Q" and j: "sg_end p = sg_start n" "\<forall>y\<in>set Y. sg_end n \<noteq> sg_start y"
  shows "\<exists>f Q'. coalesce (Some (sg_addr p)) (sg_addr n) (head_of Y) Q = Some (f, Q')
     \<and> rq_ok Q' \<and> covers (rq_fifo Q') = covers (rq_fifo Q) \<and> moves (sg_start n) Q Q'"
proof -
  have F: "rq_fifo Q = X @ p # n # Y"
    using L by (simp add: new_linked_def)
  have ok: "segs_ok (X @ p # Y)"
    using L by (simp add: new_linked_def)
  have d: "sg_addr p \<noteq> sg_addr n" "sg_addr n \<notin> sg_addr ` set X" "sg_addr n \<notin> sg_addr ` set Y"
    "sg_addr p \<notin> sg_addr ` set X" "sg_addr p \<notin> sg_addr ` set Y"
    using L ok by (auto simp: new_linked_def segs_ok_append segs_ok_Cons)
  define p' where "p' = p\<lparr>sg_end := sg_end n, sg_pflags := sg_pflags p OR sg_pflags n,
                          sg_cnt := i32 (sg_cnt p + sg_cnt n)\<rparr>"
  have p': "sg_addr p' = sg_addr p" "sg_start p' = sg_start p" "sg_end p' = sg_end n"
    by (simp_all add: p'_def)
  define v where "v = (if sg_start p \<le> rq_rcv_nxt Q then sg_end n else rq_rcv_nxt Q)"
  define Q' where "Q' = Q\<lparr>rq_fifo := X @ p' # Y,
     rq_lifo := filter (\<lambda>a. a \<notin> {sg_addr n}) (rq_lifo Q), rq_rcv_nxt := v\<rparr>"
  have nj: "\<forall>x\<in>set (X @ [p]). \<forall>y\<in>set Y. sg_end x < sg_start y" "\<forall>y\<in>set Y. sg_end n < sg_start y"
    "\<forall>x\<in>set X. sg_end x < sg_start p" "sg_start p < sg_end p" "sg_start n < sg_end n"
    using L j by (auto simp: new_linked_def segs_ok_append segs_ok_Cons order.strict_iff_order)
  have ok': "segs_ok (X @ p' # Y)"
    using ok nj j by (auto simp: segs_ok_append segs_ok_Cons p')
  have at: "seg_at (sg_addr n) (rq_fifo Q) = Some n" "seg_at (sg_addr p) (rq_fifo Q) = Some p"
    using d by (simp_all add: F seg_at_append)
  have nq: "(case Option.bind (head_of Y) (\<lambda>a. seg_at a (rq_fifo Q)) of
      None \<Rightarrow> False | Some q \<Rightarrow> sg_end n = sg_start q) = False"
  proof (cases Y)
    case (Cons q Y0)
    have "seg_at (sg_addr q) (rq_fifo Q) = Some q"
      using ok d by (intro seg_at_in) (auto simp: F Cons segs_ok_append segs_ok_Cons segs_ok_addr)
    then show ?thesis
      using j(2) by (simp add: Cons head_of_def)
  qed (simp add: head_of_def)
  define Q1 where "Q1 = fremove (sg_addr n) (sremove (sg_addr n) Q)"
  have F1: "rq_fifo Q1 = X @ p # Y"
    using d by (simp add: Q1_def fremove_def sremove_def F)
  have Q2: "upd_seg (sg_addr p) (\<lambda>s. s\<lparr>sg_end := sg_end n, sg_pflags := sg_pflags p OR sg_pflags n,
      sg_cnt := i32 (sg_cnt p + sg_cnt n)\<rparr>) Q1 = Q1\<lparr>rq_fifo := X @ p' # Y\<rparr>"
    using d by (simp add: upd_seg_def F1 p'_def)
  have at': "seg_at (sg_addr p) (X @ p' # Y) = Some p'"
    using d by (simp add: seg_at_append p')
  have "coalesce (Some (sg_addr p)) (sg_addr n) (head_of Y) Q = Some (sg_pflags p OR sg_pflags n, Q')"
    unfolding coalesce_def at Let_def Q1_def [symmetric]
    apply (simp add: at j nq)
    apply (simp only: Q1_def [symmetric] Q2)
    apply (simp add: at' p')
    apply (simp add: Q'_def v_def Q1_def fremove_def sremove_def)
    done
  moreover have "rq_ok Q'"
    unfolding Q'_def
    by (rule rq_ok_join [OF L ok']) (use d j in \<open>auto simp: F p' seg_len_def intro: rev_image_eqI\<close>)
  moreover have "covers (rq_fifo Q') = covers (rq_fifo Q)"
    using nj j by (auto simp: Q'_def F p')
  moreover have "moves (sg_start n) Q Q'"
    by (rule movesI [of _ p']) (use nj ok' j in \<open>auto simp: Q'_def v_def p'\<close>)
  ultimately show ?thesis
    by blast
qed

lemma coalesce_right:
  assumes L: "new_linked X n (q # Y) Q" and j: "sg_end n = sg_start q" "\<forall>x\<in>set X. sg_end x \<noteq> sg_start n"
  shows "\<exists>f Q'. coalesce (tail_of X) (sg_addr n) (Some (sg_addr q)) Q = Some (f, Q')
     \<and> rq_ok Q' \<and> covers (rq_fifo Q') = covers (rq_fifo Q) \<and> moves (sg_start n) Q Q'"
proof -
  have F: "rq_fifo Q = X @ n # q # Y"
    using L by (simp add: new_linked_def)
  have ok: "segs_ok (X @ q # Y)"
    using L by (simp add: new_linked_def)
  have d: "sg_addr q \<noteq> sg_addr n" "sg_addr n \<notin> sg_addr ` set X" "sg_addr n \<notin> sg_addr ` set Y"
    "sg_addr q \<notin> sg_addr ` set X" "sg_addr q \<notin> sg_addr ` set Y"
    using L ok by (auto simp: new_linked_def segs_ok_append segs_ok_Cons)
  define q' where "q' = q\<lparr>sg_start := sg_start n, sg_pflags := sg_pflags q OR sg_pflags n,
                          sg_cnt := i32 (sg_cnt q + sg_cnt n)\<rparr>"
  have q': "sg_addr q' = sg_addr q" "sg_start q' = sg_start n" "sg_end q' = sg_end q"
    by (simp_all add: q'_def)
  define v where "v = (if sg_start n \<le> rq_rcv_nxt Q then sg_end q else rq_rcv_nxt Q)"
  define Q' where "Q' = Q\<lparr>rq_fifo := X @ q' # Y,
     rq_lifo := filter (\<lambda>a. a \<notin> {sg_addr n}) (rq_lifo Q), rq_rcv_nxt := v\<rparr>"
  have nj: "\<forall>x\<in>set X. sg_end x < sg_start n" "sg_start q < sg_end q" "sg_start n < sg_end n"
    using L j by (auto simp: new_linked_def segs_ok_append segs_ok_Cons order.strict_iff_order)
  have ok': "segs_ok (X @ q' # Y)"
    using ok nj j by (auto simp: segs_ok_append segs_ok_Cons q')
  have at: "seg_at (sg_addr n) (rq_fifo Q) = Some n" "seg_at (sg_addr q) (rq_fifo Q) = Some q"
    using d by (simp_all add: F seg_at_append)
  have np: "(case Option.bind (tail_of X) (\<lambda>a. seg_at a (rq_fifo Q)) of
      None \<Rightarrow> False | Some p \<Rightarrow> sg_end p = sg_start n) = False"
  proof (cases "X = []")
    case False
    have "seg_at (sg_addr (last X)) (rq_fifo Q) = Some (last X)"
      using ok d False by (intro seg_at_in) (auto simp: F segs_ok_append segs_ok_Cons segs_ok_addr)
    then show ?thesis
      using j(2) False by (simp add: tail_of_def)
  qed (simp add: tail_of_def)
  define Q1 where "Q1 = fremove (sg_addr n) (sremove (sg_addr n) Q)"
  have F1: "rq_fifo Q1 = X @ q # Y"
    using d by (simp add: Q1_def fremove_def sremove_def F)
  have Q2: "upd_seg (sg_addr q) (\<lambda>s. s\<lparr>sg_start := sg_start n, sg_pflags := sg_pflags q OR sg_pflags n,
      sg_cnt := i32 (sg_cnt q + sg_cnt n)\<rparr>) Q1 = Q1\<lparr>rq_fifo := X @ q' # Y\<rparr>"
    using d by (simp add: upd_seg_def F1 q'_def)
  have at': "seg_at (sg_addr q) (X @ q' # Y) = Some q'"
    using d by (simp add: seg_at_append q')
  have "coalesce (tail_of X) (sg_addr n) (Some (sg_addr q)) Q = Some (sg_pflags q OR sg_pflags n, Q')"
    unfolding coalesce_def at Let_def Q1_def [symmetric]
    apply (simp add: at j np)
    apply (simp only: Q1_def [symmetric] Q2)
    apply (simp add: at' q')
    apply (simp add: Q'_def v_def Q1_def fremove_def sremove_def)
    done
  moreover have "rq_ok Q'"
    unfolding Q'_def
    by (rule rq_ok_join [OF L ok']) (use d j in \<open>auto simp: F q' seg_len_def intro: rev_image_eqI\<close>)
  moreover have "covers (rq_fifo Q') = covers (rq_fifo Q)"
    using nj j by (auto simp: Q'_def F q')
  moreover have "moves (sg_start n) Q Q'"
    by (rule movesI [of _ q']) (use nj ok' j in \<open>auto simp: Q'_def v_def q'\<close>)
  ultimately show ?thesis
    by blast
qed

text \<open>Inserting where nothing overlaps.\<close>

lemma next_at:
  assumes "distinct (map sg_addr (X @ Y))"
  shows "(case tail_of X of None \<Rightarrow> head_of (X @ Y) | Some a \<Rightarrow> next_of a (X @ Y)) = head_of Y"
proof (cases X rule: rev_cases)
  case (snoc X0 p)
  then show ?thesis
    using assms next_mid [of X0 p] next_last [of X0 p] by (cases Y) (auto simp: tail_of_def head_of_def)
qed (simp add: tail_of_def head_of_def)

lemma link_at:
  assumes "distinct (map sg_addr (X @ Y))"
  shows "(case tail_of X of None \<Rightarrow> n # (X @ Y) | Some b \<Rightarrow> link_after b n (X @ Y)) = X @ n # Y"
proof (cases X rule: rev_cases)
  case (snoc X0 p)
  then show ?thesis
    using assms link_after_mid [of X0 p Y n] by (auto simp: tail_of_def)
qed (simp add: tail_of_def)

lemma insert_ok:
  assumes ok: "rq_ok Q" and F: "rq_fifo Q = X @ Y" and se: "start < e"
    and X: "\<forall>x\<in>set X. sg_end x \<le> start" and Y: "\<forall>y\<in>set Y. e \<le> sg_start y"
    and m: "needmerge \<longleftrightarrow> X \<noteq> [] \<and> sg_end (last X) = start \<or> Y \<noteq> [] \<and> e = sg_start (hd Y)"
  shows "\<exists>f Q'. rq_insert (tail_of X) (head_of Y) start e tiflags rqflags initcnt needmerge Q = Some (f, Q')
     \<and> rq_ok Q' \<and> covers (rq_fifo Q') = covers (rq_fifo Q) \<union> {start..<e} \<and> moves start Q Q'"
proof -
  define n where "n = \<lparr>sg_addr = rq_fresh Q, sg_start = start, sg_end = e, sg_pflags = tiflags,
                       sg_rqflags = rqflags, sg_cnt = initcnt\<rparr>"
  have n: "sg_addr n = rq_fresh Q" "sg_start n = start" "sg_end n = e"
    by (simp_all add: n_def)
  define Q2 where "Q2 = Q\<lparr>rq_fresh := Suc (rq_fresh Q), rq_fifo := X @ n # Y,
     rq_lifo := rq_fresh Q # rq_lifo Q, rq_total := i32 (rq_total Q + (e - start))\<rparr>"
  have so: "segs_ok (X @ Y)" and fr: "\<forall>a\<in>sg_addr ` set (X @ Y). a < rq_fresh Q"
    using ok by (auto simp: rq_ok_def F)
  have d: "distinct (map sg_addr (X @ Y))"
    by (rule segs_ok_addr [OF so])
  have eq: "rq_insert (tail_of X) (head_of Y) start e tiflags rqflags initcnt needmerge Q =
    (if needmerge then coalesce (tail_of X) (sg_addr n) (head_of Y) Q2
     else Some (tiflags, if rq_rcv_nxt Q \<ge> start then Q2\<lparr>rq_rcv_nxt := e\<rparr> else Q2))"
    unfolding rq_insert_def F next_at [OF d] link_at [OF d] Let_def n(1)
    by (simp add: rq_push_def Q2_def n_def)
  have L: "new_linked X n Y Q2"
    unfolding new_linked_def
  proof (intro conjI)
    show "rq_total Q2 = i32 (sum_list (map seg_len (rq_fifo Q2)))"
      using ok i32_add(1) [of "sum_list (map seg_len (X @ Y))" "e - start"]
      by (simp add: Q2_def rq_ok_def F n seg_len_def algebra_simps)
  qed (use ok so fr X Y se in \<open>auto simp: Q2_def rq_ok_def F n intro: less_SucI\<close>)
  have cov: "covers (rq_fifo Q2) = covers (rq_fifo Q) \<union> {start..<e}"
    by (auto simp: Q2_def F n)
  have mv: "moves start Q2 Q' = moves start Q Q'" for Q'
    by (simp add: moves_def Q2_def)
  have last: "sg_end x < start" if "x \<in> set X" "X = [] \<or> sg_end (last X) \<noteq> start" for x
  proof (cases X rule: rev_cases)
    case (snoc X0 p)
    then show ?thesis
      using that X so by (auto simp: segs_ok_append segs_ok_Cons)
  qed (use that in simp)
  have first: "e < sg_start y" if "y \<in> set Y" "Y = [] \<or> sg_start (hd Y) \<noteq> e" for y
  proof (cases Y)
    case (Cons q Y0)
    then show ?thesis
      using that Y so by (auto simp: segs_ok_append segs_ok_Cons)
  qed (use that in simp)
  consider (both) "X \<noteq> []" "sg_end (last X) = start" "Y \<noteq> []" "sg_start (hd Y) = e"
    | (left) "X \<noteq> []" "sg_end (last X) = start" "Y = [] \<or> sg_start (hd Y) \<noteq> e"
    | (right) "X = [] \<or> sg_end (last X) \<noteq> start" "Y \<noteq> []" "sg_start (hd Y) = e"
    | (none) "X = [] \<or> sg_end (last X) \<noteq> start" "Y = [] \<or> sg_start (hd Y) \<noteq> e"
    by blast
  then show ?thesis
  proof cases
    case both
    then obtain X0 p q Y0 where "X = X0 @ [p]" "Y = q # Y0"
      by (metis list.exhaust rev_exhaust)
    then show ?thesis
      using coalesce_both [of X0 p n q Y0 Q2] L both m cov mv unfolding eq
      by (simp add: tail_of_def head_of_def n)
  next
    case left
    then obtain X0 p where "X = X0 @ [p]"
      by (metis rev_exhaust)
    then show ?thesis
      using coalesce_left [of X0 p n Y Q2] L left m cov mv first unfolding eq
      by (fastforce simp add: tail_of_def n)
  next
    case right
    then obtain q Y0 where "Y = q # Y0"
      by (metis list.exhaust)
    then show ?thesis
      using coalesce_right [of X n q Y0 Q2] L right m cov mv last unfolding eq
      by (fastforce simp add: head_of_def n)
  next
    case none
    then have nm: "\<not> needmerge"
      using m by auto
    define Q' where "Q' = (if rq_rcv_nxt Q \<ge> start then Q2\<lparr>rq_rcv_nxt := e\<rparr> else Q2)"
    have ok': "segs_ok (X @ n # Y)"
      using L last [OF _ none(1)] first [OF _ none(2)] se
      by (fastforce simp: new_linked_def segs_ok_append segs_ok_Cons n)
    then have "rq_ok Q'"
      using L by (simp add: rq_ok_def new_linked_def Q'_def)
    moreover have "moves start Q Q'"
      by (rule movesI [of _ n]) (use ok' se in \<open>auto simp: Q'_def Q2_def n\<close>)
    moreover have "covers (rq_fifo Q') = covers (rq_fifo Q) \<union> {start..<e}"
      using cov by (simp add: Q'_def)
    ultimately show ?thesis
      using nm unfolding eq Q'_def by simp
  qed
qed

section \<open>Adding\<close>

text \<open>What lies before the new segment, what overlaps it, and what lies after it.\<close>

lemma split_at:
  assumes "segs_ok ss" "start < e"
  obtains A B C where "ss = A @ B @ C" "\<forall>a\<in>set A. sg_end a \<le> start"
    "\<forall>b\<in>set B. start < sg_end b \<and> sg_start b < e" "\<forall>c\<in>set C. e \<le> sg_start c"
proof -
  define A R where "A = takeWhile (\<lambda>s. sg_end s \<le> start) ss" and "R = dropWhile (\<lambda>s. sg_end s \<le> start) ss"
  define B C where "B = takeWhile (\<lambda>s. sg_start s < e) R" and "C = dropWhile (\<lambda>s. sg_start s < e) R"
  have ss: "ss = A @ R" "R = B @ C"
    by (simp_all add: A_def R_def B_def C_def)
  have R: "\<forall>r\<in>set R. start < sg_end r"
  proof (cases R)
    case (Cons r R')
    have "\<not> sg_end r \<le> start"
      using Cons hd_dropWhile [of "\<lambda>s. sg_end s \<le> start" ss] by (simp add: R_def)
    moreover have "start < sg_end t" if "t \<in> set R'" for t
    proof -
      have "sg_end r < sg_start t" "sg_start t < sg_end t"
        using assms(1) ss(1) that by (simp_all add: Cons segs_ok_append segs_ok_Cons) (simp add: segs_ok_def)
      with \<open>\<not> sg_end r \<le> start\<close> show ?thesis
        by linarith
    qed
    ultimately show ?thesis
      by (simp add: Cons)
  qed simp
  have "\<forall>c\<in>set C. e \<le> sg_start c"
  proof (cases C)
    case (Cons c C')
    have "\<not> sg_start c < e"
      using Cons hd_dropWhile [of "\<lambda>s. sg_start s < e" R] by (simp add: C_def)
    moreover have "e \<le> sg_start t" if "t \<in> set C'" for t
    proof -
      have "sg_start c < sg_end c" "sg_end c < sg_start t"
        using assms(1) ss that by (simp_all add: Cons segs_ok_append segs_ok_Cons)
      with \<open>\<not> sg_start c < e\<close> show ?thesis
        by linarith
    qed
    ultimately show ?thesis
      by (simp add: Cons)
  qed simp
  moreover have "\<forall>b\<in>set B. start < sg_end b \<and> sg_start b < e"
  proof -
    have "\<forall>b\<in>set B. sg_start b < e"
      by (auto simp: B_def dest: set_takeWhileD)
    moreover have "set B \<subseteq> set R"
      using ss(2) by simp
    ultimately show ?thesis
      using R by blast
  qed
  moreover have "\<forall>a\<in>set A. sg_end a \<le> start"
    by (auto simp: A_def dest: set_takeWhileD)
  ultimately show ?thesis
    using that ss by simp
qed

lemma find_append: "List.find P (xs @ ys) = (case List.find P xs of None \<Rightarrow> List.find P ys | Some x \<Rightarrow> Some x)"
  by (induction xs) auto

lemma seg_before_split:
  assumes "\<forall>a\<in>set A. sg_end a \<le> start" "\<forall>b\<in>set B. start < sg_end b"
  shows "seg_before start (A @ B) = tail_of A"
proof -
  have "List.find (\<lambda>s. \<not> sg_end s > start) (rev B) = None"
    using assms by (auto simp: find_None_iff)
  then show ?thesis
    using assms(1) by (cases A rule: rev_cases) (auto simp: seg_before_def tail_of_def find_append)
qed

lemma seg_after_split:
  assumes "\<forall>b\<in>set B. sg_start b < e" "\<forall>c\<in>set C. e \<le> sg_start c"
  shows "seg_after e (B @ C) = head_of C"
proof -
  have "List.find (\<lambda>s. \<not> sg_start s < e) B = None"
    using assms by (auto simp: find_None_iff)
  then show ?thesis
    using assms(2) by (cases C) (auto simp: seg_after_def head_of_def find_append)
qed

lemma takeWhile_until:
  assumes "distinct (map sg_addr (B @ C))"
  shows "takeWhile (\<lambda>s. Some (sg_addr s) \<noteq> head_of C) (B @ C) = B"
proof (cases C)
  case (Cons c C0)
  have "\<forall>b\<in>set B. sg_addr b \<noteq> sg_addr c"
    using assms by (auto simp: Cons intro: rev_image_eqI)
  then show ?thesis
    by (simp add: Cons head_of_def takeWhile_append2)
qed (simp add: head_of_def takeWhile_eq_all_conv)

lemma seg_range_split:
  assumes "distinct (map sg_addr (A @ B @ C))"
  shows "seg_range (tail_of A) (head_of C) (A @ B @ C) = (if A = [] then B else last A # B)"
proof (cases A rule: rev_cases)
  case Nil
  then show ?thesis
    using assms takeWhile_until [of B C] by (simp add: seg_range_def tail_of_def)
next
  case (snoc A0 a)
  have "\<forall>x\<in>set A0. sg_addr x \<noteq> sg_addr a"
    using assms by (auto simp: snoc intro: rev_image_eqI)
  then have "dropWhile (\<lambda>s. sg_addr s \<noteq> sg_addr a) (A @ B @ C) = (a # B) @ C"
    by (simp add: snoc dropWhile_append2)
  then show ?thesis
    using assms takeWhile_until [of "a # B" C] by (simp add: seg_range_def tail_of_def snoc)
qed

text \<open>Changing the flags, or one end, of a segment.\<close>

lemma upd_seg_mid:
  assumes "rq_fifo Q = X @ r # Y" "distinct (map sg_addr (X @ r # Y))"
  shows "upd_seg (sg_addr r) f Q = Q\<lparr>rq_fifo := X @ f r # Y\<rparr>"
  using assms by (simp add: upd_seg_def)

lemma rq_ok_same:
  assumes "rq_ok Q" "rq_fifo Q = X @ r # Y" "sg_addr r' = sg_addr r" "sg_start r' = sg_start r"
    "sg_end r' = sg_end r"
  shows "rq_ok (Q\<lparr>rq_fifo := X @ r' # Y\<rparr>)"
  using assms by (auto simp: rq_ok_def segs_ok_append segs_ok_Cons seg_len_def)

lemma rq_ok_replace:
  assumes "rq_ok Q" "rq_fifo Q = X @ r # Y" "segs_ok (X @ r' # Y)" "sg_addr r' = sg_addr r"
    "t = i32 (rq_total Q + (seg_len r' - seg_len r))"
  shows "rq_ok (Q\<lparr>rq_fifo := X @ r' # Y, rq_total := t\<rparr>)"
  using assms i32_add(1) [of "sum_list (map seg_len (X @ r # Y))" "seg_len r' - seg_len r"]
  by (simp add: rq_ok_def algebra_simps)

lemma rq_ok_remove:
  assumes "rq_ok Q" "rq_fifo Q = X @ r # Y"
  shows "rq_ok (sremove (sg_addr r) (fremove (sg_addr r)
           (Q\<lparr>rq_total := i32 (rq_total Q - (sg_end r - sg_start r))\<rparr>)))"
    and "rq_fifo (sremove (sg_addr r) (fremove (sg_addr r)
           (Q\<lparr>rq_total := i32 (rq_total Q - (sg_end r - sg_start r))\<rparr>))) = X @ Y"
proof -
  have so: "segs_ok (X @ r # Y)"
    using assms by (simp add: rq_ok_def)
  then have d: "sg_addr r \<notin> sg_addr ` set X" "sg_addr r \<notin> sg_addr ` set Y"
    by (auto simp: segs_ok_append segs_ok_Cons)
  then show fifo: "rq_fifo (sremove (sg_addr r) (fremove (sg_addr r)
           (Q\<lparr>rq_total := i32 (rq_total Q - (sg_end r - sg_start r))\<rparr>))) = X @ Y"
    by (simp add: sremove_def fremove_def assms(2))
  have "segs_ok (X @ Y)"
    using so by (auto simp: segs_ok_append segs_ok_Cons)
  then show "rq_ok (sremove (sg_addr r) (fremove (sg_addr r)
           (Q\<lparr>rq_total := i32 (rq_total Q - (sg_end r - sg_start r))\<rparr>)))"
    using assms d i32_add(3) [of "sum_list (map seg_len (X @ r # Y))" "seg_len r"]
    by (auto simp: rq_ok_def sremove_def fremove_def seg_len_def algebra_simps intro: rev_image_eqI)
qed

text \<open>
  The loop: at an exact overlap only flags change; otherwise the overlapped segments, and only
  they, are gone.
\<close>

definition inside :: "int \<Rightarrow> int \<Rightarrow> seginfo \<Rightarrow> bool" where
  "inside start e s \<longleftrightarrow> start \<le> sg_start s \<and> sg_end s \<le> e"

lemma kill_spec:
  assumes "rq_ok Q" "rq_fifo Q = X @ rs @ Y"
  shows "(case kill start e rs f c alt Q of
      Inl (f', Q') \<Rightarrow> rq_ok Q' \<and> rq_rcv_nxt Q' = rq_rcv_nxt Q
        \<and> sg_start ` set (rq_fifo Q') \<subseteq> sg_start ` set (rq_fifo Q)
        \<and> covers (rq_fifo Q') = covers (rq_fifo Q) \<union> {start..<e}
    | Inr (f', c', alt', Q') \<Rightarrow> rq_ok Q' \<and> rq_rcv_nxt Q' = rq_rcv_nxt Q
        \<and> rq_fifo Q' = X @ filter (\<lambda>s. \<not> inside start e s) rs @ Y
        \<and> covers (rq_fifo Q') \<union> {start..<e} = covers (rq_fifo Q) \<union> {start..<e}
        \<and> (alt' \<longleftrightarrow> alt \<or> (\<exists>s\<in>set rs. inside start e s)) \<and> (alt' \<or> Q' = Q))"
  using assms
proof (induction start e rs f c alt Q arbitrary: X rule: kill.induct)
  case (2 start e r rs f c alt Q)
  have so: "segs_ok (X @ r # rs @ Y)"
    using "2.prems" by (simp add: rq_ok_def)
  consider (exact) "start = sg_start r" "e = sg_end r"
    | (over) "\<not> (start = sg_start r \<and> e = sg_end r)" "inside start e r"
    | (other) "\<not> inside start e r"
    by (auto simp: inside_def)
  then show ?case
  proof cases
    case exact
    define r' where "r' = r\<lparr>sg_pflags := sg_pflags r OR f\<rparr>"
    have r': "sg_addr r' = sg_addr r" "sg_start r' = sg_start r" "sg_end r' = sg_end r"
      by (simp_all add: r'_def)
    have upd: "upd_seg (sg_addr r) (\<lambda>s. s\<lparr>sg_pflags := sg_pflags r OR f\<rparr>) Q = Q\<lparr>rq_fifo := X @ r' # rs @ Y\<rparr>"
      using upd_seg_mid [OF _ segs_ok_addr [OF so]] "2.prems" by (simp add: r'_def)
    have "rq_ok (Q\<lparr>rq_fifo := X @ r' # rs @ Y\<rparr>)"
      using rq_ok_same [OF "2.prems"(1) _ r'] "2.prems"(2) by simp
    then show ?thesis
      using exact "2.prems" by (auto simp: upd r')
  next
    case over
    define Q0 where "Q0 = sremove (sg_addr r) (fremove (sg_addr r)
           (Q\<lparr>rq_total := i32 (rq_total Q - (sg_end r - sg_start r))\<rparr>))"
    have F: "rq_fifo Q = X @ r # rs @ Y"
      using "2.prems" by simp
    have Q0: "rq_ok Q0" "rq_fifo Q0 = X @ rs @ Y" "rq_rcv_nxt Q0 = rq_rcv_nxt Q"
      using rq_ok_remove [OF "2.prems"(1) F] by (simp_all add: Q0_def) (simp add: sremove_def fremove_def)
    have k: "kill start e (r # rs) f c alt Q = kill start e rs (f OR sg_pflags r) (i32 (c + sg_cnt r)) True Q0"
      using over by (auto simp: inside_def Q0_def)
    note IH = "2.IH"(1) [OF over(1) over(2) [unfolded inside_def], folded Q0_def, OF Q0(1,2)]
    have cov: "covers (rq_fifo Q0) \<union> {start..<e} = covers (rq_fifo Q) \<union> {start..<e}"
      using over(2) by (auto simp: inside_def F Q0(2))
    have starts: "sg_start ` set (rq_fifo Q0) \<subseteq> sg_start ` set (rq_fifo Q)"
      by (auto simp: F Q0(2))
    show ?thesis
    proof (cases "kill start e rs (f OR sg_pflags r) (i32 (c + sg_cnt r)) True Q0")
      case (Inl a)
      obtain f' Q' where a: "a = (f', Q')"
        by (cases a)
      have r: "rq_ok Q' \<and> rq_rcv_nxt Q' = rq_rcv_nxt Q0
          \<and> sg_start ` set (rq_fifo Q') \<subseteq> sg_start ` set (rq_fifo Q0)
          \<and> covers (rq_fifo Q') = covers (rq_fifo Q0) \<union> {start..<e}"
        by (rule IH [unfolded Inl a sum.case prod.case])
      have "rq_ok Q' \<and> rq_rcv_nxt Q' = rq_rcv_nxt Q
          \<and> sg_start ` set (rq_fifo Q') \<subseteq> sg_start ` set (rq_fifo Q)
          \<and> covers (rq_fifo Q') = covers (rq_fifo Q) \<union> {start..<e}"
        using r cov Q0(3) subset_trans [OF _ starts] by metis
      then show ?thesis
        unfolding k Inl a by (simp only: sum.case prod.case)
    next
      case (Inr b)
      obtain f' c' alt' Q' where b: "b = (f', c', alt', Q')"
        by (cases b)
      have r: "rq_ok Q' \<and> rq_rcv_nxt Q' = rq_rcv_nxt Q0
          \<and> rq_fifo Q' = X @ filter (\<lambda>s. \<not> inside start e s) rs @ Y
          \<and> covers (rq_fifo Q') \<union> {start..<e} = covers (rq_fifo Q0) \<union> {start..<e}
          \<and> (alt' \<longleftrightarrow> True \<or> (\<exists>s\<in>set rs. inside start e s)) \<and> (alt' \<or> Q' = Q0)"
        by (rule IH [unfolded Inr b sum.case prod.case])
      have fl: "filter (\<lambda>s. \<not> inside start e s) (r # rs) = filter (\<lambda>s. \<not> inside start e s) rs"
        and ex: "\<exists>s\<in>set (r # rs). inside start e s"
        using over(2) by auto
      show ?thesis
        unfolding k Inr b sum.case prod.case fl using r Q0(3) ex cov by metis
    qed
  next
    case other
    then have k: "kill start e (r # rs) f c alt Q = kill start e rs f c alt Q"
      by (auto simp: inside_def)
    have F: "rq_fifo Q = (X @ [r]) @ rs @ Y"
      using "2.prems" by simp
    have n: "\<not> (start = sg_start r \<and> e = sg_end r)" "\<not> (start \<le> sg_start r \<and> sg_end r \<le> e)"
      using other by (auto simp: inside_def)
    have fl: "(X @ [r]) @ filter (\<lambda>s. \<not> inside start e s) rs @ Y
        = X @ filter (\<lambda>s. \<not> inside start e s) (r # rs) @ Y"
      and ex: "(\<exists>s\<in>set rs. inside start e s) \<longleftrightarrow> (\<exists>s\<in>set (r # rs). inside start e s)"
      using other by simp_all
    show ?thesis
      unfolding k by (rule "2.IH"(2) [OF n "2.prems"(1) F, unfolded fl ex])
  qed
qed simp

text \<open>
  What an addition promises: the bytes of the segment are there, and the next byte expected has
  moved over the block that holds the segment, when the queue held only later bytes.
\<close>

definition ahead :: "rqueue \<Rightarrow> bool" where
  "ahead Q \<longleftrightarrow> (\<forall>s\<in>set (rq_fifo Q). rq_rcv_nxt Q < sg_start s)"

definition added :: "int \<Rightarrow> int \<Rightarrow> rqueue \<Rightarrow> rqueue \<Rightarrow> bool" where
  "added start e Q Q' \<longleftrightarrow> rq_ok Q' \<and> covers (rq_fifo Q') = covers (rq_fifo Q) \<union> {start..<e}
     \<and> (ahead Q \<and> rq_rcv_nxt Q \<le> start \<longrightarrow> moves start Q Q')"

text \<open>The merges on the left and on the right.\<close>

lemma merge_left_at:
  assumes ok: "rq_ok Q" and F: "rq_fifo Q = A @ l # R" and l: "A = [] \<or> sg_start l < start"
    "start < sg_end l"
  shows "\<exists>l' Q1. merge_left (tail_of A) start f c Q = Some (Some (sg_addr l), sg_end l, i32 (c - 1), True, Q1)
     \<and> rq_ok Q1 \<and> rq_fifo Q1 = A @ l' # R \<and> rq_rcv_nxt Q1 = rq_rcv_nxt Q \<and> sg_addr l' = sg_addr l
     \<and> sg_end l' = sg_end l \<and> sg_start l' = min start (sg_start l)"
proof -
  have so: "segs_ok (A @ l # R)"
    using ok by (simp add: rq_ok_def F)
  have nb: "(case tail_of A of None \<Rightarrow> head_of (rq_fifo Q) | Some a \<Rightarrow> next_of a (rq_fifo Q)) = Some (sg_addr l)"
    unfolding F next_at [OF segs_ok_addr [OF so]] by (simp add: head_of_def)
  have at: "seg_at (sg_addr l) (rq_fifo Q) = Some l"
    using seg_at_mid [OF segs_ok_addr [OF so]] by (simp add: F)
  define l' where "l' = (if start < sg_start l then l\<lparr>sg_start := start\<rparr> else l)
     \<lparr>sg_pflags := sg_pflags l OR f, sg_cnt := i32 (sg_cnt l + 1)\<rparr>"
  have l': "sg_addr l' = sg_addr l" "sg_end l' = sg_end l" "sg_start l' = min start (sg_start l)"
    by (auto simp: l'_def)
  have so': "segs_ok (A @ l' # R)"
    using so l by (auto simp: segs_ok_append segs_ok_Cons l')
  have tail: "tail_of A = None \<longleftrightarrow> A = []" "tail_of [] = None"
    by (simp_all add: tail_of_def)
  define T where "T = (if start < sg_start l then i32 (rq_total Q + (sg_start l - start)) else rq_total Q)"
  define Q1 where "Q1 = Q\<lparr>rq_fifo := A @ l' # R, rq_total := T\<rparr>"
  have "rq_ok Q1"
  proof (cases "start < sg_start l")
    case True
    then show ?thesis
      unfolding Q1_def by (intro rq_ok_replace [OF ok F so' l'(1)]) (simp add: T_def seg_len_def l')
  next
    case False
    then have "Q1 = Q\<lparr>rq_fifo := A @ l' # R\<rparr>" and "sg_start l' = sg_start l"
      by (simp_all add: Q1_def T_def l')
    then show ?thesis
      using rq_ok_same [OF ok F l'(1) _ l'(2)] by simp
  qed
  moreover have "merge_left (tail_of A) start f c Q = Some (Some (sg_addr l), sg_end l, i32 (c - 1), True, Q1)"
  proof (cases "start < sg_start l")
    case True
    have u: "upd_seg (sg_addr l) g (Q\<lparr>rq_total := t\<rparr>) = Q\<lparr>rq_total := t, rq_fifo := A @ g l # R\<rparr>" for g t
      using upd_seg_mid [of "Q\<lparr>rq_total := t\<rparr>" A l R g] segs_ok_addr [OF so] by (simp add: F)
    show ?thesis
      unfolding merge_left_def nb option.case at using True l
      by (simp add: tail Let_def u Q1_def T_def l'_def)
  next
    case False
    have u: "upd_seg (sg_addr l) g Q = Q\<lparr>rq_fifo := A @ g l # R\<rparr>" for g
      using upd_seg_mid [OF F segs_ok_addr [OF so]] by simp
    show ?thesis
      unfolding merge_left_def nb option.case at using False l
      by (simp add: tail Let_def u Q1_def T_def l'_def)
  qed
  ultimately show ?thesis
    using l' by (intro exI [of _ l'] exI [of _ Q1]) (simp add: Q1_def)
qed

lemma merge_left_no:
  assumes ok: "rq_ok Q" and F: "rq_fifo Q = A @ l # R" and l: "A \<noteq> []" "start \<le> sg_start l"
  shows "merge_left (tail_of A) start f c Q = Some (tail_of A, start, c, False, Q)"
proof -
  have so: "segs_ok (A @ l # R)"
    using ok by (simp add: rq_ok_def F)
  have nb: "(case tail_of A of None \<Rightarrow> head_of (rq_fifo Q) | Some a \<Rightarrow> next_of a (rq_fifo Q)) = Some (sg_addr l)"
    unfolding F next_at [OF segs_ok_addr [OF so]] by (simp add: head_of_def)
  have at: "seg_at (sg_addr l) (rq_fifo Q) = Some l"
    using seg_at_mid [OF segs_ok_addr [OF so]] by (simp add: F)
  show ?thesis
    unfolding merge_left_def nb option.case at using l by (simp add: tail_of_def)
qed

lemma prev_at:
  assumes "distinct (map sg_addr (L @ r # C))"
  shows "(case head_of C of None \<Rightarrow> tail_of (L @ r # C) | Some a \<Rightarrow> prev_of a (L @ r # C)) = Some (sg_addr r)"
  using assms prev_mid [of L r] by (cases C) (auto simp: tail_of_def head_of_def)

lemma merge_right_at:
  assumes ok: "rq_ok Q" and F: "rq_fifo Q = L @ r # C" and r: "C = [] \<or> e < sg_end r" "sg_start r < e"
  shows "\<exists>r' Q1. merge_right (head_of C) e f m Q = Some (Some (sg_addr r), sg_start r, True, Q1)
     \<and> rq_ok Q1 \<and> rq_fifo Q1 = L @ r' # C \<and> rq_rcv_nxt Q1 = rq_rcv_nxt Q \<and> sg_addr r' = sg_addr r
     \<and> sg_start r' = sg_start r \<and> sg_end r' = max e (sg_end r)"
proof -
  have so: "segs_ok (L @ r # C)"
    using ok by (simp add: rq_ok_def F)
  have nb: "(case head_of C of None \<Rightarrow> tail_of (rq_fifo Q) | Some a \<Rightarrow> prev_of a (rq_fifo Q)) = Some (sg_addr r)"
    unfolding F by (rule prev_at [OF segs_ok_addr [OF so]])
  have at: "seg_at (sg_addr r) (rq_fifo Q) = Some r"
    using seg_at_mid [OF segs_ok_addr [OF so]] by (simp add: F)
  define r' where "r' = (if e > sg_end r then r\<lparr>sg_end := e\<rparr> else r)\<lparr>sg_pflags := sg_pflags r OR f\<rparr>"
  have r': "sg_addr r' = sg_addr r" "sg_start r' = sg_start r" "sg_end r' = max e (sg_end r)"
    by (auto simp: r'_def)
  have so': "segs_ok (L @ r' # C)"
    using so r by (auto simp: segs_ok_append segs_ok_Cons r')
  have head: "head_of C = None \<longleftrightarrow> C = []" "head_of [] = None"
    by (simp_all add: head_of_def split: list.splits)
  define T where "T = (if e > sg_end r then i32 (rq_total Q + (e - sg_end r)) else rq_total Q)"
  define Q1 where "Q1 = Q\<lparr>rq_fifo := L @ r' # C, rq_total := T\<rparr>"
  have "rq_ok Q1"
  proof (cases "e > sg_end r")
    case True
    then show ?thesis
      unfolding Q1_def by (intro rq_ok_replace [OF ok F so' r'(1)]) (simp add: T_def seg_len_def r')
  next
    case False
    then have "Q1 = Q\<lparr>rq_fifo := L @ r' # C\<rparr>" and "sg_end r' = sg_end r"
      by (simp_all add: Q1_def T_def r')
    then show ?thesis
      using rq_ok_same [OF ok F r'(1,2)] by simp
  qed
  moreover have "merge_right (head_of C) e f m Q = Some (Some (sg_addr r), sg_start r, True, Q1)"
  proof (cases "e > sg_end r")
    case True
    have u: "upd_seg (sg_addr r) g (Q\<lparr>rq_total := t\<rparr>) = Q\<lparr>rq_total := t, rq_fifo := L @ g r # C\<rparr>" for g t
      using upd_seg_mid [of "Q\<lparr>rq_total := t\<rparr>" L r C g] segs_ok_addr [OF so] by (simp add: F)
    show ?thesis
      unfolding merge_right_def nb option.case at using True r
      by (simp add: head Let_def u Q1_def T_def r'_def)
  next
    case False
    have u: "upd_seg (sg_addr r) g Q = Q\<lparr>rq_fifo := L @ g r # C\<rparr>" for g
      using upd_seg_mid [OF F segs_ok_addr [OF so]] by simp
    show ?thesis
      unfolding merge_right_def nb option.case at using False r
      by (simp add: head Let_def u Q1_def T_def r'_def)
  qed
  ultimately show ?thesis
    using r' by (intro exI [of _ r'] exI [of _ Q1]) (simp add: Q1_def)
qed

lemma merge_right_no:
  assumes ok: "rq_ok Q" and F: "rq_fifo Q = L @ r # C" and r: "C \<noteq> []" "sg_end r \<le> e"
  shows "merge_right (head_of C) e f m Q = Some (head_of C, e, m, Q)"
proof -
  have so: "segs_ok (L @ r # C)"
    using ok by (simp add: rq_ok_def F)
  have nb: "(case head_of C of None \<Rightarrow> tail_of (rq_fifo Q) | Some a \<Rightarrow> prev_of a (rq_fifo Q)) = Some (sg_addr r)"
    unfolding F by (rule prev_at [OF segs_ok_addr [OF so]])
  have at: "seg_at (sg_addr r) (rq_fifo Q) = Some r"
    using seg_at_mid [OF segs_ok_addr [OF so]] by (simp add: F)
  show ?thesis
    unfolding merge_right_def nb option.case at using r by (simp add: head_of_def split: list.splits)
qed

text \<open>The two ways on from there: nothing is left between the merged ends, or a gap is filled.\<close>

lemma head_return:
  assumes ok: "rq_ok Q2" and F: "rq_fifo Q2 = h # R" and rcv: "rq_rcv_nxt Q2 = rq_rcv_nxt Q"
    and cov: "covers (rq_fifo Q2) = covers (rq_fifo Q) \<union> {start..<e}" and se: "start < e"
  shows "added start e Q (if rq_rcv_nxt Q2 \<ge> sg_start h then Q2\<lparr>rq_rcv_nxt := sg_end h\<rparr> else Q2)"
proof -
  let ?Q' = "if rq_rcv_nxt Q2 \<ge> sg_start h then Q2\<lparr>rq_rcv_nxt := sg_end h\<rparr> else Q2"
  have so: "segs_ok (h # R)"
    using ok by (simp add: rq_ok_def F)
  have fifo: "rq_fifo ?Q' = h # R"
    by (simp add: F)
  have "moves start Q ?Q'" if a: "ahead Q" "rq_rcv_nxt Q \<le> start"
  proof -
    have ge: "rq_rcv_nxt Q \<le> x" if "x \<in> covers (rq_fifo Q2)" for x
      using a that unfolding cov by (auto simp: ahead_def covers_def)
    have eq: "rq_rcv_nxt Q = start" if "rq_rcv_nxt Q \<in> covers (rq_fifo Q2)"
      using a that unfolding cov by (auto simp: ahead_def covers_def)
    have h: "sg_start h \<in> covers (rq_fifo Q2)" "sg_start h < sg_end h"
      using so by (simp_all add: F segs_ok_Cons)
    have "rq_rcv_nxt ?Q' = (if sg_start r \<le> rq_rcv_nxt Q then sg_end r else rq_rcv_nxt Q)"
      if r: "r \<in> set (h # R)" "sg_start r \<le> start" "start < sg_end r" for r
    proof (cases "r = h")
      case False
      then have "sg_start h < sg_start r"
        using r(1) so h(2) by (auto simp: segs_ok_Cons)
      moreover from this have "rq_rcv_nxt Q \<noteq> sg_start h"
        using eq h r(2) by auto
      ultimately show ?thesis
        using ge [OF h(1)] rcv by auto
    qed (simp add: rcv)
    then show ?thesis
      unfolding moves_def fifo by blast
  qed
  then show ?thesis
    unfolding added_def using ok cov by (auto simp: rq_ok_def)
qed

lemma insert_return:
  assumes ok: "rq_ok Q2" and F: "rq_fifo Q2 = X @ Y" and rcv: "rq_rcv_nxt Q2 = rq_rcv_nxt Q"
    and X: "\<forall>x\<in>set X. sg_end x \<le> s1" and Y: "\<forall>y\<in>set Y. e1 \<le> sg_start y"
    and m: "needmerge \<longleftrightarrow> X \<noteq> [] \<and> sg_end (last X) = s1 \<or> Y \<noteq> [] \<and> e1 = sg_start (hd Y)"
    and cov: "covers (rq_fifo Q2) \<union> {s1..<e1} = covers (rq_fifo Q) \<union> {start..<e}"
    and se: "start \<le> s1" "s1 < e1" "s1 < e"
  shows "\<exists>f Q'. rq_insert (tail_of X) (head_of Y) s1 e1 t r c needmerge Q2 = Some (f, Q') \<and> added start e Q Q'"
proof -
  from insert_ok [OF ok F se(2) X Y m, of t r c] obtain f Q' where
    i: "rq_insert (tail_of X) (head_of Y) s1 e1 t r c needmerge Q2 = Some (f, Q')" "rq_ok Q'"
      "covers (rq_fifo Q') = covers (rq_fifo Q) \<union> {start..<e}" "moves s1 Q2 Q'"
    unfolding cov by blast
  have so: "segs_ok (rq_fifo Q')"
    using i(2) by (simp add: rq_ok_def)
  have "{start..<e} \<subseteq> covers (rq_fifo Q')" "start < e"
    using i(3) se by auto
  from one_segment [OF so this] obtain r' where r': "r' \<in> set (rq_fifo Q')" "sg_start r' \<le> start" "e \<le> sg_end r'"
    by blast
  have "moves start Q Q'"
    by (rule movesI [OF so r'(1,2)]) (use r' i(4) se rcv in \<open>auto simp: moves_def\<close>)
  then show ?thesis
    using i by (auto simp: added_def)
qed

lemma merge_return:
  assumes "rq_ok Q2" "rq_fifo Q2 \<noteq> []" "rq_rcv_nxt Q2 = rq_rcv_nxt Q"
    "covers (rq_fifo Q2) = covers (rq_fifo Q) \<union> {start..<e}" "start < e"
  shows "\<exists>f Q'. (case rq_fifo Q2 of [] \<Rightarrow> None
       | h # _ \<Rightarrow> Some (t, if rq_rcv_nxt Q2 \<ge> sg_start h then Q2\<lparr>rq_rcv_nxt := sg_end h\<rparr> else Q2)) = Some (f, Q')
     \<and> added start e Q Q'"
proof -
  obtain h R where "rq_fifo Q2 = h # R"
    using assms(2) by (cases "rq_fifo Q2") auto
  with head_return [OF assms(1) this assms(3-5)] show ?thesis
    by simp
qed

lemma merge_one:
  assumes ok: "rq_ok Q" and F: "rq_fifo Q = A @ b # C" and se: "start < e"
    and A: "\<forall>a\<in>set A. sg_end a \<le> start" and b: "start < sg_end b" "sg_start b < e"
    and C: "\<forall>c\<in>set C. e \<le> sg_start c" and out: "sg_start b < start \<or> e < sg_end b"
  shows "\<exists>f Q'. rq_merge (tail_of A) (head_of C) start e t r c Q = Some (f, Q') \<and> added start e Q Q'"
proof -
  have so: "segs_ok (A @ b # C)"
    using ok by (simp add: rq_ok_def F)
  have bb: "sg_start b < sg_end b" "\<forall>x\<in>set C. sg_end b < sg_start x" "\<forall>x\<in>set A. sg_end x < sg_start b"
    using so by (simp_all add: segs_ok_append segs_ok_Cons)
  consider (both) "A = [] \<or> sg_start b < start" "C = [] \<or> e < sg_end b"
    | (left) "sg_start b < start" "C \<noteq> []" "sg_end b \<le> e"
    | (right) "A \<noteq> []" "start \<le> sg_start b" "e < sg_end b"
    using out by force
  then show ?thesis
  proof cases
    case both
    from merge_left_at [OF ok F both(1) b(1)] obtain l' Q1 where
      L: "merge_left (tail_of A) start t c Q = Some (Some (sg_addr b), sg_end b, i32 (c - 1), True, Q1)"
        "rq_ok Q1" "rq_fifo Q1 = A @ l' # C" "rq_rcv_nxt Q1 = rq_rcv_nxt Q" "sg_addr l' = sg_addr b"
        "sg_end l' = sg_end b" "sg_start l' = min start (sg_start b)"
      by blast
    have x: "C = [] \<or> e < sg_end l'" "sg_start l' < e"
      using both(2) L se by simp_all
    from merge_right_at [OF L(2,3) x] obtain r' Q2 where
      R: "merge_right (head_of C) e t True Q1 = Some (Some (sg_addr l'), sg_start l', True, Q2)"
        "rq_ok Q2" "rq_fifo Q2 = A @ r' # C" "rq_rcv_nxt Q2 = rq_rcv_nxt Q1" "sg_addr r' = sg_addr l'"
        "sg_start r' = sg_start l'" "sg_end r' = max e (sg_end l')"
      by blast
    have cov: "covers (rq_fifo Q2) = covers (rq_fifo Q) \<union> {start..<e}"
      using R L b by (auto simp: F)
    have le: "sg_start l' \<le> sg_end b"
      using L(7) bb(1) by simp
    show ?thesis
      unfolding rq_merge_def L(1) option.case prod.case R(1) if_P [OF le]
      using merge_return [OF R(2) _ _ cov se, of t] R(3,4) L(4) by simp
  next
    case left
    have "A = [] \<or> sg_start b < start"
      using left by simp
    from merge_left_at [OF ok F this b(1)] obtain l' Q1 where
      L: "merge_left (tail_of A) start t c Q = Some (Some (sg_addr b), sg_end b, i32 (c - 1), True, Q1)"
        "rq_ok Q1" "rq_fifo Q1 = A @ l' # C" "rq_rcv_nxt Q1 = rq_rcv_nxt Q" "sg_addr l' = sg_addr b"
        "sg_end l' = sg_end b" "sg_start l' = min start (sg_start b)"
      by blast
    have R: "merge_right (head_of C) e t True Q1 = Some (head_of C, e, True, Q1)"
      by (rule merge_right_no [OF L(2,3)]) (use left L in simp_all)
    show ?thesis
    proof (cases "e \<le> sg_end b")
      case True
      have cov: "covers (rq_fifo Q1) = covers (rq_fifo Q) \<union> {start..<e}"
        using L b left True by (auto simp: F)
      show ?thesis
        unfolding rq_merge_def L(1) option.case prod.case R if_P [OF True]
        using merge_return [OF L(2) _ _ cov se, of t] L(3,4) by simp
    next
      case False
      have i: "\<exists>f Q'. rq_insert (tail_of (A @ [l'])) (head_of C) (sg_end b) e t r (i32 (c - 1)) True Q1
          = Some (f, Q') \<and> added start e Q Q'"
        by (rule insert_return [OF L(2), of "A @ [l']" C])
          (use L b bb left A C False F in auto)
      have "rq_merge (tail_of A) (head_of C) start e t r c Q
        = rq_insert (tail_of (A @ [l'])) (head_of C) (sg_end b) e t r (i32 (c - 1)) True Q1"
        unfolding rq_merge_def L(1) option.case prod.case R if_not_P [OF False]
        by (simp add: tail_of_def L(5))
      then show ?thesis
        using i by simp
    qed
  next
    case right
    have L: "merge_left (tail_of A) start t c Q = Some (tail_of A, start, c, False, Q)"
      by (rule merge_left_no [OF ok F]) (use right in simp_all)
    have "C = [] \<or> e < sg_end b"
      using right by simp
    from merge_right_at [OF ok F this b(2)] obtain r' Q2 where
      R: "merge_right (head_of C) e t False Q = Some (Some (sg_addr b), sg_start b, True, Q2)"
        "rq_ok Q2" "rq_fifo Q2 = A @ r' # C" "rq_rcv_nxt Q2 = rq_rcv_nxt Q" "sg_addr r' = sg_addr b"
        "sg_start r' = sg_start b" "sg_end r' = max e (sg_end b)"
      by blast
    show ?thesis
    proof (cases "sg_start b \<le> start")
      case True
      have cov: "covers (rq_fifo Q2) = covers (rq_fifo Q) \<union> {start..<e}"
        using R b right True by (auto simp: F)
      show ?thesis
        unfolding rq_merge_def L option.case prod.case R(1) if_P [OF True]
        using merge_return [OF R(2) _ _ cov se, of t] R(3,4) by simp
    next
      case False
      have i: "\<exists>f Q'. rq_insert (tail_of A) (head_of (r' # C)) start (sg_start b) t r c True Q2
          = Some (f, Q') \<and> added start e Q Q'"
        by (rule insert_return [OF R(2,3)]) (use R b bb right A C se False F in auto)
      have "rq_merge (tail_of A) (head_of C) start e t r c Q
        = rq_insert (tail_of A) (head_of (r' # C)) start (sg_start b) t r c True Q2"
        unfolding rq_merge_def L option.case prod.case R(1) if_not_P [OF False]
        by (simp add: head_of_def R(5))
      then show ?thesis
        using i by simp
    qed
  qed
qed

lemma merge_ok:
  assumes ok: "rq_ok Q" and F: "rq_fifo Q = A @ B @ C" and se: "start < e"
    and A: "\<forall>a\<in>set A. sg_end a \<le> start" and B: "\<forall>b\<in>set B. start < sg_end b \<and> sg_start b < e"
    and C: "\<forall>c\<in>set C. e \<le> sg_start c" and out: "\<forall>b\<in>set B. \<not> inside start e b"
    and ne: "B = [] \<Longrightarrow> A \<noteq> [] \<and> C \<noteq> []"
  shows "\<exists>f Q'. rq_merge (tail_of A) (head_of C) start e t r c Q = Some (f, Q') \<and> added start e Q Q'"
proof -
  have so: "segs_ok (A @ B @ C)"
    using ok by (simp add: rq_ok_def F)
  have cross: "sg_start b < start \<or> e < sg_end b" if "b \<in> set B" for b
    using out that by (auto simp: inside_def)
  consider (hole) "B = []" | (one) b where "B = [b]" | (two) b1 b2 where "B = [b1, b2]"
    | (more) b1 b2 b3 B' where "B = b1 # b2 # b3 # B'"
    by (metis list.exhaust)
  then show ?thesis
  proof cases
    case hole
    then obtain A0 a c0 C0 where AC: "A = A0 @ [a]" "C = c0 # C0"
      using ne by (metis list.exhaust rev_exhaust)
    have L: "merge_left (tail_of A) start t c Q = Some (tail_of A, start, c, False, Q)"
      by (rule merge_left_no [OF ok, of A c0 C0]) (use F hole AC C se in auto)
    have R: "merge_right (head_of C) e t False Q = Some (head_of C, e, False, Q)"
      by (rule merge_right_no [OF ok, of A0 a C]) (use F hole AC A se in auto)
    have d: "distinct (map sg_addr (A0 @ a # c0 # C0))"
      using segs_ok_addr [OF so] by (simp add: AC hole)
    have at: "next_of (sg_addr a) (rq_fifo Q) = Some (sg_addr c0)" "seg_at (sg_addr a) (rq_fifo Q) = Some a"
      "seg_at (sg_addr c0) (rq_fifo Q) = Some c0"
      using next_mid [OF d] seg_at_mid [OF d] seg_at_in [OF d] by (simp_all add: F hole AC)
    have i: "\<exists>f Q'. rq_insert (tail_of A) (head_of C) start e t r c (sg_end a = start \<or> sg_start c0 = e) Q = Some (f, Q')
        \<and> added start e Q Q'"
      by (rule insert_return [OF ok, of A C]) (use F hole AC A C se in auto)
    have "rq_merge (tail_of A) (head_of C) start e t r c Q
      = rq_insert (tail_of A) (head_of C) start e t r c (sg_end a = start \<or> sg_start c0 = e) Q"
      unfolding rq_merge_def L option.case prod.case R using se A C
      by (simp add: AC tail_of_def head_of_def at)
    then show ?thesis
      using i by simp
  next
    case two
    have b: "sg_end b1 < sg_start b2" "start < sg_end b1" "sg_start b2 < e" "sg_start b1 < sg_end b1"
      "sg_start b2 < sg_end b2"
      using so B by (simp_all add: two segs_ok_append segs_ok_Cons)
    then have x: "sg_start b1 < start" "e < sg_end b2"
      using cross [of b1] cross [of b2] by (auto simp: two)
    have "rq_fifo Q = A @ b1 # b2 # C"
      by (simp add: F two)
    from merge_left_at [OF ok this] x b obtain l' Q1 where
      L: "merge_left (tail_of A) start t c Q = Some (Some (sg_addr b1), sg_end b1, i32 (c - 1), True, Q1)"
        "rq_ok Q1" "rq_fifo Q1 = (A @ [l']) @ b2 # C" "rq_rcv_nxt Q1 = rq_rcv_nxt Q" "sg_addr l' = sg_addr b1"
        "sg_end l' = sg_end b1" "sg_start l' = sg_start b1"
      by (metis append_Cons append_Nil append_assoc min.absorb2 less_imp_le)
    from merge_right_at [OF L(2,3)] x b obtain r' Q2 where
      R: "merge_right (head_of C) e t True Q1 = Some (Some (sg_addr b2), sg_start b2, True, Q2)"
        "rq_ok Q2" "rq_fifo Q2 = (A @ [l']) @ r' # C" "rq_rcv_nxt Q2 = rq_rcv_nxt Q1" "sg_addr r' = sg_addr b2"
        "sg_start r' = sg_start b2" "sg_end r' = sg_end b2"
      by (metis max.absorb2 less_imp_le)
    have i: "\<exists>f Q'. rq_insert (tail_of (A @ [l'])) (head_of (r' # C)) (sg_end b1) (sg_start b2) t r (i32 (c - 1)) True Q2
        = Some (f, Q') \<and> added start e Q Q'"
      by (rule insert_return [OF R(2,3)])
        (use L R b x A C so F in \<open>auto simp: two segs_ok_append segs_ok_Cons\<close>)
    have "rq_merge (tail_of A) (head_of C) start e t r c Q
      = rq_insert (tail_of (A @ [l'])) (head_of (r' # C)) (sg_end b1) (sg_start b2) t r (i32 (c - 1)) True Q2"
      unfolding rq_merge_def L(1) option.case prod.case R(1) using b L(5) R(5)
      by (simp add: tail_of_def head_of_def)
    then show ?thesis
      using i by simp
  next
    case more
    have "sg_end b1 < sg_start b2" "start < sg_end b1" "sg_end b2 < sg_start b3" "sg_start b3 < e"
      using so B by (simp_all add: more segs_ok_append segs_ok_Cons)
    then show ?thesis
      using cross [of b2] by (auto simp: more)
  next
    case one
    then show ?thesis
      using merge_one [OF ok _ se A _ _ C, of b] F B cross [of b] by simp
  qed
qed

lemma added_trans:
  assumes "added start e Q1 Q'" "covers (rq_fifo Q1) \<union> {start..<e} = covers (rq_fifo Q) \<union> {start..<e}"
    "rq_rcv_nxt Q1 = rq_rcv_nxt Q" "sg_start ` set (rq_fifo Q1) \<subseteq> sg_start ` set (rq_fifo Q)"
  shows "added start e Q Q'"
proof -
  have "ahead Q1" if "ahead Q"
    using that assms(3,4) by (fastforce simp: ahead_def)
  then show ?thesis
    using assms by (simp add: added_def moves_def)
qed

lemma added_exact:
  assumes "rq_ok Q'" "covers (rq_fifo Q') = covers (rq_fifo Q) \<union> {start..<e}"
    "rq_rcv_nxt Q' = rq_rcv_nxt Q" "sg_start ` set (rq_fifo Q') \<subseteq> sg_start ` set (rq_fifo Q)"
  shows "added start e Q Q'"
  using assms by (fastforce simp: added_def moves_def ahead_def)

lemma rq_again_tail:
  assumes "rq_fifo Q \<noteq> []" "start \<ge> sg_end (last (rq_fifo Q))"
  shows "rq_again start e t r c Q
    = rq_insert (tail_of (rq_fifo Q)) None start e t r c (start = sg_end (last (rq_fifo Q))) Q"
  using assms by (subst rq_again.simps) (auto simp: Let_def tail_of_def split: list.splits)

lemma rq_again_head:
  assumes "rq_fifo Q \<noteq> []" "\<not> start \<ge> sg_end (last (rq_fifo Q))" "e \<le> sg_start (hd (rq_fifo Q))"
  shows "rq_again start e t r c Q
    = rq_insert None (head_of (rq_fifo Q)) start e t r c (e = sg_start (hd (rq_fifo Q))) Q"
  using assms by (subst rq_again.simps) (auto simp: Let_def head_of_def split: list.splits)

lemma rq_again_mid:
  assumes "rq_fifo Q \<noteq> []" "\<not> start \<ge> sg_end (last (rq_fifo Q))" "\<not> e \<le> sg_start (hd (rq_fifo Q))"
    "seg_before start (rq_fifo Q) = p" "seg_after e (rq_fifo Q) = q" "seg_range p q (rq_fifo Q) = rs"
  shows "rq_again start e t r c Q = (case kill start e rs t c False Q of
        Inl res \<Rightarrow> Some res
      | Inr (t1, c1, altered, Q1) \<Rightarrow>
          if rq_empty Q1
          then (if p = None \<and> q = None then rq_insert None None start e t1 r c1 False Q1 else None)
          else if altered then rq_again start e t1 r c1 Q1 else rq_merge p q start e t1 r c1 Q1)"
proof -
  obtain h R where "rq_fifo Q = h # R"
    using assms(1) by (cases "rq_fifo Q") auto
  then show ?thesis
    using assms by (subst rq_again.simps) (simp only: Let_def list.case list.sel if_False)
qed

lemma again_ok:
  assumes "rq_ok Q" "rq_fifo Q \<noteq> []" "start < e"
  shows "\<exists>f Q'. rq_again start e t r c Q = Some (f, Q') \<and> added start e Q Q'"
  using assms
proof (induction "length (rq_fifo Q)" arbitrary: t c Q rule: less_induct)
  case less
  note ok = \<open>rq_ok Q\<close> and se = \<open>start < e\<close>
  have so: "segs_ok (rq_fifo Q)"
    using ok by (simp add: rq_ok_def)
  note ne = \<open>rq_fifo Q \<noteq> []\<close>
  obtain A B C where F: "rq_fifo Q = A @ B @ C" and A: "\<forall>a\<in>set A. sg_end a \<le> start"
    and B: "\<forall>b\<in>set B. start < sg_end b \<and> sg_start b < e" and C: "\<forall>c\<in>set C. e \<le> sg_start c"
    by (rule split_at [OF so se])
  have pos: "\<forall>s\<in>set (A @ B @ C). sg_start s < sg_end s"
    using so by (simp add: segs_ok_def F)
  let ?t = "last (rq_fifo Q)" and ?h = "hd (rq_fifo Q)"
  consider (tail) "start \<ge> sg_end ?t" | (head) "\<not> start \<ge> sg_end ?t" "e \<le> sg_start ?h"
    | (mid) "\<not> start \<ge> sg_end ?t" "\<not> e \<le> sg_start ?h"
    by blast
  then show ?case
  proof cases
    case tail
    have BC: "B = []" "C = []"
    proof -
      have "B @ C = []"
      proof (rule ccontr)
        assume n: "B @ C \<noteq> []"
        then have "?t \<in> set (B @ C)"
          unfolding F by (metis last_appendR last_in_set)
        then show False
          using tail B C pos se by force
      qed
      then show "B = []" "C = []"
        by simp_all
    qed
    have "\<exists>f Q'. rq_insert (tail_of A) (head_of []) start e t r c (start = sg_end ?t) Q = Some (f, Q')
        \<and> added start e Q Q'"
      by (rule insert_return [OF ok, of A "[]"]) (use F BC A se ne in auto)
    then show ?thesis
      unfolding rq_again_tail [OF ne tail] by (simp add: F BC head_of_def)
  next
    case head
    have AB: "A = []" "B = []"
    proof -
      show "A = []"
        using head(2) A pos se unfolding F by (cases A) auto
      then show "B = []"
        using head(2) B unfolding F by (cases B) auto
    qed
    have "\<exists>f Q'. rq_insert (tail_of []) (head_of C) start e t r c (e = sg_start ?h) Q = Some (f, Q')
        \<and> added start e Q Q'"
      by (rule insert_return [OF ok, of "[]" C]) (use F AB C se ne in auto)
    then show ?thesis
      unfolding rq_again_head [OF ne head] by (simp add: F AB tail_of_def)
  next
    case mid
    define rs X where "rs = seg_range (tail_of A) (head_of C) (rq_fifo Q)"
      and "X = (if A = [] then [] else butlast A)"
    have rs: "rs = (if A = [] then B else last A # B)"
      using seg_range_split segs_ok_addr [OF so] unfolding rs_def F by blast
    have Fk: "rq_fifo Q = X @ rs @ C"
      by (simp add: X_def rs F)
    have nin: "\<not> inside start e a" if "a \<in> set A" for a
    proof -
      have "sg_start a < sg_end a" "sg_end a \<le> start"
        using that A pos by simp_all
      then show ?thesis
        by (simp add: inside_def)
    qed
    have fl: "X @ filter (\<lambda>s. \<not> inside start e s) rs @ C = A @ filter (\<lambda>s. \<not> inside start e s) B @ C"
      using nin [of "last A"] by (simp add: X_def rs)
    have ex: "(\<exists>s\<in>set rs. inside start e s) \<longleftrightarrow> (\<exists>s\<in>set B. inside start e s)"
      using nin [of "last A"] by (auto simp: rs)
    have pq: "seg_before start (rq_fifo Q) = tail_of A" "seg_after e (rq_fifo Q) = head_of C"
    proof -
      have "\<forall>b\<in>set (B @ C). start < sg_end b"
        using B C pos se by force
      then show "seg_before start (rq_fifo Q) = tail_of A"
        unfolding F by (intro seg_before_split A)
      have "\<forall>b\<in>set (A @ B). sg_start b < e"
        using A B pos se by force
      then show "seg_after e (rq_fifo Q) = head_of C"
        using seg_after_split [of "A @ B" e C] C unfolding F by simp
    qed
    note step = rq_again_mid [OF ne mid pq rs_def [symmetric]]
    note ks = kill_spec [OF ok Fk, where start = start and e = e and f = t and c = c and alt = False, unfolded fl ex]
    show ?thesis
    proof (cases "kill start e rs t c False Q")
      case (Inl x)
      obtain f' Q' where x: "x = (f', Q')"
        by (cases x)
      note k = ks [unfolded Inl x sum.case prod.case]
      have "added start e Q Q'"
        by (rule added_exact) (use k in blast)+
      then show ?thesis
        unfolding step Inl x by simp
    next
      case (Inr y)
      obtain t1 c1 altered Q1 where y: "y = (t1, c1, altered, Q1)"
        by (cases y)
      note k = ks [unfolded Inr y sum.case prod.case]
      have cov: "covers (rq_fifo Q1) \<union> {start..<e} = covers (rq_fifo Q) \<union> {start..<e}"
        and ok1: "rq_ok Q1" and rcv: "rq_rcv_nxt Q1 = rq_rcv_nxt Q"
        and F1: "rq_fifo Q1 = A @ filter (\<lambda>s. \<not> inside start e s) B @ C"
        using k by blast+
      have st: "sg_start ` set (rq_fifo Q1) \<subseteq> sg_start ` set (rq_fifo Q)"
        unfolding F1 F by auto
      show ?thesis
      proof (cases "rq_fifo Q1 = []")
        case True
        have "\<exists>f Q'. rq_insert (tail_of []) (head_of []) start e t1 r c1 False Q1 = Some (f, Q')
            \<and> added start e Q Q'"
          by (rule insert_return [OF ok1, of "[]" "[]"]) (use True rcv cov se in auto)
        then show ?thesis
          unfolding step Inr y using True F1 by (simp add: rq_empty_def tail_of_def head_of_def)
      next
        case ne1: False
        show ?thesis
        proof (cases altered)
          case True
          then have "length (rq_fifo Q1) < length (rq_fifo Q)"
            using k length_filter_less [of _ B "\<lambda>s. \<not> inside start e s"] unfolding F1 F by auto
          from less.hyps [OF this ok1 ne1 se, of t1 c1] show ?thesis
            unfolding step Inr y using True ne1 added_trans [OF _ cov rcv st] by (auto simp: rq_empty_def)
        next
          case False
          then have Q1: "Q1 = Q" and out: "\<forall>b\<in>set B. \<not> inside start e b"
            using k by blast+
          have "A \<noteq> [] \<and> C \<noteq> []" if "B = []"
          proof -
            have "C \<noteq> []"
              using mid(1) ne A that F by (auto simp: last_in_set)
            moreover have "A \<noteq> []"
              using mid(2) ne C that F by auto
            ultimately show ?thesis
              by blast
          qed
          from merge_ok [OF ok F se A B C out this, of t1 r c1] show ?thesis
            unfolding step Inr y Q1 using False ne by (simp add: rq_empty_def)
        qed
      qed
    qed
  qed
qed

lemma add_ok:
  assumes ok: "rq_ok Q" and se: "start < e"
  shows "\<exists>f Q'. rq_add start e t r Q = Some (f, Q') \<and> added start e Q Q'"
proof (cases "rq_fifo Q = []")
  case True
  then have l: "rq_lifo Q = []"
    using ok by (simp add: rq_ok_def)
  define n where "n = \<lparr>sg_addr = rq_fresh Q, sg_start = start, sg_end = e, sg_pflags = t, sg_rqflags = r, sg_cnt = 1\<rparr>"
  define Q' where "Q' = Q\<lparr>rq_fresh := Suc (rq_fresh Q), rq_lifo := [rq_fresh Q], rq_fifo := [n],
     rq_total := i32 (e - start), rq_rcv_nxt := (if rq_rcv_nxt Q \<ge> start then e else rq_rcv_nxt Q)\<rparr>"
  have "rq_add start e t r Q = Some (t, Q')"
    using True l se by (simp add: rq_add_def Let_def Q'_def n_def)
  moreover have "added start e Q Q'"
    using True se by (simp add: added_def rq_ok_def segs_ok_Cons moves_def Q'_def n_def seg_len_def)
  ultimately show ?thesis
    by blast
next
  case False
  then show ?thesis
    using again_ok [OF ok False se] se by (simp add: rq_add_def)
qed

section \<open>Clearing\<close>

lemma clear_loop_ok:
  assumes "rq_ok Q" "rq_fifo Q = ps"
  shows "\<exists>f Q'. clear_loop seq ps flag Q = (f, dropWhile (\<lambda>p. sg_end p \<le> seq) ps, Q') \<and> rq_ok Q'
     \<and> rq_fifo Q' = dropWhile (\<lambda>p. sg_end p \<le> seq) ps \<and> rq_rcv_nxt Q' = rq_rcv_nxt Q"
  using assms
proof (induction seq ps flag Q rule: clear_loop.induct)
  case (2 seq p ps flag Q)
  let ?Q = "fremove (sg_addr p) (sremove (sg_addr p) (Q\<lparr>rq_total := i32 (rq_total Q - (sg_end p - sg_start p))\<rparr>))"
  have eq: "?Q = sremove (sg_addr p) (fremove (sg_addr p) (Q\<lparr>rq_total := i32 (rq_total Q - (sg_end p - sg_start p))\<rparr>))"
    by (simp add: fremove_def sremove_def)
  have F: "rq_fifo Q = [] @ p # ps"
    using "2.prems" by simp
  have "rq_ok ?Q" "rq_fifo ?Q = ps" "rq_rcv_nxt ?Q = rq_rcv_nxt Q"
    unfolding eq using rq_ok_remove [OF "2.prems"(1) F] by (simp_all add: fremove_def sremove_def)
  then show ?case
    using "2.IH" "2.prems" by simp
qed simp

lemma dropWhile_covers:
  "covers ss \<inter> {seq..} = covers (dropWhile (\<lambda>p. sg_end p \<le> seq) ss) \<inter> {seq..}"
proof (induction ss)
  case (Cons p ss)
  have "{sg_start p..<sg_end p} \<inter> {seq..} = {}" if "sg_end p \<le> seq"
    using that by auto
  then show ?case
    using Cons by (simp add: Int_Un_distrib2)
qed simp

lemma clearto_ok:
  assumes ok: "rq_ok Q"
  shows "\<exists>f Q'. clearto seq Q = (f, Q') \<and> rq_ok Q' \<and> rq_rcv_nxt Q' = rq_rcv_nxt Q
     \<and> covers (rq_fifo Q') = covers (rq_fifo Q) \<inter> {seq..}"
proof -
  define D where "D = dropWhile (\<lambda>p. sg_end p \<le> seq) (rq_fifo Q)"
  obtain f Q1 where c: "clear_loop seq (rq_fifo Q) 0 Q = (f, D, Q1)" and ok1: "rq_ok Q1" and F1: "rq_fifo Q1 = D"
    and rcv: "rq_rcv_nxt Q1 = rq_rcv_nxt Q"
    using clear_loop_ok [OF ok refl, of seq 0] unfolding D_def by blast
  have cov: "covers (rq_fifo Q) \<inter> {seq..} = covers D \<inter> {seq..}"
    unfolding D_def by (rule dropWhile_covers)
  show ?thesis
  proof (cases D)
    case Nil
    then have "clearto seq Q = (f, Q1)"
      by (simp add: clearto_def c)
    then show ?thesis
      using ok1 rcv cov F1 Nil by simp
  next
    case (Cons p R)
    have so: "segs_ok (p # R)"
      using ok1 by (simp add: rq_ok_def F1 Cons)
    have gt: "seq < sg_end p"
      using hd_dropWhile [of "\<lambda>p. sg_end p \<le> seq" "rq_fifo Q"] Cons unfolding D_def by simp
    have R: "covers R \<subseteq> {seq..}"
      using so gt by (force simp: segs_ok_Cons covers_def)
    show ?thesis
    proof (cases "sg_start p \<le> seq")
      case True
      let ?p = "p\<lparr>sg_start := seq\<rparr>"
      have so': "segs_ok ([] @ ?p # R)"
        using so gt by (simp add: segs_ok_Cons)
      have F1': "rq_fifo Q1 = [] @ p # R"
        by (simp add: F1 Cons)
      let ?Q' = "Q1\<lparr>rq_fifo := [] @ ?p # R, rq_total := i32 (rq_total Q1 - (seq - sg_start p))\<rparr>"
      have "rq_ok ?Q'"
        by (rule rq_ok_replace [OF ok1 F1' so']) (simp_all add: seg_len_def algebra_simps)
      moreover have "clearto seq Q = (f OR sg_pflags p, ?Q')"
        using True gt so by (simp add: clearto_def c Cons upd_seg_def F1 segs_ok_Cons)
      moreover have "covers (?p # R) = covers D \<inter> {seq..}"
        using True R by (auto simp: Cons)
      ultimately show ?thesis
        using rcv cov by simp
    next
      case False
      then have "clearto seq Q = (f, Q1)"
        by (simp add: clearto_def c Cons)
      moreover have "covers (p # R) = covers D \<inter> {seq..}"
        using False R by (auto simp: Cons)
      ultimately show ?thesis
        using ok1 rcv cov by (simp add: F1 Cons)
    qed
  qed
qed

lemma cleartonxt_ok:
  assumes "rq_ok Q"
  shows "\<exists>f Q'. cleartonxt Q = (f, Q') \<and> rq_ok Q' \<and> rq_rcv_nxt Q' = rq_rcv_nxt Q
     \<and> covers (rq_fifo Q') = covers (rq_fifo Q) \<inter> {rq_rcv_nxt Q..}"
  unfolding cleartonxt_def by (rule clearto_ok [OF assms])

lemma clear_ok: "rq_ok (rq_clear Q)" "rq_ok (rq_new v)"
  by (simp_all add: rq_clear_def rq_ok_def rq_new_def i32_def)

section \<open>Reports\<close>

text \<open>A segment cannot be extended on either side.\<close>

lemma segment_maximal:
  assumes "segs_ok ss" "s \<in> set ss"
  shows "sg_start s < sg_end s" "{sg_start s..<sg_end s} \<subseteq> covers ss" "sg_start s - 1 \<notin> covers ss"
    "sg_end s \<notin> covers ss"
proof -
  from split_list [OF assms(2)] obtain X Y where ss: "ss = X @ s # Y"
    by blast
  have so: "sg_start s < sg_end s" "\<forall>x\<in>set X. sg_end x < sg_start s" "\<forall>y\<in>set Y. sg_end s < sg_start y"
    using assms(1) by (simp_all add: ss segs_ok_append segs_ok_Cons)
  then show "sg_start s < sg_end s"
    by simp
  show "{sg_start s..<sg_end s} \<subseteq> covers ss"
    by (auto simp: ss)
  show "sg_start s - 1 \<notin> covers ss" "sg_end s \<notin> covers ss"
    using so by (fastforce simp: ss covers_def)+
qed

text \<open>The blocks of \<open>gensack\<close> are distinct segments, in the order of the LIFO.\<close>

definition sack_block :: "rqueue \<Rightarrow> nat \<Rightarrow> int \<times> int" where
  "sack_block Q a = (case seg_at a (rq_fifo Q) of None \<Rightarrow> (0, 0) | Some s \<Rightarrow> (sg_start s, sg_end s))"

lemma gensack_from_take:
  assumes "\<forall>a\<in>set as. seg_at a (rq_fifo Q) \<noteq> None"
  shows "gensack_from (rq_fifo Q) as n = map (sack_block Q) (take n as)"
  using assms
proof (induction as arbitrary: n)
  case (Cons a as)
  then show ?case
    by (cases n) (auto simp: sack_block_def)
qed simp

lemma gensack_blocks:
  assumes "rq_ok Q"
  shows "set (gensack n Q) \<subseteq> (\<lambda>s. (sg_start s, sg_end s)) ` set (rq_fifo Q)"
    and "length (gensack n Q) = min n (length (rq_fifo Q))"
    and "length (rq_fifo Q) \<le> n \<Longrightarrow> set (gensack n Q) = (\<lambda>s. (sg_start s, sg_end s)) ` set (rq_fifo Q)"
proof -
  have so: "segs_ok (rq_fifo Q)" and l: "distinct (rq_lifo Q)" "set (rq_lifo Q) = sg_addr ` set (rq_fifo Q)"
    using assms by (simp_all add: rq_ok_def)
  have at: "seg_at (sg_addr s) (rq_fifo Q) = Some s" if "s \<in> set (rq_fifo Q)" for s
    using seg_at_in [OF segs_ok_addr [OF so] that] .
  have "\<forall>a\<in>set (rq_lifo Q). seg_at a (rq_fifo Q) \<noteq> None"
    using at by (auto simp: l)
  then have g: "gensack n Q = map (sack_block Q) (take n (rq_lifo Q))"
    by (simp add: gensack_def gensack_from_take)
  have blk: "sack_block Q ` set (rq_lifo Q) = (\<lambda>s. (sg_start s, sg_end s)) ` set (rq_fifo Q)"
    unfolding l(2) image_image using at by (intro image_cong) (simp_all add: sack_block_def)
  have len: "length (rq_lifo Q) = length (rq_fifo Q)"
    using distinct_card [OF l(1)] distinct_card [OF segs_ok_addr [OF so]] l(2) by simp
  show "length (gensack n Q) = min n (length (rq_fifo Q))"
    by (simp add: g len min.commute)
  show "set (gensack n Q) \<subseteq> (\<lambda>s. (sg_start s, sg_end s)) ` set (rq_fifo Q)"
    unfolding g set_map using blk set_take_subset [of n "rq_lifo Q"] by blast
  show "set (gensack n Q) = (\<lambda>s. (sg_start s, sg_end s)) ` set (rq_fifo Q)" if "length (rq_fifo Q) \<le> n"
    unfolding g set_map using blk that len by simp
qed

text \<open>The next hole, and what lies above it.\<close>

definition above :: "int \<Rightarrow> seginfo list \<Rightarrow> seginfo list" where
  "above h ss = filter (\<lambda>s. h < sg_start s) ss"

lemma cnts_eq: "cnts ss = (int (length ss), sum_list (map seg_len ss))"
  by (induction ss) (auto simp: seg_len_def)

lemma above_all: "segs_ok ss \<Longrightarrow> (\<And>s. s \<in> set ss \<Longrightarrow> h < sg_start s) \<Longrightarrow> above h ss = ss"
  by (simp add: above_def)

lemma nexthole_from_spec:
  assumes "segs_ok ss" "nexthole_from seq ss = (h, n, b)"
  shows "(h = - 1 \<and> n = - 1 \<and> b = - 1 \<and> (\<forall>s\<in>set ss. sg_end s < seq))
     \<or> (seq \<le> h \<and> {seq..<h} \<subseteq> covers ss \<and> h \<notin> covers ss
        \<and> (n, b) = (if above h ss = [] then (- 1, - 1)
                    else (int (length (above h ss)), sum_list (map seg_len (above h ss)))))"
  using assms
proof (induction seq ss rule: nexthole_from.induct)
  case (2 seq p ps)
  have p: "sg_start p < sg_end p" "\<forall>t\<in>set ps. sg_end p < sg_start t" "segs_ok ps"
    using "2.prems"(1) by (simp_all add: segs_ok_Cons)
  have pos: "\<forall>t\<in>set ps. sg_start t < sg_end t"
    using p(3) by (simp add: segs_ok_def)
  consider (before) "seq < sg_start p" | (inside) "sg_start p \<le> seq" "seq \<le> sg_end p"
    | (after) "sg_end p < seq"
    by linarith
  then show ?case
  proof cases
    case before
    have "seq \<notin> covers (p # ps)"
      using before p by (fastforce simp: covers_def)
    moreover have "above seq (p # ps) = p # ps"
      using before p by (fastforce simp: above_def filter_id_conv)
    ultimately show ?thesis
      using "2.prems"(2) before by (auto simp: cnts_eq)
  next
    case inside
    have "above (sg_end p) (p # ps) = ps"
      using p by (simp add: above_def)
    moreover have "sg_end p \<notin> covers (p # ps)"
      using segment_maximal(4) [OF "2.prems"(1), of p] by simp
    ultimately show ?thesis
      using "2.prems"(2) inside by (auto simp: cnts_eq split: if_splits)
  next
    case after
    have eq: "nexthole_from seq ps = (h, n, b)"
      using "2.prems"(2) after p(1) by simp
    have "h \<notin> {sg_start p..<sg_end p}" "above h (p # ps) = above h ps" if "seq \<le> h"
      using that after p(1) by (auto simp: above_def)
    then show ?thesis
      using "2.IH" [OF _ _ p(3) eq] after p(1) by auto
  qed
qed auto

section \<open>Flags\<close>

text \<open>The flags of the queue and of its answers stay in any set of flags closed under their union.\<close>

definition flags_in :: "int set \<Rightarrow> rqueue \<Rightarrow> bool" where
  "flags_in P Q \<longleftrightarrow> (\<forall>s\<in>set (rq_fifo Q). sg_pflags s \<in> P)"

definition or_closed :: "int set \<Rightarrow> bool" where
  "or_closed P \<longleftrightarrow> 0 \<in> P \<and> (\<forall>x\<in>P. \<forall>y\<in>P. x OR y \<in> P)"

lemma seg_at_set: "seg_at a ss = Some s \<Longrightarrow> s \<in> set ss"
  by (induction ss) (auto split: if_splits)

lemma flags_in_rm [simp]:
  "flags_in P Q \<Longrightarrow> flags_in P (fremove a Q)"
  "flags_in P (sremove a Q) = flags_in P Q"
  "flags_in P (Q\<lparr>rq_total := t\<rparr>) = flags_in P Q"
  "flags_in P (Q\<lparr>rq_rcv_nxt := v\<rparr>) = flags_in P Q"
  by (auto simp: flags_in_def fremove_def sremove_def)

lemma flags_in_upd:
  "flags_in P Q \<Longrightarrow> (\<And>s. s \<in> set (rq_fifo Q) \<Longrightarrow> sg_pflags (f s) \<in> P) \<Longrightarrow> flags_in P (upd_seg a f Q)"
  by (auto simp: flags_in_def upd_seg_def)

lemma flags_in_at: "flags_in P Q \<Longrightarrow> seg_at a (rq_fifo Q) = Some s \<Longrightarrow> sg_pflags s \<in> P"
  by (auto simp: flags_in_def dest: seg_at_set)

lemma coalesce_flags:
  assumes "or_closed P" "flags_in P Q" "coalesce p n q Q = Some (f, Q')"
  shows "f \<in> P \<and> flags_in P Q'"
  using assms
  by (auto simp: coalesce_def Let_def or_closed_def flags_in_at bind_eq_Some_conv intro!: flags_in_upd
      split: option.splits if_splits)

lemma link_after_set: "set (link_after a n ss) \<subseteq> insert n (set ss)"
  by (induction ss) auto

lemma insert_flags:
  assumes P: "or_closed P" and Q: "flags_in P Q" and t: "t \<in> P"
    and i: "rq_insert p q start e t r c m Q = Some (f, Q')"
  shows "f \<in> P \<and> flags_in P Q'"
proof -
  define n where "n = \<lparr>sg_addr = rq_fresh Q, sg_start = start, sg_end = e, sg_pflags = t,
                       sg_rqflags = r, sg_cnt = c\<rparr>"
  define Q1 where "Q1 = rq_push (rq_fresh Q) (Q\<lparr>rq_fresh := Suc (rq_fresh Q),
     rq_fifo := (case p of None \<Rightarrow> n # rq_fifo Q | Some b \<Rightarrow> link_after b n (rq_fifo Q))\<rparr>)"
  define Q2 where "Q2 = Q1\<lparr>rq_total := i32 (rq_total Q1 + (e - start))\<rparr>"
  have "set (rq_fifo Q2) \<subseteq> insert n (set (rq_fifo Q))"
    using link_after_set by (auto simp: Q2_def Q1_def rq_push_def split: option.splits)
  then have Q2: "flags_in P Q2"
    using Q t by (auto simp: flags_in_def n_def)
  have "(if m then coalesce p (rq_fresh Q) q Q2
      else Some (t, if rq_rcv_nxt Q2 \<ge> start then Q2\<lparr>rq_rcv_nxt := e\<rparr> else Q2)) = Some (f, Q')"
    using i unfolding rq_insert_def Let_def Q2_def Q1_def n_def by (simp split: if_splits)
  then show ?thesis
    using coalesce_flags [OF P Q2] t Q2 by (auto split: if_splits)
qed

lemma kill_flags:
  assumes P: "or_closed P" and "flags_in P Q" "t \<in> P" "set rs \<subseteq> {s. sg_pflags s \<in> P}"
  shows "case kill start e rs t c alt Q of Inl (f, Q') \<Rightarrow> f \<in> P \<and> flags_in P Q'
    | Inr (t', c', alt', Q') \<Rightarrow> t' \<in> P \<and> flags_in P Q'"
  using assms(2-)
proof (induction start e rs t c alt Q rule: kill.induct)
  case (2 start e r rs t c alt Q)
  have r: "sg_pflags r \<in> P" "sg_pflags r OR t \<in> P" "t OR sg_pflags r \<in> P"
    using "2.prems" P by (auto simp: or_closed_def)
  then show ?case
    using "2.prems" "2.IH" by (auto intro!: flags_in_upd)
qed simp

lemma merge_flags:
  assumes P: "or_closed P" and Q: "flags_in P Q" and t: "t \<in> P"
    and m: "rq_merge p q start e t r c Q = Some (f, Q')"
  shows "f \<in> P \<and> flags_in P Q'"
proof -
  obtain p1 start1 c1 m1 Q1 where L: "merge_left p start t c Q = Some (p1, start1, c1, m1, Q1)"
    using m by (auto simp: rq_merge_def split: option.splits)
  obtain q1 e1 m2 Q2 where R: "merge_right q e t m1 Q1 = Some (q1, e1, m2, Q2)"
    using m L by (auto simp: rq_merge_def split: option.splits)
  have Q1: "flags_in P Q1"
    using L Q t P unfolding merge_left_def Let_def
    by (auto simp: or_closed_def flags_in_at intro!: flags_in_upd split: option.splits if_splits)
  have Q2: "flags_in P Q2"
    using R Q1 t P unfolding merge_right_def Let_def
    by (auto simp: or_closed_def flags_in_at intro!: flags_in_upd split: option.splits if_splits)
  show ?thesis
    using m Q2 t insert_flags [OF P Q2 t] unfolding rq_merge_def L R option.case prod.case Let_def
    by (auto split: if_splits list.splits)
qed

lemma again_flags:
  assumes "or_closed P" "flags_in P Q" "t \<in> P" "rq_again start e t r c Q = Some (f, Q')"
  shows "f \<in> P \<and> flags_in P Q'"
  using assms(2-)
proof (induction "length (rq_fifo Q)" arbitrary: t c Q rule: less_induct)
  case less
  note P = \<open>or_closed P\<close>
  have ne: "rq_fifo Q \<noteq> []"
    using less.prems(3) by (subst (asm) rq_again.simps) (auto split: list.splits)
  consider (tail) "start \<ge> sg_end (last (rq_fifo Q))"
    | (head) "\<not> start \<ge> sg_end (last (rq_fifo Q))" "e \<le> sg_start (hd (rq_fifo Q))"
    | (mid) "\<not> start \<ge> sg_end (last (rq_fifo Q))" "\<not> e \<le> sg_start (hd (rq_fifo Q))"
    by blast
  then show ?case
  proof cases
    case tail
    then show ?thesis
      using less.prems insert_flags [OF P less.prems(1,2)] unfolding rq_again_tail [OF ne tail] by blast
  next
    case head
    then show ?thesis
      using less.prems insert_flags [OF P less.prems(1,2)] unfolding rq_again_head [OF ne head] by blast
  next
    case mid
    define rs where "rs = seg_range (seg_before start (rq_fifo Q)) (seg_after e (rq_fifo Q)) (rq_fifo Q)"
    have rs: "set rs \<subseteq> set (rq_fifo Q)"
      unfolding rs_def by (rule seg_range_subset)
    then have "set rs \<subseteq> {s. sg_pflags s \<in> P}"
      using less.prems(1) by (auto simp: flags_in_def)
    note k = kill_flags [OF P less.prems(1,2) this, where start = start and e = e and c = c and alt = False]
    note eq = rq_again_mid [OF ne mid refl refl rs_def [symmetric]]
    show ?thesis
    proof (cases "kill start e rs t c False Q")
      case (Inl x)
      then show ?thesis
        using k less.prems(3) unfolding eq by auto
    next
      case (Inr y)
      obtain t1 c1 altered Q1 where y: "y = (t1, c1, altered, Q1)"
        by (cases y)
      have k1: "t1 \<in> P" "flags_in P Q1"
        using k unfolding Inr y by simp_all
      have shorter: "altered \<Longrightarrow> length (rq_fifo Q1) < length (rq_fifo Q)"
        using kill_shorter [OF Inr [unfolded y]] rs by blast
      note res = less.prems(3) [unfolded eq Inr y sum.case prod.case]
      show ?thesis
        using res insert_flags [OF P k1(2,1)] less.hyps [OF shorter k1(2,1)] merge_flags [OF P k1(2,1)]
        by (auto split: if_splits)
    qed
  qed
qed

lemma add_flags:
  assumes "or_closed P" "flags_in P Q" "t \<in> P" "rq_add start e t r Q = Some (f, Q')"
  shows "f \<in> P \<and> flags_in P Q'"
  using assms again_flags [OF assms(1-3)] by (auto simp: rq_add_def Let_def flags_in_def split: if_splits)

lemma clearto_flags:
  assumes P: "or_closed P" and Q: "flags_in P Q" "clearto seq Q = (f, Q')"
  shows "f \<in> P \<and> flags_in P Q'"
proof -
  have loop: "f1 \<in> P \<and> flags_in P Q1 \<and> set rs \<subseteq> set ps"
    if "clear_loop seq ps f0 Q0 = (f1, rs, Q1)" "flags_in P Q0" "f0 \<in> P" "\<forall>p\<in>set ps. sg_pflags p \<in> P"
    for ps f0 Q0 f1 rs Q1
    using that
  proof (induction seq ps f0 Q0 rule: clear_loop.induct)
    case (2 seq p ps flag Q)
    then show ?case
      using P by (fastforce simp: or_closed_def split: if_splits)
  qed simp
  obtain f1 rs Q1 where c: "clear_loop seq (rq_fifo Q) 0 Q = (f1, rs, Q1)"
    by (cases "clear_loop seq (rq_fifo Q) 0 Q")
  have l: "f1 \<in> P" "flags_in P Q1" "\<forall>s\<in>set rs. sg_pflags s \<in> P"
    using loop [OF c] Q(1) P by (auto simp: flags_in_def or_closed_def)
  show ?thesis
  proof (cases rs)
    case (Cons p ps)
    have p: "f1 OR sg_pflags p \<in> P"
      using l P Cons by (auto simp: or_closed_def)
    have "flags_in P (upd_seg a (\<lambda>s. s\<lparr>sg_start := seq\<rparr>) (Q1\<lparr>rq_total := t\<rparr>))" for a t
      using l(2) by (intro flags_in_upd) (auto simp: flags_in_def)
    then show ?thesis
      using Q(2) l p by (auto simp: clearto_def c Cons split: if_splits)
  qed (use Q(2) l in \<open>auto simp: clearto_def c\<close>)
qed

section \<open>Every queue is well formed\<close>

text \<open>The queues that the operations of the class can make, from segments that are not empty.\<close>

inductive rq_reachable :: "rqueue \<Rightarrow> bool" where
  new: "rq_reachable (rq_new v)"
| init: "rq_reachable Q \<Longrightarrow> rq_reachable (rq_init v Q)"
| clear: "rq_reachable Q \<Longrightarrow> rq_reachable (rq_clear Q)"
| add: "rq_reachable Q \<Longrightarrow> start < e \<Longrightarrow> rq_add start e t r Q = Some (f, Q') \<Longrightarrow> rq_reachable Q'"
| clearto: "rq_reachable Q \<Longrightarrow> clearto seq Q = (f, Q') \<Longrightarrow> rq_reachable Q'"
| cleartonxt: "rq_reachable Q \<Longrightarrow> cleartonxt Q = (f, Q') \<Longrightarrow> rq_reachable Q'"
| owner: "rq_reachable Q \<Longrightarrow> rq_reachable (Q\<lparr>rq_rcv_nxt := v\<rparr>)"

lemma rq_ok_rcv [simp]: "rq_ok (Q\<lparr>rq_rcv_nxt := v\<rparr>) = rq_ok Q"
  by (simp add: rq_ok_def)

lemma reachable_ok: "rq_reachable Q \<Longrightarrow> rq_ok Q"
proof (induction rule: rq_reachable.induct)
  case (add Q start e t r f Q')
  then show ?case
    using add_ok [of Q start e t r] by (auto simp: added_def)
next
  case (clearto Q seq f Q')
  then show ?case
    using clearto_ok [of Q seq] by auto
next
  case (cleartonxt Q f Q')
  then show ?case
    using cleartonxt_ok [of Q] by auto
qed (simp_all add: clear_ok rq_init_def)

lemma finite_covers [simp]: "finite (covers ss)"
  by (simp add: covers_def)

lemma sum_len_card: "segs_ok ss \<Longrightarrow> sum_list (map seg_len ss) = int (card (covers ss))"
proof (induction ss)
  case (Cons p ps)
  then have p: "sg_start p < sg_end p" "\<forall>t\<in>set ps. sg_end p < sg_start t"
    by (simp_all add: segs_ok_Cons)
  then have "{sg_start p..<sg_end p} \<inter> covers ps = {}"
    by (fastforce simp: covers_def)
  then show ?case
    using Cons p by (simp add: segs_ok_Cons card_Un_disjoint seg_len_def)
qed simp

lemma total_ok:
  assumes "rq_ok Q" "covers (rq_fifo Q) \<subseteq> {0..<2147483647}"
  shows "rq_total Q = int (card (covers (rq_fifo Q)))"
proof -
  have "card (covers (rq_fifo Q)) \<le> card {0..<2147483647 :: int}"
    by (rule card_mono [OF _ assms(2)]) simp
  then have "int (card (covers (rq_fifo Q))) \<le> 2147483647"
    by simp
  then show ?thesis
    using assms(1) sum_len_card by (simp add: rq_ok_def i32_id)
qed

text \<open>
  Two surprises: a segment that extends a block does not bring it to the top of the LIFO, so that
  the first block reported is not the one that changed last; and a segment below \<open>rcv_nxt\<close>, which
  the receiver trims but the scoreboard of a sender does not, moves \<open>rcv_nxt\<close> back.
\<close>

definition two_blocks :: "rqueue option" where
  "two_blocks = Option.bind (rq_add 10 20 0 0 (rq_new 0)) (\<lambda>(f, Q). map_option snd (rq_add 30 40 0 0 Q))"

lemma merged_block_not_first:
  "map_option (gensack 3) (Option.bind two_blocks (\<lambda>Q. map_option snd (rq_add 20 25 0 0 Q))) = Some [(30, 40), (10, 25)]"
  by code_simp

lemma add_moves_back: "map_option (\<lambda>(f, Q). rq_rcv_nxt Q) (rq_add 10 20 0 0 (rq_new 100)) = Some 20"
  by code_simp

end
