(* ===== verification/Full_Recv.thy ===== *)
theory Full_Recv
  imports Reassembly_Add Dctcp
begin

text \<open>
  The data path of the full TCP agent's receiver (\<open>recv\<close> and \<open>reass\<close> in \<open>tcp/tcp-full.cc\<close>) over the
  reassembly queue, and the SACK options it sends.

  The queue refers to the agent's \<open>rcv_nxt_\<close> (\<open>rq_(rcv_nxt_)\<close>): the number is kept in the queue,
  \<open>set_rcv\<close> copies it to the ECN part of the state (theory \<open>Dctcp\<close>), which sends the
  acknowledgments. A sent segment is \<open>output_ack\<close>.
\<close>

unbundle bit_operations_syntax

section \<open>The receiver's state\<close>

definition TH_FIN :: int where "TH_FIN = 0x01"
definition TH_SYN :: int where "TH_SYN = 0x02"
definition TH_PUSH :: int where "TH_PUSH = 0x08"

definition TCPS_CLOSED_num :: int where "TCPS_CLOSED_num = 0"
definition TCPS_SYN_RECEIVED_num :: int where "TCPS_SYN_RECEIVED_num = 3"
definition TCPS_ESTABLISHED_num :: int where "TCPS_ESTABLISHED_num = 4"
definition TCPS_CLOSE_WAIT_num :: int where "TCPS_CLOSE_WAIT_num = 5"
definition TCPS_FIN_WAIT_1_num :: int where "TCPS_FIN_WAIT_1_num = 6"
definition TCPS_CLOSING_num :: int where "TCPS_CLOSING_num = 7"
definition TCPS_FIN_WAIT_2_num :: int where "TCPS_FIN_WAIT_2_num = 9"

lemmas tcp_codes = TH_FIN_def TH_SYN_def TH_PUSH_def TCPS_CLOSED_num_def TCPS_SYN_RECEIVED_num_def
  TCPS_ESTABLISHED_num_def TCPS_CLOSE_WAIT_num_def TCPS_FIN_WAIT_1_num_def TCPS_CLOSING_num_def TCPS_FIN_WAIT_2_num_def

definition have_rcvd_fin :: "int \<Rightarrow> bool" where
  "have_rcvd_fin s \<longleftrightarrow> s = TCPS_CLOSING_num \<or> s = TCPS_CLOSED_num \<or> s = TCPS_CLOSE_WAIT_num"

definition have_rcvd_syn :: "int \<Rightarrow> bool" where
  "have_rcvd_syn s \<longleftrightarrow> s \<ge> TCPS_SYN_RECEIVED_num"

definition flag_set :: "int \<Rightarrow> int \<Rightarrow> bool" where
  "flag_set fl f \<longleftrightarrow> fl AND f \<noteq> 0"

record tcp_seg =
  ts_seqno :: int
  ts_size :: int
  ts_hlen :: int
  ts_flags :: int

record full_rx =
  fr_q :: rqueue
  fr_ecn :: ecn_rx
  fr_state :: int
  fr_delivered :: int \<comment> \<open>bytes passed to the application\<close>

definition set_rcv :: "rqueue \<Rightarrow> full_rx \<Rightarrow> full_rx" where
  "set_rcv q R = R\<lparr>fr_q := q, fr_ecn := (fr_ecn R)\<lparr>rx_rcv_nxt := rq_rcv_nxt q\<rparr>\<rparr>"

definition ack_now :: "full_rx \<Rightarrow> full_rx" where
  "ack_now R = R\<lparr>fr_ecn := (fr_ecn R)\<lparr>rx_acknow := True\<rparr>\<rparr>"

section \<open>Trimming\<close>

text \<open>
  Data below \<open>rcv_nxt\<close> are cut from the front of the segment: the segment, its remaining payload,
  the flags still to be looked at, and the state.
\<close>

definition trim_data :: "tcp_seg \<Rightarrow> int \<Rightarrow> int \<Rightarrow> full_rx \<Rightarrow> tcp_seg \<times> int \<times> int \<times> full_rx" where
  "trim_data s datalen tiflags R =
     (let todrop = i32 (rq_rcv_nxt (fr_q R) - ts_seqno s)
      in if 0 < todrop \<and> (flag_set tiflags TH_SYN \<or> 0 < datalen)
         then let (tiflags, s, todrop) =
                    (if flag_set tiflags TH_SYN
                     then (tiflags AND NOT TH_SYN,
                           s\<lparr>ts_seqno := i32 (ts_seqno s + 1), ts_size := i32 (ts_size s - 1)\<rparr>, i32 (todrop - 1))
                     else (tiflags, s, todrop));
                  (tiflags, todrop, R) =
                    (if todrop > datalen \<or> (todrop = datalen \<and> \<not> flag_set tiflags TH_FIN)
                     then (tiflags AND NOT TH_FIN, datalen, ack_now R)
                     else (tiflags, todrop, R))
              in (s\<lparr>ts_seqno := i32 (ts_seqno s + todrop), ts_size := i32 (ts_size s - todrop)\<rparr>,
                  i32 (datalen - todrop), tiflags, R)
         else (s, datalen, tiflags, R))"

section \<open>Reassembly\<close>

text \<open>\<open>reass\<close>: \<open>None\<close> is \<open>abort\<close>, on a segment without data or FIN or in the queue itself.\<close>

definition reass :: "tcp_seg \<Rightarrow> int \<Rightarrow> rqueue \<Rightarrow> (int \<times> rqueue) option" where
  "reass s state q =
     (let start = ts_seqno s;
          e = i32 (start + ts_size s - ts_hlen s);
          tiflags = ts_flags s;
          fillshole = (start = rq_rcv_nxt q)
      in if start = e \<and> \<not> flag_set tiflags TH_FIN then None
         else case rq_add start e tiflags 0 q of
           None \<Rightarrow> None
         | Some (flags, q1) \<Rightarrow>
             if \<not> have_rcvd_syn state \<or> \<not> fillshole then Some (0, q1)
             else if state = TCPS_SYN_RECEIVED_num \<and> e > start then Some (0, q1)
             else (case cleartonxt q1 of (flags2, q2) \<Rightarrow> Some (flags OR flags2, q2)))"

text \<open>
  The segment's data: passed on at once when it is the next and nothing is queued, else put in the
  queue, with whatever becomes contiguous passed on. The result has the flags still to be looked at
  and \<open>needoutput\<close>.
\<close>

definition accept_data :: "tcp_seg \<Rightarrow> int \<Rightarrow> int \<Rightarrow> bool \<Rightarrow> full_rx \<Rightarrow> (int \<times> bool \<times> full_rx) option" where
  "accept_data s datalen tiflags needoutput R =
     (if (0 < datalen \<or> flag_set tiflags TH_FIN) \<and> \<not> have_rcvd_fin (fr_state R)
      then if ts_seqno s = rq_rcv_nxt (fr_q R) \<and> rq_empty (fr_q R)
           then let R1 = R\<lparr>fr_ecn := (ack_previous (fr_ecn R))\<lparr>rx_delack := True\<rparr>\<rparr>;
                    R2 = set_rcv ((fr_q R1)\<lparr>rq_rcv_nxt := i32 (rq_rcv_nxt (fr_q R1) + datalen)\<rparr>) R1;
                    R3 = (if datalen \<noteq> 0 then R2\<lparr>fr_delivered := fr_delivered R2 + datalen\<rparr> else R2)
                in Some (ts_flags s AND TH_FIN, need_send (fr_ecn R3), R3)
           else (case reass s (fr_state R) (fr_q R) of
               None \<Rightarrow> None
             | Some (flags, q) \<Rightarrow>
                 let old = rq_rcv_nxt (fr_q R);
                     R1 = set_rcv q R;
                     R2 = (if rq_rcv_nxt q > old
                           then R1\<lparr>fr_delivered := fr_delivered R1 + i32 (rq_rcv_nxt q - old)\<rparr> else R1);
                     R3 = ack_now R2
                 in Some (flags, if flag_set flags TH_PUSH then need_send (fr_ecn R3) else needoutput, R3))
      else Some (tiflags AND NOT TH_FIN, needoutput, R))"

text \<open>A FIN in order: it takes a sequence number, and the state changes.\<close>

definition take_fin :: "int \<Rightarrow> full_rx \<Rightarrow> full_rx" where
  "take_fin tiflags R =
     (if flag_set tiflags TH_FIN
      then let R1 = (if \<not> have_rcvd_fin (fr_state R)
                     then set_rcv ((fr_q R)\<lparr>rq_rcv_nxt := i32 (rq_rcv_nxt (fr_q R) + 1)\<rparr>) (ack_now R) else R);
               st = fr_state R1
           in if st = TCPS_SYN_RECEIVED_num \<or> st = TCPS_ESTABLISHED_num then R1\<lparr>fr_state := TCPS_CLOSE_WAIT_num\<rparr>
              else if st = TCPS_FIN_WAIT_1_num then R1\<lparr>fr_state := TCPS_CLOSING_num\<rparr>
              else if st = TCPS_FIN_WAIT_2_num then R1\<lparr>fr_state := TCPS_CLOSED_num\<rparr>
              else R1
      else R)"

text \<open>
  An acknowledgment is forced out when it is due. (When none is due the code tries to send new data;
  that is in \<open>recv_step6\<close> of \<open>Full_Agent\<close>.)
\<close>

definition force_output :: "bool \<Rightarrow> full_rx \<Rightarrow> full_rx" where
  "force_output needoutput R =
     (if needoutput \<or> rx_acknow (fr_ecn R) then R\<lparr>fr_ecn := output_ack (fr_ecn R)\<rparr> else R)"

text \<open>
  What the slow path of \<open>recv\<close> does to the receiver's state with the data of a segment; the whole of
  \<open>recv\<close>, with the sender's state, is \<open>agent_recv\<close> in \<open>Full_Agent\<close>. The marks of the packet are noted between the
  trimming and the data. The two \<open>goto\<close>s between them, for a SYN and for a segment without ACK, do
  not take the data of a segment.
\<close>

definition recv_data :: "bool \<Rightarrow> bool \<Rightarrow> bool \<Rightarrow> tcp_seg \<Rightarrow> full_rx \<Rightarrow> full_rx option" where
  "recv_data ce ect cwr s R =
     (case trim_data s (i32 (ts_size s - ts_hlen s)) (ts_flags s) R of
       (s1, datalen, tiflags, R1) \<Rightarrow>
         (case accept_data s1 datalen tiflags False
             (R1\<lparr>fr_ecn := ce_update ce ect cwr datalen (fr_ecn R1)\<rparr>) of
           None \<Rightarrow> None
         | Some (flags, needoutput, R2) \<Rightarrow> Some (force_output needoutput (take_fin flags R2))))"

text \<open>The SACK blocks of a segment that leaves (\<open>build_options\<close>), and the bytes they add to its header.\<close>

definition sack_options :: "nat \<Rightarrow> int \<Rightarrow> int \<Rightarrow> int \<Rightarrow> rqueue \<Rightarrow> int \<times> (int \<times> int) list" where
  "sack_options max_sack_blocks block_size option_size hdr q =
     (if rq_empty q then (hdr, [])
      else let blks = gensack max_sack_blocks q
           in (i32 (hdr + (i32 (int (length blks) * block_size) + option_size)), blks))"

section \<open>What has arrived\<close>

definition got :: "rqueue \<Rightarrow> int set" where
  "got Q = {..<rq_rcv_nxt Q} \<union> covers (rq_fifo Q)"

lemma aheadI:
  assumes "rq_ok Q" "rq_rcv_nxt Q \<notin> covers (rq_fifo Q)" "covers (rq_fifo Q) \<subseteq> {rq_rcv_nxt Q..}"
  shows "ahead Q"
  unfolding ahead_def
proof
  fix s
  assume "s \<in> set (rq_fifo Q)"
  then have "sg_start s \<in> covers (rq_fifo Q)"
    using segment_maximal(1,2) assms(1) by (force simp: rq_ok_def)
  then show "rq_rcv_nxt Q < sg_start s"
    using assms(2,3) by (metis atLeast_iff order_le_less subsetD)
qed

lemma ahead_covers: "ahead Q \<Longrightarrow> x \<in> covers (rq_fifo Q) \<Longrightarrow> rq_rcv_nxt Q < x"
  by (fastforce simp: ahead_def covers_def)

text \<open>With a queue of later bytes, \<open>rcv_nxt\<close> is the first byte that has not arrived.\<close>

lemma first_missing:
  assumes "ahead Q"
  shows "rq_rcv_nxt Q \<notin> got Q" "{..<rq_rcv_nxt Q} \<subseteq> got Q"
  using ahead_covers [OF assms] by (auto simp: got_def)

text \<open>A segment that does not fill the hole leaves \<open>rcv_nxt\<close>; one that does moves it past a whole block.\<close>

lemma added_later:
  assumes "added start e Q Q'" "ahead Q" "rq_rcv_nxt Q < start" "start < e"
  shows "rq_rcv_nxt Q' = rq_rcv_nxt Q" "ahead Q'"
proof -
  have ok: "rq_ok Q'" and cov: "covers (rq_fifo Q') = covers (rq_fifo Q) \<union> {start..<e}"
    and mv: "moves start Q Q'"
    using assms by (simp_all add: added_def)
  have gt: "rq_rcv_nxt Q < x" if "x \<in> covers (rq_fifo Q')" for x
    using that assms(3) ahead_covers [OF assms(2)] unfolding cov by auto
  have "start \<in> covers (rq_fifo Q')"
    unfolding cov using assms(4) by simp
  then obtain r where r: "r \<in> set (rq_fifo Q')" "sg_start r \<le> start" "start < sg_end r"
    by (auto simp: covers_def)
  then have "rq_rcv_nxt Q < sg_start r"
    by (intro gt) (auto simp: covers_def)
  then show v: "rq_rcv_nxt Q' = rq_rcv_nxt Q"
    using mv r by (auto simp: moves_def)
  show "ahead Q'"
    by (rule aheadI [OF ok]) (use gt in \<open>force simp: v\<close>)+
qed

lemma added_next:
  assumes "added start e Q Q'" "ahead Q" "rq_rcv_nxt Q = start" "start < e"
  shows "start < rq_rcv_nxt Q'" "{start..<rq_rcv_nxt Q'} \<subseteq> covers (rq_fifo Q')"
    "rq_rcv_nxt Q' \<notin> covers (rq_fifo Q')"
proof -
  have ok: "rq_ok Q'" and cov: "covers (rq_fifo Q') = covers (rq_fifo Q) \<union> {start..<e}"
    and mv: "moves start Q Q'"
    using assms by (simp_all add: added_def)
  have "start \<in> covers (rq_fifo Q')"
    unfolding cov using assms(4) by simp
  then obtain r where r: "r \<in> set (rq_fifo Q')" "sg_start r \<le> start" "start < sg_end r"
    by (auto simp: covers_def)
  then have v: "rq_rcv_nxt Q' = sg_end r"
    using mv assms(3) by (simp add: moves_def)
  note m = segment_maximal [OF _ r(1)]
  show "start < rq_rcv_nxt Q'" "{start..<rq_rcv_nxt Q'} \<subseteq> covers (rq_fifo Q')"
    "rq_rcv_nxt Q' \<notin> covers (rq_fifo Q')"
    using r m ok by (auto simp: v rq_ok_def)
qed

lemma added_next_missing:
  assumes "added start e Q Q'" "ahead Q" "rq_rcv_nxt Q \<le> start" "start < e"
  shows "rq_rcv_nxt Q \<le> rq_rcv_nxt Q' \<and> {rq_rcv_nxt Q..<rq_rcv_nxt Q'} \<subseteq> covers (rq_fifo Q')
    \<and> rq_rcv_nxt Q' \<notin> covers (rq_fifo Q')"
proof (cases "rq_rcv_nxt Q = start")
  case True
  then show ?thesis
    using added_next [OF assms(1,2) _ assms(4)] by auto
next
  case False
  then show ?thesis
    using added_later [OF assms(1,2) _ assms(4)] assms(3) ahead_covers [of Q'] by fastforce
qed

text \<open>Flags without FIN.\<close>

definition no_fin :: "int set" where
  "no_fin = {x. \<not> flag_set x TH_FIN}"

lemma no_fin_closed: "or_closed no_fin"
  by (simp add: or_closed_def no_fin_def flag_set_def bit.conj_disj_distrib2)

lemma clear_fin [simp]: "\<not> flag_set (x AND NOT TH_FIN) TH_FIN"
  by (simp add: flag_set_def and.assoc)

lemma only_fin [simp]: "flag_set (x AND TH_FIN) TH_FIN = flag_set x TH_FIN"
  by (simp add: flag_set_def and.assoc)

text \<open>In a synchronised state \<open>reass\<close> adds the segment and passes on what has become contiguous.\<close>

definition synchronised :: "int \<Rightarrow> bool" where
  "synchronised st \<longleftrightarrow> st = TCPS_ESTABLISHED_num \<or> st = TCPS_FIN_WAIT_1_num \<or> st = TCPS_FIN_WAIT_2_num"

lemma synchronisedD:
  "synchronised st \<Longrightarrow> have_rcvd_syn st" "synchronised st \<Longrightarrow> \<not> have_rcvd_fin st"
  "synchronised st \<Longrightarrow> st \<noteq> TCPS_SYN_RECEIVED_num"
  by (auto simp: synchronised_def have_rcvd_syn_def have_rcvd_fin_def tcp_codes)

lemma reass_ok:
  assumes ok: "rq_ok q" "ahead q" "flags_in no_fin q" and s: "rq_rcv_nxt q \<le> start" "start < e"
    and seg: "ts_seqno s = start" "i32 (start + ts_size s - ts_hlen s) = e" "\<not> flag_set (ts_flags s) TH_FIN"
    and st: "synchronised st"
  shows "\<exists>f q'. reass s st q = Some (f, q') \<and> rq_ok q' \<and> ahead q' \<and> flags_in no_fin q' \<and> f \<in> no_fin
     \<and> got q' = got q \<union> {start..<e} \<and> rq_rcv_nxt q \<le> rq_rcv_nxt q'"
proof -
  obtain f q1 where a: "rq_add start e (ts_flags s) 0 q = Some (f, q1)" and ad: "added start e q q1"
    using add_ok [OF ok(1) s(2)] by blast
  have fl: "f \<in> no_fin" "flags_in no_fin q1"
    using add_flags [OF no_fin_closed ok(3) _ a] seg(3) by (simp_all add: no_fin_def)
  have ok1: "rq_ok q1" and cov: "covers (rq_fifo q1) = covers (rq_fifo q) \<union> {start..<e}"
    using ad by (simp_all add: added_def)
  note r = reass_def [of s st q, unfolded Let_def seg(1) seg(2) a option.case prod.case]
  show ?thesis
  proof (cases "start = rq_rcv_nxt q")
    case False
    then have lt: "rq_rcv_nxt q < start"
      using s by simp
    note n = added_later [OF ad ok(2) lt s(2)]
    have "reass s st q = Some (0, q1)"
      using s False by (simp add: r)
    moreover have "0 \<in> no_fin"
      using no_fin_closed by (simp add: or_closed_def)
    moreover have "got q1 = got q \<union> {start..<e}"
      by (auto simp: got_def n cov)
    ultimately show ?thesis
      using ok1 n fl by simp
  next
    case True
    note n = added_next [OF ad ok(2) True [symmetric] s(2)]
    obtain f2 q2 where c: "cleartonxt q1 = (f2, q2)" "rq_ok q2" "rq_rcv_nxt q2 = rq_rcv_nxt q1"
      "covers (rq_fifo q2) = covers (rq_fifo q1) \<inter> {rq_rcv_nxt q1..}"
      using cleartonxt_ok [OF ok1] by blast
    have fl2: "f2 \<in> no_fin" "flags_in no_fin q2"
      using clearto_flags [OF no_fin_closed fl(2) c(1) [unfolded cleartonxt_def]] by simp_all
    have "reass s st q = Some (f OR f2, q2)"
      using s True synchronisedD [OF st] by (simp add: r c(1))
    moreover have "f OR f2 \<in> no_fin"
      using no_fin_closed fl fl2 by (simp add: or_closed_def)
    moreover have "ahead q2"
      by (rule aheadI [OF c(2)]) (use n c in auto)
    moreover have "got q2 = got q \<union> {start..<e}"
    proof -
      have "got q2 = {..<rq_rcv_nxt q1} \<union> covers (rq_fifo q1)"
        by (auto simp: got_def c)
      also have "\<dots> = {..<start} \<union> covers (rq_fifo q1)"
        using n(1,2) by (auto simp: subset_iff) (meson atLeastLessThan_iff not_le_imp_less)
      finally show ?thesis
        by (auto simp: got_def cov True)
    qed
    ultimately show ?thesis
      using c fl2 n(1) True by simp
  qed
qed

section \<open>A segment of data\<close>

definition SEQ_LIMIT :: int where "SEQ_LIMIT = 2147483647"

definition rx_ready :: "full_rx \<Rightarrow> bool" where
  "rx_ready R \<longleftrightarrow> rq_ok (fr_q R) \<and> ahead (fr_q R) \<and> flags_in no_fin (fr_q R)
     \<and> 0 \<le> rq_rcv_nxt (fr_q R) \<and> got (fr_q R) \<subseteq> {..<SEQ_LIMIT}
     \<and> rx_rcv_nxt (fr_ecn R) = rq_rcv_nxt (fr_q R) \<and> synchronised (fr_state R)"

lemma rx_ready_le: "rx_ready R \<Longrightarrow> 0 \<le> rq_rcv_nxt (fr_q R) \<and> rq_rcv_nxt (fr_q R) \<le> SEQ_LIMIT"
proof -
  assume r: "rx_ready R"
  then have "rq_rcv_nxt (fr_q R) - 1 \<in> got (fr_q R)"
    by (simp add: got_def)
  then have "rq_rcv_nxt (fr_q R) - 1 < SEQ_LIMIT"
    using r unfolding rx_ready_def by blast
  then show ?thesis
    using r by (simp add: rx_ready_def)
qed

text \<open>A segment of \<open>n\<close> bytes from \<open>m\<close>, without SYN or FIN.\<close>

definition data_seg :: "tcp_seg \<Rightarrow> int \<Rightarrow> int \<Rightarrow> bool" where
  "data_seg s m n \<longleftrightarrow> ts_seqno s = m \<and> ts_size s - ts_hlen s = n \<and> 0 \<le> m \<and> 0 < n \<and> m + n \<le> SEQ_LIMIT
     \<and> 0 \<le> ts_hlen s \<and> ts_size s \<le> SEQ_LIMIT \<and> \<not> flag_set (ts_flags s) TH_SYN \<and> \<not> flag_set (ts_flags s) TH_FIN"

lemma ecn_keeps_rcv [simp]:
  "rx_rcv_nxt (output_ack r) = rx_rcv_nxt r"
  "rx_rcv_nxt (ack_previous r) = rx_rcv_nxt r"
  "rx_rcv_nxt (ce_update ce ect cwr n r) = rx_rcv_nxt r"
  by (simp_all add: output_ack_def ack_previous_def ce_update_def Let_def)

lemma rx_ready_ecn: "rx_ready (R\<lparr>fr_ecn := r\<rparr>) \<longleftrightarrow> rx_ready R" if "rx_rcv_nxt r = rx_rcv_nxt (fr_ecn R)"
  using that by (simp add: rx_ready_def)

lemma rx_ready_delivered [simp]: "rx_ready (R\<lparr>fr_delivered := d\<rparr>) \<longleftrightarrow> rx_ready R"
  by (simp add: rx_ready_def)

text \<open>The new data are passed on or queued.\<close>

definition took :: "int \<Rightarrow> int \<Rightarrow> full_rx \<Rightarrow> full_rx \<Rightarrow> bool" where
  "took start e R R' \<longleftrightarrow> rx_ready R' \<and> got (fr_q R') = got (fr_q R) \<union> {start..<e}
     \<and> fr_delivered R' - fr_delivered R = rq_rcv_nxt (fr_q R') - rq_rcv_nxt (fr_q R)
     \<and> fr_state R' = fr_state R"

lemma accept_ok:
  assumes R: "rx_ready R" and s: "rq_rcv_nxt (fr_q R) \<le> start" "start < e" "e \<le> SEQ_LIMIT"
    and seg: "ts_seqno s = start" "i32 (start + ts_size s - ts_hlen s) = e" "\<not> flag_set (ts_flags s) TH_FIN"
    and n: "datalen = e - start"
  shows "\<exists>fl out R'. accept_data s datalen tf no R = Some (fl, out, R') \<and> \<not> flag_set fl TH_FIN \<and> took start e R R'
     \<and> (start = rq_rcv_nxt (fr_q R) \<and> rq_fifo (fr_q R) = [] \<or> rx_acknow (fr_ecn R'))"
proof -
  have st: "synchronised (fr_state R)" and q: "rq_ok (fr_q R)" "ahead (fr_q R)" "flags_in no_fin (fr_q R)"
    and lim: "got (fr_q R) \<subseteq> {..<SEQ_LIMIT}" and pos: "0 \<le> rq_rcv_nxt (fr_q R)"
    using R by (simp_all add: rx_ready_def)
  have data: "0 < datalen" "\<not> have_rcvd_fin (fr_state R)"
    using n s synchronisedD [OF st] by simp_all
  show ?thesis
  proof (cases "start = rq_rcv_nxt (fr_q R) \<and> rq_fifo (fr_q R) = []")
    case True
    define q' where "q' = (fr_q R)\<lparr>rq_rcv_nxt := e\<rparr>"
    have v: "i32 (rq_rcv_nxt (fr_q R) + datalen) = e"
      using True n s pos by (simp add: i32_id SEQ_LIMIT_def)
    define R' where "R' = (set_rcv q' (R\<lparr>fr_ecn := (ack_previous (fr_ecn R))\<lparr>rx_delack := True\<rparr>\<rparr>))
       \<lparr>fr_delivered := fr_delivered R + datalen\<rparr>"
    have "accept_data s datalen tf no R = Some (ts_flags s AND TH_FIN, need_send (fr_ecn R'), R')"
      using data True seg(1) v by (simp add: accept_data_def Let_def rq_empty_def R'_def q'_def set_rcv_def)
    moreover have "took start e R R'"
    proof -
      have g: "got q' = got (fr_q R) \<union> {start..<e}" and g0: "got (fr_q R) = {..<start}"
        using True s by (auto simp: got_def q'_def)
      have "{..<start} \<union> {start..<e} = {..<e}"
        using s by auto
      then have "got q' \<subseteq> {..<SEQ_LIMIT}"
        using s by (simp add: g g0)
      then show ?thesis
        using True q s pos st g n
        by (simp add: took_def rx_ready_def R'_def q'_def set_rcv_def rq_ok_def ahead_def flags_in_def)
    qed
    ultimately show ?thesis
      using True seg(3)
      by (intro exI [of _ "ts_flags s AND TH_FIN"] exI [of _ "need_send (fr_ecn R')"] exI [of _ R']) simp
  next
    case False
    from reass_ok [OF q s(1,2) seg st] obtain f q' where
      r: "reass s (fr_state R) (fr_q R) = Some (f, q')" and q': "rq_ok q'" "ahead q'" "flags_in no_fin q'" "f \<in> no_fin"
      "got q' = got (fr_q R) \<union> {start..<e}" "rq_rcv_nxt (fr_q R) \<le> rq_rcv_nxt q'"
      by blast
    have "got q' \<subseteq> {..<SEQ_LIMIT}"
      using q'(5) lim s by auto
    moreover from this have "rq_rcv_nxt q' - 1 < SEQ_LIMIT"
      by (auto simp: got_def subset_iff dest!: spec [of _ "rq_rcv_nxt q' - 1"])
    ultimately have lim': "got q' \<subseteq> {..<SEQ_LIMIT}" and d: "i32 (rq_rcv_nxt q' - rq_rcv_nxt (fr_q R)) = rq_rcv_nxt q' - rq_rcv_nxt (fr_q R)"
      using q'(6) pos by (simp_all add: i32_id SEQ_LIMIT_def)
    define R' where "R' = ack_now ((set_rcv q' R)\<lparr>fr_delivered := fr_delivered R + (rq_rcv_nxt q' - rq_rcv_nxt (fr_q R))\<rparr>)"
    have "\<exists>out. accept_data s datalen tf no R = Some (f, out, R')"
      using data False seg(1) r d q'(6)
      by (auto simp: accept_data_def Let_def rq_empty_def R'_def set_rcv_def)
    moreover have "took start e R R'"
      using q' st pos lim' by (simp add: took_def rx_ready_def R'_def set_rcv_def ack_now_def)
    moreover have "rx_acknow (fr_ecn R')"
      by (simp add: R'_def ack_now_def)
    ultimately show ?thesis
      using q'(4) False by (auto simp: no_fin_def)
  qed
qed

text \<open>Trimming: nothing to cut, the front cut off, or a duplicate, which is acknowledged at once.\<close>

lemma trim_ok:
  assumes R: "0 \<le> rq_rcv_nxt (fr_q R) \<and> rq_rcv_nxt (fr_q R) \<le> SEQ_LIMIT" and s: "data_seg s m n"
  obtains (fresh) "rq_rcv_nxt (fr_q R) \<le> m" "trim_data s n (ts_flags s) R = (s, n, ts_flags s, R)"
  | (front) "m < rq_rcv_nxt (fr_q R)" "rq_rcv_nxt (fr_q R) < m + n"
      "trim_data s n (ts_flags s) R =
         (s\<lparr>ts_seqno := rq_rcv_nxt (fr_q R), ts_size := ts_size s - (rq_rcv_nxt (fr_q R) - m)\<rparr>,
          m + n - rq_rcv_nxt (fr_q R), ts_flags s, R)"
  | (dup) s' where "m + n \<le> rq_rcv_nxt (fr_q R)"
      "trim_data s n (ts_flags s) R = (s', 0, ts_flags s AND NOT TH_FIN, ack_now R)"
proof -
  let ?v = "rq_rcv_nxt (fr_q R)"
  have v: "0 \<le> ?v" "?v \<le> 2147483647"
    using R by (simp_all add: SEQ_LIMIT_def)
  have sg: "ts_seqno s = m" "0 < n" "0 \<le> m" "m + n \<le> 2147483647" "\<not> flag_set (ts_flags s) TH_SYN"
    "\<not> flag_set (ts_flags s) TH_FIN" "ts_size s = ts_hlen s + n" "0 \<le> ts_hlen s" "ts_size s \<le> 2147483647"
    using s by (simp_all add: data_seg_def SEQ_LIMIT_def)
  have t: "i32 (?v - m) = ?v - m"
    using v sg by (simp add: i32_id)
  show ?thesis
  proof (cases "?v \<le> m")
    case True
    then show ?thesis
      using sg t by (intro fresh) (simp_all add: trim_data_def)
  next
    case gt: False
    show ?thesis
    proof (cases "?v < m + n")
      case True
      have i: "i32 (m + (?v - m)) = ?v" "i32 (ts_size s - (?v - m)) = ts_size s - (?v - m)"
        "i32 (n - (?v - m)) = m + n - ?v"
        using v sg True gt by (simp_all add: i32_id)
      show ?thesis
        using sg t True gt i by (intro front) (simp_all add: trim_data_def)
    next
      case False
      have i: "i32 0 = 0"
        by (simp add: i32_def)
      have c: "?v - m > n \<or> (?v - m = n \<and> \<not> flag_set (ts_flags s) TH_FIN)" "0 < ?v - m"
        using False gt sg by auto
      have "trim_data s n (ts_flags s) R
        = (s\<lparr>ts_seqno := i32 (m + n), ts_size := i32 (ts_size s - n)\<rparr>, 0, ts_flags s AND NOT TH_FIN, ack_now R)"
        unfolding trim_data_def sg(1) t Let_def using sg c False by (auto simp: i)
      then show ?thesis
        using False by (intro dup) simp_all
    qed
  qed
qed

lemma need_send_acknow: "rx_acknow r \<Longrightarrow> need_send r"
  by (simp add: need_send_def)

definition acked :: "full_rx \<Rightarrow> bool" where
  "acked R \<longleftrightarrow> rx_last_ack_sent (fr_ecn R) = rq_rcv_nxt (fr_q R) \<and> \<not> rx_acknow (fr_ecn R)
     \<and> rx_acks (fr_ecn R) \<noteq> [] \<and> fst (last (rx_acks (fr_ecn R))) = rq_rcv_nxt (fr_q R)"

lemma force_output_keeps [simp]:
  "fr_q (force_output out R) = fr_q R" "fr_delivered (force_output out R) = fr_delivered R"
  "fr_state (force_output out R) = fr_state R" "rx_rcv_nxt (fr_ecn (force_output out R)) = rx_rcv_nxt (fr_ecn R)"
  by (simp_all add: force_output_def)

lemma rx_ready_output [simp]: "rx_ready (force_output out R) = rx_ready R"
  by (simp add: rx_ready_def)

lemma took_output [simp]: "took start e R (force_output out R') = took start e R R'"
  by (simp add: took_def)

lemma acked_output:
  assumes "took start e R R'" "rx_acknow (fr_ecn R')"
  shows "acked (force_output out R')"
  using assms by (simp add: force_output_def took_def rx_ready_def acked_def output_ack_def)

lemma took_ecn:
  assumes "took start e (R\<lparr>fr_ecn := r\<rparr>) R'"
  shows "took start e R R'"
  using assms by (simp add: took_def)

text \<open>
  Whatever segment of data arrives, in order, early, late or twice, exactly its bytes are added to
  what has arrived, and the application gets the bytes by which \<open>rcv_nxt\<close> moves. A segment that is
  not the next one with nothing queued is acknowledged at once, by the first byte missing.
\<close>

lemma recv_data_ok:
  assumes R: "rx_ready R" and s: "data_seg s m n"
  shows "\<exists>R'. recv_data ce ect cwr s R = Some R' \<and> took m (m + n) R R'
     \<and> (m \<le> rq_rcv_nxt (fr_q R) \<and> rq_rcv_nxt (fr_q R) < m + n \<and> rq_fifo (fr_q R) = [] \<or> acked R')"
proof -
  let ?v = "rq_rcv_nxt (fr_q R)"
  have sg: "ts_seqno s = m" "0 < n" "0 \<le> m" "m + n \<le> SEQ_LIMIT" "\<not> flag_set (ts_flags s) TH_FIN"
    "ts_size s - ts_hlen s = n" "0 \<le> ts_hlen s" "ts_size s \<le> SEQ_LIMIT"
    using s by (simp_all add: data_seg_def)
  have n32: "i32 (ts_size s - ts_hlen s) = n" and e32: "i32 (m + ts_size s - ts_hlen s) = m + n"
    using sg by (simp_all add: i32_id SEQ_LIMIT_def)
  show ?thesis
  proof (rule trim_ok [OF rx_ready_le [OF R] s])
    define R0 where "R0 = R\<lparr>fr_ecn := ce_update ce ect cwr n (fr_ecn R)\<rparr>"
    assume v: "?v \<le> m" and t: "trim_data s n (ts_flags s) R = (s, n, ts_flags s, R)"
    have "rx_ready R0"
      using R by (simp add: R0_def rx_ready_ecn)
    then obtain fl out R' where a: "accept_data s n (ts_flags s) False R0 = Some (fl, out, R')"
      "\<not> flag_set fl TH_FIN" "took m (m + n) R0 R'"
      "m = ?v \<and> rq_fifo (fr_q R) = [] \<or> rx_acknow (fr_ecn R')"
      using accept_ok [of R0 m "m + n" s n "ts_flags s" False] v sg e32 by (auto simp: R0_def)
    have "recv_data ce ect cwr s R = Some (force_output out R')"
      using a(1,2) by (simp add: recv_data_def n32 t R0_def take_fin_def)
    moreover note took = took_ecn [OF a(3) [unfolded R0_def]]
    ultimately show ?thesis
      using acked_output [OF took, of out] a(4) sg(2) by auto
  next
    let ?s = "s\<lparr>ts_seqno := ?v, ts_size := ts_size s - (?v - m)\<rparr>" and ?n = "m + n - ?v"
    assume v: "m < ?v" "?v < m + n" and t: "trim_data s n (ts_flags s) R = (?s, ?n, ts_flags s, R)"
    define R1 where "R1 = R\<lparr>fr_ecn := ce_update ce ect cwr ?n (fr_ecn R)\<rparr>"
    have "rx_ready R1"
      using R by (simp add: R1_def rx_ready_ecn)
    moreover have "i32 (?v + ts_size ?s - ts_hlen ?s) = m + n"
      using e32 by (simp add: algebra_simps)
    ultimately obtain fl out R' where a: "accept_data ?s ?n (ts_flags s) False R1 = Some (fl, out, R')"
      "\<not> flag_set fl TH_FIN" "took ?v (m + n) R1 R'"
      "rq_fifo (fr_q R) = [] \<or> rx_acknow (fr_ecn R')"
      using accept_ok [of R1 ?v "m + n" ?s ?n "ts_flags s" False] v sg by (auto simp: R1_def)
    have "recv_data ce ect cwr s R = Some (force_output out R')"
      using a(1,2) by (simp add: recv_data_def n32 t R1_def take_fin_def)
    moreover have took: "took ?v (m + n) R R'"
      by (rule took_ecn [OF a(3) [unfolded R1_def]])
    moreover have "got (fr_q R) \<union> {?v..<m + n} = got (fr_q R) \<union> {m..<m + n}"
      using v(1) by (auto simp: got_def)
    ultimately show ?thesis
      using acked_output [OF took, of out] a(4) v by (auto simp: took_def)
  next
    fix s'
    assume v: "m + n \<le> ?v" and t: "trim_data s n (ts_flags s) R = (s', 0, ts_flags s AND NOT TH_FIN, ack_now R)"
    define R' where "R' = (ack_now R)\<lparr>fr_ecn := ce_update ce ect cwr 0 (fr_ecn (ack_now R))\<rparr>"
    have "recv_data ce ect cwr s R = Some (force_output False R')"
      using clear_fin [of "ts_flags s AND NOT TH_FIN"]
      by (simp add: recv_data_def n32 t accept_data_def take_fin_def R'_def)
    moreover have "rx_ready R'"
      using R by (simp add: R'_def ack_now_def rx_ready_ecn)
    then have took: "took m (m + n) R R'"
      using v by (auto simp: took_def R'_def ack_now_def got_def)
    moreover have "rx_acknow (fr_ecn R')"
      by (simp add: R'_def ack_now_def ce_update_def Let_def)
    ultimately show ?thesis
      using acked_output [OF took, of False] by auto
  qed
qed

text \<open>A whole sequence of segments, in any order.\<close>

fun recv_all :: "((bool \<times> bool \<times> bool) \<times> tcp_seg) list \<Rightarrow> full_rx \<Rightarrow> full_rx option" where
  "recv_all [] R = Some R"
| "recv_all (((ce, ect, cwr), s) # ss) R = Option.bind (recv_data ce ect cwr s R) (recv_all ss)"

definition seg_bytes :: "tcp_seg \<Rightarrow> int set" where
  "seg_bytes s = {ts_seqno s..<ts_seqno s + (ts_size s - ts_hlen s)}"

lemma recv_all_ok:
  assumes "rx_ready R" "\<forall>(marks, s)\<in>set ss. \<exists>m n. data_seg s m n"
  shows "\<exists>R'. recv_all ss R = Some R' \<and> rx_ready R'
     \<and> got (fr_q R') = got (fr_q R) \<union> (\<Union>(marks, s)\<in>set ss. seg_bytes s)
     \<and> fr_delivered R' - fr_delivered R = rq_rcv_nxt (fr_q R') - rq_rcv_nxt (fr_q R)"
  using assms
proof (induction ss R rule: recv_all.induct)
  case (2 ce ect cwr s ss R)
  then obtain m n where s: "data_seg s m n"
    by auto
  then have b: "seg_bytes s = {m..<m + n}"
    by (simp add: data_seg_def seg_bytes_def)
  obtain R1 where r: "recv_data ce ect cwr s R = Some R1" "took m (m + n) R R1"
    using recv_data_ok [OF "2.prems"(1) s] by blast
  then have "rx_ready R1"
    by (simp add: took_def)
  from "2.IH" [OF r(1) this] "2.prems"(2) obtain R' where
    R': "recv_all ss R1 = Some R'" "rx_ready R'"
      "got (fr_q R') = got (fr_q R1) \<union> (\<Union>(marks, s)\<in>set ss. seg_bytes s)"
      "fr_delivered R' - fr_delivered R1 = rq_rcv_nxt (fr_q R') - rq_rcv_nxt (fr_q R1)"
    by auto
  then show ?case
    using r b by (auto simp: took_def)
qed simp

end
