(* ===== verification/Full_Sack.thy ===== *)
theory Full_Sack
  imports Full_Recv
begin

text \<open>
  The sender's side of SACK in the full TCP agent (\<open>SackFullTcpAgent\<close> in \<open>tcp/tcp-full.cc\<close>): the
  scoreboard \<open>sq_\<close>, a reassembly queue over \<open>sack_min_\<close>, what fills it and what it makes the agent
  send next.
\<close>

unbundle bit_operations_syntax

section \<open>The sender's state\<close>

record sack_tx =
  sx_sq :: rqueue \<comment> \<open>its \<open>rq_rcv_nxt\<close> is \<open>sack_min_\<close>\<close>
  sx_highest_ack :: int
  sx_h_seqno :: int
  sx_recover :: int
  sx_t_seqno :: int
  sx_maxseq :: int
  sx_curseq :: int
  sx_maxseg :: int
  sx_wnd :: rat
  sx_cwnd :: rat
  sx_window :: int \<comment> \<open>\<open>window ()\<close>\<close>
  sx_pipe :: int
  sx_rtxbytes :: int
  sx_pipectrl :: bool
  sx_fastrecov :: bool
  sx_infinite_send :: bool
  sx_dupacks :: int
  sx_state :: int
  sx_clear_on_timeout :: bool
  sx_max_sack_blocks :: int
  sx_threshmode :: int
  sx_cthresh :: int
  sx_bthresh :: int

definition sack_min :: "sack_tx \<Rightarrow> int" where
  "sack_min s = rq_rcv_nxt (sx_sq s)"

text \<open>\<open>reset\<close>, before it calls that of the base class.\<close>

definition sack_reset :: "sack_tx \<Rightarrow> sack_tx" where
  "sack_reset s = s\<lparr>sx_sq := (rq_clear (sx_sq s))\<lparr>rq_rcv_nxt := - 1\<rparr>, sx_h_seqno := - 1\<rparr>"

text \<open>The end of \<open>timeout_action\<close>, after that of the base class.\<close>

definition sack_timeout :: "sack_tx \<Rightarrow> sack_tx" where
  "sack_timeout s = (if sx_clear_on_timeout s
     then s\<lparr>sx_sq := (rq_clear (sx_sq s))\<lparr>rq_rcv_nxt := sx_highest_ack s\<rparr>\<rparr> else s)"

text \<open>A new acknowledgment drops what lies below it from the scoreboard.\<close>

definition advance_sq :: "sack_tx \<Rightarrow> sack_tx" where
  "advance_sq s = (if \<not> rq_empty (sx_sq s) \<and> sack_min s < sx_highest_ack s
     then s\<lparr>sx_sq := snd (cleartonxt ((sx_sq s)\<lparr>rq_rcv_nxt := sx_highest_ack s\<rparr>))\<rparr> else s)"

definition sack_pack_action :: "sack_tx \<Rightarrow> sack_tx" where
  "sack_pack_action s =
     (let s = advance_sq s;
          s = s\<lparr>sx_pipe := i32 (sx_pipe s - sx_maxseg s)\<rparr>
      in if sx_h_seqno s < sx_highest_ack s then s\<lparr>sx_h_seqno := sx_highest_ack s\<rparr> else s)"

definition sack_ack_action :: "sack_tx \<Rightarrow> sack_tx" where
  "sack_ack_action s =
     (let s = advance_sq (s\<lparr>sx_fastrecov := False, sx_pipectrl := False\<rparr>);
          s = s\<lparr>sx_dupacks := 0\<rparr>
      in if sx_h_seqno s < sx_highest_ack s then s\<lparr>sx_h_seqno := sx_highest_ack s\<rparr> else s)"

text \<open>The blocks of a segment with the given flags. \<open>None\<close> is an abort of the queue.\<close>

fun add_blocks :: "int \<Rightarrow> (int \<times> int) list \<Rightarrow> rqueue \<Rightarrow> rqueue option" where
  "add_blocks flags [] q = Some q"
| "add_blocks flags ((l, r) # bs) q =
     (if \<not> flag_set flags TH_FIN \<and> l \<ge> r then add_blocks flags bs q
      else Option.bind (rq_add l r 0 0 q) (\<lambda>(fl, q1). add_blocks flags bs q1))"

definition process_sack :: "int \<Rightarrow> (int \<times> int) list \<Rightarrow> sack_tx \<Rightarrow> sack_tx option" where
  "process_sack flags blks s =
     (if sx_max_sack_blocks s \<le> 0 then Some s
      else map_option (\<lambda>q. s\<lparr>sx_sq := q\<rparr>) (add_blocks flags blks (sx_sq s)))"

section \<open>Sending\<close>

text \<open>The base class's test, and the one under the control of \<open>pipe_\<close>.\<close>

definition full_send_allowed :: "int \<Rightarrow> sack_tx \<Rightarrow> bool" where
  "full_send_allowed seq s =
     (let win = i32 (sx_window s * sx_maxseg s);
          topwin = sx_curseq s;
          topwin = (if topwin > i32 (sx_highest_ack s + win) \<or> sx_infinite_send s
                    then i32 (sx_highest_ack s + win) else topwin)
      in seq < topwin)"

definition sack_send_allowed :: "int \<Rightarrow> sack_tx \<Rightarrow> bool" where
  "sack_send_allowed seq s =
     (if \<not> sx_pipectrl s then full_send_allowed seq s
      else if seq \<ge> i32 (sx_highest_ack s + i32 (trunc_int (sx_wnd s) * sx_maxseg s)) then False
      else if sx_state s \<noteq> TCPS_ESTABLISHED_num \<and> seq > sx_curseq s then False
      else sx_pipe s < i32 (trunc_int (sx_cwnd s) * sx_maxseg s))"

definition sack_sent :: "int \<Rightarrow> int \<Rightarrow> sack_tx \<Rightarrow> sack_tx" where
  "sack_sent seq amt s =
     (let s = (if seq = sx_h_seqno s then s\<lparr>sx_h_seqno := i32 (sx_h_seqno s + amt)\<rparr> else s);
          s = (if seq = sx_t_seqno s then s\<lparr>sx_t_seqno := i32 (sx_t_seqno s + amt)\<rparr> else s);
          s = s\<lparr>sx_pipe := i32 (sx_pipe s + amt)\<rparr>
      in if seq < sx_maxseq s then s\<lparr>sx_rtxbytes := i32 (sx_rtxbytes s + amt)\<rparr> else s)"

text \<open>Is enough known to lie above a hole for it to be filled?\<close>

definition hole_ready :: "sack_tx \<Rightarrow> int \<Rightarrow> int \<Rightarrow> bool" where
  "hole_ready s fcnt fbytes \<longleftrightarrow> sx_threshmode s = 0
     \<or> sx_threshmode s = 1 \<and> fcnt \<ge> sx_cthresh s
     \<or> sx_threshmode s = 2 \<and> fbytes \<ge> sx_bthresh s
     \<or> sx_threshmode s = 3 \<and> (fcnt \<ge> sx_cthresh s \<or> fbytes \<ge> sx_bthresh s)
     \<or> sx_threshmode s = 4 \<and> (fcnt \<ge> sx_cthresh s \<and> fbytes \<ge> sx_bthresh s)"

text \<open>The loop over the holes: it need not end, and then there is no value. \<open>Some None\<close> leaves it.\<close>

partial_function (option) find_hole :: "sack_tx \<Rightarrow> int \<Rightarrow> int option option" where
  "find_hole s seq = (case nexthole seq (sx_sq s) of (h, fcnt, fbytes) \<Rightarrow>
     if h > 0
     then (if hole_ready s fcnt fbytes then Some (Some h)
           else if fcnt \<le> 0 then Some None
           else find_hole s (i32 (h + sx_maxseg s)))
     else Some None)"

definition nxt_tseq :: "sack_tx \<Rightarrow> (int \<times> sack_tx) option" where
  "nxt_tseq s =
     (if \<not> sx_highest_ack s < sx_recover s then Some (sx_t_seqno s, s)
      else map_option (\<lambda>r. case r of
             Some h \<Rightarrow> (h, if h > sx_h_seqno s then s\<lparr>sx_h_seqno := h\<rparr> else s)
           | None \<Rightarrow> (sx_t_seqno s, s)) (find_hole s (sx_h_seqno s)))"

text \<open>An acknowledgment of new data: the sequence numbers of \<open>newack\<close>, and \<open>pack\<close>.\<close>

definition sack_newack :: "int \<Rightarrow> sack_tx \<Rightarrow> sack_tx" where
  "sack_newack ackno s =
     (let s = (if ackno > sx_highest_ack s then s\<lparr>sx_highest_ack := ackno\<rparr> else s)
      in if sx_t_seqno s < sx_highest_ack s then s\<lparr>sx_t_seqno := sx_highest_ack s\<rparr> else s)"

definition sack_pack :: "int \<Rightarrow> sack_tx \<Rightarrow> bool" where
  "sack_pack ackno s \<longleftrightarrow> sx_fastrecov s \<and> ackno \<ge> sx_highest_ack s \<and> ackno < sx_recover s"

text \<open>
  What \<open>recv\<close> does to this state on an acknowledgment of new data (above \<open>highest_ack_\<close>, not above
  \<open>maxseq_\<close>), with the SACK blocks of its segment.
\<close>

definition sack_recv_ack :: "int \<Rightarrow> int \<Rightarrow> (int \<times> int) list \<Rightarrow> sack_tx \<Rightarrow> sack_tx option" where
  "sack_recv_ack flags ackno blks s =
     map_option (\<lambda>s.
       let s = (if sx_fastrecov s then s\<lparr>sx_pipe := i32 (sx_pipe s - sx_maxseg s)\<rparr> else s);
           s = sack_newack ackno s
       in if sack_pack ackno s then sack_pack_action s else sack_ack_action s)
     (if sx_state s \<ge> TCPS_ESTABLISHED_num \<and> blks \<noteq> [] then process_sack flags blks s else Some s)"

section \<open>The scoreboard holds exactly what was reported\<close>

lemma add_blocks_ok:
  assumes "rq_ok q" "\<not> flag_set flags TH_FIN"
  shows "\<exists>q'. add_blocks flags bs q = Some q' \<and> rq_ok q'
     \<and> covers (rq_fifo q') = covers (rq_fifo q) \<union> (\<Union>(l, r)\<in>set bs. {l..<r})"
  using assms
proof (induction flags bs q rule: add_blocks.induct)
  case (2 flags l r bs q)
  show ?case
  proof (cases "l \<ge> r")
    case False
    then obtain f q1 where a: "rq_add l r 0 0 q = Some (f, q1)" "added l r q q1"
      using add_ok [OF "2.prems"(1), of l r] by force
    then have "rq_ok q1"
      by (simp add: added_def)
    from "2.IH"(2) [OF _ a(1) refl this "2.prems"(2)] False a show ?thesis
      by (auto simp: added_def)
  qed (use 2 in auto)
qed simp

text \<open>With FIN the blocks are not filtered: the queue aborts on a reversed one.\<close>

lemma add_blocks_fin:
  assumes "rq_ok q" "flag_set flags TH_FIN" "\<forall>(l, r)\<in>set bs. l \<noteq> r"
  shows "if \<exists>(l, r)\<in>set bs. r < l then add_blocks flags bs q = None
     else \<exists>q'. add_blocks flags bs q = Some q' \<and> rq_ok q'
       \<and> covers (rq_fifo q') = covers (rq_fifo q) \<union> (\<Union>(l, r)\<in>set bs. {l..<r})"
  using assms
proof (induction flags bs q rule: add_blocks.induct)
  case (2 flags l r bs q)
  show ?case
  proof (cases "r < l")
    case True
    then have "add_blocks flags ((l, r) # bs) q = None"
      using "2.prems"(2) by (simp add: rq_add_def)
    then show ?thesis
      using True by simp
  next
    case False
    then obtain f q1 where a: "rq_add l r 0 0 q = Some (f, q1)" "added l r q q1"
      using add_ok [OF "2.prems"(1), of l r] "2.prems"(3) by force
    then have "rq_ok q1"
      by (simp add: added_def)
    moreover have "\<not> (\<not> flag_set flags TH_FIN \<and> l \<ge> r)"
      using "2.prems"(2) by simp
    ultimately show ?thesis
      using "2.IH"(2) [OF _ a(1) refl _ "2.prems"(2)] "2.prems"(2,3) False a by (auto simp: added_def)
  qed
qed simp

lemma process_sack_ok:
  assumes "rq_ok (sx_sq s)" "\<not> flag_set flags TH_FIN" "0 < sx_max_sack_blocks s"
  shows "\<exists>q. process_sack flags bs s = Some (s\<lparr>sx_sq := q\<rparr>) \<and> rq_ok q
     \<and> covers (rq_fifo q) = covers (rq_fifo (sx_sq s)) \<union> (\<Union>(l, r)\<in>set bs. {l..<r})"
  using add_blocks_ok [OF assms(1,2), of bs] assms(3) by (auto simp: process_sack_def)

lemma process_sack_fin:
  assumes "rq_ok (sx_sq s)" "flag_set flags TH_FIN" "\<forall>(l, r)\<in>set bs. l \<noteq> r" "0 < sx_max_sack_blocks s"
  shows "if \<exists>(l, r)\<in>set bs. r < l then process_sack flags bs s = None
     else \<exists>q. process_sack flags bs s = Some (s\<lparr>sx_sq := q\<rparr>) \<and> rq_ok q
       \<and> covers (rq_fifo q) = covers (rq_fifo (sx_sq s)) \<union> (\<Union>(l, r)\<in>set bs. {l..<r})"
  using add_blocks_fin [OF assms(1-3)] assms(4) by (auto simp: process_sack_def split: if_splits)

text \<open>The scoreboard drops what is acknowledged and keeps the rest.\<close>

lemma advance_sq_ok:
  assumes "rq_ok (sx_sq s)" "covers (rq_fifo (sx_sq s)) \<subseteq> {sack_min s..}"
  shows "\<exists>q. advance_sq s = s\<lparr>sx_sq := q\<rparr> \<and> rq_ok q
     \<and> covers (rq_fifo q) = covers (rq_fifo (sx_sq s)) \<inter> {sx_highest_ack s..}"
proof (cases "\<not> rq_empty (sx_sq s) \<and> sack_min s < sx_highest_ack s")
  case True
  then show ?thesis
    using cleartonxt_ok [of "(sx_sq s)\<lparr>rq_rcv_nxt := sx_highest_ack s\<rparr>"] assms(1)
    by (auto simp: advance_sq_def)
next
  case False
  then have "advance_sq s = s\<lparr>sx_sq := sx_sq s\<rparr>"
    unfolding advance_sq_def if_not_P [OF False] by simp
  moreover have "covers (rq_fifo (sx_sq s)) \<subseteq> {sx_highest_ack s..}"
    using False assms(2) by (auto simp: rq_empty_def)
  ultimately show ?thesis
    using assms(1) by (intro exI [of _ "sx_sq s"]) auto
qed

section \<open>What is sent next\<close>

text \<open>The search for a hole ends, and never returns a byte that the receiver has reported.\<close>

lemma find_hole_ok:
  assumes "rq_ok (sx_sq s)" "0 < sx_maxseg s" "\<forall>t\<in>set (rq_fifo (sx_sq s)). sg_end t + sx_maxseg s \<le> SEQ_LIMIT"
  shows "\<exists>r. find_hole s seq = Some r
     \<and> (\<forall>h. r = Some h \<longrightarrow> seq \<le> h \<and> h \<notin> covers (rq_fifo (sx_sq s))
          \<and> (sx_threshmode s = 0 \<longrightarrow> {seq..<h} \<subseteq> covers (rq_fifo (sx_sq s))))"
proof -
  define ss where "ss = rq_fifo (sx_sq s)"
  have so: "segs_ok ss"
    using assms(1) by (simp add: rq_ok_def ss_def)
  define M where "M = Max (insert seq (sg_end ` set ss))"
  have M: "sg_end t \<le> M" if "t \<in> set ss" for t
    using that by (simp add: M_def)
  show ?thesis
    unfolding ss_def [symmetric] using M
  proof (induction "nat (M - seq)" arbitrary: seq rule: less_induct)
    case less
    obtain h n b where nh: "nexthole seq (sx_sq s) = (h, n, b)"
      by (cases "nexthole seq (sx_sq s)")
    note sp = nexthole_from_spec [OF so nh [unfolded nexthole_def, folded ss_def]]
    show ?case
    proof (cases "h > 0")
      case False
      then show ?thesis
        by (subst find_hole.simps) (simp add: nh)
    next
      case True
      then have sp1: "seq \<le> h" "{seq..<h} \<subseteq> covers ss" "h \<notin> covers ss"
        "(n, b) = (if above h ss = [] then (- 1, - 1)
            else (int (length (above h ss)), sum_list (map seg_len (above h ss))))"
        using sp by auto
      consider (ready) "hole_ready s n b" | (last) "\<not> hole_ready s n b" "n \<le> 0"
        | (more) "\<not> hole_ready s n b" "n > 0"
        by linarith
      then show ?thesis
      proof cases
        case ready
        then show ?thesis
          using True sp1(1-3) by (subst find_hole.simps) (simp add: nh)
      next
        case last
        then show ?thesis
          using True by (subst find_hole.simps) (simp add: nh)
      next
        case more
        then have "above h ss \<noteq> []"
          using sp1(4) by auto
        then obtain t where t: "t \<in> set ss" "h < sg_start t"
          by (auto simp: above_def filter_empty_conv)
        have e: "sg_start t < sg_end t" "sg_end t + sx_maxseg s \<le> SEQ_LIMIT"
          using t so assms(3) by (simp_all add: segs_ok_def ss_def)
        have i: "i32 (h + sx_maxseg s) = h + sx_maxseg s"
          using t e True assms(2) by (simp add: i32_id SEQ_LIMIT_def)
        have "nat (M - (h + sx_maxseg s)) < nat (M - seq)"
          using less.prems [OF t(1)] t(2) e(1) sp1(1) assms(2) by linarith
        from less.hyps [OF this less.prems] obtain r where r: "find_hole s (h + sx_maxseg s) = Some r"
          "\<forall>h'. r = Some h' \<longrightarrow> h + sx_maxseg s \<le> h' \<and> h' \<notin> covers ss
             \<and> (sx_threshmode s = 0 \<longrightarrow> {h + sx_maxseg s..<h'} \<subseteq> covers ss)"
          by blast
        have "find_hole s seq = Some r"
          using True more i r(1) by (subst find_hole.simps) (simp add: nh)
        moreover have "sx_threshmode s \<noteq> 0"
          using more by (auto simp: hole_ready_def)
        ultimately show ?thesis
          using r(2) sp1(1) assms(2) by auto
      qed
    qed
  qed
qed

definition sq_bounded :: "sack_tx \<Rightarrow> bool" where
  "sq_bounded s \<longleftrightarrow> rq_ok (sx_sq s) \<and> 0 < sx_maxseg s
     \<and> covers (rq_fifo (sx_sq s)) \<subseteq> {..<SEQ_LIMIT - sx_maxseg s}"

lemma sq_bounded_ends: "sq_bounded s \<Longrightarrow> t \<in> set (rq_fifo (sx_sq s)) \<Longrightarrow> sg_end t + sx_maxseg s \<le> SEQ_LIMIT"
proof -
  assume b: "sq_bounded s" and t: "t \<in> set (rq_fifo (sx_sq s))"
  have "sg_start t < sg_end t" "{sg_start t..<sg_end t} \<subseteq> covers (rq_fifo (sx_sq s))"
    using segment_maximal(1,2) [OF _ t] b by (simp_all only: sq_bounded_def rq_ok_def)
  then have "sg_end t - 1 \<in> covers (rq_fifo (sx_sq s))"
    by auto
  then show ?thesis
    using b by (auto simp: sq_bounded_def)
qed

lemma nxt_tseq_ok:
  assumes "sq_bounded s"
  shows "\<exists>v s'. nxt_tseq s = Some (v, s')
     \<and> (v = sx_t_seqno s \<and> s' = s
        \<or> sx_highest_ack s < sx_recover s \<and> sx_h_seqno s \<le> v \<and> v \<notin> covers (rq_fifo (sx_sq s))
          \<and> (sx_threshmode s = 0 \<longrightarrow> {sx_h_seqno s..<v} \<subseteq> covers (rq_fifo (sx_sq s)))
          \<and> s' = s\<lparr>sx_h_seqno := v\<rparr>)"
proof -
  obtain r where r: "find_hole s (sx_h_seqno s) = Some r"
    "\<forall>h. r = Some h \<longrightarrow> sx_h_seqno s \<le> h \<and> h \<notin> covers (rq_fifo (sx_sq s))
       \<and> (sx_threshmode s = 0 \<longrightarrow> {sx_h_seqno s..<h} \<subseteq> covers (rq_fifo (sx_sq s)))"
    using find_hole_ok [of s "sx_h_seqno s"] assms sq_bounded_ends by (auto simp: sq_bounded_def)
  then show ?thesis
    by (cases r) (auto simp: nxt_tseq_def)
qed

section \<open>The two ends together\<close>

lemma add_blocks_ahead:
  assumes "rq_ok q" "\<not> flag_set flags TH_FIN" "ahead q" "\<forall>(l, r)\<in>set bs. rq_rcv_nxt q < l"
    "add_blocks flags bs q = Some q'"
  shows "ahead q' \<and> rq_rcv_nxt q' = rq_rcv_nxt q"
  using assms
proof (induction flags bs q rule: add_blocks.induct)
  case (2 flags l r bs q)
  show ?case
  proof (cases "l \<ge> r")
    case False
    then obtain f q1 where a: "rq_add l r 0 0 q = Some (f, q1)" "added l r q q1"
      using add_ok [OF "2.prems"(1), of l r] by force
    have "rq_ok q1"
      using a(2) by (simp add: added_def)
    moreover have "rq_rcv_nxt q1 = rq_rcv_nxt q" "ahead q1"
      using added_later [OF a(2) "2.prems"(3)] "2.prems"(4) False by simp_all
    ultimately show ?thesis
      using "2.IH"(2) [OF _ a(1) refl _ "2.prems"(2)] "2.prems" False a(1) by simp
  qed (use 2 in auto)
qed simp

text \<open>
  The sender's picture of the receiver: every byte on the scoreboard has arrived, and nothing at or
  below the acknowledgment is on it beyond what \<open>sack_min\<close> allows.
\<close>

definition in_touch :: "sack_tx \<Rightarrow> rqueue \<Rightarrow> bool" where
  "in_touch s q \<longleftrightarrow> rq_ok (sx_sq s) \<and> ahead (sx_sq s) \<and> sack_min s \<le> sx_highest_ack s
     \<and> sx_highest_ack s \<le> rq_rcv_nxt q \<and> covers (rq_fifo (sx_sq s)) \<subseteq> got q"

lemma in_touch_later:
  "in_touch s q \<Longrightarrow> got q \<subseteq> got q' \<Longrightarrow> rq_rcv_nxt q \<le> rq_rcv_nxt q' \<Longrightarrow> in_touch s q'"
  by (auto simp: in_touch_def)

definition blocks_of :: "nat \<Rightarrow> rqueue \<Rightarrow> (int \<times> int) list" where
  "blocks_of n q = snd (sack_options n 0 0 0 q)"

lemma blocks_of_options: "snd (sack_options n bsize osize hdr q) = blocks_of n q"
  by (simp add: blocks_of_def sack_options_def Let_def)

lemma blocks_of_ok:
  assumes "rq_ok q"
  shows "(\<Union>(l, r)\<in>set (blocks_of n q). {l..<r}) \<subseteq> covers (rq_fifo q)"
    and "length (rq_fifo q) \<le> n \<Longrightarrow> (\<Union>(l, r)\<in>set (blocks_of n q). {l..<r}) = covers (rq_fifo q)"
    and "set (blocks_of n q) \<subseteq> (\<lambda>s. (sg_start s, sg_end s)) ` set (rq_fifo q)"
proof -
  have b: "blocks_of n q = gensack n q"
    using gensack_blocks(2) [OF assms, of n] by (auto simp: blocks_of_def sack_options_def Let_def rq_empty_def)
  show sub: "set (blocks_of n q) \<subseteq> (\<lambda>s. (sg_start s, sg_end s)) ` set (rq_fifo q)"
    unfolding b using gensack_blocks(1) [OF assms] by blast
  then show "(\<Union>(l, r)\<in>set (blocks_of n q). {l..<r}) \<subseteq> covers (rq_fifo q)"
    by (fastforce simp: covers_def)
  show "(\<Union>(l, r)\<in>set (blocks_of n q). {l..<r}) = covers (rq_fifo q)" if "length (rq_fifo q) \<le> n"
    unfolding b gensack_blocks(3) [OF assms that] by (simp add: covers_def)
qed

text \<open>
  An acknowledgment of new data, with the blocks of the receiver's queue, leaves the sender in
  touch: with room for all the blocks its scoreboard is the receiver's queue.
\<close>

lemma exchange_ok:
  assumes t: "in_touch s q" and q: "rq_ok q" "ahead q" and new: "sx_highest_ack s < rq_rcv_nxt q"
    and s: "sx_state s \<ge> TCPS_ESTABLISHED_num" "0 < sx_max_sack_blocks s" "\<not> flag_set flags TH_FIN"
  shows "\<exists>s'. sack_recv_ack flags (rq_rcv_nxt q) (blocks_of n q) s = Some s' \<and> in_touch s' q
     \<and> sx_highest_ack s' = rq_rcv_nxt q \<and> rq_rcv_nxt q \<le> sx_h_seqno s'
     \<and> covers (rq_fifo (sx_sq s')) \<subseteq> covers (rq_fifo q)
     \<and> (length (rq_fifo q) \<le> n \<longrightarrow> covers (rq_fifo (sx_sq s')) = covers (rq_fifo q))
     \<and> sx_maxseg s' = sx_maxseg s"
proof -
  let ?v = "rq_rcv_nxt q" and ?U = "\<Union>(l, r)\<in>set (blocks_of n q). {l..<r}"
  have sq: "rq_ok (sx_sq s)" "ahead (sx_sq s)" "sack_min s \<le> sx_highest_ack s"
    "covers (rq_fifo (sx_sq s)) \<subseteq> got q"
    using t by (simp_all add: in_touch_def)
  obtain q1 where p: "(if sx_state s \<ge> TCPS_ESTABLISHED_num \<and> blocks_of n q \<noteq> []
      then process_sack flags (blocks_of n q) s else Some s) = Some (s\<lparr>sx_sq := q1\<rparr>)"
    and q1: "rq_ok q1" "covers (rq_fifo q1) = covers (rq_fifo (sx_sq s)) \<union> ?U" "ahead q1"
      "rq_rcv_nxt q1 = sack_min s"
  proof (cases "blocks_of n q = []")
    case True
    show ?thesis
      by (rule that [of "sx_sq s"]) (use True sq in \<open>simp_all add: sack_min_def\<close>)
  next
    case False
    obtain q1 where a: "add_blocks flags (blocks_of n q) (sx_sq s) = Some q1" "rq_ok q1"
      "covers (rq_fifo q1) = covers (rq_fifo (sx_sq s)) \<union> ?U"
      using add_blocks_ok [OF sq(1) s(3)] by blast
    have "\<forall>(l, r)\<in>set (blocks_of n q). rq_rcv_nxt (sx_sq s) < l"
      using blocks_of_ok(3) [OF q(1), of n] q(2) sq(3) new by (fastforce simp: ahead_def sack_min_def)
    from add_blocks_ahead [OF sq(1) s(3) sq(2) this a(1)] a False s show ?thesis
      by (intro that [of q1]) (simp_all add: process_sack_def sack_min_def)
  qed
  define s2 where "s2 = sack_newack ?v (if sx_fastrecov s
      then s\<lparr>sx_sq := q1, sx_pipe := i32 (sx_pipe s - sx_maxseg s)\<rparr> else s\<lparr>sx_sq := q1\<rparr>)"
  have s2: "sx_sq s2 = q1" "sx_highest_ack s2 = ?v" "sx_maxseg s2 = sx_maxseg s"
    using new by (simp_all add: s2_def sack_newack_def Let_def)
  have le: "covers (rq_fifo q1) \<subseteq> {sack_min s2..}"
    using ahead_covers [OF q1(3)] by (auto simp: sack_min_def s2 less_imp_le)
  have eq: "sack_recv_ack flags ?v (blocks_of n q) s
    = Some (if sack_pack ?v s2 then sack_pack_action s2 else sack_ack_action s2)"
    unfolding sack_recv_ack_def p by (simp add: s2_def Let_def)
  obtain q2 where adv: "\<And>x. sx_sq x = q1 \<Longrightarrow> sx_highest_ack x = ?v \<Longrightarrow> advance_sq x = x\<lparr>sx_sq := q2\<rparr>"
    and q2: "rq_ok q2" "covers (rq_fifo q2) = covers (rq_fifo q1) \<inter> {?v..}" "rq_rcv_nxt q2 \<le> ?v"
      "ahead q2"
  proof (cases "rq_empty q1")
    case True
    then show ?thesis
      using q1 sq(3) new by (intro that [of q1]) (simp_all add: advance_sq_def rq_empty_def)
  next
    case False
    obtain f q2 where c: "cleartonxt (q1\<lparr>rq_rcv_nxt := ?v\<rparr>) = (f, q2)" "rq_ok q2" "rq_rcv_nxt q2 = ?v"
      "covers (rq_fifo q2) = covers (rq_fifo q1) \<inter> {?v..}"
      using cleartonxt_ok [of "q1\<lparr>rq_rcv_nxt := ?v\<rparr>"] q1(1) by auto
    have "?v \<notin> covers (rq_fifo q1)"
      using first_missing(1) [OF q(2)] sq(4) blocks_of_ok(1) [OF q(1), of n]
      by (auto simp: q1(2) got_def)
    then have "ahead q2"
      by (intro aheadI [OF c(2)]) (simp_all add: c)
    then show ?thesis
      using c False q1(4) sq(3) new by (intro that [of q2]) (simp_all add: advance_sq_def sack_min_def)
  qed
  define s' where "s' = (if sack_pack ?v s2 then sack_pack_action s2 else sack_ack_action s2)"
  have s': "sx_sq s' = q2" "sx_highest_ack s' = ?v" "?v \<le> sx_h_seqno s'" "sx_maxseg s' = sx_maxseg s"
    using s2 by (simp_all add: s'_def sack_pack_action_def sack_ack_action_def Let_def adv)
  have sub: "covers (rq_fifo q2) \<subseteq> covers (rq_fifo q)"
    using sq(4) blocks_of_ok(1) [OF q(1), of n] by (auto simp: q2(2) q1(2) got_def)
  have full: "covers (rq_fifo q2) = covers (rq_fifo q)" if "length (rq_fifo q) \<le> n"
    using sub blocks_of_ok(2) [OF q(1) that] ahead_covers [OF q(2)]
    by (auto simp: q2(2) q1(2) less_imp_le)
  have "in_touch s' q"
    using q2 sub by (auto simp: in_touch_def s' sack_min_def got_def)
  then show ?thesis
    unfolding eq s'_def [symmetric] using s' sub full by simp
qed

text \<open>So what SACK makes the sender retransmit is missing at the receiver.\<close>

lemma retransmits_missing:
  assumes "in_touch s q" "rq_ok q" "ahead q" "sx_highest_ack s < rq_rcv_nxt q"
    and "sx_state s \<ge> TCPS_ESTABLISHED_num" "0 < sx_max_sack_blocks s" "\<not> flag_set flags TH_FIN"
    and n: "length (rq_fifo q) \<le> n" and lim: "0 < sx_maxseg s" "got q \<subseteq> {..<SEQ_LIMIT - sx_maxseg s}"
  shows "\<exists>s' v s''. sack_recv_ack flags (rq_rcv_nxt q) (blocks_of n q) s = Some s'
     \<and> nxt_tseq s' = Some (v, s'') \<and> (v = sx_t_seqno s' \<or> v \<notin> got q)"
proof -
  obtain s' where s': "sack_recv_ack flags (rq_rcv_nxt q) (blocks_of n q) s = Some s'"
    "rq_rcv_nxt q \<le> sx_h_seqno s'" "covers (rq_fifo (sx_sq s')) = covers (rq_fifo q)"
    "sx_maxseg s' = sx_maxseg s" "rq_ok (sx_sq s')"
    using exchange_ok [OF assms(1-7), of n] n by (auto simp: in_touch_def)
  have "sq_bounded s'"
    using s' lim by (auto simp: sq_bounded_def got_def)
  from nxt_tseq_ok [OF this] obtain v s'' where "nxt_tseq s' = Some (v, s'')"
    "v = sx_t_seqno s' \<or> sx_h_seqno s' \<le> v \<and> v \<notin> covers (rq_fifo (sx_sq s'))"
    by blast
  then show ?thesis
    using s' by (auto simp: got_def)
qed

end
