(* ===== verification/Full_Agent.thy ===== *)
theory Full_Agent
  imports Full_Recv "HOL-Library.Monad_Syntax"
begin

text \<open>
  The full TCP agent (\<open>FullTcpAgent\<close> in \<open>tcp/tcp-full.cc\<close>, with what it uses of \<open>TcpAgent\<close> in
  \<open>tcp/tcp.cc\<close>): the connection's state machine, what it puts into packets, and the whole of \<open>recv\<close>.

  The state of the sender is that of \<open>Dctcp\<close> (\<open>fa_tcp\<close>), the state of the receiver that of
  \<open>Full_Recv\<close> (\<open>fa_rx\<close>), which has \<open>state_\<close> and the flags \<open>TF_ACKNOW\<close> and \<open>TF_DELACK\<close>. A packet
  that is sent is appended to \<open>fa_out\<close>. Calls of Tcl procedures and of the application
  (\<open>finish\<close>, \<open>idle\<close>, \<open>bufferempty\<close>), printing and counters of packets are left out. \<open>None\<close> is a
  run that aborts or does not end, and a quotient by zero. The clock, random draws and what the C
  library computes come with a call (\<open>net_env\<close>). Of \<open>TcpAgent::reset\<close> the variables of \<open>QOption_\<close> and
  of HighSpeed TCP (\<open>wnd_option_\<close> 8, whose increase is an argument) are left out; \<open>tcp_tick_\<close> is not 0.
\<close>

unbundle bit_operations_syntax

section \<open>The state\<close>

definition TH_ACK :: int where "TH_ACK = 0x10"
definition TH_ECE :: int where "TH_ECE = 0x40"
definition TH_CWR :: int where "TH_CWR = 0x80"

definition TCPS_LISTEN_num :: int where "TCPS_LISTEN_num = 1"
definition TCPS_SYN_SENT_num :: int where "TCPS_SYN_SENT_num = 2"
definition TCPS_LAST_ACK_num :: int where "TCPS_LAST_ACK_num = 8"

lemmas full_codes = tcp_codes TH_ACK_def TH_ECE_def TH_CWR_def TCPS_LISTEN_num_def TCPS_SYN_SENT_num_def
  TCPS_LAST_ACK_num_def

definition REASON_NORMAL :: int where "REASON_NORMAL = 0"
definition REASON_DUPACK :: int where "REASON_DUPACK = 2"
definition PF_TIMEOUT :: int where "PF_TIMEOUT = 4"

record net_env =
  en_now :: rat
  en_uniform :: rat \<comment> \<open>\<open>Random::uniform\<close>\<close>
  en_pow_l :: "rat \<Rightarrow> rat" \<comment> \<open>\<open>pow (x, l_parameter_)\<close>\<close>
  en_pow_k :: "rat \<Rightarrow> rat" \<comment> \<open>\<open>pow (x, k_parameter_)\<close>\<close>
  en_decrease :: rat \<comment> \<open>\<open>decrease_param ()\<close>\<close>
  en_increase :: rat \<comment> \<open>\<open>increase_param ()\<close>\<close>

record full_conf =
  fc_iss :: int
  fc_dupthresh :: int
  fc_maxburst :: int
  fc_nodelay :: bool
  fc_data_on_syn :: bool
  fc_dupseg_fix :: bool
  fc_dupack_reset :: bool
  fc_halfclose :: bool
  fc_nopredict :: bool
  fc_pipectrl :: bool
  fc_reno_fastrecov :: bool
  fc_open_cwnd_on_pack :: bool
  fc_bug_fix :: bool
  fc_slow_start_restart :: bool
  fc_restart_bugfix :: bool
  fc_delay_growth :: bool
  fc_cwr_on_rtx :: bool
  fc_ts_reset_rto :: bool
  fc_ecn_syn :: bool
  fc_ecn_syn_wait :: int
  fc_overhead :: rat
  fc_hdr_size :: int
  fc_ts_option_size :: int
  fc_increase_num :: rat
  fc_wnd_const :: rat
  fc_max_ssthresh :: int
  fc_maxcwnd :: int
  fc_qs_cwnd :: int
  fc_srtt_init :: int
  fc_rttvar_init :: int
  fc_rtxcur_init :: rat

text \<open>The headers of a packet; \<open>cwr ()\<close> and \<open>cong_action ()\<close> are the same field.\<close>

record full_pkt =
  fp_seg :: tcp_seg
  fp_ackno :: int
  fp_reason :: int
  fp_sa_length :: int
  fp_ts :: rat
  fp_ts_echo :: rat
  fp_no_ts :: bool
  fp_ecnecho :: bool
  fp_cwr :: bool
  fp_ect :: bool
  fp_ce :: bool

record full_agent =
  fa_tcp :: full_tcp
  fa_rx :: full_rx
  fa_conf :: full_conf
  fa_t_seqno :: int
  fa_curseq :: int
  fa_dupacks :: int
  fa_pipe :: int
  fa_rtxbytes :: int
  fa_last_state :: int
  fa_needfin :: bool
  fa_needclose :: bool
  fa_infinite_send :: bool
  fa_close_on_empty :: bool
  fa_fastrecov :: bool
  fa_rtt_active :: bool
  fa_rtt_seq :: int
  fa_rtt_ts :: rat
  fa_recent :: rat
  fa_recent_age :: rat
  fa_last_send :: rat
  fa_rtx_on :: bool \<comment> \<open>\<open>rtx_timer_\<close> is pending\<close>
  fa_delsnd_on :: bool
  fa_delack_on :: bool
  fa_ecn_burst :: bool
  fa_ecn_syn_next :: bool
  fa_wnd_init_option :: int
  fa_awnd :: rat
  fa_incr_count :: int \<comment> \<open>\<open>count_\<close>\<close>
  fa_out :: "full_pkt list"

abbreviation "fa_ecn a \<equiv> fr_ecn (fa_rx a)"
abbreviation "fa_state a \<equiv> fr_state (fa_rx a)"
abbreviation "fa_rcv_nxt a \<equiv> rq_rcv_nxt (fr_q (fa_rx a))"
abbreviation "fa_highest_ack a \<equiv> ft_highest_ack (fa_tcp a)"
abbreviation "fa_maxseq a \<equiv> ft_maxseq (fa_tcp a)"
abbreviation "fa_maxseg a \<equiv> rx_maxseg (fa_ecn a)"
abbreviation "fa_iss a \<equiv> fc_iss (fa_conf a)"

definition on_tcp :: "(full_tcp \<Rightarrow> full_tcp) \<Rightarrow> full_agent \<Rightarrow> full_agent" where
  "on_tcp f a = a\<lparr>fa_tcp := f (fa_tcp a)\<rparr>"

definition on_rx :: "(full_rx \<Rightarrow> full_rx) \<Rightarrow> full_agent \<Rightarrow> full_agent" where
  "on_rx f a = a\<lparr>fa_rx := f (fa_rx a)\<rparr>"

definition on_ecn :: "(ecn_rx \<Rightarrow> ecn_rx) \<Rightarrow> full_agent \<Rightarrow> full_agent" where
  "on_ecn f a = on_rx (\<lambda>R. R\<lparr>fr_ecn := f (fr_ecn R)\<rparr>) a"

definition newstate :: "int \<Rightarrow> full_agent \<Rightarrow> full_agent" where
  "newstate st a = on_rx (\<lambda>R. R\<lparr>fr_state := st\<rparr>) a"

definition set_acknow :: "full_agent \<Rightarrow> full_agent" where
  "set_acknow a = on_rx ack_now a"

definition set_rcv_nxt :: "int \<Rightarrow> full_agent \<Rightarrow> full_agent" where
  "set_rcv_nxt n a = on_rx (\<lambda>R. set_rcv ((fr_q R)\<lparr>rq_rcv_nxt := n\<rparr>) R) a"

section \<open>Timers and windows\<close>

definition set_rtx_timer :: "full_agent \<Rightarrow> full_agent option" where
  "set_rtx_timer a = map_option (\<lambda>(t, s). a\<lparr>fa_tcp := s, fa_rtx_on := True\<rparr>) (rtt_timeout (fa_tcp a))"

definition cancel_rtx_timer :: "full_agent \<Rightarrow> full_agent" where
  "cancel_rtx_timer a = a\<lparr>fa_rtx_on := False\<rparr>"

definition cancel_timers :: "full_agent \<Rightarrow> full_agent" where
  "cancel_timers a = a\<lparr>fa_rtx_on := False, fa_delsnd_on := False, fa_delack_on := False\<rparr>"

definition reset_rtx_timer :: "full_agent \<Rightarrow> full_agent option" where
  "reset_rtx_timer a = do {
     a \<leftarrow> (if fa_highest_ack a = fa_maxseq a \<and> fc_restart_bugfix (fa_conf a) then Some a
          else map_option (\<lambda>s. a\<lparr>fa_tcp := s\<rparr>) (rtt_backoff (fa_tcp a)));
     a \<leftarrow> set_rtx_timer a;
     Some (a\<lparr>fa_rtt_active := False\<rparr>)
   }"

text \<open>\<open>None\<close> is \<open>abort\<close>.\<close>

definition initial_window :: "full_agent \<Rightarrow> rat option" where
  "initial_window a =
     (if fc_qs_cwnd (fa_conf a) \<noteq> 0 then Some (of_int (fc_qs_cwnd (fa_conf a)))
      else if fa_wnd_init_option a = 1 then Some (ft_wnd_init (fa_tcp a))
      else if fa_wnd_init_option a = 2
      then Some (if ft_size_b (fa_tcp a) \<le> 1095 then 4 else if ft_size_b (fa_tcp a) < 2190 then 3 else 2)
      else None)"

definition set_cwnd :: "rat \<Rightarrow> full_agent \<Rightarrow> full_agent" where
  "set_cwnd w a = on_tcp (\<lambda>s. s\<lparr>ft_cwnd := w\<rparr>) a"

definition slow_down :: "net_env \<Rightarrow> 32 word \<Rightarrow> full_agent \<Rightarrow> full_agent" where
  "slow_down ev how a = on_tcp (slowdown (en_pow_l ev) (en_decrease ev) how) a"

definition ss_increment :: "rat \<Rightarrow> full_agent \<Rightarrow> rat" where
  "ss_increment inc a =
     (let s = fa_tcp a; m = fc_max_ssthresh (fa_conf a)
      in if (ft_last_cwnd_action s = 0 \<or> ft_last_cwnd_action s = CWND_ACTION_TIMEOUT) \<and> 0 < m
         then limited_slow_start (ft_cwnd s) m inc else inc)"

text \<open>The experimental rules that collect a fraction \<open>f\<close> in \<open>fcnt_\<close>.\<close>

definition collect :: "rat \<Rightarrow> full_agent \<Rightarrow> full_agent" where
  "collect f a = (let s = fa_tcp a; f = f + ft_fcnt s
     in if f > ft_cwnd s then a\<lparr>fa_tcp := s\<lparr>ft_fcnt := 0, ft_cwnd := ft_cwnd s + 1\<rparr>\<rparr>
        else a\<lparr>fa_tcp := s\<lparr>ft_fcnt := f\<rparr>\<rparr>)"

definition open_linear :: "net_env \<Rightarrow> full_agent \<Rightarrow> full_agent option" where
  "open_linear ev a =
     (let s = fa_tcp a; c = fa_conf a; w = ft_cwnd s; opt = ft_wnd_option s;
          rtt = of_int (ft_t_srtt s div 2 ^ ft_srtt_bits s) * ft_tcp_tick s
      in if opt = 0
         then (let k = i32 (fa_incr_count a + 1)
               in Some (if of_int k \<ge> w then set_cwnd (w + 1) (a\<lparr>fa_incr_count := 0\<rparr>) else a\<lparr>fa_incr_count := k\<rparr>))
         else if opt = 1
         then (if w = 0 then None else Some (set_cwnd (w + ss_increment (fc_increase_num c / w) a) a))
         else if opt = 2 then Some (collect (rtt * rtt * fc_wnd_const c) a)
         else if opt = 3 then Some (collect (fa_awnd a * fa_awnd a * fc_wnd_const c) a)
         else if opt = 4 then Some (collect (fa_awnd a * fc_wnd_const c) a)
         else if opt = 5 then Some (collect (rtt * fc_wnd_const c) a)
         else if opt = 6
         then (if w * en_pow_k ev w = 0 then None
               else Some (set_cwnd (w + fc_increase_num c / (w * en_pow_k ev w)) a))
         else if opt = 8 then Some (set_cwnd (w + ss_increment (en_increase ev) a) a)
         else None)"

definition opencwnd :: "net_env \<Rightarrow> full_agent \<Rightarrow> full_agent option" where
  "opencwnd ev a = do {
     a \<leftarrow> (if ft_cwnd (fa_tcp a) < of_int (ft_ssthresh (fa_tcp a)) then Some (set_cwnd (ft_cwnd (fa_tcp a) + 1) a)
          else open_linear ev a);
     let m = fc_maxcwnd (fa_conf a);
     Some (if m \<noteq> 0 \<and> trunc_int (ft_cwnd (fa_tcp a)) > m then set_cwnd (of_int m) a else a)
   }"

section \<open>Sending\<close>

text \<open>The flags that depend on the state alone.\<close>

definition outflags :: "full_agent \<Rightarrow> int" where
  "outflags a =
     (if 0 \<le> fa_state a \<and> fa_state a < 10
      then [TH_ACK, 0, TH_SYN, TH_SYN OR TH_ACK, TH_ACK, TH_ACK, TH_FIN OR TH_ACK, TH_FIN OR TH_ACK,
            TH_FIN OR TH_ACK, TH_ACK] ! nat (fa_state a)
      else 0)"

text \<open>\<open>sendpacket\<close>.\<close>

definition pkt_of :: "net_env \<Rightarrow> int \<Rightarrow> int \<Rightarrow> int \<Rightarrow> int \<Rightarrow> int \<Rightarrow> full_agent \<Rightarrow> full_pkt" where
  "pkt_of ev seqno ackno pflags datalen reason a =
     (let c = fa_conf a; r = fa_ecn a; ts = ft_ts_option (fa_tcp a);
          hlen = i32 (fc_hdr_size c + (if ts then fc_ts_option_size c else 0));
          echo = (if rx_ecn r \<and> rx_ect r \<and> rx_recent_ce r then pflags OR TH_ECE else pflags)
      in \<lparr>fp_seg = \<lparr>ts_seqno = seqno, ts_size = i32 (datalen + hlen), ts_hlen = hlen, ts_flags = pflags\<rparr>,
          fp_ackno = ackno, fp_reason = reason, fp_sa_length = 0,
          fp_ts = (if ts then en_now ev else - 1), fp_ts_echo = (if ts then fa_recent a else - 1),
          fp_no_ts = False, fp_ecnecho = flag_set echo TH_ECE, fp_cwr = flag_set pflags TH_CWR,
          fp_ect = full_ect (rx_dctcp r) (rx_ecn r) (rx_ect r)
            (rx_ecn r \<and> syn_ect (rx_ect r) (fc_ecn_syn c) (fa_ecn_syn_next a) (flag_set pflags TH_SYN) (flag_set pflags TH_ACK))
            datalen,
          fp_ce = False\<rparr>)"

definition send_pkt :: "net_env \<Rightarrow> int \<Rightarrow> int \<Rightarrow> int \<Rightarrow> int \<Rightarrow> int \<Rightarrow> full_agent \<Rightarrow> full_agent" where
  "send_pkt ev seqno ackno pflags datalen reason a =
     (let p = pkt_of ev seqno ackno pflags datalen reason a
      in on_ecn (\<lambda>r. r\<lparr>rx_last_ack_sent := ackno, rx_acks := rx_acks r @ [(ackno, fp_ecnecho p)]\<rparr>)
           (a\<lparr>fa_out := fa_out a @ [p], fa_last_send := (if 0 < datalen then en_now ev else fa_last_send a)\<rparr>))"

definition idle_restart :: "net_env \<Rightarrow> full_agent \<Rightarrow> bool" where
  "idle_restart ev a \<longleftrightarrow> \<not> fa_last_send a < 0
     \<and> (let s = fa_tcp a; tao = en_now ev - fa_last_send a;
            tao = (if ft_ts_option s then tao
                   else of_int (trunc_int ((tao + rat_fmod (fa_last_send a + ft_boot_time s) (ft_tcp_tick s)) / ft_tcp_tick s))
                        * ft_tcp_tick s)
        in tao > ft_t_rtxcur s)"

text \<open>How much of the buffer goes into a packet.\<close>

definition out_len :: "int \<Rightarrow> full_agent \<Rightarrow> int" where
  "out_len seqno a =
     (let c = fa_conf a; unacked = fa_highest_ack a < 0;
          buffered = (if fa_infinite_send a then TCP_MAXSEQ
                      else if unacked then i32 (fa_curseq a - fa_iss a)
                      else i32 (fa_curseq a - fa_highest_ack a + 1));
          win = i32 (window (fa_tcp a) * fa_maxseg a);
          off = (if unacked then i32 (seqno - fa_iss a) else i32 (seqno - fa_highest_ack a));
          n = (if seqno = fa_iss a \<and> \<not> fc_data_on_syn c then 0
               else if fc_pipectrl c then i32 (buffered - off) else i32 (min buffered win - off))
      in if n < 0 then 0 else if n > fa_maxseg a then fa_maxseg a else n)"

text \<open>
  The part of \<open>foutput\<close> after the label \<open>send\<close>: CWR and the end of \<open>cong_action_\<close>, the other bits of
  congestion notification, and the FIN of \<open>close_on_empty_\<close>.
\<close>

definition out_cwr :: "int \<Rightarrow> bool \<Rightarrow> full_agent \<Rightarrow> int \<times> full_agent" where
  "out_cwr pflags is_rtx a =
     (let r = fa_ecn a
      in if rx_ecn r \<and> flag_set pflags TH_SYN \<and> flag_set pflags TH_ACK
         then ((pflags OR TH_ECE) AND NOT TH_CWR, a)
         else if rx_ecn r \<and> rx_ect r \<and> ft_cong_action (fa_tcp a) \<and> (\<not> is_rtx \<or> fc_cwr_on_rtx (fa_conf a))
         then (pflags OR TH_CWR, on_tcp (\<lambda>s. s\<lparr>ft_cong_action := False\<rparr>) a)
         else (pflags, a))"

definition out_ece :: "int \<Rightarrow> int \<Rightarrow> bool \<Rightarrow> full_agent \<Rightarrow> int" where
  "out_ece pflags datalen is_rtx a =
     (let r = fa_ecn a;
          pflags = (if 0 < datalen \<and> ft_cong_action (fa_tcp a) \<and> \<not> is_rtx then pflags OR TH_CWR else pflags)
      in if rx_ecn r \<and> rx_ect r \<and> rx_recent_ce r then pflags OR TH_ECE else pflags)"

definition out_fin :: "int \<Rightarrow> full_agent \<Rightarrow> int \<times> full_agent" where
  "out_fin pflags a =
     (if fa_needclose a
      then let a = a\<lparr>fa_needclose := False\<rparr>
           in if fa_state a \<le> TCPS_ESTABLISHED_num \<and> fa_state a \<noteq> TCPS_CLOSED_num
              then (pflags OR TH_FIN, newstate TCPS_FIN_WAIT_1_num a) else (pflags, a)
      else (pflags, a))"

definition out_flags :: "int \<Rightarrow> int \<Rightarrow> bool \<Rightarrow> full_agent \<Rightarrow> int \<times> full_agent" where
  "out_flags pflags datalen is_rtx a =
     (let pflags = (if rx_ecn (fa_ecn a) \<and> flag_set pflags TH_SYN \<and> \<not> flag_set pflags TH_ACK
                    then pflags OR TH_ECE OR TH_CWR else pflags);
          (pflags, a) = out_cwr pflags is_rtx a
      in out_fin (out_ece pflags datalen is_rtx a) a)"

definition out_send :: "net_env \<Rightarrow> int \<Rightarrow> int \<Rightarrow> int \<Rightarrow> int \<Rightarrow> full_agent \<Rightarrow> (int \<times> full_agent) option" where
  "out_send ev seqno datalen pflags reason a =
     (let is_rtx = seqno < fa_maxseq a;
          (pflags, a) = out_flags pflags datalen is_rtx a;
          a = send_pkt ev seqno (fa_rcv_nxt a) pflags datalen reason a;
          a = on_ecn (\<lambda>r. r\<lparr>rx_acknow := False, rx_delack := False\<rparr>) (a\<lparr>fa_delack_on := False\<rparr>);
          reliable = i32 (datalen + (if flag_set pflags TH_SYN then 1 else 0) + (if flag_set pflags TH_FIN then 1 else 0));
          a = (if ft_cong_action (fa_tcp a) \<and> 0 < reliable \<and> \<not> is_rtx
               then on_tcp (\<lambda>s. s\<lparr>ft_cong_action := False\<rparr>) a else a);
          highest = i32 (seqno + reliable);
          a = (if highest > ft_dctcp_maxseq (fa_tcp a) then on_tcp (\<lambda>s. s\<lparr>ft_dctcp_maxseq := highest\<rparr>) a else a);
          a = (if highest > fa_maxseq a
               then let a = on_tcp (\<lambda>s. s\<lparr>ft_maxseq := highest\<rparr>) a
                    in if \<not> ft_ts_option (fa_tcp a) \<and> \<not> fa_rtt_active a
                       then a\<lparr>fa_rtt_active := True, fa_rtt_seq := seqno, fa_rtt_ts := en_now ev\<rparr> else a
               else a)
      in map_option (Pair reliable) (if \<not> fa_rtx_on a \<and> reliable \<noteq> 0 then set_rtx_timer a else Some a))"

text \<open>Will the packet empty the buffer, its flags, and the tests for which a packet is sent.\<close>

definition out_emptying :: "int \<Rightarrow> int \<Rightarrow> full_agent \<Rightarrow> bool" where
  "out_emptying seqno datalen a \<longleftrightarrow> \<not> fa_infinite_send a
     \<and> (i32 (seqno + datalen) > fa_curseq a \<or> (seqno = fa_iss a \<and> datalen = 0))"

definition out_pflags :: "int \<Rightarrow> int \<Rightarrow> full_agent \<Rightarrow> int" where
  "out_pflags seqno datalen a =
     (let pflags = (if out_emptying seqno datalen a then outflags a OR TH_PUSH else outflags a AND NOT TH_FIN)
      in if fa_infinite_send a \<and> seqno = fa_iss a \<and> datalen = 0 then pflags OR TH_PUSH else pflags)"

definition out_needed :: "int \<Rightarrow> int \<Rightarrow> int \<Rightarrow> full_agent \<Rightarrow> bool" where
  "out_needed seqno datalen pflags a \<longleftrightarrow>
     (0 < datalen \<and> (datalen = fa_maxseg a
        \<or> ((fa_highest_ack a = fa_maxseq a \<or> fc_nodelay (fa_conf a)) \<and> out_emptying seqno datalen a)
        \<or> seqno < fa_maxseq a
        \<or> of_int datalen \<ge> ft_wnd (fa_tcp a) * of_int (fa_maxseg a) / 2))
     \<or> need_send (fa_ecn a) \<or> fa_needclose a \<or> flag_set pflags (TH_SYN OR TH_FIN)"

definition out_restart :: "net_env \<Rightarrow> int \<Rightarrow> full_agent \<Rightarrow> full_agent" where
  "out_restart ev datalen a =
     (if fc_slow_start_restart (fa_conf a) \<and> fa_highest_ack a = fa_maxseq a \<and> 0 < datalen \<and> idle_restart ev a
      then slow_down ev CLOSE_CWND_INIT a else a)"

definition foutput :: "net_env \<Rightarrow> int \<Rightarrow> int \<Rightarrow> full_agent \<Rightarrow> (int \<times> full_agent) option" where
  "foutput ev seqno reason a =
     (let a = (if fa_maxseg a = 0 then on_ecn (\<lambda>r. r\<lparr>rx_maxseg := ft_size_b (fa_tcp a)\<rparr>) a else a);
          datalen = out_len seqno a;
          a = out_restart ev datalen a;
          a = (if out_emptying seqno datalen a \<and> seqno \<noteq> fa_iss a \<and> fa_close_on_empty a \<and> fa_highest_ack a = fa_maxseq a
               then a\<lparr>fa_needclose := True\<rparr> else a);
          pflags = out_pflags seqno datalen a
      in if out_needed seqno datalen pflags a then out_send ev seqno datalen pflags reason a else Some (0, a))"

definition agent_sent :: "int \<Rightarrow> int \<Rightarrow> full_agent \<Rightarrow> full_agent" where
  "agent_sent seq amt a =
     (let a = (if seq = fa_t_seqno a then a\<lparr>fa_t_seqno := i32 (fa_t_seqno a + amt)\<rparr> else a);
          a = a\<lparr>fa_pipe := i32 (fa_pipe a + amt)\<rparr>
      in if seq < fa_maxseq a then a\<lparr>fa_rtxbytes := i32 (fa_rtxbytes a + amt)\<rparr> else a)"

definition agent_send_allowed :: "int \<Rightarrow> full_agent \<Rightarrow> bool" where
  "agent_send_allowed seq a =
     (let win = i32 (window (fa_tcp a) * fa_maxseg a);
          top = i32 (fa_highest_ack a + win)
      in seq < (if fa_curseq a > top \<or> fa_infinite_send a then top else fa_curseq a))"

text \<open>The loop of \<open>send_much\<close>, after \<open>np\<close> packets.\<close>

partial_function (option) agent_send_loop :: "net_env \<Rightarrow> bool \<Rightarrow> int \<Rightarrow> int \<Rightarrow> int \<Rightarrow> full_agent \<Rightarrow> full_agent option" where
  "agent_send_loop ev force reason maxburst np a =
     (let seq = fa_t_seqno a
      in if \<not> force \<and> \<not> agent_send_allowed seq a then Some a
         else if \<not> force \<and> fc_overhead (fa_conf a) \<noteq> 0 \<and> \<not> fa_delsnd_on a then Some (a\<lparr>fa_delsnd_on := True\<rparr>)
         else Option.bind (foutput ev seq reason a) (\<lambda>(amt, a).
           if amt \<le> 0 then Some a
           else let a = agent_sent seq (if flag_set (outflags a) TH_FIN then amt - 1 else amt) a
                in if flag_set (outflags a) (TH_SYN OR TH_FIN) \<or> (maxburst \<noteq> 0 \<and> np + 1 \<ge> maxburst) then Some a
                   else agent_send_loop ev False reason maxburst (np + 1) a))"

definition agent_send_much :: "net_env \<Rightarrow> bool \<Rightarrow> int \<Rightarrow> int \<Rightarrow> full_agent \<Rightarrow> full_agent option" where
  "agent_send_much ev force reason maxburst a =
     (if \<not> force \<and> fa_delsnd_on a then Some a else agent_send_loop ev force reason maxburst 0 a)"

section \<open>Opening and closing\<close>

text \<open>\<open>reset\<close>; the state is not set here.\<close>

definition rtt_init :: "full_conf \<Rightarrow> full_tcp \<Rightarrow> full_tcp" where
  "rtt_init c s = s\<lparr>ft_t_rtt := 0,
     ft_t_srtt := shift_left (trunc_int (of_int (fc_srtt_init c) / ft_tcp_tick s)) (ft_srtt_bits s),
     ft_t_rttvar := shift_left (trunc_int (of_int (fc_rttvar_init c) / ft_tcp_tick s)) (ft_rttvar_bits s),
     ft_t_rtxcur := fc_rtxcur_init c, ft_t_backoff := 1\<rparr>"

definition base_reset :: "net_env \<Rightarrow> full_conf \<Rightarrow> rat \<Rightarrow> full_tcp \<Rightarrow> full_tcp" where
  "base_reset ev c w s =
     (let th = trunc_int (ft_wnd s)
      in (rtt_init c s)\<lparr>ft_cwnd := w, ft_maxseq := - 1, ft_highest_ack := - 1,
           ft_ssthresh := (if 0 < fc_max_ssthresh c \<and> fc_max_ssthresh c < th then fc_max_ssthresh c else th),
           ft_wnd_restart := 1, ft_recover := 0, ft_last_cwnd_action := 0, ft_boot_time := en_uniform ev,
           ft_first_decrease := 1, ft_necnresponses := 0, ft_ncwndcuts := 0, ft_ncwndcuts1 := 0\<rparr>)"

definition rx_reset :: "full_rx \<Rightarrow> full_rx" where
  "rx_reset R = R\<lparr>fr_q := (rq_clear (fr_q R))\<lparr>rq_rcv_nxt := - 1\<rparr>,
     fr_ecn := (fr_ecn R)\<lparr>rx_rcv_nxt := - 1, rx_last_ack_sent := - 1, rx_irs := - 1, rx_acknow := False, rx_delack := False\<rparr>\<rparr>"

definition agent_reset :: "net_env \<Rightarrow> full_agent \<Rightarrow> full_agent option" where
  "agent_reset ev a = do {
     let c = fa_conf a;
     w \<leftarrow> (if fc_delay_growth c then Some 1 else initial_window a);
     let recent = (if ft_ts_option (fa_tcp a) then 0 else - 1);
     Some ((cancel_timers a)\<lparr>fa_tcp := base_reset ev c w (fa_tcp a), fa_rx := rx_reset (fa_rx a),
       fa_t_seqno := fc_iss c, fa_curseq := 0, fa_dupacks := 0, fa_pipe := 0, fa_rtxbytes := 0,
       fa_needfin := False, fa_needclose := False, fa_close_on_empty := False, fa_fastrecov := False,
       fa_rtt_seq := - 1, fa_recent := recent, fa_recent_age := recent, fa_last_send := - 1,
       fa_awnd := ft_wnd_init (fa_tcp a) / 2, fa_ecn_syn_next := fc_ecn_syn c\<rparr>)
   }"

definition agent_connect :: "net_env \<Rightarrow> full_agent \<Rightarrow> full_agent option" where
  "agent_connect ev a = map_option (\<lambda>(n, b). agent_sent (fa_iss a) n b)
     (foutput ev (fa_iss a) REASON_NORMAL (newstate TCPS_SYN_SENT_num a))"

definition agent_listen :: "full_agent \<Rightarrow> full_agent" where
  "agent_listen a = newstate TCPS_LISTEN_num a"

definition agent_advance_bytes :: "net_env \<Rightarrow> int \<Rightarrow> full_agent \<Rightarrow> full_agent option" where
  "agent_advance_bytes ev nb a =
     (let st = fa_state a
      in if st = TCPS_CLOSED_num \<or> st = TCPS_LISTEN_num
         then Option.bind (agent_reset ev a) (\<lambda>a. agent_connect ev (a\<lparr>fa_curseq := i32 (fa_iss a + nb)\<rparr>))
         else if st = TCPS_ESTABLISHED_num \<or> st = TCPS_SYN_SENT_num \<or> st = TCPS_SYN_RECEIVED_num
         then let a = a\<lparr>fa_curseq := i32 ((if fa_curseq a < fa_iss a then fa_iss a else fa_curseq a) + nb)\<rparr>
              in if st = TCPS_ESTABLISHED_num
                 then agent_send_much ev False REASON_NORMAL (fc_maxburst (fa_conf a)) a else Some a
         else Some a)"

definition agent_advanceby :: "net_env \<Rightarrow> int \<Rightarrow> full_agent \<Rightarrow> full_agent option" where
  "agent_advanceby ev np a =
     (if np \<ge> 0x10000000 \<and> fa_maxseg a = 0 then None
      else let np = (if np \<ge> 0x10000000 then trunc_int (of_int np / of_int (fa_maxseg a)) else np)
           in agent_advance_bytes ev (i32 (np * fa_maxseg a)) a)"

text \<open>\<open>sendmsg\<close>; the flag says whether it is \<open>MSG_EOF\<close>.\<close>

definition agent_sendmsg :: "net_env \<Rightarrow> int \<Rightarrow> bool \<Rightarrow> full_agent \<Rightarrow> full_agent option" where
  "agent_sendmsg ev nbytes eof a =
     (let a = (if eof then a\<lparr>fa_close_on_empty := True\<rparr> else a)
      in if nbytes = - 1 then agent_advance_bytes ev 0 (a\<lparr>fa_infinite_send := True\<rparr>)
         else agent_advance_bytes ev nbytes a)"

definition send_forced :: "net_env \<Rightarrow> full_agent \<Rightarrow> full_agent option" where
  "send_forced ev a = agent_send_much ev True REASON_NORMAL (fc_maxburst (fa_conf a)) a"

definition usrclosed :: "net_env \<Rightarrow> full_agent \<Rightarrow> full_agent option" where
  "usrclosed ev a =
     (let st = fa_state a; a = a\<lparr>fa_curseq := i32 (fa_maxseq a - 1), fa_infinite_send := False\<rparr>
      in if st = TCPS_CLOSED_num \<or> st = TCPS_LISTEN_num then Some (newstate TCPS_CLOSED_num (cancel_timers a))
         else if st = TCPS_SYN_SENT_num then send_forced ev ((newstate TCPS_CLOSED_num a)\<lparr>fa_needfin := True\<rparr>)
         else if st = TCPS_LAST_ACK_num then send_forced ev (a\<lparr>fa_needfin := True\<rparr>)
         else if st = TCPS_SYN_RECEIVED_num \<or> st = TCPS_ESTABLISHED_num
         then send_forced ev ((newstate TCPS_FIN_WAIT_1_num a)\<lparr>fa_needfin := True\<rparr>)
         else if st = TCPS_CLOSE_WAIT_num
         then send_forced ev ((newstate TCPS_LAST_ACK_num a)\<lparr>fa_needfin := True\<rparr>)
         else Some a)"

section \<open>Acknowledgments\<close>

definition fast_retransmit :: "net_env \<Rightarrow> int \<Rightarrow> full_agent \<Rightarrow> (int \<times> full_agent) option" where
  "fast_retransmit ev seq a = foutput ev seq REASON_DUPACK
     (on_tcp (\<lambda>s. s\<lparr>ft_recover := ft_maxseq s, ft_last_cwnd_action := CWND_ACTION_DUPACK\<rparr>) a)"

definition agent_dupack_action :: "net_env \<Rightarrow> full_agent \<Rightarrow> full_agent option" where
  "agent_dupack_action ev a =
     (let recovered = (fa_highest_ack a > ft_recover (fa_tcp a)); bug = fc_bug_fix (fa_conf a); ec = rx_ecn (fa_ecn a);
          a = a\<lparr>fa_fastrecov := True, fa_rtxbytes := 0\<rparr>;
          full = (\<lambda>a. do {
            let a = (cancel_rtx_timer (slow_down ev (CLOSE_SSTHRESH_HALF OR CLOSE_CWND_HALF) a))\<lparr>fa_rtt_active := False\<rparr>;
            let a = on_tcp (\<lambda>s. s\<lparr>ft_recover := ft_maxseq s\<rparr>) a;
            (n, a) \<leftarrow> fast_retransmit ev (fa_highest_ack a) a;
            Some (set_cwnd (of_int (ft_ssthresh (fa_tcp a)) + of_int (fa_dupacks a)) a)
          })
      in if recovered \<or> (\<not> bug \<and> \<not> ec) \<or> ft_last_cwnd_action (fa_tcp a) = CWND_ACTION_DUPACK \<or> fa_highest_ack a = 0
         then full a
         else if ec \<and> ft_last_cwnd_action (fa_tcp a) = CWND_ACTION_ECN
         then map_option snd (fast_retransmit ev (fa_highest_ack a)
                ((cancel_rtx_timer (slow_down ev CLOSE_CWND_HALF a))\<lparr>fa_rtt_active := False\<rparr>))
         else if bug then Some a else full a)"

definition partial_ack :: "int \<Rightarrow> full_agent \<Rightarrow> bool" where
  "partial_ack ackno a \<longleftrightarrow> fa_fastrecov a \<and> ackno \<ge> fa_highest_ack a \<and> ackno < ft_recover (fa_tcp a)"

definition pack_action :: "full_agent \<Rightarrow> full_agent" where
  "pack_action a =
     (let th = of_int (ft_ssthresh (fa_tcp a));
          a = (if fc_reno_fastrecov (fa_conf a) \<and> fa_fastrecov a \<and> ft_cwnd (fa_tcp a) > th then set_cwnd th a else a)
      in a\<lparr>fa_fastrecov := False, fa_dupacks := 0\<rparr>)"

definition newack_rtt :: "net_env \<Rightarrow> full_pkt \<Rightarrow> full_agent \<Rightarrow> full_agent" where
  "newack_rtt ev p a =
     (let off = (\<not> rx_ect (fa_ecn a) \<or> \<not> ft_ecn_backoff (fa_tcp a) \<or> \<not> fp_ecnecho p)
      in if fp_no_ts p then a
         else let a = (if ft_ts_option (fa_tcp a)
                then let a = on_tcp (tcp_rtt_update (en_now ev) (en_now ev - fp_ts_echo p))
                           (a\<lparr>fa_recent_age := en_now ev, fa_recent := fp_ts p\<rparr>)
                     in if fc_ts_reset_rto (fa_conf a) \<and> off then on_tcp (\<lambda>s. s\<lparr>ft_t_backoff := 1\<rparr>) a else a
                else if fa_rtt_active a \<and> fp_ackno p > fa_rtt_seq a
                then on_tcp (tcp_rtt_update (en_now ev) (en_now ev - fa_rtt_ts a)) (a\<lparr>fa_rtt_active := False\<rparr>)
                else a)
              in if off then on_tcp (\<lambda>s. s\<lparr>ft_t_backoff := 1, ft_ecn_backoff := False\<rparr>) a else a)"

definition agent_newack :: "net_env \<Rightarrow> full_pkt \<Rightarrow> full_agent \<Rightarrow> full_agent option" where
  "agent_newack ev p a = do {
     let ackno = fp_ackno p;
     let progress = (ackno > fa_highest_ack a);
     a \<leftarrow> (if ackno = fa_maxseq a then Some (cancel_rtx_timer a) else if progress then set_rtx_timer a else Some a);
     let a = (if progress then on_tcp (\<lambda>s. s\<lparr>ft_highest_ack := ackno\<rparr>) a else a);
     let a = (if fa_t_seqno a < fa_highest_ack a then a\<lparr>fa_t_seqno := fa_highest_ack a\<rparr> else a);
     Some (newack_rtt ev p a)
   }"

definition timeout_action :: "net_env \<Rightarrow> full_agent \<Rightarrow> full_agent option" where
  "timeout_action ev a = do {
     let a = on_tcp (\<lambda>s. s\<lparr>ft_recover := ft_maxseq s, ft_cwnd := (if ft_cwnd s < 1 then 1 else ft_cwnd s)\<rparr>) a;
     let a = (if ft_last_cwnd_action (fa_tcp a) = CWND_ACTION_ECN then slow_down ev CLOSE_CWND_ONE a
              else on_tcp (\<lambda>s. s\<lparr>ft_last_cwnd_action := CWND_ACTION_TIMEOUT\<rparr>)
                     (slow_down ev (CLOSE_SSTHRESH_HALF OR CLOSE_CWND_RESTART) a));
     a \<leftarrow> reset_rtx_timer a;
     let seq = (if fa_highest_ack a < 0 then fa_iss a else fa_highest_ack a);
     Some (on_tcp (\<lambda>s. s\<lparr>ft_dctcp_alpha_update_seq := seq, ft_dctcp_maxseq := seq\<rparr>)
       (a\<lparr>fa_t_seqno := seq, fa_fastrecov := False, fa_dupacks := 0\<rparr>))
   }"

section \<open>Arriving packets\<close>

text \<open>Where \<open>recv\<close> goes next (its labels), and its local variables.\<close>

datatype verdict = Drop_pkt | Drop_after_ack | Drop_with_reset | Process_ack | Step6 | Go_on

record seg_in =
  si_pkt :: full_pkt
  si_datalen :: int
  si_tiflags :: int
  si_dupseg :: bool
  si_needoutput :: bool

type_synonym handled = "(verdict \<times> seg_in \<times> full_agent) option"

definition dooptions :: "net_env \<Rightarrow> full_pkt \<Rightarrow> full_agent \<Rightarrow> full_agent" where
  "dooptions ev p a =
     (if ft_ts_option (fa_tcp a) \<and> \<not> fp_no_ts p \<and> \<not> fp_ts p < 0 \<and> flag_set (ts_flags (fp_seg p)) TH_SYN
      then a\<lparr>fa_recent := fp_ts p, fa_recent_age := en_now ev\<rparr> else a)"

definition note_ts :: "net_env \<Rightarrow> full_pkt \<Rightarrow> full_agent \<Rightarrow> full_agent" where
  "note_ts ev p a =
     (if ft_ts_option (fa_tcp a) \<and> \<not> fp_no_ts p \<and> ts_seqno (fp_seg p) \<le> rx_last_ack_sent (fa_ecn a)
      then a\<lparr>fa_recent_age := en_now ev, fa_recent := fp_ts p\<rparr> else a)"

definition note_ce :: "full_pkt \<Rightarrow> int \<Rightarrow> full_agent \<Rightarrow> full_agent" where
  "note_ce p datalen a = on_ecn (ce_update (fp_ce p) (fp_ect p) (fp_cwr p) datalen) a"

definition predict_ok :: "full_pkt \<Rightarrow> full_agent \<Rightarrow> bool" where
  "predict_ok p a \<longleftrightarrow> fa_state a = TCPS_ESTABLISHED_num
     \<and> ts_flags (fp_seg p) AND (TH_SYN OR TH_FIN OR TH_ACK) = TH_ACK
     \<and> \<not> fa_needfin a
     \<and> (\<not> ft_ts_option (fa_tcp a) \<or> fp_no_ts p \<or> fp_ts p \<ge> fa_recent a)
     \<and> ts_seqno (fp_seg p) = fa_rcv_nxt a
     \<and> fa_t_seqno a = fa_maxseq a
     \<and> (\<not> rx_ecn (fa_ecn a) \<or> \<not> fp_ecnecho p)
     \<and> fp_sa_length p = 0"

text \<open>The acknowledgment of what is pending, with the echo of before the marks changed.\<close>

definition ack_pending :: "net_env \<Rightarrow> full_agent \<Rightarrow> full_agent option" where
  "ack_pending ev a =
     (let r = fa_ecn a; flip = on_ecn (\<lambda>r. r\<lparr>rx_recent_ce := \<not> rx_recent_ce r\<rparr>)
      in if rx_dctcp r \<and> rx_ce_transition r \<and> 0 < i32 (rx_rcv_nxt r - rx_last_ack_sent r)
         then map_option flip (send_forced ev (flip (set_acknow a))) else Some a)"

definition take_next :: "int \<Rightarrow> full_agent \<Rightarrow> full_agent" where
  "take_next datalen a =
     (let a = on_ecn (\<lambda>r. r\<lparr>rx_delack := True\<rparr>) (set_rcv_nxt (i32 (fa_rcv_nxt a + datalen)) (a\<lparr>fa_delack_on := True\<rparr>))
      in on_rx (\<lambda>R. R\<lparr>fr_delivered := fr_delivered R + datalen\<rparr>) a)"

text \<open>The predicted path. \<open>Inl\<close>: the packet is done with; \<open>Inr\<close>: the slow path follows.\<close>

definition recv_fast :: "net_env \<Rightarrow> full_pkt \<Rightarrow> int \<Rightarrow> full_agent \<Rightarrow> (full_agent + full_agent) option" where
  "recv_fast ev p datalen a =
     (if fc_nopredict (fa_conf a) \<or> \<not> predict_ok p a then Some (Inr a)
      else let a = note_ce p datalen (note_ts ev p a); ackno = fp_ackno p; s = fa_tcp a
        in if datalen = 0
           then (if ackno > fa_highest_ack a \<and> ackno < fa_maxseq a \<and> ft_cwnd s \<ge> ft_wnd s \<and> \<not> fa_fastrecov a
                 then do {
                   a \<leftarrow> agent_newack ev p a;
                   a \<leftarrow> agent_send_much ev False REASON_NORMAL (fc_maxburst (fa_conf a)) a;
                   Some (Inl a) }
                 else Some (Inr a))
           else if ackno = fa_highest_ack a \<and> rq_empty (fr_q (fa_rx a))
           then do {
             a \<leftarrow> ack_pending ev a;
             let a = take_next datalen a;
             a \<leftarrow> (if need_send (fa_ecn a) then send_forced ev a else Some a);
             Some (Inl a) }
           else Some (Inr a))"

definition next_seqno :: "seg_in \<Rightarrow> seg_in" where
  "next_seqno si = si\<lparr>si_pkt := (si_pkt si)\<lparr>fp_seg := (fp_seg (si_pkt si))
     \<lparr>ts_seqno := i32 (ts_seqno (fp_seg (si_pkt si)) + 1)\<rparr>\<rparr>\<rparr>"

definition trim_step :: "seg_in \<Rightarrow> full_agent \<Rightarrow> handled" where
  "trim_step si a = Some (if flag_set (si_tiflags si) TH_ACK then Process_ack else Step6, next_seqno si, a)"

definition init_rcv :: "full_pkt \<Rightarrow> int \<Rightarrow> full_agent \<Rightarrow> full_agent" where
  "init_rcv p datalen a = set_rcv_nxt (i32 (ts_seqno (fp_seg p) + datalen + 1))
     (on_ecn (\<lambda>r. r\<lparr>rx_irs := ts_seqno (fp_seg p)\<rparr>) a)"

definition set_ect :: "full_agent \<Rightarrow> full_agent" where
  "set_ect a = on_ecn (\<lambda>r. r\<lparr>rx_ect := True\<rparr>) a"

definition recv_listen :: "net_env \<Rightarrow> seg_in \<Rightarrow> full_agent \<Rightarrow> handled" where
  "recv_listen ev si a =
     (let p = si_pkt si; fl = si_tiflags si
      in if flag_set fl TH_ACK then Some (Drop_with_reset, si, a)
         else if \<not> flag_set fl TH_SYN then Some (Drop_pkt, si, a)
         else let a = init_rcv p (si_datalen si) (dooptions ev p a);
                  a = set_acknow (a\<lparr>fa_t_seqno := fa_iss a\<rparr>);
                  a = (if rx_ecn (fa_ecn a) \<and> fp_ecnecho p \<and> fp_cwr p then set_ect a else a)
              in trim_step si (newstate TCPS_SYN_RECEIVED_num a))"

text \<open>In \<open>SYN_SENT\<close>: the marks of a SYN with an ACK, and the rest of its handling; then the whole state.\<close>

definition syn_marks :: "full_pkt \<Rightarrow> full_agent \<Rightarrow> full_agent" where
  "syn_marks p a =
     (if rx_ecn (fa_ecn a) \<and> fp_ecnecho p \<and> \<not> fp_cwr p
      then let a = set_ect a in if fp_ce p then on_ecn (\<lambda>r. r\<lparr>rx_recent_ce := True\<rparr>) a else a
      else a)"

definition syn_sent_acked :: "net_env \<Rightarrow> seg_in \<Rightarrow> full_agent \<Rightarrow> handled" where
  "syn_sent_acked ev si a = do {
     let a = on_tcp (\<lambda>s. s\<lparr>ft_highest_ack := fp_ackno (si_pkt si)\<rparr>) (syn_marks (si_pkt si) a);
     w \<leftarrow> initial_window a;
     let a = set_cwnd w a;
     let a = (if 0 < si_datalen si then on_ecn (\<lambda>r. r\<lparr>rx_delack := True\<rparr>) (a\<lparr>fa_delack_on := True\<rparr>)
              else set_acknow a);
     let (si, a) = (if fa_needfin a
              then (si\<lparr>si_tiflags := si_tiflags si AND NOT TH_SYN\<rparr>, (newstate TCPS_FIN_WAIT_1_num a)\<lparr>fa_needfin := False\<rparr>)
              else (si, newstate TCPS_ESTABLISHED_num a));
     trim_step si (send_pkt ev (fa_t_seqno a) (fa_rcv_nxt a) TH_ACK 0 0 a)
   }"

definition recv_syn_sent :: "net_env \<Rightarrow> seg_in \<Rightarrow> full_agent \<Rightarrow> handled" where
  "recv_syn_sent ev si a =
     (let p = si_pkt si; fl = si_tiflags si; ackno = fp_ackno p; ackd = flag_set fl TH_ACK; ec = rx_ecn (fa_ecn a)
      in if ackd \<and> (ackno \<le> fa_iss a \<or> ackno > fa_maxseq a) then Some (Drop_with_reset, si, a)
         else if \<not> flag_set fl TH_SYN then Some (Drop_pkt, si, a)
         else if ackd \<and> ec \<and> fp_ecnecho p \<and> \<not> fp_cwr p \<and> fc_ecn_syn_wait (fa_conf a) = 2 \<and> fp_ce p
         then do {
           a \<leftarrow> set_rtx_timer a;
           Some (Drop_pkt, si, send_pkt ev (fa_t_seqno a) (fa_rcv_nxt a) (TH_ACK OR TH_ECE) 0 0 a) }
         else let a = init_rcv p (si_datalen si) a
           in if ackd then syn_sent_acked ev si a
              else let a = (if ec \<and> fp_ecnecho p \<and> fp_cwr p then set_ect a else a);
                       a = newstate TCPS_SYN_RECEIVED_num (cancel_rtx_timer (set_acknow a))
                   in trim_step si (a\<lparr>fa_t_seqno := i32 (fa_t_seqno a - 1)\<rparr>))"

text \<open>The first \<open>switch\<close>.\<close>

definition recv_special :: "net_env \<Rightarrow> seg_in \<Rightarrow> full_agent \<Rightarrow> handled" where
  "recv_special ev si a =
     (if fa_state a = TCPS_LISTEN_num then recv_listen ev si a
      else if fa_state a = TCPS_SYN_SENT_num then recv_syn_sent ev si a
      else if fa_state a = TCPS_LAST_ACK_num \<and> flag_set (si_tiflags si) TH_FIN then Some (Drop_pkt, si, a)
      else Some (Go_on, si, a))"

text \<open>\<open>dupseg\<close>: nothing of the segment is new.\<close>

definition all_old :: "tcp_seg \<Rightarrow> int \<Rightarrow> int \<Rightarrow> full_rx \<Rightarrow> bool" where
  "all_old s datalen tiflags R =
     (let todrop = i32 (rq_rcv_nxt (fr_q R) - ts_seqno s); syn = flag_set tiflags TH_SYN;
          left = (if syn then i32 (todrop - 1) else todrop)
      in 0 < todrop \<and> (syn \<or> 0 < datalen)
         \<and> (left > datalen \<or> (left = datalen \<and> \<not> flag_set tiflags TH_FIN)))"

text \<open>From the check of the timestamp to the check for an ACK.\<close>

definition recv_trim :: "net_env \<Rightarrow> seg_in \<Rightarrow> full_agent \<Rightarrow> handled" where
  "recv_trim ev si a =
     (let p = si_pkt si;
          old = (ft_ts_option (fa_tcp a) \<and> \<not> fp_no_ts p \<and> fa_recent a \<noteq> 0 \<and> fp_ts p < fa_recent a);
          idle = (en_now ev - fa_recent_age a > 24 * 24 * 60 * 60)
      in if old \<and> \<not> idle then Some (Drop_after_ack, si, a)
         else let a = (if old then a\<lparr>fa_recent := 0\<rparr> else a);
                  dup = all_old (fp_seg p) (si_datalen si) (si_tiflags si) (fa_rx a);
                  (s, datalen, fl, R) = trim_data (fp_seg p) (si_datalen si) (si_tiflags si) (fa_rx a);
                  p = p\<lparr>fp_seg := s\<rparr>;
                  a = note_ts ev p (a\<lparr>fa_rx := R\<rparr>);
                  si = si\<lparr>si_pkt := p, si_datalen := datalen, si_tiflags := fl, si_dupseg := dup\<rparr>
              in Some (if flag_set fl TH_SYN then Drop_with_reset
                       else if \<not> flag_set fl TH_ACK then Drop_pkt else Go_on, si, a))"

text \<open>The ACK of our SYN.\<close>

definition recv_syn_acked :: "net_env \<Rightarrow> seg_in \<Rightarrow> full_agent \<Rightarrow> handled" where
  "recv_syn_acked ev si a =
     (let p = si_pkt si; c = fa_conf a; r = fa_ecn a;
          marked = (rx_ecn r \<and> rx_ect r \<and> fc_ecn_syn c \<and> fp_ecnecho p)
      in if fp_ackno p < fa_highest_ack a \<or> fp_ackno p > fa_maxseq a then Some (Drop_with_reset, si, a)
         else if marked \<and> fc_ecn_syn_wait c = 2
         then do {
           (n, a) \<leftarrow> foutput ev (fa_iss a) REASON_NORMAL ((cancel_rtx_timer a)\<lparr>fa_ecn_syn_next := False\<rparr>);
           Some (Drop_pkt, si, on_tcp (\<lambda>s. s\<lparr>ft_wnd_init := 1\<rparr>) (a\<lparr>fa_wnd_init_option := 1\<rparr>)) }
         else do {
           a \<leftarrow> (if marked \<and> fc_ecn_syn_wait c < 2
                then Some (if fc_ecn_syn_wait c = 1 then on_tcp (\<lambda>s. s\<lparr>ft_cwnd := 1, ft_use_rtt := True\<rparr>) a
                           else set_cwnd 2 a)
                else map_option (\<lambda>w. set_cwnd w a) (initial_window a));
           Some (Go_on, si, if fa_needfin a then (newstate TCPS_FIN_WAIT_1_num a)\<lparr>fa_needfin := False\<rparr>
                            else newstate TCPS_ESTABLISHED_num a) })"

text \<open>An acknowledgment that is not above \<open>highest_ack_\<close>.\<close>

definition recv_dup_ack :: "net_env \<Rightarrow> seg_in \<Rightarrow> full_agent \<Rightarrow> handled" where
  "recv_dup_ack ev si a =
     (let c = fa_conf a
      in if si_datalen si = 0 \<and> (\<not> fc_dupseg_fix c \<or> \<not> si_dupseg si)
         then if \<not> fa_rtx_on a \<or> fp_ackno (si_pkt si) < fa_highest_ack a
              then Some (Step6, si, a\<lparr>fa_dupacks := 0\<rparr>)
              else let a = a\<lparr>fa_dupacks := i32 (fa_dupacks a + 1)\<rparr>
                in if fa_dupacks a = fc_dupthresh c then map_option (\<lambda>a. (Drop_pkt, si, a)) (agent_dupack_action ev a)
                   else if fa_dupacks a > fc_dupthresh c
                   then map_option (\<lambda>a. (Drop_pkt, si, a))
                     (agent_send_much ev False REASON_DUPACK (fc_maxburst c)
                       (if fc_reno_fastrecov c then set_cwnd (ft_cwnd (fa_tcp a) + 1) a else a))
                   else Some (Step6, si, a)
         else Some (Step6, si, if fc_dupack_reset c then a\<lparr>fa_dupacks := 0, fa_fastrecov := False\<rparr> else a))"

text \<open>
  The label \<open>process_ACK\<close>: the reaction to an ECN echo, the opening of the window (\<open>fa_last_state\<close> is
  the state in which the packet arrived), and the states of closing.
\<close>

definition ack_echo :: "net_env \<Rightarrow> seg_in \<Rightarrow> full_agent \<Rightarrow> full_agent option" where
  "ack_echo ev si a =
     (if fp_ecnecho (si_pkt si) \<and> \<not> flag_set (si_tiflags si) TH_SYN
      then do {
        s \<leftarrow> ecn (en_pow_l ev) (en_decrease ev) (fa_highest_ack a) (fa_tcp a);
        if ft_cwnd s < 1 then set_rtx_timer (a\<lparr>fa_tcp := s\<rparr>) else Some (a\<lparr>fa_tcp := s\<rparr>) }
      else Some a)"

definition ack_open :: "net_env \<Rightarrow> full_pkt \<Rightarrow> bool \<Rightarrow> full_agent \<Rightarrow> full_agent option" where
  "ack_open ev p partial a = do {
     let c = fa_conf a;
     let ect = rx_ect (fa_ecn a);
     a \<leftarrow> (if (\<not> fc_delay_growth c \<or> fa_rcv_nxt a > 0) \<and> fa_last_state a = TCPS_ESTABLISHED_num
             \<and> (\<not> partial \<or> fc_open_cwnd_on_pack c)
             \<and> (\<not> ect \<or> \<not> fp_ecnecho p \<or> fa_ecn_burst a)
          then opencwnd ev a else Some a);
     Some (if ect then a\<lparr>fa_ecn_burst := fp_ecnecho p\<rparr> else a)
   }"

definition ack_closing :: "net_env \<Rightarrow> seg_in \<Rightarrow> full_agent \<Rightarrow> handled" where
  "ack_closing ev si a =
     (let st = fa_state a
      in if st \<ge> TCPS_FIN_WAIT_1_num \<and> fp_ackno (si_pkt si) = fa_maxseq a
         then if st = TCPS_FIN_WAIT_1_num
              then Some (Step6, si\<lparr>si_needoutput := False\<rparr>, cancel_timers (newstate TCPS_FIN_WAIT_2_num a))
              else if st = TCPS_CLOSING_num then Some (Step6, si, cancel_timers (newstate TCPS_CLOSED_num a))
              else if st = TCPS_LAST_ACK_num
              then map_option (\<lambda>a. (Drop_pkt, si, a)) (agent_reset ev (newstate TCPS_CLOSED_num a))
              else Some (Step6, si, a)
         else Some (Step6, si, a))"

definition recv_process_ack :: "net_env \<Rightarrow> seg_in \<Rightarrow> full_agent \<Rightarrow> handled" where
  "recv_process_ack ev si a =
     (let p = si_pkt si; ackno = fp_ackno p
      in if ackno > fa_maxseq a then Some (Drop_after_ack, si, a)
         else do {
           a \<leftarrow> agent_newack ev p a;
           let partial = partial_ack ackno a;
           a \<leftarrow> ack_echo ev si (pack_action a);
           let si = (if ackno = fa_maxseq a then si\<lparr>si_needoutput := True\<rparr> else si);
           if ackno = i32 (fa_highest_ack a + 1) then Some (Step6, si, a)
           else do {
             a \<leftarrow> ack_open ev p partial a;
             ack_closing ev si a } })"

text \<open>From the ACK on, in the states from \<open>SYN_RECEIVED\<close>: the second \<open>switch\<close>.\<close>

definition recv_ack :: "net_env \<Rightarrow> seg_in \<Rightarrow> full_agent \<Rightarrow> handled" where
  "recv_ack ev si a =
     (let p = si_pkt si; ackno = fp_ackno p;
          a = note_ce p (si_datalen si) a;
          a = (if fa_fastrecov a \<and> (si_datalen si = 0 \<or> ackno > fa_highest_ack a)
               then a\<lparr>fa_pipe := i32 (fa_pipe a - fa_maxseg a)\<rparr> else a)
      in if ackno \<le> fa_highest_ack a then recv_dup_ack ev si a else recv_process_ack ev si a)"

definition recv_acks :: "net_env \<Rightarrow> seg_in \<Rightarrow> full_agent \<Rightarrow> handled" where
  "recv_acks ev si a =
     (if fa_state a = TCPS_SYN_RECEIVED_num
      then do {
        (v, si, a) \<leftarrow> recv_syn_acked ev si a;
        if v = Go_on then recv_ack ev si a else Some (v, si, a) }
      else if fa_state a > TCPS_SYN_RECEIVED_num then recv_ack ev si a
      else Some (Step6, si, a))"

text \<open>The data of the segment (the label \<open>step6\<close>), its FIN, and what is sent in the end.\<close>

definition accept_seg :: "net_env \<Rightarrow> seg_in \<Rightarrow> full_agent \<Rightarrow> (seg_in \<times> full_agent) option" where
  "accept_seg ev si a =
     (let s = fp_seg (si_pkt si); datalen = si_datalen si
      in if (0 < datalen \<or> flag_set (si_tiflags si) TH_FIN) \<and> \<not> have_rcvd_fin (fa_state a)
         then if ts_seqno s = fa_rcv_nxt a \<and> rq_empty (fr_q (fa_rx a))
              then do {
                a \<leftarrow> ack_pending ev a;
                let a = take_next datalen a;
                Some (si\<lparr>si_tiflags := ts_flags s AND TH_FIN, si_needoutput := need_send (fa_ecn a)\<rparr>, a) }
              else do {
                (fl, q) \<leftarrow> reass s (fa_state a) (fr_q (fa_rx a));
                let old = fa_rcv_nxt a;
                let a = on_rx (set_rcv q) a;
                let a = (if fa_rcv_nxt a > old
                         then on_rx (\<lambda>R. R\<lparr>fr_delivered := fr_delivered R + i32 (rq_rcv_nxt q - old)\<rparr>) a else a);
                let a = set_acknow a;
                Some (si\<lparr>si_tiflags := fl,
                         si_needoutput := (if flag_set fl TH_PUSH then need_send (fa_ecn a) else si_needoutput si)\<rparr>, a) }
         else Some (si\<lparr>si_tiflags := si_tiflags si AND NOT TH_FIN\<rparr>, a))"

definition fin_seg :: "int \<Rightarrow> full_agent \<Rightarrow> full_agent" where
  "fin_seg tiflags a =
     (let b = on_rx (take_fin tiflags) a
      in if flag_set tiflags TH_FIN \<and> fa_state a = TCPS_FIN_WAIT_2_num then cancel_timers b else b)"

definition recv_step6 :: "net_env \<Rightarrow> seg_in \<Rightarrow> full_agent \<Rightarrow> full_agent option" where
  "recv_step6 ev si a = do {
     (si, a) \<leftarrow> accept_seg ev si a;
     let a = fin_seg (si_tiflags si) a;
     a \<leftarrow> (if si_needoutput si \<or> rx_acknow (fa_ecn a) then send_forced ev a
          else if fa_curseq a \<ge> fa_highest_ack a \<or> fa_infinite_send a
          then agent_send_much ev False REASON_NORMAL (fc_maxburst (fa_conf a)) a
          else Some a);
     if \<not> fc_halfclose (fa_conf a) \<and> fa_state a = TCPS_CLOSE_WAIT_num \<and> fa_highest_ack a = fa_maxseq a
     then usrclosed ev a else Some a
   }"

text \<open>The various ways of dropping a packet. There is no RST; a packet without ACK may be sent instead.\<close>

definition drop_with_reset :: "net_env \<Rightarrow> seg_in \<Rightarrow> full_agent \<Rightarrow> full_agent" where
  "drop_with_reset ev si a =
     (let p = si_pkt si
      in if flag_set (si_tiflags si) TH_ACK then send_pkt ev (fp_ackno p) 0 0 0 REASON_NORMAL a
         else let ack = i32 (ts_seqno (fp_seg p) + si_datalen si);
                  ack = (if flag_set (si_tiflags si) TH_SYN then i32 (ack - 1) else ack)
              in send_pkt ev 0 ack TH_ACK 0 REASON_NORMAL a)"

definition leave :: "net_env \<Rightarrow> verdict \<times> seg_in \<times> full_agent \<Rightarrow> full_agent option" where
  "leave ev = (\<lambda>(v, si, a). case v of
       Drop_pkt \<Rightarrow> Some a
     | Drop_after_ack \<Rightarrow> send_forced ev (set_acknow a)
     | Drop_with_reset \<Rightarrow> Some (drop_with_reset ev si a)
     | Step6 \<Rightarrow> recv_step6 ev si a
     | _ \<Rightarrow> None)"

definition go_to :: "net_env \<Rightarrow> (seg_in \<Rightarrow> full_agent \<Rightarrow> full_agent option) \<Rightarrow> verdict \<times> seg_in \<times> full_agent
    \<Rightarrow> full_agent option" where
  "go_to ev k = (\<lambda>(v, si, a).
     if v = Go_on then k si a
     else if v = Process_ack then Option.bind (recv_process_ack ev si a) (leave ev)
     else leave ev (v, si, a))"

definition recv_slow :: "net_env \<Rightarrow> seg_in \<Rightarrow> full_agent \<Rightarrow> full_agent option" where
  "recv_slow ev si a = Option.bind (recv_special ev si a) (go_to ev (\<lambda>si a.
     Option.bind (recv_trim ev si a) (go_to ev (\<lambda>si a.
     Option.bind (recv_acks ev si a) (leave ev)))))"

definition agent_recv :: "net_env \<Rightarrow> full_pkt \<Rightarrow> full_agent \<Rightarrow> full_agent option" where
  "agent_recv ev p a =
     (let a = a\<lparr>fa_last_state := fa_state a\<rparr>; s = fp_seg p; datalen = i32 (ts_size s - ts_hlen s)
      in if fa_state a = TCPS_CLOSED_num
         then if flag_set (ts_flags s) TH_FIN then send_forced ev (set_acknow a) else Some a
         else do {
           let a = (if fa_state a \<noteq> TCPS_LISTEN_num then dooptions ev p a else a);
           let a = (if ft_dctcp (fa_tcp a) then on_tcp (update_dctcp_alpha (fp_ackno p) (fp_ecnecho p)) a else a);
           r \<leftarrow> recv_fast ev p datalen a;
           (case r of Inl a \<Rightarrow> Some a
            | Inr a \<Rightarrow> recv_slow ev \<lparr>si_pkt = p, si_datalen = datalen, si_tiflags = ts_flags s,
                         si_dupseg = False, si_needoutput = False\<rparr> a) })"

text \<open>The timers. A timer that fires is no longer pending.\<close>

datatype timer = Rtx_timer | Delsnd_timer | Delack_timer

definition agent_timeout :: "net_env \<Rightarrow> timer \<Rightarrow> full_agent \<Rightarrow> full_agent option" where
  "agent_timeout ev t a =
     (let a = (case t of Rtx_timer \<Rightarrow> a\<lparr>fa_rtx_on := False\<rparr> | Delsnd_timer \<Rightarrow> a\<lparr>fa_delsnd_on := False\<rparr>
               | Delack_timer \<Rightarrow> a\<lparr>fa_delack_on := False\<rparr>)
      in if fa_state a = TCPS_LISTEN_num then Some a
         else case t of
           Rtx_timer \<Rightarrow> Option.bind (timeout_action ev a) (agent_send_much ev True PF_TIMEOUT (fc_maxburst (fa_conf a)))
         | Delsnd_timer \<Rightarrow> agent_send_much ev True PF_TIMEOUT (fc_maxburst (fa_conf a)) a
         | Delack_timer \<Rightarrow>
             if rx_delack (fa_ecn a)
             then agent_send_much ev True REASON_NORMAL 0
               (on_ecn (\<lambda>r. r\<lparr>rx_delack := False, rx_acknow := True\<rparr>) a)
             else Some a)"

section \<open>What timers and windows leave alone\<close>

text \<open>The part of the state that the connection's safety rests on.\<close>

definition core :: "full_agent \<Rightarrow> (full_conf \<times> rat \<times> int) \<times> (int \<times> int \<times> int \<times> int) \<times> (rqueue \<times> int \<times> int) \<times> (int \<times> int \<times> int \<times> bool)
    \<times> (bool \<times> bool \<times> bool \<times> bool \<times> bool) \<times> full_pkt list" where
  "core a = ((fa_conf a, ft_wnd (fa_tcp a), ft_frto (fa_tcp a)), (fa_t_seqno a, fa_curseq a, fa_maxseq a, fa_highest_ack a),
     (fr_q (fa_rx a), fa_state a, fr_delivered (fa_rx a)),
     (rx_rcv_nxt (fa_ecn a), rx_irs (fa_ecn a), fa_maxseg a, rx_delack (fa_ecn a)),
     (fa_needfin a, fa_needclose a, fa_infinite_send a, fa_close_on_empty a, fa_delsnd_on a), fa_out a)"

text \<open>Times that cannot make \<open>rtt_timeout\<close> exit, and windows that \<open>opencwnd\<close> can divide by.\<close>

definition timer_ok :: "full_tcp \<Rightarrow> bool" where
  "timer_ok s \<longleftrightarrow> 0 < ft_minrto s \<and> 0 \<le> ft_maxrto s \<and> ft_maxrto s \<le> ft_minrto s * 2 ^ 29
     \<and> 1 \<le> ft_t_backoff s \<and> ft_t_backoff s \<le> 2 ^ 30 \<and> \<not> ft_use_rtt s"

definition tcp_ok :: "full_tcp \<Rightarrow> bool" where
  "tcp_ok s \<longleftrightarrow> timer_ok s \<and> ft_wnd_option s = 1 \<and> 0 < ft_cwnd s \<and> 1 \<le> ft_ssthresh s \<and> 1 \<le> ft_wnd s
     \<and> 0 < ft_wnd_init s \<and> \<not> ft_ts_option s"

lemma rtt_timeout_ok:
  assumes "timer_ok s"
  shows "\<exists>t. rtt_timeout s = Some (t, s\<lparr>ft_use_rtt := False\<rparr>) \<and> (t < ft_maxrto s \<longrightarrow> ft_rfc2988 s \<longrightarrow> ft_t_backoff s < 2 ^ 29)"
proof -
  have m: "0 < ft_minrto s" "0 \<le> ft_maxrto s" "ft_maxrto s \<le> ft_minrto s * 2 ^ 29" "1 \<le> ft_t_backoff s" "\<not> ft_use_rtt s"
    using assms by (simp_all add: timer_ok_def)
  define t0 where "t0 = (if ft_rfc2988 s then
                 if ft_t_rtxcur s < ft_minrto s \<and> \<not> ft_use_rtt s then ft_minrto s * of_int (ft_t_backoff s)
                 else ft_t_rtxcur s * of_int (ft_t_backoff s)
               else let t = ft_t_rtxcur s * of_int (ft_t_backoff s) in if t < ft_minrto s then ft_minrto s else t)"
  define t1 where "t1 = (if ft_maxrto s < t0 then ft_maxrto s else t0)"
  have b: "(1 :: rat) \<le> of_int (ft_t_backoff s)"
    using m by simp
  have ge: "ft_minrto s * of_int (ft_t_backoff s) \<le> t0" if "ft_rfc2988 s"
    using that m b by (auto simp: t0_def intro!: mult_right_mono)
  have "0 \<le> t0"
  proof (cases "ft_rfc2988 s")
    case True
    have "0 \<le> ft_minrto s * of_int (ft_t_backoff s)"
      using m b by simp
    then show ?thesis
      using ge [OF True] by linarith
  next
    case False
    then show ?thesis
      using m by (simp add: t0_def Let_def)
  qed
  then have t1: "0 \<le> t1"
    using m by (simp add: t1_def)
  have small: "ft_t_backoff s < 2 ^ 29" if "t1 < ft_maxrto s" "ft_rfc2988 s"
  proof -
    have "t0 < ft_maxrto s"
      using that(1) by (simp add: t1_def split: if_splits)
    then have "ft_minrto s * of_int (ft_t_backoff s) < ft_minrto s * 2 ^ 29"
      using ge [OF that(2)] m(3) by linarith
    then have "of_int (ft_t_backoff s) < (of_int (2 ^ 29) :: rat)"
      using m(1) by simp
    then show ?thesis
      unfolding of_int_less_iff .
  qed
  have "rtt_timeout s =
     (if t1 < 2 * ft_tcp_tick s then
        if t1 < 0 then None
        else if ft_use_rtt s \<and> t1 < ft_tcp_tick s then Some (ft_tcp_tick s, s\<lparr>ft_use_rtt := False\<rparr>)
        else Some (2 * ft_tcp_tick s, s\<lparr>ft_use_rtt := False\<rparr>)
      else Some (t1, s\<lparr>ft_use_rtt := False\<rparr>))"
    unfolding rtt_timeout_def t1_def t0_def Let_def by (rule refl)
  then have "rtt_timeout s = Some (if t1 < 2 * ft_tcp_tick s then 2 * ft_tcp_tick s else t1, s\<lparr>ft_use_rtt := False\<rparr>)"
    using t1 m(5) by simp
  then show ?thesis
    using small by auto
qed

lemma timer_ok_use [simp]: "timer_ok s \<Longrightarrow> s\<lparr>ft_use_rtt := False\<rparr> = s"
  by (simp add: timer_ok_def)

lemma rtt_backoff_ok:
  assumes "timer_ok s"
  shows "\<exists>s'. rtt_backoff s = Some s' \<and> timer_ok s' \<and> ft_highest_ack s' = ft_highest_ack s
     \<and> ft_wnd_option s' = ft_wnd_option s \<and> ft_ssthresh s' = ft_ssthresh s \<and> ft_wnd_init s' = ft_wnd_init s
     \<and> ft_ts_option s' = ft_ts_option s \<and> ft_frto s' = ft_frto s"
proof -
  obtain t where t: "rtt_timeout s = Some (t, s)" "t < ft_maxrto s \<Longrightarrow> ft_rfc2988 s \<Longrightarrow> ft_t_backoff s < 2 ^ 29"
    using rtt_timeout_ok [OF assms] assms by auto
  have b: "1 \<le> ft_t_backoff s"
    using assms by (simp add: timer_ok_def)
  have sh: "shift_left (ft_t_backoff s) 1 = 2 * ft_t_backoff s" if "ft_t_backoff s < 2 ^ 29"
    using that b by (simp add: shift_left_def i32_id)
  show ?thesis
  proof (cases "ft_t_backoff s < 64 \<or> (ft_rfc2988 s \<and> t < ft_maxrto s)")
    case True
    then have "ft_t_backoff s < 2 ^ 29"
      using t(2) by auto
    then show ?thesis
      using assms b sh t(1) True by (auto simp: rtt_backoff_def timer_ok_def Let_def)
  next
    case False
    then show ?thesis
      using assms t(1) by (auto simp: rtt_backoff_def timer_ok_def Let_def)
  qed
qed

lemma slowdown_frame [simp]:
  "timer_ok (slowdown pl d how s) = timer_ok s" "ft_highest_ack (slowdown pl d how s) = ft_highest_ack s"
  "ft_wnd_option (slowdown pl d how s) = ft_wnd_option s" "ft_wnd (slowdown pl d how s) = ft_wnd s"
  "ft_wnd_init (slowdown pl d how s) = ft_wnd_init s" "ft_ts_option (slowdown pl d how s) = ft_ts_option s"
  "ft_frto (slowdown pl d how s) = ft_frto s"
  by (simp_all add: slowdown_def Let_def split_def timer_ok_def)

lemma slowdown_tcp_ok: "tcp_ok s \<Longrightarrow> tcp_ok (slowdown pl d how s)"
  using slowdown_floors [of pl d how s] by (auto simp: tcp_ok_def)

lemma ecn_ok:
  assumes "tcp_ok s"
  shows "\<exists>s'. ecn pl d n s = Some s' \<and> tcp_ok s' \<and> ft_maxseq s' = ft_maxseq s \<and> ft_highest_ack s' = ft_highest_ack s
     \<and> ft_wnd s' = ft_wnd s \<and> ft_frto s' = ft_frto s"
proof -
  define s1 where "s1 = s\<lparr>ft_recover := ft_maxseq s, ft_last_cwnd_action := CWND_ACTION_ECN\<rparr>"
  have ok: "tcp_ok s1" "timer_ok s1"
    using assms by (simp_all add: s1_def tcp_ok_def timer_ok_def)
  have "\<exists>s2. ecn_begin s = Some s2 \<and> tcp_ok s2 \<and> ft_maxseq s2 = ft_maxseq s \<and> ft_highest_ack s2 = ft_highest_ack s
     \<and> ft_wnd s2 = ft_wnd s \<and> ft_frto s2 = ft_frto s"
  proof (cases "ft_cwnd s \<le> 1 \<and> ft_ecn_backoff s")
    case True
    obtain s2 where s2: "rtt_backoff s1 = Some s2" "timer_ok s2" "ft_highest_ack s2 = ft_highest_ack s1"
      "ft_wnd_option s2 = ft_wnd_option s1" "ft_ssthresh s2 = ft_ssthresh s1" "ft_wnd_init s2 = ft_wnd_init s1"
      "ft_ts_option s2 = ft_ts_option s1" "ft_frto s2 = ft_frto s1"
      using rtt_backoff_ok [OF ok(2)] by blast
    then show ?thesis
      using True ok(1) rtt_backoff_fields [OF s2(1)]
      by (intro exI [of _ s2]) (simp add: ecn_begin_def s1_def tcp_ok_def)
  next
    case False
    then show ?thesis
      using assms by (auto simp: ecn_begin_def Let_def tcp_ok_def timer_ok_def)
  qed
  then obtain s2 where "ecn_begin s = Some s2" "tcp_ok s2" "ft_maxseq s2 = ft_maxseq s" "ft_highest_ack s2 = ft_highest_ack s"
    "ft_wnd s2 = ft_wnd s" "ft_frto s2 = ft_frto s"
    by blast
  moreover from this(2) have "tcp_ok ((slowdown pl d how s2)\<lparr>ft_necnresponses := k\<rparr>)" for how k
    using slowdown_tcp_ok [of s2 pl d how] by (simp add: tcp_ok_def timer_ok_def)
  ultimately show ?thesis
    using assms by (simp add: ecn_def)
qed

lemma set_rtx_timer_ok:
  assumes "timer_ok (fa_tcp a)"
  shows "set_rtx_timer a = Some (a\<lparr>fa_rtx_on := True\<rparr>)"
  using rtt_timeout_ok [OF assms] assms by (auto simp: set_rtx_timer_def)

text \<open>An operation that leaves the core alone and keeps times and windows good.\<close>

definition framed :: "full_agent \<Rightarrow> full_agent \<Rightarrow> bool" where
  "framed a b \<longleftrightarrow> core b = core a \<and> (tcp_ok (fa_tcp a) \<longrightarrow> tcp_ok (fa_tcp b)) \<and> fa_wnd_init_option b = fa_wnd_init_option a"

lemma framed_refl [simp]: "framed a a"
  by (simp add: framed_def)

lemma framed_trans [trans]: "framed a b \<Longrightarrow> framed b c \<Longrightarrow> framed a c"
  by (simp add: framed_def)

lemma framed_slow_down: "framed a (slow_down ev how a)"
  using slowdown_tcp_ok [of "fa_tcp a"] by (auto simp: framed_def core_def slow_down_def on_tcp_def)

lemma framed_set_cwnd: "0 < w \<Longrightarrow> framed a (set_cwnd w a)"
  by (auto simp: framed_def core_def set_cwnd_def on_tcp_def tcp_ok_def timer_ok_def)

lemma framed_simps:
  "framed a (cancel_rtx_timer a)" "framed a (a\<lparr>fa_rtx_on := x\<rparr>)" "framed a (a\<lparr>fa_rtt_active := y\<rparr>)"
  "framed a (a\<lparr>fa_fastrecov := y\<rparr>)" "framed a (a\<lparr>fa_dupacks := i\<rparr>)" "framed a (a\<lparr>fa_pipe := i\<rparr>)"
  "framed a (a\<lparr>fa_rtxbytes := i\<rparr>)" "framed a (a\<lparr>fa_ecn_burst := y\<rparr>)" "framed a (a\<lparr>fa_delack_on := y\<rparr>)"
  "framed a (a\<lparr>fa_incr_count := i\<rparr>)" "framed a (a\<lparr>fa_last_state := i\<rparr>)" "framed a (set_acknow a)" "framed a (set_ect a)"
  by (simp_all add: framed_def core_def cancel_rtx_timer_def set_acknow_def set_ect_def on_rx_def on_ecn_def ack_now_def)

lemma framed_set_rtx:
  assumes "tcp_ok (fa_tcp a)"
  obtains b where "set_rtx_timer a = Some b" "framed a b"
  using set_rtx_timer_ok [of a] assms framed_simps(2) by (auto simp: tcp_ok_def)

definition conf_ok :: "full_conf \<Rightarrow> bool" where
  "conf_ok c \<longleftrightarrow> 0 \<le> fc_iss c \<and> fc_iss c < 100000 \<and> \<not> fc_data_on_syn c \<and> \<not> fc_pipectrl c \<and> fc_overhead c = 0
     \<and> fc_ecn_syn_wait c = 0 \<and> 0 \<le> fc_hdr_size c \<and> fc_hdr_size c \<le> 1000 \<and> 0 \<le> fc_increase_num c
     \<and> 0 \<le> fc_maxcwnd c \<and> 0 \<le> fc_dupthresh c \<and> 0 \<le> fc_qs_cwnd c"

definition iw_ok :: "full_agent \<Rightarrow> bool" where
  "iw_ok a \<longleftrightarrow> fa_wnd_init_option a = 1 \<or> fa_wnd_init_option a = 2"

lemma iw_ok_framed: "framed a b \<Longrightarrow> iw_ok b = iw_ok a"
  by (simp add: framed_def iw_ok_def)

lemma initial_window_ok:
  assumes "conf_ok (fa_conf a)" "tcp_ok (fa_tcp a)" "iw_ok a"
  obtains w where "initial_window a = Some w" "0 < w"
proof -
  have "0 \<le> fc_qs_cwnd (fa_conf a)" "0 < ft_wnd_init (fa_tcp a)"
    using assms by (simp_all add: conf_ok_def tcp_ok_def)
  then have "\<exists>w. initial_window a = Some w \<and> 0 < w"
    using assms(3) by (auto simp: initial_window_def iw_ok_def)
  then show ?thesis
    using that by blast
qed

lemma opencwnd_framed:
  assumes "conf_ok (fa_conf a)" "tcp_ok (fa_tcp a)"
  obtains b where "opencwnd ev a = Some b" "framed a b"
proof -
  let ?s = "fa_tcp a"
  have w: "0 < ft_cwnd ?s" and o: "ft_wnd_option ?s = 1" and c: "0 \<le> fc_increase_num (fa_conf a)" "0 \<le> fc_maxcwnd (fa_conf a)"
    using assms by (simp_all add: tcp_ok_def conf_ok_def)
  have "inc \<le> ss_increment inc a" for inc
    by (simp add: ss_increment_def limited_slow_start_def Let_def)
  from this [of "fc_increase_num (fa_conf a) / ft_cwnd ?s"]
  have i: "0 \<le> ss_increment (fc_increase_num (fa_conf a) / ft_cwnd ?s) a"
    using w c by (meson divide_nonneg_pos order_trans)
  define v where "v = (if ft_cwnd ?s < of_int (ft_ssthresh ?s) then ft_cwnd ?s + 1
      else ft_cwnd ?s + ss_increment (fc_increase_num (fa_conf a) / ft_cwnd ?s) a)"
  have v: "0 < v" "(if ft_cwnd ?s < of_int (ft_ssthresh ?s) then Some (set_cwnd (ft_cwnd ?s + 1) a)
      else open_linear ev a) = Some (set_cwnd v a)"
    using w i o by (simp_all add: v_def open_linear_def Let_def)
  have m: "framed a (set_cwnd (of_int (fc_maxcwnd (fa_conf a))) (set_cwnd v a))" if "fc_maxcwnd (fa_conf a) \<noteq> 0"
    by (rule framed_trans [OF framed_set_cwnd [OF v(1)] framed_set_cwnd]) (use that c in simp)
  have "fa_conf (set_cwnd v a) = fa_conf a"
    by (simp add: set_cwnd_def on_tcp_def)
  then show ?thesis
    using that v m framed_set_cwnd [OF v(1), of a] by (simp add: opencwnd_def Let_def split: if_splits)
qed

lemma framed_pack_action: "tcp_ok (fa_tcp a) \<Longrightarrow> framed a (pack_action a)"
proof -
  assume "tcp_ok (fa_tcp a)"
  then have "0 < rat_of_int (ft_ssthresh (fa_tcp a))"
    by (simp add: tcp_ok_def)
  from framed_set_cwnd [OF this, of a] show ?thesis
    using framed_simps(4,5) by (auto simp: pack_action_def Let_def framed_def core_def)
qed

lemma framed_tcp:
  assumes "tcp_ok (fa_tcp a) \<Longrightarrow> tcp_ok (f (fa_tcp a))" "ft_wnd (f (fa_tcp a)) = ft_wnd (fa_tcp a)"
    "ft_frto (f (fa_tcp a)) = ft_frto (fa_tcp a)" "ft_maxseq (f (fa_tcp a)) = ft_maxseq (fa_tcp a)"
    "ft_highest_ack (f (fa_tcp a)) = ft_highest_ack (fa_tcp a)"
  shows "framed a (on_tcp f a)"
  using assms by (simp add: framed_def core_def on_tcp_def)

lemma rtt_average_frame [simp]:
  "ft_maxseq (rtt_average s) = ft_maxseq s" "ft_highest_ack (rtt_average s) = ft_highest_ack s" "ft_wnd (rtt_average s) = ft_wnd s"
  "ft_frto (rtt_average s) = ft_frto s" "tcp_ok (rtt_average s) = tcp_ok s"
  by (simp_all add: rtt_average_def Let_def tcp_ok_def timer_ok_def)

lemma tcp_ok_rtt [simp]: "tcp_ok (s\<lparr>ft_t_rtt := i\<rparr>) = tcp_ok s" "tcp_ok (s\<lparr>ft_t_rtxcur := t\<rparr>) = tcp_ok s"
  by (simp_all add: tcp_ok_def timer_ok_def)

lemma rtt_update_frame [simp]:
  "tcp_ok (tcp_rtt_update now tao s) = tcp_ok s" "ft_maxseq (tcp_rtt_update now tao s) = ft_maxseq s"
  "ft_highest_ack (tcp_rtt_update now tao s) = ft_highest_ack s" "ft_wnd (tcp_rtt_update now tao s) = ft_wnd s"
  "ft_frto (tcp_rtt_update now tao s) = ft_frto s"
  by (simp_all add: tcp_rtt_update_def Let_def)

text \<open>An acknowledgment moves \<open>highest_ack_\<close>, and \<open>t_seqno_\<close> with it.\<close>

definition ack_to :: "int \<Rightarrow> full_agent \<Rightarrow> full_agent" where
  "ack_to n a = (on_tcp (\<lambda>s. s\<lparr>ft_highest_ack := max n (ft_highest_ack s)\<rparr>) a)
     \<lparr>fa_t_seqno := max (fa_t_seqno a) (max n (fa_highest_ack a))\<rparr>"

lemma framed_rtt:
  assumes "tcp_ok (fa_tcp a)"
  shows "framed a (newack_rtt ev p a)"
proof -
  have nts: "\<not> ft_ts_option (fa_tcp a)"
    using assms by (simp add: tcp_ok_def)
  define b where "b = (if fa_rtt_active a \<and> fp_ackno p > fa_rtt_seq a
    then on_tcp (tcp_rtt_update (en_now ev) (en_now ev - fa_rtt_ts a)) (a\<lparr>fa_rtt_active := False\<rparr>) else a)"
  have b: "framed a b"
    using framed_trans [OF framed_simps(3) framed_tcp] by (simp add: b_def)
  have "framed b (on_tcp (\<lambda>s. s\<lparr>ft_t_backoff := 1, ft_ecn_backoff := False\<rparr>) b)"
    by (rule framed_tcp) (simp_all add: tcp_ok_def timer_ok_def)
  from framed_trans [OF b this] show ?thesis
    using b nts by (simp add: newack_rtt_def Let_def b_def [symmetric])
qed

lemma newack_ok:
  assumes "tcp_ok (fa_tcp a)"
  obtains b where "agent_newack ev p a = Some b" "framed (ack_to (fp_ackno p) a) b"
proof -
  let ?n = "fp_ackno p"
  define a1 where "a1 = (if ?n = fa_maxseq a then cancel_rtx_timer a else if ?n > fa_highest_ack a then a\<lparr>fa_rtx_on := True\<rparr> else a)"
  have t: "timer_ok (fa_tcp a)"
    using assms by (simp add: tcp_ok_def)
  have a1: "fa_tcp a1 = fa_tcp a" "fa_t_seqno a1 = fa_t_seqno a" "core a1 = core a" "fa_wnd_init_option a1 = fa_wnd_init_option a"
    by (simp_all add: a1_def cancel_rtx_timer_def core_def)
  define a2 where "a2 = (if ?n > fa_highest_ack a then on_tcp (\<lambda>s. s\<lparr>ft_highest_ack := ?n\<rparr>) a1 else a1)"
  define a3 where "a3 = (if fa_t_seqno a2 < fa_highest_ack a2 then a2\<lparr>fa_t_seqno := fa_highest_ack a2\<rparr> else a2)"
  have ok: "tcp_ok (fa_tcp a3)"
    using assms a1 by (simp add: a3_def a2_def on_tcp_def tcp_ok_def timer_ok_def)
  have a3: "framed (ack_to ?n a) a3"
    using assms a1 by (auto simp: framed_def a3_def a2_def ack_to_def on_tcp_def core_def tcp_ok_def timer_ok_def)
  have "(if ?n = fa_maxseq a then Some (cancel_rtx_timer a) else if ?n > fa_highest_ack a then set_rtx_timer a else Some a) = Some a1"
    using set_rtx_timer_ok [OF t] by (simp add: a1_def)
  then have "agent_newack ev p a = Some (newack_rtt ev p a3)"
    unfolding agent_newack_def Let_def by (simp add: a1 a2_def a3_def)
  then show ?thesis
    using that framed_trans [OF a3 framed_rtt [OF ok]] by blast
qed

end
