(* ===== verification/Full_Send.thy ===== *)
theory Full_Send
  imports Full_Agent
begin

text \<open>
  What the full TCP agent sends while the connection is open: every packet is within what the
  application has written and what has been received, and \<open>send_much\<close> ends.
\<close>

unbundle bit_operations_syntax

section \<open>What is sent\<close>

definition CUR_LIMIT :: int where "CUR_LIMIT = 2147000000"

text \<open>The part of the core that sending leaves alone.\<close>

definition core0 :: "full_agent \<Rightarrow> (full_conf \<times> rat \<times> int) \<times> (int \<times> int) \<times> (rqueue \<times> int \<times> int)
    \<times> (int \<times> int \<times> int) \<times> (bool \<times> bool \<times> bool \<times> bool \<times> bool)" where
  "core0 a = ((fa_conf a, ft_wnd (fa_tcp a), ft_frto (fa_tcp a)), (fa_curseq a, fa_highest_ack a),
     (fr_q (fa_rx a), fa_state a, fr_delivered (fa_rx a)),
     (rx_rcv_nxt (fa_ecn a), rx_irs (fa_ecn a), fa_maxseg a),
     (fa_needfin a, fa_needclose a, fa_infinite_send a, fa_close_on_empty a, fa_delsnd_on a))"

definition base :: "full_agent \<Rightarrow> bool" where
  "base a \<longleftrightarrow> conf_ok (fa_conf a) \<and> tcp_ok (fa_tcp a) \<and> iw_ok a \<and> \<not> fa_needfin a \<and> \<not> fa_needclose a
     \<and> \<not> fa_infinite_send a \<and> \<not> fa_close_on_empty a \<and> \<not> fa_delsnd_on a \<and> 0 < fa_maxseg a \<and> fa_maxseg a \<le> 1000000
     \<and> trunc_int (ft_wnd (fa_tcp a)) * fa_maxseg a \<le> 2147483647 \<and> ft_frto (fa_tcp a) = 0
     \<and> 0 \<le> fa_curseq a \<and> fa_curseq a \<le> CUR_LIMIT \<and> rx_rcv_nxt (fa_ecn a) = fa_rcv_nxt a"

lemma core_core0:
  "core b = core a \<longleftrightarrow> core0 b = core0 a \<and> fa_t_seqno b = fa_t_seqno a \<and> fa_maxseq b = fa_maxseq a
     \<and> rx_delack (fa_ecn b) = rx_delack (fa_ecn a) \<and> fa_out b = fa_out a"
  by (auto simp: core_def core0_def)

lemma base_core0: "core0 b = core0 a \<Longrightarrow> tcp_ok (fa_tcp b) \<Longrightarrow> iw_ok b \<Longrightarrow> base a \<Longrightarrow> base b"
  by (simp add: base_def core0_def)

lemma base_framed: "framed a b \<Longrightarrow> base a \<Longrightarrow> base b"
  by (rule base_core0 [of b a]) (simp_all add: framed_def core_core0 base_def iw_ok_def)

text \<open>
  A packet of a peer whose numbers begin at \<open>i\<close> and who has sent the numbers below \<open>M\<close>; of the
  numbers of the other side, which begin at \<open>j\<close>, it has received those below \<open>V\<close>.
\<close>

definition packet_ok :: "int \<Rightarrow> int \<Rightarrow> int \<Rightarrow> int \<Rightarrow> full_pkt \<Rightarrow> bool" where
  "packet_ok i j M V p \<longleftrightarrow>
     (let s = fp_seg p; n = ts_size s - ts_hlen s; fl = ts_flags s
      in 0 \<le> ts_hlen s \<and> ts_hlen s \<le> 1000 \<and> 0 \<le> n \<and> n \<le> 1000000 \<and> \<not> flag_set fl TH_FIN
         \<and> (flag_set fl TH_SYN \<longrightarrow> ts_seqno s = i \<and> n = 0 \<and> i < M)
         \<and> (\<not> flag_set fl TH_SYN \<and> 0 < n \<longrightarrow> i < ts_seqno s \<and> ts_seqno s + n \<le> M)
         \<and> (flag_set fl TH_ACK \<longrightarrow> j < fp_ackno p \<and> fp_ackno p \<le> V))"

lemma pkt_ok_mono: "packet_ok i j M V p \<Longrightarrow> M \<le> M' \<Longrightarrow> V \<le> V' \<Longrightarrow> packet_ok i j M' V' p"
  by (auto simp: packet_ok_def Let_def)

lemma flag_set_bits [simp]:
  "flag_set (x OR TH_ECE) TH_SYN = flag_set x TH_SYN" "flag_set (x OR TH_CWR) TH_SYN = flag_set x TH_SYN"
  "flag_set (x AND NOT TH_CWR) TH_SYN = flag_set x TH_SYN" "flag_set (x OR TH_PUSH) TH_SYN = flag_set x TH_SYN"
  "flag_set (x OR TH_ECE) TH_FIN = flag_set x TH_FIN" "flag_set (x OR TH_CWR) TH_FIN = flag_set x TH_FIN"
  "flag_set (x AND NOT TH_CWR) TH_FIN = flag_set x TH_FIN" "flag_set (x OR TH_PUSH) TH_FIN = flag_set x TH_FIN"
  "flag_set (x OR TH_ECE) TH_ACK = flag_set x TH_ACK" "flag_set (x OR TH_CWR) TH_ACK = flag_set x TH_ACK"
  "flag_set (x AND NOT TH_CWR) TH_ACK = flag_set x TH_ACK" "flag_set (x OR TH_PUSH) TH_ACK = flag_set x TH_ACK"
  "flag_set (x AND NOT TH_FIN) TH_SYN = flag_set x TH_SYN" "flag_set (x AND NOT TH_FIN) TH_ACK = flag_set x TH_ACK"
  "flag_set (x OR TH_ECE OR TH_CWR) TH_SYN = flag_set x TH_SYN" "flag_set (x OR TH_ECE OR TH_CWR) TH_FIN = flag_set x TH_FIN"
  "flag_set (x OR TH_ECE OR TH_CWR) TH_ACK = flag_set x TH_ACK" "flag_set (x AND NOT TH_SYN) TH_ACK = flag_set x TH_ACK" "flag_set (x AND NOT TH_SYN) TH_FIN = flag_set x TH_FIN"
  by (simp_all add: flag_set_def full_codes bit.conj_disj_distrib2 and.assoc)

lemma out_ece_bits [simp]:
  assumes "f = TH_SYN \<or> f = TH_FIN \<or> f = TH_ACK"
  shows "flag_set (out_ece pflags n rtx a) f = flag_set pflags f"
  using assms by (elim disjE) (simp_all add: out_ece_def Let_def)

lemma out_cwr_bits:
  assumes "f = TH_SYN \<or> f = TH_FIN \<or> f = TH_ACK"
  shows "flag_set (fst (out_cwr pflags rtx a)) f = flag_set pflags f"
  using assms by (elim disjE) (simp_all add: out_cwr_def Let_def)

lemma out_cwr_agent: "snd (out_cwr pflags rtx a) = a \<or> snd (out_cwr pflags rtx a) = on_tcp (\<lambda>s. s\<lparr>ft_cong_action := False\<rparr>) a"
  by (simp add: out_cwr_def Let_def)

lemma out_flags_ok:
  assumes "\<not> fa_needclose a"
  obtains pf b where "out_flags pflags n rtx a = (pf, b)" "b = a \<or> b = on_tcp (\<lambda>s. s\<lparr>ft_cong_action := False\<rparr>) a"
    "flag_set pf TH_SYN = flag_set pflags TH_SYN" "flag_set pf TH_FIN = flag_set pflags TH_FIN"
    "flag_set pf TH_ACK = flag_set pflags TH_ACK"
proof -
  define pf0 where "pf0 = (if rx_ecn (fa_ecn a) \<and> flag_set pflags TH_SYN \<and> \<not> flag_set pflags TH_ACK
    then pflags OR TH_ECE OR TH_CWR else pflags)"
  have pf0: "flag_set pf0 f = flag_set pflags f" if "f = TH_SYN \<or> f = TH_FIN \<or> f = TH_ACK" for f
    using that by (elim disjE) (simp_all add: pf0_def)
  obtain pf1 b where e: "out_cwr pf0 rtx a = (pf1, b)"
    by (cases "out_cwr pf0 rtx a")
  have c: "b = a \<or> b = on_tcp (\<lambda>s. s\<lparr>ft_cong_action := False\<rparr>) a"
    "flag_set pf1 TH_SYN = flag_set pf0 TH_SYN" "flag_set pf1 TH_FIN = flag_set pf0 TH_FIN"
    "flag_set pf1 TH_ACK = flag_set pf0 TH_ACK"
    using out_cwr_agent [of pf0 rtx a] out_cwr_bits [of _ pf0 rtx a] by (simp_all add: e)
  have "\<not> fa_needclose b"
    using c(1) assms by (elim disjE) (simp_all add: on_tcp_def)
  then have "out_flags pflags n rtx a = (out_ece pf1 n rtx b, b)"
    unfolding out_flags_def Let_def pf0_def [symmetric] e by (simp add: out_fin_def)
  then show ?thesis
    by (rule that [OF _ c(1)]) (simp_all add: c pf0)
qed

lemma pkt_ok_of:
  assumes "base a" "0 \<le> n" "n \<le> 1000000" "\<not> flag_set pf TH_FIN" "flag_set pf TH_SYN \<Longrightarrow> seq = i \<and> n = 0 \<and> i < M"
    "\<not> flag_set pf TH_SYN \<Longrightarrow> 0 < n \<Longrightarrow> i < seq \<and> seq + n \<le> M" "flag_set pf TH_ACK \<Longrightarrow> j < ackno \<and> ackno \<le> V"
  shows "packet_ok i j M V (pkt_of ev seq ackno pf n reason a)"
proof -
  have h: "0 \<le> fc_hdr_size (fa_conf a)" "fc_hdr_size (fa_conf a) \<le> 1000" "\<not> ft_ts_option (fa_tcp a)"
    using assms(1) by (simp_all add: base_def conf_ok_def tcp_ok_def)
  then have "i32 (fc_hdr_size (fa_conf a)) = fc_hdr_size (fa_conf a)" "i32 (n + fc_hdr_size (fa_conf a)) = n + fc_hdr_size (fa_conf a)"
    using assms(2,3) by (simp_all add: i32_id)
  then show ?thesis
    using assms h by (simp add: pkt_of_def packet_ok_def Let_def)
qed

lemma pkt_of_seg:
  assumes "base a" "0 \<le> n" "n \<le> 1000000"
  shows "ts_seqno (fp_seg (pkt_of ev seq ackno pf n reason a)) = seq
    \<and> ts_size (fp_seg (pkt_of ev seq ackno pf n reason a)) - ts_hlen (fp_seg (pkt_of ev seq ackno pf n reason a)) = n"
proof -
  have h: "0 \<le> fc_hdr_size (fa_conf a)" "fc_hdr_size (fa_conf a) \<le> 1000" "\<not> ft_ts_option (fa_tcp a)"
    using assms(1) by (simp_all add: base_def conf_ok_def tcp_ok_def)
  then show ?thesis
    using assms(2,3) by (simp add: pkt_of_def Let_def i32_id)
qed

text \<open>A step that sends nothing.\<close>

definition still :: "full_agent \<Rightarrow> full_agent \<Rightarrow> bool" where
  "still a b \<longleftrightarrow> core0 b = core0 a \<and> (tcp_ok (fa_tcp a) \<longrightarrow> tcp_ok (fa_tcp b)) \<and> fa_wnd_init_option b = fa_wnd_init_option a
     \<and> fa_t_seqno b = fa_t_seqno a"

lemma still_refl: "still a a"
  by (simp add: still_def)

lemma still_trans [trans]: "still a b \<Longrightarrow> still b c \<Longrightarrow> still a c"
  by (simp add: still_def)

lemma still_framed: "framed a b \<Longrightarrow> still a b"
  by (simp add: still_def framed_def core_core0)

lemma base_still: "still a b \<Longrightarrow> base a \<Longrightarrow> base b"
  by (rule base_core0 [of b a]) (simp_all add: still_def base_def iw_ok_def)

lemma still_cong: "still a (on_tcp (\<lambda>s. s\<lparr>ft_cong_action := c\<rparr>) a)"
  by (simp add: still_def core0_def on_tcp_def tcp_ok_def timer_ok_def)

lemma still_dctcp: "still a (on_tcp (\<lambda>s. s\<lparr>ft_dctcp_maxseq := m\<rparr>) a)"
  by (simp add: still_def core0_def on_tcp_def tcp_ok_def timer_ok_def)

lemma still_maxseq: "still a (on_tcp (\<lambda>s. s\<lparr>ft_maxseq := m\<rparr>) a)"
  by (simp add: still_def core0_def on_tcp_def tcp_ok_def timer_ok_def)

lemma still_send: "still a (send_pkt ev seq ackno pf n reason a)"
  by (simp add: still_def core0_def send_pkt_def on_ecn_def on_rx_def Let_def)

lemma still_clear: "still a (on_ecn (\<lambda>r. r\<lparr>rx_acknow := False, rx_delack := False\<rparr>) (a\<lparr>fa_delack_on := False\<rparr>))"
  by (simp add: still_def core0_def on_ecn_def on_rx_def)

lemma still_rtt: "still a (a\<lparr>fa_rtt_active := x, fa_rtt_seq := i, fa_rtt_ts := t\<rparr>)"
  by (simp add: still_def core0_def)

lemma out_send_ok:
  assumes a: "base a" and n: "0 \<le> n" "n \<le> 1000000" "0 \<le> seq" "seq + n < 2147483000" and pf: "\<not> flag_set pflags TH_FIN"
  obtains b p where "out_send ev seq n pflags reason a = Some (n + (if flag_set pflags TH_SYN then 1 else 0), b)"
    "still a b" "fa_maxseq b = max (fa_maxseq a) (seq + n + (if flag_set pflags TH_SYN then 1 else 0))"
    "fa_out b = fa_out a @ [p]" "\<not> rx_acknow (fa_ecn b)" "\<not> rx_delack (fa_ecn b)"
    "\<forall>i j M V. (flag_set pflags TH_SYN \<longrightarrow> seq = i \<and> n = 0 \<and> i < M)
       \<and> (\<not> flag_set pflags TH_SYN \<and> 0 < n \<longrightarrow> i < seq \<and> seq + n \<le> M)
       \<and> (flag_set pflags TH_ACK \<longrightarrow> j < fa_rcv_nxt a \<and> fa_rcv_nxt a \<le> V) \<longrightarrow> packet_ok i j M V p"
    "ts_seqno (fp_seg p) = seq \<and> ts_size (fp_seg p) - ts_hlen (fp_seg p) = n"
proof -
  define k where "k = n + (if flag_set pflags TH_SYN then 1 else 0)"
  have "\<not> fa_needclose a"
    using a by (simp add: base_def)
  then obtain pf a1 where f: "out_flags pflags n (seq < fa_maxseq a) a = (pf, a1)"
    "a1 = a \<or> a1 = on_tcp (\<lambda>s. s\<lparr>ft_cong_action := False\<rparr>) a"
    "flag_set pf TH_SYN = flag_set pflags TH_SYN" "flag_set pf TH_FIN = flag_set pflags TH_FIN"
    "flag_set pf TH_ACK = flag_set pflags TH_ACK"
    by (rule out_flags_ok)
  have s1: "still a a1" "fa_maxseq a1 = fa_maxseq a" "fa_out a1 = fa_out a"
    using f(2) still_cong still_refl by (auto simp: on_tcp_def)
  have b1: "base a1"
    by (rule base_still [OF s1(1) a])
  define p where "p = pkt_of ev seq (fa_rcv_nxt a1) pf n reason a1"
  define a2 where "a2 = send_pkt ev seq (fa_rcv_nxt a1) pf n reason a1"
  have s2: "still a1 a2" "fa_maxseq a2 = fa_maxseq a1" "fa_out a2 = fa_out a1 @ [p]"
    using still_send by (simp_all add: a2_def) (simp_all add: send_pkt_def on_ecn_def on_rx_def Let_def p_def)
  define a3 where "a3 = on_ecn (\<lambda>r. r\<lparr>rx_acknow := False, rx_delack := False\<rparr>) (a2\<lparr>fa_delack_on := False\<rparr>)"
  have s3: "still a2 a3" "fa_maxseq a3 = fa_maxseq a2" "fa_out a3 = fa_out a2" "\<not> rx_acknow (fa_ecn a3)" "\<not> rx_delack (fa_ecn a3)"
    using still_clear by (simp_all add: a3_def) (simp_all add: on_ecn_def on_rx_def)
  have k: "i32 (n + (if flag_set pf TH_SYN then 1 else 0) + (if flag_set pf TH_FIN then 1 else 0)) = k" "i32 (seq + k) = seq + k"
    using f pf n by (simp_all add: k_def i32_id)
  define a4 where "a4 = (if ft_cong_action (fa_tcp a3) \<and> 0 < k \<and> \<not> seq < fa_maxseq a
      then on_tcp (\<lambda>s. s\<lparr>ft_cong_action := False\<rparr>) a3 else a3)"
  have s4: "still a3 a4" "fa_maxseq a4 = fa_maxseq a3" "fa_out a4 = fa_out a3" "fa_rx a4 = fa_rx a3"
    using still_cong still_refl by (simp_all add: a4_def) (simp_all add: on_tcp_def)
  define a5 where "a5 = (if seq + k > ft_dctcp_maxseq (fa_tcp a4) then on_tcp (\<lambda>s. s\<lparr>ft_dctcp_maxseq := seq + k\<rparr>) a4 else a4)"
  have s5: "still a4 a5" "fa_maxseq a5 = fa_maxseq a4" "fa_out a5 = fa_out a4" "fa_rx a5 = fa_rx a4"
    using still_dctcp still_refl by (simp_all add: a5_def) (simp_all add: on_tcp_def)
  define a6 where "a6 = (if seq + k > fa_maxseq a5
     then let a = on_tcp (\<lambda>s. s\<lparr>ft_maxseq := seq + k\<rparr>) a5
          in if \<not> ft_ts_option (fa_tcp a) \<and> \<not> fa_rtt_active a
             then a\<lparr>fa_rtt_active := True, fa_rtt_seq := seq, fa_rtt_ts := en_now ev\<rparr> else a
     else a5)"
  have s6: "still a5 a6" "fa_maxseq a6 = max (fa_maxseq a5) (seq + k)" "fa_out a6 = fa_out a5" "fa_rx a6 = fa_rx a5"
    using still_maxseq [of a5 "seq + k"] still_refl still_trans [OF still_maxseq [of a5 "seq + k"] still_rtt]
    by (simp_all add: a6_def Let_def) (simp_all add: on_tcp_def)
  have st: "still a a6"
    using s1 s2 s3 s4 s5 s6 still_trans by blast
  have "timer_ok (fa_tcp a6)"
    using base_still [OF st a] by (simp add: base_def tcp_ok_def)
  note r = set_rtx_timer_ok [OF this]
  define b where "b = (if \<not> fa_rtx_on a6 \<and> k \<noteq> 0 then a6\<lparr>fa_rtx_on := True\<rparr> else a6)"
  have sb: "still a6 b" "fa_maxseq b = fa_maxseq a6" "fa_out b = fa_out a6" "fa_rx b = fa_rx a6"
    using still_framed [OF framed_simps(2)] still_refl by (simp_all add: b_def)
  have "out_send ev seq n pflags reason a = Some (k, b)"
    unfolding out_send_def Let_def f(1) prod.case a2_def [symmetric] a3_def [symmetric] k a4_def [symmetric] a5_def [symmetric]
      a6_def [symmetric, unfolded Let_def] r b_def by simp
  moreover have "packet_ok i j M V p" if "flag_set pflags TH_SYN \<Longrightarrow> seq = i \<and> n = 0 \<and> i < M"
    "\<not> flag_set pflags TH_SYN \<Longrightarrow> 0 < n \<Longrightarrow> i < seq \<and> seq + n \<le> M"
    "flag_set pflags TH_ACK \<Longrightarrow> j < fa_rcv_nxt a \<and> fa_rcv_nxt a \<le> V" for i j M V
  proof -
    have "fa_rcv_nxt a1 = fa_rcv_nxt a"
      using s1(1) by (simp add: still_def core0_def)
    then show ?thesis
      unfolding p_def using that f pf by (intro pkt_ok_of [OF b1 n(1,2)]) simp_all
  qed
  moreover have "ts_seqno (fp_seg p) = seq \<and> ts_size (fp_seg p) - ts_hlen (fp_seg p) = n"
    unfolding p_def by (rule pkt_of_seg [OF b1 n(1,2)])
  ultimately show ?thesis
    using that [of b p] st sb s1 s2 s3 s4 s5 s6 still_trans [OF st sb(1)] by (simp add: k_def add.assoc)
qed

section \<open>How much is sent\<close>

lemma window_ok:
  assumes "base a"
  shows "0 \<le> i32 (window (fa_tcp a) * fa_maxseg a)"
proof -
  let ?s = "fa_tcp a"
  have s: "0 < ft_cwnd ?s" "1 \<le> ft_wnd ?s" "ft_frto ?s = 0" and m: "0 < fa_maxseg a"
    and w: "trunc_int (ft_wnd ?s) * fa_maxseg a \<le> 2147483647"
    using assms by (simp_all add: base_def tcp_ok_def)
  have v: "0 \<le> window ?s" "window ?s \<le> trunc_int (ft_wnd ?s)"
    using s by (auto simp: window_def trunc_int_def intro: floor_mono)
  have "window ?s * fa_maxseg a \<le> trunc_int (ft_wnd ?s) * fa_maxseg a" "0 \<le> window ?s * fa_maxseg a"
    using v m by (simp_all add: mult_right_mono)
  then show ?thesis
    using w by (simp add: i32_id)
qed

lemma out_len_range: "base a \<Longrightarrow> 0 \<le> out_len seq a \<and> out_len seq a \<le> fa_maxseg a"
  by (simp add: out_len_def Let_def base_def)

lemma out_len_syn: "base a \<Longrightarrow> out_len (fa_iss a) a = 0"
  by (simp add: out_len_def Let_def base_def conf_ok_def)

definition seqs_ok :: "full_agent \<Rightarrow> bool" where
  "seqs_ok a \<longleftrightarrow> fa_iss a < fa_highest_ack a \<and> fa_highest_ack a \<le> fa_t_seqno a \<and> fa_t_seqno a \<le> fa_maxseq a
     \<and> fa_maxseq a \<le> max (fa_iss a + 1) (fa_curseq a + 1)"

lemma iss_bounds: "base a \<Longrightarrow> 0 \<le> fa_iss a \<and> fa_iss a < 100000"
  by (simp add: base_def conf_ok_def)

lemma seqs_bounds: "base a \<Longrightarrow> seqs_ok a \<Longrightarrow> fa_maxseq a \<le> CUR_LIMIT + 1"
  using iss_bounds [of a] by (auto simp: seqs_ok_def base_def CUR_LIMIT_def)

lemma out_len_buffer:
  assumes a: "base a" "seqs_ok a" and s: "fa_highest_ack a \<le> seq" "seq \<le> fa_maxseq a" and n: "0 < out_len seq a"
  shows "seq + out_len seq a \<le> fa_curseq a + 1"
proof -
  have i: "0 \<le> fa_iss a" "fa_iss a < 100000" and c: "0 \<le> fa_curseq a" "fa_curseq a \<le> 2147000000"
    and m: "fa_maxseq a \<le> 2147000001"
    using a iss_bounds seqs_bounds [OF a] by (simp_all add: base_def CUR_LIMIT_def)
  have q: "fa_iss a < fa_highest_ack a" "fa_highest_ack a \<le> fa_maxseq a" "fa_maxseq a \<le> max (fa_iss a + 1) (fa_curseq a + 1)"
    using a by (simp_all add: seqs_ok_def)
  define buf where "buf = fa_curseq a - fa_highest_ack a + 1"
  define win where "win = i32 (window (fa_tcp a) * fa_maxseg a)"
  have w: "0 \<le> win"
    unfolding win_def by (rule window_ok [OF a(1)])
  have b: "- 100001 \<le> buf" "buf \<le> 2147000001"
    using i c q by (auto simp: buf_def)
  have o: "0 \<le> seq - fa_highest_ack a" "seq - fa_highest_ack a \<le> 2147000001"
    using s m i q by auto
  have e: "i32 buf = buf" "i32 (seq - fa_highest_ack a) = seq - fa_highest_ack a"
    using b o by (simp_all add: i32_id)
  have "- 2147483648 \<le> min buf win - (seq - fa_highest_ack a)" "min buf win - (seq - fa_highest_ack a) < 2147483648"
    using b o w s by auto
  then have d: "i32 (min buf win - (seq - fa_highest_ack a)) = min buf win - (seq - fa_highest_ack a)"
    by (rule i32_id)
  have len: "out_len seq a = (let n = min buf win - (seq - fa_highest_ack a)
      in if n < 0 then 0 else if n > fa_maxseg a then fa_maxseg a else n)"
    using a(1) i q s e d unfolding out_len_def buf_def [symmetric] win_def [symmetric] Let_def
    by (simp add: base_def conf_ok_def flip: buf_def)
  have "out_len seq a \<le> buf - (seq - fa_highest_ack a)"
    using n unfolding len Let_def by (auto split: if_splits)
  then show ?thesis
    by (simp add: buf_def)
qed

section \<open>One packet\<close>

lemma flag_set_or [simp]: "flag_set x (TH_SYN OR TH_FIN) \<longleftrightarrow> flag_set x TH_SYN \<or> flag_set x TH_FIN"
  by (simp add: flag_set_def bit.conj_disj_distrib or_eq_0_iff)

lemma flag_set_consts [simp]:
  "flag_set TH_SYN TH_SYN" "\<not> flag_set TH_SYN TH_FIN" "\<not> flag_set TH_SYN TH_ACK"
  "flag_set (TH_SYN OR TH_ACK) TH_SYN" "\<not> flag_set (TH_SYN OR TH_ACK) TH_FIN" "flag_set (TH_SYN OR TH_ACK) TH_ACK"
  "\<not> flag_set TH_ACK TH_SYN" "\<not> flag_set TH_ACK TH_FIN" "flag_set TH_ACK TH_ACK" "\<not> flag_set 0 f"
  by (simp_all add: flag_set_def full_codes)

definition in_handshake :: "full_agent \<Rightarrow> bool" where
  "in_handshake a \<longleftrightarrow> fa_state a = TCPS_SYN_SENT_num \<or> fa_state a = TCPS_SYN_RECEIVED_num"

lemma outflags_states:
  "fa_state a = TCPS_ESTABLISHED_num \<Longrightarrow> outflags a = TH_ACK"
  "fa_state a = TCPS_SYN_SENT_num \<Longrightarrow> outflags a = TH_SYN"
  "fa_state a = TCPS_SYN_RECEIVED_num \<Longrightarrow> outflags a = TH_SYN OR TH_ACK"
  by (simp_all add: outflags_def full_codes)

text \<open>The agent after the restart of an idle connection, and the flags of the packet.\<close>

lemma foutput_parts:
  assumes a: "base a"
  obtains b pf where "still a b" "fa_rx b = fa_rx a" "fa_maxseq b = fa_maxseq a" "fa_out b = fa_out a"
    "flag_set pf TH_SYN = flag_set (outflags a) TH_SYN" "flag_set (outflags a) TH_FIN \<or> \<not> flag_set pf TH_FIN"
    "flag_set pf TH_ACK = flag_set (outflags a) TH_ACK"
    "foutput ev seq reason a = Some (0, b) \<and> \<not> flag_set pf TH_SYN \<and> \<not> (0 < out_len seq a \<and> seq < fa_maxseq a)
     \<or> foutput ev seq reason a = out_send ev seq (out_len seq a) pf reason b"
proof -
  let ?n = "out_len seq a"
  have c: "0 < fa_maxseg a" "\<not> fa_infinite_send a" "\<not> fa_close_on_empty a" "\<not> fa_needclose a"
    using a by (simp_all add: base_def)
  define b where "b = out_restart ev ?n a"
  have b: "still a b" "fa_rx b = fa_rx a" "fa_maxseq b = fa_maxseq a" "fa_out b = fa_out a"
    using still_framed [OF framed_slow_down] still_refl
    by (simp_all add: b_def out_restart_def) (simp_all add: slow_down_def on_tcp_def)
  have b': "\<not> fa_close_on_empty b" "\<not> fa_infinite_send b" "outflags b = outflags a"
    using b(1) c by (simp_all add: still_def core0_def) (simp add: outflags_def b(2))
  define pf where "pf = out_pflags seq ?n b"
  have f: "foutput ev seq reason a = (if out_needed seq ?n pf b then out_send ev seq ?n pf reason b else Some (0, b))"
    using c b' unfolding foutput_def Let_def pf_def by (simp add: b_def)
  have p: "flag_set pf TH_SYN = flag_set (outflags a) TH_SYN" "flag_set (outflags a) TH_FIN \<or> \<not> flag_set pf TH_FIN"
    "flag_set pf TH_ACK = flag_set (outflags a) TH_ACK"
    using b' by (simp_all add: pf_def out_pflags_def Let_def)
  show ?thesis
  proof (cases "out_needed seq ?n pf b")
    case True
    then show ?thesis
      using f by (intro that [OF b p]) simp
  next
    case False
    then have "\<not> flag_set pf TH_SYN" "\<not> (0 < ?n \<and> seq < fa_maxseq a)"
      using b by (auto simp: out_needed_def)
    then show ?thesis
      using f False by (intro that [OF b p]) simp
  qed
qed

section \<open>Steps of the sender\<close>

text \<open>All that the agent has sent is good.\<close>

definition outs_ok :: "int \<Rightarrow> full_agent \<Rightarrow> bool" where
  "outs_ok j a \<longleftrightarrow> (\<forall>p\<in>set (fa_out a). packet_ok (fa_iss a) j (fa_maxseq a) (fa_rcv_nxt a) p)"

definition moves_on :: "int \<Rightarrow> full_agent \<Rightarrow> full_agent \<Rightarrow> bool" where
  "moves_on j a b \<longleftrightarrow> core0 b = core0 a \<and> (tcp_ok (fa_tcp a) \<longrightarrow> tcp_ok (fa_tcp b)) \<and> fa_wnd_init_option b = fa_wnd_init_option a
     \<and> fa_maxseq a \<le> fa_maxseq b \<and> (outs_ok j a \<longrightarrow> outs_ok j b) \<and> (\<exists>ps. fa_out b = fa_out a @ ps)"

lemma moves_refl [simp]: "moves_on j a a"
  by (simp add: moves_on_def)

lemma moves_trans [trans]: "moves_on j a b \<Longrightarrow> moves_on j b c \<Longrightarrow> moves_on j a c"
  by (fastforce simp: moves_on_def)

lemma base_moves: "moves_on j a b \<Longrightarrow> base a \<Longrightarrow> base b"
  by (rule base_core0 [of b a]) (simp_all add: moves_on_def base_def iw_ok_def)

lemma moves_still: "still a b \<Longrightarrow> fa_maxseq b = fa_maxseq a \<Longrightarrow> fa_out b = fa_out a \<Longrightarrow> moves_on j a b"
  by (simp add: still_def moves_on_def outs_ok_def core0_def)

lemma moves_framed: "framed a b \<Longrightarrow> moves_on j a b"
  by (intro moves_still still_framed) (simp_all add: framed_def core_core0)

lemma moves_send:
  assumes "still a b" "fa_maxseq a \<le> fa_maxseq b" "fa_out b = fa_out a @ [p]"
    "packet_ok (fa_iss a) j (fa_maxseq b) (fa_rcv_nxt a) p"
  shows "moves_on j a b"
proof -
  have "core0 b = core0 a"
    using assms(1) by (simp add: still_def)
  then have "fa_conf b = fa_conf a" "fa_rcv_nxt b = fa_rcv_nxt a"
    by (simp_all add: core0_def)
  moreover have "packet_ok (fa_iss a) j (fa_maxseq b) (fa_rcv_nxt a) q" if "packet_ok (fa_iss a) j (fa_maxseq a) (fa_rcv_nxt a) q" for q
    by (rule pkt_ok_mono [OF that assms(2)]) simp
  ultimately show ?thesis
    using assms by (auto simp: moves_on_def outs_ok_def still_def)
qed

definition snd_ok :: "int \<Rightarrow> full_agent \<Rightarrow> bool" where
  "snd_ok j a \<longleftrightarrow> base a \<and> seqs_ok a \<and> fa_state a = TCPS_ESTABLISHED_num \<and> j < fa_rcv_nxt a"

lemma foutput_est:
  assumes a: "snd_ok j a" and s: "fa_highest_ack a \<le> seq" "seq \<le> fa_maxseq a"
  obtains n b where "foutput ev seq reason a = Some (n, b)" "moves_on j a b" "fa_t_seqno b = fa_t_seqno a" "snd_ok j b"
    "0 \<le> n" "0 < n \<longrightarrow> seq + n \<le> fa_curseq a + 1" "fa_maxseq b = max (fa_maxseq a) (seq + n)"
    "0 < out_len seq a \<and> seq < fa_maxseq a \<longrightarrow> n = out_len seq a
       \<and> (\<exists>p. fa_out b = fa_out a @ [p] \<and> ts_seqno (fp_seg p) = seq \<and> ts_size (fp_seg p) - ts_hlen (fp_seg p) = n)"
proof -
  let ?n = "out_len seq a"
  have ba: "base a" and sa: "seqs_ok a" and ea: "fa_state a = TCPS_ESTABLISHED_num" and ja: "j < fa_rcv_nxt a"
    using a by (simp_all add: snd_ok_def)
  obtain c pf where c: "still a c" "fa_rx c = fa_rx a" "fa_maxseq c = fa_maxseq a" "fa_out c = fa_out a"
    and pf: "flag_set pf TH_SYN = flag_set (outflags a) TH_SYN" "flag_set (outflags a) TH_FIN \<or> \<not> flag_set pf TH_FIN"
      "flag_set pf TH_ACK = flag_set (outflags a) TH_ACK"
    and cases: "foutput ev seq reason a = Some (0, c) \<and> \<not> flag_set pf TH_SYN \<and> \<not> (0 < ?n \<and> seq < fa_maxseq a)
     \<or> foutput ev seq reason a = out_send ev seq ?n pf reason c"
    by (rule foutput_parts [OF ba])
  have n: "0 \<le> ?n" "?n \<le> 1000000" "0 < ?n \<Longrightarrow> seq + ?n \<le> fa_curseq a + 1"
    using out_len_range [OF ba, of seq] out_len_buffer [OF ba sa s] ba by (auto simp: base_def)
  have i: "0 \<le> fa_iss a" "fa_iss a < seq" "seq \<le> 2147000001"
    using iss_bounds [OF ba] sa s seqs_bounds [OF ba sa] by (auto simp: seqs_ok_def CUR_LIMIT_def)
  have lim: "seq + ?n < 2147483000"
    using n i ba by (cases "0 < ?n") (auto simp: base_def CUR_LIMIT_def)
  have mx: "fa_maxseq a \<le> max (fa_iss a + 1) (fa_curseq a + 1)" "fa_highest_ack a \<le> fa_t_seqno a" "fa_t_seqno a \<le> fa_maxseq a"
    using sa by (simp_all add: seqs_ok_def)
  have snd: "snd_ok j b" if "moves_on j a b" "fa_t_seqno b = fa_t_seqno a" "fa_maxseq b = max (fa_maxseq a) (seq + m)"
    "0 < m \<Longrightarrow> seq + m \<le> fa_curseq a + 1" "0 \<le> m" for b m
  proof -
    have k: "core0 b = core0 a"
      using that(1) by (simp add: moves_on_def)
    then have "fa_conf b = fa_conf a" "fa_highest_ack b = fa_highest_ack a" "fa_curseq b = fa_curseq a" "fa_state b = fa_state a"
      "fa_rcv_nxt b = fa_rcv_nxt a"
      by (simp_all add: core0_def)
    moreover have "seq + m \<le> max (fa_iss a + 1) (fa_curseq a + 1)"
      using that(4,5) s mx by (cases "m = 0") auto
    ultimately show ?thesis
      using a that base_moves [OF that(1) ba] mx by (auto simp: snd_ok_def seqs_ok_def)
  qed
  from cases show ?thesis
  proof
    assume f: "foutput ev seq reason a = Some (0, c) \<and> \<not> flag_set pf TH_SYN \<and> \<not> (0 < ?n \<and> seq < fa_maxseq a)"
    have m: "moves_on j a c"
      using c by (intro moves_still)
    have t: "fa_t_seqno c = fa_t_seqno a"
      using c by (simp add: still_def)
    show ?thesis
      by (rule that [of 0 c]) (use f m t c s snd [OF m t, of 0] in \<open>simp_all\<close>)
  next
    assume f: "foutput ev seq reason a = out_send ev seq ?n pf reason c"
    have p: "\<not> flag_set pf TH_SYN" "\<not> flag_set pf TH_FIN"
      using pf outflags_states(1) [OF ea] by simp_all
    have "0 \<le> seq"
      using i by simp
    obtain b q where b: "out_send ev seq ?n pf reason c = Some (?n + (if flag_set pf TH_SYN then 1 else 0), b)"
      "still c b" "fa_maxseq b = max (fa_maxseq c) (seq + ?n + (if flag_set pf TH_SYN then 1 else 0))"
      "fa_out b = fa_out c @ [q]" "\<not> rx_acknow (fa_ecn b)" "\<not> rx_delack (fa_ecn b)"
      "\<forall>i j M V. (flag_set pf TH_SYN \<longrightarrow> seq = i \<and> ?n = 0 \<and> i < M)
       \<and> (\<not> flag_set pf TH_SYN \<and> 0 < ?n \<longrightarrow> i < seq \<and> seq + ?n \<le> M)
       \<and> (flag_set pf TH_ACK \<longrightarrow> j < fa_rcv_nxt c \<and> fa_rcv_nxt c \<le> V) \<longrightarrow> packet_ok i j M V q"
      "ts_seqno (fp_seg q) = seq \<and> ts_size (fp_seg q) - ts_hlen (fp_seg q) = ?n"
      by (rule out_send_ok [OF base_still [OF c(1) ba] n(1,2) \<open>0 \<le> seq\<close> lim p(2), of ev reason])
    have st: "still a b"
      by (rule still_trans [OF c(1) b(2)])
    have mb: "fa_maxseq b = max (fa_maxseq a) (seq + ?n)"
      using b(3) p c by simp
    have "packet_ok (fa_iss a) j (fa_maxseq b) (fa_rcv_nxt a) q"
      using mb i p c ja by (intro b(7) [rule_format]) simp_all
    then have m: "moves_on j a b"
      using b(4) c mb by (intro moves_send [OF st]) simp_all
    have t: "fa_t_seqno b = fa_t_seqno a"
      using st by (simp add: still_def)
    show ?thesis
      by (rule that [of ?n b]) (use f b(1,4,8) c p m t mb n snd [OF m t mb] in \<open>simp_all\<close>)
  qed
qed

text \<open>Before the connection is established, only the SYN is sent.\<close>

definition syn_ok :: "int \<Rightarrow> full_agent \<Rightarrow> bool" where
  "syn_ok j a \<longleftrightarrow> base a \<and> in_handshake a \<and> (fa_state a = TCPS_SYN_RECEIVED_num \<longrightarrow> j < fa_rcv_nxt a)"

lemma foutput_syn:
  assumes a: "syn_ok j a"
  obtains b where "foutput ev (fa_iss a) reason a = Some (1, b)" "moves_on j a b" "fa_t_seqno b = fa_t_seqno a"
    "fa_maxseq b = max (fa_maxseq a) (fa_iss a + 1)" "\<not> rx_delack (fa_ecn b)"
proof -
  have ba: "base a" and hs: "in_handshake a"
    using a by (simp_all add: syn_ok_def)
  let ?n = "out_len (fa_iss a) a"
  obtain c pf where c: "still a c" "fa_rx c = fa_rx a" "fa_maxseq c = fa_maxseq a" "fa_out c = fa_out a"
    and pf: "flag_set pf TH_SYN = flag_set (outflags a) TH_SYN" "flag_set (outflags a) TH_FIN \<or> \<not> flag_set pf TH_FIN"
      "flag_set pf TH_ACK = flag_set (outflags a) TH_ACK"
    and cases: "foutput ev (fa_iss a) reason a = Some (0, c) \<and> \<not> flag_set pf TH_SYN \<and> \<not> (0 < ?n \<and> fa_iss a < fa_maxseq a)
     \<or> foutput ev (fa_iss a) reason a = out_send ev (fa_iss a) ?n pf reason c"
    by (rule foutput_parts [OF ba])
  have p: "flag_set pf TH_SYN" "\<not> flag_set pf TH_FIN"
    using pf outflags_states hs by (auto simp: in_handshake_def)
  have ack: "j < fa_rcv_nxt a" if "flag_set pf TH_ACK"
  proof -
    have "fa_state a = TCPS_SYN_RECEIVED_num"
      using that pf(3) hs outflags_states(2) [of a] by (auto simp: in_handshake_def)
    then show ?thesis
      using a by (simp add: syn_ok_def)
  qed
  have n: "?n = 0"
    by (rule out_len_syn [OF ba])
  have i: "0 \<le> fa_iss a" "fa_iss a + 0 < 2147483000" "(0 :: int) \<le> 0" "(0 :: int) \<le> 1000000"
    using iss_bounds [OF ba] by simp_all
  have f: "foutput ev (fa_iss a) reason a = out_send ev (fa_iss a) 0 pf reason c"
    using cases p n by simp
  obtain b q where b: "out_send ev (fa_iss a) 0 pf reason c = Some (0 + (if flag_set pf TH_SYN then 1 else 0), b)"
      "still c b" "fa_maxseq b = max (fa_maxseq c) (fa_iss a + 0 + (if flag_set pf TH_SYN then 1 else 0))"
      "fa_out b = fa_out c @ [q]" "\<not> rx_acknow (fa_ecn b)" "\<not> rx_delack (fa_ecn b)"
      "\<forall>i j M V. (flag_set pf TH_SYN \<longrightarrow> fa_iss a = i \<and> (0 :: int) = 0 \<and> i < M)
       \<and> (\<not> flag_set pf TH_SYN \<and> (0 :: int) < 0 \<longrightarrow> i < fa_iss a \<and> fa_iss a + 0 \<le> M)
       \<and> (flag_set pf TH_ACK \<longrightarrow> j < fa_rcv_nxt c \<and> fa_rcv_nxt c \<le> V) \<longrightarrow> packet_ok i j M V q"
      "ts_seqno (fp_seg q) = fa_iss a \<and> ts_size (fp_seg q) - ts_hlen (fp_seg q) = 0"
    by (rule out_send_ok [OF base_still [OF c(1) ba] i(3,4,1,2) p(2), of ev reason])
  have st: "still a b"
    by (rule still_trans [OF c(1) b(2)])
  have mb: "fa_maxseq b = max (fa_maxseq a) (fa_iss a + 1)"
    using b(3) p c by simp
  have "packet_ok (fa_iss a) j (fa_maxseq b) (fa_rcv_nxt a) q"
    using mb p c ack by (intro b(7) [rule_format]) simp_all
  then have m: "moves_on j a b"
    using b(4) c mb by (intro moves_send [OF st]) simp_all
  show ?thesis
    by (rule that [of b]) (use f b(1,6) p m mb st in \<open>simp_all add: still_def\<close>)
qed

lemma agent_sent_simps [simp]:
  "core0 (agent_sent seq amt a) = core0 a" "fa_tcp (agent_sent seq amt a) = fa_tcp a" "fa_rx (agent_sent seq amt a) = fa_rx a"
  "fa_wnd_init_option (agent_sent seq amt a) = fa_wnd_init_option a" "fa_out (agent_sent seq amt a) = fa_out a"
  "fa_conf (agent_sent seq amt a) = fa_conf a" "fa_curseq (agent_sent seq amt a) = fa_curseq a"
  "fa_t_seqno (agent_sent seq amt a) = (if seq = fa_t_seqno a then i32 (fa_t_seqno a + amt) else fa_t_seqno a)"
  by (simp_all add: agent_sent_def core0_def Let_def)

lemma moves_sent: "moves_on j a (agent_sent seq amt a)"
  by (simp add: moves_on_def outs_ok_def)

lemma send_syn:
  assumes a: "syn_ok j a" and t: "fa_t_seqno a = fa_iss a"
  obtains b where "agent_send_much ev True reason mb a = Some b" "moves_on j a b" "fa_t_seqno b = fa_iss a + 1"
    "fa_maxseq b = max (fa_maxseq a) (fa_iss a + 1)" "\<not> rx_delack (fa_ecn b)"
proof -
  obtain b where b: "foutput ev (fa_iss a) reason a = Some (1, b)" "moves_on j a b" "fa_t_seqno b = fa_t_seqno a"
    "fa_maxseq b = max (fa_maxseq a) (fa_iss a + 1)" "\<not> rx_delack (fa_ecn b)"
    by (rule foutput_syn [OF a, of ev reason])
  have "fa_state b = fa_state a"
    using b(2) by (simp add: moves_on_def core0_def)
  then have fl: "flag_set (outflags (agent_sent x y b)) TH_SYN" "\<not> flag_set (outflags b) TH_FIN" for x y
    using a outflags_states by (auto simp: syn_ok_def in_handshake_def)
  have i: "i32 (fa_iss a + 1) = fa_iss a + 1"
    using a iss_bounds [of a] by (simp add: syn_ok_def i32_id)
  have "agent_send_much ev True reason mb a = Some (agent_sent (fa_iss a) 1 b)"
    using b(1) fl t by (simp add: agent_send_much_def agent_send_loop.simps [of ev True] Let_def)
  then show ?thesis
    by (rule that) (use b t i moves_trans [OF b(2) moves_sent] in simp_all)
qed

text \<open>Once it is established, \<open>send_much\<close> ends and stays within the buffer.\<close>

lemma agent_sent_ok:
  assumes b: "snd_ok j b" and n: "0 \<le> n" "seq = fa_t_seqno b" "seq + n \<le> fa_maxseq b"
  shows "snd_ok j (agent_sent seq n b)" "fa_t_seqno (agent_sent seq n b) = seq + n"
proof -
  have "base (agent_sent seq n b)"
    using b base_moves [OF moves_sent] by (simp add: snd_ok_def)
  moreover have "0 \<le> fa_t_seqno b" "fa_maxseq b \<le> CUR_LIMIT + 1"
    using b iss_bounds [of b] seqs_bounds [of b] by (simp_all add: snd_ok_def seqs_ok_def)
  then have "i32 (fa_t_seqno b + n) = fa_t_seqno b + n"
    using n by (simp add: i32_id CUR_LIMIT_def)
  ultimately show "snd_ok j (agent_sent seq n b)" "fa_t_seqno (agent_sent seq n b) = seq + n"
    using b n by (simp_all add: snd_ok_def seqs_ok_def)
qed

lemma send_loop_est:
  assumes "snd_ok j a"
  shows "\<exists>b. agent_send_loop ev force reason mb np a = Some b \<and> moves_on j a b \<and> snd_ok j b"
  using assms
proof (induction "nat (fa_curseq a + 1 - fa_t_seqno a)" arbitrary: a force np rule: less_induct)
  case less
  let ?seq = "fa_t_seqno a"
  have s: "fa_highest_ack a \<le> ?seq" "?seq \<le> fa_maxseq a"
    using less.prems by (simp_all add: snd_ok_def seqs_ok_def)
  have oh: "fc_overhead (fa_conf a) = 0"
    using less.prems by (simp add: snd_ok_def base_def conf_ok_def)
  obtain n b where b: "foutput ev ?seq reason a = Some (n, b)" "moves_on j a b" "fa_t_seqno b = fa_t_seqno a" "snd_ok j b"
    "0 \<le> n" "0 < n \<longrightarrow> ?seq + n \<le> fa_curseq a + 1" "fa_maxseq b = max (fa_maxseq a) (?seq + n)"
    "0 < out_len ?seq a \<and> ?seq < fa_maxseq a \<longrightarrow> n = out_len ?seq a
       \<and> (\<exists>p. fa_out b = fa_out a @ [p] \<and> ts_seqno (fp_seg p) = ?seq \<and> ts_size (fp_seg p) - ts_hlen (fp_seg p) = n)"
    by (rule foutput_est [OF less.prems s, of ev reason])
  define c where "c = agent_sent ?seq n b"
  have c: "snd_ok j c" "fa_t_seqno c = ?seq + n" "moves_on j a c"
    using agent_sent_ok [OF b(4) b(5) b(3) [symmetric]] b(7) moves_trans [OF b(2) moves_sent] by (simp_all add: c_def)
  have fl: "\<not> flag_set (outflags b) TH_FIN" "outflags c = outflags b"
    using outflags_states(1) [of b] outflags_states(1) [of c] b(4) c(1) by (simp_all add: snd_ok_def)
  have cc: "fa_curseq c = fa_curseq a"
    using c(3) by (simp add: moves_on_def core0_def)
  show ?case
  proof (cases "\<not> force \<and> \<not> agent_send_allowed ?seq a \<or> n = 0
      \<or> flag_set (outflags c) (TH_SYN OR TH_FIN) \<or> (mb \<noteq> 0 \<and> np + 1 \<ge> mb)")
    case True
    then have "agent_send_loop ev force reason mb np a \<in> {Some a, Some b, Some c}"
      using b(1,5) fl oh by (simp add: agent_send_loop.simps [of ev force] Let_def c_def) auto
    then show ?thesis
      using less.prems b(2,4) c(1,3) by auto
  next
    case False
    then have "agent_send_loop ev force reason mb np a = agent_send_loop ev False reason mb (np + 1) c"
      using b(1,5) fl oh by (simp add: agent_send_loop.simps [of ev force] Let_def c_def del: flag_set_or) auto
    moreover have "nat (fa_curseq c + 1 - fa_t_seqno c) < nat (fa_curseq a + 1 - ?seq)"
      using False b(5,6) c(2) cc by auto
    from less.hyps [OF this c(1)] obtain d where "agent_send_loop ev False reason mb (np + 1) c = Some d" "moves_on j c d" "snd_ok j d"
      by blast
    ultimately show ?thesis
      using moves_trans [OF c(3)] by auto
  qed
qed

lemma send_much_est:
  assumes "snd_ok j a"
  obtains b where "agent_send_much ev force reason mb a = Some b" "moves_on j a b" "snd_ok j b"
proof -
  have "\<not> fa_delsnd_on a"
    using assms by (simp add: snd_ok_def base_def)
  then show ?thesis
    using send_loop_est [OF assms, of ev force reason mb 0] that by (auto simp: agent_send_much_def)
qed

lemma send_forced_est:
  assumes "snd_ok j a"
  obtains b where "send_forced ev a = Some b" "moves_on j a b" "snd_ok j b"
  using send_much_est [OF assms] unfolding send_forced_def by blast

text \<open>Forced, it sends first what has not been acknowledged.\<close>

lemma send_much_first:
  assumes a: "snd_ok j a" and n: "0 < out_len (fa_t_seqno a) a" "fa_t_seqno a < fa_maxseq a"
  shows "\<exists>b p ps. agent_send_much ev True reason mb a = Some b \<and> fa_out b = fa_out a @ p # ps
     \<and> ts_seqno (fp_seg p) = fa_t_seqno a \<and> ts_size (fp_seg p) - ts_hlen (fp_seg p) = out_len (fa_t_seqno a) a"
proof -
  let ?seq = "fa_t_seqno a"
  have s: "fa_highest_ack a \<le> ?seq" "?seq \<le> fa_maxseq a"
    using a by (simp_all add: snd_ok_def seqs_ok_def)
  obtain k b where b: "foutput ev ?seq reason a = Some (k, b)" "moves_on j a b" "fa_t_seqno b = ?seq" "snd_ok j b"
    "0 \<le> k" "0 < k \<longrightarrow> ?seq + k \<le> fa_curseq a + 1" "fa_maxseq b = max (fa_maxseq a) (?seq + k)"
    "0 < out_len ?seq a \<and> ?seq < fa_maxseq a \<longrightarrow> k = out_len ?seq a
       \<and> (\<exists>p. fa_out b = fa_out a @ [p] \<and> ts_seqno (fp_seg p) = ?seq \<and> ts_size (fp_seg p) - ts_hlen (fp_seg p) = k)"
    by (rule foutput_est [OF a s, of ev reason])
  obtain p where p: "k = out_len ?seq a" "fa_out b = fa_out a @ [p]" "ts_seqno (fp_seg p) = ?seq"
    "ts_size (fp_seg p) - ts_hlen (fp_seg p) = k"
    using b(8) n by blast
  define c where "c = agent_sent ?seq k b"
  have c: "snd_ok j c" "fa_out c = fa_out b"
    using agent_sent_ok [OF b(4) b(5) b(3) [symmetric]] b(7) by (simp_all add: c_def)
  have fl: "\<not> flag_set (outflags b) TH_FIN"
    using outflags_states(1) [of b] b(4) by (simp add: snd_ok_def)
  have "agent_send_much ev True reason mb a = Some c \<or> agent_send_much ev True reason mb a = agent_send_loop ev False reason mb 1 c"
    using b(1) n p(1) fl by (simp add: agent_send_much_def agent_send_loop.simps [of ev True] Let_def c_def del: flag_set_or)
  moreover obtain d where "agent_send_loop ev False reason mb 1 c = Some d" "moves_on j c d"
    using send_loop_est [OF c(1)] by blast
  moreover from this(2) obtain ps where "fa_out d = fa_out c @ ps"
    by (auto simp: moves_on_def)
  ultimately show ?thesis
    using c(2) p by auto
qed

end
