(* ===== verification/Full_Estab.thy ===== *)
theory Full_Estab
  imports Full_Send
begin

text \<open>
  What an established connection of the full TCP agent keeps: whatever packet a correct peer may have
  sent arrives, \<open>recv\<close> returns, all that it sends is good, and the data are added in order.
\<close>

unbundle bit_operations_syntax

section \<open>An established connection\<close>

text \<open>
  The numbers of the peer begin at \<open>j\<close>; it has sent those below \<open>M\<close>, and of this side's numbers it
  has received those below \<open>V\<close>.
\<close>

definition rcvr_ok :: "int \<Rightarrow> int \<Rightarrow> full_agent \<Rightarrow> bool" where
  "rcvr_ok j M a \<longleftrightarrow> rx_ready (fa_rx a) \<and> got (fr_q (fa_rx a)) \<subseteq> {..<M} \<and> fr_delivered (fa_rx a) = fa_rcv_nxt a - j - 1"

definition est :: "int \<Rightarrow> int \<Rightarrow> int \<Rightarrow> full_agent \<Rightarrow> bool" where
  "est j M V a \<longleftrightarrow> snd_ok j a \<and> outs_ok j a \<and> rcvr_ok j M a \<and> fa_highest_ack a \<le> V"

text \<open>What never goes back.\<close>

definition grows :: "full_agent \<Rightarrow> full_agent \<Rightarrow> bool" where
  "grows a b \<longleftrightarrow> fa_conf b = fa_conf a \<and> fa_curseq b = fa_curseq a \<and> fa_maxseq a \<le> fa_maxseq b \<and> fa_rcv_nxt a \<le> fa_rcv_nxt b"

lemma grows_refl [simp]: "grows a a"
  by (simp add: grows_def)

lemma grows_trans [trans]: "grows a b \<Longrightarrow> grows b c \<Longrightarrow> grows a c"
  by (simp add: grows_def)

lemma grows_moves: "moves_on j a b \<Longrightarrow> grows a b"
  by (simp add: moves_on_def grows_def core0_def)

lemma outs_mono: "outs_ok j a \<Longrightarrow> grows a b \<Longrightarrow> fa_out b = fa_out a \<Longrightarrow> outs_ok j b"
  by (auto simp: outs_ok_def grows_def intro: pkt_ok_mono)

lemma rcvr_core0: "core0 b = core0 a \<Longrightarrow> rcvr_ok j M b = rcvr_ok j M a"
  by (simp add: core0_def rcvr_ok_def rx_ready_def)

lemma est_moves: "est j M V a \<Longrightarrow> moves_on j a b \<Longrightarrow> snd_ok j b \<Longrightarrow> est j M V b"
  using rcvr_core0 [of b a] by (simp add: est_def moves_on_def core0_def)

lemma snd_still: "still a b \<Longrightarrow> fa_maxseq b = fa_maxseq a \<Longrightarrow> snd_ok j a \<Longrightarrow> snd_ok j b"
  using base_still [of a b] by (simp add: snd_ok_def seqs_ok_def still_def core0_def)

lemma est_still: "still a b \<Longrightarrow> fa_maxseq b = fa_maxseq a \<Longrightarrow> fa_out b = fa_out a \<Longrightarrow> est j M V a \<Longrightarrow> est j M V b"
  by (rule est_moves [OF _ moves_still [of a b] snd_still [of a b]]) (simp_all add: est_def)

lemma est_framed: "framed a b \<Longrightarrow> est j M V a \<Longrightarrow> est j M V b"
  using est_still [OF still_framed, of a b] by (simp add: framed_def core_core0)

lemma grows_framed: "framed a b \<Longrightarrow> grows a b"
  by (rule grows_moves [OF moves_framed])

lemma est_tcp: "est j M V a \<Longrightarrow> tcp_ok (fa_tcp a)" "est j M V a \<Longrightarrow> conf_ok (fa_conf a)" "est j M V a \<Longrightarrow> base a"
  "est j M V a \<Longrightarrow> snd_ok j a" "est j M V a \<Longrightarrow> fa_state a = TCPS_ESTABLISHED_num" "est j M V a \<Longrightarrow> j < fa_rcv_nxt a"
  by (simp_all add: est_def snd_ok_def base_def)

lemma framed_ecn:
  assumes "rx_rcv_nxt (f (fa_ecn a)) = rx_rcv_nxt (fa_ecn a)" "rx_irs (f (fa_ecn a)) = rx_irs (fa_ecn a)"
    "rx_maxseg (f (fa_ecn a)) = fa_maxseg a" "rx_delack (f (fa_ecn a)) = rx_delack (fa_ecn a)"
  shows "framed a (on_ecn f a)"
  using assms by (simp add: framed_def core_def on_ecn_def on_rx_def)

lemma framed_note_ce: "framed a (note_ce p n a)"
  unfolding note_ce_def by (rule framed_ecn) (simp_all add: ce_update_def)

lemma send_much_keeps:
  assumes "est j M V a"
  obtains b where "agent_send_much ev force reason mb a = Some b" "est j M V b" "grows a b" "fr_q (fa_rx b) = fr_q (fa_rx a)"
proof -
  obtain b where b: "agent_send_much ev force reason mb a = Some b" "moves_on j a b" "snd_ok j b"
    by (rule send_much_est [OF est_tcp(4) [OF assms], of ev force reason mb])
  have "fr_q (fa_rx b) = fr_q (fa_rx a)"
    using b(2) by (simp add: moves_on_def core0_def)
  then show ?thesis
    by (rule that [OF b(1) est_moves [OF assms b(2,3)] grows_moves [OF b(2)]])
qed

lemma send_forced_keeps:
  assumes "est j M V a"
  obtains b where "send_forced ev a = Some b" "est j M V b" "grows a b" "fr_q (fa_rx b) = fr_q (fa_rx a)"
  using that unfolding send_forced_def by (rule send_much_keeps [OF assms])

section \<open>Acknowledgments\<close>

lemma est_ack_to:
  assumes "est j M V a" "n \<le> fa_maxseq a" "n \<le> V"
  shows "est j M V (ack_to n a)"
proof -
  have k: "fa_conf (ack_to n a) = fa_conf a" "fa_curseq (ack_to n a) = fa_curseq a" "fa_rx (ack_to n a) = fa_rx a"
    "fa_out (ack_to n a) = fa_out a" "fa_maxseq (ack_to n a) = fa_maxseq a"
    "fa_highest_ack (ack_to n a) = max n (fa_highest_ack a)"
    "fa_t_seqno (ack_to n a) = max (fa_t_seqno a) (max n (fa_highest_ack a))"
    by (simp_all add: ack_to_def on_tcp_def)
  have "base (ack_to n a)"
    using est_tcp(3) [OF assms(1)] by (simp add: base_def ack_to_def on_tcp_def tcp_ok_def timer_ok_def iw_ok_def)
  moreover have "seqs_ok (ack_to n a)"
    using est_tcp(4) [OF assms(1)] assms(2) by (auto simp: snd_ok_def seqs_ok_def k)
  ultimately have "snd_ok j (ack_to n a)"
    using est_tcp(4) [OF assms(1)] by (simp add: snd_ok_def k)
  then show ?thesis
    using assms(1,3) by (simp add: est_def outs_ok_def rcvr_ok_def k)
qed

lemma grows_ack_to: "grows a (ack_to n a)"
  by (simp add: grows_def ack_to_def on_tcp_def)

lemma newack_keeps:
  assumes "est j M V a" "fp_ackno p \<le> fa_maxseq a" "fp_ackno p \<le> V"
  obtains b where "agent_newack ev p a = Some b" "est j M V b" "grows a b" "fr_q (fa_rx b) = fr_q (fa_rx a)"
proof -
  obtain b where b: "agent_newack ev p a = Some b" "framed (ack_to (fp_ackno p) a) b"
    by (rule newack_ok [OF est_tcp(1) [OF assms(1)]])
  have "fr_q (fa_rx b) = fr_q (fa_rx a)"
    using b(2) by (simp add: framed_def core_def ack_to_def on_tcp_def)
  then show ?thesis
    using that [OF b(1) est_framed [OF b(2) est_ack_to [OF assms]]] grows_trans [OF grows_ack_to grows_framed [OF b(2)]]
    by simp
qed

text \<open>One window back to the first byte not acknowledged, and a packet from there.\<close>

lemma fast_retransmit_keeps:
  assumes "est j M V a"
  obtains n b where "fast_retransmit ev (fa_highest_ack a) a = Some (n, b)" "est j M V b" "grows a b"
proof -
  define c where "c = on_tcp (\<lambda>s. s\<lparr>ft_recover := ft_maxseq s, ft_last_cwnd_action := CWND_ACTION_DUPACK\<rparr>) a"
  have f: "framed a c"
    unfolding c_def by (rule framed_tcp) (simp_all add: tcp_ok_def timer_ok_def)
  have c: "est j M V c" "fa_highest_ack c = fa_highest_ack a"
    using est_framed [OF f assms] by (simp_all add: c_def on_tcp_def)
  have s: "fa_highest_ack c \<le> fa_highest_ack a" "fa_highest_ack a \<le> fa_maxseq c"
    using c est_tcp(4) [OF c(1)] by (simp_all add: snd_ok_def seqs_ok_def)
  obtain n b where b: "foutput ev (fa_highest_ack a) REASON_DUPACK c = Some (n, b)" "moves_on j c b" "snd_ok j b"
    using foutput_est [OF est_tcp(4) [OF c(1)] s, of ev REASON_DUPACK] by metis
  then show ?thesis
    using that est_moves [OF c(1) b(2,3)] grows_trans [OF grows_framed [OF f] grows_moves [OF b(2)]]
    by (simp add: fast_retransmit_def c_def)
qed

text \<open>Sending does not touch the count of duplicates.\<close>

lemma on_dupacks [simp]: "fa_dupacks (on_tcp f a) = fa_dupacks a" "fa_dupacks (on_rx g a) = fa_dupacks a"
  "fa_dupacks (on_ecn h a) = fa_dupacks a" "fa_dupacks (newstate st a) = fa_dupacks a" "fa_dupacks (slow_down ev how a) = fa_dupacks a"
  "fa_dupacks (send_pkt ev s k pf n r a) = fa_dupacks a" "fa_dupacks (out_restart ev n a) = fa_dupacks a"
  by (simp_all add: on_tcp_def on_rx_def on_ecn_def newstate_def slow_down_def send_pkt_def out_restart_def Let_def)

lemma out_flags_dupacks: "fa_dupacks (snd (out_flags pf n rtx a)) = fa_dupacks a"
  by (simp add: out_flags_def out_cwr_def out_fin_def Let_def split_def)

lemma set_rtx_dupacks: "set_rtx_timer a = Some b \<Longrightarrow> fa_dupacks b = fa_dupacks a"
  by (auto simp: set_rtx_timer_def)

lemma out_send_last:
  assumes "map_option (Pair r) (if c then set_rtx_timer x else Some x) = Some (m, b)"
  shows "fa_dupacks b = fa_dupacks x"
  using assms set_rtx_dupacks [of x b] by (cases c) auto

lemma out_send_dupacks:
  assumes "out_send ev s n pf r a = Some (m, b)"
  shows "fa_dupacks b = fa_dupacks a"
  using out_send_last [OF assms [unfolded out_send_def Let_def split_def]]
  by (simp add: if_distrib [of fa_dupacks] out_flags_dupacks cong: if_cong)

lemma foutput_dupacks: "foutput ev s r a = Some (n, b) \<Longrightarrow> fa_dupacks b = fa_dupacks a"
  by (auto simp: foutput_def Let_def dest!: out_send_dupacks split: if_splits)

lemma fast_dupacks: "fast_retransmit ev s a = Some (n, b) \<Longrightarrow> fa_dupacks b = fa_dupacks a"
  using foutput_dupacks by (fastforce simp: fast_retransmit_def)

lemma dupack_action_keeps:
  assumes "est j M V a" "0 \<le> fa_dupacks a"
  obtains b where "agent_dupack_action ev a = Some b" "est j M V b" "grows a b"
proof -
  define a0 where "a0 = a\<lparr>fa_fastrecov := True, fa_rtxbytes := 0\<rparr>"
  have a0: "framed a a0" "fa_tcp a0 = fa_tcp a"
    by (simp_all add: a0_def framed_def core_def)
  define cut where "cut = (\<lambda>how b. (cancel_rtx_timer (slow_down ev how b))\<lparr>fa_rtt_active := False\<rparr>)"
  have cut: "framed b (cut how b)" "fa_highest_ack (cut how b) = fa_highest_ack b" for how b
    using framed_trans [OF framed_trans [OF framed_slow_down framed_simps(1)] framed_simps(3)]
    by (simp_all add: cut_def cancel_rtx_timer_def slow_down_def on_tcp_def)
  define mark where "mark = on_tcp (\<lambda>s. s\<lparr>ft_recover := ft_maxseq s\<rparr>)"
  have mark: "framed b (mark b)" "fa_highest_ack (mark b) = fa_highest_ack b" for b
    unfolding mark_def by (rule framed_tcp; simp add: tcp_ok_def timer_ok_def) (simp add: on_tcp_def)
  define full where "full = (\<lambda>a. do {
            let a = cut (CLOSE_SSTHRESH_HALF OR CLOSE_CWND_HALF) a;
            let a = mark a;
            (n, a) \<leftarrow> fast_retransmit ev (fa_highest_ack a) a;
            Some (set_cwnd (of_int (ft_ssthresh (fa_tcp a)) + of_int (fa_dupacks a)) a) })"
  have full: "\<exists>c. full b = Some c \<and> est j M V c \<and> grows b c" if b: "est j M V b" "0 \<le> fa_dupacks b" for b
  proof -
    define c where "c = mark (cut (CLOSE_SSTHRESH_HALF OR CLOSE_CWND_HALF) b)"
    have c: "framed b c" "fa_dupacks c = fa_dupacks b"
      using framed_trans [OF cut(1) mark(1)] by (simp_all add: c_def) (simp add: cut_def mark_def cancel_rtx_timer_def)
    obtain n d where d: "fast_retransmit ev (fa_highest_ack c) c = Some (n, d)" "est j M V d" "grows c d"
      by (rule fast_retransmit_keeps [OF est_framed [OF c(1) b(1)], of ev])
    have "0 < rat_of_int (ft_ssthresh (fa_tcp d)) + rat_of_int (fa_dupacks d)"
      using est_tcp(1) [OF d(2)] fast_dupacks [OF d(1)] c(2) b(2) by (simp add: tcp_ok_def add_pos_nonneg)
    from framed_set_cwnd [OF this, of d] have "est j M V (set_cwnd (of_int (ft_ssthresh (fa_tcp d)) + of_int (fa_dupacks d)) d)"
      "grows d (set_cwnd (of_int (ft_ssthresh (fa_tcp d)) + of_int (fa_dupacks d)) d)"
      using est_framed grows_framed d(2) by blast+
    then show ?thesis
      using d(1) grows_trans [OF grows_trans [OF grows_framed [OF c(1)] d(3)]] by (auto simp: full_def c_def Let_def)
  qed
  have e0: "est j M V a0" and g0: "grows a a0"
    using est_framed [OF a0(1) assms(1)] grows_framed [OF a0(1)] by simp_all
  have act: "agent_dupack_action ev a = (let recovered = (fa_highest_ack a > ft_recover (fa_tcp a)); bug = fc_bug_fix (fa_conf a); ec = rx_ecn (fa_ecn a)
      in if recovered \<or> (\<not> bug \<and> \<not> ec) \<or> ft_last_cwnd_action (fa_tcp a0) = CWND_ACTION_DUPACK \<or> fa_highest_ack a0 = 0
         then full a0
         else if ec \<and> ft_last_cwnd_action (fa_tcp a0) = CWND_ACTION_ECN
         then map_option snd (fast_retransmit ev (fa_highest_ack a0) (cut CLOSE_CWND_HALF a0))
         else if bug then Some a0 else full a0)"
    unfolding agent_dupack_action_def a0_def cut_def mark_def full_def Let_def by (rule refl)
  obtain n d where d: "fast_retransmit ev (fa_highest_ack a0) (cut CLOSE_CWND_HALF a0) = Some (n, d)" "est j M V d"
    "grows (cut CLOSE_CWND_HALF a0) d"
    using fast_retransmit_keeps [OF est_framed [OF cut(1) e0], of ev CLOSE_CWND_HALF] by (auto simp: cut(2))
  have "agent_dupack_action ev a \<in> {full a0, Some d, Some a0}"
    unfolding act Let_def by (simp add: d(1))
  moreover have "0 \<le> fa_dupacks a0"
    using assms(2) by (simp add: a0_def)
  from full [OF e0 this] obtain f where "full a0 = Some f" "est j M V f" "grows a0 f"
    by blast
  ultimately show ?thesis
    using that d(2) e0 g0 grows_trans [OF g0] grows_trans [OF grows_framed [OF cut(1)] d(3)] by auto
qed

text \<open>The outcome of a part of \<open>recv\<close>: the connection is kept, and at \<open>step6\<close> the segment's data are as they were.\<close>

definition upholds :: "int \<Rightarrow> int \<Rightarrow> int \<Rightarrow> full_agent \<Rightarrow> seg_in \<Rightarrow> verdict \<times> seg_in \<times> full_agent \<Rightarrow> bool" where
  "upholds j M V a si = (\<lambda>(v, si', b). est j M V b \<and> grows a b \<and> (v = Drop_pkt \<or> v = Drop_after_ack \<or> v = Step6)
     \<and> (v = Step6 \<longrightarrow> fr_q (fa_rx b) = fr_q (fa_rx a) \<and> si_pkt si' = si_pkt si \<and> si_datalen si' = si_datalen si
          \<and> si_tiflags si' = si_tiflags si))"

lemma keeps_after:
  assumes "upholds j M V b si r" "grows a b" "fr_q (fa_rx b) = fr_q (fa_rx a)"
  shows "upholds j M V a si r"
  using assms grows_trans [OF assms(2)] by (auto simp: upholds_def)

lemma framed_q: "framed a b \<Longrightarrow> fr_q (fa_rx b) = fr_q (fa_rx a)"
  by (simp add: framed_def core_def)

lemma keeps_framed:
  assumes "framed a b" "upholds j M V b si r"
  shows "upholds j M V a si r"
  by (rule keeps_after [OF assms(2) grows_framed [OF assms(1)] framed_q [OF assms(1)]])

lemma dup_ack_keeps:
  assumes a: "est j M V a"
  shows "\<exists>r. recv_dup_ack ev si a = Some r \<and> upholds j M V a si r"
proof -
  let ?c = "fa_conf a"
  have step6: "upholds j M V a si (Step6, si, b)" if "framed a b" for b
    using est_framed [OF that a] grows_framed [OF that] framed_q [OF that] by (simp add: upholds_def)
  have drop: "upholds j M V a si (Drop_pkt, si, b)" if "est j M V b" "grows a b" for b
    using that by (simp add: upholds_def)
  have th: "0 \<le> fc_dupthresh ?c"
    using est_tcp(2) [OF a] by (simp add: conf_ok_def)
  define d where "d = a\<lparr>fa_dupacks := i32 (fa_dupacks a + 1)\<rparr>"
  have fd: "framed a d" and d: "fa_dupacks d = i32 (fa_dupacks a + 1)" "fa_conf d = fa_conf a"
    by (simp_all add: d_def framed_simps)
  have ed: "est j M V d" and gd: "grows a d"
    using est_framed [OF fd a] grows_framed [OF fd] by simp_all
  define e where "e = (if fc_reno_fastrecov ?c then set_cwnd (ft_cwnd (fa_tcp d) + 1) d else d)"
  have "0 < ft_cwnd (fa_tcp d) + 1"
    using est_tcp(1) [OF ed] by (simp add: tcp_ok_def)
  then have fe: "framed d e"
    using framed_set_cwnd by (simp add: e_def)
  obtain b where b: "agent_send_much ev False REASON_DUPACK (fc_maxburst ?c) e = Some b" "est j M V b" "grows e b" "fr_q (fa_rx b) = fr_q (fa_rx e)"
    by (rule send_much_keeps [OF est_framed [OF fe ed], of ev False REASON_DUPACK "fc_maxburst ?c"])
  have gb: "grows a b"
    using grows_trans [OF gd grows_trans [OF grows_framed [OF fe] b(3)]] .
  have act: "\<exists>c. agent_dupack_action ev d = Some c \<and> est j M V c \<and> grows a c" if "fa_dupacks d = fc_dupthresh ?c"
  proof -
    have "0 \<le> fa_dupacks d"
      using that th by simp
    from dupack_action_keeps [OF ed this, of ev] show ?thesis
      using grows_trans [OF gd] by metis
  qed
  have r: "recv_dup_ack ev si a =
      (if si_datalen si = 0 \<and> (\<not> fc_dupseg_fix ?c \<or> \<not> si_dupseg si)
       then if \<not> fa_rtx_on a \<or> fp_ackno (si_pkt si) < fa_highest_ack a then Some (Step6, si, a\<lparr>fa_dupacks := 0\<rparr>)
            else if fa_dupacks d = fc_dupthresh ?c then map_option (\<lambda>a. (Drop_pkt, si, a)) (agent_dupack_action ev d)
            else if fa_dupacks d > fc_dupthresh ?c then map_option (\<lambda>a. (Drop_pkt, si, a)) (agent_send_much ev False REASON_DUPACK (fc_maxburst ?c) e)
            else Some (Step6, si, d)
       else Some (Step6, si, if fc_dupack_reset ?c then a\<lparr>fa_dupacks := 0, fa_fastrecov := False\<rparr> else a))"
    unfolding recv_dup_ack_def Let_def d_def e_def by (rule refl)
  have f: "framed a (a\<lparr>fa_dupacks := 0\<rparr>)" "framed a (a\<lparr>fa_dupacks := 0, fa_fastrecov := False\<rparr>)"
    by (simp_all add: framed_def core_def)
  show ?thesis
    unfolding r using step6 [OF f(1)] step6 [OF f(2)] step6 [OF fd] step6 [OF framed_refl] act drop b(1) drop [OF b(2) gb]
    by (auto simp del: upholds_def)
qed

text \<open>An acknowledgment of new data.\<close>

lemma ack_echo_ok:
  assumes "tcp_ok (fa_tcp a)"
  obtains b where "ack_echo ev si a = Some b" "framed a b"
proof -
  obtain s where s: "ecn (en_pow_l ev) (en_decrease ev) (fa_highest_ack a) (fa_tcp a) = Some s" "tcp_ok s"
    "ft_maxseq s = fa_maxseq a" "ft_highest_ack s = fa_highest_ack a" "ft_wnd s = ft_wnd (fa_tcp a)" "ft_frto s = ft_frto (fa_tcp a)"
    using ecn_ok [OF assms] by blast
  define e where "e = a\<lparr>fa_tcp := s\<rparr>"
  have fe: "framed a e" and t: "tcp_ok (fa_tcp e)"
    using s by (simp_all add: framed_def core_def e_def)
  obtain e' where e': "set_rtx_timer e = Some e'" "framed e e'"
    by (rule framed_set_rtx [OF t])
  have "ack_echo ev si a = Some (if fp_ecnecho (si_pkt si) \<and> \<not> flag_set (si_tiflags si) TH_SYN
      then if ft_cwnd s < 1 then e' else e else a)"
    using e'(1) by (simp add: ack_echo_def s(1) e_def)
  then show ?thesis
    using that fe framed_trans [OF fe e'(2)] framed_refl by presburger
qed

lemma ack_open_ok:
  assumes "conf_ok (fa_conf a)" "tcp_ok (fa_tcp a)"
  obtains b where "ack_open ev p partial a = Some b" "framed a b"
proof -
  obtain c where c: "opencwnd ev a = Some c" "framed a c"
    by (rule opencwnd_framed [OF assms])
  define grow where "grow \<longleftrightarrow> (\<not> fc_delay_growth (fa_conf a) \<or> fa_rcv_nxt a > 0) \<and> fa_last_state a = TCPS_ESTABLISHED_num
             \<and> (\<not> partial \<or> fc_open_cwnd_on_pack (fa_conf a))
             \<and> (\<not> rx_ect (fa_ecn a) \<or> \<not> fp_ecnecho p \<or> fa_ecn_burst a)"
  define b where "b = (if grow then c else a)"
  have b: "framed a b" and g: "(if grow then opencwnd ev a else Some a) = Some b"
    using c by (simp_all add: b_def)
  have "ack_open ev p partial a = Some (if rx_ect (fa_ecn a) then b\<lparr>fa_ecn_burst := fp_ecnecho p\<rparr> else b)"
    unfolding ack_open_def Let_def grow_def [symmetric] g by simp
  then show ?thesis
    by (rule that) (use b framed_trans [OF b framed_simps(8)] in simp)
qed

text \<open>The agent need not be established before the acknowledgment (of the SYN), only after it.\<close>

lemma process_ack_new:
  assumes a: "est j M V (ack_to (fp_ackno (si_pkt si)) a)" "tcp_ok (fa_tcp a)" and n: "fp_ackno (si_pkt si) \<le> fa_maxseq a"
  shows "\<exists>r. recv_process_ack ev si a = Some r \<and> upholds j M V a si r"
proof -
  let ?p = "si_pkt si"
  obtain b where b: "agent_newack ev ?p a = Some b" "framed (ack_to (fp_ackno ?p) a) b"
    by (rule newack_ok [OF a(2)])
  have eb: "est j M V b" and gb: "grows a b"
    using est_framed [OF b(2) a(1)] grows_trans [OF grows_ack_to grows_framed [OF b(2)]] by simp_all
  have qb: "fr_q (fa_rx b) = fr_q (fa_rx a)"
    using framed_q [OF b(2)] by (simp add: ack_to_def on_tcp_def)
  have fc: "framed b (pack_action b)"
    by (rule framed_pack_action [OF est_tcp(1) [OF eb]])
  obtain d where d: "ack_echo ev si (pack_action b) = Some d" "framed (pack_action b) d"
    by (rule ack_echo_ok [OF est_tcp(1) [OF est_framed [OF fc eb]]])
  have fd: "framed b d"
    by (rule framed_trans [OF fc d(2)])
  have ed: "est j M V d"
    by (rule est_framed [OF fd eb])
  define si' where "si' = (if fp_ackno ?p = fa_maxseq d then si\<lparr>si_needoutput := True\<rparr> else si)"
  obtain f where f: "ack_open ev ?p (partial_ack (fp_ackno ?p) b) d = Some f" "framed d f"
    by (rule ack_open_ok [OF est_tcp(2,1) [OF ed]])
  have "fa_state f = TCPS_ESTABLISHED_num"
    by (rule est_tcp(5) [OF est_framed [OF f(2) ed]])
  then have "ack_closing ev si' f = Some (Step6, si', f)"
    by (simp add: ack_closing_def full_codes)
  then have "recv_process_ack ev si a = Some (Step6, si', if fp_ackno ?p = i32 (fa_highest_ack d + 1) then d else f)"
    using n b(1) d(1) f(1) by (simp add: recv_process_ack_def Let_def si'_def)
  moreover have "upholds j M V b si (Step6, si', g)" if "framed b g" for g
    using est_framed [OF that eb] grows_framed [OF that] framed_q [OF that] by (simp add: upholds_def si'_def)
  ultimately show ?thesis
    using fd framed_trans [OF fd f(2)] keeps_after [OF _ gb qb] by simp
qed

lemma process_ack_keeps:
  assumes a: "est j M V a" and n: "fp_ackno (si_pkt si) \<le> V"
  shows "\<exists>r. recv_process_ack ev si a = Some r \<and> upholds j M V a si r"
proof (cases "fp_ackno (si_pkt si) > fa_maxseq a")
  case True
  then show ?thesis
    using a by (simp add: recv_process_ack_def Let_def upholds_def)
next
  case False
  then show ?thesis
    using process_ack_new [OF est_ack_to [OF a _ n] est_tcp(1) [OF a]] by simp
qed

lemma recv_ack_keeps:
  assumes a: "est j M V a" and n: "fp_ackno (si_pkt si) \<le> V"
  shows "\<exists>r. recv_ack ev si a = Some r \<and> upholds j M V a si r"
proof -
  define b where "b = note_ce (si_pkt si) (si_datalen si) a"
  define c where "c = (if fa_fastrecov b \<and> (si_datalen si = 0 \<or> fp_ackno (si_pkt si) > fa_highest_ack b)
               then b\<lparr>fa_pipe := i32 (fa_pipe b - fa_maxseg b)\<rparr> else b)"
  have f: "framed a c"
    using framed_trans [OF framed_note_ce framed_simps(6)] framed_note_ce by (simp add: c_def b_def)
  note e = est_framed [OF f a]
  have "recv_ack ev si a = (if fp_ackno (si_pkt si) \<le> fa_highest_ack c then recv_dup_ack ev si c else recv_process_ack ev si c)"
    unfolding recv_ack_def Let_def b_def c_def by (rule refl)
  then show ?thesis
    using dup_ack_keeps [OF e, of ev si] process_ack_keeps [OF e n, of ev] keeps_framed [OF f] by (auto split: if_splits)
qed

section \<open>Data\<close>

text \<open>The queue and what the application gets, once a segment has been added.\<close>

definition take_q :: "rqueue \<Rightarrow> full_agent \<Rightarrow> full_agent" where
  "take_q q a = on_rx (\<lambda>R. (set_rcv q R)\<lparr>fr_delivered := fr_delivered R + (rq_rcv_nxt q - rq_rcv_nxt (fr_q R))\<rparr>) a"

lemma est_take_q:
  assumes a: "est j M V a" and q: "rq_ok q" "ahead q" "flags_in no_fin q" "fa_rcv_nxt a \<le> rq_rcv_nxt q"
    "got q \<subseteq> {..<M}" and M: "M \<le> SEQ_LIMIT"
  shows "est j M V (take_q q a)" "grows a (take_q q a)"
proof -
  let ?b = "take_q q a"
  have k: "fa_conf ?b = fa_conf a" "fa_curseq ?b = fa_curseq a" "fa_tcp ?b = fa_tcp a" "fa_out ?b = fa_out a" "fa_t_seqno ?b = fa_t_seqno a"
    "fa_rcv_nxt ?b = rq_rcv_nxt q" "fr_q (fa_rx ?b) = q" "fa_state ?b = fa_state a" "rx_rcv_nxt (fa_ecn ?b) = rq_rcv_nxt q"
    "fr_delivered (fa_rx ?b) = fr_delivered (fa_rx a) + (rq_rcv_nxt q - fa_rcv_nxt a)" "fa_maxseg ?b = fa_maxseg a"
    "fa_wnd_init_option ?b = fa_wnd_init_option a" "fa_needfin ?b = fa_needfin a" "fa_needclose ?b = fa_needclose a"
    "fa_infinite_send ?b = fa_infinite_send a" "fa_close_on_empty ?b = fa_close_on_empty a" "fa_delsnd_on ?b = fa_delsnd_on a"
    by (simp_all add: take_q_def on_rx_def set_rcv_def)
  show g: "grows a ?b"
    using q(4) by (simp add: grows_def k)
  have "base ?b" "seqs_ok ?b"
    using est_tcp(4) [OF a] by (simp_all add: snd_ok_def base_def iw_ok_def seqs_ok_def k)
  then have "snd_ok j ?b"
    using est_tcp(4) [OF a] q(4) by (simp add: snd_ok_def k)
  moreover have "outs_ok j ?b"
    using outs_mono [OF _ g k(4)] a by (simp add: est_def)
  moreover have "rcvr_ok j M ?b"
    using a q M unfolding est_def rcvr_ok_def rx_ready_def k by auto
  ultimately show "est j M V ?b"
    using a by (simp add: est_def k)
qed

lemma ack_pending_keeps:
  assumes a: "est j M V a"
  obtains b where "ack_pending ev a = Some b" "est j M V b" "grows a b" "fr_q (fa_rx b) = fr_q (fa_rx a)"
proof -
  define flip where "flip = on_ecn (\<lambda>r. r\<lparr>rx_recent_ce := \<not> rx_recent_ce r\<rparr>)"
  have f: "framed b (flip b)" for b
    unfolding flip_def by (rule framed_ecn) simp_all
  have fa: "framed a (flip (set_acknow a))"
    by (rule framed_trans [OF framed_simps(12) f])
  obtain b where b: "send_forced ev (flip (set_acknow a)) = Some b" "est j M V b" "grows (flip (set_acknow a)) b"
    "fr_q (fa_rx b) = fr_q (fa_rx (flip (set_acknow a)))"
    by (rule send_forced_keeps [OF est_framed [OF fa a]])
  have "ack_pending ev a \<in> {Some (flip b), Some a}"
    using b(1) by (simp add: ack_pending_def Let_def flip_def)
  then show ?thesis
    using that a est_framed [OF f b(2)] grows_trans [OF grows_framed [OF fa] grows_trans [OF b(3) grows_framed [OF f]]]
      framed_q [OF fa] framed_q [OF f] b(4) by auto
qed

definition new_seg :: "int \<Rightarrow> full_agent \<Rightarrow> seg_in \<Rightarrow> bool" where
  "new_seg M a si \<longleftrightarrow>
     (let s = fp_seg (si_pkt si); n = si_datalen si
      in \<not> flag_set (si_tiflags si) TH_FIN
         \<and> (n = 0 \<or> 0 < n \<and> \<not> flag_set (ts_flags s) TH_FIN \<and> fa_rcv_nxt a \<le> ts_seqno s \<and> ts_seqno s + n \<le> M
              \<and> i32 (ts_seqno s + ts_size s - ts_hlen s) = ts_seqno s + n))"

lemma take_next_keeps:
  assumes b: "est j M V b" and n: "rq_fifo (fr_q (fa_rx b)) = []" "0 \<le> n" "fa_rcv_nxt b + n \<le> M" and M: "M \<le> SEQ_LIMIT"
  shows "est j M V (take_next n b)" "grows b (take_next n b)"
proof -
  let ?v = "fa_rcv_nxt b"
  have R: "rq_ok (fr_q (fa_rx b))" "ahead (fr_q (fa_rx b))" "flags_in no_fin (fr_q (fa_rx b))" "0 \<le> ?v"
    using b by (simp_all add: est_def rcvr_ok_def rx_ready_def)
  define q where "q = (fr_q (fa_rx b))\<lparr>rq_rcv_nxt := ?v + n\<rparr>"
  have v: "i32 (?v + n) = ?v + n"
    using n R(4) M by (simp add: i32_id SEQ_LIMIT_def)
  have q: "rq_ok q" "ahead q" "flags_in no_fin q" "?v \<le> rq_rcv_nxt q" "got q \<subseteq> {..<M}"
    using R n by (auto simp: q_def rq_ok_def ahead_def flags_in_def got_def covers_def)
  note t = est_take_q [OF b q M]
  have s: "still (take_q q b) (take_next n b)" "fa_maxseq (take_next n b) = fa_maxseq (take_q q b)"
    "fa_out (take_next n b) = fa_out (take_q q b)"
    using v by (simp_all add: still_def core0_def take_q_def take_next_def on_rx_def on_ecn_def set_rcv_nxt_def set_rcv_def q_def Let_def)
  show "est j M V (take_next n b)"
    by (rule est_still [OF s t(1)])
  show "grows b (take_next n b)"
    by (rule grows_trans [OF t(2) grows_moves [OF moves_still [OF s]]])
qed

lemma accept_seg_keeps:
  assumes a: "est j M V a" and si: "new_seg M a si" and M: "M \<le> SEQ_LIMIT"
  obtains si' b where "accept_seg ev si a = Some (si', b)" "est j M V b" "grows a b" "\<not> flag_set (si_tiflags si') TH_FIN"
proof -
  let ?s = "fp_seg (si_pkt si)" and ?n = "si_datalen si" and ?R = "fa_rx a" and ?v = "fa_rcv_nxt a"
  have st: "\<not> have_rcvd_fin (fa_state a)" "synchronised (fa_state a)"
    using est_tcp(5) [OF a] by (simp_all add: have_rcvd_fin_def full_codes synchronised_def)
  have R: "rq_ok (fr_q ?R)" "ahead (fr_q ?R)" "flags_in no_fin (fr_q ?R)" "0 \<le> ?v" "got (fr_q ?R) \<subseteq> {..<M}"
    using a by (simp_all add: est_def rcvr_ok_def rx_ready_def)
  have nofin: "\<not> flag_set (si_tiflags si) TH_FIN"
    using si by (simp_all add: new_seg_def Let_def)
  show ?thesis
  proof (cases "?n = 0")
    case True
    show ?thesis
      by (rule that [of "si\<lparr>si_tiflags := si_tiflags si AND NOT TH_FIN\<rparr>" a])
        (use True nofin a in \<open>simp_all add: accept_seg_def Let_def\<close>)
  next
    case False
    then have n: "0 < ?n" "?v \<le> ts_seqno ?s" "ts_seqno ?s + ?n \<le> M" "i32 (ts_seqno ?s + ts_size ?s - ts_hlen ?s) = ts_seqno ?s + ?n"
      "\<not> flag_set (ts_flags ?s) TH_FIN"
      using si by (auto simp: new_seg_def Let_def)
    show ?thesis
    proof (cases "ts_seqno ?s = ?v \<and> rq_empty (fr_q ?R)")
      case True
      obtain b where b: "ack_pending ev a = Some b" "est j M V b" "grows a b" "fr_q (fa_rx b) = fr_q ?R"
        by (rule ack_pending_keeps [OF a])
      have "est j M V (take_next ?n b)" "grows b (take_next ?n b)"
        using take_next_keeps [OF b(2), of ?n] True n(1,3) M by (simp_all add: b(4) rq_empty_def)
      then have e: "est j M V (take_next ?n b)" "grows a (take_next ?n b)"
        using grows_trans [OF b(3)] by simp_all
      show ?thesis
        by (rule that [of "si\<lparr>si_tiflags := ts_flags ?s AND TH_FIN, si_needoutput := need_send (fa_ecn (take_next ?n b))\<rparr>" "take_next ?n b"])
          (use e b(1) n st True nofin in \<open>simp_all add: accept_seg_def Let_def\<close>)
    next
      case False
      have lt: "ts_seqno ?s < ts_seqno ?s + ?n"
        using n by simp
      obtain f q where r: "reass ?s (fa_state a) (fr_q ?R) = Some (f, q)" and q: "rq_ok q" "ahead q" "flags_in no_fin q"
        "f \<in> no_fin" "got q = got (fr_q ?R) \<union> {ts_seqno ?s..<ts_seqno ?s + ?n}" "?v \<le> rq_rcv_nxt q"
        using reass_ok [OF R(1-3) n(2) lt refl n(4,5) st(2)] by blast
      have g: "got q \<subseteq> {..<M}"
        using q(5) R(5) n by auto
      then have "rq_rcv_nxt q \<le> M"
        by (force simp: got_def subset_iff dest!: spec [of _ "rq_rcv_nxt q - 1"])
      then have d: "i32 (rq_rcv_nxt q - ?v) = rq_rcv_nxt q - ?v"
        using R(4) q(6) M by (simp add: i32_id SEQ_LIMIT_def)
      note t = est_take_q [OF a q(1-3,6) g M]
      have "\<exists>si'. accept_seg ev si a = Some (si', set_acknow (take_q q a)) \<and> si_tiflags si' = f"
        using n st False r d q(6) unfolding accept_seg_def Let_def
        by (auto simp: take_q_def on_rx_def set_rcv_def)
      then obtain si' where "accept_seg ev si a = Some (si', set_acknow (take_q q a))" "si_tiflags si' = f"
        by blast
      then show ?thesis
        using q(4) est_framed [OF framed_simps(12) t(1)] grows_trans [OF t(2) grows_framed [OF framed_simps(12)]]
        by (intro that [of si' "set_acknow (take_q q a)"]) (simp_all add: no_fin_def)
    qed
  qed
qed

lemma step6_keeps:
  assumes a: "est j M V a" and si: "new_seg M a si" and M: "M \<le> SEQ_LIMIT"
  shows "\<exists>b. recv_step6 ev si a = Some b \<and> est j M V b \<and> grows a b"
proof -
  obtain si' b where b: "accept_seg ev si a = Some (si', b)" "est j M V b" "grows a b" "\<not> flag_set (si_tiflags si') TH_FIN"
    by (rule accept_seg_keeps [OF a si M])
  have fin: "fin_seg (si_tiflags si') b = b"
    using b(4) by (simp add: fin_seg_def take_fin_def on_rx_def Let_def)
  obtain c where c: "(if si_needoutput si' \<or> rx_acknow (fa_ecn b) then send_forced ev b
          else if fa_curseq b \<ge> fa_highest_ack b \<or> fa_infinite_send b
          then agent_send_much ev False REASON_NORMAL (fc_maxburst (fa_conf b)) b
          else Some b) = Some c" "est j M V c" "grows b c"
    using send_forced_keeps [OF b(2), of ev] send_much_keeps [OF b(2), of ev False REASON_NORMAL "fc_maxburst (fa_conf b)"] b(2) grows_refl
    by metis
  have "fa_state c \<noteq> TCPS_CLOSE_WAIT_num"
    using est_tcp(5) [OF c(2)] by (simp add: full_codes)
  then have "recv_step6 ev si a = Some c"
    unfolding recv_step6_def b(1) by (simp add: fin c(1))
  then show ?thesis
    using c(2) grows_trans [OF b(3) c(3)] by blast
qed

section \<open>A packet of the peer\<close>

text \<open>The packet as it arrives.\<close>

definition arrival :: "full_pkt \<Rightarrow> seg_in" where
  "arrival p = \<lparr>si_pkt = p, si_datalen = i32 (ts_size (fp_seg p) - ts_hlen (fp_seg p)), si_tiflags = ts_flags (fp_seg p),
     si_dupseg = False, si_needoutput = False\<rparr>"

lemma framed_rx_same: "framed a (a\<lparr>fa_rx := fa_rx a\<rparr>)" "framed a (a\<lparr>fa_rx := ack_now (fa_rx a)\<rparr>)"
  by (simp_all add: framed_def core_def ack_now_def)

lemma recv_trim_nots:
  assumes "\<not> ft_ts_option (fa_tcp a)" "trim_data (fp_seg (si_pkt si)) (si_datalen si) (si_tiflags si) (fa_rx a) = (s, n, fl, R)"
  shows "recv_trim ev si a = Some (if flag_set fl TH_SYN then Drop_with_reset else if \<not> flag_set fl TH_ACK then Drop_pkt else Go_on,
     si\<lparr>si_pkt := (si_pkt si)\<lparr>fp_seg := s\<rparr>, si_datalen := n, si_tiflags := fl,
        si_dupseg := all_old (fp_seg (si_pkt si)) (si_datalen si) (si_tiflags si) (fa_rx a)\<rparr>, a\<lparr>fa_rx := R\<rparr>)"
  using assms by (simp add: recv_trim_def note_ts_def Let_def)

text \<open>Trimming leaves what is new; of a SYN that comes again, only the acknowledgment is left.\<close>

lemma clear_syn [simp]: "\<not> flag_set (x AND NOT TH_SYN) TH_SYN" "\<not> flag_set ((x AND NOT TH_SYN) AND NOT TH_FIN) TH_SYN"
  "flag_set ((x AND NOT TH_SYN) AND NOT TH_FIN) TH_ACK = flag_set x TH_ACK"
  by (simp_all add: flag_set_def full_codes and.assoc)

lemma trim_syn:
  assumes s: "flag_set (ts_flags s) TH_SYN" "\<not> flag_set (ts_flags s) TH_FIN" "0 \<le> ts_seqno s" "ts_seqno s < rq_rcv_nxt (fr_q R)"
    "rq_rcv_nxt (fr_q R) \<le> SEQ_LIMIT"
  shows "\<exists>s'. trim_data s 0 (ts_flags s) R = (s', 0, (ts_flags s AND NOT TH_SYN) AND NOT TH_FIN, ack_now R)"
proof -
  let ?v = "rq_rcv_nxt (fr_q R)"
  have t: "i32 (?v - ts_seqno s) = ?v - ts_seqno s" "i32 (?v - ts_seqno s - 1) = ?v - ts_seqno s - 1" "i32 0 = 0"
    using s by (simp_all add: i32_id SEQ_LIMIT_def)
  have "\<not> flag_set (ts_flags s AND NOT TH_SYN) TH_FIN" "0 < ?v - ts_seqno s - 1 \<or> ?v - ts_seqno s - 1 = 0"
    using s(2,4) by (simp, arith)
  then have c: "0 < ?v - ts_seqno s - 1 \<or> (?v - ts_seqno s - 1 = 0 \<and> \<not> flag_set (ts_flags s AND NOT TH_SYN) TH_FIN)" "0 < ?v - ts_seqno s"
    using s(4) by auto
  show ?thesis
    unfolding trim_data_def t Let_def using s(1) c by (auto simp: t)
qed

lemma arrival_trimmed:
  assumes a: "base a" "j < fa_rcv_nxt a" "fa_rcv_nxt a \<le> M" and b: "0 \<le> j" "M \<le> CUR_LIMIT + 1" and p: "packet_ok j i M V p"
  obtains (gone) si b where "recv_trim ev (arrival p) a = Some (Drop_pkt, si, b)" "framed a b"
  | (left) si b where "recv_trim ev (arrival p) a = Some (Go_on, si, b)" "framed a b" "new_seg M b si"
      "fp_ackno (si_pkt si) = fp_ackno p" "flag_set (ts_flags (fp_seg p)) TH_ACK" "flag_set (si_tiflags si) TH_ACK"
proof -
  let ?s = "fp_seg p" and ?R = "fa_rx a"
  let ?n = "ts_size ?s - ts_hlen ?s" and ?fl = "ts_flags ?s" and ?v = "fa_rcv_nxt a"
  have nts: "\<not> ft_ts_option (fa_tcp a)"
    using a(1) by (simp add: base_def tcp_ok_def)
  have pk: "0 \<le> ts_hlen ?s" "ts_hlen ?s \<le> 1000" "0 \<le> ?n" "?n \<le> 1000000" "\<not> flag_set ?fl TH_FIN"
    "flag_set ?fl TH_SYN \<Longrightarrow> ts_seqno ?s = j \<and> ?n = 0"
    "\<not> flag_set ?fl TH_SYN \<Longrightarrow> 0 < ?n \<Longrightarrow> j < ts_seqno ?s \<and> ts_seqno ?s + ?n \<le> M"
    using p by (simp_all add: packet_ok_def Let_def)
  have n: "i32 ?n = ?n"
    using pk by (simp add: i32_id)
  have v: "0 \<le> ?v" "?v \<le> SEQ_LIMIT"
    using a b by (simp_all add: CUR_LIMIT_def SEQ_LIMIT_def)
  have "\<exists>s n fl R. trim_data ?s ?n ?fl ?R = (s, n, fl, R) \<and> (R = ?R \<or> R = ack_now ?R) \<and> \<not> flag_set fl TH_FIN \<and> \<not> flag_set fl TH_SYN
      \<and> flag_set fl TH_ACK = flag_set ?fl TH_ACK
      \<and> (n = 0 \<or> 0 < n \<and> \<not> flag_set (ts_flags s) TH_FIN \<and> ?v \<le> ts_seqno s \<and> ts_seqno s + n \<le> M
          \<and> i32 (ts_seqno s + ts_size s - ts_hlen s) = ts_seqno s + n)"
  proof (cases "flag_set ?fl TH_SYN")
    case True
    then have "ts_seqno ?s = j" "?n = 0"
      using pk(6) by simp_all
    then show ?thesis
      using trim_syn [of ?s ?R] True pk(5) b(1) a(2) v by auto
  next
    case syn: False
    show ?thesis
    proof (cases "?n = 0")
      case True
      then show ?thesis
        using syn pk(5) by (simp add: trim_data_def Let_def)
    next
      case False
      then have m: "j < ts_seqno ?s" "ts_seqno ?s + ?n \<le> M" "0 < ?n"
        using pk(3,7) syn by auto
      have e: "i32 (ts_seqno ?s + ts_size ?s - ts_hlen ?s) = ts_seqno ?s + ?n"
        using m b by (simp add: i32_id CUR_LIMIT_def)
      have d: "data_seg ?s (ts_seqno ?s) ?n"
        using m pk syn b by (simp add: data_seg_def SEQ_LIMIT_def CUR_LIMIT_def)
      have v': "0 \<le> ?v \<and> ?v \<le> SEQ_LIMIT"
        using v by simp
      show ?thesis
      proof (rule trim_ok [OF v' d])
        assume "?v \<le> ts_seqno ?s" "trim_data ?s ?n ?fl ?R = (?s, ?n, ?fl, ?R)"
        then show ?thesis
          using m e pk(5) syn by auto
      next
        let ?t = "?s\<lparr>ts_seqno := ?v, ts_size := ts_size ?s - (?v - ts_seqno ?s)\<rparr>"
        assume "ts_seqno ?s < ?v" "?v < ts_seqno ?s + ?n"
          and t: "trim_data ?s ?n ?fl ?R = (?t, ts_seqno ?s + ?n - ?v, ?fl, ?R)"
        moreover have "i32 (?v + ts_size ?t - ts_hlen ?t) = ?v + (ts_seqno ?s + ?n - ?v)"
          using e by (simp add: algebra_simps)
        ultimately show ?thesis
          using m pk(5) syn by auto
      next
        fix s'
        assume "trim_data ?s ?n ?fl ?R = (s', 0, ?fl AND NOT TH_FIN, ack_now ?R)"
        then show ?thesis
          using pk(5) syn by auto
      qed
    qed
  qed
  then obtain s m fl R where t: "trim_data ?s ?n ?fl ?R = (s, m, fl, R)" "R = ?R \<or> R = ack_now ?R"
    "\<not> flag_set fl TH_FIN" "\<not> flag_set fl TH_SYN" "flag_set fl TH_ACK = flag_set ?fl TH_ACK"
    "m = 0 \<or> 0 < m \<and> \<not> flag_set (ts_flags s) TH_FIN \<and> ?v \<le> ts_seqno s \<and> ts_seqno s + m \<le> M
          \<and> i32 (ts_seqno s + ts_size s - ts_hlen s) = ts_seqno s + m"
    by blast
  have f: "framed a (a\<lparr>fa_rx := R\<rparr>)"
    using t(2) framed_rx_same by auto
  have "trim_data (fp_seg (si_pkt (arrival p))) (si_datalen (arrival p)) (si_tiflags (arrival p)) (fa_rx a) = (s, m, fl, R)"
    using t(1) by (simp add: arrival_def n)
  note r = recv_trim_nots [OF nts this, of ev]
  show ?thesis
  proof (cases "flag_set fl TH_ACK")
    case False
    then show ?thesis
      using gone [OF _ f] r t(4) by simp
  next
    case True
    have "fr_q R = fr_q ?R"
      using t(2) by (auto simp: ack_now_def)
    then show ?thesis
      using left [OF _ f] r t True by (simp add: new_seg_def Let_def arrival_def)
  qed
qed

section \<open>The slow path\<close>

lemma new_seg_q: "fr_q (fa_rx b) = fr_q (fa_rx a) \<Longrightarrow> new_seg M b si = new_seg M a si"
  by (simp add: new_seg_def)

lemma new_seg_cong:
  "si_pkt si' = si_pkt si \<Longrightarrow> si_datalen si' = si_datalen si \<Longrightarrow> si_tiflags si' = si_tiflags si \<Longrightarrow> new_seg M a si' = new_seg M a si"
  by (simp add: new_seg_def)

lemma leave_keeps:
  assumes "upholds j M V a si r" "new_seg M a si" "M \<le> SEQ_LIMIT"
  shows "\<exists>b. leave ev r = Some b \<and> est j M V b \<and> grows a b"
proof -
  obtain v si' c where r: "r = (v, si', c)"
    by (cases r)
  have c: "est j M V c" "grows a c" "v = Drop_pkt \<or> v = Drop_after_ack \<or> v = Step6"
    "v = Step6 \<Longrightarrow> fr_q (fa_rx c) = fr_q (fa_rx a) \<and> si_pkt si' = si_pkt si \<and> si_datalen si' = si_datalen si \<and> si_tiflags si' = si_tiflags si"
    using assms(1) by (simp_all add: upholds_def r)
  from c(3) consider "v = Drop_pkt" | "v = Drop_after_ack" | "v = Step6"
    by blast
  then show ?thesis
  proof cases
    case 1
    then show ?thesis
      using c by (simp add: leave_def r)
  next
    case 2
    have f: "framed c (set_acknow c)"
      by (rule framed_simps)
    obtain b where b: "send_forced ev (set_acknow c) = Some b" "est j M V b" "grows (set_acknow c) b"
      "fr_q (fa_rx b) = fr_q (fa_rx (set_acknow c))"
      by (rule send_forced_keeps [OF est_framed [OF f c(1)]])
    then show ?thesis
      using 2 grows_trans [OF c(2) grows_trans [OF grows_framed [OF f] b(3)]] by (simp add: leave_def r)
  next
    case 3
    note same = c(4) [OF 3]
    have "new_seg M c si'"
      using assms(2) same new_seg_q [of c a M si'] new_seg_cong [of si' si M a] by simp
    from step6_keeps [OF c(1) this assms(3)] show ?thesis
      using 3 grows_trans [OF c(2)] by (auto simp: leave_def r)
  qed
qed

lemma slow_est:
  assumes a: "est j M V a" and b: "0 \<le> j" "M \<le> CUR_LIMIT + 1" and p: "packet_ok j (fa_iss a) M V p"
  shows "\<exists>b. recv_slow ev (arrival p) a = Some b \<and> est j M V b \<and> grows a b"
proof -
  have st: "fa_state a = TCPS_ESTABLISHED_num"
    by (rule est_tcp(5) [OF a])
  have M: "M \<le> SEQ_LIMIT"
    using b by (simp add: SEQ_LIMIT_def CUR_LIMIT_def)
  have "recv_special ev (arrival p) a = Some (Go_on, arrival p, a)"
    using st by (simp add: recv_special_def full_codes)
  then have r: "recv_slow ev (arrival p) a = Option.bind (recv_trim ev (arrival p) a) (go_to ev (\<lambda>si a. Option.bind (recv_acks ev si a) (leave ev)))"
    by (simp add: recv_slow_def go_to_def)
  have "{..<fa_rcv_nxt a} \<subseteq> {..<M}"
    using a by (auto simp: est_def rcvr_ok_def got_def)
  then have v: "fa_rcv_nxt a \<le> M"
    by simp
  show ?thesis
  proof (rule arrival_trimmed [OF est_tcp(3,6) [OF a] v b p])
    fix si b
    assume "recv_trim ev (arrival p) a = Some (Drop_pkt, si, b)" "framed a b"
    then show ?thesis
      using est_framed [OF _ a] grows_framed by (auto simp: r go_to_def leave_def)
  next
    fix si b
    assume t: "recv_trim ev (arrival p) a = Some (Go_on, si, b)" and f: "framed a b" and si: "new_seg M b si"
      and ack: "fp_ackno (si_pkt si) = fp_ackno p" "flag_set (ts_flags (fp_seg p)) TH_ACK"
    have e: "est j M V b"
      by (rule est_framed [OF f a])
    have "recv_acks ev si b = recv_ack ev si b"
      using est_tcp(5) [OF e] by (simp add: recv_acks_def full_codes)
    moreover have "fp_ackno (si_pkt si) \<le> V"
      using p ack by (simp add: packet_ok_def Let_def)
    from recv_ack_keeps [OF e this, of ev] obtain x where "recv_ack ev si b = Some x" "upholds j M V b si x"
      by blast
    ultimately show ?thesis
      using leave_keeps [OF _ si M, of j V x ev] grows_trans [OF grows_framed [OF f]] t by (auto simp: r go_to_def)
  qed
qed

section \<open>The predicted path\<close>

lemma fast_est:
  assumes a: "est j M V a" and b: "0 \<le> j" "M \<le> CUR_LIMIT + 1" and p: "packet_ok j (fa_iss a) M V p"
  shows "\<exists>r. recv_fast ev p (si_datalen (arrival p)) a = Some r
     \<and> (case r of Inl b \<Rightarrow> est j M V b \<and> grows a b | Inr b \<Rightarrow> framed a b)"
proof (cases "fc_nopredict (fa_conf a) \<or> \<not> predict_ok p a")
  case True
  then show ?thesis
    by (auto simp: recv_fast_def)
next
  case False
  let ?n = "si_datalen (arrival p)" and ?s = "fp_seg p"
  have nts: "note_ts ev p a = a"
    using est_tcp(1) [OF a] by (simp add: note_ts_def tcp_ok_def)
  define c where "c = note_ce p ?n a"
  have f: "framed a c" and ec: "est j M V c" and gc: "grows a c"
    using framed_note_ce est_framed [OF framed_note_ce a] grows_framed [OF framed_note_ce] by (simp_all add: c_def)
  have pr: "ts_flags ?s AND (TH_SYN OR TH_FIN OR TH_ACK) = TH_ACK" "ts_seqno ?s = fa_rcv_nxt a"
    using False by (simp_all add: predict_ok_def)
  have "ts_flags ?s AND TH_SYN = (ts_flags ?s AND (TH_SYN OR TH_FIN OR TH_ACK)) AND TH_SYN"
    by (simp add: full_codes and.assoc)
  also have "\<dots> = 0"
    unfolding pr(1) by (simp add: full_codes)
  finally have syn: "\<not> flag_set (ts_flags ?s) TH_SYN"
    by (simp add: flag_set_def)
  have "ts_flags ?s AND TH_ACK = (ts_flags ?s AND (TH_SYN OR TH_FIN OR TH_ACK)) AND TH_ACK"
    by (simp add: full_codes and.assoc)
  also have "\<dots> \<noteq> 0"
    unfolding pr(1) by (simp add: full_codes)
  finally have ack: "flag_set (ts_flags ?s) TH_ACK"
    by (simp add: flag_set_def)
  have n: "?n = ts_size ?s - ts_hlen ?s" "0 \<le> ?n" "0 < ?n \<Longrightarrow> fa_rcv_nxt a + ?n \<le> M"
    using p syn pr(2) by (auto simp: packet_ok_def Let_def arrival_def i32_id)
  have k: "fp_ackno p \<le> V"
    using p ack by (simp add: packet_ok_def Let_def)
  have q: "fr_q (fa_rx c) = fr_q (fa_rx a)"
    by (rule framed_q [OF f])
  have r: "recv_fast ev p ?n a = (if ?n = 0
           then (if fp_ackno p > fa_highest_ack c \<and> fp_ackno p < fa_maxseq c \<and> ft_cwnd (fa_tcp c) \<ge> ft_wnd (fa_tcp c) \<and> \<not> fa_fastrecov c
                 then do {
                   a \<leftarrow> agent_newack ev p c;
                   a \<leftarrow> agent_send_much ev False REASON_NORMAL (fc_maxburst (fa_conf a)) a;
                   Some (Inl a) }
                 else Some (Inr c))
           else if fp_ackno p = fa_highest_ack c \<and> rq_empty (fr_q (fa_rx c))
           then do {
             a \<leftarrow> ack_pending ev c;
             let a = take_next ?n a;
             a \<leftarrow> (if need_send (fa_ecn a) then send_forced ev a else Some a);
             Some (Inl a) }
           else Some (Inr c))"
    using False unfolding recv_fast_def Let_def nts c_def [symmetric] by presburger
  show ?thesis
  proof (cases "?n = 0")
    case True
    show ?thesis
    proof (cases "fp_ackno p > fa_highest_ack c \<and> fp_ackno p < fa_maxseq c \<and> ft_cwnd (fa_tcp c) \<ge> ft_wnd (fa_tcp c) \<and> \<not> fa_fastrecov c")
      case go: True
      then have "fp_ackno p \<le> fa_maxseq c"
        by simp
      then obtain d where d: "agent_newack ev p c = Some d" "est j M V d" "grows c d"
        using newack_keeps [OF ec _ k] by metis
      obtain e where "agent_send_much ev False REASON_NORMAL (fc_maxburst (fa_conf d)) d = Some e" "est j M V e" "grows d e"
        using send_much_keeps [OF d(2)] by metis
      then show ?thesis
        unfolding r using True go d grows_trans [OF gc grows_trans [OF d(3)]] by simp
    next
      case False
      then show ?thesis
        unfolding r using True f by auto
    qed
  next
    case False
    show ?thesis
    proof (cases "fp_ackno p = fa_highest_ack c \<and> rq_empty (fr_q (fa_rx c))")
      case go: True
      obtain d where d: "ack_pending ev c = Some d" "est j M V d" "grows c d" "fr_q (fa_rx d) = fr_q (fa_rx c)"
        by (rule ack_pending_keeps [OF ec])
      have e: "est j M V (take_next ?n d)" "grows d (take_next ?n d)"
        using take_next_keeps [OF d(2), of ?n] go n False b by (simp_all add: d(4) q rq_empty_def SEQ_LIMIT_def CUR_LIMIT_def)
      obtain g where g: "(if need_send (fa_ecn (take_next ?n d)) then send_forced ev (take_next ?n d) else Some (take_next ?n d)) = Some g"
        "est j M V g" "grows (take_next ?n d) g"
        using send_forced_keeps [OF e(1), of ev] e(1) grows_refl by metis
      show ?thesis
        unfolding r using False go d(1) g(1,2) grows_trans [OF gc grows_trans [OF d(3) grows_trans [OF e(2) g(3)]]] by simp
    next
      case no: False
      then show ?thesis
        unfolding r using False f by auto
    qed
  qed
qed

text \<open>Any packet of the peer keeps an established connection.\<close>

lemma framed_start: "framed a (a\<lparr>fa_last_state := st\<rparr>)"
  by (simp add: framed_def core_def)

lemma framed_alpha: "framed a (on_tcp (update_dctcp_alpha k e) a)"
  by (rule framed_tcp) (simp_all add: update_dctcp_alpha_def Let_def tcp_ok_def timer_ok_def)

lemma recv_begins:
  assumes "tcp_ok (fa_tcp a)" "fa_state a \<noteq> TCPS_CLOSED_num"
  obtains b where "framed a b" "fa_rtx_on b = fa_rtx_on a" "agent_recv ev p a = Option.bind (recv_fast ev p (si_datalen (arrival p)) b)
     (\<lambda>r. case r of Inl c \<Rightarrow> Some c | Inr c \<Rightarrow> recv_slow ev (arrival p) c)"
proof -
  define b where "b = a\<lparr>fa_last_state := fa_state a\<rparr>"
  define c where "c = (if ft_dctcp (fa_tcp b) then on_tcp (update_dctcp_alpha (fp_ackno p) (fp_ecnecho p)) b else b)"
  have f: "framed a b" "framed b c"
    using framed_start framed_alpha by (simp_all add: b_def c_def)
  have d: "dooptions ev p b = b"
    using assms(1) by (simp add: dooptions_def b_def tcp_ok_def)
  have st: "fa_state b \<noteq> TCPS_CLOSED_num"
    using assms(2) by (simp add: b_def)
  have dl: "i32 (ts_size (fp_seg p) - ts_hlen (fp_seg p)) = si_datalen (arrival p)"
    by (simp add: arrival_def)
  have "agent_recv ev p a = Option.bind (recv_fast ev p (si_datalen (arrival p)) c)
     (\<lambda>r. case r of Inl c \<Rightarrow> Some c | Inr c \<Rightarrow> recv_slow ev (arrival p) c)"
    unfolding agent_recv_def Let_def b_def [symmetric] arrival_def [symmetric] using st d
    by (simp add: c_def dl)
  then show ?thesis
    by (intro that [OF framed_trans [OF f]]) (simp_all add: b_def c_def on_tcp_def)
qed

lemma recv_est:
  assumes a: "est j M V a" and b: "0 \<le> j" "M \<le> CUR_LIMIT + 1" and p: "packet_ok j (fa_iss a) M V p"
  shows "\<exists>b. agent_recv ev p a = Some b \<and> est j M V b \<and> grows a b"
proof -
  have "fa_state a \<noteq> TCPS_CLOSED_num"
    using est_tcp(5) [OF a] by (simp add: full_codes)
  then obtain c where c: "framed a c" "fa_rtx_on c = fa_rtx_on a" and r: "agent_recv ev p a = Option.bind (recv_fast ev p (si_datalen (arrival p)) c)
     (\<lambda>r. case r of Inl c \<Rightarrow> Some c | Inr c \<Rightarrow> recv_slow ev (arrival p) c)"
    by (rule recv_begins [OF est_tcp(1) [OF a]])
  have ec: "est j M V c" and gc: "grows a c"
    using est_framed [OF c(1) a] grows_framed [OF c(1)] by simp_all
  then have pc: "packet_ok j (fa_iss c) M V p"
    using p by (simp add: grows_def)
  obtain x where x: "recv_fast ev p (si_datalen (arrival p)) c = Some x"
    "case x of Inl b \<Rightarrow> est j M V b \<and> grows c b | Inr b \<Rightarrow> framed c b"
    using fast_est [OF ec b pc, of ev] by blast
  show ?thesis
  proof (cases x)
    case (Inl d)
    then show ?thesis
      using x r grows_trans [OF gc] by auto
  next
    case (Inr d)
    then have f: "framed c d"
      using x by simp
    then have "packet_ok j (fa_iss d) M V p"
      using pc grows_framed [OF f] by (simp add: grows_def)
    from slow_est [OF est_framed [OF f ec] b this, of ev] show ?thesis
      using x Inr r grows_trans [OF gc grows_trans [OF grows_framed [OF f]]] by auto
  qed
qed

end
