(* ===== verification/Full_Open.thy ===== *)
theory Full_Open
  imports Full_Estab
begin

text \<open>
  The opening of a connection of the full TCP agent (from either side, or from both), its timers, and
  the writes of the application: in every state before closing, each handler returns and keeps the
  connection good.
\<close>

unbundle bit_operations_syntax

section \<open>Opening\<close>

text \<open>Before the connection is established nothing has been received or acknowledged.\<close>

definition unopened :: "full_agent \<Rightarrow> bool" where
  "unopened a \<longleftrightarrow> base a \<and> rq_ok (fr_q (fa_rx a)) \<and> rq_fifo (fr_q (fa_rx a)) = [] \<and> fr_delivered (fa_rx a) = 0
     \<and> \<not> rx_delack (fa_ecn a) \<and> fa_highest_ack a = - 1"

definition fresh :: "full_agent \<Rightarrow> bool" where
  "fresh a \<longleftrightarrow> unopened a \<and> (fa_state a = TCPS_CLOSED_num \<or> fa_state a = TCPS_LISTEN_num) \<and> \<not> fa_rtx_on a
     \<and> fa_maxseq a = - 1 \<and> fa_rcv_nxt a = - 1"

definition syn_out :: "int \<Rightarrow> int \<Rightarrow> full_agent \<Rightarrow> bool" where
  "syn_out j M a \<longleftrightarrow> unopened a \<and> fa_maxseq a = fa_iss a + 1 \<and> fa_t_seqno a = fa_iss a + 1
     \<and> (fa_state a = TCPS_SYN_SENT_num \<and> fa_rcv_nxt a = - 1
        \<or> fa_state a = TCPS_SYN_RECEIVED_num \<and> fa_rcv_nxt a = j + 1 \<and> j < M)"

definition conn :: "int \<Rightarrow> int \<Rightarrow> int \<Rightarrow> full_agent \<Rightarrow> bool" where
  "conn j M V a \<longleftrightarrow> outs_ok j a \<and> (fresh a \<or> syn_out j M a \<or> est j M V a)"

text \<open>The SYN goes out, in either state of opening.\<close>

lemma unopened_cong:
  "core0 b = core0 a \<Longrightarrow> rx_delack (fa_ecn b) = rx_delack (fa_ecn a) \<Longrightarrow> base b \<Longrightarrow> unopened a \<Longrightarrow> unopened b"
  by (simp add: unopened_def core0_def)

lemma syn_goes:
  assumes a: "unopened a" "outs_ok j a" and t: "fa_t_seqno a = fa_iss a" "fa_maxseq a \<le> fa_iss a + 1"
    and st: "fa_state a = TCPS_SYN_SENT_num \<and> fa_rcv_nxt a = - 1
        \<or> fa_state a = TCPS_SYN_RECEIVED_num \<and> fa_rcv_nxt a = j + 1 \<and> j < M"
  obtains b where "agent_send_much ev True reason mb a = Some b" "conn j M V b" "grows a b" "fa_state b = fa_state a"
proof -
  have s: "syn_ok j a"
    using a st by (auto simp: syn_ok_def unopened_def in_handshake_def full_codes)
  obtain b where b: "agent_send_much ev True reason mb a = Some b" "moves_on j a b" "fa_t_seqno b = fa_iss a + 1"
    "fa_maxseq b = max (fa_maxseq a) (fa_iss a + 1)" "\<not> rx_delack (fa_ecn b)"
    by (rule send_syn [OF s t(1)])
  have k: "core0 b = core0 a"
    using b(2) by (simp add: moves_on_def)
  then have k': "fa_conf b = fa_conf a" "fa_state b = fa_state a" "fa_rcv_nxt b = fa_rcv_nxt a"
    by (simp_all add: core0_def)
  have "unopened b"
    using a(1) b(5) base_moves [OF b(2)] by (intro unopened_cong [OF k]) (simp_all add: unopened_def)
  then have "syn_out j M b"
    using st b t by (simp add: syn_out_def k')
  moreover have "outs_ok j b"
    using b(2) a(2) by (simp add: moves_on_def)
  ultimately show ?thesis
    using that b(1) grows_moves [OF b(2)] k'(2) by (simp add: conn_def)
qed

text \<open>A SYN arrives: its number is noted, and what has to be sent is the SYN of this side.\<close>

lemma init_rcv_ok:
  assumes a: "unopened a" "outs_ok j a" and p: "ts_seqno (fp_seg p) = j" "0 \<le> j" "j \<le> CUR_LIMIT"
    and v: "fa_rcv_nxt a = - 1"
  shows "unopened (init_rcv p 0 a)" "outs_ok j (init_rcv p 0 a)" "fa_rcv_nxt (init_rcv p 0 a) = j + 1"
    "fa_tcp (init_rcv p 0 a) = fa_tcp a" "fa_conf (init_rcv p 0 a) = fa_conf a" "fa_t_seqno (init_rcv p 0 a) = fa_t_seqno a"
    "fa_curseq (init_rcv p 0 a) = fa_curseq a"
proof -
  let ?b = "init_rcv p 0 a"
  have k: "fa_tcp ?b = fa_tcp a" "fa_conf ?b = fa_conf a" "fa_t_seqno ?b = fa_t_seqno a" "fa_out ?b = fa_out a"
    "fa_curseq ?b = fa_curseq a"
    "rx_rcv_nxt (fa_ecn ?b) = fa_rcv_nxt ?b" "rx_delack (fa_ecn ?b) = rx_delack (fa_ecn a)" "fa_maxseg ?b = fa_maxseg a"
    "rq_fifo (fr_q (fa_rx ?b)) = rq_fifo (fr_q (fa_rx a))" "fr_delivered (fa_rx ?b) = fr_delivered (fa_rx a)"
    "fa_wnd_init_option ?b = fa_wnd_init_option a" "fa_needfin ?b = fa_needfin a" "fa_needclose ?b = fa_needclose a"
    "fa_infinite_send ?b = fa_infinite_send a" "fa_close_on_empty ?b = fa_close_on_empty a" "fa_delsnd_on ?b = fa_delsnd_on a"
    "rq_ok (fr_q (fa_rx ?b)) = rq_ok (fr_q (fa_rx a))"
    by (simp_all add: init_rcv_def set_rcv_nxt_def on_ecn_def on_rx_def set_rcv_def rq_ok_def)
  show v': "fa_rcv_nxt ?b = j + 1"
    using p by (simp add: init_rcv_def set_rcv_nxt_def on_ecn_def on_rx_def set_rcv_def i32_id CUR_LIMIT_def)
  show "fa_tcp ?b = fa_tcp a" "fa_conf ?b = fa_conf a" "fa_t_seqno ?b = fa_t_seqno a" "fa_curseq ?b = fa_curseq a"
    using k by simp_all
  show "unopened ?b"
    using a(1) by (simp add: unopened_def base_def iw_ok_def k)
  have "grows a ?b"
    using v v' p by (simp add: grows_def k)
  then show "outs_ok j ?b"
    by (rule outs_mono [OF a(2) _ k(4)])
qed

lemma init_ecn: "rx_ecn (fa_ecn (init_rcv p n a)) = rx_ecn (fa_ecn a)"
  by (simp add: init_rcv_def set_rcv_nxt_def on_ecn_def on_rx_def set_rcv_def)

lemma flagless_pkt: "base a \<Longrightarrow> packet_ok i j M V (pkt_of ev s 0 0 0 reason a)"
  by (rule pkt_ok_of) simp_all

lemma moves_flagless:
  assumes "base a"
  shows "moves_on j a (send_pkt ev s 0 0 0 reason a)" "rx_delack (fa_ecn (send_pkt ev s 0 0 0 reason a)) = rx_delack (fa_ecn a)"
    "fa_rtx_on (send_pkt ev s 0 0 0 reason a) = fa_rtx_on a" "fa_maxseq (send_pkt ev s 0 0 0 reason a) = fa_maxseq a"
    "fa_t_seqno (send_pkt ev s 0 0 0 reason a) = fa_t_seqno a"
  by (rule moves_send [OF still_send, where p = "pkt_of ev s 0 0 0 reason a"])
    (use flagless_pkt [OF assms] in \<open>simp_all add: send_pkt_def on_ecn_def on_rx_def Let_def\<close>)

lemma conn_moves:
  assumes c: "conn j M V a" "\<not> est j M V a" and m: "moves_on j a b" "rx_delack (fa_ecn b) = rx_delack (fa_ecn a)"
    "fa_rtx_on a \<or> \<not> fa_rtx_on b" "fa_maxseq b = fa_maxseq a" "fa_t_seqno b = fa_t_seqno a"
  shows "conn j M V b" "grows a b"
proof -
  show "grows a b"
    by (rule grows_moves [OF m(1)])
  have k: "core0 b = core0 a"
    using m(1) by (simp add: moves_on_def)
  then have k': "fa_conf b = fa_conf a" "fa_state b = fa_state a" "fa_rcv_nxt b = fa_rcv_nxt a"
    by (simp_all add: core0_def)
  have "unopened b" if "unopened a"
    using that base_moves [OF m(1)] by (intro unopened_cong [OF k m(2)]) (simp_all add: unopened_def)
  then have "fresh b \<or> syn_out j M b"
    using c m by (auto simp: conn_def fresh_def syn_out_def k')
  then show "conn j M V b"
    using c(1) m(1) by (auto simp: conn_def moves_on_def)
qed

lemma newstate_simps [simp]:
  "fa_state (newstate st a) = st" "unopened (newstate st a) = unopened a" "outs_ok j (newstate st a) = outs_ok j a"
  "fa_t_seqno (newstate st a) = fa_t_seqno a" "fa_tcp (newstate st a) = fa_tcp a" "fa_conf (newstate st a) = fa_conf a"
  "fr_q (fa_rx (newstate st a)) = fr_q (fa_rx a)" "fa_curseq (newstate st a) = fa_curseq a" "fa_ecn (newstate st a) = fa_ecn a"
  by (simp_all add: newstate_def on_rx_def unopened_def base_def iw_ok_def outs_ok_def)

lemma seqno_simps [simp]: "unopened (a\<lparr>fa_t_seqno := i\<rparr>) = unopened a" "outs_ok j (a\<lparr>fa_t_seqno := i\<rparr>) = outs_ok j a"
  by (simp_all add: unopened_def base_def iw_ok_def outs_ok_def)

lemma unopened_framed: "framed a b \<Longrightarrow> unopened a \<Longrightarrow> unopened b"
  by (rule unopened_cong [of b a]) (auto simp: framed_def core_core0 unopened_def intro: base_framed [unfolded framed_def core_core0])

lemma outs_framed: "framed a b \<Longrightarrow> outs_ok j a \<Longrightarrow> outs_ok j b"
  using moves_framed [of a b j] by (simp add: moves_on_def)

lemma step6_syn:
  assumes b: "unopened b" "outs_ok j b" "fa_t_seqno b = fa_iss b" "fa_maxseq b \<le> fa_iss b + 1"
    "fa_state b = TCPS_SYN_RECEIVED_num" "fa_rcv_nxt b = j + 1" "j < M" "rx_acknow (fa_ecn b)"
    and si: "si_datalen si = 0" "\<not> flag_set (si_tiflags si) TH_FIN"
  shows "\<exists>c. recv_step6 ev si b = Some c \<and> conn j M V c \<and> grows b c"
proof -
  have st: "fa_state b = TCPS_SYN_SENT_num \<and> fa_rcv_nxt b = - 1
        \<or> fa_state b = TCPS_SYN_RECEIVED_num \<and> fa_rcv_nxt b = j + 1 \<and> j < M"
    using b by simp
  obtain c where c: "agent_send_much ev True REASON_NORMAL (fc_maxburst (fa_conf b)) b = Some c" "conn j M V c" "grows b c" "fa_state c = fa_state b"
    by (rule syn_goes [OF b(1,2,3,4) st, where ev = ev and reason = REASON_NORMAL and mb = "fc_maxburst (fa_conf b)"])
  have "accept_seg ev si b = Some (si\<lparr>si_tiflags := si_tiflags si AND NOT TH_FIN\<rparr>, b)"
    using si by (simp add: accept_seg_def Let_def)
  moreover have "fin_seg (si_tiflags si AND NOT TH_FIN) b = b"
    using clear_fin [of "si_tiflags si"] by (simp add: fin_seg_def take_fin_def on_rx_def Let_def)
  ultimately have "recv_step6 ev si b = Some c"
    using c(1,4) b(5,8) by (simp add: recv_step6_def send_forced_def full_codes)
  then show ?thesis
    using c by blast
qed

lemma listen_keeps:
  assumes a: "fresh a" "outs_ok j a" "fa_state a = TCPS_LISTEN_num" and j: "0 \<le> j" "M \<le> CUR_LIMIT + 1" and p: "packet_ok j i M V p"
  shows "\<exists>b. recv_slow ev (arrival p) a = Some b \<and> conn j M V b \<and> grows a b"
proof -
  let ?s = "fp_seg p" and ?k = "\<lambda>si a. Option.bind (recv_trim ev si a) (go_to ev (\<lambda>si a. Option.bind (recv_acks ev si a) (leave ev)))"
  have ua: "unopened a" "base a" "fa_maxseq a = - 1" "fa_rcv_nxt a = - 1"
    using a by (simp_all add: fresh_def unopened_def)
  have ca: "conn j M V a" "\<not> est j M V a"
    using a by (auto simp: conn_def est_def snd_ok_def full_codes)
  have r: "recv_slow ev (arrival p) a = Option.bind (recv_listen ev (arrival p) a) (go_to ev ?k)"
    using a by (simp add: recv_slow_def recv_special_def)
  have si: "si_pkt (arrival p) = p" "si_tiflags (arrival p) = ts_flags ?s"
    by (simp_all add: arrival_def)
  show ?thesis
  proof (cases "flag_set (ts_flags ?s) TH_ACK \<or> \<not> flag_set (ts_flags ?s) TH_SYN")
    case True
    have "conn j M V (send_pkt ev s 0 0 0 re a)" "grows a (send_pkt ev s 0 0 0 re a)" for s re
      using conn_moves [OF ca moves_flagless(1,2) [OF ua(2)]] moves_flagless(3-5) [OF ua(2)] by simp_all
    then show ?thesis
      using True ca by (auto simp: r recv_listen_def Let_def si go_to_def leave_def drop_with_reset_def)
  next
    case False
    then have syn: "ts_seqno ?s = j" "si_datalen (arrival p) = 0" "j < M"
      using p by (simp_all add: packet_ok_def Let_def arrival_def i32_def)
    have d: "dooptions ev p a = a"
      using ua(2) by (simp add: dooptions_def base_def tcp_ok_def)
    have jl: "j \<le> CUR_LIMIT"
      using syn j by simp
    note i = init_rcv_ok [OF ua(1) a(2) syn(1) j(1) jl ua(4)]
    define c where "c = (init_rcv p 0 a)\<lparr>fa_t_seqno := fa_iss a\<rparr>"
    define e where "e = (if rx_ecn (fa_ecn (set_acknow c)) \<and> fp_ecnecho p \<and> fp_cwr p then set_ect (set_acknow c) else set_acknow c)"
    define b where "b = newstate TCPS_SYN_RECEIVED_num e"
    have f: "framed c e"
      using framed_trans [OF framed_simps(12,13)] framed_simps(12) by (simp add: e_def)
    have ack: "rx_acknow (fa_ecn b)"
      by (simp add: b_def e_def set_acknow_def set_ect_def on_ecn_def on_rx_def ack_now_def)
    have l: "recv_listen ev (arrival p) a = Some (Step6, next_seqno (arrival p), b)"
      using False syn by (simp add: recv_listen_def Let_def si d trim_step_def b_def e_def c_def) (simp add: init_rcv_def set_rcv_nxt_def on_ecn_def on_rx_def)
    have c: "unopened c" "outs_ok j c" "fa_rcv_nxt c = j + 1" "fa_tcp c = fa_tcp a" "fa_conf c = fa_conf a" "fa_curseq c = fa_curseq a"
      "fa_t_seqno c = fa_iss a"
      using i by (simp_all add: c_def)
    have e: "unopened e" "outs_ok j e" "fa_rcv_nxt e = j + 1" "fa_maxseq e = - 1" "fa_conf e = fa_conf a" "fa_curseq e = fa_curseq a"
      "fa_t_seqno e = fa_iss a"
      using unopened_framed [OF f c(1)] outs_framed [OF f c(2)] f c(3-7) ua(3) by (simp_all add: framed_def core_def)
    have "0 \<le> fa_iss a"
      using iss_bounds [OF ua(2)] by simp
    moreover have "\<not> flag_set (ts_flags ?s) TH_FIN"
      using p by (simp add: packet_ok_def Let_def)
    ultimately have "\<exists>d. recv_step6 ev (next_seqno (arrival p)) b = Some d \<and> conn j M V d \<and> grows b d"
      using e ack syn by (intro step6_syn) (simp_all add: b_def next_seqno_def si)
    then obtain d where d: "recv_step6 ev (next_seqno (arrival p)) b = Some d" "conn j M V d" "grows b d"
      by blast
    have "grows a b"
      using ua(3,4) e j(1) by (simp add: grows_def b_def)
    from grows_trans [OF this d(3)] show ?thesis
      using d(1,2) by (simp add: r l go_to_def leave_def)
  qed
qed

text \<open>A dropped packet, answered or not, before the connection is established.\<close>

lemma drop_keeps:
  assumes c: "conn j M V a" "\<not> est j M V a" "base a" and v: "v = Drop_pkt \<or> v = Drop_with_reset \<and> flag_set (si_tiflags si) TH_ACK"
  shows "\<exists>b. leave ev (v, si, a) = Some b \<and> conn j M V b \<and> grows a b"
  using v conn_moves [OF c(1,2) moves_flagless(1,2) [OF c(3)]] moves_flagless(3-5) [OF c(3)] c(1)
  by (auto simp: leave_def drop_with_reset_def Let_def)

text \<open>The SYN of the peer with the acknowledgment of ours: the connection is established.\<close>

lemma est_of_syn:
  assumes u: "unopened a" "outs_ok j a" and q: "fa_rcv_nxt a = j + 1" "0 \<le> j" "j < M" "M \<le> SEQ_LIMIT"
    and s: "fa_maxseq a = fa_iss a + 1" "fa_t_seqno a = fa_iss a + 1" and n: "n = fa_iss a + 1" "n \<le> V"
    and st: "fa_state a = TCPS_ESTABLISHED_num"
  shows "est j M V (ack_to n a)"
proof -
  let ?b = "ack_to n a"
  have i: "0 \<le> fa_iss a" and ba: "base a" and h: "fa_highest_ack a = - 1"
    using u iss_bounds [of a] by (simp_all add: unopened_def)
  have k: "fa_conf ?b = fa_conf a" "fa_curseq ?b = fa_curseq a" "fa_rx ?b = fa_rx a" "fa_out ?b = fa_out a"
    "fa_maxseq ?b = fa_iss a + 1" "fa_highest_ack ?b = fa_iss a + 1" "fa_t_seqno ?b = fa_iss a + 1"
    using i h s n by (simp_all add: ack_to_def on_tcp_def)
  have "base ?b"
    using ba by (simp add: base_def ack_to_def on_tcp_def tcp_ok_def timer_ok_def iw_ok_def)
  moreover have "seqs_ok ?b"
    by (simp add: seqs_ok_def k)
  ultimately have "snd_ok j ?b"
    using st q by (simp add: snd_ok_def k)
  moreover have "outs_ok j ?b"
    using u(2) s by (simp add: outs_ok_def k)
  moreover have "rcvr_ok j M ?b"
    using u q st ba by (auto simp: rcvr_ok_def rx_ready_def unopened_def base_def k got_def covers_def ahead_def flags_in_def synchronised_def)
  moreover have "fa_highest_ack ?b \<le> V"
    using n k(6) by linarith
  ultimately show ?thesis
    by (simp add: est_def)
qed

lemma sent_keeps:
  assumes a: "syn_out j M a" "outs_ok j a" "fa_state a = TCPS_SYN_SENT_num" and j: "0 \<le> j" "M \<le> CUR_LIMIT + 1" and p: "packet_ok j (fa_iss a) M V p"
  shows "\<exists>b. recv_slow ev (arrival p) a = Some b \<and> conn j M V b \<and> grows a b"
proof -
  let ?s = "fp_seg p" and ?k = "\<lambda>si a. Option.bind (recv_trim ev si a) (go_to ev (\<lambda>si a. Option.bind (recv_acks ev si a) (leave ev)))"
  let ?fl = "ts_flags ?s" and ?n = "fp_ackno p"
  have ua: "unopened a" "base a" "fa_maxseq a = fa_iss a + 1" "fa_t_seqno a = fa_iss a + 1" "fa_rcv_nxt a = - 1"
    using a by (auto simp: syn_out_def unopened_def full_codes)
  have ca: "conn j M V a" "\<not> est j M V a"
    using a by (auto simp: conn_def est_def snd_ok_def full_codes)
  have r: "recv_slow ev (arrival p) a = Option.bind (recv_syn_sent ev (arrival p) a) (go_to ev ?k)"
    using a by (simp add: recv_slow_def recv_special_def full_codes)
  have si: "si_pkt (arrival p) = p" "si_tiflags (arrival p) = ?fl"
    by (simp_all add: arrival_def)
  have cf: "fc_ecn_syn_wait (fa_conf a) = 0" "\<not> fa_needfin a"
    using ua(2) by (simp_all add: base_def conf_ok_def)
  show ?thesis
  proof (cases "flag_set ?fl TH_ACK \<and> (?n \<le> fa_iss a \<or> ?n > fa_maxseq a) \<or> \<not> flag_set ?fl TH_SYN")
    case True
    then have "\<exists>v. recv_syn_sent ev (arrival p) a = Some (v, arrival p, a) \<and> (v = Drop_pkt \<or> v = Drop_with_reset \<and> flag_set ?fl TH_ACK)"
      by (auto simp: recv_syn_sent_def Let_def si)
    then obtain v where v: "recv_syn_sent ev (arrival p) a = Some (v, arrival p, a)"
      "v = Drop_pkt \<or> v = Drop_with_reset \<and> flag_set (si_tiflags (arrival p)) TH_ACK"
      by (auto simp: si)
    have "go_to ev ?k (v, arrival p, a) = leave ev (v, arrival p, a)"
      using v(2) by (auto simp: go_to_def)
    then show ?thesis
      using drop_keeps [OF ca ua(2) v(2), of ev] by (simp add: r v(1))
  next
    case False
    then have syn: "ts_seqno ?s = j" "si_datalen (arrival p) = 0" "j < M" "\<not> flag_set ?fl TH_FIN" "flag_set ?fl TH_SYN"
      and ack: "flag_set ?fl TH_ACK \<Longrightarrow> ?n = fa_iss a + 1 \<and> ?n \<le> V"
      using p ua(3) by (auto simp: packet_ok_def Let_def arrival_def i32_def)
    have jl: "j \<le> CUR_LIMIT"
      using syn j by simp
    define c where "c = init_rcv p 0 a"
    have c: "unopened c" "outs_ok j c" "fa_rcv_nxt c = j + 1" "fa_tcp c = fa_tcp a" "fa_conf c = fa_conf a" "fa_curseq c = fa_curseq a"
      "fa_t_seqno c = fa_iss a + 1"
      using init_rcv_ok [OF ua(1) a(2) syn(1) j(1) jl ua(5)] ua(4) by (simp_all add: c_def)
    have gc: "grows a c"
      using ua(5) c j(1) by (simp add: grows_def)
    show ?thesis
    proof (cases "flag_set ?fl TH_ACK")
      case False
      define d where "d = (if rx_ecn (fa_ecn c) \<and> fp_ecnecho p \<and> fp_cwr p then set_ect c else c)"
      define e where "e = cancel_rtx_timer (set_acknow d)"
      define b where "b = (newstate TCPS_SYN_RECEIVED_num e)\<lparr>fa_t_seqno := i32 (fa_t_seqno e - 1)\<rparr>"
      have f: "framed c e"
        using framed_trans [OF framed_simps(13) framed_trans [OF framed_simps(12) framed_simps(1)]]
          framed_trans [OF framed_simps(12) framed_simps(1)] by (simp add: e_def d_def)
      have e: "unopened e" "outs_ok j e" "fa_rcv_nxt e = j + 1" "fa_maxseq e = fa_iss a + 1" "fa_conf e = fa_conf a" "fa_curseq e = fa_curseq a"
        "fa_t_seqno e = fa_iss a + 1"
        using unopened_framed [OF f c(1)] outs_framed [OF f c(2)] f c(3-7) ua(3) by (simp_all add: framed_def core_def)
      have ts: "fa_t_seqno b = fa_iss a"
        using e(7) iss_bounds [OF ua(2)] by (simp add: b_def i32_id)
      have ac: "rx_acknow (fa_ecn b)"
        by (simp add: b_def e_def cancel_rtx_timer_def set_acknow_def on_rx_def ack_now_def)
      have l: "recv_syn_sent ev (arrival p) a = Some (Step6, next_seqno (arrival p), b)"
        using False syn ua(2) cf
        by (simp add: recv_syn_sent_def Let_def si trim_step_def b_def e_def d_def c_def init_ecn cong: if_cong)
      have "\<exists>g. recv_step6 ev (next_seqno (arrival p)) b = Some g \<and> conn j M V g \<and> grows b g"
        using e ac ts syn by (intro step6_syn) (simp_all add: b_def next_seqno_def si)
      then obtain g where g: "recv_step6 ev (next_seqno (arrival p)) b = Some g" "conn j M V g" "grows b g"
        by blast
      have "grows a b"
        using ua(3,5) e j(1) by (simp add: grows_def b_def)
      from grows_trans [OF this g(3)] show ?thesis
        using g(1,2) by (simp add: r l go_to_def leave_def)
    next
      case True
      define d where "d = syn_marks p c"
      have "framed x (on_ecn (\<lambda>r. r\<lparr>rx_recent_ce := True\<rparr>) x)" for x
        by (rule framed_ecn) simp_all
      then have f: "framed c d"
        using framed_trans [OF framed_simps(13)] framed_simps(13) by (simp add: d_def syn_marks_def Let_def)
      have d: "unopened d" "outs_ok j d" "fa_rcv_nxt d = j + 1" "fa_maxseq d = fa_iss a + 1" "fa_conf d = fa_conf a" "fa_curseq d = fa_curseq a"
        "fa_t_seqno d = fa_iss a + 1" "fa_highest_ack d = - 1" "\<not> fa_needfin d"
        using unopened_framed [OF f c(1)] outs_framed [OF f c(2)] f c ua(3) by (simp_all add: framed_def core_def unopened_def base_def)
      have n: "?n = fa_iss d + 1" "?n \<le> V"
        using ack [OF True] d(5) by simp_all
      define g where "g = ack_to ?n (newstate TCPS_ESTABLISHED_num d)"
      have Ml: "M \<le> SEQ_LIMIT"
        using j by (simp add: SEQ_LIMIT_def CUR_LIMIT_def)
      have g: "est j M V g"
        unfolding g_def by (rule est_of_syn) (use d n j syn Ml in simp_all)
      obtain w where w: "initial_window d = Some w" "0 < w"
        using d(1) by (auto simp: unopened_def base_def intro: initial_window_ok)
      define h where "h = set_acknow (set_cwnd w g)"
      have fh: "framed g h"
        using framed_trans [OF framed_set_cwnd [OF w(2)] framed_simps(12)] by (simp add: h_def)
      have h: "est j M V h" "fa_conf h = fa_conf a"
        using est_framed [OF fh g] fh d(5) by (simp_all add: framed_def core_def g_def ack_to_def on_tcp_def)
      define e where "e = send_pkt ev (fa_t_seqno h) (fa_rcv_nxt h) TH_ACK 0 0 h"
      have m: "moves_on j h e" "fa_maxseq e = fa_maxseq h"
      proof -
        have "packet_ok (fa_iss h) j (fa_maxseq h) (fa_rcv_nxt h) (pkt_of ev (fa_t_seqno h) (fa_rcv_nxt h) TH_ACK 0 0 h)"
          using est_tcp(6) [OF h(1)] by (intro pkt_ok_of [OF est_tcp(3) [OF h(1)]]) simp_all
        then show "moves_on j h e" "fa_maxseq e = fa_maxseq h"
          unfolding e_def by (intro moves_send [OF still_send, where p = "pkt_of ev (fa_t_seqno h) (fa_rcv_nxt h) TH_ACK 0 0 h"];
            simp add: send_pkt_def on_ecn_def on_rx_def Let_def)
            (simp add: send_pkt_def on_ecn_def on_rx_def Let_def)
      qed
      have e: "est j M V e"
        using est_moves [OF h(1) m(1)] snd_still [of h e] still_send m(2) est_tcp(4) [OF h(1)] by (simp add: e_def)
      have ge: "grows a e"
        using grows_trans [OF gc grows_trans [OF grows_framed [OF f]]] grows_trans [OF grows_framed [OF fh] grows_moves [OF m(1)]]
          grows_trans [of d g] by (simp add: grows_def g_def ack_to_def on_tcp_def)
      define u where "u = on_tcp (\<lambda>s. s\<lparr>ft_highest_ack := ?n\<rparr>) d"
      have iw: "initial_window d = initial_window u"
        by (simp add: u_def initial_window_def on_tcp_def)
      have "fa_needfin (set_acknow (set_cwnd w u)) = fa_needfin d"
        by (simp add: u_def on_tcp_def set_acknow_def set_cwnd_def on_rx_def)
      then have u: "initial_window u = Some w" "\<not> fa_needfin (set_acknow (set_cwnd w u))"
        using iw w(1) d(9) by simp_all
      have h': "newstate TCPS_ESTABLISHED_num (set_acknow (set_cwnd w u)) = h"
        using d(7,8) n iss_bounds [OF ua(2)]
        by (simp add: h_def g_def u_def ack_to_def on_tcp_def newstate_def set_acknow_def set_cwnd_def on_rx_def ack_now_def d(5))
      have l: "recv_syn_sent ev (arrival p) a = Some (Process_ack, next_seqno (arrival p), e)"
      proof -
        have "recv_syn_sent ev (arrival p) a = syn_sent_acked ev (arrival p) c"
          using True syn n(1) d(5) ua(3) cf by (simp add: recv_syn_sent_def Let_def si c_def)
        also have "\<dots> = trim_step (arrival p) e"
          unfolding syn_sent_acked_def Let_def si d_def [symmetric] u_def [symmetric] using u
          by (simp add: syn(2) h' e_def)
        also have "\<dots> = Some (Process_ack, next_seqno (arrival p), e)"
          using True by (simp add: trim_step_def si)
        finally show ?thesis .
      qed
      have "fp_ackno (si_pkt (next_seqno (arrival p))) \<le> V"
        using n by (simp add: next_seqno_def arrival_def)
      from process_ack_keeps [OF e this, of ev] obtain x where
        x: "recv_process_ack ev (next_seqno (arrival p)) e = Some x" "upholds j M V e (next_seqno (arrival p)) x"
        by blast
      have "new_seg M e (next_seqno (arrival p))"
        using syn by (simp add: new_seg_def next_seqno_def si Let_def)
      from leave_keeps [OF x(2) this Ml, of ev] show ?thesis
        using x(1) grows_trans [OF ge] by (auto simp: r l go_to_def conn_def est_def)
    qed
  qed
qed

text \<open>The ACK of our SYN, with or without data.\<close>

lemma syn_out_framed:
  assumes f: "framed a b" and a: "syn_out j M a"
  shows "syn_out j M b"
proof -
  have k: "fa_conf b = fa_conf a" "fa_maxseq b = fa_maxseq a" "fa_t_seqno b = fa_t_seqno a" "fa_state b = fa_state a" "fa_rcv_nxt b = fa_rcv_nxt a"
    using f by (simp_all add: framed_def core_def)
  show ?thesis
    using a unopened_framed [OF f] unfolding syn_out_def k by blast
qed

lemma syn_acked_ok:
  assumes a: "conf_ok (fa_conf a)" "tcp_ok (fa_tcp a)" "iw_ok a" "\<not> fa_needfin a" "fa_highest_ack a \<le> fp_ackno (si_pkt si)"
    "fp_ackno (si_pkt si) \<le> fa_maxseq a"
  obtains b where "recv_syn_acked ev si a = Some (Go_on, si, newstate TCPS_ESTABLISHED_num b)" "framed a b"
proof -
  obtain w where w: "initial_window a = Some w" "0 < w"
    by (rule initial_window_ok [OF a(1-3)])
  have wait: "fc_ecn_syn_wait (fa_conf a) = 0"
    using a(1) by (simp add: conf_ok_def)
  define v where "v = (if rx_ecn (fa_ecn a) \<and> rx_ect (fa_ecn a) \<and> fc_ecn_syn (fa_conf a) \<and> fp_ecnecho (si_pkt si) then 2 else w)"
  have "framed a (set_cwnd v a)"
    using w by (intro framed_set_cwnd) (simp add: v_def)
  moreover have nf: "\<not> fa_needfin (set_cwnd x a)" for x
    using a(4) by (simp add: set_cwnd_def on_tcp_def)
  have "recv_syn_acked ev si a = Some (Go_on, si, newstate TCPS_ESTABLISHED_num (set_cwnd v a))"
    using a(5,6) by (auto simp: recv_syn_acked_def Let_def wait w(1) v_def nf)
  ultimately show ?thesis
    using that by blast
qed

lemma received_keeps:
  assumes a: "syn_out j M a" "outs_ok j a" "fa_state a = TCPS_SYN_RECEIVED_num" and j: "0 \<le> j" "M \<le> CUR_LIMIT + 1" and p: "packet_ok j (fa_iss a) M V p"
  shows "\<exists>b. recv_slow ev (arrival p) a = Some b \<and> conn j M V b \<and> grows a b"
proof -
  have ua: "unopened a" "base a" "fa_maxseq a = fa_iss a + 1" "fa_t_seqno a = fa_iss a + 1" "fa_rcv_nxt a = j + 1" "j < M"
    using a by (auto simp: syn_out_def unopened_def full_codes)
  have ca: "conn j M V a" "\<not> est j M V a"
    using a by (auto simp: conn_def est_def snd_ok_def full_codes)
  have Ml: "M \<le> SEQ_LIMIT"
    using j by (simp add: SEQ_LIMIT_def CUR_LIMIT_def)
  have v: "j < fa_rcv_nxt a" "fa_rcv_nxt a \<le> M"
    using ua by simp_all
  have "recv_special ev (arrival p) a = Some (Go_on, arrival p, a)"
    using a by (simp add: recv_special_def full_codes)
  then have r: "recv_slow ev (arrival p) a = Option.bind (recv_trim ev (arrival p) a) (go_to ev (\<lambda>si a. Option.bind (recv_acks ev si a) (leave ev)))"
    by (simp add: recv_slow_def go_to_def)
  show ?thesis
  proof (rule arrival_trimmed [OF ua(2) v j p])
    fix si b
    assume t: "recv_trim ev (arrival p) a = Some (Drop_pkt, si, b)" and f: "framed a b"
    have "conn j M V b" "grows a b"
      using syn_out_framed [OF f a(1)] outs_framed [OF f a(2)] grows_framed [OF f] by (simp_all add: conn_def)
    then show ?thesis
      using t by (auto simp: r go_to_def leave_def)
  next
    fix si b
    assume t: "recv_trim ev (arrival p) a = Some (Go_on, si, b)" and f: "framed a b" and si: "new_seg M b si"
      and ack: "fp_ackno (si_pkt si) = fp_ackno p" "flag_set (ts_flags (fp_seg p)) TH_ACK" and fl: "flag_set (si_tiflags si) TH_ACK"
    have b: "syn_out j M b" "outs_ok j b" "grows a b"
      using syn_out_framed [OF f a(1)] outs_framed [OF f a(2)] grows_framed [OF f] by simp_all
    have st: "fa_state b = TCPS_SYN_RECEIVED_num"
      using f a(3) by (simp add: framed_def core_def)
    have ub: "unopened b" "base b" "fa_maxseq b = fa_iss b + 1" "fa_t_seqno b = fa_iss b + 1" "fa_rcv_nxt b = j + 1" "fa_highest_ack b = - 1"
      using b(1) st by (auto simp: syn_out_def unopened_def full_codes)
    have i: "0 \<le> fa_iss b" "fa_iss b = fa_iss a"
      using iss_bounds [OF ub(2)] b(3) by (simp_all add: grows_def)
    have n: "fa_iss b < fp_ackno (si_pkt si)" "fp_ackno (si_pkt si) \<le> V"
      using p ack i(2) by (simp_all add: packet_ok_def Let_def)
    have cb: "conn j M V b" "\<not> est j M V b"
      using b st by (auto simp: conn_def est_def snd_ok_def full_codes)
    have go: "recv_acks ev si b = Option.bind (recv_syn_acked ev si b) (\<lambda>(v, si, a). if v = Go_on then recv_ack ev si a else Some (v, si, a))"
      using st by (simp add: recv_acks_def)
    show ?thesis
    proof (cases "fp_ackno (si_pkt si) > fa_maxseq b")
      case True
      have "recv_acks ev si b = Some (Drop_with_reset, si, b)"
        using True by (simp add: go recv_syn_acked_def Let_def)
      then show ?thesis
        using drop_keeps [OF cb ub(2), of Drop_with_reset si ev] fl grows_trans [OF b(3)] t by (auto simp: r go_to_def)
    next
      case False
      then have n1: "fp_ackno (si_pkt si) = fa_iss b + 1"
        using n ub(3) by simp
      obtain c where c: "recv_syn_acked ev si b = Some (Go_on, si, newstate TCPS_ESTABLISHED_num c)" "framed b c"
        using syn_acked_ok [of b si ev thesis] ub False n1 i(1) by (auto simp: base_def)
      define d where "d = note_ce (si_pkt si) (si_datalen si) (newstate TCPS_ESTABLISHED_num c)"
      define e where "e = (if fa_fastrecov d \<and> (si_datalen si = 0 \<or> fp_ackno (si_pkt si) > fa_highest_ack d)
               then d\<lparr>fa_pipe := i32 (fa_pipe d - fa_maxseg d)\<rparr> else d)"
      have fe: "framed (newstate TCPS_ESTABLISHED_num c) e"
        using framed_trans [OF framed_note_ce framed_simps(6)] framed_note_ce by (simp add: e_def d_def)
      have c': "unopened c" "outs_ok j c" "fa_maxseq c = fa_iss b + 1" "fa_t_seqno c = fa_iss b + 1" "fa_rcv_nxt c = j + 1" "fa_conf c = fa_conf b"
        "fr_q (fa_rx c) = fr_q (fa_rx b)"
        using unopened_framed [OF c(2) ub(1)] outs_framed [OF c(2) b(2)] c(2) ub by (simp_all add: framed_def core_def)
      have e: "unopened e" "outs_ok j e" "fa_maxseq e = fa_iss b + 1" "fa_t_seqno e = fa_iss b + 1" "fa_rcv_nxt e = j + 1" "fa_conf e = fa_conf b"
        "fa_state e = TCPS_ESTABLISHED_num" "fr_q (fa_rx e) = fr_q (fa_rx b)" "fa_curseq e = fa_curseq c" "fa_highest_ack e = fa_highest_ack c"
        using unopened_framed [OF fe] outs_framed [OF fe] fe c' by (simp_all add: framed_def core_def)
      have he: "fa_highest_ack e = - 1" "tcp_ok (fa_tcp e)"
        using e(1) by (simp_all add: unopened_def base_def)
      have ge: "grows b e"
        using grows_framed [OF c(2)] grows_framed [OF fe] by (simp add: grows_def)
      have ee: "est j M V (ack_to (fp_ackno (si_pkt si)) e)"
        by (rule est_of_syn [OF e(1,2,5) j(1) ua(6) Ml]) (use e n n1 in simp_all)
      from process_ack_new [OF ee he(2), of ev] obtain x where x: "recv_process_ack ev si e = Some x" "upholds j M V e si x"
        using e(3) n1 by auto
      have "recv_ack ev si (newstate TCPS_ESTABLISHED_num c) = (if fp_ackno (si_pkt si) \<le> fa_highest_ack e then recv_dup_ack ev si e else recv_process_ack ev si e)"
        unfolding recv_ack_def Let_def d_def e_def by (rule refl)
      then have "recv_acks ev si b = Some x"
        using n1 i(1) he(1) x(1) by (simp add: go c(1))
      moreover have "new_seg M e si"
        using si new_seg_q [OF e(8)] by simp
      from leave_keeps [OF x(2) this Ml, of ev] obtain y where "leave ev x = Some y" "est j M V y" "grows e y"
        by blast
      ultimately show ?thesis
        using t grows_trans [OF b(3) grows_trans [OF ge]] by (auto simp: r go_to_def conn_def est_def)
    qed
  qed
qed

lemma fresh_framed:
  assumes f: "framed a b" and a: "fresh a" "fa_rtx_on b = fa_rtx_on a"
  shows "fresh b"
proof -
  have k: "fa_maxseq b = fa_maxseq a" "fa_state b = fa_state a" "fa_rcv_nxt b = fa_rcv_nxt a"
    using f by (simp_all add: framed_def core_def)
  show ?thesis
    using a unopened_framed [OF f] unfolding fresh_def k by blast
qed

text \<open>Whatever packet of the peer arrives, in whatever state, \<open>recv\<close> returns and keeps the connection.\<close>

lemma recv_conn:
  assumes c: "conn j M V a" and j: "0 \<le> j" "M \<le> CUR_LIMIT + 1" and p: "packet_ok j (fa_iss a) M V p"
  shows "\<exists>b. agent_recv ev p a = Some b \<and> conn j M V b \<and> grows a b"
proof (cases "est j M V a")
  case True
  then show ?thesis
    using recv_est [OF True j p, of ev] by (auto simp: conn_def est_def)
next
  case no: False
  then have o: "outs_ok j a" "fresh a \<or> syn_out j M a"
    using c by (auto simp: conn_def)
  then have ba: "base a" and st: "fa_state a \<noteq> TCPS_ESTABLISHED_num"
    by (auto simp: fresh_def syn_out_def unopened_def full_codes)
  show ?thesis
  proof (cases "fa_state a = TCPS_CLOSED_num")
    case True
    then have "agent_recv ev p a = Some (a\<lparr>fa_last_state := fa_state a\<rparr>)"
      using p by (simp add: agent_recv_def packet_ok_def Let_def)
    moreover have "fresh a"
      using o(2) True by (auto simp: syn_out_def full_codes)
    ultimately show ?thesis
      using fresh_framed [OF framed_start] outs_framed [OF framed_start o(1)] grows_framed [OF framed_start] by (simp add: conn_def)
  next
    case False
    have "tcp_ok (fa_tcp a)"
      using ba by (simp add: base_def)
    then obtain b where b: "framed a b" "fa_rtx_on b = fa_rtx_on a" and r: "agent_recv ev p a = Option.bind (recv_fast ev p (si_datalen (arrival p)) b)
       (\<lambda>r. case r of Inl c \<Rightarrow> Some c | Inr c \<Rightarrow> recv_slow ev (arrival p) c)"
      by (rule recv_begins [OF _ False])
    have sb: "fa_state b = fa_state a" "fa_conf b = fa_conf a" and gb: "grows a b" and ob: "outs_ok j b"
      using b(1) grows_framed [OF b(1)] outs_framed [OF b(1) o(1)] by (simp_all add: framed_def core_def)
    have pb: "packet_ok j (fa_iss b) M V p"
      using p sb by simp
    have "\<not> predict_ok p b"
      using st sb by (simp add: predict_ok_def)
    then have "agent_recv ev p a = recv_slow ev (arrival p) b"
      by (simp add: r recv_fast_def)
    moreover have "\<exists>d. recv_slow ev (arrival p) b = Some d \<and> conn j M V d \<and> grows b d"
      using o(2)
    proof
      assume a: "fresh a"
      then have "fa_state b = TCPS_LISTEN_num"
        using False sb by (simp add: fresh_def)
      then show ?thesis
        by (rule listen_keeps [OF fresh_framed [OF b(1) a b(2)] ob _ j pb])
    next
      assume a: "syn_out j M a"
      note s = syn_out_framed [OF b(1) a]
      from a have "fa_state b = TCPS_SYN_SENT_num \<or> fa_state b = TCPS_SYN_RECEIVED_num"
        using sb by (auto simp: syn_out_def)
      then show ?thesis
        using sent_keeps [OF s ob _ j pb] received_keeps [OF s ob _ j pb] by blast
    qed
    ultimately show ?thesis
      using grows_trans [OF gb] by auto
  qed
qed

section \<open>Timers\<close>

lemma rtx_reset_ok:
  assumes t: "tcp_ok (fa_tcp a)"
  obtains b where "reset_rtx_timer a = Some b" "framed a b" "ft_cwnd (fa_tcp b) = ft_cwnd (fa_tcp a)"
proof -
  obtain s where s: "rtt_backoff (fa_tcp a) = Some s" "timer_ok s" "ft_highest_ack s = fa_highest_ack a"
      "ft_wnd_option s = ft_wnd_option (fa_tcp a)" "ft_ssthresh s = ft_ssthresh (fa_tcp a)" "ft_wnd_init s = ft_wnd_init (fa_tcp a)"
      "ft_ts_option s = ft_ts_option (fa_tcp a)" "ft_frto s = ft_frto (fa_tcp a)"
    using rtt_backoff_ok [of "fa_tcp a"] t by (auto simp: tcp_ok_def)
  define c where "c = a\<lparr>fa_tcp := s\<rparr>"
  have fc: "framed a c"
    using s t rtt_backoff_fields [OF s(1)] by (simp add: framed_def core_def c_def tcp_ok_def)
  define d where "d = (if fa_highest_ack a = fa_maxseq a \<and> fc_restart_bugfix (fa_conf a) then a else c)"
  have fd: "framed a d" and w: "ft_cwnd (fa_tcp d) = ft_cwnd (fa_tcp a)"
    using fc rtt_backoff_fields [OF s(1)] by (simp_all add: d_def c_def)
  then have "timer_ok (fa_tcp d)"
    using t by (simp add: framed_def tcp_ok_def)
  note e = set_rtx_timer_ok [OF this] framed_simps(2)
  have "(if fa_highest_ack a = fa_maxseq a \<and> fc_restart_bugfix (fa_conf a) then Some a
          else map_option (\<lambda>s. a\<lparr>fa_tcp := s\<rparr>) (rtt_backoff (fa_tcp a))) = Some d"
    using s(1) by (simp add: d_def c_def)
  then have "reset_rtx_timer a = Some (d\<lparr>fa_rtx_on := True, fa_rtt_active := False\<rparr>)"
    unfolding reset_rtx_timer_def using e(1) by simp
  then show ?thesis
    by (rule that) (use w framed_trans [OF fd framed_trans [OF e(2) framed_simps(3)]] in simp_all)
qed

lemma framed_seqno: "framed a b \<Longrightarrow> framed (a\<lparr>fa_t_seqno := i\<rparr>) (b\<lparr>fa_t_seqno := i\<rparr>)"
  by (simp add: framed_def core_def)

lemma timeout_action_ok:
  assumes a: "base a"
  obtains b where "timeout_action ev a = Some b" "framed (a\<lparr>fa_t_seqno := (if fa_highest_ack a < 0 then fa_iss a else fa_highest_ack a)\<rparr>) b"
    "1 \<le> ft_cwnd (fa_tcp b)"
proof -
  define c where "c = on_tcp (\<lambda>s. s\<lparr>ft_recover := ft_maxseq s, ft_cwnd := (if ft_cwnd s < 1 then 1 else ft_cwnd s)\<rparr>) a"
  have fc: "framed a c"
    unfolding c_def by (rule framed_tcp) (simp_all add: tcp_ok_def timer_ok_def)
  define d where "d = (if ft_last_cwnd_action (fa_tcp c) = CWND_ACTION_ECN then slow_down ev CLOSE_CWND_ONE c
              else on_tcp (\<lambda>s. s\<lparr>ft_last_cwnd_action := CWND_ACTION_TIMEOUT\<rparr>)
                     (slow_down ev (CLOSE_SSTHRESH_HALF OR CLOSE_CWND_RESTART) c))"
  have "framed x (on_tcp (\<lambda>s. s\<lparr>ft_last_cwnd_action := CWND_ACTION_TIMEOUT\<rparr>) x)" for x
    by (rule framed_tcp) (simp_all add: tcp_ok_def timer_ok_def)
  note m = framed_trans [OF framed_trans [OF fc framed_slow_down] this]
  have fd: "framed a d"
    using framed_trans [OF fc framed_slow_down] m by (simp add: d_def)
  have td: "tcp_ok (fa_tcp d)"
    using a fd by (simp add: framed_def base_def)
  have wd: "1 \<le> ft_cwnd (fa_tcp d)"
    using slowdown_floors by (simp add: d_def slow_down_def on_tcp_def)
  obtain e where e: "reset_rtx_timer d = Some e" "framed d e" "ft_cwnd (fa_tcp e) = ft_cwnd (fa_tcp d)"
    by (rule rtx_reset_ok [OF td])
  have fe: "framed a e"
    by (rule framed_trans [OF fd e(2)])
  let ?i = "if fa_highest_ack a < 0 then fa_iss a else fa_highest_ack a"
  define h where "h = on_tcp (\<lambda>s. s\<lparr>ft_dctcp_alpha_update_seq := ?i, ft_dctcp_maxseq := ?i\<rparr>)
       (e\<lparr>fa_t_seqno := ?i, fa_fastrecov := False, fa_dupacks := 0\<rparr>)"
  have "framed (e\<lparr>fa_t_seqno := ?i\<rparr>) h"
    by (simp add: framed_def core_def h_def on_tcp_def tcp_ok_def timer_ok_def)
  then have fh: "framed (a\<lparr>fa_t_seqno := ?i\<rparr>) h"
    by (rule framed_trans [OF framed_seqno [OF fe]])
  have "fa_highest_ack e = fa_highest_ack a" "fa_conf e = fa_conf a"
    using fe by (simp_all add: framed_def core_def)
  then have "timeout_action ev a = Some h"
    unfolding timeout_action_def Let_def c_def [symmetric] d_def [symmetric] e(1) by (simp add: h_def)
  then show ?thesis
    by (rule that [OF _ fh]) (use wd e(3) in \<open>simp add: h_def on_tcp_def\<close>)
qed

definition pending :: "timer \<Rightarrow> full_agent \<Rightarrow> bool" where
  "pending t a = (case t of Rtx_timer \<Rightarrow> fa_rtx_on a | Delsnd_timer \<Rightarrow> fa_delsnd_on a | Delack_timer \<Rightarrow> fa_delack_on a)"

lemma conn_base: "conn j M V a \<Longrightarrow> base a"
  by (auto simp: conn_def fresh_def syn_out_def unopened_def est_def snd_ok_def)

lemma timeout_conn:
  assumes c: "conn j M V a" and t: "pending t a"
  shows "\<exists>b. agent_timeout ev t a = Some b \<and> conn j M V b \<and> grows a b"
proof (cases t)
  case Delsnd_timer
  then show ?thesis
    using t conn_base [OF c] by (simp add: pending_def base_def)
next
  case Delack_timer
  define b where "b = a\<lparr>fa_delack_on := False\<rparr>"
  have f: "framed a b" and r: "fa_rtx_on b = fa_rtx_on a"
    by (simp_all add: b_def framed_simps)
  have cb: "conn j M V b" and gb: "grows a b" and sb: "fa_state b = fa_state a" "rx_delack (fa_ecn b) = rx_delack (fa_ecn a)"
    using c fresh_framed [OF f _ r] syn_out_framed [OF f] est_framed [OF f] outs_framed [OF f] grows_framed [OF f]
    by (auto simp: conn_def b_def)
  define d where "d = on_ecn (\<lambda>r. r\<lparr>rx_delack := False, rx_acknow := True\<rparr>) b"
  have a: "agent_timeout ev t a = (if fa_state b = TCPS_LISTEN_num then Some b else if rx_delack (fa_ecn b) then agent_send_much ev True REASON_NORMAL 0 d else Some b)"
    using Delack_timer by (simp add: agent_timeout_def b_def d_def Let_def)
  show ?thesis
  proof (cases "est j M V b")
    case True
    have s: "still b d" "fa_maxseq d = fa_maxseq b" "fa_out d = fa_out b"
      by (simp_all add: d_def still_def core0_def on_ecn_def on_rx_def)
    have ed: "est j M V d"
      by (rule est_still [OF s True])
    obtain e where e: "agent_send_much ev True REASON_NORMAL 0 d = Some e" "est j M V e" "grows d e"
      using send_much_keeps [OF ed] by metis
    have "grows b d"
      by (rule grows_moves [OF moves_still [OF s]])
    then show ?thesis
      using e grows_trans [OF gb grows_trans [OF _ e(3)]] gb cb by (auto simp: a conn_def est_def)
  next
    case False
    then have "\<not> rx_delack (fa_ecn b)"
      using cb by (auto simp: conn_def fresh_def syn_out_def unopened_def)
    then show ?thesis
      using cb gb by (simp add: a)
  qed
next
  case Rtx_timer
  define b where "b = a\<lparr>fa_rtx_on := False\<rparr>"
  have f: "framed a b"
    by (simp add: b_def framed_simps)
  have on: "fa_rtx_on a"
    using t Rtx_timer by (simp add: pending_def)
  then have cb: "syn_out j M b \<and> outs_ok j b \<or> est j M V b"
    using c syn_out_framed [OF f] est_framed [OF f] outs_framed [OF f] by (auto simp: conn_def fresh_def)
  have gb: "grows a b"
    by (rule grows_framed [OF f])
  have bb: "base b"
    by (rule base_framed [OF f conn_base [OF c]])
  have "fa_state b \<noteq> TCPS_LISTEN_num"
    using cb est_tcp(5) [of j M V b] by (auto simp: syn_out_def full_codes)
  then have a: "agent_timeout ev t a = Option.bind (timeout_action ev b) (agent_send_much ev True PF_TIMEOUT (fc_maxburst (fa_conf b)))"
    using Rtx_timer by (simp add: agent_timeout_def b_def Let_def)
  define e where "e = b\<lparr>fa_t_seqno := (if fa_highest_ack b < 0 then fa_iss b else fa_highest_ack b)\<rparr>"
  obtain d where d: "timeout_action ev b = Some d" "framed e d" "1 \<le> ft_cwnd (fa_tcp d)"
    unfolding e_def by (rule timeout_action_ok [OF bb])
  have ge: "grows a e"
    using gb by (simp add: grows_def e_def)
  have gd: "grows a d"
    by (rule grows_trans [OF ge grows_framed [OF d(2)]])
  from cb show ?thesis
  proof
    assume s: "syn_out j M b \<and> outs_ok j b"
    then have h: "fa_highest_ack b = - 1"
      by (simp add: syn_out_def unopened_def)
    have e: "unopened e" "outs_ok j e" "fa_t_seqno e = fa_iss e" "fa_maxseq e \<le> fa_iss e + 1"
      "fa_state e = TCPS_SYN_SENT_num \<and> fa_rcv_nxt e = - 1 \<or> fa_state e = TCPS_SYN_RECEIVED_num \<and> fa_rcv_nxt e = j + 1 \<and> j < M"
      using s h by (auto simp: syn_out_def e_def)
    have k: "fa_t_seqno d = fa_t_seqno e" "fa_maxseq d = fa_maxseq e" "fa_state d = fa_state e" "fa_rcv_nxt d = fa_rcv_nxt e" "fa_conf d = fa_conf e"
      using d(2) by (simp_all add: framed_def core_def)
    obtain g where "agent_send_much ev True PF_TIMEOUT (fc_maxburst (fa_conf b)) d = Some g" "conn j M V g" "grows d g" "fa_state g = fa_state d"
      by (rule syn_goes [OF unopened_framed [OF d(2) e(1)] outs_framed [OF d(2) e(2)] _ _ e(5) [folded k],
            where ev = ev and reason = PF_TIMEOUT and mb = "fc_maxburst (fa_conf b)"]) (use e k in simp_all)
    then show ?thesis
      using grows_trans [OF gd] by (auto simp: a d(1))
  next
    assume s: "est j M V b"
    have "seqs_ok b" "0 \<le> fa_iss b"
      using est_tcp(4) [OF s] iss_bounds [OF bb] by (simp_all add: snd_ok_def)
    then have h: "0 \<le> fa_highest_ack b"
      by (simp add: seqs_ok_def)
    have "snd_ok j e"
      using est_tcp(4) [OF s] h by (auto simp: snd_ok_def seqs_ok_def e_def base_def iw_ok_def)
    then have "est j M V e"
      using s by (simp add: est_def e_def rcvr_ok_def)
    from send_much_keeps [OF est_framed [OF d(2) this], of ev True PF_TIMEOUT "fc_maxburst (fa_conf b)"]
    obtain g where "agent_send_much ev True PF_TIMEOUT (fc_maxburst (fa_conf b)) d = Some g" "est j M V g" "grows d g"
      by metis
    then show ?thesis
      using grows_trans [OF gd] by (auto simp: a d(1) conn_def est_def)
  qed
qed

text \<open>With data outstanding, the timer sends again, from the first byte that has not been acknowledged.\<close>

lemma window_pos:
  assumes "base a" "1 \<le> ft_cwnd (fa_tcp a)"
  shows "0 < i32 (window (fa_tcp a) * fa_maxseg a)"
proof -
  let ?s = "fa_tcp a"
  have s: "1 \<le> ft_wnd ?s" "ft_frto ?s = 0" and m: "0 < fa_maxseg a"
    and w: "trunc_int (ft_wnd ?s) * fa_maxseg a \<le> 2147483647"
    using assms by (simp_all add: base_def tcp_ok_def)
  have v: "1 \<le> window ?s" "window ?s \<le> trunc_int (ft_wnd ?s)"
    using s assms(2) by (auto simp: window_def trunc_int_def intro: floor_mono)
  have "window ?s * fa_maxseg a \<le> trunc_int (ft_wnd ?s) * fa_maxseg a" "0 < window ?s * fa_maxseg a"
    using v m by (simp_all add: mult_right_mono)
  then show ?thesis
    using w by (simp add: i32_id)
qed

lemma out_len_pos:
  assumes a: "base a" "seqs_ok a" "fa_highest_ack a < fa_maxseq a" "1 \<le> ft_cwnd (fa_tcp a)"
  shows "0 < out_len (fa_highest_ack a) a"
proof -
  have i: "0 \<le> fa_iss a" and c: "fa_curseq a \<le> 2147000000" and q: "fa_iss a < fa_highest_ack a" "fa_highest_ack a \<le> fa_curseq a"
    using a iss_bounds [OF a(1)] by (auto simp: base_def CUR_LIMIT_def seqs_ok_def)
  have w: "0 < i32 (window (fa_tcp a) * fa_maxseg a)"
    by (rule window_pos [OF a(1,4)])
  have b: "i32 (fa_curseq a - fa_highest_ack a + 1) = fa_curseq a - fa_highest_ack a + 1" "i32 (0 :: int) = 0"
    using i c q by (simp_all add: i32_id)
  define m where "m = min (fa_curseq a - fa_highest_ack a + 1) (i32 (window (fa_tcp a) * fa_maxseg a))"
  have m: "0 < m" "i32 m = m"
    using w q i c by (auto simp: m_def i32_id)
  have "out_len (fa_highest_ack a) a = (if m > fa_maxseg a then fa_maxseg a else m)"
    using a(1) i q m unfolding out_len_def Let_def by (simp add: base_def conf_ok_def b m_def [symmetric])
  then show ?thesis
    using m a(1) by (simp add: base_def)
qed

lemma timeout_sends:
  assumes a: "est j M V a" and t: "fa_rtx_on a" "fa_highest_ack a < fa_maxseq a"
  shows "\<exists>b p ps. agent_timeout ev Rtx_timer a = Some b \<and> fa_out b = fa_out a @ p # ps
     \<and> ts_seqno (fp_seg p) = fa_highest_ack a \<and> 0 < ts_size (fp_seg p) - ts_hlen (fp_seg p)"
proof -
  define b where "b = a\<lparr>fa_rtx_on := False\<rparr>"
  have s: "est j M V b" "fa_highest_ack b = fa_highest_ack a" "fa_maxseq b = fa_maxseq a" "fa_out b = fa_out a"
    using est_framed [OF framed_simps(2) a] by (simp_all add: b_def)
  note bb = est_tcp(3) [OF s(1)]
  have h: "0 \<le> fa_highest_ack b"
    using est_tcp(4) [OF s(1)] iss_bounds [OF bb] by (simp add: snd_ok_def seqs_ok_def)
  define e where "e = b\<lparr>fa_t_seqno := fa_highest_ack b\<rparr>"
  have "snd_ok j e"
    using est_tcp(4) [OF s(1)] by (auto simp: snd_ok_def seqs_ok_def e_def base_def iw_ok_def)
  then have ee: "est j M V e"
    using s(1) by (simp add: est_def e_def rcvr_ok_def outs_ok_def)
  obtain d where d: "timeout_action ev b = Some d" "framed e d" "1 \<le> ft_cwnd (fa_tcp d)"
    using timeout_action_ok [OF bb, of ev] h by (auto simp: e_def)
  have ed: "est j M V d"
    by (rule est_framed [OF d(2) ee])
  have k: "fa_t_seqno d = fa_highest_ack a" "fa_highest_ack d = fa_highest_ack a" "fa_maxseq d = fa_maxseq a" "fa_out d = fa_out a"
    using d(2) s by (simp_all add: framed_def core_def e_def)
  have "0 < out_len (fa_highest_ack d) d"
    using est_tcp(4) [OF ed] t(2) d(3) k by (intro out_len_pos) (simp_all add: snd_ok_def)
  then obtain g p ps where g: "agent_send_much ev True PF_TIMEOUT (fc_maxburst (fa_conf b)) d = Some g" "fa_out g = fa_out d @ p # ps"
    "ts_seqno (fp_seg p) = fa_t_seqno d" "0 < ts_size (fp_seg p) - ts_hlen (fp_seg p)"
    using send_much_first [OF est_tcp(4) [OF ed], of ev PF_TIMEOUT "fc_maxburst (fa_conf b)"] t(2) k by auto
  have "fa_state b \<noteq> TCPS_LISTEN_num"
    using est_tcp(5) [OF s(1)] by (simp add: full_codes)
  then have "agent_timeout ev Rtx_timer a = Some g"
    using d(1) g(1) by (simp add: agent_timeout_def b_def Let_def)
  then show ?thesis
    using g k by auto
qed

section \<open>The application\<close>

text \<open>
  \<open>reset\<close> leaves the measurement of a round trip running, although it forgets what is measured, and the
  marks of the previous connection.
\<close>

lemma reset_keeps_timing:
  assumes "agent_reset ev a = Some b"
  shows "fa_rtt_active b = fa_rtt_active a" "fa_rtt_seq b = - 1" "fa_rtt_ts b = fa_rtt_ts a"
    "rx_ect (fa_ecn b) = rx_ect (fa_ecn a)" "rx_recent_ce (fa_ecn b) = rx_recent_ce (fa_ecn a)"
  using assms by (auto simp: agent_reset_def cancel_timers_def rx_reset_def Let_def split: if_splits bind_splits)

text \<open>\<open>reset\<close> makes the agent fresh.\<close>

lemma reset_ok:
  assumes a: "base a" and q: "rq_ok (fr_q (fa_rx a))"
  obtains b where "agent_reset ev a = Some b" "base b" "rq_ok (fr_q (fa_rx b))" "rq_fifo (fr_q (fa_rx b)) = []"
    "\<not> rx_delack (fa_ecn b)" "fa_highest_ack b = - 1" "fa_maxseq b = - 1" "fa_rcv_nxt b = - 1" "\<not> fa_rtx_on b" "fa_curseq b = 0"
    "fa_t_seqno b = fa_iss a" "fa_conf b = fa_conf a" "fa_state b = fa_state a" "fa_out b = fa_out a"
    "fr_delivered (fa_rx b) = fr_delivered (fa_rx a)"
proof -
  obtain w0 where w0: "initial_window a = Some w0" "0 < w0"
    using a by (auto simp: base_def intro: initial_window_ok)
  define w where "w = (if fc_delay_growth (fa_conf a) then 1 else w0)"
  have w: "(if fc_delay_growth (fa_conf a) then Some 1 else initial_window a) = Some w" "0 < w"
    using w0 by (simp_all add: w_def)
  have t: "tcp_ok (base_reset ev (fa_conf a) w (fa_tcp a))"
  proof -
    have "1 \<le> ft_wnd (fa_tcp a)"
      using a by (simp add: base_def tcp_ok_def)
    then have "1 \<le> trunc_int (ft_wnd (fa_tcp a))"
      by (simp add: trunc_int_def)
    then show ?thesis
      using a w(2) by (simp add: base_def tcp_ok_def timer_ok_def base_reset_def rtt_init_def Let_def)
  qed
  have k: "ft_wnd (base_reset ev c w s) = ft_wnd s" "ft_frto (base_reset ev c w s) = ft_frto s" "ft_maxseq (base_reset ev c w s) = - 1"
    "ft_highest_ack (base_reset ev c w s) = - 1" for c s
    by (simp_all add: base_reset_def rtt_init_def Let_def)
  have R: "rq_ok (fr_q (rx_reset (fa_rx a)))" "rq_fifo (fr_q (rx_reset (fa_rx a))) = []" "\<not> rx_delack (fr_ecn (rx_reset (fa_rx a)))"
    "rq_rcv_nxt (fr_q (rx_reset (fa_rx a))) = - 1" "rx_rcv_nxt (fr_ecn (rx_reset (fa_rx a))) = - 1" "fr_state (rx_reset (fa_rx a)) = fa_state a"
    "fr_delivered (rx_reset (fa_rx a)) = fr_delivered (fa_rx a)" "rx_maxseg (fr_ecn (rx_reset (fa_rx a))) = fa_maxseg a"
    by (simp_all add: rx_reset_def clear_ok) (simp add: rq_clear_def)
  show ?thesis
    by (rule that [of "(cancel_timers a)\<lparr>fa_tcp := base_reset ev (fa_conf a) w (fa_tcp a), fa_rx := rx_reset (fa_rx a),
       fa_t_seqno := fa_iss a, fa_curseq := 0, fa_dupacks := 0, fa_pipe := 0, fa_rtxbytes := 0,
       fa_needfin := False, fa_needclose := False, fa_close_on_empty := False, fa_fastrecov := False,
       fa_rtt_seq := - 1, fa_recent := (if ft_ts_option (fa_tcp a) then 0 else - 1),
       fa_recent_age := (if ft_ts_option (fa_tcp a) then 0 else - 1), fa_last_send := - 1,
       fa_awnd := ft_wnd_init (fa_tcp a) / 2, fa_ecn_syn_next := fc_ecn_syn (fa_conf a)\<rparr>"])
      (use a t w in \<open>simp_all add: agent_reset_def Let_def cancel_timers_def base_def iw_ok_def k R CUR_LIMIT_def\<close>)
qed

lemma still_curseq: "base a \<Longrightarrow> 0 \<le> n \<Longrightarrow> n \<le> CUR_LIMIT \<Longrightarrow> base (a\<lparr>fa_curseq := n\<rparr>)"
  by (simp add: base_def iw_ok_def)

lemma conn_curseq:
  assumes c: "conn j M V a" and n: "fa_curseq a \<le> n" "n \<le> CUR_LIMIT"
  shows "conn j M V (a\<lparr>fa_curseq := n\<rparr>)"
proof -
  have b: "base (a\<lparr>fa_curseq := n\<rparr>)"
    using conn_base [OF c] n by (intro still_curseq) (simp_all add: base_def)
  have "est j M V (a\<lparr>fa_curseq := n\<rparr>)" if "est j M V a"
    using that b n(1) by (auto simp: est_def snd_ok_def seqs_ok_def outs_ok_def rcvr_ok_def)
  then show ?thesis
    using c b by (auto simp: conn_def fresh_def syn_out_def unopened_def outs_ok_def)
qed

text \<open>The buffer so far, from the first number on.\<close>

definition buf_end :: "full_agent \<Rightarrow> int" where
  "buf_end a = max (fa_curseq a) (fa_iss a)"

definition keeps_side :: "full_agent \<Rightarrow> full_agent \<Rightarrow> bool" where
  "keeps_side a b \<longleftrightarrow> fa_conf b = fa_conf a \<and> fa_maxseq a \<le> fa_maxseq b \<and> fa_rcv_nxt a \<le> fa_rcv_nxt b"

lemma keeps_grows: "grows a b \<Longrightarrow> keeps_side a b \<and> buf_end b = buf_end a"
  by (simp add: grows_def keeps_side_def buf_end_def)

lemma write_conn:
  assumes c: "conn j M V a" and n: "0 \<le> n" "buf_end a + n \<le> CUR_LIMIT"
  shows "\<exists>b. agent_advance_bytes ev n a = Some b \<and> conn j M V b \<and> keeps_side a b \<and> buf_end b \<le> buf_end a + n"
proof -
  have ba: "base a"
    by (rule conn_base [OF c])
  have i: "0 \<le> fa_iss a"
    using iss_bounds [OF ba] by simp
  show ?thesis
  proof (cases "fa_state a = TCPS_CLOSED_num \<or> fa_state a = TCPS_LISTEN_num")
    case True
    then have fr: "fresh a" and o: "outs_ok j a"
      using c by (auto simp: conn_def syn_out_def est_def snd_ok_def full_codes)
    have q: "rq_ok (fr_q (fa_rx a))" "fr_delivered (fa_rx a) = 0" "fa_rcv_nxt a = - 1" "fa_maxseq a = - 1"
      using fr by (simp_all add: fresh_def unopened_def)
    obtain b where b: "agent_reset ev a = Some b" "base b" "rq_ok (fr_q (fa_rx b))" "rq_fifo (fr_q (fa_rx b)) = []"
      "\<not> rx_delack (fa_ecn b)" "fa_highest_ack b = - 1" "fa_maxseq b = - 1" "fa_rcv_nxt b = - 1" "\<not> fa_rtx_on b" "fa_curseq b = 0"
      "fa_t_seqno b = fa_iss a" "fa_conf b = fa_conf a" "fa_state b = fa_state a" "fa_out b = fa_out a"
      "fr_delivered (fa_rx b) = fr_delivered (fa_rx a)"
      by (rule reset_ok [OF ba q(1)])
    have k: "i32 (fa_iss b + n) = fa_iss a + n" "0 \<le> fa_iss a + n" "fa_iss a + n \<le> CUR_LIMIT"
      using i n b(12) by (simp_all add: i32_id buf_end_def CUR_LIMIT_def)
    define d where "d = newstate TCPS_SYN_SENT_num (b\<lparr>fa_curseq := fa_iss a + n\<rparr>)"
    have bd: "base d"
      using still_curseq [OF b(2) k(2,3)] by (simp add: d_def newstate_def on_rx_def base_def iw_ok_def)
    have d: "unopened d" "outs_ok j d" "fa_state d = TCPS_SYN_SENT_num" "fa_rcv_nxt d = - 1" "fa_maxseq d = - 1" "fa_t_seqno d = fa_iss a"
      "fa_conf d = fa_conf a" "fa_curseq d = fa_iss a + n"
      using b q o bd by (simp_all add: d_def unopened_def newstate_def on_rx_def outs_ok_def)
    have "syn_ok j d"
      using bd d(3) by (simp add: syn_ok_def in_handshake_def full_codes)
    from foutput_syn [OF this, of ev REASON_NORMAL] obtain e where e: "foutput ev (fa_iss d) REASON_NORMAL d = Some (1, e)" "moves_on j d e"
      "fa_t_seqno e = fa_t_seqno d" "fa_maxseq e = max (fa_maxseq d) (fa_iss d + 1)" "\<not> rx_delack (fa_ecn e)"
      by metis
    define g where "g = agent_sent (fa_iss d) 1 e"
    have mg: "moves_on j d g"
      unfolding g_def by (rule moves_trans [OF e(2) moves_sent])
    then have kg: "core0 g = core0 d"
      by (simp add: moves_on_def)
    have g: "fa_conf g = fa_conf a" "fa_state g = TCPS_SYN_SENT_num" "fa_rcv_nxt g = - 1" "fa_curseq g = fa_iss a + n"
      using kg d by (simp_all add: core0_def)
    have t: "fa_t_seqno g = fa_iss g + 1" "fa_maxseq g = fa_iss g + 1"
      using e(3,4) d i iss_bounds [OF ba] g(1) by (simp_all add: g_def i32_id)
    have "unopened g"
      using d(1) e(5) base_moves [OF mg bd] by (intro unopened_cong [OF kg _ _ d(1)]) (simp_all add: g_def unopened_def)
    then have "syn_out j M g"
      using g t by (simp add: syn_out_def)
    moreover have "outs_ok j g"
      using mg d(2) by (simp add: moves_on_def)
    moreover have "agent_advance_bytes ev n a = Some g"
      using True b(1) e(1) d(7) b(12) k(1)
      by (simp add: agent_advance_bytes_def agent_connect_def Let_def d_def g_def)
    moreover have "keeps_side a g \<and> buf_end g \<le> buf_end a + n"
      using g t q i n by (simp add: keeps_side_def buf_end_def)
    ultimately show ?thesis
      by (auto simp: conn_def)
  next
    case False
    define m where "m = (if fa_curseq a < fa_iss a then fa_iss a else fa_curseq a) + n"
    define b where "b = a\<lparr>fa_curseq := m\<rparr>"
    have e: "m = buf_end a + n"
      by (simp add: m_def buf_end_def max_def)
    moreover have "fa_curseq a \<le> buf_end a" "0 \<le> buf_end a"
      using i by (simp_all add: buf_end_def)
    ultimately have m: "i32 m = m" "fa_curseq a \<le> m" "m \<le> CUR_LIMIT" "m = buf_end a + n"
      using n by (simp_all add: i32_id CUR_LIMIT_def)
    have cb: "conn j M V b"
      unfolding b_def by (rule conn_curseq [OF c m(2,3)])
    have kb: "keeps_side a b" "buf_end b \<le> buf_end a + n"
      using m(4) n i by (simp_all add: keeps_side_def b_def buf_end_def)
    have st: "fa_state a = TCPS_ESTABLISHED_num \<or> fa_state a = TCPS_SYN_SENT_num \<or> fa_state a = TCPS_SYN_RECEIVED_num"
      using False c by (auto simp: conn_def fresh_def syn_out_def est_def snd_ok_def)
    have r: "agent_advance_bytes ev n a = (if fa_state a = TCPS_ESTABLISHED_num
        then agent_send_much ev False REASON_NORMAL (fc_maxburst (fa_conf b)) b else Some b)"
      using False st m(1) by (simp add: agent_advance_bytes_def Let_def b_def m_def)
    show ?thesis
    proof (cases "fa_state a = TCPS_ESTABLISHED_num")
      case True
      then have "est j M V b"
        using cb by (auto simp: conn_def fresh_def syn_out_def b_def full_codes)
      from send_much_keeps [OF this, of ev False REASON_NORMAL "fc_maxburst (fa_conf b)"]
      obtain d where d: "agent_send_much ev False REASON_NORMAL (fc_maxburst (fa_conf b)) b = Some d" "est j M V d" "grows b d"
        by metis
      have "keeps_side a d" "buf_end d \<le> buf_end a + n"
        using kb keeps_grows [OF d(3)] by (auto simp: keeps_side_def)
      then show ?thesis
        using True d by (auto simp: r conn_def est_def)
    next
      case no: False
      then show ?thesis
        using cb kb by (simp add: r)
    qed
  qed
qed

end
