(* ===== verification/Full_Net.thy ===== *)
theory Full_Net
  imports Full_Open
begin

text \<open>
  Two full TCP agents and a network that loses, repeats, reorders, delays and marks packets: from
  their opening on and until they are closed, every handler returns, what has been acknowledged has
  been delivered, and what has been delivered has been written.
\<close>

section \<open>Two agents and the network between them\<close>

text \<open>Two sides that handle events, each with the other's state in view.\<close>

datatype side = Near | Far

fun duplex_step :: "('e \<Rightarrow> 's \<Rightarrow> 's \<Rightarrow> 's option) \<Rightarrow> side \<times> 'e \<Rightarrow> 's \<times> 's \<Rightarrow> ('s \<times> 's) option" where
  "duplex_step h (Near, e) (a, b) = map_option (\<lambda>a'. (a', b)) (h e b a)"
| "duplex_step h (Far, e) (a, b) = map_option (Pair a) (h e a b)"

fun duplex_run :: "('e \<Rightarrow> 's \<Rightarrow> 's \<Rightarrow> 's option) \<Rightarrow> (side \<times> 'e) list \<Rightarrow> 's \<times> 's \<Rightarrow> ('s \<times> 's) option" where
  "duplex_run h [] s = Some s"
| "duplex_run h (x # xs) s = Option.bind (duplex_step h x s) (duplex_run h xs)"

fun spent :: "('e \<Rightarrow> int) \<Rightarrow> side \<Rightarrow> (side \<times> 'e) list \<Rightarrow> int" where
  "spent c sd [] = 0"
| "spent c sd ((x, e) # es) = (if x = sd then c e else 0) + spent c sd es"

lemma spent_nonneg: "\<forall>x\<in>set es. 0 \<le> c (snd x) \<Longrightarrow> 0 \<le> spent c sd es"
  by (induction c sd es rule: spent.induct) auto

text \<open>
  If each handler keeps an invariant between the two, as long as there is room for what an event
  costs, then so does every run of them.
\<close>

locale duplex =
  fixes handle :: "'e \<Rightarrow> 's \<Rightarrow> 's \<Rightarrow> 's option"
    and inv :: "'s \<Rightarrow> 's \<Rightarrow> bool"
    and cost :: "'e \<Rightarrow> int"
    and room :: "'s \<Rightarrow> int"
  assumes handled: "inv b a \<Longrightarrow> inv a b \<Longrightarrow> 0 \<le> cost e \<Longrightarrow> cost e \<le> room a
    \<Longrightarrow> \<exists>a'. handle e b a = Some a' \<and> inv b a' \<and> inv a' b \<and> room a - cost e \<le> room a'"
begin

lemma keeps_running:
  assumes "inv b a" "inv a b" "\<forall>x\<in>set es. 0 \<le> cost (snd x)" "spent cost Near es \<le> room a" "spent cost Far es \<le> room b"
  shows "\<exists>a' b'. duplex_run handle es (a, b) = Some (a', b') \<and> inv b' a' \<and> inv a' b'
     \<and> room a - spent cost Near es \<le> room a' \<and> room b - spent cost Far es \<le> room b'"
  using assms
proof (induction es arbitrary: a b)
  case (Cons x es)
  obtain sd e where x: "x = (sd, e)"
    by (cases x)
  have c: "0 \<le> cost e" and es: "\<forall>x\<in>set es. 0 \<le> cost (snd x)"
    using Cons.prems(3) by (auto simp: x)
  have nn: "0 \<le> spent cost sd es" for sd
    by (rule spent_nonneg [OF es])
  show ?case
  proof (cases sd)
    case Near
    then have "cost e \<le> room a"
      using Cons.prems(4) nn [of Near] by (simp add: x)
    from handled [OF Cons.prems(1,2) c this] obtain c where c: "handle e b a = Some c" "inv b c" "inv c b" "room a - cost e \<le> room c"
      by blast
    have "spent cost Near es \<le> room c" "spent cost Far es \<le> room b"
      using Cons.prems(4,5) c(4) Near by (simp_all add: x)
    from Cons.IH [OF c(2,3) es this] show ?thesis
      using c(1,4) Near by (force simp: x)
  next
    case Far
    then have "cost e \<le> room b"
      using Cons.prems(5) nn [of Far] by (simp add: x)
    from handled [OF Cons.prems(2,1) c this] obtain c where c: "handle e a b = Some c" "inv a c" "inv c a" "room b - cost e \<le> room c"
      by blast
    have "spent cost Near es \<le> room a" "spent cost Far es \<le> room c"
      using Cons.prems(4,5) c(4) Far by (simp_all add: x)
    from Cons.IH [OF c(3,2) es this] show ?thesis
      using c(1,4) Far by (force simp: x)
  qed
qed simp

end

text \<open>
  What can happen to an agent: the application writes, or listens on a closed agent; any packet the
  other side has ever sent arrives, with any congestion mark; a pending timer fires.
\<close>

datatype net_event = Write net_env int | Listen | Deliver net_env nat bool | Expire net_env timer

fun full_event :: "net_event \<Rightarrow> full_agent \<Rightarrow> full_agent \<Rightarrow> full_agent option" where
  "full_event (Write ev n) b a = agent_advance_bytes ev n a"
| "full_event Listen b a = Some (if fa_state a = TCPS_CLOSED_num then agent_listen a else a)"
| "full_event (Deliver ev k ce) b a =
     (if k < length (fa_out b) then agent_recv ev ((fa_out b ! k)\<lparr>fp_ce := ce\<rparr>) a else Some a)"
| "full_event (Expire ev t) b a = (if pending t a then agent_timeout ev t a else Some a)"

fun event_cost :: "net_event \<Rightarrow> int" where
  "event_cost (Write ev n) = n"
| "event_cost _ = 0"

definition net_run :: "(side \<times> net_event) list \<Rightarrow> full_agent \<times> full_agent \<Rightarrow> (full_agent \<times> full_agent) option" where
  "net_run = duplex_run full_event"

definition written :: "side \<Rightarrow> (side \<times> net_event) list \<Rightarrow> int" where
  "written = spent event_cost"

definition peer_inv :: "full_agent \<Rightarrow> full_agent \<Rightarrow> bool" where
  "peer_inv b a \<longleftrightarrow> conn (fa_iss b) (fa_maxseq b) (fa_rcv_nxt b) a"

definition buf_room :: "full_agent \<Rightarrow> int" where
  "buf_room a = 2000000000 - (buf_end a - fa_iss a)"

lemma conn_mono: "conn j M V a \<Longrightarrow> M \<le> M' \<Longrightarrow> V \<le> V' \<Longrightarrow> conn j M' V' a"
  by (auto simp: conn_def syn_out_def est_def rcvr_ok_def)

lemma peer_moves: "peer_inv a b \<Longrightarrow> keeps_side a a' \<Longrightarrow> peer_inv a' b"
  by (auto simp: peer_inv_def keeps_side_def intro: conn_mono)

lemma conn_maxseq:
  assumes "conn j M V a"
  shows "fa_maxseq a \<le> CUR_LIMIT + 1"
  using assms iss_bounds [OF conn_base [OF assms]] seqs_bounds [of a]
  by (auto simp: conn_def fresh_def syn_out_def est_def snd_ok_def CUR_LIMIT_def)

lemma event_keeps:
  assumes ba: "peer_inv b a" and ab: "peer_inv a b" and c: "0 \<le> event_cost e" "event_cost e \<le> buf_room a"
  shows "\<exists>a'. full_event e b a = Some a' \<and> peer_inv b a' \<and> keeps_side a a' \<and> buf_room a - event_cost e \<le> buf_room a'"
proof -
  note ca = ba [unfolded peer_inv_def] and cb = ab [unfolded peer_inv_def]
  have j: "0 \<le> fa_iss b" "fa_maxseq b \<le> CUR_LIMIT + 1"
    using iss_bounds [OF conn_base [OF cb]] conn_maxseq [OF cb] by simp_all
  have grown: "\<exists>a'. f = Some a' \<and> peer_inv b a' \<and> keeps_side a a' \<and> buf_room a \<le> buf_room a'"
    if "\<exists>a'. f = Some a' \<and> conn (fa_iss b) (fa_maxseq b) (fa_rcv_nxt b) a' \<and> grows a a'" for f
    using that keeps_grows by (fastforce simp: peer_inv_def buf_room_def keeps_side_def)
  have still: "keeps_side a a"
    by (simp add: keeps_side_def)
  show ?thesis
  proof (cases e)
    case (Write ev n)
    then have "0 \<le> n" "buf_end a + n \<le> CUR_LIMIT"
      using c iss_bounds [OF conn_base [OF ca]] by (simp_all add: buf_room_def CUR_LIMIT_def)
    from write_conn [OF ca this, of ev] show ?thesis
      using Write by (fastforce simp: peer_inv_def buf_room_def keeps_side_def)
  next
    case Listen
    show ?thesis
    proof (cases "fa_state a = TCPS_CLOSED_num")
      case True
      then have "fresh a"
        using ca by (auto simp: conn_def syn_out_def est_def snd_ok_def full_codes)
      then have "fresh (agent_listen a)"
        by (simp add: fresh_def agent_listen_def) (simp add: newstate_def on_rx_def)
      moreover have "outs_ok (fa_iss b) (agent_listen a)"
        using ca by (simp add: conn_def agent_listen_def)
      moreover have "keeps_side a (agent_listen a)" "buf_room (agent_listen a) = buf_room a"
        by (simp_all add: keeps_side_def agent_listen_def buf_room_def buf_end_def)
      ultimately show ?thesis
        using Listen True by (simp add: peer_inv_def conn_def)
    next
      case False
      then show ?thesis
        using Listen ba still by simp
    qed
  next
    case (Deliver ev k ce)
    show ?thesis
    proof (cases "k < length (fa_out b)")
      case True
      then have "fa_out b ! k \<in> set (fa_out b)"
        by simp
      moreover have "outs_ok (fa_iss a) b"
        using cb by (simp add: conn_def)
      ultimately have "packet_ok (fa_iss b) (fa_iss a) (fa_maxseq b) (fa_rcv_nxt b) ((fa_out b ! k)\<lparr>fp_ce := ce\<rparr>)"
        by (simp add: outs_ok_def packet_ok_def Let_def)
      from grown [OF recv_conn [OF ca j this, of ev]] show ?thesis
        using Deliver True by simp
    next
      case False
      then show ?thesis
        using Deliver ba still by simp
    qed
  next
    case (Expire ev t)
    then show ?thesis
      using grown [OF timeout_conn [OF ca, of t ev]] ba still by simp
  qed
qed

interpretation wire: duplex full_event peer_inv event_cost buf_room
  using event_keeps peer_moves by unfold_locales blast

section \<open>Reliable delivery\<close>

text \<open>An agent that \<open>reset\<close> has prepared and that has not been used.\<close>

definition new_agent :: "full_agent \<Rightarrow> bool" where
  "new_agent a \<longleftrightarrow> fresh a \<and> fa_state a = TCPS_CLOSED_num \<and> fa_out a = [] \<and> fa_curseq a = 0"

definition acked_bytes :: "full_agent \<Rightarrow> int" where
  "acked_bytes a = (if fa_highest_ack a < 0 then 0 else fa_highest_ack a - fa_iss a - 1)"

lemma peer_bytes:
  assumes ba: "peer_inv b a" and ab: "peer_inv a b"
  shows "0 \<le> acked_bytes a \<and> acked_bytes a \<le> fr_delivered (fa_rx b) \<and> fr_delivered (fa_rx b) \<le> buf_end a - fa_iss a"
proof -
  note ca = ba [unfolded peer_inv_def] and cb = ab [unfolded peer_inv_def]
  have i: "0 \<le> fa_iss a"
    using iss_bounds [OF conn_base [OF ca]] by simp
  have a: "fa_highest_ack a = - 1 \<or> fa_iss a < fa_highest_ack a \<and> fa_highest_ack a \<le> fa_rcv_nxt b"
    using ca by (auto simp: conn_def fresh_def syn_out_def unopened_def est_def snd_ok_def seqs_ok_def)
  have m: "fa_maxseq a \<le> buf_end a + 1"
    using ca i by (auto simp: conn_def fresh_def syn_out_def est_def snd_ok_def seqs_ok_def buf_end_def)
  have b: "fr_delivered (fa_rx b) = 0 \<and> fa_rcv_nxt b \<le> fa_iss a + 1
     \<or> fr_delivered (fa_rx b) = fa_rcv_nxt b - fa_iss a - 1 \<and> fa_iss a < fa_rcv_nxt b \<and> fa_rcv_nxt b \<le> fa_maxseq a"
    using cb i by (auto simp: conn_def fresh_def syn_out_def unopened_def est_def snd_ok_def rcvr_ok_def got_def)
  have "fa_iss a \<le> buf_end a"
    by (simp add: buf_end_def)
  then show ?thesis
    using a b m i by (auto simp: acked_bytes_def)
qed

lemma new_peer: "new_agent a \<Longrightarrow> peer_inv b a"
  by (simp add: new_agent_def peer_inv_def conn_def outs_ok_def)

lemma reliable:
  assumes a: "new_agent a" and b: "new_agent b" and es: "\<forall>x\<in>set es. 0 \<le> event_cost (snd x)"
    and n: "written Near es \<le> 2000000000" "written Far es \<le> 2000000000"
  shows "\<exists>a' b'. net_run es (a, b) = Some (a', b')
     \<and> 0 \<le> acked_bytes a' \<and> acked_bytes a' \<le> fr_delivered (fa_rx b') \<and> fr_delivered (fa_rx b') \<le> written Near es
     \<and> 0 \<le> acked_bytes b' \<and> acked_bytes b' \<le> fr_delivered (fa_rx a') \<and> fr_delivered (fa_rx a') \<le> written Far es"
proof -
  have "buf_end a = fa_iss a" "buf_end b = fa_iss b"
    using a b iss_bounds [of a] iss_bounds [of b] by (simp_all add: new_agent_def fresh_def unopened_def buf_end_def)
  then have room: "buf_room a = 2000000000" "buf_room b = 2000000000"
    by (simp_all add: buf_room_def)
  then have "spent event_cost Near es \<le> buf_room a" "spent event_cost Far es \<le> buf_room b"
    using n by (simp_all add: written_def)
  from wire.keeps_running [OF new_peer [OF a] new_peer [OF b] es this] obtain a' b' where
    r: "net_run es (a, b) = Some (a', b')" "peer_inv b' a'" "peer_inv a' b'"
    and "2000000000 - written Near es \<le> buf_room a'" "2000000000 - written Far es \<le> buf_room b'"
    unfolding net_run_def written_def room by blast
  then have e: "buf_end a' - fa_iss a' \<le> written Near es" "buf_end b' - fa_iss b' \<le> written Far es"
    by (simp_all add: buf_room_def)
  show ?thesis
    using r(1) peer_bytes [OF r(2,3)] peer_bytes [OF r(3,2)] e by (intro exI [of _ a'] exI [of _ b']) simp
qed

end
