(* ===== verification/Full_Predict.thy ===== *)
theory Full_Predict
  imports Full_Agent
begin

text \<open>
  The two ways of \<open>recv\<close> through a segment of data (\<open>tcp/tcp-full.cc\<close>): the predicted path and the
  slow path, at the level of the whole agent, with everything that they send. For the next segment
  with nothing queued the slow path is the predicted path after the reset that \<open>dupack_reset_\<close>
  asks for and, when no acknowledgment is due, before an attempt to send more data.
\<close>

section \<open>Sending does not close the other direction\<close>

text \<open>All that sending does to the state is to enter \<open>FIN_WAIT_1\<close>.\<close>

definition same_or_fin :: "full_agent \<Rightarrow> full_agent \<Rightarrow> bool" where
  "same_or_fin a b \<longleftrightarrow> fa_state b = fa_state a \<or> fa_state b = TCPS_FIN_WAIT_1_num"

lemma same_or_fin_trans: "same_or_fin a b \<Longrightarrow> same_or_fin b c \<Longrightarrow> same_or_fin a c"
  by (auto simp: same_or_fin_def)

lemma rtx_state: "set_rtx_timer a = Some b \<Longrightarrow> fa_state b = fa_state a"
  by (auto simp: set_rtx_timer_def)

lemma out_flags_state: "out_flags f d r a = (f', b) \<Longrightarrow> same_or_fin a b"
  by (auto simp: out_flags_def out_cwr_def out_fin_def on_tcp_def newstate_def on_rx_def same_or_fin_def Let_def
      split: prod.splits if_splits)

text \<open>A result with the state \<open>st\<close>, or none.\<close>

definition ends_in :: "int \<Rightarrow> (int \<times> full_agent) option \<Rightarrow> bool" where
  "ends_in st r \<longleftrightarrow> (\<forall>n b. r = Some (n, b) \<longrightarrow> fa_state b = st)"

lemma ends_in_let:
  "fa_state t = st \<Longrightarrow> (\<And>a. fa_state a = st \<Longrightarrow> ends_in st (f a)) \<Longrightarrow> ends_in st (Let t f)"
  "(\<And>i :: int. ends_in st (g i)) \<Longrightarrow> ends_in st (Let u g)"
  by (simp_all add: Let_def)

lemma ends_in_last:
  "fa_state a = st \<Longrightarrow> ends_in st (map_option (Pair n) (if c then set_rtx_timer a else Some a))"
  by (auto simp: ends_in_def dest: rtx_state)

lemma state_upd [simp]:
  "fa_state (on_tcp f a) = fa_state a" "fa_state (on_ecn g a) = fa_state a" "fa_state (send_pkt ev s k fl d r a) = fa_state a"
  by (simp_all add: on_tcp_def on_ecn_def on_rx_def send_pkt_def Let_def)

lemma out_send_state:
  assumes "out_send ev s d f r a = Some (n, b)"
  shows "same_or_fin a b"
proof -
  obtain fl c where c: "out_flags f d (s < fa_maxseq a) a = (fl, c)"
    by (cases "out_flags f d (s < fa_maxseq a) a")
  have "ends_in (fa_state c) (out_send ev s d f r a)"
    unfolding out_send_def Let_def [of "s < fa_maxseq a"] c Let_def [of "(fl, c)"] prod.case
    by (intro ends_in_let ends_in_last) (simp_all add: Let_def)
  then have "fa_state b = fa_state c"
    using assms by (simp add: ends_in_def)
  then show ?thesis
    using out_flags_state [OF c] by (simp add: same_or_fin_def)
qed

lemma foutput_state:
  assumes "foutput ev s r a = Some (n, b)"
  shows "same_or_fin a b"
proof -
  define a1 where "a1 = (if fa_maxseg a = 0 then on_ecn (\<lambda>r. r\<lparr>rx_maxseg := ft_size_b (fa_tcp a)\<rparr>) a else a)"
  define a2 where "a2 = out_restart ev (out_len s a1) a1"
  define a3 where "a3 = (if out_emptying s (out_len s a1) a2 \<and> s \<noteq> fa_iss a2 \<and> fa_close_on_empty a2 \<and> fa_highest_ack a2 = fa_maxseq a2
      then a2\<lparr>fa_needclose := True\<rparr> else a2)"
  have "fa_state a3 = fa_state a"
    by (simp add: a3_def a2_def a1_def out_restart_def slow_down_def)
  moreover have "same_or_fin a3 b"
    using assms unfolding foutput_def Let_def a1_def [symmetric] a2_def [symmetric] a3_def [symmetric]
    by (auto split: if_splits dest: out_send_state simp: same_or_fin_def)
  ultimately show ?thesis
    by (simp add: same_or_fin_def)
qed

lemma sent_state: "fa_state (agent_sent s n a) = fa_state a"
  by (simp add: agent_sent_def Let_def)

lemma send_loop_state: "agent_send_loop ev force reason mb np a = Some b \<Longrightarrow> same_or_fin a b"
proof (rule agent_send_loop.raw_induct [where P = "\<lambda>ev force reason mb np a b. same_or_fin a b", rotated])
  fix loop :: "net_env \<Rightarrow> bool \<Rightarrow> int \<Rightarrow> int \<Rightarrow> int \<Rightarrow> full_agent \<Rightarrow> full_agent option"
    and ev force reason mb np a b
  assume IH: "\<And>ev force reason mb np a b. loop ev force reason mb np a = Some b \<Longrightarrow> same_or_fin a b"
    and eq: "(let seq = fa_t_seqno a
      in if \<not> force \<and> \<not> agent_send_allowed seq a then Some a
         else if \<not> force \<and> fc_overhead (fa_conf a) \<noteq> 0 \<and> \<not> fa_delsnd_on a then Some (a\<lparr>fa_delsnd_on := True\<rparr>)
         else Option.bind (foutput ev seq reason a) (\<lambda>(amt, a).
           if amt \<le> 0 then Some a
           else let a = agent_sent seq (if flag_set (outflags a) TH_FIN then amt - 1 else amt) a
                in if flag_set (outflags a) (TH_SYN OR TH_FIN) \<or> (mb \<noteq> 0 \<and> np + 1 \<ge> mb) then Some a
                   else loop ev False reason mb (np + 1) a)) = Some b"
  show "same_or_fin a b"
  proof (cases "foutput ev (fa_t_seqno a) reason a")
    case None
    then show ?thesis
      using eq by (auto simp: same_or_fin_def Let_def split: if_splits)
  next
    case (Some x)
    obtain n c where x: "x = (n, c)"
      by (cases x)
    note c = foutput_state [OF Some [unfolded x]]
    define d where "d = agent_sent (fa_t_seqno a) (if flag_set (outflags c) TH_FIN then n - 1 else n) c"
    have d: "same_or_fin a d"
      using c by (simp add: d_def same_or_fin_def sent_state)
    have "b \<in> {a, a\<lparr>fa_delsnd_on := True\<rparr>, c, d} \<or> loop ev False reason mb (np + 1) d = Some b"
      using eq unfolding Let_def Some x bind.bind_lunit prod.case d_def [symmetric] by (auto split: if_splits)
    moreover have "same_or_fin a b" if "loop ev False reason mb (np + 1) d = Some b"
      by (rule same_or_fin_trans [OF d IH [OF that]])
    ultimately show ?thesis
      using c d by (auto simp: same_or_fin_def)
  qed
qed

lemma send_much_state: "agent_send_much ev force reason mb a = Some b \<Longrightarrow> same_or_fin a b"
  by (auto simp: agent_send_much_def same_or_fin_def split: if_splits dest: send_loop_state)

lemma send_forced_state: "send_forced ev a = Some b \<Longrightarrow> same_or_fin a b"
  unfolding send_forced_def by (rule send_much_state)

lemma ack_pending_state: "ack_pending ev a = Some b \<Longrightarrow> same_or_fin a b"
  by (auto simp: ack_pending_def Let_def set_acknow_def on_rx_def ack_now_def same_or_fin_def
      split: if_splits dest!: send_forced_state)

section \<open>The two paths\<close>

text \<open>What \<open>dupack_reset_\<close> makes of a segment of data that acknowledges nothing new.\<close>

definition dup_reset :: "full_agent \<Rightarrow> full_agent" where
  "dup_reset a = (if fc_dupack_reset (fa_conf a) then a\<lparr>fa_dupacks := 0, fa_fastrecov := False\<rparr> else a)"

lemma dup_reset_notes: "note_ce p n (note_ts ev q (dup_reset a)) = dup_reset (note_ce p n (note_ts ev q a))"
  by (simp add: note_ce_def note_ts_def dup_reset_def on_ecn_def on_rx_def)

text \<open>The attempt to send more, which ends a packet on the slow path.\<close>

definition send_more :: "net_env \<Rightarrow> full_agent \<Rightarrow> full_agent option" where
  "send_more ev b = (if fa_curseq b \<ge> fa_highest_ack b \<or> fa_infinite_send b
     then agent_send_much ev False REASON_NORMAL (fc_maxburst (fa_conf b)) b else Some b)"

lemma predicted_flags:
  assumes "predict_ok p a"
  shows "\<not> flag_set (ts_flags (fp_seg p)) TH_SYN" "\<not> flag_set (ts_flags (fp_seg p)) TH_FIN" "flag_set (ts_flags (fp_seg p)) TH_ACK"
proof -
  let ?x = "ts_flags (fp_seg p)"
  have m: "?x AND (TH_SYN OR TH_FIN OR TH_ACK) = TH_ACK"
    using assms by (simp add: predict_ok_def)
  have "?x AND f = TH_ACK AND f" if "(TH_SYN OR TH_FIN OR TH_ACK) AND f = f" for f
  proof -
    have "?x AND f = (?x AND (TH_SYN OR TH_FIN OR TH_ACK)) AND f"
      by (simp only: and.assoc that)
    then show ?thesis
      by (simp only: m)
  qed
  from this [of TH_SYN] this [of TH_FIN] this [of TH_ACK]
  show "\<not> flag_set ?x TH_SYN" "\<not> flag_set ?x TH_FIN" "flag_set ?x TH_ACK"
    by (simp_all add: flag_set_def full_codes)
qed

text \<open>The slow path up to the data: nothing is trimmed, and the second \<open>switch\<close> ends with the reset.\<close>

lemma predicted_trim:
  assumes "predict_ok p a" and "R = fa_rx a"
  shows "trim_data (fp_seg p) n fl R = (fp_seg p, n, fl, R)"
  using assms by (simp add: trim_data_def predict_ok_def i32_def)

lemma slow_to_step6:
  assumes p: "predict_ok p a" and n: "0 < n" "fp_ackno p = fa_highest_ack a"
    and si: "si = \<lparr>si_pkt = p, si_datalen = n, si_tiflags = ts_flags (fp_seg p), si_dupseg = False, si_needoutput = False\<rparr>"
  shows "\<exists>dup. recv_slow ev si a = recv_step6 ev (si\<lparr>si_dupseg := dup\<rparr>) (note_ce p n (note_ts ev p (dup_reset a)))"
proof -
  note fl = predicted_flags [OF p]
  define dup where "dup = all_old (fp_seg p) n (ts_flags (fp_seg p)) (fa_rx a)"
  define a1 where "a1 = note_ts ev p a"
  have st: "fa_state a = TCPS_ESTABLISHED_num" "\<not> (ft_ts_option (fa_tcp a) \<and> \<not> fp_no_ts p \<and> fp_ts p < fa_recent a)"
    using p by (auto simp: predict_ok_def)
  have 1: "recv_special ev si a = Some (Go_on, si, a)"
    using st(1) by (simp add: recv_special_def full_codes)
  have 2: "recv_trim ev si a = Some (Go_on, si\<lparr>si_dupseg := dup\<rparr>, a1)"
    using fl st(2) by (auto simp: recv_trim_def si predicted_trim [OF p refl] dup_def a1_def Let_def)
  have s1: "fa_state a1 = TCPS_ESTABLISHED_num" "fa_highest_ack a1 = fa_highest_ack a"
    using st(1) by (simp_all add: a1_def note_ts_def)
  then have "recv_acks ev (si\<lparr>si_dupseg := dup\<rparr>) a1 = recv_ack ev (si\<lparr>si_dupseg := dup\<rparr>) a1"
    by (simp add: recv_acks_def full_codes)
  also have "\<dots> = Some (Step6, si\<lparr>si_dupseg := dup\<rparr>, dup_reset (note_ce p n a1))"
    using n s1 by (simp add: recv_ack_def recv_dup_ack_def si note_ce_def on_ecn_def on_rx_def dup_reset_def Let_def)
  finally show ?thesis
    unfolding dup_reset_notes by (simp add: recv_slow_def 1 2 go_to_def leave_def a1_def [symmetric] exI [of _ dup])
qed

lemma step6_next:
  assumes b: "fa_state b = TCPS_ESTABLISHED_num" and s: "ts_seqno (fp_seg p) = fa_rcv_nxt b" "rq_empty (fr_q (fa_rx b))"
    and f: "\<not> flag_set (ts_flags (fp_seg p)) TH_FIN" and n: "0 < n"
    and si: "si_pkt si = p" "si_datalen si = n" "ack_pending ev b = Some b1"
  shows "recv_step6 ev si b = (if need_send (fa_ecn (take_next n b1)) then send_forced ev (take_next n b1)
     else send_more ev (take_next n b1))"
proof -
  let ?c = "take_next n b1"
  define si' where "si' = si\<lparr>si_tiflags := ts_flags (fp_seg p) AND TH_FIN, si_needoutput := need_send (fa_ecn ?c)\<rparr>"
  have nf: "\<not> have_rcvd_fin (fa_state b)"
    using b by (simp add: have_rcvd_fin_def full_codes)
  have acc: "accept_seg ev si b = Some (si', ?c)"
    using n nf s by (simp add: accept_seg_def si si'_def Let_def)
  have fs: "fin_seg (si_tiflags si') ?c = ?c"
    using f by (simp add: fin_seg_def si'_def take_fin_def on_rx_def)
  have b1: "fa_state ?c = TCPS_ESTABLISHED_num \<or> fa_state ?c = TCPS_FIN_WAIT_1_num"
    using ack_pending_state [OF si(3)] b
    by (auto simp: same_or_fin_def take_next_def set_rcv_nxt_def set_rcv_def on_rx_def on_ecn_def Let_def)
  have last: "(if \<not> fc_halfclose (fa_conf d) \<and> fa_state d = TCPS_CLOSE_WAIT_num \<and> fa_highest_ack d = fa_maxseq d
      then usrclosed ev d else Some d) = Some d" if "same_or_fin ?c d" for d
    using that b1 by (auto simp: same_or_fin_def full_codes)
  have k: "Option.bind r (\<lambda>d. if \<not> fc_halfclose (fa_conf d) \<and> fa_state d = TCPS_CLOSE_WAIT_num \<and> fa_highest_ack d = fa_maxseq d
      then usrclosed ev d else Some d) = r" if "\<And>d. r = Some d \<Longrightarrow> same_or_fin ?c d" for r
    using last that by (cases r) simp_all
  have more: "same_or_fin ?c d" if "send_more ev ?c = Some d" for d
    using that by (auto simp: send_more_def same_or_fin_def split: if_splits dest!: send_much_state)
  have cond: "(si_needoutput si' \<or> rx_acknow (fa_ecn ?c)) = need_send (fa_ecn ?c)"
    using need_send_acknow [of "fa_ecn ?c"] by (auto simp: si'_def)
  have "recv_step6 ev si b = Option.bind (if need_send (fa_ecn ?c) then send_forced ev ?c else send_more ev ?c)
      (\<lambda>d. if \<not> fc_halfclose (fa_conf d) \<and> fa_state d = TCPS_CLOSE_WAIT_num \<and> fa_highest_ack d = fa_maxseq d
        then usrclosed ev d else Some d)"
    unfolding recv_step6_def acc bind.bind_lunit prod.case Let_def fs cond send_more_def ..
  also have "\<dots> = (if need_send (fa_ecn ?c) then send_forced ev ?c else send_more ev ?c)"
    by (rule k) (auto split: if_splits dest: send_forced_state more)
  finally show ?thesis .
qed

text \<open>
  The predicted path against the slow one. \<open>due\<close>: an acknowledgment is due after the data.
\<close>

lemma slow_is_predicted:
  assumes p: "predict_ok p a" "\<not> fc_nopredict (fa_conf a)" and n: "0 < n" "fp_ackno p = fa_highest_ack a"
    and q: "rq_empty (fr_q (fa_rx a))" and a1: "ack_pending ev (note_ce p n (note_ts ev p (dup_reset a))) = Some a1"
    and due: "due \<longleftrightarrow> need_send (fa_ecn (take_next n a1))" and fast: "recv_fast ev p n (dup_reset a) = Some r"
    and si: "si = \<lparr>si_pkt = p, si_datalen = n, si_tiflags = ts_flags (fp_seg p), si_dupseg = False, si_needoutput = False\<rparr>"
  shows "\<exists>b. r = Inl b \<and> recv_slow ev si a = (if due then Some b else send_more ev b)"
proof -
  let ?b = "note_ce p n (note_ts ev p (dup_reset a))"
  have b: "fa_state ?b = fa_state a" "fa_rcv_nxt ?b = fa_rcv_nxt a" "fr_q (fa_rx ?b) = fr_q (fa_rx a)"
    by (simp_all add: note_ce_def note_ts_def dup_reset_def on_ecn_def on_rx_def)
  have p': "predict_ok p (dup_reset a)" "\<not> fc_nopredict (fa_conf (dup_reset a))"
    using p by (simp_all add: predict_ok_def dup_reset_def)
  have h: "fp_ackno p = fa_highest_ack ?b"
    using n(2) by (simp add: note_ce_def note_ts_def dup_reset_def on_ecn_def on_rx_def)
  obtain dup where "recv_slow ev si a = recv_step6 ev (si\<lparr>si_dupseg := dup\<rparr>) ?b"
    using slow_to_step6 [OF p(1) n si] by blast
  also have "\<dots> = (if due then send_forced ev (take_next n a1) else send_more ev (take_next n a1))"
    unfolding due by (rule step6_next [OF _ _ _ predicted_flags(2) [OF p(1)] n(1)])
      (use p(1) q b a1 in \<open>simp_all add: predict_ok_def si\<close>)
  finally have slow: "recv_slow ev si a = (if due then send_forced ev (take_next n a1) else send_more ev (take_next n a1))" .
  have "recv_fast ev p n (dup_reset a)
      = Option.bind (if due then send_forced ev (take_next n a1) else Some (take_next n a1)) (\<lambda>a. Some (Inl a))"
    using p' n(1) h q b(3) by (simp add: recv_fast_def Let_def a1 due)
  then show ?thesis
    using fast slow by (cases due) (auto split: Option.bind_splits)
qed

end
