(* ===== verification/CC_Prelude.thy ===== *)
theory CC_Prelude
  imports Main "HOL-Library.Word" "HOL-Library.Monad_Syntax" "HOL-Library.Signed_Division"
begin

text \<open>
  Shared vocabulary of the development: the C integer types of the TCP-Linux sources at the
  width they have on the build recorded in \<open>ns-2.35/config.log\<close> (x86-64, LP64), C
  conversions between them, division that may trap, and generic lemmas on words.

  \<open>ns-linux-util.h\<close> defines \<open>__u32\<close> as \<open>unsigned long\<close> and \<open>__u16\<close> as
  \<open>unsigned int\<close>: on LP64 a "u32" is 64 bits wide and a "u16" 32 bits wide. The model
  keeps the source's names for the types and these real widths.

  Every operation that may fail to return (a division by zero, a shift by a negative or too
  large amount, a write through a null pointer, an endless loop) has an option type: \<open>None\<close>
  is "the call does not return normally".
\<close>

unbundle bit_operations_syntax

type_synonym u8 = "8 word"      \<comment> \<open>unsigned char\<close>
type_synonym u16 = "32 word"    \<comment> \<open>unsigned int\<close>
type_synonym u32 = "64 word"    \<comment> \<open>unsigned long\<close>
type_synonym u64 = "64 word"    \<comment> \<open>unsigned long long\<close>
type_synonym s64 = "64 word"    \<comment> \<open>long long (and long), read with \<open>sint\<close>\<close>
type_synonym cint = "32 word"   \<comment> \<open>int, read with \<open>sint\<close>\<close>
type_synonym uint32 = "32 word" \<comment> \<open>uint32_t of the C library\<close>

text \<open>The usual arithmetic conversions towards \<open>unsigned long\<close>, and narrowing back.\<close>

abbreviation u16_u32 :: "u16 \<Rightarrow> u32" where "u16_u32 x \<equiv> ucast x"
abbreviation u8_u32 :: "u8 \<Rightarrow> u32" where "u8_u32 x \<equiv> ucast x"
abbreviation int_u32 :: "cint \<Rightarrow> u32" where "int_u32 x \<equiv> scast x"
abbreviation u32_u16 :: "u32 \<Rightarrow> u16" where "u32_u16 x \<equiv> ucast x"
abbreviation u32_u8 :: "u32 \<Rightarrow> u8" where "u32_u8 x \<equiv> ucast x"
abbreviation u32_int :: "u32 \<Rightarrow> cint" where "u32_int x \<equiv> ucast x"

definition cdiv :: "'a::len word \<Rightarrow> 'a word \<Rightarrow> 'a word option" where
  "cdiv a b = (if b = 0 then None else Some (a div b))"

definition cmod :: "'a::len word \<Rightarrow> 'a word \<Rightarrow> 'a word option" where
  "cmod a b = (if b = 0 then None else Some (a mod b))"

definition require :: "bool \<Rightarrow> unit option" where
  "require b = (if b then Some () else None)"

text \<open>Facts about operations that may fail: used as simp rules by every component.\<close>

named_theorems returns_simps

lemma cdiv_Some [returns_simps]: "b \<noteq> 0 \<Longrightarrow> cdiv a b = Some (a div b)"
  by (simp add: cdiv_def)

lemma cdiv_None_iff: "cdiv a b = None \<longleftrightarrow> b = 0"
  by (simp add: cdiv_def)

lemma cdiv_eq_Some_iff: "cdiv a b = Some q \<longleftrightarrow> b \<noteq> 0 \<and> q = a div b"
  by (auto simp: cdiv_def)

lemma cmod_Some [returns_simps]: "b \<noteq> 0 \<Longrightarrow> cmod a b = Some (a mod b)"
  by (simp add: cmod_def)

lemma require_Some_iff [simp]: "require b = Some u \<longleftrightarrow> b"
  by (simp add: require_def)

lemma require_True [returns_simps]: "b \<Longrightarrow> require b = Some ()"
  by (simp add: require_def)

lemma bind_ex_SomeI: "m = Some x \<Longrightarrow> (\<exists>y. f x = Some y) \<Longrightarrow> \<exists>y. (m \<bind> f) = Some y"
  by simp

section \<open>Words\<close>

text \<open>Widening keeps the value; it never reaches the top of the wider type.\<close>

lemma unat_u16_u32 [simp]: "unat (u16_u32 c) = unat c"
  by (simp add: unsigned_ucast_eq take_bit_nat_eq_self unsigned_less [THEN less_le_trans])

lemma unat_u8_u32 [simp]: "unat (u8_u32 c) = unat c"
  by (simp add: unsigned_ucast_eq take_bit_nat_eq_self unsigned_less [THEN less_le_trans])

lemma unat_u16_bound: "unat (c :: u16) < 4294967296"
  using unsigned_less [of c, where ?'a = nat] by simp

lemma unat_u8_bound: "unat (c :: u8) < 256"
  using unsigned_less [of c, where ?'a = nat] by simp

lemma unat_u32_bound: "unat (c :: u32) < 18446744073709551616"
  using unsigned_less [of c, where ?'a = nat] by simp

lemma unat_narrow_u16: "unat (u32_u16 x) = unat x mod 4294967296"
  by (simp add: unsigned_ucast_eq take_bit_eq_mod)

lemma unat_narrow_u16_small: "unat x < 4294967296 \<Longrightarrow> unat (u32_u16 x) = unat x"
  by (simp add: unat_narrow_u16)

lemma unat_add_small:
  "unat (a :: u32) + unat b < 18446744073709551616 \<Longrightarrow> unat (a + b) = unat a + unat b"
  by (simp add: unat_word_ariths)

lemma unat_mult_small:
  "unat (a :: u32) * unat b < 18446744073709551616 \<Longrightarrow> unat (a * b) = unat a * unat b"
  by (simp add: unat_word_ariths)

lemma unat_inc_below: "(w :: u32) < c \<Longrightarrow> unat (w + 1) = unat w + 1"
  using unsigned_less [of c, where ?'a = nat] by (simp add: word_less_nat_alt unat_word_ariths)

lemma unat_inc_small: "unat (w :: u32) < 18446744073709551615 \<Longrightarrow> unat (w + 1) = unat w + 1"
  by (simp add: unat_word_ariths)

lemma unat_inc_u16: "unat (w :: u32) < unat (c :: u16) \<Longrightarrow> unat (w + 1) = unat w + 1"
  using unat_u16_bound [of c] by (intro unat_inc_small) linarith

lemma less_u16_u32_iff: "(w :: u32) < u16_u32 c \<longleftrightarrow> unat w < unat c"
  by (simp add: word_less_nat_alt)

lemma le_u16_u32_iff: "(w :: u32) \<le> u16_u32 c \<longleftrightarrow> unat w \<le> unat c"
  by (simp add: word_le_nat_alt)

lemma unat_sub_le: "(b :: 'a::len word) \<le> a \<Longrightarrow> unat (a - b) = unat a - unat b"
  by (rule unat_sub)

lemma word_pos_iff_unat: "(0 < (w :: 'a::len word)) = (0 < unat w)"
  by (simp add: word_less_nat_alt)

lemma unat_max_word: "unat (max a b) = max (unat a) (unat (b :: 'a::len word))"
  by (auto simp: max_def word_le_nat_alt)

lemma unat_min_word: "unat (min a b) = min (unat a) (unat (b :: 'a::len word))"
  by (auto simp: min_def word_le_nat_alt)

text \<open>Signed parameters: a non-negative \<open>int\<close> keeps its value when it is converted.\<close>

lemma sint_cint_less: "sint (x :: cint) < 2147483648"
  using signed_take_bit_int_less_exp [of 31 "uint x"] by (simp add: sint_uint)

lemma nat_sint_bound: "nat (sint (x :: cint)) < 2147483648"
  using sint_cint_less [of x] by linarith

lemma unat_int_u32: "0 \<le> sint (x :: cint) \<Longrightarrow> unat (int_u32 x) = nat (sint x)"
proof -
  assume p: "0 \<le> sint x"
  have "sint x < 2 ^ LENGTH(64)" using sint_cint_less [of x] by simp
  then have "uint (int_u32 x) = sint x" unfolding scast_eq uint_word_of_int
    using p by (intro mod_pos_pos_trivial)
  then show ?thesis by (simp only: unat_eq_nat_uint)
qed

lemma sint_cint_unat: "unat (x :: cint) < 2147483648 \<Longrightarrow> sint x = int (unat x)"
proof -
  assume u: "unat x < 2147483648"
  have "sint x = signed_take_bit 31 (int (unat x))" by (simp add: sint_uint)
  also have "\<dots> = int (unat x)"
  proof (rule signed_take_bit_int_eq_self)
    show "- (2 ^ 31) \<le> int (unat x)" by (rule order_trans [of _ 0]) simp_all
    have p: "(2 :: int) ^ 31 = 2147483648" by simp
    show "int (unat x) < 2 ^ 31" unfolding p using u by linarith
  qed
  finally show ?thesis .
qed

lemma int_u32_of_small: "unat (q :: u32) < 2147483648 \<Longrightarrow> int_u32 (u32_int q) = q"
proof -
  assume q: "unat q < 2147483648"
  then have u: "unat (u32_int q) = unat q" by (simp add: unsigned_ucast_eq take_bit_nat_eq_self)
  then have "sint (u32_int q) = int (unat q)" using q by (simp add: sint_cint_unat)
  then show ?thesis by (simp add: scast_eq)
qed

lemma word_neq_0_unat: "(w :: 'a::len word) \<noteq> 0 \<longleftrightarrow> 0 < unat w"
  by (simp add: unat_gt_0)

lemma unat_shift: "unat (drop_bit n (w :: 'a::len word)) = unat w div 2 ^ n"
  by (rule trans [OF unat_drop_bit_eq drop_bit_eq_div])

lemma unat_shift_le: "unat (drop_bit n (w :: 'a::len word)) \<le> unat w"
  unfolding unat_shift by (rule div_le_dividend)

lemma unat_cint: "0 \<le> sint (x :: cint) \<Longrightarrow> unat x = nat (sint x)"
proof -
  assume p: "0 \<le> sint x"
  have "sint x < 2 ^ LENGTH(32)" using sint_cint_less [of x] by simp
  then have "uint (word_of_int (sint x) :: cint) = sint x" unfolding uint_word_of_int
    using p by (intro mod_pos_pos_trivial)
  then show ?thesis by (simp only: unat_eq_nat_uint of_int_sint scast_id)
qed

lemma int_u32_unat: "unat (x :: cint) < 2147483648 \<Longrightarrow> unat (int_u32 x) = unat x"
  by (simp add: sint_cint_unat unat_int_u32)

text \<open>Fixed-point scaling \<open>a * b / c\<close>.\<close>

lemma unat_scale:
  "unat (a :: u32) * unat b < 18446744073709551616 \<Longrightarrow>
     unat ((a * b) div c) = unat a * unat b div unat c"
  by (simp add: unat_div unat_mult_small)

lemma scale_le: "b \<le> c \<Longrightarrow> a * b div c \<le> (a :: nat)"
proof -
  assume "b \<le> c"
  then have "a * b div c \<le> a * c div c" by (intro div_le_mono mult_le_mono2)
  also have "\<dots> \<le> a" by (cases "c = 0") simp_all
  finally show ?thesis .
qed

lemma unat_mult_bound:
  "unat (a :: u32) < 4294967296 \<Longrightarrow> unat b \<le> 4294967296 \<Longrightarrow> unat a * unat b < 18446744073709551616"
  using mult_le_mono [of "unat a" 4294967295 "unat b" 4294967296] by linarith

lemma unat_push_u32:
  "unat (x :: u32) * 2 ^ k < 18446744073709551616 \<Longrightarrow> unat (push_bit k x) = unat x * 2 ^ k"
  by (simp add: unsigned_push_bit_eq take_bit_nat_eq_self push_bit_eq_mult [where ?'a = nat]
      del: push_bit_eq_mult)

text \<open>The sliding average \<open>ratio = ratio - ratio / 16 + sample\<close> of BIC and CUBIC.\<close>

lemma ratio_average:
  fixes d cnt :: u32
  assumes "1 \<le> unat d" and "unat d \<le> 68719476736" and "0 < unat cnt" and "unat cnt < 4294967296"
  shows "unat (d + (cnt - drop_bit 4 d)) = unat d - unat d div 16 + unat cnt"
    and "1 \<le> unat (d + (cnt - drop_bit 4 d))" and "unat (d + (cnt - drop_bit 4 d)) \<le> 68719476736"
proof -
  have s: "unat (drop_bit 4 d) = unat d div 16" unfolding unat_shift by simp
  have le: "drop_bit 4 d \<le> d" unfolding word_le_nat_alt by (rule unat_shift_le)
  have eq: "d + (cnt - drop_bit 4 d) = (d - drop_bit 4 d) + cnt" by simp
  have sub: "unat (d - drop_bit 4 d) = unat d - unat d div 16" using unat_sub_le [OF le] s by simp
  show v: "unat (d + (cnt - drop_bit 4 d)) = unat d - unat d div 16 + unat cnt"
    unfolding eq using assms sub by (subst unat_add_small) linarith+
  show "1 \<le> unat (d + (cnt - drop_bit 4 d))" "unat (d + (cnt - drop_bit 4 d)) \<le> 68719476736"
    unfolding v using assms by linarith+
qed

text \<open>A window scaled by \<open>beta / 1024\<close> and by \<open>(1024 + beta) / 2048\<close>.\<close>

lemma beta_scale_1024:
  fixes b :: cint and c :: u32
  assumes "0 \<le> sint b" and "sint b \<le> 1024" and "unat c < 4294967296"
  shows "unat ((c * int_u32 b) div 1024) = unat c * nat (sint b) div 1024"
    and "unat c * nat (sint b) div 1024 \<le> unat c"
    and "unat ((c * int_u32 (1024 + b)) div 2048) = unat c * (1024 + nat (sint b)) div 2048"
    and "unat c * (1024 + nat (sint b)) div 2048 \<le> unat c"
proof -
  let ?b = "nat (sint b)"
  have b: "unat (int_u32 b) = ?b" "?b \<le> 1024" "unat b = ?b"
    using assms(1,2) by (simp_all add: unat_int_u32 unat_cint nat_le_iff)
  have "unat (1024 + b) = 1024 + ?b" using b(2,3) by (simp add: unat_word_ariths)
  then have b1: "unat (int_u32 (1024 + b)) = 1024 + ?b" using b(2) by (simp add: int_u32_unat)
  show "unat ((c * int_u32 b) div 1024) = unat c * ?b div 1024"
    using unat_scale [OF unat_mult_bound [OF assms(3), of "int_u32 b"], of 1024] b by simp
  show "unat ((c * int_u32 (1024 + b)) div 2048) = unat c * (1024 + ?b) div 2048"
    using unat_scale [OF unat_mult_bound [OF assms(3), of "int_u32 (1024 + b)"], of 2048] b(2) b1 by simp
  show "unat c * ?b div 1024 \<le> unat c" using b(2) by (intro scale_le)
  show "unat c * (1024 + ?b) div 2048 \<le> unat c" using b(2) by (intro scale_le) simp
qed

end
