(* ===== verification/Tcp_Sock.thy ===== *)
theory Tcp_Sock
  imports CC_Prelude
begin

text \<open>
  The data that every congestion control module shares (\<open>tcp/linux/ns-linux-util.h\<close>,
  \<open>ns-linux-util.cc\<close>, \<open>ns-linux-param.c\<close>): the socket \<open>struct tcp_sock\<close>, the
  kernel-wide variables, the events and states of the congestion control interface and the
  table of operations \<open>struct tcp_congestion_ops\<close>.

  The private area \<open>icsk_ca_priv[16]\<close> is read by a module through a cast to its own
  struct (\<open>inet_csk_ca\<close>). The socket record is polymorphic in it, and a module's handlers
  work on the socket whose private area is the module's record. \<open>tcp_sk\<close>, \<open>inet_csk\<close>,
  \<open>struct sock\<close> and \<open>struct inet_connection_sock\<close> are the socket itself
  (\<open>#define tcp_sk(sk) (sk)\<close>, \<open>#define sock tcp_sock\<close>).
\<close>

datatype tcp_ca_event =
    CA_EVENT_TX_START
  | CA_EVENT_CWND_RESTART
  | CA_EVENT_COMPLETE_CWR
  | CA_EVENT_FRTO
  | CA_EVENT_LOSS
  | CA_EVENT_FAST_ACK
  | CA_EVENT_SLOW_ACK

datatype tcp_ca_state =
    TCP_CA_Open
  | TCP_CA_Disorder
  | TCP_CA_CWR
  | TCP_CA_Recovery
  | TCP_CA_Loss

record tcp_options_received =
  rcv_tsval :: u32
  rcv_tsecr :: u32
  saw_tstamp :: "1 word" \<comment> \<open>a one-bit field\<close>

type_synonym addr = nat \<comment> \<open>address of a \<open>struct tcp_congestion_ops\<close>\<close>

record 'p tcp_sock =
  sk_state :: cint
  snd_nxt :: u32
  snd_una :: u32
  mss_cache :: u32
  srtt :: u32
  rx_opt :: tcp_options_received
  snd_ssthresh :: u32
  snd_cwnd :: u32
  snd_cwnd_cnt :: u16
  snd_cwnd_clamp :: u16
  snd_cwnd_stamp :: u32
  bytes_acked :: u32
  icsk_ca_ops :: "addr option"
  icsk_ca_state :: tcp_ca_state
  icsk_ca_priv :: 'p

text \<open>The global variables the modules read. \<open>jiffies\<close> is \<open>tcp_time_stamp\<close>.\<close>

record kernel =
  tcp_time_stamp :: u32
  ktime_get_real :: s64
  sysctl_tcp_abc :: u8
  sysctl_tcp_max_ssthresh :: cint

definition HZ :: u32 where "HZ = 1000"

definition msecs_to_jiffies :: "u32 \<Rightarrow> u32" where
  "msecs_to_jiffies x = (1000 div 1000) * x" \<comment> \<open>JIFFY_RATIO / MS_RATIO\<close>

definition default_kernel :: kernel where
  "default_kernel = \<lparr>tcp_time_stamp = 0, ktime_get_real = 0, sysctl_tcp_abc = 1,
     sysctl_tcp_max_ssthresh = 0\<rparr>"

definition TCP_CONG_NON_RESTRICTED :: u32 where "TCP_CONG_NON_RESTRICTED = 1"
definition TCP_CONG_RTT_STAMP :: u32 where "TCP_CONG_RTT_STAMP = 2"

text \<open>
  The operations table. An optional operation that a module leaves out is \<open>None\<close> (a null
  function pointer). An operation takes the kernel variables, the socket and its arguments.
\<close>

record 'p tcp_congestion_ops =
  op_flags :: u32
  op_init :: "(kernel \<Rightarrow> 'p tcp_sock \<Rightarrow> 'p tcp_sock option) option"
  op_release :: "(kernel \<Rightarrow> 'p tcp_sock \<Rightarrow> 'p tcp_sock option) option"
  op_ssthresh :: "(kernel \<Rightarrow> 'p tcp_sock \<Rightarrow> (u32 \<times> 'p tcp_sock) option) option"
  op_min_cwnd :: "('p tcp_sock \<Rightarrow> u32 option) option"
  op_cong_avoid ::
    "(kernel \<Rightarrow> 'p tcp_sock \<Rightarrow> u32 \<Rightarrow> u32 \<Rightarrow> u32 \<Rightarrow> cint \<Rightarrow> 'p tcp_sock option) option"
  op_rtt_sample :: "(kernel \<Rightarrow> 'p tcp_sock \<Rightarrow> u32 \<Rightarrow> 'p tcp_sock option) option"
  op_set_state :: "(kernel \<Rightarrow> 'p tcp_sock \<Rightarrow> tcp_ca_state \<Rightarrow> 'p tcp_sock option) option"
  op_cwnd_event :: "(kernel \<Rightarrow> 'p tcp_sock \<Rightarrow> tcp_ca_event \<Rightarrow> 'p tcp_sock option) option"
  op_undo_cwnd :: "(kernel \<Rightarrow> 'p tcp_sock \<Rightarrow> (u32 \<times> 'p tcp_sock) option) option"
  op_pkts_acked :: "(kernel \<Rightarrow> 'p tcp_sock \<Rightarrow> u32 \<Rightarrow> s64 \<Rightarrow> 'p tcp_sock option) option"
  op_get_info :: "('p tcp_sock \<Rightarrow> u32 \<Rightarrow> 'p tcp_sock option) option"
  op_name :: string

text \<open>A table with every optional entry null: a designated initialiser zeroes what it omits.\<close>

definition null_ops :: "'p tcp_congestion_ops" where
  "null_ops = \<lparr>op_flags = 0, op_init = None, op_release = None, op_ssthresh = None,
     op_min_cwnd = None, op_cong_avoid = None, op_rtt_sample = None, op_set_state = None,
     op_cwnd_event = None, op_undo_cwnd = None, op_pkts_acked = None, op_get_info = None,
     op_name = ''''\<rparr>"

text \<open>\<open>#define tcp_is_cwnd_limited(sk, in_flight) ((in_flight) >= (sk)->snd_cwnd)\<close>\<close>

definition tcp_is_cwnd_limited :: "'p tcp_sock \<Rightarrow> u32 \<Rightarrow> bool" where
  "tcp_is_cwnd_limited sk in_flight \<longleftrightarrow> snd_cwnd sk \<le> in_flight"

text \<open>Writing the module's private struct in place, \<open>ca->f = v\<close>.\<close>

definition upd_ca :: "('p \<Rightarrow> 'p) \<Rightarrow> 'p tcp_sock \<Rightarrow> 'p tcp_sock" where
  "upd_ca f sk = sk\<lparr>icsk_ca_priv := f (icsk_ca_priv sk)\<rparr>"

lemma upd_ca_simps [simp]:
  "icsk_ca_priv (upd_ca f sk) = f (icsk_ca_priv sk)"
  "sk_state (upd_ca f sk) = sk_state sk"
  "snd_nxt (upd_ca f sk) = snd_nxt sk"
  "snd_una (upd_ca f sk) = snd_una sk"
  "mss_cache (upd_ca f sk) = mss_cache sk"
  "srtt (upd_ca f sk) = srtt sk"
  "rx_opt (upd_ca f sk) = rx_opt sk"
  "snd_ssthresh (upd_ca f sk) = snd_ssthresh sk"
  "snd_cwnd (upd_ca f sk) = snd_cwnd sk"
  "snd_cwnd_cnt (upd_ca f sk) = snd_cwnd_cnt sk"
  "snd_cwnd_clamp (upd_ca f sk) = snd_cwnd_clamp sk"
  "snd_cwnd_stamp (upd_ca f sk) = snd_cwnd_stamp sk"
  "bytes_acked (upd_ca f sk) = bytes_acked sk"
  "icsk_ca_ops (upd_ca f sk) = icsk_ca_ops sk"
  "icsk_ca_state (upd_ca f sk) = icsk_ca_state sk"
  by (simp_all add: upd_ca_def)

lemma upd_ca_upd_ca [simp]: "upd_ca f (upd_ca g sk) = upd_ca (\<lambda>ca. f (g ca)) sk"
  by (simp add: upd_ca_def)

lemma upd_ca_eqI: "f (icsk_ca_priv sk) = g (icsk_ca_priv sk) \<Longrightarrow> upd_ca f sk = upd_ca g sk"
  by (simp add: upd_ca_def)

text \<open>
  What the sender keeps true of a socket between calls: a window, a threshold and a clamp of
  at least one segment, a non-zero segment size, windows below a limit \<open>L\<close>. The clamp is
  loaded from an \<open>int\<close>, so it is below \<open>2 ^ 31\<close>; for every module but one \<open>L\<close> is
  \<open>2 ^ 31\<close> too (\<open>win_limit\<close>).
\<close>

definition win_limit :: nat where "win_limit = 2147483648"

definition sock_ok :: "nat \<Rightarrow> 'p tcp_sock \<Rightarrow> bool" where
  "sock_ok L sk \<longleftrightarrow> 1 \<le> unat (snd_cwnd sk) \<and> unat (snd_cwnd sk) < L \<and>
     1 \<le> unat (snd_ssthresh sk) \<and> unat (snd_ssthresh sk) < L \<and>
     1 \<le> unat (snd_cwnd_clamp sk) \<and> unat (snd_cwnd_clamp sk) < 2 ^ 31 \<and> 2 ^ 31 \<le> L \<and>
     1 \<le> unat (mss_cache sk) \<and> unat (mss_cache sk) < 2 ^ 31"

lemma sock_okD:
  assumes "sock_ok L sk"
  shows "snd_cwnd sk \<noteq> 0" and "snd_cwnd_clamp sk \<noteq> 0" and "mss_cache sk \<noteq> 0"
    and "unat (snd_cwnd sk) < L" and "1 \<le> unat (snd_cwnd sk)"
    and "unat (snd_ssthresh sk) < L" and "unat (snd_cwnd_clamp sk) < 2 ^ 31" and "2 ^ 31 \<le> L"
    and "unat (snd_cwnd_clamp sk) < L" and "1 \<le> unat (snd_cwnd_clamp sk)"
    and "1 \<le> unat (snd_ssthresh sk)"
  using assms by (auto simp: sock_ok_def)

lemma sock_ok_upd_ca [simp]: "sock_ok L (upd_ca f sk) = sock_ok L sk"
  by (simp add: sock_ok_def)

text \<open>Updates of fields that \<open>sock_ok\<close> does not read.\<close>

lemma sock_ok_frame [simp]:
  "sock_ok L (sk\<lparr>snd_cwnd_cnt := c\<rparr>) = sock_ok L sk"
  "sock_ok L (sk\<lparr>bytes_acked := b\<rparr>) = sock_ok L sk"
  "sock_ok L (sk\<lparr>snd_cwnd_stamp := t\<rparr>) = sock_ok L sk"
  "sock_ok L (sk\<lparr>icsk_ca_state := st\<rparr>) = sock_ok L sk"
  "sock_ok L (sk\<lparr>icsk_ca_priv := p\<rparr>) = sock_ok L sk"
  "sock_ok L (sk\<lparr>snd_nxt := n\<rparr>) = sock_ok L sk"
  "sock_ok L (sk\<lparr>snd_una := u\<rparr>) = sock_ok L sk"
  "sock_ok L (sk\<lparr>srtt := r\<rparr>) = sock_ok L sk"
  "sock_ok L (sk\<lparr>rx_opt := x\<rparr>) = sock_ok L sk"
  by (simp_all add: sock_ok_def)

lemma sock_ok_set_cwnd:
  "sock_ok L sk \<Longrightarrow> 1 \<le> unat w \<Longrightarrow> unat w < L \<Longrightarrow> sock_ok L (sk\<lparr>snd_cwnd := w\<rparr>)"
  by (simp add: sock_ok_def)

lemma sock_ok_set_ssthresh:
  "sock_ok L sk \<Longrightarrow> 1 \<le> unat w \<Longrightarrow> unat w < L \<Longrightarrow> sock_ok L (sk\<lparr>snd_ssthresh := w\<rparr>)"
  by (simp add: sock_ok_def)

text \<open>The increment every module performs: \<open>if (cwnd < clamp) cwnd++\<close>.\<close>

definition inc_cwnd_clamped :: "'p tcp_sock \<Rightarrow> 'p tcp_sock" where
  "inc_cwnd_clamped tp =
     (if snd_cwnd tp < u16_u32 (snd_cwnd_clamp tp) then tp\<lparr>snd_cwnd := snd_cwnd tp + 1\<rparr> else tp)"

lemma inc_cwnd_clamped_unat:
  "unat (snd_cwnd (inc_cwnd_clamped tp)) =
     (if unat (snd_cwnd tp) < unat (snd_cwnd_clamp tp) then unat (snd_cwnd tp) + 1
      else unat (snd_cwnd tp))"
  by (auto simp: inc_cwnd_clamped_def less_u16_u32_iff unat_inc_u16)

lemma inc_cwnd_clamped_ok [intro]: "sock_ok L tp \<Longrightarrow> sock_ok L (inc_cwnd_clamped tp)"
  by (auto simp: sock_ok_def inc_cwnd_clamped_def less_u16_u32_iff unat_inc_u16)

lemma inc_cwnd_clamped_frame [simp]:
  "icsk_ca_priv (inc_cwnd_clamped tp) = icsk_ca_priv tp"
  "snd_cwnd_clamp (inc_cwnd_clamped tp) = snd_cwnd_clamp tp"
  "snd_ssthresh (inc_cwnd_clamped tp) = snd_ssthresh tp"
  "snd_cwnd_cnt (inc_cwnd_clamped tp) = snd_cwnd_cnt tp"
  "mss_cache (inc_cwnd_clamped tp) = mss_cache tp"
  "bytes_acked (inc_cwnd_clamped tp) = bytes_acked tp"
  "snd_nxt (inc_cwnd_clamped tp) = snd_nxt tp"
  "snd_una (inc_cwnd_clamped tp) = snd_una tp"
  "srtt (inc_cwnd_clamped tp) = srtt tp"
  "rx_opt (inc_cwnd_clamped tp) = rx_opt tp"
  "icsk_ca_state (inc_cwnd_clamped tp) = icsk_ca_state tp"
  by (simp_all add: inc_cwnd_clamped_def)

end
