(* ===== verification/Linux_C.thy ===== *)
theory Linux_C
  imports Tcp_Sock
begin

text \<open>
  The C utilities of TCP-Linux (\<open>tcp/linux/ns-linux-c.h\<close> and \<open>ns-linux-c.c\<close>): the
  position of the highest set bit (\<open>fls\<close>, \<open>fls64\<close>), division of 64-bit numbers
  through \<open>do_div\<close>, sequence comparisons, time stamps, and the two-level list of
  module parameters. The lemmas show that \<open>fls\<close> is the bit length, that \<open>div64_64\<close> is
  exact for 32-bit divisors and at most two too large otherwise, and that recording a
  parameter finds or creates exactly one entry.
\<close>

section \<open>Highest set bit\<close>

text \<open>
  One test-and-shift of \<open>fls\<close>: \<open>if (!(x & m)) { x <<= k; r -= k; }\<close>.
\<close>

definition fls_step :: "cint \<Rightarrow> nat \<Rightarrow> cint \<times> cint \<Rightarrow> cint \<times> cint" where
  "fls_step m k xr = (if fst xr AND m = 0 then (push_bit k (fst xr), snd xr - of_nat k) else xr)"

definition fls :: "cint \<Rightarrow> cint" where
  "fls x =
     (if x = 0 then 0
      else snd (fls_step 0x80000000 1 (fls_step 0xc0000000 2 (fls_step 0xf0000000 4
             (fls_step 0xff000000 8 (fls_step 0xffff0000 16 (x, 32)))))))"

definition fls64 :: "u64 \<Rightarrow> cint" where
  "fls64 x =
     (let h = (drop_bit 32 x :: u32)
      in if h \<noteq> 0 then fls (u32_int h) + 32 else fls (u32_int x))"

section \<open>Division\<close>

text \<open>
  \<open>do_div(n, base)\<close>: the base is narrowed to \<open>uint32_t\<close>, the quotient is stored in
  \<open>n\<close> and the remainder is the value of the expression.
\<close>

definition do_div :: "u64 \<Rightarrow> u32 \<Rightarrow> (u64 \<times> uint32) option" where
  "do_div n base =
     (let b = (ucast base :: uint32)
      in do {
        rem \<leftarrow> cmod n (ucast b);
        q \<leftarrow> cdiv n (ucast b);
        Some (q, ucast rem)
      })"

definition div64_64 :: "u64 \<Rightarrow> u64 \<Rightarrow> u64 option" where
  "div64_64 dividend divisor =
     (let high = (ucast (drop_bit 32 divisor :: u64) :: uint32);
          shift = unat (fls high);
          d = (if high \<noteq> 0 then ucast (drop_bit shift divisor) else ucast divisor :: uint32);
          n = (if high \<noteq> 0 then drop_bit shift dividend else dividend)
      in map_option fst (do_div n (ucast d)))"

section \<open>Sequence numbers and time\<close>

definition after :: "u32 \<Rightarrow> u32 \<Rightarrow> bool" where
  "after seq1 seq2 \<longleftrightarrow> seq2 < seq1"

definition between :: "u32 \<Rightarrow> u32 \<Rightarrow> u32 \<Rightarrow> bool" where
  "between seq1 seq2 seq3 \<longleftrightarrow> seq1 - seq2 \<le> seq3 - seq2"

definition net_invalid_timestamp :: s64 where
  "net_invalid_timestamp = 0"

definition ktime_equal :: "s64 \<Rightarrow> s64 \<Rightarrow> bool" where
  "ktime_equal cmp1 cmp2 \<longleftrightarrow> cmp1 = cmp2"

text \<open>\<open>kt/1000\<close> on a signed \<open>long long\<close>: C truncates towards zero.\<close>

definition ktime_to_us :: "s64 \<Rightarrow> s64" where
  "ktime_to_us kt = word_of_int (sint kt sdiv 1000)"

definition net_timedelta :: "kernel \<Rightarrow> s64 \<Rightarrow> s64" where
  "net_timedelta k t = ktime_get_real k - t"

section \<open>Module parameters\<close>

record cc_param_list =
  p_name :: string
  p_type :: "string option"
  p_description :: "string option"
  p_ptr :: "nat option" \<comment> \<open>address of the static variable\<close>

record cc_list =
  proto :: string
  param_head :: "cc_param_list list"

text \<open>
  The C lists are singly linked and grow at the head; a node is found by its name, so the
  pointer that a search returns is the first node of that name. \<open>find_cc_by_proto\<close> returns
  the (possibly extended) list and the node.
\<close>

definition find_cc_by_proto :: "string \<Rightarrow> cc_list list \<Rightarrow> cc_list list \<times> cc_list" where
  "find_cc_by_proto pr head =
     (case find (\<lambda>p. proto p = pr) head of
        Some p \<Rightarrow> (head, p)
      | None \<Rightarrow> let p = \<lparr>proto = pr, param_head = []\<rparr> in (p # head, p))"

text \<open>Writing a node in place: the first node that satisfies \<open>P\<close>.\<close>

fun update_first :: "('a \<Rightarrow> bool) \<Rightarrow> ('a \<Rightarrow> 'a) \<Rightarrow> 'a list \<Rightarrow> 'a list" where
  "update_first P f [] = []"
| "update_first P f (x # xs) = (if P x then f x # xs else x # update_first P f xs)"

definition find_param_by_proto_name ::
    "string \<Rightarrow> string \<Rightarrow> cc_list list \<Rightarrow> cc_list list \<times> cc_param_list" where
  "find_param_by_proto_name pr nm head =
     (let (head, p) = find_cc_by_proto pr head
      in case find (\<lambda>q. p_name q = nm) (param_head p) of
           Some q \<Rightarrow> (head, q)
         | None \<Rightarrow>
             let q = \<lparr>p_name = nm, p_type = None, p_description = None, p_ptr = None\<rparr>
             in (update_first (\<lambda>p. proto p = pr) (\<lambda>p. p\<lparr>param_head := q # param_head p\<rparr>) head, q))"

definition write_param ::
    "string \<Rightarrow> string \<Rightarrow> (cc_param_list \<Rightarrow> cc_param_list) \<Rightarrow> cc_list list \<Rightarrow> cc_list list" where
  "write_param pr nm f head =
     update_first (\<lambda>p. proto p = pr)
       (\<lambda>p. p\<lparr>param_head := update_first (\<lambda>q. p_name q = nm) f (param_head p)\<rparr>) head"

definition record_linux_param ::
    "string \<Rightarrow> string \<Rightarrow> string \<Rightarrow> nat \<Rightarrow> cc_list list \<Rightarrow> cc_list list" where
  "record_linux_param pr nm ty ptr head =
     (let (head, p) = find_param_by_proto_name pr nm head
      in write_param pr nm (\<lambda>p. p\<lparr>p_type := Some ty, p_ptr := Some ptr\<rparr>) head)"

definition record_linux_param_description ::
    "string \<Rightarrow> string \<Rightarrow> string \<Rightarrow> cc_list list \<Rightarrow> cc_list list" where
  "record_linux_param_description pr nm expl head =
     (let (head, p) = find_param_by_proto_name pr nm head
      in write_param pr nm (\<lambda>p. p\<lparr>p_description := Some expl\<rparr>) head)"

section \<open>Correctness\<close>

lemma and_high_eq_0_iff:
  fixes x :: cint
  shows "x AND NOT (mask n) = 0 \<longleftrightarrow> unat x < 2 ^ n"
proof -
  have "x AND NOT (mask n) = 0 \<longleftrightarrow> take_bit n x = x"
    by (auto simp: bit_eq_iff bit_simps)
  also have "\<dots> \<longleftrightarrow> unat (take_bit n x) = unat x"
    by (simp add: word_unat_eq_iff)
  also have "\<dots> \<longleftrightarrow> unat x < 2 ^ n"
    by (simp add: unsigned_take_bit_eq take_bit_nat_eq_self_iff)
  finally show ?thesis .
qed

lemma unat_push_small: "unat (x :: cint) * 2 ^ k < 2 ^ 32 \<Longrightarrow> unat (push_bit k x) = unat x * 2 ^ k"
  by (simp add: unsigned_push_bit_eq take_bit_nat_eq_self push_bit_eq_mult [where ?'a = nat]
      del: push_bit_eq_mult)

definition fls_inv :: "nat \<Rightarrow> nat \<Rightarrow> cint \<times> cint \<Rightarrow> bool" where
  "fls_inv n l xr \<longleftrightarrow> unat (fst xr) = n * 2 ^ (32 - unat (snd xr)) \<and> 32 - l \<le> unat (snd xr)
     \<and> unat (snd xr) \<le> 32 \<and> 2 ^ l \<le> unat (fst xr)"

lemma fls_step_inv:
  assumes inv: "fls_inv n l xr" and k: "1 \<le> k" "l + k = 32 - k" "k \<le> 16"
  shows "fls_inv n (l + k) (fls_step (NOT (mask (32 - k))) k xr)"
proof (cases "unat (fst xr) < 2 ^ (32 - k)")
  case True
  have "unat (fst xr) * 2 ^ k < 2 ^ (32 - k) * 2 ^ k" using True by simp
  also have "\<dots> = 2 ^ 32" using k by (simp flip: power_add)
  finally have p: "unat (push_bit k (fst xr)) = unat (fst xr) * 2 ^ k"
    by (rule unat_push_small)
  have kk: "unat (of_nat k :: cint) = k" using k by (simp add: unat_of_nat)
  have r: "unat (snd xr - of_nat k) = unat (snd xr) - k"
    using inv k by (subst unat_sub) (auto simp: word_le_nat_alt kk fls_inv_def)
  have v: "unat (fst xr) = n * 2 ^ (32 - unat (snd xr))" and lo: "2 ^ l \<le> unat (fst xr)"
    and rl: "32 - l \<le> unat (snd xr)" "unat (snd xr) \<le> 32"
    using inv by (auto simp: fls_inv_def)
  have "32 - (unat (snd xr) - k) = (32 - unat (snd xr)) + k" using rl k by linarith
  then have "unat (fst xr) * 2 ^ k = n * 2 ^ (32 - (unat (snd xr) - k))"
    by (simp add: v power_add)
  moreover have "2 ^ (l + k) \<le> unat (fst xr) * 2 ^ k" using lo by (simp add: power_add)
  moreover have "32 - (l + k) \<le> unat (snd xr) - k" "unat (snd xr) - k \<le> 32"
    using rl k by arith+
  ultimately show ?thesis using True k
    by (simp add: fls_inv_def fls_step_def and_high_eq_0_iff p r)
next
  case False
  with inv k show ?thesis by (auto simp: fls_inv_def fls_step_def and_high_eq_0_iff)
qed

lemma fls_masks:
  "(0xffff0000 :: cint) = NOT (mask (32 - 16))" "(0xff000000 :: cint) = NOT (mask (32 - 8))"
  "(0xf0000000 :: cint) = NOT (mask (32 - 4))" "(0xc0000000 :: cint) = NOT (mask (32 - 2))"
  "(0x80000000 :: cint) = NOT (mask (32 - 1))"
  by (simp_all add: mask_eq_exp_minus_1)

lemma fls_inv_final:
  assumes "x \<noteq> 0"
  shows "fls_inv (unat x) 31 (fls_step 0x80000000 1 (fls_step 0xc0000000 2 (fls_step 0xf0000000 4
             (fls_step 0xff000000 8 (fls_step 0xffff0000 16 (x, 32))))))"
proof -
  have "fls_inv (unat x) 0 (x, 32)" using assms by (simp add: fls_inv_def unat_gt_0 Suc_le_eq)
  from fls_step_inv [OF this, of 16] have "fls_inv (unat x) 16 (fls_step (NOT (mask (32 - 16))) 16 (x, 32))" by simp
  from fls_step_inv [OF this, of 8, simplified] fls_step_inv [of _ 24 _ 4, simplified]
    fls_step_inv [of _ 28 _ 2, simplified] fls_step_inv [of _ 30 _ 1, simplified]
  show ?thesis unfolding fls_masks by simp
qed

lemma fls_bounds:
  assumes "x \<noteq> 0"
  shows "1 \<le> unat (fls x)" and "unat (fls x) \<le> 32"
    and "2 ^ (unat (fls x) - 1) \<le> unat x" and "unat x < 2 ^ unat (fls x)"
proof -
  define xr where "xr = fls_step 0x80000000 1 (fls_step 0xc0000000 2 (fls_step 0xf0000000 4
             (fls_step 0xff000000 8 (fls_step 0xffff0000 16 (x, 32)))))"
  have f: "fls x = snd xr" using assms by (simp add: fls_def xr_def)
  have i: "fls_inv (unat x) 31 xr" using fls_inv_final [OF assms] by (simp add: xr_def)
  let ?r = "unat (snd xr)"
  from i have r: "1 \<le> ?r" "?r \<le> 32" and v: "unat (fst xr) = unat x * 2 ^ (32 - ?r)"
    and lo: "2 ^ 31 \<le> unat (fst xr)" by (auto simp: fls_inv_def)
  have hi: "unat (fst xr) < 2 ^ 32" using unsigned_less [of "fst xr", where ?'a = nat] by simp
  have "(2 :: nat) ^ (?r - 1) * 2 ^ (32 - ?r) = 2 ^ 31" using r by (simp flip: power_add)
  with lo v have "2 ^ (?r - 1) * 2 ^ (32 - ?r) \<le> unat x * 2 ^ (32 - ?r)" by simp
  then have a: "2 ^ (?r - 1) \<le> unat x" by simp
  have "(2 :: nat) ^ ?r * 2 ^ (32 - ?r) = 2 ^ 32" using r by (simp flip: power_add)
  with hi v have "unat x * 2 ^ (32 - ?r) < 2 ^ ?r * 2 ^ (32 - ?r)" by simp
  then have b: "unat x < 2 ^ ?r" by simp
  show "1 \<le> unat (fls x)" "unat (fls x) \<le> 32" "2 ^ (unat (fls x) - 1) \<le> unat x"
    "unat x < 2 ^ unat (fls x)" using r a b f by simp_all
qed


lemma fls_0: "fls 0 = 0" by (simp add: fls_def)

text \<open>\<open>fls64\<close> narrows each half to \<open>int\<close>: the bit length of the whole number.\<close>

lemma unat_ucast_32: "unat (ucast (x :: u64) :: cint) = unat x mod 2 ^ 32"
  by (simp add: unsigned_ucast_eq take_bit_eq_mod)

lemma unat_high_half: "unat (drop_bit 32 (x :: u64)) = unat x div 2 ^ 32"
  by (rule trans [OF unat_drop_bit_eq drop_bit_eq_div])

lemma unat_high_half_int: "unat (ucast (drop_bit 32 (x :: u64)) :: cint) = unat x div 2 ^ 32"
  using unsigned_less [of x, where ?'a = nat] by (simp add: unat_ucast_32 unat_high_half)

lemma fls64_bounds:
  assumes "x \<noteq> 0"
  shows "1 \<le> unat (fls64 x)" and "unat (fls64 x) \<le> 64"
    and "2 ^ (unat (fls64 x) - 1) \<le> unat x" and "unat x < 2 ^ unat (fls64 x)"
proof -
  let ?h = "ucast (drop_bit 32 x) :: cint" and ?l = "ucast x :: cint"
  have "1 \<le> unat (fls64 x) \<and> unat (fls64 x) \<le> 64 \<and> 2 ^ (unat (fls64 x) - 1) \<le> unat x
    \<and> unat x < 2 ^ unat (fls64 x)"
  proof (cases "drop_bit 32 x = 0")
    case True
    then have h: "unat x div 2 ^ 32 = 0" by (metis unat_high_half unat_0)
    then have l: "unat ?l = unat x" by (simp add: unat_ucast_32)
    with assms have "?l \<noteq> 0" by (metis unat_eq_zero)
    from fls_bounds [OF this] l True show ?thesis by (simp add: fls64_def)
  next
    case False
    then have h: "unat ?h = unat x div 2 ^ 32" "?h \<noteq> 0"
      using unat_high_half [of x] unat_high_half_int [of x] by (auto simp: unat_eq_zero simp flip: unat_eq_zero)
    let ?r = "unat (fls ?h)"
    note fb = fls_bounds [OF h(2)]
    have r: "unat (fls64 x) = ?r + 32" using False fb(2) by (simp add: fls64_def unat_word_ariths)
    have "?r + 32 - 1 = (?r - 1) + 32" using fb(1) by simp
    then have "2 ^ (?r + 32 - 1) = (2 :: nat) ^ (?r - 1) * 2 ^ 32" by (simp only: power_add)
    also have "\<dots> \<le> (unat x div 2 ^ 32) * 2 ^ 32" using fb(3) h by simp
    also have "\<dots> \<le> unat x" by simp
    finally have lo: "2 ^ (?r + 32 - 1) \<le> unat x" .
    have "unat x div 2 ^ 32 < 2 ^ ?r" using fb(4) h by simp
    then have hi: "unat x < 2 ^ (?r + 32)" by (simp add: div_less_iff_less_mult power_add)
    show ?thesis using r lo hi fb by simp
  qed
  then show "1 \<le> unat (fls64 x)" "unat (fls64 x) \<le> 64" "2 ^ (unat (fls64 x) - 1) \<le> unat x"
    "unat x < 2 ^ unat (fls64 x)" by blast+
qed


lemma unat_uint32_u64: "unat (ucast (b :: uint32) :: u64) = unat b"
  by simp

lemma do_div_narrow:
  "do_div n base = (if unat base mod 2 ^ 32 = 0 then None
     else Some (word_of_nat (unat n div (unat base mod 2 ^ 32)),
                ucast (word_of_nat (unat n mod (unat base mod 2 ^ 32)) :: u64)))"
proof -
  define b :: u64 where "b = ucast (ucast base :: uint32)"
  have ub: "unat b = unat base mod 2 ^ 32" by (simp add: b_def unat_ucast_32)
  have z: "b = 0 \<longleftrightarrow> unat base mod 2 ^ 32 = 0" by (metis ub unat_eq_zero)
  have q: "n div b = word_of_nat (unat n div (unat base mod 2 ^ 32))"
    by (metis ub word_arith_nat_div)
  have r: "n mod b = word_of_nat (unat n mod (unat base mod 2 ^ 32))"
    by (metis ub word_arith_nat_mod)
  show ?thesis
    by (simp only: do_div_def Let_def flip: b_def) (simp add: cdiv_def cmod_def z q r)
qed

lemma do_div_32:
  assumes "base \<noteq> 0" and "unat base < 2 ^ 32"
  shows "do_div n base = Some (n div base, ucast (n mod base))"
proof -
  have "unat base mod 2 ^ 32 = unat base" "unat base \<noteq> 0" using assms by (auto simp: unat_eq_zero)
  then show ?thesis by (simp add: do_div_narrow word_arith_nat_div word_arith_nat_mod)
qed

lemma div64_64_narrow:
  assumes "divisor \<noteq> 0" and "unat divisor < 2 ^ 32"
  shows "div64_64 n divisor = Some (n div divisor)"
proof -
  have h: "drop_bit 32 divisor = 0"
    by (metis assms(2) div_less unat_high_half unat_eq_zero)
  have u: "unat (ucast (ucast divisor :: uint32) :: u64) = unat divisor"
    using assms(2) by (simp add: unat_ucast_32)
  then have "ucast (ucast divisor :: uint32) = divisor" by (simp only: word_unat_eq_iff)
  then show ?thesis using assms by (simp add: div64_64_def h do_div_32)
qed

lemma div64_64_wide:
  assumes "2 ^ 32 \<le> unat divisor"
  defines "s \<equiv> unat (fls (ucast (drop_bit 32 divisor :: u64)))"
  shows "div64_64 n divisor = Some (drop_bit s n div drop_bit s divisor)"
    and "1 \<le> s" and "2 ^ 31 \<le> unat (drop_bit s divisor)"
proof -
  define h where "h = (ucast (drop_bit 32 divisor :: u64) :: cint)"
  have uh: "unat h = unat divisor div 2 ^ 32" by (simp only: h_def unat_high_half_int)
  have "1 \<le> unat h" using assms(1) div_le_mono [of "2 ^ 32" "unat divisor" "2 ^ 32"] by (simp add: uh)
  then have h0: "h \<noteq> 0" by auto
  note fb = fls_bounds [OF h0]
  have s: "s = unat (fls h)" by (simp add: s_def h_def)
  show s1: "1 \<le> s" using fb s by simp
  have ud: "unat (drop_bit s divisor) = unat divisor div 2 ^ s"
    by (rule trans [OF unat_drop_bit_eq drop_bit_eq_div])
  have "unat h < 2 ^ s" using fb(4) s by simp
  then have "unat divisor < 2 ^ s * 2 ^ 32" by (simp add: uh div_less_iff_less_mult)
  then have hi: "unat (drop_bit s divisor) < 2 ^ 32"
    by (simp add: ud div_less_iff_less_mult mult.commute)
  have "2 ^ (s - 1) * 2 ^ 32 \<le> unat h * 2 ^ 32" using fb(3) s by simp
  also have "\<dots> \<le> unat divisor" by (simp add: uh)
  finally have lo: "2 ^ (s - 1) * 2 ^ 32 \<le> unat divisor" .
  have "(2 :: nat) ^ (s - 1) * 2 ^ 32 = 2 ^ 31 * 2 ^ s" using s1 by (cases s) simp_all
  with lo have "2 ^ 31 * 2 ^ s \<le> unat divisor" by simp
  then have "2 ^ 31 * 2 ^ s div 2 ^ s \<le> unat divisor div 2 ^ s" by (rule div_le_mono)
  then show lo': "2 ^ 31 \<le> unat (drop_bit s divisor)" by (simp add: ud)
  then have nz: "drop_bit s divisor \<noteq> 0" by (metis unat_0 not_numeral_le_zero  power_not_zero zero_neq_numeral le_zero_eq)
  have "unat (ucast (ucast (drop_bit s divisor) :: uint32) :: u64) = unat (drop_bit s divisor)"
    using hi by (simp only: unat_uint32_u64 unat_ucast_32 mod_less)
  then have c: "ucast (ucast (drop_bit s divisor) :: uint32) = drop_bit s divisor"
    by (simp only: word_unat_eq_iff)
  show "div64_64 n divisor = Some (drop_bit s n div drop_bit s divisor)"
    using h0 hi nz by (simp only: div64_64_def Let_def flip: h_def s) (simp add: c do_div_32)
qed

lemma div_shift_bounds:
  fixes a b s :: nat
  assumes s: "1 \<le> s" and b: "2 ^ 31 \<le> b div s" and a: "a div s < 2 ^ 63"
  shows "a div b \<le> (a div s) div (b div s)" and "(a div s) div (b div s) \<le> a div b + 2"
proof -
  define q where "q = a div b"
  define A where "A = a div s"
  define B where "B = b div s"
  have B0: "0 < B" using b by (simp add: B_def)
  have b0: "0 < b" using b by (cases b) auto
  have "q * B * s \<le> q * b" by (simp add: B_def mult.assoc)
  also have "\<dots> \<le> a" by (simp add: q_def)
  finally have "q * B \<le> A" using s by (simp add: A_def less_eq_div_iff_mult_less_eq)
  then show "a div b \<le> (a div s) div (b div s)"
    using B0 by (simp add: less_eq_div_iff_mult_less_eq flip: q_def A_def B_def)
  have "A * s \<le> a" by (simp add: A_def)
  also have "a < (q + 1) * b" using b0 dividend_less_div_times [of b a] by (simp add: q_def)
  also have "(q + 1) * b \<le> (q + 1) * ((B + 1) * s)"
    using s dividend_less_div_times [of s b] by (intro mult_le_mono2) (simp add: B_def)
  finally have "A * s < (q + 1) * (B + 1) * s" by (simp only: mult.assoc)
  then have lt: "A < (q + 1) * (B + 1)" using mult_less_cancel2 by blast
  show "(a div s) div (b div s) \<le> a div b + 2"
  proof (rule ccontr)
    assume "\<not> ?thesis"
    then have "q + 3 \<le> A div B" by (simp add: q_def A_def B_def)
    then have le: "(q + 3) * B \<le> A" using B0 by (simp add: less_eq_div_iff_mult_less_eq)
    have "(q + 3) * 2 ^ 31 \<le> (q + 3) * B" using b by (intro mult_le_mono2) (simp add: B_def)
    with le a have "(q + 3) * 2 ^ 31 < 2 ^ 63" by (simp add: A_def)
    then have q: "q < 2 ^ 32" by simp
    from le lt have "2 * B < q + 1" by (simp add: algebra_simps)
    with q b show False by (simp add: B_def)
  qed
qed

lemma div64_64_accuracy:
  assumes "divisor \<noteq> 0"
  shows "\<exists>r. div64_64 n divisor = Some r \<and> unat n div unat divisor \<le> unat r
     \<and> unat r \<le> unat n div unat divisor + 2 \<and> (unat divisor < 2 ^ 32 \<longrightarrow> r = n div divisor)"
proof (cases "unat divisor < 2 ^ 32")
  case True
  with assms show ?thesis by (simp add: div64_64_narrow unat_div_distrib)
next
  case False
  then have w: "2 ^ 32 \<le> unat divisor" by simp
  define s where "s = unat (fls (ucast (drop_bit 32 divisor :: u64)))"
  note wide = div64_64_wide [OF w, folded s_def]
  have ud: "\<And>x :: u64. unat (drop_bit s x) = unat x div 2 ^ s"
    by (rule trans [OF unat_drop_bit_eq drop_bit_eq_div])
  have "unat n div 2 ^ s \<le> unat n div 2 ^ 1"
    using wide(2) by (intro div_le_mono2) (simp_all add: self_le_power)
  also have "\<dots> < 2 ^ 63" using unsigned_less [of n, where ?'a = nat] by simp
  finally have "unat n div 2 ^ s < 2 ^ 63" .
  from div_shift_bounds [OF _ wide(3) [unfolded ud] this] wide(1) False
  show ?thesis by (simp add: unat_div_distrib ud)
qed

text \<open>
  The abstract view of the parameter lists: what a search by module and name finds.
\<close>

definition lookup_param :: "cc_list list \<Rightarrow> string \<Rightarrow> string \<Rightarrow> cc_param_list option" where
  "lookup_param head pr nm =
     Option.bind (find (\<lambda>p. proto p = pr) head) (\<lambda>p. find (\<lambda>q. p_name q = nm) (param_head p))"

lemma find_proto_update:
  "find (\<lambda>p. proto p = pr') (update_first (\<lambda>p. proto p = pr) (\<lambda>p. p\<lparr>param_head := g p\<rparr>) head) =
     (if pr' = pr then map_option (\<lambda>p. p\<lparr>param_head := g p\<rparr>) (find (\<lambda>p. proto p = pr) head)
      else find (\<lambda>p. proto p = pr') head)"
  by (induction head) auto

lemma find_name_update:
  assumes "\<And>q. p_name (f q) = p_name q"
  shows "find (\<lambda>q. p_name q = nm') (update_first (\<lambda>q. p_name q = nm) f ps) =
     (if nm' = nm then map_option f (find (\<lambda>q. p_name q = nm) ps)
      else find (\<lambda>q. p_name q = nm') ps)"
  using assms by (induction ps) auto

lemma lookup_find_or_create:
  "lookup_param (fst (find_param_by_proto_name pr nm head)) pr' nm' =
     (if pr' = pr \<and> nm' = nm
      then Some (case lookup_param head pr nm of Some q \<Rightarrow> q
                 | None \<Rightarrow> \<lparr>p_name = nm, p_type = None, p_description = None, p_ptr = None\<rparr>)
      else lookup_param head pr' nm')"
  by (auto simp: lookup_param_def find_param_by_proto_name_def find_cc_by_proto_def Let_def
      find_proto_update split: option.splits)

lemma lookup_write_param:
  assumes "\<And>q. p_name (f q) = p_name q"
  shows "lookup_param (write_param pr nm f head) pr' nm' =
     (if pr' = pr \<and> nm' = nm then map_option f (lookup_param head pr nm)
      else lookup_param head pr' nm')"
  by (cases "find (\<lambda>p. proto p = pr) head")
    (auto simp: lookup_param_def write_param_def find_proto_update find_name_update [OF assms])

lemma record_linux_param_lookup:
  "lookup_param (record_linux_param pr nm ty ptr head) pr' nm' =
     (if pr' = pr \<and> nm' = nm
      then Some ((case lookup_param head pr nm of Some q \<Rightarrow> q
                  | None \<Rightarrow> \<lparr>p_name = nm, p_type = None, p_description = None, p_ptr = None\<rparr>)
                 \<lparr>p_type := Some ty, p_ptr := Some ptr\<rparr>)
      else lookup_param head pr' nm')"
  using lookup_find_or_create [of pr nm head pr' nm']
  by (simp add: record_linux_param_def split_def lookup_write_param lookup_find_or_create)

text \<open>
  The constructors that \<open>module_param\<close> and \<open>MODULE_PARM_DESC\<close> expand to, run in file order:
  one entry \<open>(name, type, description)\<close> per parameter; \<open>adr\<close> is the address of the variable.
\<close>

type_synonym param_decl = "string \<times> string \<times> string"

fun declare_params ::
    "string \<Rightarrow> (string \<Rightarrow> nat) \<Rightarrow> param_decl list \<Rightarrow> cc_list list \<Rightarrow> cc_list list" where
  "declare_params pr adr [] head = head"
| "declare_params pr adr ((nm, ty, expl) # ds) head =
     declare_params pr adr ds
       (record_linux_param_description pr nm expl (record_linux_param pr nm ty (adr nm) head))"

text \<open>The parameters of \<open>ns-linux-param.c\<close> itself.\<close>

definition linux_params :: "param_decl list" where
  "linux_params =
     [(''sysctl_tcp_abc'', ''int'', ''whether we needs ABC or not''),
      (''tcp_max_burst'', ''int'', ''the maximum burst size of a TCP''),
      (''debug_level'', ''int'', ''The debug level: 0: INFO; <=1: NOTICE; <=2: ERROR'')]"

lemma record_linux_param_description_lookup:
  "lookup_param (record_linux_param_description pr nm expl head) pr' nm' =
     (if pr' = pr \<and> nm' = nm
      then Some ((case lookup_param head pr nm of Some q \<Rightarrow> q
                  | None \<Rightarrow> \<lparr>p_name = nm, p_type = None, p_description = None, p_ptr = None\<rparr>)
                 \<lparr>p_description := Some expl\<rparr>)
      else lookup_param head pr' nm')"
  by (simp add: record_linux_param_description_def split_def lookup_write_param lookup_find_or_create)

lemma declare_params_frame:
  "nm \<notin> fst ` set ds \<or> pr' \<noteq> pr \<Longrightarrow>
     lookup_param (declare_params pr adr ds head) pr' nm = lookup_param head pr' nm"
  by (induction pr adr ds head rule: declare_params.induct)
    (auto simp: record_linux_param_description_lookup record_linux_param_lookup)

lemma declare_params_lookup:
  "distinct (map fst ds) \<Longrightarrow> (nm, ty, expl) \<in> set ds \<Longrightarrow>
     \<exists>q. lookup_param (declare_params pr adr ds head) pr nm = Some q \<and> p_type q = Some ty
       \<and> p_description q = Some expl \<and> p_ptr q = Some (adr nm)"
proof (induction pr adr ds head rule: declare_params.induct)
  case (2 pr adr n t e ds head)
  show ?case
  proof (cases "nm = n")
    case True
    then have same: "ty = t" "expl = e" "nm \<notin> fst ` set ds" using 2(2,3) by force+
    then show ?thesis using True
      by (simp add: declare_params_frame record_linux_param_description_lookup
          record_linux_param_lookup)
  next
    case False
    then show ?thesis using 2 by auto
  qed
qed simp

end
