(* ===== verification/Tcp_Reno.thy ===== *)
theory Tcp_Reno
  imports Linux_C
begin

text \<open>
  Slow start and the Reno congestion control of \<open>tcp/linux/src/tcp_cong.c\<close>, which every
  other module falls back to. \<open>slow_start_loop\<close> is the \<open>while\<close> loop of
  \<open>tcp_slow_start\<close>; it does not return when both the window and the clamp are zero, and
  the lemmas show that this is the only case. The functional lemmas give the growth of the
  window per acknowledgment in slow start and per window in congestion avoidance.
\<close>

partial_function (option) slow_start_loop :: "u16 \<Rightarrow> u16 \<Rightarrow> u32 \<Rightarrow> (u16 \<times> u32) option" where
  "slow_start_loop clamp cnt cwnd =
     (if cwnd \<le> u16_u32 cnt
      then slow_start_loop clamp (u32_u16 (u16_u32 cnt - cwnd))
             (if cwnd < u16_u32 clamp then cwnd + 1 else cwnd)
      else Some (cnt, cwnd))"

definition slow_start_cnt :: "kernel \<Rightarrow> 'p tcp_sock \<Rightarrow> cint" where
  "slow_start_cnt k tp =
     (let m = sysctl_tcp_max_ssthresh k;
          cnt = (if 0 < sint m \<and> int_u32 m < snd_cwnd tp then signed_drop_bit 1 m
                 else u32_int (snd_cwnd tp))
      in if 1 < sysctl_tcp_abc k \<and> 2 * mss_cache tp \<le> bytes_acked tp then push_bit 1 cnt else cnt)"

definition tcp_slow_start :: "kernel \<Rightarrow> 'p tcp_sock \<Rightarrow> 'p tcp_sock option" where
  "tcp_slow_start k tp =
     (if sysctl_tcp_abc k \<noteq> 0 \<and> bytes_acked tp < mss_cache tp then Some tp
      else do {
        (cnt, cwnd) \<leftarrow> slow_start_loop (snd_cwnd_clamp tp)
                          (snd_cwnd_cnt tp + slow_start_cnt k tp) (snd_cwnd tp);
        Some (tp\<lparr>bytes_acked := 0, snd_cwnd_cnt := cnt, snd_cwnd := cwnd\<rparr>)
      })"

definition tcp_reno_cong_avoid ::
    "kernel \<Rightarrow> 'p tcp_sock \<Rightarrow> u32 \<Rightarrow> u32 \<Rightarrow> u32 \<Rightarrow> cint \<Rightarrow> 'p tcp_sock option" where
  "tcp_reno_cong_avoid k tp ack rtt in_flight flag =
     (if \<not> tcp_is_cwnd_limited tp in_flight then Some tp
      else if snd_cwnd tp \<le> snd_ssthresh tp then tcp_slow_start k tp
      else if sysctl_tcp_abc k \<noteq> 0 then
        Some (if snd_cwnd tp * mss_cache tp \<le> bytes_acked tp
              then inc_cwnd_clamped
                     (tp\<lparr>bytes_acked := bytes_acked tp - snd_cwnd tp * mss_cache tp\<rparr>)
              else tp)
      else
        Some (if snd_cwnd tp \<le> u16_u32 (snd_cwnd_cnt tp)
              then (inc_cwnd_clamped tp)\<lparr>snd_cwnd_cnt := 0\<rparr>
              else tp\<lparr>snd_cwnd_cnt := snd_cwnd_cnt tp + 1\<rparr>))"

definition tcp_reno_ssthresh :: "kernel \<Rightarrow> 'p tcp_sock \<Rightarrow> (u32 \<times> 'p tcp_sock) option" where
  "tcp_reno_ssthresh k tp = Some (max (drop_bit 1 (snd_cwnd tp)) 2, tp)"

definition tcp_reno_min_cwnd :: "'p tcp_sock \<Rightarrow> u32 option" where
  "tcp_reno_min_cwnd tp = Some (snd_ssthresh tp div 2)"

definition tcp_reno :: "'p tcp_congestion_ops" where
  "tcp_reno = null_ops\<lparr>op_flags := TCP_CONG_NON_RESTRICTED, op_name := ''reno'',
     op_ssthresh := Some tcp_reno_ssthresh, op_cong_avoid := Some tcp_reno_cong_avoid,
     op_min_cwnd := Some tcp_reno_min_cwnd\<rparr>"

definition tcp_init_congestion_ops :: "'p tcp_congestion_ops" where
  "tcp_init_congestion_ops = null_ops\<lparr>op_name := '''',
     op_ssthresh := Some tcp_reno_ssthresh, op_cong_avoid := Some tcp_reno_cong_avoid,
     op_min_cwnd := Some tcp_reno_min_cwnd\<rparr>"

lemmas slow_start_loop_unfold = slow_start_loop.simps

text \<open>One turn of the loop, on natural numbers.\<close>

lemma slow_start_loop_exit: "unat cnt < unat cwnd \<Longrightarrow> slow_start_loop clamp cnt cwnd = Some (cnt, cwnd)"
  by (subst slow_start_loop.simps) (simp add: le_u16_u32_iff)

lemma slow_start_loop_turn:
  "unat cwnd \<le> unat cnt \<Longrightarrow> slow_start_loop clamp cnt cwnd =
     slow_start_loop clamp (word_of_nat (unat cnt - unat cwnd))
       (if unat cwnd < unat clamp then cwnd + 1 else cwnd)"
proof -
  assume le: "unat cwnd \<le> unat cnt"
  then have "unat (u16_u32 cnt - cwnd) = unat cnt - unat cwnd"
    by (subst unat_sub_le) (simp_all add: word_le_nat_alt)
  then have "u32_u16 (u16_u32 cnt - cwnd) = word_of_nat (unat cnt - unat cwnd)"
    by (metis of_nat_unat)
  then show ?thesis using le
    by (subst slow_start_loop.simps) (simp add: le_u16_u32_iff less_u16_u32_iff)
qed

lemma unat_of_nat_diff_u16: "unat (word_of_nat (unat (cnt :: u16) - n) :: u16) = unat cnt - n"
  using unat_u16_bound [of cnt] by (simp add: unat_of_nat take_bit_nat_eq_self)

lemma slow_start_loop_returns_pos:
  "cwnd \<noteq> 0 \<Longrightarrow> \<exists>cnt' cwnd'. slow_start_loop clamp cnt cwnd = Some (cnt', cwnd')
     \<and> unat cnt' < unat cwnd' \<and> unat cwnd \<le> unat cwnd' \<and> unat cwnd' \<le> max (unat cwnd) (unat clamp)
     \<and> unat cnt' \<le> unat cnt"
proof (induction "unat cnt" arbitrary: cnt cwnd rule: less_induct)
  case less
  then have pos: "0 < unat cwnd" by (simp add: unat_gt_0)
  show ?case
  proof (cases "unat cwnd \<le> unat cnt")
    case False
    then show ?thesis by (simp add: slow_start_loop_exit)
  next
    case True
    let ?w = "if unat cwnd < unat clamp then cwnd + 1 else cwnd"
    have w: "unat ?w = (if unat cwnd < unat clamp then unat cwnd + 1 else unat cwnd)"
      by (simp add: unat_inc_u16)
    have "0 < unat ?w" unfolding w using pos by simp
    then have nz: "?w \<noteq> 0" by (rule unat_gt_0 [THEN iffD1])
    have "unat (word_of_nat (unat cnt - unat cwnd) :: u16) < unat cnt"
      using True pos unat_of_nat_diff_u16 [of cnt "unat cwnd"] by linarith
    from less.hyps [OF this nz] obtain c' w' where
      r: "slow_start_loop clamp (word_of_nat (unat cnt - unat cwnd)) ?w = Some (c', w')"
      and b: "unat c' < unat w'" "unat ?w \<le> unat w'" "unat w' \<le> max (unat ?w) (unat clamp)"
        "unat c' \<le> unat (word_of_nat (unat cnt - unat cwnd) :: u16)"
      by blast
    have "slow_start_loop clamp cnt cwnd = Some (c', w')"
      using slow_start_loop_turn [OF True] r by simp
    moreover have "unat cwnd \<le> unat w'" using b(2) w by (auto split: if_splits)
    moreover have "unat w' \<le> max (unat cwnd) (unat clamp)" using b(3) w by (auto split: if_splits)
    moreover have "unat c' \<le> unat cnt" using b(4) unat_of_nat_diff_u16 [of cnt "unat cwnd"] by linarith
    ultimately show ?thesis using b(1) by blast
  qed
qed

lemma slow_start_loop_diverges: "slow_start_loop 0 cnt 0 = None"
proof -
  have no: "c = 0 \<longrightarrow> w = 0 \<longrightarrow> False" if "slow_start_loop c n w = Some r" for c n w r
    using that
  proof (rule slow_start_loop.raw_induct [where P = "\<lambda>c n w r. c = 0 \<longrightarrow> w = 0 \<longrightarrow> False", rotated])
    fix f :: "u16 \<Rightarrow> u16 \<Rightarrow> u32 \<Rightarrow> (u16 \<times> u32) option" and c n w r
    assume IH: "\<And>c n w r. f c n w = Some r \<Longrightarrow> c = 0 \<longrightarrow> w = 0 \<longrightarrow> False"
      and eq: "(if w \<le> u16_u32 n
        then f c (u32_u16 (u16_u32 n - w)) (if w < u16_u32 c then w + 1 else w)
        else Some (n, w)) = Some r"
    show "c = 0 \<longrightarrow> w = 0 \<longrightarrow> False" using eq IH by (auto split: if_splits)
  qed
  show ?thesis using no [of 0 cnt 0] by (cases "slow_start_loop 0 cnt 0") blast+
qed

lemma slow_start_loop_None_iff: "slow_start_loop clamp cnt cwnd = None \<longleftrightarrow> cwnd = 0 \<and> clamp = 0"
proof (cases "cwnd = 0 \<and> clamp \<noteq> 0")
  case True
  then have "0 < unat clamp" by (simp add: unat_gt_0)
  with True have "slow_start_loop clamp cnt cwnd = slow_start_loop clamp (word_of_nat (unat cnt)) 1"
    by (subst slow_start_loop_turn) simp_all
  also have "\<dots> \<noteq> None" using slow_start_loop_returns_pos [of 1 clamp] by (metis not_None_eq zero_neq_one)
  finally show ?thesis using True by simp
next
  case False
  then show ?thesis
    using slow_start_loop_returns_pos [of cwnd clamp cnt] slow_start_loop_diverges by fastforce
qed

lemma tcp_slow_start_None_iff:
  "tcp_slow_start k tp = None \<longleftrightarrow>
     snd_cwnd tp = 0 \<and> snd_cwnd_clamp tp = 0 \<and> (sysctl_tcp_abc k = 0 \<or> mss_cache tp \<le> bytes_acked tp)"
  by (auto simp: tcp_slow_start_def slow_start_loop_None_iff split: option.splits)
    (simp_all add: bind_eq_None_conv  slow_start_loop_None_iff not_less split_def)

text \<open>
  A step that only raises the window, never above the larger of its old value and the clamp,
  and otherwise writes just the two ack counters.
\<close>

definition win_grow :: "'p tcp_sock \<Rightarrow> 'p tcp_sock \<Rightarrow> bool" where
  "win_grow tp tp' \<longleftrightarrow>
     tp'\<lparr>bytes_acked := 0, snd_cwnd_cnt := 0, snd_cwnd := 0\<rparr> =
       tp\<lparr>bytes_acked := 0, snd_cwnd_cnt := 0, snd_cwnd := 0\<rparr>
     \<and> unat (snd_cwnd tp) \<le> unat (snd_cwnd tp')
     \<and> unat (snd_cwnd tp') \<le> max (unat (snd_cwnd tp)) (unat (snd_cwnd_clamp tp))"

lemma win_grow_frame:
  assumes "win_grow tp tp'"
  shows "icsk_ca_priv tp' = icsk_ca_priv tp" and "snd_ssthresh tp' = snd_ssthresh tp"
    and "snd_cwnd_clamp tp' = snd_cwnd_clamp tp" and "mss_cache tp' = mss_cache tp"
    and "snd_nxt tp' = snd_nxt tp" and "snd_una tp' = snd_una tp" and "srtt tp' = srtt tp"
    and "rx_opt tp' = rx_opt tp" and "icsk_ca_state tp' = icsk_ca_state tp"
  using assms by (cases tp; cases tp'; simp add: win_grow_def)+

lemma win_grow_sock_ok:
  assumes "win_grow tp tp'" and "sock_ok L tp"
  shows "sock_ok L tp'"
  using assms(2) assms(1) [unfolded win_grow_def]
  by (auto simp: sock_ok_def win_grow_frame [OF assms(1)])

lemma win_grow_refl [simp, intro]: "win_grow tp tp"
  by (simp add: win_grow_def)

lemma win_grow_counters [simp]:
  "win_grow tp (tp\<lparr>snd_cwnd_cnt := c\<rparr>) " "win_grow tp (tp\<lparr>bytes_acked := b\<rparr>)"
  by (simp_all add: win_grow_def)

lemma win_grow_inc [simp]:
  "win_grow tp (inc_cwnd_clamped tp)"
  "win_grow tp ((inc_cwnd_clamped tp)\<lparr>snd_cwnd_cnt := c\<rparr>)"
  "win_grow tp (inc_cwnd_clamped (tp\<lparr>bytes_acked := b\<rparr>))"
  by (simp_all add: win_grow_def inc_cwnd_clamped_def less_u16_u32_iff unat_inc_u16)

lemma tcp_slow_start_grows:
  assumes "snd_cwnd tp \<noteq> 0"
  shows "\<exists>tp'. tcp_slow_start k tp = Some tp' \<and> win_grow tp tp'"
  using slow_start_loop_returns_pos [OF assms, of "snd_cwnd_clamp tp" "snd_cwnd_cnt tp + slow_start_cnt k tp"]
  by (auto simp: tcp_slow_start_def win_grow_def)

lemma tcp_reno_cong_avoid_grows:
  assumes "snd_cwnd tp \<noteq> 0"
  shows "\<exists>tp'. tcp_reno_cong_avoid k tp ack rtt in_flight flag = Some tp' \<and> win_grow tp tp'"
  using tcp_slow_start_grows [OF assms, of k] by (auto simp: tcp_reno_cong_avoid_def)

text \<open>Exact growth.\<close>

lemma unat_u32_int_small: "unat (w :: u32) < 2 ^ 32 \<Longrightarrow> unat (u32_int w) = unat w"
  by (simp add: unat_ucast_32)

lemma unat_add_u16_small:
  "unat (a :: u16) + unat b < 2 ^ 32 \<Longrightarrow> unat (a + b) = unat a + unat b"
  by (simp add: unat_word_ariths)

lemma slow_start_loop_once:
  assumes "unat cnt = n + unat w" and "unat w < unat clamp" and "n < unat w + 1"
  shows "slow_start_loop clamp cnt w = Some (word_of_nat n, w + 1)"
  using slow_start_loop_turn [of w cnt clamp] assms
    slow_start_loop_exit [of "word_of_nat n" "w + 1" clamp]
    unat_of_nat_diff_u16 [of cnt "unat w"] unat_inc_u16 [OF assms(2)]
  by simp

lemma tcp_slow_start_one:
  assumes "sysctl_tcp_abc k \<le> 1" and "sysctl_tcp_max_ssthresh k = 0"
    and "sysctl_tcp_abc k = 0 \<or> mss_cache tp \<le> bytes_acked tp"
    and "unat (snd_cwnd_cnt tp) < unat (snd_cwnd tp)" and "unat (snd_cwnd tp) < unat (snd_cwnd_clamp tp)"
    and "unat (snd_cwnd tp) < 2 ^ 31"
  shows "tcp_slow_start k tp = Some (tp\<lparr>bytes_acked := 0, snd_cwnd := snd_cwnd tp + 1\<rparr>)"
proof -
  have s: "slow_start_cnt k tp = u32_int (snd_cwnd tp)"
    using assms(1,2) by (auto simp: slow_start_cnt_def Let_def)
  have u: "unat (snd_cwnd_cnt tp + u32_int (snd_cwnd tp)) = unat (snd_cwnd_cnt tp) + unat (snd_cwnd tp)"
    using assms(4,6) unat_u32_int_small [of "snd_cwnd tp"]
    by (subst unat_add_u16_small) auto
  have "slow_start_loop (snd_cwnd_clamp tp) (snd_cwnd_cnt tp + slow_start_cnt k tp) (snd_cwnd tp)
    = Some (word_of_nat (unat (snd_cwnd_cnt tp)), snd_cwnd tp + 1)"
    unfolding s using u assms(4,5) by (intro slow_start_loop_once) simp_all
  then show ?thesis using assms(3) by (auto simp: tcp_slow_start_def not_less)
qed


text \<open>
  With \<open>sysctl_tcp_abc > 1\<close> and two segments acknowledged at once the loop runs over twice
  the window: two increments when the counter held a fraction, one otherwise.
\<close>

lemma tcp_slow_start_two:
  assumes "1 < sysctl_tcp_abc k" and "sysctl_tcp_max_ssthresh k = 0"
    and "mss_cache tp \<le> bytes_acked tp" and "2 * mss_cache tp \<le> bytes_acked tp"
    and "1 \<le> unat (snd_cwnd_cnt tp)" and "unat (snd_cwnd_cnt tp) < unat (snd_cwnd tp)"
    and "unat (snd_cwnd tp) + 1 < unat (snd_cwnd_clamp tp)" and "unat (snd_cwnd tp) < 2 ^ 30"
  shows "tcp_slow_start k tp = Some (tp\<lparr>bytes_acked := 0, snd_cwnd := snd_cwnd tp + 2,
           snd_cwnd_cnt := snd_cwnd_cnt tp - 1\<rparr>)"
proof -
  let ?w = "snd_cwnd tp" and ?c = "snd_cwnd_cnt tp" and ?m = "snd_cwnd_clamp tp"
  have s: "slow_start_cnt k tp = push_bit 1 (u32_int ?w)"
    using assms(1,2,4) by (auto simp: slow_start_cnt_def Let_def)
  have ui: "unat (u32_int ?w) = unat ?w" using assms(8) by (intro unat_u32_int_small) simp
  then have p: "unat (push_bit 1 (u32_int ?w)) = 2 * unat ?w"
    using assms(8) unat_push_small [of "u32_int ?w" 1] by simp
  have u: "unat (?c + push_bit 1 (u32_int ?w)) = unat ?c + 2 * unat ?w"
    using assms(6,8) p by (subst unat_add_u16_small) auto
  let ?n = "?c + push_bit 1 (u32_int ?w)"
  let ?n1 = "word_of_nat (unat ?n - unat ?w) :: u16"
  have n1: "unat ?n1 = unat ?c + unat ?w" using unat_of_nat_diff_u16 [of ?n "unat ?w"] u by linarith
  have w1: "unat (?w + 1) = unat ?w + 1" using assms(7) by (intro unat_inc_u16 [of _ ?m]) simp
  have "slow_start_loop ?m ?n ?w = slow_start_loop ?m ?n1 (?w + 1)"
    using slow_start_loop_turn [of ?w ?n ?m] u assms(7) by simp
  also have "\<dots> = Some (word_of_nat (unat ?c - 1), ?w + 1 + 1)"
    using n1 w1 assms(5,6,7) by (intro slow_start_loop_once) linarith+
  also have "word_of_nat (unat ?c - 1) = ?c - 1"
    using assms(5) by (simp add: of_nat_diff)
  finally show ?thesis using assms(3) by (auto simp: tcp_slow_start_def s not_less add.assoc)
qed

text \<open>A run of \<open>n\<close> calls of a handler.\<close>

primrec iter_handler :: "('s \<Rightarrow> 's option) \<Rightarrow> nat \<Rightarrow> 's \<Rightarrow> 's option" where
  "iter_handler f 0 s = Some s"
| "iter_handler f (Suc n) s = f s \<bind> iter_handler f n"

lemma iter_handler_add:
  "iter_handler f (m + n) s = iter_handler f m s \<bind> iter_handler f n"
  by (induction m arbitrary: s) (simp_all split: Option.bind_splits)

lemma reno_ca_step:
  assumes "sysctl_tcp_abc k = 0" and "snd_ssthresh tp < snd_cwnd tp" and "snd_cwnd tp \<le> in_flight"
  shows "tcp_reno_cong_avoid k tp ack rtt in_flight flag =
     Some (if unat (snd_cwnd tp) \<le> unat (snd_cwnd_cnt tp)
           then (inc_cwnd_clamped tp)\<lparr>snd_cwnd_cnt := 0\<rparr>
           else tp\<lparr>snd_cwnd_cnt := snd_cwnd_cnt tp + 1\<rparr>)"
  using assms by (auto simp: tcp_reno_cong_avoid_def tcp_is_cwnd_limited_def le_u16_u32_iff)

lemma reno_ca_counts:
  assumes "sysctl_tcp_abc k = 0" and "snd_ssthresh tp < snd_cwnd tp" and "snd_cwnd tp \<le> in_flight"
    and "unat (snd_cwnd_cnt tp) + n \<le> unat (snd_cwnd tp)" and "unat (snd_cwnd tp) < 2 ^ 32"
  shows "iter_handler (\<lambda>tp. tcp_reno_cong_avoid k tp ack rtt in_flight flag) n tp =
     Some (tp\<lparr>snd_cwnd_cnt := snd_cwnd_cnt tp + of_nat n\<rparr>)"
  using assms(2-5)
proof (induction n arbitrary: tp)
  case 0
  then show ?case by simp
next
  case (Suc n)
  have "unat (snd_cwnd_cnt tp + 1) = unat (snd_cwnd_cnt tp) + 1"
    using Suc.prems by (subst unat_add_u16_small) auto
  then show ?case
    using Suc.prems Suc.IH [of "tp\<lparr>snd_cwnd_cnt := snd_cwnd_cnt tp + 1\<rparr>"]
    by (simp add: reno_ca_step [OF assms(1)] add.assoc)
qed

lemma reno_additive_increase:
  assumes "sysctl_tcp_abc k = 0" and "snd_ssthresh tp < snd_cwnd tp" and "snd_cwnd tp \<le> in_flight"
    and "snd_cwnd_cnt tp = 0" and "snd_cwnd tp < u16_u32 (snd_cwnd_clamp tp)"
  shows "iter_handler (\<lambda>tp. tcp_reno_cong_avoid k tp ack rtt in_flight flag)
           (unat (snd_cwnd tp) + 1) tp = Some (tp\<lparr>snd_cwnd := snd_cwnd tp + 1\<rparr>)"
proof -
  let ?f = "\<lambda>tp. tcp_reno_cong_avoid k tp ack rtt in_flight flag"
  have w: "unat (snd_cwnd tp) < 2 ^ 32"
    using assms(5) unat_u16_bound [of "snd_cwnd_clamp tp"] by (simp add: less_u16_u32_iff)
  have "iter_handler ?f (unat (snd_cwnd tp)) tp = Some (tp\<lparr>snd_cwnd_cnt := of_nat (unat (snd_cwnd tp))\<rparr>)"
    using reno_ca_counts [OF assms(1-3), of "unat (snd_cwnd tp)"] assms(4) w by simp
  moreover have "unat (word_of_nat (unat (snd_cwnd tp)) :: u16) = unat (snd_cwnd tp)"
    using w by (simp only: unat_of_nat) simp
  ultimately show ?thesis
    using assms by (simp only: iter_handler_add)
      (simp add: reno_ca_step inc_cwnd_clamped_def)
qed

lemma tcp_reno_ssthresh_val:
  "unat (max (drop_bit 1 w) 2 :: u32) = max (unat w div 2) 2"
proof -
  have "unat (drop_bit 1 w) = unat w div 2"
    using trans [OF unat_drop_bit_eq [of 1 w] drop_bit_eq_div [of 1 "unat w"]] by simp
  then show ?thesis by (simp add: max_def word_le_nat_alt del: drop_bit_Suc)
qed

end
