(* ===== verification/Cong_Contract.thy ===== *)
theory Cong_Contract
  imports Tcp_Reno
begin

text \<open>
  What the TCP-Linux agent (\<open>tcp/tcp-linux.cc\<close>) relies on from a congestion control module:
  the calls it makes through the table of operations, with its checks for null entries, and the
  contract \<open>cong_control\<close> that makes any sequence of those calls safe. Each module's theory
  interprets the locale on the module's own table.
\<close>

section \<open>Calls through the table\<close>

definition cc_init :: "'p tcp_congestion_ops \<Rightarrow> kernel \<Rightarrow> 'p tcp_sock \<Rightarrow> 'p tcp_sock option" where
  "cc_init ops k sk = (case op_init ops of None \<Rightarrow> Some sk | Some f \<Rightarrow> f k sk)"

definition cc_ssthresh ::
    "'p tcp_congestion_ops \<Rightarrow> kernel \<Rightarrow> 'p tcp_sock \<Rightarrow> (u32 \<times> 'p tcp_sock) option" where
  "cc_ssthresh ops k sk = (case op_ssthresh ops of None \<Rightarrow> None | Some f \<Rightarrow> f k sk)"

text \<open>The window after a congestion event: \<open>min_cwnd\<close> if there is one, \<open>snd_ssthresh\<close> otherwise.\<close>

definition cc_min_cwnd :: "'p tcp_congestion_ops \<Rightarrow> 'p tcp_sock \<Rightarrow> u32 option" where
  "cc_min_cwnd ops sk =
     (case op_min_cwnd ops of None \<Rightarrow> Some (snd_ssthresh sk) | Some f \<Rightarrow> f sk)"

definition cc_cong_avoid :: "'p tcp_congestion_ops \<Rightarrow> kernel \<Rightarrow> 'p tcp_sock \<Rightarrow> u32 \<Rightarrow> u32 \<Rightarrow> u32 \<Rightarrow>
    cint \<Rightarrow> 'p tcp_sock option" where
  "cc_cong_avoid ops k sk ack rtt in_flight good =
     (case op_cong_avoid ops of None \<Rightarrow> None | Some f \<Rightarrow> f k sk ack rtt in_flight good)"

definition tcp_set_ca_state ::
    "'p tcp_congestion_ops \<Rightarrow> kernel \<Rightarrow> 'p tcp_sock \<Rightarrow> tcp_ca_state \<Rightarrow> 'p tcp_sock option" where
  "tcp_set_ca_state ops k sk st = do {
     sk \<leftarrow> (case op_set_state ops of None \<Rightarrow> Some sk | Some f \<Rightarrow> f k sk st);
     Some (sk\<lparr>icsk_ca_state := st\<rparr>)
   }"

definition cc_cwnd_event ::
    "'p tcp_congestion_ops \<Rightarrow> kernel \<Rightarrow> 'p tcp_sock \<Rightarrow> tcp_ca_event \<Rightarrow> 'p tcp_sock option" where
  "cc_cwnd_event ops k sk ev = (case op_cwnd_event ops of None \<Rightarrow> Some sk | Some f \<Rightarrow> f k sk ev)"

definition cc_pkts_acked ::
    "'p tcp_congestion_ops \<Rightarrow> kernel \<Rightarrow> 'p tcp_sock \<Rightarrow> u32 \<Rightarrow> s64 \<Rightarrow> 'p tcp_sock option" where
  "cc_pkts_acked ops k sk num ts =
     (case op_pkts_acked ops of None \<Rightarrow> Some sk | Some f \<Rightarrow> f k sk num ts)"

section \<open>The contract\<close>

text \<open>
  The fields a handler leaves alone. \<open>path_ok R\<close> is what the agent maintains of the clock and
  of the smoothed round-trip time: \<open>rtt_update\<close> keeps \<open>srtt\<close> at 8 or more (one tick scaled
  by 8); \<open>R\<close> bounds it from above. \<open>sample_ok\<close>: a time stamp of a sent packet is not in the
  future, or invalid.
\<close>

definition same_path :: "'p tcp_sock \<Rightarrow> 'p tcp_sock \<Rightarrow> bool" where
  "same_path sk sk' \<longleftrightarrow> snd_nxt sk' = snd_nxt sk \<and> snd_una sk' = snd_una sk
     \<and> mss_cache sk' = mss_cache sk \<and> srtt sk' = srtt sk \<and> rx_opt sk' = rx_opt sk
     \<and> icsk_ca_ops sk' = icsk_ca_ops sk \<and> icsk_ca_state sk' = icsk_ca_state sk"

lemma same_path_refl [simp, intro]: "same_path sk sk"
  by (simp add: same_path_def)

lemma same_path_trans [trans]: "same_path a b \<Longrightarrow> same_path b c \<Longrightarrow> same_path a c"
  by (simp add: same_path_def)

lemma same_path_simps [simp]:
  "same_path sk (upd_ca f sk') = same_path sk sk'"
  "same_path sk (sk'\<lparr>snd_cwnd := w\<rparr>) = same_path sk sk'"
  "same_path sk (sk'\<lparr>snd_cwnd_cnt := c\<rparr>) = same_path sk sk'"
  "same_path sk (sk'\<lparr>snd_ssthresh := t\<rparr>) = same_path sk sk'"
  "same_path sk (sk'\<lparr>snd_cwnd_clamp := m\<rparr>) = same_path sk sk'"
  "same_path sk (sk'\<lparr>snd_cwnd_stamp := x\<rparr>) = same_path sk sk'"
  "same_path sk (sk'\<lparr>bytes_acked := b\<rparr>) = same_path sk sk'"
  "same_path sk (sk'\<lparr>icsk_ca_priv := p\<rparr>) = same_path sk sk'"
  by (simp_all add: same_path_def)

lemma same_path_inc [simp]: "same_path sk (inc_cwnd_clamped sk') = same_path sk sk'"
  by (simp add: inc_cwnd_clamped_def)

lemma win_grow_same_path: "win_grow sk sk' \<Longrightarrow> same_path sk sk'"
  using win_grow_frame [of sk sk'] by (cases sk; cases sk'; simp add: same_path_def win_grow_def)

definition path_ok :: "nat \<Rightarrow> kernel \<Rightarrow> 'p tcp_sock \<Rightarrow> bool" where
  "path_ok R k sk \<longleftrightarrow> unat (tcp_time_stamp k) < 2 ^ 50
     \<and> unat (rcv_tsecr (rx_opt sk)) \<le> unat (tcp_time_stamp k)
     \<and> 8 \<le> unat (srtt sk) \<and> unat (srtt sk) < R"

lemma path_ok_same: "same_path sk sk' \<Longrightarrow> path_ok R k sk' = path_ok R k sk"
  by (simp add: same_path_def path_ok_def)

definition sample_ok :: "kernel \<Rightarrow> s64 \<Rightarrow> bool" where
  "sample_ok k ts \<longleftrightarrow> ts = 0 \<or> (0 \<le> sint ts \<and> sint ts \<le> sint (ktime_get_real k))"

text \<open>
  The microsecond sample \<open>ktime_to_us(net_timedelta(last)) + 1\<close> of the delay-based modules is
  never zero.
\<close>

lemma sint_of_nonneg: "0 \<le> i \<Longrightarrow> i < 9223372036854775808 \<Longrightarrow> sint (word_of_int i :: s64) = i"
  by (simp add: sint_uint uint_word_of_int signed_take_bit_int_eq_self take_bit_int_eq_self)

lemma sdiv_nonneg: "0 \<le> x \<Longrightarrow> x sdiv 1000 = x div (1000 :: int)"
  by (cases "x = 0") (simp_all add: signed_divide_int_def sgn_if)

lemma rtt_sample_nonzero:
  assumes "sample_ok k ts" and "ts \<noteq> 0"
  shows "ktime_to_us (net_timedelta k ts) + 1 \<noteq> 0"
proof -
  let ?d = "sint (ktime_get_real k) - sint ts"
  have m: "sint (ktime_get_real k) < 9223372036854775808"
    using signed_take_bit_int_less_exp [of 63 "uint (ktime_get_real k)"] by (simp add: sint_uint)
  have b: "0 \<le> ?d" "?d < 9223372036854775808"
    using assms m by (auto simp: sample_ok_def)
  have "net_timedelta k ts = word_of_int ?d" by (simp add: net_timedelta_def)
  then have d: "sint (net_timedelta k ts) = ?d" using sint_of_nonneg [OF b] by simp
  have q: "0 \<le> ?d div 1000" "?d div 1000 < 9223372036854775807" using b by linarith+
  have "ktime_to_us (net_timedelta k ts) = word_of_int (?d div 1000)"
    unfolding ktime_to_us_def d by (simp only: sdiv_nonneg [OF b(1)])
  then have "ktime_to_us (net_timedelta k ts) + 1 = word_of_int (?d div 1000 + 1)" by simp
  moreover have "sint (word_of_int (?d div 1000 + 1) :: s64) = ?d div 1000 + 1"
    using q by (intro sint_of_nonneg) linarith+
  ultimately show ?thesis using q by auto
qed

text \<open>The call returns, and the result is again a good socket on the same path.\<close>

definition keeps :: "nat \<Rightarrow> ('p \<Rightarrow> bool) \<Rightarrow> 'p tcp_sock \<Rightarrow> 'p tcp_sock option \<Rightarrow> bool" where
  "keeps L pinv sk r \<longleftrightarrow>
     (\<exists>sk'. r = Some sk' \<and> sock_ok L sk' \<and> pinv (icsk_ca_priv sk') \<and> same_path sk sk')"

lemma keeps_Some [simp]:
  "keeps L pinv sk (Some sk') \<longleftrightarrow> sock_ok L sk' \<and> pinv (icsk_ca_priv sk') \<and> same_path sk sk'"
  by (simp add: keeps_def)

lemma keeps_None [simp]: "\<not> keeps L pinv sk None"
  by (simp add: keeps_def)

lemma keeps_bind:
  assumes "keeps L pinv sk r"
    and "\<And>sk'. sock_ok L sk' \<Longrightarrow> pinv (icsk_ca_priv sk') \<Longrightarrow> same_path sk sk' \<Longrightarrow> keeps L pinv sk' (f sk')"
  shows "keeps L pinv sk (r \<bind> f)"
  using assms same_path_trans unfolding keeps_def by fastforce

lemma keeps_grow:
  assumes "r = Some sk'" and "win_grow sk sk'" and "sock_ok L sk" and "pinv (icsk_ca_priv sk)"
  shows "keeps L pinv sk r"
  using assms win_grow_sock_ok [OF assms(2,3)] win_grow_same_path [OF assms(2)]
  by (simp add: win_grow_frame(1) [OF assms(2)])

lemma tcp_slow_start_keeps:
  assumes "sock_ok L sk" and "pinv (icsk_ca_priv sk)"
  shows "keeps L pinv sk (tcp_slow_start k sk)"
  using tcp_slow_start_grows [OF sock_okD(1) [OF assms(1)], of k] assms keeps_grow by metis

lemma tcp_reno_cong_avoid_keeps:
  assumes "sock_ok L sk" and "pinv (icsk_ca_priv sk)"
  shows "keeps L pinv sk (tcp_reno_cong_avoid k sk ack rtt in_flight flag)"
  using tcp_reno_cong_avoid_grows [OF sock_okD(1) [OF assms(1)], of k ack rtt in_flight flag]
    assms keeps_grow by metis

lemma inc_cwnd_clamped_keeps:
  "sock_ok L sk \<Longrightarrow> pinv (icsk_ca_priv sk) \<Longrightarrow> keeps L pinv sk (Some ((inc_cwnd_clamped sk)\<lparr>snd_cwnd_cnt := c\<rparr>))"
  by (auto simp: inc_cwnd_clamped_ok)

lemma set_ca_state_keeps:
  assumes "keeps L pinv sk (case op_set_state ops of None \<Rightarrow> Some sk | Some f \<Rightarrow> f k sk st)"
  shows "keeps L pinv (sk\<lparr>icsk_ca_state := st\<rparr>) (tcp_set_ca_state ops k sk st)"
  using assms by (auto simp: keeps_def tcp_set_ca_state_def same_path_def)

text \<open>A new threshold: the call returns at least 2 segments.\<close>

definition yields :: "nat \<Rightarrow> ('p \<Rightarrow> bool) \<Rightarrow> 'p tcp_sock \<Rightarrow> (u32 \<times> 'p tcp_sock) option \<Rightarrow> bool" where
  "yields L pinv sk r \<longleftrightarrow> (\<exists>w sk'. r = Some (w, sk') \<and> 2 \<le> unat w \<and> unat w < L
     \<and> snd_cwnd sk' = snd_cwnd sk \<and> keeps L pinv sk (Some sk'))"

lemma yields_Some [simp]:
  "yields L pinv sk (Some (w, sk')) \<longleftrightarrow> 2 \<le> unat w \<and> unat w < L \<and> snd_cwnd sk' = snd_cwnd sk
     \<and> sock_ok L sk' \<and> pinv (icsk_ca_priv sk') \<and> same_path sk sk'"
  by (auto simp: yields_def)

lemma max2_bounds:
  "unat (w :: u32) < L \<Longrightarrow> 2 < L \<Longrightarrow> 2 \<le> unat (max w 2) \<and> unat (max w 2) < L"
  by (auto simp: max_def word_le_nat_alt)

lemma unat_half: "unat (drop_bit 1 (w :: u32)) = unat w div 2"
  using trans [OF unat_drop_bit_eq [of 1 w] drop_bit_eq_div [of 1 "unat w"]] by simp

lemma yields_max2:
  assumes "unat w < L" and "sock_ok L sk'" and "pinv (icsk_ca_priv sk')" and "same_path sk sk'"
    and "snd_cwnd sk' = snd_cwnd sk"
  shows "yields L pinv sk (Some (max w 2, sk'))"
proof -
  have "2 < L" using sock_okD(8) [OF assms(2)] by simp
  then show ?thesis unfolding yields_Some using max2_bounds [OF assms(1)] assms(2-) by blast
qed

lemma unat_half_less: "unat (w :: u32) < L \<Longrightarrow> unat (drop_bit 1 w) < L"
  unfolding unat_half by linarith

lemma tcp_reno_ssthresh_yields:
  "sock_ok L sk \<Longrightarrow> pinv (icsk_ca_priv sk) \<Longrightarrow> yields L pinv sk (tcp_reno_ssthresh k sk)"
  unfolding tcp_reno_ssthresh_def by (rule yields_max2, rule unat_half_less) (auto dest: sock_okD)

text \<open>A floor for the window of at least 1 segment.\<close>

definition floor_ok :: "nat \<Rightarrow> u32 option \<Rightarrow> bool" where
  "floor_ok L r \<longleftrightarrow> (\<exists>w. r = Some w \<and> 1 \<le> unat w \<and> unat w < L)"

lemma floor_ok_Some [simp]: "floor_ok L (Some w) \<longleftrightarrow> 1 \<le> unat w \<and> unat w < L"
  by (simp add: floor_ok_def)

lemma min_cwnd_reno_ok:
  "2 \<le> unat (snd_ssthresh sk) \<Longrightarrow> sock_ok L sk \<Longrightarrow> floor_ok L (tcp_reno_min_cwnd sk)"
  by (auto simp: tcp_reno_min_cwnd_def unat_div sock_ok_def)

text \<open>
  \<open>cong_core\<close>: the calls every table answers. \<open>cong_ack\<close> adds the sampling of
  acknowledgments and \<open>cong_loss\<close> the reduction of the threshold after a loss;
  \<open>cong_control\<close> is both.
\<close>

locale cong_core =
  fixes L R :: nat
    and ops :: "'p tcp_congestion_ops"
    and pinv :: "'p \<Rightarrow> bool"
  assumes init_ok: "sock_ok L sk \<Longrightarrow> path_ok R k sk \<Longrightarrow> keeps L pinv sk (cc_init ops k sk)"
    and min_cwnd_ok: "sock_ok L sk \<Longrightarrow> pinv (icsk_ca_priv sk) \<Longrightarrow> 2 \<le> unat (snd_ssthresh sk) \<Longrightarrow>
      floor_ok L (cc_min_cwnd ops sk)"
    and cong_avoid_ok: "sock_ok L sk \<Longrightarrow> pinv (icsk_ca_priv sk) \<Longrightarrow> path_ok R k sk \<Longrightarrow>
      keeps L pinv sk (cc_cong_avoid ops k sk ack rtt in_flight good)"
    and set_state_ok: "sock_ok L sk \<Longrightarrow> pinv (icsk_ca_priv sk) \<Longrightarrow> path_ok R k sk \<Longrightarrow>
      keeps L pinv (sk\<lparr>icsk_ca_state := st\<rparr>) (tcp_set_ca_state ops k sk st)"
    and cwnd_event_ok: "sock_ok L sk \<Longrightarrow> pinv (icsk_ca_priv sk) \<Longrightarrow> path_ok R k sk \<Longrightarrow>
      keeps L pinv sk (cc_cwnd_event ops k sk ev)"

locale cong_ack = cong_core +
  assumes pkts_acked_ok: "sock_ok L sk \<Longrightarrow> pinv (icsk_ca_priv sk) \<Longrightarrow> path_ok R k sk \<Longrightarrow>
      unat num < 4294967296 \<Longrightarrow> sample_ok k ts \<Longrightarrow>
      keeps L pinv sk (cc_pkts_acked ops k sk num ts)"

locale cong_loss = cong_core +
  assumes ssthresh_ok: "sock_ok L sk \<Longrightarrow> pinv (icsk_ca_priv sk) \<Longrightarrow> path_ok R k sk \<Longrightarrow>
      yields L pinv sk (cc_ssthresh ops k sk)"

locale cong_control = cong_ack + cong_loss

lemmas cc_defs = cc_init_def cc_ssthresh_def cc_min_cwnd_def cc_cong_avoid_def
  tcp_set_ca_state_def cc_cwnd_event_def cc_pkts_acked_def null_ops_def

interpretation reno: cong_control win_limit R tcp_reno "\<lambda>_. True"
  by unfold_locales
    (auto simp: cc_defs tcp_reno_def tcp_reno_ssthresh_yields tcp_reno_cong_avoid_keeps
      min_cwnd_reno_ok same_path_def)

end
