(* ===== verification/Linux_Agent.thy ===== *)
theory Linux_Agent
  imports Cong_Contract
begin

text \<open>
  The congestion control part of the agent \<open>LinuxTcpAgent\<close> (\<open>tcp/tcp-linux.cc\<close>,
  \<open>tcp-linux.h\<close>), the client of a table of operations: the smoothed round-trip time
  (\<open>rtt_update\<close>), the processing of an acknowledgment (\<open>recv\<close>), fast retransmit
  (\<open>tcp_fastretrans_alert\<close>) and the retransmission timeout (\<open>enter_loss\<close>), with a
  congestion control module installed; and \<open>ParamList\<close>, the values of module parameters that
  are local to one agent. What the scoreboard, the packet header and the floating-point clock
  contribute to one acknowledgment is an argument (\<open>ack_view\<close>).

  The lemmas in the locale show that any sequence of acknowledgments and timeouts is handled
  without a trap and keeps the window between 1 and the limit, whatever the module, if it
  satisfies the contract.
\<close>

section \<open>Local parameters\<close>

record param_node =
  pn_addr :: nat
  pn_value :: cint
  pn_default :: cint

type_synonym mem = "nat \<Rightarrow> cint"

fun set_node :: "nat \<Rightarrow> cint \<Rightarrow> param_node list \<Rightarrow> param_node list option" where
  "set_node a v [] = None"
| "set_node a v (p # ps) =
     (if pn_addr p \<noteq> a then map_option (Cons p) (set_node a v ps) else Some (p\<lparr>pn_value := v\<rparr> # ps))"

definition set_param :: "mem \<Rightarrow> nat \<Rightarrow> cint \<Rightarrow> param_node list \<Rightarrow> param_node list" where
  "set_param m a v ns =
     (case set_node a v ns of
        Some ns' \<Rightarrow> ns'
      | None \<Rightarrow> \<lparr>pn_addr = a, pn_value = v, pn_default = m a\<rparr> # ns)"

fun get_param :: "nat \<Rightarrow> param_node list \<Rightarrow> cint option" where
  "get_param a [] = None"
| "get_param a (p # ps) = (if pn_addr p \<noteq> a then get_param a ps else Some (pn_value p))"

fun refresh_default :: "mem \<Rightarrow> param_node list \<Rightarrow> param_node list" where
  "refresh_default m [] = []"
| "refresh_default m (p # ps) = p\<lparr>pn_default := m (pn_addr p)\<rparr> # refresh_default m ps"

fun load_local :: "mem \<times> param_node list \<Rightarrow> mem \<times> param_node list" where
  "load_local (m, []) = (m, [])"
| "load_local (m, p # ps) =
     (let p' = p\<lparr>pn_default := m (pn_addr p)\<rparr>; (m', ps') = load_local (m(pn_addr p := pn_value p), ps)
      in (m', p' # ps'))"

fun restore_default :: "mem \<times> param_node list \<Rightarrow> mem \<times> param_node list" where
  "restore_default (m, []) = (m, [])"
| "restore_default (m, p # ps) =
     (let p' = p\<lparr>pn_value := m (pn_addr p)\<rparr>; (m', ps') = restore_default (m(pn_addr p := pn_default p), ps)
      in (m', p' # ps'))"

section \<open>The agent\<close>

definition FLAG_ECE :: u8 where "FLAG_ECE = 1"
definition FLAG_DATA_SACKED :: u8 where "FLAG_DATA_SACKED = 2"
definition FLAG_DATA_ACKED :: u8 where "FLAG_DATA_ACKED = 4"
definition FLAG_DATA_LOST :: u8 where "FLAG_DATA_LOST = 8"
definition FLAG_CA_ALERT :: u8 where "FLAG_CA_ALERT = FLAG_DATA_SACKED OR FLAG_ECE"
definition FLAG_NOT_DUP :: u8 where "FLAG_NOT_DUP = FLAG_DATA_ACKED"
definition FLAG_UNSURE_TSTAMP :: u8 where "FLAG_UNSURE_TSTAMP = 16"

record 'p agent =
  ag_linux :: "'p tcp_sock"
  ag_initialized :: bool
  ag_highest_ack :: cint
  ag_maxseq :: cint
  ag_t_seqno :: cint
  ag_recover :: cint
  ag_next_pkts_in_flight :: cint
  ag_t_srtt :: cint
  ag_t_rttvar :: cint

text \<open>
  One acknowledgment: its sequence number; whether it echoes ECN and ECN is on; the packets in
  flight before and after \<open>UpdateScoreBoard\<close>, and the bits it returns; the echoed time stamps
  with their round-trip sample, if the option is on and the packet has it; the sample of the
  timed packet otherwise; \<open>seq_rtt\<close>; the send time of the packet (0 when it is not recorded).
  A sample is a number of ticks (\<open>t_rtt_\<close> before its lower bound) and of microseconds.
\<close>

type_synonym rtt_sample = "cint \<times> u32"

record ack_view =
  av_seqno :: cint
  av_ecnecho :: bool
  av_prior_in_flight :: cint
  av_in_flight :: cint
  av_scoreboard :: u8
  av_ts :: "(u32 \<times> u32 \<times> rtt_sample) option"
  av_timed :: "rtt_sample option"
  av_seq_rtt :: s64
  av_last_ackt :: s64

definition touch_cwnd :: "kernel \<Rightarrow> 'p tcp_sock \<Rightarrow> 'p tcp_sock" where
  "touch_cwnd k sk = sk\<lparr>snd_cwnd_stamp := tcp_time_stamp k\<rparr>"

definition tcp_moderate_cwnd :: "cint \<Rightarrow> kernel \<Rightarrow> cint \<Rightarrow> 'p tcp_sock \<Rightarrow> 'p tcp_sock" where
  "tcp_moderate_cwnd burst k in_flight sk =
     (let a = u32_int (snd_cwnd sk); b = in_flight + burst
      in touch_cwnd k (sk\<lparr>snd_cwnd := int_u32 (if sint a \<le> sint b then a else b)\<rparr>))"

definition cc_rtt_sample ::
    "'p tcp_congestion_ops \<Rightarrow> kernel \<Rightarrow> 'p tcp_sock \<Rightarrow> u32 \<Rightarrow> 'p tcp_sock option" where
  "cc_rtt_sample ops k sk us = (case op_rtt_sample ops of None \<Rightarrow> Some sk | Some f \<Rightarrow> f k sk us)"

text \<open>
  The fixed-point averages of \<open>rtt_update\<close>, with the default \<open>T_SRTT_BITS = 3\<close> and
  \<open>T_RTTVAR_BITS = 2\<close>; \<open>delta\<close> is a \<open>short\<close>.
\<close>

definition srtt_step :: "cint \<Rightarrow> cint \<Rightarrow> cint \<Rightarrow> cint \<times> cint" where
  "srtt_step t_rtt s rttvar =
     (let t_rtt = (if sint t_rtt < 1 then 1 else t_rtt)
      in if s \<noteq> 0 then
           let delta = (ucast (t_rtt - signed_drop_bit 3 s) :: 16 word);
               s' = s + scast delta;
               s' = (if sint s' \<le> 0 then 1 else s');
               v = signed_drop_bit 2 rttvar;
               delta' = (if sint delta < 0 then
                           let d = (ucast ((scast (- delta) :: cint) - v) :: 16 word)
                           in if 0 < sint d then signed_drop_bit 3 d else d
                         else (ucast ((scast delta :: cint) - v) :: 16 word))
           in (s', rttvar + scast delta')
         else (push_bit 3 t_rtt, push_bit 1 t_rtt))"

definition rtt_update ::
    "'p tcp_congestion_ops \<Rightarrow> kernel \<Rightarrow> rtt_sample \<Rightarrow> 'p agent \<Rightarrow> 'p agent option" where
  "rtt_update ops k r ag = do {
     sk \<leftarrow> cc_rtt_sample ops k (ag_linux ag) (snd r);
     let (s, v) = srtt_step (fst r) (ag_t_srtt ag) (ag_t_rttvar ag);
     Some (ag\<lparr>ag_t_srtt := s, ag_t_rttvar := v, ag_linux := sk\<lparr>srtt := int_u32 s\<rparr>\<rparr>)
   }"

definition ack_processing :: "ack_view \<Rightarrow> u8 \<Rightarrow> 'p agent \<Rightarrow> u8 \<times> 'p agent" where
  "ack_processing av flag ag =
     (if flag AND FLAG_DATA_ACKED \<noteq> 0 then
        let h = av_seqno av;
            ag = ag\<lparr>ag_highest_ack := h,
                    ag_linux := (ag_linux ag)\<lparr>snd_una := int_u32 (h + 1) * mss_cache (ag_linux ag)\<rparr>,
                    ag_maxseq := (if sint (ag_maxseq ag) < sint h then h else ag_maxseq ag)\<rparr>
        in (flag, if sint (ag_t_seqno ag) < sint (h + 1)
                  then ag\<lparr>ag_t_seqno := h + 1,
                          ag_linux := (ag_linux ag)\<lparr>snd_nxt := int_u32 (h + 1) * mss_cache (ag_linux ag)\<rparr>\<rparr>
                  else ag)
      else (flag OR FLAG_UNSURE_TSTAMP, ag))"

definition upd_rx_opt ::
    "(tcp_options_received \<Rightarrow> tcp_options_received) \<Rightarrow> 'p agent \<Rightarrow> 'p agent" where
  "upd_rx_opt f ag = ag\<lparr>ag_linux := (ag_linux ag)\<lparr>rx_opt := f (rx_opt (ag_linux ag))\<rparr>\<rparr>"

definition time_processing ::
    "'p tcp_congestion_ops \<Rightarrow> kernel \<Rightarrow> ack_view \<Rightarrow> 'p agent \<Rightarrow> 'p agent option" where
  "time_processing ops k av ag =
     (let ag = upd_rx_opt (\<lambda>x. x\<lparr>saw_tstamp := 0\<rparr>) ag
      in case av_ts av of
           Some (ecr, val, r) \<Rightarrow>
             rtt_update ops k r
               (upd_rx_opt (\<lambda>x. x\<lparr>saw_tstamp := 1, rcv_tsecr := ecr, rcv_tsval := val\<rparr>) ag)
         | None \<Rightarrow> (case av_timed av of None \<Rightarrow> Some ag | Some r \<Rightarrow> rtt_update ops k r ag))"

text \<open>The reduction of the window on a loss or an ECN echo (step F of \<open>tcp_fastretrans_alert\<close>).\<close>

definition agent_reduce ::
    "'p tcp_congestion_ops \<Rightarrow> kernel \<Rightarrow> 'p agent \<Rightarrow> 'p agent option" where
  "agent_reduce ops k ag = do {
     let sk = touch_cwnd k (ag_linux ag);
     let next = u32_int (snd_cwnd sk);
     (w, sk) \<leftarrow> cc_ssthresh ops k sk;
     let sk = sk\<lparr>snd_ssthresh := w, snd_cwnd_cnt := 0, bytes_acked := 0\<rparr>;
     c \<leftarrow> cc_min_cwnd ops sk;
     sk \<leftarrow> tcp_set_ca_state ops k (sk\<lparr>snd_cwnd := c\<rparr>) TCP_CA_Recovery;
     Some (ag\<lparr>ag_linux := sk, ag_recover := ag_maxseq ag, ag_next_pkts_in_flight := next\<rparr>)
   }"

definition tcp_fastretrans_alert ::
    "cint \<Rightarrow> 'p tcp_congestion_ops \<Rightarrow> kernel \<Rightarrow> cint \<Rightarrow> u8 \<Rightarrow> 'p agent \<Rightarrow> 'p agent option" where
  "tcp_fastretrans_alert burst ops k in_flight flag ag =
     (let sk = ag_linux ag
      in if icsk_ca_state sk \<noteq> TCP_CA_Open \<and> sint (ag_recover ag) \<le> sint (ag_highest_ack ag) then do {
           let sk = (if snd_cwnd sk < snd_ssthresh sk
                     then tcp_moderate_cwnd burst k in_flight (sk\<lparr>snd_cwnd := snd_ssthresh sk\<rparr>) else sk);
           sk \<leftarrow> tcp_set_ca_state ops k sk TCP_CA_Open;
           Some (ag\<lparr>ag_linux := sk, ag_next_pkts_in_flight := 0\<rparr>)
         }
         else if icsk_ca_state sk = TCP_CA_Recovery then Some ag
         else if flag AND (FLAG_DATA_LOST OR FLAG_ECE) \<noteq> 0 then agent_reduce ops k ag
         else Some ag)"

definition tcp_may_raise_cwnd :: "u8 \<Rightarrow> 'p tcp_sock \<Rightarrow> bool" where
  "tcp_may_raise_cwnd flag sk \<longleftrightarrow> (flag AND FLAG_ECE = 0 \<or> snd_cwnd sk < snd_ssthresh sk)
     \<and> icsk_ca_state sk \<noteq> TCP_CA_Recovery \<and> icsk_ca_state sk \<noteq> TCP_CA_CWR"

definition agent_cong_avoid :: "'p tcp_congestion_ops \<Rightarrow> kernel \<Rightarrow> u32 \<Rightarrow> ack_view \<Rightarrow> cint \<Rightarrow>
    'p agent \<Rightarrow> 'p agent option" where
  "agent_cong_avoid ops k ack av good ag = do {
     let sk = ag_linux ag;
     sk \<leftarrow> cc_cong_avoid ops k sk (ack * mss_cache sk) (av_seq_rtt av) (int_u32 (av_prior_in_flight av)) good;
     Some (ag\<lparr>ag_linux := touch_cwnd k sk\<rparr>)
   }"

text \<open>
  \<open>recv\<close> in four parts: the bits known before the socket is read; sequence numbers, scoreboard
  and clock; the module's \<open>init\<close> and its notifications; the window.
\<close>

definition ack_flags :: "ack_view \<Rightarrow> u32 \<Rightarrow> u32 \<Rightarrow> u8" where
  "ack_flags av prior_snd_una ack =
     (if av_ecnecho av \<and> 1 < ack then FLAG_ECE else 0) OR (if prior_snd_una < ack then FLAG_DATA_ACKED else 0)"

definition ack_sequence :: "ack_view \<Rightarrow> u32 \<Rightarrow> u32 \<Rightarrow> 'p agent \<Rightarrow> u8 \<times> 'p agent" where
  "ack_sequence av prior_snd_una ack ag =
     (let ag = (if prior_snd_una < ack
                then ag\<lparr>ag_linux := (ag_linux ag)\<lparr>bytes_acked := bytes_acked (ag_linux ag)
                          + (ack - prior_snd_una) * mss_cache (ag_linux ag)\<rparr>\<rparr> else ag);
          (flag, ag) = ack_processing av (ack_flags av prior_snd_una ack) ag
      in (flag OR av_scoreboard av, ag))"

definition ack_notify :: "'p tcp_congestion_ops \<Rightarrow> kernel \<Rightarrow> ack_view \<Rightarrow> u8 \<Rightarrow> u32 \<Rightarrow> 'p agent \<Rightarrow>
    'p agent option" where
  "ack_notify ops k av flag num ag = do {
     sk \<leftarrow> (if \<not> ag_initialized ag then cc_init ops k (ag_linux ag) else Some (ag_linux ag));
     sk \<leftarrow> (if flag AND FLAG_NOT_DUP \<noteq> 0
            then cc_pkts_acked ops k sk num (if flag AND FLAG_UNSURE_TSTAMP \<noteq> 0 then 0 else av_last_ackt av)
            else Some sk);
     sk \<leftarrow> cc_cwnd_event ops k sk
            (if icsk_ca_state sk = TCP_CA_Open \<and> flag AND FLAG_CA_ALERT = 0 \<and> flag AND FLAG_NOT_DUP \<noteq> 0
             then CA_EVENT_FAST_ACK else CA_EVENT_SLOW_ACK);
     Some (ag\<lparr>ag_linux := sk, ag_initialized := True\<rparr>)
   }"

definition ack_window :: "cint \<Rightarrow> 'p tcp_congestion_ops \<Rightarrow> kernel \<Rightarrow> ack_view \<Rightarrow> u8 \<Rightarrow> u32 \<Rightarrow>
    'p agent \<Rightarrow> 'p agent option" where
  "ack_window burst ops k av flag ack ag =
     (if flag AND FLAG_NOT_DUP = 0 \<or> flag AND FLAG_CA_ALERT \<noteq> 0 \<or> icsk_ca_state (ag_linux ag) \<noteq> TCP_CA_Open
      then do {
        ag \<leftarrow> (if flag AND FLAG_DATA_ACKED \<noteq> 0 \<and> tcp_may_raise_cwnd flag (ag_linux ag)
               then agent_cong_avoid ops k ack av 0 ag else Some ag);
        tcp_fastretrans_alert burst ops k (av_in_flight av) flag ag
      }
      else if flag AND FLAG_DATA_ACKED \<noteq> 0 then agent_cong_avoid ops k ack av 1 ag
      else Some ag)"

definition recv ::
    "cint \<Rightarrow> 'p tcp_congestion_ops \<Rightarrow> kernel \<Rightarrow> ack_view \<Rightarrow> 'p agent \<Rightarrow> 'p agent option" where
  "recv burst ops k av ag =
     (let prior_snd_una = int_u32 (ag_highest_ack ag + 1);
          ack = int_u32 (av_seqno av + 1)
      in if int_u32 (ag_t_seqno ag) < ack then Some ag
         else if ack < prior_snd_una then Some ag
         else do {
           let (flag, ag) = ack_sequence av prior_snd_una ack ag;
           ag \<leftarrow> time_processing ops k av ag;
           ag \<leftarrow> ack_notify ops k av flag (ack - prior_snd_una) ag;
           ack_window burst ops k av flag ack ag
         })"

definition enter_loss :: "'p tcp_congestion_ops \<Rightarrow> kernel \<Rightarrow> 'p agent \<Rightarrow> 'p agent option" where
  "enter_loss ops k ag = do {
     let sk = touch_cwnd k (ag_linux ag);
     (w, sk) \<leftarrow> cc_ssthresh ops k sk;
     sk \<leftarrow> cc_cwnd_event ops k (sk\<lparr>snd_ssthresh := w\<rparr>) CA_EVENT_LOSS;
     let sk = sk\<lparr>snd_cwnd := 1, snd_cwnd_cnt := 0, bytes_acked := 0\<rparr>;
     sk \<leftarrow> tcp_set_ca_state ops k sk TCP_CA_Loss;
     Some (ag\<lparr>ag_linux := sk, ag_recover := ag_maxseq ag\<rparr>)
   }"

text \<open>
  The branch of \<open>timeout\<close> that closes the window to one segment (data are outstanding), and the
  transmission of one new segment by \<open>send_much\<close>, with the packets in flight after it.
\<close>

definition rtx_timeout :: "'p tcp_congestion_ops \<Rightarrow> kernel \<Rightarrow> 'p agent \<Rightarrow> 'p agent option" where
  "rtx_timeout ops k ag = do {
     ag \<leftarrow> enter_loss ops k ag;
     Some (ag\<lparr>ag_next_pkts_in_flight := 0, ag_linux := (ag_linux ag)\<lparr>bytes_acked := 0\<rparr>\<rparr>)
   }"

definition send_new :: "cint \<Rightarrow> 'p agent \<Rightarrow> 'p agent" where
  "send_new in_flight ag =
     (let seqno = ag_t_seqno ag; t = seqno + 1;
          n = (if sint (in_flight - 1) < 1 then 1 else in_flight - 1)
      in ag\<lparr>ag_t_seqno := t, ag_maxseq := (if sint (ag_maxseq ag) < sint seqno then seqno else ag_maxseq ag),
            ag_next_pkts_in_flight := (if sint (ag_next_pkts_in_flight ag) \<le> sint n then ag_next_pkts_in_flight ag else n),
            ag_linux := (ag_linux ag)\<lparr>snd_nxt := int_u32 t * mss_cache (ag_linux ag)\<rparr>\<rparr>)"

datatype agent_event = Ack kernel ack_view | Timeout kernel | Send kernel cint

fun event_kernel :: "agent_event \<Rightarrow> kernel" where
  "event_kernel (Ack k av) = k"
| "event_kernel (Timeout k) = k"
| "event_kernel (Send k n) = k"

fun agent_step :: "cint \<Rightarrow> 'p tcp_congestion_ops \<Rightarrow> agent_event \<Rightarrow> 'p agent \<Rightarrow> 'p agent option" where
  "agent_step burst ops (Ack k av) ag = recv burst ops k av ag"
| "agent_step burst ops (Timeout k) ag = rtx_timeout ops k ag"
| "agent_step burst ops (Send k n) ag = Some (send_new n ag)"

fun agent_run :: "cint \<Rightarrow> 'p tcp_congestion_ops \<Rightarrow> agent_event list \<Rightarrow> 'p agent \<Rightarrow> 'p agent option" where
  "agent_run burst ops [] ag = Some ag"
| "agent_run burst ops (e # es) ag = agent_step burst ops e ag \<bind> agent_run burst ops es"

section \<open>Local parameters: correctness\<close>

definition nodes_ok :: "param_node list \<Rightarrow> bool" where
  "nodes_ok ns \<longleftrightarrow> distinct (map pn_addr ns)"

lemma set_node_cases:
  "(case set_node a v ns of None \<Rightarrow> a \<notin> set (map pn_addr ns)
    | Some ns' \<Rightarrow> map pn_addr ns' = map pn_addr ns
        \<and> (\<forall>b. get_param b ns' = (if b = a then Some v else get_param b ns)))"
  by (induction ns) (auto split: option.splits)

lemma set_param_nodes_ok: "nodes_ok ns \<Longrightarrow> nodes_ok (set_param m a v ns)"
  using set_node_cases [where a = a and v = v and ns = ns] by (auto simp: nodes_ok_def set_param_def split: option.splits)

lemma set_param_get: "get_param b (set_param m a v ns) = (if b = a then Some v else get_param b ns)"
  using set_node_cases [where a = a and v = v and ns = ns] by (auto simp: set_param_def split: option.splits)

lemma get_param_mem: "nodes_ok ns \<Longrightarrow> p \<in> set ns \<Longrightarrow> get_param (pn_addr p) ns = Some (pn_value p)"
  by (induction ns) (auto simp: nodes_ok_def rev_image_eqI)

lemma load_local_other: "a \<notin> set (map pn_addr ns) \<Longrightarrow> fst (load_local (m, ns)) a = m a"
  by (induction ns arbitrary: m) (simp_all add: split_def Let_def)

lemma load_local_nodes:
  "nodes_ok ns \<Longrightarrow> snd (load_local (m, ns)) = map (\<lambda>p. p\<lparr>pn_default := m (pn_addr p)\<rparr>) ns"
  by (induction ns arbitrary: m) (auto simp: split_def Let_def nodes_ok_def rev_image_eqI)

lemma load_local_value:
  "nodes_ok ns \<Longrightarrow> p \<in> set ns \<Longrightarrow> fst (load_local (m, ns)) (pn_addr p) = pn_value p"
  by (induction ns arbitrary: m) (auto simp: split_def Let_def nodes_ok_def load_local_other)

lemma restore_default_val:
  "nodes_ok ns \<Longrightarrow> snd (restore_default (m, ns)) = map (\<lambda>p. p\<lparr>pn_value := m (pn_addr p)\<rparr>) ns
    \<and> (\<forall>p \<in> set ns. fst (restore_default (m, ns)) (pn_addr p) = pn_default p)
    \<and> (\<forall>a. a \<notin> set (map pn_addr ns) \<longrightarrow> fst (restore_default (m, ns)) a = m a)"
proof (induction ns arbitrary: m)
  case (Cons p ns)
  have d: "nodes_ok ns" "pn_addr p \<notin> set (map pn_addr ns)" using Cons.prems by (simp_all add: nodes_ok_def)
  have q: "pn_addr q \<noteq> pn_addr p" if "q \<in> set ns" for q using d(2) that by (auto simp: rev_image_eqI)
  define m' where "m' = m(pn_addr p := pn_default p)"
  have m'1: "m' (pn_addr p) = pn_default p" unfolding m'_def by simp
  have m'2: "m' a = m a" if "a \<noteq> pn_addr p" for a unfolding m'_def using that by simp
  note IH = Cons.IH [OF d(1), of m']
  have u: "restore_default (m, p # ns) = (fst (restore_default (m', ns)),
      p\<lparr>pn_value := m (pn_addr p)\<rparr> # snd (restore_default (m', ns)))"
    by (simp add: m'_def split_def Let_def)
  have "snd (restore_default (m', ns)) = map (\<lambda>p. p\<lparr>pn_value := m (pn_addr p)\<rparr>) ns"
    using IH q m'2 by simp
  moreover have "fst (restore_default (m', ns)) (pn_addr p) = pn_default p" using IH d(2) m'1 by simp
  ultimately show ?case unfolding u using IH m'2 by simp
qed simp

text \<open>
  A handler that runs between \<open>load_local\<close> and \<open>restore_default\<close> sees the local values; after
  it the shared variables have their old values, the list has the values it left, and all other
  memory is as it left it.
\<close>

lemma param_list_isolates:
  assumes "nodes_ok ns" and "load_local (m, ns) = (m1, ns1)" and "restore_default (m2, ns1) = (m3, ns3)"
  shows "(\<forall>p \<in> set ns. m1 (pn_addr p) = pn_value p \<and> m3 (pn_addr p) = m (pn_addr p)
           \<and> get_param (pn_addr p) ns3 = Some (m2 (pn_addr p)))
       \<and> (\<forall>a. a \<notin> set (map pn_addr ns) \<longrightarrow> m1 a = m a \<and> m3 a = m2 a)"
proof -
  have n1: "ns1 = map (\<lambda>p. p\<lparr>pn_default := m (pn_addr p)\<rparr>) ns"
    using load_local_nodes [OF assms(1), of m] assms(2) by simp
  have a1: "map pn_addr ns1 = map pn_addr ns" by (simp add: n1)
  have ok1: "nodes_ok ns1" using assms(1) a1 by (simp add: nodes_ok_def)
  have s1: "set (map pn_addr ns1) = set (map pn_addr ns)" unfolding a1 ..
  have r: "ns3 = map (\<lambda>p. p\<lparr>pn_value := m2 (pn_addr p)\<rparr>) ns1"
    "\<forall>p \<in> set ns1. m3 (pn_addr p) = pn_default p"
    "\<forall>a. a \<notin> set (map pn_addr ns) \<longrightarrow> m3 a = m2 a"
    using restore_default_val [OF ok1, of m2] unfolding s1 assms(3) by simp_all
  have a3: "map pn_addr ns3 = map pn_addr ns" by (simp add: r(1) n1)
  have ok3: "nodes_ok ns3" using assms(1) a3 by (simp add: nodes_ok_def)
  have "m1 (pn_addr p) = pn_value p \<and> m3 (pn_addr p) = m (pn_addr p)
      \<and> get_param (pn_addr p) ns3 = Some (m2 (pn_addr p))" if "p \<in> set ns" for p
  proof -
    let ?p1 = "p\<lparr>pn_default := m (pn_addr p)\<rparr>"
    let ?p3 = "?p1\<lparr>pn_value := m2 (pn_addr p)\<rparr>"
    have m1: "?p1 \<in> set ns1" unfolding n1 using that by simp
    have "?p3 \<in> set ns3" unfolding r(1) using m1 by (auto intro!: rev_image_eqI [OF m1])
    from get_param_mem [OF ok3 this] have "get_param (pn_addr p) ns3 = Some (m2 (pn_addr p))" by simp
    moreover have "m3 (pn_addr p) = m (pn_addr p)" using bspec [OF r(2) m1] by simp
    moreover have "m1 (pn_addr p) = pn_value p" using load_local_value [OF assms(1) that, of m] assms(2) by simp
    ultimately show ?thesis by blast
  qed
  moreover have "\<forall>a. a \<notin> set (map pn_addr ns) \<longrightarrow> m1 a = m a"
    using load_local_other [of _ ns m] assms(2) by simp
  ultimately show ?thesis using r(3) by blast
qed


section \<open>The agent\<close>

text \<open>
  What the agent keeps of the round-trip estimate: with samples of at most \<open>M\<close> ticks the scaled
  average stays between 8 (one tick) and \<open>8 * (M + 1)\<close>.
\<close>

definition srtt_ok :: "nat \<Rightarrow> cint \<Rightarrow> bool" where
  "srtt_ok M s \<longleftrightarrow> 8 \<le> sint s \<and> sint s < 8 * (int M + 1)"

lemma sint_word_small: "- 2147483648 \<le> i \<Longrightarrow> i < 2147483648 \<Longrightarrow> sint (word_of_int i :: cint) = i"
  by (simp add: sint_sbintrunc' signed_take_bit_int_eq_self)

lemma sint_add_small:
  "- 2147483648 \<le> sint (a :: cint) + sint b \<Longrightarrow> sint a + sint b < 2147483648 \<Longrightarrow> sint (a + b) = sint a + sint b"
  using sint_word_small [of "sint a + sint b"] by simp

lemma sint_ucast_short: "sint (ucast (x :: cint) :: 16 word) = signed_take_bit 15 (sint x)"
  by (rule bit_eqI) (auto simp: sint_uint bit_signed_take_bit_iff bit_take_bit_iff bit_uint_iff unsigned_ucast_eq min_def)

lemma sint_short_delta:
  assumes "- 32768 \<le> sint (x :: cint)" and "sint x < 32768"
  shows "sint (scast (ucast x :: 16 word) :: cint) = sint x"
proof -
  have s: "sint (ucast x :: 16 word) = sint x"
    unfolding sint_ucast_short using assms by (intro signed_take_bit_int_eq_self) simp_all
  have "sint (scast (ucast x :: 16 word) :: cint) = sint (word_of_int (sint x) :: cint)" unfolding scast_eq s ..
  also have "\<dots> = sint x" using assms by (intro sint_word_small) linarith+
  finally show ?thesis .
qed

lemma average:
  fixes q n m y :: int
  assumes "1 \<le> q" and "q \<le> n" and "0 \<le> m" and "m < 8" and "1 \<le> y" and "y \<le> n"
  shows "8 \<le> 8 * q + m + (y - q) \<and> 8 * q + m + (y - q) < 8 * (n + 1)"
proof -
  have "8 * q + m + (y - q) = 7 * q + m + y" by simp
  then show ?thesis using assms by simp
qed

lemma srtt_step_ok:
  assumes "s = 0 \<or> srtt_ok M s" and "sint t \<le> int M" and "1 \<le> M" and "M \<le> 32767"
  shows "srtt_ok M (fst (srtt_step t s v))"
proof -
  define r where "r = (if sint t < 1 then 1 else t)"
  have r: "1 \<le> sint r" "sint r \<le> int M" using assms(2,3) by (auto simp: r_def)
  show ?thesis
  proof (cases "s = 0")
    case True
    have p: "push_bit 3 r = word_of_int (sint r * 8)" by (simp add: push_bit_eq_mult)
    have "sint (push_bit 3 r) = sint r * 8"
      unfolding p using r assms(4) by (intro sint_word_small) linarith+
    then show ?thesis using True r by (simp add: srtt_step_def Let_def r_def [symmetric] srtt_ok_def)
  next
    case False
    then have s: "8 \<le> sint s" "sint s < 8 * (int M + 1)" using assms(1) by (simp_all add: srtt_ok_def)
    have m: "int M \<le> 32767" using assms(4) by simp
    have g: "8 \<le> z \<Longrightarrow> z < 8 * (n + 1) \<Longrightarrow> 1 \<le> z div 8 \<and> z div 8 \<le> n" for z n :: int by presburger
    have d8: "1 \<le> sint s div 8" "sint s div 8 \<le> int M" using g [OF s] by blast+
    define e where "e = signed_drop_bit 3 s"
    have q: "sint e = sint s div 8" unfolding e_def by (simp add: sint_signed_drop_bit_eq drop_bit_eq_div)
    define x where "x = r - e"
    have xw: "x = word_of_int (sint r - sint s div 8)" unfolding x_def q [symmetric] by simp
    have x: "sint x = sint r - sint s div 8"
      unfolding xw using r d8 m by (intro sint_word_small) linarith+
    define d :: cint where "d = scast (ucast x :: 16 word)"
    have d: "sint d = sint r - sint s div 8"
      unfolding d_def using sint_short_delta [of x] x r d8 m by linarith
    have v: "sint (s + d) = sint s + (sint r - sint s div 8)"
      using sint_add_small [of s d] d r s d8 m by linarith
    have p: "\<not> sint (s + d) \<le> 0" using v r s by linarith
    have "fst (srtt_step t s v) = s + d"
      unfolding srtt_step_def Let_def r_def [symmetric] e_def [symmetric] x_def [symmetric] d_def [symmetric]
        if_not_P [OF p] if_P [OF False] fst_conv ..
    moreover have "8 \<le> sint s + (sint r - sint s div 8) \<and> sint s + (sint r - sint s div 8) < 8 * (int M + 1)"
      using average [of "sint s div 8" "int M" "sint s mod 8" "sint r"] d8 r by simp
    ultimately show ?thesis unfolding srtt_ok_def using v by simp
  qed
qed

lemma srtt_ok_unat:
  assumes "srtt_ok M s" and "M \<le> 32767"
  shows "8 \<le> unat (int_u32 s)" and "unat (int_u32 s) < 8 * (M + 1)"
proof -
  have s: "8 \<le> sint s" "sint s < 8 * (int M + 1)" using assms(1) by (simp_all add: srtt_ok_def)
  then have u: "unat (int_u32 s) = nat (sint s)" by (intro unat_int_u32) linarith
  show "8 \<le> unat (int_u32 s)" unfolding u using s by linarith
  have "sint s < int (8 * (M + 1))" using s by simp
  then show "unat (int_u32 s) < 8 * (M + 1)" unfolding u using s by (simp only: nat_less_iff)
qed

text \<open>\<open>tcp_moderate_cwnd\<close> takes a minimum of two positive numbers.\<close>

lemma tcp_moderate_cwnd_val:
  assumes "unat (snd_cwnd sk) < win_limit" and "0 \<le> sint p" and "sint p < 1073741824"
    and "1 \<le> sint b" and "sint b \<le> 255"
  shows "unat (snd_cwnd (tcp_moderate_cwnd b k p sk)) = min (unat (snd_cwnd sk)) (nat (sint p + sint b))"
proof -
  have a: "sint (u32_int (snd_cwnd sk)) = int (unat (snd_cwnd sk))"
    using assms(1) by (intro trans [OF sint_cint_unat]) (simp_all add: win_limit_def unsigned_ucast_eq take_bit_nat_eq_self)
  have b: "sint (p + b) = sint p + sint b" using assms by (intro sint_add_small) linarith+
  have "unat (int_u32 (p + b)) = nat (sint p + sint b)"
    using assms b by (subst unat_int_u32) linarith+
  moreover have "int_u32 (u32_int (snd_cwnd sk)) = snd_cwnd sk"
    using assms(1) by (intro int_u32_of_small) (simp add: win_limit_def)
  moreover have "int (unat (snd_cwnd sk)) \<le> sint p + sint b \<longleftrightarrow> unat (snd_cwnd sk) \<le> nat (sint p + sint b)"
    using assms(2,4) by (simp only: le_nat_iff)
  ultimately show ?thesis
    unfolding tcp_moderate_cwnd_def touch_cwnd_def Let_def a b by (auto simp: min_def simp del: of_nat_unat)
qed

definition agent_ok :: "nat \<Rightarrow> ('p \<Rightarrow> bool) \<Rightarrow> u32 \<Rightarrow> 'p agent \<Rightarrow> bool" where
  "agent_ok M pinv t ag \<longleftrightarrow> sock_ok win_limit (ag_linux ag)
     \<and> unat (rcv_tsecr (rx_opt (ag_linux ag))) \<le> unat t
     \<and> (ag_t_srtt ag = 0 \<or> srtt_ok M (ag_t_srtt ag) \<and> srtt (ag_linux ag) = int_u32 (ag_t_srtt ag))
     \<and> (ag_initialized ag \<longrightarrow> ag_t_srtt ag \<noteq> 0 \<and> pinv (icsk_ca_priv (ag_linux ag)))"

definition ack_ok :: "nat \<Rightarrow> kernel \<Rightarrow> ack_view \<Rightarrow> bool" where
  "ack_ok M k av \<longleftrightarrow> 0 \<le> sint (av_seqno av) \<and> sint (av_seqno av) < 2147483647
     \<and> 0 \<le> sint (av_in_flight av) \<and> sint (av_in_flight av) < 1073741824
     \<and> (case av_ts av of None \<Rightarrow> True
          | Some (ecr, val, r) \<Rightarrow> unat ecr \<le> unat (tcp_time_stamp k) \<and> sint (fst r) \<le> int M)
     \<and> (case av_timed av of None \<Rightarrow> True | Some r \<Rightarrow> sint (fst r) \<le> int M)
     \<and> sample_ok k (av_last_ackt av)"

fun event_ok :: "nat \<Rightarrow> agent_event \<Rightarrow> bool" where
  "event_ok M (Ack k av) = ack_ok M k av"
| "event_ok M (Timeout k) = True"
| "event_ok M (Send k n) = True"

lemma agent_ok_fields [simp]:
  "agent_ok M pinv t (ag\<lparr>ag_highest_ack := h\<rparr>) = agent_ok M pinv t ag"
  "agent_ok M pinv t (ag\<lparr>ag_maxseq := m\<rparr>) = agent_ok M pinv t ag"
  "agent_ok M pinv t (ag\<lparr>ag_t_seqno := s\<rparr>) = agent_ok M pinv t ag"
  "agent_ok M pinv t (ag\<lparr>ag_recover := r\<rparr>) = agent_ok M pinv t ag"
  "agent_ok M pinv t (ag\<lparr>ag_next_pkts_in_flight := n\<rparr>) = agent_ok M pinv t ag"
  by (simp_all add: agent_ok_def)

lemma agent_ok_linux:
  assumes "agent_ok M pinv t ag" and "sock_ok win_limit sk"
    and "srtt sk = srtt (ag_linux ag)" and "rx_opt sk = rx_opt (ag_linux ag)"
    and "ag_initialized ag \<Longrightarrow> pinv (icsk_ca_priv sk)"
  shows "agent_ok M pinv t (ag\<lparr>ag_linux := sk\<rparr>)"
  using assms by (auto simp: agent_ok_def)

lemma agent_ok_later: "agent_ok M pinv t ag \<Longrightarrow> unat t \<le> unat t' \<Longrightarrow> agent_ok M pinv t' ag"
  unfolding agent_ok_def using order_trans by blast

lemma agent_okD:
  assumes "agent_ok M pinv t ag"
  shows "sock_ok win_limit (ag_linux ag)"
    and "ag_initialized ag \<Longrightarrow> pinv (icsk_ca_priv (ag_linux ag))" and "ag_initialized ag \<Longrightarrow> ag_t_srtt ag \<noteq> 0"
  using assms by (simp_all add: agent_ok_def)

lemma keepsE:
  assumes "keeps L pinv sk r"
  obtains sk' where "r = Some sk'" and "sock_ok L sk'" and "pinv (icsk_ca_priv sk')" and "same_path sk sk'"
  using assms unfolding keeps_def by blast

text \<open>A call that returns an initialized agent in a good state.\<close>

definition run_ok :: "nat \<Rightarrow> ('p \<Rightarrow> bool) \<Rightarrow> u32 \<Rightarrow> 'p agent option \<Rightarrow> bool" where
  "run_ok M pinv t r \<longleftrightarrow> (\<exists>ag. r = Some ag \<and> agent_ok M pinv t ag \<and> ag_initialized ag)"

lemma run_ok_Some [simp]: "run_ok M pinv t (Some ag) \<longleftrightarrow> agent_ok M pinv t ag \<and> ag_initialized ag"
  by (simp add: run_ok_def)

lemma run_ok_bind:
  assumes "run_ok M pinv t r"
    and "\<And>ag. agent_ok M pinv t ag \<Longrightarrow> ag_initialized ag \<Longrightarrow> run_ok M pinv t' (f ag)"
  shows "run_ok M pinv t' (r \<bind> f)"
  using assms by (auto simp: run_ok_def)

lemma ack_sequence_ok:
  assumes "agent_ok M pinv t ag" and "ack_sequence av p a ag = (flag, ag')"
  shows "agent_ok M pinv t ag'" and "ag_initialized ag' = ag_initialized ag"
    and "ag_t_srtt ag' = ag_t_srtt ag"
  using assms by (auto simp: ack_sequence_def ack_processing_def agent_ok_def Let_def split: if_splits)

text \<open>A clock that does not run backwards, below \<open>2 ^ 50\<close> milliseconds.\<close>

fun clock_ok :: "u32 \<Rightarrow> agent_event list \<Rightarrow> bool" where
  "clock_ok t [] = True"
| "clock_ok t (e # es) \<longleftrightarrow> unat t \<le> unat (tcp_time_stamp (event_kernel e))
     \<and> unat (tcp_time_stamp (event_kernel e)) < 2 ^ 50 \<and> clock_ok (tcp_time_stamp (event_kernel e)) es"

text \<open>
  The client of the contract. \<open>M\<close> bounds the samples of the round-trip time in ticks; the
  contract must hold up to the average they allow.
\<close>

locale agent_control = cong_control win_limit R ops pinv
  for R :: nat and ops :: "'p tcp_congestion_ops" and pinv :: "'p \<Rightarrow> bool" +
  fixes M :: nat and burst :: cint
  assumes M_pos: "1 \<le> M" and M_short: "M \<le> 32767" and M_R: "8 * (M + 1) \<le> R"
    and no_rtt_sample: "op_rtt_sample ops = None"
    and burst_pos: "1 \<le> sint burst" and burst_u8: "sint burst \<le> 255"
begin

lemma ok_path:
  assumes "agent_ok M pinv t ag" and "ag_t_srtt ag \<noteq> 0" and "unat t \<le> unat (tcp_time_stamp k)"
    and "unat (tcp_time_stamp k) < 2 ^ 50"
  shows "path_ok R k (ag_linux ag)"
proof -
  have s: "srtt_ok M (ag_t_srtt ag)" "srtt (ag_linux ag) = int_u32 (ag_t_srtt ag)"
    using assms(1,2) by (auto simp: agent_ok_def)
  have "8 \<le> unat (srtt (ag_linux ag)) \<and> unat (srtt (ag_linux ag)) < R"
    unfolding s(2) using srtt_ok_unat [OF s(1) M_short] M_R by linarith
  moreover have "unat (rcv_tsecr (rx_opt (ag_linux ag))) \<le> unat (tcp_time_stamp k)"
    using assms(1,3) unfolding agent_ok_def by linarith
  ultimately show ?thesis using assms(4) unfolding path_ok_def by blast
qed

lemma rtt_update_ok:
  assumes "agent_ok M pinv t ag" and "sint (fst r) \<le> int M"
  shows "\<exists>ag'. rtt_update ops k r ag = Some ag' \<and> agent_ok M pinv t ag'
    \<and> ag_initialized ag' = ag_initialized ag \<and> ag_t_srtt ag' \<noteq> 0"
proof -
  obtain s v where sv: "srtt_step (fst r) (ag_t_srtt ag) (ag_t_rttvar ag) = (s, v)" by (cases "srtt_step (fst r) (ag_t_srtt ag) (ag_t_rttvar ag)")
  have "ag_t_srtt ag = 0 \<or> srtt_ok M (ag_t_srtt ag)" using assms(1) by (auto simp: agent_ok_def)
  from srtt_step_ok [OF this assms(2) M_pos M_short, of "ag_t_rttvar ag"] have s: "srtt_ok M s" by (simp add: sv)
  then have "s \<noteq> 0" by (auto simp: srtt_ok_def)
  then show ?thesis using assms(1) s by (simp add: rtt_update_def cc_rtt_sample_def no_rtt_sample sv agent_ok_def)
qed

lemma time_processing_ok:
  assumes "agent_ok M pinv t ag" and "unat t \<le> unat (tcp_time_stamp k)" and "ack_ok M k av"
    and "ag_initialized ag \<or> av_ts av \<noteq> None \<or> av_timed av \<noteq> None"
  shows "\<exists>ag'. time_processing ops k av ag = Some ag' \<and> agent_ok M pinv (tcp_time_stamp k) ag'
    \<and> ag_initialized ag' = ag_initialized ag \<and> ag_t_srtt ag' \<noteq> 0"
proof -
  have rx: "agent_ok M pinv (tcp_time_stamp k) (upd_rx_opt f ag)"
    if "unat (rcv_tsecr (f (rx_opt (ag_linux ag)))) \<le> unat (tcp_time_stamp k)" for f
    using agent_ok_later [OF assms(1,2)] that by (simp add: agent_ok_def upd_rx_opt_def)
  have e: "unat (rcv_tsecr (rx_opt (ag_linux ag))) \<le> unat (tcp_time_stamp k)"
    using assms(1,2) unfolding agent_ok_def by linarith
  have i: "ag_initialized (upd_rx_opt f ag) = ag_initialized ag" "ag_t_srtt (upd_rx_opt f ag) = ag_t_srtt ag" for f
    by (simp_all add: upd_rx_opt_def)
  show ?thesis
  proof (cases "av_ts av")
    case (Some x)
    obtain ecr val r where x: "x = (ecr, val, r)" by (cases x)
    let ?ag = "upd_rx_opt (\<lambda>x. x\<lparr>saw_tstamp := 1, rcv_tsecr := ecr, rcv_tsval := val\<rparr>) (upd_rx_opt (\<lambda>x. x\<lparr>saw_tstamp := 0\<rparr>) ag)"
    have eq: "?ag = upd_rx_opt (\<lambda>x. x\<lparr>saw_tstamp := 1, rcv_tsecr := ecr, rcv_tsval := val\<rparr>) ag" by (simp add: upd_rx_opt_def)
    have "sint (fst r) \<le> int M" "unat ecr \<le> unat (tcp_time_stamp k)" using assms(3) by (simp_all add: ack_ok_def Some x)
    then show ?thesis using rtt_update_ok [OF rx, of "\<lambda>x. x\<lparr>saw_tstamp := 1, rcv_tsecr := ecr, rcv_tsval := val\<rparr>" r k]
      by (simp add: time_processing_def Some x eq i)
  next
    case None
    note ok = rx [of "\<lambda>x. x\<lparr>saw_tstamp := 0\<rparr>"]
    show ?thesis
    proof (cases "av_timed av")
      case None
      then have "ag_initialized ag" using assms(4) \<open>av_ts av = None\<close> by simp
      then have "ag_t_srtt ag \<noteq> 0" by (rule agent_okD(3) [OF assms(1)])
      then show ?thesis using ok e by (simp add: time_processing_def None \<open>av_ts av = None\<close> i)
    next
      case (Some r)
      then have "sint (fst r) \<le> int M" using assms(3) by (simp add: ack_ok_def)
      then show ?thesis using rtt_update_ok [OF ok, of r k] e
        by (simp add: time_processing_def Some \<open>av_ts av = None\<close> i)
    qed
  qed
qed

text \<open>The calls of the contract, on an initialized agent.\<close>

lemma ok_path_now:
  "agent_ok M pinv (tcp_time_stamp k) ag \<Longrightarrow> ag_t_srtt ag \<noteq> 0 \<Longrightarrow> unat (tcp_time_stamp k) < 2 ^ 50 \<Longrightarrow>
    path_ok R k (ag_linux ag)"
  by (rule ok_path [where t = "tcp_time_stamp k"]) simp_all

lemma path_okI:
  "path_ok R k sk \<Longrightarrow> srtt sk' = srtt sk \<Longrightarrow> rx_opt sk' = rx_opt sk \<Longrightarrow> path_ok R k sk'"
  by (simp add: path_ok_def)

lemma ack_notify_ok:
  assumes "agent_ok M pinv (tcp_time_stamp k) ag" and "ag_t_srtt ag \<noteq> 0" and "unat (tcp_time_stamp k) < 2 ^ 50"
    and "unat num < 4294967296" and "sample_ok k (av_last_ackt av)"
  shows "run_ok M pinv (tcp_time_stamp k) (ack_notify ops k av flag num ag)"
proof -
  let ?sk = "ag_linux ag"
  note p = ok_path_now [OF assms(1-3)]
  note s = agent_okD(1) [OF assms(1)]
  have 1: "keeps win_limit pinv ?sk (if \<not> ag_initialized ag then cc_init ops k ?sk else Some ?sk)"
    using init_ok [OF s p] s agent_okD(2) [OF assms(1)] by simp
  have z: "sample_ok k (if c then 0 else av_last_ackt av)" for c using assms(5) by (simp add: sample_ok_def)
  have 2: "keeps win_limit pinv sk (if flag AND FLAG_NOT_DUP \<noteq> 0
      then cc_pkts_acked ops k sk num (if flag AND FLAG_UNSURE_TSTAMP \<noteq> 0 then 0 else av_last_ackt av) else Some sk)"
    if "sock_ok win_limit sk" "pinv (icsk_ca_priv sk)" "same_path ?sk sk" for sk
    using pkts_acked_ok [OF that(1,2) _ assms(4) z] path_ok_same [OF that(3)] p that by simp
  have 3: "keeps win_limit pinv sk (cc_cwnd_event ops k sk ev)"
    if "sock_ok win_limit sk" "pinv (icsk_ca_priv sk)" "same_path ?sk sk" for sk ev
    using cwnd_event_ok [OF that(1,2)] path_ok_same [OF that(3)] p by simp
  obtain s1 where s1: "(if \<not> ag_initialized ag then cc_init ops k ?sk else Some ?sk) = Some s1"
    "sock_ok win_limit s1" "pinv (icsk_ca_priv s1)" "same_path ?sk s1"
    using 1 by (auto simp: keeps_def)
  obtain s2 where s2: "(if flag AND FLAG_NOT_DUP \<noteq> 0
      then cc_pkts_acked ops k s1 num (if flag AND FLAG_UNSURE_TSTAMP \<noteq> 0 then 0 else av_last_ackt av) else Some s1) = Some s2"
    "sock_ok win_limit s2" "pinv (icsk_ca_priv s2)" "same_path s1 s2"
    using 2 [OF s1(2-4)] by (auto simp: keeps_def)
  have s12: "same_path ?sk s2" using s1(4) s2(4) same_path_trans by blast
  define ev where "ev = (if icsk_ca_state s2 = TCP_CA_Open \<and> flag AND FLAG_CA_ALERT = 0 \<and> flag AND FLAG_NOT_DUP \<noteq> 0
      then CA_EVENT_FAST_ACK else CA_EVENT_SLOW_ACK)"
  obtain s3 where s3: "cc_cwnd_event ops k s2 ev = Some s3" "sock_ok win_limit s3" "pinv (icsk_ca_priv s3)" "same_path s2 s3"
    using 3 [OF s2(2,3) s12] by (auto simp: keeps_def)
  have s13: "same_path ?sk s3" using s12 s3(4) same_path_trans by blast
  then have f: "srtt s3 = srtt ?sk" "rx_opt s3 = rx_opt ?sk" by (simp_all add: same_path_def)
  have "ack_notify ops k av flag num ag = Some (ag\<lparr>ag_linux := s3, ag_initialized := True\<rparr>)"
    unfolding ack_notify_def s1(1) bind.bind_lunit s2(1) ev_def [symmetric] s3(1) ..
  moreover have "agent_ok M pinv (tcp_time_stamp k) (ag\<lparr>ag_linux := s3, ag_initialized := True\<rparr>)"
    using assms(1,2) s3(2,3) f by (auto simp: agent_ok_def)
  ultimately show ?thesis by simp
qed

lemma agent_linux_run_ok:
  assumes "agent_ok M pinv t ag" and "ag_initialized ag" and "sock_ok win_limit sk" and "pinv (icsk_ca_priv sk)"
    and "srtt sk = srtt (ag_linux ag)" and "rx_opt sk = rx_opt (ag_linux ag)"
  shows "run_ok M pinv t (Some (ag\<lparr>ag_linux := sk\<rparr>))"
  using agent_ok_linux [OF assms(1,3,5,6)] assms(2,4) by simp

lemma agent_cong_avoid_ok:
  assumes "agent_ok M pinv (tcp_time_stamp k) ag" and "ag_initialized ag" and "unat (tcp_time_stamp k) < 2 ^ 50"
  shows "run_ok M pinv (tcp_time_stamp k) (agent_cong_avoid ops k ack av good ag)"
proof -
  note p = ok_path_now [OF assms(1) agent_okD(3) [OF assms(1,2)] assms(3)]
  obtain sk where sk: "cc_cong_avoid ops k (ag_linux ag) (ack * mss_cache (ag_linux ag)) (av_seq_rtt av)
      (int_u32 (av_prior_in_flight av)) good = Some sk" "sock_ok win_limit sk" "pinv (icsk_ca_priv sk)" "same_path (ag_linux ag) sk"
    by (rule keepsE [OF cong_avoid_ok [OF agent_okD(1) [OF assms(1)] agent_okD(2) [OF assms(1,2)] p]])
  have e: "agent_cong_avoid ops k ack av good ag = Some (ag\<lparr>ag_linux := touch_cwnd k sk\<rparr>)"
    by (simp add: agent_cong_avoid_def Let_def sk(1))
  show ?thesis unfolding e
    by (rule agent_linux_run_ok [OF assms(1,2)]) (use sk in \<open>simp_all add: touch_cwnd_def same_path_def\<close>)
qed

lemma set_state_run_ok:
  assumes "agent_ok M pinv (tcp_time_stamp k) ag" and "ag_initialized ag" and "unat (tcp_time_stamp k) < 2 ^ 50"
    and "sock_ok win_limit sk" and "pinv (icsk_ca_priv sk)"
    and "srtt sk = srtt (ag_linux ag)" and "rx_opt sk = rx_opt (ag_linux ag)"
  shows "\<exists>sk'. tcp_set_ca_state ops k sk st = Some sk' \<and> run_ok M pinv (tcp_time_stamp k) (Some (ag\<lparr>ag_linux := sk'\<rparr>))
    \<and> icsk_ca_state sk' = st"
proof -
  note p = path_okI [OF ok_path_now [OF assms(1) agent_okD(3) [OF assms(1,2)] assms(3)] assms(6,7)]
  obtain sk' where sk': "tcp_set_ca_state ops k sk st = Some sk'" "sock_ok win_limit sk'" "pinv (icsk_ca_priv sk')"
      "same_path (sk\<lparr>icsk_ca_state := st\<rparr>) sk'"
    by (rule keepsE [OF set_state_ok [OF assms(4,5) p]])
  have f: "srtt sk' = srtt (ag_linux ag)" "rx_opt sk' = rx_opt (ag_linux ag)" "icsk_ca_state sk' = st"
    using sk'(4) assms(6,7) by (simp_all add: same_path_def)
  show ?thesis using agent_linux_run_ok [OF assms(1,2) sk'(2,3) f(1,2)] sk'(1) f(3) by blast
qed

lemma agent_reduce_ok:
  assumes "agent_ok M pinv (tcp_time_stamp k) ag" and "ag_initialized ag" and "unat (tcp_time_stamp k) < 2 ^ 50"
  shows "run_ok M pinv (tcp_time_stamp k) (agent_reduce ops k ag)"
proof -
  let ?sk = "touch_cwnd k (ag_linux ag)"
  have s: "sock_ok win_limit ?sk" "pinv (icsk_ca_priv ?sk)"
    using agent_okD(1,2) [OF assms(1)] assms(2) by (simp_all add: touch_cwnd_def)
  have p: "path_ok R k ?sk"
    by (rule path_okI [OF ok_path_now [OF assms(1) agent_okD(3) [OF assms(1,2)] assms(3)]]) (simp_all add: touch_cwnd_def)
  obtain w s1 where y: "cc_ssthresh ops k ?sk = Some (w, s1)" "2 \<le> unat w" "unat w < win_limit"
      "sock_ok win_limit s1" "pinv (icsk_ca_priv s1)" "same_path ?sk s1"
    using ssthresh_ok [OF s p] by (auto simp: yields_def)
  define s2 where "s2 = s1\<lparr>snd_ssthresh := w, snd_cwnd_cnt := 0, bytes_acked := 0\<rparr>"
  have w1: "1 \<le> unat w" using y(2) by linarith
  have ok2: "sock_ok win_limit s2" "pinv (icsk_ca_priv s2)" "2 \<le> unat (snd_ssthresh s2)"
    unfolding s2_def using sock_ok_set_ssthresh [OF y(4) w1 y(3)] y(2,5) by simp_all
  obtain c where c: "cc_min_cwnd ops s2 = Some c" "1 \<le> unat c" "unat c < win_limit"
    using min_cwnd_ok [OF ok2] by (auto simp: floor_ok_def)
  define s3 where "s3 = s2\<lparr>snd_cwnd := c\<rparr>"
  have ok3: "sock_ok win_limit s3" "pinv (icsk_ca_priv s3)"
    unfolding s3_def using sock_ok_set_cwnd [OF ok2(1) c(2,3)] ok2(2) by simp_all
  have f: "srtt s3 = srtt (ag_linux ag)" "rx_opt s3 = rx_opt (ag_linux ag)"
    using y(6) by (simp_all add: s3_def s2_def same_path_def touch_cwnd_def)
  obtain s4 where s4: "tcp_set_ca_state ops k s3 TCP_CA_Recovery = Some s4"
      "run_ok M pinv (tcp_time_stamp k) (Some (ag\<lparr>ag_linux := s4\<rparr>))"
    using set_state_run_ok [OF assms ok3 f] by blast
  have "agent_reduce ops k ag = Some (ag\<lparr>ag_linux := s4, ag_recover := ag_maxseq ag,
      ag_next_pkts_in_flight := u32_int (snd_cwnd ?sk)\<rparr>)"
    by (simp add: agent_reduce_def Let_def y(1) s2_def [symmetric] c(1) s3_def [symmetric] s4(1))
  then show ?thesis using s4(2) by simp
qed

lemma tcp_fastretrans_alert_ok:
  assumes "agent_ok M pinv (tcp_time_stamp k) ag" and "ag_initialized ag" and "unat (tcp_time_stamp k) < 2 ^ 50"
    and "0 \<le> sint p" and "sint p < 1073741824"
  shows "run_ok M pinv (tcp_time_stamp k) (tcp_fastretrans_alert burst ops k p flag ag)"
proof -
  let ?sk = "ag_linux ag"
  note ok = agent_okD(1,2) [OF assms(1)]
  define s1 where "s1 = (if snd_cwnd ?sk < snd_ssthresh ?sk
      then tcp_moderate_cwnd burst k p (?sk\<lparr>snd_cwnd := snd_ssthresh ?sk\<rparr>) else ?sk)"
  have m: "sock_ok win_limit (tcp_moderate_cwnd burst k p (?sk\<lparr>snd_cwnd := snd_ssthresh ?sk\<rparr>))"
  proof -
    define s0 where "s0 = ?sk\<lparr>snd_cwnd := snd_ssthresh ?sk\<rparr>"
    have s0: "sock_ok win_limit s0" unfolding s0_def by (rule sock_ok_set_cwnd [OF ok(1) sock_okD(11,6) [OF ok(1)]])
    define w where "w = snd_cwnd (tcp_moderate_cwnd burst k p s0)"
    have "unat w = min (unat (snd_cwnd s0)) (nat (sint p + sint burst))"
      unfolding w_def by (rule tcp_moderate_cwnd_val [OF sock_okD(4) [OF s0] assms(4,5) burst_pos burst_u8])
    moreover have "1 \<le> nat (sint p + sint burst)" using assms(4) burst_pos by linarith
    ultimately have w: "1 \<le> unat w" "unat w < win_limit" using sock_okD(4,5) [OF s0] by linarith+
    have e: "tcp_moderate_cwnd burst k p s0 = touch_cwnd k (s0\<lparr>snd_cwnd := w\<rparr>)"
      by (simp add: w_def tcp_moderate_cwnd_def touch_cwnd_def Let_def)
    show ?thesis unfolding s0_def [symmetric] e using sock_ok_set_cwnd [OF s0 w] by (simp add: touch_cwnd_def)
  qed
  have s1: "sock_ok win_limit s1" "pinv (icsk_ca_priv s1)" "srtt s1 = srtt ?sk" "rx_opt s1 = rx_opt ?sk"
    using m ok assms(2) by (simp_all add: s1_def tcp_moderate_cwnd_def touch_cwnd_def Let_def)
  obtain s2 where s2: "tcp_set_ca_state ops k s1 TCP_CA_Open = Some s2"
      "run_ok M pinv (tcp_time_stamp k) (Some (ag\<lparr>ag_linux := s2\<rparr>))"
    using set_state_run_ok [OF assms(1-3) s1] by blast
  have "tcp_set_ca_state ops k s1 TCP_CA_Open \<bind> (\<lambda>sk. Some (ag\<lparr>ag_linux := sk, ag_next_pkts_in_flight := 0\<rparr>))
      = Some (ag\<lparr>ag_linux := s2, ag_next_pkts_in_flight := 0\<rparr>)" by (simp add: s2(1))
  then show ?thesis using s2(2) agent_reduce_ok [OF assms(1-3)] assms(1,2)
    by (simp add: tcp_fastretrans_alert_def Let_def s1_def [symmetric])
qed

lemma ack_window_ok:
  assumes "agent_ok M pinv (tcp_time_stamp k) ag" and "ag_initialized ag" and "unat (tcp_time_stamp k) < 2 ^ 50"
    and "0 \<le> sint (av_in_flight av)" and "sint (av_in_flight av) < 1073741824"
  shows "run_ok M pinv (tcp_time_stamp k) (ack_window burst ops k av flag ack ag)"
proof -
  have c: "run_ok M pinv (tcp_time_stamp k) (agent_cong_avoid ops k ack av good ag)" for good
    by (rule agent_cong_avoid_ok [OF assms(1-3)])
  have 1: "run_ok M pinv (tcp_time_stamp k)
      (if flag AND FLAG_DATA_ACKED \<noteq> 0 \<and> tcp_may_raise_cwnd flag (ag_linux ag)
       then agent_cong_avoid ops k ack av 0 ag else Some ag)"
    using c assms(1,2) by simp
  show ?thesis
    using run_ok_bind [OF 1 tcp_fastretrans_alert_ok [OF _ _ assms(3-5)]] c assms(1,2) by (simp add: ack_window_def)
qed

lemma recv_ok:
  assumes "agent_ok M pinv t ag" and "unat t \<le> unat (tcp_time_stamp k)" and "unat (tcp_time_stamp k) < 2 ^ 50"
    and "ack_ok M k av" and "ag_initialized ag \<or> av_ts av \<noteq> None \<or> av_timed av \<noteq> None"
  shows "\<exists>ag'. recv burst ops k av ag = Some ag' \<and> agent_ok M pinv (tcp_time_stamp k) ag'
    \<and> (ag_initialized ag \<longrightarrow> ag_initialized ag')"
proof -
  define p a where "p = int_u32 (ag_highest_ack ag + 1)" and "a = int_u32 (av_seqno av + 1)"
  show ?thesis
  proof (cases "int_u32 (ag_t_seqno ag) < a \<or> a < p")
    case True
    then have "recv burst ops k av ag = Some ag" by (auto simp: recv_def Let_def p_def a_def)
    then show ?thesis using agent_ok_later [OF assms(1,2)] by simp
  next
    case False
    obtain flag ag1 where 1: "ack_sequence av p a ag = (flag, ag1)" by (cases "ack_sequence av p a ag")
    note ok1 = ack_sequence_ok [OF assms(1) 1]
    have "ag_initialized ag1 \<or> av_ts av \<noteq> None \<or> av_timed av \<noteq> None" using assms(5) ok1(2) by simp
    from time_processing_ok [OF ok1(1) assms(2,4) this] obtain ag2 where
      2: "time_processing ops k av ag1 = Some ag2" "agent_ok M pinv (tcp_time_stamp k) ag2" "ag_t_srtt ag2 \<noteq> 0"
      by blast
    have s: "0 \<le> sint (av_seqno av)" "sint (av_seqno av) < 2147483647" using assms(4) by (simp_all add: ack_ok_def)
    have av: "sample_ok k (av_last_ackt av)" "0 \<le> sint (av_in_flight av)" "sint (av_in_flight av) < 1073741824"
      using assms(4) by (simp_all add: ack_ok_def)
    have "sint (av_seqno av + 1) = sint (av_seqno av) + 1" using s by (subst sint_add_small) simp_all
    then have "unat a < 4294967296" unfolding a_def using s by (subst unat_int_u32) linarith+
    moreover have "unat (a - p) \<le> unat a" using False unat_sub_le [of p a] by (simp add: linorder_not_less)
    ultimately have n: "unat (a - p) < 4294967296" by linarith
    have r: "recv burst ops k av ag = ack_notify ops k av flag (a - p) ag2 \<bind> ack_window burst ops k av flag a"
      using False 1 2(1) by (simp add: recv_def Let_def p_def [symmetric] a_def [symmetric])
    have "run_ok M pinv (tcp_time_stamp k) (recv burst ops k av ag)"
      unfolding r by (rule run_ok_bind [OF ack_notify_ok [OF 2(2,3) assms(3) n av(1)]], rule ack_window_ok) (use av assms(3) in simp_all)
    then show ?thesis by (auto simp: run_ok_def)
  qed
qed

lemma enter_loss_ok:
  assumes "agent_ok M pinv (tcp_time_stamp k) ag" and "ag_initialized ag" and "unat (tcp_time_stamp k) < 2 ^ 50"
  shows "\<exists>ag'. enter_loss ops k ag = Some ag' \<and> agent_ok M pinv (tcp_time_stamp k) ag' \<and> ag_initialized ag'
    \<and> icsk_ca_state (ag_linux ag') = TCP_CA_Loss"
proof -
  let ?sk = "touch_cwnd k (ag_linux ag)"
  have s: "sock_ok win_limit ?sk" "pinv (icsk_ca_priv ?sk)"
    using agent_okD(1,2) [OF assms(1)] assms(2) by (simp_all add: touch_cwnd_def)
  have p: "path_ok R k ?sk"
    by (rule path_okI [OF ok_path_now [OF assms(1) agent_okD(3) [OF assms(1,2)] assms(3)]]) (simp_all add: touch_cwnd_def)
  obtain w s1 where y: "cc_ssthresh ops k ?sk = Some (w, s1)" "2 \<le> unat w" "unat w < win_limit"
      "sock_ok win_limit s1" "pinv (icsk_ca_priv s1)" "same_path ?sk s1"
    using ssthresh_ok [OF s p] by (auto simp: yields_def)
  have w1: "1 \<le> unat w" using y(2) by linarith
  define s2 where "s2 = s1\<lparr>snd_ssthresh := w\<rparr>"
  have ok2: "sock_ok win_limit s2" "pinv (icsk_ca_priv s2)" "same_path ?sk s2"
    unfolding s2_def using sock_ok_set_ssthresh [OF y(4) w1 y(3)] y(5,6) by simp_all
  have p2: "path_ok R k s2" using path_ok_same [OF ok2(3)] p by blast
  obtain s3 where s3: "cc_cwnd_event ops k s2 CA_EVENT_LOSS = Some s3" "sock_ok win_limit s3" "pinv (icsk_ca_priv s3)" "same_path s2 s3"
    by (rule keepsE [OF cwnd_event_ok [OF ok2(1,2) p2]])
  define s4 where "s4 = s3\<lparr>snd_cwnd := 1, snd_cwnd_cnt := 0, bytes_acked := 0\<rparr>"
  have ok4: "sock_ok win_limit s4" "pinv (icsk_ca_priv s4)"
    unfolding s4_def using sock_ok_set_cwnd [OF s3(2), of 1] s3(3) by (simp_all add: win_limit_def)
  have f: "srtt s4 = srtt (ag_linux ag)" "rx_opt s4 = rx_opt (ag_linux ag)"
    using ok2(3) s3(4) by (simp_all add: s4_def same_path_def touch_cwnd_def)
  obtain s5 where s5: "tcp_set_ca_state ops k s4 TCP_CA_Loss = Some s5"
      "run_ok M pinv (tcp_time_stamp k) (Some (ag\<lparr>ag_linux := s5\<rparr>))" "icsk_ca_state s5 = TCP_CA_Loss"
    using set_state_run_ok [OF assms ok4 f] by blast
  have "enter_loss ops k ag = Some (ag\<lparr>ag_linux := s5, ag_recover := ag_maxseq ag\<rparr>)"
    by (simp add: enter_loss_def Let_def y(1) s2_def [symmetric] s3(1) s4_def [symmetric] s5(1))
  then show ?thesis using s5(2,3) by simp
qed

lemma rtx_timeout_ok:
  assumes "agent_ok M pinv t ag" and "ag_initialized ag" and "unat t \<le> unat (tcp_time_stamp k)"
    and "unat (tcp_time_stamp k) < 2 ^ 50"
  shows "run_ok M pinv (tcp_time_stamp k) (rtx_timeout ops k ag)"
proof -
  obtain ag' where l: "enter_loss ops k ag = Some ag'" "agent_ok M pinv (tcp_time_stamp k) ag'" "ag_initialized ag'"
    using enter_loss_ok [OF agent_ok_later [OF assms(1,3)] assms(2,4)] by blast
  have n: "agent_ok M pinv (tcp_time_stamp k) (ag'\<lparr>ag_next_pkts_in_flight := 0\<rparr>)" using l(2) by simp
  have "agent_ok M pinv (tcp_time_stamp k)
      (ag'\<lparr>ag_next_pkts_in_flight := 0, ag_linux := (ag_linux ag')\<lparr>bytes_acked := 0\<rparr>\<rparr>)"
    by (rule agent_ok_linux [OF n]) (use l(2,3) in \<open>simp_all add: agent_ok_def\<close>)
  then show ?thesis using l(1,3) by (simp add: rtx_timeout_def)
qed

lemma send_new_ok:
  assumes "agent_ok M pinv t ag" and "ag_initialized ag" and "unat t \<le> unat t'"
  shows "run_ok M pinv t' (Some (send_new n ag))"
  using agent_ok_later [OF assms(1,3)] assms(2) by (auto simp: send_new_def Let_def agent_ok_def)

lemma agent_step_ok:
  assumes "agent_ok M pinv t ag" and "ag_initialized ag" and "unat t \<le> unat (tcp_time_stamp (event_kernel e))"
    and "unat (tcp_time_stamp (event_kernel e)) < 2 ^ 50" and "event_ok M e"
  shows "run_ok M pinv (tcp_time_stamp (event_kernel e)) (agent_step burst ops e ag)"
proof (cases e)
  case (Ack k av)
  then show ?thesis using recv_ok [OF assms(1) _ _, of k av] assms by (auto simp: run_ok_def)
next
  case (Timeout k)
  then show ?thesis using rtx_timeout_ok [OF assms(1,2), of k] assms(3,4) by simp
next
  case (Send k n)
  then show ?thesis using send_new_ok [OF assms(1,2), of "tcp_time_stamp k" n] assms(3) by simp
qed

lemma agent_run_ok:
  assumes "agent_ok M pinv t ag" and "ag_initialized ag" and "clock_ok t es" and "list_all (event_ok M) es"
  shows "\<exists>t'. run_ok M pinv t' (agent_run burst ops es ag)"
  using assms
proof (induction es arbitrary: t ag)
  case Nil
  then show ?case by auto
next
  case (Cons e es)
  have "run_ok M pinv (tcp_time_stamp (event_kernel e)) (agent_step burst ops e ag)"
    by (rule agent_step_ok [OF Cons.prems(1,2)]) (use Cons.prems(3,4) in simp_all)
  then obtain ag' where s: "agent_step burst ops e ag = Some ag'"
    "agent_ok M pinv (tcp_time_stamp (event_kernel e)) ag'" "ag_initialized ag'" by (auto simp: run_ok_def)
  then show ?case using Cons.IH [OF s(2,3)] Cons.prems(3,4) by simp
qed

text \<open>The window of every agent a run reaches.\<close>

lemma agent_run_window:
  assumes "agent_ok M pinv t ag" and "ag_initialized ag" and "clock_ok t es" and "list_all (event_ok M) es"
  shows "\<exists>ag'. agent_run burst ops es ag = Some ag' \<and> 1 \<le> unat (snd_cwnd (ag_linux ag'))
    \<and> unat (snd_cwnd (ag_linux ag')) < 2147483648 \<and> 1 \<le> unat (snd_ssthresh (ag_linux ag'))
    \<and> 8 \<le> sint (ag_t_srtt ag') \<and> sint (ag_t_srtt ag') < 8 * (int M + 1)"
proof -
  obtain t' ag' where r: "agent_run burst ops es ag = Some ag'" "agent_ok M pinv t' ag'" "ag_initialized ag'"
    using agent_run_ok [OF assms] by (auto simp: run_ok_def)
  have s: "srtt_ok M (ag_t_srtt ag')" using r(2,3) by (auto simp: agent_ok_def)
  show ?thesis using r(1) sock_okD(4,5,11) [OF agent_okD(1) [OF r(2)]] s by (simp add: win_limit_def srtt_ok_def)
qed

end

section \<open>Fast recovery\<close>

text \<open>
  One reduction per window of data: until the sequence number recorded at the reduction is
  acknowledged, a loss or an ECN echo changes nothing, and the window does not grow.
\<close>

lemma recovery_holds:
  assumes "icsk_ca_state (ag_linux ag) = TCP_CA_Recovery" and "sint (ag_highest_ack ag) < sint (ag_recover ag)"
  shows "ack_window burst ops k av flag ack ag = Some ag"
proof -
  have "tcp_fastretrans_alert burst ops k p flag ag = Some ag" for p
    using assms by (simp add: tcp_fastretrans_alert_def Let_def)
  moreover have "\<not> tcp_may_raise_cwnd flag (ag_linux ag)" using assms(1) by (simp add: tcp_may_raise_cwnd_def)
  ultimately show ?thesis using assms(1) by (simp add: ack_window_def)
qed

interpretation reno_agent: agent_control 262144 tcp_reno "\<lambda>_. True" 32767 3
  by unfold_locales (simp_all add: tcp_reno_def null_ops_def)

end
