(* ===== verification/Scoreboard.thy ===== *)
theory Scoreboard
  imports Linux_Agent
begin

text \<open>
  The SACK scoreboard of TCP-Linux (\<open>tcp/scoreboard1.cc\<close>, \<open>scoreboard1.h\<close>): a queue of
  blocks of packets, each in flight, selectively acknowledged, lost, or retransmitted, with counters
  of the packets lost and acknowledged.

  The linked list is a list of blocks, the pointer \<open>nxt_to_retrx_\<close> the position of a block in it;
  a use of the pointer after its block has been merged away, a failed assertion (\<open>exit (1)\<close>) and a
  store outside the arrays of \<open>UpdateScoreBoard\<close> are \<open>None\<close>. Packet numbers are integers (the
  simulator counts packets, far below \<open>2 ^ 31\<close>).
\<close>

section \<open>Blocks\<close>

datatype skb_flag = SKB_FLAG_INFLIGHT | SKB_FLAG_SACKED | SKB_FLAG_LOST | SKB_FLAG_RETRANSMITTED

text \<open>
  In a retransmitted block \<open>sb_nxt\<close> is \<open>snd_nxt\<close> at the time of the retransmission; \<open>sb_retran\<close>
  is only read there (the constructor does not initialise it).
\<close>

record sb_node =
  sb_flag :: skb_flag
  sb_seq :: int
  sb_nxt :: int
  sb_retran :: int

definition new_node :: "int \<Rightarrow> int \<Rightarrow> skb_flag \<Rightarrow> sb_node" where
  "new_node start e fl = \<lparr>sb_flag = fl, sb_seq = start, sb_nxt = e, sb_retran = 0\<rparr>"

definition GetEnd :: "sb_node \<Rightarrow> int" where
  "GetEnd n = (if sb_flag n = SKB_FLAG_RETRANSMITTED then sb_seq n else sb_nxt n)"

definition GetLength :: "sb_node \<Rightarrow> int" where
  "GetLength n = (if sb_flag n = SKB_FLAG_RETRANSMITTED then 1 else sb_nxt n + 1 - sb_seq n)"

definition SetFlag :: "skb_flag \<Rightarrow> sb_node \<Rightarrow> sb_node" where
  "SetFlag fl n = n\<lparr>sb_nxt := (if sb_flag n = SKB_FLAG_RETRANSMITTED then sb_seq n else sb_nxt n), sb_flag := fl\<rparr>"

definition Inside :: "int \<Rightarrow> sb_node \<Rightarrow> bool" where
  "Inside s n = (if sb_flag n = SKB_FLAG_RETRANSMITTED then s = sb_seq n else sb_seq n \<le> s \<and> s \<le> sb_nxt n)"

definition ShouldClean :: "int \<Rightarrow> sb_node \<Rightarrow> int" where
  "ShouldClean ackseq n =
     (if ackseq < sb_seq n then 0
      else if sb_flag n = SKB_FLAG_RETRANSMITTED \<or> sb_nxt n \<le> ackseq then -1
      else ackseq + 1 - sb_seq n)"

text \<open>\<open>Mergable\<close> of a block with the next one, and \<open>Merge\<close>.\<close>

definition Mergable :: "sb_node \<Rightarrow> sb_node \<Rightarrow> bool" where
  "Mergable p n \<longleftrightarrow> sb_flag n \<noteq> SKB_FLAG_RETRANSMITTED \<and> sb_flag n = sb_flag p"

definition Merge :: "sb_node \<Rightarrow> sb_node \<Rightarrow> sb_node" where
  "Merge p n = p\<lparr>sb_nxt := sb_nxt n\<rparr>"

definition Split :: "int \<Rightarrow> sb_node \<Rightarrow> sb_node \<times> sb_node" where
  "Split s n = (n\<lparr>sb_nxt := s - 1\<rparr>, new_node s (sb_nxt n) (sb_flag n))"

text \<open>\<open>ScoreBoardNode1::MarkRetran\<close>: the block, and the rest that is split off.\<close>

definition node_MarkRetran :: "int \<Rightarrow> int \<Rightarrow> sb_node \<Rightarrow> sb_node list" where
  "node_MarkRetran sn rid n =
     (let (n, rest) = (if sb_seq n < sb_nxt n then let (a, b) = Split (sb_seq n + 1) n in (a, [b]) else (n, []))
      in n\<lparr>sb_flag := SKB_FLAG_RETRANSMITTED, sb_nxt := sn, sb_retran := rid\<rparr> # rest)"

section \<open>The board\<close>

record sboard =
  sb_head :: "sb_node list"
  sb_retrx :: "nat option"
  sb_acked_rtx :: int
  sb_rtx :: int
  sb_fack :: int
  sb_fack_out :: int
  sb_sack_out :: int
  sb_last_rtx :: int

definition ClearScoreBoard :: "sboard \<Rightarrow> sboard" where
  "ClearScoreBoard b = b\<lparr>sb_rtx := 0, sb_acked_rtx := -1, sb_fack_out := 0, sb_sack_out := 0, sb_fack := 0,
     sb_retrx := None, sb_head := []\<rparr>"

definition packets_in_flight :: "int \<Rightarrow> int \<Rightarrow> sboard \<Rightarrow> int" where
  "packets_in_flight una nxt b = nxt - una - sb_fack_out b - sb_sack_out b"

subsection \<open>Cleaning what is acknowledged\<close>

text \<open>The head is deleted; the pointer to it moves to the next block.\<close>

fun pop_retrx :: "bool \<Rightarrow> nat option \<Rightarrow> nat option" where
  "pop_retrx emp None = None"
| "pop_retrx emp (Some 0) = (if emp then None else Some 0)"
| "pop_retrx emp (Some (Suc i)) = Some i"

definition count_out :: "skb_flag \<Rightarrow> int \<Rightarrow> sboard \<Rightarrow> sboard" where
  "count_out fl k b =
     (case fl of SKB_FLAG_SACKED \<Rightarrow> b\<lparr>sb_sack_out := sb_sack_out b - k\<rparr>
      | SKB_FLAG_LOST \<Rightarrow> b\<lparr>sb_fack_out := sb_fack_out b - k\<rparr> | _ \<Rightarrow> b)"

text \<open>The result: the blocks that remain, the board's variables, the flags, and whether the
  largest acknowledged retransmission has changed.\<close>

fun CleanRtxQueue :: "int \<Rightarrow> sb_node list \<Rightarrow> sboard \<Rightarrow> u8 \<Rightarrow> bool \<Rightarrow> (sb_node list \<times> sboard \<times> u8 \<times> bool) option" where
  "CleanRtxQueue ack [] b flag ch = Some ([], b, flag, ch)"
| "CleanRtxQueue ack (n # ns) b flag ch =
     (let c = ShouldClean ack n in
      if c = 0 then Some (n # ns, b, flag, ch)
      else
        let k = (if c < 0 then GetLength n else c);
            b = count_out (sb_flag n) k b
        in if sb_flag n = SKB_FLAG_SACKED \<and> sb_sack_out b < 0 \<or> sb_flag n = SKB_FLAG_LOST \<and> sb_fack_out b < 0 then None
           else if c < 0 then
             let up = sb_flag n = SKB_FLAG_RETRANSMITTED \<and> sb_acked_rtx b < sb_retran n;
                 flag = (if sb_flag n = SKB_FLAG_RETRANSMITTED then flag OR FLAG_UNSURE_TSTAMP else flag);
                 b = (if up then b\<lparr>sb_acked_rtx := sb_retran n\<rparr> else b);
                 b = b\<lparr>sb_retrx := pop_retrx (ns = []) (sb_retrx b)\<rparr>
             in CleanRtxQueue ack ns b flag (ch \<or> up)
           else Some (n\<lparr>sb_seq := ack + 1\<rparr> # ns, b, flag, ch))"

subsection \<open>The SACK blocks of a packet\<close>

definition NSA :: nat where "NSA = 3"

text \<open>Insertion from the right end (the list is kept reversed); stale blocks are dropped.\<close>

fun insert_sack :: "int \<times> int \<Rightarrow> (int \<times> int) list \<Rightarrow> (int \<times> int) list" where
  "insert_sack s [] = [s]"
| "insert_sack s (x # xs) = (if fst s < fst x then x # insert_sack s xs else s # x # xs)"

definition sort_sacks :: "int \<Rightarrow> (int \<times> int) list \<Rightarrow> (int \<times> int) list" where
  "sort_sacks ack ss = rev (fold (\<lambda>s acc. if ack \<le> fst s then insert_sack s acc else acc) ss [])"

subsection \<open>The pass over the board\<close>

record sb_vars =
  v_sacks :: "(int \<times> int) list"
  v_thorough :: bool
  v_acked :: int
  v_fack_out :: int
  v_sack_out :: int
  v_flag :: u8
  v_retrx :: "nat option"

definition first_retrx :: "nat \<Rightarrow> sb_vars \<Rightarrow> sb_vars" where
  "first_retrx i v = (if v_retrx v = None then v\<lparr>v_retrx := Some i\<rparr> else v)"

text \<open>The block is covered by the current SACK block: counters and flags, by its old state.\<close>

definition mark_sacked :: "sb_node \<Rightarrow> sb_vars \<Rightarrow> sb_vars" where
  "mark_sacked n v =
     (let v = (case sb_flag n of
                 SKB_FLAG_LOST \<Rightarrow> v\<lparr>v_fack_out := v_fack_out v - GetLength n\<rparr>
               | SKB_FLAG_RETRANSMITTED \<Rightarrow>
                   v\<lparr>v_acked := sb_retran n, v_flag := v_flag v OR FLAG_UNSURE_TSTAMP, v_thorough := True\<rparr>
               | _ \<Rightarrow> v)
      in v\<lparr>v_sack_out := v_sack_out v + GetLength n, v_flag := v_flag v OR FLAG_DATA_SACKED\<rparr>)"

text \<open>
  The block against the first SACK block \<open>(l, r)\<close> that is not behind it: nothing, or the part
  before \<open>l\<close> is split off, or the part from \<open>r\<close> on is, and the rest is marked. The result: the
  current block, the blocks split off behind it, the variables.
\<close>

definition visit_sack :: "sb_node \<Rightarrow> sb_vars \<Rightarrow> sb_node \<times> sb_node list \<times> sb_vars" where
  "visit_sack n v =
     (case v_sacks v of [] \<Rightarrow> (n, [], v)
      | (l, r) # _ \<Rightarrow>
          if GetEnd n < l then (n, [], v)
          else if sb_seq n < l then (let (a, c) = Split l n in (a, [c], v))
          else let (n, ins) = (if r \<le> GetEnd n then let (a, c) = Split r n in (a, [c]) else (n, []))
               in (SetFlag SKB_FLAG_SACKED n, ins, mark_sacked n v))"

definition visit_loss :: "int \<Rightarrow> int \<Rightarrow> nat \<Rightarrow> sb_node \<Rightarrow> sb_vars \<Rightarrow> sb_node \<times> sb_node list \<times> sb_vars" where
  "visit_loss fack dup i n v =
     (case sb_flag n of
        SKB_FLAG_RETRANSMITTED \<Rightarrow>
          if sb_nxt n \<le> fack \<or> sb_retran n + dup + 1 < v_acked v then
            (SetFlag SKB_FLAG_LOST n, [],
             first_retrx i (v\<lparr>v_fack_out := v_fack_out v + 1, v_flag := v_flag v OR FLAG_DATA_LOST\<rparr>))
          else (n, [], v)
      | SKB_FLAG_INFLIGHT \<Rightarrow>
          let thr = fack - (dup + 1) in
          if sb_seq n \<le> thr then
            let (n, ins) = (if thr < GetEnd n then let (a, c) = Split (thr + 1) n in (a, [c]) else (n, []));
                n = SetFlag SKB_FLAG_LOST n
            in (n, ins, first_retrx i (v\<lparr>v_fack_out := v_fack_out v + GetLength n, v_flag := v_flag v OR FLAG_DATA_LOST\<rparr>))
          else (n, [], v)
      | SKB_FLAG_LOST \<Rightarrow> (n, [], first_retrx i v)
      | SKB_FLAG_SACKED \<Rightarrow> (n, [], v))"

definition behind :: "int \<Rightarrow> int \<times> int \<Rightarrow> bool" where
  "behind s x \<longleftrightarrow> snd x \<le> s"

definition beyond :: "sb_node \<Rightarrow> (int \<times> int) list \<Rightarrow> bool" where
  "beyond n ss \<longleftrightarrow> (case ss of [] \<Rightarrow> True | (l, r) # _ \<Rightarrow> GetEnd n < l)"

definition visit :: "int \<Rightarrow> int \<Rightarrow> nat \<Rightarrow> sb_node \<Rightarrow> sb_vars \<Rightarrow> sb_node \<times> sb_node list \<times> sb_vars" where
  "visit fack dup i n v =
     (if sb_flag n = SKB_FLAG_SACKED then (n, [], v)
      else let v = v\<lparr>v_sacks := dropWhile (behind (sb_seq n)) (v_sacks v)\<rparr>;
               (n, ins1, v) = visit_sack n v;
               (n, ins2, v) = (if beyond n (v_sacks v) then visit_loss fack dup i n v else (n, [], v))
           in (n, ins2 @ ins1, v))"

text \<open>
  One round of the loop: \<open>ps\<close> are the blocks done, last first; \<open>ns\<close> those after the current one.
  \<open>None\<close>: the block that \<open>nxt_to_retrx_\<close> points to is merged into the previous one and deleted.
\<close>

definition extend_board :: "int \<Rightarrow> sb_node \<Rightarrow> sb_node list \<Rightarrow> sb_node list" where
  "extend_board fack p ns =
     (if ns = [] \<and> GetEnd p < fack then [new_node (GetEnd p + 1) fack SKB_FLAG_INFLIGHT] else ns)"

definition push_node :: "sb_node \<Rightarrow> sb_node list \<Rightarrow> sb_vars \<Rightarrow> sb_node list option" where
  "push_node n ps v =
     (case ps of [] \<Rightarrow> Some [n]
      | p # qs \<Rightarrow> if Mergable p n then if v_retrx v = Some (length ps) then None else Some (Merge p n # qs)
          else Some (n # ps))"

definition goes_on :: "sb_vars \<Rightarrow> bool" where
  "goes_on v \<longleftrightarrow> v_sacks v \<noteq> [] \<or> v_thorough v"

partial_function (option) traverse ::
    "int \<Rightarrow> int \<Rightarrow> sb_node list \<Rightarrow> sb_node list \<Rightarrow> sb_vars \<Rightarrow> (sb_node list \<times> sb_vars) option" where
  "traverse fack dup ps ns v =
     (case ns of [] \<Rightarrow> Some (rev ps, v)
      | n # ns' \<Rightarrow>
          if \<not> goes_on v then Some (rev ps @ ns, v)
          else case visit fack dup (length ps) n v of (n, ins, v) \<Rightarrow>
            (case push_node n ps v of None \<Rightarrow> None
             | Some ps \<Rightarrow> traverse fack dup ps (extend_board fack (hd ps) (ins @ ns')) v))"

definition UpdateScoreBoard :: "int \<Rightarrow> (int \<times> int) list \<Rightarrow> int \<Rightarrow> sboard \<Rightarrow> (u8 \<times> sboard) option" where
  "UpdateScoreBoard ack sacks dup b =
     (case CleanRtxQueue ack (sb_head b) b 0 False of None \<Rightarrow> None
      | Some (h, b, flag, thorough) \<Rightarrow>
          let b = b\<lparr>sb_head := h\<rparr>;
              (b, thorough) = (if h = [] then (ClearScoreBoard b, False) else (b, thorough))
          in if \<not> thorough \<and> sacks = [] then Some (flag, b)
          else if NSA + 1 < length sacks then None
          else let ss = sort_sacks ack sacks
          in if \<not> thorough \<and> ss = [] then Some (flag, b)
          else let adv = ss \<noteq> [] \<and> sb_fack b < snd (last ss) - 1;
                   fack = (if adv then snd (last ss) - 1 else sb_fack b);
                   h = (if sb_head b = [] then [new_node (ack + 1) fack SKB_FLAG_INFLIGHT] else sb_head b)
          in map_option (\<lambda>(ns, v). (v_flag v, b\<lparr>sb_head := ns, sb_fack := fack, sb_retrx := v_retrx v,
                 sb_acked_rtx := v_acked v, sb_fack_out := v_fack_out v, sb_sack_out := v_sack_out v\<rparr>))
               (traverse fack dup [] h
                 \<lparr>v_sacks = ss, v_thorough = thorough \<or> adv, v_acked = sb_acked_rtx b, v_fack_out = sb_fack_out b,
                  v_sack_out = sb_sack_out b, v_flag = flag, v_retrx = None\<rparr>))"

subsection \<open>A timeout: everything is lost\<close>

text \<open>
  The walk of \<open>MarkLoss\<close>; \<open>ps\<close> are the blocks done, last first, \<open>ll\<close> whether the last one is
  lost. A block appended at the end is walked as well.
\<close>

fun loss_walk :: "sb_node list \<Rightarrow> bool \<Rightarrow> sb_node list \<Rightarrow> int \<times> nat option \<Rightarrow> sb_node list \<times> bool \<times> int \<times> nat option" where
  "loss_walk ps ll [] (fo, nx) = (ps, ll, fo, nx)"
| "loss_walk ps ll (n # ns) (fo, nx) =
     (if sb_flag n \<noteq> SKB_FLAG_SACKED then
        let fo = (if sb_flag n \<noteq> SKB_FLAG_LOST then fo + (GetEnd n - sb_seq n + 1) else fo);
            n = SetFlag SKB_FLAG_LOST n
        in case (ll, ps) of
             (True, p # qs) \<Rightarrow> loss_walk (Merge p n # qs) True ns (fo, nx)
           | _ \<Rightarrow> loss_walk (n # ps) True ns (fo, if nx = None then Some (length ps) else nx)
      else loss_walk (n # ps) False ns (fo, nx))"

definition MarkLoss :: "int \<Rightarrow> int \<Rightarrow> sboard \<Rightarrow> sboard" where
  "MarkLoss una nxt b =
     (let (ps, ll, fo, nx) = loss_walk [] False (sb_head b) (sb_fack_out b, None);
          (ps, ll, fo, nx) =
            (if ps \<noteq> [] \<and> GetEnd (hd ps) + 1 < nxt
             then loss_walk ps ll [new_node (GetEnd (hd ps) + 1) (nxt - 1) SKB_FLAG_INFLIGHT] (fo, nx)
             else (ps, ll, fo, nx));
          b = (if ps = [] \<and> una < nxt
               then b\<lparr>sb_head := [new_node una (nxt - 1) SKB_FLAG_LOST], sb_retrx := Some 0, sb_fack_out := fo + (nxt - una)\<rparr>
               else b\<lparr>sb_head := rev ps, sb_retrx := nx, sb_fack_out := fo\<rparr>)
      in b\<lparr>sb_rtx := 0, sb_acked_rtx := -1\<rparr>)"

subsection \<open>Retransmission\<close>

fun next_lost :: "nat \<Rightarrow> sb_node list \<Rightarrow> nat option" where
  "next_lost i [] = None"
| "next_lost i (n # ns) = (if sb_flag n = SKB_FLAG_LOST then Some i else next_lost (Suc i) ns)"

definition GetNextRetran :: "sboard \<Rightarrow> int \<times> sboard" where
  "GetNextRetran b =
     (let r = (case sb_retrx b of None \<Rightarrow> None | Some i \<Rightarrow> next_lost i (drop i (sb_head b)))
      in (case r of None \<Rightarrow> -1 | Some i \<Rightarrow> sb_seq (sb_head b ! i), b\<lparr>sb_retrx := r\<rparr>))"

definition MarkRetran :: "int \<Rightarrow> int \<Rightarrow> sboard \<Rightarrow> sboard option" where
  "MarkRetran seqno sn b =
     (case sb_retrx b of None \<Rightarrow> None
      | Some i \<Rightarrow>
          if length (sb_head b) \<le> i \<or> \<not> Inside seqno (sb_head b ! i) \<or> sb_fack_out b - 1 < 0 then None
          else Some (b\<lparr>sb_fack_out := sb_fack_out b - 1,
            sb_head := take i (sb_head b) @ node_MarkRetran sn (sb_rtx b) (sb_head b ! i) @ drop (Suc i) (sb_head b),
            sb_rtx := sb_rtx b + 1, sb_last_rtx := seqno\<rparr>))"

section \<open>The shape of the board\<close>

text \<open>The blocks cover \<open>[a, e)\<close> without gap or overlap, each at least one packet.\<close>

fun tiles :: "int \<Rightarrow> sb_node list \<Rightarrow> int \<Rightarrow> bool" where
  "tiles a [] e \<longleftrightarrow> a = e"
| "tiles a (n # ns) e \<longleftrightarrow> sb_seq n = a \<and> a \<le> GetEnd n \<and> tiles (GetEnd n + 1) ns e"

lemma tiles_append: "tiles a (xs @ ys) e \<longleftrightarrow> (\<exists>c. tiles a xs c \<and> tiles c ys e)"
  by (induction xs arbitrary: a) auto

lemma tiles_le: "tiles a ns e \<Longrightarrow> a \<le> e"
  by (induction ns arbitrary: a) force+

lemma tiles_less: "tiles a ns e \<Longrightarrow> ns \<noteq> [] \<Longrightarrow> a < e"
  using tiles_le by (cases ns) force+

lemma tiles_last: "tiles a ns e \<Longrightarrow> ns \<noteq> [] \<Longrightarrow> GetEnd (last ns) + 1 = e"
  by (induction ns arbitrary: a) (auto split: if_splits)

lemma GetLength_end: "GetLength n = GetEnd n + 1 - sb_seq n"
  by (simp add: GetLength_def GetEnd_def)

text \<open>The packets in a state, and their number.\<close>

definition in_state :: "skb_flag \<Rightarrow> sb_node list \<Rightarrow> int set" where
  "in_state fl ns = (\<Union>n \<in> {n \<in> set ns. sb_flag n = fl}. {sb_seq n .. GetEnd n})"

definition slen :: "skb_flag \<Rightarrow> sb_node list \<Rightarrow> int" where
  "slen fl ns = sum_list (map (\<lambda>n. if sb_flag n = fl then GetLength n else 0) ns)"

lemma in_state_simps [simp]:
  "in_state fl [] = {}"
  "in_state fl (n # ns) = (if sb_flag n = fl then {sb_seq n .. GetEnd n} else {}) \<union> in_state fl ns"
  "in_state fl (xs @ ys) = in_state fl xs \<union> in_state fl ys"
  "in_state fl (rev xs) = in_state fl xs"
  by (auto simp: in_state_def)

lemma slen_simps [simp]:
  "slen fl [] = 0" "slen fl (n # ns) = (if sb_flag n = fl then GetLength n else 0) + slen fl ns"
  "slen fl (xs @ ys) = slen fl xs + slen fl ys" "slen fl (rev xs) = slen fl xs"
  by (simp_all add: slen_def flip: rev_map)

lemma in_state_range: "tiles a ns e \<Longrightarrow> in_state fl ns \<subseteq> {a ..< e}"
  by (induction ns arbitrary: a) (auto dest: tiles_le intro: order_trans, (force dest: tiles_le)+)

lemma slen_bounds:
  assumes "tiles a ns e"
  shows "0 \<le> slen fl ns" and "slen SKB_FLAG_SACKED ns + slen SKB_FLAG_LOST ns \<le> e - a"
proof -
  show "0 \<le> slen fl ns" using assms by (induction ns arbitrary: a) (auto simp: GetLength_end)
  show "slen SKB_FLAG_SACKED ns + slen SKB_FLAG_LOST ns \<le> e - a"
    using assms by (induction ns arbitrary: a) (force simp: GetLength_end)+
qed

text \<open>The counters count the packets.\<close>

lemma slen_card: "tiles a ns e \<Longrightarrow> slen fl ns = int (card (in_state fl ns))"
proof (induction ns arbitrary: a)
  case (Cons n ns)
  have t: "tiles (GetEnd n + 1) ns e" "sb_seq n \<le> GetEnd n" using Cons.prems by auto
  have r: "in_state fl ns \<subseteq> {GetEnd n + 1 ..< e}" by (rule in_state_range [OF t(1)])
  then have f: "finite (in_state fl ns)" by (rule finite_subset) simp
  have "{sb_seq n .. GetEnd n} \<inter> in_state fl ns = {}" using r by force
  then have "card ({sb_seq n .. GetEnd n} \<union> in_state fl ns) = card {sb_seq n .. GetEnd n} + card (in_state fl ns)"
    using f by (intro card_Un_disjoint) auto
  then show ?case using Cons.IH [OF t(1)] t(2) by (simp add: GetLength_end)
qed simp

text \<open>The invariant of a board whose first packet is \<open>a\<close>.\<close>

definition retrx_ok :: "nat option \<Rightarrow> sb_node list \<Rightarrow> bool" where
  "retrx_ok r ns \<longleftrightarrow> (\<forall>i. r = Some i \<longrightarrow> i < length ns \<and> (\<forall>n \<in> set (take i ns). sb_flag n \<noteq> SKB_FLAG_LOST))"

definition board_ok :: "int \<Rightarrow> int \<Rightarrow> sboard \<Rightarrow> bool" where
  "board_ok a e b \<longleftrightarrow> tiles a (sb_head b) e \<and> (if sb_head b = [] then sb_fack b \<le> 0 else sb_fack b < e)
     \<and> sb_sack_out b = slen SKB_FLAG_SACKED (sb_head b) \<and> sb_fack_out b = slen SKB_FLAG_LOST (sb_head b)
     \<and> retrx_ok (sb_retrx b) (sb_head b)"

section \<open>Cleaning\<close>

lemma retrx_ok_pop: "retrx_ok r (n # ns) \<Longrightarrow> retrx_ok (pop_retrx (ns = []) r) ns"
  by (cases r; cases "the r") (auto simp: retrx_ok_def)

lemma retrx_ok_head: "retrx_ok r (n # ns) \<Longrightarrow> sb_flag n' = sb_flag n \<Longrightarrow> retrx_ok r (n' # ns)"
  by (auto simp: retrx_ok_def take_Cons split: nat.splits)

lemma clean_ok:
  assumes "tiles a ns e" and "sb_sack_out b = slen SKB_FLAG_SACKED ns" and "sb_fack_out b = slen SKB_FLAG_LOST ns"
    and "retrx_ok (sb_retrx b) ns" and "a \<le> ack + 1"
  shows "\<exists>ns' b' flag' ch'. CleanRtxQueue ack ns b flag ch = Some (ns', b', flag', ch')
    \<and> tiles (if ns' = [] then e else ack + 1) ns' e \<and> sb_sack_out b' = slen SKB_FLAG_SACKED ns'
    \<and> sb_fack_out b' = slen SKB_FLAG_LOST ns' \<and> retrx_ok (sb_retrx b') ns' \<and> sb_fack b' = sb_fack b
    \<and> in_state SKB_FLAG_SACKED ns' = in_state SKB_FLAG_SACKED ns \<inter> {ack + 1 ..}
    \<and> (ns' = [] \<longrightarrow> e \<le> ack + 1)"
  using assms
proof (induction ns arbitrary: a b flag ch)
  case (Cons n ns)
  have n: "sb_seq n = a" "a \<le> GetEnd n" "tiles (GetEnd n + 1) ns e" using Cons.prems(1) by auto
  note range = in_state_range [OF n(3), of SKB_FLAG_SACKED] and pos = slen_bounds(1) [OF n(3)]
  show ?case
  proof (cases "ack < a")
    case True
    then have "ack + 1 = a" using Cons.prems(5) by simp
    moreover have "in_state SKB_FLAG_SACKED (n # ns) \<subseteq> {a ..}"
      using in_state_range [OF Cons.prems(1), of SKB_FLAG_SACKED] by force
    moreover have "CleanRtxQueue ack (n # ns) b flag ch = Some (n # ns, b, flag, ch)"
      using True n(1) by (simp add: ShouldClean_def)
    ultimately show ?thesis using Cons.prems by (intro exI [of _ "n # ns"] exI conjI) auto
  next
    case False
    show ?thesis
    proof (cases "GetEnd n \<le> ack")
      case all: True
      define up where "up \<longleftrightarrow> sb_flag n = SKB_FLAG_RETRANSMITTED \<and> sb_acked_rtx b < sb_retran n"
      define b1 where "b1 = count_out (sb_flag n) (GetLength n) b"
      define b2 where "b2 = (if up then b1\<lparr>sb_acked_rtx := sb_retran n\<rparr> else b1)"
      define b3 where "b3 = b2\<lparr>sb_retrx := pop_retrx (ns = []) (sb_retrx b2)\<rparr>"
      have c: "ShouldClean ack n = -1" using all False n(1) by (auto simp: ShouldClean_def GetEnd_def split: if_splits)
      have b1: "sb_sack_out b1 = slen SKB_FLAG_SACKED ns" "sb_fack_out b1 = slen SKB_FLAG_LOST ns"
        "sb_retrx b1 = sb_retrx b" "sb_fack b1 = sb_fack b" "sb_acked_rtx b1 = sb_acked_rtx b"
        using Cons.prems(2,3) by (auto simp: b1_def count_out_def split: skb_flag.splits)
      have b3: "sb_sack_out b3 = slen SKB_FLAG_SACKED ns" "sb_fack_out b3 = slen SKB_FLAG_LOST ns"
        "retrx_ok (sb_retrx b3) ns" "sb_fack b3 = sb_fack b"
        using b1 retrx_ok_pop [OF Cons.prems(4)] by (auto simp: b3_def b2_def)
      have "CleanRtxQueue ack (n # ns) b flag ch = CleanRtxQueue ack ns b3
          (if sb_flag n = SKB_FLAG_RETRANSMITTED then flag OR FLAG_UNSURE_TSTAMP else flag) (ch \<or> up)"
        using c b1(1,2,5) pos [of SKB_FLAG_SACKED] pos [of SKB_FLAG_LOST]
        by (cases "sb_flag n") (simp_all add: Let_def up_def b3_def b2_def b1_def)
      moreover have "in_state SKB_FLAG_SACKED (n # ns) \<inter> {ack + 1 ..} = in_state SKB_FLAG_SACKED ns \<inter> {ack + 1 ..}"
        using all by auto
      ultimately show ?thesis using Cons.IH [OF n(3) b3(1-3)] all b3(4) by simp
    next
      case part: False
      define n' where "n' = n\<lparr>sb_seq := ack + 1\<rparr>"
      define b1 where "b1 = count_out (sb_flag n) (ack + 1 - a) b"
      have nr: "sb_flag n \<noteq> SKB_FLAG_RETRANSMITTED" using part False n(1) by (auto simp: GetEnd_def)
      have c: "ShouldClean ack n = ack + 1 - a" using part False n(1) nr by (auto simp: ShouldClean_def GetEnd_def)
      have n': "sb_flag n' = sb_flag n" "sb_seq n' = ack + 1" "GetEnd n' = GetEnd n"
        using nr by (simp_all add: n'_def GetEnd_def)
      have b1: "sb_sack_out b1 = slen SKB_FLAG_SACKED (n' # ns)" "sb_fack_out b1 = slen SKB_FLAG_LOST (n' # ns)"
        "sb_retrx b1 = sb_retrx b" "sb_fack b1 = sb_fack b"
        using Cons.prems(2,3) n' nr n(1) by (auto simp: b1_def count_out_def GetLength_end split: skb_flag.splits)
      have "0 \<le> slen SKB_FLAG_SACKED (n' # ns)" "0 \<le> slen SKB_FLAG_LOST (n' # ns)"
        using part n' pos by (auto simp: GetLength_end add_nonneg_nonneg)
      then have "CleanRtxQueue ack (n # ns) b flag ch = Some (n' # ns, b1, flag, ch)"
        using c part False b1(1,2)
        by (cases "sb_flag n") (simp_all add: Let_def b1_def n'_def del: slen_simps)
      moreover have "in_state SKB_FLAG_SACKED (n' # ns) = in_state SKB_FLAG_SACKED (n # ns) \<inter> {ack + 1 ..}"
        using range part False n n' by auto
      moreover have "tiles (ack + 1) (n' # ns) e" using n' part n(3) by simp
      ultimately show ?thesis
        using b1 retrx_ok_head [OF Cons.prems(4) n'(1)] by (intro exI [of _ "n' # ns"] exI [of _ b1] exI [of _ flag] exI [of _ ch])
          (simp del: slen_simps in_state_simps CleanRtxQueue.simps)
    qed
  qed
qed simp

section \<open>The pass\<close>

text \<open>
  Replacing a block by blocks that cover the same packets, with the counters adjusted.
\<close>

definition replaces :: "sb_node \<Rightarrow> sb_node list \<Rightarrow> sb_vars \<Rightarrow> sb_vars \<Rightarrow> bool" where
  "replaces n xs v v' \<longleftrightarrow> tiles (sb_seq n) xs (GetEnd n + 1)
     \<and> v_sack_out v' = v_sack_out v + slen SKB_FLAG_SACKED xs - slen SKB_FLAG_SACKED [n]
     \<and> v_fack_out v' = v_fack_out v + slen SKB_FLAG_LOST xs - slen SKB_FLAG_LOST [n]
     \<and> (v_thorough v \<longrightarrow> v_thorough v')"

lemma replaces_refl: "sb_seq n \<le> GetEnd n \<Longrightarrow> replaces n [n] v v"
  by (simp add: replaces_def)

lemma replaces_trans:
  assumes "replaces n (m # ys) v v1" and "replaces m xs v1 v2"
  shows "replaces n (xs @ ys) v v2"
  using assms by (auto simp: replaces_def tiles_append)

lemma GetEnd_SetFlag [simp]: "fl \<noteq> SKB_FLAG_RETRANSMITTED \<Longrightarrow> GetEnd (SetFlag fl n) = GetEnd n"
  by (simp add: GetEnd_def SetFlag_def)

lemma SetFlag_fields [simp]: "sb_flag (SetFlag fl n) = fl" "sb_seq (SetFlag fl n) = sb_seq n"
  by (simp_all add: SetFlag_def)

text \<open>A split inside a block that is not a retransmission (a retransmission has one packet).\<close>

lemma Split_ok:
  assumes "sb_seq n < s" and "s \<le> GetEnd n"
  shows "sb_flag n \<noteq> SKB_FLAG_RETRANSMITTED" and "Split s n = (n\<lparr>sb_nxt := s - 1\<rparr>, new_node s (GetEnd n) (sb_flag n))"
    and "GetEnd (n\<lparr>sb_nxt := s - 1\<rparr>) = s - 1" and "GetEnd (new_node s (GetEnd n) (sb_flag n)) = GetEnd n"
    and "replaces n [n\<lparr>sb_nxt := s - 1\<rparr>, new_node s (GetEnd n) (sb_flag n)] v v"
proof -
  show nr: "sb_flag n \<noteq> SKB_FLAG_RETRANSMITTED" using assms by (auto simp: GetEnd_def)
  then show e: "GetEnd (n\<lparr>sb_nxt := s - 1\<rparr>) = s - 1" "GetEnd (new_node s (GetEnd n) (sb_flag n)) = GetEnd n"
    "Split s n = (n\<lparr>sb_nxt := s - 1\<rparr>, new_node s (GetEnd n) (sb_flag n))"
    by (simp_all add: GetEnd_def new_node_def Split_def)
  define c where "c = new_node s (GetEnd n) (sb_flag n)"
  have "sb_seq c = s" "sb_flag c = sb_flag n" by (simp_all add: c_def new_node_def)
  then show "replaces n [n\<lparr>sb_nxt := s - 1\<rparr>, new_node s (GetEnd n) (sb_flag n)] v v"
    using assms e(1) e(2) [folded c_def] unfolding c_def [symmetric] by (simp add: replaces_def GetLength_end)
qed

lemma first_retrx_fields [simp]:
  "v_sack_out (first_retrx i v) = v_sack_out v" "v_fack_out (first_retrx i v) = v_fack_out v"
  "v_thorough (first_retrx i v) = v_thorough v" "v_sacks (first_retrx i v) = v_sacks v"
  "v_retrx (first_retrx i v) = (if v_retrx v = None then Some i else v_retrx v)"
  by (simp_all add: first_retrx_def)

lemma mark_sacked_fields [simp]:
  "v_sacks (mark_sacked n v) = v_sacks v" "v_retrx (mark_sacked n v) = v_retrx v"
  by (simp_all add: mark_sacked_def split: skb_flag.splits)

lemma mark_sacked_ok:
  "sb_seq n \<le> GetEnd n \<Longrightarrow> sb_flag n \<noteq> SKB_FLAG_SACKED \<Longrightarrow> replaces n [SetFlag SKB_FLAG_SACKED n] v (mark_sacked n v)"
  by (cases "sb_flag n") (simp_all add: replaces_def mark_sacked_def GetLength_end)

text \<open>What the visit of a SACK block does to a block.\<close>

lemma visit_sack_ok:
  assumes "visit_sack n v = (n', ins, v')" and "sb_seq n \<le> GetEnd n" and "sb_flag n \<noteq> SKB_FLAG_SACKED"
    and "\<forall>l r ss. v_sacks v = (l, r) # ss \<longrightarrow> sb_seq n < r"
  shows "replaces n (n' # ins) v v' \<and> v_sacks v' = v_sacks v \<and> v_retrx v' = v_retrx v \<and> length ins \<le> 1
    \<and> (\<forall>m \<in> set ins. sb_flag m = sb_flag n)
    \<and> (if \<exists>l r ss. v_sacks v = (l, r) # ss \<and> l \<le> GetEnd n' then sb_flag n' = SKB_FLAG_SACKED
         \<and> {sb_seq n .. GetEnd n'} \<subseteq> {fst (hd (v_sacks v)) ..< snd (hd (v_sacks v))}
       else sb_flag n' = sb_flag n)"
proof (cases "v_sacks v")
  case Nil
  then show ?thesis using assms by (auto simp: visit_sack_def replaces_refl)
next
  case (Cons x ss)
  obtain l r where x: "x = (l, r)" by (cases x)
  have r: "sb_seq n < r" using assms(4) Cons x by auto
  consider "GetEnd n < l" | "sb_seq n < l" "l \<le> GetEnd n" | "l \<le> sb_seq n" "r \<le> GetEnd n" | "l \<le> sb_seq n" "GetEnd n < r"
    by linarith
  then show ?thesis
  proof cases
    case 1
    then show ?thesis using assms Cons x by (auto simp: visit_sack_def replaces_refl)
  next
    case 2
    note s = Split_ok [OF 2]
    have "n' = n\<lparr>sb_nxt := l - 1\<rparr>" "ins = [new_node l (GetEnd n) (sb_flag n)]" "v' = v"
      using assms(1) Cons x 2 s(2) by (simp_all add: visit_sack_def)
    then show ?thesis using s(3,5) Cons x by (auto simp: new_node_def)
  next
    case 3
    note s = Split_ok [OF r 3(2)]
    define m where "m = n\<lparr>sb_nxt := r - 1\<rparr>"
    have e: "n' = SetFlag SKB_FLAG_SACKED m" "ins = [new_node r (GetEnd n) (sb_flag n)]" "v' = mark_sacked m v"
      using assms(1,2) Cons x 3 s(2) by (simp_all add: visit_sack_def m_def)
    have "replaces m [n'] v v'" using e mark_sacked_ok [of m v] assms(3) s(3) r by (simp add: m_def)
    then have "replaces n (n' # ins) v v'"
      using replaces_trans [of n m ins v v "[n']" v'] s(5) e(2) by (simp add: m_def)
    then show ?thesis using e Cons x 3 s(3) r by (auto simp: m_def new_node_def)
  next
    case 4
    have e: "n' = SetFlag SKB_FLAG_SACKED n" "ins = []" "v' = mark_sacked n v"
      using assms(1,2) Cons x 4 by (simp_all add: visit_sack_def)
    then show ?thesis using mark_sacked_ok [OF assms(2,3), of v] Cons x 4 assms(2) by auto
  qed
qed

lemma visit_loss_ok:
  assumes "visit_loss fack dup i n v = (n', ins, v')" and "sb_seq n \<le> GetEnd n"
  shows "replaces n (n' # ins) v v' \<and> v_sacks v' = v_sacks v \<and> length ins \<le> 1
    \<and> (\<forall>m \<in> set ins. sb_flag m = sb_flag n \<and> sb_flag n \<noteq> SKB_FLAG_SACKED) \<and> GetEnd n' \<le> GetEnd n
    \<and> (sb_flag n' = SKB_FLAG_SACKED \<longleftrightarrow> sb_flag n = SKB_FLAG_SACKED)
    \<and> v_retrx v' = (if sb_flag n' = SKB_FLAG_LOST \<and> v_retrx v = None then Some i else v_retrx v)
    \<and> (sb_flag n' = SKB_FLAG_INFLIGHT \<longrightarrow> fack - (dup + 1) < sb_seq n')"
proof (cases "sb_flag n")
  case SKB_FLAG_INFLIGHT
  define t where "t = fack - (dup + 1)"
  show ?thesis
  proof (cases "sb_seq n \<le> t \<and> t < GetEnd n")
    case True
    then have b: "sb_seq n < t + 1" "t + 1 \<le> GetEnd n" by simp_all
    note s = Split_ok [OF b]
    define m where "m = n\<lparr>sb_nxt := t\<rparr>"
    have e: "n' = SetFlag SKB_FLAG_LOST m" "ins = [new_node (t + 1) (GetEnd n) (sb_flag n)]"
      "v' = first_retrx i (v\<lparr>v_fack_out := v_fack_out v + GetLength n', v_flag := v_flag v OR FLAG_DATA_LOST\<rparr>)"
      using assms(1) True s(2) SKB_FLAG_INFLIGHT by (auto simp: visit_loss_def Let_def m_def simp flip: t_def)
    have "GetEnd m = t" "sb_flag m = SKB_FLAG_INFLIGHT" using s(3) SKB_FLAG_INFLIGHT by (simp_all add: m_def)
    then have "replaces m [n'] v v'" using e b by (simp add: replaces_def GetLength_end m_def)
    then have "replaces n (n' # ins) v v'"
      using replaces_trans [of n m ins v v "[n']" v'] s(5) e(2) by (simp add: m_def)
    then show ?thesis using e SKB_FLAG_INFLIGHT \<open>GetEnd m = t\<close> True by (simp add: new_node_def)
  next
    case False
    show ?thesis
    proof (cases "sb_seq n \<le> t")
      case True
      then have e: "n' = SetFlag SKB_FLAG_LOST n" "ins = []"
        "v' = first_retrx i (v\<lparr>v_fack_out := v_fack_out v + GetLength n', v_flag := v_flag v OR FLAG_DATA_LOST\<rparr>)"
        using assms(1) False SKB_FLAG_INFLIGHT by (auto simp: visit_loss_def Let_def simp flip: t_def)
      then show ?thesis using assms(2) SKB_FLAG_INFLIGHT by (simp add: replaces_def GetLength_end)
    next
      case f: False
      then have "n' = n \<and> ins = [] \<and> v' = v"
        using assms(1) SKB_FLAG_INFLIGHT by (simp add: visit_loss_def Let_def flip: t_def)
      then show ?thesis using assms(2) SKB_FLAG_INFLIGHT f by (simp add: replaces_refl t_def)
    qed
  qed
next
  case SKB_FLAG_RETRANSMITTED
  moreover from this have "sb_nxt (SetFlag SKB_FLAG_LOST n) = sb_seq n" by (simp add: SetFlag_def)
  ultimately show ?thesis using assms
    by (auto simp: visit_loss_def replaces_def GetLength_end GetEnd_def split: if_splits)
qed (use assms in \<open>auto simp: visit_loss_def replaces_def\<close>)

text \<open>The packets of a list of SACK blocks.\<close>

definition sunion :: "(int \<times> int) list \<Rightarrow> int set" where
  "sunion ss = (\<Union>x \<in> set ss. {fst x ..< snd x})"

lemma sunion_simps [simp]: "sunion [] = {}" "sunion (x # ss) = {fst x ..< snd x} \<union> sunion ss" "sunion (xs @ ys) = sunion xs \<union> sunion ys"
  by (auto simp: sunion_def)

lemma sunion_drop: "sunion (dropWhile (behind s) ss) \<inter> {s ..} = sunion ss \<inter> {s ..}"
proof -
  have "sunion (takeWhile (behind s) ss) \<inter> {s ..} = {}"
    by (force simp: sunion_def behind_def dest!: set_takeWhileD)
  then show ?thesis using sunion_simps(3) [of "takeWhile (behind s) ss" "dropWhile (behind s) ss"]
    by (simp add: Int_Un_distrib2)
qed

lemma sunion_miss:
  assumes "sorted (map fst ss)" and "ss = [] \<or> e < fst (hd ss)"
  shows "sunion ss \<inter> {.. e} = {}"
  using assms by (cases ss) (auto simp: sunion_def)

lemma sorted_dropWhile_fst: "sorted (map fst ss) \<Longrightarrow> sorted (map fst (dropWhile P ss))"
  by (induction ss) auto

lemma Int_tail:
  fixes A B :: "int set"
  assumes "A \<inter> {s ..} = B \<inter> {s ..}" and "s \<le> t"
  shows "A \<inter> {t ..} = B \<inter> {t ..}"
proof -
  have "X \<inter> {t ..} = X \<inter> {s ..} \<inter> {t ..}" for X using assms(2) by auto
  then show ?thesis using assms(1) by metis
qed

lemma Int_tail_subset:
  fixes A B :: "int set"
  assumes "A \<inter> {s ..} = B \<inter> {s ..}" and "{s .. t} \<subseteq> A"
  shows "{s .. t} \<subseteq> B"
proof -
  have "{s .. t} \<subseteq> A \<inter> {s ..}" using assms(2) by auto
  then show ?thesis unfolding assms(1) by blast
qed

lemma visit_ok:
  assumes "visit fack dup i n v = (n', ins, v')" and "sb_seq n \<le> GetEnd n" and "sorted (map fst (v_sacks v))"
  shows "replaces n (n' # ins) v v' \<and> length ins \<le> 2 \<and> sorted (map fst (v_sacks v'))
    \<and> v_retrx v' = (if sb_flag n' = SKB_FLAG_LOST \<and> v_retrx v = None then Some i else v_retrx v)
    \<and> (sb_flag n' = SKB_FLAG_INFLIGHT \<longrightarrow> fack - (dup + 1) < sb_seq n')
    \<and> sunion (v_sacks v') \<inter> {GetEnd n' + 1 ..} = sunion (v_sacks v) \<inter> {GetEnd n' + 1 ..}
    \<and> in_state SKB_FLAG_SACKED [n'] = {sb_seq n .. GetEnd n'} \<inter> (in_state SKB_FLAG_SACKED [n] \<union> sunion (v_sacks v))
    \<and> in_state SKB_FLAG_SACKED ins = in_state SKB_FLAG_SACKED [n] \<inter> {GetEnd n' + 1 ..}"
proof (cases "sb_flag n = SKB_FLAG_SACKED")
  case True
  then have "n' = n" "ins = []" "v' = v" using assms(1) by (simp_all add: visit_def)
  then show ?thesis using True assms(2,3) by (auto simp: replaces_refl)
next
  case False
  define ss where "ss = dropWhile (behind (sb_seq n)) (v_sacks v)"
  define v0 where "v0 = v\<lparr>v_sacks := ss\<rparr>"
  obtain n1 ins1 v1 where 1: "visit_sack n v0 = (n1, ins1, v1)" by (metis prod_cases3)
  obtain n2 ins2 v2 where 2: "(if beyond n1 (v_sacks v1) then visit_loss fack dup i n1 v1 else (n1, [], v1)) = (n2, ins2, v2)"
    by (metis prod_cases3)
  have e: "n' = n2" "ins = ins2 @ ins1" "v' = v2"
    using assms(1) False 1 2 by (auto simp: visit_def Let_def v0_def ss_def)
  have front: "\<forall>l r xs. v_sacks v0 = (l, r) # xs \<longrightarrow> sb_seq n < r"
    unfolding v0_def ss_def by (auto simp: behind_def dropWhile_eq_Cons_conv)
  note s1 = visit_sack_ok [OF 1 assms(2) False front]
  have r0: "replaces n xs v0 w \<Longrightarrow> replaces n xs v w" for xs w by (simp add: replaces_def v0_def)
  have r1: "replaces n (n1 # ins1) v v1" using s1 r0 by blast
  then have n1: "sb_seq n1 = sb_seq n" "sb_seq n1 \<le> GetEnd n1" by (simp_all add: replaces_def)
  have sacks1: "v_sacks v1 = ss" "v_retrx v1 = v_retrx v" using s1 by (simp_all add: v0_def)
  have srt: "sorted (map fst ss)" unfolding ss_def by (rule sorted_dropWhile_fst [OF assms(3)])
  have U: "sunion ss \<inter> {sb_seq n ..} = sunion (v_sacks v) \<inter> {sb_seq n ..}" unfolding ss_def by (rule sunion_drop)
  have byd: "beyond n1 ss \<longleftrightarrow> \<not> (\<exists>l r xs. ss = (l, r) # xs \<and> l \<le> GetEnd n1)"
    by (cases ss) (auto simp: beyond_def)
  have ins1: "in_state SKB_FLAG_SACKED ins1 = {}" using s1 False by (auto simp: in_state_def)
  show ?thesis
  proof (cases "beyond n1 ss")
    case True
    then have l: "visit_loss fack dup i n1 v1 = (n2, ins2, v2)" using 2 sacks1 by simp
    note s2 = visit_loss_ok [OF l n1(2)]
    have f1: "sb_flag n1 = sb_flag n" using s1 True byd by (simp add: v0_def)
    have r2: "replaces n (n2 # ins2 @ ins1) v v2" using replaces_trans [OF r1, of "n2 # ins2" v2] s2 by simp
    have n2: "sb_seq n2 = sb_seq n" "sb_seq n \<le> GetEnd n2" using r2 by (simp_all add: replaces_def)
    have miss: "sunion ss \<inter> {.. GetEnd n2} = {}"
      using True s2 by (intro sunion_miss [OF srt]) (auto simp: beyond_def split: list.splits)
    have "in_state SKB_FLAG_SACKED (ins2 @ ins1) = {}" using s2 f1 False ins1 by (auto simp: in_state_def)
    moreover have "{sb_seq n .. GetEnd n2} \<inter> sunion (v_sacks v) = {}"
    proof -
      have "{sb_seq n .. GetEnd n2} \<inter> sunion (v_sacks v) = sunion (v_sacks v) \<inter> {sb_seq n ..} \<inter> {.. GetEnd n2}" by auto
      also have "\<dots> = {}" unfolding U [symmetric] using miss by auto
      finally show ?thesis .
    qed
    moreover have "sunion ss \<inter> {GetEnd n2 + 1 ..} = sunion (v_sacks v) \<inter> {GetEnd n2 + 1 ..}"
      using n2(2) by (intro Int_tail [OF U]) simp
    moreover have "sb_flag n2 \<noteq> SKB_FLAG_SACKED" using s2 f1 False by simp
    ultimately show ?thesis using e r2 s1 s2 srt sacks1 False by simp
  next
    case hit: False
    then have e2: "n2 = n1" "ins2 = []" "v2 = v1" using 2 sacks1 by simp_all
    have f1: "sb_flag n1 = SKB_FLAG_SACKED" "{sb_seq n .. GetEnd n1} \<subseteq> {fst (hd ss) ..< snd (hd ss)}" "ss \<noteq> []"
      using s1 hit byd by (auto simp: v0_def split: if_splits)
    have "{fst (hd ss) ..< snd (hd ss)} \<subseteq> sunion ss" using f1(3) by (cases ss) auto
    then have sub: "{sb_seq n .. GetEnd n1} \<subseteq> sunion (v_sacks v)" using f1(2) by (intro Int_tail_subset [OF U]) blast
    moreover have "sunion ss \<inter> {GetEnd n1 + 1 ..} = sunion (v_sacks v) \<inter> {GetEnd n1 + 1 ..}"
      using n1 by (intro Int_tail [OF U]) simp
    ultimately show ?thesis using e e2 r1 s1 f1(1) srt sacks1 False ins1 n1 by (simp add: Int_absorb2)
  qed
qed

text \<open>
  The state of the pass between two rounds: the blocks done cover \<open>[b0, a)\<close>, those to do
  \<open>[a, e)\<close>; what is done is acknowledged exactly as before (\<open>A\<close>) or by a SACK block (\<open>U\<close>);
  \<open>thr\<close> is the last packet that counts as lost.
\<close>

definition done_ok :: "int \<Rightarrow> sb_node list \<Rightarrow> nat option \<Rightarrow> bool" where
  "done_ok thr ps r \<longleftrightarrow> (\<forall>m \<in> set ps. sb_flag m = SKB_FLAG_INFLIGHT \<longrightarrow> thr < sb_seq m)
     \<and> (r = None \<longrightarrow> (\<forall>m \<in> set ps. sb_flag m \<noteq> SKB_FLAG_LOST)) \<and> retrx_ok r (rev ps)"

definition trav_inv where
  "trav_inv b0 a e fack dup A U ps ns v \<longleftrightarrow> tiles b0 (rev ps) a \<and> tiles a ns e \<and> (ns = [] \<longrightarrow> fack < a)
     \<and> (v_thorough v \<or> fack < e)
     \<and> in_state SKB_FLAG_SACKED ps = (A \<union> U) \<inter> {b0 ..< a} \<and> in_state SKB_FLAG_SACKED ns = A \<inter> {a ..}
     \<and> sunion (v_sacks v) \<inter> {a ..} = U \<inter> {a ..} \<and> sorted (map fst (v_sacks v))
     \<and> v_sack_out v = slen SKB_FLAG_SACKED ps + slen SKB_FLAG_SACKED ns
     \<and> v_fack_out v = slen SKB_FLAG_LOST ps + slen SKB_FLAG_LOST ns
     \<and> done_ok (fack - (dup + 1)) ps (v_retrx v)"

text \<open>The block is added to those done, merged with the last one if that has the same state.\<close>

lemma push_ok:
  assumes "tiles b0 (rev ps) a" and "sb_seq n = a" and "a \<le> GetEnd n" and "done_ok thr ps r"
    and "sb_flag n = SKB_FLAG_INFLIGHT \<longrightarrow> thr < sb_seq n"
    and "v_retrx v = (if sb_flag n = SKB_FLAG_LOST \<and> r = None then Some (length ps) else r)"
  shows "\<exists>ps'. push_node n ps v = Some ps' \<and> ps' \<noteq> [] \<and> GetEnd (hd ps') = GetEnd n \<and> tiles b0 (rev ps') (GetEnd n + 1)
    \<and> done_ok thr ps' (v_retrx v) \<and> (\<forall>fl. in_state fl ps' = in_state fl ps \<union> in_state fl [n])
    \<and> (\<forall>fl. slen fl ps' = slen fl ps + slen fl [n])"
proof (cases "\<exists>p qs. ps = p # qs \<and> Mergable p n")
  case True
  then obtain p qs where p: "ps = p # qs" "sb_flag n = sb_flag p" "sb_flag n \<noteq> SKB_FLAG_RETRANSMITTED"
    by (auto simp: Mergable_def)
  define m where "m = Merge p n"
  have t: "tiles b0 (rev qs) (sb_seq p)" "sb_seq p \<le> GetEnd p" "GetEnd p + 1 = a"
    using assms(1) p(1) by (auto simp: tiles_append)
  have m: "sb_flag m = sb_flag p" "sb_seq m = sb_seq p" "GetEnd m = GetEnd n"
    using p by (simp_all add: m_def Merge_def GetEnd_def)
  have r: "v_retrx v = r" "r \<noteq> Some (length ps)"
    using assms(4,6) p by (auto simp: done_ok_def retrx_ok_def)
  have rx: "retrx_ok r (rev qs @ [p])" using assms(4) p(1) by (simp add: done_ok_def)
  have "retrx_ok r (rev qs @ [m])" unfolding retrx_ok_def
  proof (intro allI impI)
    fix i assume "r = Some i"
    then have "i < length (rev qs @ [p]) \<and> (\<forall>n \<in> set (take i (rev qs @ [p])). sb_flag n \<noteq> SKB_FLAG_LOST)"
      using rx unfolding retrx_ok_def by blast
    then show "i < length (rev qs @ [m]) \<and> (\<forall>n \<in> set (take i (rev qs @ [m])). sb_flag n \<noteq> SKB_FLAG_LOST)" by simp
  qed
  then have d: "done_ok thr (m # qs) r" using assms(4) p(1) m by (auto simp: done_ok_def)
  have "push_node n ps v = Some (m # qs)" using p r by (simp add: push_node_def Mergable_def m_def)
  moreover have "tiles b0 (rev (m # qs)) (GetEnd n + 1)" using t m assms(3) by (auto simp: tiles_append)
  moreover have "in_state fl (m # qs) = in_state fl ps \<union> in_state fl [n]" for fl
  proof -
    have "{sb_seq m .. GetEnd m} = {sb_seq p .. GetEnd p} \<union> {sb_seq n .. GetEnd n}" using t m assms(2,3) by auto
    then show ?thesis using p m by auto
  qed
  moreover have "slen fl (m # qs) = slen fl ps + slen fl [n]" for fl
    using p t m assms(2) by (simp add: GetLength_end)
  ultimately show ?thesis using d m(3) r(1) by auto
next
  case False
  then have e: "push_node n ps v = Some (n # ps)" by (auto simp: push_node_def split: list.splits)
  have "done_ok thr (n # ps) (v_retrx v)"
    using assms(4-6) by (auto simp: done_ok_def retrx_ok_def split: if_splits)
  then show ?thesis using e assms(1-3) by (intro exI [of _ "n # ps"]) (auto simp: tiles_append)
qed

lemma in_range_split: "a \<le> (b::int) \<Longrightarrow> b \<le> c \<Longrightarrow> X \<inter> {a ..< b} \<union> X \<inter> {b ..< c} = X \<inter> {a ..< c}"
  by (auto simp flip: Int_Un_distrib)

lemma trav_step:
  assumes "trav_inv b0 a e fack dup A U ps (n # ns) v" and "visit fack dup (length ps) n v = (n', ins, v')"
  shows "\<exists>ps' e'. push_node n' ps v' = Some ps' \<and> a < GetEnd n' + 1 \<and> max e' (fack + 1) = max e (fack + 1)
    \<and> length (extend_board fack (hd ps') (ins @ ns)) \<le> length ns + 2 \<and> (v_thorough v \<longrightarrow> v_thorough v')
    \<and> trav_inv b0 (GetEnd n' + 1) e' fack dup A U ps' (extend_board fack (hd ps') (ins @ ns)) v'"
proof -
  have I: "tiles b0 (rev ps) a" "sb_seq n = a" "a \<le> GetEnd n" "tiles (GetEnd n + 1) ns e"
    "in_state SKB_FLAG_SACKED ps = (A \<union> U) \<inter> {b0 ..< a}" "in_state SKB_FLAG_SACKED (n # ns) = A \<inter> {a ..}"
    "sunion (v_sacks v) \<inter> {a ..} = U \<inter> {a ..}" "sorted (map fst (v_sacks v))"
    "v_sack_out v = slen SKB_FLAG_SACKED ps + slen SKB_FLAG_SACKED (n # ns)"
    "v_fack_out v = slen SKB_FLAG_LOST ps + slen SKB_FLAG_LOST (n # ns)"
    "done_ok (fack - (dup + 1)) ps (v_retrx v)" "v_thorough v \<or> fack < e"
    using assms(1) unfolding trav_inv_def by auto
  note V = visit_ok [OF assms(2) _ I(8)]
  have n: "sb_seq n \<le> GetEnd n" using I(2,3) by simp
  note V = V [OF n]
  define a' where "a' = GetEnd n' + 1"
  have n': "sb_seq n' = a" "a < a'" "tiles a' ins (GetEnd n + 1)"
    using V I(2) by (auto simp: replaces_def a'_def)
  have a': "a' \<le> GetEnd n + 1" using tiles_le [OF n'(3)] .
  have seqn': "sb_flag n' = SKB_FLAG_INFLIGHT \<longrightarrow> fack - (dup + 1) < sb_seq n'" using V by blast
  have rv: "v_retrx v' = (if sb_flag n' = SKB_FLAG_LOST \<and> v_retrx v = None then Some (length ps) else v_retrx v)"
    using V by blast
  obtain ps' where p: "push_node n' ps v' = Some ps'" "ps' \<noteq> []" "GetEnd (hd ps') = GetEnd n'" "tiles b0 (rev ps') a'"
    "done_ok (fack - (dup + 1)) ps' (v_retrx v')" "\<And>fl. in_state fl ps' = in_state fl ps \<union> in_state fl [n']"
    "\<And>fl. slen fl ps' = slen fl ps + slen fl [n']"
    using push_ok [OF I(1) n'(1) _ I(11) seqn' rv] n'(2) unfolding a'_def by auto
  have rest: "tiles a' (ins @ ns) e" using n'(3) I(4) by (auto simp: tiles_append)
  define ns' where "ns' = extend_board fack (hd ps') (ins @ ns)"
  define e' where "e' = (if ins @ ns = [] \<and> GetEnd n' < fack then fack + 1 else e)"
  have x: "tiles a' ns' e'" "max e' (fack + 1) = max e (fack + 1)" "ns' = [] \<longrightarrow> fack < a'" "v_thorough v' \<or> fack < e'"
    "length ns' \<le> length ns + 2" "in_state SKB_FLAG_SACKED ns' = in_state SKB_FLAG_SACKED (ins @ ns)"
    "slen SKB_FLAG_SACKED ns' = slen SKB_FLAG_SACKED (ins @ ns)" "slen SKB_FLAG_LOST ns' = slen SKB_FLAG_LOST (ins @ ns)"
  proof -
    have v: "v_thorough v \<longrightarrow> v_thorough v'" "length ins \<le> 2" using V by (auto simp: replaces_def)
    show "tiles a' ns' e'" "max e' (fack + 1) = max e (fack + 1)" "ns' = [] \<longrightarrow> fack < a'" "v_thorough v' \<or> fack < e'"
      "length ns' \<le> length ns + 2" "in_state SKB_FLAG_SACKED ns' = in_state SKB_FLAG_SACKED (ins @ ns)"
      "slen SKB_FLAG_SACKED ns' = slen SKB_FLAG_SACKED (ins @ ns)" "slen SKB_FLAG_LOST ns' = slen SKB_FLAG_LOST (ins @ ns)"
      using rest v I(12) unfolding ns'_def e'_def extend_board_def p(3)
      by (auto simp: a'_def new_node_def GetEnd_def)
  qed
  have done1: "in_state SKB_FLAG_SACKED ps' = (A \<union> U) \<inter> {b0 ..< a'}"
  proof -
    have "in_state SKB_FLAG_SACKED [n'] = {a ..< a'} \<inter> (in_state SKB_FLAG_SACKED [n] \<union> sunion (v_sacks v))"
      using V I(2) by (auto simp: a'_def)
    moreover have "{a ..< a'} \<inter> in_state SKB_FLAG_SACKED [n] = {a ..< a'} \<inter> A"
    proof -
      have "in_state SKB_FLAG_SACKED ns \<subseteq> {GetEnd n + 1 ..< e}" by (rule in_state_range [OF I(4)])
      then have "{a ..< a'} \<inter> in_state SKB_FLAG_SACKED ns = {}" using a' by force
      then have "{a ..< a'} \<inter> in_state SKB_FLAG_SACKED [n] = {a ..< a'} \<inter> in_state SKB_FLAG_SACKED (n # ns)" by auto
      also have "\<dots> = {a ..< a'} \<inter> (A \<inter> {a ..})" unfolding I(6) ..
      also have "\<dots> = {a ..< a'} \<inter> A" by auto
      finally show ?thesis .
    qed
    moreover have "{a ..< a'} \<inter> sunion (v_sacks v) = {a ..< a'} \<inter> U"
    proof -
      have "{a ..< a'} \<inter> X = {a ..< a'} \<inter> (X \<inter> {a ..})" for X by auto
      then show ?thesis using I(7) by metis
    qed
    ultimately have "in_state SKB_FLAG_SACKED [n'] = (A \<union> U) \<inter> {a ..< a'}" by auto
    moreover have "b0 \<le> a" using tiles_le [OF I(1)] .
    ultimately show ?thesis unfolding p(6) I(5) using n'(2) by (simp add: in_range_split)
  qed
  have todo: "in_state SKB_FLAG_SACKED ns' = A \<inter> {a' ..}"
  proof -
    have i: "in_state SKB_FLAG_SACKED ins = in_state SKB_FLAG_SACKED [n] \<inter> {a' ..}" using V by (simp add: a'_def)
    have sub: "in_state SKB_FLAG_SACKED ns \<subseteq> {a' ..}" using in_state_range [OF I(4)] a' by force
    have c: "in_state SKB_FLAG_SACKED (n # ns) = in_state SKB_FLAG_SACKED [n] \<union> in_state SKB_FLAG_SACKED ns" by simp
    have "in_state SKB_FLAG_SACKED (ins @ ns) = in_state SKB_FLAG_SACKED [n] \<inter> {a' ..} \<union> in_state SKB_FLAG_SACKED ns"
      unfolding in_state_simps(3) i ..
    also have "\<dots> = in_state SKB_FLAG_SACKED (n # ns) \<inter> {a' ..}"
      unfolding c using sub by (simp only: Int_Un_distrib2 Int_absorb2)
    also have "\<dots> = A \<inter> {a ..} \<inter> {a' ..}" unfolding I(6) ..
    also have "\<dots> = A \<inter> {a' ..}" using n'(2) by auto
    finally show ?thesis unfolding x(6) .
  qed
  have "sunion (v_sacks v') \<inter> {a' ..} = sunion (v_sacks v) \<inter> {a' ..}" using V by (simp add: a'_def)
  also have "\<dots> = U \<inter> {a' ..}" using n'(2) by (intro Int_tail [OF I(7)]) simp
  finally have sk: "sunion (v_sacks v') \<inter> {a' ..} = U \<inter> {a' ..}" .
  have "v_sack_out v' = slen SKB_FLAG_SACKED ps' + slen SKB_FLAG_SACKED ns'"
    "v_fack_out v' = slen SKB_FLAG_LOST ps' + slen SKB_FLAG_LOST ns'"
    using V I(9,10) unfolding p(7) x(7,8) replaces_def by simp_all
  then have "trav_inv b0 a' e' fack dup A U ps' ns' v'"
    using p(4,5) x(1,3,4) done1 todo sk V unfolding trav_inv_def by blast
  moreover have "v_thorough v \<longrightarrow> v_thorough v'" using V by (simp add: replaces_def)
  ultimately show ?thesis using p(1) n'(2) x(2,5) unfolding ns'_def a'_def by blast
qed

lemma measure_less: "g \<le> M \<Longrightarrow> a < g \<Longrightarrow> L \<le> l + 2 \<Longrightarrow> nat (2 * (M - g)) + L < nat (2 * (M - a)) + (l + Suc 0)" for g M a :: int
proof -
  assume "g \<le> M" "a < g" "L \<le> l + 2"
  moreover from this have "nat (2 * (M - g) + 2) \<le> nat (2 * (M - a))" by (intro nat_mono) simp
  ultimately show ?thesis by (simp add: nat_add_distrib)
qed

text \<open>
  The pass ends: in every round the blocks done grow by a packet at least, up to the end of the
  board or \<open>fack\<close>.
\<close>

lemma traverse_ok:
  assumes "trav_inv b0 a e fack dup A U ps ns v" and "A \<subseteq> {b0 ..}" and "U \<subseteq> {.. fack}"
  shows "\<exists>ns' v' e'. traverse fack dup ps ns v = Some (ns', v') \<and> tiles b0 ns' e' \<and> fack < e'
    \<and> max e' (fack + 1) = max e (fack + 1) \<and> v_sack_out v' = slen SKB_FLAG_SACKED ns'
    \<and> v_fack_out v' = slen SKB_FLAG_LOST ns' \<and> retrx_ok (v_retrx v') ns'
    \<and> in_state SKB_FLAG_SACKED ns' = (A \<union> U) \<inter> {b0 ..} \<and> (v_thorough v \<longrightarrow> v_thorough v')
    \<and> (v_thorough v' \<longrightarrow> (v_retrx v' = None \<longrightarrow> slen SKB_FLAG_LOST ns' = 0)
        \<and> (\<forall>m \<in> set ns'. sb_flag m = SKB_FLAG_INFLIGHT \<longrightarrow> fack - (dup + 1) < sb_seq m))"
  using assms(1)
proof (induction "nat (2 * (max e (fack + 1) - a)) + length ns" arbitrary: a e ps ns v rule: less_induct)
  case less
  note I = less.prems [unfolded trav_inv_def]
  have ae: "a \<le> e" "b0 \<le> a" using I tiles_le by blast+
  show ?case
  proof (cases "ns = [] \<or> \<not> goes_on v")
    case True
    have r: "traverse fack dup ps ns v = Some (rev ps @ ns, v)"
      using True by (subst traverse.simps) (auto split: list.splits)
    have e: "fack < e" using I True by (auto simp: goes_on_def)
    have d: "done_ok (fack - (dup + 1)) ps (v_retrx v)" using I by blast
    have s: "in_state SKB_FLAG_SACKED (rev ps @ ns) = (A \<union> U) \<inter> {b0 ..}"
    proof -
      have "U \<inter> {a ..} = {}"
      proof (cases "ns = []")
        case True
        then have "fack < a" using I by blast
        then show ?thesis using assms(3) by force
      next
        case False
        then have "v_sacks v = []" using \<open>ns = [] \<or> \<not> goes_on v\<close> by (simp add: goes_on_def)
        then show ?thesis using I by simp
      qed
      moreover have "in_state SKB_FLAG_SACKED (rev ps @ ns) = (A \<union> U) \<inter> {b0 ..< a} \<union> A \<inter> {a ..}" using I by simp
      moreover have "{b0 ..} = {b0 ..< a} \<union> {a ..}" using ae(2) by auto
      ultimately show ?thesis by auto
    qed
    have rx: "retrx_ok (v_retrx v) (rev ps @ ns)" using d by (auto simp: done_ok_def retrx_ok_def)
    have l: "v_thorough v \<Longrightarrow> ns = []" using True by (auto simp: goes_on_def)
    have "slen SKB_FLAG_LOST ps = 0" if "v_retrx v = None"
      using d that by (induction ps) (auto simp: done_ok_def retrx_ok_def)
    then have "v_thorough v \<longrightarrow> (v_retrx v = None \<longrightarrow> slen SKB_FLAG_LOST (rev ps @ ns) = 0)
        \<and> (\<forall>m \<in> set (rev ps @ ns). sb_flag m = SKB_FLAG_INFLIGHT \<longrightarrow> fack - (dup + 1) < sb_seq m)"
      using d l by (auto simp: done_ok_def)
    then show ?thesis using r e s rx I
      by (intro exI [of _ "rev ps @ ns"] exI [of _ v] exI [of _ e]) (auto simp: tiles_append)
  next
    case False
    then obtain n ns0 where ns: "ns = n # ns0" by (cases ns) auto
    obtain n' ins v' where vis: "visit fack dup (length ps) n v = (n', ins, v')" by (metis prod_cases3)
    obtain ps' e' where st: "v_thorough v \<longrightarrow> v_thorough v'" "push_node n' ps v' = Some ps'" "a < GetEnd n' + 1" "max e' (fack + 1) = max e (fack + 1)"
      "length (extend_board fack (hd ps') (ins @ ns0)) \<le> length ns0 + 2"
      "trav_inv b0 (GetEnd n' + 1) e' fack dup A U ps' (extend_board fack (hd ps') (ins @ ns0)) v'"
      using trav_step [OF less.prems [unfolded ns] vis] by blast
    have "traverse fack dup ps ns v = traverse fack dup ps' (extend_board fack (hd ps') (ins @ ns0)) v'"
      using False vis st(2) by (subst traverse.simps) (simp add: ns)
    moreover have "nat (2 * (max e' (fack + 1) - (GetEnd n' + 1))) + length (extend_board fack (hd ps') (ins @ ns0))
        < nat (2 * (max e (fack + 1) - a)) + length ns"
    proof -
      have "GetEnd n' + 1 \<le> e'" using st(6) tiles_le unfolding trav_inv_def by blast
      then have "GetEnd n' + 1 \<le> max e (fack + 1)" unfolding st(4) [symmetric] by simp
      then show ?thesis unfolding st(4) ns list.size(4) using st(3,5) by (intro measure_less) simp_all
    qed
    ultimately have ih: "\<exists>ns1 v1 e1. traverse fack dup ps ns v = Some (ns1, v1) \<and> tiles b0 ns1 e1 \<and> fack < e1
      \<and> max e1 (fack + 1) = max e' (fack + 1) \<and> v_sack_out v1 = slen SKB_FLAG_SACKED ns1
      \<and> v_fack_out v1 = slen SKB_FLAG_LOST ns1 \<and> retrx_ok (v_retrx v1) ns1
      \<and> in_state SKB_FLAG_SACKED ns1 = (A \<union> U) \<inter> {b0 ..} \<and> (v_thorough v' \<longrightarrow> v_thorough v1)
      \<and> (v_thorough v1 \<longrightarrow> (v_retrx v1 = None \<longrightarrow> slen SKB_FLAG_LOST ns1 = 0)
        \<and> (\<forall>m \<in> set ns1. sb_flag m = SKB_FLAG_INFLIGHT \<longrightarrow> fack - (dup + 1) < sb_seq m))"
      by (metis less.hyps [OF _ st(6)])
    have th: "v_thorough v \<longrightarrow> v_thorough w" if "v_thorough v' \<longrightarrow> v_thorough w" for w :: sb_vars using st(1) that by blast
    show ?thesis using ih th unfolding st(4) by (elim exE) (intro exI conjI, blast+)
  qed
qed

section \<open>The update\<close>

lemma insert_sack_set: "set (insert_sack s xs) = insert s (set xs)"
  by (induction xs) auto

lemma insert_sack_sorted: "sorted_wrt (\<lambda>x y. fst y \<le> fst x) xs \<Longrightarrow> sorted_wrt (\<lambda>x y. fst y \<le> fst x) (insert_sack s xs)"
  by (induction xs) (auto simp: insert_sack_set)

lemma sort_sacks_ok:
  "set (sort_sacks ack ss) = {s \<in> set ss. ack \<le> fst s}" "sorted (map fst (sort_sacks ack ss))"
proof -
  let ?f = "\<lambda>s acc. if ack \<le> fst s then insert_sack s acc else acc"
  have 1: "set (fold ?f ss acc) = {s \<in> set ss. ack \<le> fst s} \<union> set acc" for acc
    by (induction ss arbitrary: acc) (auto simp: insert_sack_set)
  have 2: "sorted_wrt (\<lambda>x y. fst y \<le> fst x) (fold ?f ss acc)" if "sorted_wrt (\<lambda>x y. fst y \<le> fst x) acc" for acc
    using that by (induction ss arbitrary: acc) (auto simp: insert_sack_sorted)
  show "set (sort_sacks ack ss) = {s \<in> set ss. ack \<le> fst s}" by (simp add: sort_sacks_def 1)
  have "sorted_wrt (\<lambda>x y. fst x \<le> fst y) (sort_sacks ack ss)"
    using 2 [of "[]"] by (simp add: sort_sacks_def sorted_wrt_rev)
  then show "sorted (map fst (sort_sacks ack ss))" by (simp add: sorted_map)
qed

text \<open>
  The SACK blocks of a sane receiver: at most as many as fit, none nested; those that are not stale
  report something beyond the packet after the acknowledgment (the first packets are 0 and 1).
\<close>

definition sacks_ok :: "int \<Rightarrow> (int \<times> int) list \<Rightarrow> bool" where
  "sacks_ok ack ss \<longleftrightarrow> length ss \<le> NSA + 1 \<and> (\<forall>s \<in> set ss. ack \<le> fst s \<longrightarrow> max (ack + 1) 1 < snd s)
     \<and> (\<forall>x \<in> set ss. \<forall>y \<in> set ss. fst x \<le> fst y \<longrightarrow> snd x \<le> snd y)"

definition fresh_sacks :: "int \<Rightarrow> (int \<times> int) list \<Rightarrow> int set" where
  "fresh_sacks ack ss = sunion (filter (\<lambda>s. ack \<le> fst s) ss)"

lemma last_sack:
  assumes "sacks_ok ack ss" and "x \<in> set (sort_sacks ack ss)"
  shows "snd x \<le> snd (last (sort_sacks ack ss))"
proof -
  let ?t = "sort_sacks ack ss"
  have ne: "?t \<noteq> []" using assms(2) by auto
  then have l: "last ?t \<in> set ?t" by simp
  obtain i where i: "i < length ?t" "x = ?t ! i" using assms(2) by (auto simp: in_set_conv_nth)
  have "map fst ?t ! i \<le> map fst ?t ! (length ?t - 1)"
    using i ne by (intro sorted_nth_mono [OF sort_sacks_ok(2)]) auto
  then have "fst x \<le> fst (last ?t)" using i ne by (simp add: last_conv_nth)
  then show ?thesis using assms l unfolding sacks_ok_def sort_sacks_ok(1) by blast
qed

lemma update_ok:
  assumes "board_ok a e b" and "a \<le> ack + 1" and "sacks_ok ack ss"
  shows "\<exists>flag b' e'. UpdateScoreBoard ack ss dup b = Some (flag, b') \<and> board_ok (ack + 1) e' b'
    \<and> (\<forall>N. e \<le> N \<longrightarrow> ack + 1 \<le> N \<longrightarrow> (\<forall>s \<in> set ss. snd s \<le> N) \<longrightarrow> e' \<le> N)
    \<and> in_state SKB_FLAG_SACKED (sb_head b') = (in_state SKB_FLAG_SACKED (sb_head b) \<union> fresh_sacks ack ss) \<inter> {ack + 1 ..}
    \<and> (sb_fack b' \<noteq> sb_fack b \<longrightarrow> (sb_retrx b' = None \<longrightarrow> sb_fack_out b' = 0)
        \<and> in_state SKB_FLAG_INFLIGHT (sb_head b') \<inter> {.. sb_fack b' - (dup + 1)} = {})"
proof -
  have B: "tiles a (sb_head b) e" "if sb_head b = [] then sb_fack b \<le> 0 else sb_fack b < e"
    "sb_sack_out b = slen SKB_FLAG_SACKED (sb_head b)" "sb_fack_out b = slen SKB_FLAG_LOST (sb_head b)"
    "retrx_ok (sb_retrx b) (sb_head b)" "sb_head b \<noteq> [] \<Longrightarrow> sb_fack b < e"
    using assms(1) by (auto simp: board_ok_def)
  define A where "A = in_state SKB_FLAG_SACKED (sb_head b) \<inter> {ack + 1 ..}"
  define U where "U = fresh_sacks ack ss"
  obtain h b1 flag ch where c: "CleanRtxQueue ack (sb_head b) b 0 False = Some (h, b1, flag, ch)"
    "tiles (if h = [] then e else ack + 1) h e" "sb_sack_out b1 = slen SKB_FLAG_SACKED h" "sb_fack_out b1 = slen SKB_FLAG_LOST h"
    "retrx_ok (sb_retrx b1) h" "sb_fack b1 = sb_fack b" "in_state SKB_FLAG_SACKED h = A" "h = [] \<longrightarrow> e \<le> ack + 1"
    using clean_ok [OF B(1,3,4,5) assms(2), of 0 False] unfolding A_def by blast
  define th where "th \<longleftrightarrow> h \<noteq> [] \<and> ch"
  define b2 where "b2 = (if h = [] then ClearScoreBoard (b1\<lparr>sb_head := h\<rparr>) else b1\<lparr>sb_head := h\<rparr>)"
  define e2 where "e2 = (if h = [] then ack + 1 else e)"
  have hb: "sb_head b = [] \<Longrightarrow> h = []" using c(1) by auto
  have b2: "sb_head b2 = h" "board_ok (ack + 1) e2 b2" "h \<noteq> [] \<longrightarrow> sb_fack b2 = sb_fack b" "h = [] \<longrightarrow> sb_fack b2 = 0"
    using c B(6) hb by (auto simp: b2_def e2_def board_ok_def ClearScoreBoard_def retrx_ok_def)
  have len: "\<not> NSA + 1 < length ss" using assms(3) by (simp add: sacks_ok_def)
  have upd: "UpdateScoreBoard ack ss dup b = (let sk = sort_sacks ack ss in
      if \<not> th \<and> ss = [] \<or> \<not> th \<and> sk = [] then Some (flag, b2)
      else let adv = sk \<noteq> [] \<and> sb_fack b2 < snd (last sk) - 1;
               fack = (if adv then snd (last sk) - 1 else sb_fack b2);
               h = (if sb_head b2 = [] then [new_node (ack + 1) fack SKB_FLAG_INFLIGHT] else sb_head b2)
           in map_option (\<lambda>(ns, v). (v_flag v, b2\<lparr>sb_head := ns, sb_fack := fack, sb_retrx := v_retrx v,
                 sb_acked_rtx := v_acked v, sb_fack_out := v_fack_out v, sb_sack_out := v_sack_out v\<rparr>))
               (traverse fack dup [] h
                 \<lparr>v_sacks = sk, v_thorough = th \<or> adv, v_acked = sb_acked_rtx b2, v_fack_out = sb_fack_out b2,
                  v_sack_out = sb_sack_out b2, v_flag = flag, v_retrx = None\<rparr>))"
    using c(1) len by (auto simp: UpdateScoreBoard_def Let_def th_def b2_def)
  define sk where "sk = sort_sacks ack ss"
  have Usk: "sunion sk = U" by (auto simp: U_def fresh_sacks_def sunion_def sk_def sort_sacks_ok)
  show ?thesis
  proof (cases "\<not> th \<and> ss = [] \<or> \<not> th \<and> sk = []")
    case True
    then have "sk = []" by (auto simp: sk_def sort_sacks_def)
    then have "U = {}" using Usk by simp
    moreover have "UpdateScoreBoard ack ss dup b = Some (flag, b2)" using True unfolding upd sk_def [symmetric] Let_def by simp
    moreover have "sb_fack b2 \<noteq> sb_fack b \<longrightarrow> h = []" using b2(3) by auto
    moreover have "sb_fack_out b2 = slen SKB_FLAG_LOST h" using b2(1,2) by (simp add: board_ok_def)
    moreover have "in_state SKB_FLAG_SACKED (sb_head b2) = (in_state SKB_FLAG_SACKED (sb_head b) \<union> {}) \<inter> {ack + 1 ..}"
      using c(7) b2(1) by (simp add: A_def)
    moreover have "in_state fl [] = {}" for fl by simp
    moreover have "e2 \<le> N" if "e \<le> N" "ack + 1 \<le> N" for N using that by (simp add: e2_def)
    ultimately show ?thesis using b2(1,2) unfolding U_def by (intro exI [of _ flag] exI [of _ b2] exI [of _ e2] conjI impI allI) simp_all
  next
    case False
    define adv where "adv \<longleftrightarrow> sk \<noteq> [] \<and> sb_fack b2 < snd (last sk) - 1"
    define fack where "fack = (if adv then snd (last sk) - 1 else sb_fack b2)"
    define h2 where "h2 = (if sb_head b2 = [] then [new_node (ack + 1) fack SKB_FLAG_INFLIGHT] else sb_head b2)"
    define e3 where "e3 = (if h = [] then fack + 1 else e)"
    define v where "v = \<lparr>v_sacks = sk, v_thorough = th \<or> adv, v_acked = sb_acked_rtx b2, v_fack_out = sb_fack_out b2,
        v_sack_out = sb_sack_out b2, v_flag = flag, v_retrx = None\<rparr>"
    have skne: "h = [] \<Longrightarrow> sk \<noteq> []" using False by (auto simp: th_def)
    have lst: "sk \<noteq> [] \<Longrightarrow> max (ack + 1) 1 < snd (last sk) \<and> last sk \<in> set ss \<and> snd (last sk) - 1 \<le> fack"
    proof -
      assume ne: "sk \<noteq> []"
      then have "last sk \<in> {s \<in> set ss. ack \<le> fst s}" unfolding sk_def sort_sacks_ok(1) [symmetric] by simp
      moreover have "snd (last sk) - 1 \<le> fack" using ne by (auto simp: fack_def adv_def)
      ultimately show ?thesis using assms(3) by (auto simp: sacks_ok_def)
    qed
    have UF: "U \<subseteq> {.. fack}"
    proof
      fix x assume "x \<in> U"
      then obtain s where "s \<in> set sk" "x < snd s" unfolding Usk [symmetric] by (auto simp: sunion_def)
      then have "sk \<noteq> []" "snd s \<le> snd (last sk)" "x < snd s" using last_sack [OF assms(3)] by (auto simp: sk_def)
      then have "x < snd (last sk)" "sk \<noteq> []" by simp_all
      then show "x \<in> {.. fack}" using lst by simp
    qed
    have t2: "tiles (ack + 1) h2 e3" "h2 \<noteq> []"
      using c(2) b2(1) lst skne by (auto simp: h2_def e3_def new_node_def GetEnd_def)
    have adv: "h = [] \<Longrightarrow> adv" using lst skne b2(4) by (auto simp: adv_def)
    have thor: "v_thorough v \<or> fack < e3"
    proof (cases "h = []")
      case True
      then show ?thesis by (simp add: e3_def)
    next
      case h: False
      then have "sb_head b \<noteq> []" using hb by blast
      then show ?thesis using B(6) b2(3) h by (auto simp: v_def fack_def e3_def)
    qed
    have h2s: "in_state SKB_FLAG_SACKED h2 = A" "slen SKB_FLAG_SACKED h2 = sb_sack_out b2" "slen SKB_FLAG_LOST h2 = sb_fack_out b2"
      using c(7) b2(1,2) by (auto simp: h2_def new_node_def board_ok_def)
    have A1: "A \<subseteq> {ack + 1 ..}" by (auto simp: A_def)
    have inv: "trav_inv (ack + 1) (ack + 1) e3 fack dup A U [] h2 v"
      unfolding trav_inv_def using t2 thor h2s A1 sort_sacks_ok(2) [of ack ss] Usk
      by (auto simp: v_def done_ok_def retrx_ok_def sk_def simp flip: U_def)
    obtain ns' v' e' where r: "traverse fack dup [] h2 v = Some (ns', v')" "tiles (ack + 1) ns' e'" "fack < e'"
      "max e' (fack + 1) = max e3 (fack + 1)" "v_sack_out v' = slen SKB_FLAG_SACKED ns'"
      "v_fack_out v' = slen SKB_FLAG_LOST ns'" "retrx_ok (v_retrx v') ns'"
      "in_state SKB_FLAG_SACKED ns' = (A \<union> U) \<inter> {ack + 1 ..}" "v_thorough v \<longrightarrow> v_thorough v'"
      "v_thorough v' \<longrightarrow> (v_retrx v' = None \<longrightarrow> slen SKB_FLAG_LOST ns' = 0)
        \<and> (\<forall>m \<in> set ns'. sb_flag m = SKB_FLAG_INFLIGHT \<longrightarrow> fack - (dup + 1) < sb_seq m)"
      using traverse_ok [OF inv A1 UF] by (elim exE conjE) (rule that)
    define b' where "b' = b2\<lparr>sb_head := ns', sb_fack := fack, sb_retrx := v_retrx v', sb_acked_rtx := v_acked v',
        sb_fack_out := v_fack_out v', sb_sack_out := v_sack_out v'\<rparr>"
    have b': "sb_head b' = ns'" "sb_fack b' = fack" "sb_retrx b' = v_retrx v'" "sb_fack_out b' = v_fack_out v'"
      "sb_sack_out b' = v_sack_out v'" by (simp_all add: b'_def)
    have u: "UpdateScoreBoard ack ss dup b = Some (v_flag v', b')"
      unfolding upd sk_def [symmetric] Let_def if_not_P [OF False] adv_def [symmetric] fack_def [symmetric]
        h2_def [symmetric] v_def [symmetric] r(1) b'_def by simp
    have "ns' \<noteq> []"
    proof
      assume "ns' = []"
      then have "e' = ack + 1" using r(2) by simp
      then show False using r(3,4) tiles_less [OF t2] by simp
    qed
    then have ok: "board_ok (ack + 1) e' b'" using r(2,3,5,6,7) b' by (simp add: board_ok_def)
    have bound: "e' \<le> N" if N: "e \<le> N" "ack + 1 \<le> N" "\<forall>s \<in> set ss. snd s \<le> N" for N
    proof -
      have "fack + 1 \<le> N"
      proof (cases adv)
        case True
        then have "sk \<noteq> []" by (simp add: adv_def)
        then show ?thesis using lst N(3) True by (auto simp: fack_def)
      next
        case False
        then have "h \<noteq> []" using adv by blast
        then have "fack < e" using False b2(3) B(6) hb by (auto simp: fack_def)
        then show ?thesis using N(1) by simp
      qed
      moreover from this have "e3 \<le> N" using N(1) by (simp add: e3_def)
      ultimately have "max e' (fack + 1) \<le> N" unfolding r(4) by simp
      then show ?thesis by simp
    qed
    have S: "in_state SKB_FLAG_SACKED (sb_head b') = (in_state SKB_FLAG_SACKED (sb_head b) \<union> fresh_sacks ack ss) \<inter> {ack + 1 ..}"
      unfolding b' r(8) by (auto simp: A_def U_def)
    have "fack \<noteq> sb_fack b \<Longrightarrow> v_thorough v'"
      using adv b2(3) r(9) by (cases adv; cases "h = []") (auto simp: fack_def v_def)
    then have t: "fack \<noteq> sb_fack b \<Longrightarrow> (v_retrx v' = None \<longrightarrow> v_fack_out v' = 0)
        \<and> (\<forall>m \<in> set ns'. sb_flag m = SKB_FLAG_INFLIGHT \<longrightarrow> fack - (dup + 1) < sb_seq m)"
      using r(6,10) by simp
    have none: "in_state SKB_FLAG_INFLIGHT ns' \<inter> {.. t} = {}"
      if "\<forall>m \<in> set ns'. sb_flag m = SKB_FLAG_INFLIGHT \<longrightarrow> t < sb_seq m" for t
      using that by (force simp: in_state_def)
    have F: "sb_fack b' \<noteq> sb_fack b \<longrightarrow> (sb_retrx b' = None \<longrightarrow> sb_fack_out b' = 0)
        \<and> in_state SKB_FLAG_INFLIGHT (sb_head b') \<inter> {.. sb_fack b' - (dup + 1)} = {}"
      unfolding b' using t none by blast
    show ?thesis using bound
      by (intro exI [of _ "v_flag v'"] exI [of _ b'] exI [of _ e'] conjI u ok S F) simp
  qed
qed


end
