(* ===== verification/Scoreboard_Loss.thy ===== *)
theory Scoreboard_Loss
  imports Scoreboard
begin

section \<open>Timeout and retransmission\<close>

lemma tiles_cover: "tiles a ns e \<Longrightarrow> (\<Union>n \<in> set ns. {sb_seq n .. GetEnd n}) = {a ..< e}"
proof (induction ns arbitrary: a)
  case (Cons n ns)
  then have t: "sb_seq n = a" "a \<le> GetEnd n" "tiles (GetEnd n + 1) ns e" by auto
  have "{a .. GetEnd n} \<union> {GetEnd n + 1 ..< e} = {a ..< e}" using t(2) tiles_le [OF t(3)] by auto
  then show ?case using Cons.IH [OF t(3)] t(1) by simp
qed simp

lemma in_state_disjoint: "tiles a ns e \<Longrightarrow> fl \<noteq> fl' \<Longrightarrow> in_state fl ns \<inter> in_state fl' ns = {}"
proof (induction ns arbitrary: a)
  case (Cons n ns)
  then have t: "sb_seq n = a" "tiles (GetEnd n + 1) ns e" by auto
  have "{sb_seq n .. GetEnd n} \<inter> in_state f ns = {}" for f using in_state_range [OF t(2), of f] by force
  then show ?case using Cons.IH [OF t(2) Cons.prems(2)] Cons.prems(2) by (auto split: if_splits)
qed simp

lemma in_state_two:
  assumes "tiles a ns e" and "fl \<noteq> fl'" and "\<forall>n \<in> set ns. sb_flag n = fl \<or> sb_flag n = fl'"
  shows "in_state fl ns = {a ..< e} - in_state fl' ns" and "slen fl ns + slen fl' ns = e - a"
proof -
  have "in_state fl ns \<union> in_state fl' ns = {a ..< e}"
    unfolding tiles_cover [OF assms(1), symmetric] using assms(3) by (auto simp: in_state_def)
  then show "in_state fl ns = {a ..< e} - in_state fl' ns" using in_state_disjoint [OF assms(1,2)] by auto
  show "slen fl ns + slen fl' ns = e - a"
    using assms by (induction ns arbitrary: a) (force simp: GetLength_end)+
qed

text \<open>The walk keeps: the blocks done are acknowledged or lost, and the pointer is at the first lost one.\<close>

definition walk_ok :: "int \<Rightarrow> int \<Rightarrow> sb_node list \<Rightarrow> bool \<Rightarrow> nat option \<Rightarrow> bool" where
  "walk_ok a c ps ll nx \<longleftrightarrow> tiles a (rev ps) c
     \<and> (\<forall>m \<in> set ps. sb_flag m = SKB_FLAG_LOST \<or> sb_flag m = SKB_FLAG_SACKED)
     \<and> (ll \<longleftrightarrow> ps \<noteq> [] \<and> sb_flag (hd ps) = SKB_FLAG_LOST) \<and> done_ok 0 ps nx"

lemma walk_lost:
  assumes "walk_ok a c ps ll nx" and "sb_seq n = c" and "c \<le> GetEnd n" and "sb_flag n = SKB_FLAG_LOST"
  shows "\<exists>ps' nx'. loss_walk ps ll (n # ns) (fo, nx) = loss_walk ps' True ns (fo, nx')
    \<and> walk_ok a (GetEnd n + 1) ps' True nx' \<and> (\<forall>fl. in_state fl ps' = in_state fl ps \<union> in_state fl [n])
    \<and> (\<forall>fl. slen fl ps' = slen fl ps + slen fl [n])"
proof -
  define nx' where "nx' = (if nx = None then Some (length ps) else nx)"
  define v where "v = \<lparr>v_sacks = [], v_thorough = False, v_acked = 0, v_fack_out = 0, v_sack_out = 0, v_flag = 0, v_retrx = nx'\<rparr>"
  have W: "tiles a (rev ps) c" "done_ok 0 ps nx" "\<forall>m \<in> set ps. sb_flag m = SKB_FLAG_LOST \<or> sb_flag m = SKB_FLAG_SACKED"
    "ll \<longleftrightarrow> ps \<noteq> [] \<and> sb_flag (hd ps) = SKB_FLAG_LOST"
    using assms(1) by (auto simp: walk_ok_def)
  have rv: "v_retrx v = (if sb_flag n = SKB_FLAG_LOST \<and> nx = None then Some (length ps) else nx)"
    using assms(4) by (simp add: v_def nx'_def)
  obtain ps' where p: "push_node n ps v = Some ps'" "ps' \<noteq> []" "tiles a (rev ps') (GetEnd n + 1)" "done_ok 0 ps' (v_retrx v)"
    "\<forall>fl. in_state fl ps' = in_state fl ps \<union> in_state fl [n]" "\<forall>fl. slen fl ps' = slen fl ps + slen fl [n]"
    using push_ok [OF W(1) assms(2,3) W(2) _ rv] assms(4) by auto
  have fl: "SetFlag SKB_FLAG_LOST n = n" using assms(4) by (simp add: SetFlag_def)
  have q: "sb_flag (hd ps') = SKB_FLAG_LOST" "\<forall>m \<in> set ps'. sb_flag m = SKB_FLAG_LOST \<or> sb_flag m = SKB_FLAG_SACKED"
    using p(1) W(3) assms(4)
    by (auto simp: push_node_def Mergable_def Merge_def split: list.splits if_splits)
  have "loss_walk ps ll (n # ns) (fo, nx) = loss_walk ps' True ns (fo, nx')"
  proof (cases ll)
    case True
    then obtain p' qs where ps: "ps = p' # qs" "sb_flag p' = SKB_FLAG_LOST" using W(4) by (cases ps) auto
    then have "\<exists>y. nx = Some y" using W(2) by (auto simp: done_ok_def)
    moreover have "ps' = Merge p' n # qs" using p(1) ps assms(4) by (auto simp: push_node_def Mergable_def split: if_splits)
    ultimately show ?thesis using True ps assms(4) fl by (auto simp: nx'_def)
  next
    case False
    then have "ps' = n # ps" using p(1) W(4) assms(4) by (cases ps) (auto simp: push_node_def Mergable_def)
    then show ?thesis using False assms(4) fl by (cases ps) (simp_all add: nx'_def)
  qed
  moreover have "walk_ok a (GetEnd n + 1) ps' True nx'" using p q unfolding walk_ok_def by (simp add: v_def)
  ultimately show ?thesis using p(5,6) by blast
qed

lemma SetFlag_lost: "SetFlag SKB_FLAG_LOST (SetFlag SKB_FLAG_LOST n) = SetFlag SKB_FLAG_LOST n"
  by (simp add: SetFlag_def)

lemma loss_walk_ok:
  assumes "walk_ok a c ps ll nx" and "tiles c ns e"
    and "loss_walk ps ll ns (slen SKB_FLAG_LOST ps + slen SKB_FLAG_LOST ns, nx) = (ps', ll', fo', nx')"
  shows "walk_ok a e ps' ll' nx' \<and> fo' = slen SKB_FLAG_LOST ps'
    \<and> in_state SKB_FLAG_SACKED ps' = in_state SKB_FLAG_SACKED ps \<union> in_state SKB_FLAG_SACKED ns
    \<and> slen SKB_FLAG_SACKED ps' = slen SKB_FLAG_SACKED ps + slen SKB_FLAG_SACKED ns
    \<and> (ps' = [] \<longleftrightarrow> ps = [] \<and> ns = [])"
  using assms
proof (induction ns arbitrary: c ps ll nx)
  case (Cons n ns)
  have t: "sb_seq n = c" "c \<le> GetEnd n" "tiles (GetEnd n + 1) ns e" using Cons.prems(2) by auto
  show ?case
  proof (cases "sb_flag n = SKB_FLAG_SACKED")
    case True
    have w: "walk_ok a (GetEnd n + 1) (n # ps) False nx"
      using Cons.prems(1) t True by (auto simp: walk_ok_def tiles_append done_ok_def retrx_ok_def)
    show ?thesis using Cons.IH [OF w t(3)] Cons.prems(3) True by (simp add: Un_ac)
  next
    case False
    define m where "m = SetFlag SKB_FLAG_LOST n"
    have m: "sb_flag m = SKB_FLAG_LOST" "sb_seq m = c" "c \<le> GetEnd m" "GetEnd m = GetEnd n" using t by (simp_all add: m_def)
    define fo where "fo = slen SKB_FLAG_LOST ps + slen SKB_FLAG_LOST (m # ns)"
    define F where "F = slen SKB_FLAG_LOST ps + slen SKB_FLAG_LOST (n # ns)"
    have fo: "(if sb_flag n \<noteq> SKB_FLAG_LOST then F + (GetEnd n - sb_seq n + 1) else F) = fo"
      using m t(1) by (simp add: F_def fo_def GetLength_end)
    have "SetFlag SKB_FLAG_LOST m = m" unfolding m_def by (rule SetFlag_lost)
    then have "loss_walk ps ll (n # ns) (F, nx) = loss_walk ps ll (m # ns) (fo, nx)"
      using False m(1) fo by (cases "sb_flag n = SKB_FLAG_LOST") (simp_all add: Let_def flip: m_def)
    moreover obtain ps1 nx1 where 1: "loss_walk ps ll (m # ns) (fo, nx) = loss_walk ps1 True ns (fo, nx1)"
      "walk_ok a (GetEnd m + 1) ps1 True nx1" "\<forall>fl. in_state fl ps1 = in_state fl ps \<union> in_state fl [m]"
      "\<forall>fl. slen fl ps1 = slen fl ps + slen fl [m]"
      using walk_lost [OF Cons.prems(1) m(2,3,1)] by blast
    moreover have "fo = slen SKB_FLAG_LOST ps1 + slen SKB_FLAG_LOST ns" using 1(4) by (simp add: fo_def)
    ultimately have "loss_walk ps1 True ns (slen SKB_FLAG_LOST ps1 + slen SKB_FLAG_LOST ns, nx1) = (ps', ll', fo', nx')"
      using Cons.prems(3) by (simp add: F_def)
    note ih = Cons.IH [OF 1(2) t(3) [folded m(4)] this]
    have "ps1 \<noteq> []" using 1(2) by (simp add: walk_ok_def)
    then show ?thesis using ih 1(3,4) m(1) False by simp
  qed
qed (auto simp: walk_ok_def)

lemma slen_zero: "\<forall>n \<in> set ns. sb_flag n \<noteq> fl \<Longrightarrow> slen fl ns = 0"
  by (induction ns) auto

lemma retrx_ok_rev_done: "done_ok t ps r \<Longrightarrow> retrx_ok r (rev ps)"
  by (simp add: done_ok_def)

text \<open>After a timeout every packet not selectively acknowledged counts as lost, and none as in flight.\<close>

lemma MarkLoss_ok:
  assumes "board_ok una e b" and "0 \<le> una" and "una \<le> nxt" and "e \<le> nxt"
  shows "board_ok una nxt (MarkLoss una nxt b)"
    and "in_state SKB_FLAG_SACKED (sb_head (MarkLoss una nxt b)) = in_state SKB_FLAG_SACKED (sb_head b)"
    and "in_state SKB_FLAG_LOST (sb_head (MarkLoss una nxt b)) = {una ..< nxt} - in_state SKB_FLAG_SACKED (sb_head b)"
    and "packets_in_flight una nxt (MarkLoss una nxt b) = 0"
    and "sb_retrx (MarkLoss una nxt b) = None \<longrightarrow> sb_fack_out (MarkLoss una nxt b) = 0"
proof -
  define b' where "b' = MarkLoss una nxt b"
  have B: "tiles una (sb_head b) e" "if sb_head b = [] then sb_fack b \<le> 0 else sb_fack b < e"
    "sb_sack_out b = slen SKB_FLAG_SACKED (sb_head b)" "sb_fack_out b = slen SKB_FLAG_LOST (sb_head b)"
    using assms(1) by (auto simp: board_ok_def)
  have init: "walk_ok una una [] False None" by (simp add: walk_ok_def done_ok_def retrx_ok_def)
  have F: "board_ok una nxt b' \<and> in_state SKB_FLAG_SACKED (sb_head b') = in_state SKB_FLAG_SACKED (sb_head b)
    \<and> (\<forall>n \<in> set (sb_head b'). sb_flag n = SKB_FLAG_LOST \<or> sb_flag n = SKB_FLAG_SACKED)
    \<and> (sb_retrx b' = None \<longrightarrow> sb_fack_out b' = 0)"
  proof (cases "sb_head b = []")
    case True
    then have "b' = (if una < nxt
         then b\<lparr>sb_head := [new_node una (nxt - 1) SKB_FLAG_LOST], sb_retrx := Some 0, sb_fack_out := nxt - una, sb_rtx := 0, sb_acked_rtx := -1\<rparr>
         else b\<lparr>sb_head := [], sb_retrx := None, sb_fack_out := 0, sb_rtx := 0, sb_acked_rtx := -1\<rparr>)"
      using B(4) by (simp add: b'_def MarkLoss_def)
    then show ?thesis using True B assms(2,3)
      by (auto simp: board_ok_def retrx_ok_def new_node_def GetEnd_def GetLength_def)
  next
    case False
    obtain ps ll fo nx where 1: "loss_walk [] False (sb_head b) (sb_fack_out b, None) = (ps, ll, fo, nx)" by (metis prod_cases4)
    note w1 = loss_walk_ok [OF init B(1), of ps ll fo nx]
    have w1: "walk_ok una e ps ll nx" "fo = slen SKB_FLAG_LOST ps" "in_state SKB_FLAG_SACKED ps = in_state SKB_FLAG_SACKED (sb_head b)"
      "slen SKB_FLAG_SACKED ps = slen SKB_FLAG_SACKED (sb_head b)" "ps \<noteq> []"
      using w1 1 B(4) False by simp_all
    define k where "k = (if e < nxt then [new_node e (nxt - 1) SKB_FLAG_INFLIGHT] else [])"
    have tk: "tiles e k nxt" "slen fl k = 0" if "fl \<noteq> SKB_FLAG_INFLIGHT" for fl
      using assms(4) that by (auto simp: k_def new_node_def GetEnd_def)
    have ik: "in_state SKB_FLAG_SACKED k = {}" by (simp add: k_def new_node_def)
    obtain ps2 ll2 fo2 nx2 where 2: "loss_walk ps ll k (fo, nx) = (ps2, ll2, fo2, nx2)" by (metis prod_cases4)
    have "loss_walk ps ll k (slen SKB_FLAG_LOST ps + slen SKB_FLAG_LOST k, nx) = (ps2, ll2, fo2, nx2)"
      using 2 w1(2) tk(2) [of SKB_FLAG_LOST] by simp
    note w2 = loss_walk_ok [OF w1(1) tk(1) this, of SKB_FLAG_LOST]
    have e: "GetEnd (hd ps) + 1 = e" using tiles_last [of una "rev ps" e] w1(1,5) by (simp add: walk_ok_def last_rev)
    have b': "b' = b\<lparr>sb_head := rev ps2, sb_retrx := nx2, sb_fack_out := fo2, sb_rtx := 0, sb_acked_rtx := -1\<rparr>"
      using 1 2 e w1(5) w2 by (auto simp: b'_def MarkLoss_def k_def Let_def split: if_splits)
    have "sb_fack b < nxt" using B(2) False assms(4) by simp
    moreover have "nx2 = None \<longrightarrow> slen SKB_FLAG_LOST ps2 = 0"
      using w2 unfolding walk_ok_def done_ok_def by (blast intro: slen_zero)
    ultimately show ?thesis
      using b' w1 w2 tk(2) [of SKB_FLAG_SACKED] ik B(3) retrx_ok_rev_done by (auto simp: board_ok_def walk_ok_def)
  qed
  then have t: "tiles una (sb_head b') nxt" by (simp add: board_ok_def)
  have "in_state SKB_FLAG_LOST (sb_head b') = {una ..< nxt} - in_state SKB_FLAG_SACKED (sb_head b')"
    "slen SKB_FLAG_LOST (sb_head b') + slen SKB_FLAG_SACKED (sb_head b') = nxt - una"
    using in_state_two [OF t, of SKB_FLAG_LOST SKB_FLAG_SACKED] F by auto
  moreover from F have "board_ok una nxt b'" "in_state SKB_FLAG_SACKED (sb_head b') = in_state SKB_FLAG_SACKED (sb_head b)"
    "sb_retrx b' = None \<longrightarrow> sb_fack_out b' = 0" by blast+
  moreover from this have "sb_fack_out b' = slen SKB_FLAG_LOST (sb_head b')" "sb_sack_out b' = slen SKB_FLAG_SACKED (sb_head b')"
    by (simp_all add: board_ok_def)
  ultimately show "board_ok una nxt (MarkLoss una nxt b)"
    "in_state SKB_FLAG_SACKED (sb_head (MarkLoss una nxt b)) = in_state SKB_FLAG_SACKED (sb_head b)"
    "in_state SKB_FLAG_LOST (sb_head (MarkLoss una nxt b)) = {una ..< nxt} - in_state SKB_FLAG_SACKED (sb_head b)"
    "packets_in_flight una nxt (MarkLoss una nxt b) = 0"
    "sb_retrx (MarkLoss una nxt b) = None \<longrightarrow> sb_fack_out (MarkLoss una nxt b) = 0"
    unfolding b'_def [symmetric] packets_in_flight_def by simp_all
qed

lemma next_lost_None: "next_lost i ns = None \<longleftrightarrow> (\<forall>n \<in> set ns. sb_flag n \<noteq> SKB_FLAG_LOST)"
  by (induction i ns rule: next_lost.induct) auto

lemma next_lost_Some:
  "next_lost i ns = Some j \<Longrightarrow> i \<le> j \<and> j - i < length ns \<and> sb_flag (ns ! (j - i)) = SKB_FLAG_LOST
    \<and> (\<forall>n \<in> set (take (j - i) ns). sb_flag n \<noteq> SKB_FLAG_LOST)"
proof (induction i ns rule: next_lost.induct)
  case (2 i n ns)
  show ?case
  proof (cases "sb_flag n = SKB_FLAG_LOST")
    case False
    then have "Suc i \<le> j \<and> j - Suc i < length ns \<and> sb_flag (ns ! (j - Suc i)) = SKB_FLAG_LOST
      \<and> (\<forall>n \<in> set (take (j - Suc i) ns). sb_flag n \<noteq> SKB_FLAG_LOST)" using 2 by simp
    moreover from this have "j - i = Suc (j - Suc i)" by linarith
    ultimately show ?thesis using False by simp
  qed (use 2 in simp)
qed simp

text \<open>A block of a board, with the blocks before and after it.\<close>

lemma tiles_at:
  assumes "tiles a ns e" and "i < length ns"
  shows "ns = take i ns @ ns ! i # drop (Suc i) ns" and "tiles a (take i ns) (sb_seq (ns ! i))"
    and "sb_seq (ns ! i) \<le> GetEnd (ns ! i)" and "tiles (GetEnd (ns ! i) + 1) (drop (Suc i) ns) e"
proof -
  show e: "ns = take i ns @ ns ! i # drop (Suc i) ns" using assms(2) by (rule id_take_nth_drop)
  have "tiles a (take i ns @ ns ! i # drop (Suc i) ns) e" using assms(1) e by metis
  then show "tiles a (take i ns) (sb_seq (ns ! i))" "sb_seq (ns ! i) \<le> GetEnd (ns ! i)"
    "tiles (GetEnd (ns ! i) + 1) (drop (Suc i) ns) e"
    by (auto simp: tiles_append)
qed

lemma in_state_none: "\<forall>n \<in> set ns. sb_flag n \<noteq> fl \<Longrightarrow> in_state fl ns = {}"
  by (auto simp: in_state_def)

lemma first_lost_Min:
  assumes "tiles a ns e" and "i < length ns" and "sb_flag (ns ! i) = SKB_FLAG_LOST"
    and "\<forall>n \<in> set (take i ns). sb_flag n \<noteq> SKB_FLAG_LOST"
  shows "Min (in_state SKB_FLAG_LOST ns) = sb_seq (ns ! i)" and "sb_seq (ns ! i) \<in> in_state SKB_FLAG_LOST ns"
proof -
  note t = tiles_at [OF assms(1,2)]
  define n where "n = ns ! i"
  have s: "in_state SKB_FLAG_LOST ns = {sb_seq n .. GetEnd n} \<union> in_state SKB_FLAG_LOST (drop (Suc i) ns)"
    by (subst t(1)) (use assms(3) in_state_none [OF assms(4)] in \<open>simp add: n_def\<close>)
  have r: "in_state SKB_FLAG_LOST (drop (Suc i) ns) \<subseteq> {GetEnd n + 1 ..< e}"
    unfolding n_def by (rule in_state_range [OF t(4)])
  then have "finite (in_state SKB_FLAG_LOST ns)" unfolding s by (simp add: finite_subset)
  moreover have m: "sb_seq n \<in> in_state SKB_FLAG_LOST ns" using s t(3) by (simp add: n_def)
  moreover have "\<forall>x \<in> in_state SKB_FLAG_LOST ns. sb_seq n \<le> x" using r t(3) unfolding s by (force simp: n_def)
  ultimately show "Min (in_state SKB_FLAG_LOST ns) = sb_seq (ns ! i)" "sb_seq (ns ! i) \<in> in_state SKB_FLAG_LOST ns"
    by (auto simp: n_def intro: Min_eqI)
qed

lemma GetNextRetran_ok:
  assumes "board_ok a e b" and "GetNextRetran b = (s, b')"
  shows "board_ok a e b'" and "b' = b\<lparr>sb_retrx := sb_retrx b'\<rparr>"
    and "sb_retrx b' = None \<Longrightarrow> s = -1 \<and> (sb_retrx b \<noteq> None \<longrightarrow> in_state SKB_FLAG_LOST (sb_head b) = {})"
    and "sb_retrx b' = Some i \<Longrightarrow> i < length (sb_head b) \<and> sb_flag (sb_head b ! i) = SKB_FLAG_LOST \<and> sb_seq (sb_head b ! i) = s
      \<and> s = Min (in_state SKB_FLAG_LOST (sb_head b)) \<and> s \<in> in_state SKB_FLAG_LOST (sb_head b)"
proof -
  define ns where "ns = sb_head b"
  define r where "r = (case sb_retrx b of None \<Rightarrow> None | Some i \<Rightarrow> next_lost i (drop i ns))"
  have b': "b' = b\<lparr>sb_retrx := r\<rparr>" and s: "s = (case r of None \<Rightarrow> -1 | Some i \<Rightarrow> sb_seq (ns ! i))"
    using assms(2) unfolding GetNextRetran_def Let_def r_def ns_def by simp_all
  have t: "tiles a ns e" and ok: "retrx_ok (sb_retrx b) ns" using assms(1) by (simp_all add: board_ok_def ns_def)
  have none: "s = -1 \<and> (sb_retrx b \<noteq> None \<longrightarrow> in_state SKB_FLAG_LOST ns = {})" if "r = None"
  proof -
    have "in_state SKB_FLAG_LOST ns = {}" if i: "sb_retrx b = Some i" for i
    proof -
      have "\<forall>n \<in> set (drop i ns). sb_flag n \<noteq> SKB_FLAG_LOST" using \<open>r = None\<close> i by (simp add: r_def next_lost_None)
      moreover have "\<forall>n \<in> set (take i ns). sb_flag n \<noteq> SKB_FLAG_LOST" using ok i by (simp add: retrx_ok_def)
      ultimately have "in_state SKB_FLAG_LOST (take i ns @ drop i ns) = {}" unfolding in_state_simps by (simp add: in_state_none)
      then show ?thesis by simp
    qed
    then show ?thesis using that s by auto
  qed
  have some: "i < length ns \<and> sb_flag (ns ! i) = SKB_FLAG_LOST \<and> (\<forall>n \<in> set (take i ns). sb_flag n \<noteq> SKB_FLAG_LOST)"
    if ri: "r = Some i" for i
  proof -
    obtain j where j: "sb_retrx b = Some j" "next_lost j (drop j ns) = Some i"
      using ri unfolding r_def by (cases "sb_retrx b") simp_all
    note n = next_lost_Some [OF j(2)]
    have "take i ns = take j ns @ take (i - j) (drop j ns)" using n take_add [of j "i - j" ns] by simp
    moreover have "\<forall>n \<in> set (take j ns). sb_flag n \<noteq> SKB_FLAG_LOST" using ok j(1) by (simp add: retrx_ok_def)
    ultimately show ?thesis using n by auto
  qed
  show "b' = b\<lparr>sb_retrx := sb_retrx b'\<rparr>" using b' by simp
  show "board_ok a e b'" using assms(1) b' some by (auto simp: board_ok_def retrx_ok_def simp flip: ns_def)
  show "sb_retrx b' = None \<Longrightarrow> s = -1 \<and> (sb_retrx b \<noteq> None \<longrightarrow> in_state SKB_FLAG_LOST (sb_head b) = {})"
    using none b' by (simp add: ns_def)
  show "sb_retrx b' = Some i \<Longrightarrow> i < length (sb_head b) \<and> sb_flag (sb_head b ! i) = SKB_FLAG_LOST \<and> sb_seq (sb_head b ! i) = s
      \<and> s = Min (in_state SKB_FLAG_LOST (sb_head b)) \<and> s \<in> in_state SKB_FLAG_LOST (sb_head b)"
    using some [of i] first_lost_Min [OF t, of i] s b' by (simp add: ns_def)
qed

text \<open>The first packet of a lost block becomes a retransmission, the rest stays lost.\<close>

lemma node_MarkRetran_ok:
  assumes "sb_flag n = SKB_FLAG_LOST" and "sb_seq n \<le> GetEnd n"
  shows "tiles (sb_seq n) (node_MarkRetran sn k n) (GetEnd n + 1)"
    and "slen SKB_FLAG_LOST (node_MarkRetran sn k n) = GetLength n - 1" and "slen SKB_FLAG_SACKED (node_MarkRetran sn k n) = 0"
    and "in_state SKB_FLAG_LOST (node_MarkRetran sn k n) = {sb_seq n .. GetEnd n} - {sb_seq n}"
    and "in_state SKB_FLAG_SACKED (node_MarkRetran sn k n) = {}"
    and "in_state SKB_FLAG_RETRANSMITTED (node_MarkRetran sn k n) = {sb_seq n}"
    and "node_MarkRetran sn k n \<noteq> []"
  using assms by (auto simp: node_MarkRetran_def Split_def new_node_def GetEnd_def GetLength_def)

lemma MarkRetran_ok:
  assumes "board_ok a e b" and "sb_retrx b = Some i" and "i < length (sb_head b)"
    and "sb_flag (sb_head b ! i) = SKB_FLAG_LOST" and "s = sb_seq (sb_head b ! i)"
  shows "\<exists>b'. MarkRetran s sn b = Some b' \<and> board_ok a e b' \<and> sb_fack_out b' = sb_fack_out b - 1
    \<and> sb_sack_out b' = sb_sack_out b \<and> sb_retrx b' = Some i
    \<and> in_state SKB_FLAG_SACKED (sb_head b') = in_state SKB_FLAG_SACKED (sb_head b)
    \<and> in_state SKB_FLAG_LOST (sb_head b') = in_state SKB_FLAG_LOST (sb_head b) - {s}
    \<and> in_state SKB_FLAG_RETRANSMITTED (sb_head b') = insert s (in_state SKB_FLAG_RETRANSMITTED (sb_head b))"
proof -
  define ns where "ns = sb_head b"
  define n where "n = ns ! i"
  define ms where "ms = node_MarkRetran sn (sb_rtx b) n"
  define b' where "b' = b\<lparr>sb_fack_out := sb_fack_out b - 1, sb_head := take i ns @ ms @ drop (Suc i) ns,
      sb_rtx := sb_rtx b + 1, sb_last_rtx := s\<rparr>"
  have B: "tiles a ns e" "sb_fack b < e" "sb_sack_out b = slen SKB_FLAG_SACKED ns" "sb_fack_out b = slen SKB_FLAG_LOST ns"
    "retrx_ok (Some i) ns"
    using assms(1-3) by (auto simp: board_ok_def ns_def split: if_splits)
  have i: "i < length ns" "sb_flag n = SKB_FLAG_LOST" "s = sb_seq n" using assms(3-5) by (simp_all add: ns_def n_def)
  note t = tiles_at [OF B(1) i(1), folded n_def]
  note m = node_MarkRetran_ok [OF i(2) t(3), of sn "sb_rtx b", folded ms_def]
  have sl: "slen fl ns = slen fl (take i ns) + (if sb_flag n = fl then GetLength n else 0) + slen fl (drop (Suc i) ns)" for fl
    by (subst t(1)) simp
  have st: "in_state fl ns = in_state fl (take i ns) \<union> (if sb_flag n = fl then {sb_seq n .. GetEnd n} else {}) \<union> in_state fl (drop (Suc i) ns)" for fl
    by (subst t(1)) (simp add: Un_assoc)
  have pos: "1 \<le> sb_fack_out b"
    using B(4) sl [of SKB_FLAG_LOST] i(2) slen_bounds(1) [OF t(2), of SKB_FLAG_LOST] slen_bounds(1) [OF t(4), of SKB_FLAG_LOST] t(3)
      GetLength_end [of n] by simp
  have "Inside s n" using i t(3) by (simp add: Inside_def GetEnd_def)
  then have r: "MarkRetran s sn b = Some b'"
    using assms(2) i(1) pos by (simp add: MarkRetran_def b'_def ms_def n_def flip: ns_def)
  have tl: "tiles a (sb_head b') e" using t(2,4) m(1) by (auto simp: b'_def tiles_append)
  have h: "sb_head b' = take i ns @ ms @ drop (Suc i) ns" by (simp add: b'_def)
  have "i < length (sb_head b')" using i(1) m(7) unfolding h by (cases ms) auto
  moreover have "take i (sb_head b') = take i ns" using i(1) by (simp add: h)
  ultimately have "retrx_ok (Some i) (sb_head b')" using B(5) by (simp add: retrx_ok_def)
  then have ok: "board_ok a e b'"
    using tl B m(2,3,7) sl [of SKB_FLAG_LOST] sl [of SKB_FLAG_SACKED] i(2) assms(2) unfolding board_ok_def h by (simp add: b'_def)
  have lost: "in_state SKB_FLAG_LOST (sb_head b') = in_state SKB_FLAG_LOST ns - {s}"
  proof -
    have "s \<notin> in_state SKB_FLAG_LOST (take i ns)" "s \<notin> in_state SKB_FLAG_LOST (drop (Suc i) ns)"
      using in_state_range [OF t(2), of SKB_FLAG_LOST] in_state_range [OF t(4), of SKB_FLAG_LOST] i(3) t(3) by force+
    then show ?thesis unfolding st h using m(4) i(2,3) by auto
  qed
  have sk: "in_state SKB_FLAG_SACKED (sb_head b') = in_state SKB_FLAG_SACKED ns"
    "in_state SKB_FLAG_RETRANSMITTED (sb_head b') = insert s (in_state SKB_FLAG_RETRANSMITTED ns)"
    unfolding st h using m(5,6) i(2,3) by auto
  show ?thesis unfolding ns_def [symmetric]
    using assms(2) by (intro exI [of _ b'] conjI r ok lost sk) (simp_all add: b'_def)
qed

section \<open>A pointer that is lost\<close>

text \<open>
  A pass that is not thorough stops one block behind the last SACK block. It has reset
  \<open>nxt_to_retrx_\<close>, so that the lost blocks beyond are not offered for retransmission until a later
  pass finds them: here packets 4 to 16 stay lost, and \<open>GetNextRetran\<close> returns -1.
\<close>

definition sample_board :: sboard where
  "sample_board = \<lparr>sb_head = [\<lparr>sb_flag = SKB_FLAG_RETRANSMITTED, sb_seq = 1, sb_nxt = 30, sb_retran = 5\<rparr>,
       new_node 2 2 SKB_FLAG_LOST, \<lparr>sb_flag = SKB_FLAG_RETRANSMITTED, sb_seq = 3, sb_nxt = 30, sb_retran = 6\<rparr>,
       new_node 4 16 SKB_FLAG_LOST, new_node 17 19 SKB_FLAG_INFLIGHT, new_node 20 20 SKB_FLAG_SACKED],
     sb_retrx = Some 1, sb_acked_rtx = -1, sb_rtx = 7, sb_fack = 20, sb_fack_out = 14, sb_sack_out = 1, sb_last_rtx = 3\<rparr>"

lemma sample_board_ok: "board_ok 1 21 sample_board"
  by (auto simp: board_ok_def sample_board_def new_node_def GetEnd_def GetLength_def retrx_ok_def take_Cons split: nat.splits)

lemma update_forgets_lost:
  "\<exists>flag b. UpdateScoreBoard 0 [(2, 3)] 3 sample_board = Some (flag, b) \<and> sb_fack_out b = 13
    \<and> fst (GetNextRetran b) = -1"
  by (simp add: UpdateScoreBoard_def sample_board_def Let_def ShouldClean_def new_node_def sort_sacks_def NSA_def
      traverse.simps goes_on_def visit_def visit_sack_def visit_loss_def behind_def beyond_def push_node_def extend_board_def
      Mergable_def Merge_def mark_sacked_def first_retrx_def SetFlag_def Split_def GetEnd_def GetLength_def GetNextRetran_def)

end

