(* ===== verification/Linux_Sender.thy ===== *)
theory Linux_Sender
  imports Scoreboard_Loss Linux_Agent
begin

text \<open>
  The sender of TCP-Linux as a whole (\<open>tcp/tcp-linux.cc\<close>): the agent of \<open>Linux_Agent\<close> with its
  scoreboard, which gives the agent the packets in flight and the bits of an acknowledgment, and
  \<open>send_much\<close>, which fills the window with retransmissions and new packets.
\<close>

section \<open>The sender\<close>

record 'p sender =
  sn_agent :: "'p agent"
  sn_board :: sboard
  sn_curseq :: cint

definition agent_in_flight :: "'p agent \<Rightarrow> sboard \<Rightarrow> int" where
  "agent_in_flight ag sb = packets_in_flight (sint (ag_highest_ack ag) + 1) (sint (ag_t_seqno ag)) sb"

subsection \<open>An acknowledgment\<close>

text \<open>
  The condition is the code's: \<open>FLAG_DATA_ACKED\<close> is a constant there, so that the board is
  updated whenever it is not empty.
\<close>

definition sack_processing :: "cint \<Rightarrow> (int \<times> int) list \<Rightarrow> sboard \<Rightarrow> (u8 \<times> sboard) option" where
  "sack_processing h sacks sb =
     (if sacks \<noteq> [] \<or> sb_head sb \<noteq> [] then UpdateScoreBoard (sint h) sacks 3 sb else Some (0, sb))"

definition ignored :: "ack_view \<Rightarrow> 'p agent \<Rightarrow> bool" where
  "ignored av ag \<longleftrightarrow> int_u32 (ag_t_seqno ag) < int_u32 (av_seqno av + 1)
     \<or> int_u32 (av_seqno av + 1) < int_u32 (ag_highest_ack ag + 1)"

text \<open>The end of the recovery, where \<open>tcp_fastretrans_alert\<close> clears the scoreboard.\<close>

definition alert_clears :: "'p agent \<Rightarrow> bool" where
  "alert_clears ag \<longleftrightarrow> icsk_ca_state (ag_linux ag) \<noteq> TCP_CA_Open \<and> sint (ag_recover ag) \<le> sint (ag_highest_ack ag)"

definition sender_alert ::
    "cint \<Rightarrow> 'p tcp_congestion_ops \<Rightarrow> kernel \<Rightarrow> u8 \<Rightarrow> sboard \<Rightarrow> 'p agent \<Rightarrow> ('p agent \<times> sboard) option" where
  "sender_alert burst ops k flag sb ag = do {
     let sb = (if alert_clears ag then ClearScoreBoard sb else sb);
     ag \<leftarrow> tcp_fastretrans_alert burst ops k (word_of_int (agent_in_flight ag sb)) flag ag;
     Some (ag, sb)
   }"

definition sender_window :: "cint \<Rightarrow> 'p tcp_congestion_ops \<Rightarrow> kernel \<Rightarrow> ack_view \<Rightarrow> u8 \<Rightarrow> u32 \<Rightarrow> sboard \<Rightarrow>
    'p agent \<Rightarrow> ('p agent \<times> sboard) option" where
  "sender_window burst ops k av flag ack sb ag =
     (if flag AND FLAG_NOT_DUP = 0 \<or> flag AND FLAG_CA_ALERT \<noteq> 0 \<or> icsk_ca_state (ag_linux ag) \<noteq> TCP_CA_Open
      then do {
        ag \<leftarrow> (if flag AND FLAG_DATA_ACKED \<noteq> 0 \<and> tcp_may_raise_cwnd flag (ag_linux ag)
               then agent_cong_avoid ops k ack av 0 ag else Some ag);
        sender_alert burst ops k flag sb ag
      }
      else if flag AND FLAG_DATA_ACKED \<noteq> 0 then map_option (\<lambda>ag. (ag, sb)) (agent_cong_avoid ops k ack av 1 ag)
      else Some (ag, sb))"

definition sender_recv :: "cint \<Rightarrow> 'p tcp_congestion_ops \<Rightarrow> kernel \<Rightarrow> ack_view \<Rightarrow> (int \<times> int) list \<Rightarrow>
    'p agent \<times> sboard \<Rightarrow> ('p agent \<times> sboard) option" where
  "sender_recv burst ops k av sacks = (\<lambda>(ag, sb).
     let prior_snd_una = int_u32 (ag_highest_ack ag + 1);
         ack = int_u32 (av_seqno av + 1)
     in if ignored av ag then Some (ag, sb)
        else do {
          let av = av\<lparr>av_prior_in_flight := word_of_int (agent_in_flight ag sb)\<rparr>;
          let (flag, ag) = ack_sequence (av\<lparr>av_scoreboard := 0\<rparr>) prior_snd_una ack ag;
          (bits, sb) \<leftarrow> sack_processing (ag_highest_ack ag) sacks sb;
          let flag = flag OR bits;
          ag \<leftarrow> time_processing ops k av ag;
          ag \<leftarrow> ack_notify ops k av flag (ack - prior_snd_una) ag;
          sender_window burst ops k av flag ack sb ag
        })"

definition sender_timeout ::
    "'p tcp_congestion_ops \<Rightarrow> kernel \<Rightarrow> 'p agent \<times> sboard \<Rightarrow> ('p agent \<times> sboard) option" where
  "sender_timeout ops k = (\<lambda>(ag, sb).
     map_option (\<lambda>ag. (ag, MarkLoss (sint (ag_highest_ack ag) + 1) (sint (ag_t_seqno ag)) sb)) (rtx_timeout ops k ag))"

subsection \<open>Transmission\<close>

text \<open>
  A retransmission (\<open>send_new\<close> of \<open>Linux_Agent\<close> sends a new packet). The result of the loop: the
  packets sent, in order, the agent and the board. It stops when the window is full, at the pacing
  delay, when nothing is left, or after \<open>maxburst\<close> packets.
\<close>

definition send_again :: "int \<Rightarrow> cint \<Rightarrow> 'p agent \<Rightarrow> 'p agent" where
  "send_again s fl ag =
     (let n = (if sint (fl - 1) < 1 then 1 else fl - 1);
          t = (if sint (ag_t_seqno ag) \<le> s then word_of_int s + 1 else ag_t_seqno ag)
      in ag\<lparr>ag_next_pkts_in_flight := (if sint (ag_next_pkts_in_flight ag) \<le> sint n then ag_next_pkts_in_flight ag else n),
            ag_t_seqno := t, ag_linux := (ag_linux ag)\<lparr>snd_nxt := int_u32 t * mss_cache (ag_linux ag)\<rparr>\<rparr>)"

definition send_fresh :: "sboard \<Rightarrow> 'p agent \<Rightarrow> 'p agent" where
  "send_fresh sb ag = send_new (word_of_int (agent_in_flight (ag\<lparr>ag_t_seqno := ag_t_seqno ag + 1\<rparr>) sb)) ag"

definition window_of :: "'p agent \<Rightarrow> int" where
  "window_of ag = sint (u32_int (snd_cwnd (ag_linux ag)))"

lemma window_of_small: "unat (snd_cwnd (ag_linux ag)) < 2147483648 \<Longrightarrow> window_of ag = int (unat (snd_cwnd (ag_linux ag)))"
  unfolding window_of_def by (intro trans [OF sint_cint_unat]) (simp_all add: unsigned_ucast_eq take_bit_nat_eq_self)

partial_function (option) send_loop ::
    "bool \<Rightarrow> int \<Rightarrow> cint \<Rightarrow> int \<Rightarrow> int list \<Rightarrow> 'p agent \<Rightarrow> sboard \<Rightarrow> (int list \<times> 'p agent \<times> sboard) option" where
  "send_loop paced maxburst curseq win out ag sb =
     (if max win (sint (ag_next_pkts_in_flight ag)) \<le> agent_in_flight ag sb \<or> paced then Some (out, ag, sb)
      else case GetNextRetran sb of (s, sb) \<Rightarrow>
        if s = -1 then
          if sint curseq \<le> sint (ag_t_seqno ag) then Some (out, ag, sb)
          else if maxburst \<noteq> 0 \<and> maxburst \<le> int (length out) + 1
            then Some (out @ [sint (ag_t_seqno ag)], send_fresh sb ag, sb)
            else send_loop paced maxburst curseq win (out @ [sint (ag_t_seqno ag)]) (send_fresh sb ag) sb
        else (case MarkRetran s (sint (ag_t_seqno ag)) sb of None \<Rightarrow> None
          | Some sb \<Rightarrow>
              if maxburst \<noteq> 0 \<and> maxburst \<le> int (length out) + 1
              then Some (out @ [s], send_again s (word_of_int (agent_in_flight ag sb)) ag, sb)
              else send_loop paced maxburst curseq (window_of ag) (out @ [s])
                     (send_again s (word_of_int (agent_in_flight ag sb)) ag) sb))"

text \<open>\<open>delsnd\<close>: the pacing timer is pending; \<open>paced\<close>: \<open>overhead_\<close> is not zero.\<close>

definition send_much :: "bool \<Rightarrow> bool \<Rightarrow> bool \<Rightarrow> int \<Rightarrow> 'p sender \<Rightarrow> (int list \<times> 'p sender) option" where
  "send_much force delsnd paced maxburst sn =
     (if \<not> force \<and> delsnd then Some ([], sn)
      else let ag = sn_agent sn; sb = sn_board sn;
               n = word_of_int (agent_in_flight ag sb + 1);
               ag' = (if sint n < sint (ag_next_pkts_in_flight ag) then ag\<lparr>ag_next_pkts_in_flight := n\<rparr> else ag)
           in map_option (\<lambda>(out, ag, sb). (out, sn\<lparr>sn_agent := ag, sn_board := sb\<rparr>))
                (send_loop (paced \<and> \<not> force) maxburst (sn_curseq sn) (window_of ag) [] ag' sb))"

subsection \<open>The handlers\<close>

text \<open>The pacing is off (\<open>overhead_ = 0\<close>, the default).\<close>

datatype sender_event = SAck kernel ack_view "(int \<times> int) list" | STimeout kernel | SData kernel int

fun sender_kernel :: "sender_event \<Rightarrow> kernel" where
  "sender_kernel (SAck k av sacks) = k"
| "sender_kernel (STimeout k) = k"
| "sender_kernel (SData k n) = k"

fun sender_handle :: "cint \<Rightarrow> 'p tcp_congestion_ops \<Rightarrow> int \<Rightarrow> sender_event \<Rightarrow> 'p sender \<Rightarrow> (int list \<times> 'p sender) option" where
  "sender_handle burst ops maxburst (SAck k av sacks) sn =
     (if ignored av (sn_agent sn) then Some ([], sn)
      else do {
        (ag, sb) \<leftarrow> sender_recv burst ops k av sacks (sn_agent sn, sn_board sn);
        send_much False False False maxburst (sn\<lparr>sn_agent := ag, sn_board := sb\<rparr>)
      })"
| "sender_handle burst ops maxburst (STimeout k) sn = do {
     (ag, sb) \<leftarrow> sender_timeout ops k (sn_agent sn, sn_board sn);
     send_much False False False 0 (sn\<lparr>sn_agent := ag, sn_board := sb\<rparr>)
   }"
| "sender_handle burst ops maxburst (SData k n) sn =
     send_much False False False maxburst (sn\<lparr>sn_curseq := word_of_int n\<rparr>)"


section \<open>The packets in flight\<close>

definition board_in :: "int \<Rightarrow> int \<Rightarrow> sboard \<Rightarrow> bool" where
  "board_in a t sb \<longleftrightarrow> (\<exists>e \<le> t. board_ok a e sb)"

definition seq_ok :: "'p agent \<Rightarrow> bool" where
  "seq_ok ag \<longleftrightarrow> -1 \<le> sint (ag_highest_ack ag) \<and> sint (ag_highest_ack ag) + 1 \<le> sint (ag_t_seqno ag)
     \<and> sint (ag_t_seqno ag) < 1073741824"

lemma in_flight_bounds:
  assumes "board_in a t sb"
  shows "0 \<le> packets_in_flight a t sb" and "packets_in_flight a t sb \<le> t - a"
proof -
  obtain e where e: "e \<le> t" "board_ok a e sb" using assms by (auto simp: board_in_def)
  then have "tiles a (sb_head sb) e" "sb_sack_out sb = slen SKB_FLAG_SACKED (sb_head sb)" "sb_fack_out sb = slen SKB_FLAG_LOST (sb_head sb)"
    by (simp_all add: board_ok_def)
  then show "0 \<le> packets_in_flight a t sb" "packets_in_flight a t sb \<le> t - a"
    using slen_bounds(2) [of a "sb_head sb" e] slen_bounds(1) [of a "sb_head sb" e SKB_FLAG_LOST]
      slen_bounds(1) [of a "sb_head sb" e SKB_FLAG_SACKED] e(1) by (simp_all add: packets_in_flight_def)
qed

text \<open>The packets in flight are counted: what was sent after the acknowledgment, less what is lost or acknowledged.\<close>

lemma in_flight_counts:
  assumes "board_in a t sb"
  shows "packets_in_flight a t sb = int (card ({a ..< t} - in_state SKB_FLAG_LOST (sb_head sb) - in_state SKB_FLAG_SACKED (sb_head sb)))"
proof -
  obtain e where e: "e \<le> t" and b: "board_ok a e sb" using assms by (auto simp: board_in_def)
  let ?L = "in_state SKB_FLAG_LOST (sb_head sb)" and ?S = "in_state SKB_FLAG_SACKED (sb_head sb)"
  have t: "tiles a (sb_head sb) e" using b by (simp add: board_ok_def)
  have sub: "?L \<union> ?S \<subseteq> {a ..< t}" using in_state_range [OF t] e by force
  have fin: "finite ?L" "finite ?S" using sub by (auto intro: finite_subset)
  have "card (?L \<union> ?S) = card ?L + card ?S" using in_state_disjoint [OF t] fin by (intro card_Un_disjoint) auto
  moreover have "{a ..< t} - ?L - ?S = {a ..< t} - (?L \<union> ?S)" by auto
  moreover have "card ({a ..< t} - (?L \<union> ?S)) = card {a ..< t} - card (?L \<union> ?S)" using sub fin by (intro card_Diff_subset) auto
  moreover have "card (?L \<union> ?S) \<le> card {a ..< t}" using sub by (intro card_mono) auto
  moreover have "a \<le> t" using tiles_le [OF t] e by simp
  ultimately show ?thesis using b slen_card [OF t] by (simp add: packets_in_flight_def board_ok_def of_nat_diff)
qed

section \<open>Filling the window\<close>

text \<open>What transmission changes in an agent.\<close>

definition quiet :: "'p agent \<Rightarrow> 'p agent \<Rightarrow> bool" where
  "quiet ag ag' \<longleftrightarrow> (\<exists>x t m n. ag' = ag\<lparr>ag_linux := (ag_linux ag)\<lparr>snd_nxt := x\<rparr>, ag_t_seqno := t, ag_maxseq := m,
     ag_next_pkts_in_flight := n\<rparr>)"

lemma quiet_refl: "quiet ag ag"
  unfolding quiet_def
  by (intro exI [of _ "snd_nxt (ag_linux ag)"] exI [of _ "ag_t_seqno ag"] exI [of _ "ag_maxseq ag"]
      exI [of _ "ag_next_pkts_in_flight ag"]) simp

lemma quiet_trans: "quiet a b \<Longrightarrow> quiet b c \<Longrightarrow> quiet a c"
  unfolding quiet_def by (elim exE) (simp, blast)

lemma quiet_again: "quiet ag (send_again s fl ag)"
  unfolding quiet_def send_again_def Let_def by (intro exI) (rule agent.equality, simp_all)

lemma quiet_fresh: "quiet ag (send_fresh sb ag)"
  unfolding quiet_def send_fresh_def send_new_def Let_def by (intro exI) (rule agent.equality, simp_all)

lemma quietD:
  assumes "quiet ag ag'"
  shows "ag_highest_ack ag' = ag_highest_ack ag" and "window_of ag' = window_of ag"
    and "ag_initialized ag' = ag_initialized ag" and "agent_ok M pinv t ag' = agent_ok M pinv t ag"
  using assms by (auto simp: quiet_def window_of_def agent_ok_def)


text \<open>
  What the loop of \<open>send_much\<close> promises, from an agent and a board to those it leaves: the packets
  \<open>out\<close> sent are lost ones, the least first, each once, and then new ones in order, the new ones
  only when the board offers nothing; each is in flight; the window is not exceeded.
\<close>

definition filled :: "int \<Rightarrow> int \<Rightarrow> 'p agent \<Rightarrow> sboard \<Rightarrow> int list \<Rightarrow> 'p agent \<Rightarrow> sboard \<Rightarrow> bool" where
  "filled win curseq ag sb out ag' sb' \<longleftrightarrow> (\<exists>rs.
     out = rs @ [sint (ag_t_seqno ag) .. sint (ag_t_seqno ag') - 1] \<and> sorted_wrt (<) rs
     \<and> set rs \<subseteq> in_state SKB_FLAG_LOST (sb_head sb)
     \<and> in_state SKB_FLAG_LOST (sb_head sb') = in_state SKB_FLAG_LOST (sb_head sb) - set rs
     \<and> (\<forall>x \<in> set rs. \<forall>y \<in> in_state SKB_FLAG_LOST (sb_head sb'). x < y)
     \<and> (sb_retrx sb = None \<longrightarrow> rs = [] \<and> sb_retrx sb' = None))
     \<and> in_state SKB_FLAG_SACKED (sb_head sb') = in_state SKB_FLAG_SACKED (sb_head sb)
     \<and> (sb_retrx sb \<noteq> None \<longrightarrow> sb_retrx sb' = None \<longrightarrow> in_state SKB_FLAG_LOST (sb_head sb') = {})
     \<and> sint (ag_t_seqno ag) \<le> sint (ag_t_seqno ag') \<and> sint (ag_t_seqno ag') \<le> max (sint (ag_t_seqno ag)) curseq
     \<and> (sint (ag_t_seqno ag) < sint (ag_t_seqno ag') \<longrightarrow> sb_retrx sb' = None)
     \<and> quiet ag ag' \<and> seq_ok ag' \<and> board_in (sint (ag_highest_ack ag) + 1) (sint (ag_t_seqno ag')) sb'
     \<and> sint (ag_next_pkts_in_flight ag') \<le> sint (ag_next_pkts_in_flight ag)
     \<and> agent_in_flight ag' sb' = agent_in_flight ag sb + int (length out)
     \<and> agent_in_flight ag' sb' \<le> max (agent_in_flight ag sb) (max win (sint (ag_next_pkts_in_flight ag)))"

text \<open>Why the loop stops.\<close>

definition send_stops :: "bool \<Rightarrow> int \<Rightarrow> int \<Rightarrow> int \<Rightarrow> nat \<Rightarrow> 'p agent \<Rightarrow> sboard \<Rightarrow> bool" where
  "send_stops paced maxburst curseq win n ag sb \<longleftrightarrow>
     max win (sint (ag_next_pkts_in_flight ag)) \<le> agent_in_flight ag sb \<or> paced
     \<or> sb_retrx sb = None \<and> curseq \<le> sint (ag_t_seqno ag) \<or> maxburst \<noteq> 0 \<and> maxburst \<le> int n"

lemma filled_refl:
  assumes "seq_ok ag" and "board_in (sint (ag_highest_ack ag) + 1) (sint (ag_t_seqno ag)) sb"
  shows "filled win curseq ag sb [] ag sb"
  using assms quiet_refl [of ag] by (auto simp: filled_def intro!: exI [of _ "[] :: int list"])

lemma retran_step:
  assumes "board_ok a e sb" and "0 \<le> a" and "GetNextRetran sb = (s, sb1)" and "s \<noteq> -1"
  shows "\<exists>sb2. MarkRetran s sn sb1 = Some sb2 \<and> board_ok a e sb2 \<and> sb_fack_out sb2 = sb_fack_out sb - 1
    \<and> sb_sack_out sb2 = sb_sack_out sb \<and> sb_retrx sb2 \<noteq> None \<and> sb_retrx sb \<noteq> None
    \<and> in_state SKB_FLAG_SACKED (sb_head sb2) = in_state SKB_FLAG_SACKED (sb_head sb)
    \<and> in_state SKB_FLAG_LOST (sb_head sb2) = in_state SKB_FLAG_LOST (sb_head sb) - {s}
    \<and> s = Min (in_state SKB_FLAG_LOST (sb_head sb)) \<and> s \<in> in_state SKB_FLAG_LOST (sb_head sb) \<and> s < e"
proof -
  note g = GetNextRetran_ok [OF assms(1,3)]
  obtain i where i: "sb_retrx sb1 = Some i" using g(3) assms(4) by blast
  have h: "sb_head sb1 = sb_head sb" "sb_fack_out sb1 = sb_fack_out sb" "sb_sack_out sb1 = sb_sack_out sb"
    using arg_cong [OF g(2), of sb_head] arg_cong [OF g(2), of sb_fack_out] arg_cong [OF g(2), of sb_sack_out] by simp_all
  note j = g(4) [OF i]
  obtain sb2 where m: "MarkRetran s sn sb1 = Some sb2" "board_ok a e sb2" "sb_fack_out sb2 = sb_fack_out sb1 - 1"
    "sb_sack_out sb2 = sb_sack_out sb1" "sb_retrx sb2 = Some i"
    "in_state SKB_FLAG_SACKED (sb_head sb2) = in_state SKB_FLAG_SACKED (sb_head sb1)"
    "in_state SKB_FLAG_LOST (sb_head sb2) = in_state SKB_FLAG_LOST (sb_head sb1) - {s}"
    using MarkRetran_ok [OF g(1) i, of s sn] j unfolding h(1) by blast
  have "sb_retrx sb \<noteq> None" using assms(3) i by (auto simp: GetNextRetran_def Let_def split: option.splits)
  moreover have "s < e" using j in_state_range [of a "sb_head sb" e SKB_FLAG_LOST] assms(1) by (force simp: board_ok_def)
  moreover have "s = Min (in_state SKB_FLAG_LOST (sb_head sb))" "s \<in> in_state SKB_FLAG_LOST (sb_head sb)" using j by blast+
  moreover have "sb_retrx sb2 \<noteq> None" using m(5) by simp
  ultimately show ?thesis using m(1-4,6,7) unfolding h by (intro exI [of _ sb2] conjI)
qed

lemma no_retran_step:
  assumes "board_ok a e sb" and "0 \<le> a" and "GetNextRetran sb = (-1, sb1)"
  shows "board_ok a e sb1 \<and> sb_head sb1 = sb_head sb \<and> sb_fack_out sb1 = sb_fack_out sb \<and> sb_sack_out sb1 = sb_sack_out sb
    \<and> sb_retrx sb1 = None \<and> (sb_retrx sb \<noteq> None \<longrightarrow> in_state SKB_FLAG_LOST (sb_head sb) = {})"
proof -
  note g = GetNextRetran_ok [OF assms(1,3)]
  have "sb_retrx sb1 = None"
  proof (rule ccontr)
    assume "sb_retrx sb1 \<noteq> None"
    then obtain i where "sb_retrx sb1 = Some i" by blast
    then have "-1 \<in> in_state SKB_FLAG_LOST (sb_head sb)" using g(4) by blast
    then show False using in_state_range [of a "sb_head sb" e SKB_FLAG_LOST] assms(1,2) by (force simp: board_ok_def)
  qed
  then show ?thesis
    using g arg_cong [OF g(2), of sb_head] arg_cong [OF g(2), of sb_fack_out] arg_cong [OF g(2), of sb_sack_out] by simp
qed


lemma send_again_fields:
  assumes "s < sint (ag_t_seqno ag)"
  shows "ag_t_seqno (send_again s fl ag) = ag_t_seqno ag" and "ag_highest_ack (send_again s fl ag) = ag_highest_ack ag"
    and "sint (ag_next_pkts_in_flight (send_again s fl ag)) \<le> sint (ag_next_pkts_in_flight ag)"
  using assms by (auto simp: send_again_def Let_def)

lemma send_fresh_fields:
  assumes "-1 \<le> sint (ag_t_seqno ag)" and "sint (ag_t_seqno ag) < 1073741824"
  shows "sint (ag_t_seqno (send_fresh sb ag)) = sint (ag_t_seqno ag) + 1" and "ag_highest_ack (send_fresh sb ag) = ag_highest_ack ag"
    and "sint (ag_next_pkts_in_flight (send_fresh sb ag)) \<le> sint (ag_next_pkts_in_flight ag)"
proof -
  have "sint (ag_t_seqno ag + 1) = sint (ag_t_seqno ag) + 1" using assms by (subst sint_add_small) simp_all
  then show "sint (ag_t_seqno (send_fresh sb ag)) = sint (ag_t_seqno ag) + 1" by (simp add: send_fresh_def send_new_def Let_def)
qed (auto simp: send_fresh_def send_new_def Let_def)

lemma filled_again:
  assumes "seq_ok ag" and "board_in (sint (ag_highest_ack ag) + 1) (sint (ag_t_seqno ag)) sb"
    and "GetNextRetran sb = (s, sb1)" and "s \<noteq> -1" and "MarkRetran s sn sb1 = Some sb2"
    and "agent_in_flight ag sb < max win (sint (ag_next_pkts_in_flight ag))"
  shows "seq_ok (send_again s fl ag)
    \<and> board_in (sint (ag_highest_ack (send_again s fl ag)) + 1) (sint (ag_t_seqno (send_again s fl ag))) sb2
    \<and> agent_in_flight (send_again s fl ag) sb2 = agent_in_flight ag sb + 1
    \<and> sint (ag_next_pkts_in_flight (send_again s fl ag)) \<le> sint (ag_next_pkts_in_flight ag)
    \<and> (\<forall>out ag' sb'. filled win curseq (send_again s fl ag) sb2 out ag' sb' \<longrightarrow> filled win curseq ag sb (s # out) ag' sb')"
proof -
  obtain e where e: "e \<le> sint (ag_t_seqno ag)" and b: "board_ok (sint (ag_highest_ack ag) + 1) e sb"
    using assms(2) by (auto simp: board_in_def)
  have a: "0 \<le> sint (ag_highest_ack ag) + 1" using assms(1) by (simp add: seq_ok_def)
  have m: "board_ok (sint (ag_highest_ack ag) + 1) e sb2"
    "sb_fack_out sb2 = sb_fack_out sb - 1" "sb_sack_out sb2 = sb_sack_out sb" "sb_retrx sb2 \<noteq> None" "sb_retrx sb \<noteq> None"
    "in_state SKB_FLAG_SACKED (sb_head sb2) = in_state SKB_FLAG_SACKED (sb_head sb)"
    "in_state SKB_FLAG_LOST (sb_head sb2) = in_state SKB_FLAG_LOST (sb_head sb) - {s}"
    "s = Min (in_state SKB_FLAG_LOST (sb_head sb))" "s \<in> in_state SKB_FLAG_LOST (sb_head sb)" "s < e"
    using retran_step [OF b a assms(3,4), of sn] unfolding assms(5) by auto
  have fin: "finite (in_state SKB_FLAG_LOST (sb_head sb))"
    using b in_state_range [of _ "sb_head sb" e SKB_FLAG_LOST] by (auto simp: board_ok_def intro: finite_subset)
  then have least: "\<forall>y \<in> in_state SKB_FLAG_LOST (sb_head sb) - {s}. s < y" using m(8) Min_le by (fastforce simp: le_less)
  have st: "s < sint (ag_t_seqno ag)" using m(10) e by simp
  define ag2 where "ag2 = send_again s fl ag"
  note f = send_again_fields [OF st, of fl, folded ag2_def]
  have i: "agent_in_flight ag2 sb2 = agent_in_flight ag sb + 1" using m(2,3) f by (simp add: agent_in_flight_def packets_in_flight_def)
  have q: "quiet ag ag2" unfolding ag2_def by (rule quiet_again)
  have "filled win curseq ag sb (s # out) ag' sb'" if F: "filled win curseq ag2 sb2 out ag' sb'" for out ag' sb'
  proof -
    obtain rs where rs: "out = rs @ [sint (ag_t_seqno ag) .. sint (ag_t_seqno ag') - 1]" "sorted_wrt (<) rs"
      "set rs \<subseteq> in_state SKB_FLAG_LOST (sb_head sb2)"
      "in_state SKB_FLAG_LOST (sb_head sb') = in_state SKB_FLAG_LOST (sb_head sb2) - set rs"
      "\<forall>x \<in> set rs. \<forall>y \<in> in_state SKB_FLAG_LOST (sb_head sb'). x < y"
      using F unfolding filled_def f(1) by blast
    have "s # out = (s # rs) @ [sint (ag_t_seqno ag) .. sint (ag_t_seqno ag') - 1]" "sorted_wrt (<) (s # rs)"
      "set (s # rs) \<subseteq> in_state SKB_FLAG_LOST (sb_head sb)"
      "in_state SKB_FLAG_LOST (sb_head sb') = in_state SKB_FLAG_LOST (sb_head sb) - set (s # rs)"
      using rs(1-4) m(7,9) least by auto
    moreover have "in_state SKB_FLAG_LOST (sb_head sb') \<subseteq> in_state SKB_FLAG_LOST (sb_head sb) - {s}"
      unfolding rs(4) m(7) by (rule Diff_subset)
    then have "\<forall>x \<in> set (s # rs). \<forall>y \<in> in_state SKB_FLAG_LOST (sb_head sb'). x < y" using least rs(5) by (simp add: subset_iff)
    moreover have "quiet ag ag'" using F q quiet_trans unfolding filled_def by blast
    ultimately show ?thesis using F m(4-6) i f assms(6) unfolding filled_def f(1,2) i
      by (intro conjI exI [of _ "s # rs"]) auto
  qed
  moreover have "board_in (sint (ag_highest_ack ag2) + 1) (sint (ag_t_seqno ag2)) sb2"
    unfolding board_in_def f using m(1) e by (intro exI [of _ e]) simp
  moreover have "seq_ok ag2" using assms(1) f by (simp add: seq_ok_def)
  ultimately show ?thesis using i f(3) unfolding ag2_def [symmetric] by blast
qed

lemma filled_fresh:
  assumes "seq_ok ag" and "board_in (sint (ag_highest_ack ag) + 1) (sint (ag_t_seqno ag)) sb"
    and "GetNextRetran sb = (-1, sb1)" and "agent_in_flight ag sb < max win (sint (ag_next_pkts_in_flight ag))"
    and "sint (ag_t_seqno ag) < curseq" and "curseq < 1073741824"
  shows "seq_ok (send_fresh sb1 ag) \<and> board_in (sint (ag_highest_ack (send_fresh sb1 ag)) + 1) (sint (ag_t_seqno (send_fresh sb1 ag))) sb1
      \<and> agent_in_flight (send_fresh sb1 ag) sb1 = agent_in_flight ag sb + 1
      \<and> sint (ag_next_pkts_in_flight (send_fresh sb1 ag)) \<le> sint (ag_next_pkts_in_flight ag)
      \<and> (\<forall>out ag' sb'. filled win curseq (send_fresh sb1 ag) sb1 out ag' sb'
          \<longrightarrow> filled win curseq ag sb (sint (ag_t_seqno ag) # out) ag' sb')"
proof -
  obtain e where e: "e \<le> sint (ag_t_seqno ag)" and b: "board_ok (sint (ag_highest_ack ag) + 1) e sb"
    using assms(2) by (auto simp: board_in_def)
  have a: "0 \<le> sint (ag_highest_ack ag) + 1" "-1 \<le> sint (ag_t_seqno ag)" "sint (ag_t_seqno ag) < 1073741824"
    using assms(1) by (simp_all add: seq_ok_def)
  note n = no_retran_step [OF b a(1) assms(3)]
  define ag2 where "ag2 = send_fresh sb1 ag"
  note f = send_fresh_fields [OF a(2,3), of sb1, folded ag2_def]
  have i: "agent_in_flight ag2 sb1 = agent_in_flight ag sb + 1" using n f by (simp add: agent_in_flight_def packets_in_flight_def)
  have q: "quiet ag ag2" unfolding ag2_def by (rule quiet_fresh)
  have "filled win curseq ag sb (sint (ag_t_seqno ag) # out) ag' sb'" if F: "filled win curseq ag2 sb1 out ag' sb'" for out ag' sb'
  proof -
    define t t' where "t = sint (ag_t_seqno ag)" and "t' = sint (ag_t_seqno ag')"
    have o: "out = [t + 1 .. t' - 1]" "in_state SKB_FLAG_LOST (sb_head sb') = in_state SKB_FLAG_LOST (sb_head sb1)" "sb_retrx sb' = None"
      "t + 1 \<le> t'" "t' \<le> max (t + 1) curseq"
      using F n unfolding filled_def f(1) t_def [symmetric] t'_def [symmetric] by auto
    have "t # out = [] @ [t .. t' - 1]" unfolding o(1) using o(4) by (simp add: upto_rec1)
    moreover have "quiet ag ag'" using F q quiet_trans unfolding filled_def by blast
    moreover have "t' \<le> max t curseq" using o(5) assms(5) by (simp add: t_def)
    ultimately show ?thesis using F n o(2-4) i f assms(4) unfolding filled_def f(1,2) i t_def [symmetric] t'_def [symmetric]
      by (intro conjI exI [of _ "[] :: int list"]) auto
  qed
  moreover have "board_in (sint (ag_highest_ack ag2) + 1) (sint (ag_t_seqno ag2)) sb1"
    unfolding board_in_def f using n e by (intro exI [of _ e]) simp
  moreover have "seq_ok ag2" using assms(1,5,6) f by (simp add: seq_ok_def)
  ultimately show ?thesis using i f(3) unfolding ag2_def [symmetric] by blast
qed


lemma filled_idle:
  assumes "seq_ok ag" and "board_in (sint (ag_highest_ack ag) + 1) (sint (ag_t_seqno ag)) sb" and "GetNextRetran sb = (-1, sb1)"
  shows "filled win curseq ag sb [] ag sb1" and "sb_retrx sb1 = None"
proof -
  obtain e where e: "e \<le> sint (ag_t_seqno ag)" and b: "board_ok (sint (ag_highest_ack ag) + 1) e sb"
    using assms(2) by (auto simp: board_in_def)
  have a: "0 \<le> sint (ag_highest_ack ag) + 1" using assms(1) by (simp add: seq_ok_def)
  note n = no_retran_step [OF b a assms(3)]
  show "sb_retrx sb1 = None" using n by blast
  have "agent_in_flight ag sb1 = agent_in_flight ag sb" using n by (simp add: agent_in_flight_def packets_in_flight_def)
  moreover have "board_in (sint (ag_highest_ack ag) + 1) (sint (ag_t_seqno ag)) sb1" unfolding board_in_def using n e by blast
  ultimately show "filled win curseq ag sb [] ag sb1"
    using assms(1) n quiet_refl [of ag] unfolding filled_def by (intro conjI exI [of _ "[] :: int list"]) auto
qed

text \<open>
  The loop ends: every round puts one more packet in flight, up to the larger of the window and
  \<open>next_pkts_in_flight_\<close>, which does not grow.
\<close>

lemma send_loop_ok:
  assumes "seq_ok ag" and "board_in (sint (ag_highest_ack ag) + 1) (sint (ag_t_seqno ag)) sb"
    and "win = window_of ag" and "sint curseq < 1073741824"
  shows "\<exists>out' ag' sb'. send_loop paced maxburst curseq win out ag sb = Some (out @ out', ag', sb')
    \<and> filled win (sint curseq) ag sb out' ag' sb'
    \<and> send_stops paced maxburst (sint curseq) win (length out + length out') ag' sb'"
  using assms(1-3)
proof (induction "nat (max win (sint (ag_next_pkts_in_flight ag)) - agent_in_flight ag sb)" arbitrary: out ag sb rule: less_induct)
  case less
  show ?case
  proof (cases "max win (sint (ag_next_pkts_in_flight ag)) \<le> agent_in_flight ag sb \<or> paced")
    case True
    then have "send_loop paced maxburst curseq win out ag sb = Some (out @ [], ag, sb)" by (simp add: send_loop.simps)
    then show ?thesis using filled_refl [OF less.prems(1,2)] True by (fastforce simp: send_stops_def)
  next
    case False
    then have room: "agent_in_flight ag sb < max win (sint (ag_next_pkts_in_flight ag))" by linarith
    obtain s sb1 where g: "GetNextRetran sb = (s, sb1)" by (cases "GetNextRetran sb")
    have finish: ?thesis
      if step: "send_loop paced maxburst curseq win out ag sb = (if maxburst \<noteq> 0 \<and> maxburst \<le> int (length out) + 1
            then Some (out @ [p], ag2, sb2) else send_loop paced maxburst curseq win (out @ [p]) ag2 sb2)"
        and ok: "seq_ok ag2" "board_in (sint (ag_highest_ack ag2) + 1) (sint (ag_t_seqno ag2)) sb2" "quiet ag ag2"
        and more: "agent_in_flight ag2 sb2 = agent_in_flight ag sb + 1" "sint (ag_next_pkts_in_flight ag2) \<le> sint (ag_next_pkts_in_flight ag)"
        and ext: "\<And>out' ag' sb'. filled win (sint curseq) ag2 sb2 out' ag' sb' \<Longrightarrow> filled win (sint curseq) ag sb (p # out') ag' sb'"
      for p ag2 sb2
    proof (cases "maxburst \<noteq> 0 \<and> maxburst \<le> int (length out) + 1")
      case True
      then have "send_loop paced maxburst curseq win out ag sb = Some (out @ [p], ag2, sb2)" unfolding step by simp
      moreover have "send_stops paced maxburst (sint curseq) win (length out + length [p]) ag2 sb2"
        using True by (simp add: send_stops_def)
      ultimately show ?thesis using ext [OF filled_refl [OF ok(1,2)]] by blast
    next
      case False
      have w: "win = window_of ag2" using less.prems(3) quietD(2) [OF ok(3)] by simp
      have "nat (max win (sint (ag_next_pkts_in_flight ag2)) - agent_in_flight ag2 sb2)
          < nat (max win (sint (ag_next_pkts_in_flight ag)) - agent_in_flight ag sb)"
        using more room by linarith
      from less.hyps [OF this ok(1,2) w, of "out @ [p]"] obtain out' ag' sb' where
        r: "send_loop paced maxburst curseq win (out @ [p]) ag2 sb2 = Some ((out @ [p]) @ out', ag', sb')"
        "filled win (sint curseq) ag2 sb2 out' ag' sb'"
        "send_stops paced maxburst (sint curseq) win (length (out @ [p]) + length out') ag' sb'" by blast
      have "send_loop paced maxburst curseq win out ag sb = Some (out @ p # out', ag', sb')" using step False r(1) by simp
      moreover have "send_stops paced maxburst (sint curseq) win (length out + length (p # out')) ag' sb'" using r(3) by simp
      ultimately show ?thesis using ext [OF r(2)] by blast
    qed
    show ?thesis
    proof (cases "s = -1")
      case True
      note g = g [unfolded True]
      show ?thesis
      proof (cases "sint curseq \<le> sint (ag_t_seqno ag)")
        case idle: True
        have "send_loop paced maxburst curseq win out ag sb = Some (out @ [], ag, sb1)"
          using False g idle by (subst send_loop.simps) (simp del: max.bounded_iff)
        then show ?thesis using filled_idle [OF less.prems(1,2) g] idle by (fastforce simp: send_stops_def)
      next
        case data: False
        have f: "sint (ag_t_seqno ag) < sint curseq" using data by simp
        note F = filled_fresh [OF less.prems(1,2) g room f assms(4)]
        have "send_loop paced maxburst curseq win out ag sb = (if maxburst \<noteq> 0 \<and> maxburst \<le> int (length out) + 1
            then Some (out @ [sint (ag_t_seqno ag)], send_fresh sb1 ag, sb1)
            else send_loop paced maxburst curseq win (out @ [sint (ag_t_seqno ag)]) (send_fresh sb1 ag) sb1)"
          using data by (subst send_loop.simps, subst if_not_P [OF False]) (simp add: g)
        then show ?thesis using F by (intro finish [of "sint (ag_t_seqno ag)" "send_fresh sb1 ag" sb1] quiet_fresh) blast+
      qed
    next
      case s: False
      obtain e where "board_ok (sint (ag_highest_ack ag) + 1) e sb" using less.prems(2) by (auto simp: board_in_def)
      moreover have "0 \<le> sint (ag_highest_ack ag) + 1" using less.prems(1) by (simp add: seq_ok_def)
      ultimately obtain sb2 where m: "MarkRetran s (sint (ag_t_seqno ag)) sb1 = Some sb2" using retran_step [OF _ _ g s] by blast
      note F = filled_again [OF less.prems(1,2) g s m room, of "word_of_int (agent_in_flight ag sb2)"]
      define ag2 where "ag2 = send_again s (word_of_int (agent_in_flight ag sb2)) ag"
      have "send_loop paced maxburst curseq win out ag sb = (if maxburst \<noteq> 0 \<and> maxburst \<le> int (length out) + 1
            then Some (out @ [s], ag2, sb2) else send_loop paced maxburst curseq win (out @ [s]) ag2 sb2)"
        using s m less.prems(3) by (subst send_loop.simps, subst if_not_P [OF False]) (simp add: g flip: ag2_def)
      moreover have "quiet ag ag2" unfolding ag2_def by (rule quiet_again)
      ultimately show ?thesis using F unfolding ag2_def [symmetric] by (intro finish [of s ag2 sb2]) blast+
    qed
  qed
qed

definition sender_ok :: "'p sender \<Rightarrow> bool" where
  "sender_ok sn \<longleftrightarrow> seq_ok (sn_agent sn) \<and> sint (sn_curseq sn) < 1073741824
     \<and> board_in (sint (ag_highest_ack (sn_agent sn)) + 1) (sint (ag_t_seqno (sn_agent sn))) (sn_board sn)"

lemma send_much_ok:
  assumes "sender_ok sn" and "\<not> delsnd \<or> force"
  shows "\<exists>out sn'. send_much force delsnd paced maxburst sn = Some (out, sn') \<and> sender_ok sn' \<and> sn_curseq sn' = sn_curseq sn
    \<and> (\<exists>n. sint n \<le> sint (ag_next_pkts_in_flight (sn_agent sn))
        \<and> filled (window_of (sn_agent sn)) (sint (sn_curseq sn)) ((sn_agent sn)\<lparr>ag_next_pkts_in_flight := n\<rparr>) (sn_board sn)
            out (sn_agent sn') (sn_board sn'))
    \<and> send_stops (paced \<and> \<not> force) maxburst (sint (sn_curseq sn)) (window_of (sn_agent sn)) (length out) (sn_agent sn') (sn_board sn')"
proof -
  define w where "w = (word_of_int (agent_in_flight (sn_agent sn) (sn_board sn) + 1) :: cint)"
  define n where "n = (if sint w < sint (ag_next_pkts_in_flight (sn_agent sn)) then w else ag_next_pkts_in_flight (sn_agent sn))"
  define ag where "ag = (sn_agent sn)\<lparr>ag_next_pkts_in_flight := n\<rparr>"
  have e: "(if sint w < sint (ag_next_pkts_in_flight (sn_agent sn)) then (sn_agent sn)\<lparr>ag_next_pkts_in_flight := w\<rparr> else sn_agent sn) = ag"
    by (simp add: ag_def n_def)
  have f: "seq_ok ag" "board_in (sint (ag_highest_ack ag) + 1) (sint (ag_t_seqno ag)) (sn_board sn)"
    "window_of (sn_agent sn) = window_of ag" "sint (sn_curseq sn) < 1073741824"
    using assms(1) by (simp_all add: sender_ok_def ag_def seq_ok_def window_of_def)
  obtain out ag' sb' where r: "send_loop (paced \<and> \<not> force) maxburst (sn_curseq sn) (window_of (sn_agent sn)) [] ag (sn_board sn) = Some ([] @ out, ag', sb')"
    "filled (window_of (sn_agent sn)) (sint (sn_curseq sn)) ag (sn_board sn) out ag' sb'"
    "send_stops (paced \<and> \<not> force) maxburst (sint (sn_curseq sn)) (window_of (sn_agent sn)) (length ([] :: int list) + length out) ag' sb'"
    using send_loop_ok [OF f, of "paced \<and> \<not> force" maxburst "[]"] by (elim exE conjE) (rule that)
  define sn' where "sn' = sn\<lparr>sn_agent := ag', sn_board := sb'\<rparr>"
  have "send_much force delsnd paced maxburst sn = Some (out, sn')"
    using assms(2) r(1) unfolding send_much_def Let_def w_def [symmetric] e by (auto simp: sn'_def)
  moreover have "sender_ok sn'" using r(2) f(4) quietD(1) [of ag ag'] by (simp add: sender_ok_def sn'_def filled_def)
  moreover have "sint n \<le> sint (ag_next_pkts_in_flight (sn_agent sn))" by (simp add: n_def)
  ultimately show ?thesis using r(2,3) unfolding ag_def
    by (intro exI [of _ out] exI [of _ sn'] exI [of _ n] conjI) (simp_all add: sn'_def)
qed


section \<open>An acknowledgment and its SACK blocks\<close>

text \<open>What the SACK option of a valid acknowledgment says: nothing beyond what was sent.\<close>

definition sacks_sent :: "'p agent \<Rightarrow> ack_view \<Rightarrow> (int \<times> int) list \<Rightarrow> bool" where
  "sacks_sent ag av sacks \<longleftrightarrow> sacks_ok (sint (av_seqno av)) sacks \<and> (\<forall>s \<in> set sacks. snd s \<le> sint (ag_t_seqno ag))"

lemma sack_processing_ok:
  assumes "board_in a t sb" and "a \<le> sint h + 1" and "sint h + 1 \<le> t" and "sacks_ok (sint h) sacks" and "\<forall>s \<in> set sacks. snd s \<le> t"
  shows "\<exists>bits sb'. sack_processing h sacks sb = Some (bits, sb') \<and> board_in (sint h + 1) t sb'"
proof -
  obtain e where e: "e \<le> t" "board_ok a e sb" using assms(1) by (auto simp: board_in_def)
  show ?thesis
  proof (cases "sacks \<noteq> [] \<or> sb_head sb \<noteq> []")
    case True
    then show ?thesis using update_ok [OF e(2) assms(2,4), of 3] e(1) assms(3,5) unfolding sack_processing_def board_in_def by force
  next
    case False
    then have "board_ok (sint h + 1) (sint h + 1) sb" using e(2) by (simp add: board_ok_def)
    then show ?thesis using False assms(3) unfolding sack_processing_def board_in_def by auto
  qed
qed

lemma board_in_clear: "a \<le> t \<Longrightarrow> board_in a t (ClearScoreBoard sb)"
  by (auto simp: board_in_def board_ok_def ClearScoreBoard_def retrx_ok_def intro!: exI [of _ a])

text \<open>The sequence numbers of the agent, which only \<open>ack_sequence\<close> and the transmissions change.\<close>

definition same_seqs :: "'p agent \<Rightarrow> 'p agent \<Rightarrow> bool" where
  "same_seqs ag ag' \<longleftrightarrow> ag_highest_ack ag' = ag_highest_ack ag \<and> ag_t_seqno ag' = ag_t_seqno ag"

lemma same_seqs_seq_ok: "same_seqs ag ag' \<Longrightarrow> seq_ok ag' = seq_ok ag"
  by (simp add: same_seqs_def seq_ok_def)

lemma same_seqs_steps:
  "time_processing ops k av ag = Some ag' \<Longrightarrow> same_seqs ag ag'"
  "ack_notify ops k av flag num ag = Some ag' \<Longrightarrow> same_seqs ag ag'"
  "agent_cong_avoid ops k ack av good ag = Some ag' \<Longrightarrow> same_seqs ag ag'"
  "tcp_fastretrans_alert burst ops k p flag ag = Some ag' \<Longrightarrow> same_seqs ag ag'"
  "rtx_timeout ops k ag = Some ag' \<Longrightarrow> same_seqs ag ag'"
proof -
  have r: "rtt_update ops k r ag = Some ag' \<Longrightarrow> same_seqs ag ag'" for r ag ag'
    by (auto simp: rtt_update_def Let_def same_seqs_def split: Option.bind_splits prod.splits if_splits)
  show "time_processing ops k av ag = Some ag' \<Longrightarrow> same_seqs ag ag'"
    by (auto simp: time_processing_def Let_def upd_rx_opt_def split: option.splits dest!: r) (auto simp: same_seqs_def)
  show "ack_notify ops k av flag num ag = Some ag' \<Longrightarrow> same_seqs ag ag'"
    by (auto simp: ack_notify_def same_seqs_def split: Option.bind_splits)
  show "agent_cong_avoid ops k ack av good ag = Some ag' \<Longrightarrow> same_seqs ag ag'"
    by (auto simp: agent_cong_avoid_def same_seqs_def Let_def split: Option.bind_splits)
  show "tcp_fastretrans_alert burst ops k p flag ag = Some ag' \<Longrightarrow> same_seqs ag ag'"
    by (auto simp: tcp_fastretrans_alert_def agent_reduce_def same_seqs_def Let_def split: Option.bind_splits if_splits prod.splits)
  show "rtx_timeout ops k ag = Some ag' \<Longrightarrow> same_seqs ag ag'"
    by (auto simp: rtx_timeout_def enter_loss_def same_seqs_def Let_def split: Option.bind_splits prod.splits)
qed

lemma ack_sequence_seqs:
  assumes "\<not> ignored av ag" and "seq_ok ag" and "0 \<le> sint (av_seqno av)" and "sint (av_seqno av) < 2147483647"
    and "ack_sequence av' (int_u32 (ag_highest_ack ag + 1)) (int_u32 (av_seqno av + 1)) ag = (flag, ag')" and "av_seqno av' = av_seqno av"
  shows "ag_highest_ack ag' = av_seqno av \<and> ag_t_seqno ag' = ag_t_seqno ag \<and> sint (ag_highest_ack ag) \<le> sint (av_seqno av)
    \<and> sint (av_seqno av) + 1 \<le> sint (ag_t_seqno ag)"
proof -
  define h q t where "h = sint (ag_highest_ack ag)" and "q = sint (av_seqno av)" and "t = sint (ag_t_seqno ag)"
  have b: "-1 \<le> h" "h + 1 \<le> t" "t < 1073741824" "0 \<le> q" "q < 2147483647"
    using assms(2-4) by (simp_all add: seq_ok_def h_def q_def t_def)
  have w: "sint (ag_highest_ack ag + 1) = h + 1" "sint (av_seqno av + 1) = q + 1"
    using b unfolding h_def q_def t_def by (subst sint_add_small; simp)+
  have u: "unat (int_u32 (ag_highest_ack ag + 1)) = nat (h + 1)" "unat (int_u32 (av_seqno av + 1)) = nat (q + 1)"
    "unat (int_u32 (ag_t_seqno ag)) = nat t"
    using b w unfolding t_def by (subst unat_int_u32; simp)+
  have le: "q + 1 \<le> t" "h \<le> q"
    using assms(1) b unfolding ignored_def word_less_nat_alt u by linarith+
  show ?thesis
  proof (cases "h < q")
    case True
    then have lt: "int_u32 (ag_highest_ack ag + 1) < int_u32 (av_seqno av + 1)" using b unfolding word_less_nat_alt u by simp
    have "ack_flags av' (int_u32 (ag_highest_ack ag + 1)) (int_u32 (av_seqno av + 1)) AND FLAG_DATA_ACKED \<noteq> 0"
      using lt by (simp add: ack_flags_def FLAG_ECE_def FLAG_DATA_ACKED_def)
    moreover have "\<not> sint (ag_t_seqno ag) < sint (av_seqno av + 1)" using le(1) w(2) by (simp add: t_def)
    ultimately have "ag_highest_ack ag' = av_seqno av \<and> ag_t_seqno ag' = ag_t_seqno ag"
      using assms(5,6) lt by (auto simp: ack_sequence_def ack_processing_def Let_def)
    then show ?thesis using le by (simp add: h_def q_def t_def)
  next
    case False
    then have eq: "ag_highest_ack ag = av_seqno av" using le(2) by (intro signed_word_eqI) (simp add: h_def q_def)
    then have "ack_flags av' (int_u32 (ag_highest_ack ag + 1)) (int_u32 (av_seqno av + 1)) AND FLAG_DATA_ACKED = 0"
      by (simp add: ack_flags_def FLAG_ECE_def FLAG_DATA_ACKED_def)
    then have "ag_highest_ack ag' = ag_highest_ack ag \<and> ag_t_seqno ag' = ag_t_seqno ag"
      using assms(5) eq by (auto simp: ack_sequence_def ack_processing_def Let_def)
    then show ?thesis using le eq by (simp add: h_def q_def t_def)
  qed
qed

text \<open>The view of an acknowledgment without the fields that the scoreboard fills in.\<close>

definition sender_ack_ok :: "nat \<Rightarrow> kernel \<Rightarrow> ack_view \<Rightarrow> bool" where
  "sender_ack_ok M k av \<longleftrightarrow> ack_ok M k (av\<lparr>av_in_flight := 0\<rparr>)"

lemma sint_in_flight:
  assumes "board_in (sint (ag_highest_ack ag) + 1) (sint (ag_t_seqno ag)) sb" and "seq_ok ag"
  shows "sint (word_of_int (agent_in_flight ag sb) :: cint) = agent_in_flight ag sb" and "0 \<le> agent_in_flight ag sb" and "agent_in_flight ag sb < 1073741824"
proof -
  show b: "0 \<le> agent_in_flight ag sb" "agent_in_flight ag sb < 1073741824"
    using in_flight_bounds [OF assms(1)] assms(2) by (simp_all add: agent_in_flight_def seq_ok_def)
  show "sint (word_of_int (agent_in_flight ag sb) :: cint) = agent_in_flight ag sb" using b by (intro sint_word_small) simp_all
qed

text \<open>The sender's invariant is that of the agent, of the board and of the sequence numbers.\<close>

definition full_ok :: "nat \<Rightarrow> ('p \<Rightarrow> bool) \<Rightarrow> u32 \<Rightarrow> 'p agent \<times> sboard \<Rightarrow> bool" where
  "full_ok M pinv t = (\<lambda>(ag, sb). agent_ok M pinv t ag \<and> ag_initialized ag \<and> seq_ok ag
     \<and> board_in (sint (ag_highest_ack ag) + 1) (sint (ag_t_seqno ag)) sb)"

lemma full_ok_move:
  "run_ok M pinv t (Some ag') \<Longrightarrow> same_seqs ag ag' \<Longrightarrow> seq_ok ag \<Longrightarrow>
    board_in (sint (ag_highest_ack ag) + 1) (sint (ag_t_seqno ag)) sb \<Longrightarrow> full_ok M pinv t (ag', sb)"
  by (simp add: full_ok_def same_seqs_def seq_ok_def)

text \<open>
  The states a sender reaches. An acknowledgment carries a plausible sample and reports nothing
  that was not sent; the clock does not run backwards; the data stay below \<open>2 ^ 30\<close> packets.
\<close>

definition sender_inv :: "nat \<Rightarrow> ('p \<Rightarrow> bool) \<Rightarrow> u32 \<Rightarrow> 'p sender \<Rightarrow> bool" where
  "sender_inv M pinv t sn \<longleftrightarrow> full_ok M pinv t (sn_agent sn, sn_board sn) \<and> sint (sn_curseq sn) < 1073741824"

fun sender_valid :: "nat \<Rightarrow> u32 \<Rightarrow> 'p sender \<Rightarrow> sender_event \<Rightarrow> bool" where
  "sender_valid M t sn (SAck k av sacks) \<longleftrightarrow> unat t \<le> unat (tcp_time_stamp k) \<and> unat (tcp_time_stamp k) < 2 ^ 50
     \<and> sender_ack_ok M k av \<and> sacks_sent (sn_agent sn) av sacks"
| "sender_valid M t sn (STimeout k) \<longleftrightarrow> unat t \<le> unat (tcp_time_stamp k) \<and> unat (tcp_time_stamp k) < 2 ^ 50"
| "sender_valid M t sn (SData k n) \<longleftrightarrow> unat t \<le> unat (tcp_time_stamp k) \<and> unat (tcp_time_stamp k) < 2 ^ 50
     \<and> sint (sn_curseq sn) \<le> n \<and> n < 1073741824"

inductive sender_reach :: "cint \<Rightarrow> 'p tcp_congestion_ops \<Rightarrow> int \<Rightarrow> nat \<Rightarrow> u32 \<Rightarrow> 'p sender \<Rightarrow> u32 \<Rightarrow> 'p sender \<Rightarrow> bool"
  for burst ops maxburst M t0 sn0 where
  start: "sender_reach burst ops maxburst M t0 sn0 t0 sn0"
| event: "sender_reach burst ops maxburst M t0 sn0 t sn \<Longrightarrow> sender_valid M t sn ev \<Longrightarrow>
    sender_handle burst ops maxburst ev sn = Some (out, sn') \<Longrightarrow>
    sender_reach burst ops maxburst M t0 sn0 (tcp_time_stamp (sender_kernel ev)) sn'"

inductive_cases sender_reachE: "sender_reach burst ops maxburst M t0 sn0 t sn"

lemma full_ok_later: "full_ok M pinv t x \<Longrightarrow> unat t \<le> unat t' \<Longrightarrow> full_ok M pinv t' x"
  by (auto simp: full_ok_def intro: agent_ok_later)

lemma send_much_full:
  assumes "sender_inv M pinv t sn"
  shows "\<exists>out sn'. send_much force False paced maxburst sn = Some (out, sn') \<and> sender_inv M pinv t sn'"
proof -
  have "sender_ok sn" using assms by (simp add: sender_inv_def full_ok_def sender_ok_def)
  then obtain out sn' n where r: "send_much force False paced maxburst sn = Some (out, sn')" "sender_ok sn'" "sn_curseq sn' = sn_curseq sn"
    "quiet ((sn_agent sn)\<lparr>ag_next_pkts_in_flight := n\<rparr>) (sn_agent sn')"
    using send_much_ok [of sn False force paced maxburst] unfolding filled_def by blast
  then have "agent_ok M pinv t (sn_agent sn') \<and> ag_initialized (sn_agent sn')"
    using quietD(3,4) [OF r(4)] assms by (simp add: sender_inv_def full_ok_def)
  then show ?thesis using r(1,2) by (auto simp: sender_inv_def full_ok_def sender_ok_def)
qed

lemma sender_inv_counts:
  assumes "sender_inv M pinv t sn"
  shows "sb_fack_out (sn_board sn) = int (card (in_state SKB_FLAG_LOST (sb_head (sn_board sn))))
    \<and> sb_sack_out (sn_board sn) = int (card (in_state SKB_FLAG_SACKED (sb_head (sn_board sn))))
    \<and> agent_in_flight (sn_agent sn) (sn_board sn) = int (card
        ({sint (ag_highest_ack (sn_agent sn)) + 1 ..< sint (ag_t_seqno (sn_agent sn))}
          - in_state SKB_FLAG_LOST (sb_head (sn_board sn)) - in_state SKB_FLAG_SACKED (sb_head (sn_board sn))))
    \<and> 1 \<le> unat (snd_cwnd (ag_linux (sn_agent sn))) \<and> unat (snd_cwnd (ag_linux (sn_agent sn))) < 2147483648"
proof -
  have b: "board_in (sint (ag_highest_ack (sn_agent sn)) + 1) (sint (ag_t_seqno (sn_agent sn))) (sn_board sn)"
    and s: "sock_ok win_limit (ag_linux (sn_agent sn))"
    using assms by (simp_all add: sender_inv_def full_ok_def agent_ok_def)
  obtain e where e: "board_ok (sint (ag_highest_ack (sn_agent sn)) + 1) e (sn_board sn)" using b by (auto simp: board_in_def)
  then have "tiles (sint (ag_highest_ack (sn_agent sn)) + 1) (sb_head (sn_board sn)) e" by (simp add: board_ok_def)
  note c = slen_card [OF this]
  show ?thesis using e c in_flight_counts [OF b] sock_okD(4,5) [OF s] by (simp add: board_ok_def agent_in_flight_def win_limit_def)
qed

context agent_control
begin

lemma sender_alert_ok:
  assumes "full_ok M pinv (tcp_time_stamp k) (ag, sb)" and "unat (tcp_time_stamp k) < 2 ^ 50"
  shows "\<exists>ag' sb'. sender_alert burst ops k flag sb ag = Some (ag', sb') \<and> full_ok M pinv (tcp_time_stamp k) (ag', sb')
    \<and> same_seqs ag ag'"
proof -
  define sb' where "sb' = (if alert_clears ag then ClearScoreBoard sb else sb)"
  have f: "agent_ok M pinv (tcp_time_stamp k) ag" "ag_initialized ag" "seq_ok ag"
    "board_in (sint (ag_highest_ack ag) + 1) (sint (ag_t_seqno ag)) sb" using assms(1) by (simp_all add: full_ok_def)
  have b: "board_in (sint (ag_highest_ack ag) + 1) (sint (ag_t_seqno ag)) sb'"
    using f(3,4) board_in_clear by (simp add: sb'_def seq_ok_def)
  note i = sint_in_flight [OF b f(3)]
  obtain ag' where a: "tcp_fastretrans_alert burst ops k (word_of_int (agent_in_flight ag sb')) flag ag = Some ag'"
    "run_ok M pinv (tcp_time_stamp k) (Some ag')"
    using tcp_fastretrans_alert_ok [OF f(1,2) assms(2), of "word_of_int (agent_in_flight ag sb')" flag] i by (auto simp: run_ok_def)
  then have "sender_alert burst ops k flag sb ag = Some (ag', sb')" by (simp add: sender_alert_def Let_def flip: sb'_def)
  then show ?thesis using full_ok_move [OF a(2) _ f(3) b] same_seqs_steps(4) [OF a(1)] by blast
qed

lemma sender_window_ok:
  assumes "full_ok M pinv (tcp_time_stamp k) (ag, sb)" and "unat (tcp_time_stamp k) < 2 ^ 50"
  shows "\<exists>ag' sb'. sender_window burst ops k av flag ack sb ag = Some (ag', sb') \<and> full_ok M pinv (tcp_time_stamp k) (ag', sb')
    \<and> same_seqs ag ag'"
proof -
  have f: "agent_ok M pinv (tcp_time_stamp k) ag" "ag_initialized ag" "seq_ok ag"
    "board_in (sint (ag_highest_ack ag) + 1) (sint (ag_t_seqno ag)) sb" using assms(1) by (simp_all add: full_ok_def)
  have c: "\<exists>ag'. agent_cong_avoid ops k ack av good ag = Some ag' \<and> full_ok M pinv (tcp_time_stamp k) (ag', sb) \<and> same_seqs ag ag'" for good
    using agent_cong_avoid_ok [OF f(1,2) assms(2), of ack av good] full_ok_move [OF _ _ f(3,4)] same_seqs_steps(3)
    by (fastforce simp: run_ok_def)
  have r: "same_seqs ag ag" by (simp add: same_seqs_def)
  obtain ag1 where 1: "(if flag AND FLAG_DATA_ACKED \<noteq> 0 \<and> tcp_may_raise_cwnd flag (ag_linux ag)
      then agent_cong_avoid ops k ack av 0 ag else Some ag) = Some ag1" "full_ok M pinv (tcp_time_stamp k) (ag1, sb)" "same_seqs ag ag1"
    using c assms(1) r by (metis (full_types))
  obtain ag2 sb2 where 2: "sender_alert burst ops k flag sb ag1 = Some (ag2, sb2)" "full_ok M pinv (tcp_time_stamp k) (ag2, sb2)"
    "same_seqs ag1 ag2" using sender_alert_ok [OF 1(2) assms(2)] by blast
  have "same_seqs ag ag2" using 1(3) 2(3) by (simp add: same_seqs_def)
  then show ?thesis using 1(1) 2(1,2) c [of 1] assms(1) r by (auto simp: sender_window_def)
qed

lemma sender_recv_ok:
  assumes "full_ok M pinv t (ag, sb)" and "unat t \<le> unat (tcp_time_stamp k)" and "unat (tcp_time_stamp k) < 2 ^ 50"
    and "sender_ack_ok M k av" and "\<not> ignored av ag" and "sacks_sent ag av sacks"
  shows "\<exists>ag' sb'. sender_recv burst ops k av sacks (ag, sb) = Some (ag', sb') \<and> full_ok M pinv (tcp_time_stamp k) (ag', sb')
    \<and> ag_highest_ack ag' = av_seqno av \<and> ag_t_seqno ag' = ag_t_seqno ag"
proof -
  define p a where "p = int_u32 (ag_highest_ack ag + 1)" and "a = int_u32 (av_seqno av + 1)"
  define av1 where "av1 = av\<lparr>av_prior_in_flight := word_of_int (agent_in_flight ag sb)\<rparr>"
  have f: "agent_ok M pinv t ag" "ag_initialized ag" "seq_ok ag"
    "board_in (sint (ag_highest_ack ag) + 1) (sint (ag_t_seqno ag)) sb" using assms(1) by (simp_all add: full_ok_def)
  have v: "0 \<le> sint (av_seqno av)" "sint (av_seqno av) < 2147483647" "sample_ok k (av_last_ackt av)"
    using assms(4) by (simp_all add: sender_ack_ok_def ack_ok_def)
  obtain flag ag1 where 1: "ack_sequence (av1\<lparr>av_scoreboard := 0\<rparr>) p a ag = (flag, ag1)" by (cases "ack_sequence (av1\<lparr>av_scoreboard := 0\<rparr>) p a ag")
  note s1 = ack_sequence_seqs [OF assms(5) f(3) v(1,2) 1 [unfolded p_def a_def], simplified av1_def, simplified]
  note k1 = ack_sequence_ok [OF f(1) 1]
  obtain bits sb1 where 2: "sack_processing (ag_highest_ack ag1) sacks sb = Some (bits, sb1)"
    "board_in (sint (av_seqno av) + 1) (sint (ag_t_seqno ag)) sb1"
    using sack_processing_ok [OF f(4), of "av_seqno av" sacks] s1 assms(6) unfolding sacks_sent_def by auto
  have q1: "seq_ok ag1" using s1 f(3) by (simp add: seq_ok_def)
  have tp: "time_processing ops k av1 ag1 = time_processing ops k (av\<lparr>av_in_flight := 0\<rparr>) ag1"
    by (simp add: time_processing_def av1_def Let_def cong: option.case_cong)
  obtain ag2 where 3: "time_processing ops k av1 ag1 = Some ag2" "agent_ok M pinv (tcp_time_stamp k) ag2" "ag_t_srtt ag2 \<noteq> 0"
    using time_processing_ok [OF k1(1) assms(2), of "av\<lparr>av_in_flight := 0\<rparr>"] assms(4) f(2) k1(2) unfolding tp sender_ack_ok_def by auto
  have "sint (av_seqno av + 1) = sint (av_seqno av) + 1" using v by (subst sint_add_small) simp_all
  then have "unat a < 4294967296" unfolding a_def using v by (subst unat_int_u32) linarith+
  moreover have "unat (a - p) \<le> unat a"
    using assms(5) unat_sub_le [of p a] by (simp add: ignored_def p_def a_def linorder_not_less)
  ultimately have n: "unat (a - p) < 4294967296" by linarith
  have av1: "sample_ok k (av_last_ackt av1)" using v(3) by (simp add: av1_def)
  obtain ag3 where 4: "ack_notify ops k av1 (flag OR bits) (a - p) ag2 = Some ag3" "run_ok M pinv (tcp_time_stamp k) (Some ag3)"
    using ack_notify_ok [OF 3(2,3) assms(3) n av1, of "flag OR bits"] by (auto simp: run_ok_def)
  have s3: "same_seqs ag1 ag3" using same_seqs_steps(1) [OF 3(1)] same_seqs_steps(2) [OF 4(1)] by (simp add: same_seqs_def)
  have "full_ok M pinv (tcp_time_stamp k) (ag3, sb1)"
    by (rule full_ok_move [OF 4(2) s3 q1]) (use 2(2) s1 in simp)
  then obtain ag4 sb4 where 5: "sender_window burst ops k av1 (flag OR bits) a sb1 ag3 = Some (ag4, sb4)"
    "full_ok M pinv (tcp_time_stamp k) (ag4, sb4)" "same_seqs ag3 ag4"
    using sender_window_ok [OF _ assms(3)] by blast
  have "sender_recv burst ops k av sacks (ag, sb) = Some (ag4, sb4)"
    using assms(5) 1 2(1) 3(1) 4(1) 5(1) by (simp add: sender_recv_def Let_def flip: p_def a_def av1_def)
  then show ?thesis using 5(2,3) s3 s1 by (auto simp: same_seqs_def)
qed

lemma sender_timeout_ok:
  assumes "full_ok M pinv t (ag, sb)" and "unat t \<le> unat (tcp_time_stamp k)" and "unat (tcp_time_stamp k) < 2 ^ 50"
  shows "\<exists>ag' sb'. sender_timeout ops k (ag, sb) = Some (ag', sb') \<and> full_ok M pinv (tcp_time_stamp k) (ag', sb')"
proof -
  have f: "agent_ok M pinv t ag" "ag_initialized ag" "seq_ok ag"
    "board_in (sint (ag_highest_ack ag) + 1) (sint (ag_t_seqno ag)) sb" using assms(1) by (simp_all add: full_ok_def)
  obtain ag' where a: "rtx_timeout ops k ag = Some ag'" "run_ok M pinv (tcp_time_stamp k) (Some ag')"
    using rtx_timeout_ok [OF f(1,2) assms(2,3)] by (auto simp: run_ok_def)
  note s = same_seqs_steps(5) [OF a(1)]
  define sb' where "sb' = MarkLoss (sint (ag_highest_ack ag) + 1) (sint (ag_t_seqno ag)) sb"
  obtain e where e: "e \<le> sint (ag_t_seqno ag)" "board_ok (sint (ag_highest_ack ag) + 1) e sb" using f(4) by (auto simp: board_in_def)
  have "board_ok (sint (ag_highest_ack ag) + 1) (sint (ag_t_seqno ag)) sb'"
    unfolding sb'_def using f(3) by (intro MarkLoss_ok(1) [OF e(2) _ _ e(1)]) (simp_all add: seq_ok_def)
  then have "board_in (sint (ag_highest_ack ag) + 1) (sint (ag_t_seqno ag)) sb'" by (auto simp: board_in_def)
  moreover have "sender_timeout ops k (ag, sb) = Some (ag', sb')"
    using a(1) s by (simp add: sender_timeout_def sb'_def same_seqs_def)
  ultimately show ?thesis using full_ok_move [OF a(2) s f(3)] by blast
qed

text \<open>No valid event is stuck, and each keeps the invariant.\<close>

lemma sender_handle_ok:
  assumes "sender_inv M pinv t sn" and "sender_valid M t sn ev"
  shows "\<exists>out sn'. sender_handle burst ops maxburst ev sn = Some (out, sn')
    \<and> sender_inv M pinv (tcp_time_stamp (sender_kernel ev)) sn'"
proof -
  have f: "full_ok M pinv t (sn_agent sn, sn_board sn)" "sint (sn_curseq sn) < 1073741824" using assms(1) by (simp_all add: sender_inv_def)
  show ?thesis
  proof (cases ev)
    case (SAck k av sacks)
    show ?thesis
    proof (cases "ignored av (sn_agent sn)")
      case True
      then show ?thesis using SAck assms full_ok_later [OF f(1)] by (auto simp: sender_inv_def)
    next
      case False
      obtain ag sb where r: "sender_recv burst ops k av sacks (sn_agent sn, sn_board sn) = Some (ag, sb)"
        "full_ok M pinv (tcp_time_stamp k) (ag, sb)"
        using sender_recv_ok [OF f(1), of k av sacks] False assms(2) [unfolded SAck sender_valid.simps] by blast
      have "sender_inv M pinv (tcp_time_stamp k) (sn\<lparr>sn_agent := ag, sn_board := sb\<rparr>)" using r(2) f(2) by (simp add: sender_inv_def)
      from send_much_full [OF this] show ?thesis using SAck False r(1) by simp
    qed
  next
    case (STimeout k)
    obtain ag sb where r: "sender_timeout ops k (sn_agent sn, sn_board sn) = Some (ag, sb)" "full_ok M pinv (tcp_time_stamp k) (ag, sb)"
      using sender_timeout_ok [OF f(1), of k] assms(2) [unfolded STimeout sender_valid.simps] by blast
    have "sender_inv M pinv (tcp_time_stamp k) (sn\<lparr>sn_agent := ag, sn_board := sb\<rparr>)" using r(2) f(2) by (simp add: sender_inv_def)
    from send_much_full [OF this] show ?thesis using STimeout r(1) by simp
  next
    case (SData k n)
    have "sint (word_of_int n :: cint) = n"
      using assms(2) SData sint_ge [of "sn_curseq sn"] by (intro sint_word_small) auto
    then have "sender_inv M pinv (tcp_time_stamp k) (sn\<lparr>sn_curseq := word_of_int n\<rparr>)"
      using assms(2) SData full_ok_later [OF f(1)] by (simp add: sender_inv_def)
    from send_much_full [OF this] show ?thesis using SData by simp
  qed
qed

lemma sender_reach_ok:
  assumes "sender_reach burst ops maxburst M t0 sn0 t sn" and "sender_inv M pinv t0 sn0"
  shows "sender_inv M pinv t sn"
  using assms(1)
proof induction
  case (event t sn ev out sn')
  then show ?case using sender_handle_ok [OF event.IH event.hyps(2), of maxburst] by auto
qed (rule assms(2))

text \<open>
  A timeout makes progress: the first packet not acknowledged is sent again at once, whatever the
  board said before.
\<close>

lemma sender_timeout_first:
  assumes "sender_inv M pinv t sn" and "sender_valid M t sn (STimeout k)"
    and "una = sint (ag_highest_ack (sn_agent sn)) + 1" and "nxt = sint (ag_t_seqno (sn_agent sn))"
    and "{una ..< nxt} - in_state SKB_FLAG_SACKED (sb_head (sn_board sn)) \<noteq> {}"
  shows "\<exists>out sn'. sender_handle burst ops maxburst (STimeout k) sn = Some (out, sn') \<and> out \<noteq> []
    \<and> hd out = Min ({una ..< nxt} - in_state SKB_FLAG_SACKED (sb_head (sn_board sn)))"
proof -
  define L where "L = {una ..< nxt} - in_state SKB_FLAG_SACKED (sb_head (sn_board sn))"
  have f: "full_ok M pinv t (sn_agent sn, sn_board sn)" "sint (sn_curseq sn) < 1073741824" using assms(1) by (simp_all add: sender_inv_def)
  then obtain e where e: "board_ok una e (sn_board sn)" "e \<le> nxt" and q: "0 \<le> una" "una \<le> nxt"
    using assms(3,4) by (auto simp: full_ok_def board_in_def seq_ok_def)
  define sb where "sb = MarkLoss una nxt (sn_board sn)"
  note m = MarkLoss_ok [OF e(1) q e(2), folded sb_def]
  obtain ag sb0 where r: "sender_timeout ops k (sn_agent sn, sn_board sn) = Some (ag, sb0)" "full_ok M pinv (tcp_time_stamp k) (ag, sb0)"
    using sender_timeout_ok [OF f(1), of k] assms(2) unfolding sender_valid.simps by blast
  have s: "same_seqs (sn_agent sn) ag" and sb0: "sb0 = sb"
    using r(1) same_seqs_steps(5) [of ops k "sn_agent sn"] by (auto simp: sender_timeout_def sb_def assms(3,4) same_seqs_def)
  define sn1 where "sn1 = sn\<lparr>sn_agent := ag, sn_board := sb\<rparr>"
  have ok: "sender_ok sn1" using r(2) f(2) by (simp add: sender_ok_def sn1_def sb0 full_ok_def)
  have fl: "agent_in_flight ag sb = 0" using m(4) s by (simp add: agent_in_flight_def same_seqs_def assms(3,4))
  have so: "sock_ok win_limit (ag_linux ag)" using r(2) by (auto simp: full_ok_def agent_ok_def)
  then have "window_of ag = int (unat (snd_cwnd (ag_linux ag)))"
    using sock_okD(4,5) [OF so] by (intro window_of_small) (simp add: win_limit_def)
  then have w: "1 \<le> window_of ag" using sock_okD(4,5) [OF so] by linarith
  have L: "in_state SKB_FLAG_LOST (sb_head sb) = L" "finite L" "L \<noteq> {}" using m(3) assms(5) by (simp_all add: L_def)
  have rx: "sb_retrx sb \<noteq> None"
  proof
    assume "sb_retrx sb = None"
    then have "slen SKB_FLAG_LOST (sb_head sb) = 0" using m(1,5) by (simp add: board_ok_def)
    then have "card L = 0" using slen_card [of una "sb_head sb" nxt SKB_FLAG_LOST] m(1) L(1) by (simp add: board_ok_def)
    then show False using L(2,3) by simp
  qed
  obtain out sn' n where z: "send_much False False False 0 sn1 = Some (out, sn')"
    "filled (window_of ag) (sint (sn_curseq sn)) (ag\<lparr>ag_next_pkts_in_flight := n\<rparr>) sb out (sn_agent sn') (sn_board sn')"
    "send_stops False 0 (sint (sn_curseq sn)) (window_of ag) (length out) (sn_agent sn') (sn_board sn')"
    using send_much_ok [OF ok, of False False False 0] by (auto simp: sn1_def)
  obtain rs where rs: "out = rs @ [sint (ag_t_seqno ag) .. sint (ag_t_seqno (sn_agent sn')) - 1]" "sorted_wrt (<) rs" "set rs \<subseteq> L"
    "in_state SKB_FLAG_LOST (sb_head (sn_board sn')) = L - set rs" "\<forall>x \<in> set rs. \<forall>y \<in> L - set rs. x < y"
    using z(2) unfolding filled_def L(1) by auto
  have "rs \<noteq> []"
  proof
    assume n: "rs = []"
    then have "sb_retrx (sn_board sn') \<noteq> None" using z(2) rx rs(4) L(3) by (auto simp: filled_def)
    then have "\<not> sint (ag_t_seqno ag) < sint (ag_t_seqno (sn_agent sn'))" using z(2) by (auto simp: filled_def)
    then have "out = []" using rs(1) n by simp
    then have "agent_in_flight (sn_agent sn') (sn_board sn') = 0" using z(2) fl by (simp add: filled_def agent_in_flight_def)
    then show False using z(3) w \<open>sb_retrx (sn_board sn') \<noteq> None\<close> by (auto simp: send_stops_def)
  qed
  then obtain x xs where x: "rs = x # xs" by (cases rs) auto
  have "x \<le> y" if "y \<in> L" for y using rs(2,5) that by (cases "y \<in> set rs") (auto simp: x intro: less_imp_le)
  then have "Min L = x" using rs(3) L(2) by (intro Min_eqI) (auto simp: x)
  moreover have "sender_handle burst ops maxburst (STimeout k) sn = Some (out, sn')" using r(1) z(1) by (simp add: sb0 sn1_def)
  ultimately show ?thesis using rs(1) x unfolding L_def [symmetric] by auto
qed

end

section \<open>The agent's part\<close>

text \<open>
  What the sender does with an acknowledgment is what the agent of \<open>Linux_Agent\<close> does with a
  view of it whose free fields the scoreboard fills in.
\<close>

lemma ack_sequence_bits:
  "ack_sequence (av\<lparr>av_scoreboard := bits\<rparr>) p a ag =
     (case ack_sequence (av\<lparr>av_scoreboard := 0\<rparr>) p a ag of (f, ag') \<Rightarrow> (f OR bits, ag'))"
  by (simp add: ack_sequence_def ack_processing_def ack_flags_def Let_def split: prod.splits)

lemma ack_window_view:
  assumes "agent_cong_avoid ops k ack av 0 = agent_cong_avoid ops k ack av' 0"
    and "agent_cong_avoid ops k ack av 1 = agent_cong_avoid ops k ack av' 1" and "av_in_flight av' = p"
  shows "ack_window burst ops k av' flag ack ag =
     (if flag AND FLAG_NOT_DUP = 0 \<or> flag AND FLAG_CA_ALERT \<noteq> 0 \<or> icsk_ca_state (ag_linux ag) \<noteq> TCP_CA_Open
      then (if flag AND FLAG_DATA_ACKED \<noteq> 0 \<and> tcp_may_raise_cwnd flag (ag_linux ag)
            then agent_cong_avoid ops k ack av 0 ag else Some ag) \<bind> tcp_fastretrans_alert burst ops k p flag
      else if flag AND FLAG_DATA_ACKED \<noteq> 0 then agent_cong_avoid ops k ack av 1 ag else Some ag)"
  using assms by (simp add: ack_window_def)

lemma sender_window_agent:
  assumes "sender_window burst ops k av flag ack sb ag = Some (ag', sb')"
  shows "\<exists>p. ack_window burst ops k (av\<lparr>av_scoreboard := bits, av_in_flight := p\<rparr>) flag ack ag = Some ag'"
proof -
  have v: "agent_cong_avoid ops k ack av g = agent_cong_avoid ops k ack (av\<lparr>av_scoreboard := bits, av_in_flight := p\<rparr>) g" for g p
    by (rule ext) (simp add: agent_cong_avoid_def)
  note w = ack_window_view [OF v v, of p for p]
  show ?thesis
  proof (cases "flag AND FLAG_NOT_DUP = 0 \<or> flag AND FLAG_CA_ALERT \<noteq> 0 \<or> icsk_ca_state (ag_linux ag) \<noteq> TCP_CA_Open")
    case True
    define r where "r = (if flag AND FLAG_DATA_ACKED \<noteq> 0 \<and> tcp_may_raise_cwnd flag (ag_linux ag)
            then agent_cong_avoid ops k ack av 0 ag else Some ag)"
    have "r \<bind> sender_alert burst ops k flag sb = Some (ag', sb')"
      using assms unfolding sender_window_def if_P [OF True] r_def .
    then obtain ag1 p where "r = Some ag1" "tcp_fastretrans_alert burst ops k p flag ag1 = Some ag'"
      by (auto simp: sender_alert_def Let_def split: Option.bind_splits)
    then show ?thesis unfolding w [OF refl, simplified] by (intro exI [of _ p]) (use True in \<open>simp flip: r_def\<close>)
  next
    case False
    then show ?thesis unfolding w [OF refl, simplified]
      using assms by (auto simp: sender_window_def split: if_splits)
  qed
qed


lemma sender_recv_agent:
  assumes "sender_recv burst ops k av sacks (ag, sb) = Some (ag', sb')"
  shows "\<exists>bits p. recv burst ops k (av\<lparr>av_prior_in_flight := word_of_int (agent_in_flight ag sb), av_scoreboard := bits,
    av_in_flight := p\<rparr>) ag = Some ag'"
proof (cases "ignored av ag")
  case True
  then show ?thesis using assms by (auto simp: sender_recv_def recv_def ignored_def Let_def)
next
  case False
  define q a where "q = int_u32 (ag_highest_ack ag + 1)" and "a = int_u32 (av_seqno av + 1)"
  define av1 where "av1 = av\<lparr>av_prior_in_flight := word_of_int (agent_in_flight ag sb)\<rparr>"
  obtain flag ag1 where 1: "ack_sequence (av1\<lparr>av_scoreboard := 0\<rparr>) q a ag = (flag, ag1)" by (cases "ack_sequence (av1\<lparr>av_scoreboard := 0\<rparr>) q a ag")
  have "sack_processing (ag_highest_ack ag1) sacks sb \<bind> (\<lambda>(bits, sb). time_processing ops k av1 ag1
      \<bind> (\<lambda>ag. ack_notify ops k av1 (flag OR bits) (a - q) ag \<bind> sender_window burst ops k av1 (flag OR bits) a sb)) = Some (ag', sb')"
    using assms False 1 by (simp add: sender_recv_def Let_def flip: q_def a_def av1_def)
  then obtain bits sb1 ag2 ag3 where s: "time_processing ops k av1 ag1 = Some ag2"
    "ack_notify ops k av1 (flag OR bits) (a - q) ag2 = Some ag3" "sender_window burst ops k av1 (flag OR bits) a sb1 ag3 = Some (ag', sb')"
    by (auto split: Option.bind_splits)
  obtain p where w: "ack_window burst ops k (av1\<lparr>av_scoreboard := bits, av_in_flight := p\<rparr>) (flag OR bits) a ag3 = Some ag'"
    using sender_window_agent [OF s(3), of bits] by blast
  define av2 where "av2 = av1\<lparr>av_scoreboard := bits, av_in_flight := p\<rparr>"
  have "ack_sequence av2 q a ag = ack_sequence (av1\<lparr>av_scoreboard := bits\<rparr>) q a ag"
    by (simp add: av2_def ack_sequence_def ack_processing_def ack_flags_def Let_def)
  then have "ack_sequence av2 q a ag = (flag OR bits, ag1)" unfolding ack_sequence_bits [where av = av1 and bits = bits] 1 by simp
  moreover have "time_processing ops k av2 ag1 = time_processing ops k av1 ag1"
    by (simp add: time_processing_def av2_def Let_def cong: option.case_cong)
  moreover have "ack_notify ops k av2 (flag OR bits) (a - q) ag2 = ack_notify ops k av1 (flag OR bits) (a - q) ag2"
    by (simp add: ack_notify_def av2_def)
  moreover have "ignored av2 ag = ignored av ag" "av_seqno av2 = av_seqno av" by (simp_all add: ignored_def av2_def av1_def)
  ultimately have "recv burst ops k av2 ag = Some ag'"
    using False w s(1,2) by (simp add: recv_def Let_def ignored_def flip: q_def a_def av2_def)
  then show ?thesis unfolding av2_def av1_def by auto
qed

end
