(* ===== verification/Cong_List.thy ===== *)
theory Cong_List
  imports Tcp_Reno
begin

text \<open>
  The registry of congestion control algorithms (\<open>tcp/linux/src/tcp_cong.c\<close>, with the list
  macros of \<open>ns-linux-util.h\<close>): a circular doubly linked list threaded through the operation
  tables, with its head \<open>ns_tcp_cong_list\<close> at address \<open>HEAD\<close>. The store is explicit: the
  \<open>next\<close> and \<open>prev\<close> pointers of every address, and the tables by address, so that the
  macros write the pointers in the order of the source.

  The lemmas relate the store to an abstract list of addresses (\<open>dlist\<close>): adding at
  either end, deleting and moving implement the list operations, and searches terminate and
  find the first match. On top of it: registration, selection of the default, the allowed
  set, and the per-socket choice.
\<close>

section \<open>The list in the store\<close>

definition HEAD :: addr where "HEAD = 0"

record 'p cong_reg =
  l_next :: "addr \<Rightarrow> addr"
  l_prev :: "addr \<Rightarrow> addr"
  l_file :: "addr \<Rightarrow> string option"
  obj :: "addr \<Rightarrow> 'p tcp_congestion_ops"
  last_added :: addr
  cc_list_changed :: bool

definition list_add_rcu :: "addr \<Rightarrow> 'p cong_reg \<Rightarrow> 'p cong_reg" where
  "list_add_rcu a s =
     (let s = s\<lparr>l_next := (l_next s)(a := l_next s HEAD)\<rparr>;
          s = s\<lparr>l_prev := (l_prev s)(a := HEAD)\<rparr>;
          s = s\<lparr>l_prev := (l_prev s)(l_next s HEAD := a)\<rparr>;
          s = s\<lparr>l_next := (l_next s)(HEAD := a)\<rparr>
      in s\<lparr>last_added := a, cc_list_changed := True\<rparr>)"

definition list_add_tail_rcu :: "addr \<Rightarrow> 'p cong_reg \<Rightarrow> 'p cong_reg" where
  "list_add_tail_rcu a s =
     (let s = s\<lparr>l_prev := (l_prev s)(a := l_prev s HEAD)\<rparr>;
          s = s\<lparr>l_next := (l_next s)(a := HEAD)\<rparr>;
          s = s\<lparr>l_next := (l_next s)(l_prev s HEAD := a)\<rparr>;
          s = s\<lparr>l_prev := (l_prev s)(HEAD := a)\<rparr>
      in s\<lparr>last_added := a, cc_list_changed := True\<rparr>)"

definition list_del_rcu :: "addr \<Rightarrow> 'p cong_reg \<Rightarrow> 'p cong_reg" where
  "list_del_rcu a s =
     (let s = s\<lparr>l_next := (l_next s)(l_prev s a := l_next s a)\<rparr>;
          s = s\<lparr>l_prev := (l_prev s)(l_next s a := l_prev s a)\<rparr>
      in s\<lparr>cc_list_changed := True\<rparr>)"

definition list_move :: "addr \<Rightarrow> 'p cong_reg \<Rightarrow> 'p cong_reg" where
  "list_move a s = list_add_rcu a (list_del_rcu a s)"

text \<open>\<open>list_for_each_entry_rcu\<close>: the addresses visited; \<open>None\<close> if the walk never ends.\<close>

partial_function (option) list_walk :: "(addr \<Rightarrow> addr) \<Rightarrow> addr \<Rightarrow> addr list option" where
  "list_walk nx pos =
     (if pos = HEAD then Some []
      else do { xs \<leftarrow> list_walk nx (nx pos); Some (pos # xs) })"

definition list_for_each :: "'p cong_reg \<Rightarrow> addr list option" where
  "list_for_each s = list_walk (l_next s) (l_next s HEAD)"

definition set_linux_file_name :: "string \<Rightarrow> 'p cong_reg \<Rightarrow> 'p cong_reg" where
  "set_linux_file_name nm s =
     (if last_added s \<noteq> HEAD then s\<lparr>l_file := (l_file s)(last_added s := Some nm)\<rparr> else s)"

section \<open>Registration and selection\<close>

definition EINVAL :: int where "EINVAL = 1"
definition EEXIST :: int where "EEXIST = 2"
definition ENOENT :: int where "ENOENT = 3"
definition EBUSY :: int where "EBUSY = 4"
definition EPERM :: int where "EPERM = 6"
definition TCP_CLOSE :: cint where "TCP_CLOSE = 0"
definition TCP_CA_NAME_MAX :: nat where "TCP_CA_NAME_MAX = 16"

text \<open>\<open>tcp_ca_find\<close> leaves the walk at the first table of that name.\<close>

partial_function (option) ca_find_loop ::
    "(addr \<Rightarrow> addr) \<Rightarrow> (addr \<Rightarrow> string) \<Rightarrow> string \<Rightarrow> addr \<Rightarrow> addr option option" where
  "ca_find_loop nx nm n pos =
     (if pos = HEAD then Some None
      else if nm pos = n then Some (Some pos)
      else ca_find_loop nx nm n (nx pos))"

definition tcp_ca_find :: "string \<Rightarrow> 'p cong_reg \<Rightarrow> addr option option" where
  "tcp_ca_find n s = ca_find_loop (l_next s) (\<lambda>a. op_name (obj s a)) n (l_next s HEAD)"

definition tcp_register_congestion_control ::
    "addr \<Rightarrow> 'p cong_reg \<Rightarrow> (int \<times> 'p cong_reg) option" where
  "tcp_register_congestion_control ca s =
     (if Option.is_none (op_ssthresh (obj s ca)) \<or> Option.is_none (op_cong_avoid (obj s ca)) then Some (- EINVAL, s)
      else do {
        r \<leftarrow> tcp_ca_find (op_name (obj s ca)) s;
        Some (if r \<noteq> None then (- EEXIST, s) else (0, list_add_tail_rcu ca s))
      })"

definition tcp_unregister_congestion_control :: "addr \<Rightarrow> 'p cong_reg \<Rightarrow> 'p cong_reg" where
  "tcp_unregister_congestion_control ca s = list_del_rcu ca s"

text \<open>Writing \<open>ca->flags\<close>.\<close>

definition upd_flags :: "(u32 \<Rightarrow> u32) \<Rightarrow> addr \<Rightarrow> 'p cong_reg \<Rightarrow> 'p cong_reg" where
  "upd_flags f a s = s\<lparr>obj := (obj s)(a := (obj s a)\<lparr>op_flags := f (op_flags (obj s a))\<rparr>)\<rparr>"

definition tcp_set_default_congestion_control ::
    "string \<Rightarrow> 'p cong_reg \<Rightarrow> (int \<times> 'p cong_reg) option" where
  "tcp_set_default_congestion_control n s = do {
     r \<leftarrow> tcp_ca_find n s;
     Some (case r of
             None \<Rightarrow> (- ENOENT, s)
           | Some ca \<Rightarrow> (0, list_move ca (upd_flags (\<lambda>fl. fl OR TCP_CONG_NON_RESTRICTED) ca s)))
   }"

text \<open>
  \<open>#define try_module_get(x) 0\<close> and \<open>#define capable(x) 1\<close>: taking a module reference always
  fails, every capability is held.
\<close>

definition try_module_get :: "addr \<Rightarrow> bool" where "try_module_get x = False"
definition capable_net_admin :: bool where "capable_net_admin = True"

text \<open>Calls through \<open>icsk_ca_ops\<close>; reading through a null pointer does not return.\<close>

definition call_init :: "kernel \<Rightarrow> 'p cong_reg \<Rightarrow> 'p tcp_sock \<Rightarrow> 'p tcp_sock option" where
  "call_init k s sk =
     (case icsk_ca_ops sk of
        None \<Rightarrow> None
      | Some a \<Rightarrow> (case op_init (obj s a) of None \<Rightarrow> Some sk | Some f \<Rightarrow> f k sk))"

definition tcp_init_congestion_control ::
    "kernel \<Rightarrow> addr \<Rightarrow> 'p cong_reg \<Rightarrow> 'p tcp_sock \<Rightarrow> 'p tcp_sock option" where
  "tcp_init_congestion_control k init_ops s sk = do {
     sk \<leftarrow> (if icsk_ca_ops sk = Some init_ops
            then do {
              cas \<leftarrow> list_for_each s;
              Some (case find try_module_get cas of
                      Some ca \<Rightarrow> sk\<lparr>icsk_ca_ops := Some ca\<rparr>
                    | None \<Rightarrow> sk)
            }
            else Some sk);
     call_init k s sk
   }"

definition tcp_cleanup_congestion_control ::
    "kernel \<Rightarrow> 'p cong_reg \<Rightarrow> 'p tcp_sock \<Rightarrow> 'p tcp_sock option" where
  "tcp_cleanup_congestion_control k s sk =
     (case icsk_ca_ops sk of
        None \<Rightarrow> None
      | Some a \<Rightarrow> (case op_release (obj s a) of None \<Rightarrow> Some sk | Some f \<Rightarrow> f k sk))"

definition tcp_set_congestion_control ::
    "kernel \<Rightarrow> string \<Rightarrow> 'p cong_reg \<Rightarrow> 'p tcp_sock \<Rightarrow> (int \<times> 'p tcp_sock) option" where
  "tcp_set_congestion_control k n s sk = do {
     ca \<leftarrow> tcp_ca_find n s;
     if ca = icsk_ca_ops sk then Some (0, sk)
     else case ca of
       None \<Rightarrow> Some (- ENOENT, sk)
     | Some a \<Rightarrow>
         if \<not> (op_flags (obj s a) AND TCP_CONG_NON_RESTRICTED \<noteq> 0 \<or> capable_net_admin)
         then Some (- EPERM, sk)
         else if \<not> try_module_get a then Some (- EBUSY, sk)
         else do {
           sk \<leftarrow> tcp_cleanup_congestion_control k s sk;
           let sk = sk\<lparr>icsk_ca_ops := Some a\<rparr>;
           sk \<leftarrow> (if sk_state sk \<noteq> TCP_CLOSE then call_init k s sk else Some sk);
           Some (0, sk)
         }
   }"

section \<open>Names as strings\<close>

text \<open>
  \<open>snprintf(buf + offs, maxlen - offs, "%s%s", sep, name)\<close> into a buffer of known length: at
  most \<open>maxlen - offs - 1\<close> characters and a terminating NUL are stored, the untruncated length is
  returned. A store outside the buffer does not return. \<open>offs\<close> and \<open>maxlen\<close> are
  \<open>size_t\<close>, so \<open>maxlen - offs\<close> wraps around.
\<close>

definition store_string :: "string \<Rightarrow> nat \<Rightarrow> string \<Rightarrow> string option" where
  "store_string buf offs str =
     (if offs + length str \<le> length buf
      then Some (take offs buf @ str @ drop (offs + length str) buf) else None)"

definition snprintf_at :: "string \<Rightarrow> u64 \<Rightarrow> u64 \<Rightarrow> string \<Rightarrow> (string \<times> u64) option" where
  "snprintf_at buf offs sz str =
     (if sz = 0 then Some (buf, of_nat (length str))
      else do {
        buf \<leftarrow> store_string buf (unat offs) (take (unat sz - 1) str @ [CHR 0x00]);
        Some (buf, of_nat (length str))
      })"

fun append_names :: "u64 \<Rightarrow> string list \<Rightarrow> string \<Rightarrow> u64 \<Rightarrow> (string \<times> u64) option" where
  "append_names maxlen [] buf offs = Some (buf, offs)"
| "append_names maxlen (nm # nms) buf offs = do {
     (buf, n) \<leftarrow> snprintf_at buf offs (maxlen - offs) ((if offs = 0 then '''' else '' '') @ nm);
     append_names maxlen nms buf (offs + n)
   }"

definition tcp_get_available_congestion_control ::
    "string \<Rightarrow> u64 \<Rightarrow> 'p cong_reg \<Rightarrow> string option" where
  "tcp_get_available_congestion_control buf maxlen s = do {
     cas \<leftarrow> list_for_each s;
     (buf, offs) \<leftarrow> append_names maxlen (map (\<lambda>a. op_name (obj s a)) cas) buf 0;
     Some buf
   }"

definition strncpy :: "nat \<Rightarrow> string \<Rightarrow> string" where
  "strncpy n str = take n (str @ replicate n (CHR 0x00))"

definition tcp_get_default_congestion_control :: "'p cong_reg \<Rightarrow> string option" where
  "tcp_get_default_congestion_control s =
     (if l_next s HEAD = HEAD then None \<comment> \<open>the head is not a table\<close>
      else Some (strncpy TCP_CA_NAME_MAX (op_name (obj s (l_next s HEAD)))))"

definition tcp_get_allowed_congestion_control ::
    "string \<Rightarrow> u64 \<Rightarrow> 'p cong_reg \<Rightarrow> string option" where
  "tcp_get_allowed_congestion_control buf maxlen s = do {
     buf \<leftarrow> store_string buf 0 [CHR 0x00];
     cas \<leftarrow> list_for_each s;
     (buf, offs) \<leftarrow> append_names maxlen
       (map (\<lambda>a. op_name (obj s a))
         (filter (\<lambda>a. op_flags (obj s a) AND TCP_CONG_NON_RESTRICTED \<noteq> 0) cas)) buf 0;
     Some buf
   }"

text \<open>
  \<open>while ((name = strsep(&val, " ")) && *name)\<close>: the fields between single blanks, up to the
  first empty one. After the last field \<open>strsep\<close> leaves a null pointer.
\<close>

function sep_names :: "string \<Rightarrow> string list" where
  "sep_names str =
     (let field = takeWhile (\<lambda>c. c \<noteq> CHR '' '') str;
          rest = dropWhile (\<lambda>c. c \<noteq> CHR '' '') str
      in if field = [] then []
         else case rest of [] \<Rightarrow> [field] | _ # others \<Rightarrow> field # sep_names others)"
  by pat_completeness auto
termination
proof (relation "measure length")
  fix str :: string and field rest c others
  assume "field = takeWhile (\<lambda>c. c \<noteq> CHR '' '') str" "rest = dropWhile (\<lambda>c. c \<noteq> CHR '' '') str"
    and "rest = c # others"
  then have "length (c # others) \<le> length str" by (metis length_dropWhile_le)
  then show "(others, str) \<in> measure length" by simp
qed simp

text \<open>Pass 1 stops at the first unknown name, pass 3 marks the known ones.\<close>

fun check_names :: "string list \<Rightarrow> 'p cong_reg \<Rightarrow> int option" where
  "check_names [] s = Some 0"
| "check_names (n # ns) s = do {
     ca \<leftarrow> tcp_ca_find n s;
     if ca = None then Some (- ENOENT) else check_names ns s
   }"

fun mark_names :: "string list \<Rightarrow> 'p cong_reg \<Rightarrow> 'p cong_reg option" where
  "mark_names [] s = Some s"
| "mark_names (n # ns) s = do {
     ca \<leftarrow> tcp_ca_find n s;
     mark_names ns (case ca of None \<Rightarrow> s | Some a \<Rightarrow> upd_flags (\<lambda>fl. fl OR TCP_CONG_NON_RESTRICTED) a s)
   }"

definition tcp_set_allowed_congestion_control ::
    "string \<Rightarrow> 'p cong_reg \<Rightarrow> (int \<times> 'p cong_reg) option" where
  "tcp_set_allowed_congestion_control val s = do {
     ret \<leftarrow> check_names (sep_names val) s;
     if ret \<noteq> 0 then Some (ret, s)
     else do {
       cas \<leftarrow> list_for_each s;
       let s = fold (upd_flags (\<lambda>fl. fl AND NOT TCP_CONG_NON_RESTRICTED)) cas s;
       s \<leftarrow> mark_names (sep_names val) s;
       Some (0, s)
     }
   }"

section \<open>The store implements a list\<close>

fun linked :: "(addr \<Rightarrow> addr) \<Rightarrow> (addr \<Rightarrow> addr) \<Rightarrow> addr list \<Rightarrow> bool" where
  "linked nx pv (p # q # ps) \<longleftrightarrow> nx p = q \<and> pv q = p \<and> linked nx pv (q # ps)"
| "linked nx pv ps \<longleftrightarrow> True"

definition dlist :: "'p cong_reg \<Rightarrow> addr list \<Rightarrow> bool" where
  "dlist s xs \<longleftrightarrow> linked (l_next s) (l_prev s) (HEAD # xs @ [HEAD]) \<and> distinct (HEAD # xs)"

lemma linked_append: "linked nx pv (xs @ y # ys) \<longleftrightarrow> linked nx pv (xs @ [y]) \<and> linked nx pv (y # ys)"
  by (induction nx pv xs rule: linked.induct) (auto simp: neq_Nil_conv split: list.splits)

lemma linked_next_frame: "p \<notin> set (butlast ps) \<Longrightarrow> linked (nx(p := v)) pv ps = linked nx pv ps"
  by (induction nx pv ps rule: linked.induct) auto

lemma linked_prev_frame: "q \<notin> set (tl ps) \<Longrightarrow> linked nx (pv(q := v)) ps = linked nx pv ps"
  by (induction nx pv ps rule: linked.induct) (auto split: if_splits)

lemma dlist_last:
  assumes "dlist s xs" and "HEAD # xs = ys @ [z]"
  shows "l_prev s HEAD = z" and "l_next s z = HEAD" and "linked (l_next s) (l_prev s) (ys @ [z])"
proof -
  have "HEAD # xs @ [HEAD] = (HEAD # xs) @ [HEAD]" by simp
  also have "\<dots> = ys @ z # [HEAD]" by (simp add: assms(2))
  finally have "linked (l_next s) (l_prev s) (ys @ z # [HEAD])"
    using assms(1) by (simp only: dlist_def)
  then have "linked (l_next s) (l_prev s) (ys @ [z]) \<and> linked (l_next s) (l_prev s) (z # [HEAD])"
    by (simp only: linked_append [of _ _ ys z "[HEAD]"])
  then show "l_prev s HEAD = z" "l_next s z = HEAD" "linked (l_next s) (l_prev s) (ys @ [z])" by simp_all
qed

lemma snoc_form: "\<exists>ys z. x # xs = ys @ [z]"
  by (metis append_butlast_last_id list.distinct(1))

lemma dlist_add_tail:
  assumes "dlist s xs" and "a \<notin> set xs" and "a \<noteq> HEAD"
  shows "dlist (list_add_tail_rcu a s) (xs @ [a])"
proof -
  obtain ys z where e: "HEAD # xs = ys @ [z]" using snoc_form by metis
  note z = dlist_last [OF assms(1) e]
  let ?nx = "l_next s" and ?pv = "l_prev s"
  let ?nx' = "?nx(a := HEAD, z := a)" and ?pv' = "?pv(a := z, HEAD := a)"
  have dx: "distinct (HEAD # xs)" "a \<notin> set (HEAD # xs)" "HEAD \<notin> set (tl (HEAD # xs))"
    using assms by (auto simp: dlist_def)
  have d: "distinct (ys @ [z])" "a \<notin> set (ys @ [z])" "HEAD \<notin> set (tl (ys @ [z]))" using dx unfolding e .
  then have "a \<notin> set (butlast (ys @ [z]))" "z \<notin> set (butlast (ys @ [z]))" "a \<notin> set (tl (ys @ [z]))"
    by (auto dest: in_set_butlastD list.set_sel(2) [rotated])
  then have "linked ?nx' ?pv' (ys @ [z])"
    using z(3) d(3) by (simp only: linked_next_frame linked_prev_frame not_False_eq_True)
  moreover have "linked ?nx' ?pv' (z # [a, HEAD])" using d assms(3) by auto
  ultimately have "linked ?nx' ?pv' (ys @ z # [a, HEAD])" by (simp only: linked_append [of _ _ ys z "[a, HEAD]"])
  moreover have "l_next (list_add_tail_rcu a s) = ?nx'" "l_prev (list_add_tail_rcu a s) = ?pv'"
    using z assms(3) by (auto simp: list_add_tail_rcu_def Let_def)
  moreover have "HEAD # (xs @ [a]) @ [HEAD] = ys @ z # [a, HEAD]"
  proof -
    have "HEAD # (xs @ [a]) @ [HEAD] = (HEAD # xs) @ [a, HEAD]" by simp
    then show ?thesis by (simp add: e)
  qed
  moreover have "distinct (HEAD # (xs @ [a]))" using assms by (simp add: dlist_def)
  ultimately show ?thesis by (simp only: dlist_def)
qed

lemma dlist_add:
  assumes "dlist s xs" and "a \<notin> set xs" and "a \<noteq> HEAD"
  shows "dlist (list_add_rcu a s) (a # xs)"
proof -
  obtain y rest where e: "xs @ [HEAD] = y # rest" by (cases "xs @ [HEAD]") auto
  let ?nx = "l_next s" and ?pv = "l_prev s"
  let ?nx' = "?nx(a := y, HEAD := a)" and ?pv' = "?pv(a := HEAD, y := a)"
  have "linked ?nx ?pv (HEAD # y # rest)" using assms(1) by (simp only: dlist_def e)
  then have y: "?nx HEAD = y" "linked ?nx ?pv (y # rest)" by simp_all
  have b: "butlast (y # rest) = xs" by (metis e butlast_snoc)
  have ne: "a \<noteq> y" using e assms by (cases xs) auto
  have "a \<notin> set (butlast (y # rest))" "HEAD \<notin> set (butlast (y # rest))"
    using assms b by (simp_all add: dlist_def)
  moreover have "a \<notin> set (tl (y # rest))" "y \<notin> set (tl (y # rest))"
    using e assms by (cases xs; auto simp: dlist_def)+
  ultimately have "linked ?nx' ?pv' (y # rest)"
    using y(2) by (simp only: linked_next_frame linked_prev_frame not_False_eq_True)
  then have "linked ?nx' ?pv' (HEAD # a # y # rest)" using ne assms(3) by simp
  moreover have "l_next (list_add_rcu a s) = ?nx'" "l_prev (list_add_rcu a s) = ?pv'"
    using y assms(3) by (auto simp: list_add_rcu_def Let_def)
  ultimately show ?thesis using assms by (simp add: dlist_def e)
qed

lemma dlist_del:
  assumes "dlist s (us @ a # vs)"
  shows "dlist (list_del_rcu a s) (us @ vs)"
proof -
  obtain ys p where e1: "HEAD # us = ys @ [p]" using snoc_form by metis
  obtain n ws where e2: "vs @ [HEAD] = n # ws" by (cases "vs @ [HEAD]") auto
  let ?nx = "l_next s" and ?pv = "l_prev s"
  let ?nx' = "?nx(p := n)" and ?pv' = "?pv(n := p)"
  have eq: "HEAD # (us @ a # vs) @ [HEAD] = ys @ p # (a # n # ws)"
  proof -
    have "HEAD # (us @ a # vs) @ [HEAD] = (HEAD # us) @ a # (vs @ [HEAD])" by simp
    then show ?thesis by (simp only: e1 e2) simp
  qed
  have l: "linked ?nx ?pv (ys @ p # (a # n # ws))" using assms by (simp only: dlist_def eq)
  then have l1: "linked ?nx ?pv (ys @ [p])" and "linked ?nx ?pv (p # a # n # ws)"
    by (simp_all only: linked_append [of _ _ ys p "a # n # ws"])
  then have pa: "?pv a = p" "?nx a = n" and l2: "linked ?nx ?pv (n # ws)" by simp_all
  have dx: "distinct (HEAD # us @ a # vs)" using assms by (simp add: dlist_def)
  have pin: "p \<in> set (HEAD # us)" by (simp only: e1) simp
  then have pne: "p \<noteq> a" using dx by auto
  have bl: "butlast (n # ws) = vs" by (metis e2 butlast_snoc)
  have nin: "n \<in> set (vs @ [HEAD])" by (simp only: e2) simp
  have "p \<notin> set (butlast (ys @ [p]))" using dx e1 by (metis butlast_snoc distinct_append distinct.simps(2) append_Cons not_distinct_conv_prefix)
  moreover have "n \<notin> set (tl (ys @ [p]))" using nin dx unfolding e1 [symmetric] by auto
  moreover have "p \<notin> set (butlast (n # ws))" using pin dx unfolding bl by auto
  moreover have "n \<notin> set (tl (n # ws))" using e2 dx by (cases vs) auto
  ultimately have "linked ?nx' ?pv' (ys @ [p])" "linked ?nx' ?pv' (n # ws)"
    using l1 l2 by (simp_all only: linked_next_frame linked_prev_frame not_False_eq_True)
  then have "linked ?nx' ?pv' (ys @ p # (n # ws))"
    by (simp only: linked_append [of _ _ ys p "n # ws"]) simp
  moreover have "HEAD # (us @ vs) @ [HEAD] = ys @ p # (n # ws)"
  proof -
    have "HEAD # (us @ vs) @ [HEAD] = (HEAD # us) @ (vs @ [HEAD])" by simp
    then show ?thesis by (simp only: e1 e2) simp
  qed
  moreover have "l_next (list_del_rcu a s) = ?nx'" "l_prev (list_del_rcu a s) = ?pv'"
    using pa pne by (auto simp: list_del_rcu_def Let_def)
  moreover have "distinct (HEAD # us @ vs)" using dx by simp
  ultimately show ?thesis by (simp only: dlist_def)
qed

lemma dlist_move:
  assumes "dlist s (us @ a # vs)"
  shows "dlist (list_move a s) (a # us @ vs)"
  using dlist_add [OF dlist_del [OF assms]] assms by (simp add: list_move_def dlist_def)


text \<open>Walks end at the head and visit the list in order; a search stops at the first match.\<close>

lemma list_walk_linked:
  "linked nx pv (xs @ [HEAD]) \<Longrightarrow> HEAD \<notin> set xs \<Longrightarrow> list_walk nx (hd (xs @ [HEAD])) = Some xs"
proof (induction xs)
  case Nil
  then show ?case by (simp add: list_walk.simps)
next
  case (Cons x xs)
  then have "nx x = hd (xs @ [HEAD])" "linked nx pv (xs @ [HEAD])" by (cases xs; simp)+
  with Cons show ?case by (simp add: list_walk.simps [of nx x])
qed

lemma ca_find_linked:
  "linked nx pv (xs @ [HEAD]) \<Longrightarrow> HEAD \<notin> set xs \<Longrightarrow>
     ca_find_loop nx nm n (hd (xs @ [HEAD])) = Some (find (\<lambda>a. nm a = n) xs)"
proof (induction xs)
  case Nil
  then show ?case by (simp add: ca_find_loop.simps)
next
  case (Cons x xs)
  then have "nx x = hd (xs @ [HEAD])" "linked nx pv (xs @ [HEAD])" by (cases xs; simp)+
  with Cons show ?case by (simp add: ca_find_loop.simps [of nx nm n x])
qed

lemma dlist_first:
  assumes "dlist s xs"
  shows "l_next s HEAD = hd (xs @ [HEAD])" and "linked (l_next s) (l_prev s) (xs @ [HEAD])"
    and "HEAD \<notin> set xs" and "distinct xs"
  using assms by (cases xs; simp add: dlist_def)+

lemma list_for_each_dlist: "dlist s xs \<Longrightarrow> list_for_each s = Some xs"
  using list_walk_linked dlist_first by (metis list_for_each_def)

lemma tcp_ca_find_dlist:
  "dlist s xs \<Longrightarrow> tcp_ca_find n s = Some (find (\<lambda>a. op_name (obj s a) = n) xs)"
  using ca_find_linked [OF dlist_first(2,3)] dlist_first(1) by (metis tcp_ca_find_def)

lemma dlist_upd_flags [simp]: "dlist (upd_flags f a s) xs = dlist s xs"
  by (simp add: dlist_def upd_flags_def)

lemma op_name_upd_flags [simp]: "op_name (obj (upd_flags f a s) b) = op_name (obj s b)"
  by (simp add: upd_flags_def)

lemma obj_list_ops [simp]:
  "obj (list_add_rcu a s) = obj s" "obj (list_add_tail_rcu a s) = obj s"
  "obj (list_del_rcu a s) = obj s" "obj (list_move a s) = obj s"
  by (simp_all add: list_add_rcu_def list_add_tail_rcu_def list_del_rcu_def list_move_def Let_def)

definition reg_names :: "'p cong_reg \<Rightarrow> addr list \<Rightarrow> string list" where
  "reg_names s xs = map (\<lambda>a. op_name (obj s a)) xs"

definition reg_ok :: "'p cong_reg \<Rightarrow> addr list \<Rightarrow> bool" where
  "reg_ok s xs \<longleftrightarrow> dlist s xs \<and> distinct (reg_names s xs)"

lemma find_name_None: "find (\<lambda>a. op_name (obj s a) = n) xs = None \<longleftrightarrow> n \<notin> set (reg_names s xs)"
  by (auto simp: find_None_iff reg_names_def)

lemma register_cases:
  assumes "reg_ok s xs" and "ca \<noteq> HEAD"
  shows "op_ssthresh (obj s ca) = None \<or> op_cong_avoid (obj s ca) = None \<Longrightarrow>
      tcp_register_congestion_control ca s = Some (- EINVAL, s)"
    and "op_ssthresh (obj s ca) \<noteq> None \<Longrightarrow> op_cong_avoid (obj s ca) \<noteq> None \<Longrightarrow>
      op_name (obj s ca) \<in> set (reg_names s xs) \<Longrightarrow>
      tcp_register_congestion_control ca s = Some (- EEXIST, s)"
    and "op_ssthresh (obj s ca) \<noteq> None \<Longrightarrow> op_cong_avoid (obj s ca) \<noteq> None \<Longrightarrow>
      op_name (obj s ca) \<notin> set (reg_names s xs) \<Longrightarrow>
      \<exists>s'. tcp_register_congestion_control ca s = Some (0, s') \<and> reg_ok s' (xs @ [ca])
        \<and> obj s' = obj s"
proof -
  have f: "tcp_ca_find (op_name (obj s ca)) s = Some (find (\<lambda>a. op_name (obj s a) = op_name (obj s ca)) xs)"
    using assms(1) by (simp add: reg_ok_def tcp_ca_find_dlist)
  show "tcp_register_congestion_control ca s = Some (- EINVAL, s)"
    if "op_ssthresh (obj s ca) = None \<or> op_cong_avoid (obj s ca) = None"
    using that by (simp add: tcp_register_congestion_control_def Option.is_none_def)
  show "tcp_register_congestion_control ca s = Some (- EEXIST, s)"
    if "op_ssthresh (obj s ca) \<noteq> None" "op_cong_avoid (obj s ca) \<noteq> None"
      "op_name (obj s ca) \<in> set (reg_names s xs)"
    using that find_name_None [of s "op_name (obj s ca)" xs]
    by (auto simp: tcp_register_congestion_control_def Option.is_none_def f)
  show "\<exists>s'. tcp_register_congestion_control ca s = Some (0, s') \<and> reg_ok s' (xs @ [ca]) \<and> obj s' = obj s"
    if "op_ssthresh (obj s ca) \<noteq> None" "op_cong_avoid (obj s ca) \<noteq> None"
      and n: "op_name (obj s ca) \<notin> set (reg_names s xs)"
  proof -
    have "ca \<notin> set xs" using n by (auto simp: reg_names_def)
    then have "reg_ok (list_add_tail_rcu ca s) (xs @ [ca])"
      using assms n dlist_add_tail [of s xs ca] by (simp add: reg_ok_def reg_names_def)
    moreover have "tcp_register_congestion_control ca s = Some (0, list_add_tail_rcu ca s)"
      using that(1,2) n find_name_None [of s "op_name (obj s ca)" xs]
      by (auto simp: tcp_register_congestion_control_def Option.is_none_def f)
    ultimately show ?thesis by (simp add: list_add_tail_rcu_def)
  qed
qed

lemma set_default_cases:
  assumes "reg_ok s xs"
  shows "n \<notin> set (reg_names s xs) \<Longrightarrow> tcp_set_default_congestion_control n s = Some (- ENOENT, s)"
    and "n \<in> set (reg_names s xs) \<Longrightarrow>
      \<exists>s' us a vs. xs = us @ a # vs \<and> op_name (obj s a) = n
        \<and> tcp_set_default_congestion_control n s = Some (0, s') \<and> reg_ok s' (a # us @ vs)
        \<and> op_flags (obj s' a) = op_flags (obj s a) OR TCP_CONG_NON_RESTRICTED"
proof -
  have f: "tcp_ca_find n s = Some (find (\<lambda>a. op_name (obj s a) = n) xs)"
    using assms by (simp add: reg_ok_def tcp_ca_find_dlist)
  show "tcp_set_default_congestion_control n s = Some (- ENOENT, s)" if "n \<notin> set (reg_names s xs)"
    using that find_name_None [of s n xs] by (simp add: tcp_set_default_congestion_control_def f)
  assume n: "n \<in> set (reg_names s xs)"
  then obtain a where a: "find (\<lambda>a. op_name (obj s a) = n) xs = Some a"
    using find_name_None [of s n xs] by auto
  then have nm: "op_name (obj s a) = n" and "a \<in> set xs"
    by (auto simp: find_Some_iff)
  then obtain us vs where x: "xs = us @ a # vs" by (metis split_list)
  let ?s = "upd_flags (\<lambda>fl. fl OR TCP_CONG_NON_RESTRICTED) a s"
  have "dlist (list_move a ?s) (a # us @ vs)"
    using assms by (intro dlist_move) (simp add: reg_ok_def x)
  moreover have "distinct (reg_names (list_move a ?s) (a # us @ vs))"
    using assms by (auto simp: reg_ok_def reg_names_def x)
  ultimately have "reg_ok (list_move a ?s) (a # us @ vs)" by (simp add: reg_ok_def)
  then show "\<exists>s' us a vs. xs = us @ a # vs \<and> op_name (obj s a) = n
        \<and> tcp_set_default_congestion_control n s = Some (0, s') \<and> reg_ok s' (a # us @ vs)
        \<and> op_flags (obj s' a) = op_flags (obj s a) OR TCP_CONG_NON_RESTRICTED"
    using x nm a by (intro exI [of _ "list_move a ?s"] exI [of _ us] exI [of _ a] exI [of _ vs])
      (simp add: tcp_set_default_congestion_control_def f, simp add: upd_flags_def)
qed

lemma unregister_reg_ok:
  "reg_ok s (us @ a # vs) \<Longrightarrow> reg_ok (tcp_unregister_congestion_control a s) (us @ vs)"
  using dlist_del [of s us a vs] by (auto simp: reg_ok_def tcp_unregister_congestion_control_def reg_names_def)

lemma set_congestion_control_never_switches:
  assumes "reg_ok s xs"
  shows "\<exists>r. tcp_set_congestion_control k n s sk = Some (r, sk) \<and>
     r = (if find (\<lambda>a. op_name (obj s a) = n) xs = icsk_ca_ops sk then 0
          else if n \<in> set (reg_names s xs) then - EBUSY else - ENOENT)"
  using assms find_name_None [of s n xs]
  by (auto simp: reg_ok_def tcp_set_congestion_control_def tcp_ca_find_dlist try_module_get_def
      capable_net_admin_def split: option.splits)

section \<open>The allowed set\<close>

text \<open>Two stores with the same links and names: what only changes flags keeps the list.\<close>

lemma reg_ok_upd_flags [simp]: "reg_ok (upd_flags f a s) xs = reg_ok s xs"
  by (simp add: reg_ok_def reg_names_def)

lemma reg_names_upd_flags [simp]: "reg_names (upd_flags f a s) xs = reg_names s xs"
  by (simp add: reg_names_def)

lemma reg_ok_find: "reg_ok s xs \<Longrightarrow> tcp_ca_find n s = Some (find (\<lambda>a. op_name (obj s a) = n) xs)"
  by (simp add: reg_ok_def tcp_ca_find_dlist)

lemma reg_ok_find_member:
  assumes "reg_ok s xs" and "a \<in> set xs"
  shows "find (\<lambda>b. op_name (obj s b) = op_name (obj s a)) xs = Some a"
proof -
  have d: "distinct (reg_names s xs)" using assms(1) by (simp add: reg_ok_def)
  have "find (\<lambda>b. op_name (obj s b) = op_name (obj s a)) xs = Some a" if "a \<in> set xs" "distinct (reg_names s xs)" for xs
    using that by (induction xs) (auto simp: reg_names_def)
  then show ?thesis using assms(2) d by blast
qed

lemma check_names_ok:
  "reg_ok s xs \<Longrightarrow> check_names ns s = Some (if set ns \<subseteq> set (reg_names s xs) then 0 else - ENOENT)"
  using find_name_None [of s _ xs] by (induction ns) (auto simp: reg_ok_find)

definition restricted :: "'p cong_reg \<Rightarrow> addr \<Rightarrow> bool" where
  "restricted s a \<longleftrightarrow> op_flags (obj s a) AND TCP_CONG_NON_RESTRICTED = 0"

lemma restricted_or: "restricted (upd_flags (\<lambda>fl. fl OR TCP_CONG_NON_RESTRICTED) a s) b \<longleftrightarrow> b \<noteq> a \<and> restricted s b"
proof -
  have "(x OR 1) AND 1 = (1 :: 64 word)" for x by (rule bit_word_eqI) (auto simp: bit_simps)
  then show ?thesis by (simp add: restricted_def upd_flags_def TCP_CONG_NON_RESTRICTED_def)
qed

lemma restricted_clear: "restricted (upd_flags (\<lambda>fl. fl AND NOT TCP_CONG_NON_RESTRICTED) a s) b \<longleftrightarrow> b = a \<or> restricted s b"
proof -
  have "(x AND NOT 1) AND 1 = (0 :: 64 word)" for x by (rule bit_word_eqI) (auto simp: bit_simps)
  then show ?thesis by (simp add: restricted_def upd_flags_def TCP_CONG_NON_RESTRICTED_def)
qed

lemma clear_all:
  "reg_ok (fold (upd_flags (\<lambda>fl. fl AND NOT TCP_CONG_NON_RESTRICTED)) as s) xs = reg_ok s xs"
  "reg_names (fold (upd_flags (\<lambda>fl. fl AND NOT TCP_CONG_NON_RESTRICTED)) as s) ys = reg_names s ys"
  "op_name (obj (fold (upd_flags (\<lambda>fl. fl AND NOT TCP_CONG_NON_RESTRICTED)) as s) b) = op_name (obj s b)"
  "restricted (fold (upd_flags (\<lambda>fl. fl AND NOT TCP_CONG_NON_RESTRICTED)) as s) b \<longleftrightarrow> b \<in> set as \<or> restricted s b"
  by (induction as arbitrary: s) (auto simp: restricted_clear)

lemma mark_names_ok:
  "reg_ok s xs \<Longrightarrow> \<exists>s'. mark_names ns s = Some s' \<and> reg_ok s' xs
     \<and> (\<forall>b. op_name (obj s' b) = op_name (obj s b))
     \<and> (\<forall>b \<in> set xs. restricted s' b \<longleftrightarrow> restricted s b \<and> op_name (obj s b) \<notin> set ns)"
proof (induction ns arbitrary: s)
  case Nil
  then show ?case by simp
next
  case (Cons n ns)
  show ?case
  proof (cases "find (\<lambda>a. op_name (obj s a) = n) xs")
    case None
    then have "n \<notin> set (reg_names s xs)" by (simp add: find_name_None)
    then have nm: "op_name (obj s b) \<noteq> n" if "b \<in> set xs" for b
      using that by (auto simp: reg_names_def)
    obtain s' where s': "mark_names ns s = Some s'" "reg_ok s' xs"
      "\<And>b. op_name (obj s' b) = op_name (obj s b)"
      "\<And>b. b \<in> set xs \<Longrightarrow> restricted s' b \<longleftrightarrow> restricted s b \<and> op_name (obj s b) \<notin> set ns"
      using Cons.IH [OF Cons.prems] by auto
    have m: "mark_names (n # ns) s = Some s'" using s'(1) by (simp add: reg_ok_find [OF Cons.prems] None)
    show ?thesis
    proof (intro exI conjI allI ballI)
      show "mark_names (n # ns) s = Some s'" by (rule m)
      show "reg_ok s' xs" by (rule s'(2))
      show "op_name (obj s' b) = op_name (obj s b)" for b by (rule s'(3))
      show "restricted s' b \<longleftrightarrow> restricted s b \<and> op_name (obj s b) \<notin> set (n # ns)" if "b \<in> set xs" for b
        using s'(4) [OF that] nm [OF that] by simp
    qed
  next
    case (Some a)
    let ?s = "upd_flags (\<lambda>fl. fl OR TCP_CONG_NON_RESTRICTED) a s"
    have a: "op_name (obj s a) = n" "a \<in> set xs" using Some by (auto simp: find_Some_iff)
    have u: "b = a \<longleftrightarrow> op_name (obj s b) = n" if "b \<in> set xs" for b
    proof
      assume "b = a" then show "op_name (obj s b) = n" using a(1) by simp
    next
      assume e: "op_name (obj s b) = n"
      show "b = a" using reg_ok_find_member [OF Cons.prems that] Some unfolding e by simp
    qed
    obtain s' where s': "mark_names ns ?s = Some s'" "reg_ok s' xs"
      "\<And>b. op_name (obj s' b) = op_name (obj s b)"
      "\<And>b. b \<in> set xs \<Longrightarrow> restricted s' b \<longleftrightarrow> restricted ?s b \<and> op_name (obj s b) \<notin> set ns"
      using Cons.IH [of ?s] Cons.prems by auto
    show ?thesis
    proof (intro exI conjI allI ballI)
      show "mark_names (n # ns) s = Some s'" using s'(1) by (simp add: reg_ok_find [OF Cons.prems] Some)
      show "reg_ok s' xs" by (rule s'(2))
      show "op_name (obj s' b) = op_name (obj s b)" for b by (rule s'(3))
      show "restricted s' b \<longleftrightarrow> restricted s b \<and> op_name (obj s b) \<notin> set (n # ns)" if "b \<in> set xs" for b
        using s'(4) [OF that] u [OF that] by (simp add: restricted_or) blast
    qed
  qed
qed

lemma set_allowed_known:
  assumes "reg_ok s xs" and "set (sep_names val) \<subseteq> set (reg_names s xs)"
  shows "\<exists>s'. tcp_set_allowed_congestion_control val s = Some (0, s') \<and> reg_ok s' xs
    \<and> reg_names s' xs = reg_names s xs
    \<and> (\<forall>a \<in> set xs. restricted s' a \<longleftrightarrow> op_name (obj s a) \<notin> set (sep_names val))"
proof -
  have "list_for_each s = Some xs" using assms(1) by (simp add: reg_ok_def list_for_each_dlist)
  then show ?thesis
    using mark_names_ok [of "fold (upd_flags (\<lambda>fl. fl AND NOT TCP_CONG_NON_RESTRICTED)) xs s" xs "sep_names val"]
      assms check_names_ok [OF assms(1), of "sep_names val"]
    by (auto simp: tcp_set_allowed_congestion_control_def clear_all reg_names_def simp del: sep_names.simps)
qed

lemma set_allowed_unknown:
  assumes "reg_ok s xs" and "\<not> set (sep_names val) \<subseteq> set (reg_names s xs)"
  shows "tcp_set_allowed_congestion_control val s = Some (- ENOENT, s)"
  using assms check_names_ok [OF assms(1), of "sep_names val"]
  by (simp add: tcp_set_allowed_congestion_control_def ENOENT_def del: sep_names.simps)

section \<open>Printing and splitting the list of names\<close>

fun join_names :: "string list \<Rightarrow> string" where
  "join_names [] = ''''"
| "join_names [n] = n"
| "join_names (n # ns) = n @ CHR '' '' # join_names ns"

definition good_name :: "string \<Rightarrow> bool" where
  "good_name n \<longleftrightarrow> n \<noteq> [] \<and> CHR '' '' \<notin> set n \<and> CHR 0x00 \<notin> set n"

declare sep_names.simps [simp del]

lemma takeWhile_not_in: "c \<notin> set n \<Longrightarrow> takeWhile (\<lambda>x. x \<noteq> c) (n @ c # r) = n"
  by (induction n) auto

lemma dropWhile_not_in: "c \<notin> set n \<Longrightarrow> dropWhile (\<lambda>x. x \<noteq> c) (n @ c # r) = c # r"
  by (induction n) auto

lemma sep_names_single: "good_name n \<Longrightarrow> sep_names n = [n]"
proof -
  assume n: "good_name n"
  then have tw: "takeWhile (\<lambda>c. c \<noteq> CHR '' '') n = n" "dropWhile (\<lambda>c. c \<noteq> CHR '' '') n = []"
    by (auto simp: good_name_def takeWhile_eq_all_conv dropWhile_eq_Nil_conv)
  show ?thesis using n by (simp add: sep_names.simps [of n] tw good_name_def)
qed

lemma sep_names_join: "list_all good_name ns \<Longrightarrow> sep_names (join_names ns) = ns"
proof (induction ns rule: join_names.induct)
  case 1
  then show ?case by (simp add: sep_names.simps)
next
  case (2 n)
  then show ?case by (simp add: sep_names_single)
next
  case (3 n m ns)
  then show ?case
    by (subst sep_names.simps) (simp add: good_name_def takeWhile_not_in dropWhile_not_in Let_def)
qed

definition c_string :: "string \<Rightarrow> string" where
  "c_string buf = takeWhile (\<lambda>c. c \<noteq> CHR 0x00) buf"

text \<open>As long as everything fits, each \<open>snprintf\<close> appends one name and a NUL.\<close>

lemma snprintf_at_fits:
  assumes "unat M = length buf" and "unat off + length str < length buf"
  shows "snprintf_at buf off (M - off) str =
     Some (take (unat off) buf @ str @ [CHR 0x00] @ drop (unat off + length str + 1) buf, of_nat (length str))"
proof -
  have "unat (M - off) = length buf - unat off"
    using assms by (subst unat_sub_le) (auto simp: word_le_nat_alt)
  moreover from this have "M - off \<noteq> 0" using assms(2) by (metis less_add_same_cancel1 linorder_not_less trans_less_add1 unat_0 zero_less_diff add_lessD1 less_nat_zero_code)
  ultimately show ?thesis using assms by (simp add: snprintf_at_def store_string_def)
qed

definition sep_join :: "string list \<Rightarrow> string" where
  "sep_join ns = concat (map (\<lambda>n. CHR '' '' # n) ns)"

lemma join_names_Cons: "join_names (n # ns) = n @ sep_join ns"
  by (induction ns arbitrary: n) (simp_all add: sep_join_def)

lemma append_names_fits:
  assumes "unat M = length buf" and "off \<noteq> 0" and "unat off + length (sep_join ns) < length buf"
    and "buf ! unat off = CHR 0x00"
  shows "\<exists>buf'. append_names M ns buf off = Some (buf', off + of_nat (length (sep_join ns)))
     \<and> length buf' = length buf
     \<and> take (unat off + length (sep_join ns) + 1) buf' = take (unat off) buf @ sep_join ns @ [CHR 0x00]"
  using assms
proof (induction ns arbitrary: buf off)
  case Nil
  then show ?case by (simp add: sep_join_def take_Suc_conv_app_nth)
next
  case (Cons n ns)
  let ?str = "CHR '' '' # n"
  let ?buf = "take (unat off) buf @ ?str @ [CHR 0x00] @ drop (unat off + length ?str + 1) buf"
  let ?off = "off + of_nat (length ?str)"
  have L: "length (sep_join (n # ns)) = length ?str + length (sep_join ns)" by (simp add: sep_join_def)
  have fits: "unat off + length ?str < length buf" using Cons.prems(3) L by simp
  have bb: "length buf < 2 ^ 64" using Cons.prems(1) unat_u32_bound [of M] by simp
  have ls: "unat (of_nat (length ?str) :: u64) = length ?str"
    using fits bb by (subst unat_of_nat) (simp add: take_bit_nat_eq_self)
  have uo: "unat ?off = unat off + length ?str"
    using fits bb ls by (subst unat_add_small) simp_all
  have nz: "?off \<noteq> 0" using uo by (metis add_is_0 length_0_conv list.discI unat_0)
  have lb: "length ?buf = length buf" using fits by simp
  have z: "?buf ! unat ?off = CHR 0x00" unfolding uo using fits by (simp add: nth_append)
  have tk: "take (unat ?off) ?buf = take (unat off) buf @ ?str" unfolding uo using fits by simp
  have le: "unat ?off + length (sep_join ns) < length ?buf" unfolding uo lb using Cons.prems(3) L by simp
  obtain buf' where b: "append_names M ns ?buf ?off = Some (buf', ?off + of_nat (length (sep_join ns)))"
      "length buf' = length ?buf"
      "take (unat ?off + length (sep_join ns) + 1) buf' = take (unat ?off) ?buf @ sep_join ns @ [CHR 0x00]"
    using Cons.IH [OF _ nz le z] lb Cons.prems(1) by metis
  have "append_names M (n # ns) buf off = append_names M ns ?buf ?off"
    using snprintf_at_fits [OF Cons.prems(1) fits] Cons.prems(2) by simp
  with b lb tk uo L show ?case
    by (intro exI [of _ buf']) (simp add: sep_join_def add.assoc)
qed

lemma append_names_first:
  assumes "unat M = length buf" and "length (join_names ns) < length buf" and "list_all good_name ns"
    and "ns \<noteq> []"
  shows "\<exists>buf'. append_names M ns buf 0 = Some (buf', of_nat (length (join_names ns)))
     \<and> take (length (join_names ns) + 1) buf' = join_names ns @ [CHR 0x00]"
proof -
  obtain n rest where ns: "ns = n # rest" using assms(4) by (cases ns) auto
  have L: "length (join_names ns) = length n + length (sep_join rest)" by (simp add: ns join_names_Cons)
  let ?buf = "n @ [CHR 0x00] @ drop (length n + 1) buf"
  let ?off = "of_nat (length n) :: u64"
  have fits: "length n < length buf" using assms(2) L by simp
  have bb: "length buf < 2 ^ 64" using assms(1) unat_u32_bound [of M] by simp
  have uo: "unat ?off = length n" using fits bb by (subst unat_of_nat) (simp add: take_bit_nat_eq_self)
  have "n \<noteq> []" using assms(3) by (simp add: ns good_name_def)
  then have nz: "?off \<noteq> 0" using uo by (metis length_0_conv unat_0)
  have "append_names M ns buf 0 = append_names M rest ?buf ?off"
    using snprintf_at_fits [OF assms(1), of 0 n] fits by (simp add: ns)
  moreover have "\<exists>buf'. append_names M rest ?buf ?off = Some (buf', ?off + of_nat (length (sep_join rest)))
     \<and> length buf' = length ?buf
     \<and> take (unat ?off + length (sep_join rest) + 1) buf' = take (unat ?off) ?buf @ sep_join rest @ [CHR 0x00]"
    using assms(1,2) L fits uo by (intro append_names_fits [OF _ nz]) simp_all
  ultimately show ?thesis using uo by (auto simp: ns join_names_Cons)
qed

lemma c_string_take: "take (length w + 1) buf = w @ [CHR 0x00] \<Longrightarrow> CHR 0x00 \<notin> set w \<Longrightarrow> c_string buf = w"
proof -
  assume t: "take (length w + 1) buf = w @ [CHR 0x00]" and n: "CHR 0x00 \<notin> set w"
  have "buf = (w @ [CHR 0x00]) @ drop (length w + 1) buf" by (metis t append_take_drop_id)
  then have "buf = w @ CHR 0x00 # drop (length w + 1) buf" by simp
  then show ?thesis unfolding c_string_def using takeWhile_not_in [OF n] by metis
qed

lemma join_names_no_nul: "list_all good_name ns \<Longrightarrow> CHR 0x00 \<notin> set (join_names ns)"
  by (induction ns rule: join_names.induct) (auto simp: good_name_def)

lemma get_available_prints:
  assumes "reg_ok s xs" and "xs \<noteq> []" and "list_all good_name (reg_names s xs)"
    and "unat maxlen = length buf" and "length (join_names (reg_names s xs)) < length buf"
  shows "\<exists>buf'. tcp_get_available_congestion_control buf maxlen s = Some buf'
     \<and> c_string buf' = join_names (reg_names s xs)"
proof -
  have "list_for_each s = Some xs" using assms(1) by (simp add: reg_ok_def list_for_each_dlist)
  moreover obtain buf' where "append_names maxlen (reg_names s xs) buf 0
      = Some (buf', of_nat (length (join_names (reg_names s xs))))"
    and t: "take (length (join_names (reg_names s xs)) + 1) buf' = join_names (reg_names s xs) @ [CHR 0x00]"
    using append_names_first [OF assms(4,5,3)] assms(2) by (auto simp: reg_names_def)
  ultimately show ?thesis using c_string_take [OF t join_names_no_nul [OF assms(3)]]
    by (simp add: tcp_get_available_congestion_control_def reg_names_def)
qed

text \<open>
  Printing the available names into a large enough buffer and handing the text to
  \<open>tcp_set_allowed_congestion_control\<close> allows every registered table.
\<close>

lemma available_then_allowed:
  assumes "reg_ok s xs" and "xs \<noteq> []" and "list_all good_name (reg_names s xs)"
    and "unat maxlen = length buf" and "length (join_names (reg_names s xs)) < length buf"
  shows "\<exists>buf' s'. tcp_get_available_congestion_control buf maxlen s = Some buf'
     \<and> tcp_set_allowed_congestion_control (c_string buf') s = Some (0, s')
     \<and> (\<forall>a \<in> set xs. \<not> restricted s' a)"
proof -
  obtain buf' where b: "tcp_get_available_congestion_control buf maxlen s = Some buf'"
      "c_string buf' = join_names (reg_names s xs)"
    using get_available_prints [OF assms] by blast
  have "sep_names (c_string buf') = reg_names s xs" using b sep_names_join [OF assms(3)] by simp
  then show ?thesis using b set_allowed_known [OF assms(1), of "c_string buf'"]
    by (force simp: reg_names_def)
qed

text \<open>Once the untruncated length has passed the end, the next \<open>snprintf\<close> stores outside.\<close>

lemma append_names_overflow:
  "unat M = length buf \<Longrightarrow> M < off \<Longrightarrow> append_names M (n # ns) buf off = None"
  by (auto simp: snprintf_at_def store_string_def word_less_nat_alt)

lemma get_available_overflow:
  assumes "reg_ok s xs" and "reg_names s xs = n1 # n2 # ns"
    and "unat maxlen = length buf" and "length buf < length n1" and "length n1 < 2 ^ 63"
  shows "tcp_get_available_congestion_control buf maxlen s = None"
proof -
  have l: "list_for_each s = Some xs" using assms(1) by (simp add: reg_ok_def list_for_each_dlist)
  have "unat (of_nat (length n1) :: u64) = length n1"
    using assms(5) by (subst unat_of_nat) (simp add: take_bit_nat_eq_self)
  then have big: "maxlen < of_nat (length n1)" using assms(3,4) by (simp add: word_less_nat_alt)
  have "\<exists>buf'. snprintf_at buf 0 (maxlen - 0) n1 = Some (buf', of_nat (length n1)) \<and> length buf' = length buf"
    using assms(3,4) unat_gt_0 [of maxlen] by (auto simp: snprintf_at_def store_string_def)
  then obtain buf' where b: "snprintf_at buf 0 maxlen n1 = Some (buf', of_nat (length n1))" "length buf' = length buf"
    by auto
  have "append_names maxlen (reg_names s xs) buf 0 = append_names maxlen (n2 # ns) buf' (of_nat (length n1))"
    by (simp add: assms(2) b(1) del: append_names.simps(2)) (simp add: b(1))
  also have "\<dots> = None" using b(2) assms(3) big by (intro append_names_overflow) simp_all
  finally show ?thesis by (simp add: tcp_get_available_congestion_control_def l reg_names_def)
qed

end
