(* ===== verification/Tcp_Naive_Reno.thy ===== *)
theory Tcp_Naive_Reno
  imports Cong_Contract Cong_List
begin

text \<open>
  \<open>tcp/linux/tcp_naivereno.c\<close>: the tutorial module of TCP-Linux, additive increase by
  \<open>alpha\<close> segments per window and multiplicative decrease by \<open>1/beta\<close>.
\<close>

definition naive_reno_params :: "param_decl list" where
  "naive_reno_params =
     [(''alpha'', ''int'', ''AI increment size of window (in unit of pkt/round trip time)''),
      (''beta'', ''int'', ''MD decrement portion of window: every loss the window is reduced by a proportion of 1/beta'')]"

record naive_reno_vars =
  nr_alpha :: cint
  nr_beta :: cint

definition naive_reno_default :: naive_reno_vars where
  "naive_reno_default = \<lparr>nr_alpha = 1, nr_beta = 2\<rparr>"

definition tcp_naive_reno_cong_avoid :: "naive_reno_vars \<Rightarrow> kernel \<Rightarrow> 'p tcp_sock \<Rightarrow> u32 \<Rightarrow> u32 \<Rightarrow> u32 \<Rightarrow>
    cint \<Rightarrow> 'p tcp_sock option" where
  "tcp_naive_reno_cong_avoid P k tp ack rtt in_flight flag =
     Some (if snd_cwnd tp < snd_ssthresh tp then tp\<lparr>snd_cwnd := snd_cwnd tp + 1\<rparr>
       else if snd_cwnd tp \<le> u16_u32 (snd_cwnd_cnt tp) then
         let tp = tp\<lparr>snd_cwnd := snd_cwnd tp + int_u32 (nr_alpha P), snd_cwnd_cnt := 0\<rparr>
         in if u16_u32 (snd_cwnd_clamp tp) < snd_cwnd tp
            then tp\<lparr>snd_cwnd := u16_u32 (snd_cwnd_clamp tp)\<rparr> else tp
       else tp\<lparr>snd_cwnd_cnt := snd_cwnd_cnt tp + 1\<rparr>)"

definition tcp_naive_reno_ssthresh ::
    "naive_reno_vars \<Rightarrow> kernel \<Rightarrow> 'p tcp_sock \<Rightarrow> (u32 \<times> 'p tcp_sock) option" where
  "tcp_naive_reno_ssthresh P k tp = do {
     q \<leftarrow> cdiv (snd_cwnd tp) (int_u32 (nr_beta P));
     let reduction = u32_int q;
     Some (max (snd_cwnd tp - int_u32 reduction) 2, tp)
   }"

definition tcp_naive_reno_min_cwnd :: "'p tcp_sock \<Rightarrow> u32 option" where
  "tcp_naive_reno_min_cwnd tp = Some (snd_ssthresh tp)"

definition tcp_naive_reno :: "naive_reno_vars \<Rightarrow> 'p tcp_congestion_ops" where
  "tcp_naive_reno P = null_ops\<lparr>op_name := ''naive_reno'',
     op_ssthresh := Some (tcp_naive_reno_ssthresh P),
     op_cong_avoid := Some (tcp_naive_reno_cong_avoid P),
     op_min_cwnd := Some tcp_naive_reno_min_cwnd\<rparr>"

text \<open>The result of the registration is ignored.\<close>

definition tcp_naive_reno_register :: "addr \<Rightarrow> 'p cong_reg \<Rightarrow> (int \<times> 'p cong_reg) option" where
  "tcp_naive_reno_register tbl s = do {
     (ret, s) \<leftarrow> tcp_register_congestion_control tbl s;
     Some (0, s)
   }"

definition naive_reno_ok :: "naive_reno_vars \<Rightarrow> bool" where
  "naive_reno_ok P \<longleftrightarrow> 0 \<le> sint (nr_alpha P) \<and> 1 \<le> sint (nr_beta P)"

lemma naive_reno_default_ok: "naive_reno_ok naive_reno_default"
  by (simp add: naive_reno_ok_def naive_reno_default_def)

text \<open>The threshold is the window less its \<open>beta\<close>-th part, never below 2 segments.\<close>

lemma naive_reno_ssthresh_val:
  assumes "1 \<le> sint (nr_beta P)" and "unat (snd_cwnd tp) < win_limit"
  defines "c \<equiv> unat (snd_cwnd tp)" and "b \<equiv> nat (sint (nr_beta P))"
  shows "\<exists>w. tcp_naive_reno_ssthresh P k tp = Some (max w 2, tp) \<and> unat w = c - c div b"
proof -
  have b: "unat (int_u32 (nr_beta P)) = b" "0 < b" using assms(1) by (simp_all add: unat_int_u32 b_def)
  then have nz: "int_u32 (nr_beta P) \<noteq> 0" by (simp add: word_neq_0_unat)
  let ?q = "snd_cwnd tp div int_u32 (nr_beta P)"
  have q: "unat ?q = c div b" by (simp add: unat_div b(1) c_def)
  have "unat ?q \<le> c" unfolding q by (rule div_le_dividend)
  then have "int_u32 (u32_int ?q) = ?q" and le: "?q \<le> snd_cwnd tp"
    using assms(2) by (simp_all add: int_u32_of_small c_def word_le_nat_alt win_limit_def)
  moreover have "unat (snd_cwnd tp - ?q) = c - c div b"
    using unat_sub_le [OF le] q by (simp add: c_def)
  ultimately show ?thesis using nz
    by (intro exI [of _ "snd_cwnd tp - ?q"]) (simp add: tcp_naive_reno_ssthresh_def cdiv_def)
qed

lemma naive_reno_ssthresh_yields:
  assumes "naive_reno_ok P" and "sock_ok win_limit sk" and "pinv (icsk_ca_priv sk)"
  shows "yields win_limit pinv sk (tcp_naive_reno_ssthresh P k sk)"
proof -
  obtain w where w: "tcp_naive_reno_ssthresh P k sk = Some (max w 2, sk)"
    "unat w = unat (snd_cwnd sk) - unat (snd_cwnd sk) div nat (sint (nr_beta P))"
    using naive_reno_ssthresh_val [of P sk k] assms(1) sock_okD(4) [OF assms(2)]
    by (auto simp: naive_reno_ok_def)
  show ?thesis unfolding w(1) using w(2) sock_okD(4) [OF assms(2)] assms(2,3)
    by (intro yields_max2) auto
qed

lemma naive_reno_cong_avoid_keeps:
  assumes "naive_reno_ok P" and "sock_ok win_limit sk" and "pinv (icsk_ca_priv sk)"
  shows "keeps win_limit pinv sk (tcp_naive_reno_cong_avoid P k sk ack rtt in_flight flag)"
proof -
  let ?w = "snd_cwnd sk" and ?a = "int_u32 (nr_alpha P)" and ?m = "u16_u32 (snd_cwnd_clamp sk)"
  have a: "unat ?a < win_limit" using assms(1) nat_sint_bound [of "nr_alpha P"]
    by (simp add: naive_reno_ok_def unat_int_u32 win_limit_def)
  have add: "unat (?w + ?a) = unat ?w + unat ?a"
    using a sock_okD(4) [OF assms(2)] by (intro unat_add_small) (simp add: win_limit_def)
  have inc: "unat (?w + 1) = unat ?w + 1" "unat (?w + 1) \<le> unat (snd_ssthresh sk)"
    if "?w < snd_ssthresh sk"
    using unat_inc_below [OF that] that by (simp_all add: word_less_nat_alt)
  have clamp: "unat (?w + ?a) < win_limit" if "\<not> ?m < ?w + ?a"
    using that sock_okD(9) [OF assms(2)] by (simp add: word_less_nat_alt)
  show ?thesis
    using assms(2,3) add inc clamp sock_okD(5-6,9,10) [OF assms(2)]
    by (auto simp: tcp_naive_reno_cong_avoid_def Let_def intro!: sock_ok_set_cwnd)
qed

lemma naive_reno_contract:
  "naive_reno_ok P \<Longrightarrow> cong_control win_limit R (tcp_naive_reno P) (\<lambda>_. True)"
  by unfold_locales
    (auto simp: cc_defs tcp_naive_reno_def naive_reno_ssthresh_yields naive_reno_cong_avoid_keeps
      tcp_naive_reno_min_cwnd_def same_path_def dest: sock_okD)

interpretation naive_reno: cong_control win_limit R "tcp_naive_reno naive_reno_default" "\<lambda>_. True"
  by (rule naive_reno_contract [OF naive_reno_default_ok])

end
