(* ===== verification/Tcp_Scalable.thy ===== *)
theory Tcp_Scalable
  imports Cong_Contract Cong_List
begin

text \<open>
  \<open>tcp/linux/src/tcp_scalable.c\<close>: Scalable TCP, one segment per 50 acknowledged segments
  (per window when the window is smaller), the window cut by one eighth on loss.
\<close>

definition TCP_SCALABLE_AI_CNT :: u32 where "TCP_SCALABLE_AI_CNT = 50"
definition TCP_SCALABLE_MD_SCALE :: nat where "TCP_SCALABLE_MD_SCALE = 3"

definition tcp_scalable_cong_avoid ::
    "kernel \<Rightarrow> 'p tcp_sock \<Rightarrow> u32 \<Rightarrow> u32 \<Rightarrow> u32 \<Rightarrow> cint \<Rightarrow> 'p tcp_sock option" where
  "tcp_scalable_cong_avoid k tp ack rtt in_flight flag =
     (if \<not> tcp_is_cwnd_limited tp in_flight then Some tp
      else if snd_cwnd tp \<le> snd_ssthresh tp then tcp_slow_start k tp
      else
        let tp = tp\<lparr>snd_cwnd_cnt := snd_cwnd_cnt tp + 1\<rparr>
        in Some (if min (snd_cwnd tp) TCP_SCALABLE_AI_CNT < u16_u32 (snd_cwnd_cnt tp)
                 then (inc_cwnd_clamped tp)\<lparr>snd_cwnd_cnt := 0\<rparr>
                 else tp))"

definition tcp_scalable_ssthresh :: "kernel \<Rightarrow> 'p tcp_sock \<Rightarrow> (u32 \<times> 'p tcp_sock) option" where
  "tcp_scalable_ssthresh k tp =
     Some (max (snd_cwnd tp - drop_bit TCP_SCALABLE_MD_SCALE (snd_cwnd tp)) 2, tp)"

definition tcp_scalable :: "'p tcp_congestion_ops" where
  "tcp_scalable = null_ops\<lparr>op_ssthresh := Some tcp_scalable_ssthresh,
     op_cong_avoid := Some tcp_scalable_cong_avoid, op_min_cwnd := Some tcp_reno_min_cwnd,
     op_name := ''scalable''\<rparr>"

definition tcp_scalable_register :: "addr \<Rightarrow> 'p cong_reg \<Rightarrow> (int \<times> 'p cong_reg) option" where
  "tcp_scalable_register tbl s = tcp_register_congestion_control tbl s"

definition tcp_scalable_unregister :: "addr \<Rightarrow> 'p cong_reg \<Rightarrow> 'p cong_reg" where
  "tcp_scalable_unregister tbl s = tcp_unregister_congestion_control tbl s"

lemma scalable_cut:
  "unat (snd_cwnd tp - drop_bit 3 (snd_cwnd tp)) = unat (snd_cwnd tp) - unat (snd_cwnd tp) div 8"
proof -
  have d: "unat (drop_bit 3 (snd_cwnd tp)) = unat (snd_cwnd tp) div 8"
    using unat_shift [of 3 "snd_cwnd tp"] by simp
  then have "drop_bit 3 (snd_cwnd tp) \<le> snd_cwnd tp" by (simp add: word_le_nat_alt del: drop_bit_eq_div)
  from unat_sub_le [OF this] show ?thesis by (simp only: d)
qed

lemma scalable_ssthresh_yields:
  assumes "sock_ok L sk" and "pinv (icsk_ca_priv sk)"
  shows "yields L pinv sk (tcp_scalable_ssthresh k sk)"
  unfolding tcp_scalable_ssthresh_def TCP_SCALABLE_MD_SCALE_def
proof (rule yields_max2)
  show "unat (snd_cwnd sk - drop_bit 3 (snd_cwnd sk)) < L"
    unfolding scalable_cut using sock_okD(4) [OF assms(1)] by linarith
qed (use assms in simp_all)

lemma scalable_cong_avoid_keeps:
  "sock_ok L sk \<Longrightarrow> pinv (icsk_ca_priv sk) \<Longrightarrow>
     keeps L pinv sk (tcp_scalable_cong_avoid k sk ack rtt in_flight flag)"
  by (auto simp: tcp_scalable_cong_avoid_def Let_def tcp_slow_start_keeps inc_cwnd_clamped_ok)

interpretation scalable: cong_control win_limit R tcp_scalable "\<lambda>_. True"
  by unfold_locales
    (auto simp: cc_defs tcp_scalable_def scalable_ssthresh_yields scalable_cong_avoid_keeps
      min_cwnd_reno_ok same_path_def)

text \<open>
  In congestion avoidance the counter rises by one per acknowledgment, and the window by one
  when it passes the smaller of the window and 50.
\<close>

lemma scalable_ca_step:
  assumes "snd_ssthresh tp < snd_cwnd tp" and "snd_cwnd tp \<le> in_flight"
    and "unat (snd_cwnd_cnt tp) < 4294967295"
  shows "tcp_scalable_cong_avoid k tp ack rtt in_flight flag =
     Some (if min (unat (snd_cwnd tp)) 50 \<le> unat (snd_cwnd_cnt tp)
           then (inc_cwnd_clamped tp)\<lparr>snd_cwnd_cnt := 0\<rparr>
           else tp\<lparr>snd_cwnd_cnt := snd_cwnd_cnt tp + 1\<rparr>)"
proof -
  have "unat (snd_cwnd_cnt tp + 1) = unat (snd_cwnd_cnt tp) + 1"
    using assms(3) by (subst unat_add_u16_small) simp_all
  then show ?thesis using assms(1,2)
    by (auto simp: tcp_scalable_cong_avoid_def tcp_is_cwnd_limited_def TCP_SCALABLE_AI_CNT_def
        Let_def min_def less_u16_u32_iff word_le_nat_alt word_less_nat_alt inc_cwnd_clamped_def)
qed

lemma scalable_counts:
  assumes "snd_ssthresh tp < snd_cwnd tp" and "snd_cwnd tp \<le> in_flight"
    and "unat (snd_cwnd_cnt tp) + n \<le> min (unat (snd_cwnd tp)) 50"
  shows "iter_handler (\<lambda>tp. tcp_scalable_cong_avoid k tp ack rtt in_flight flag) n tp =
     Some (tp\<lparr>snd_cwnd_cnt := snd_cwnd_cnt tp + of_nat n\<rparr>)"
  using assms
proof (induction n arbitrary: tp)
  case 0
  then show ?case by simp
next
  case (Suc n)
  have "unat (snd_cwnd_cnt tp + 1) = unat (snd_cwnd_cnt tp) + 1"
    using Suc.prems(3) by (subst unat_add_u16_small) auto
  moreover have "\<not> min (unat (snd_cwnd tp)) 50 \<le> unat (snd_cwnd_cnt tp)" using Suc.prems(3) by linarith
  then have "tcp_scalable_cong_avoid k tp ack rtt in_flight flag =
      Some (tp\<lparr>snd_cwnd_cnt := snd_cwnd_cnt tp + 1\<rparr>)"
    using Suc.prems by (subst scalable_ca_step) (auto simp only: if_False)
  ultimately show ?case
    using Suc.prems Suc.IH [of "tp\<lparr>snd_cwnd_cnt := snd_cwnd_cnt tp + 1\<rparr>"] by (simp add: add.assoc)
qed

lemma scalable_increase:
  assumes "snd_ssthresh tp < snd_cwnd tp" and "snd_cwnd tp \<le> in_flight" and "snd_cwnd_cnt tp = 0"
    and "snd_cwnd tp < u16_u32 (snd_cwnd_clamp tp)"
  shows "iter_handler (\<lambda>tp. tcp_scalable_cong_avoid k tp ack rtt in_flight flag)
           (min (unat (snd_cwnd tp)) 50 + 1) tp = Some (tp\<lparr>snd_cwnd := snd_cwnd tp + 1\<rparr>)"
proof -
  let ?f = "\<lambda>tp. tcp_scalable_cong_avoid k tp ack rtt in_flight flag"
  let ?n = "min (unat (snd_cwnd tp)) 50"
  have run: "iter_handler ?f ?n tp = Some (tp\<lparr>snd_cwnd_cnt := of_nat ?n\<rparr>)"
    using scalable_counts [OF assms(1,2), of ?n] assms(3) by simp
  have u: "unat (word_of_nat ?n :: u16) = ?n"
    by (subst unat_of_nat) (simp add: take_bit_nat_eq_self)
  have "?f (tp\<lparr>snd_cwnd_cnt := of_nat ?n\<rparr>) = Some (tp\<lparr>snd_cwnd := snd_cwnd tp + 1\<rparr>)"
    using assms u by (subst scalable_ca_step) (auto simp: inc_cwnd_clamped_def)
  then show ?thesis by (simp only: iter_handler_add run) simp
qed

end
