(* ===== verification/Tcp_Highspeed.thy ===== *)
theory Tcp_Highspeed
  imports Cong_Contract Cong_List
begin

text \<open>
  \<open>tcp/linux/src/tcp_highspeed.c\<close>: HighSpeed TCP (RFC 3649). The module keeps an index
  \<open>ai\<close> into the table of additive increase and multiplicative decrease factors. The
  two loops of \<open>hstcp_cong_avoid\<close> move the index to the row of the current window; an index
  outside the table does not return. The lemmas show that the index stays inside, that after an
  update it is at the row the source's comment promises, and the window's cut per row.
\<close>

text \<open>Rows \<open>(cwnd, md)\<close> of \<open>hstcp_aimd_vals\<close>, both \<open>unsigned int\<close>.\<close>

definition hstcp_aimd_vals :: "(u16 \<times> u16) list" where
  "hstcp_aimd_vals =
     [
      (38, 128), (118, 112), (221, 104), (347, 98), (495, 93), (663, 89),
      (851, 86), (1058, 83), (1284, 81), (1529, 78), (1793, 76), (2076, 74),
      (2378, 72), (2699, 71), (3039, 69), (3399, 68), (3778, 66), (4177, 65),
      (4596, 64), (5036, 62), (5497, 61), (5979, 60), (6483, 59), (7009, 58),
      (7558, 57), (8130, 56), (8726, 55), (9346, 54), (9991, 53), (10661, 52),
      (11358, 52), (12082, 51), (12834, 50), (13614, 49), (14424, 48), (15265, 48),
      (16137, 47), (17042, 46), (17981, 45), (18955, 45), (19965, 44), (21013, 43),
      (22101, 43), (23230, 42), (24402, 41), (25618, 41), (26881, 40), (28193, 39),
      (29557, 39), (30975, 38), (32450, 38), (33986, 37), (35586, 36), (37253, 36),
      (38992, 35), (40808, 35), (42707, 34), (44694, 33), (46776, 33), (48961, 32),
      (51258, 32), (53677, 31), (56230, 30), (58932, 30), (61799, 29), (64851, 28),
      (68113, 28), (71617, 27), (75401, 26), (79517, 26), (84035, 25), (89053, 24)]"

definition HSTCP_AIMD_MAX :: u32 where "HSTCP_AIMD_MAX = of_nat (length hstcp_aimd_vals)"

definition aimd_val :: "u32 \<Rightarrow> (u16 \<times> u16) option" where
  "aimd_val i = (if unat i < length hstcp_aimd_vals then Some (hstcp_aimd_vals ! unat i) else None)"

record hstcp =
  ai :: u32

definition hstcp_init :: "kernel \<Rightarrow> hstcp tcp_sock \<Rightarrow> hstcp tcp_sock option" where
  "hstcp_init k tp =
     (let tp = upd_ca (\<lambda>ca. ca\<lparr>ai := 0\<rparr>) tp
      in Some (tp\<lparr>snd_cwnd_clamp := u32_u16 (min (u16_u32 (snd_cwnd_clamp tp)) (0xffffffff div 128))\<rparr>))"

text \<open>The two \<open>while\<close> loops on \<open>ca->ai\<close>.\<close>

lemma HSTCP_AIMD_MAX_72: "HSTCP_AIMD_MAX = 72" "length hstcp_aimd_vals = 72"
  by (simp_all add: HSTCP_AIMD_MAX_def hstcp_aimd_vals_def)

function hstcp_raise_ai :: "u32 \<Rightarrow> u32 \<Rightarrow> u32 option" where
  "hstcp_raise_ai cwnd i =
     (case aimd_val i of
        None \<Rightarrow> None
      | Some (w, md) \<Rightarrow>
          if u16_u32 w < cwnd \<and> i < HSTCP_AIMD_MAX - 1 then hstcp_raise_ai cwnd (i + 1) else Some i)"
  by pat_completeness auto
termination
  by (relation "measure (\<lambda>(cwnd, i). 71 - unat i)")
    (auto simp: HSTCP_AIMD_MAX_72 unat_inc_small word_less_nat_alt)

function hstcp_lower_ai :: "u32 \<Rightarrow> u32 \<Rightarrow> u32 option" where
  "hstcp_lower_ai cwnd i =
     (if i = 0 then Some i
      else case aimd_val (i - 1) of
        None \<Rightarrow> None
      | Some (w, md) \<Rightarrow> if cwnd \<le> u16_u32 w then hstcp_lower_ai cwnd (i - 1) else Some i)"
  by pat_completeness auto
termination
  by (relation "measure (\<lambda>(cwnd, i). unat i)") (auto simp: unat_minus_one unat_gt_0)

definition hstcp_update_ai :: "u32 \<Rightarrow> u32 \<Rightarrow> u32 option" where
  "hstcp_update_ai cwnd i = do {
     (w, md) \<leftarrow> aimd_val i;
     if u16_u32 w < cwnd then hstcp_raise_ai cwnd i
     else if i \<noteq> 0 then do {
       (w', md') \<leftarrow> aimd_val (i - 1);
       if cwnd \<le> u16_u32 w' then hstcp_lower_ai cwnd i else Some i
     }
     else Some i
   }"

definition hstcp_cong_avoid ::
    "kernel \<Rightarrow> hstcp tcp_sock \<Rightarrow> u32 \<Rightarrow> u32 \<Rightarrow> u32 \<Rightarrow> cint \<Rightarrow> hstcp tcp_sock option" where
  "hstcp_cong_avoid k tp adk rtt in_flight data_acked =
     (if \<not> tcp_is_cwnd_limited tp in_flight then Some tp
      else if snd_cwnd tp \<le> snd_ssthresh tp then tcp_slow_start k tp
      else do {
        i \<leftarrow> hstcp_update_ai (snd_cwnd tp) (ai (icsk_ca_priv tp));
        let tp = upd_ca (\<lambda>ca. ca\<lparr>ai := i\<rparr>) tp;
        Some (if snd_cwnd tp < u16_u32 (snd_cwnd_clamp tp) then
            let tp = tp\<lparr>snd_cwnd_cnt := u32_u16 (u16_u32 (snd_cwnd_cnt tp) + (i + 1))\<rparr>
            in if snd_cwnd tp \<le> u16_u32 (snd_cwnd_cnt tp)
               then tp\<lparr>snd_cwnd_cnt := u32_u16 (u16_u32 (snd_cwnd_cnt tp) - snd_cwnd tp),
                       snd_cwnd := snd_cwnd tp + 1\<rparr>
               else tp
          else tp)
      })"

definition hstcp_ssthresh :: "kernel \<Rightarrow> hstcp tcp_sock \<Rightarrow> (u32 \<times> hstcp tcp_sock) option" where
  "hstcp_ssthresh k tp = do {
     (w, md) \<leftarrow> aimd_val (ai (icsk_ca_priv tp));
     Some (max (snd_cwnd tp - drop_bit 8 (snd_cwnd tp * u16_u32 md)) 2, tp)
   }"

definition tcp_highspeed :: "hstcp tcp_congestion_ops" where
  "tcp_highspeed = null_ops\<lparr>op_init := Some hstcp_init, op_ssthresh := Some hstcp_ssthresh,
     op_cong_avoid := Some hstcp_cong_avoid, op_min_cwnd := Some tcp_reno_min_cwnd,
     op_name := ''highspeed''\<rparr>"

definition hstcp_register :: "addr \<Rightarrow> 'p cong_reg \<Rightarrow> (int \<times> 'p cong_reg) option" where
  "hstcp_register tbl s = tcp_register_congestion_control tbl s"

definition hstcp_unregister :: "addr \<Rightarrow> 'p cong_reg \<Rightarrow> 'p cong_reg" where
  "hstcp_unregister tbl s = tcp_unregister_congestion_control tbl s"

section \<open>The index stays in the table and finds the row\<close>

declare hstcp_raise_ai.simps [simp del] hstcp_lower_ai.simps [simp del]

lemma aimd_val_Some: "unat i < 72 \<Longrightarrow> aimd_val i = Some (hstcp_aimd_vals ! unat i)"
  by (simp add: aimd_val_def HSTCP_AIMD_MAX_72)

definition row_cwnd :: "nat \<Rightarrow> nat" where
  "row_cwnd j = unat (fst (hstcp_aimd_vals ! j))"

lemma aimd_val_row: "unat i < 72 \<Longrightarrow> \<exists>w md. aimd_val i = Some (w, md) \<and> unat w = row_cwnd (unat i)"
  by (cases "hstcp_aimd_vals ! unat i") (simp add: aimd_val_Some row_cwnd_def)

text \<open>
  The row of a window: it is above the previous row's window, and not above this row's window
  unless the table ends here.
\<close>

definition at_row :: "u32 \<Rightarrow> u32 \<Rightarrow> bool" where
  "at_row cwnd i \<longleftrightarrow> unat i < 72 \<and> (0 < unat i \<longrightarrow> row_cwnd (unat i - 1) < unat cwnd)
     \<and> (unat i < 71 \<longrightarrow> unat cwnd \<le> row_cwnd (unat i))"

lemma hstcp_raise_ai_row:
  "unat i < 72 \<Longrightarrow> (0 < unat i \<longrightarrow> row_cwnd (unat i - 1) < unat cwnd) \<Longrightarrow>
     \<exists>j. hstcp_raise_ai cwnd i = Some j \<and> at_row cwnd j"
proof (induction cwnd i rule: hstcp_raise_ai.induct)
  case (1 cwnd i)
  obtain w md where w: "aimd_val i = Some (w, md)" "unat w = row_cwnd (unat i)"
    using aimd_val_row 1(2) by blast
  have m: "i < HSTCP_AIMD_MAX - 1 \<longleftrightarrow> unat i < 71" by (simp add: HSTCP_AIMD_MAX_72 word_less_nat_alt)
  show ?case
  proof (cases "u16_u32 w < cwnd \<and> unat i < 71")
    case True
    then have "unat (i + 1) = unat i + 1" by (intro unat_inc_small) simp
    moreover have "row_cwnd (unat i) < unat cwnd" using True w(2) by (simp add: word_less_nat_alt)
    ultimately show ?thesis using 1(1) [OF w(1) refl] True m
      by (simp add: hstcp_raise_ai.simps [of cwnd i] w(1))
  next
    case False
    then show ?thesis using 1(2,3) w m
      by (auto simp: hstcp_raise_ai.simps [of cwnd i] at_row_def word_less_nat_alt)
  qed
qed

lemma hstcp_lower_ai_row:
  "unat i < 72 \<Longrightarrow> unat cwnd \<le> row_cwnd (unat i) \<Longrightarrow>
     \<exists>j. hstcp_lower_ai cwnd i = Some j \<and> at_row cwnd j"
proof (induction cwnd i rule: hstcp_lower_ai.induct)
  case (1 cwnd i)
  show ?case
  proof (cases "i = 0")
    case True
    then show ?thesis using 1(3) by (simp add: hstcp_lower_ai.simps at_row_def)
  next
    case False
    then have u: "unat (i - 1) = unat i - 1" "0 < unat i" by (simp_all add: unat_minus_one unat_gt_0)
    have "unat (i - 1) < 72" using u 1(2) by simp
    from aimd_val_row [OF this] obtain w md where w: "aimd_val (i - 1) = Some (w, md)"
      "unat w = row_cwnd (unat i - 1)" unfolding u(1) by blast
    show ?thesis
    proof (cases "cwnd \<le> u16_u32 w")
      case True
      then have "unat cwnd \<le> row_cwnd (unat (i - 1))" using w(2) u(1) by (simp add: word_le_nat_alt)
      then show ?thesis using 1(1) [OF False w(1) refl True] u 1(2) False True w(1)
        by (simp add: hstcp_lower_ai.simps [of cwnd i])
    next
      case nle: False
      then show ?thesis using False w 1(2,3)
        by (simp add: hstcp_lower_ai.simps [of cwnd i] at_row_def word_le_nat_alt)
    qed
  qed
qed


lemma rows_increase: "list_all (\<lambda>j. row_cwnd j < row_cwnd (j + 1)) [0..<71]"
  by (simp add: row_cwnd_def hstcp_aimd_vals_def upt_rec)

lemma row_cwnd_step: "0 < i \<Longrightarrow> i < 72 \<Longrightarrow> row_cwnd (i - 1) < row_cwnd i"
  using rows_increase by (auto simp: list_all_iff dest!: bspec [of _ _ "i - 1"])

lemma hstcp_update_ai_row:
  assumes "unat i < 72"
  shows "\<exists>j. hstcp_update_ai cwnd i = Some j \<and> at_row cwnd j"
proof -
  obtain w md where w: "aimd_val i = Some (w, md)" "unat w = row_cwnd (unat i)"
    using aimd_val_row assms by blast
  show ?thesis
  proof (cases "u16_u32 w < cwnd")
    case True
    have "0 < unat i \<longrightarrow> row_cwnd (unat i - 1) < unat cwnd"
      using row_cwnd_step [OF _ assms] True w(2) by (auto simp: word_less_nat_alt)
    with hstcp_raise_ai_row [OF assms this] True w(1) show ?thesis by (simp add: hstcp_update_ai_def)
  next
    case False
    then have le: "unat cwnd \<le> row_cwnd (unat i)" using w(2) by (simp add: word_less_nat_alt)
    show ?thesis
    proof (cases "i = 0")
      case True
      then show ?thesis using False w(1) le by (simp add: hstcp_update_ai_def at_row_def)
    next
      case nz: False
      then have u: "unat (i - 1) = unat i - 1" "0 < unat i" by (simp_all add: unat_minus_one unat_gt_0)
      have "unat (i - 1) < 72" using u assms by simp
      from aimd_val_row [OF this] obtain w' md' where w': "aimd_val (i - 1) = Some (w', md')"
        "unat w' = row_cwnd (unat i - 1)" unfolding u(1) by blast
      show ?thesis using hstcp_lower_ai_row [OF assms le] False nz w(1) w' le u assms
        by (auto simp: hstcp_update_ai_def at_row_def word_le_nat_alt)
    qed
  qed
qed

text \<open>The multiplicative decrease of a row, in 256ths, never takes more than half.\<close>

lemma rows_md: "list_all (\<lambda>v. unat (snd v) \<le> 128) hstcp_aimd_vals"
  by (simp add: hstcp_aimd_vals_def)

lemma hstcp_ssthresh_val:
  assumes "unat (ai (icsk_ca_priv tp)) < 72" and "unat (snd_cwnd tp) < 2 ^ 32"
  defines "md \<equiv> unat (snd (hstcp_aimd_vals ! unat (ai (icsk_ca_priv tp))))"
  shows "\<exists>w. hstcp_ssthresh k tp = Some (max w 2, tp)
    \<and> unat w = unat (snd_cwnd tp) - unat (snd_cwnd tp) * md div 256
    \<and> unat (snd_cwnd tp) \<le> 2 * unat w"
proof -
  obtain w m where v: "hstcp_aimd_vals ! unat (ai (icsk_ca_priv tp)) = (w, m)" by fastforce
  have "(w, m) \<in> set hstcp_aimd_vals" using v assms(1) HSTCP_AIMD_MAX_72(2) nth_mem by metis
  then have m: "unat m \<le> 128" using rows_md by (auto simp: list_all_iff)
  have md: "md = unat m" by (simp add: md_def v)
  have "unat (snd_cwnd tp) * unat m \<le> unat (snd_cwnd tp) * 128" using m by simp
  moreover have "unat (snd_cwnd tp) < 4294967296" using assms(2) by simp
  ultimately have "unat (snd_cwnd tp) * unat (u16_u32 m) < 18446744073709551616"
    unfolding unat_u16_u32 by linarith
  then have mult: "unat (snd_cwnd tp * u16_u32 m) = unat (snd_cwnd tp) * unat m"
    by (simp only: unat_mult_small unat_u16_u32)
  then have cut: "unat (drop_bit 8 (snd_cwnd tp * u16_u32 m)) = unat (snd_cwnd tp) * unat m div 256"
    unfolding unat_shift by simp
  have half: "unat (snd_cwnd tp) * unat m div 256 \<le> unat (snd_cwnd tp) div 2"
    using div_le_mono [OF \<open>_ \<le> unat (snd_cwnd tp) * 128\<close>, of 256] by simp
  then have "drop_bit 8 (snd_cwnd tp * u16_u32 m) \<le> snd_cwnd tp"
    using cut unfolding word_le_nat_alt by linarith
  from unat_sub_le [OF this] have "unat (snd_cwnd tp - drop_bit 8 (snd_cwnd tp * u16_u32 m))
      = unat (snd_cwnd tp) - unat (snd_cwnd tp) * md div 256" unfolding cut md .
  moreover have "hstcp_ssthresh k tp =
      Some (max (snd_cwnd tp - drop_bit 8 (snd_cwnd tp * u16_u32 m)) 2, tp)"
    using v assms(1) by (simp add: hstcp_ssthresh_def aimd_val_Some)
  ultimately show ?thesis using half unfolding md by fastforce
qed

section \<open>The contract\<close>

definition hstcp_ok :: "hstcp \<Rightarrow> bool" where
  "hstcp_ok ca \<longleftrightarrow> unat (ai ca) < 72"

lemma hstcp_cong_avoid_ca:
  assumes "hstcp_ok (icsk_ca_priv tp)" and "snd_ssthresh tp < snd_cwnd tp"
    and "snd_cwnd tp \<le> in_flight"
  shows "\<exists>i tp'. hstcp_cong_avoid k tp adk rtt in_flight d = Some (upd_ca (\<lambda>ca. ca\<lparr>ai := i\<rparr>) tp')
    \<and> at_row (snd_cwnd tp) i \<and> win_grow tp tp'"
proof -
  obtain i where i: "hstcp_update_ai (snd_cwnd tp) (ai (icsk_ca_priv tp)) = Some i"
    "at_row (snd_cwnd tp) i" using hstcp_update_ai_row assms(1) by (auto simp: hstcp_ok_def)
  let ?cnt = "u32_u16 (u16_u32 (snd_cwnd_cnt tp) + (i + 1))"
  let ?tp' = "if snd_cwnd tp < u16_u32 (snd_cwnd_clamp tp) then
      if snd_cwnd tp \<le> u16_u32 ?cnt
      then tp\<lparr>snd_cwnd_cnt := u32_u16 (u16_u32 ?cnt - snd_cwnd tp), snd_cwnd := snd_cwnd tp + 1\<rparr>
      else tp\<lparr>snd_cwnd_cnt := ?cnt\<rparr>
    else tp"
  have "hstcp_cong_avoid k tp adk rtt in_flight d = Some (upd_ca (\<lambda>ca. ca\<lparr>ai := i\<rparr>) ?tp')"
    using assms(2,3) by (auto simp: hstcp_cong_avoid_def tcp_is_cwnd_limited_def i(1) Let_def upd_ca_def)
  moreover have "win_grow tp ?tp'"
    by (simp add: win_grow_def less_u16_u32_iff unat_inc_u16)
  ultimately show ?thesis using i(2) by blast
qed

lemma hstcp_cong_avoid_keeps:
  assumes "sock_ok L tp" and "hstcp_ok (icsk_ca_priv tp)"
  shows "keeps L hstcp_ok tp (hstcp_cong_avoid k tp adk rtt in_flight d)"
proof (cases "snd_cwnd tp \<le> in_flight \<and> snd_ssthresh tp < snd_cwnd tp")
  case True
  then obtain i tp' where r: "hstcp_cong_avoid k tp adk rtt in_flight d = Some (upd_ca (\<lambda>ca. ca\<lparr>ai := i\<rparr>) tp')"
    "at_row (snd_cwnd tp) i" "win_grow tp tp'"
    using hstcp_cong_avoid_ca [OF assms(2)] by blast
  then show ?thesis using win_grow_sock_ok [OF r(3) assms(1)] win_grow_same_path [OF r(3)]
    by (simp add: hstcp_ok_def at_row_def)
next
  case False
  then show ?thesis using assms
    by (auto simp: hstcp_cong_avoid_def tcp_is_cwnd_limited_def tcp_slow_start_keeps)
qed

lemma hstcp_init_keeps: "sock_ok L tp \<Longrightarrow> keeps L hstcp_ok tp (hstcp_init k tp)"
  by (simp add: hstcp_init_def Let_def hstcp_ok_def sock_ok_def unat_narrow_u16 min_def word_le_nat_alt)

lemma hstcp_ssthresh_yields:
  assumes "sock_ok win_limit tp" and "hstcp_ok (icsk_ca_priv tp)"
  shows "yields win_limit hstcp_ok tp (hstcp_ssthresh k tp)"
proof -
  have "unat (snd_cwnd tp) < 2 ^ 32" using sock_okD(4) [OF assms(1)] by (simp add: win_limit_def)
  then obtain w where w: "hstcp_ssthresh k tp = Some (max w 2, tp)" "unat w \<le> unat (snd_cwnd tp)"
    using hstcp_ssthresh_val [of tp k] assms(2) by (force simp: hstcp_ok_def)
  show ?thesis unfolding w(1) using w(2) sock_okD(4) [OF assms(1)] assms by (intro yields_max2) auto
qed

interpretation highspeed: cong_control win_limit R tcp_highspeed hstcp_ok
  by unfold_locales
    (auto simp: cc_defs tcp_highspeed_def hstcp_ssthresh_yields hstcp_cong_avoid_keeps
      hstcp_init_keeps min_cwnd_reno_ok same_path_def)

end
