(* ===== verification/Tcp_Bic.thy ===== *)
theory Tcp_Bic
  imports Cong_Contract Cong_List
begin

text \<open>
  \<open>tcp/linux/src/tcp_bic.c\<close>: binary increase congestion control. \<open>bictcp_update\<close> computes
  \<open>cnt\<close>, the number of acknowledgments per increment of the window, by a binary search towards
  \<open>last_max_cwnd\<close>; \<open>delayed_ack\<close> is a sliding average of packets per acknowledgment. The
  lemmas show that no division in it is by zero, that \<open>cnt\<close> is never zero, and what the average,
  the search and the reaction to a loss compute.
\<close>

definition BICTCP_BETA_SCALE :: cint where "BICTCP_BETA_SCALE = 1024"
definition BICTCP_B :: cint where "BICTCP_B = 4"
definition ACK_RATIO_SHIFT :: nat where "ACK_RATIO_SHIFT = 4"

record bic_vars =
  bv_fast_convergence :: cint
  bv_max_increment :: cint
  bv_low_window :: cint
  bv_beta :: cint
  bv_initial_ssthresh :: cint
  bv_smooth_part :: cint

definition bic_default :: bic_vars where
  "bic_default = \<lparr>bv_fast_convergence = 1, bv_max_increment = 16, bv_low_window = 14,
     bv_beta = 819, bv_initial_ssthresh = 0, bv_smooth_part = 20\<rparr>"

definition bic_params :: "param_decl list" where
  "bic_params =
     [(''fast_convergence'', ''int'', ''turn on/off fast convergence''),
      (''max_increment'', ''int'', ''Limit on increment allowed during binary search''),
      (''low_window'', ''int'', ''lower bound on congestion window (for TCP friendliness)''),
      (''beta'', ''int'', ''beta for multiplicative increase''),
      (''initial_ssthresh'', ''int'', ''initial value of slow start threshold''),
      (''smooth_part'', ''int'', ''log(B/(B*Smin))/log(B/(B-1))+B, # of RTT from Wmax-B to Wmax'')]"

record bictcp =
  b_cnt :: u32
  b_last_max_cwnd :: u32
  b_loss_cwnd :: u32
  b_last_cwnd :: u32
  b_last_time :: u32
  b_epoch_start :: u32
  b_delayed_ack :: u32

definition bictcp_reset :: "bictcp \<Rightarrow> bictcp" where
  "bictcp_reset ca = ca\<lparr>b_cnt := 0, b_last_max_cwnd := 0, b_loss_cwnd := 0, b_last_cwnd := 0,
     b_last_time := 0, b_epoch_start := 0, b_delayed_ack := push_bit ACK_RATIO_SHIFT 2\<rparr>"

definition bictcp_init :: "bic_vars \<Rightarrow> kernel \<Rightarrow> bictcp tcp_sock \<Rightarrow> bictcp tcp_sock option" where
  "bictcp_init P k sk =
     (let sk = upd_ca bictcp_reset sk
      in Some (if bv_initial_ssthresh P \<noteq> 0
               then sk\<lparr>snd_ssthresh := int_u32 (bv_initial_ssthresh P)\<rparr> else sk))"

text \<open>The cascade that sets \<open>ca->cnt\<close> above \<open>low_window\<close>.\<close>

definition bic_search :: "bic_vars \<Rightarrow> bictcp \<Rightarrow> u32 \<Rightarrow> u32 option" where
  "bic_search P ca cwnd =
     (if cwnd < b_last_max_cwnd ca then
        let dist = (b_last_max_cwnd ca - cwnd) div int_u32 BICTCP_B
        in if int_u32 (bv_max_increment P) < dist then cdiv cwnd (int_u32 (bv_max_increment P))
           else if dist \<le> 1 then Some ((cwnd * int_u32 (bv_smooth_part P)) div int_u32 BICTCP_B)
           else cdiv cwnd dist
      else if cwnd < b_last_max_cwnd ca + int_u32 BICTCP_B then
        Some ((cwnd * int_u32 (bv_smooth_part P)) div int_u32 BICTCP_B)
      else if cwnd < b_last_max_cwnd ca + int_u32 (bv_max_increment P * (BICTCP_B - 1)) then
        cdiv (cwnd * int_u32 (BICTCP_B - 1)) (cwnd - b_last_max_cwnd ca)
      else cdiv cwnd (int_u32 (bv_max_increment P)))"

definition bictcp_update :: "bic_vars \<Rightarrow> kernel \<Rightarrow> bictcp \<Rightarrow> u32 \<Rightarrow> bictcp option" where
  "bictcp_update P k ca cwnd =
     (if b_last_cwnd ca = cwnd \<and> sint (tcp_time_stamp k - b_last_time ca) \<le> sint (HZ div 32)
      then Some ca
      else
        let ca = ca\<lparr>b_last_cwnd := cwnd, b_last_time := tcp_time_stamp k\<rparr>;
            ca = (if b_epoch_start ca = 0 then ca\<lparr>b_epoch_start := tcp_time_stamp k\<rparr> else ca)
        in if cwnd \<le> int_u32 (bv_low_window P) then Some (ca\<lparr>b_cnt := cwnd\<rparr>)
           else do {
             cnt \<leftarrow> bic_search P ca cwnd;
             let cnt = (if b_loss_cwnd ca = 0 \<and> 20 < cnt then 20 else cnt);
             cnt \<leftarrow> cdiv (push_bit ACK_RATIO_SHIFT cnt) (b_delayed_ack ca);
             Some (ca\<lparr>b_cnt := (if cnt = 0 then 1 else cnt)\<rparr>)
           })"

definition bictcp_cong_avoid :: "bic_vars \<Rightarrow> kernel \<Rightarrow> bictcp tcp_sock \<Rightarrow> u32 \<Rightarrow> u32 \<Rightarrow> u32 \<Rightarrow>
    cint \<Rightarrow> bictcp tcp_sock option" where
  "bictcp_cong_avoid P k tp ack seq_rtt in_flight data_acked =
     (if \<not> tcp_is_cwnd_limited tp in_flight then Some tp
      else if snd_cwnd tp \<le> snd_ssthresh tp then tcp_slow_start k tp
      else do {
        ca \<leftarrow> bictcp_update P k (icsk_ca_priv tp) (snd_cwnd tp);
        let tp = upd_ca (\<lambda>_. ca) tp;
        Some (if b_cnt ca \<le> u16_u32 (snd_cwnd_cnt tp)
              then (inc_cwnd_clamped tp)\<lparr>snd_cwnd_cnt := 0\<rparr>
              else tp\<lparr>snd_cwnd_cnt := snd_cwnd_cnt tp + 1\<rparr>)
      })"

definition bictcp_recalc_ssthresh ::
    "bic_vars \<Rightarrow> kernel \<Rightarrow> bictcp tcp_sock \<Rightarrow> (u32 \<times> bictcp tcp_sock) option" where
  "bictcp_recalc_ssthresh P k tp =
     (let cwnd = snd_cwnd tp;
          tp = upd_ca (\<lambda>ca. ca\<lparr>b_epoch_start := 0\<rparr>) tp;
          tp = upd_ca (\<lambda>ca. ca\<lparr>b_last_max_cwnd :=
                 (if cwnd < b_last_max_cwnd ca \<and> bv_fast_convergence P \<noteq> 0
                  then (cwnd * int_u32 (BICTCP_BETA_SCALE + bv_beta P)) div int_u32 (2 * BICTCP_BETA_SCALE)
                  else cwnd)\<rparr>) tp;
          tp = upd_ca (\<lambda>ca. ca\<lparr>b_loss_cwnd := cwnd\<rparr>) tp
      in Some (if cwnd \<le> int_u32 (bv_low_window P) then max (drop_bit 1 cwnd) 2
               else max ((cwnd * int_u32 (bv_beta P)) div int_u32 BICTCP_BETA_SCALE) 2, tp))"

definition bictcp_undo_cwnd :: "kernel \<Rightarrow> bictcp tcp_sock \<Rightarrow> (u32 \<times> bictcp tcp_sock) option" where
  "bictcp_undo_cwnd k tp = Some (max (snd_cwnd tp) (b_last_max_cwnd (icsk_ca_priv tp)), tp)"

definition bictcp_state :: "kernel \<Rightarrow> bictcp tcp_sock \<Rightarrow> tcp_ca_state \<Rightarrow> bictcp tcp_sock option" where
  "bictcp_state k sk new_state =
     Some (if new_state = TCP_CA_Loss then upd_ca bictcp_reset sk else sk)"

definition bictcp_acked :: "kernel \<Rightarrow> bictcp tcp_sock \<Rightarrow> u32 \<Rightarrow> s64 \<Rightarrow> bictcp tcp_sock option" where
  "bictcp_acked k sk cnt ts =
     Some (if 0 < cnt \<and> icsk_ca_state sk = TCP_CA_Open
           then upd_ca (\<lambda>ca. let cnt = cnt - drop_bit ACK_RATIO_SHIFT (b_delayed_ack ca)
                              in ca\<lparr>b_delayed_ack := b_delayed_ack ca + cnt\<rparr>) sk
           else sk)"

definition bic_ops :: "bic_vars \<Rightarrow> bictcp tcp_congestion_ops" where
  "bic_ops P = null_ops\<lparr>op_init := Some (bictcp_init P),
     op_ssthresh := Some (bictcp_recalc_ssthresh P), op_cong_avoid := Some (bictcp_cong_avoid P),
     op_set_state := Some bictcp_state, op_undo_cwnd := Some bictcp_undo_cwnd,
     op_pkts_acked := Some bictcp_acked, op_name := ''bic''\<rparr>"

definition bictcp_register :: "addr \<Rightarrow> 'p cong_reg \<Rightarrow> (int \<times> 'p cong_reg) option" where
  "bictcp_register tbl s = tcp_register_congestion_control tbl s"

definition bictcp_unregister :: "addr \<Rightarrow> 'p cong_reg \<Rightarrow> 'p cong_reg" where
  "bictcp_unregister tbl s = tcp_unregister_congestion_control tbl s"

section \<open>Parameters and invariant\<close>

definition bic_vars_ok :: "bic_vars \<Rightarrow> bool" where
  "bic_vars_ok P \<longleftrightarrow> 1 \<le> sint (bv_max_increment P) \<and> 0 \<le> sint (bv_beta P) \<and>
     sint (bv_beta P) \<le> 1024 \<and> 0 \<le> sint (bv_initial_ssthresh P)"

definition bictcp_ok :: "bictcp \<Rightarrow> bool" where
  "bictcp_ok ca \<longleftrightarrow> 1 \<le> unat (b_delayed_ack ca) \<and> unat (b_delayed_ack ca) \<le> 68719476736 \<and>
     unat (b_last_max_cwnd ca) < win_limit"

lemma bic_default_ok: "bic_vars_ok bic_default"
  by (simp add: bic_vars_ok_def bic_default_def)

lemma bictcp_reset_ok [simp]: "bictcp_ok (bictcp_reset ca)"
  by (simp add: bictcp_ok_def bictcp_reset_def ACK_RATIO_SHIFT_def win_limit_def)

lemma bic_scales [simp]: "int_u32 BICTCP_B = 4" "int_u32 BICTCP_BETA_SCALE = 1024"
  "int_u32 (2 * BICTCP_BETA_SCALE) = 2048" "int_u32 (BICTCP_B - 1) = 3"
  by (simp_all add: BICTCP_B_def BICTCP_BETA_SCALE_def)

lemma max_increment_nonzero: "bic_vars_ok P \<Longrightarrow> int_u32 (bv_max_increment P) \<noteq> 0"
  by (simp add: bic_vars_ok_def word_neq_0_unat unat_int_u32)

text \<open>No division of the search is by zero.\<close>

lemma bic_search_returns:
  assumes "bic_vars_ok P" and "bictcp_ok ca"
  shows "\<exists>c. bic_search P ca cwnd = Some c"
proof -
  note nz = max_increment_nonzero [OF assms(1)]
  have far: "cwnd - b_last_max_cwnd ca \<noteq> 0"
    if "\<not> cwnd < b_last_max_cwnd ca" "\<not> cwnd < b_last_max_cwnd ca + 4"
  proof -
    have "unat (b_last_max_cwnd ca + 4) = unat (b_last_max_cwnd ca) + 4"
      using assms(2) by (subst unat_add_small) (simp_all add: bictcp_ok_def win_limit_def)
    then show ?thesis using that by (auto simp: word_less_nat_alt)
  qed
  show ?thesis using nz far by (auto simp: bic_search_def cdiv_def Let_def)
qed


lemma bictcp_update_returns:
  assumes "bic_vars_ok P" and "bictcp_ok ca"
  shows "\<exists>ca'. bictcp_update P k ca cwnd = Some ca' \<and> b_delayed_ack ca' = b_delayed_ack ca
    \<and> b_last_max_cwnd ca' = b_last_max_cwnd ca \<and> b_loss_cwnd ca' = b_loss_cwnd ca
    \<and> (ca' = ca \<or> cwnd = 0 \<or> b_cnt ca' \<noteq> 0)"
proof -
  have d: "b_delayed_ack ca \<noteq> 0" using assms(2) by (simp add: bictcp_ok_def word_neq_0_unat)
  have b: "\<exists>c. bic_search P (ca\<lparr>b_last_cwnd := w, b_last_time := t, b_epoch_start := e\<rparr>) cwnd = Some c"
    "\<exists>c. bic_search P (ca\<lparr>b_last_cwnd := w, b_last_time := t\<rparr>) cwnd = Some c" for w t e
    using assms(2) by (simp_all add: bic_search_returns [OF assms(1)] bictcp_ok_def)
  show ?thesis
    using d b(1) [where w = cwnd and t = "tcp_time_stamp k" and e = "tcp_time_stamp k"]
      b(2) [where w = cwnd and t = "tcp_time_stamp k"]
    by (auto simp: bictcp_update_def Let_def cdiv_def)
qed

text \<open>The sliding average: \<open>ratio = ratio - ratio / 16 + sample\<close>, scaled by 16.\<close>

lemma bictcp_acked_average:
  assumes "bictcp_ok (icsk_ca_priv sk)" and "0 < unat cnt" and "unat cnt < 4294967296"
    and "icsk_ca_state sk = TCP_CA_Open"
  defines "d \<equiv> unat (b_delayed_ack (icsk_ca_priv sk))"
  shows "\<exists>d'. bictcp_acked k sk cnt ts = Some (upd_ca (\<lambda>ca. ca\<lparr>b_delayed_ack := d'\<rparr>) sk)
    \<and> unat d' = d - d div 16 + unat cnt \<and> 1 \<le> unat d' \<and> unat d' \<le> 68719476736"
proof -
  let ?d = "b_delayed_ack (icsk_ca_priv sk)"
  let ?d' = "?d + (cnt - drop_bit 4 ?d)"
  have "1 \<le> unat ?d" "unat ?d \<le> 68719476736" using assms(1) by (simp_all add: bictcp_ok_def)
  note r = ratio_average [OF this assms(2,3)]
  have "bictcp_acked k sk cnt ts = Some (upd_ca (\<lambda>ca. ca\<lparr>b_delayed_ack := ?d'\<rparr>) sk)"
    using assms(2,4) by (simp add: bictcp_acked_def upd_ca_def Let_def word_less_nat_alt ACK_RATIO_SHIFT_def)
  then show ?thesis using r unfolding d_def by blast
qed

lemma bictcp_acked_keeps:
  assumes "sock_ok L sk" and "bictcp_ok (icsk_ca_priv sk)" and "unat cnt < 4294967296"
  shows "keeps L bictcp_ok sk (bictcp_acked k sk cnt ts)"
proof (cases "0 < cnt \<and> icsk_ca_state sk = TCP_CA_Open")
  case True
  then have "0 < unat cnt" by (simp add: word_less_nat_alt)
  then obtain d' where
    "bictcp_acked k sk cnt ts = Some (upd_ca (\<lambda>ca. ca\<lparr>b_delayed_ack := d'\<rparr>) sk)"
    "1 \<le> unat d' \<and> unat d' \<le> 68719476736"
    using bictcp_acked_average [OF assms(2) _ assms(3)] True by blast
  then show ?thesis using assms by (simp add: bictcp_ok_def)
next
  case False
  then have "bictcp_acked k sk cnt ts = Some sk" by (auto simp: bictcp_acked_def)
  then show ?thesis using assms by simp
qed

text \<open>Reaction to a loss.\<close>

lemma beta_scale:
  assumes "bic_vars_ok P" and "unat cwnd < 2 ^ 31"
  shows "unat ((cwnd * int_u32 (bv_beta P)) div 1024) = unat cwnd * nat (sint (bv_beta P)) div 1024"
    and "unat cwnd * nat (sint (bv_beta P)) div 1024 \<le> unat cwnd"
    and "unat ((cwnd * int_u32 (BICTCP_BETA_SCALE + bv_beta P)) div 2048)
      = unat cwnd * (1024 + nat (sint (bv_beta P))) div 2048"
    and "unat cwnd * (1024 + nat (sint (bv_beta P))) div 2048 \<le> unat cwnd"
  using beta_scale_1024 [of "bv_beta P" cwnd] assms
  by (simp_all add: bic_vars_ok_def BICTCP_BETA_SCALE_def)

text \<open>
  \<open>last_max_cwnd\<close> remembers the window at the loss, or a point below it when the window was
  already under the previous maximum (fast convergence); above \<open>low_window\<close> the threshold is
  the window scaled by \<open>beta / 1024\<close>.
\<close>

definition bic_wmax :: "bic_vars \<Rightarrow> bictcp \<Rightarrow> nat \<Rightarrow> nat" where
  "bic_wmax P ca c =
     (if c < unat (b_last_max_cwnd ca) \<and> bv_fast_convergence P \<noteq> 0
      then c * (1024 + nat (sint (bv_beta P))) div 2048 else c)"

lemma bictcp_recalc_ssthresh_val:
  assumes "bic_vars_ok P" and "unat (snd_cwnd tp) < 2 ^ 31"
  defines "c \<equiv> unat (snd_cwnd tp)"
  shows "\<exists>w m. bictcp_recalc_ssthresh P k tp = Some (max w 2, upd_ca (\<lambda>ca.
      ca\<lparr>b_epoch_start := 0, b_last_max_cwnd := m, b_loss_cwnd := snd_cwnd tp\<rparr>) tp)
    \<and> unat m = bic_wmax P (icsk_ca_priv tp) c
    \<and> unat w = (if snd_cwnd tp \<le> int_u32 (bv_low_window P) then c div 2
                else c * nat (sint (bv_beta P)) div 1024)"
proof -
  let ?c = "snd_cwnd tp" and ?ca = "icsk_ca_priv tp"
  let ?m = "if ?c < b_last_max_cwnd ?ca \<and> bv_fast_convergence P \<noteq> 0
            then (?c * int_u32 (BICTCP_BETA_SCALE + bv_beta P)) div 2048 else ?c"
  let ?w = "if ?c \<le> int_u32 (bv_low_window P) then drop_bit 1 ?c else (?c * int_u32 (bv_beta P)) div 1024"
  have "bictcp_recalc_ssthresh P k tp = Some (max ?w 2, upd_ca (\<lambda>ca.
      ca\<lparr>b_epoch_start := 0, b_last_max_cwnd := ?m, b_loss_cwnd := ?c\<rparr>) tp)"
    by (simp add: bictcp_recalc_ssthresh_def Let_def upd_ca_def del: drop_bit_Suc)
  moreover have "unat ?m = bic_wmax P ?ca c"
    using beta_scale(3) [OF assms(1,2)] by (simp add: bic_wmax_def word_less_nat_alt c_def)
  moreover have "unat ?w = (if ?c \<le> int_u32 (bv_low_window P) then c div 2
                else c * nat (sint (bv_beta P)) div 1024)"
    unfolding c_def using beta_scale(1) [OF assms(1,2)] unat_half [of ?c] by (simp only: split: if_split) blast
  ultimately show ?thesis by blast
qed

lemma bic_wmax_le: "bic_vars_ok P \<Longrightarrow> bic_wmax P ca c \<le> c"
  by (auto simp: bic_wmax_def bic_vars_ok_def nat_le_iff intro!: scale_le)

section \<open>The contract\<close>

lemma bictcp_recalc_ssthresh_yields:
  assumes "bic_vars_ok P" and "sock_ok win_limit tp" and "bictcp_ok (icsk_ca_priv tp)"
  shows "yields win_limit bictcp_ok tp (bictcp_recalc_ssthresh P k tp)"
proof -
  let ?c = "unat (snd_cwnd tp)"
  have c: "?c < win_limit" by (rule sock_okD(4) [OF assms(2)])
  obtain w m where r: "bictcp_recalc_ssthresh P k tp = Some (max w 2, upd_ca (\<lambda>ca.
      ca\<lparr>b_epoch_start := 0, b_last_max_cwnd := m, b_loss_cwnd := snd_cwnd tp\<rparr>) tp)"
    and m: "unat m = bic_wmax P (icsk_ca_priv tp) ?c"
    and w: "unat w = (if snd_cwnd tp \<le> int_u32 (bv_low_window P) then ?c div 2
                else ?c * nat (sint (bv_beta P)) div 1024)"
    using bictcp_recalc_ssthresh_val [OF assms(1), of tp k] c by (auto simp: win_limit_def)
  have "?c * nat (sint (bv_beta P)) div 1024 \<le> ?c"
    using assms(1) by (intro scale_le) (simp add: bic_vars_ok_def nat_le_iff)
  then have "unat w < win_limit" using w c by (auto split: if_splits)
  moreover have "unat m < win_limit" using m bic_wmax_le [OF assms(1), of "icsk_ca_priv tp" ?c] c by simp
  ultimately show ?thesis unfolding r using assms(2,3) by (intro yields_max2) (simp_all add: bictcp_ok_def)
qed

lemma bictcp_cong_avoid_keeps:
  assumes "bic_vars_ok P" and "sock_ok L tp" and "bictcp_ok (icsk_ca_priv tp)"
  shows "keeps L bictcp_ok tp (bictcp_cong_avoid P k tp ack rtt in_flight d)"
proof -
  obtain ca where ca: "bictcp_update P k (icsk_ca_priv tp) (snd_cwnd tp) = Some ca" "bictcp_ok ca"
    using bictcp_update_returns [OF assms(1,3), of k "snd_cwnd tp"] assms(3) by (auto simp: bictcp_ok_def)
  show ?thesis using assms(2,3) ca
    by (auto simp: bictcp_cong_avoid_def Let_def tcp_slow_start_keeps inc_cwnd_clamped_ok)
qed

lemma bictcp_init_keeps:
  assumes "bic_vars_ok P" and "sock_ok win_limit tp"
  shows "keeps win_limit bictcp_ok tp (bictcp_init P k tp)"
proof -
  have "unat (int_u32 (bv_initial_ssthresh P)) = unat (bv_initial_ssthresh P)"
    "unat (bv_initial_ssthresh P) < win_limit"
    using assms(1) nat_sint_bound [of "bv_initial_ssthresh P"]
    by (simp_all add: bic_vars_ok_def unat_int_u32 unat_cint win_limit_def)
  then show ?thesis using assms(2)
    by (auto simp: bictcp_init_def Let_def unat_gt_0 Suc_le_eq intro!: sock_ok_set_ssthresh)
qed

lemma bictcp_state_keeps:
  "sock_ok L sk \<Longrightarrow> bictcp_ok (icsk_ca_priv sk) \<Longrightarrow> keeps L bictcp_ok sk (bictcp_state k sk st)"
  by (simp add: bictcp_state_def)

lemma bic_contract: "bic_vars_ok P \<Longrightarrow> cong_control win_limit R (bic_ops P) bictcp_ok"
  by unfold_locales
    (auto simp: cc_defs bic_ops_def bictcp_recalc_ssthresh_yields bictcp_cong_avoid_keeps
      bictcp_init_keeps bictcp_acked_keeps same_path_def bictcp_state_def dest: sock_okD)

interpretation bic: cong_control win_limit R "bic_ops bic_default" bictcp_ok
  by (rule bic_contract [OF bic_default_ok])

end
