(* ===== verification/Tcp_Cubic.thy ===== *)
theory Tcp_Cubic
  imports Cong_Contract Cong_List
begin

text \<open>
  \<open>tcp/linux/src/tcp_cubic.c\<close>: CUBIC. The names it shares with \<open>tcp_bic.c\<close> carry the suffix
  \<open>_cubic\<close>, the fields of its \<open>struct bictcp\<close> the prefix \<open>c_\<close>. \<open>bictcp_update\<close> is divided
  where the source's comments divide it: the start of an epoch, the cubic function, the
  TCP-friendly estimate with its loop, the final scaling. The lemmas show that the table look-up of
  \<open>cubic_root\<close> stays inside the table, that no division in the module is by zero and that the
  TCP-friendly loop ends, with its result in closed form.
\<close>

definition BICTCP_BETA_SCALE_cubic :: cint where "BICTCP_BETA_SCALE_cubic = 1024"
definition BICTCP_HZ :: nat where "BICTCP_HZ = 10"
definition ACK_RATIO_SHIFT_cubic :: nat where "ACK_RATIO_SHIFT_cubic = 4"

record cubic_vars =
  cv_fast_convergence :: cint
  cv_max_increment :: cint
  cv_beta :: cint
  cv_initial_ssthresh :: cint
  cv_bic_scale :: cint
  cv_tcp_friendliness :: cint
  cube_rtt_scale :: u32
  beta_scale :: u32
  cube_factor :: u64

definition cubic_params :: "param_decl list" where
  "cubic_params =
     [(''fast_convergence'', ''int'', ''turn on/off fast convergence''),
      (''max_increment'', ''int'', ''Limit on increment allowed during binary search''),
      (''beta'', ''int'', ''beta for multiplicative increase''),
      (''initial_ssthresh'', ''int'', ''initial value of slow start threshold''),
      (''bic_scale'', ''int'', ''scale (scaled by 1024) value for bic function (bic_scale/1024)''),
      (''tcp_friendliness'', ''int'', ''turn on/off tcp friendliness'')]"

definition cubic_default :: cubic_vars where
  "cubic_default = \<lparr>cv_fast_convergence = 1, cv_max_increment = 16, cv_beta = 819,
     cv_initial_ssthresh = 0, cv_bic_scale = 41, cv_tcp_friendliness = 1,
     cube_rtt_scale = 0, beta_scale = 0, cube_factor = 0\<rparr>"

record bictcp_cubic =
  c_cnt :: u32
  c_last_max_cwnd :: u32
  c_loss_cwnd :: u32
  c_last_cwnd :: u32
  c_last_time :: u32
  bic_origin_point :: u32
  bic_K :: u32
  delay_min :: u32
  c_epoch_start :: u32
  ack_cnt :: u32
  tcp_cwnd :: u32
  c_delayed_ack :: u32

definition bictcp_reset_cubic :: "bictcp_cubic \<Rightarrow> bictcp_cubic" where
  "bictcp_reset_cubic ca = ca\<lparr>c_cnt := 0, c_last_max_cwnd := 0, c_loss_cwnd := 0, c_last_cwnd := 0,
     c_last_time := 0, bic_origin_point := 0, bic_K := 0, delay_min := 0, c_epoch_start := 0,
     c_delayed_ack := push_bit ACK_RATIO_SHIFT_cubic 2, ack_cnt := 0, tcp_cwnd := 0\<rparr>"

definition bictcp_init_cubic ::
    "cubic_vars \<Rightarrow> kernel \<Rightarrow> bictcp_cubic tcp_sock \<Rightarrow> bictcp_cubic tcp_sock option" where
  "bictcp_init_cubic P k sk =
     (let sk = upd_ca bictcp_reset_cubic sk
      in Some (if cv_initial_ssthresh P \<noteq> 0
               then sk\<lparr>snd_ssthresh := int_u32 (cv_initial_ssthresh P)\<rparr> else sk))"

section \<open>Cube root\<close>

definition cbrt_table :: "u8 list" where
  "cbrt_table =
     [  0,  54,  54,  54, 118, 118, 118, 118,
      123, 129, 134, 138, 143, 147, 151, 156,
      157, 161, 164, 168, 170, 173, 176, 179,
      181, 185, 187, 190, 192, 194, 197, 199,
      200, 202, 204, 206, 209, 211, 213, 215,
      217, 219, 221, 222, 224, 225, 227, 229,
      231, 232, 234, 236, 237, 239, 240, 242,
      244, 245, 246, 248, 250, 251, 252, 254]"

definition cbrt_v :: "u32 \<Rightarrow> u32 option" where
  "cbrt_v i = (if unat i < length cbrt_table then Some (u8_u32 (cbrt_table ! unat i)) else None)"

text \<open>A shift by 64 or more is undefined.\<close>

definition shift_right :: "u64 \<Rightarrow> u32 \<Rightarrow> u64 option" where
  "shift_right a n = do { _ \<leftarrow> require (n < 64); Some (drop_bit (unat n) a) }"

definition shift_left :: "u64 \<Rightarrow> u32 \<Rightarrow> u64 option" where
  "shift_left a n = do { _ \<leftarrow> require (n < 64); Some (push_bit (unat n) a) }"

definition cubic_root :: "u64 \<Rightarrow> u32 option" where
  "cubic_root a = do {
     let b = int_u32 (fls64 a);
     if b < 7 then do {
       v \<leftarrow> cbrt_v a;
       Some (drop_bit 6 (v + 35))
     } else do {
       let b = drop_bit 8 (b * 84) - 1;
       shift \<leftarrow> shift_right a (b * 3);
       v \<leftarrow> cbrt_v shift;
       s \<leftarrow> shift_left (v + 10) b;
       let x = drop_bit 6 s;
       q \<leftarrow> div64_64 a (x * (x - 1));
       let x = 2 * x + q;
       Some (drop_bit 10 (x * 341))
     }
   }"

section \<open>The congestion window to use\<close>

text \<open>\<open>if (ca->epoch_start == 0)\<close>: the beginning of an epoch.\<close>

definition cubic_start_epoch ::
    "cubic_vars \<Rightarrow> kernel \<Rightarrow> bictcp_cubic \<Rightarrow> u32 \<Rightarrow> bictcp_cubic option" where
  "cubic_start_epoch P k ca cwnd =
     (if c_epoch_start ca \<noteq> 0 then Some ca
      else
        let ca = ca\<lparr>c_epoch_start := tcp_time_stamp k, ack_cnt := 1, tcp_cwnd := cwnd\<rparr>
        in if c_last_max_cwnd ca \<le> cwnd then Some (ca\<lparr>bic_K := 0, bic_origin_point := cwnd\<rparr>)
           else do {
             K \<leftarrow> cubic_root (cube_factor P * (c_last_max_cwnd ca - cwnd));
             Some (ca\<lparr>bic_K := K, bic_origin_point := c_last_max_cwnd ca\<rparr>)
           })"

text \<open>The time in units of \<open>1 / 2 ^ BICTCP_HZ\<close> and the target \<open>c/rtt * (t - K)^3\<close> away from the origin.\<close>

definition cubic_time :: "kernel \<Rightarrow> bictcp_cubic \<Rightarrow> u32" where
  "cubic_time k ca =
     push_bit BICTCP_HZ (tcp_time_stamp k + drop_bit 3 (delay_min ca) - c_epoch_start ca) div HZ"

definition cubic_target :: "cubic_vars \<Rightarrow> bictcp_cubic \<Rightarrow> u32 \<Rightarrow> u32" where
  "cubic_target P ca t =
     (let offs = (if t < bic_K ca then bic_K ca - t else t - bic_K ca);
          delta = drop_bit (10 + 3 * BICTCP_HZ) (cube_rtt_scale P * offs * offs * offs)
      in if t < bic_K ca then bic_origin_point ca - delta else bic_origin_point ca + delta)"

text \<open>\<open>ca->cnt\<close> from the target, bounded below by the largest increment, and in low utilisation.\<close>

definition cubic_count :: "cubic_vars \<Rightarrow> kernel \<Rightarrow> bictcp_cubic \<Rightarrow> u32 \<Rightarrow> u32 option" where
  "cubic_count P k ca cwnd = do {
     let t = cubic_time k ca;
     let bic_target = cubic_target P ca t;
     cnt \<leftarrow> (if cwnd < bic_target then cdiv cwnd (bic_target - cwnd) else Some (100 * cwnd));
     cnt \<leftarrow> (if 0 < delay_min ca then do {
               min_cnt \<leftarrow> cdiv (cwnd * HZ * 8) (int_u32 (10 * cv_max_increment P) * delay_min ca);
               Some (if cnt < min_cnt \<and> bic_K ca \<le> t then min_cnt else cnt)
             } else Some cnt);
     Some (if c_loss_cwnd ca = 0 then 50 else cnt)
   }"

text \<open>\<open>while (ca->ack_cnt > delta) { ca->ack_cnt -= delta; ca->tcp_cwnd++; }\<close>\<close>

partial_function (option) friendly_loop :: "u32 \<Rightarrow> u32 \<Rightarrow> u32 \<Rightarrow> (u32 \<times> u32) option" where
  "friendly_loop delta acks cwnd =
     (if delta < acks then friendly_loop delta (acks - delta) (cwnd + 1) else Some (acks, cwnd))"

definition cubic_friendly ::
    "cubic_vars \<Rightarrow> bictcp_cubic \<Rightarrow> u32 \<Rightarrow> u32 \<Rightarrow> (bictcp_cubic \<times> u32) option" where
  "cubic_friendly P ca cwnd cnt =
     (if cv_tcp_friendliness P = 0 then Some (ca, cnt)
      else do {
        (a, w) \<leftarrow> friendly_loop (drop_bit 3 (cwnd * beta_scale P)) (ack_cnt ca) (tcp_cwnd ca);
        let ca = ca\<lparr>ack_cnt := a, tcp_cwnd := w\<rparr>;
        if cwnd < tcp_cwnd ca then do {
          max_cnt \<leftarrow> cdiv cwnd (tcp_cwnd ca - cwnd);
          Some (ca, if max_cnt < cnt then max_cnt else cnt)
        } else Some (ca, cnt)
      })"

definition bictcp_update_cubic ::
    "cubic_vars \<Rightarrow> kernel \<Rightarrow> bictcp_cubic \<Rightarrow> u32 \<Rightarrow> bictcp_cubic option" where
  "bictcp_update_cubic P k ca cwnd =
     (let ca = ca\<lparr>ack_cnt := ack_cnt ca + 1\<rparr>
      in if c_last_cwnd ca = cwnd \<and> sint (tcp_time_stamp k - c_last_time ca) \<le> sint (HZ div 32)
         then Some ca
         else do {
           let ca = ca\<lparr>c_last_cwnd := cwnd, c_last_time := tcp_time_stamp k\<rparr>;
           ca \<leftarrow> cubic_start_epoch P k ca cwnd;
           cnt \<leftarrow> cubic_count P k ca cwnd;
           (ca, cnt) \<leftarrow> cubic_friendly P ca cwnd cnt;
           cnt \<leftarrow> cdiv (push_bit ACK_RATIO_SHIFT_cubic cnt) (c_delayed_ack ca);
           Some (ca\<lparr>c_cnt := (if cnt = 0 then 1 else cnt)\<rparr>)
         })"

definition measure_delay :: "kernel \<Rightarrow> bictcp_cubic tcp_sock \<Rightarrow> bictcp_cubic tcp_sock" where
  "measure_delay k tp =
     (let ca = icsk_ca_priv tp
      in if \<not> (saw_tstamp (rx_opt tp) \<noteq> 0 \<and> rcv_tsecr (rx_opt tp) \<noteq> 0) \<or>
            sint (tcp_time_stamp k - c_epoch_start ca) < sint HZ
         then tp
         else
           let delay = push_bit 3 (tcp_time_stamp k - rcv_tsecr (rx_opt tp));
               delay = (if delay = 0 then 1 else delay)
           in if delay_min ca = 0 \<or> delay < delay_min ca
              then upd_ca (\<lambda>ca. ca\<lparr>delay_min := delay\<rparr>) tp else tp)"

definition bictcp_cong_avoid_cubic :: "cubic_vars \<Rightarrow> kernel \<Rightarrow> bictcp_cubic tcp_sock \<Rightarrow> u32 \<Rightarrow> u32 \<Rightarrow>
    u32 \<Rightarrow> cint \<Rightarrow> bictcp_cubic tcp_sock option" where
  "bictcp_cong_avoid_cubic P k tp ack seq_rtt in_flight data_acked =
     (let tp = (if data_acked \<noteq> 0 then measure_delay k tp else tp)
      in if \<not> tcp_is_cwnd_limited tp in_flight then Some tp
         else if snd_cwnd tp \<le> snd_ssthresh tp then tcp_slow_start k tp
         else do {
           ca \<leftarrow> bictcp_update_cubic P k (icsk_ca_priv tp) (snd_cwnd tp);
           let tp = upd_ca (\<lambda>_. ca) tp;
           Some (if c_cnt ca \<le> u16_u32 (snd_cwnd_cnt tp)
                 then (inc_cwnd_clamped tp)\<lparr>snd_cwnd_cnt := 0\<rparr>
                 else tp\<lparr>snd_cwnd_cnt := snd_cwnd_cnt tp + 1\<rparr>)
         })"

definition bictcp_recalc_ssthresh_cubic ::
    "cubic_vars \<Rightarrow> kernel \<Rightarrow> bictcp_cubic tcp_sock \<Rightarrow> (u32 \<times> bictcp_cubic tcp_sock) option" where
  "bictcp_recalc_ssthresh_cubic P k tp =
     (let cwnd = snd_cwnd tp;
          tp = upd_ca (\<lambda>ca. ca\<lparr>c_epoch_start := 0\<rparr>) tp;
          tp = upd_ca (\<lambda>ca. ca\<lparr>c_last_max_cwnd :=
                 (if cwnd < c_last_max_cwnd ca \<and> cv_fast_convergence P \<noteq> 0
                  then (cwnd * int_u32 (BICTCP_BETA_SCALE_cubic + cv_beta P))
                         div int_u32 (2 * BICTCP_BETA_SCALE_cubic)
                  else cwnd)\<rparr>) tp;
          tp = upd_ca (\<lambda>ca. ca\<lparr>c_loss_cwnd := cwnd\<rparr>) tp
      in Some (max ((cwnd * int_u32 (cv_beta P)) div int_u32 BICTCP_BETA_SCALE_cubic) 2, tp))"

definition bictcp_undo_cwnd_cubic ::
    "kernel \<Rightarrow> bictcp_cubic tcp_sock \<Rightarrow> (u32 \<times> bictcp_cubic tcp_sock) option" where
  "bictcp_undo_cwnd_cubic k tp = Some (max (snd_cwnd tp) (c_last_max_cwnd (icsk_ca_priv tp)), tp)"

definition bictcp_state_cubic ::
    "kernel \<Rightarrow> bictcp_cubic tcp_sock \<Rightarrow> tcp_ca_state \<Rightarrow> bictcp_cubic tcp_sock option" where
  "bictcp_state_cubic k sk new_state =
     Some (if new_state = TCP_CA_Loss then upd_ca bictcp_reset_cubic sk else sk)"

definition bictcp_acked_cubic ::
    "kernel \<Rightarrow> bictcp_cubic tcp_sock \<Rightarrow> u32 \<Rightarrow> s64 \<Rightarrow> bictcp_cubic tcp_sock option" where
  "bictcp_acked_cubic k sk cnt ts =
     Some (if 0 < cnt \<and> icsk_ca_state sk = TCP_CA_Open
           then upd_ca (\<lambda>ca. let cnt = cnt - drop_bit ACK_RATIO_SHIFT_cubic (c_delayed_ack ca)
                              in ca\<lparr>c_delayed_ack := c_delayed_ack ca + cnt\<rparr>) sk
           else sk)"

definition cubictcp :: "cubic_vars \<Rightarrow> bictcp_cubic tcp_congestion_ops" where
  "cubictcp P = null_ops\<lparr>op_init := Some (bictcp_init_cubic P),
     op_ssthresh := Some (bictcp_recalc_ssthresh_cubic P),
     op_cong_avoid := Some (bictcp_cong_avoid_cubic P), op_set_state := Some bictcp_state_cubic,
     op_undo_cwnd := Some bictcp_undo_cwnd_cubic, op_pkts_acked := Some bictcp_acked_cubic,
     op_name := ''cubic''\<rparr>"

text \<open>Division of \<open>int\<close> values, which truncates towards zero.\<close>

definition int_div :: "cint \<Rightarrow> cint \<Rightarrow> cint option" where
  "int_div a b = (if b = 0 then None else Some (word_of_int (sint a sdiv sint b)))"

definition cubictcp_register ::
    "addr \<Rightarrow> cubic_vars \<Rightarrow> 'p cong_reg \<Rightarrow> (int \<times> cubic_vars \<times> 'p cong_reg) option" where
  "cubictcp_register tbl P s = do {
     q \<leftarrow> int_div (8 * (BICTCP_BETA_SCALE_cubic + cv_beta P)) 3;
     bs \<leftarrow> int_div q (BICTCP_BETA_SCALE_cubic - cv_beta P);
     let P = P\<lparr>beta_scale := int_u32 bs, cube_rtt_scale := int_u32 (cv_bic_scale P * 10),
              cube_factor := push_bit (10 + 3 * BICTCP_HZ) 1\<rparr>;
     (cf, rem) \<leftarrow> do_div (cube_factor P) (int_u32 (cv_bic_scale P * 10));
     let P = P\<lparr>cube_factor := cf\<rparr>;
     (ret, s) \<leftarrow> tcp_register_congestion_control tbl s;
     Some (ret, P, s)
   }"

definition cubictcp_unregister :: "addr \<Rightarrow> 'p cong_reg \<Rightarrow> 'p cong_reg" where
  "cubictcp_unregister tbl s = tcp_unregister_congestion_control tbl s"

section \<open>The cube root stays in its table\<close>

lemma fls64_0: "fls64 0 = 0"
  by (simp add: fls64_def fls_0)

lemma unat_fls64: "unat (int_u32 (fls64 a)) = unat (fls64 a)" "unat (fls64 a) \<le> 64"
proof -
  show "unat (fls64 a) \<le> 64" using fls64_bounds(2) [of a] fls64_0 by (cases "a = 0") auto
  then show "unat (int_u32 (fls64 a)) = unat (fls64 a)" by (intro int_u32_unat) simp
qed

text \<open>The exponent \<open>b\<close> for a bit length \<open>n\<close>, and what it makes of the shifted argument.\<close>

definition cbrt_exp :: "nat \<Rightarrow> nat" where "cbrt_exp n = n * 84 div 256 - 1"

lemma cbrt_exp_bounds:
  assumes "7 \<le> n" and "n \<le> 64"
  shows "2 \<le> n * 84 div 256" and "1 \<le> cbrt_exp n" and "cbrt_exp n \<le> 20"
    and "n \<le> 6 + 3 * cbrt_exp n" and "3 + 3 * cbrt_exp n \<le> n - 1"
proof -
  have "list_all (\<lambda>n. 2 \<le> n * 84 div 256 \<and> 1 \<le> cbrt_exp n \<and> cbrt_exp n \<le> 20 \<and>
      n \<le> 6 + 3 * cbrt_exp n \<and> 3 + 3 * cbrt_exp n \<le> n - 1) [7..<65]"
    by (simp add: cbrt_exp_def upt_rec)
  moreover have "n \<in> set [7..<65]" unfolding set_upt atLeastLessThan_iff using assms by simp
  ultimately show "2 \<le> n * 84 div 256" "1 \<le> cbrt_exp n" "cbrt_exp n \<le> 20"
    "n \<le> 6 + 3 * cbrt_exp n" "3 + 3 * cbrt_exp n \<le> n - 1"
    unfolding list_all_iff by blast+
qed

lemma cbrt_table_facts: "length cbrt_table = 64" "list_all (\<lambda>v. unat v \<le> 254) cbrt_table"
  "list_all (\<lambda>i. 123 \<le> unat (cbrt_table ! i)) [8..<64]"
  by (simp_all add: cbrt_table_def upt_rec)

lemma cbrt_v_large:
  assumes "8 \<le> unat i" and "unat i < 64"
  shows "\<exists>v. cbrt_v i = Some v \<and> 123 \<le> unat v \<and> unat v \<le> 254"
proof -
  have "unat i \<in> set [8..<64]" unfolding set_upt atLeastLessThan_iff using assms by simp
  then have "123 \<le> unat (cbrt_table ! unat i)" using cbrt_table_facts(3) unfolding list_all_iff by blast
  moreover have "unat (cbrt_table ! unat i) \<le> 254"
    using cbrt_table_facts(1,2) assms(2) by (simp add: list_all_length)
  ultimately show ?thesis using assms(2) cbrt_table_facts(1) by (simp add: cbrt_v_def)
qed

text \<open>The first guess: between 4 and \<open>2 ^ 23\<close>.\<close>

lemma cbrt_guess:
  assumes v: "123 \<le> unat v" "unat v \<le> 254" and b: "1 \<le> b" "b \<le> 20"
  shows "4 \<le> unat (drop_bit 6 (push_bit b (v + 10 :: u32)))"
    and "unat (drop_bit 6 (push_bit b (v + 10 :: u32))) < 2 ^ 23"
proof -
  have v10: "unat (v + 10) = unat v + 10" using v(2) by (subst unat_add_small) simp_all
  have p: "(2 :: nat) ^ b \<le> 2 ^ 20" "(2 :: nat) ^ 1 \<le> 2 ^ b" using b by (intro power_increasing; simp)+
  have m: "(unat v + 10) * 2 ^ b \<le> 264 * 2 ^ 20" using v(2) p(1) by (intro mult_le_mono) simp_all
  have "unat (push_bit b (v + 10)) = (unat v + 10) * 2 ^ b"
    using m unfolding v10 [symmetric] by (intro unat_push_u32) simp
  then have u: "unat (drop_bit 6 (push_bit b (v + 10))) = (unat v + 10) * 2 ^ b div 64"
    unfolding unat_shift by simp
  have l: "133 * 2 ^ 1 \<le> (unat v + 10) * 2 ^ b" using v(1) p(2) by (intro mult_le_mono) simp_all
  show "4 \<le> unat (drop_bit 6 (push_bit b (v + 10)))"
    unfolding u using div_le_mono [OF l, of 64] by simp
  show "unat (drop_bit 6 (push_bit b (v + 10))) < 2 ^ 23"
    unfolding u using div_le_mono [OF m, of 64] by simp
qed

lemma cubic_root_returns: "\<exists>r. cubic_root a = Some r"
proof (cases "unat (fls64 a) < 7")
  case True
  then have lt: "int_u32 (fls64 a) < 7" by (simp add: word_less_nat_alt unat_fls64)
  have "unat a < 64"
  proof (cases "a = 0")
    case False
    have "unat a < 2 ^ unat (fls64 a)" by (rule fls64_bounds(4) [OF False])
    also have "\<dots> \<le> 2 ^ 6" using True by (intro power_increasing) simp_all
    finally show ?thesis by simp
  qed simp
  then show ?thesis using lt by (simp add: cubic_root_def Let_def cbrt_v_def cbrt_table_facts(1))
next
  case False
  let ?n = "unat (fls64 a)" and ?bw = "drop_bit 8 (int_u32 (fls64 a) * 84) - 1"
  have n: "7 \<le> ?n" "?n \<le> 64" using False unat_fls64(2) by simp_all
  have nz: "a \<noteq> 0" using n(1) fls64_0 by auto
  note e = cbrt_exp_bounds [OF n]
  have ge: "\<not> int_u32 (fls64 a) < 7" using n(1) by (simp add: word_less_nat_alt unat_fls64)
  have "unat (int_u32 (fls64 a) * 84) = ?n * 84"
    using n(2) unat_fls64(1) by (subst unat_mult_small) simp_all
  then have d: "unat (drop_bit 8 (int_u32 (fls64 a) * 84)) = ?n * 84 div 256" unfolding unat_shift by simp
  have "(1 :: u32) \<le> drop_bit 8 (int_u32 (fls64 a) * 84)" unfolding word_le_nat_alt d using e(1) by simp
  from unat_sub_le [OF this] have bw: "unat ?bw = cbrt_exp ?n" unfolding d cbrt_exp_def by simp
  have bw3: "unat (?bw * 3) = 3 * cbrt_exp ?n" using bw e(3) by (subst unat_mult_small) simp_all
  let ?i = "drop_bit (unat (?bw * 3)) a"
  have i: "unat ?i = unat a div 2 ^ (3 * cbrt_exp ?n)" unfolding unat_shift bw3 ..
  have "unat a < 2 ^ ?n" by (rule fls64_bounds(4) [OF nz])
  also have "\<dots> \<le> 2 ^ (6 + 3 * cbrt_exp ?n)" using e(4) by (intro power_increasing) simp_all
  finally have i1: "unat ?i < 64" unfolding i power_add by (simp add: less_mult_imp_div_less)
  have "8 * 2 ^ (3 * cbrt_exp ?n) = (2 :: nat) ^ (3 + 3 * cbrt_exp ?n)" by (simp add: power_add)
  also have "\<dots> \<le> 2 ^ (?n - 1)" using e(5) by (intro power_increasing) simp_all
  also have "\<dots> \<le> unat a" by (rule fls64_bounds(3) [OF nz])
  finally have i2: "8 \<le> unat ?i" unfolding i by (simp add: less_eq_div_iff_mult_less_eq)
  obtain v where v: "cbrt_v ?i = Some v" "123 \<le> unat v" "unat v \<le> 254"
    using cbrt_v_large [OF i2 i1] by blast
  let ?x = "drop_bit 6 (push_bit (unat ?bw) (v + 10))"
  have x: "4 \<le> unat ?x" "unat ?x < 2 ^ 23" using cbrt_guess [OF v(2,3), of "unat ?bw"] bw e(2,3) by simp_all
  have "(1 :: u32) \<le> ?x" unfolding word_le_nat_alt using x(1) by simp
  from unat_sub_le [OF this] have x1: "unat (?x - 1) = unat ?x - 1" by simp
  have y: "unat ?x \<le> 8388608" using x(2) by simp
  have "unat ?x * (unat ?x - 1) \<le> 8388608 * 8388608" by (rule mult_le_mono) (use y in linarith)+
  then have "unat ?x * unat (?x - 1) < 18446744073709551616" unfolding x1 by linarith
  from unat_mult_small [OF this] have "unat (?x * (?x - 1)) = unat ?x * (unat ?x - 1)" unfolding x1 .
  moreover have "0 < unat ?x * (unat ?x - 1)" using x(1) by simp
  ultimately have "?x * (?x - 1) \<noteq> 0" unfolding word_neq_0_unat by linarith
  from div64_64_accuracy [OF this] obtain q where q: "div64_64 a (?x * (?x - 1)) = Some q" by blast
  have r1: "shift_right a (?bw * 3) = Some ?i"
    using bw3 e(3) by (simp add: shift_right_def require_def word_less_nat_alt)
  have r2: "shift_left (v + 10) ?bw = Some (push_bit (unat ?bw) (v + 10))"
    using bw e(3) by (simp add: shift_left_def require_def word_less_nat_alt)
  show ?thesis unfolding cubic_root_def Let_def using ge
    by (simp only: if_False r1 v(1) r2 q bind.bind_lunit option.simps) blast
qed

section \<open>The TCP-friendly loop\<close>

text \<open>
  With a positive \<open>delta\<close> the loop ends; it takes \<open>(acks - 1) div delta\<close> turns. With
  \<open>delta = 0\<close> and acknowledgments to count it does not end.
\<close>

lemma friendly_loop_exit: "unat acks \<le> unat delta \<Longrightarrow> friendly_loop delta acks cwnd = Some (acks, cwnd)"
  by (subst friendly_loop.simps) (simp add: word_less_nat_alt)

lemma friendly_loop_turn:
  "unat delta < unat acks \<Longrightarrow> friendly_loop delta acks cwnd = friendly_loop delta (acks - delta) (cwnd + 1)"
  by (subst friendly_loop.simps) (simp add: word_less_nat_alt)

lemma friendly_loop_closed:
  assumes "delta \<noteq> 0" and "acks \<noteq> 0"
  shows "\<exists>acks'. friendly_loop delta acks cwnd =
      Some (acks', cwnd + of_nat ((unat acks - 1) div unat delta))
    \<and> unat acks' = (unat acks - 1) mod unat delta + 1"
  using assms(2)
proof (induction "unat acks" arbitrary: acks cwnd rule: less_induct)
  case less
  have d: "0 < unat delta" using assms(1) by (simp add: unat_gt_0)
  have a: "0 < unat acks" using less.prems by (simp add: unat_gt_0)
  show ?case
  proof (cases "unat delta < unat acks")
    case False
    then have "(unat acks - 1) div unat delta = 0" "(unat acks - 1) mod unat delta + 1 = unat acks"
      using a by (simp_all add: div_eq_0_iff)
    then show ?thesis using False by (simp add: friendly_loop_exit)
  next
    case True
    then have "delta \<le> acks" by (simp add: word_le_nat_alt)
    from unat_sub_le [OF this] have u: "unat (acks - delta) = unat acks - unat delta" .
    have nz: "acks - delta \<noteq> 0" using u True by (metis unat_0 zero_less_diff less_numeral_extra(3))
    have "unat (acks - delta) < unat acks" using u d True by linarith
    from less.hyps [OF this nz, of "cwnd + 1"] obtain a' where
      r: "friendly_loop delta (acks - delta) (cwnd + 1) =
        Some (a', cwnd + 1 + of_nat ((unat acks - unat delta - 1) div unat delta))"
      and a': "unat a' = (unat acks - unat delta - 1) mod unat delta + 1" unfolding u by blast
    have e: "unat acks - 1 = (unat acks - unat delta - 1) + unat delta" using True by linarith
    have "(unat acks - 1) div unat delta = (unat acks - unat delta - 1) div unat delta + 1"
      unfolding e by (rule div_add_self2) (use d in simp)
    moreover have "(unat acks - 1) mod unat delta = (unat acks - unat delta - 1) mod unat delta"
      unfolding e by simp
    ultimately show ?thesis using r a' True by (simp add: friendly_loop_turn add.assoc)
  qed
qed

lemma friendly_loop_returns: "delta \<noteq> 0 \<Longrightarrow> \<exists>a w. friendly_loop delta acks cwnd = Some (a, w)"
  using friendly_loop_closed [of delta acks cwnd] friendly_loop_exit [of acks delta cwnd]
  by (cases "acks = 0") auto

lemma friendly_loop_diverges: "acks \<noteq> 0 \<Longrightarrow> friendly_loop 0 acks cwnd = None"
proof -
  have no: "delta = 0 \<longrightarrow> acks \<noteq> 0 \<longrightarrow> False" if "friendly_loop delta acks cwnd = Some r"
    for delta acks cwnd r
    using that
  proof (rule friendly_loop.raw_induct [where P = "\<lambda>delta acks cwnd r. delta = 0 \<longrightarrow> acks \<noteq> 0 \<longrightarrow> False", rotated])
    fix f :: "u32 \<Rightarrow> u32 \<Rightarrow> u32 \<Rightarrow> (u32 \<times> u32) option" and delta acks cwnd r
    assume IH: "\<And>delta acks cwnd r. f delta acks cwnd = Some r \<Longrightarrow> delta = 0 \<longrightarrow> acks \<noteq> 0 \<longrightarrow> False"
      and eq: "(if delta < acks then f delta (acks - delta) (cwnd + 1) else Some (acks, cwnd)) = Some r"
    show "delta = 0 \<longrightarrow> acks \<noteq> 0 \<longrightarrow> False"
      using eq IH [of 0 acks "cwnd + 1" r] by (auto simp: word_less_nat_alt unat_gt_0 split: if_splits)
  qed
  assume "acks \<noteq> 0"
  then show ?thesis using no [of 0 acks cwnd] by (cases "friendly_loop 0 acks cwnd") blast+
qed

section \<open>Parameters, scales and invariant\<close>

definition cubic_vars_ok :: "cubic_vars \<Rightarrow> bool" where
  "cubic_vars_ok P \<longleftrightarrow> 1 \<le> sint (cv_max_increment P) \<and> sint (cv_max_increment P) \<le> 200 \<and>
     0 \<le> sint (cv_beta P) \<and> sint (cv_beta P) \<le> 1024 \<and> 0 \<le> sint (cv_initial_ssthresh P) \<and>
     8 \<le> unat (beta_scale P) \<and> unat (beta_scale P) \<le> 4294967296"

definition cubic_ok :: "bictcp_cubic \<Rightarrow> bool" where
  "cubic_ok ca \<longleftrightarrow> 1 \<le> unat (c_delayed_ack ca) \<and> unat (c_delayed_ack ca) \<le> 68719476736 \<and>
     unat (c_last_max_cwnd ca) < win_limit \<and> unat (delay_min ca) \<le> 9007199254740992"

lemma bictcp_reset_cubic_ok [simp]: "cubic_ok (bictcp_reset_cubic ca)"
  by (simp add: cubic_ok_def bictcp_reset_cubic_def ACK_RATIO_SHIFT_cubic_def win_limit_def)

lemma cubic_scales [simp]: "int_u32 BICTCP_BETA_SCALE_cubic = 1024"
  "int_u32 (2 * BICTCP_BETA_SCALE_cubic) = 2048"
  by (simp_all add: BICTCP_BETA_SCALE_cubic_def)

text \<open>What the registration computes from the default parameters.\<close>

definition cubic_registered :: cubic_vars where
  "cubic_registered = cubic_default\<lparr>beta_scale := 23, cube_rtt_scale := 410, cube_factor := 2681735677\<rparr>"

lemma cubictcp_register_default:
  "cubictcp_register tbl cubic_default s =
     map_option (\<lambda>(ret, s). (ret, cubic_registered, s)) (tcp_register_congestion_control tbl s)"
  by (simp add: cubictcp_register_def cubic_default_def BICTCP_BETA_SCALE_cubic_def int_div_def
      BICTCP_HZ_def do_div_32 cubic_registered_def split_def map_option_case
      split: Option.bind_splits option.splits)

lemma cubic_registered_ok: "cubic_vars_ok cubic_registered"
  by (simp add: cubic_vars_ok_def cubic_registered_def cubic_default_def)


section \<open>The update returns\<close>

lemma cubic_start_epoch_returns:
  "\<exists>ca'. cubic_start_epoch P k ca cwnd = Some ca' \<and> c_delayed_ack ca' = c_delayed_ack ca
    \<and> c_last_max_cwnd ca' = c_last_max_cwnd ca \<and> delay_min ca' = delay_min ca
    \<and> c_loss_cwnd ca' = c_loss_cwnd ca"
  using cubic_root_returns [of "cube_factor P * (c_last_max_cwnd ca - cwnd)"]
  by (auto simp: cubic_start_epoch_def Let_def)

lemma max_inc_delay_nonzero:
  assumes "cubic_vars_ok P" and "cubic_ok ca" and "0 < delay_min ca"
  shows "int_u32 (10 * cv_max_increment P) * delay_min ca \<noteq> 0"
proof -
  let ?m = "nat (sint (cv_max_increment P))"
  have sm: "1 \<le> sint (cv_max_increment P)" "sint (cv_max_increment P) \<le> 200"
    using assms(1) by (simp_all add: cubic_vars_ok_def)
  then have m: "unat (cv_max_increment P) = ?m" "1 \<le> ?m" "?m \<le> 200"
    using unat_cint [of "cv_max_increment P"] by linarith+
  then have "unat (10 * cv_max_increment P) = 10 * ?m" by (simp add: unat_word_ariths)
  then have i: "unat (int_u32 (10 * cv_max_increment P)) = 10 * ?m" using m by (simp add: int_u32_unat)
  have d: "unat (delay_min ca) \<le> 9007199254740992" "0 < unat (delay_min ca)"
    using assms(2,3) by (simp_all add: cubic_ok_def word_less_nat_alt)
  have "10 * ?m * unat (delay_min ca) \<le> 2000 * 9007199254740992"
    using m(3) d(1) by (intro mult_le_mono) simp_all
  then have "unat (int_u32 (10 * cv_max_increment P)) * unat (delay_min ca) < 18446744073709551616"
    unfolding i by linarith
  from unat_mult_small [OF this] have "unat (int_u32 (10 * cv_max_increment P) * delay_min ca)
      = 10 * ?m * unat (delay_min ca)" unfolding i .
  then show ?thesis unfolding word_neq_0_unat using m(2) d(2) by simp
qed

lemma cubic_count_returns:
  assumes "cubic_vars_ok P" and "cubic_ok ca"
  shows "\<exists>c. cubic_count P k ca cwnd = Some c"
  using max_inc_delay_nonzero [OF assms]
  by (auto simp: cubic_count_def Let_def cdiv_def)

lemma friendly_delta_nonzero:
  assumes "cubic_vars_ok P" and "cwnd \<noteq> 0" and "unat cwnd < 4294967296"
  shows "drop_bit 3 (cwnd * beta_scale P) \<noteq> 0"
proof -
  have b: "8 \<le> unat (beta_scale P)" "unat (beta_scale P) \<le> 4294967296"
    using assms(1) by (simp_all add: cubic_vars_ok_def)
  have "unat (cwnd * beta_scale P) = unat cwnd * unat (beta_scale P)"
    by (rule unat_mult_small [OF unat_mult_bound [OF assms(3) b(2)]])
  then have "unat (drop_bit 3 (cwnd * beta_scale P)) = unat cwnd * unat (beta_scale P) div 8"
    unfolding unat_shift by simp
  moreover have "1 * 8 \<le> unat cwnd * unat (beta_scale P)"
    using assms(2) b(1) by (intro mult_le_mono) (simp_all add: unat_gt_0 Suc_le_eq)
  ultimately show ?thesis unfolding word_neq_0_unat by linarith
qed

lemma cubic_friendly_returns:
  assumes "cubic_vars_ok P" and "cwnd \<noteq> 0" and "unat cwnd < 4294967296"
  shows "\<exists>a w c. cubic_friendly P ca cwnd cnt = Some (ca\<lparr>ack_cnt := a, tcp_cwnd := w\<rparr>, c)"
proof -
  obtain a w where l: "friendly_loop (drop_bit 3 (cwnd * beta_scale P)) (ack_cnt ca) (tcp_cwnd ca) = Some (a, w)"
    using friendly_loop_returns [OF friendly_delta_nonzero [OF assms]] by blast
  have nz: "cwnd < w \<Longrightarrow> w - cwnd \<noteq> 0" by auto
  show ?thesis
  proof (cases "cv_tcp_friendliness P = 0")
    case True
    then have "cubic_friendly P ca cwnd cnt = Some (ca\<lparr>ack_cnt := ack_cnt ca, tcp_cwnd := tcp_cwnd ca\<rparr>, cnt)"
      by (simp add: cubic_friendly_def)
    then show ?thesis by blast
  next
    case False
    then show ?thesis using l nz by (auto simp: cubic_friendly_def Let_def cdiv_def)
  qed
qed

lemma bictcp_update_cubic_returns:
  assumes "cubic_vars_ok P" and "cubic_ok ca" and "cwnd \<noteq> 0" and "unat cwnd < 4294967296"
  shows "\<exists>ca'. bictcp_update_cubic P k ca cwnd = Some ca' \<and> cubic_ok ca'
    \<and> (ca' = ca\<lparr>ack_cnt := ack_cnt ca + 1\<rparr> \<or> c_cnt ca' \<noteq> 0)"
proof -
  let ?ca = "ca\<lparr>ack_cnt := ack_cnt ca + 1\<rparr>"
  let ?ca1 = "?ca\<lparr>c_last_cwnd := cwnd, c_last_time := tcp_time_stamp k\<rparr>"
  obtain ca2 where ca2: "cubic_start_epoch P k ?ca1 cwnd = Some ca2" "cubic_ok ca2"
    "c_delayed_ack ca2 = c_delayed_ack ca"
    using cubic_start_epoch_returns [of P k ?ca1 cwnd] assms(2) by (auto simp: cubic_ok_def)
  obtain c where c: "cubic_count P k ca2 cwnd = Some c" using cubic_count_returns [OF assms(1) ca2(2)] by blast
  obtain a w c' where f: "cubic_friendly P ca2 cwnd c = Some (ca2\<lparr>ack_cnt := a, tcp_cwnd := w\<rparr>, c')"
    using cubic_friendly_returns [OF assms(1,3,4)] by blast
  have d: "c_delayed_ack ca2 \<noteq> 0" using ca2(2) by (simp add: cubic_ok_def word_neq_0_unat)
  show ?thesis
  proof (cases "c_last_cwnd ca = cwnd \<and> sint (tcp_time_stamp k - c_last_time ca) \<le> sint (HZ div 32)")
    case True
    then have "bictcp_update_cubic P k ca cwnd = Some ?ca" by (simp add: bictcp_update_cubic_def)
    then show ?thesis using assms(2) by (simp add: cubic_ok_def)
  next
    case False
    let ?c = "push_bit ACK_RATIO_SHIFT_cubic c' div c_delayed_ack ca2"
    have "bictcp_update_cubic P k ca cwnd =
        Some (ca2\<lparr>ack_cnt := a, tcp_cwnd := w, c_cnt := (if ?c = 0 then 1 else ?c)\<rparr>)"
      using False ca2(1) c f d by (auto simp: bictcp_update_cubic_def Let_def cdiv_def)
    then show ?thesis using ca2(2) by (simp add: cubic_ok_def)
  qed
qed

section \<open>The contract\<close>

lemma measure_delay_ok:
  assumes "sock_ok L tp" and "cubic_ok (icsk_ca_priv tp)" and "path_ok R k tp"
  shows "sock_ok L (measure_delay k tp)" and "cubic_ok (icsk_ca_priv (measure_delay k tp))"
    and "same_path tp (measure_delay k tp)" and "snd_cwnd (measure_delay k tp) = snd_cwnd tp"
proof -
  let ?d = "push_bit 3 (tcp_time_stamp k - rcv_tsecr (rx_opt tp))"
  have t: "unat (tcp_time_stamp k) < 1125899906842624" "rcv_tsecr (rx_opt tp) \<le> tcp_time_stamp k"
    using assms(3) by (simp_all add: path_ok_def word_le_nat_alt)
  have "unat (tcp_time_stamp k - rcv_tsecr (rx_opt tp)) < 1125899906842624"
    using unat_sub_le [OF t(2)] t(1) by linarith
  then have "unat ?d \<le> 9007199254740992" using unat_push_u32 [of "tcp_time_stamp k - rcv_tsecr (rx_opt tp)" 3]
    by simp
  then have dd: "unat (if ?d = 0 then 1 else ?d) \<le> 9007199254740992" by (simp split: if_split)
  show "sock_ok L (measure_delay k tp)" "same_path tp (measure_delay k tp)"
    "snd_cwnd (measure_delay k tp) = snd_cwnd tp"
    using assms(1) by (simp_all add: measure_delay_def Let_def)
  show "cubic_ok (icsk_ca_priv (measure_delay k tp))"
    unfolding measure_delay_def Let_def using assms(2) dd by (simp add: cubic_ok_def)
qed

lemma bictcp_cong_avoid_cubic_keeps:
  assumes "cubic_vars_ok P" and "sock_ok win_limit tp" and "cubic_ok (icsk_ca_priv tp)" and "path_ok R k tp"
  shows "keeps win_limit cubic_ok tp (bictcp_cong_avoid_cubic P k tp ack rtt in_flight d)"
proof -
  let ?tp = "if d \<noteq> 0 then measure_delay k tp else tp"
  have ok: "sock_ok win_limit ?tp" "cubic_ok (icsk_ca_priv ?tp)" "same_path tp ?tp"
    using measure_delay_ok [OF assms(2-4)] assms(2,3) by simp_all
  have w: "snd_cwnd ?tp \<noteq> 0" "unat (snd_cwnd ?tp) < 4294967296"
    using sock_okD(1,4) [OF ok(1)] by (simp_all add: win_limit_def)
  obtain ca where ca: "bictcp_update_cubic P k (icsk_ca_priv ?tp) (snd_cwnd ?tp) = Some ca" "cubic_ok ca"
    using bictcp_update_cubic_returns [OF assms(1) ok(2) w] by blast
  have "keeps win_limit cubic_ok ?tp (bictcp_cong_avoid_cubic P k tp ack rtt in_flight d)"
    using ok ca unfolding bictcp_cong_avoid_cubic_def Let_def
    by (auto simp: tcp_slow_start_keeps inc_cwnd_clamped_ok simp del: split_paired_Ex)
  then show ?thesis using same_path_trans [OF ok(3)] by (auto simp: keeps_def)
qed

lemma cubic_recalc_ssthresh_val:
  assumes "cubic_vars_ok P" and "unat (snd_cwnd tp) < win_limit"
  defines "c \<equiv> unat (snd_cwnd tp)"
  shows "\<exists>w m. bictcp_recalc_ssthresh_cubic P k tp = Some (max w 2, upd_ca (\<lambda>ca.
      ca\<lparr>c_epoch_start := 0, c_last_max_cwnd := m, c_loss_cwnd := snd_cwnd tp\<rparr>) tp)
    \<and> unat w = c * nat (sint (cv_beta P)) div 1024
    \<and> unat m = (if c < unat (c_last_max_cwnd (icsk_ca_priv tp)) \<and> cv_fast_convergence P \<noteq> 0
        then c * (1024 + nat (sint (cv_beta P))) div 2048 else c)
    \<and> unat w \<le> c \<and> unat m \<le> c"
proof -
  let ?c = "snd_cwnd tp" and ?ca = "icsk_ca_priv tp"
  let ?m = "if ?c < c_last_max_cwnd ?ca \<and> cv_fast_convergence P \<noteq> 0
            then (?c * int_u32 (1024 + cv_beta P)) div 2048 else ?c"
  let ?w = "(?c * int_u32 (cv_beta P)) div 1024"
  have b: "0 \<le> sint (cv_beta P)" "sint (cv_beta P) \<le> 1024" "unat ?c < 4294967296"
    using assms(1,2) by (simp_all add: cubic_vars_ok_def win_limit_def)
  note s = beta_scale_1024 [OF b]
  have "bictcp_recalc_ssthresh_cubic P k tp = Some (max ?w 2, upd_ca (\<lambda>ca.
      ca\<lparr>c_epoch_start := 0, c_last_max_cwnd := ?m, c_loss_cwnd := ?c\<rparr>) tp)"
    by (simp add: bictcp_recalc_ssthresh_cubic_def Let_def upd_ca_def BICTCP_BETA_SCALE_cubic_def)
  moreover have "unat ?m = (if c < unat (c_last_max_cwnd ?ca) \<and> cv_fast_convergence P \<noteq> 0
        then c * (1024 + nat (sint (cv_beta P))) div 2048 else c)"
    using s(3) by (simp add: word_less_nat_alt c_def)
  moreover have "unat ?m \<le> c" unfolding c_def using s(3,4) by (simp only: split: if_split) simp
  moreover have "unat ?w \<le> c" unfolding c_def using s(1,2) by linarith
  ultimately show ?thesis using s(1) unfolding c_def by blast
qed

lemma cubic_recalc_ssthresh_yields:
  assumes "cubic_vars_ok P" and "sock_ok win_limit tp" and "cubic_ok (icsk_ca_priv tp)"
  shows "yields win_limit cubic_ok tp (bictcp_recalc_ssthresh_cubic P k tp)"
proof -
  note c = sock_okD(4) [OF assms(2)]
  obtain w m where r: "bictcp_recalc_ssthresh_cubic P k tp = Some (max w 2, upd_ca (\<lambda>ca.
      ca\<lparr>c_epoch_start := 0, c_last_max_cwnd := m, c_loss_cwnd := snd_cwnd tp\<rparr>) tp)"
    and b: "unat w \<le> unat (snd_cwnd tp)" "unat m \<le> unat (snd_cwnd tp)"
    using cubic_recalc_ssthresh_val [OF assms(1) c, of k] by blast
  show ?thesis unfolding r using assms(2,3) b c by (intro yields_max2) (simp_all add: cubic_ok_def)
qed

lemma bictcp_acked_cubic_keeps:
  assumes "sock_ok L sk" and "cubic_ok (icsk_ca_priv sk)" and "unat cnt < 4294967296"
  shows "keeps L cubic_ok sk (bictcp_acked_cubic k sk cnt ts)"
proof (cases "0 < cnt \<and> icsk_ca_state sk = TCP_CA_Open")
  case True
  let ?d = "c_delayed_ack (icsk_ca_priv sk)"
  have "1 \<le> unat ?d" "unat ?d \<le> 68719476736" "0 < unat cnt"
    using assms(2) True by (simp_all add: cubic_ok_def word_less_nat_alt)
  note r = ratio_average [OF this assms(3)]
  have "bictcp_acked_cubic k sk cnt ts = Some (upd_ca (\<lambda>ca. ca\<lparr>c_delayed_ack := ?d + (cnt - drop_bit 4 ?d)\<rparr>) sk)"
    using True by (simp add: bictcp_acked_cubic_def upd_ca_def Let_def ACK_RATIO_SHIFT_cubic_def)
  then show ?thesis using assms(1,2) r(2,3) by (simp add: cubic_ok_def)
next
  case False
  then have "bictcp_acked_cubic k sk cnt ts = Some sk" by (auto simp: bictcp_acked_cubic_def)
  then show ?thesis using assms by simp
qed

lemma bictcp_init_cubic_keeps:
  assumes "cubic_vars_ok P" and "sock_ok win_limit tp"
  shows "keeps win_limit cubic_ok tp (bictcp_init_cubic P k tp)"
proof -
  have "unat (int_u32 (cv_initial_ssthresh P)) = unat (cv_initial_ssthresh P)"
    "unat (cv_initial_ssthresh P) < win_limit"
    using assms(1) nat_sint_bound [of "cv_initial_ssthresh P"]
    by (simp_all add: cubic_vars_ok_def unat_int_u32 unat_cint win_limit_def)
  then show ?thesis using assms(2)
    by (auto simp: bictcp_init_cubic_def Let_def unat_gt_0 Suc_le_eq intro!: sock_ok_set_ssthresh)
qed

lemma cubic_contract: "cubic_vars_ok P \<Longrightarrow> cong_control win_limit R (cubictcp P) cubic_ok"
  by unfold_locales
    (auto simp: cc_defs cubictcp_def cubic_recalc_ssthresh_yields bictcp_cong_avoid_cubic_keeps
      bictcp_init_cubic_keeps bictcp_acked_cubic_keeps same_path_def bictcp_state_cubic_def dest: sock_okD)

interpretation cubic: cong_control win_limit R "cubictcp cubic_registered" cubic_ok
  by (rule cubic_contract [OF cubic_registered_ok])

end
