(* ===== verification/Tcp_Hybla.thy ===== *)
theory Tcp_Hybla
  imports Cong_Contract Cong_List
begin

text \<open>
  \<open>tcp/linux/src/tcp_hybla.c\<close>: TCP Hybla, which grows the window as if the round-trip time were
  \<open>rtt0\<close>: \<open>rho\<close> is the ratio of the two, in eighths. Increments are in 128ths of a segment and
  their fractions are kept in \<open>snd_cwnd_cents\<close>. \<open>1 << rho\<close> is a shift of an \<open>int\<close>: it is
  negative for 31 and undefined from 32 on. The lemmas show that the fixed-point accounting loses nothing, and that
  the shift is defined as long as the smoothed round-trip time is below \<open>31 * 8 * rtt0\<close>.
\<close>

record hybla =
  hybla_en :: u8
  snd_cwnd_cents :: u32
  rho :: u32
  rho2 :: u32
  rho_3ls :: u32
  rho2_7ls :: u32
  minrtt :: u32

record hybla_vars =
  rtt0 :: cint

definition hybla_default :: hybla_vars where "hybla_default = \<lparr>rtt0 = 25\<rparr>"

definition hybla_params :: "param_decl list" where
  "hybla_params = [(''rtt0'', ''int'', ''reference rout trip time (ms)'')]"

definition hybla_recalc_param :: "hybla_vars \<Rightarrow> hybla tcp_sock \<Rightarrow> hybla tcp_sock option" where
  "hybla_recalc_param P sk = do {
     q \<leftarrow> cdiv (srtt sk) (msecs_to_jiffies (int_u32 (rtt0 P)));
     Some (upd_ca (\<lambda>ca.
       let r3 = max q 8; r7 = push_bit 1 (r3 * r3)
       in ca\<lparr>rho_3ls := r3, rho := drop_bit 3 r3, rho2_7ls := r7, rho2 := drop_bit 7 r7\<rparr>) sk)
   }"

definition hybla_init :: "hybla_vars \<Rightarrow> kernel \<Rightarrow> hybla tcp_sock \<Rightarrow> hybla tcp_sock option" where
  "hybla_init P k tp = do {
     let tp = upd_ca (\<lambda>ca. ca\<lparr>rho := 0, rho2 := 0, rho_3ls := 0, rho2_7ls := 0,
                           snd_cwnd_cents := 0, hybla_en := 1\<rparr>) tp;
     let tp = tp\<lparr>snd_cwnd := 2, snd_cwnd_clamp := 65535\<rparr>;
     tp \<leftarrow> hybla_recalc_param P tp;
     let tp = upd_ca (\<lambda>ca. ca\<lparr>minrtt := srtt tp\<rparr>) tp;
     Some (tp\<lparr>snd_cwnd := rho (icsk_ca_priv tp)\<rparr>)
   }"

definition hybla_state :: "kernel \<Rightarrow> hybla tcp_sock \<Rightarrow> tcp_ca_state \<Rightarrow> hybla tcp_sock option" where
  "hybla_state k sk ca_state =
     Some (upd_ca (\<lambda>ca. ca\<lparr>hybla_en := (if ca_state = TCP_CA_Open then 1 else 0)\<rparr>) sk)"

definition hybla_fractions :: "u32 list" where
  "hybla_fractions = [128, 139, 152, 165, 181, 197, 215, 234]"

definition hybla_fraction :: "u32 \<Rightarrow> u32" where
  "hybla_fraction odds =
     (if unat odds < length hybla_fractions then hybla_fractions ! unat odds else 128)"

text \<open>
  \<open>1 << n\<close> on \<open>int\<close>: undefined from the width on; \<open>1 << 31\<close> is the most negative
  \<open>int\<close>, as compiled.
\<close>

definition one_shl :: "u32 \<Rightarrow> u32 option" where
  "one_shl n = do { _ \<leftarrow> require (n < 32); Some (int_u32 (push_bit (unat n) 1)) }"

text \<open>\<open>while (ca->snd_cwnd_cents >= 128)\<close>, on the window, the cents and \<open>snd_cwnd_cnt\<close>.\<close>

function hybla_carry :: "u32 \<Rightarrow> u32 \<Rightarrow> u16 \<Rightarrow> u32 \<times> u32 \<times> u16" where
  "hybla_carry cwnd cents cnt =
     (if 128 \<le> cents then hybla_carry (cwnd + 1) (cents - 128) 0 else (cwnd, cents, cnt))"
  by pat_completeness auto
termination
  by (relation "measure (\<lambda>(cwnd, cents, cnt). unat cents)") (auto simp: unat_sub_le word_le_nat_alt)

definition hybla_cong_avoid :: "hybla_vars \<Rightarrow> kernel \<Rightarrow> hybla tcp_sock \<Rightarrow> u32 \<Rightarrow> u32 \<Rightarrow> u32 \<Rightarrow>
    cint \<Rightarrow> hybla tcp_sock option" where
  "hybla_cong_avoid P k tp ack rtt in_flight flag = do {
     tp \<leftarrow> (if srtt tp < minrtt (icsk_ca_priv tp) then do {
              tp \<leftarrow> hybla_recalc_param P tp;
              Some (upd_ca (\<lambda>ca. ca\<lparr>minrtt := srtt tp\<rparr>) tp)
            } else Some tp);
     if \<not> tcp_is_cwnd_limited tp in_flight then Some tp
     else if hybla_en (icsk_ca_priv tp) = 0 then tcp_reno_cong_avoid k tp ack rtt in_flight flag
     else do {
       tp \<leftarrow> (if rho (icsk_ca_priv tp) = 0 then hybla_recalc_param P tp else Some tp);
       let ca = icsk_ca_priv tp;
       let rho_fractions = rho_3ls ca - push_bit 3 (rho ca);
       let is_slowstart = (snd_cwnd tp < snd_ssthresh tp);
       (increment, tp) \<leftarrow>
         (if is_slowstart then do {
            p \<leftarrow> one_shl (rho ca);
            Some (p * hybla_fraction rho_fractions - 128, tp)
          } else do {
            increment \<leftarrow> cdiv (rho2_7ls ca) (snd_cwnd tp);
            Some (increment, if increment < 128
                             then tp\<lparr>snd_cwnd_cnt := snd_cwnd_cnt tp + 1\<rparr> else tp)
          });
       let odd = increment mod 128;
       let (cwnd, cents, cnt) =
         hybla_carry (snd_cwnd tp + drop_bit 7 increment) (snd_cwnd_cents ca + odd) (snd_cwnd_cnt tp);
       let tp = upd_ca (\<lambda>ca. ca\<lparr>snd_cwnd_cents := cents\<rparr>) (tp\<lparr>snd_cwnd := cwnd, snd_cwnd_cnt := cnt\<rparr>);
       let tp = (if is_slowstart then tp\<lparr>snd_cwnd := min (snd_cwnd tp) (snd_ssthresh tp)\<rparr> else tp);
       Some (tp\<lparr>snd_cwnd := min (snd_cwnd tp) (u16_u32 (snd_cwnd_clamp tp))\<rparr>)
     }
   }"

definition tcp_hybla :: "hybla_vars \<Rightarrow> hybla tcp_congestion_ops" where
  "tcp_hybla P = null_ops\<lparr>op_init := Some (hybla_init P), op_ssthresh := Some tcp_reno_ssthresh,
     op_min_cwnd := Some tcp_reno_min_cwnd, op_cong_avoid := Some (hybla_cong_avoid P),
     op_set_state := Some hybla_state, op_name := ''hybla''\<rparr>"

definition hybla_register :: "addr \<Rightarrow> 'p cong_reg \<Rightarrow> (int \<times> 'p cong_reg) option" where
  "hybla_register tbl s = tcp_register_congestion_control tbl s"

definition hybla_unregister :: "addr \<Rightarrow> 'p cong_reg \<Rightarrow> 'p cong_reg" where
  "hybla_unregister tbl s = tcp_unregister_congestion_control tbl s"

declare hybla_carry.simps [simp del]

text \<open>The carry moves whole segments from the cents to the window.\<close>

lemma hybla_carry_exact:
  "unat cwnd + unat cents div 128 < 18446744073709551616 \<Longrightarrow>
     \<exists>w c n. hybla_carry cwnd cents cnt = (w, c, n) \<and> unat w = unat cwnd + unat cents div 128
       \<and> unat c = unat cents mod 128 \<and> n = (if unat cents < 128 then cnt else 0)"
proof (induction cwnd cents cnt rule: hybla_carry.induct)
  case (1 cwnd cents cnt)
  show ?case
  proof (cases "128 \<le> cents")
    case False
    then show ?thesis by (simp add: hybla_carry.simps [of cwnd] word_le_nat_alt)
  next
    case True
    have c: "unat (cents - 128) = unat cents - 128" using unat_sub_le [OF True] by simp
    have ge: "128 \<le> unat cents" using True by (simp add: word_le_nat_alt)
    then have d: "unat cents div 128 = (unat cents - 128) div 128 + 1"
      "unat cents mod 128 = (unat cents - 128) mod 128"
      by (simp_all add: le_div_geq le_mod_geq)
    have w: "unat (cwnd + 1) = unat cwnd + 1" using 1(2) d(1) by (intro unat_inc_small) linarith
    have "unat (cwnd + 1) + unat (cents - 128) div 128 < 18446744073709551616"
      using 1(2) unfolding w c d(1) by linarith
    from 1(1) [OF True this] obtain w' c' n' where
      r: "hybla_carry (cwnd + 1) (cents - 128) 0 = (w', c', n')"
      "unat w' = unat (cwnd + 1) + unat (cents - 128) div 128"
      "unat c' = unat (cents - 128) mod 128" "n' = (if unat (cents - 128) < 128 then 0 else 0)" by blast
    have "hybla_carry cwnd cents cnt = (w', c', n')" using True r(1) by (simp add: hybla_carry.simps [of cwnd])
    then show ?thesis using r(2-4) ge unfolding w c d by simp
  qed
qed

section \<open>Parameters and invariant\<close>

definition hybla_vars_ok :: "hybla_vars \<Rightarrow> bool" where
  "hybla_vars_ok P \<longleftrightarrow> 1 \<le> sint (rtt0 P)"

definition hybla_ok :: "hybla \<Rightarrow> bool" where
  "hybla_ok ca \<longleftrightarrow> 8 \<le> unat (rho_3ls ca) \<and> unat (rho_3ls ca) \<le> 247 \<and>
     unat (rho ca) = unat (rho_3ls ca) div 8 \<and> unat (rho2_7ls ca) = 2 * (unat (rho_3ls ca))\<^sup>2 \<and>
     unat (snd_cwnd_cents ca) < 128"

lemma hybla_default_ok: "hybla_vars_ok hybla_default"
  by (simp add: hybla_vars_ok_def hybla_default_def)

text \<open>The largest smoothed round-trip time for which the shift is defined.\<close>

definition hybla_srtt_limit :: "hybla_vars \<Rightarrow> nat" where
  "hybla_srtt_limit P = 248 * nat (sint (rtt0 P))"

lemma hybla_recalc_ok:
  assumes "hybla_vars_ok P" and "unat (srtt sk) < hybla_srtt_limit P"
  shows "\<exists>sk'. hybla_recalc_param P sk = Some sk' \<and> sk' = upd_ca (\<lambda>_. icsk_ca_priv sk') sk
    \<and> (unat (snd_cwnd_cents (icsk_ca_priv sk)) < 128 \<longrightarrow> hybla_ok (icsk_ca_priv sk'))
    \<and> unat (rho_3ls (icsk_ca_priv sk')) = max (unat (srtt sk) div nat (sint (rtt0 P))) 8"
proof -
  have sr: "0 \<le> sint (rtt0 P)" "0 < nat (sint (rtt0 P))" using assms(1) by (simp_all add: hybla_vars_ok_def)
  have m: "msecs_to_jiffies (int_u32 (rtt0 P)) = int_u32 (rtt0 P)" by (simp add: msecs_to_jiffies_def)
  have ur: "unat (int_u32 (rtt0 P)) = nat (sint (rtt0 P))" by (rule unat_int_u32 [OF sr(1)])
  then have nz: "int_u32 (rtt0 P) \<noteq> 0" unfolding word_neq_0_unat using sr(2) by simp
  let ?q = "srtt sk div int_u32 (rtt0 P)" let ?r3 = "max ?q 8"
  have q: "unat ?q = unat (srtt sk) div nat (sint (rtt0 P))" by (simp only: unat_div ur)
  have "unat ?q < 248" unfolding q using assms(2) sr(2)
    by (simp add: hybla_srtt_limit_def less_mult_imp_div_less)
  then have r3: "unat ?r3 = max (unat ?q) 8" "8 \<le> unat ?r3" "unat ?r3 \<le> 247"
    by (auto simp: max_def word_le_nat_alt)
  have "unat ?r3 * unat ?r3 \<le> 247 * 247" using r3(3) by (intro mult_le_mono)
  then have "unat (?r3 * ?r3) = unat ?r3 * unat ?r3" by (intro unat_mult_small) linarith
  with \<open>unat ?r3 * unat ?r3 \<le> 247 * 247\<close> have r7: "unat (push_bit 1 (?r3 * ?r3)) = 2 * (unat ?r3)\<^sup>2"
    using unat_push_u32 [of "?r3 * ?r3" 1] by (simp add: power2_eq_square)
  have rr: "unat (drop_bit 3 ?r3) = unat ?r3 div 8" unfolding unat_shift by simp
  define r where "r = ?r3"
  define h where "h = drop_bit 3 ?r3"
  define r7 where "r7 = push_bit 1 (?r3 * ?r3)"
  define r2 where "r2 = drop_bit 7 (push_bit 1 (?r3 * ?r3))"
  note f = r3 [folded r_def] r7 [folded r7_def r_def] rr [folded h_def r_def]
  let ?ca = "(icsk_ca_priv sk)\<lparr>rho_3ls := r, rho := h, rho2_7ls := r7, rho2 := r2\<rparr>"
  have e: "hybla_recalc_param P sk = Some (upd_ca (\<lambda>_. ?ca) sk)"
    unfolding hybla_recalc_param_def m cdiv_def Let_def r_def h_def r7_def r2_def
    using nz by (simp only: if_False bind.bind_lunit upd_ca_def)
  have "unat (snd_cwnd_cents (icsk_ca_priv sk)) < 128 \<longrightarrow> hybla_ok ?ca"
    using f(2-) by (simp add: hybla_ok_def)
  then show ?thesis using e f(1) q by (intro exI [of _ "upd_ca (\<lambda>_. ?ca) sk"]) simp
qed

section \<open>One acknowledgment\<close>

lemma hybla_fraction_bounds: "128 \<le> unat (hybla_fraction odds)" "unat (hybla_fraction odds) \<le> 234"
proof -
  have "list_all (\<lambda>v. 128 \<le> unat v \<and> unat v \<le> 234) hybla_fractions" by (simp add: hybla_fractions_def)
  then show "128 \<le> unat (hybla_fraction odds)" "unat (hybla_fraction odds) \<le> 234"
    by (simp_all add: hybla_fraction_def list_all_length)
qed

lemma one_shl_val: "unat n < 31 \<Longrightarrow> \<exists>p. one_shl n = Some p \<and> unat p = 2 ^ unat n"
proof -
  assume n: "unat n < 31"
  then have p: "(2 :: nat) ^ unat n \<le> 2 ^ 30" by (intro power_increasing) simp_all
  then have "unat (push_bit (unat n) (1 :: cint)) = 2 ^ unat n"
    using unat_push_small [of 1 "unat n"] by simp
  then have "unat (int_u32 (push_bit (unat n) 1)) = 2 ^ unat n" using p by (simp add: int_u32_unat)
  moreover have "n < 32" using n by (simp add: word_less_nat_alt)
  ultimately show ?thesis by (simp add: one_shl_def require_def)
qed

text \<open>The increment of one acknowledgment, in 128ths of a segment.\<close>

definition hybla_incr :: "hybla \<Rightarrow> u32 \<Rightarrow> bool \<Rightarrow> nat" where
  "hybla_incr ca cwnd slow =
     (if slow then 2 ^ unat (rho ca) * unat (hybla_fraction (rho_3ls ca - push_bit 3 (rho ca))) - 128
      else unat (rho2_7ls ca) div unat cwnd)"

lemma hybla_slow_increment:
  assumes "hybla_ok ca"
  shows "\<exists>p. one_shl (rho ca) = Some p
    \<and> unat (p * hybla_fraction (rho_3ls ca - push_bit 3 (rho ca)) - 128) = hybla_incr ca cwnd True"
    and "hybla_incr ca cwnd True \<le> 2 ^ 30 * 234"
proof -
  let ?f = "hybla_fraction (rho_3ls ca - push_bit 3 (rho ca))"
  have "unat (rho_3ls ca) \<le> 247" "unat (rho ca) = unat (rho_3ls ca) div 8"
    using assms by (simp_all add: hybla_ok_def)
  then have r: "unat (rho ca) \<le> 30" by linarith
  have "unat (rho ca) < 31" using r by simp
  from one_shl_val [OF this] obtain p where p: "one_shl (rho ca) = Some p" "unat p = 2 ^ unat (rho ca)" by blast
  have p30: "(2 :: nat) ^ unat (rho ca) \<le> 2 ^ 30" using r by (intro power_increasing) simp_all
  have ub: "unat p * unat ?f \<le> 2 ^ 30 * 234"
    unfolding p(2) by (rule mult_le_mono [OF p30 hybla_fraction_bounds(2)])
  have "(2 :: nat) ^ 30 * 234 < 18446744073709551616" by simp
  with ub have "unat p * unat ?f < 18446744073709551616" by linarith
  from unat_mult_small [OF this] have m: "unat (p * ?f) = 2 ^ unat (rho ca) * unat ?f" unfolding p(2) .
  have "1 * 128 \<le> 2 ^ unat (rho ca) * unat ?f"
    by (rule mult_le_mono [OF _ hybla_fraction_bounds(1)]) simp
  then have "(128 :: u32) \<le> p * ?f" unfolding word_le_nat_alt m by simp
  from unat_sub_le [OF this] m show "\<exists>p. one_shl (rho ca) = Some p
    \<and> unat (p * ?f - 128) = hybla_incr ca cwnd True"
    using p(1) by (simp add: hybla_incr_def)
  show "hybla_incr ca cwnd True \<le> 2 ^ 30 * 234"
    using ub unfolding p(2) hybla_incr_def by (simp only: if_True)
qed

lemma hybla_incr_le:
  assumes "hybla_ok ca"
  shows "hybla_incr ca cwnd slow \<le> 251255586816"
proof (cases slow)
  case True
  then show ?thesis using hybla_slow_increment(2) [OF assms, of cwnd] by simp
next
  case False
  have "unat (rho_3ls ca) \<le> 247" using assms by (simp add: hybla_ok_def)
  then have "unat (rho_3ls ca) * unat (rho_3ls ca) \<le> 247 * 247" by (intro mult_le_mono)
  moreover have "unat (rho2_7ls ca) = 2 * (unat (rho_3ls ca) * unat (rho_3ls ca))"
    using assms by (simp add: hybla_ok_def power2_eq_square)
  moreover have "hybla_incr ca cwnd slow \<le> unat (rho2_7ls ca)"
    using False by (simp add: hybla_incr_def)
  ultimately show ?thesis by linarith
qed

lemma fixed_point_sum:
  fixes w c i :: nat
  shows "128 * (w + i div 128 + (c + i mod 128) div 128) + (c + i mod 128) mod 128 = 128 * w + c + i"
proof -
  let ?s = "c + i mod 128"
  have "128 * (w + i div 128 + ?s div 128) + ?s mod 128 = 128 * w + 128 * (i div 128) + (128 * (?s div 128) + ?s mod 128)"
    by (simp only: distrib_left add.assoc)
  also have "\<dots> = 128 * w + 128 * (i div 128) + ?s" unfolding mult_div_mod_eq ..
  also have "\<dots> = 128 * w + c + (128 * (i div 128) + i mod 128)" by (simp only: ac_simps)
  also have "\<dots> = 128 * w + c + i" unfolding mult_div_mod_eq ..
  finally show ?thesis .
qed

text \<open>
  The fixed-point account of one acknowledgment: before the final clamps, the window and its cents
  grow by exactly the increment.
\<close>

lemma hybla_cong_avoid_exact:
  assumes "hybla_ok (icsk_ca_priv tp)" and "minrtt (icsk_ca_priv tp) \<le> srtt tp"
    and "snd_cwnd tp \<le> in_flight" and "hybla_en (icsk_ca_priv tp) \<noteq> 0"
    and "snd_cwnd tp \<noteq> 0" and "unat (snd_cwnd tp) < win_limit"
  defines "slow \<equiv> snd_cwnd tp < snd_ssthresh tp"
  shows "\<exists>w c n. 128 * unat w + unat c = 128 * unat (snd_cwnd tp) + unat (snd_cwnd_cents (icsk_ca_priv tp))
      + hybla_incr (icsk_ca_priv tp) (snd_cwnd tp) slow
    \<and> unat c < 128
    \<and> hybla_cong_avoid P k tp ack rtt in_flight flag =
        Some (upd_ca (\<lambda>ca. ca\<lparr>snd_cwnd_cents := c\<rparr>) (tp\<lparr>snd_cwnd_cnt := n, snd_cwnd :=
          min (if slow then min w (snd_ssthresh tp) else w) (u16_u32 (snd_cwnd_clamp tp))\<rparr>))"
proof -
  let ?ca = "icsk_ca_priv tp"
  let ?r = "if slow then one_shl (rho ?ca) \<bind> (\<lambda>p.
      Some (p * hybla_fraction (rho_3ls ?ca - push_bit 3 (rho ?ca)) - 128, tp))
    else cdiv (rho2_7ls ?ca) (snd_cwnd tp) \<bind> (\<lambda>i. Some (i, if i < 128
      then tp\<lparr>snd_cwnd_cnt := snd_cwnd_cnt tp + 1\<rparr> else tp))"
  have "\<exists>i n. ?r = Some (i, tp\<lparr>snd_cwnd_cnt := n\<rparr>) \<and> unat i = hybla_incr ?ca (snd_cwnd tp) slow"
  proof (cases slow)
    case True
    obtain p where p: "one_shl (rho ?ca) = Some p"
      "unat (p * hybla_fraction (rho_3ls ?ca - push_bit 3 (rho ?ca)) - 128) = hybla_incr ?ca (snd_cwnd tp) True"
      using hybla_slow_increment(1) [OF assms(1), of "snd_cwnd tp"] by blast
    have e1: "?r = Some (p * hybla_fraction (rho_3ls ?ca - push_bit 3 (rho ?ca)) - 128,
        tp\<lparr>snd_cwnd_cnt := snd_cwnd_cnt tp\<rparr>)" using p(1) True by simp
    have e2: "unat (p * hybla_fraction (rho_3ls ?ca - push_bit 3 (rho ?ca)) - 128)
        = hybla_incr ?ca (snd_cwnd tp) slow" using p(2) True by (simp only:)
    show ?thesis by (intro exI conjI) (rule e1, rule e2)
  next
    case False
    have e1: "?r = Some (rho2_7ls ?ca div snd_cwnd tp, tp\<lparr>snd_cwnd_cnt :=
        (if rho2_7ls ?ca div snd_cwnd tp < 128 then snd_cwnd_cnt tp + 1 else snd_cwnd_cnt tp)\<rparr>)"
      using False assms(5) by (simp add: cdiv_def)
    have e2: "unat (rho2_7ls ?ca div snd_cwnd tp) = hybla_incr ?ca (snd_cwnd tp) slow"
      using False by (simp add: hybla_incr_def unat_div)
    show ?thesis by (intro exI conjI) (rule e1, rule e2)
  qed
  then obtain i n where r: "?r = Some (i, tp\<lparr>snd_cwnd_cnt := n\<rparr>)"
    and i: "unat i = hybla_incr ?ca (snd_cwnd tp) slow" by blast
  have ib: "unat i \<le> 251255586816" unfolding i by (rule hybla_incr_le [OF assms(1)])
  have c0: "unat (snd_cwnd_cents ?ca) < 128" using assms(1) by (simp add: hybla_ok_def)
  have odd: "unat (i mod 128) = unat i mod 128" by (simp add: unat_mod)
  have hi: "unat (drop_bit 7 i) = unat i div 128" unfolding unat_shift by simp
  have cb: "unat (snd_cwnd tp) < 2147483648" using assms(6) by (simp add: win_limit_def)
  have c: "unat (snd_cwnd_cents ?ca + i mod 128) = unat (snd_cwnd_cents ?ca) + unat i mod 128"
    using c0 odd mod_less_divisor [of 128 "unat i"] by (subst unat_add_small) linarith+
  have w: "unat (snd_cwnd tp + drop_bit 7 i) = unat (snd_cwnd tp) + unat i div 128"
    using cb ib hi by (subst unat_add_small) linarith+
  have "unat (snd_cwnd tp + drop_bit 7 i) + unat (snd_cwnd_cents ?ca + i mod 128) div 128 < 18446744073709551616"
    unfolding w c using cb ib c0 mod_less_divisor [of 128 "unat i"] by linarith
  from hybla_carry_exact [OF this] obtain w' c' n' where
    car: "hybla_carry (snd_cwnd tp + drop_bit 7 i) (snd_cwnd_cents ?ca + i mod 128) n = (w', c', n')"
    and w': "unat w' = unat (snd_cwnd tp) + unat i div 128 + (unat (snd_cwnd_cents ?ca) + unat i mod 128) div 128"
    and c': "unat c' = (unat (snd_cwnd_cents ?ca) + unat i mod 128) mod 128"
    unfolding w c by blast
  have sum: "128 * unat w' + unat c' = 128 * unat (snd_cwnd tp) + unat (snd_cwnd_cents ?ca) + unat i"
    unfolding w' c' by (rule fixed_point_sum)
  have rho: "rho ?ca \<noteq> 0" using assms(1) by (auto simp: hybla_ok_def)
  have nlt: "\<not> srtt tp < minrtt ?ca" using assms(2) by simp
  have "hybla_cong_avoid P k tp ack rtt in_flight flag =
        Some (upd_ca (\<lambda>ca. ca\<lparr>snd_cwnd_cents := c'\<rparr>) (tp\<lparr>snd_cwnd_cnt := n', snd_cwnd :=
          min (if slow then min w' (snd_ssthresh tp) else w') (u16_u32 (snd_cwnd_clamp tp))\<rparr>))"
    using assms(3,4) nlt rho r car
    by (simp add: hybla_cong_avoid_def tcp_is_cwnd_limited_def slow_def upd_ca_def Let_def)
  moreover have "unat c' < 128" unfolding c' by simp
  ultimately show ?thesis using sum unfolding i by blast
qed

section \<open>The contract\<close>

lemma hybla_min_bounds:
  assumes "sock_ok L tp" and "1 \<le> unat w"
  shows "1 \<le> unat (min (if b then min w (snd_ssthresh tp) else w) (u16_u32 (snd_cwnd_clamp tp)))"
    and "unat (min (if b then min w (snd_ssthresh tp) else w) (u16_u32 (snd_cwnd_clamp tp))) < L"
  using assms(2) sock_okD(9,10,11) [OF assms(1)] by (auto simp: min_def word_le_nat_alt)

lemma hybla_cong_avoid_keeps:
  assumes "hybla_vars_ok P" and "sock_ok win_limit tp" and "hybla_ok (icsk_ca_priv tp)"
    and "path_ok (hybla_srtt_limit P) k tp"
  shows "keeps win_limit hybla_ok tp (hybla_cong_avoid P k tp ack rtt in_flight flag)"
proof -
  have main: "keeps win_limit hybla_ok tp (hybla_cong_avoid P k tp ack rtt in_flight flag)"
    if ok: "sock_ok win_limit tp" "hybla_ok (icsk_ca_priv tp)" and le: "minrtt (icsk_ca_priv tp) \<le> srtt tp" for tp
  proof (cases "snd_cwnd tp \<le> in_flight \<and> hybla_en (icsk_ca_priv tp) \<noteq> 0")
    case True
    let ?b = "snd_cwnd tp < snd_ssthresh tp"
    obtain w c n where sum: "128 * unat w + unat c = 128 * unat (snd_cwnd tp)
        + unat (snd_cwnd_cents (icsk_ca_priv tp)) + hybla_incr (icsk_ca_priv tp) (snd_cwnd tp) ?b"
      and c: "unat c < 128"
      and r: "hybla_cong_avoid P k tp ack rtt in_flight flag =
        Some (upd_ca (\<lambda>ca. ca\<lparr>snd_cwnd_cents := c\<rparr>) (tp\<lparr>snd_cwnd_cnt := n, snd_cwnd :=
          min (if ?b then min w (snd_ssthresh tp) else w) (u16_u32 (snd_cwnd_clamp tp))\<rparr>))"
      using hybla_cong_avoid_exact [OF ok(2) le _ _ sock_okD(1) [OF ok(1)] sock_okD(4) [OF ok(1)],
          of in_flight P k ack rtt flag] True by blast
    have "1 \<le> unat w" using sum c sock_okD(5) [OF ok(1)] by linarith
    note b = hybla_min_bounds [OF ok(1) this, of ?b]
    have "sock_ok win_limit (tp\<lparr>snd_cwnd_cnt := n, snd_cwnd :=
          min (if ?b then min w (snd_ssthresh tp) else w) (u16_u32 (snd_cwnd_clamp tp))\<rparr>)"
      using ok(1) b by (intro sock_ok_set_cwnd) simp_all
    moreover have "hybla_ok ((icsk_ca_priv tp)\<lparr>snd_cwnd_cents := c\<rparr>)" using ok(2) c by (simp add: hybla_ok_def)
    ultimately show ?thesis unfolding r by simp
  next
    case False
    moreover have "rho (icsk_ca_priv tp) \<noteq> 0" using ok(2) by (auto simp: hybla_ok_def)
    ultimately show ?thesis using ok le
      by (auto simp: hybla_cong_avoid_def tcp_is_cwnd_limited_def tcp_reno_cong_avoid_keeps not_less [symmetric])
  qed
  show ?thesis
  proof (cases "srtt tp < minrtt (icsk_ca_priv tp)")
    case False
    then show ?thesis using main [OF assms(2,3)] by simp
  next
    case True
    have "unat (srtt tp) < hybla_srtt_limit P" using assms(4) by (simp add: path_ok_def)
    then obtain tp1 where r: "hybla_recalc_param P tp = Some tp1"
      "tp1 = upd_ca (\<lambda>_. icsk_ca_priv tp1) tp" "hybla_ok (icsk_ca_priv tp1)"
      using hybla_recalc_ok [OF assms(1)] assms(3) by (auto simp: hybla_ok_def)
    let ?tp = "upd_ca (\<lambda>ca. ca\<lparr>minrtt := srtt tp1\<rparr>) tp1"
    have s1: "srtt tp1 = srtt tp" "same_path tp tp1" "sock_ok win_limit tp1"
      by (subst r(2), use assms(2) in simp)+
    have "hybla_ok (icsk_ca_priv ?tp)" using r(3) by (simp add: hybla_ok_def)
    moreover have "hybla_cong_avoid P k tp ack rtt in_flight flag
        = hybla_cong_avoid P k ?tp ack rtt in_flight flag"
      using True r(1) by (simp add: hybla_cong_avoid_def)
    moreover have "same_path tp ?tp" using s1 by simp
    ultimately show ?thesis using main [of ?tp] s1 same_path_trans [of tp ?tp]
      by (auto simp: keeps_def)
  qed
qed

lemma hybla_init_keeps:
  assumes "hybla_vars_ok P" and "sock_ok win_limit tp" and "path_ok (hybla_srtt_limit P) k tp"
  shows "keeps win_limit hybla_ok tp (hybla_init P k tp)"
proof -
  let ?tp0 = "(upd_ca (\<lambda>ca. ca\<lparr>rho := 0, rho2 := 0, rho_3ls := 0, rho2_7ls := 0,
                           snd_cwnd_cents := 0, hybla_en := 1\<rparr>) tp)\<lparr>snd_cwnd := 2, snd_cwnd_clamp := 65535\<rparr>"
  have "unat (srtt ?tp0) < hybla_srtt_limit P" using assms(3) by (simp add: path_ok_def)
  from hybla_recalc_ok [OF assms(1) this] obtain tp1 where r: "hybla_recalc_param P ?tp0 = Some tp1"
    "tp1 = upd_ca (\<lambda>_. icsk_ca_priv tp1) ?tp0" "hybla_ok (icsk_ca_priv tp1)" by auto
  have s1: "srtt tp1 = srtt tp" "same_path tp tp1" by (subst r(2), simp)+
  have "sock_ok win_limit ?tp0" using assms(2) by (simp add: sock_ok_def win_limit_def)
  then have s2: "sock_ok win_limit tp1" by (subst r(2)) simp
  have rb: "1 \<le> unat (rho (icsk_ca_priv tp1))" "unat (rho (icsk_ca_priv tp1)) < win_limit"
  proof -
    have "8 \<le> unat (rho_3ls (icsk_ca_priv tp1))" "unat (rho_3ls (icsk_ca_priv tp1)) \<le> 247"
      "unat (rho (icsk_ca_priv tp1)) = unat (rho_3ls (icsk_ca_priv tp1)) div 8"
      using r(3) by (simp_all add: hybla_ok_def)
    then show "1 \<le> unat (rho (icsk_ca_priv tp1))" "unat (rho (icsk_ca_priv tp1)) < win_limit"
      unfolding win_limit_def by linarith+
  qed
  have e: "hybla_init P k tp = Some ((upd_ca (\<lambda>ca. ca\<lparr>minrtt := srtt tp1\<rparr>) tp1)\<lparr>snd_cwnd := rho (icsk_ca_priv tp1)\<rparr>)"
    using r(1) by (simp add: hybla_init_def)
  have "hybla_ok ((icsk_ca_priv tp1)\<lparr>minrtt := srtt tp1\<rparr>)" using r(3) by (simp add: hybla_ok_def)
  then show ?thesis unfolding e using s1 s2 rb by (simp add: sock_ok_set_cwnd)
qed

lemma hybla_state_keeps:
  "sock_ok L sk \<Longrightarrow> hybla_ok (icsk_ca_priv sk) \<Longrightarrow> keeps L hybla_ok sk (hybla_state k sk st)"
  by (simp add: hybla_state_def hybla_ok_def)

lemma hybla_contract:
  "hybla_vars_ok P \<Longrightarrow> cong_control win_limit (hybla_srtt_limit P) (tcp_hybla P) hybla_ok"
  by unfold_locales
    (auto simp: cc_init_def cc_ssthresh_def cc_min_cwnd_def cc_cong_avoid_def cc_cwnd_event_def
      cc_pkts_acked_def null_ops_def tcp_hybla_def tcp_reno_ssthresh_yields hybla_cong_avoid_keeps
      hybla_init_keeps hybla_state_keeps min_cwnd_reno_ok intro!: set_ca_state_keeps)

interpretation hybla: cong_control win_limit "hybla_srtt_limit hybla_default" "tcp_hybla hybla_default" hybla_ok
  by (rule hybla_contract [OF hybla_default_ok])

text \<open>A round trip of 800 ms or more makes the shift undefined in slow start.\<close>

lemma hybla_long_path_traps:
  assumes "32 \<le> unat (rho (icsk_ca_priv tp))" and "minrtt (icsk_ca_priv tp) \<le> srtt tp"
    and "snd_cwnd tp \<le> in_flight" and "hybla_en (icsk_ca_priv tp) \<noteq> 0" and "snd_cwnd tp < snd_ssthresh tp"
  shows "hybla_cong_avoid P k tp ack rtt in_flight flag = None"
proof -
  have "one_shl (rho (icsk_ca_priv tp)) = None"
    using assms(1) by (simp add: one_shl_def require_def word_less_nat_alt)
  moreover have "rho (icsk_ca_priv tp) \<noteq> 0" using assms(1) by auto
  ultimately show ?thesis using assms(2-5)
    by (simp add: hybla_cong_avoid_def tcp_is_cwnd_limited_def Let_def not_less [symmetric])
qed

end
