(* ===== verification/Tcp_Veno.thy ===== *)
theory Tcp_Veno
  imports Cong_Contract Cong_List
begin

text \<open>
  \<open>tcp/linux/src/tcp_veno.c\<close>: TCP Veno. It estimates the backlog \<open>diff\<close> (twice the number of
  segments queued) from the smallest round-trip times and grows the window every second round
  trip only when the backlog is above \<open>beta\<close>. The lemmas show that the division by the round-trip
  time is defined after \<open>init\<close>, and give the reaction to a loss and the growth in both states.
\<close>

definition V_PARAM_SHIFT :: nat where "V_PARAM_SHIFT = 1"
definition veno_beta :: u32 where "veno_beta = push_bit V_PARAM_SHIFT 3"

record veno =
  doing_veno_now :: u8
  vn_cntrtt :: u16
  vn_minrtt :: u32
  vn_basertt :: u32
  vn_inc :: u32
  vn_diff :: u32

definition veno_enable :: "veno tcp_sock \<Rightarrow> veno tcp_sock" where
  "veno_enable sk = upd_ca (\<lambda>v. v\<lparr>doing_veno_now := 1, vn_minrtt := 0x7fffffff\<rparr>) sk"

definition veno_disable :: "veno tcp_sock \<Rightarrow> veno tcp_sock" where
  "veno_disable sk = upd_ca (\<lambda>v. v\<lparr>doing_veno_now := 0\<rparr>) sk"

definition tcp_veno_init :: "kernel \<Rightarrow> veno tcp_sock \<Rightarrow> veno tcp_sock option" where
  "tcp_veno_init k sk = Some (veno_enable (upd_ca (\<lambda>v. v\<lparr>vn_basertt := 0x7fffffff, vn_inc := 1\<rparr>) sk))"

definition tcp_veno_pkts_acked :: "kernel \<Rightarrow> veno tcp_sock \<Rightarrow> u32 \<Rightarrow> s64 \<Rightarrow> veno tcp_sock option" where
  "tcp_veno_pkts_acked k sk cnt ts =
     (if ktime_equal ts net_invalid_timestamp then Some sk
      else
        let vrtt = ktime_to_us (net_timedelta k ts) + 1
        in Some (upd_ca (\<lambda>v.
             let v = (if vrtt < vn_basertt v then v\<lparr>vn_basertt := vrtt\<rparr> else v)
             in v\<lparr>vn_minrtt := min (vn_minrtt v) vrtt, vn_cntrtt := vn_cntrtt v + 1\<rparr>) sk))"

definition tcp_veno_state :: "kernel \<Rightarrow> veno tcp_sock \<Rightarrow> tcp_ca_state \<Rightarrow> veno tcp_sock option" where
  "tcp_veno_state k sk ca_state =
     Some (if ca_state = TCP_CA_Open then veno_enable sk else veno_disable sk)"

definition tcp_veno_cwnd_event :: "kernel \<Rightarrow> veno tcp_sock \<Rightarrow> tcp_ca_event \<Rightarrow> veno tcp_sock option" where
  "tcp_veno_cwnd_event k sk event =
     (if event = CA_EVENT_CWND_RESTART \<or> event = CA_EVENT_TX_START then tcp_veno_init k sk else Some sk)"

text \<open>The congestion avoidance branch.\<close>

definition veno_increase :: "veno tcp_sock \<Rightarrow> veno tcp_sock" where
  "veno_increase tp =
     (if vn_diff (icsk_ca_priv tp) < veno_beta then
        if snd_cwnd tp \<le> u16_u32 (snd_cwnd_cnt tp)
        then (inc_cwnd_clamped tp)\<lparr>snd_cwnd_cnt := 0\<rparr>
        else tp\<lparr>snd_cwnd_cnt := snd_cwnd_cnt tp + 1\<rparr>
      else
        if snd_cwnd tp \<le> u16_u32 (snd_cwnd_cnt tp) then
          let tp = (if vn_inc (icsk_ca_priv tp) \<noteq> 0 \<and> snd_cwnd tp < u16_u32 (snd_cwnd_clamp tp)
                    then upd_ca (\<lambda>v. v\<lparr>vn_inc := 0\<rparr>) (tp\<lparr>snd_cwnd := snd_cwnd tp + 1\<rparr>)
                    else upd_ca (\<lambda>v. v\<lparr>vn_inc := 1\<rparr>) tp)
          in tp\<lparr>snd_cwnd_cnt := 0\<rparr>
        else tp\<lparr>snd_cwnd_cnt := snd_cwnd_cnt tp + 1\<rparr>)"

definition veno_adjust :: "kernel \<Rightarrow> veno tcp_sock \<Rightarrow> veno tcp_sock option" where
  "veno_adjust k tp = do {
     let v = icsk_ca_priv tp;
     target_cwnd \<leftarrow> cdiv (push_bit V_PARAM_SHIFT (snd_cwnd tp * vn_basertt v)) (vn_minrtt v);
     let tp = upd_ca (\<lambda>v. v\<lparr>vn_diff := push_bit V_PARAM_SHIFT (snd_cwnd tp) - target_cwnd\<rparr>) tp;
     tp \<leftarrow> (if snd_cwnd tp \<le> snd_ssthresh tp then tcp_slow_start k tp else Some (veno_increase tp));
     Some (if snd_cwnd tp < 2 then tp\<lparr>snd_cwnd := 2\<rparr>
           else if u16_u32 (snd_cwnd_clamp tp) < snd_cwnd tp
           then tp\<lparr>snd_cwnd := u16_u32 (snd_cwnd_clamp tp)\<rparr> else tp)
   }"

definition tcp_veno_cong_avoid ::
    "kernel \<Rightarrow> veno tcp_sock \<Rightarrow> u32 \<Rightarrow> u32 \<Rightarrow> u32 \<Rightarrow> cint \<Rightarrow> veno tcp_sock option" where
  "tcp_veno_cong_avoid k tp ack seq_rtt in_flight flag =
     (if doing_veno_now (icsk_ca_priv tp) = 0 then tcp_reno_cong_avoid k tp ack seq_rtt in_flight flag
      else if \<not> tcp_is_cwnd_limited tp in_flight then Some tp
      else do {
        tp \<leftarrow> (if vn_cntrtt (icsk_ca_priv tp) \<le> 2
               then tcp_reno_cong_avoid k tp ack seq_rtt in_flight flag
               else veno_adjust k tp);
        Some (upd_ca (\<lambda>v. v\<lparr>vn_minrtt := 0x7fffffff\<rparr>) tp)
      })"

definition tcp_veno_ssthresh :: "kernel \<Rightarrow> veno tcp_sock \<Rightarrow> (u32 \<times> veno tcp_sock) option" where
  "tcp_veno_ssthresh k tp =
     Some (if vn_diff (icsk_ca_priv tp) < veno_beta then max (snd_cwnd tp * 4 div 5) 2
           else max (drop_bit 1 (snd_cwnd tp)) 2, tp)"

definition tcp_veno :: "veno tcp_congestion_ops" where
  "tcp_veno = null_ops\<lparr>op_flags := TCP_CONG_RTT_STAMP, op_init := Some tcp_veno_init,
     op_ssthresh := Some tcp_veno_ssthresh, op_cong_avoid := Some tcp_veno_cong_avoid,
     op_pkts_acked := Some tcp_veno_pkts_acked, op_set_state := Some tcp_veno_state,
     op_cwnd_event := Some tcp_veno_cwnd_event, op_name := ''veno''\<rparr>"

definition tcp_veno_register :: "addr \<Rightarrow> 'p cong_reg \<Rightarrow> (int \<times> 'p cong_reg) option" where
  "tcp_veno_register tbl s = do {
     (ret, s) \<leftarrow> tcp_register_congestion_control tbl s;
     Some (0, s)
   }"

definition tcp_veno_unregister :: "addr \<Rightarrow> 'p cong_reg \<Rightarrow> 'p cong_reg" where
  "tcp_veno_unregister tbl s = tcp_unregister_congestion_control tbl s"

section \<open>Correctness\<close>

text \<open>After \<open>init\<close> the smallest round-trip time of the window is positive.\<close>

definition veno_ok :: "veno \<Rightarrow> bool" where
  "veno_ok v \<longleftrightarrow> vn_minrtt v \<noteq> 0"

lemma veno_init_keeps: "sock_ok L sk \<Longrightarrow> keeps L veno_ok sk (tcp_veno_init k sk)"
  by (simp add: tcp_veno_init_def veno_enable_def veno_ok_def)

lemma veno_state_keeps:
  "sock_ok L sk \<Longrightarrow> veno_ok (icsk_ca_priv sk) \<Longrightarrow> keeps L veno_ok sk (tcp_veno_state k sk st)"
  by (simp add: tcp_veno_state_def veno_enable_def veno_disable_def veno_ok_def)

lemma veno_event_keeps:
  "sock_ok L sk \<Longrightarrow> veno_ok (icsk_ca_priv sk) \<Longrightarrow> keeps L veno_ok sk (tcp_veno_cwnd_event k sk ev)"
  by (simp add: tcp_veno_cwnd_event_def veno_init_keeps)

lemma veno_acked_keeps:
  assumes "sock_ok L sk" and "veno_ok (icsk_ca_priv sk)" and "sample_ok k ts"
  shows "keeps L veno_ok sk (tcp_veno_pkts_acked k sk cnt ts)"
  using assms rtt_sample_nonzero [OF assms(3)]
  by (auto simp: tcp_veno_pkts_acked_def Let_def ktime_equal_def net_invalid_timestamp_def veno_ok_def min_def)

lemma veno_increase_keeps:
  assumes "sock_ok L tp" and "veno_ok (icsk_ca_priv tp)"
  shows "keeps L veno_ok tp (Some (veno_increase tp))"
proof -
  have "sock_ok L (tp\<lparr>snd_cwnd := snd_cwnd tp + 1\<rparr>)" if "snd_cwnd tp < u16_u32 (snd_cwnd_clamp tp)"
    using inc_cwnd_clamped_ok [OF assms(1)] that by (simp add: inc_cwnd_clamped_def)
  then show ?thesis using assms by (auto simp: veno_increase_def Let_def inc_cwnd_clamped_ok veno_ok_def)
qed

lemma veno_clamp_keeps:
  assumes "sock_ok L tp" and "veno_ok (icsk_ca_priv tp)"
  shows "keeps L veno_ok tp (Some (if snd_cwnd tp < 2 then tp\<lparr>snd_cwnd := 2\<rparr>
           else if u16_u32 (snd_cwnd_clamp tp) < snd_cwnd tp
           then tp\<lparr>snd_cwnd := u16_u32 (snd_cwnd_clamp tp)\<rparr> else tp))"
  using assms sock_okD(8,9,10) [OF assms(1)] by (auto intro!: sock_ok_set_cwnd)

lemma veno_adjust_keeps:
  assumes "sock_ok L tp" and "veno_ok (icsk_ca_priv tp)"
  shows "keeps L veno_ok tp (veno_adjust k tp)"
proof -
  have nz: "vn_minrtt (icsk_ca_priv tp) \<noteq> 0" using assms(2) by (simp add: veno_ok_def)
  let ?t = "push_bit V_PARAM_SHIFT (snd_cwnd tp * vn_basertt (icsk_ca_priv tp)) div vn_minrtt (icsk_ca_priv tp)"
  let ?tp = "upd_ca (\<lambda>v. v\<lparr>vn_diff := push_bit V_PARAM_SHIFT (snd_cwnd tp) - ?t\<rparr>) tp"
  have ok: "sock_ok L ?tp" "veno_ok (icsk_ca_priv ?tp)" using assms by (simp_all add: veno_ok_def)
  have s: "keeps L veno_ok ?tp (if snd_cwnd ?tp \<le> snd_ssthresh ?tp then tcp_slow_start k ?tp
      else Some (veno_increase ?tp))"
    using tcp_slow_start_keeps [of L ?tp veno_ok k] veno_increase_keeps [of L ?tp] ok
    by (simp split: if_split)
  have "keeps L veno_ok ?tp (veno_adjust k tp)"
    unfolding veno_adjust_def Let_def cdiv_def using nz
    by (simp only: if_False bind.bind_lunit) (rule keeps_bind [OF s veno_clamp_keeps])
  then show ?thesis by (auto simp: keeps_def same_path_def)
qed

lemma veno_cong_avoid_keeps:
  assumes "sock_ok L tp" and "veno_ok (icsk_ca_priv tp)"
  shows "keeps L veno_ok tp (tcp_veno_cong_avoid k tp ack rtt in_flight flag)"
proof -
  have w: "keeps L veno_ok sk' (Some (upd_ca (\<lambda>v. v\<lparr>vn_minrtt := 0x7fffffff\<rparr>) sk'))" if "sock_ok L sk'" for sk'
    using that by (simp add: veno_ok_def)
  have "keeps L veno_ok tp ((if vn_cntrtt (icsk_ca_priv tp) \<le> 2
               then tcp_reno_cong_avoid k tp ack rtt in_flight flag else veno_adjust k tp)
     \<bind> (\<lambda>tp. Some (upd_ca (\<lambda>v. v\<lparr>vn_minrtt := 0x7fffffff\<rparr>) tp)))"
    using assms w by (intro keeps_bind) (auto simp: tcp_reno_cong_avoid_keeps veno_adjust_keeps)
  then show ?thesis using assms by (auto simp: tcp_veno_cong_avoid_def tcp_reno_cong_avoid_keeps)
qed

text \<open>The window after a loss: four fifths when the backlog is small, half otherwise.\<close>

lemma veno_ssthresh_val:
  assumes "unat (snd_cwnd tp) < win_limit"
  shows "\<exists>w. tcp_veno_ssthresh k tp = Some (max w 2, tp) \<and> unat w \<le> unat (snd_cwnd tp)
    \<and> unat w = (if unat (vn_diff (icsk_ca_priv tp)) < 6 then unat (snd_cwnd tp) * 4 div 5
                else unat (snd_cwnd tp) div 2)"
proof -
  have "unat (snd_cwnd tp) * unat (4 :: u32) < 18446744073709551616" using assms by (simp add: win_limit_def)
  from unat_scale [OF this, of 5] have s: "unat (snd_cwnd tp * 4 div 5) = unat (snd_cwnd tp) * 4 div 5" by simp
  have b: "vn_diff (icsk_ca_priv tp) < veno_beta \<longleftrightarrow> unat (vn_diff (icsk_ca_priv tp)) < 6"
    by (simp add: veno_beta_def V_PARAM_SHIFT_def word_less_nat_alt)
  have le: "unat (snd_cwnd tp) * 4 div 5 \<le> unat (snd_cwnd tp)" by (intro scale_le) simp
  show ?thesis
  proof (cases "unat (vn_diff (icsk_ca_priv tp)) < 6")
    case True
    then show ?thesis using s le b by (intro exI [of _ "snd_cwnd tp * 4 div 5"]) (simp add: tcp_veno_ssthresh_def)
  next
    case False
    have "tcp_veno_ssthresh k tp = Some (max (drop_bit 1 (snd_cwnd tp)) 2, tp)"
      unfolding tcp_veno_ssthresh_def b using False by (simp only: if_False)
    then show ?thesis using False unat_half [of "snd_cwnd tp"] by auto
  qed
qed

lemma veno_ssthresh_yields:
  assumes "sock_ok win_limit tp" and "veno_ok (icsk_ca_priv tp)"
  shows "yields win_limit veno_ok tp (tcp_veno_ssthresh k tp)"
proof -
  note c = sock_okD(4) [OF assms(1)]
  obtain w where w: "tcp_veno_ssthresh k tp = Some (max w 2, tp)" "unat w \<le> unat (snd_cwnd tp)"
    using veno_ssthresh_val [OF c] by blast
  show ?thesis unfolding w(1) using w(2) c assms by (intro yields_max2) simp_all
qed

interpretation veno: cong_control win_limit R tcp_veno veno_ok
  by unfold_locales
    (auto simp: cc_init_def cc_ssthresh_def cc_min_cwnd_def cc_cong_avoid_def cc_cwnd_event_def
      cc_pkts_acked_def null_ops_def tcp_veno_def veno_ssthresh_yields veno_cong_avoid_keeps
      veno_init_keeps veno_state_keeps veno_event_keeps veno_acked_keeps
      intro!: set_ca_state_keeps dest: sock_okD)

text \<open>In the congestive state only every second window of acknowledgments grows the window.\<close>

lemma veno_congestive_alternates:
  assumes "\<not> vn_diff (icsk_ca_priv tp) < veno_beta" and "snd_cwnd tp \<le> u16_u32 (snd_cwnd_cnt tp)"
    and "snd_cwnd tp < u16_u32 (snd_cwnd_clamp tp)"
  shows "veno_increase tp =
     (if vn_inc (icsk_ca_priv tp) \<noteq> 0
      then upd_ca (\<lambda>v. v\<lparr>vn_inc := 0\<rparr>) (tp\<lparr>snd_cwnd := snd_cwnd tp + 1, snd_cwnd_cnt := 0\<rparr>)
      else upd_ca (\<lambda>v. v\<lparr>vn_inc := 1\<rparr>) (tp\<lparr>snd_cwnd_cnt := 0\<rparr>))"
  using assms by (simp add: veno_increase_def upd_ca_def)

end
