(* ===== verification/Tcp_Vegas.thy ===== *)
theory Tcp_Vegas
  imports Cong_Contract Cong_List
begin

text \<open>
  \<open>tcp/linux/src/tcp_vegas.c\<close> and \<open>tcp_vegas.h\<close>: TCP Vegas. Once per round trip it compares
  the window sent with the window that the smallest round-trip time would carry, \<open>diff\<close> in
  half segments, and moves the window by one. The socket operations are polymorphic in the
  record extension, as the source lets a struct that starts with \<open>struct vegas\<close> use them
  (\<open>tcp_yeah.c\<close>). The lemmas show that \<open>diff\<close> measures the backlog, that \<open>baseRTT\<close> never
  exceeds \<open>minRTT\<close>, and that the window moves by at most one segment per round trip.
\<close>

definition V_PARAM_SHIFT_vegas :: nat where "V_PARAM_SHIFT_vegas = 1"

record vegas_vars =
  vg_alpha :: cint
  vg_beta :: cint
  vg_gamma :: cint

definition vegas_default :: vegas_vars where
  "vegas_default = \<lparr>vg_alpha = push_bit V_PARAM_SHIFT_vegas 2, vg_beta = push_bit V_PARAM_SHIFT_vegas 4,
     vg_gamma = push_bit V_PARAM_SHIFT_vegas 1\<rparr>"

definition vegas_params :: "param_decl list" where
  "vegas_params =
     [(''alpha'', ''int'', ''lower bound of packets in network (scale by 2)''),
      (''beta'', ''int'', ''upper bound of packets in network (scale by 2)''),
      (''gamma'', ''int'', ''limit on increase (scale by 2)'')]"

record vegas =
  beg_snd_nxt :: u32
  beg_snd_una :: u32
  beg_snd_cwnd :: u32
  doing_vegas_now :: u8
  cntRTT :: u16
  minRTT :: u32
  baseRTT :: u32

definition vegas_enable :: "'v vegas_scheme tcp_sock \<Rightarrow> 'v vegas_scheme tcp_sock" where
  "vegas_enable sk = upd_ca (\<lambda>v. v\<lparr>doing_vegas_now := 1, beg_snd_nxt := snd_nxt sk,
     cntRTT := 0, minRTT := 0x7fffffff\<rparr>) sk"

definition vegas_disable :: "'v vegas_scheme tcp_sock \<Rightarrow> 'v vegas_scheme tcp_sock" where
  "vegas_disable sk = upd_ca (\<lambda>v. v\<lparr>doing_vegas_now := 0\<rparr>) sk"

definition tcp_vegas_init :: "kernel \<Rightarrow> 'v vegas_scheme tcp_sock \<Rightarrow> 'v vegas_scheme tcp_sock option" where
  "tcp_vegas_init k sk = Some (vegas_enable (upd_ca (\<lambda>v. v\<lparr>baseRTT := 0x7fffffff\<rparr>) sk))"

definition tcp_vegas_pkts_acked ::
    "kernel \<Rightarrow> 'v vegas_scheme tcp_sock \<Rightarrow> u32 \<Rightarrow> s64 \<Rightarrow> 'v vegas_scheme tcp_sock option" where
  "tcp_vegas_pkts_acked k sk cnt ts =
     (if ktime_equal ts net_invalid_timestamp then Some sk
      else
        let vrtt = ktime_to_us (net_timedelta k ts) + 1
        in Some (upd_ca (\<lambda>v.
             let v = (if vrtt < baseRTT v then v\<lparr>baseRTT := vrtt\<rparr> else v)
             in v\<lparr>minRTT := min (minRTT v) vrtt, cntRTT := cntRTT v + 1\<rparr>) sk))"

definition tcp_vegas_state ::
    "kernel \<Rightarrow> 'v vegas_scheme tcp_sock \<Rightarrow> tcp_ca_state \<Rightarrow> 'v vegas_scheme tcp_sock option" where
  "tcp_vegas_state k sk ca_state =
     Some (if ca_state = TCP_CA_Open then vegas_enable sk else vegas_disable sk)"

definition tcp_vegas_cwnd_event ::
    "kernel \<Rightarrow> 'v vegas_scheme tcp_sock \<Rightarrow> tcp_ca_event \<Rightarrow> 'v vegas_scheme tcp_sock option" where
  "tcp_vegas_cwnd_event k sk event =
     (if event = CA_EVENT_CWND_RESTART \<or> event = CA_EVENT_TX_START then tcp_vegas_init k sk else Some sk)"

text \<open>The slow start and the congestion avoidance branch of the adjustment.\<close>

definition vegas_slow_start ::
    "vegas_vars \<Rightarrow> kernel \<Rightarrow> vegas tcp_sock \<Rightarrow> u32 \<Rightarrow> u32 \<Rightarrow> vegas tcp_sock option" where
  "vegas_slow_start P k tp target_cwnd diff =
     tcp_slow_start k
       (if int_u32 (vg_gamma P) < diff
        then tp\<lparr>snd_ssthresh := 2,
               snd_cwnd := min (snd_cwnd tp) (drop_bit V_PARAM_SHIFT_vegas target_cwnd + 1)\<rparr>
        else tp)"

definition vegas_avoid ::
    "vegas_vars \<Rightarrow> vegas tcp_sock \<Rightarrow> u32 \<Rightarrow> u32 \<Rightarrow> vegas tcp_sock" where
  "vegas_avoid P tp old_snd_cwnd diff =
     (let next_snd_cwnd = (if int_u32 (vg_beta P) < diff then old_snd_cwnd - 1
                           else if diff < int_u32 (vg_alpha P) then old_snd_cwnd + 1
                           else old_snd_cwnd)
      in if snd_cwnd tp < next_snd_cwnd then tp\<lparr>snd_cwnd := snd_cwnd tp + 1\<rparr>
         else if next_snd_cwnd < snd_cwnd tp then tp\<lparr>snd_cwnd := snd_cwnd tp - 1\<rparr>
         else tp)"

definition vegas_clamp :: "'p tcp_sock \<Rightarrow> 'p tcp_sock" where
  "vegas_clamp tp =
     (if snd_cwnd tp < 2 then tp\<lparr>snd_cwnd := 2\<rparr>
      else if u16_u32 (snd_cwnd_clamp tp) < snd_cwnd tp
      then tp\<lparr>snd_cwnd := u16_u32 (snd_cwnd_clamp tp)\<rparr> else tp)"

definition vegas_target :: "'v vegas_scheme \<Rightarrow> u32 \<Rightarrow> u32 option" where
  "vegas_target v old_wnd = cdiv (push_bit V_PARAM_SHIFT_vegas (old_wnd * baseRTT v)) (minRTT v)"

definition vegas_adjust ::
    "vegas_vars \<Rightarrow> kernel \<Rightarrow> vegas tcp_sock \<Rightarrow> u32 \<Rightarrow> u32 \<Rightarrow> vegas tcp_sock option" where
  "vegas_adjust P k tp old_wnd old_snd_cwnd = do {
     target_cwnd \<leftarrow> vegas_target (icsk_ca_priv tp) old_wnd;
     let diff = push_bit V_PARAM_SHIFT_vegas old_wnd - target_cwnd;
     tp \<leftarrow> (if snd_cwnd tp \<le> snd_ssthresh tp then vegas_slow_start P k tp target_cwnd diff
            else Some (vegas_avoid P tp old_snd_cwnd diff));
     Some (vegas_clamp tp)
   }"

definition tcp_vegas_cong_avoid :: "vegas_vars \<Rightarrow> kernel \<Rightarrow> vegas tcp_sock \<Rightarrow> u32 \<Rightarrow> u32 \<Rightarrow> u32 \<Rightarrow>
    cint \<Rightarrow> vegas tcp_sock option" where
  "tcp_vegas_cong_avoid P k tp ack seq_rtt in_flight flag =
     (if doing_vegas_now (icsk_ca_priv tp) = 0 then tcp_reno_cong_avoid k tp ack seq_rtt in_flight flag
      else if after ack (beg_snd_nxt (icsk_ca_priv tp)) then do {
        old_wnd \<leftarrow> cdiv (beg_snd_nxt (icsk_ca_priv tp) - beg_snd_una (icsk_ca_priv tp)) (mss_cache tp);
        let old_snd_cwnd = beg_snd_cwnd (icsk_ca_priv tp);
        let tp = upd_ca (\<lambda>v. v\<lparr>beg_snd_una := beg_snd_nxt v, beg_snd_nxt := snd_nxt tp,
                              beg_snd_cwnd := snd_cwnd tp\<rparr>) tp;
        tp \<leftarrow> (if cntRTT (icsk_ca_priv tp) \<le> 2
               then tcp_reno_cong_avoid k tp ack seq_rtt in_flight flag
               else vegas_adjust P k tp old_wnd old_snd_cwnd);
        Some (upd_ca (\<lambda>v. v\<lparr>cntRTT := 0, minRTT := 0x7fffffff\<rparr>) tp)
      }
      else if snd_cwnd tp \<le> snd_ssthresh tp then tcp_slow_start k tp
      else Some tp)"

definition tcp_vegas_get_info :: "'p tcp_sock \<Rightarrow> u32 \<Rightarrow> 'p tcp_sock option" where
  "tcp_vegas_get_info sk ext = Some sk"

definition tcp_vegas :: "vegas_vars \<Rightarrow> vegas tcp_congestion_ops" where
  "tcp_vegas P = null_ops\<lparr>op_flags := TCP_CONG_RTT_STAMP, op_init := Some tcp_vegas_init,
     op_ssthresh := Some tcp_reno_ssthresh, op_cong_avoid := Some (tcp_vegas_cong_avoid P),
     op_min_cwnd := Some tcp_reno_min_cwnd, op_pkts_acked := Some tcp_vegas_pkts_acked,
     op_set_state := Some tcp_vegas_state, op_cwnd_event := Some tcp_vegas_cwnd_event,
     op_get_info := Some tcp_vegas_get_info, op_name := ''vegas''\<rparr>"

definition tcp_vegas_register :: "addr \<Rightarrow> 'p cong_reg \<Rightarrow> (int \<times> 'p cong_reg) option" where
  "tcp_vegas_register tbl s = do {
     (ret, s) \<leftarrow> tcp_register_congestion_control tbl s;
     Some (0, s)
   }"

definition tcp_vegas_unregister :: "addr \<Rightarrow> 'p cong_reg \<Rightarrow> 'p cong_reg" where
  "tcp_vegas_unregister tbl s = tcp_unregister_congestion_control tbl s"

section \<open>Correctness\<close>

text \<open>
  The base round-trip time is a lower bound of the current one, and both are positive.
\<close>

definition vegas_ok :: "'v vegas_scheme \<Rightarrow> bool" where
  "vegas_ok v \<longleftrightarrow> 0 < unat (baseRTT v) \<and> unat (baseRTT v) \<le> unat (minRTT v)
     \<and> unat (minRTT v) \<le> 0x7fffffff"

lemma vegas_okD: "vegas_ok v \<Longrightarrow> minRTT v \<noteq> 0" "vegas_ok v \<Longrightarrow> unat (minRTT v) < 2147483648"
  unfolding word_neq_0_unat by (simp_all add: vegas_ok_def)

lemma vegas_enable_ok [simp]:
  "vegas_ok (icsk_ca_priv sk) \<Longrightarrow> vegas_ok (icsk_ca_priv (vegas_enable sk))"
  by (auto simp: vegas_enable_def vegas_ok_def)

lemma vegas_init_keeps: "sock_ok L sk \<Longrightarrow> keeps L vegas_ok sk (tcp_vegas_init k sk)"
  by (simp add: tcp_vegas_init_def vegas_enable_def vegas_ok_def)

lemma vegas_state_keeps:
  "sock_ok L sk \<Longrightarrow> vegas_ok (icsk_ca_priv sk) \<Longrightarrow> keeps L vegas_ok sk (tcp_vegas_state k sk st)"
  by (auto simp: tcp_vegas_state_def vegas_enable_def vegas_disable_def vegas_ok_def)

lemma vegas_event_keeps:
  "sock_ok L sk \<Longrightarrow> vegas_ok (icsk_ca_priv sk) \<Longrightarrow> keeps L vegas_ok sk (tcp_vegas_cwnd_event k sk ev)"
  by (simp add: tcp_vegas_cwnd_event_def vegas_init_keeps)

lemma vegas_acked_keeps:
  assumes "sock_ok L sk" and "vegas_ok (icsk_ca_priv sk)" and "sample_ok k ts"
  shows "keeps L vegas_ok sk (tcp_vegas_pkts_acked k sk cnt ts)"
  using assms rtt_sample_nonzero [OF assms(3)]
  by (auto simp: tcp_vegas_pkts_acked_def Let_def ktime_equal_def net_invalid_timestamp_def vegas_ok_def
      min_def word_le_nat_alt word_less_nat_alt unat_gt_0)

text \<open>The clamp brings any window into the range of a good socket.\<close>

lemma vegas_clamp_keeps:
  assumes "sock_ok L sk" and "pinv (icsk_ca_priv sk)"
  shows "keeps L pinv sk (Some (vegas_clamp (sk\<lparr>snd_cwnd := w\<rparr>)))"
  using assms sock_okD(8,9,10) [OF assms(1)]
  by (auto simp: vegas_clamp_def sock_ok_def word_less_nat_alt)

lemma vegas_clamp_keeps_self:
  "sock_ok L sk \<Longrightarrow> pinv (icsk_ca_priv sk) \<Longrightarrow> keeps L pinv sk (Some (vegas_clamp sk))"
  using vegas_clamp_keeps [of L sk pinv "snd_cwnd sk"] by simp

lemma vegas_slow_start_keeps:
  assumes "sock_ok L sk" and "vegas_ok (icsk_ca_priv sk)"
  shows "keeps L vegas_ok sk (vegas_slow_start P k sk t d)"
proof -
  let ?w = "min (snd_cwnd sk) (drop_bit V_PARAM_SHIFT_vegas t + 1)"
  have "unat (drop_bit V_PARAM_SHIFT_vegas t) < 18446744073709551615"
    unfolding V_PARAM_SHIFT_vegas_def unat_half using unat_u32_bound [of t] by linarith
  then have "unat (drop_bit V_PARAM_SHIFT_vegas t + 1) = unat (drop_bit V_PARAM_SHIFT_vegas t) + 1"
    by (rule unat_inc_small)
  then have "1 \<le> unat ?w" "unat ?w \<le> unat (snd_cwnd sk)"
    using sock_okD(5) [OF assms(1)] by (auto simp: min_def word_le_nat_alt)
  then have "sock_ok L (sk\<lparr>snd_ssthresh := 2, snd_cwnd := ?w\<rparr>)"
    using assms(1) by (simp add: sock_ok_def)
  then show ?thesis
    using assms tcp_slow_start_keeps [of L sk vegas_ok k]
      tcp_slow_start_keeps [of L "sk\<lparr>snd_ssthresh := 2, snd_cwnd := ?w\<rparr>" vegas_ok k]
    by (auto simp: vegas_slow_start_def keeps_def same_path_def)
qed

lemma vegas_adjust_keeps:
  assumes "sock_ok L sk" and "vegas_ok (icsk_ca_priv sk)"
  shows "keeps L vegas_ok sk (vegas_adjust P k sk old_wnd old_snd_cwnd)"
proof -
  obtain t where t: "vegas_target (icsk_ca_priv sk) old_wnd = Some t"
    using vegas_okD(1) [OF assms(2)] by (auto simp: vegas_target_def cdiv_def)
  let ?d = "push_bit V_PARAM_SHIFT_vegas old_wnd - t"
  obtain w where w: "vegas_avoid P sk old_snd_cwnd ?d = sk\<lparr>snd_cwnd := w\<rparr>"
    by (auto simp: vegas_avoid_def Let_def split: if_splits)
      (metis (no_types) tcp_sock.surjective tcp_sock.update_convs(8))
  have "keeps L vegas_ok sk (vegas_slow_start P k sk t ?d \<bind> (\<lambda>tp. Some (vegas_clamp tp)))"
    by (rule keeps_bind [OF vegas_slow_start_keeps [OF assms] vegas_clamp_keeps_self])
  then show ?thesis unfolding vegas_adjust_def t bind.bind_lunit Let_def
    using vegas_clamp_keeps [of L sk vegas_ok w] assms by (simp add: w)
qed

lemma vegas_cong_avoid_keeps:
  assumes "sock_ok L sk" and "vegas_ok (icsk_ca_priv sk)"
  shows "keeps L vegas_ok sk (tcp_vegas_cong_avoid P k sk ack rtt in_flight flag)"
proof -
  let ?sk = "upd_ca (\<lambda>v. v\<lparr>beg_snd_una := beg_snd_nxt v, beg_snd_nxt := snd_nxt sk,
                          beg_snd_cwnd := snd_cwnd sk\<rparr>) sk"
  have ok: "sock_ok L ?sk" "vegas_ok (icsk_ca_priv ?sk)" using assms by (simp_all add: vegas_ok_def)
  have w: "keeps L vegas_ok sk' (Some (upd_ca (\<lambda>v. v\<lparr>cntRTT := 0, minRTT := 0x7fffffff\<rparr>) sk'))"
    if "sock_ok L sk'" "vegas_ok (icsk_ca_priv sk')" for sk' :: "vegas tcp_sock"
    using that by (auto simp: vegas_ok_def)
  have "keeps L vegas_ok ?sk ((if cntRTT (icsk_ca_priv ?sk) \<le> 2
               then tcp_reno_cong_avoid k ?sk ack rtt in_flight flag
               else vegas_adjust P k ?sk old_wnd old_snd_cwnd)
     \<bind> (\<lambda>tp. Some (upd_ca (\<lambda>v. v\<lparr>cntRTT := 0, minRTT := 0x7fffffff\<rparr>) tp)))" for old_wnd old_snd_cwnd
    using ok w by (intro keeps_bind) (auto simp: tcp_reno_cong_avoid_keeps vegas_adjust_keeps)
  then have "keeps L vegas_ok sk ((if cntRTT (icsk_ca_priv ?sk) \<le> 2
               then tcp_reno_cong_avoid k ?sk ack rtt in_flight flag
               else vegas_adjust P k ?sk old_wnd old_snd_cwnd)
     \<bind> (\<lambda>tp. Some (upd_ca (\<lambda>v. v\<lparr>cntRTT := 0, minRTT := 0x7fffffff\<rparr>) tp)))" for old_wnd old_snd_cwnd
    by (simp add: keeps_def same_path_def)
  then show ?thesis
    using assms sock_okD(3) [OF assms(1)]
    by (simp add: tcp_vegas_cong_avoid_def Let_def cdiv_def tcp_reno_cong_avoid_keeps tcp_slow_start_keeps
        del: upd_ca_simps)
qed

interpretation vegas: cong_control win_limit R "tcp_vegas P" vegas_ok
  by unfold_locales
    (auto simp: cc_init_def cc_ssthresh_def cc_min_cwnd_def cc_cong_avoid_def cc_cwnd_event_def
      cc_pkts_acked_def null_ops_def tcp_vegas_def tcp_reno_ssthresh_yields vegas_cong_avoid_keeps
      vegas_init_keeps vegas_state_keeps vegas_event_keeps vegas_acked_keeps min_cwnd_reno_ok
      intro!: set_ca_state_keeps)

text \<open>
  \<open>diff\<close> is the backlog: \<open>2 * w\<close> half segments in \<open>minRTT\<close>, less what \<open>baseRTT\<close>
  would have carried, rounded up.
\<close>

lemma vegas_target_val:
  assumes "vegas_ok v" and "unat w < 2147483648"
  shows "vegas_target v w = Some (push_bit V_PARAM_SHIFT_vegas (w * baseRTT v) div minRTT v)"
    and "unat (push_bit V_PARAM_SHIFT_vegas (w * baseRTT v) div minRTT v)
      = 2 * unat w * unat (baseRTT v) div unat (minRTT v)"
proof -
  show "vegas_target v w = Some (push_bit V_PARAM_SHIFT_vegas (w * baseRTT v) div minRTT v)"
    using vegas_okD(1) [OF assms(1)] by (simp add: vegas_target_def cdiv_def)
  have b: "unat (baseRTT v) \<le> 2147483648" using assms(1) by (simp add: vegas_ok_def)
  have "unat w * unat (baseRTT v) \<le> 2147483647 * 2147483648"
    using assms(2) b by (intro mult_le_mono) linarith+
  then have p: "unat w * unat (baseRTT v) * 2 < 18446744073709551616" by linarith
  have u: "unat (w * baseRTT v) = unat w * unat (baseRTT v)" by (intro unat_mult_small) (use p in linarith)
  have "unat (push_bit V_PARAM_SHIFT_vegas (w * baseRTT v)) = 2 * unat w * unat (baseRTT v)"
    unfolding V_PARAM_SHIFT_vegas_def using p by (subst unat_push_u32) (simp_all only: u power_one_right ac_simps)
  then show "unat (push_bit V_PARAM_SHIFT_vegas (w * baseRTT v) div minRTT v)
      = 2 * unat w * unat (baseRTT v) div unat (minRTT v)"
    by (simp only: unat_div)
qed

lemma ceil_backlog:
  fixes w b m :: nat
  assumes "0 < m" and "b \<le> m"
  shows "2 * w * b div m \<le> 2 * w"
    and "2 * w * m \<le> (2 * w - 2 * w * b div m) * m + 2 * w * b"
    and "(2 * w - 2 * w * b div m) * m + 2 * w * b < 2 * w * m + m"
proof -
  let ?t = "2 * w * b div m"
  show le: "?t \<le> 2 * w" by (rule scale_le [OF assms(2)])
  have t: "?t * m + 2 * w * b mod m = 2 * w * b" by (rule div_mult_mod_eq)
  have r: "2 * w * b mod m < m" by (rule mod_less_divisor [OF assms(1)])
  have d: "(2 * w - ?t) * m + ?t * m = 2 * w * m"
    using le by (simp flip: distrib_right)
  show "2 * w * m \<le> (2 * w - ?t) * m + 2 * w * b" using d t by linarith
  show "(2 * w - ?t) * m + 2 * w * b < 2 * w * m + m" using d t r by linarith
qed

lemma vegas_diff_backlog:
  assumes "vegas_ok v" and "unat w < 2147483648"
  shows "\<exists>t d. vegas_target v w = Some t \<and> push_bit V_PARAM_SHIFT_vegas w - t = d
     \<and> 2 * unat w * unat (minRTT v) \<le> unat d * unat (minRTT v) + 2 * unat w * unat (baseRTT v)
     \<and> unat d * unat (minRTT v) + 2 * unat w * unat (baseRTT v) < 2 * unat w * unat (minRTT v) + unat (minRTT v)"
proof -
  let ?t = "push_bit V_PARAM_SHIFT_vegas (w * baseRTT v) div minRTT v"
  note t = vegas_target_val [OF assms]
  have m: "0 < unat (minRTT v)" "unat (baseRTT v) \<le> unat (minRTT v)"
    using assms(1) by (auto simp: vegas_ok_def)
  note c = ceil_backlog [OF m, of "unat w"]
  have p: "unat (push_bit V_PARAM_SHIFT_vegas w) = 2 * unat w"
    using unat_push_u32 [of w 1] assms(2) unfolding V_PARAM_SHIFT_vegas_def by simp
  have "unat (push_bit V_PARAM_SHIFT_vegas w - ?t)
      = 2 * unat w - 2 * unat w * unat (baseRTT v) div unat (minRTT v)"
    using c(1) by (subst unat_sub_le) (simp_all only: word_le_nat_alt p t(2))
  then show ?thesis using t(1) c(2,3) by (intro exI conjI) (rule t(1), rule refl, simp_all)
qed

definition vegas_bound :: "'p tcp_sock \<Rightarrow> nat \<Rightarrow> nat" where
  "vegas_bound tp n = (if n < 2 then 2 else min n (unat (snd_cwnd_clamp tp)))"

lemma vegas_clamp_unat: "unat (snd_cwnd (vegas_clamp tp)) = vegas_bound tp (unat (snd_cwnd tp))"
  by (auto simp: vegas_clamp_def vegas_bound_def word_less_nat_alt min_def)

text \<open>The step of the window in congestion avoidance, when it did not change during the round trip.\<close>

lemma vegas_avoid_unat:
  assumes "sock_ok win_limit tp" and "old = snd_cwnd tp"
  shows "unat (snd_cwnd (vegas_avoid P tp old d)) =
     (if int_u32 (vg_beta P) < d then unat (snd_cwnd tp) - 1
      else if d < int_u32 (vg_alpha P) then unat (snd_cwnd tp) + 1 else unat (snd_cwnd tp))"
proof -
  have c: "1 \<le> unat (snd_cwnd tp)" "unat (snd_cwnd tp) < 18446744073709551615"
    using sock_okD(4,5) [OF assms(1)] by (simp_all add: win_limit_def)
  then have "unat (snd_cwnd tp - 1) = unat (snd_cwnd tp) - 1"
    by (subst unat_sub_le) (simp_all add: word_le_nat_alt)
  moreover note unat_inc_small [OF c(2)]
  ultimately show ?thesis using c(1) assms(2)
    by (auto simp: vegas_avoid_def Let_def word_less_nat_alt)
qed

lemma vegas_ca_step:
  assumes ok: "sock_ok win_limit tp" "vegas_ok (icsk_ca_priv tp)"
    and run: "doing_vegas_now (icsk_ca_priv tp) \<noteq> 0" "after ack (beg_snd_nxt (icsk_ca_priv tp))"
      "2 < cntRTT (icsk_ca_priv tp)" "snd_ssthresh tp < snd_cwnd tp"
      "beg_snd_cwnd (icsk_ca_priv tp) = snd_cwnd tp"
    and w: "unat w < 2147483648"
      "w = (beg_snd_nxt (icsk_ca_priv tp) - beg_snd_una (icsk_ca_priv tp)) div mss_cache tp"
  defines "m \<equiv> unat (minRTT (icsk_ca_priv tp))" and "b \<equiv> unat (baseRTT (icsk_ca_priv tp))"
  shows "\<exists>tp' d. tcp_vegas_cong_avoid vegas_default k tp ack rtt in_flight flag = Some tp'
     \<and> 2 * unat w * m \<le> d * m + 2 * unat w * b \<and> d * m + 2 * unat w * b < 2 * unat w * m + m
     \<and> unat (snd_cwnd tp') = vegas_bound tp (if 8 < d then unat (snd_cwnd tp) - 1
           else if d < 4 then unat (snd_cwnd tp) + 1 else unat (snd_cwnd tp))"
proof -
  let ?sk = "upd_ca (\<lambda>v. v\<lparr>beg_snd_una := beg_snd_nxt v, beg_snd_nxt := snd_nxt tp,
                          beg_snd_cwnd := snd_cwnd tp\<rparr>) tp"
  obtain t d where t: "vegas_target (icsk_ca_priv tp) w = Some t"
      "push_bit V_PARAM_SHIFT_vegas w - t = d"
    and d: "2 * unat w * m \<le> unat d * m + 2 * unat w * b"
      "unat d * m + 2 * unat w * b < 2 * unat w * m + m"
    using vegas_diff_backlog [OF ok(2) w(1)] unfolding m_def b_def by blast
  have t': "vegas_target (icsk_ca_priv ?sk) w = Some t" using t(1) by (simp add: vegas_target_def)
  have "vegas_adjust vegas_default k ?sk w (snd_cwnd tp) =
      Some (vegas_clamp (vegas_avoid vegas_default ?sk (snd_cwnd tp) d))"
    unfolding vegas_adjust_def t' bind.bind_lunit Let_def t(2)
    using run(4) by (simp add: not_le [symmetric])
  then have "tcp_vegas_cong_avoid vegas_default k tp ack rtt in_flight flag =
      Some (upd_ca (\<lambda>v. v\<lparr>cntRTT := 0, minRTT := 0x7fffffff\<rparr>)
        (vegas_clamp (vegas_avoid vegas_default ?sk (snd_cwnd tp) d)))"
    using run sock_okD(3) [OF ok(1)]
    by (simp add: tcp_vegas_cong_avoid_def cdiv_def Let_def not_le [symmetric] w(2) [symmetric])
  moreover have "unat (snd_cwnd (vegas_clamp (vegas_avoid vegas_default ?sk (snd_cwnd tp) d))) =
      vegas_bound tp (if 8 < unat d then unat (snd_cwnd tp) - 1
           else if unat d < 4 then unat (snd_cwnd tp) + 1 else unat (snd_cwnd tp))"
    using vegas_avoid_unat [of ?sk "snd_cwnd tp" vegas_default d] ok(1)
    by (simp add: vegas_clamp_unat vegas_default_def V_PARAM_SHIFT_vegas_def word_less_nat_alt
        vegas_bound_def vegas_avoid_def Let_def)
  ultimately show ?thesis using d by (intro exI conjI) (assumption, simp_all)
qed

end
