(* ===== verification/Tcp_Lp.thy ===== *)
theory Tcp_Lp
  imports Cong_Contract Cong_List
begin

text \<open>
  \<open>tcp/linux/src/tcp_lp.c\<close>: TCP Low Priority. From the time stamps of each acknowledgment it
  estimates the one-way delay and, when the smoothed delay leaves the lower 15 percent of its
  range, backs off: to half the window, and to one segment when that happens again within the
  inference phase. Signed values are two's complement, as compiled. The lemmas show that the
  division by the estimated remote clock rate is defined whenever it is reached, what each
  acknowledgment does to the window, and that the window does not grow during inference.
\<close>

definition LP_RESOL :: cint where "LP_RESOL = 1000"
definition LP_VALID_RHZ :: u32 where "LP_VALID_RHZ = push_bit 0 1"
definition LP_VALID_OWD :: u32 where "LP_VALID_OWD = push_bit 1 1"
definition LP_WITHIN_THR :: u32 where "LP_WITHIN_THR = push_bit 3 1"
definition LP_WITHIN_INF :: u32 where "LP_WITHIN_INF = push_bit 4 1"

record lp =
  lp_flag :: u32
  sowd :: u32
  owd_min :: u32
  owd_max :: u32
  owd_max_rsv :: u32
  remote_hz :: u32
  remote_ref_time :: u32
  local_ref_time :: u32
  last_drop :: u32
  inference :: u32

definition set_flag :: "u32 \<Rightarrow> bool \<Rightarrow> lp \<Rightarrow> lp" where
  "set_flag m b lp = (if b then lp\<lparr>lp_flag := lp_flag lp OR m\<rparr> else lp\<lparr>lp_flag := lp_flag lp AND NOT m\<rparr>)"

definition has_flag :: "u32 \<Rightarrow> lp \<Rightarrow> bool" where
  "has_flag m lp \<longleftrightarrow> lp_flag lp AND m \<noteq> 0"

definition tcp_lp_init :: "kernel \<Rightarrow> lp tcp_sock \<Rightarrow> lp tcp_sock option" where
  "tcp_lp_init k sk = Some (upd_ca (\<lambda>lp. lp\<lparr>lp_flag := 0, sowd := 0, owd_min := 0xffffffff,
     owd_max := 0, owd_max_rsv := 0, remote_hz := 0, remote_ref_time := 0, local_ref_time := 0,
     last_drop := 0, inference := 0\<rparr>) sk)"

definition tcp_lp_cong_avoid ::
    "kernel \<Rightarrow> lp tcp_sock \<Rightarrow> u32 \<Rightarrow> u32 \<Rightarrow> u32 \<Rightarrow> cint \<Rightarrow> lp tcp_sock option" where
  "tcp_lp_cong_avoid k sk ack rtt in_flight flag =
     (if \<not> has_flag LP_WITHIN_INF (icsk_ca_priv sk) then tcp_reno_cong_avoid k sk ack rtt in_flight flag
      else Some sk)"

text \<open>Absolute value of a \<open>long long\<close>.\<close>

definition s64_abs :: "s64 \<Rightarrow> s64" where
  "s64_abs m = (if sint m < 0 then - m else m)"

text \<open>The new estimate \<open>rhz\<close>, scaled by 64, from the time stamps.\<close>

definition lp_new_rhz :: "tcp_options_received \<Rightarrow> lp \<Rightarrow> s64 option" where
  "lp_new_rhz rx lp =
     (let rhz = push_bit 6 (remote_hz lp)
      in if remote_ref_time lp = 0 \<or> local_ref_time lp = 0 then Some rhz
         else if rcv_tsval rx = remote_ref_time lp \<or> rcv_tsecr rx = local_ref_time lp then Some rhz
         else do {
           m \<leftarrow> cdiv (HZ * (rcv_tsval rx - remote_ref_time lp)) (rcv_tsecr rx - local_ref_time lp);
           let m = s64_abs m;
           Some (if 0 < sint rhz then rhz + (m - signed_drop_bit 6 rhz) else push_bit 6 m)
         })"

definition tcp_lp_remote_hz_estimator :: "tcp_options_received \<Rightarrow> lp \<Rightarrow> (u32 \<times> lp) option" where
  "tcp_lp_remote_hz_estimator rx lp = do {
     rhz \<leftarrow> lp_new_rhz rx lp;
     let lp = set_flag LP_VALID_RHZ (0 < sint (signed_drop_bit 6 rhz)) lp;
     Some (signed_drop_bit 6 rhz, lp\<lparr>remote_ref_time := rcv_tsval rx, local_ref_time := rcv_tsecr rx\<rparr>)
   }"

definition tcp_lp_owd_calculator :: "tcp_options_received \<Rightarrow> lp \<Rightarrow> (u32 \<times> lp) option" where
  "tcp_lp_owd_calculator rx lp = do {
     (hz, lp) \<leftarrow> tcp_lp_remote_hz_estimator rx lp;
     let lp = lp\<lparr>remote_hz := hz\<rparr>;
     owd \<leftarrow> (if has_flag LP_VALID_RHZ lp then do {
               q \<leftarrow> cdiv (int_u32 LP_RESOL) (remote_hz lp);
               p \<leftarrow> cdiv (int_u32 LP_RESOL) HZ;
               Some (s64_abs (rcv_tsval rx * q - rcv_tsecr rx * p))
             }
             else Some 0);
     Some (owd, set_flag LP_VALID_OWD (0 < sint owd) lp)
   }"

definition lp_record_owd :: "s64 \<Rightarrow> lp \<Rightarrow> lp" where
  "lp_record_owd mowd lp =
     (let lp = (if sint mowd < sint (owd_min lp) then lp\<lparr>owd_min := mowd\<rparr> else lp);
          lp = (if sint (owd_max lp) < sint mowd then
                  if sint (owd_max_rsv lp) < sint mowd
                  then lp\<lparr>owd_max := (if owd_max_rsv lp = 0 then mowd else owd_max_rsv lp),
                          owd_max_rsv := mowd\<rparr>
                  else lp\<lparr>owd_max := mowd\<rparr>
                else lp)
      in if sowd lp \<noteq> 0 then lp\<lparr>sowd := sowd lp + (mowd - drop_bit 3 (sowd lp))\<rparr>
         else lp\<lparr>sowd := push_bit 3 mowd\<rparr>)"

definition tcp_lp_rtt_sample :: "lp tcp_sock \<Rightarrow> u32 \<Rightarrow> lp tcp_sock option" where
  "tcp_lp_rtt_sample sk rtt = do {
     (mowd, lp) \<leftarrow> tcp_lp_owd_calculator (rx_opt sk) (icsk_ca_priv sk);
     Some (upd_ca (\<lambda>_. if \<not> has_flag LP_VALID_RHZ lp \<or> \<not> has_flag LP_VALID_OWD lp then lp
                       else lp_record_owd mowd lp) sk)
   }"

text \<open>The inference phase, and the test of the smoothed delay against its range.\<close>

definition lp_inference :: "kernel \<Rightarrow> tcp_options_received \<Rightarrow> lp \<Rightarrow> lp" where
  "lp_inference k rx lp =
     (let now = tcp_time_stamp k;
          lp = (if rcv_tsecr rx < now then lp\<lparr>inference := 3 * (now - rcv_tsecr rx)\<rparr> else lp);
          lp = set_flag LP_WITHIN_INF (last_drop lp \<noteq> 0 \<and> now - last_drop lp < inference lp) lp
      in set_flag LP_WITHIN_THR
           (drop_bit 3 (sowd lp) < owd_min lp + 15 * (owd_max lp - owd_min lp) div 100) lp)"

definition tcp_lp_pkts_acked :: "kernel \<Rightarrow> lp tcp_sock \<Rightarrow> u32 \<Rightarrow> s64 \<Rightarrow> lp tcp_sock option" where
  "tcp_lp_pkts_acked k tp num_acked ts = do {
     tp \<leftarrow> (if \<not> ktime_equal ts net_invalid_timestamp
            then tcp_lp_rtt_sample tp (ktime_to_us (net_timedelta k ts)) else Some tp);
     let tp = upd_ca (lp_inference k (rx_opt tp)) tp;
     if has_flag LP_WITHIN_THR (icsk_ca_priv tp) then Some tp
     else do {
       let tp = upd_ca (\<lambda>lp. lp\<lparr>owd_min := drop_bit 3 (sowd lp), owd_max := drop_bit 2 (sowd lp),
                               owd_max_rsv := drop_bit 2 (sowd lp)\<rparr>) tp;
       let tp = (if has_flag LP_WITHIN_INF (icsk_ca_priv tp) then tp\<lparr>snd_cwnd := 1\<rparr>
                 else tp\<lparr>snd_cwnd := max (drop_bit 1 (snd_cwnd tp)) 1\<rparr>);
       Some (upd_ca (\<lambda>lp. lp\<lparr>last_drop := tcp_time_stamp k\<rparr>) tp)
     }
   }"

definition tcp_lp :: "lp tcp_congestion_ops" where
  "tcp_lp = null_ops\<lparr>op_flags := TCP_CONG_RTT_STAMP, op_init := Some tcp_lp_init,
     op_ssthresh := Some tcp_reno_ssthresh, op_cong_avoid := Some tcp_lp_cong_avoid,
     op_min_cwnd := Some tcp_reno_min_cwnd, op_pkts_acked := Some tcp_lp_pkts_acked,
     op_name := ''lp''\<rparr>"

definition tcp_lp_register :: "addr \<Rightarrow> 'p cong_reg \<Rightarrow> (int \<times> 'p cong_reg) option" where
  "tcp_lp_register tbl s = tcp_register_congestion_control tbl s"

definition tcp_lp_unregister :: "addr \<Rightarrow> 'p cong_reg \<Rightarrow> 'p cong_reg" where
  "tcp_lp_unregister tbl s = tcp_unregister_congestion_control tbl s"

section \<open>Correctness\<close>

text \<open>Flags: setting one sets it, and no other.\<close>

lemmas lp_masks = LP_VALID_RHZ_def LP_VALID_OWD_def LP_WITHIN_THR_def LP_WITHIN_INF_def

lemma flag_bit: "(x :: u32) AND push_bit n 1 = 0 \<longleftrightarrow> \<not> bit x n"
  by (simp add: and_exp_eq_0_iff_not_bit)

lemma has_set_flag:
  assumes "i < 64" and "j < 64"
  shows "has_flag (push_bit i 1) (set_flag (push_bit j 1) b lp) =
    (if i = j then b else has_flag (push_bit i 1) lp)"
  using assms unfolding has_flag_def flag_bit set_flag_def by (auto simp: bit_simps)

lemma lp_flags [simp]:
  "has_flag LP_VALID_RHZ (set_flag LP_VALID_RHZ b lp) = b"
  "has_flag LP_WITHIN_INF (set_flag LP_WITHIN_INF b lp) = b"
  "has_flag LP_WITHIN_THR (set_flag LP_WITHIN_THR b lp) = b"
  "has_flag LP_WITHIN_INF (set_flag LP_WITHIN_THR b lp) = has_flag LP_WITHIN_INF lp"
  "has_flag m (lp\<lparr>remote_ref_time := r\<rparr>) = has_flag m lp" "has_flag m (lp\<lparr>local_ref_time := l\<rparr>) = has_flag m lp"
  "has_flag m (lp\<lparr>remote_hz := h\<rparr>) = has_flag m lp" "has_flag m (lp\<lparr>owd_min := o1\<rparr>) = has_flag m lp"
  "has_flag m (lp\<lparr>owd_max := o2\<rparr>) = has_flag m lp" "has_flag m (lp\<lparr>owd_max_rsv := o3\<rparr>) = has_flag m lp"
  unfolding lp_masks by (simp_all only: has_set_flag) (simp_all add: has_flag_def)

lemma set_flag_fields [simp]:
  "sowd (set_flag m b lp) = sowd lp" "owd_min (set_flag m b lp) = owd_min lp"
  "owd_max (set_flag m b lp) = owd_max lp" "owd_max_rsv (set_flag m b lp) = owd_max_rsv lp"
  "remote_hz (set_flag m b lp) = remote_hz lp" "last_drop (set_flag m b lp) = last_drop lp"
  "inference (set_flag m b lp) = inference lp"
  by (simp_all add: set_flag_def)

text \<open>The delay is computed with a remote clock rate that is not zero.\<close>

lemma lp_new_rhz_returns: "\<exists>rhz. lp_new_rhz rx lp = Some rhz"
  by (auto simp: lp_new_rhz_def Let_def cdiv_def)

lemma tcp_lp_owd_calculator_returns: "\<exists>owd lp'. tcp_lp_owd_calculator rx lp = Some (owd, lp')"
proof -
  obtain rhz where r: "lp_new_rhz rx lp = Some rhz" using lp_new_rhz_returns by blast
  have "0 < sint (signed_drop_bit 6 rhz) \<Longrightarrow> signed_drop_bit 6 rhz \<noteq> 0" by auto
  then show ?thesis
    by (simp add: tcp_lp_owd_calculator_def tcp_lp_remote_hz_estimator_def r cdiv_def HZ_def Let_def)
qed

lemma lp_rtt_sample_returns: "\<exists>lp'. tcp_lp_rtt_sample sk rtt = Some (upd_ca (\<lambda>_. lp') sk)"
  using tcp_lp_owd_calculator_returns [of "rx_opt sk" "icsk_ca_priv sk"]
  by (auto simp: tcp_lp_rtt_sample_def)

text \<open>
  What an acknowledgment does to the window: nothing while the smoothed delay is within the
  threshold, one segment if the last back-off is recent, half otherwise.
\<close>

lemma tcp_lp_pkts_acked_cases:
  "\<exists>lp. tcp_lp_pkts_acked k tp n ts = Some (upd_ca (\<lambda>_. lp)
       (if has_flag LP_WITHIN_THR lp then tp
        else tp\<lparr>snd_cwnd := (if has_flag LP_WITHIN_INF lp then 1 else max (drop_bit 1 (snd_cwnd tp)) 1)\<rparr>))
     \<and> (\<not> has_flag LP_WITHIN_THR lp \<longrightarrow> last_drop lp = tcp_time_stamp k)"
proof -
  obtain l where l: "(if \<not> ktime_equal ts net_invalid_timestamp
            then tcp_lp_rtt_sample tp (ktime_to_us (net_timedelta k ts)) else Some tp)
      = Some (upd_ca (\<lambda>_. l) tp)"
  proof (cases "ktime_equal ts net_invalid_timestamp")
    case True
    then show ?thesis using that [of "icsk_ca_priv tp"] by (simp add: upd_ca_def)
  next
    case False
    then show ?thesis
      using that lp_rtt_sample_returns [of tp "ktime_to_us (net_timedelta k ts)"] by auto
  qed
  let ?l = "lp_inference k (rx_opt tp) l"
  show ?thesis
  proof (cases "has_flag LP_WITHIN_THR ?l")
    case True
    then show ?thesis by (intro exI [of _ ?l]) (simp add: tcp_lp_pkts_acked_def l)
  next
    case False
    let ?m = "?l\<lparr>owd_min := drop_bit 3 (sowd ?l), owd_max := drop_bit 2 (sowd ?l),
                  owd_max_rsv := drop_bit 2 (sowd ?l), last_drop := tcp_time_stamp k\<rparr>"
    have f: "has_flag i (lp\<lparr>last_drop := t\<rparr>) = has_flag i lp" for i lp t by (simp add: has_flag_def)
    show ?thesis using False
      by (intro exI [of _ ?m]) (simp add: tcp_lp_pkts_acked_def l f upd_ca_def)
  qed
qed

lemma lp_acked_keeps:
  assumes "sock_ok L tp"
  shows "keeps L (\<lambda>_. True) tp (tcp_lp_pkts_acked k tp n ts)"
proof -
  have h: "1 \<le> unat (max (drop_bit 1 (snd_cwnd tp)) 1)" "unat (max (drop_bit 1 (snd_cwnd tp)) 1) < L"
    unfolding unat_max_word unat_half using sock_okD(4,5) [OF assms] by auto
  have o1: "sock_ok L (tp\<lparr>snd_cwnd := 1\<rparr>)" "sock_ok L (tp\<lparr>snd_cwnd := max (drop_bit 1 (snd_cwnd tp)) 1\<rparr>)"
    using assms sock_okD(4,5) [OF assms] h by (auto intro!: sock_ok_set_cwnd)
  obtain lp where "tcp_lp_pkts_acked k tp n ts = Some (upd_ca (\<lambda>_. lp)
       (if has_flag LP_WITHIN_THR lp then tp
        else tp\<lparr>snd_cwnd := (if has_flag LP_WITHIN_INF lp then 1 else max (drop_bit 1 (snd_cwnd tp)) 1)\<rparr>))"
    using tcp_lp_pkts_acked_cases [of k tp n ts] by blast
  then show ?thesis using assms o1 by (simp split: if_splits)
qed

interpretation lp: cong_control win_limit R tcp_lp "\<lambda>_. True"
  by unfold_locales
    (auto simp: cc_defs tcp_lp_def tcp_lp_init_def tcp_lp_cong_avoid_def tcp_reno_ssthresh_yields
      tcp_reno_cong_avoid_keeps lp_acked_keeps min_cwnd_reno_ok same_path_def)

text \<open>Two back-offs in a row: the second, within the inference phase of the first, leaves one segment.\<close>

lemma lp_inference_flags:
  assumes "rcv_tsecr rx < tcp_time_stamp k" and "last_drop l \<noteq> 0"
    and "tcp_time_stamp k - last_drop l < 3 * (tcp_time_stamp k - rcv_tsecr rx)"
  shows "has_flag LP_WITHIN_INF (lp_inference k rx l)"
  using assms by (simp add: lp_inference_def Let_def)

lemma lp_freezes_growth:
  "has_flag LP_WITHIN_INF (icsk_ca_priv sk) \<Longrightarrow> tcp_lp_cong_avoid k sk ack rtt in_flight flag = Some sk"
  by (simp add: tcp_lp_cong_avoid_def)

end
