(* ===== verification/Tcp_Htcp.thy ===== *)
theory Tcp_Htcp
  imports Cong_Contract Cong_List
begin

text \<open>
  \<open>tcp/linux/src/tcp_htcp.c\<close>: H-TCP. The increase \<open>alpha\<close> grows with the time since the last
  congestion event, the decrease \<open>beta\<close> is the ratio of the smallest and the largest round-trip
  time, both in 128ths. The lemmas show that \<open>beta\<close> stays between 0.5 and 0.8, that \<open>alpha\<close> is
  never zero, that every division is defined once the smoothed round-trip time is positive, what
  remains of the window after a loss, and that undoing a congestion event restores the estimates
  of the path.
\<close>

definition ALPHA_BASE_htcp :: u32 where "ALPHA_BASE_htcp = push_bit 7 1"
definition BETA_MIN_htcp :: u8 where "BETA_MIN_htcp = push_bit 6 1"
definition BETA_MAX_htcp :: u8 where "BETA_MAX_htcp = 102"

record htcp_vars =
  use_rtt_scaling :: cint
  use_bandwidth_switch :: cint

definition htcp_default :: htcp_vars where
  "htcp_default = \<lparr>use_rtt_scaling = 1, use_bandwidth_switch = 1\<rparr>"

definition htcp_params :: "param_decl list" where
  "htcp_params =
     [(''use_rtt_scaling'', ''int'', ''turn on/off RTT scaling''),
      (''use_bandwidth_switch'', ''int'', ''turn on/off bandwidth switcher'')]"

record htcp =
  h_alpha :: u32
  h_beta :: u8
  modeswitch :: u8
  h_pkts_acked :: u16
  packetcount :: u32
  h_minRTT :: u32
  maxRTT :: u32
  last_cong :: u32
  undo_last_cong :: u32
  undo_maxRTT :: u32
  undo_old_maxB :: u32
  minB :: u32
  maxB :: u32
  old_maxB :: u32
  Bi :: u32
  lasttime :: u32

definition htcp_cong_time :: "kernel \<Rightarrow> htcp \<Rightarrow> u32" where
  "htcp_cong_time k ca = tcp_time_stamp k - last_cong ca"

definition htcp_ccount :: "kernel \<Rightarrow> htcp \<Rightarrow> u32 option" where
  "htcp_ccount k ca = cdiv (htcp_cong_time k ca) (h_minRTT ca)"

definition htcp_reset :: "kernel \<Rightarrow> htcp \<Rightarrow> htcp" where
  "htcp_reset k ca = ca\<lparr>undo_last_cong := last_cong ca, undo_maxRTT := maxRTT ca,
     undo_old_maxB := old_maxB ca, last_cong := tcp_time_stamp k\<rparr>"

definition htcp_cwnd_undo :: "kernel \<Rightarrow> htcp tcp_sock \<Rightarrow> (u32 \<times> htcp tcp_sock) option" where
  "htcp_cwnd_undo k tp = do {
     let tp = upd_ca (\<lambda>ca. ca\<lparr>last_cong := undo_last_cong ca, maxRTT := undo_maxRTT ca,
                             old_maxB := undo_old_maxB ca\<rparr>) tp;
     q \<leftarrow> cdiv (push_bit 7 (snd_ssthresh tp)) (u8_u32 (h_beta (icsk_ca_priv tp)));
     Some (max (snd_cwnd tp) q, tp)
   }"

definition measure_rtt :: "kernel \<Rightarrow> htcp tcp_sock \<Rightarrow> htcp tcp_sock option" where
  "measure_rtt k tp = do {
     let s = drop_bit 3 (srtt tp);
     let ca = icsk_ca_priv tp;
     let ca = (if s < h_minRTT ca \<or> h_minRTT ca = 0 then ca\<lparr>h_minRTT := s\<rparr> else ca);
     ca \<leftarrow> (if icsk_ca_state tp = TCP_CA_Open \<and> snd_ssthresh tp < 0xFFFF then do {
              n \<leftarrow> htcp_ccount k ca;
              Some (if 3 < n then
                      let ca = (if maxRTT ca < h_minRTT ca then ca\<lparr>maxRTT := h_minRTT ca\<rparr> else ca)
                      in if maxRTT ca < s \<and> s \<le> maxRTT ca + msecs_to_jiffies 20
                         then ca\<lparr>maxRTT := s\<rparr> else ca
                    else ca)
            }
            else Some ca);
     Some (upd_ca (\<lambda>_. ca) tp)
   }"

text \<open>The bandwidth sample at the end of a round trip.\<close>

definition htcp_bandwidth :: "kernel \<Rightarrow> htcp \<Rightarrow> htcp option" where
  "htcp_bandwidth k ca = do {
     cur_Bi \<leftarrow> cdiv (packetcount ca * HZ) (tcp_time_stamp k - lasttime ca);
     n \<leftarrow> htcp_ccount k ca;
     let ca = (if n \<le> 3 then ca\<lparr>minB := cur_Bi, maxB := cur_Bi, Bi := cur_Bi\<rparr>
               else
                 let ca = ca\<lparr>Bi := (3 * Bi ca + cur_Bi) div 4\<rparr>;
                     ca = (if maxB ca < Bi ca then ca\<lparr>maxB := Bi ca\<rparr> else ca)
                 in if maxB ca < minB ca then ca\<lparr>minB := maxB ca\<rparr> else ca);
     Some (ca\<lparr>packetcount := 0, lasttime := tcp_time_stamp k\<rparr>)
   }"

definition measure_achieved_throughput ::
    "htcp_vars \<Rightarrow> kernel \<Rightarrow> htcp tcp_sock \<Rightarrow> u32 \<Rightarrow> s64 \<Rightarrow> htcp tcp_sock option" where
  "measure_achieved_throughput P k tp pkts_acked ts = do {
     let now = tcp_time_stamp k;
     let ca = icsk_ca_priv tp;
     let ca = (if icsk_ca_state tp = TCP_CA_Open then ca\<lparr>h_pkts_acked := u32_u16 pkts_acked\<rparr> else ca);
     ca \<leftarrow> (if use_bandwidth_switch P = 0 then Some ca
            else if icsk_ca_state tp \<noteq> TCP_CA_Open \<and> icsk_ca_state tp \<noteq> TCP_CA_Disorder
            then Some (ca\<lparr>packetcount := 0, lasttime := now\<rparr>)
            else
              let ca = ca\<lparr>packetcount := packetcount ca + pkts_acked\<rparr>;
                  a = (if drop_bit 7 (h_alpha ca) \<noteq> 0 then drop_bit 7 (h_alpha ca) else 1)
              in if snd_cwnd tp - a \<le> packetcount ca \<and> h_minRTT ca \<le> now - lasttime ca \<and> 0 < h_minRTT ca
                 then htcp_bandwidth k ca else Some ca);
     Some (upd_ca (\<lambda>_. ca) tp)
   }"

definition htcp_beta_update :: "htcp_vars \<Rightarrow> htcp \<Rightarrow> u32 \<Rightarrow> u32 \<Rightarrow> htcp option" where
  "htcp_beta_update P ca minRTT mxRTT =
     (let switched = (use_bandwidth_switch P \<noteq> 0 \<and>
            \<not> between (5 * maxB ca) (4 * old_maxB ca) (6 * old_maxB ca));
          ca = (if use_bandwidth_switch P \<noteq> 0 then ca\<lparr>old_maxB := maxB ca\<rparr> else ca)
      in if switched then Some (ca\<lparr>h_beta := BETA_MIN_htcp, modeswitch := 0\<rparr>)
         else if modeswitch ca \<noteq> 0 \<and> msecs_to_jiffies 10 < minRTT \<and> mxRTT \<noteq> 0 then do {
           q \<leftarrow> cdiv (push_bit 7 minRTT) mxRTT;
           let b = u32_u8 q;
           Some (ca\<lparr>h_beta := (if b < BETA_MIN_htcp then BETA_MIN_htcp
                                else if BETA_MAX_htcp < b then BETA_MAX_htcp else b)\<rparr>)
         }
         else Some (ca\<lparr>h_beta := BETA_MIN_htcp, modeswitch := 1\<rparr>))"

text \<open>
  The factor of \<open>alpha\<close>: quadratic in the time since the last congestion event, then divided by
  the scaled round-trip time, clamped between 0.5 and 10.
\<close>

definition htcp_scale :: "u32 \<Rightarrow> u32 \<Rightarrow> u32 option" where
  "htcp_scale minRTT factor = do {
     scale \<leftarrow> cdiv (push_bit 3 HZ) (10 * minRTT);
     f \<leftarrow> cdiv (push_bit 3 factor) (min (max scale (push_bit 2 1)) (push_bit 3 10));
     Some (if f = 0 then 1 else f)
   }"

definition htcp_alpha_update :: "htcp_vars \<Rightarrow> kernel \<Rightarrow> htcp \<Rightarrow> htcp option" where
  "htcp_alpha_update P k ca = do {
     let minRTT = h_minRTT ca;
     let diff = htcp_cong_time k ca;
     let factor = (if HZ < diff then
                     let diff = diff - HZ
                     in 1 + (10 * diff + ((diff div 2) * (diff div 2) div HZ)) div HZ
                   else 1);
     factor \<leftarrow> (if use_rtt_scaling P \<noteq> 0 \<and> minRTT \<noteq> 0 then htcp_scale minRTT factor else Some factor);
     let a = 2 * factor * (push_bit 7 1 - u8_u32 (h_beta ca));
     Some (ca\<lparr>h_alpha := (if a = 0 then ALPHA_BASE_htcp else a)\<rparr>)
   }"

definition htcp_param_update :: "htcp_vars \<Rightarrow> kernel \<Rightarrow> htcp \<Rightarrow> htcp option" where
  "htcp_param_update P k ca = do {
     let minRTT = h_minRTT ca;
     let mxRTT = maxRTT ca;
     ca \<leftarrow> htcp_beta_update P ca minRTT mxRTT;
     ca \<leftarrow> htcp_alpha_update P k ca;
     Some (if 0 < minRTT \<and> minRTT < mxRTT
           then ca\<lparr>maxRTT := minRTT + ((mxRTT - minRTT) * 95) div 100\<rparr> else ca)
   }"

definition htcp_recalc_ssthresh ::
    "htcp_vars \<Rightarrow> kernel \<Rightarrow> htcp tcp_sock \<Rightarrow> (u32 \<times> htcp tcp_sock) option" where
  "htcp_recalc_ssthresh P k tp = do {
     ca \<leftarrow> htcp_param_update P k (icsk_ca_priv tp);
     Some (max (drop_bit 7 (snd_cwnd tp * u8_u32 (h_beta ca))) 2, upd_ca (\<lambda>_. ca) tp)
   }"

definition htcp_cong_avoid :: "htcp_vars \<Rightarrow> kernel \<Rightarrow> htcp tcp_sock \<Rightarrow> u32 \<Rightarrow> u32 \<Rightarrow> u32 \<Rightarrow>
    cint \<Rightarrow> htcp tcp_sock option" where
  "htcp_cong_avoid P k tp ack rtt in_flight data_acked =
     (if \<not> tcp_is_cwnd_limited tp in_flight then Some tp
      else if snd_cwnd tp \<le> snd_ssthresh tp then tcp_slow_start k tp
      else do {
        tp \<leftarrow> measure_rtt k tp;
        tp \<leftarrow> (if snd_cwnd tp \<le> drop_bit 7 (u16_u32 (snd_cwnd_cnt tp) * h_alpha (icsk_ca_priv tp)) then do {
                 let tp = (inc_cwnd_clamped tp)\<lparr>snd_cwnd_cnt := 0\<rparr>;
                 ca \<leftarrow> htcp_alpha_update P k (icsk_ca_priv tp);
                 Some (upd_ca (\<lambda>_. ca) tp)
               }
               else Some (tp\<lparr>snd_cwnd_cnt := snd_cwnd_cnt tp + h_pkts_acked (icsk_ca_priv tp)\<rparr>));
        Some (upd_ca (\<lambda>ca. ca\<lparr>h_pkts_acked := 1\<rparr>) tp)
      })"

definition htcp_init :: "kernel \<Rightarrow> htcp tcp_sock \<Rightarrow> htcp tcp_sock option" where
  "htcp_init k sk = Some (upd_ca (\<lambda>_. \<lparr>h_alpha = ALPHA_BASE_htcp, h_beta = BETA_MIN_htcp,
     modeswitch = 0, h_pkts_acked = 1, packetcount = 0, h_minRTT = 0, maxRTT = 0,
     last_cong = tcp_time_stamp k, undo_last_cong = 0, undo_maxRTT = 0, undo_old_maxB = 0,
     minB = 0, maxB = 0, old_maxB = 0, Bi = 0, lasttime = 0\<rparr>) sk)"

definition htcp_state :: "kernel \<Rightarrow> htcp tcp_sock \<Rightarrow> tcp_ca_state \<Rightarrow> htcp tcp_sock option" where
  "htcp_state k sk new_state =
     Some (case new_state of
             TCP_CA_Open \<Rightarrow> upd_ca (\<lambda>ca. ca\<lparr>last_cong := tcp_time_stamp k\<rparr>) sk
           | TCP_CA_Disorder \<Rightarrow> sk
           | _ \<Rightarrow> upd_ca (htcp_reset k) sk)"

definition htcp_ops :: "htcp_vars \<Rightarrow> htcp tcp_congestion_ops" where
  "htcp_ops P = null_ops\<lparr>op_init := Some htcp_init, op_ssthresh := Some (htcp_recalc_ssthresh P),
     op_cong_avoid := Some (htcp_cong_avoid P), op_set_state := Some htcp_state,
     op_undo_cwnd := Some htcp_cwnd_undo, op_pkts_acked := Some (measure_achieved_throughput P),
     op_name := ''htcp''\<rparr>"

definition htcp_register :: "addr \<Rightarrow> 'p cong_reg \<Rightarrow> (int \<times> 'p cong_reg) option" where
  "htcp_register tbl s = tcp_register_congestion_control tbl s"

definition htcp_unregister :: "addr \<Rightarrow> 'p cong_reg \<Rightarrow> 'p cong_reg" where
  "htcp_unregister tbl s = tcp_unregister_congestion_control tbl s"

section \<open>Correctness\<close>

definition htcp_ok :: "htcp \<Rightarrow> bool" where
  "htcp_ok ca \<longleftrightarrow> 64 \<le> unat (h_beta ca) \<and> unat (h_beta ca) \<le> 102
     \<and> unat (h_minRTT ca) < 2305843009213693952 \<and> h_alpha ca \<noteq> 0"

lemma htcp_consts: "ALPHA_BASE_htcp = 128" "BETA_MIN_htcp = 64" "BETA_MAX_htcp = 102"
  by (simp_all add: ALPHA_BASE_htcp_def BETA_MIN_htcp_def BETA_MAX_htcp_def)

text \<open>The denominator \<open>10 * minRTT\<close> may wrap around, but not to zero.\<close>

lemma ten_times_nonzero:
  assumes "minRTT \<noteq> 0" and "unat (minRTT :: u32) < 2305843009213693952"
  shows "10 * minRTT \<noteq> 0"
proof
  assume "10 * minRTT = 0"
  then have "unat (10 * minRTT) = 0" by simp
  then have "(10 * unat minRTT) mod 18446744073709551616 = 0"
    by (simp add: unat_word_ariths)
  then have "18446744073709551616 dvd 10 * unat minRTT" by (simp add: dvd_eq_mod_eq_0)
  then obtain q where q: "10 * unat minRTT = 18446744073709551616 * q" by (rule dvdE)
  then have "5 * unat minRTT = 9223372036854775808 * q" by linarith
  moreover have "0 < unat minRTT" using assms(1) by (simp add: unat_gt_0)
  moreover have "5 dvd q"
  proof -
    have "5 dvd 9223372036854775808 * q" using \<open>5 * unat minRTT = 9223372036854775808 * q\<close> by (metis dvd_triv_left)
    moreover have "9223372036854775808 * q = 5 * (1844674407370955161 * q) + 3 * q" by simp
    ultimately have "5 dvd 3 * q" by (metis dvd_add_right_iff dvd_triv_left)
    then show ?thesis by presburger
  qed
  ultimately show False using assms(2) by (auto elim!: dvdE)
qed

lemma htcp_scale_returns:
  assumes "minRTT \<noteq> 0" and "unat minRTT < 2305843009213693952"
  shows "\<exists>f. htcp_scale minRTT factor = Some f"
proof -
  have "unat (min (max scale (push_bit 2 1)) (push_bit 3 10)) = min (max (unat scale) 4) 80" for scale :: u32
    by (simp add: unat_min_word unat_max_word)
  then have "min (max scale (push_bit 2 1)) (push_bit 3 10) \<noteq> 0" for scale :: u32
    unfolding word_neq_0_unat by simp
  then show ?thesis using ten_times_nonzero [OF assms] unfolding htcp_scale_def cdiv_def by auto
qed

lemma htcp_alpha_update_returns:
  assumes "unat (h_minRTT ca) < 2305843009213693952"
  shows "\<exists>a. htcp_alpha_update P k ca = Some (ca\<lparr>h_alpha := a\<rparr>) \<and> a \<noteq> 0"
proof -
  define fc where "fc = (if HZ < htcp_cong_time k ca then
      let diff = htcp_cong_time k ca - HZ
      in 1 + (10 * diff + ((diff div 2) * (diff div 2) div HZ)) div HZ else 1)"
  obtain f where f: "(if use_rtt_scaling P \<noteq> 0 \<and> h_minRTT ca \<noteq> 0 then htcp_scale (h_minRTT ca) fc
      else Some fc) = Some f"
    using htcp_scale_returns [OF _ assms, of fc]
    by (cases "use_rtt_scaling P \<noteq> 0 \<and> h_minRTT ca \<noteq> 0") auto
  let ?a = "2 * f * (push_bit 7 1 - u8_u32 (h_beta ca))"
  have "htcp_alpha_update P k ca = Some (ca\<lparr>h_alpha := (if ?a = 0 then 128 else ?a)\<rparr>)"
    unfolding htcp_alpha_update_def Let_def [where s = "h_minRTT ca"] Let_def [where s = "htcp_cong_time k ca"]
      fc_def [symmetric] Let_def [where s = fc] f bind.bind_lunit Let_def [where s = ?a] htcp_consts ..
  then show ?thesis by (intro exI conjI) (assumption, simp)
qed

lemma htcp_beta_update_returns:
  "\<exists>ca'. htcp_beta_update P ca mn mx = Some ca' \<and> 64 \<le> unat (h_beta ca') \<and> unat (h_beta ca') \<le> 102
     \<and> h_minRTT ca' = h_minRTT ca \<and> h_alpha ca' = h_alpha ca \<and> last_cong ca' = last_cong ca
     \<and> undo_last_cong ca' = undo_last_cong ca \<and> undo_maxRTT ca' = undo_maxRTT ca
     \<and> undo_old_maxB ca' = undo_old_maxB ca"
  by (simp add: htcp_beta_update_def Let_def htcp_consts cdiv_def word_less_nat_alt)

lemma htcp_param_update_returns:
  assumes "htcp_ok ca"
  shows "\<exists>ca'. htcp_param_update P k ca = Some ca' \<and> htcp_ok ca' \<and> h_minRTT ca' = h_minRTT ca
     \<and> undo_last_cong ca' = undo_last_cong ca \<and> undo_maxRTT ca' = undo_maxRTT ca
     \<and> undo_old_maxB ca' = undo_old_maxB ca"
proof -
  obtain c1 where c1: "htcp_beta_update P ca (h_minRTT ca) (maxRTT ca) = Some c1"
      "64 \<le> unat (h_beta c1)" "unat (h_beta c1) \<le> 102" "h_minRTT c1 = h_minRTT ca"
      "undo_last_cong c1 = undo_last_cong ca" "undo_maxRTT c1 = undo_maxRTT ca"
      "undo_old_maxB c1 = undo_old_maxB ca"
    using htcp_beta_update_returns by blast
  have "unat (h_minRTT c1) < 2305843009213693952" using assms c1(4) by (simp add: htcp_ok_def)
  then obtain a where a: "htcp_alpha_update P k c1 = Some (c1\<lparr>h_alpha := a\<rparr>)" "a \<noteq> 0"
    using htcp_alpha_update_returns by blast
  show ?thesis using assms c1 a
    by (simp add: htcp_param_update_def Let_def htcp_ok_def)
qed

text \<open>What remains of the window after a loss: between a half and four fifths.\<close>

lemma htcp_recalc_ssthresh_val:
  assumes "htcp_ok (icsk_ca_priv tp)" and "unat (snd_cwnd tp) < win_limit"
  shows "\<exists>w ca. htcp_recalc_ssthresh P k tp = Some (max w 2, upd_ca (\<lambda>_. ca) tp) \<and> htcp_ok ca
    \<and> unat w = unat (snd_cwnd tp) * unat (h_beta ca) div 128
    \<and> unat (snd_cwnd tp) div 2 \<le> unat w \<and> 5 * unat w \<le> 4 * unat (snd_cwnd tp)"
proof -
  let ?c = "unat (snd_cwnd tp)"
  obtain ca where ca: "htcp_param_update P k (icsk_ca_priv tp) = Some ca" "htcp_ok ca"
    using htcp_param_update_returns [OF assms(1)] by blast
  let ?b = "unat (h_beta ca)"
  have b: "64 \<le> ?b" "?b \<le> 102" using ca(2) by (simp_all add: htcp_ok_def)
  have "?c * ?b \<le> 2147483648 * 102" using assms(2) b(2) unfolding win_limit_def by (intro mult_le_mono) linarith+
  then have "unat (snd_cwnd tp * u8_u32 (h_beta ca)) = ?c * ?b"
    using unat_mult_small [of "snd_cwnd tp" "u8_u32 (h_beta ca)"] unfolding unat_u8_u32 by linarith
  then have v: "unat (drop_bit 7 (snd_cwnd tp * u8_u32 (h_beta ca))) = ?c * ?b div 128"
    unfolding unat_shift by simp
  from b [THEN mult_le_mono2, of ?c, THEN div_le_mono, of 128]
  have "?c div 2 \<le> ?c * ?b div 128" "5 * (?c * ?b div 128) \<le> 4 * ?c" by linarith+
  then show ?thesis using ca v
    by (intro exI [of _ "drop_bit 7 (snd_cwnd tp * u8_u32 (h_beta ca))"] exI [of _ ca])
      (simp add: htcp_recalc_ssthresh_def)
qed

lemma htcp_ssthresh_yields:
  assumes "sock_ok win_limit tp" and "htcp_ok (icsk_ca_priv tp)"
  shows "yields win_limit htcp_ok tp (htcp_recalc_ssthresh P k tp)"
proof -
  note c = sock_okD(4) [OF assms(1)]
  obtain w ca where w: "htcp_recalc_ssthresh P k tp = Some (max w 2, upd_ca (\<lambda>_. ca) tp)" "htcp_ok ca"
      "5 * unat w \<le> 4 * unat (snd_cwnd tp)"
    using htcp_recalc_ssthresh_val [OF assms(2) c] by blast
  have "unat w < win_limit" using w(3) c by linarith
  then show ?thesis unfolding w(1) using assms w(2) by (intro yields_max2) simp_all
qed

lemma measure_rtt_returns:
  assumes "htcp_ok (icsk_ca_priv tp)" and "8 \<le> unat (srtt tp)"
  shows "\<exists>ca. measure_rtt k tp = Some (upd_ca (\<lambda>_. ca) tp) \<and> htcp_ok ca \<and> h_minRTT ca \<noteq> 0"
proof -
  let ?s = "drop_bit 3 (srtt tp)" and ?ca = "icsk_ca_priv tp"
  have s: "unat ?s = unat (srtt tp) div 8" unfolding unat_shift by simp
  have s1: "0 < unat ?s" "unat ?s < 2305843009213693952"
    unfolding s using assms(2) unat_u32_bound [of "srtt tp"] by linarith+
  define c1 where "c1 = (if ?s < h_minRTT ?ca \<or> h_minRTT ?ca = 0 then ?ca\<lparr>h_minRTT := ?s\<rparr> else ?ca)"
  have nz: "?s \<noteq> 0" unfolding word_neq_0_unat by (rule s1(1))
  have c1: "htcp_ok c1" "h_minRTT c1 \<noteq> 0"
    using assms(1) s1(2) nz unfolding c1_def htcp_ok_def by (simp_all split: if_split)
  have up: "htcp_ok (ca\<lparr>maxRTT := m\<rparr>) = htcp_ok ca" for ca m by (simp add: htcp_ok_def)
  have "\<exists>ca. (if icsk_ca_state tp = TCP_CA_Open \<and> snd_ssthresh tp < 0xFFFF then
      htcp_ccount k c1 \<bind> (\<lambda>n. Some (if 3 < n then
        let ca = if maxRTT c1 < h_minRTT c1 then c1\<lparr>maxRTT := h_minRTT c1\<rparr> else c1
        in if maxRTT ca < ?s \<and> ?s \<le> maxRTT ca + msecs_to_jiffies 20 then ca\<lparr>maxRTT := ?s\<rparr> else ca
      else c1)) else Some c1) = Some ca \<and> htcp_ok ca \<and> h_minRTT ca \<noteq> 0"
    using c1 by (simp add: htcp_ccount_def cdiv_def Let_def up)
  then show ?thesis
    unfolding measure_rtt_def Let_def [where s = ?s] Let_def [where s = ?ca] Let_def [where s = c1]
      c1_def [symmetric] by fastforce
qed

lemma htcp_bandwidth_returns:
  assumes "h_minRTT ca \<le> tcp_time_stamp k - lasttime ca" and "0 < h_minRTT ca"
  shows "\<exists>ca'. htcp_bandwidth k ca = Some ca' \<and> htcp_ok ca' = htcp_ok ca"
proof -
  have nz: "h_minRTT ca \<noteq> 0" "tcp_time_stamp k - lasttime ca \<noteq> 0"
    using assms less_le_trans [OF assms(2,1)] by auto
  show ?thesis
    unfolding htcp_bandwidth_def Let_def htcp_ccount_def cdiv_def
    using nz by (simp add: htcp_ok_def)
qed

lemma htcp_acked_keeps:
  assumes "sock_ok L tp" and "htcp_ok (icsk_ca_priv tp)"
  shows "keeps L htcp_ok tp (measure_achieved_throughput P k tp n ts)"
proof -
  define c1 where "c1 = (if icsk_ca_state tp = TCP_CA_Open
    then (icsk_ca_priv tp)\<lparr>h_pkts_acked := u32_u16 n\<rparr> else icsk_ca_priv tp)"
  have c1: "htcp_ok c1" using assms(2) by (simp add: c1_def htcp_ok_def)
  define c2 where "c2 = c1\<lparr>packetcount := packetcount c1 + n\<rparr>"
  have c2: "htcp_ok c2" "htcp_ok (c1\<lparr>packetcount := 0, lasttime := tcp_time_stamp k\<rparr>)"
    using c1 by (simp_all add: c2_def htcp_ok_def)
  have "\<exists>ca. measure_achieved_throughput P k tp n ts = Some (upd_ca (\<lambda>_. ca) tp) \<and> htcp_ok ca"
    unfolding measure_achieved_throughput_def Let_def c1_def [symmetric] c2_def [symmetric]
    using c1 c2 htcp_bandwidth_returns [of c2 k] by auto blast+
  then show ?thesis using assms(1) by auto
qed

lemma htcp_cong_avoid_keeps:
  assumes "sock_ok L tp" and "htcp_ok (icsk_ca_priv tp)" and "path_ok R k tp"
  shows "keeps L htcp_ok tp (htcp_cong_avoid P k tp ack rtt in_flight d)"
proof -
  obtain c where c: "measure_rtt k tp = Some (upd_ca (\<lambda>_. c) tp)" "htcp_ok c"
    using measure_rtt_returns [OF assms(2)] assms(3) by (auto simp: path_ok_def)
  obtain a where a: "htcp_alpha_update P k c = Some (c\<lparr>h_alpha := a\<rparr>)" "a \<noteq> 0"
    using htcp_alpha_update_returns [of c P k] c(2) by (auto simp: htcp_ok_def)
  have "sock_ok L (inc_cwnd_clamped (upd_ca (\<lambda>_. c) tp))" using assms(1) by (intro inc_cwnd_clamped_ok) simp
  then show ?thesis using assms c a
    by (simp add: htcp_cong_avoid_def tcp_slow_start_keeps Let_def) (simp add: htcp_ok_def)
qed

lemma htcp_state_keeps:
  "sock_ok L sk \<Longrightarrow> htcp_ok (icsk_ca_priv sk) \<Longrightarrow> keeps L htcp_ok sk (htcp_state k sk st)"
  by (cases st) (simp_all add: htcp_state_def htcp_reset_def htcp_ok_def)

lemma htcp_init_keeps: "sock_ok L sk \<Longrightarrow> keeps L htcp_ok sk (htcp_init k sk)"
  by (simp add: htcp_init_def htcp_ok_def htcp_consts)

interpretation htcp: cong_control win_limit R "htcp_ops P" htcp_ok
  by unfold_locales
    (auto simp: cc_init_def cc_ssthresh_def cc_min_cwnd_def cc_cong_avoid_def cc_cwnd_event_def
      cc_pkts_acked_def null_ops_def htcp_ops_def htcp_ssthresh_yields htcp_cong_avoid_keeps
      htcp_init_keeps htcp_state_keeps htcp_acked_keeps intro!: set_ca_state_keeps dest: sock_okD)

text \<open>A loss that turns out to be spurious: undoing it restores the estimates of the path.\<close>

lemma htcp_undo_restores:
  assumes "htcp_ok (icsk_ca_priv sk)" and "st = TCP_CA_CWR \<or> st = TCP_CA_Recovery \<or> st = TCP_CA_Loss"
  shows "\<exists>sk1 w sk2 u sk3. htcp_state k sk st = Some sk1 \<and> htcp_recalc_ssthresh P k sk1 = Some (w, sk2)
     \<and> htcp_cwnd_undo k' sk2 = Some (u, sk3) \<and> snd_cwnd sk \<le> u
     \<and> last_cong (icsk_ca_priv sk3) = last_cong (icsk_ca_priv sk)
     \<and> maxRTT (icsk_ca_priv sk3) = maxRTT (icsk_ca_priv sk)
     \<and> old_maxB (icsk_ca_priv sk3) = old_maxB (icsk_ca_priv sk)"
proof -
  let ?ca = "htcp_reset k (icsk_ca_priv sk)"
  have s1: "htcp_state k sk st = Some (upd_ca (htcp_reset k) sk)" using assms(2) by (auto simp: htcp_state_def)
  have "htcp_ok ?ca" using assms(1) by (simp add: htcp_reset_def htcp_ok_def)
  then obtain c where c: "htcp_param_update P k ?ca = Some c" "htcp_ok c"
      "undo_last_cong c = undo_last_cong ?ca" "undo_maxRTT c = undo_maxRTT ?ca"
      "undo_old_maxB c = undo_old_maxB ?ca"
    using htcp_param_update_returns by blast
  have nz: "u8_u32 (h_beta c) \<noteq> 0" unfolding word_neq_0_unat using c(2) by (simp add: htcp_ok_def)
  show ?thesis unfolding s1 using c nz
    by (simp add: htcp_recalc_ssthresh_def htcp_cwnd_undo_def cdiv_def Let_def htcp_reset_def)
qed

end
