(* ===== verification/Agent_Modules.thy ===== *)
theory Agent_Modules
  imports Linux_Sender Tcp_Naive_Reno Tcp_Scalable Tcp_Highspeed Tcp_Bic Tcp_Cubic Tcp_Hybla Tcp_Veno
    Tcp_Vegas Tcp_Lp Tcp_Htcp
begin

text \<open>
  The agent with each module that satisfies the whole contract: the client's locale
  \<open>agent_control\<close> interpreted on the module's table, with round-trip samples up to 32767 ticks
  (the range in which the \<open>short\<close> of \<open>rtt_update\<close> is exact) and \<open>tcp_max_burst = 3\<close>. For
  Hybla the samples are limited to 774 ticks: beyond, its shift is undefined
  (\<open>hybla_long_path_traps\<close>). Westwood, whose bandwidth estimate is not below \<open>2 ^ 31\<close>,
  Illinois and YeAH, whose contracts lack a part, and Compound are not here.
\<close>

interpretation naive_reno_agent: agent_control 262144 "tcp_naive_reno naive_reno_default" "\<lambda>_. True" 32767 3
  by unfold_locales (simp_all add: tcp_naive_reno_def null_ops_def)

interpretation scalable_agent: agent_control 262144 tcp_scalable "\<lambda>_. True" 32767 3
  by unfold_locales (simp_all add: tcp_scalable_def null_ops_def)

interpretation highspeed_agent: agent_control 262144 tcp_highspeed hstcp_ok 32767 3
  by unfold_locales (simp_all add: tcp_highspeed_def null_ops_def)

interpretation bic_agent: agent_control 262144 "bic_ops bic_default" bictcp_ok 32767 3
  by unfold_locales (simp_all add: bic_ops_def null_ops_def)

interpretation cubic_agent: agent_control 262144 "cubictcp cubic_registered" cubic_ok 32767 3
  by unfold_locales (simp_all add: cubictcp_def null_ops_def)

interpretation hybla_agent: agent_control "hybla_srtt_limit hybla_default" "tcp_hybla hybla_default" hybla_ok 774 3
  by unfold_locales (simp_all add: tcp_hybla_def null_ops_def hybla_srtt_limit_def hybla_default_def)

interpretation veno_agent: agent_control 262144 tcp_veno veno_ok 32767 3
  by unfold_locales (simp_all add: tcp_veno_def null_ops_def)

interpretation vegas_agent: agent_control 262144 "tcp_vegas P" vegas_ok 32767 3
  by unfold_locales (simp_all add: tcp_vegas_def null_ops_def)

interpretation lp_agent: agent_control 262144 tcp_lp "\<lambda>_. True" 32767 3
  by unfold_locales (simp_all add: tcp_lp_def null_ops_def)

interpretation htcp_agent: agent_control 262144 "htcp_ops P" htcp_ok 32767 3
  by unfold_locales (simp_all add: htcp_ops_def null_ops_def)

end
