(* ===== verification/Linux_Recovery.thy ===== *)
theory Linux_Recovery
  imports Agent_Modules
begin

text \<open>
  Fast recovery of the TCP-Linux agent (\<open>tcp/tcp-linux.cc\<close>) over runs of its handlers: from the
  acknowledgment that cuts the window to the one that ends the recovery. The client's locale is
  extended by what the window needs of a module here: its notifications (\<open>pkts_acked\<close>,
  \<open>cwnd_event\<close> on an acknowledgment) leave the window, the threshold and the state alone. It is
  interpreted on the modules of \<open>Agent_Modules\<close> except TCP-LP, whose \<open>pkts_acked\<close> sets the
  window.
\<close>

definition same_window :: "'p tcp_sock \<Rightarrow> 'p tcp_sock \<Rightarrow> bool" where
  "same_window sk sk' \<longleftrightarrow> snd_cwnd sk' = snd_cwnd sk \<and> snd_ssthresh sk' = snd_ssthresh sk
     \<and> icsk_ca_state sk' = icsk_ca_state sk"

lemma same_window_refl [simp, intro]: "same_window sk sk"
  by (simp add: same_window_def)

lemma same_window_trans [trans]: "same_window a b \<Longrightarrow> same_window b c \<Longrightarrow> same_window a c"
  by (simp add: same_window_def)

lemma same_window_simps [simp]:
  "same_window sk (upd_ca f sk') = same_window sk sk'"
  "same_window sk (sk'\<lparr>icsk_ca_priv := p\<rparr>) = same_window sk sk'"
  "same_window sk (sk'\<lparr>bytes_acked := b\<rparr>) = same_window sk sk'"
  "same_window sk (sk'\<lparr>snd_una := n\<rparr>) = same_window sk sk'"
  "same_window sk (sk'\<lparr>snd_nxt := n\<rparr>) = same_window sk sk'"
  "same_window sk (sk'\<lparr>srtt := n\<rparr>) = same_window sk sk'"
  "same_window sk (sk'\<lparr>rx_opt := x\<rparr>) = same_window sk sk'"
  by (simp_all add: same_window_def)

lemma int_u32_inj: "int_u32 (x + 1) = int_u32 (y + 1) \<Longrightarrow> x = y"
proof -
  assume e: "int_u32 (x + 1) = int_u32 (y + 1)"
  have "x + 1 = y + 1"
  proof (rule bit_word_eqI)
    fix n assume "n < LENGTH(32)"
    then show "bit (x + 1) n = bit (y + 1) n"
      using arg_cong [OF e, of "\<lambda>w. bit w n"] by (cases "n = 31") (simp_all add: bit_signed_iff min_def split: if_splits)
  qed
  then show ?thesis by simp
qed

text \<open>The agent between the cut and the end of the recovery, with the window \<open>w\<close> and threshold \<open>h\<close>.\<close>

definition recovering :: "cint \<Rightarrow> u32 \<Rightarrow> u32 \<Rightarrow> 'p agent \<Rightarrow> bool" where
  "recovering r w h ag \<longleftrightarrow> icsk_ca_state (ag_linux ag) = TCP_CA_Recovery \<and> ag_recover ag = r
     \<and> snd_cwnd (ag_linux ag) = w \<and> snd_ssthresh (ag_linux ag) = h \<and> sint (ag_highest_ack ag) < sint r"

text \<open>The events of one window: acknowledgments below \<open>r\<close> and transmissions, but no timeout.\<close>

fun below :: "cint \<Rightarrow> agent_event \<Rightarrow> bool" where
  "below r (Ack k av) \<longleftrightarrow> sint (av_seqno av) < sint r"
| "below r (Timeout k) \<longleftrightarrow> False"
| "below r (Send k n) \<longleftrightarrow> True"

lemma ack_flags_acked: "(ack_flags av p a AND FLAG_DATA_ACKED = 0) = (\<not> p < a)"
  by (simp add: ack_flags_def FLAG_ECE_def FLAG_DATA_ACKED_def)

lemma ack_sequence_control:
  assumes "ack_sequence av p a ag = (flag, ag')"
  shows "same_window (ag_linux ag) (ag_linux ag')" and "ag_recover ag' = ag_recover ag"
    and "ag_highest_ack ag' = (if p < a then av_seqno av else ag_highest_ack ag)"
  using assms ack_flags_acked [of av p a]
  by (auto simp: ack_sequence_def ack_processing_def Let_def split: if_splits)

lemma ack_notify_control:
  assumes "ack_notify ops k av flag num ag = Some ag'" and "ag_initialized ag"
    and "\<And>sk n ts sk'. cc_pkts_acked ops k sk n ts = Some sk' \<Longrightarrow> same_window sk sk'"
    and "\<And>sk ev sk'. cc_cwnd_event ops k sk ev = Some sk' \<Longrightarrow> ev = CA_EVENT_FAST_ACK \<or> ev = CA_EVENT_SLOW_ACK
      \<Longrightarrow> same_window sk sk'"
  shows "same_window (ag_linux ag) (ag_linux ag')" and "ag_recover ag' = ag_recover ag" and "ag_highest_ack ag' = ag_highest_ack ag"
proof -
  obtain s1 where s1: "(if flag AND FLAG_NOT_DUP \<noteq> 0
      then cc_pkts_acked ops k (ag_linux ag) num (if flag AND FLAG_UNSURE_TSTAMP \<noteq> 0 then 0 else av_last_ackt av)
      else Some (ag_linux ag)) = Some s1"
    and s2: "(cc_cwnd_event ops k s1 (if icsk_ca_state s1 = TCP_CA_Open \<and> flag AND FLAG_CA_ALERT = 0 \<and> flag AND FLAG_NOT_DUP \<noteq> 0
        then CA_EVENT_FAST_ACK else CA_EVENT_SLOW_ACK)) \<bind> (\<lambda>sk. Some (ag\<lparr>ag_linux := sk, ag_initialized := True\<rparr>)) = Some ag'"
    using assms(1,2) unfolding ack_notify_def by (auto split: Option.bind_splits)
  have w1: "same_window (ag_linux ag) s1"
    using s1 assms(3) by (auto split: if_splits)
  obtain s3 where s3: "cc_cwnd_event ops k s1 (if icsk_ca_state s1 = TCP_CA_Open \<and> flag AND FLAG_CA_ALERT = 0 \<and> flag AND FLAG_NOT_DUP \<noteq> 0
        then CA_EVENT_FAST_ACK else CA_EVENT_SLOW_ACK) = Some s3" and a: "ag' = ag\<lparr>ag_linux := s3, ag_initialized := True\<rparr>"
    using s2 by (auto split: Option.bind_splits)
  have "same_window s1 s3" by (rule assms(4) [OF s3]) simp
  then show "same_window (ag_linux ag) (ag_linux ag')" using same_window_trans [OF w1] by (simp add: a)
  show "ag_recover ag' = ag_recover ag" "ag_highest_ack ag' = ag_highest_ack ag" by (simp_all add: a)
qed

locale quiet_control = agent_control R ops pinv M burst
  for R :: nat and ops :: "'p tcp_congestion_ops" and pinv :: "'p \<Rightarrow> bool" and M :: nat and burst :: cint +
  assumes quiet_acked: "cc_pkts_acked ops k sk n ts = Some sk' \<Longrightarrow> same_window sk sk'"
    and quiet_event: "cc_cwnd_event ops k sk ev = Some sk' \<Longrightarrow> ev = CA_EVENT_FAST_ACK \<or> ev = CA_EVENT_SLOW_ACK
      \<Longrightarrow> same_window sk sk'"
begin

lemma rtt_update_control:
  "rtt_update ops k r ag = Some ag' \<Longrightarrow> same_window (ag_linux ag) (ag_linux ag')
    \<and> ag_recover ag' = ag_recover ag \<and> ag_highest_ack ag' = ag_highest_ack ag"
  by (auto simp: rtt_update_def cc_rtt_sample_def no_rtt_sample Let_def split: prod.splits)

lemma time_processing_control:
  "time_processing ops k av ag = Some ag' \<Longrightarrow> same_window (ag_linux ag) (ag_linux ag')
    \<and> ag_recover ag' = ag_recover ag \<and> ag_highest_ack ag' = ag_highest_ack ag"
  by (auto simp: time_processing_def Let_def upd_rx_opt_def split: option.splits dest!: rtt_update_control)
    (simp_all add: same_window_def)

lemma recv_ignored: "ignored av ag \<Longrightarrow> recv burst ops k av ag = Some ag"
  unfolding recv_def ignored_def Let_def by (elim disjE) simp_all

text \<open>What \<open>recv\<close> does before it looks at the window.\<close>

lemma recv_before_window:
  assumes "agent_ok M pinv t ag" and "ag_initialized ag" and "unat t \<le> unat (tcp_time_stamp k)"
    and "unat (tcp_time_stamp k) < 2 ^ 50" and "ack_ok M k av" and "\<not> ignored av ag"
  obtains flag ag1 where "recv burst ops k av ag = ack_window burst ops k av flag (int_u32 (av_seqno av + 1)) ag1"
    and "agent_ok M pinv (tcp_time_stamp k) ag1" and "ag_initialized ag1" and "same_window (ag_linux ag) (ag_linux ag1)"
    and "ag_recover ag1 = ag_recover ag"
    and "ag_highest_ack ag1 = (if int_u32 (ag_highest_ack ag + 1) < int_u32 (av_seqno av + 1) then av_seqno av else ag_highest_ack ag)"
proof -
  define p a where "p = int_u32 (ag_highest_ack ag + 1)" and "a = int_u32 (av_seqno av + 1)"
  obtain flag ag1 where 1: "ack_sequence av p a ag = (flag, ag1)" by (cases "ack_sequence av p a ag")
  note ok1 = ack_sequence_ok [OF assms(1) 1] and c1 = ack_sequence_control [OF 1]
  have "ag_initialized ag1 \<or> av_ts av \<noteq> None \<or> av_timed av \<noteq> None" using assms(2) ok1(2) by simp
  from time_processing_ok [OF ok1(1) assms(3,5) this] obtain ag2 where
    2: "time_processing ops k av ag1 = Some ag2" "agent_ok M pinv (tcp_time_stamp k) ag2" "ag_initialized ag2" "ag_t_srtt ag2 \<noteq> 0"
    using assms(2) ok1(2) by auto
  note c2 = time_processing_control [OF 2(1)]
  have s: "0 \<le> sint (av_seqno av)" "sint (av_seqno av) < 2147483647" "sample_ok k (av_last_ackt av)"
    using assms(5) by (simp_all add: ack_ok_def)
  have "sint (av_seqno av + 1) = sint (av_seqno av) + 1" using s by (subst sint_add_small) simp_all
  then have "unat a < 4294967296" unfolding a_def using s by (subst unat_int_u32) linarith+
  moreover have "unat (a - p) \<le> unat a"
    using assms(6) unat_sub_le [of p a] by (simp add: ignored_def p_def a_def linorder_not_less)
  ultimately have n: "unat (a - p) < 4294967296" by linarith
  obtain ag3 where 3: "ack_notify ops k av flag (a - p) ag2 = Some ag3" "agent_ok M pinv (tcp_time_stamp k) ag3" "ag_initialized ag3"
    using ack_notify_ok [OF 2(2,4) assms(4) n s(3), of flag] by (auto simp: run_ok_def)
  have c3: "same_window (ag_linux ag2) (ag_linux ag3)" "ag_recover ag3 = ag_recover ag2" "ag_highest_ack ag3 = ag_highest_ack ag2"
    by (rule ack_notify_control [OF 3(1) 2(3)]; blast intro: quiet_acked quiet_event)+
  have "recv burst ops k av ag = ack_window burst ops k av flag a ag3"
    using assms(6) 1 2(1) 3(1) by (simp add: recv_def ignored_def Let_def p_def [symmetric] a_def [symmetric])
  moreover have "same_window (ag_linux ag) (ag_linux ag3)"
    using c1(1) c2 c3(1) by (simp add: same_window_def)
  moreover have "ag_recover ag3 = ag_recover ag" using c1(2) c2 c3(2) by simp
  moreover have "ag_highest_ack ag3 = (if p < a then av_seqno av else ag_highest_ack ag)" using c1(3) c2 c3(3) by simp
  ultimately show ?thesis using that 3(2,3) unfolding p_def a_def by blast
qed

text \<open>In recovery, an event of the same window changes neither the window nor the threshold.\<close>

lemma recovering_step:
  assumes "agent_ok M pinv t ag" and "ag_initialized ag" and "unat t \<le> unat (tcp_time_stamp (event_kernel e))"
    and "unat (tcp_time_stamp (event_kernel e)) < 2 ^ 50" and "event_ok M e" and "recovering r w h ag" and "below r e"
  shows "\<exists>ag'. agent_step burst ops e ag = Some ag' \<and> agent_ok M pinv (tcp_time_stamp (event_kernel e)) ag'
    \<and> ag_initialized ag' \<and> recovering r w h ag'"
proof (cases e)
  case (Ack k av)
  show ?thesis
  proof (cases "ignored av ag")
    case True
    then have "recv burst ops k av ag = Some ag" by (rule recv_ignored)
    then show ?thesis using assms(2,6) agent_ok_later [OF assms(1,3)] by (simp add: Ack)
  next
    case False
    have e: "unat t \<le> unat (tcp_time_stamp k)" "unat (tcp_time_stamp k) < 2 ^ 50" "ack_ok M k av"
      using assms(3-5) by (simp_all add: Ack)
    obtain flag ag1 where 1: "recv burst ops k av ag = ack_window burst ops k av flag (int_u32 (av_seqno av + 1)) ag1"
      "agent_ok M pinv (tcp_time_stamp k) ag1" "ag_initialized ag1" "same_window (ag_linux ag) (ag_linux ag1)"
      "ag_recover ag1 = ag_recover ag"
      "ag_highest_ack ag1 = (if int_u32 (ag_highest_ack ag + 1) < int_u32 (av_seqno av + 1) then av_seqno av else ag_highest_ack ag)"
      by (rule recv_before_window [OF assms(1,2) e False])
    have r: "recovering r w h ag1"
      using 1(4-6) assms(6,7) by (auto simp: Ack recovering_def same_window_def)
    then have "recv burst ops k av ag = Some ag1"
      unfolding 1(1) by (intro recovery_holds) (simp_all add: recovering_def)
    then show ?thesis using 1(2,3) r by (simp add: Ack)
  qed
next
  case (Timeout k)
  then show ?thesis using assms(7) by simp
next
  case (Send k n)
  have "run_ok M pinv (tcp_time_stamp k) (Some (send_new n ag))"
    using send_new_ok [OF assms(1,2)] assms(3) by (simp add: Send)
  moreover have "recovering r w h (send_new n ag)" using assms(6) by (simp add: recovering_def send_new_def Let_def)
  ultimately show ?thesis by (simp add: Send)
qed

lemma recovering_run:
  assumes "agent_ok M pinv t ag" and "ag_initialized ag" and "clock_ok t es" and "list_all (event_ok M) es"
    and "recovering r w h ag" and "list_all (below r) es"
  shows "\<exists>ag' t'. agent_run burst ops es ag = Some ag' \<and> agent_ok M pinv t' ag' \<and> ag_initialized ag' \<and> recovering r w h ag'
    \<and> t' = last (t # map (tcp_time_stamp \<circ> event_kernel) es)"
  using assms
proof (induction es arbitrary: t ag)
  case (Cons e es)
  from recovering_step [OF Cons.prems(1,2) _ _ _ Cons.prems(5), of e] Cons.prems(3,4,6)
  obtain ag1 where 1: "agent_step burst ops e ag = Some ag1" "agent_ok M pinv (tcp_time_stamp (event_kernel e)) ag1"
    "ag_initialized ag1" "recovering r w h ag1" by auto
  then show ?case using Cons.IH [OF 1(2,3) _ _ 1(4)] Cons.prems(3,4,6) by simp
qed simp

text \<open>The cut records the highest sequence number sent.\<close>

lemma cut_records:
  assumes "agent_ok M pinv t ag" and "ag_initialized ag" and "unat t \<le> unat (tcp_time_stamp k)"
    and "unat (tcp_time_stamp k) < 2 ^ 50" and "ack_ok M k av"
    and "icsk_ca_state (ag_linux ag) \<noteq> TCP_CA_Recovery" and "recv burst ops k av ag = Some ag'"
    and "icsk_ca_state (ag_linux ag') = TCP_CA_Recovery"
  shows "ag_recover ag' = ag_maxseq ag'"
proof -
  have "\<not> ignored av ag" using assms(6-8) recv_ignored [of av ag k] by auto
  then obtain flag a ag1 where 1: "recv burst ops k av ag = ack_window burst ops k av flag a ag1"
    "agent_ok M pinv (tcp_time_stamp k) ag1" "ag_initialized ag1" "same_window (ag_linux ag) (ag_linux ag1)"
    using recv_before_window [OF assms(1-5)] by metis
  have s1: "icsk_ca_state (ag_linux ag1) \<noteq> TCP_CA_Recovery" using 1(4) assms(6) by (simp add: same_window_def)
  have c: "icsk_ca_state (ag_linux ag2) = icsk_ca_state (ag_linux ag1)"
    if "agent_cong_avoid ops k a av good ag1 = Some ag2" for good ag2
  proof -
    have "keeps win_limit pinv (ag_linux ag1) (cc_cong_avoid ops k (ag_linux ag1) (a * mss_cache (ag_linux ag1)) (av_seq_rtt av)
        (int_u32 (av_prior_in_flight av)) good)"
      using 1(2,3) agent_okD [OF 1(2)] ok_path_now [OF 1(2) agent_okD(3) [OF 1(2,3)] assms(4)] by (intro cong_avoid_ok) simp_all
    then show ?thesis
      using that by (auto simp: agent_cong_avoid_def Let_def keeps_def same_path_def touch_cwnd_def)
  qed
  have f: "ag_recover ag3 = ag_maxseq ag3"
    if "tcp_fastretrans_alert burst ops k p flag ag2 = Some ag3" "icsk_ca_state (ag_linux ag2) \<noteq> TCP_CA_Recovery"
      "icsk_ca_state (ag_linux ag3) = TCP_CA_Recovery" for p ag2 ag3
    using that
    by (auto simp: tcp_fastretrans_alert_def agent_reduce_def tcp_set_ca_state_def Let_def
        split: if_splits Option.bind_splits option.splits prod.splits)
  show ?thesis
    using assms(7,8) s1 unfolding 1(1) ack_window_def
    by (auto split: if_splits Option.bind_splits dest!: c intro: f)
qed

text \<open>The first acknowledgment of everything sent before the cut ends the recovery.\<close>

lemma recovery_ends:
  assumes "agent_ok M pinv t ag" and "ag_initialized ag" and "unat t \<le> unat (tcp_time_stamp k)"
    and "unat (tcp_time_stamp k) < 2 ^ 50" and "ack_ok M k av" and "recovering r w h ag"
    and "\<not> ignored av ag" and "sint r \<le> sint (av_seqno av)"
  shows "\<exists>ag'. recv burst ops k av ag = Some ag' \<and> icsk_ca_state (ag_linux ag') = TCP_CA_Open"
proof -
  obtain flag a ag1 where 1: "recv burst ops k av ag = ack_window burst ops k av flag a ag1"
    "agent_ok M pinv (tcp_time_stamp k) ag1" "ag_initialized ag1" "same_window (ag_linux ag) (ag_linux ag1)"
    "ag_recover ag1 = ag_recover ag"
    "ag_highest_ack ag1 = (if int_u32 (ag_highest_ack ag + 1) < int_u32 (av_seqno av + 1) then av_seqno av else ag_highest_ack ag)"
    by (rule recv_before_window [OF assms(1-5,7)])
  have "int_u32 (ag_highest_ack ag + 1) \<noteq> int_u32 (av_seqno av + 1)"
    using assms(6,8) int_u32_inj by (fastforce simp: recovering_def)
  then have "int_u32 (ag_highest_ack ag + 1) < int_u32 (av_seqno av + 1)" using assms(7) by (auto simp: ignored_def)
  then have h: "ag_highest_ack ag1 = av_seqno av" using 1(6) by simp
  have st: "icsk_ca_state (ag_linux ag1) = TCP_CA_Recovery" "ag_recover ag1 = r"
    using 1(4,5) assms(6) by (simp_all add: same_window_def recovering_def)
  have w: "recv burst ops k av ag = tcp_fastretrans_alert burst ops k (av_in_flight av) flag ag1"
    using st by (simp add: 1(1) ack_window_def tcp_may_raise_cwnd_def)
  have "run_ok M pinv (tcp_time_stamp k) (tcp_fastretrans_alert burst ops k (av_in_flight av) flag ag1)"
    using assms(5) by (intro tcp_fastretrans_alert_ok 1(2,3) assms(4)) (simp_all add: ack_ok_def)
  then obtain ag2 where 2: "tcp_fastretrans_alert burst ops k (av_in_flight av) flag ag1 = Some ag2" by (auto simp: run_ok_def)
  then have "icsk_ca_state (ag_linux ag2) = TCP_CA_Open"
    using st h assms(8) by (auto simp: tcp_fastretrans_alert_def tcp_set_ca_state_def Let_def split: Option.bind_splits option.splits)
  then show ?thesis using w 2 by simp
qed

text \<open>From the cut to the end of the recovery.\<close>

lemma clock_append: "clock_ok t (es @ es') \<longleftrightarrow> clock_ok t es \<and> clock_ok (last (t # map (tcp_time_stamp \<circ> event_kernel) es)) es'"
  by (induction es arbitrary: t) simp_all

lemma recovery_spans_window:
  assumes "agent_ok M pinv t ag" and "ag_initialized ag" and "icsk_ca_state (ag_linux ag) \<noteq> TCP_CA_Recovery"
    and "recv burst ops k av ag = Some ag1" and "icsk_ca_state (ag_linux ag1) = TCP_CA_Recovery"
    and "sint (ag_highest_ack ag1) < sint (ag_maxseq ag1)"
    and "clock_ok t (Ack k av # es)" and "list_all (event_ok M) (Ack k av # es)" and "list_all (below (ag_maxseq ag1)) es"
  shows "\<exists>ag2. agent_run burst ops es ag1 = Some ag2 \<and> icsk_ca_state (ag_linux ag2) = TCP_CA_Recovery
    \<and> snd_cwnd (ag_linux ag2) = snd_cwnd (ag_linux ag1) \<and> snd_ssthresh (ag_linux ag2) = snd_ssthresh (ag_linux ag1)
    \<and> (\<forall>k' av'. clock_ok t (Ack k av # es @ [Ack k' av']) \<and> event_ok M (Ack k' av') \<and> \<not> ignored av' ag2
          \<and> sint (ag_maxseq ag1) \<le> sint (av_seqno av') \<longrightarrow>
        (\<exists>ag3. recv burst ops k' av' ag2 = Some ag3 \<and> icsk_ca_state (ag_linux ag3) = TCP_CA_Open))"
proof -
  let ?t1 = "tcp_time_stamp k"
  have e: "unat t \<le> unat ?t1" "unat ?t1 < 2 ^ 50" "ack_ok M k av" "clock_ok ?t1 es" "list_all (event_ok M) es"
    using assms(7,8) by simp_all
  have 1: "agent_ok M pinv ?t1 ag1" "ag_initialized ag1"
    using recv_ok [OF assms(1) e(1-3)] assms(2,4) by auto
  have "recovering (ag_maxseq ag1) (snd_cwnd (ag_linux ag1)) (snd_ssthresh (ag_linux ag1)) ag1"
    using cut_records [OF assms(1,2) e(1-3) assms(3-5)] assms(5,6) by (simp add: recovering_def)
  from recovering_run [OF 1 e(4,5) this assms(9)] obtain ag2 where
    2: "agent_run burst ops es ag1 = Some ag2" "agent_ok M pinv (last (?t1 # map (tcp_time_stamp \<circ> event_kernel) es)) ag2"
      "ag_initialized ag2" "recovering (ag_maxseq ag1) (snd_cwnd (ag_linux ag1)) (snd_ssthresh (ag_linux ag1)) ag2"
    by blast
  have "\<exists>ag3. recv burst ops k' av' ag2 = Some ag3 \<and> icsk_ca_state (ag_linux ag3) = TCP_CA_Open"
    if "clock_ok t (Ack k av # es @ [Ack k' av'])" "event_ok M (Ack k' av')" "\<not> ignored av' ag2"
      "sint (ag_maxseq ag1) \<le> sint (av_seqno av')" for k' av'
    using that clock_append [of ?t1 es "[Ack k' av']"] by (intro recovery_ends [OF 2(2,3) _ _ _ 2(4)]) simp_all
  then show ?thesis using 2(1,4) unfolding recovering_def by blast
qed

end

interpretation reno_recovery: quiet_control 262144 tcp_reno "\<lambda>_. True" 32767 3
  by unfold_locales (auto simp: cc_defs tcp_reno_def)

interpretation naive_reno_recovery: quiet_control 262144 "tcp_naive_reno naive_reno_default" "\<lambda>_. True" 32767 3
  by unfold_locales (auto simp: cc_defs tcp_naive_reno_def)

interpretation scalable_recovery: quiet_control 262144 tcp_scalable "\<lambda>_. True" 32767 3
  by unfold_locales (auto simp: cc_defs tcp_scalable_def)

interpretation highspeed_recovery: quiet_control 262144 tcp_highspeed hstcp_ok 32767 3
  by unfold_locales (auto simp: cc_defs tcp_highspeed_def)

interpretation bic_recovery: quiet_control 262144 "bic_ops bic_default" bictcp_ok 32767 3
  by unfold_locales (auto simp: cc_defs bic_ops_def bictcp_acked_def Let_def split: if_splits)

interpretation cubic_recovery: quiet_control 262144 "cubictcp cubic_registered" cubic_ok 32767 3
  by unfold_locales (auto simp: cc_defs cubictcp_def bictcp_acked_cubic_def Let_def split: if_splits)

interpretation hybla_recovery: quiet_control "hybla_srtt_limit hybla_default" "tcp_hybla hybla_default" hybla_ok 774 3
  by unfold_locales (auto simp: cc_defs tcp_hybla_def)

interpretation veno_recovery: quiet_control 262144 tcp_veno veno_ok 32767 3
  by unfold_locales
    (auto simp: cc_defs tcp_veno_def tcp_veno_pkts_acked_def tcp_veno_cwnd_event_def Let_def split: if_splits)

interpretation vegas_recovery: quiet_control 262144 "tcp_vegas P" vegas_ok 32767 3
  by unfold_locales
    (auto simp: cc_defs tcp_vegas_def tcp_vegas_pkts_acked_def tcp_vegas_cwnd_event_def Let_def split: if_splits)

interpretation htcp_recovery: quiet_control 262144 "htcp_ops P" htcp_ok 32767 3
  by unfold_locales
    (auto simp: cc_defs htcp_ops_def measure_achieved_throughput_def Let_def split: if_splits Option.bind_splits)

end
