(* ===== verification/Tcp_Yeah.thy ===== *)
theory Tcp_Yeah
  imports Tcp_Vegas
begin

text \<open>
  \<open>tcp/linux/src/tcp_yeah.c\<close>: YeAH TCP. It grows the window like Scalable TCP while the
  estimated queue is short and like Reno otherwise, and gives segments back when the queue grows
  (early decongestion). Its struct starts with \<open>struct vegas\<close> and it uses the Vegas
  operations. The lemmas show that the operations on acknowledgments keep the socket good, what
  early decongestion and the reaction to a loss compute, and that the threshold after a loss
  has no lower bound of two segments: it can be 0 and can wrap around.
\<close>

definition TCP_YEAH_ALPHA :: u32 where "TCP_YEAH_ALPHA = 80"
definition TCP_YEAH_GAMMA :: u32 where "TCP_YEAH_GAMMA = 1"
definition TCP_YEAH_DELTA :: nat where "TCP_YEAH_DELTA = 3"
definition TCP_YEAH_EPSILON :: nat where "TCP_YEAH_EPSILON = 1"
definition TCP_YEAH_PHY :: u32 where "TCP_YEAH_PHY = 8"
definition TCP_YEAH_RHO :: u32 where "TCP_YEAH_RHO = 16"
definition TCP_YEAH_ZETA :: u32 where "TCP_YEAH_ZETA = 50"
definition TCP_SCALABLE_AI_CNT_yeah :: u32 where "TCP_SCALABLE_AI_CNT_yeah = 100"

record yeah = vegas +
  lastQ :: u32
  doing_reno_now :: u32
  reno_count :: u32
  fast_count :: u32
  yh_pkts_acked :: u32

definition tcp_yeah_init :: "kernel \<Rightarrow> yeah tcp_sock \<Rightarrow> yeah tcp_sock option" where
  "tcp_yeah_init k tp = do {
     tp \<leftarrow> tcp_vegas_init k tp;
     let tp = upd_ca (\<lambda>y. y\<lparr>doing_reno_now := 0, lastQ := 0, reno_count := 2\<rparr>) tp;
     Some (tp\<lparr>snd_cwnd_clamp := u32_u16 (min (u16_u32 (snd_cwnd_clamp tp)) (0xffffffff div 128))\<rparr>)
   }"

definition tcp_yeah_pkts_acked :: "kernel \<Rightarrow> yeah tcp_sock \<Rightarrow> u32 \<Rightarrow> s64 \<Rightarrow> yeah tcp_sock option" where
  "tcp_yeah_pkts_acked k sk pkts_acked ts =
     (let sk = (if icsk_ca_state sk = TCP_CA_Open
                then upd_ca (\<lambda>y. y\<lparr>yh_pkts_acked := pkts_acked\<rparr>) sk else sk)
      in tcp_vegas_pkts_acked k sk pkts_acked ts)"

text \<open>Growth per acknowledgment: slow start, Scalable or Reno.\<close>

definition yeah_increase :: "kernel \<Rightarrow> yeah tcp_sock \<Rightarrow> yeah tcp_sock option" where
  "yeah_increase k tp =
     (if snd_cwnd tp \<le> snd_ssthresh tp then tcp_slow_start k tp
      else if doing_reno_now (icsk_ca_priv tp) = 0 then
        let tp = tp\<lparr>snd_cwnd_cnt := u32_u16 (u16_u32 (snd_cwnd_cnt tp) + yh_pkts_acked (icsk_ca_priv tp))\<rparr>;
            tp = (if min (snd_cwnd tp) TCP_SCALABLE_AI_CNT_yeah < u16_u32 (snd_cwnd_cnt tp)
                  then (inc_cwnd_clamped tp)\<lparr>snd_cwnd_cnt := 0\<rparr> else tp)
        in Some (upd_ca (\<lambda>y. y\<lparr>yh_pkts_acked := 1\<rparr>) tp)
      else
        let tp = (if u16_u32 (snd_cwnd_cnt tp) < snd_cwnd tp
                  then tp\<lparr>snd_cwnd_cnt := snd_cwnd_cnt tp + 1\<rparr> else tp)
        in Some (if snd_cwnd tp \<le> u16_u32 (snd_cwnd_cnt tp)
                 then tp\<lparr>snd_cwnd := snd_cwnd tp + 1, snd_cwnd_cnt := 0\<rparr> else tp))"

text \<open>Giving back the excess over \<open>reno_count\<close>.\<close>

definition yeah_decongest :: "u32 \<Rightarrow> yeah tcp_sock \<Rightarrow> yeah tcp_sock" where
  "yeah_decongest queue tp =
     (if TCP_YEAH_ALPHA < queue \<and> reno_count (icsk_ca_priv tp) < snd_cwnd tp then
        let reduction = min (queue div TCP_YEAH_GAMMA) (drop_bit TCP_YEAH_EPSILON (snd_cwnd tp));
            tp = tp\<lparr>snd_cwnd := snd_cwnd tp - reduction\<rparr>;
            tp = tp\<lparr>snd_cwnd := max (snd_cwnd tp) (reno_count (icsk_ca_priv tp))\<rparr>
        in tp\<lparr>snd_ssthresh := snd_cwnd tp\<rparr>
      else tp)"

definition yeah_measure :: "yeah tcp_sock \<Rightarrow> yeah tcp_sock option" where
  "yeah_measure tp = do {
     let y = icsk_ca_priv tp;
     let rtt = minRTT y;
     (bw, rem) \<leftarrow> do_div (snd_cwnd tp * (rtt - baseRTT y)) rtt;
     let queue = bw;
     let tp = (if TCP_YEAH_ALPHA < queue \<or> baseRTT y div TCP_YEAH_PHY < rtt - baseRTT y then
                 let tp = yeah_decongest queue tp;
                     tp = upd_ca (\<lambda>y. y\<lparr>reno_count :=
                            (if reno_count y \<le> 2 then max (drop_bit 1 (snd_cwnd tp)) 2
                             else reno_count y + 1)\<rparr>) tp
                 in upd_ca (\<lambda>y. y\<lparr>doing_reno_now := min (doing_reno_now y + 1) 0xffffff\<rparr>) tp
               else
                 let tp = upd_ca (\<lambda>y. y\<lparr>fast_count := fast_count y + 1\<rparr>) tp;
                     tp = (if TCP_YEAH_ZETA < fast_count (icsk_ca_priv tp)
                           then upd_ca (\<lambda>y. y\<lparr>reno_count := 2, fast_count := 0\<rparr>) tp else tp)
                 in upd_ca (\<lambda>y. y\<lparr>doing_reno_now := 0\<rparr>) tp);
     Some (upd_ca (\<lambda>y. y\<lparr>lastQ := queue\<rparr>) tp)
   }"

definition tcp_yeah_cong_avoid ::
    "kernel \<Rightarrow> yeah tcp_sock \<Rightarrow> u32 \<Rightarrow> u32 \<Rightarrow> u32 \<Rightarrow> cint \<Rightarrow> yeah tcp_sock option" where
  "tcp_yeah_cong_avoid k tp ack seq_rtt in_flight flag =
     (if \<not> tcp_is_cwnd_limited tp in_flight then Some tp
      else do {
        tp \<leftarrow> yeah_increase k tp;
        if after ack (beg_snd_nxt (icsk_ca_priv tp)) then do {
          tp \<leftarrow> (if 2 < cntRTT (icsk_ca_priv tp) then yeah_measure tp else Some tp);
          Some (upd_ca (\<lambda>y. y\<lparr>beg_snd_una := beg_snd_nxt y, beg_snd_nxt := snd_nxt tp,
                              beg_snd_cwnd := snd_cwnd tp, cntRTT := 0, minRTT := 0x7fffffff\<rparr>) tp)
        }
        else Some tp
      })"

definition tcp_yeah_ssthresh :: "kernel \<Rightarrow> yeah tcp_sock \<Rightarrow> (u32 \<times> yeah tcp_sock) option" where
  "tcp_yeah_ssthresh k tp =
     (let y = icsk_ca_priv tp;
          reduction = (if doing_reno_now y < TCP_YEAH_RHO
            then max (min (lastQ y) (max (drop_bit 1 (snd_cwnd tp)) 2))
                     (drop_bit TCP_YEAH_DELTA (snd_cwnd tp))
            else max (drop_bit 1 (snd_cwnd tp)) 2)
      in Some (snd_cwnd tp - reduction,
               upd_ca (\<lambda>y. y\<lparr>fast_count := 0, reno_count := max (drop_bit 1 (reno_count y)) 2\<rparr>) tp))"

definition tcp_yeah :: "yeah tcp_congestion_ops" where
  "tcp_yeah = null_ops\<lparr>op_flags := TCP_CONG_RTT_STAMP, op_init := Some tcp_yeah_init,
     op_ssthresh := Some tcp_yeah_ssthresh, op_cong_avoid := Some tcp_yeah_cong_avoid,
     op_min_cwnd := Some tcp_reno_min_cwnd, op_set_state := Some tcp_vegas_state,
     op_cwnd_event := Some tcp_vegas_cwnd_event, op_get_info := Some tcp_vegas_get_info,
     op_pkts_acked := Some tcp_yeah_pkts_acked, op_name := ''yeah''\<rparr>"

definition tcp_yeah_register :: "addr \<Rightarrow> 'p cong_reg \<Rightarrow> (int \<times> 'p cong_reg) option" where
  "tcp_yeah_register tbl s = do {
     (ret, s) \<leftarrow> tcp_register_congestion_control tbl s;
     Some (0, s)
   }"

definition tcp_yeah_unregister :: "addr \<Rightarrow> 'p cong_reg \<Rightarrow> 'p cong_reg" where
  "tcp_yeah_unregister tbl s = tcp_unregister_congestion_control tbl s"

section \<open>Correctness\<close>

text \<open>
  Reno mode has no clamp, but only grows a window that a 32-bit counter has reached: windows
  stay below this limit.
\<close>

definition yeah_limit :: nat where "yeah_limit = 8589934592"

lemma yeah_init_keeps: "sock_ok L sk \<Longrightarrow> keeps L vegas_ok sk (tcp_yeah_init k sk)"
proof -
  assume ok: "sock_ok L sk"
  let ?c = "u32_u16 (min (u16_u32 (snd_cwnd_clamp sk)) 33554431)"
  have c: "1 \<le> unat (snd_cwnd_clamp sk)" using sock_okD(10) [OF ok] .
  have m: "1 \<le> unat (min (u16_u32 (snd_cwnd_clamp sk)) 33554431)"
      "unat (min (u16_u32 (snd_cwnd_clamp sk)) 33554431) \<le> 33554431"
    using c by (auto simp: min_def word_le_nat_alt)
  then have "unat ?c = unat (min (u16_u32 (snd_cwnd_clamp sk)) 33554431)"
    by (intro unat_narrow_u16_small) linarith
  then have "1 \<le> unat ?c" "unat ?c < 2147483648" using m by linarith+
  then have "sock_ok L (sk\<lparr>snd_cwnd_clamp := ?c\<rparr>)" using ok by (simp add: sock_ok_def)
  then show ?thesis
    by (simp add: tcp_yeah_init_def tcp_vegas_init_def vegas_enable_def vegas_ok_def sock_ok_def)
qed

lemma yeah_acked_keeps:
  assumes "sock_ok L sk" and "vegas_ok (icsk_ca_priv sk)" and "sample_ok k ts"
  shows "keeps L vegas_ok sk (tcp_yeah_pkts_acked k sk cnt ts)"
proof -
  let ?sk = "upd_ca (\<lambda>y. y\<lparr>yh_pkts_acked := cnt\<rparr>) sk"
  have "sock_ok L ?sk" "vegas_ok (icsk_ca_priv ?sk)" using assms by (simp_all add: vegas_ok_def)
  from vegas_acked_keeps [OF this assms(3)] vegas_acked_keeps [OF assms]
  show ?thesis by (auto simp: tcp_yeah_pkts_acked_def keeps_def same_path_def)
qed

lemma yeah_increase_keeps:
  assumes "sock_ok yeah_limit tp" and "vegas_ok (icsk_ca_priv tp)"
  shows "keeps yeah_limit vegas_ok tp (yeah_increase k tp)"
proof -
  have g: "sock_ok yeah_limit (sk\<lparr>snd_cwnd := snd_cwnd sk + 1, snd_cwnd_cnt := 0\<rparr>)"
    if ok: "sock_ok yeah_limit sk" and c: "snd_cwnd sk \<le> u16_u32 (snd_cwnd_cnt sk)" for sk :: "yeah tcp_sock"
  proof -
    have "unat (snd_cwnd sk) < 4294967296"
      using c unat_u16_bound [of "snd_cwnd_cnt sk"] unfolding le_u16_u32_iff by linarith
    then have "unat (snd_cwnd sk + 1) = unat (snd_cwnd sk) + 1" "unat (snd_cwnd sk) + 1 < yeah_limit"
      by (simp_all add: unat_inc_small yeah_limit_def)
    then show ?thesis using ok by (simp add: sock_ok_def)
  qed
  show ?thesis using assms g [of tp] g [of "tp\<lparr>snd_cwnd_cnt := snd_cwnd_cnt tp + 1\<rparr>"]
    by (auto simp: yeah_increase_def Let_def tcp_slow_start_keeps vegas_ok_def inc_cwnd_clamped_ok)
      (simp add: sock_ok_def)
qed

text \<open>Early decongestion: the queue, at most half the window, is given back, down to \<open>reno_count\<close>.\<close>

lemma yeah_decongest_val:
  assumes "sock_ok L tp"
  defines "c \<equiv> unat (snd_cwnd tp)" and "r \<equiv> unat (reno_count (icsk_ca_priv tp))"
  shows "\<exists>w. yeah_decongest queue tp =
      (if 80 < unat queue \<and> r < c then tp\<lparr>snd_cwnd := w, snd_ssthresh := w\<rparr> else tp)
    \<and> (r < c \<longrightarrow> unat w = max (c - min (unat queue) (c div 2)) r \<and> 1 \<le> unat w \<and> unat w \<le> c)"
proof -
  let ?red = "min (queue div TCP_YEAH_GAMMA) (drop_bit TCP_YEAH_EPSILON (snd_cwnd tp))"
  let ?w = "max (snd_cwnd tp - ?red) (reno_count (icsk_ca_priv tp))"
  have red: "unat ?red = min (unat queue) (c div 2)"
    unfolding unat_min_word TCP_YEAH_GAMMA_def TCP_YEAH_EPSILON_def c_def unat_half by simp
  have "unat ?red \<le> c" unfolding red by linarith
  then have s: "unat (snd_cwnd tp - ?red) = c - min (unat queue) (c div 2)"
    unfolding red [symmetric] by (subst unat_sub_le) (simp_all add: word_le_nat_alt c_def)
  have w: "unat ?w = max (c - min (unat queue) (c div 2)) r"
    unfolding s [symmetric] by (auto simp: max_def word_le_nat_alt r_def)
  have c1: "1 \<le> c" using sock_okD(5) [OF assms(1)] by (simp add: c_def)
  have "r < c \<Longrightarrow> 1 \<le> unat ?w \<and> unat ?w \<le> c" unfolding w using c1 by auto
  moreover have "yeah_decongest queue tp =
      (if 80 < unat queue \<and> r < c then tp\<lparr>snd_cwnd := ?w, snd_ssthresh := ?w\<rparr> else tp)"
    by (simp add: yeah_decongest_def Let_def TCP_YEAH_ALPHA_def word_less_nat_alt r_def c_def)
  ultimately show ?thesis using w by blast
qed

lemma yeah_decongest_ok:
  assumes "sock_ok L tp"
  shows "sock_ok L (yeah_decongest queue tp)" and "icsk_ca_priv (yeah_decongest queue tp) = icsk_ca_priv tp"
    and "same_path tp (yeah_decongest queue tp)"
proof -
  obtain w where e: "yeah_decongest queue tp =
      (if 80 < unat queue \<and> unat (reno_count (icsk_ca_priv tp)) < unat (snd_cwnd tp)
       then tp\<lparr>snd_cwnd := w, snd_ssthresh := w\<rparr> else tp)"
    and w: "unat (reno_count (icsk_ca_priv tp)) < unat (snd_cwnd tp) \<longrightarrow> 1 \<le> unat w \<and> unat w \<le> unat (snd_cwnd tp)"
    using yeah_decongest_val [OF assms, of queue] by blast
  have "unat (reno_count (icsk_ca_priv tp)) < unat (snd_cwnd tp) \<Longrightarrow>
      sock_ok L (tp\<lparr>snd_cwnd := w, snd_ssthresh := w\<rparr>)"
    using w sock_okD(4) [OF assms] assms by (auto simp: sock_ok_def)
  then show "sock_ok L (yeah_decongest queue tp)" "icsk_ca_priv (yeah_decongest queue tp) = icsk_ca_priv tp"
    "same_path tp (yeah_decongest queue tp)"
    unfolding e using assms by auto
qed

lemma yeah_measure_keeps:
  assumes "sock_ok L tp" and "vegas_ok (icsk_ca_priv tp)"
  shows "keeps L vegas_ok tp (yeah_measure tp)"
proof -
  have "unat (minRTT (icsk_ca_priv tp)) < 2 ^ 32" using vegas_okD(2) [OF assms(2)] by simp
  from do_div_32 [OF vegas_okD(1) [OF assms(2)] this]
  show ?thesis using assms yeah_decongest_ok [OF assms(1)]
    by (auto simp: yeah_measure_def Let_def vegas_ok_def)
qed

lemma yeah_cong_avoid_keeps:
  assumes "sock_ok yeah_limit sk" and "vegas_ok (icsk_ca_priv sk)"
  shows "keeps yeah_limit vegas_ok sk (tcp_yeah_cong_avoid k sk ack rtt in_flight flag)"
proof -
  have w: "keeps yeah_limit vegas_ok sk' (Some (upd_ca (\<lambda>y. y\<lparr>beg_snd_una := beg_snd_nxt y,
      beg_snd_nxt := snd_nxt sk', beg_snd_cwnd := snd_cwnd sk', cntRTT := 0, minRTT := 0x7fffffff\<rparr>) sk'))"
    if "sock_ok yeah_limit sk'" "vegas_ok (icsk_ca_priv sk')" for sk' :: "yeah tcp_sock"
    using that by (auto simp: vegas_ok_def)
  have m: "keeps yeah_limit vegas_ok sk' ((if 2 < cntRTT (icsk_ca_priv sk') then yeah_measure sk' else Some sk')
      \<bind> (\<lambda>tp. Some (upd_ca (\<lambda>y. y\<lparr>beg_snd_una := beg_snd_nxt y,
      beg_snd_nxt := snd_nxt tp, beg_snd_cwnd := snd_cwnd tp, cntRTT := 0, minRTT := 0x7fffffff\<rparr>) tp)))"
    if "sock_ok yeah_limit sk'" "vegas_ok (icsk_ca_priv sk')" for sk' :: "yeah tcp_sock"
    using that w by (intro keeps_bind) (auto simp: yeah_measure_keeps)
  have "keeps yeah_limit vegas_ok sk (yeah_increase k sk \<bind> (\<lambda>tp.
      if after ack (beg_snd_nxt (icsk_ca_priv tp)) then
        (if 2 < cntRTT (icsk_ca_priv tp) then yeah_measure tp else Some tp)
          \<bind> (\<lambda>tp. Some (upd_ca (\<lambda>y. y\<lparr>beg_snd_una := beg_snd_nxt y,
          beg_snd_nxt := snd_nxt tp, beg_snd_cwnd := snd_cwnd tp, cntRTT := 0, minRTT := 0x7fffffff\<rparr>) tp))
      else Some tp))"
    using m by (intro keeps_bind [OF yeah_increase_keeps [OF assms]]) auto
  then show ?thesis using assms by (simp add: tcp_yeah_cong_avoid_def)
qed

interpretation yeah: cong_ack yeah_limit R tcp_yeah vegas_ok
  by unfold_locales
    (auto simp: cc_init_def cc_min_cwnd_def cc_cong_avoid_def cc_cwnd_event_def
      cc_pkts_acked_def null_ops_def tcp_yeah_def yeah_cong_avoid_keeps
      yeah_init_keeps vegas_state_keeps vegas_event_keeps yeah_acked_keeps min_cwnd_reno_ok
      intro!: set_ca_state_keeps)

text \<open>
  The threshold after a loss. It is at least half the window from 4 segments on; below, it can
  be less than the 2 segments every other module guarantees, and a window of one wraps around.
\<close>

definition yeah_reduction :: "yeah \<Rightarrow> nat \<Rightarrow> nat" where
  "yeah_reduction y c = (if unat (doing_reno_now y) < 16
     then max (min (unat (lastQ y)) (max (c div 2) 2)) (c div 8) else max (c div 2) 2)"

lemma yeah_ssthresh_val:
  assumes "2 \<le> unat (snd_cwnd tp)"
  defines "c \<equiv> unat (snd_cwnd tp)"
  shows "\<exists>w y. tcp_yeah_ssthresh k tp = Some (w, upd_ca (\<lambda>_. y) tp)
    \<and> unat w = c - yeah_reduction (icsk_ca_priv tp) c \<and> (4 \<le> c \<longrightarrow> c \<le> 2 * unat w)"
proof -
  let ?y = "icsk_ca_priv tp"
  let ?red = "if doing_reno_now ?y < TCP_YEAH_RHO
            then max (min (lastQ ?y) (max (drop_bit 1 (snd_cwnd tp)) 2))
                     (drop_bit TCP_YEAH_DELTA (snd_cwnd tp))
            else max (drop_bit 1 (snd_cwnd tp)) 2"
  have h: "unat (max (drop_bit 1 (snd_cwnd tp)) 2) = max (c div 2) 2"
    unfolding c_def by (rule tcp_reno_ssthresh_val)
  have e: "unat (drop_bit TCP_YEAH_DELTA (snd_cwnd tp)) = c div 8"
    unfolding unat_shift c_def TCP_YEAH_DELTA_def by simp
  have red: "unat ?red = yeah_reduction ?y c"
  proof (cases "doing_reno_now ?y < TCP_YEAH_RHO")
    case True
    then have "unat (doing_reno_now ?y) < 16" by (simp add: TCP_YEAH_RHO_def word_less_nat_alt)
    then show ?thesis using True unfolding yeah_reduction_def by (simp only: if_True unat_max_word unat_min_word [of "lastQ ?y"] e flip: h)
  next
    case False
    then have "\<not> unat (doing_reno_now ?y) < 16" by (simp add: TCP_YEAH_RHO_def word_less_nat_alt)
    then show ?thesis using False unfolding yeah_reduction_def by (simp only: if_False h)
  qed
  have c8: "c div 8 \<le> c div 2" by (rule div_le_mono2) simp_all
  have le: "yeah_reduction ?y c \<le> max (c div 2) 2"
  proof -
    define m where "m = max (c div 2) (2 :: nat)"
    have "c div 8 \<le> m" using c8 unfolding m_def by (rule max.coboundedI1)
    then show ?thesis unfolding yeah_reduction_def m_def [symmetric] by simp
  qed
  then have lec: "yeah_reduction ?y c \<le> c" using assms(1) by (auto simp: c_def)
  have s: "unat (snd_cwnd tp - ?red) = c - yeah_reduction ?y c"
    unfolding red [symmetric] using lec
    by (subst unat_sub_le) (simp_all only: word_le_nat_alt red c_def)
  have "4 \<le> c \<Longrightarrow> c \<le> 2 * unat (snd_cwnd tp - ?red)" unfolding s using le by auto
  then show ?thesis using s
    by (intro exI [of _ "snd_cwnd tp - ?red"] exI [of _ "(icsk_ca_priv tp)\<lparr>fast_count := 0,
        reno_count := max (drop_bit 1 (reno_count (icsk_ca_priv tp))) 2\<rparr>"])
      (simp add: tcp_yeah_ssthresh_def upd_ca_def Let_def)
qed

lemma yeah_ssthresh_wraps:
  assumes "snd_cwnd tp = 1" and "16 \<le> unat (doing_reno_now (icsk_ca_priv tp)) \<or> 2 \<le> lastQ (icsk_ca_priv tp)"
  shows "\<exists>sk'. tcp_yeah_ssthresh k tp = Some (18446744073709551615, sk')"
proof -
  have "doing_reno_now (icsk_ca_priv tp) < TCP_YEAH_RHO \<Longrightarrow> min (lastQ (icsk_ca_priv tp)) 2 = 2"
    using assms(2) by (simp add: TCP_YEAH_RHO_def word_less_nat_alt min.absorb2)
  then show ?thesis
    by (simp add: tcp_yeah_ssthresh_def Let_def TCP_YEAH_DELTA_def assms(1))
qed

end
