(* ===== verification/Tcp_Illinois.thy ===== *)
theory Tcp_Illinois
  imports Cong_Contract Cong_List
begin

text \<open>
  \<open>tcp/linux/src/tcp_illinois.c\<close>: TCP Illinois. The additive increase \<open>alpha\<close> (in 128ths) and
  the multiplicative decrease \<open>beta\<close> (in 64ths) are functions of the average and the largest
  queueing delay of the last round trip. The lemmas show that the average lies between the base
  and the largest round-trip time, that \<open>alpha\<close> and \<open>beta\<close> stay within their documented
  bounds, that no division is by zero and no intermediate value wraps around in a way that
  changes the result, and what remains of the window after a loss.
\<close>

definition ALPHA_SHIFT :: nat where "ALPHA_SHIFT = 7"
definition ALPHA_SCALE :: u32 where "ALPHA_SCALE = 128"
definition ALPHA_MIN :: u32 where "ALPHA_MIN = (3 * ALPHA_SCALE) div 10"
definition ALPHA_MAX :: u32 where "ALPHA_MAX = 10 * ALPHA_SCALE"
definition ALPHA_BASE :: u32 where "ALPHA_BASE = ALPHA_SCALE"
definition U32_MAX :: u32 where "U32_MAX = 0xffffffff"
definition RTT_MAX :: u32 where "RTT_MAX = U32_MAX div ALPHA_MAX"
definition BETA_SHIFT :: nat where "BETA_SHIFT = 6"
definition BETA_SCALE :: u32 where "BETA_SCALE = 64"
definition BETA_MIN :: u32 where "BETA_MIN = BETA_SCALE div 8"
definition BETA_MAX :: u32 where "BETA_MAX = BETA_SCALE div 2"
definition BETA_BASE :: u32 where "BETA_BASE = BETA_MAX"

record illinois_vars =
  win_thresh :: cint
  theta :: cint

definition illinois_default :: illinois_vars where
  "illinois_default = \<lparr>win_thresh = 15, theta = 5\<rparr>"

definition illinois_params :: "param_decl list" where
  "illinois_params =
     [(''win_thresh'', ''int'', ''Window threshold for starting adaptive sizing''),
      (''theta'', ''int'', ''# of fast RTT's before full growth'')]"

record illinois =
  sum_rtt :: u64
  cnt_rtt :: u16
  base_rtt :: u32
  max_rtt :: u32
  end_seq :: u32
  il_alpha :: u32
  il_beta :: u32
  il_acked :: u16
  rtt_above :: u8
  rtt_low :: u8

definition rtt_reset :: "illinois tcp_sock \<Rightarrow> illinois tcp_sock" where
  "rtt_reset sk = upd_ca (\<lambda>ca. ca\<lparr>end_seq := snd_nxt sk, cnt_rtt := 0, sum_rtt := 0\<rparr>) sk"

definition tcp_illinois_init :: "kernel \<Rightarrow> illinois tcp_sock \<Rightarrow> illinois tcp_sock option" where
  "tcp_illinois_init k sk = Some (rtt_reset (upd_ca (\<lambda>ca. ca\<lparr>il_alpha := ALPHA_MAX,
     il_beta := BETA_BASE, base_rtt := 0x7fffffff, max_rtt := 0, il_acked := 0, rtt_low := 0,
     rtt_above := 0\<rparr>) sk))"

definition tcp_illinois_acked ::
    "kernel \<Rightarrow> illinois tcp_sock \<Rightarrow> u32 \<Rightarrow> s64 \<Rightarrow> illinois tcp_sock option" where
  "tcp_illinois_acked k sk pkts_acked ts =
     (let sk = upd_ca (\<lambda>ca. ca\<lparr>il_acked := u32_u16 pkts_acked\<rparr>) sk
      in if ktime_equal ts net_invalid_timestamp then Some sk
      else
        let rtt = ktime_to_us (net_timedelta k ts);
            rtt = (if RTT_MAX < rtt then RTT_MAX else rtt)
        in Some (upd_ca (\<lambda>ca.
             let ca = (if rtt < base_rtt ca then ca\<lparr>base_rtt := rtt\<rparr> else ca);
                 ca = (if max_rtt ca < rtt then ca\<lparr>max_rtt := rtt\<rparr> else ca)
             in ca\<lparr>cnt_rtt := cnt_rtt ca + 1, sum_rtt := sum_rtt ca + rtt\<rparr>) sk))"

definition max_delay :: "illinois \<Rightarrow> u32" where
  "max_delay ca = max_rtt ca - base_rtt ca"

definition avg_delay :: "illinois \<Rightarrow> u32 option" where
  "avg_delay ca = do {
     (t, rem) \<leftarrow> do_div (sum_rtt ca) (u16_u32 (cnt_rtt ca));
     Some (t - base_rtt ca)
   }"

text \<open>\<open>alpha\<close> also updates the two counters of the struct.\<close>

definition illinois_alpha ::
    "illinois_vars \<Rightarrow> illinois \<Rightarrow> u32 \<Rightarrow> u32 \<Rightarrow> (u32 \<times> illinois) option" where
  "illinois_alpha P ca da dm =
     (let d1 = dm div 100
      in if da \<le> d1 then
           if rtt_above ca = 0 then Some (ALPHA_MAX, ca)
           else
             let ca = ca\<lparr>rtt_low := rtt_low ca + 1\<rparr>
             in if sint (ucast (rtt_low ca) :: cint) < sint (theta P) then Some (il_alpha ca, ca)
                else Some (ALPHA_MAX, ca\<lparr>rtt_low := 0, rtt_above := 0\<rparr>)
         else do {
           let ca = ca\<lparr>rtt_above := 1\<rparr>;
           let dm = dm - d1;
           let da = da - d1;
           a \<leftarrow> cdiv (dm * ALPHA_MAX) (dm + (da * (ALPHA_MAX - ALPHA_MIN)) div ALPHA_MIN);
           Some (a, ca)
         })"

definition illinois_beta :: "u32 \<Rightarrow> u32 \<Rightarrow> u32 option" where
  "illinois_beta da dm =
     (let d2 = dm div 10
      in if da \<le> d2 then Some BETA_MIN
         else
           let d3 = (8 * dm) div 10
           in if d3 \<le> da \<or> d3 \<le> d2 then Some BETA_MAX
              else cdiv (BETA_MIN * d3 - BETA_MAX * d2 + (BETA_MAX - BETA_MIN) * da) (d3 - d2))"

definition update_params :: "illinois_vars \<Rightarrow> illinois tcp_sock \<Rightarrow> illinois tcp_sock option" where
  "update_params P tp = do {
     let ca = icsk_ca_priv tp;
     ca \<leftarrow> (if snd_cwnd tp < int_u32 (win_thresh P)
            then Some (ca\<lparr>il_alpha := ALPHA_BASE, il_beta := BETA_BASE\<rparr>)
            else if 0 < cnt_rtt ca then do {
              let dm = max_delay ca;
              da \<leftarrow> avg_delay ca;
              (a, ca) \<leftarrow> illinois_alpha P ca da dm;
              b \<leftarrow> illinois_beta da dm;
              Some (ca\<lparr>il_alpha := a, il_beta := b\<rparr>)
            }
            else Some ca);
     Some (rtt_reset (upd_ca (\<lambda>_. ca) tp))
   }"

definition tcp_illinois_state ::
    "kernel \<Rightarrow> illinois tcp_sock \<Rightarrow> tcp_ca_state \<Rightarrow> illinois tcp_sock option" where
  "tcp_illinois_state k sk new_state =
     Some (if new_state = TCP_CA_Loss
           then rtt_reset (upd_ca (\<lambda>ca. ca\<lparr>il_alpha := ALPHA_BASE, il_beta := BETA_BASE,
                  rtt_low := 0, rtt_above := 0\<rparr>) sk)
           else sk)"

definition illinois_increase :: "illinois tcp_sock \<Rightarrow> illinois tcp_sock option" where
  "illinois_increase tp = do {
     let tp = upd_ca (\<lambda>ca. ca\<lparr>il_acked := 1\<rparr>)
                (tp\<lparr>snd_cwnd_cnt := snd_cwnd_cnt tp + il_acked (icsk_ca_priv tp)\<rparr>);
     let delta = drop_bit ALPHA_SHIFT (u16_u32 (snd_cwnd_cnt tp) * il_alpha (icsk_ca_priv tp));
     if snd_cwnd tp \<le> delta then do {
       q \<leftarrow> cdiv delta (snd_cwnd tp);
       Some (tp\<lparr>snd_cwnd := min (snd_cwnd tp + q) (u16_u32 (snd_cwnd_clamp tp)), snd_cwnd_cnt := 0\<rparr>)
     }
     else Some tp
   }"

definition tcp_illinois_cong_avoid :: "illinois_vars \<Rightarrow> kernel \<Rightarrow> illinois tcp_sock \<Rightarrow> u32 \<Rightarrow> u32 \<Rightarrow>
    u32 \<Rightarrow> cint \<Rightarrow> illinois tcp_sock option" where
  "tcp_illinois_cong_avoid P k tp ack rtt in_flight flag = do {
     tp \<leftarrow> (if after ack (end_seq (icsk_ca_priv tp)) then update_params P tp else Some tp);
     if \<not> tcp_is_cwnd_limited tp in_flight then Some tp
     else if snd_cwnd tp \<le> snd_ssthresh tp then tcp_slow_start k tp
     else illinois_increase tp
   }"

definition tcp_illinois_ssthresh ::
    "kernel \<Rightarrow> illinois tcp_sock \<Rightarrow> (u32 \<times> illinois tcp_sock) option" where
  "tcp_illinois_ssthresh k tp =
     Some (max (drop_bit BETA_SHIFT (snd_cwnd tp * il_beta (icsk_ca_priv tp))) 2, tp)"

definition tcp_illinois_info :: "illinois tcp_sock \<Rightarrow> u32 \<Rightarrow> illinois tcp_sock option" where
  "tcp_illinois_info sk ext = Some sk" \<comment> \<open>the body is under \<open>#if 0\<close>\<close>

definition tcp_illinois :: "illinois_vars \<Rightarrow> illinois tcp_congestion_ops" where
  "tcp_illinois P = null_ops\<lparr>op_flags := TCP_CONG_RTT_STAMP, op_init := Some tcp_illinois_init,
     op_ssthresh := Some tcp_illinois_ssthresh, op_min_cwnd := Some tcp_reno_min_cwnd,
     op_cong_avoid := Some (tcp_illinois_cong_avoid P), op_set_state := Some tcp_illinois_state,
     op_get_info := Some tcp_illinois_info, op_pkts_acked := Some tcp_illinois_acked,
     op_name := ''illinois''\<rparr>"

definition tcp_illinois_register :: "addr \<Rightarrow> 'p cong_reg \<Rightarrow> (int \<times> 'p cong_reg) option" where
  "tcp_illinois_register tbl s = tcp_register_congestion_control tbl s"

definition tcp_illinois_unregister :: "addr \<Rightarrow> 'p cong_reg \<Rightarrow> 'p cong_reg" where
  "tcp_illinois_unregister tbl s = tcp_unregister_congestion_control tbl s"

section \<open>Correctness\<close>

lemmas illinois_consts = ALPHA_MIN_def ALPHA_MAX_def ALPHA_BASE_def ALPHA_SCALE_def RTT_MAX_def
  U32_MAX_def BETA_MIN_def BETA_MAX_def BETA_BASE_def BETA_SCALE_def

text \<open>
  The samples of the current round trip lie between \<open>base_rtt\<close> and \<open>max_rtt\<close>; the
  increase is between 0.3 and 10 segments per round trip, the decrease between 1/8 and 1/2.
\<close>

definition samples_ok :: "illinois \<Rightarrow> bool" where
  "samples_ok ca \<longleftrightarrow> unat (cnt_rtt ca) * unat (base_rtt ca) \<le> unat (sum_rtt ca)
     \<and> unat (sum_rtt ca) \<le> unat (cnt_rtt ca) * unat (max_rtt ca)
     \<and> (0 < unat (cnt_rtt ca) \<longrightarrow> unat (base_rtt ca) \<le> unat (max_rtt ca))
     \<and> unat (max_rtt ca) \<le> 3355443"

definition illinois_ok :: "illinois \<Rightarrow> bool" where
  "illinois_ok ca \<longleftrightarrow> samples_ok ca \<and> 38 \<le> unat (il_alpha ca) \<and> unat (il_alpha ca) \<le> 1280
     \<and> 8 \<le> unat (il_beta ca) \<and> unat (il_beta ca) \<le> 32"

lemma illinois_consts_val:
  "ALPHA_MIN = 38" "ALPHA_MAX = 1280" "ALPHA_BASE = 128" "RTT_MAX = 3355443"
  "BETA_MIN = 8" "BETA_MAX = 32" "BETA_BASE = 32"
  by (simp_all add: illinois_consts)

lemma illinois_init_keeps: "sock_ok L sk \<Longrightarrow> keeps L illinois_ok sk (tcp_illinois_init k sk)"
  by (simp add: tcp_illinois_init_def rtt_reset_def illinois_ok_def samples_ok_def illinois_consts_val)

lemma illinois_state_keeps:
  "sock_ok L sk \<Longrightarrow> illinois_ok (icsk_ca_priv sk) \<Longrightarrow> keeps L illinois_ok sk (tcp_illinois_state k sk st)"
  by (simp add: tcp_illinois_state_def rtt_reset_def illinois_ok_def samples_ok_def illinois_consts_val)

text \<open>A sample keeps the invariant while the counter of the round trip has room.\<close>

lemma illinois_sample_ok:
  assumes "samples_ok ca" and "unat rtt \<le> 3355443" and "unat (cnt_rtt ca) < 4294967295"
  shows "samples_ok (ca\<lparr>base_rtt := min (base_rtt ca) rtt, max_rtt := max (max_rtt ca) rtt,
           cnt_rtt := cnt_rtt ca + 1, sum_rtt := sum_rtt ca + rtt\<rparr>)"
proof -
  let ?n = "unat (cnt_rtt ca)" and ?b = "unat (base_rtt ca)" and ?m = "unat (max_rtt ca)"
    and ?s = "unat (sum_rtt ca)" and ?r = "unat rtt"
  have a: "?n * ?b \<le> ?s" "?s \<le> ?n * ?m" "?m \<le> 3355443" using assms(1) by (simp_all add: samples_ok_def)
  have "?n * ?m \<le> 4294967295 * 3355443" using assms(3) a(3) by (intro mult_le_mono) linarith+
  then have s: "unat (sum_rtt ca + rtt) = ?s + ?r"
    using a(2) assms(2) by (intro unat_add_small) linarith
  have n: "unat (cnt_rtt ca + 1) = ?n + 1"
    using assms(3) by (subst unat_add_u16_small) simp_all
  have "?n * min ?b ?r \<le> ?n * ?b" "?n * ?m \<le> ?n * max ?m ?r" by (intro mult_le_mono2, simp)+
  moreover have "(?n + 1) * min ?b ?r = ?n * min ?b ?r + min ?b ?r"
    "(?n + 1) * max ?m ?r = ?n * max ?m ?r + max ?m ?r" "min ?b ?r \<le> ?r" "?r \<le> max ?m ?r" by simp_all
  ultimately have lo: "(?n + 1) * min ?b ?r \<le> ?s + ?r" and hi: "?s + ?r \<le> (?n + 1) * max ?m ?r"
    using a(1,2) by linarith+
  show ?thesis unfolding samples_ok_def using lo hi a(3) assms(2)
    by (simp add: n s unat_min_word unat_max_word min_le_iff_disj le_max_iff_disj)
qed

lemma illinois_acked_keeps:
  assumes "sock_ok L sk" and "illinois_ok (icsk_ca_priv sk)"
    and "unat (cnt_rtt (icsk_ca_priv sk)) < 4294967295"
  shows "keeps L illinois_ok sk (tcp_illinois_acked k sk cnt ts)"
proof -
  let ?ca = "(icsk_ca_priv sk)\<lparr>il_acked := u32_u16 cnt\<rparr>"
  have ok: "samples_ok ?ca" using assms(2) by (simp add: illinois_ok_def samples_ok_def)
  define rtt where "rtt = (if RTT_MAX < ktime_to_us (net_timedelta k ts) then RTT_MAX
      else ktime_to_us (net_timedelta k ts))"
  have r: "unat rtt \<le> 3355443" unfolding rtt_def by (auto simp: illinois_consts_val word_less_nat_alt)
  have e: "(let ca = if rtt < base_rtt ca then ca\<lparr>base_rtt := rtt\<rparr> else ca;
                ca = if max_rtt ca < rtt then ca\<lparr>max_rtt := rtt\<rparr> else ca
            in ca\<lparr>cnt_rtt := cnt_rtt ca + 1, sum_rtt := sum_rtt ca + rtt\<rparr>) =
      ca\<lparr>base_rtt := min (base_rtt ca) rtt, max_rtt := max (max_rtt ca) rtt,
         cnt_rtt := cnt_rtt ca + 1, sum_rtt := sum_rtt ca + rtt\<rparr>" for ca
    by (cases ca) (auto simp: Let_def min_def max_def)
  have "tcp_illinois_acked k sk cnt ts = Some (if ts = 0 then upd_ca (\<lambda>_. ?ca) sk
      else upd_ca (\<lambda>_. ?ca\<lparr>base_rtt := min (base_rtt ?ca) rtt, max_rtt := max (max_rtt ?ca) rtt,
         cnt_rtt := cnt_rtt ?ca + 1, sum_rtt := sum_rtt ?ca + rtt\<rparr>) sk)"
    unfolding tcp_illinois_acked_def Let_def [where s = "ktime_to_us (net_timedelta k ts)"]
      rtt_def [symmetric] ktime_equal_def net_invalid_timestamp_def
    by (simp add: Let_def [where s = rtt] e [unfolded Let_def] Let_def upd_ca_def)
  moreover have "illinois_ok ?ca" using assms(2) by (simp add: illinois_ok_def samples_ok_def)
  moreover have "illinois_ok (?ca\<lparr>base_rtt := min (base_rtt ?ca) rtt, max_rtt := max (max_rtt ?ca) rtt,
         cnt_rtt := cnt_rtt ?ca + 1, sum_rtt := sum_rtt ?ca + rtt\<rparr>)"
    unfolding illinois_ok_def using illinois_sample_ok [OF ok r] assms(2,3)
    by (simp add: illinois_ok_def)
  ultimately show ?thesis using assms(1) by simp
qed

text \<open>The average queueing delay is at most the largest one.\<close>

lemma avg_delay_val:
  assumes "samples_ok ca" and "0 < unat (cnt_rtt ca)"
  shows "unat (max_delay ca) = unat (max_rtt ca) - unat (base_rtt ca)"
    and "\<exists>d. avg_delay ca = Some d \<and> unat d = unat (sum_rtt ca) div unat (cnt_rtt ca) - unat (base_rtt ca)
      \<and> unat d \<le> unat (max_delay ca)"
proof -
  let ?n = "unat (cnt_rtt ca)" and ?b = "unat (base_rtt ca)" and ?m = "unat (max_rtt ca)"
    and ?s = "unat (sum_rtt ca)"
  have a: "?n * ?b \<le> ?s" "?s \<le> ?n * ?m" "?b \<le> ?m" using assms by (simp_all add: samples_ok_def)
  show m: "unat (max_delay ca) = ?m - ?b"
    unfolding max_delay_def using a(3) by (intro unat_sub_le) (simp add: word_le_nat_alt)
  have b: "?b \<le> ?s div ?n" "?s div ?n \<le> ?m"
    using a(1,2) assms(2) div_le_mono [of "?n * ?b" ?s ?n] div_le_mono [of ?s "?n * ?m" ?n] by simp_all
  have "u16_u32 (cnt_rtt ca) \<noteq> 0" unfolding word_neq_0_unat using assms(2) by simp
  from do_div_32 [OF this] have "do_div (sum_rtt ca) (u16_u32 (cnt_rtt ca)) =
      Some (sum_rtt ca div u16_u32 (cnt_rtt ca), ucast (sum_rtt ca mod u16_u32 (cnt_rtt ca)))"
    using unat_u16_bound [of "cnt_rtt ca"] by simp
  then have "avg_delay ca = Some (sum_rtt ca div u16_u32 (cnt_rtt ca) - base_rtt ca)"
    by (simp add: avg_delay_def)
  moreover have "unat (sum_rtt ca div u16_u32 (cnt_rtt ca) - base_rtt ca) = ?s div ?n - ?b"
    using b(1) by (subst unat_sub_le) (simp_all add: word_le_nat_alt unat_div)
  ultimately show "\<exists>d. avg_delay ca = Some d \<and> unat d = ?s div ?n - ?b \<and> unat d \<le> unat (max_delay ca)"
    unfolding m using b(2) by (simp add: diff_le_mono)
qed

text \<open>The convex curve: between 0.3 and 10, whatever the delays.\<close>

lemma alpha_quotient:
  fixes D E :: nat
  assumes "1 \<le> E" and "E \<le> D"
  shows "38 \<le> D * 1280 div (D + E * 1242 div 38)" and "D * 1280 div (D + E * 1242 div 38) \<le> 1280"
proof -
  let ?d = "D + E * 1242 div 38"
  have d: "1 \<le> ?d" using assms by simp
  have "E * 1242 div 38 * 38 \<le> E * 1242" by (rule div_times_less_eq_dividend)
  then have "38 * ?d \<le> D * 1280" using assms(2) by simp
  then show "38 \<le> D * 1280 div ?d" using d by (simp add: less_eq_div_iff_mult_less_eq mult.commute)
  have "D * 1280 div ?d \<le> D * 1280 div D" using assms by (intro div_le_mono2) simp_all
  then show "D * 1280 div ?d \<le> 1280" using assms by simp
qed

lemma illinois_alpha_bounds:
  assumes "unat da \<le> unat dm" and "unat dm \<le> 3355443"
    and "38 \<le> unat (il_alpha ca)" and "unat (il_alpha ca) \<le> 1280"
  shows "\<exists>a n l. illinois_alpha P ca da dm = Some (a, ca\<lparr>rtt_above := n, rtt_low := l\<rparr>)
    \<and> 38 \<le> unat a \<and> unat a \<le> 1280"
proof (cases "da \<le> dm div 100")
  case True
  show ?thesis
  proof (cases "rtt_above ca = 0")
    case z: True
    have "illinois_alpha P ca da dm = Some (ALPHA_MAX, ca\<lparr>rtt_above := rtt_above ca, rtt_low := rtt_low ca\<rparr>)"
      using True z by (simp add: illinois_alpha_def Let_def)
    then show ?thesis by (intro exI conjI) (assumption, simp_all add: illinois_consts_val)
  next
    case False
    show ?thesis
    proof (cases "sint (ucast (rtt_low ca + 1) :: cint) < sint (theta P)")
      case t: True
      have "illinois_alpha P ca da dm = Some (il_alpha ca,
          ca\<lparr>rtt_above := rtt_above ca, rtt_low := rtt_low ca + 1\<rparr>)"
        using True False t by (simp add: illinois_alpha_def Let_def)
      then show ?thesis using assms(3,4) by (intro exI conjI) (assumption, simp_all)
    next
      case t: False
      have "illinois_alpha P ca da dm = Some (ALPHA_MAX, ca\<lparr>rtt_above := 0, rtt_low := 0\<rparr>)"
        using True False t by (simp add: illinois_alpha_def Let_def)
      then show ?thesis by (intro exI conjI) (assumption, simp_all add: illinois_consts_val)
    qed
  qed
next
  case False
  let ?d1 = "dm div 100"
  let ?D = "unat dm - unat dm div 100" and ?E = "unat da - unat dm div 100"
  have lt: "unat dm div 100 < unat da" using False by (simp add: word_le_nat_alt unat_div not_le)
  have D: "unat (dm - ?d1) = ?D" and E: "unat (da - ?d1) = ?E"
    using lt assms(1) by (subst unat_sub_le; simp add: word_le_nat_alt unat_div)+
  have e: "1 \<le> ?E" "?E \<le> ?D" "?D \<le> 3355443" using lt assms(1,2) by linarith+
  have n: "unat ((dm - ?d1) * 1280) = ?D * 1280" unfolding D [symmetric] using e(3) D
    by (subst unat_mult_small) simp_all
  have m: "unat ((da - ?d1) * 1242) = ?E * 1242" unfolding E [symmetric] using e E
    by (subst unat_mult_small) simp_all
  have q: "?E * 1242 div 38 \<le> ?E * 1242" by (rule div_le_dividend)
  have den: "unat ((dm - ?d1) + ((da - ?d1) * 1242) div 38) = ?D + ?E * 1242 div 38"
  proof -
    have x: "unat (((da - ?d1) * 1242) div 38) = ?E * 1242 div 38" unfolding unat_div m by simp
    have "?D + ?E * 1242 div 38 < 18446744073709551616" using e q by linarith
    then show ?thesis using unat_add_small [of "dm - ?d1" "((da - ?d1) * 1242) div 38"] unfolding D x by blast
  qed
  then have nz: "(dm - ?d1) + ((da - ?d1) * 1242) div 38 \<noteq> 0" unfolding word_neq_0_unat using e(1,2) by linarith
  let ?a = "((dm - ?d1) * 1280) div ((dm - ?d1) + ((da - ?d1) * 1242) div 38)"
  have "illinois_alpha P ca da dm = Some (?a, ca\<lparr>rtt_above := 1, rtt_low := rtt_low ca\<rparr>)"
    using False nz by (simp add: illinois_alpha_def Let_def illinois_consts_val cdiv_def)
  moreover have "unat ?a = ?D * 1280 div (?D + ?E * 1242 div 38)" unfolding unat_div n den ..
  ultimately show ?thesis using alpha_quotient [OF e(1,2)] by (intro exI conjI) (assumption, simp_all)
qed

text \<open>The linear curve: between 1/8 and 1/2; its two negative-looking terms cancel.\<close>

lemma beta_quotient:
  fixes d2 d3 da :: nat
  assumes "d2 < da" and "da < d3"
  shows "32 * d2 \<le> 8 * d3 + 24 * da" and "8 \<le> (8 * d3 + 24 * da - 32 * d2) div (d3 - d2)"
    and "(8 * d3 + 24 * da - 32 * d2) div (d3 - d2) \<le> 32"
proof -
  have d: "1 \<le> d3 - d2" using assms by linarith
  show "32 * d2 \<le> 8 * d3 + 24 * da" using assms by linarith
  have "8 * (d3 - d2) \<le> 8 * d3 + 24 * da - 32 * d2" "8 * d3 + 24 * da - 32 * d2 \<le> 32 * (d3 - d2)"
    using assms by linarith+
  from this [THEN div_le_mono, of "d3 - d2"]
  show "8 \<le> (8 * d3 + 24 * da - 32 * d2) div (d3 - d2)"
    "(8 * d3 + 24 * da - 32 * d2) div (d3 - d2) \<le> 32" using d by simp_all
qed

lemma illinois_beta_bounds:
  assumes "unat dm \<le> 3355443"
  shows "\<exists>b. illinois_beta da dm = Some b \<and> 8 \<le> unat b \<and> unat b \<le> 32"
proof -
  define d2 where "d2 = dm div 10"
  define d3 where "d3 = (8 * dm) div 10"
  have d3: "unat d3 \<le> 3355443"
  proof -
    have "unat (8 * dm) = 8 * unat dm" using assms by (subst unat_mult_small) simp_all
    then show ?thesis using assms unfolding d3_def unat_div by simp
  qed
  have eq: "illinois_beta da dm = (if da \<le> d2 then Some 8 else if d3 \<le> da \<or> d3 \<le> d2 then Some 32
      else cdiv (8 * d3 - 32 * d2 + 24 * da) (d3 - d2))"
    by (simp add: illinois_beta_def Let_def illinois_consts_val d2_def d3_def)
  show ?thesis
  proof (cases "da \<le> d2 \<or> d3 \<le> da \<or> d3 \<le> d2")
    case True
    then show ?thesis by (auto simp: eq)
  next
    case False
    then have c: "unat d2 < unat da" "unat da < unat d3" by (simp_all add: word_le_nat_alt not_le)
    have m: "unat (8 * d3) = 8 * unat d3" "unat (24 * da) = 24 * unat da" "unat (32 * d2) = 32 * unat d2"
      using c d3 by (subst unat_mult_small; simp)+
    have s: "unat (8 * d3 + 24 * da) = 8 * unat d3 + 24 * unat da"
      using c d3 unat_add_small [of "8 * d3" "24 * da"] unfolding m by linarith
    have "8 * d3 - 32 * d2 + 24 * da = 8 * d3 + 24 * da - 32 * d2" by simp
    then have n: "unat (8 * d3 - 32 * d2 + 24 * da) = 8 * unat d3 + 24 * unat da - 32 * unat d2"
      using beta_quotient(1) [OF c] unat_sub_le [of "32 * d2" "8 * d3 + 24 * da"]
      by (simp only: word_le_nat_alt s m)
    have d: "unat (d3 - d2) = unat d3 - unat d2"
      using c by (intro unat_sub_le) (simp add: word_le_nat_alt)
    then have nz: "d3 - d2 \<noteq> 0" unfolding word_neq_0_unat using c by linarith
    have "unat ((8 * d3 - 32 * d2 + 24 * da) div (d3 - d2)) =
        (8 * unat d3 + 24 * unat da - 32 * unat d2) div (unat d3 - unat d2)"
      unfolding unat_div n d ..
    then show ?thesis using False nz beta_quotient(2,3) [OF c] by (simp add: eq cdiv_def)
  qed
qed

lemma update_params_keeps:
  assumes "sock_ok L tp" and "illinois_ok (icsk_ca_priv tp)"
  shows "keeps L illinois_ok tp (update_params P tp)"
proof -
  let ?ca = "icsk_ca_priv tp"
  have ok: "samples_ok ?ca" "38 \<le> unat (il_alpha ?ca)" "unat (il_alpha ?ca) \<le> 1280"
    using assms(2) by (simp_all add: illinois_ok_def)
  have dn: "keeps L illinois_ok tp (Some (rtt_reset (upd_ca (\<lambda>_. ca) tp)))"
    if "unat (max_rtt ca) \<le> 3355443" "38 \<le> unat (il_alpha ca)" "unat (il_alpha ca) \<le> 1280"
      "8 \<le> unat (il_beta ca)" "unat (il_beta ca) \<le> 32" for ca
    using assms(1) that by (simp add: rtt_reset_def illinois_ok_def samples_ok_def)
  have m: "unat (max_rtt ?ca) \<le> 3355443" using ok(1) by (simp add: samples_ok_def)
  show ?thesis
  proof (cases "snd_cwnd tp < int_u32 (win_thresh P) \<or> \<not> 0 < cnt_rtt ?ca")
    case True
    then show ?thesis
      using dn [of "?ca\<lparr>il_alpha := ALPHA_BASE, il_beta := BETA_BASE\<rparr>"] dn [of ?ca] assms(2) m
      by (auto simp: update_params_def Let_def rtt_reset_def illinois_ok_def illinois_consts_val)
  next
    case False
    then have c: "0 < unat (cnt_rtt ?ca)" by (simp add: word_pos_iff_unat)
    obtain d where d: "avg_delay ?ca = Some d" "unat d \<le> unat (max_delay ?ca)"
      using avg_delay_val(2) [OF ok(1) c] by blast
    have dm: "unat (max_delay ?ca) \<le> 3355443" unfolding avg_delay_val(1) [OF ok(1) c] using m by linarith
    obtain a n l where a: "illinois_alpha P ?ca d (max_delay ?ca) = Some (a, ?ca\<lparr>rtt_above := n, rtt_low := l\<rparr>)"
        "38 \<le> unat a" "unat a \<le> 1280"
      using illinois_alpha_bounds [OF d(2) dm ok(2,3)] by blast
    obtain b where b: "illinois_beta d (max_delay ?ca) = Some b" "8 \<le> unat b" "unat b \<le> 32"
      using illinois_beta_bounds [OF dm] by blast
    show ?thesis
      using False dn [of "?ca\<lparr>rtt_above := n, rtt_low := l, il_alpha := a, il_beta := b\<rparr>"] m a(2,3) b(2,3)
      by (simp add: update_params_def Let_def d(1) a(1) b(1))
  qed
qed

lemma illinois_increase_keeps:
  assumes "sock_ok win_limit tp" and "illinois_ok (icsk_ca_priv tp)"
  shows "keeps win_limit illinois_ok tp (illinois_increase tp)"
proof -
  let ?n = "snd_cwnd_cnt tp + il_acked (icsk_ca_priv tp)" and ?c = "u16_u32 (snd_cwnd_clamp tp)"
  define d where "d = drop_bit ALPHA_SHIFT (u16_u32 ?n * il_alpha (icsk_ca_priv tp))"
  define w where "w = snd_cwnd tp + d div snd_cwnd tp"
  have a: "unat (il_alpha (icsk_ca_priv tp)) \<le> 1280" using assms(2) by (simp add: illinois_ok_def)
  have n: "unat (u16_u32 ?n) < 4294967296" using unat_u16_bound [of ?n] by simp
  have "unat (u16_u32 ?n) * unat (il_alpha (icsk_ca_priv tp)) \<le> 4294967296 * 1280"
    using n a by (intro mult_le_mono) linarith+
  then have "unat d \<le> 5497558138880"
    using unat_shift_le [of ALPHA_SHIFT "u16_u32 ?n * il_alpha (icsk_ca_priv tp)"]
      unat_mult_small [of "u16_u32 ?n" "il_alpha (icsk_ca_priv tp)"] unfolding d_def by linarith
  then have "unat (d div snd_cwnd tp) \<le> 5497558138880"
    using div_le_dividend [of "unat d" "unat (snd_cwnd tp)"] unfolding unat_div by linarith
  then have "1 \<le> unat w"
    unfolding w_def using sock_okD(4,5) [OF assms(1)] unfolding win_limit_def
    by (subst unat_add_small) linarith+
  then have m: "1 \<le> unat (min w ?c)" "unat (min w ?c) < win_limit"
    using sock_okD(9,10) [OF assms(1)] unfolding unat_min_word by auto
  have "illinois_increase tp = (let sk = upd_ca (\<lambda>ca. ca\<lparr>il_acked := 1\<rparr>) (tp\<lparr>snd_cwnd_cnt := ?n\<rparr>)
      in if snd_cwnd tp \<le> d then Some (sk\<lparr>snd_cwnd := min w ?c, snd_cwnd_cnt := 0\<rparr>) else Some sk)"
    using sock_okD(1) [OF assms(1)]
    by (simp add: illinois_increase_def Let_def cdiv_def d_def [symmetric] w_def [symmetric])
  then show ?thesis using assms m by (auto simp: Let_def illinois_ok_def samples_ok_def sock_ok_set_cwnd)
qed

lemma illinois_cong_avoid_keeps:
  assumes "sock_ok win_limit tp" and "illinois_ok (icsk_ca_priv tp)"
  shows "keeps win_limit illinois_ok tp (tcp_illinois_cong_avoid P k tp ack rtt in_flight flag)"
  unfolding tcp_illinois_cong_avoid_def
  by (rule keeps_bind)
    (use assms in \<open>auto simp: update_params_keeps illinois_increase_keeps tcp_slow_start_keeps\<close>)

text \<open>What remains after a loss: \<open>beta / 64\<close> of the window, between an eighth and a half of it.\<close>

lemma illinois_ssthresh_val:
  assumes "illinois_ok (icsk_ca_priv tp)" and "unat (snd_cwnd tp) < win_limit"
  shows "\<exists>w. tcp_illinois_ssthresh k tp = Some (max w 2, tp)
     \<and> unat w = unat (snd_cwnd tp) * unat (il_beta (icsk_ca_priv tp)) div 64
     \<and> unat (snd_cwnd tp) div 8 \<le> unat w \<and> unat w \<le> unat (snd_cwnd tp) div 2"
proof -
  let ?c = "unat (snd_cwnd tp)" and ?b = "unat (il_beta (icsk_ca_priv tp))"
  have b: "8 \<le> ?b" "?b \<le> 32" using assms(1) by (simp_all add: illinois_ok_def)
  have "?c * ?b \<le> 2147483648 * 32" using assms(2) b(2) unfolding win_limit_def by (intro mult_le_mono) linarith+
  then have "unat (snd_cwnd tp * il_beta (icsk_ca_priv tp)) = ?c * ?b" by (intro unat_mult_small) linarith
  then have v: "unat (drop_bit BETA_SHIFT (snd_cwnd tp * il_beta (icsk_ca_priv tp))) = ?c * ?b div 64"
    unfolding unat_shift by (simp add: BETA_SHIFT_def)
  from b [THEN mult_le_mono2, of ?c, THEN div_le_mono, of 64]
  have "?c div 8 \<le> ?c * ?b div 64" "?c * ?b div 64 \<le> ?c div 2" by linarith+
  then show ?thesis using v by (auto simp: tcp_illinois_ssthresh_def)
qed

lemma illinois_ssthresh_yields:
  assumes "sock_ok win_limit tp" and "illinois_ok (icsk_ca_priv tp)"
  shows "yields win_limit illinois_ok tp (tcp_illinois_ssthresh k tp)"
proof -
  note c = sock_okD(4) [OF assms(1)]
  obtain w where w: "tcp_illinois_ssthresh k tp = Some (max w 2, tp)" "unat w \<le> unat (snd_cwnd tp) div 2"
    using illinois_ssthresh_val [OF assms(2) c] by blast
  have "unat w < win_limit" using w(2) c by linarith
  then show ?thesis unfolding w(1) using assms by (intro yields_max2) simp_all
qed

interpretation illinois: cong_loss win_limit R "tcp_illinois P" illinois_ok
  by unfold_locales
    (auto simp: cc_init_def cc_ssthresh_def cc_min_cwnd_def cc_cong_avoid_def cc_cwnd_event_def
      null_ops_def tcp_illinois_def illinois_cong_avoid_keeps illinois_ssthresh_yields
      illinois_init_keeps illinois_state_keeps min_cwnd_reno_ok intro!: set_ca_state_keeps)

end
