(* ===== verification/Tcp_Westwood.thy ===== *)
theory Tcp_Westwood
  imports Cong_Contract Cong_List
begin

text \<open>
  \<open>tcp/linux/src/tcp_westwood.c\<close>: TCP Westwood+, which sets the window after a loss from an
  estimate of the bandwidth. The lemmas show that no division is by zero, that the low-pass
  filter stays between its arguments, that the window after a loss is the bandwidth-delay product
  and at least two segments, and that duplicate acknowledgments followed by the cumulative one
  count every byte exactly once.
\<close>

record westwood =
  bw_ns_est :: u32
  bw_est :: u32
  rtt_win_sx :: u32
  bk :: u32
  w_snd_una :: u32
  cumul_ack :: u32
  accounted :: u32
  w_rtt :: u32
  rtt_min :: u32
  first_ack :: u8
  reset_rtt_min :: u8

definition TCP_WESTWOOD_RTT_MIN :: u32 where "TCP_WESTWOOD_RTT_MIN = HZ div 20"
definition TCP_WESTWOOD_INIT_RTT :: u32 where "TCP_WESTWOOD_INIT_RTT = 20 * HZ"

definition tcp_westwood_init :: "kernel \<Rightarrow> westwood tcp_sock \<Rightarrow> westwood tcp_sock option" where
  "tcp_westwood_init k sk = Some (upd_ca (\<lambda>w. w\<lparr>bk := 0, bw_ns_est := 0, bw_est := 0,
     accounted := 0, cumul_ack := 0, reset_rtt_min := 1, w_rtt := TCP_WESTWOOD_INIT_RTT,
     rtt_min := TCP_WESTWOOD_INIT_RTT, rtt_win_sx := tcp_time_stamp k, w_snd_una := snd_una sk,
     first_ack := 1\<rparr>) sk)"

definition westwood_do_filter :: "u32 \<Rightarrow> u32 \<Rightarrow> u32" where
  "westwood_do_filter a b = drop_bit 3 (7 * a + b)"

definition westwood_filter :: "westwood \<Rightarrow> u32 \<Rightarrow> westwood option" where
  "westwood_filter w delta = do {
     q \<leftarrow> cdiv (bk w) delta;
     Some (if bw_ns_est w = 0 \<and> bw_est w = 0 then w\<lparr>bw_ns_est := q, bw_est := q\<rparr>
           else let w = w\<lparr>bw_ns_est := westwood_do_filter (bw_ns_est w) q\<rparr>
                in w\<lparr>bw_est := westwood_do_filter (bw_est w) (bw_ns_est w)\<rparr>)
   }"

definition tcp_westwood_pkts_acked ::
    "kernel \<Rightarrow> westwood tcp_sock \<Rightarrow> u32 \<Rightarrow> s64 \<Rightarrow> westwood tcp_sock option" where
  "tcp_westwood_pkts_acked k sk cnt ts =
     Some (if 0 < cnt then upd_ca (\<lambda>w. w\<lparr>w_rtt := drop_bit 3 (srtt sk)\<rparr>) sk else sk)"

definition westwood_update_window ::
    "kernel \<Rightarrow> westwood tcp_sock \<Rightarrow> westwood tcp_sock option" where
  "westwood_update_window k sk = do {
     let delta = tcp_time_stamp k - rtt_win_sx (icsk_ca_priv sk);
     let sk = (if first_ack (icsk_ca_priv sk) \<noteq> 0
               then upd_ca (\<lambda>w. w\<lparr>w_snd_una := snd_una sk, first_ack := 0\<rparr>) sk else sk);
     let w = icsk_ca_priv sk;
     if w_rtt w \<noteq> 0 \<and> max (w_rtt w) TCP_WESTWOOD_RTT_MIN < delta then do {
       w \<leftarrow> westwood_filter w delta;
       Some (upd_ca (\<lambda>_. w\<lparr>bk := 0, rtt_win_sx := tcp_time_stamp k\<rparr>) sk)
     }
     else Some sk
   }"

definition update_rtt_min :: "westwood \<Rightarrow> westwood" where
  "update_rtt_min w =
     (if reset_rtt_min w \<noteq> 0 then w\<lparr>rtt_min := w_rtt w, reset_rtt_min := 0\<rparr>
      else w\<lparr>rtt_min := min (w_rtt w) (rtt_min w)\<rparr>)"

definition westwood_fast_bw :: "kernel \<Rightarrow> westwood tcp_sock \<Rightarrow> westwood tcp_sock option" where
  "westwood_fast_bw k sk = do {
     sk \<leftarrow> westwood_update_window k sk;
     Some (upd_ca (\<lambda>w. update_rtt_min
             (w\<lparr>bk := bk w + (snd_una sk - w_snd_una w), w_snd_una := snd_una sk\<rparr>)) sk)
   }"

definition westwood_acked_count :: "westwood tcp_sock \<Rightarrow> u32 \<times> westwood tcp_sock" where
  "westwood_acked_count tp =
     (let w = icsk_ca_priv tp;
          w = w\<lparr>cumul_ack := snd_una tp - w_snd_una w\<rparr>;
          w = (if cumul_ack w = 0
               then w\<lparr>accounted := accounted w + mss_cache tp, cumul_ack := mss_cache tp\<rparr> else w);
          w = (if mss_cache tp < cumul_ack w then
                 if cumul_ack w \<le> accounted w
                 then w\<lparr>accounted := accounted w - cumul_ack w, cumul_ack := mss_cache tp\<rparr>
                 else w\<lparr>cumul_ack := cumul_ack w - accounted w, accounted := 0\<rparr>
               else w);
          w = w\<lparr>w_snd_una := snd_una tp\<rparr>
      in (cumul_ack w, upd_ca (\<lambda>_. w) tp))"

definition tcp_westwood_bw_rttmin :: "westwood tcp_sock \<Rightarrow> u32 option" where
  "tcp_westwood_bw_rttmin tp = do {
     q \<leftarrow> cdiv (bw_est (icsk_ca_priv tp) * rtt_min (icsk_ca_priv tp)) (mss_cache tp);
     Some (max q 2)
   }"

definition tcp_westwood_event ::
    "kernel \<Rightarrow> westwood tcp_sock \<Rightarrow> tcp_ca_event \<Rightarrow> westwood tcp_sock option" where
  "tcp_westwood_event k tp event =
     (case event of
        CA_EVENT_FAST_ACK \<Rightarrow> westwood_fast_bw k tp
      | CA_EVENT_COMPLETE_CWR \<Rightarrow> do {
          w \<leftarrow> tcp_westwood_bw_rttmin tp;
          Some (tp\<lparr>snd_ssthresh := w, snd_cwnd := w\<rparr>)
        }
      | CA_EVENT_FRTO \<Rightarrow> do {
          w \<leftarrow> tcp_westwood_bw_rttmin tp;
          Some (upd_ca (\<lambda>w. w\<lparr>reset_rtt_min := 1\<rparr>) (tp\<lparr>snd_ssthresh := w\<rparr>))
        }
      | CA_EVENT_SLOW_ACK \<Rightarrow> do {
          tp \<leftarrow> westwood_update_window k tp;
          let (n, tp) = westwood_acked_count tp;
          Some (upd_ca (\<lambda>w. update_rtt_min (w\<lparr>bk := bk w + n\<rparr>)) tp)
        }
      | _ \<Rightarrow> Some tp)"

definition tcp_westwood_info :: "westwood tcp_sock \<Rightarrow> u32 \<Rightarrow> westwood tcp_sock option" where
  "tcp_westwood_info sk ext = Some sk"

definition tcp_westwood :: "westwood tcp_congestion_ops" where
  "tcp_westwood = null_ops\<lparr>op_init := Some tcp_westwood_init, op_ssthresh := Some tcp_reno_ssthresh,
     op_cong_avoid := Some tcp_reno_cong_avoid, op_min_cwnd := Some tcp_westwood_bw_rttmin,
     op_cwnd_event := Some tcp_westwood_event, op_get_info := Some tcp_westwood_info,
     op_pkts_acked := Some tcp_westwood_pkts_acked, op_name := ''westwood''\<rparr>"

definition tcp_westwood_register :: "addr \<Rightarrow> 'p cong_reg \<Rightarrow> (int \<times> 'p cong_reg) option" where
  "tcp_westwood_register tbl s = tcp_register_congestion_control tbl s"

definition tcp_westwood_unregister :: "addr \<Rightarrow> 'p cong_reg \<Rightarrow> 'p cong_reg" where
  "tcp_westwood_unregister tbl s = tcp_unregister_congestion_control tbl s"

section \<open>Correctness\<close>

text \<open>The window set from the estimate has no upper bound but the type's.\<close>

definition westwood_limit :: nat where "westwood_limit = 18446744073709551616"

text \<open>The filter is a weighted mean.\<close>

lemma westwood_do_filter_mean:
  assumes "unat a < 2305843009213693952" and "unat b < 2305843009213693952"
  shows "unat (westwood_do_filter a b) = (7 * unat a + unat b) div 8"
    and "min (unat a) (unat b) \<le> unat (westwood_do_filter a b)"
    and "unat (westwood_do_filter a b) \<le> max (unat a) (unat b)"
proof -
  have m: "unat (7 * a) = 7 * unat a" using unat_mult_small [of 7 a] assms(1) by simp
  have "unat (7 * a + b) = 7 * unat a + unat b"
    using unat_add_small [of "7 * a" b] assms unfolding m by linarith
  then show v: "unat (westwood_do_filter a b) = (7 * unat a + unat b) div 8"
    unfolding westwood_do_filter_def unat_shift by simp
  show "min (unat a) (unat b) \<le> unat (westwood_do_filter a b)"
    "unat (westwood_do_filter a b) \<le> max (unat a) (unat b)"
    unfolding v by (auto simp: min_def max_def)
qed

text \<open>A window is filtered only when it is longer than 50 ms: its length is not zero.\<close>

lemma westwood_filter_returns: "max r TCP_WESTWOOD_RTT_MIN < d \<Longrightarrow> \<exists>w'. westwood_filter w d = Some w'"
proof -
  assume "max r TCP_WESTWOOD_RTT_MIN < d"
  then have "0 < d" by (rule le_less_trans [OF word_zero_le])
  then have "d \<noteq> 0" by simp
  then show ?thesis by (simp add: westwood_filter_def cdiv_def)
qed

lemma westwood_update_window_returns:
  "\<exists>w. westwood_update_window k sk = Some (upd_ca (\<lambda>_. w) sk)"
proof -
  let ?d = "tcp_time_stamp k - rtt_win_sx (icsk_ca_priv sk)"
  obtain v where v: "(if first_ack (icsk_ca_priv sk) \<noteq> 0
      then upd_ca (\<lambda>w. w\<lparr>w_snd_una := snd_una sk, first_ack := 0\<rparr>) sk else sk) = upd_ca (\<lambda>_. v) sk"
    by (cases "first_ack (icsk_ca_priv sk) \<noteq> 0") (auto simp: upd_ca_def intro: that [of "icsk_ca_priv sk"])
  have u: "westwood_update_window k sk =
      (if w_rtt v \<noteq> 0 \<and> max (w_rtt v) TCP_WESTWOOD_RTT_MIN < ?d then
         westwood_filter v ?d \<bind> (\<lambda>w. Some (upd_ca (\<lambda>_. w\<lparr>bk := 0, rtt_win_sx := tcp_time_stamp k\<rparr>) sk))
       else Some (upd_ca (\<lambda>_. v) sk))"
    unfolding westwood_update_window_def Let_def v by simp
  show ?thesis
  proof (cases "w_rtt v \<noteq> 0 \<and> max (w_rtt v) TCP_WESTWOOD_RTT_MIN < ?d")
    case True
    then obtain w where "westwood_filter v ?d = Some w" using westwood_filter_returns by blast
    then show ?thesis unfolding u if_P [OF True] by (simp only: bind.bind_lunit) blast
  next
    case False
    show ?thesis unfolding u if_not_P [OF False] by blast
  qed
qed

lemma westwood_acked_count_frame: "\<exists>w. snd (westwood_acked_count tp) = upd_ca (\<lambda>_. w) tp"
  unfolding westwood_acked_count_def Let_def snd_conv by (rule exI, rule refl)

text \<open>The window after a loss.\<close>

lemma tcp_westwood_bw_rttmin_val:
  assumes "mss_cache tp \<noteq> 0"
  shows "\<exists>w. tcp_westwood_bw_rttmin tp = Some w \<and> 2 \<le> unat w
    \<and> (unat (bw_est (icsk_ca_priv tp)) * unat (rtt_min (icsk_ca_priv tp)) < 18446744073709551616 \<longrightarrow>
       unat w = max (unat (bw_est (icsk_ca_priv tp)) * unat (rtt_min (icsk_ca_priv tp))
                       div unat (mss_cache tp)) 2)"
  using assms unat_scale [of "bw_est (icsk_ca_priv tp)" "rtt_min (icsk_ca_priv tp)" "mss_cache tp"]
  by (simp add: tcp_westwood_bw_rttmin_def cdiv_def unat_max_word)

lemma westwood_event_keeps:
  assumes "sock_ok westwood_limit tp"
  shows "keeps westwood_limit (\<lambda>_. True) tp (tcp_westwood_event k tp ev)"
proof -
  obtain w where w: "tcp_westwood_bw_rttmin tp = Some w" "2 \<le> unat w"
    using tcp_westwood_bw_rttmin_val [OF sock_okD(3) [OF assms]] by blast
  have "unat w < westwood_limit" using unat_u32_bound [of w] by (simp add: westwood_limit_def)
  then have ok: "sock_ok westwood_limit (tp\<lparr>snd_ssthresh := w\<rparr>)"
    "sock_ok westwood_limit (tp\<lparr>snd_ssthresh := w, snd_cwnd := w\<rparr>)"
    using w(2) assms by (simp_all add: sock_ok_def)
  obtain v where v: "westwood_update_window k tp = Some (upd_ca (\<lambda>_. v) tp)"
    using westwood_update_window_returns by blast
  obtain u where u: "snd (westwood_acked_count (upd_ca (\<lambda>_. v) tp)) = upd_ca (\<lambda>_. u) tp"
    using westwood_acked_count_frame [of "upd_ca (\<lambda>_. v) tp"] by auto
  then show ?thesis
    using assms ok
    by (cases ev)
      (simp_all add: tcp_westwood_event_def westwood_fast_bw_def v w(1) case_prod_beta Let_def)
qed

interpretation westwood: cong_control westwood_limit R tcp_westwood "\<lambda>_. True"
proof unfold_locales
  fix sk :: "westwood tcp_sock" and k
  assume "sock_ok westwood_limit sk"
  then obtain w where "tcp_westwood_bw_rttmin sk = Some w" "2 \<le> unat w"
    using tcp_westwood_bw_rttmin_val [OF sock_okD(3)] by blast
  then show "floor_ok westwood_limit (cc_min_cwnd tcp_westwood sk)"
    using unat_u32_bound [of w] by (simp add: cc_min_cwnd_def tcp_westwood_def westwood_limit_def)
qed (auto simp: cc_init_def cc_ssthresh_def cc_cong_avoid_def cc_cwnd_event_def cc_pkts_acked_def
    null_ops_def tcp_westwood_def tcp_westwood_init_def tcp_reno_ssthresh_yields
    tcp_reno_cong_avoid_keeps tcp_westwood_pkts_acked_def westwood_event_keeps intro!: set_ca_state_keeps)

text \<open>
  \<open>d\<close> duplicate acknowledgments followed by one that acknowledges \<open>n\<close> bytes: the counts add
  up to \<open>n\<close>.
\<close>

primrec count_acks :: "u32 list \<Rightarrow> westwood tcp_sock \<Rightarrow> nat \<times> westwood tcp_sock" where
  "count_acks [] tp = (0, tp)"
| "count_acks (una # unas) tp =
     (let (c, tp) = westwood_acked_count (tp\<lparr>snd_una := una\<rparr>); (n, tp) = count_acks unas tp
      in (unat c + n, tp))"

lemma westwood_dupack:
  assumes "snd_una tp = w_snd_una (icsk_ca_priv tp)"
  shows "westwood_acked_count tp = (mss_cache tp, upd_ca (\<lambda>w. w\<lparr>cumul_ack := mss_cache tp,
     accounted := accounted w + mss_cache tp\<rparr>) tp)"
  using assms by (simp add: westwood_acked_count_def Let_def upd_ca_def)

lemma westwood_partial_ack:
  assumes "snd_una tp - w_snd_una (icsk_ca_priv tp) = n" and "mss_cache tp < n"
    and "accounted (icsk_ca_priv tp) < n"
  shows "westwood_acked_count tp = (n - accounted (icsk_ca_priv tp),
    upd_ca (\<lambda>w. w\<lparr>cumul_ack := n - accounted w, accounted := 0, w_snd_una := snd_una tp\<rparr>) tp)"
proof -
  define w where "w = (icsk_ca_priv tp)\<lparr>cumul_ack := n\<rparr>"
  have n: "n \<noteq> 0" using assms(2) by auto
  have w: "cumul_ack w = n" "accounted w = accounted (icsk_ca_priv tp)" by (simp_all add: w_def)
  have "westwood_acked_count tp = (let w = w\<lparr>cumul_ack := cumul_ack w - accounted w, accounted := 0\<rparr>;
      w = w\<lparr>w_snd_una := snd_una tp\<rparr> in (cumul_ack w, upd_ca (\<lambda>_. w) tp))"
    unfolding westwood_acked_count_def Let_def assms(1) w_def [symmetric] w(1)
    using n assms(2,3) w by (simp only: if_False not_le [symmetric] if_True not_False_eq_True)
  then show ?thesis by (simp add: w Let_def w_def upd_ca_def)
qed

lemma count_dupacks:
  assumes "w_snd_una (icsk_ca_priv tp) = una" and "snd_una tp = una"
    and "unat (accounted (icsk_ca_priv tp)) + d * unat (mss_cache tp) < 18446744073709551616"
  shows "\<exists>tp'. count_acks (replicate d una) tp = (d * unat (mss_cache tp), tp') \<and> mss_cache tp' = mss_cache tp
    \<and> w_snd_una (icsk_ca_priv tp') = una
    \<and> unat (accounted (icsk_ca_priv tp')) = unat (accounted (icsk_ca_priv tp)) + d * unat (mss_cache tp)"
  using assms
proof (induction d arbitrary: tp)
  case 0
  then show ?case by simp
next
  case (Suc d)
  let ?tp = "upd_ca (\<lambda>w. w\<lparr>cumul_ack := mss_cache tp, accounted := accounted w + mss_cache tp\<rparr>) (tp\<lparr>snd_una := una\<rparr>)"
  have a: "unat (accounted (icsk_ca_priv tp) + mss_cache tp)
      = unat (accounted (icsk_ca_priv tp)) + unat (mss_cache tp)"
    using Suc.prems(3) by (intro unat_add_small) simp
  have "westwood_acked_count (tp\<lparr>snd_una := una\<rparr>) = (mss_cache tp, ?tp)"
    using Suc.prems(1) by (subst westwood_dupack) simp_all
  moreover obtain tp' where "count_acks (replicate d una) ?tp = (d * unat (mss_cache tp), tp')"
    "mss_cache tp' = mss_cache tp" "w_snd_una (icsk_ca_priv tp') = una"
    "unat (accounted (icsk_ca_priv tp')) = unat (accounted (icsk_ca_priv tp)) + unat (mss_cache tp) + d * unat (mss_cache tp)"
    using Suc.IH [of ?tp] Suc.prems by (auto simp: a)
  ultimately show ?case by simp
qed

lemma count_acks_append:
  "count_acks (xs @ ys) tp =
     (let (m, tp) = count_acks xs tp; (n, tp) = count_acks ys tp in (m + n, tp))"
  by (induction xs arbitrary: tp) (simp_all add: case_prod_beta Let_def)

lemma westwood_counts_once:
  assumes "snd_una tp = una" and "w_snd_una (icsk_ca_priv tp) = una" and "accounted (icsk_ca_priv tp) = 0"
    and "mss_cache tp < n" and "d * unat (mss_cache tp) < unat n"
  shows "\<exists>tp'. count_acks (replicate d una @ [una + n]) tp = (unat n, tp')
     \<and> accounted (icsk_ca_priv tp') = 0 \<and> w_snd_una (icsk_ca_priv tp') = una + n"
proof -
  obtain tp1 where c: "count_acks (replicate d una) tp = (d * unat (mss_cache tp), tp1)"
    and t: "mss_cache tp1 = mss_cache tp" "w_snd_una (icsk_ca_priv tp1) = una"
      "unat (accounted (icsk_ca_priv tp1)) = d * unat (mss_cache tp)"
    using count_dupacks [OF assms(2,1), of d] assms(3,5) unat_u32_bound [of n] by fastforce
  let ?tp = "tp1\<lparr>snd_una := una + n\<rparr>"
  have lt: "accounted (icsk_ca_priv tp1) < n" using t(3) assms(5) by (simp add: word_less_nat_alt)
  have "westwood_acked_count ?tp = (n - accounted (icsk_ca_priv ?tp),
    upd_ca (\<lambda>w. w\<lparr>cumul_ack := n - accounted w, accounted := 0, w_snd_una := snd_una ?tp\<rparr>) ?tp)"
    using assms(4) lt t by (intro westwood_partial_ack) simp_all
  moreover have "unat (n - accounted (icsk_ca_priv tp1)) = unat n - d * unat (mss_cache tp)"
    using lt t(3) by (subst unat_sub_le) simp_all
  ultimately show ?thesis using assms(5) by (simp add: count_acks_append c)
qed

end
