(* ===== verification/Tcp_Compound.thy ===== *)
theory Tcp_Compound
  imports Cong_Contract Cong_List
begin

text \<open>
  \<open>tcp/linux/src/tcp_compound.c\<close>: Compound TCP, whose window is the sum of a loss-based part
  \<open>cwnd\<close> and a delay-based part \<open>dwnd\<close>. \<open>dwnd\<close> grows by an eighth of the fourth root of the
  cube of the window sent, computed by Newton's iteration (\<open>qroot\<close>). The lemmas show that the
  iteration ends for every argument and how accurate it is, that handling an acknowledgment
  always returns, and that the window is the sum of the two parts; the sum is not clamped and can
  be zero. \<open>abs\<close> is the C function on \<open>int\<close>.
\<close>

definition V_PARAM_SHIFT_compound :: nat where "V_PARAM_SHIFT_compound = 1"
definition TCP_COMPOUND_ALPHA :: nat where "TCP_COMPOUND_ALPHA = 3"
definition TCP_COMPOUND_BETA :: u32 where "TCP_COMPOUND_BETA = 1"
definition TCP_COMPOUND_GAMMA :: u32 where "TCP_COMPOUND_GAMMA = 30"

record compound =
  co_beg_snd_nxt :: u32
  co_beg_snd_una :: u32
  co_beg_snd_cwnd :: u32
  co_doing_vegas_now :: u8
  co_cntRTT :: u16
  co_minRTT :: u32
  co_baseRTT :: u32
  co_cwnd :: u32
  co_dwnd :: u32

definition cvegas_enable :: "compound tcp_sock \<Rightarrow> compound tcp_sock" where
  "cvegas_enable sk = upd_ca (\<lambda>v. v\<lparr>co_doing_vegas_now := 1, co_beg_snd_nxt := snd_nxt sk,
     co_cntRTT := 0, co_minRTT := 0x7fffffff\<rparr>) sk"

definition cvegas_disable :: "compound tcp_sock \<Rightarrow> compound tcp_sock" where
  "cvegas_disable sk = upd_ca (\<lambda>v. v\<lparr>co_doing_vegas_now := 0\<rparr>) sk"

definition tcp_compound_init :: "kernel \<Rightarrow> compound tcp_sock \<Rightarrow> compound tcp_sock option" where
  "tcp_compound_init k sk = Some (upd_ca (\<lambda>v. v\<lparr>co_dwnd := 0, co_cwnd := snd_cwnd sk\<rparr>)
     (cvegas_enable (upd_ca (\<lambda>v. v\<lparr>co_baseRTT := 0x7fffffff\<rparr>) sk)))"

definition tcp_compound_rtt_calc ::
    "kernel \<Rightarrow> compound tcp_sock \<Rightarrow> u32 \<Rightarrow> compound tcp_sock option" where
  "tcp_compound_rtt_calc k sk usrtt =
     (let vrtt = usrtt + 1
      in Some (upd_ca (\<lambda>v.
           let v = (if vrtt < co_baseRTT v then v\<lparr>co_baseRTT := vrtt\<rparr> else v)
           in v\<lparr>co_minRTT := min (co_minRTT v) vrtt, co_cntRTT := co_cntRTT v + 1\<rparr>) sk))"

definition tcp_compound_state ::
    "kernel \<Rightarrow> compound tcp_sock \<Rightarrow> tcp_ca_state \<Rightarrow> compound tcp_sock option" where
  "tcp_compound_state k sk ca_state =
     Some (if ca_state = TCP_CA_Open then cvegas_enable sk else cvegas_disable sk)"

definition cdiv64_64 :: "u64 \<Rightarrow> u64 \<Rightarrow> u64 option" where
  "cdiv64_64 dividend divisor =
     (let big = (0xffffffff < divisor);
          shift = unat (fls (ucast (drop_bit 32 divisor)));
          d = (if big then drop_bit shift divisor else divisor);
          n = (if big then drop_bit shift dividend else dividend)
      in if drop_bit 32 n \<noteq> 0 then map_option fst (do_div n d) else cdiv n d)"

text \<open>The \<open>do ... while\<close> loop of \<open>qroot\<close>.\<close>

partial_function (option) qroot_loop :: "u64 \<Rightarrow> u32 \<Rightarrow> u32 option" where
  "qroot_loop a x1 = do {
     q \<leftarrow> cdiv64_64 a (x1 * x1 * x1);
     let x = (3 * x1 + q) div 4;
     if 1 < \<bar>sint (u32_int (x1 - x))\<bar> then qroot_loop a x else Some x
   }"

definition qroot :: "u64 \<Rightarrow> u32 option" where
  "qroot a = qroot_loop a (push_bit (unat (fls64 a) div 4) 1)"

definition tcp_compound_cwnd_event ::
    "kernel \<Rightarrow> compound tcp_sock \<Rightarrow> tcp_ca_event \<Rightarrow> compound tcp_sock option" where
  "tcp_compound_cwnd_event k sk event =
     (if event = CA_EVENT_CWND_RESTART \<or> event = CA_EVENT_TX_START then tcp_compound_init k sk else Some sk)"

text \<open>The parts of the window are brought in line with a window that others have reduced.\<close>

definition compound_sync :: "compound tcp_sock \<Rightarrow> compound tcp_sock" where
  "compound_sync tp =
     (let v = icsk_ca_priv tp
      in if snd_cwnd tp < co_cwnd v + co_dwnd v then
           if snd_cwnd tp < co_cwnd v \<or> snd_cwnd tp < co_dwnd v
           then upd_ca (\<lambda>v. v\<lparr>co_cwnd := snd_cwnd tp, co_dwnd := 0\<rparr>) tp
           else upd_ca (\<lambda>v. v\<lparr>co_cwnd := snd_cwnd tp - co_dwnd v\<rparr>) tp
         else tp)"

text \<open>Growth of the loss-based part.\<close>

definition compound_increase :: "compound tcp_sock \<Rightarrow> compound tcp_sock" where
  "compound_increase tp =
     (let inc = (co_cwnd (icsk_ca_priv tp) \<le> snd_ssthresh tp);
          tp = (if inc then tp
                else if u16_u32 (snd_cwnd_cnt tp) < snd_cwnd tp
                then tp\<lparr>snd_cwnd_cnt := snd_cwnd_cnt tp + 1\<rparr> else tp);
          full = (snd_cwnd tp \<le> u16_u32 (snd_cwnd_cnt tp));
          tp = (if full then tp\<lparr>snd_cwnd_cnt := 0\<rparr> else tp)
      in if (inc \<or> full) \<and> snd_cwnd tp < u16_u32 (snd_cwnd_clamp tp)
         then upd_ca (\<lambda>v. v\<lparr>co_cwnd := co_cwnd v + 1\<rparr>) tp else tp)"

text \<open>The new delay-based part.\<close>

definition compound_dwnd :: "u32 \<Rightarrow> u32 \<Rightarrow> u32 \<Rightarrow> u32 option" where
  "compound_dwnd old_wnd diff dwnd =
     (if diff < push_bit V_PARAM_SHIFT_compound TCP_COMPOUND_GAMMA then do {
        r \<leftarrow> qroot (old_wnd * old_wnd * old_wnd);
        let x = drop_bit TCP_COMPOUND_ALPHA r;
        Some ((if 1 < x then x - 1 else 0) + dwnd)
      }
      else Some (if push_bit V_PARAM_SHIFT_compound dwnd < diff * TCP_COMPOUND_BETA then 0
                 else drop_bit V_PARAM_SHIFT_compound
                        (push_bit V_PARAM_SHIFT_compound dwnd - diff * TCP_COMPOUND_BETA)))"

text \<open>The adjustment at the end of a round trip; the flag is false where the handler returns early.\<close>

definition compound_adjust :: "compound tcp_sock \<Rightarrow> (compound tcp_sock \<times> bool) option" where
  "compound_adjust tp =
     (if mss_cache tp = 0 then Some (tp, False)
      else do {
        old_wnd \<leftarrow> cdiv (co_beg_snd_nxt (icsk_ca_priv tp) - co_beg_snd_una (icsk_ca_priv tp)) (mss_cache tp);
        let tp = upd_ca (\<lambda>v. v\<lparr>co_beg_snd_una := co_beg_snd_nxt v, co_beg_snd_nxt := snd_nxt tp,
                              co_beg_snd_cwnd := snd_cwnd tp\<rparr>) tp;
        let v = icsk_ca_priv tp;
        if 2 < co_cntRTT v then
          if co_minRTT v = 0 then Some (tp, False)
          else do {
            target_cwnd \<leftarrow> cdiv (push_bit V_PARAM_SHIFT_compound (old_wnd * co_baseRTT v)) (co_minRTT v);
            dwnd \<leftarrow> compound_dwnd old_wnd (push_bit V_PARAM_SHIFT_compound old_wnd - target_cwnd) (co_dwnd v);
            Some (upd_ca (\<lambda>v. v\<lparr>co_dwnd := dwnd, co_cntRTT := 0, co_minRTT := 0x7fffffff\<rparr>) tp, True)
          }
        else Some (upd_ca (\<lambda>v. v\<lparr>co_cntRTT := 0, co_minRTT := 0x7fffffff\<rparr>) tp, True)
      })"

definition tcp_compound_cong_avoid ::
    "kernel \<Rightarrow> compound tcp_sock \<Rightarrow> u32 \<Rightarrow> u32 \<Rightarrow> u32 \<Rightarrow> cint \<Rightarrow> compound tcp_sock option" where
  "tcp_compound_cong_avoid k tp ack seq_rtt in_flight flag =
     (let tp = compound_sync tp
      in if \<not> tcp_is_cwnd_limited tp in_flight then Some tp
         else do {
           let tp = compound_increase tp;
           (tp, go_on) \<leftarrow> (if after ack (co_beg_snd_nxt (icsk_ca_priv tp)) then compound_adjust tp
                           else Some (tp, True));
           Some (if go_on then tp\<lparr>snd_cwnd := co_cwnd (icsk_ca_priv tp) + co_dwnd (icsk_ca_priv tp)\<rparr>
                 else tp)
         })"

text \<open>
  \<open>__RTA_PUT\<close> and \<open>RTA_DATA\<close> are \<open>NULL\<close> here (\<open>ns-linux-c.h\<close>): filling in the structure
  writes through a null pointer.
\<close>

definition tcp_compound_get_info :: "compound tcp_sock \<Rightarrow> u32 \<Rightarrow> compound tcp_sock option" where
  "tcp_compound_get_info sk ext = (if ext AND push_bit (1 - 1) 1 \<noteq> 0 then None else Some sk)"

definition tcp_compound :: "compound tcp_congestion_ops" where
  "tcp_compound = null_ops\<lparr>op_flags := TCP_CONG_RTT_STAMP, op_init := Some tcp_compound_init,
     op_ssthresh := Some tcp_reno_ssthresh, op_cong_avoid := Some tcp_compound_cong_avoid,
     op_min_cwnd := Some tcp_reno_min_cwnd, op_rtt_sample := Some tcp_compound_rtt_calc,
     op_set_state := Some tcp_compound_state, op_cwnd_event := Some tcp_compound_cwnd_event,
     op_get_info := Some tcp_compound_get_info, op_name := ''compound''\<rparr>"

definition tcp_compound_register :: "addr \<Rightarrow> 'p cong_reg \<Rightarrow> (int \<times> 'p cong_reg) option" where
  "tcp_compound_register tbl s = do {
     (ret, s) \<leftarrow> tcp_register_congestion_control tbl s;
     Some (0, s)
   }"

definition tcp_compound_unregister :: "addr \<Rightarrow> 'p cong_reg \<Rightarrow> 'p cong_reg" where
  "tcp_compound_unregister tbl s = tcp_unregister_congestion_control tbl s"

section \<open>The quartic root\<close>

text \<open>Newton's iteration on natural numbers, with a quotient that is at most 2 too large.\<close>

lemma quartic_am_gm:
  fixes x y :: nat
  shows "256 * (x ^ 3 * y) \<le> (3 * x + y) ^ 4"
proof -
  have "(3 * int x + int y) ^ 4 - 256 * (int x ^ 3 * int y) =
      (int x - int y)\<^sup>2 * (81 * (int x)\<^sup>2 + 14 * (int x * int y) + (int y)\<^sup>2)"
    by (simp add: algebra_simps power2_eq_square power3_eq_cube power4_eq_xxxx)
  moreover have "0 \<le> (int x - int y)\<^sup>2 * (81 * (int x)\<^sup>2 + 14 * (int x * int y) + (int y)\<^sup>2)" by simp
  ultimately have "256 * (int x ^ 3 * int y) \<le> (3 * int x + int y) ^ 4" by linarith
  then have "int (256 * (x ^ 3 * y)) \<le> int ((3 * x + y) ^ 4)" by simp
  then show ?thesis by (simp only: of_nat_le_iff)
qed

lemma newton_above:
  fixes a x q :: nat
  assumes "0 < x" and "a div x ^ 3 \<le> q"
  shows "a < ((3 * x + q) div 4 + 1) ^ 4"
proof -
  let ?r = "(3 * x + q) div 4"
  have "a < x ^ 3 * (q + 1)"
  proof -
    have "a < x ^ 3 + x ^ 3 * (a div x ^ 3)" using assms(1) by (intro dividend_less_times_div) simp
    also have "\<dots> \<le> x ^ 3 + x ^ 3 * q" using assms(2) by simp
    finally show ?thesis by simp
  qed
  moreover have "256 * (x ^ 3 * (q + 1)) \<le> (3 * x + (q + 1)) ^ 4" by (rule quartic_am_gm)
  moreover have "(3 * x + (q + 1)) ^ 4 \<le> (4 * (?r + 1)) ^ 4"
  proof (rule power_mono)
    show "3 * x + (q + 1) \<le> 4 * (?r + 1)" by presburger
  qed simp
  moreover have "(4 * (?r + 1)) ^ 4 = 256 * (?r + 1) ^ 4" by (simp only: power_mult_distrib) simp
  ultimately show ?thesis by linarith
qed

lemma newton_step_large:
  fixes a x q :: nat
  assumes "4 \<le> x" and "a < (x + 1) ^ 4" and "q \<le> a div x ^ 3 + 2"
  shows "(3 * x + q) div 4 \<le> x + 1"
proof -
  have "(x + 1) ^ 4 = x ^ 3 * x + 4 * x ^ 3 + (6 * x\<^sup>2 + 4 * x + 1)"
    by (simp add: algebra_simps power2_eq_square power3_eq_cube power4_eq_xxxx)
  moreover have "6 * x\<^sup>2 + 4 * x + 1 \<le> 2 * x ^ 3"
  proof -
    have "4 * x\<^sup>2 \<le> x * x\<^sup>2" using assms(1) by (intro mult_right_mono) simp_all
    moreover have "4 * x \<le> x\<^sup>2" using assms(1) by (simp add: power2_eq_square)
    moreover have "x ^ 3 = x * x\<^sup>2" by (simp add: power2_eq_square power3_eq_cube)
    moreover have "16 \<le> x\<^sup>2" using mult_le_mono [OF assms(1,1)] by (simp add: power2_eq_square)
    ultimately show ?thesis by linarith
  qed
  ultimately have "a < x ^ 3 * (x + 6)" using assms(2) by (simp add: algebra_simps)
  then have "a div x ^ 3 < x + 6" using assms(1) by (simp add: div_less_iff_less_mult mult.commute)
  then show ?thesis using assms(3) by linarith
qed

lemma newton_step_small:
  fixes a x :: nat
  assumes "1 \<le> x" and "x \<le> 3" and "a < (x + 1) ^ 4"
  shows "a < 256" and "a div x ^ 3 \<le> 15" and "(3 * x + a div x ^ 3) div 4 \<le> 4"
proof -
  have "x + 1 = 2 \<or> x + 1 = 3 \<or> x + 1 = 4" using assms(1,2) by linarith
  then have "a < 256 \<and> a div x ^ 3 \<le> 15 \<and> (3 * x + a div x ^ 3) div 4 \<le> 4"
  proof (elim disjE)
    assume h: "x + 1 = 2"
    have "a < 16" using assms(3) unfolding h by simp
    moreover have "x = 1" using h by simp
    ultimately show ?thesis by simp
  next
    assume h: "x + 1 = 3"
    have "a < 81" using assms(3) unfolding h by simp
    moreover from this have "a div 8 \<le> 10" using div_le_mono [of a 80 8] by simp
    moreover have "x = 2" using h by simp
    ultimately show ?thesis by simp
  next
    assume h: "x + 1 = 4"
    have "a < 256" using assms(3) unfolding h by simp
    moreover from this have "a div 27 \<le> 9" using div_le_mono [of a 255 27] by simp
    moreover have "x = 3" using h by simp
    ultimately show ?thesis by simp
  qed
  then show "a < 256" "a div x ^ 3 \<le> 15" "(3 * x + a div x ^ 3) div 4 \<le> 4" by simp_all
qed

text \<open>The result: at most one too small, and not far above the root.\<close>

definition quartic_root :: "nat \<Rightarrow> nat \<Rightarrow> bool" where
  "quartic_root a r \<longleftrightarrow> (r - 5) * (r - 1) ^ 3 \<le> a \<and> a < (r + 1) ^ 4"

lemma quartic_root_exit:
  fixes a x q :: nat
  assumes "0 < x" and "a div x ^ 3 \<le> q" and "q \<le> a div x ^ 3 + 2"
    and "x \<le> (3 * x + q) div 4 + 1" and "(3 * x + q) div 4 \<le> x + 1"
  shows "quartic_root a ((3 * x + q) div 4)"
proof -
  let ?r = "(3 * x + q) div 4"
  have "(?r - 5) * (?r - 1) ^ 3 \<le> a"
  proof (cases "?r \<le> 5")
    case True
    then show ?thesis by simp
  next
    case False
    have "?r - 5 \<le> a div x ^ 3" using assms(3,4) by linarith
    then have "(?r - 5) * x ^ 3 \<le> a div x ^ 3 * x ^ 3" by (rule mult_le_mono1)
    also have "\<dots> \<le> a" by (rule div_times_less_eq_dividend)
    finally have "(?r - 5) * x ^ 3 \<le> a" .
    moreover have "(?r - 1) ^ 3 \<le> x ^ 3" using assms(5) by (intro power_mono) linarith+
    then have "(?r - 5) * (?r - 1) ^ 3 \<le> (?r - 5) * x ^ 3" by (rule mult_le_mono2)
    ultimately show ?thesis by linarith
  qed
  then show ?thesis using newton_above [OF assms(1,2)] by (simp add: quartic_root_def)
qed

text \<open>The loop on words. Both divisions of this code base give the same quotients.\<close>

lemma cdiv64_64_eq:
  assumes "divisor \<noteq> 0"
  shows "cdiv64_64 n divisor = div64_64 n divisor"
proof (cases "unat divisor < 2 ^ 32")
  case True
  then have nb: "\<not> 0xffffffff < divisor" by (simp add: word_less_nat_alt)
  have "cdiv64_64 n divisor = Some (n div divisor)"
    unfolding cdiv64_64_def Let_def using nb do_div_32 [OF assms True] assms by (simp add: cdiv_def)
  then show ?thesis using div64_64_narrow [OF assms True] by simp
next
  case False
  let ?s = "unat (fls (ucast (drop_bit 32 divisor :: u64)))"
  have big: "0xffffffff < divisor" using False by (simp add: word_less_nat_alt)
  have ge: "2 ^ 32 \<le> unat divisor" using False by simp
  note w = div64_64_wide(1) [OF ge, of n] and w3 = div64_64_wide(3) [OF ge]
  have h: "unat (ucast (drop_bit 32 divisor :: u64) :: cint) = unat divisor div 2 ^ 32"
    by (rule unat_high_half_int)
  have "0 < unat divisor div 2 ^ 32" using ge by (simp add: div_greater_zero_iff)
  then have "(ucast (drop_bit 32 divisor :: u64) :: cint) \<noteq> 0" unfolding word_neq_0_unat h .
  from fls_bounds(4) [OF this] have "unat divisor div 2 ^ 32 < 2 ^ ?s" unfolding h .
  then have "unat divisor < 2 ^ ?s * 2 ^ 32" by (simp add: div_less_iff_less_mult)
  then have lt: "unat (drop_bit ?s divisor) < 2 ^ 32"
    unfolding unat_shift by (simp add: div_less_iff_less_mult mult.commute)
  have nz: "drop_bit ?s divisor \<noteq> 0" unfolding word_neq_0_unat using w3 by (rule less_le_trans [rotated]) simp
  have "cdiv64_64 n divisor = Some (drop_bit ?s n div drop_bit ?s divisor)"
    unfolding cdiv64_64_def Let_def using big do_div_32 [OF nz lt] nz by (simp add: cdiv_def)
  then show ?thesis using w by simp
qed

lemma int_difference:
  assumes "unat (x :: u32) < 1073741824" and "unat y < 1073741824"
  shows "sint (u32_int (x - y)) = int (unat x) - int (unat y)"
proof -
  define d where "d = int (unat x) - int (unat y)"
  have "x - y = word_of_int d" by (simp add: d_def)
  then have "u32_int (x - y) = word_of_int (take_bit 64 d)" by (simp only: unsigned_of_int) simp
  also have "\<dots> = word_of_int d" by (simp add: word_of_int_eq_iff take_bit_take_bit)
  finally have "sint (u32_int (x - y)) = signed_take_bit 31 d" by (simp add: sint_sbintrunc')
  also have "\<dots> = d"
  proof (rule signed_take_bit_int_eq_self)
    have p: "(2 :: int) ^ 31 = 2147483648" by simp
    show "- (2 ^ 31) \<le> d" "d < 2 ^ 31" unfolding p d_def using assms by linarith+
  qed
  finally show ?thesis by (simp add: d_def)
qed

definition gap :: "nat \<Rightarrow> nat \<Rightarrow> bool" where
  "gap x y \<longleftrightarrow> x + 1 < y \<or> y + 1 < x"

lemma gap_int: "1 < \<bar>int x - int y\<bar> \<longleftrightarrow> gap x y"
  unfolding gap_def by linarith

lemma qroot_turn:
  assumes "1 \<le> unat x" and "unat x \<le> 262144" and "unat a div unat x ^ 3 \<le> 524288"
  shows "\<exists>q x'. qroot_loop a x = (if gap (unat x) (unat x') then qroot_loop a x' else Some x')
    \<and> unat x' = (3 * unat x + q) div 4 \<and> unat a div unat x ^ 3 \<le> q \<and> q \<le> unat a div unat x ^ 3 + 2
    \<and> (unat x \<le> 3 \<longrightarrow> q = unat a div unat x ^ 3)"
proof -
  let ?x = "unat x"
  have x2: "?x * ?x \<le> 262144 * 262144" using assms(2) by (intro mult_le_mono)
  have "?x * ?x * ?x \<le> 262144 * 262144 * 262144" using x2 assms(2) by (rule mult_le_mono)
  moreover have u2: "unat (x * x) = ?x * ?x" using x2 by (intro unat_mult_small) linarith
  ultimately have "unat (x * x) * ?x < 18446744073709551616" unfolding u2 by linarith
  from unat_mult_small [OF this] have x3: "unat (x * x * x) = ?x ^ 3"
    unfolding u2 by (simp add: power3_eq_cube)
  have nz: "x * x * x \<noteq> 0" unfolding word_neq_0_unat x3 using assms(1) by simp
  obtain r where r: "cdiv64_64 a (x * x * x) = Some r" "unat a div ?x ^ 3 \<le> unat r"
      "unat r \<le> unat a div ?x ^ 3 + 2" "?x ^ 3 < 2 ^ 32 \<longrightarrow> r = a div (x * x * x)"
    using div64_64_accuracy [OF nz, of a] unfolding cdiv64_64_eq [OF nz] x3 by blast
  let ?x' = "(3 * x + r) div 4"
  have "unat (3 * x) = 3 * ?x" using unat_mult_small [of 3 x] assms(2) by simp
  moreover from this have "unat (3 * x + r) = 3 * ?x + unat r"
    using unat_add_small [of "3 * x" r] assms(2,3) r(3) by linarith
  ultimately have x': "unat ?x' = (3 * ?x + unat r) div 4" unfolding unat_div by simp
  then have "unat ?x' < 1073741824" using assms(2,3) r(3) by linarith
  then have d: "sint (u32_int (x - ?x')) = int ?x - int (unat ?x')"
    using assms(2) by (intro int_difference) linarith
  have "qroot_loop a x = (if gap ?x (unat ?x') then qroot_loop a ?x' else Some ?x')"
    by (subst qroot_loop.simps) (simp only: r(1) bind.bind_lunit Let_def d gap_int)
  moreover have "?x \<le> 3 \<longrightarrow> unat r = unat a div ?x ^ 3"
  proof
    assume "?x \<le> 3"
    then have "?x ^ 3 \<le> 3 ^ 3" by (intro power_mono) simp_all
    then have "?x ^ 3 < 2 ^ 32" by simp
    then show "unat r = unat a div ?x ^ 3" using r(4) by (simp add: unat_div x3)
  qed
  ultimately show ?thesis using x' r(2,3) by blast
qed

definition newton_measure :: "nat \<Rightarrow> nat" where
  "newton_measure x = (if x \<le> 2 then 5 else x)"

lemma newton_bound:
  assumes "1 \<le> x" and "x \<le> 262144" and "(a :: nat) < (x + 1) ^ 4"
  shows "a div x ^ 3 \<le> 524288"
proof (cases "x \<le> 3")
  case True
  then show ?thesis using newton_step_small(2) [OF assms(1) _ assms(3)] by linarith
next
  case False
  then have "(3 * x + (a div x ^ 3)) div 4 \<le> x + 1" using assms(3) by (intro newton_step_large [of x a]) simp_all
  then show ?thesis using assms(2) by linarith
qed

lemma qroot_loop_returns:
  assumes "1 \<le> unat x" and "unat x \<le> 262144" and "unat a < (unat x + 1) ^ 4"
  shows "\<exists>r. qroot_loop a x = Some r \<and> quartic_root (unat a) (unat r)"
  using assms
proof (induction "newton_measure (unat x)" arbitrary: x rule: less_induct)
  case less
  note inv = less.prems
  obtain q x' where t: "qroot_loop a x = (if gap (unat x) (unat x') then qroot_loop a x' else Some x')"
    and x': "unat x' = (3 * unat x + q) div 4" and q: "unat a div unat x ^ 3 \<le> q" "q \<le> unat a div unat x ^ 3 + 2"
    and small: "unat x \<le> 3 \<longrightarrow> q = unat a div unat x ^ 3"
    using qroot_turn [OF inv(1,2) newton_bound [OF inv]] by blast
  have up: "unat a < (unat x' + 1) ^ 4" unfolding x' using inv(1) q(1) by (intro newton_above) simp_all
  show ?case
  proof (cases "gap (unat x) (unat x')")
    case False
    then have "quartic_root (unat a) (unat x')" unfolding x' using inv(1) q
      by (intro quartic_root_exit) (simp_all add: gap_def x')
    then show ?thesis using t False by simp
  next
    case True
    have "newton_measure (unat x') < newton_measure (unat x) \<and> 1 \<le> unat x' \<and> unat x' \<le> 262144"
    proof (cases "4 \<le> unat x")
      case True: True
      have "unat x' \<le> unat x + 1" unfolding x' using True inv(3) q(2) by (rule newton_step_large)
      moreover have "3 \<le> unat x'" unfolding x' using True by linarith
      ultimately show ?thesis using \<open>gap (unat x) (unat x')\<close> inv(2) True
        by (auto simp: newton_measure_def gap_def)
    next
      case False
      then have s: "unat x \<le> 3" by simp
      have "unat x' \<le> 4" unfolding x' using newton_step_small(3) [OF inv(1) s inv(3)] small s by simp
      moreover have "unat x = 3 \<Longrightarrow> 2 \<le> unat x'" "unat x = 2 \<Longrightarrow> 1 \<le> unat x'" unfolding x' by linarith+
      moreover have "unat x = 1 \<or> unat x = 2 \<or> unat x = 3" using s inv(1) by linarith
      ultimately show ?thesis using \<open>gap (unat x) (unat x')\<close>
        by (auto simp: newton_measure_def gap_def)
    qed
    then show ?thesis using less.hyps [of x'] up t True by simp
  qed
qed

text \<open>The initial estimate \<open>2 ^ (bits / 4)\<close> needs one turn to get above the root.\<close>

lemma qroot_start:
  fixes a :: u64
  defines "n \<equiv> unat (fls64 a) div 4"
  shows "unat (push_bit n 1 :: u32) = 2 ^ n" and "n \<le> 16" and "unat a div (2 ^ n) ^ 3 \<le> 524288"
proof -
  show n: "n \<le> 16"
    by (cases "a = 0") (use fls64_bounds(2) [of a] in \<open>simp_all add: n_def fls64_def fls_def\<close>)
  have "(2 :: nat) ^ n \<le> 2 ^ 16" using n by (intro power_increasing) simp_all
  then show "unat (push_bit n 1 :: u32) = 2 ^ n" using unat_push_u32 [of 1 n] by simp
  show "unat a div (2 ^ n) ^ 3 \<le> 524288"
  proof (cases "n = 16")
    case True
    have "unat a div (2 ^ n) ^ 3 \<le> 18446744073709551616 div 281474976710656"
      unfolding True using unat_u32_bound [of a] by simp
    then show ?thesis by simp
  next
    case False
    have "unat a < 2 ^ (4 * n + 4)"
    proof (cases "a = 0")
      case False
      have "unat a < 2 ^ unat (fls64 a)" using fls64_bounds(4) [OF False] .
      also have "\<dots> \<le> 2 ^ (4 * n + 4)" unfolding n_def by (intro power_increasing) linarith+
      finally show ?thesis .
    qed simp
    also have "(2 :: nat) ^ (4 * n + 4) = 2 ^ (n + 4) * (2 ^ n) ^ 3"
      unfolding power_mult [symmetric] power_add [symmetric] by (rule arg_cong [where f = "power 2"]) simp
    finally have "unat a div (2 ^ n) ^ 3 < 2 ^ (n + 4)" by (simp add: div_less_iff_less_mult)
    also have "(2 :: nat) ^ (n + 4) \<le> 2 ^ 19" using n False by (intro power_increasing) simp_all
    finally show ?thesis by simp
  qed
qed

lemma qroot_accurate: "\<exists>r. qroot a = Some r \<and> quartic_root (unat a) (unat r)"
proof -
  let ?n = "unat (fls64 a) div 4"
  let ?x = "push_bit ?n 1 :: u32"
  note s = qroot_start [of a]
  have x1: "1 \<le> unat ?x" unfolding s(1) by simp
  have x2: "unat ?x \<le> 65536"
    unfolding s(1) using power_increasing [OF s(2), of "2 :: nat"] by simp
  have x3: "unat a div unat ?x ^ 3 \<le> 524288" unfolding s(1) by (rule s(3))
  obtain q x' where t: "qroot_loop a ?x = (if gap (unat ?x) (unat x') then qroot_loop a x' else Some x')"
    and x': "unat x' = (3 * unat ?x + q) div 4"
    and q: "unat a div unat ?x ^ 3 \<le> q" "q \<le> unat a div unat ?x ^ 3 + 2"
    using qroot_turn [OF x1 order_trans [OF x2] x3] by (auto simp del: push_bit_of_1)
  have up: "unat a < (unat x' + 1) ^ 4" unfolding x' using x1 q(1) by (intro newton_above) simp_all
  show ?thesis
  proof (cases "gap (unat ?x) (unat x')")
    case False
    then have "quartic_root (unat a) (unat x')" unfolding x' using x1 q
      by (intro quartic_root_exit) (simp_all only: gap_def x', linarith+)
    then show ?thesis using t False by (simp add: qroot_def)
  next
    case True
    have "1 \<le> unat x'" using True x1 x' unfolding gap_def by linarith
    moreover have "unat x' \<le> 262144" unfolding x' using q(2) x2 x3 by linarith
    ultimately show ?thesis using qroot_loop_returns [OF _ _ up] t True by (simp add: qroot_def)
  qed
qed

section \<open>The window\<close>

lemma compound_dwnd_bind: "compound_dwnd w diff dwnd \<bind> f = f (the (compound_dwnd w diff dwnd))"
proof -
  obtain r where "qroot (w * w * w) = Some r" using qroot_accurate by blast
  then have "compound_dwnd w diff dwnd \<noteq> None" by (simp add: compound_dwnd_def Let_def)
  then show ?thesis by auto
qed

lemma compound_adjust_returns:
  "\<exists>tp' b. compound_adjust tp = Some (tp', b)
     \<and> (mss_cache tp \<noteq> 0 \<longrightarrow> co_minRTT (icsk_ca_priv tp) \<noteq> 0 \<longrightarrow> b)"
  by (simp add: compound_adjust_def Let_def cdiv_def compound_dwnd_bind) blast

text \<open>
  Handling an acknowledgment always returns; with a segment size and a round-trip sample the new
  window is the sum of the two parts.
\<close>

lemma compound_cong_avoid_sum:
  "\<exists>tp'. tcp_compound_cong_avoid k tp ack rtt in_flight flag = Some tp'
    \<and> (mss_cache tp \<noteq> 0 \<longrightarrow> co_minRTT (icsk_ca_priv tp) \<noteq> 0 \<longrightarrow> snd_cwnd tp \<le> in_flight \<longrightarrow>
       snd_cwnd tp' = co_cwnd (icsk_ca_priv tp') + co_dwnd (icsk_ca_priv tp'))"
proof -
  let ?tp = "compound_increase (compound_sync tp)"
  have f: "mss_cache ?tp = mss_cache tp" "co_minRTT (icsk_ca_priv ?tp) = co_minRTT (icsk_ca_priv tp)"
    "snd_cwnd (compound_sync tp) = snd_cwnd tp"
    by (simp_all add: compound_increase_def compound_sync_def Let_def)
  show ?thesis
    using compound_adjust_returns [of ?tp] f
    by (cases "after ack (co_beg_snd_nxt (icsk_ca_priv ?tp))")
      (auto simp: tcp_compound_cong_avoid_def tcp_is_cwnd_limited_def Let_def)
qed

text \<open>The two parts never exceed the window after they have been brought in line.\<close>

lemma compound_sync_sum:
  assumes "unat (co_cwnd (icsk_ca_priv tp)) + unat (co_dwnd (icsk_ca_priv tp)) < 18446744073709551616"
  shows "co_cwnd (icsk_ca_priv (compound_sync tp)) + co_dwnd (icsk_ca_priv (compound_sync tp)) \<le> snd_cwnd tp"
  using assms by (auto simp: compound_sync_def Let_def not_less)

lemma compound_get_info_traps: "tcp_compound_get_info sk 1 = None"
  by (simp add: tcp_compound_get_info_def)

text \<open>
  A window that was cut to exactly its delay-based part leaves no loss-based part; if the clamp
  stops growth and the backlog then removes the delay-based part, the window is zero.
\<close>

lemma compound_increase_full:
  assumes "u16_u32 (snd_cwnd_clamp tp) \<le> snd_cwnd tp"
  shows "\<exists>n. compound_increase tp = tp\<lparr>snd_cwnd_cnt := n\<rparr>"
proof -
  obtain n where n: "(if co_cwnd (icsk_ca_priv tp) \<le> snd_ssthresh tp then tp
      else if u16_u32 (snd_cwnd_cnt tp) < snd_cwnd tp
      then tp\<lparr>snd_cwnd_cnt := snd_cwnd_cnt tp + 1\<rparr> else tp) = tp\<lparr>snd_cwnd_cnt := n\<rparr>"
  proof (cases "\<not> co_cwnd (icsk_ca_priv tp) \<le> snd_ssthresh tp \<and> u16_u32 (snd_cwnd_cnt tp) < snd_cwnd tp")
    case True
    then show ?thesis using that [of "snd_cwnd_cnt tp + 1"] by simp
  next
    case False
    then show ?thesis using that [of "snd_cwnd_cnt tp"] by auto
  qed
  show ?thesis unfolding compound_increase_def Let_def n
    using assms by (simp add: not_less [symmetric]) blast
qed

lemma compound_window_zero:
  assumes part: "co_dwnd (icsk_ca_priv tp) = snd_cwnd tp" "0 < co_cwnd (icsk_ca_priv tp)"
      "co_cwnd (icsk_ca_priv tp) \<le> snd_cwnd tp" "unat (snd_cwnd tp) < win_limit"
    and full: "u16_u32 (snd_cwnd_clamp tp) \<le> snd_cwnd tp" "snd_cwnd tp \<le> in_flight"
    and rtt: "after ack (co_beg_snd_nxt (icsk_ca_priv tp))" "2 < co_cntRTT (icsk_ca_priv tp)"
      "co_minRTT (icsk_ca_priv tp) \<noteq> 0" "mss_cache tp \<noteq> 0"
    and w: "w = (co_beg_snd_nxt (icsk_ca_priv tp) - co_beg_snd_una (icsk_ca_priv tp)) div mss_cache tp"
    and diff: "diff = push_bit V_PARAM_SHIFT_compound w - push_bit V_PARAM_SHIFT_compound
        (w * co_baseRTT (icsk_ca_priv tp)) div co_minRTT (icsk_ca_priv tp)"
      "60 \<le> diff" "2 * snd_cwnd tp < diff"
  shows "\<exists>tp'. tcp_compound_cong_avoid k tp ack sample in_flight flag = Some tp' \<and> snd_cwnd tp' = 0"
proof -
  let ?c = "snd_cwnd tp" and ?v = "icsk_ca_priv tp"
  have "unat (co_cwnd ?v) < win_limit" using part(3,4) by (simp add: word_le_nat_alt)
  then have "unat (co_cwnd ?v + ?c) = unat (co_cwnd ?v) + unat ?c"
    using part(4) unfolding win_limit_def by (intro unat_add_small) linarith
  then have lt: "?c < co_cwnd ?v + ?c" using part(2) by (simp add: word_less_nat_alt)
  have sync: "compound_sync tp = upd_ca (\<lambda>v. v\<lparr>co_cwnd := 0\<rparr>) tp"
    unfolding compound_sync_def Let_def using lt part(1,3) by (simp add: leD not_less upd_ca_def)
  obtain cnt where inc: "compound_increase (upd_ca (\<lambda>v. v\<lparr>co_cwnd := 0\<rparr>) tp) =
      (upd_ca (\<lambda>v. v\<lparr>co_cwnd := 0\<rparr>) tp)\<lparr>snd_cwnd_cnt := cnt\<rparr>"
    using compound_increase_full [of "upd_ca (\<lambda>v. v\<lparr>co_cwnd := 0\<rparr>) tp"] full(1) by auto
  have d0: "compound_dwnd w diff ?c = Some 0"
    using diff(2,3) by (simp add: compound_dwnd_def V_PARAM_SHIFT_compound_def TCP_COMPOUND_GAMMA_def
        TCP_COMPOUND_BETA_def mult.commute not_less [symmetric])
  show ?thesis
    using rtt full(2) part(1) d0
    by (simp add: tcp_compound_cong_avoid_def inc sync tcp_is_cwnd_limited_def compound_adjust_def Let_def
        cdiv_def w [symmetric] diff(1) [symmetric])
qed

end
