(* ===== verification/Spec2Isabelle.thy ===== *)
theory Spec2Isabelle
  imports Mptcp Dctcp Dctcp_Switch Drop_Tail Full_Sack Full_Net Full_Predict Linux_Recovery Cong_List Tcp_Yeah Tcp_Illinois Tcp_Westwood Tcp_Compound
begin

text \<open>
  Congestion control in ns-2.35, as shipped in this tree (\<open>ns-allinone-2.35/ns-2.35\<close>): TCP-Linux
  (\<open>tcp/linux\<close>, \<open>tcp/tcp-linux.cc\<close>), multipath TCP (\<open>tcp/mptcp.cc\<close>, \<open>tcp/mptcp-full.cc\<close>),
  the full TCP agent with data center TCP and selective acknowledgments (\<open>tcp/tcp-full.cc\<close>,
  \<open>tcp/tcp.cc\<close>, \<open>tcp/rq.cc\<close>), and the queues that drop and mark (\<open>queue/queue.cc\<close>, \<open>queue/drop-tail.cc\<close>, \<open>queue/red.cc\<close>).

  \<^bold>\<open>The program.\<close> \<open>LinuxTcpAgent\<close> (\<open>tcp-linux.cc\<close>) is the sender of a simulated TCP
  connection. It keeps the sequence numbers and the round-trip estimate, and leaves the window to a
  congestion control module, which it calls through a table of function pointers
  (\<open>struct tcp_congestion_ops\<close>). The modules (\<open>tcp/linux/src\<close>) register in a linked list
  (\<open>tcp_cong.c\<close>) and keep their state in a private area of the socket. \<open>ns-linux-c.c\<close>,
  \<open>ns-linux-util.h\<close> and \<open>ns-linux-param.c\<close> supply the kernel's arithmetic, list macros and
  module parameters.

  \<open>MptcpAgent\<close> (\<open>mptcp.cc\<close>) is the core of a multipath connection: it splits a stream of bytes
  over subflows, each a full TCP agent (\<open>MpFullTcpAgent\<close>), by recording in the subflow which
  range of the stream a range of its own sequence numbers carries (\<open>dsn_mapping\<close>); it acknowledges
  the stream from the mappings it receives and computes the factor that couples the windows of the
  subflows. DCTCP is a mode of the full TCP agent: the receiver echoes ECN marks, the sender
  estimates the fraction of marked bytes and cuts its window by it.

  The full TCP agent (\<open>FullTcpAgent\<close>) is two-way TCP: \<open>advance_bytes\<close> lets the application write
  and opens a closed connection, \<open>recv\<close> is the state machine for packets, \<open>foutput\<close> sends one packet and
  \<open>send_much\<close> as many as the window allows, \<open>timeout\<close> handles the timers. It keeps what has arrived out of order in a
  \<open>ReassemblyQueue\<close> (\<open>rq.cc\<close>): segments linked by their numbers and, for SACK, by the time of
  their arrival; the queue holds a reference to \<open>rcv_nxt_\<close>, which its \<open>add\<close> advances.
  \<open>SackFullTcpAgent\<close> reports the queue in the options of its packets, and as a sender keeps the
  reported blocks in a second queue (\<open>sq_\<close>), whose holes it retransmits.

  A link takes its packets from a \<open>Queue\<close>: \<open>recv\<close> hands an arrival to the discipline (\<open>enque\<close>)
  and, when the link is free, sends the next packet on; the link calls \<open>resume\<close> when it has sent.
  \<open>DropTail\<close> drops what does not fit. \<open>REDQueue\<close> keeps an average of the queue, turns it into a
  probability and drops or marks arrivals by it; with weight 1 and one threshold it is the switch of
  DCTCP, whose marks the receiver echoes.

  \<^bold>\<open>Theories.\<close>
  \<^item> \<open>CC_Prelude\<close>: C integer types at their real width, division that may trap, lemmas on
    words. \<open>Tcp_Sock\<close>: the socket, the kernel variables, the table (\<open>ns-linux-util.h\<close>),
    and \<open>sock_ok\<close>, what the sender keeps true of a socket.
  \<^item> \<open>Linux_C\<close>: \<open>fls\<close>, \<open>fls64\<close>, \<open>div64_64\<close>, \<open>do_div\<close>, time helpers, the
    store of module parameters (\<open>ns-linux-c.c\<close>, \<open>ns-linux-c.h\<close>).
  \<^item> \<open>Tcp_Reno\<close> and \<open>Cong_List\<close>: \<open>tcp_cong.c\<close>, slow start, Reno, and the registry. The
    registry is a store of pointers, related to an abstract list of addresses (\<open>dlist\<close>).
  \<^item> \<open>Cong_Contract\<close>: the calls through the table and the contract a module owes the agent, as
    locales: \<open>cong_core\<close>, extended by \<open>cong_ack\<close> (sampling) and \<open>cong_loss\<close> (threshold),
    both joined in \<open>cong_control\<close>. A handler must return, keep \<open>sock_ok\<close> and the module's
    invariant, and leave the fields of the path alone.
  \<^item> one theory per module, \<open>Tcp_<Module>\<close>: its struct as a record, its parameters, every
    handler, its table, its registration; its invariant, the interpretation of the contract, and
    what the handlers compute.
  \<^item> \<open>Linux_Agent\<close>: the agent, the client of the contract, and \<open>ParamList\<close>, the parameters
    local to one agent. The locale \<open>agent_control\<close> extends the contract by the bounds the agent
    needs; in it, every sequence of acknowledgments, timeouts and transmissions is handled without a
    trap. \<open>Agent_Modules\<close> interprets it for ten modules (Reno's is in \<open>Linux_Agent\<close>).
    \<open>Linux_Recovery\<close> adds the locale \<open>quiet_control\<close>, for modules whose events leave the window
    alone, and shows in it that a recovery lasts until the recovery point is acknowledged.
  \<^item> \<open>Scoreboard\<close> and \<open>Scoreboard_Loss\<close>: the SACK scoreboard (\<open>scoreboard1.cc\<close>), a list of
    blocks that tile the outstanding packets (\<open>board_ok\<close>), read as the sets of packets in each
    state (\<open>in_state\<close>); the pass of \<open>UpdateScoreBoard\<close>, the timeout, the retransmissions.
    \<open>Linux_Sender\<close>: agent and scoreboard composed, \<open>send_much\<close>, and the states the sender
    reaches (\<open>sender_reach\<close>); the locale \<open>agent_control\<close> is continued there.
  \<^item> \<open>Ns_Prelude\<close>: the numbers of the simulator's C++ agents. \<open>Mptcp\<close>: the core and its
    subflows; the locale \<open>flow_action\<close> is what the core relies on when a subflow is acted upon,
    interpreted for every action of the code; \<open>mp_step\<close> is the step relation of the whole.
    \<open>Dctcp\<close>: the timer, the cuts of the window, the reaction to an echo, the estimate, and the
    receiver.
  \<^item> \<open>Reassembly\<close>: the queue of segments, its operations, its invariant (\<open>rq_ok\<close>) and the set of
    bytes it holds (\<open>covers\<close>). \<open>Reassembly_Add\<close>: that \<open>add\<close> returns and adds exactly its bytes
    (\<open>added\<close>), \<open>clearto\<close>, \<open>gensack\<close> and \<open>nexthole\<close>, and the queues the class can make
    (\<open>rq_reachable\<close>). \<open>Full_Recv\<close>: the data path of \<open>recv\<close> (trimming, \<open>reass\<close>, FIN)
    and the SACK options. \<open>Full_Sack\<close>: the SACK sender: the scoreboard, the next
    segment to send (\<open>nxt_tseq\<close>), its reaction to acknowledgments, and the exchange with a receiver.
  \<^item> \<open>Full_Agent\<close>: the whole agent (\<open>full_agent\<close>): opening, writing, closing, output, acknowledgments,
    \<open>recv\<close> cut at its labels (a \<open>verdict\<close> says where it goes next), timers; and what leaves the
    connection's numbers alone (\<open>framed\<close>). \<open>Full_Predict\<close>: the two paths of \<open>recv\<close> compared, with all
    that either sends. \<open>Full_Send\<close>: what \<open>foutput\<close> and \<open>send_much\<close> send
    (\<open>packet_ok\<close>) and that they return. \<open>Full_Estab\<close>: the invariant of an established side
    relative to its peer (\<open>est\<close>) and that \<open>recv\<close> keeps it. \<open>Full_Open\<close>: the states of opening
    (\<open>conn\<close>), the handshake, timers, writes. \<open>Full_Net\<close>: two agents and all packets ever sent
    (\<open>net_run\<close>); the locale \<open>duplex\<close> composes handlers that keep an invariant between two sides, and
    is interpreted on the agent's handlers.
  \<^item> \<open>Packet_Queue\<close>: \<open>PacketQueue\<close> and the base class \<open>Queue\<close>, a record that the disciplines
    extend, with their \<open>enque\<close> and \<open>deque\<close> as arguments of \<open>queue_recv\<close>, \<open>queue_resume\<close> and
    \<open>queue_reset\<close>. \<open>Queue_Link\<close>: sequences of arrivals and calls of the link (\<open>link_run\<close>), and
    the locale \<open>queue_discipline\<close>: what a discipline owes the base class, and what follows for the
    network. \<open>Drop_Tail\<close> and \<open>Red_Queue\<close>: the two disciplines, their invariants, the
    interpretations. \<open>Red_Marking\<close>: what RED computes (gaps, gentle mode, range of \<open>max_p\<close>, reset,
    step marking). \<open>Dctcp_Switch\<close>: the specification of a marking switch (\<open>sw_run\<close>), that RED
    refines it, and the circuit of switch, receiver and sender.
  \<^item> this theory: the properties of the program, each a consequence of the library.

  \<^bold>\<open>Conventions.\<close> The build is LP64 and \<open>ns-linux-util.h\<close> defines \<open>__u32\<close> as
  \<open>unsigned long\<close>: a "u32" has 64 bits, a "u16" 32. Words wrap around; a signed \<open>int\<close> is a
  32-bit word read with \<open>sint\<close>, and its overflow is taken as two's complement, as compiled. A
  result \<open>None\<close> is a call that does not return normally: a division by zero, a shift by the width
  or more, a store outside a buffer or through a null pointer, a loop that never ends. Loops are
  \<open>partial_function (option)\<close> where they may diverge and \<open>function\<close> with a measure elsewhere;
  fuel is only in \<open>queue_drain\<close>, one more than the packets queued (enough: \<open>queue_drain_all\<close>), and in
  \<open>util_slots\<close>, where it is the guard of the code. A module's global parameters are a record, the first argument of its handlers.
  Names that clash between modules have the module as a suffix. In the C++ agents an \<open>int\<close> is an
  \<open>int\<close> with the wrap-around written out (\<open>i32\<close>), and a \<open>double\<close> a rational number: rounding
  is not modelled (a quotient by zero, an infinity, is \<open>None\<close> in RED). Fields of the full TCP agent start with \<open>ft_\<close>, of a subflow with \<open>fl_\<close>.

  \<^bold>\<open>Bounds.\<close> Windows below \<open>2 ^ 31\<close> (\<open>win_limit\<close>, an \<open>int\<close> in the simulator), except
  for Westwood and YeAH (\<open>westwood_limit\<close>, \<open>yeah_limit\<close>), whose thresholds are not bounded
  by the window. Times below \<open>2 ^ 50\<close> ms. Round-trip samples up to 32767 ticks, the range of the
  \<open>short\<close> in \<open>rtt_update\<close>; for Hybla up to 774 ticks with \<open>rtt0 = 25\<close>. Sequence numbers of
  MPTCP and DCTCP below \<open>2 ^ 31\<close>. Queues whose packets have at most \<open>M\<close> bytes and whose limit
  times \<open>M\<close> is below \<open>2 ^ 31\<close> (\<open>counters_fit\<close>). Sequence numbers of the full TCP agent from 0 up
  to \<open>SEQ_LIMIT\<close>, the largest \<open>int\<close> (the code compares them without wrap-around); for two agents
  the initial number is below 100000 and each side writes at most 2000000000 bytes, so that no number
  passes \<open>CUR_LIMIT\<close>. These theorems are for agents (\<open>base\<close>) with a window in bytes that is an
  \<open>int\<close>, the standard increase (\<open>wnd_option_\<close> 1), neither timestamps nor data on a SYN nor
  \<open>overhead_\<close>, \<open>ecn_syn_wait_\<close> 0 and timer bounds for which the backoff fits; ECN, DCTCP, delayed
  acknowledgments and the rest are free. Segments that
  are added are not empty: \<open>add\<close> takes an empty one (a bare FIN out of order) too, and the model
  says what it does then, but the theorems are about segments with data.

  \<^bold>\<open>What the lemmas show.\<close> C1 and C3 to C5 the agent and the sender of TCP-Linux: safety of every run,
  one reduction in every recovery, however long, isolation of parameters. C2 two full TCP agents: every handler returns, and
  what is acknowledged has been delivered. C6 to C8 the registry, and C10 the scoreboard's
  update; C14 and C20 transmission and timeout, C18 the update of CUBIC, C29 the progress of
  agent and scoreboard together. C11, C13, C17, C19, C21, C24, C27 and C28 the full TCP
  agent: what \<open>add\<close> does to a reassembly queue (C24), that every queue is well formed (C13), what
  is reported (C21), that every byte is delivered (C28), where the two paths of \<open>recv\<close> agree and where
  they differ (C17), and of the SACK sender what it records and where it aborts (C11), that its search for holes ends (C27), and that it retransmits
  only what its receiver lacks (C19). C30 to C36 multipath TCP: the stream is split without overlap,
  for messages and in the infinite mode, the data acknowledgment, the coupled windows and the factor of the DCTCP mode. C23 and C37 to
  C39 DCTCP: the estimate, the exact echo of one-way data, the two together, the cut. C12 the refinement of the marking switch by RED, and C9 the circuit with
  receiver and sender; C15, C16, C22, C25 and C26 the queues: no packet lost or overtaken, averages
  and probabilities in range, the law of the gaps, the reset, drop-tail. The laws of the modules
  (\<open>reno_additive_increase\<close>, \<open>tcp_slow_start_None_iff\<close>, \<open>hstcp_cong_avoid_ca\<close>,
  \<open>bictcp_recalc_ssthresh_val\<close>, \<open>friendly_loop_closed\<close>, \<open>hybla_cong_avoid_exact\<close>,
  \<open>vegas_ca_step\<close>, \<open>veno_ssthresh_val\<close>, \<open>htcp_undo_restores\<close>, \<open>tcp_lp_pkts_acked_cases\<close>,
  \<open>westwood_counts_once\<close>), of the utilisation (\<open>utilUpdate_ok\<close>) and of \<open>shrink_queue\<close>
  (\<open>shrink_queue_ok\<close>) are in their theories. Where the code misbehaves (C11, C33, C35; and the lemmas
  \<open>get_available_overflow\<close>, \<open>set_congestion_control_never_switches\<close>,
  \<open>hybla_long_path_traps\<close>, \<open>yeah_ssthresh_wraps\<close>, \<open>compound_window_zero\<close>,
  \<open>update_forgets_lost\<close>, \<open>gentle_jump\<close>, \<open>drop_front_bytes\<close>, \<open>merged_block_not_first\<close>,
  \<open>add_moves_back\<close>, \<open>fall_through_skips_ack\<close>) the statement says what it does.

  \<^bold>\<open>Not modelled.\<close> Of the full TCP agent: the subclasses for NewReno and Tahoe, Tcl commands and
  callbacks, counters of packets, and in C2 what happens from \<open>close\<close> on (the model of \<open>Full_Agent\<close> has
  it); of the reassembly queue the printing (\<open>dumplist\<close>) and
  the free list, which is not observable; what TCP does on a subflow is a step of \<open>mp_step\<close> that leaves the mappings alone. Of TCP-Linux:
  packet headers and the floating-point clock (what they contribute to an acknowledgment is the
  argument \<open>ack_view\<close>), the timers of pacing and bursts (arguments of \<open>send_much\<close>), the
  branches of \<open>timeout\<close> with no data outstanding, \<open>load_to_linux\<close> and \<open>save_from_linux\<close>
  (conversions to the simulator's \<open>double\<close> window, exact below \<open>2 ^ 53\<close>), Tcl commands and
  printing. The netlink attributes that \<open>get_info\<close> would fill are not observable in this build
  (\<open>nla_put\<close> is empty). Of the queues: where a dropped packet goes (a drop target), traces and
  printing; the pointers of \<open>PacketQueue\<close> are the list they form; random draws, clock, \<open>exp\<close> and
  \<open>pow\<close> are arguments (\<open>qenv\<close>). The other disciplines and the rest of ns-2, and the bundled Tcl, Tk, OTcl, TclCL, nam, xgraph,
  zlib, cweb and sgb.
\<close>

section \<open>Concrete inputs for the witnesses\<close>

definition sample_sock :: "u32 \<Rightarrow> u32 \<Rightarrow> 'p \<Rightarrow> 'p tcp_sock" where
  "sample_sock w th p = \<lparr>sk_state = 0, snd_nxt = 0, snd_una = 0, mss_cache = 1448,
     srtt = 800, rx_opt = \<lparr>rcv_tsval = 0, rcv_tsecr = 0, saw_tstamp = 0\<rparr>,
     snd_ssthresh = th, snd_cwnd = w, snd_cwnd_cnt = 0, snd_cwnd_clamp = 1000,
     snd_cwnd_stamp = 0, bytes_acked = 0, icsk_ca_ops = None, icsk_ca_state = TCP_CA_Open,
     icsk_ca_priv = p\<rparr>"

definition sample_agent :: "bool \<Rightarrow> 'p tcp_sock \<Rightarrow> 'p agent" where
  "sample_agent i sk = \<lparr>ag_linux = sk, ag_initialized = i, ag_highest_ack = 9, ag_maxseq = 19, ag_t_seqno = 20,
     ag_recover = 0, ag_next_pkts_in_flight = 0, ag_t_srtt = 800, ag_t_rttvar = 100\<rparr>"

definition kernel_at :: "u32 \<Rightarrow> kernel" where
  "kernel_at t = default_kernel\<lparr>tcp_time_stamp := t\<rparr>"

definition sample_ack :: "cint \<Rightarrow> u8 \<Rightarrow> ack_view" where
  "sample_ack s sb = \<lparr>av_seqno = s, av_ecnecho = False, av_prior_in_flight = 10, av_in_flight = 9,
     av_scoreboard = sb, av_ts = Some (4, 5, (100, 100000)), av_timed = None, av_seq_rtt = 100, av_last_ackt = 0\<rparr>"

definition zero_cubic :: bictcp_cubic where
  "zero_cubic = \<lparr>c_cnt = 0, c_last_max_cwnd = 0, c_loss_cwnd = 0, c_last_cwnd = 0, c_last_time = 0,
     bic_origin_point = 0, bic_K = 0, delay_min = 0, c_epoch_start = 0, ack_cnt = 0, tcp_cwnd = 0,
     c_delayed_ack = 32\<rparr>"

definition zero_vegas :: vegas where
  "zero_vegas = \<lparr>beg_snd_nxt = 0, beg_snd_una = 0, beg_snd_cwnd = 0, doing_vegas_now = 0, cntRTT = 0,
     minRTT = 0, baseRTT = 0\<rparr>"

lemmas sample_defs = sample_sock_def sample_agent_def kernel_at_def sample_ack_def default_kernel_def

section \<open>The agent over its modules\<close>

text \<open>
  C1: whatever sequence of acknowledgments, retransmission timeouts and transmissions an agent
  with CUBIC handles, no handler traps or loops for ever, the window stays between 1 segment
  and \<open>2 ^ 31 - 1\<close>, the threshold stays positive, and the smoothed round-trip time stays
  between 8 (one tick) and eight times the largest sample allowed plus one.
\<close>

theorem cubic_agent_safe:
  assumes "agent_ok 32767 cubic_ok t ag" and "ag_initialized ag" and "clock_ok t es"
    and "list_all (event_ok 32767) es"
  shows "\<exists>ag'. agent_run 3 (cubictcp cubic_registered) es ag = Some ag'
    \<and> 1 \<le> unat (snd_cwnd (ag_linux ag')) \<and> unat (snd_cwnd (ag_linux ag')) < 2147483648
    \<and> 1 \<le> unat (snd_ssthresh (ag_linux ag'))
    \<and> 8 \<le> sint (ag_t_srtt ag') \<and> sint (ag_t_srtt ag') < 8 * (int 32767 + 1)"
  using assms by (rule cubic_agent.agent_run_window)

theorem cubic_agent_safe_witness:
  "\<exists>ag'. agent_run 3 (cubictcp cubic_registered)
       [Ack (kernel_at 10) (sample_ack 10 0), Timeout (kernel_at 20), Send (kernel_at 20) 1,
        Ack (kernel_at 30) (sample_ack 19 FLAG_DATA_SACKED)]
       (sample_agent True (sample_sock 10 5 zero_cubic)) = Some ag'
    \<and> 1 \<le> unat (snd_cwnd (ag_linux ag')) \<and> unat (snd_cwnd (ag_linux ag')) < 2147483648
    \<and> 1 \<le> unat (snd_ssthresh (ag_linux ag'))
    \<and> 8 \<le> sint (ag_t_srtt ag') \<and> sint (ag_t_srtt ag') < 8 * (int 32767 + 1)"
  by (rule cubic_agent_safe [where t = 5])
    (simp_all add: sample_defs agent_ok_def sock_ok_def win_limit_def cubic_ok_def zero_cubic_def srtt_ok_def
      ack_ok_def sample_ok_def)

text \<open>
  C3: TCP-Linux as a whole, agent and scoreboard and transmission, with CUBIC. In every state the
  sender reaches, every acknowledgment with SACK blocks for data that were sent, every
  retransmission timeout and every new data is handled: no assertion of the scoreboard fails
  (\<open>exit (1)\<close>), no deleted block is used, no loop runs for ever. Afterwards the scoreboard's
  counters are the numbers of lost and of selectively acknowledged packets, what counts as in flight
  is exactly what was sent, is not acknowledged and not lost, and the window is at least one segment.
\<close>

theorem sender_never_stuck:
  assumes "sender_inv 32767 cubic_ok t0 sn0" and "sender_reach 3 (cubictcp cubic_registered) mb 32767 t0 sn0 t sn"
    and "sender_valid 32767 t sn ev"
  shows "\<exists>out sn'. sender_handle 3 (cubictcp cubic_registered) mb ev sn = Some (out, sn')
    \<and> sb_fack_out (sn_board sn') = int (card (in_state SKB_FLAG_LOST (sb_head (sn_board sn'))))
    \<and> sb_sack_out (sn_board sn') = int (card (in_state SKB_FLAG_SACKED (sb_head (sn_board sn'))))
    \<and> agent_in_flight (sn_agent sn') (sn_board sn') = int (card
        ({sint (ag_highest_ack (sn_agent sn')) + 1 ..< sint (ag_t_seqno (sn_agent sn'))}
          - in_state SKB_FLAG_LOST (sb_head (sn_board sn')) - in_state SKB_FLAG_SACKED (sb_head (sn_board sn'))))
    \<and> 1 \<le> unat (snd_cwnd (ag_linux (sn_agent sn'))) \<and> unat (snd_cwnd (ag_linux (sn_agent sn'))) < 2147483648"
proof -
  obtain out sn' where "sender_handle 3 (cubictcp cubic_registered) mb ev sn = Some (out, sn')"
    "sender_inv 32767 cubic_ok (tcp_time_stamp (sender_kernel ev)) sn'"
    using cubic_agent.sender_handle_ok [OF cubic_agent.sender_reach_ok [OF assms(2,1)] assms(3), of mb] by blast
  then show ?thesis using sender_inv_counts by blast
qed

definition linux_sender :: "'p tcp_sock \<Rightarrow> 'p sender" where
  "linux_sender sk = \<lparr>sn_agent = (sample_agent True sk)\<lparr>ag_highest_ack := 0, ag_t_seqno := 21\<rparr>,
     sn_board = sample_board, sn_curseq = 100\<rparr>"

lemma linux_sender_ok: "sender_inv 32767 cubic_ok 5 (linux_sender (sample_sock 10 5 zero_cubic))"
  using sample_board_ok
  by (auto simp: sender_inv_def full_ok_def linux_sender_def sample_defs agent_ok_def sock_ok_def win_limit_def cubic_ok_def
      zero_cubic_def srtt_ok_def seq_ok_def board_in_def)

lemma sample_ack_valid: "sender_valid 32767 5 (linux_sender (sample_sock 10 5 zero_cubic)) (SAck (kernel_at 10) (sample_ack 1 0) [(4, 6)])"
  by (simp add: linux_sender_def sample_defs sender_ack_ok_def ack_ok_def sample_ok_def sacks_sent_def sacks_ok_def NSA_def)

theorem sender_never_stuck_witness:
  "\<exists>out sn'. sender_handle 3 (cubictcp cubic_registered) 0 (SAck (kernel_at 10) (sample_ack 1 0) [(4, 6)])
      (linux_sender (sample_sock 10 5 zero_cubic)) = Some (out, sn')
    \<and> sb_fack_out (sn_board sn') = int (card (in_state SKB_FLAG_LOST (sb_head (sn_board sn'))))"
  using sender_never_stuck [OF linux_sender_ok sender_reach.start sample_ack_valid, of 0] by blast

text \<open>
  C4: one reduction per window of data, for the agent with CUBIC. When an acknowledgment cuts the
  window (it takes the agent into the state Recovery) with data outstanding, then through whatever
  acknowledgments of data sent before the cut, with whatever losses and ECN echoes they report, and
  whatever transmissions follow, the window and the threshold stay what the cut made them: they are
  neither reduced again nor raised. The first acknowledgment of all the data sent before the cut
  that is not ignored ends the recovery. (Timeouts, which reduce the window in their own way, are
  not among the events.)
\<close>

theorem one_reduction_per_window:
  assumes "agent_ok 32767 cubic_ok t ag" and "ag_initialized ag" and "icsk_ca_state (ag_linux ag) \<noteq> TCP_CA_Recovery"
    and "recv 3 (cubictcp cubic_registered) k av ag = Some ag1" and "icsk_ca_state (ag_linux ag1) = TCP_CA_Recovery"
    and "sint (ag_highest_ack ag1) < sint (ag_maxseq ag1)" and "clock_ok t (Ack k av # es)"
    and "list_all (event_ok 32767) (Ack k av # es)" and "list_all (below (ag_maxseq ag1)) es"
  shows "\<exists>ag2. agent_run 3 (cubictcp cubic_registered) es ag1 = Some ag2 \<and> icsk_ca_state (ag_linux ag2) = TCP_CA_Recovery
    \<and> snd_cwnd (ag_linux ag2) = snd_cwnd (ag_linux ag1) \<and> snd_ssthresh (ag_linux ag2) = snd_ssthresh (ag_linux ag1)
    \<and> (\<forall>k' av'. clock_ok t (Ack k av # es @ [Ack k' av']) \<and> event_ok 32767 (Ack k' av') \<and> \<not> ignored av' ag2
          \<and> sint (ag_maxseq ag1) \<le> sint (av_seqno av') \<longrightarrow>
        (\<exists>ag3. recv 3 (cubictcp cubic_registered) k' av' ag2 = Some ag3 \<and> icsk_ca_state (ag_linux ag3) = TCP_CA_Open))"
  using assms by (rule cubic_recovery.recovery_spans_window)

theorem one_reduction_per_window_witness:
  "\<exists>ag1 ag2. recv 3 (cubictcp cubic_registered) (kernel_at 10) (sample_ack 9 FLAG_DATA_LOST)
        (sample_agent True (sample_sock 10 5 zero_cubic)) = Some ag1
    \<and> agent_run 3 (cubictcp cubic_registered) [Ack (kernel_at 20) (sample_ack 12 FLAG_DATA_LOST), Send (kernel_at 20) 8,
         Ack (kernel_at 30) (sample_ack 18 FLAG_DATA_LOST)] ag1 = Some ag2
    \<and> snd_cwnd (ag_linux ag1) = 7 \<and> snd_cwnd (ag_linux ag2) = 7"
proof -
  let ?ag = "sample_agent True (sample_sock 10 5 zero_cubic)"
  have ok: "agent_ok 32767 cubic_ok 5 ?ag"
    by (simp add: sample_defs agent_ok_def sock_ok_def win_limit_def cubic_ok_def zero_cubic_def srtt_ok_def)
  obtain ag1 where 1: "recv 3 (cubictcp cubic_registered) (kernel_at 10) (sample_ack 9 FLAG_DATA_LOST) ?ag = Some ag1"
    "icsk_ca_state (ag_linux ag1) = TCP_CA_Recovery" "ag_highest_ack ag1 = 9" "ag_maxseq ag1 = 19" "snd_cwnd (ag_linux ag1) = 7"
    by (simp add: recv_def ack_sequence_def ack_flags_def ack_processing_def time_processing_def upd_rx_opt_def rtt_update_def
        cc_rtt_sample_def srtt_step_def ack_notify_def ack_window_def tcp_fastretrans_alert_def agent_reduce_def cc_defs
        cubictcp_def bictcp_recalc_ssthresh_cubic_def bictcp_state_cubic_def bictcp_acked_cubic_def touch_cwnd_def sample_defs
        zero_cubic_def cubic_registered_def cubic_default_def FLAG_DATA_LOST_def FLAG_ECE_def FLAG_DATA_ACKED_def FLAG_UNSURE_TSTAMP_def
        FLAG_NOT_DUP_def FLAG_CA_ALERT_def FLAG_DATA_SACKED_def Let_def)
  show ?thesis
    using one_reduction_per_window [OF ok _ _ 1(1,2), of "[Ack (kernel_at 20) (sample_ack 12 FLAG_DATA_LOST), Send (kernel_at 20) 8,
        Ack (kernel_at 30) (sample_ack 18 FLAG_DATA_LOST)]"] 1
    by (auto simp: sample_defs ack_ok_def sample_ok_def)
qed

text \<open>
  C5: parameters local to one agent do not leak. Between \<open>load_local\<close> and
  \<open>restore_default\<close> the shared variables on the list have the agent's values; afterwards they
  have the values they had before, the list has recorded the values the handlers left, and every
  other variable is as the handlers left it.
\<close>

theorem local_params_isolated:
  assumes "nodes_ok ns" and "load_local (m, ns) = (m1, ns1)" and "restore_default (m2, ns1) = (m3, ns3)"
  shows "(\<forall>p \<in> set ns. m1 (pn_addr p) = pn_value p \<and> m3 (pn_addr p) = m (pn_addr p)
           \<and> get_param (pn_addr p) ns3 = Some (m2 (pn_addr p)))
       \<and> (\<forall>a. a \<notin> set (map pn_addr ns) \<longrightarrow> m1 a = m a \<and> m3 a = m2 a)"
  using assms by (rule param_list_isolates)

theorem local_params_isolated_witness:
  "get_param 1 (snd (restore_default ((\<lambda>_. 7),
      snd (load_local ((\<lambda>_. 0), set_param (\<lambda>_. 0) 1 5 []))))) = Some 7"
  using local_params_isolated [of "set_param (\<lambda>_. 0) 1 5 []" "\<lambda>_. 0" "(\<lambda>_. 0)(1 := 5)"
      "[\<lparr>pn_addr = 1, pn_value = 5, pn_default = 0\<rparr>]" "\<lambda>_. 7" "(\<lambda>_. 7)(1 := 0)" "[\<lparr>pn_addr = 1, pn_value = 7, pn_default = 0\<rparr>]"]
  by (simp add: set_param_def nodes_ok_def)

section \<open>The registry of algorithms\<close>

text \<open>
  C6: \<open>tcp_register_congestion_control\<close> on a well-formed registry: an algorithm without its
  mandatory operations is refused, a name already taken is refused, both without any change; else
  the algorithm is appended at the tail and no table is modified.
\<close>

theorem register_control:
  assumes "reg_ok s xs" and "ca \<noteq> HEAD"
  shows "if op_ssthresh (obj s ca) = None \<or> op_cong_avoid (obj s ca) = None
         then tcp_register_congestion_control ca s = Some (- EINVAL, s)
         else if op_name (obj s ca) \<in> set (reg_names s xs)
         then tcp_register_congestion_control ca s = Some (- EEXIST, s)
         else (\<exists>s'. tcp_register_congestion_control ca s = Some (0, s') \<and> reg_ok s' (xs @ [ca]) \<and> obj s' = obj s)"
  using register_cases [OF assms] by simp

definition reg_table :: "string \<Rightarrow> u32 \<Rightarrow> unit tcp_congestion_ops" where
  "reg_table n fl = tcp_reno\<lparr>op_name := n, op_flags := fl\<rparr>"

text \<open>A registry of two algorithms, at addresses 1 and 2; a third table is at address 3.\<close>

definition sample_reg :: "unit cong_reg" where
  "sample_reg = \<lparr>l_next = (\<lambda>a. if a = 0 then 1 else if a = 1 then 2 else 0),
     l_prev = (\<lambda>a. if a = 0 then 2 else if a = 1 then 0 else 1), l_file = (\<lambda>_. None),
     obj = (\<lambda>a. if a = 1 then reg_table ''reno'' 1 else if a = 2 then reg_table ''vegas'' 0
                else reg_table ''lp'' 0), last_added = 2, cc_list_changed = True\<rparr>"

lemma sample_reg_ok: "reg_ok sample_reg [1, 2]"
  by (simp add: reg_ok_def dlist_def reg_names_def sample_reg_def HEAD_def reg_table_def)

lemma sample_reg_names: "reg_names sample_reg [1, 2] = [''reno'', ''vegas'']"
  by (simp add: reg_names_def sample_reg_def reg_table_def)

theorem register_control_witness:
  "\<exists>s'. tcp_register_congestion_control 3 sample_reg = Some (0, s') \<and> reg_ok s' [1, 2, 3] \<and> obj s' = obj sample_reg"
  using register_control [OF sample_reg_ok, of 3] unfolding sample_reg_names
  by (simp add: sample_reg_def HEAD_def reg_table_def tcp_reno_def)

text \<open>
  C7: choosing the default moves the algorithm of that name to the front of the list, keeps the
  order of the others and makes it unrestricted; an unknown name is refused without a change.
\<close>

theorem set_default_control:
  assumes "reg_ok s xs"
  shows "if n \<notin> set (reg_names s xs) then tcp_set_default_congestion_control n s = Some (- ENOENT, s)
         else (\<exists>s' us a vs. xs = us @ a # vs \<and> op_name (obj s a) = n
           \<and> tcp_set_default_congestion_control n s = Some (0, s') \<and> reg_ok s' (a # us @ vs)
           \<and> op_flags (obj s' a) = op_flags (obj s a) OR TCP_CONG_NON_RESTRICTED)"
  using set_default_cases [OF assms, of n] by simp

theorem set_default_control_witness:
  "\<exists>s'. tcp_set_default_congestion_control ''vegas'' sample_reg = Some (0, s')
    \<and> (\<exists>us a vs. [1, 2] = us @ a # vs \<and> op_name (obj sample_reg a) = ''vegas'' \<and> reg_ok s' (a # us @ vs))"
  using set_default_control [OF sample_reg_ok, of "''vegas''"] unfolding sample_reg_names by auto

text \<open>
  C8: the list of available algorithms, printed into a buffer that holds it and given back to
  \<open>tcp_set_allowed_congestion_control\<close>, allows every registered algorithm (round trip through
  the printed form).
\<close>

theorem available_is_allowed:
  assumes "reg_ok s xs" and "xs \<noteq> []" and "list_all good_name (reg_names s xs)"
    and "unat maxlen = length buf" and "length (join_names (reg_names s xs)) < length buf"
  shows "\<exists>buf' s'. tcp_get_available_congestion_control buf maxlen s = Some buf'
     \<and> tcp_set_allowed_congestion_control (c_string buf') s = Some (0, s')
     \<and> (\<forall>a \<in> set xs. \<not> restricted s' a)"
  using assms by (rule available_then_allowed)

theorem available_is_allowed_witness:
  "\<exists>buf' s'. tcp_get_available_congestion_control (replicate 16 (CHR 0x00)) 16 sample_reg = Some buf'
     \<and> tcp_set_allowed_congestion_control (c_string buf') sample_reg = Some (0, s')
     \<and> (\<forall>a \<in> set [1, 2]. \<not> restricted s' a)"
  by (rule available_is_allowed [OF sample_reg_ok])
    (unfold sample_reg_names, simp_all add: good_name_def)

text \<open>
  C10: \<open>UpdateScoreBoard\<close> with the SACK blocks of an acknowledgment: the pass over the board
  ends without a failed assertion or a dangling pointer; afterwards the packets marked as
  acknowledged are exactly those marked before and those of the blocks that are not stale, beyond
  the acknowledgment; the board still covers its packets without gap or overlap, ends no further
  than the data reported, and counts its lost and acknowledged packets. When the highest
  acknowledged packet has moved, no packet more than the duplicate threshold below it is still
  taken for in flight, and lost packets are offered for retransmission.
\<close>

theorem update_scoreboard_exact:
  assumes "board_ok una e b" and "una \<le> ack + 1" and "sacks_ok ack ss"
  shows "\<exists>flag b' e'. UpdateScoreBoard ack ss dup b = Some (flag, b') \<and> board_ok (ack + 1) e' b'
    \<and> (\<forall>N. e \<le> N \<longrightarrow> ack + 1 \<le> N \<longrightarrow> (\<forall>s \<in> set ss. snd s \<le> N) \<longrightarrow> e' \<le> N)
    \<and> in_state SKB_FLAG_SACKED (sb_head b') = (in_state SKB_FLAG_SACKED (sb_head b) \<union> fresh_sacks ack ss) \<inter> {ack + 1 ..}
    \<and> (sb_fack b' \<noteq> sb_fack b \<longrightarrow> (sb_retrx b' = None \<longrightarrow> sb_fack_out b' = 0)
        \<and> in_state SKB_FLAG_INFLIGHT (sb_head b') \<inter> {.. sb_fack b' - (dup + 1)} = {})"
  using assms by (rule update_ok)

theorem update_scoreboard_exact_witness:
  "\<exists>flag b' e'. UpdateScoreBoard 1 [(4, 6)] 3 sample_board = Some (flag, b') \<and> board_ok 2 e' b'
    \<and> in_state SKB_FLAG_SACKED (sb_head b') = {4, 5, 20}"
proof -
  have "{4 ..< 6} = {4, 5 :: int}" by auto
  then have "(in_state SKB_FLAG_SACKED (sb_head sample_board) \<union> fresh_sacks 1 [(4, 6)]) \<inter> {1 + 1 ..} = {4, 5, 20}"
    by (auto simp: sample_board_def new_node_def GetEnd_def fresh_sacks_def)
  then show ?thesis
    using update_scoreboard_exact [OF sample_board_ok, of 1 "[(4, 6)]" 3] by (auto simp: sacks_ok_def NSA_def)
qed

section \<open>Transmission, timeout, and the update of CUBIC\<close>

text \<open>
  C14: \<open>send_much\<close> returns from every good state and fills the window, no more. It sends lost
  packets first, the least ones, in order, each once, and they leave the set of lost packets; new
  packets follow in order, and only when the scoreboard offers none that is lost; each packet sent
  is one more in flight, and the packets in flight do not exceed the larger of the window and
  \<open>next_pkts_in_flight_\<close> (if they did not before). It stops only because that limit is reached,
  for pacing, for want of data, or after \<open>maxburst\<close> packets.
\<close>

theorem send_much_fills_window:
  assumes "sender_ok sn" and "\<not> delsnd \<or> force"
    and "ag = sn_agent sn" and "sb = sn_board sn" and "LOST = (\<lambda>sb. in_state SKB_FLAG_LOST (sb_head sb))"
  shows "\<exists>rs out sn'. send_much force delsnd paced maxburst sn = Some (out, sn') \<and> sender_ok sn'
    \<and> out = rs @ [sint (ag_t_seqno ag) .. sint (ag_t_seqno (sn_agent sn')) - 1]
    \<and> sorted_wrt (<) rs \<and> set rs \<subseteq> LOST sb \<and> LOST (sn_board sn') = LOST sb - set rs
    \<and> (\<forall>x \<in> set rs. \<forall>y \<in> LOST (sn_board sn'). x < y)
    \<and> (sint (ag_t_seqno ag) < sint (ag_t_seqno (sn_agent sn')) \<longrightarrow> sb_retrx (sn_board sn') = None)
    \<and> (sb_retrx sb \<noteq> None \<longrightarrow> sb_retrx (sn_board sn') = None \<longrightarrow> LOST (sn_board sn') = {})
    \<and> agent_in_flight (sn_agent sn') (sn_board sn') = agent_in_flight ag sb + int (length out)
    \<and> agent_in_flight (sn_agent sn') (sn_board sn')
        \<le> max (agent_in_flight ag sb) (max (window_of ag) (sint (ag_next_pkts_in_flight ag)))
    \<and> (max (window_of ag) (sint (ag_next_pkts_in_flight (sn_agent sn'))) \<le> agent_in_flight (sn_agent sn') (sn_board sn')
       \<or> paced \<and> \<not> force \<or> sb_retrx (sn_board sn') = None \<and> sint (sn_curseq sn) \<le> sint (ag_t_seqno (sn_agent sn'))
       \<or> maxburst \<noteq> 0 \<and> maxburst \<le> int (length out))"
proof -
  obtain out sn' n where r: "send_much force delsnd paced maxburst sn = Some (out, sn')" "sender_ok sn'"
    "sint n \<le> sint (ag_next_pkts_in_flight ag)"
    "filled (window_of ag) (sint (sn_curseq sn)) (ag\<lparr>ag_next_pkts_in_flight := n\<rparr>) sb out (sn_agent sn') (sn_board sn')"
    "send_stops (paced \<and> \<not> force) maxburst (sint (sn_curseq sn)) (window_of ag) (length out) (sn_agent sn') (sn_board sn')"
    using send_much_ok [OF assms(1,2), of paced maxburst, folded assms(3,4)] by (elim exE conjE) (rule that)
  define ag1 where "ag1 = ag\<lparr>ag_next_pkts_in_flight := n\<rparr>"
  have ag1: "ag_t_seqno ag1 = ag_t_seqno ag" "agent_in_flight ag1 sb = agent_in_flight ag sb"
    "ag_next_pkts_in_flight ag1 = n"
    by (simp_all add: ag1_def agent_in_flight_def)
  have L: "in_state SKB_FLAG_LOST (sb_head x) = LOST x" for x
    by (simp add: assms(5))
  note F = r(4) [folded ag1_def, unfolded filled_def ag1 L]
  obtain rs where rs: "out = rs @ [sint (ag_t_seqno ag) .. sint (ag_t_seqno (sn_agent sn')) - 1]"
    "sorted_wrt (<) rs" "set rs \<subseteq> LOST sb" "LOST (sn_board sn') = LOST sb - set rs"
    "\<forall>x \<in> set rs. \<forall>y \<in> LOST (sn_board sn'). x < y"
    using conjunct1 [OF F] by (elim exE conjE) (rule that)
  have f: "sint (ag_t_seqno ag) < sint (ag_t_seqno (sn_agent sn')) \<longrightarrow> sb_retrx (sn_board sn') = None"
    "sb_retrx sb \<noteq> None \<longrightarrow> sb_retrx (sn_board sn') = None \<longrightarrow> LOST (sn_board sn') = {}"
    "agent_in_flight (sn_agent sn') (sn_board sn') = agent_in_flight ag sb + int (length out)"
    "agent_in_flight (sn_agent sn') (sn_board sn') \<le> max (agent_in_flight ag sb) (max (window_of ag) (sint n))"
    using F by blast+
  have "agent_in_flight (sn_agent sn') (sn_board sn')
      \<le> max (agent_in_flight ag sb) (max (window_of ag) (sint (ag_next_pkts_in_flight ag)))"
    using f(4) r(3) by linarith
  with rs f(1-3) r(1,2) r(5) [unfolded send_stops_def] show ?thesis
    by (intro exI conjI) assumption+
qed

theorem send_much_fills_window_witness:
  "\<exists>out sn'. send_much False False False 0 (linux_sender (sample_sock 10 5 zero_cubic)) = Some (out, sn')
    \<and> agent_in_flight (sn_agent sn') (sn_board sn') \<le> 10"
proof -
  define sn where "sn = linux_sender (sample_sock 10 5 zero_cubic)"
  have "sender_ok sn" using linux_sender_ok by (simp add: sn_def sender_inv_def sender_ok_def full_ok_def)
  from send_much_fills_window [OF this _ refl refl refl, of False False False 0] obtain out sn' where
    "send_much False False False 0 sn = Some (out, sn')" "agent_in_flight (sn_agent sn') (sn_board sn')
      \<le> max (agent_in_flight (sn_agent sn) (sn_board sn)) (max (window_of (sn_agent sn)) (sint (ag_next_pkts_in_flight (sn_agent sn))))"
    by blast
  moreover have "agent_in_flight (sn_agent sn) (sn_board sn) = 5" "window_of (sn_agent sn) = 10" "ag_next_pkts_in_flight (sn_agent sn) = 0"
    by (simp_all add: sn_def linux_sender_def sample_defs agent_in_flight_def packets_in_flight_def sample_board_def window_of_def)
  ultimately show ?thesis unfolding sn_def [symmetric] by auto
qed

text \<open>
  C18: \<open>bictcp_update\<close> of CUBIC returns from every state with the module's invariant, for the
  parameters its registration computes: no division by zero in the cube root, the time offset or
  the increment, and the friendliness loop ends. Unless it leaves early, the number of
  acknowledgments per segment it computes is not zero.
\<close>

theorem cubic_update_returns:
  assumes "cubic_vars_ok P" and "cubic_ok ca" and "cwnd \<noteq> 0" and "unat cwnd < 4294967296"
  shows "\<exists>ca'. bictcp_update_cubic P k ca cwnd = Some ca' \<and> cubic_ok ca'
    \<and> (ca' = ca\<lparr>ack_cnt := ack_cnt ca + 1\<rparr> \<or> c_cnt ca' \<noteq> 0)"
  using assms by (rule bictcp_update_cubic_returns)

theorem cubic_update_returns_witness:
  "\<exists>ca'. bictcp_update_cubic cubic_registered (kernel_at 1000) zero_cubic 100 = Some ca' \<and> cubic_ok ca'"
  using cubic_update_returns [OF cubic_registered_ok, of zero_cubic 100 "kernel_at 1000"]
  by (auto simp: cubic_ok_def zero_cubic_def win_limit_def)

text \<open>
  C20: a retransmission timeout: \<open>MarkLoss\<close> makes every outstanding packet that is not
  selectively acknowledged a lost one, in flight or retransmitted before or never seen by the board;
  none counts as in flight, the acknowledged ones stay acknowledged, and the first lost packet is
  offered for retransmission.
\<close>

theorem timeout_loses_all:
  assumes "board_ok una e b" and "0 \<le> una" and "una \<le> nxt" and "e \<le> nxt"
  shows "board_ok una nxt (MarkLoss una nxt b)
    \<and> in_state SKB_FLAG_SACKED (sb_head (MarkLoss una nxt b)) = in_state SKB_FLAG_SACKED (sb_head b)
    \<and> in_state SKB_FLAG_LOST (sb_head (MarkLoss una nxt b)) = {una ..< nxt} - in_state SKB_FLAG_SACKED (sb_head b)
    \<and> packets_in_flight una nxt (MarkLoss una nxt b) = 0
    \<and> (sb_retrx (MarkLoss una nxt b) = None \<longrightarrow> sb_fack_out (MarkLoss una nxt b) = 0)"
  by (intro conjI MarkLoss_ok [OF assms])

theorem timeout_loses_all_witness:
  "in_state SKB_FLAG_LOST (sb_head (MarkLoss 1 25 sample_board)) = {1 ..< 25} - {20}
    \<and> packets_in_flight 1 25 (MarkLoss 1 25 sample_board) = 0"
  using timeout_loses_all [OF sample_board_ok, of 25] by (simp add: sample_board_def new_node_def GetEnd_def)

section \<open>Agent and scoreboard composed\<close>

text \<open>
  C29: a timeout makes progress. In every state the sender reaches with a packet outstanding that
  is not selectively acknowledged, the handler of the timeout sends at once, and the first packet
  it sends is the first one not acknowledged.
\<close>

theorem timeout_retransmits_first:
  assumes "sender_inv 32767 cubic_ok t0 sn0" and "sender_reach 3 (cubictcp cubic_registered) mb 32767 t0 sn0 t sn"
    and "sender_valid 32767 t sn (STimeout k)"
    and "missing = {sint (ag_highest_ack (sn_agent sn)) + 1 ..< sint (ag_t_seqno (sn_agent sn))}
      - in_state SKB_FLAG_SACKED (sb_head (sn_board sn))" and "missing \<noteq> {}"
  shows "\<exists>out sn'. sender_handle 3 (cubictcp cubic_registered) mb (STimeout k) sn = Some (out, sn') \<and> out \<noteq> []
    \<and> hd out = Min missing"
  using cubic_agent.sender_timeout_first [OF cubic_agent.sender_reach_ok [OF assms(2,1)] assms(3) refl refl, of mb] assms(4,5)
  by blast

theorem timeout_retransmits_first_witness:
  "\<exists>out sn'. sender_handle 3 (cubictcp cubic_registered) 0 (STimeout (kernel_at 20)) (linux_sender (sample_sock 10 5 zero_cubic))
      = Some (out, sn') \<and> hd out = Min ({1 ..< 21} - {20})"
proof -
  have v: "sender_valid 32767 5 (linux_sender (sample_sock 10 5 zero_cubic)) (STimeout (kernel_at 20))" by (simp add: sample_defs)
  let ?sn = "linux_sender (sample_sock 10 5 zero_cubic)"
  have m: "{1 ..< 21} - {20} = {sint (ag_highest_ack (sn_agent ?sn)) + 1 ..< sint (ag_t_seqno (sn_agent ?sn))}
      - in_state SKB_FLAG_SACKED (sb_head (sn_board ?sn))"
    by (simp add: linux_sender_def sample_agent_def sample_board_def new_node_def GetEnd_def)
  have "1 \<in> {1 ..< 21} - {20 :: int}" by simp
  then have "{1 ..< 21} - {20 :: int} \<noteq> {}" by blast
  from timeout_retransmits_first [OF linux_sender_ok sender_reach.start v m this, of 0] show ?thesis by blast
qed

section \<open>Multipath TCP\<close>

definition sample_flow :: mpflow where
  "sample_flow = \<lparr>fl_state = TCPS_ESTABLISHED, fl_size = 1000, fl_curseq = 0, fl_iss = 0, fl_cwnd = 2, fl_ssthresh = 1,
     fl_maxseq = 1, fl_highest_ack = 1, fl_t_srtt = 800, fl_srtt_bits = 3, fl_t_backoff = 1, fl_dupacks = 0,
     fl_fastrecov = False, fl_increase_num = 1, fl_max_ssthresh = 0, fl_maxcwnd = 0, fl_last_cwnd_action = 0,
     fl_initial_window = 2, fl_wnd = 20, fl_srtt_init = 0, fl_primary = True, fl_allow_slowstart = True,
     fl_mpcapable = False, fl_mpjoin = False, fl_mpack = False, fl_dsnmap = [], fl_recv_dsnmap = []\<rparr>"

definition sample_core :: "bool \<Rightarrow> int \<Rightarrow> mptcp" where
  "sample_core l tot = \<lparr>subflows = [\<lparr>sf_used = True, sf_addr = 1, sf_port = 1, sf_daddr = 3, sf_dport = 1, sf_tcp = sample_flow\<rparr>,
       \<lparr>sf_used = True, sf_addr = 2, sf_port = 1, sf_daddr = 4, sf_dport = 1, sf_tcp = sample_flow\<lparr>fl_cwnd := 6\<rparr>\<rparr>],
     sub_num = 2, dsts = [], dst_num = 0, total_bytes = tot, mcurseq = 1, mackno = 1, infinite_send = False,
     lia = l, lia_dctcp = \<not> l, alpha = 1, dackmap = []\<rparr>"

lemmas sample_mptcp_defs = sample_flow_def sample_core_def active_flows_def mptcp_get_srtt_def mptcp_get_cwnd_def

lemma sample_core_ok: "0 \<le> tot \<Longrightarrow> tot < 2147483647 \<Longrightarrow> stream_ok (sample_core l tot)"
  by (simp add: stream_ok_def byte_owners_def sample_core_def sample_flow_def)

text \<open>
  C30: whatever the application, the core and the subflows do in whatever order (bytes handed over,
  a message of a given length or sending without end, \<open>sendmsg (-1)\<close>; turns of
  \<open>send_control\<close>; packets that arrive and leave; windows that open; and TCP's own steps), no
  byte of the stream is in two of the mappings that the subflows hold, and no byte from
  \<open>mcurseq_\<close> on is in any. The sequence numbers are assumed to stay below 2^31 (\<open>stream_ok\<close>
  for a message, the condition of the step \<open>turn\<close> for endless sending).
\<close>

theorem stream_mapped_once:
  assumes "mp_step\<^sup>*\<^sup>* m m'" and "stream_ok m"
  shows "byte_owners m' d \<le> (if 1 \<le> d \<and> d < mcurseq m' then 1 else 0)"
  using mp_reach_ok [OF assms] unfolding stream_ok_def by blast

theorem stream_mapped_once_witness:
  "byte_owners (mptcp_sendmsg (- 1) (sample_core True 0)) 700
     \<le> (if (1::int) \<le> 700 \<and> 700 < mcurseq (mptcp_sendmsg (- 1) (sample_core True 0)) then 1 else 0)"
  by (rule stream_mapped_once [OF sendmsg_reaches [OF sample_core_ok mp_step.endless] sample_core_ok])
    (simp_all add: turns_fit_def hand_over_def sample_core_def sample_flow_def numeral_2_eq_2)

text \<open>
  C31: \<open>send_control\<close> conserves the stream, for a message and for endless sending alike: the
  bytes between the old and the new \<open>mcurseq_\<close> are each given to exactly one subflow and no
  other byte changes hands. For a message exactly they are taken off \<open>total_bytes_\<close>, which
  stays non-negative; with \<open>infinite_send_\<close> the total is left alone. (The sequence numbers of
  the round fit an \<open>int\<close>: \<open>stream_ok\<close> and, for endless sending, \<open>turns_fit\<close>.)
\<close>

theorem send_control_exact:
  assumes "stream_ok m" and "turns_fit [0..<sub_num m] m"
  shows "mcurseq m \<le> mcurseq (send_control m)
    \<and> total_bytes (send_control m)
        = (if infinite_send m then total_bytes m else total_bytes m - (mcurseq (send_control m) - mcurseq m))
    \<and> 0 \<le> total_bytes (send_control m)
    \<and> (\<forall>d. byte_owners (send_control m) d
        = byte_owners m d + (if mcurseq m \<le> d \<and> d < mcurseq (send_control m) then 1 else 0))"
  using send_control_maps [OF assms] unfolding maps_next_def stream_ok_def by blast

theorem send_control_exact_witness:
  "mcurseq (send_control (sample_core True 1500)) + total_bytes (send_control (sample_core True 1500)) = 1501
    \<and> total_bytes (send_control (hand_over (- 1) (sample_core True 0))) = TCP_MAXSEQ"
  using send_control_exact [OF sample_core_ok, of 1500 True]
    send_control_exact [OF mp_step_ok [OF mp_step.endless sample_core_ok], of 0 True]
  by (simp add: sample_core_def hand_over_def turns_fit_def sample_flow_def numeral_2_eq_2)

text \<open>
  C32: data that arrive in the order of the stream are acknowledged exactly: after blocks of
  lengths \<open>ns\<close>, each starting at the current data acknowledgment, the acknowledgment has
  advanced by their sum.
\<close>

theorem in_order_acknowledged:
  assumes "ack_ready m" and "\<forall>n \<in> set ns. 0 < n" and "mackno m + sum_list ns < 2147483648"
  shows "mackno (fold (\<lambda>n m. set_dataack (mackno m) n m) ns m) = mackno m + sum_list ns"
proof -
  have "arrive_next = (\<lambda>n m. set_dataack (mackno m) n m)" by (simp add: fun_eq_iff arrive_next_def)
  then show ?thesis using in_order_acks [OF assms] by simp
qed

theorem in_order_acknowledged_witness:
  "mackno (fold (\<lambda>n m. set_dataack (mackno m) n m) [1000, 500] (sample_core True 0)) = 1501"
  using in_order_acknowledged [of "sample_core True 0" "[1000, 500]"] by (simp add: ack_ready_def sample_core_def)

text \<open>
  C33: but the data acknowledgment follows the block that arrived last. When the record up to the
  acknowledgment is the only one, a block beyond a gap makes the core acknowledge the gap, which it
  never received; an old block inside the record makes the acknowledgment go backwards.
\<close>

theorem data_ack_follows_last_block:
  assumes "dackmap m = [p]" and "mackno m = dk_ackno p + dk_length p" and "0 \<le> dk_ackno p" and "0 \<le> dk_length p"
    and "mackno m < 2147483648" and "0 \<le> n" and "b + n < 2147483648"
    and "mackno m < b \<or> dk_ackno p \<le> b \<and> b + n < mackno m"
  shows "mackno (set_dataack b n m) = b + n"
  using assms by (rule set_dataack_follows)

theorem data_ack_follows_last_block_witness:
  "mackno (set_dataack 5001 1000 ((sample_core True 0)\<lparr>mackno := 1001, dackmap := [\<lparr>dk_ackno = 1, dk_length = 1000\<rparr>]\<rparr>)) = 6001"
  using data_ack_follows_last_block [of "(sample_core True 0)\<lparr>mackno := 1001, dackmap := [\<lparr>dk_ackno = 1, dk_length = 1000\<rparr>]\<rparr>"
      "\<lparr>dk_ackno = 1, dk_length = 1000\<rparr>" 1000 5001] by simp

text \<open>
  C34: LIA is fair: with equal round-trip times on all paths (between a microsecond and 30 s) and
  no path in fast recovery, all subflows together grow by at most one segment per round trip in
  congestion avoidance, as one TCP does. (A window's worth of acknowledgments adds
  \<open>cwnd * increment\<close> to a subflow.)
\<close>

theorem lia_grows_like_one_tcp:
  assumes "lia m" and "\<not> lia_dctcp m" and "active_flows m \<noteq> []"
    and "\<forall>f \<in> set (active_flows m). path_up tick f \<and> mptcp_get_srtt tick f = r \<and> \<not> fl_fastrecov f \<and> fl_increase_num f = 1"
    and "total_window (active_flows m) < 2147483648" and "1 / 1000000 \<le> r" and "r \<le> 30"
  shows "(\<Sum>f \<leftarrow> active_flows m. fl_cwnd f * coupled_increment (alpha (calculate_alpha tick m)) (get_totalcwnd m) f) \<le> 1"
  using assms by (rule lia_total_growth)

theorem lia_grows_like_one_tcp_witness:
  "(\<Sum>f \<leftarrow> active_flows (sample_core True 0).
      fl_cwnd f * coupled_increment (alpha (calculate_alpha (1 / 100) (sample_core True 0))) (get_totalcwnd (sample_core True 0)) f) \<le> 1"
  by (rule lia_grows_like_one_tcp [where r = 1])
    (simp_all add: sample_mptcp_defs path_up_def total_window_def trunc_int_def take_Suc_Cons numeral_2_eq_2)

text \<open>
  C35: the mode \<open>lia_dctcp_alpha_\<close> computes exactly this factor: over the paths with fewer
  than two timeouts (\<open>t_backoff_\<close> below 4), the total window by the smallest round-trip time by
  the sum of \<open>cwnd / rtt\<close>, which is at least 1. It is computed only when that smallest
  round-trip time is below one millisecond, every one of the times is at least a microsecond, and
  the sum is at least a thousandth; otherwise the factor stays what it was.
\<close>

theorem dctcp_mode_factor:
  assumes "\<not> lia m" and "lia_dctcp m" and "fs = live_flows m"
    and "\<forall>f \<in> set fs. 0 \<le> trunc_int (mptcp_get_cwnd f)" and "total_window fs < 2147483648"
    and "sm = (\<Sum>f \<leftarrow> fs. of_int (trunc_int (mptcp_get_cwnd f)) / mptcp_get_srtt tick f)"
    and "mn = Min (mptcp_get_srtt tick ` set fs)"
    and "computed \<longleftrightarrow> (\<forall>f \<in> set fs. 1 / 1000000 \<le> mptcp_get_srtt tick f) \<and> 1 / 1000 \<le> sm \<and> mn < 1 / 1000"
  shows "calculate_alpha tick m = (if computed then m\<lparr>alpha := of_int (total_window fs) / mn / sm\<rparr> else m)
    \<and> (computed \<longrightarrow> 1 \<le> of_int (total_window fs) / mn / sm)"
proof -
  have sm: "sm = (\<Sum>f \<leftarrow> fs. path_rate tick f)" using assms(6) by (simp only: path_rate_def)
  have "\<not> computed \<longleftrightarrow> (\<exists>f \<in> set fs. mptcp_get_srtt tick f < 1 / 1000000) \<or> sm < 1 / 1000 \<or> 1 / 1000 \<le> mn"
    unfolding assms(8) de_Morgan_conj not_le not_less bex_simps ball_simps by blast
  then show ?thesis
    using dctcp_mode_value [OF assms(1-5) sm assms(7)] assms(8) by presburger
qed

theorem dctcp_mode_factor_witness:
  "alpha (calculate_alpha (1 / 1000000) ((sample_core False 0)\<lparr>alpha := 0\<rparr>)) = 1"
  using dctcp_mode_factor [OF _ _ refl _ _ refl refl refl, of "(sample_core False 0)\<lparr>alpha := 0\<rparr>" "1 / 1000000"]
  by (simp add: sample_mptcp_defs live_flows_def total_window_def trunc_int_def take_Suc_Cons numeral_2_eq_2)

text \<open>
  C36: an acknowledgment never opens a subflow's window further than plain TCP would, and never
  closes it; \<open>max_ssthresh_\<close> and \<open>maxcwnd_\<close> are off, as they are by default.
\<close>

theorem coupled_never_more_than_tcp:
  assumes "0 \<le> alpha (calculate_alpha tick m)" and "i < length (subflows m)" and "f = sf_tcp (subflows m ! i)"
    and "0 < fl_cwnd f" and "0 \<le> fl_increase_num f" and "fl_max_ssthresh f \<le> 0" and "fl_maxcwnd f = 0"
  shows "fl_cwnd f \<le> fl_cwnd (sf_tcp (subflows (mp_opencwnd tick i m) ! i))
    \<and> fl_cwnd (sf_tcp (subflows (mp_opencwnd tick i m) ! i)) \<le> fl_cwnd f
        + (if fl_cwnd f < of_int (fl_ssthresh f) \<and> fl_allow_slowstart f then 1 else fl_increase_num f / fl_cwnd f)"
  using assms by (rule opencwnd_bounds)

theorem coupled_never_more_than_tcp_witness:
  "fl_cwnd (sf_tcp (subflows (mp_opencwnd (1 / 100) 0 (sample_core False 0)) ! 0)) \<le> 2 + 1 / 2"
proof -
  have a: "alpha (calculate_alpha (1 / 100) (sample_core False 0)) = 1"
    by (simp add: calculate_alpha_def sample_mptcp_defs trunc_int_def i32_def take_Suc_Cons numeral_2_eq_2 Let_def)
  have f: "sf_tcp (subflows (sample_core False 0) ! 0) = sample_flow" by (simp add: sample_core_def)
  show ?thesis
    using coupled_never_more_than_tcp [of "1 / 100" "sample_core False 0" 0 sample_flow] a f
    by (simp add: sample_core_def sample_flow_def)
qed

section \<open>DCTCP\<close>

definition sample_sender :: full_tcp where
  "sample_sender = \<lparr>ft_cwnd = 8, ft_ssthresh = 4, ft_wnd = 20, ft_frto = 0, ft_recover = 10, ft_maxseq = 60, ft_highest_ack = 50, ft_size_b = 1000,
     ft_last_cwnd_action = 0, ft_wnd_option = 1, ft_precision_reduce = True, ft_decrease_num = 1 / 2, ft_low_window = 38,
     ft_first_decrease = 0, ft_wnd_restart = 1, ft_wnd_init = 2, ft_W_used = 0, ft_ncwndcuts = 0, ft_ncwndcuts1 = 0, ft_necnresponses = 0,
     ft_cong_action = False, ft_fcnt = 0, ft_count_t = 0, ft_ecn_backoff = False, ft_t_rtt = 1, ft_t_srtt = 8, ft_t_rttvar = 4, ft_t_rtxcur = 3,
     ft_t_backoff = 1, ft_srtt_bits = 3, ft_rttvar_bits = 2, ft_rttvar_exp = 2, ft_tcp_tick = 1 / 100, ft_minrto = 1 / 5, ft_maxrto = 60,
     ft_boot_time = 0, ft_rfc2988 = True, ft_use_rtt = False, ft_ts_option = False, ft_dctcp = True, ft_dctcp_alpha = 1 / 2,
     ft_dctcp_g = 1 / 16, ft_dctcp_total = 0, ft_dctcp_marked = 0, ft_dctcp_alpha_update_seq = 2000, ft_dctcp_maxseq = 4000\<rparr>"

definition sample_rx :: ecn_rx where
  "sample_rx = \<lparr>rx_ecn = True, rx_ect = True, rx_dctcp = True, rx_recent_ce = False, rx_ce_transition = False,
     rx_rcv_nxt = 50, rx_last_ack_sent = 50, rx_acknow = False, rx_delack = False, rx_irs = 0, rx_spa_thresh = 0,
     rx_segs_per_ack = 2, rx_maxseg = 1000, rx_acks = []\<rparr>"

text \<open>
  C37: the sender's estimate of the fraction of marked bytes stays a fraction: between 0 and 1,
  with no more bytes counted as marked than in total, over every sequence of acknowledgments that
  cannot overflow the counters.
\<close>

theorem estimate_stays_fraction:
  assumes "estimate_ok s" and "\<forall>a \<in> set as. 0 \<le> fst a \<and> fst a \<le> K" and "ft_highest_ack s \<le> K" and "K < 2147483648"
    and "ft_dctcp_total s + (K - ft_highest_ack s) + ft_size_b s * int (length as) < 2147483648"
  shows "0 \<le> ft_dctcp_alpha (fold ack_arrives as s) \<and> ft_dctcp_alpha (fold ack_arrives as s) \<le> 1
    \<and> 0 \<le> ft_dctcp_marked (fold ack_arrives as s) \<and> ft_dctcp_marked (fold ack_arrives as s) \<le> ft_dctcp_total (fold ack_arrives as s)"
  using estimate_run [OF assms] by (simp add: estimate_ok_def)

theorem estimate_stays_fraction_witness:
  "ft_dctcp_alpha (fold ack_arrives [(1050, True), (1050, False), (3050, True)] sample_sender) \<le> 1"
  using estimate_stays_fraction [of sample_sender "[(1050, True), (1050, False), (3050, True)]" 4000]
  by (simp add: estimate_ok_def sample_sender_def)

text \<open>
  C38: while data flow one way, in order, the DCTCP receiver reports the marks exactly, whatever
  its policy of delayed acknowledgments and whenever it sends an acknowledgment of its own accord:
  once everything is acknowledged, the bytes acknowledged with the echo are exactly the bytes that
  arrived marked. (The segments take the predicted path: they acknowledge nothing new and find the
  queue empty. With data both ways a segment that acknowledges new data falls through to the slow
  path and the report is wrong: lemma \<open>fall_through_skips_ack\<close> in \<open>Dctcp\<close>.)
\<close>

theorem marks_echoed_exactly:
  assumes "rx_start a r" and "\<forall>n ce. Segment n ce \<in> set es \<longrightarrow> 0 < n" and "a + sent_bytes es < 2147483648"
  shows "echoed a (rx_acks (fold rx_step (es @ [Output]) r)) = marked_bytes es
    \<and> last_ack a (rx_acks (fold rx_step (es @ [Output]) r)) = a + sent_bytes es"
  using assms by (rule echoes_exact)

theorem marks_echoed_exactly_witness:
  "echoed 50 (rx_acks (fold rx_step ([Segment 1000 False, Segment 700 True, Delack, Segment 300 True, Segment 1000 False] @ [Output])
     sample_rx)) = 1000"
  using marks_echoed_exactly [of 50 sample_rx
      "[Segment 1000 False, Segment 700 True, Delack, Segment 300 True, Segment 1000 False]"]
  by (auto simp: rx_start_def sample_rx_def sent_bytes_def marked_bytes_def)

text \<open>
  C39: receiver and sender together: when the acknowledgments of one window of data have arrived
  (each acknowledging something new, the last one beyond the barrier), the estimate has moved by
  the factor \<open>g\<close> towards the true fraction of marked bytes among those sent.
\<close>

theorem estimate_follows_marks:
  assumes "rx_start a r" and "\<forall>n ce. Segment n ce \<in> set es \<longrightarrow> 0 < n" and "a + sent_bytes es < 2147483648"
    and "rx_acks (fold rx_step (es @ [Output]) r) = as @ [(k, e)]" and "increasing a (as @ [(k, e)])"
    and "ft_highest_ack s = a" and "ft_dctcp_total s = 0" and "ft_dctcp_marked s = 0"
    and "\<forall>x \<in> set as. fst x \<le> ft_dctcp_alpha_update_seq s" and "ft_dctcp_alpha_update_seq s < k"
  shows "ft_dctcp_alpha (fold ack_arrives (rx_acks (fold rx_step (es @ [Output]) r)) s)
    = (1 - ft_dctcp_g s) * ft_dctcp_alpha s + ft_dctcp_g s * (of_int (marked_bytes es) / of_int (sent_bytes es))"
  using assms by (rule estimate_exact)

lemma sample_acks:
  "rx_acks (fold rx_step ([Segment 1000 False, Segment 1000 True, Segment 500 True] @ [Output]) sample_rx)
     = [(1050, False)] @ [(2550, True)]"
  by (simp add: sample_rx_def recv_in_order_def ce_update_def ack_previous_def take_data_def need_send_def output_ack_def
      i32_def Let_def)

theorem estimate_follows_marks_witness:
  "ft_dctcp_alpha (fold ack_arrives (rx_acks (fold rx_step ([Segment 1000 False, Segment 1000 True, Segment 500 True] @ [Output]) sample_rx))
       sample_sender) = (1 - 1 / 16) * (1 / 2) + 1 / 16 * (1500 / 2500)"
  using estimate_follows_marks [OF _ _ _ sample_acks, of 50 sample_sender]
  by (auto simp: rx_start_def sent_bytes_def marked_bytes_def sample_sender_def) (simp_all add: sample_rx_def)

text \<open>
  C23: an ECN echo makes a DCTCP sender cut its window by the factor \<open>1 - alpha / 2\<close>, to no
  less than half the window and no less than one segment, and no further echo for data sent before
  the cut changes anything.
\<close>

theorem ecn_cuts_once:
  assumes "1 < ft_cwnd s \<or> \<not> ft_ecn_backoff s \<or> \<not> ft_rfc2988 s"
    and "ft_recover s < n \<or> ft_last_cwnd_action s = CWND_ACTION_TIMEOUT" and "ft_dctcp s"
    and "0 \<le> ft_dctcp_alpha s" and "ft_dctcp_alpha s \<le> 1" and "0 \<le> windowd s"
  shows "\<exists>s'. ecn pow_l d n s = Some s' \<and> ft_cwnd s' = max 1 ((1 - ft_dctcp_alpha s / 2) * windowd s)
    \<and> windowd s / 2 \<le> ft_cwnd s' \<and> ft_cwnd s' \<le> max 1 (windowd s) \<and> 2 \<le> ft_ssthresh s'
    \<and> (\<forall>k \<le> ft_maxseq s. ecn pow_l d k s' = Some s')"
  using assms by (rule ecn_response)

theorem ecn_cuts_once_witness:
  "\<exists>s'. ecn (\<lambda>x. x) (1 / 2) 50 sample_sender = Some s' \<and> ft_cwnd s' = 6 \<and> ecn (\<lambda>x. x) (1 / 2) 60 s' = Some s'"
  using ecn_cuts_once [of sample_sender 50 "\<lambda>x. x" "1 / 2"] by (auto simp: sample_sender_def windowd_def)

section \<open>The queues and the switch\<close>

text \<open>A RED queue with the parameters of a DCTCP switch: mark from two packets on, room for ten.\<close>

definition sample_edp :: edp where
  "sample_edp = \<lparr>ep_mean_pktsize = 1000, ep_idle_pktsize = 1000, ep_bytes = False, ep_wait = False,
     ep_setbit = True, ep_gentle = False, ep_th_min = 2, ep_th_min_pkts = 2, ep_th_max = 2, ep_th_max_pkts = 2,
     ep_max_p_inv = 1, ep_mark_p = 1, ep_use_mark_p = True, ep_q_w = 1, ep_adaptive = 0, ep_cautious = 0,
     ep_alpha = 1 / 100, ep_beta = 9 / 10, ep_interval = 1 / 2, ep_targetdelay = 1 / 200, ep_top = 1 / 2,
     ep_bottom = 1 / 100, ep_feng_adaptive = 0, ep_ptc = 1000, ep_delay = 0\<rparr>"

definition sample_edv :: edv where
  "sample_edv = \<lparr>ev_v_ave = 0, ev_v_prob1 = 0, ev_v_slope = 0, ev_v_prob = 0, ev_v_a = 1, ev_v_b = - 2, ev_v_c = 0,
     ev_v_d = 0, ev_count = 0, ev_count_bytes = 0, ev_old = 0, ev_cur_max_p = 1, ev_lastset = 0,
     ev_status = Between\<rparr>"

definition sample_red :: "int \<Rightarrow> red" where
  "sample_red limit = \<lparr>q_lim = limit, q_blocked = False, q_unblock_on_resume = True, q_pq = pq_new, q_true_ave = 0,
     q_total_time = 0, q_last_change = 0, q_old_util = 0, q_util_weight = 1, q_util_check_intv = 1,
     q_period_begin = 0, q_cur_util = 0, q_buf_slot = 0, q_util_buf = [], q_util_records = 0,
     rd_edp = sample_edp, rd_edv = sample_edv, rd_idle = True, rd_idletime = 0, rd_summarystats = False,
     rd_qib = False, rd_drop_front = False, rd_drop_rand = False, rd_ns1_compat = False, rd_curq = 0,
     rd_link = Some 8000000\<rparr>"

definition sample_env :: "rat \<Rightarrow> qenv" where
  "sample_env t = \<lparr>qe_now = t, qe_uniform = 1 / 2, qe_integer = (\<lambda>k. 0), qe_exp = (\<lambda>x. 1 / (1 - x)),
     qe_pow = (\<lambda>x y. x)\<rparr>"

definition sample_pkt :: "nat \<Rightarrow> qpkt" where
  "sample_pkt n = \<lparr>pk_uid = n, pk_size = 1000, pk_ect = True, pk_ce = False\<rparr>"

definition sample_arrivals :: "nat list \<Rightarrow> qevent list" where
  "sample_arrivals ns = map (\<lambda>n. Arrive (sample_env (of_nat n)) (sample_pkt n)) ns"

lemmas sample_queue_defs = sample_red_def sample_edp_def sample_edv_def sample_env_def sample_pkt_def

lemma sample_red_inv: "0 \<le> l \<Longrightarrow> l < 1000 \<Longrightarrow> red_inv 1500 (sample_red l)"
  by (simp add: sample_queue_defs red_inv_def red_params_ok_def red_curve_def th_diff_def in_unit_def
    red_room_def red_limit_def red_top_def counters_fit_def pq_new_within)

lemma sample_events:
  "events_ok draws_ok 1500 (sample_arrivals ns)" "events_ok draw_unit 1500 (sample_arrivals ns)"
  "events_ok (\<lambda>e. True) 1500 (sample_arrivals ns)"
  "arrivals (sample_arrivals ns) = map sample_pkt ns" "uids (map sample_pkt ns) = ns"
  "length (sample_arrivals ns) = length ns"
  by (induction ns) (simp_all add: sample_arrivals_def sample_queue_defs draws_ok_def draw_unit_def pkt_ok_def)

text \<open>
  C12: RED with the parameters of DCTCP is the marking switch it is meant to be. Whatever packets
  arrive and whenever the link asks for the next one, as long as the buffer has room the queue and
  the link do what the specification \<open>sw_run\<close> does: no packet is dropped, packets leave in order,
  and a packet is marked exactly if it and the packet before it found \<open>K\<close> or more (and more than
  one) in the queue.
\<close>

theorem red_is_marking_switch:
  assumes "sw_rel M K q s" and "events_ok draw_unit M evs" and "\<forall>p\<in>set (arrivals evs). pk_ect p"
    and "distinct (uids (pkts q @ arrivals evs))" and "ev_count (rd_edv q) + int (length evs) < 2147483648"
    and "sw_fits (rd_qib q) K (red_limit q) evs s"
  shows "\<exists>q'. link_run red_enque red_deque evs q = Some (q', snd (sw_run (rd_qib q) K evs s), [])
    \<and> sw_rel M K q' (fst (sw_run (rd_qib q) K evs s))"
  using assms by (rule switch_refines)

definition sample_switch :: switch where
  "sample_switch = \<lparr>sw_queue = [], sw_busy = False, sw_over = False\<rparr>"

lemma sample_switch_rel: "sw_rel 1500 2 (sample_red 10) sample_switch"
  using sample_red_inv [of 10]
  by (simp add: sw_rel_def sample_switch_def sample_queue_defs step_marking_def pq_new_def)

theorem red_is_marking_switch_witness:
  "\<exists>q'. link_run red_enque red_deque (sample_arrivals [1, 2, 3, 4, 5, 6]) (sample_red 10)
      = Some (q', [sample_pkt 1], [])
    \<and> pkts q' = [sample_pkt 2, sample_pkt 3, sample_pkt 4, (sample_pkt 5)\<lparr>pk_ce := True\<rparr>, (sample_pkt 6)\<lparr>pk_ce := True\<rparr>]"
proof -
  have d: "pkts (sample_red 10) = []" "rd_qib (sample_red 10) = False" "red_limit (sample_red 10) = 10"
    "ev_count (rd_edv (sample_red 10)) = 0"
    by (simp_all add: sample_queue_defs pq_new_def red_limit_def)
  have run: "sw_run False 2 (sample_arrivals [1, 2, 3, 4, 5, 6]) sample_switch =
      (\<lparr>sw_queue = [sample_pkt 2, sample_pkt 3, sample_pkt 4, (sample_pkt 5)\<lparr>pk_ce := True\<rparr>,
         (sample_pkt 6)\<lparr>pk_ce := True\<rparr>], sw_busy = True, sw_over = True\<rparr>, [sample_pkt 1])"
    and fits: "sw_fits False 2 10 (sample_arrivals [1, 2, 3, 4, 5, 6]) sample_switch"
    by (simp_all add: sample_arrivals_def sample_switch_def sw_arrive_def sw_pass_def sw_above_def backlog_def)
  show ?thesis
    using red_is_marking_switch [OF sample_switch_rel sample_events(2) [of "[1, 2, 3, 4, 5, 6]"]] run fits d
    by (auto simp: sample_events sw_rel_def sample_pkt_def)
qed

text \<open>
  C15: a link with a RED queue, in every configuration. Whatever packets arrive, and whatever the
  random draws, every call returns (no packet to remove is ever missing from the list); the packets
  that arrived are those delivered, those dropped and those still queued; what is delivered and
  queued keeps the order of arrival; a link that is free has nothing waiting.
\<close>

theorem red_link_keeps_packets:
  assumes "red_inv M q" and "events_ok draws_ok M evs" and "distinct (uids (pkts q @ arrivals evs))"
  shows "\<exists>q' s d. link_run red_enque red_deque evs q = Some (q', s, d) \<and> red_inv M q'
    \<and> mset (uids (pkts q @ arrivals evs)) = mset (uids s) + mset (uids d) + mset (uids (pkts q'))
    \<and> subseq (uids (s @ pkts q')) (uids (pkts q @ arrivals evs))
    \<and> (works q \<longrightarrow> works q')"
  using rq.link_run_ok [OF assms] unfolding kept_def by metis

theorem red_link_keeps_packets_witness:
  "\<exists>q' s d. link_run red_enque red_deque (sample_arrivals [1, 2, 3, 4]) (sample_red 2) = Some (q', s, d)
    \<and> mset [1, 2, 3, 4] = mset (uids s) + mset (uids d) + mset (uids (pkts q'))"
proof -
  have u: "uids (pkts (sample_red 2) @ arrivals (sample_arrivals [1, 2, 3, 4])) = [1, 2, 3, 4]"
    by (simp add: sample_arrivals_def sample_pkt_def sample_red_def pq_new_def)
  have i: "red_inv 1500 (sample_red 2)" and d: "distinct [1, 2, 3, 4 :: nat]"
    by (simp_all add: sample_red_inv)
  show ?thesis
    using red_link_keeps_packets [OF i sample_events(1) [of "[1, 2, 3, 4]"], unfolded u, OF d] by blast
qed

text \<open>
  C16: a RED queue that marks (\<open>setbit_\<close>, \<open>use_mark_p_\<close>, \<open>mark_p_\<close> at least 1) never drops an
  ECN-capable packet while it has room, and it puts marks on such packets only. After every arrival
  the average lies between 0 and the largest queue, the probability between 0 and 1, the queue
  within its limit, and the counters are those of the list.
\<close>

theorem red_arrival:
  assumes "red_inv M q" and "draws_ok e" and "pkt_ok M p" and "pk_uid p \<notin> set (uids (pkts q))"
  shows "\<exists>q' ds p'. red_enque e p q = Some (q', ds) \<and> mset (pkts q' @ ds) = mset (pkts q @ [p'])
    \<and> (p' = p \<or> pk_ect p \<and> ep_setbit (rd_edp q) \<and> p' = p\<lparr>pk_ce := True\<rparr>)
    \<and> (pk_ect p \<and> ep_setbit (rd_edp q) \<and> ep_use_mark_p (rd_edp q) \<and> 1 \<le> ep_mark_p (rd_edp q)
         \<and> red_qsize q < red_limit q \<longrightarrow> ds = [])
    \<and> 0 \<le> ev_v_ave (rd_edv q') \<and> ev_v_ave (rd_edv q') \<le> of_int (red_top M q)
    \<and> in_unit (ev_v_prob (rd_edv q')) \<and> int (length (pkts q')) \<le> max 0 (red_limit q) \<and> pq_ok (q_pq q')"
proof -
  obtain q' ds p' where r: "red_enque e p q = Some (q', ds)" "red_inv M q'" "same_pkt p p'"
    "p' \<noteq> p \<Longrightarrow> ep_setbit (rd_edp q)" "mset (pkts q' @ ds) = mset (pkts q @ [p'])"
    "red_frame (q\<lparr>q_pq := q_pq q'\<rparr>) q'"
    "ep_setbit (rd_edp q) \<Longrightarrow> pk_ect p \<Longrightarrow> ep_use_mark_p (rd_edp q) \<Longrightarrow> 1 \<le> ep_mark_p (rd_edp q) \<Longrightarrow>
       red_qsize q < red_limit q \<Longrightarrow> ds = []"
    by (rule red_enque_ok [OF assms]) blast
  have "red_room q' = red_room q" "red_top M q' = red_top M q"
    using r(6) by (simp_all add: red_frame_def red_room_def red_top_def red_limit_def)
  then have i: "0 \<le> ev_v_ave (rd_edv q')" "ev_v_ave (rd_edv q') \<le> of_int (red_top M q)"
    "in_unit (ev_v_prob (rd_edv q'))" "int (length (pkts q')) \<le> max 0 (red_limit q)" "pq_ok (q_pq q')"
    using r(2) by (simp_all add: red_inv_def pq_within_def red_room_def)
  have "p' = p \<or> pk_ect p \<and> ep_setbit (rd_edp q) \<and> p' = p\<lparr>pk_ce := True\<rparr>"
    using r(3,4) unfolding same_pkt_def by blast
  with r(1,5,7) i show ?thesis
    by blast
qed

theorem red_arrival_witness:
  "\<exists>q'. red_enque (sample_env 1) (sample_pkt 7) (sample_red 10) = Some (q', [])
    \<and> ev_v_ave (rd_edv q') \<le> 10 \<and> pq_ok (q_pq q')"
proof -
  have "draws_ok (sample_env 1)" "pkt_ok 1500 (sample_pkt 7)" "pk_uid (sample_pkt 7) \<notin> set (uids (pkts (sample_red 10)))"
    by (simp_all add: draws_ok_def pkt_ok_def sample_queue_defs pq_new_def)
  from red_arrival [OF _ this] sample_red_inv [of 10] show ?thesis
    by (auto simp: sample_queue_defs red_top_def red_room_def red_limit_def red_qsize_def pq_new_def)
qed

text \<open>
  C22: \<open>modify_p\<close> makes the gaps between notifications uniform (for an average that does not move):
  after a notification, each of the next packets is the next to be notified with the same
  probability, \<open>p / (1 - p)\<close>; with \<open>wait_\<close> and \<open>p = 1 / n\<close>, none of the first \<open>n - 1\<close> is, and each
  of the following \<open>n\<close> with probability \<open>1 / n\<close>.
\<close>

theorem red_gaps_uniform:
  "0 < p \<Longrightarrow> p < 1 \<Longrightarrow> 1 \<le> k \<Longrightarrow> of_nat (Suc k) * p \<le> 1 \<Longrightarrow> 0 < n \<Longrightarrow> 1 \<le> j \<Longrightarrow> j < 2 * n \<Longrightarrow>
     gap_law False p k = p / (1 - p) \<and> gap_law True (1 / of_nat n) j = (if j < n then 0 else 1 / of_nat n)"
  using gap_uniform gap_uniform_wait by blast

theorem red_gaps_uniform_witness:
  "gap_law False (1 / 10) 4 = 1 / 9 \<and> gap_law True (1 / of_nat 5) 7 = 1 / 5"
  using red_gaps_uniform [of "1 / 10" 4 5 7] by simp

text \<open>
  C25: \<open>reset\<close>, from a configuration whose weight and thresholds may be left to the automatic
  setting: it returns, empties the queue, and establishes the invariant of C15 and C16; in gentle
  mode the curve of the drop probability is continuous, \<open>max_p\<close> at the upper threshold and growing
  linearly to 1 at twice the threshold.
\<close>

theorem red_reset_establishes:
  assumes "red_config_ok (qe_exp e) (rd_edp q)" and "rd_link q = Some bw" and "0 < bw"
    and "pq_within M (red_room q) (q_pq q)" and "counters_fit M (red_room q + 1)"
    and "in_unit (ev_v_prob (rd_edv q))"
  shows "\<exists>q'. red_reset e q = Some (q', pkts q) \<and> red_inv M q' \<and> pkts q' = [] \<and> ev_v_ave (rd_edv q') = 0
    \<and> (ep_gentle (rd_edp q) \<longrightarrow> (\<forall>x. 0 \<le> x \<and> x \<le> 1 \<longrightarrow>
         red_p (rd_edp q') ((rd_edv q')\<lparr>ev_v_ave := (1 + x) * ep_th_max (rd_edp q')\<rparr>)
           = 1 / ep_max_p_inv (rd_edp q) + x * (1 - 1 / ep_max_p_inv (rd_edp q))))"
proof -
  let ?p = "1 / ep_max_p_inv (rd_edp q)"
  have p: "0 \<le> ?p" "?p \<le> 1"
    using assms(1) by (simp_all add: red_config_ok_def)
  obtain q' where r: "red_reset e q = Some (q', pkts q)" "red_inv M q'" "pkts q' = []" "ev_v_ave (rd_edv q') = 0"
    "ep_gentle (rd_edp q) \<Longrightarrow> gentle_coeffs (rd_edp q') (rd_edv q') ?p"
    by (rule red_reset_ok [OF assms]) blast
  have "red_p (rd_edp q') ((rd_edv q')\<lparr>ev_v_ave := (1 + x) * ep_th_max (rd_edp q')\<rparr>) = ?p + x * (1 - ?p)"
    if "ep_gentle (rd_edp q)" "0 \<le> x" "x \<le> 1" for x
    by (rule gentle_at [OF _ p that(2,3)]) (use r(5) [OF that(1)] in \<open>simp_all add: gentle_coeffs_def\<close>)
  with r(1-4) show ?thesis
    by blast
qed

theorem red_reset_establishes_witness:
  "\<exists>q'. red_reset (sample_env 0) ((sample_red 10)\<lparr>rd_edp := sample_edp\<lparr>ep_q_w := - 1, ep_th_min_pkts := 0,
      ep_th_max_pkts := 0, ep_gentle := True, ep_max_p_inv := 10\<rparr>\<rparr>) = Some (q', []) \<and> red_inv 1500 q'
    \<and> red_p (rd_edp q') ((rd_edv q')\<lparr>ev_v_ave := (1 + 1) * ep_th_max (rd_edp q')\<rparr>) = 1"
proof -
  let ?q = "(sample_red 10)\<lparr>rd_edp := sample_edp\<lparr>ep_q_w := - 1, ep_th_min_pkts := 0, ep_th_max_pkts := 0,
      ep_gentle := True, ep_max_p_inv := 10\<rparr>\<rparr>"
  have c: "red_config_ok (qe_exp (sample_env 0)) (rd_edp ?q)"
    by (simp add: red_config_ok_def sample_edp_def sample_env_def exp_decays_def in_unit_def)
  have i: "rd_link ?q = Some 8000000" "pq_within 1500 (red_room ?q) (q_pq ?q)" "counters_fit 1500 (red_room ?q + 1)"
    "in_unit (ev_v_prob (rd_edv ?q))"
    by (simp_all add: sample_queue_defs red_room_def red_limit_def counters_fit_def in_unit_def pq_new_within)
  have "pkts ?q = []" "ep_gentle (rd_edp ?q)" "ep_max_p_inv (rd_edp ?q) = 10"
    by (simp_all add: sample_queue_defs pq_new_def)
  then show ?thesis
    using red_reset_establishes [OF c i(1) _ i(2-4)] by (fastforce dest: spec [of _ 1])
qed

text \<open>
  C26: an arrival at a drop-tail queue. The packet is queued when the queue stays below its limit
  with it, in packets or in bytes; otherwise the packet (or, with \<open>drop_front_\<close>, the first of the
  queue and the packet) is dropped. The queue never holds as many packets as its limit: the test
  refuses the packet that would fill it.
\<close>

theorem drop_tail_arrival:
  assumes "dt_inv M q" and "pkt_ok M p" and "pk_uid p \<notin> set (uids (pkts q))"
  shows "\<exists>q' ds. droptail_enque e p q = Some (q', ds) \<and> dt_inv M q'
    \<and> (if (if dt_qib q then sum_size (pkts q) + pk_size p else int (length (pkts q)) + 1) < dt_limit q
       then pkts q' = pkts q @ [p] \<and> ds = []
       else if dt_drop_front q then pkts q' = tl (pkts q @ [p]) \<and> ds = [hd (pkts q @ [p])]
       else pkts q' = pkts q \<and> ds = [p])
    \<and> int (length (pkts q')) < max 1 (dt_limit q)"
proof -
  obtain q' ds where e: "droptail_enque e p q = Some (q', ds)"
    using dt.enq_returns [OF assms(1) _ assms(2,3)] by blast
  note r = droptail_enque_inv [OF assms e] droptail_enque_pkts [OF assms(1,2) e]
  have "int (length (pkts q')) \<le> dt_room q"
    using r(1,2) by (simp add: dt_inv_def pq_within_def)
  then have "int (length (pkts q')) < max 1 (dt_limit q)"
    by (simp add: dt_room_def)
  with e r(1,5,6) show ?thesis
    by (auto simp: dt_fits_def)
qed

definition sample_tail :: "bool \<Rightarrow> dropt" where
  "sample_tail front = \<lparr>q_lim = 3, q_blocked = True, q_unblock_on_resume = True,
     q_pq = pq_enque (sample_pkt 2) (pq_enque (sample_pkt 1) pq_new), q_true_ave = 0, q_total_time = 0,
     q_last_change = 0, q_old_util = 0, q_util_weight = 1, q_util_check_intv = 1, q_period_begin = 0,
     q_cur_util = 0, q_buf_slot = 0, q_util_buf = [], q_util_records = 0, dt_drop_front = front,
     dt_summarystats = False, dt_qib = False, dt_mean_pktsize = 500\<rparr>"

theorem drop_tail_arrival_witness:
  "\<exists>q'. droptail_enque (sample_env 1) (sample_pkt 3) (sample_tail True) = Some (q', [sample_pkt 1])
    \<and> pkts q' = [sample_pkt 2, sample_pkt 3]"
proof -
  have i: "dt_inv 1500 (sample_tail True)"
    by (simp add: sample_tail_def dt_inv_def dt_room_def dt_limit_def counters_fit_def pq_within_def pq_ok_def
      pq_enque_def pq_new_def pkt_ok_def sample_pkt_def i32_def)
  have p: "pkt_ok 1500 (sample_pkt 3)" "pk_uid (sample_pkt 3) \<notin> set (uids (pkts (sample_tail True)))"
    by (simp_all add: pkt_ok_def sample_pkt_def sample_tail_def pq_new_def)
  have d: "pkts (sample_tail True) = [sample_pkt 1, sample_pkt 2]" "dt_qib (sample_tail True) = False"
    "dt_limit (sample_tail True) = 3" "dt_drop_front (sample_tail True) = True"
    by (simp_all add: sample_tail_def pq_new_def dt_limit_def)
  show ?thesis
    using drop_tail_arrival [OF i p, of "sample_env 1"] unfolding d by auto
qed

text \<open>
  C9: the whole circuit of data center TCP. Packets of a window arrive at the marking switch in any
  interleaving with the link; those that leave it are the segments that the receiver takes, whose
  acknowledgments the sender takes; when they have all arrived, the sender's estimate has moved by
  the factor \<open>g\<close> to the fraction of the bytes that the switch marked.
\<close>

theorem circuit_estimates_marks:
  assumes "sw_rel M K q s" and "events_ok draw_unit M evs" and "\<forall>p\<in>set (arrivals evs). pk_ect p"
    and "distinct (uids (pkts q @ arrivals evs))" and "ev_count (rd_edv q) + int (length evs) < 2147483648"
    and "sw_fits (rd_qib q) K (red_limit q) evs s" and "out = snd (sw_run (rd_qib q) K evs s)"
    and "rx_start a r" and "a + sum_size out < 2147483648"
    and "rx_acks (fold rx_step (segments out @ [Output]) r) = as @ [(k, e)]" and "increasing a (as @ [(k, e)])"
    and "ft_highest_ack f = a" and "ft_dctcp_total f = 0" and "ft_dctcp_marked f = 0"
    and "\<forall>x \<in> set as. fst x \<le> ft_dctcp_alpha_update_seq f" and "ft_dctcp_alpha_update_seq f < k"
  shows "\<exists>q'. link_run red_enque red_deque evs q = Some (q', out, [])
    \<and> ft_dctcp_alpha (fold ack_arrives (rx_acks (fold rx_step (segments out @ [Output]) r)) f)
      = (1 - ft_dctcp_g f) * ft_dctcp_alpha f + ft_dctcp_g f * (of_int (marked_size out) / of_int (sum_size out))"
proof -
  obtain q' where q': "link_run red_enque red_deque evs q = Some (q', out, [])"
    using switch_refines [OF assms(1-6)] assms(7) by blast
  have "\<forall>p\<in>set (sw_queue s @ arrivals evs). 0 < pk_size p"
    using assms(1,2) by (auto simp: sw_rel_def red_inv_def pq_within_def pkt_ok_def events_ok_def)
  then have "\<forall>p\<in>set out. 0 < pk_size p"
    unfolding assms(7) by (rule sw_sizes)
  then have "\<forall>n ce. Segment n ce \<in> set (segments out) \<longrightarrow> 0 < n"
    by (auto simp: segments_def)
  from estimate_exact [OF assms(8) this _ assms(10-16)] q' assms(9) show ?thesis
    by (simp add: segments_bytes)
qed

text \<open>Seven packets through the switch, then six calls of the link: the last three leave it marked.\<close>

definition sample_burst :: "qevent list" where
  "sample_burst = sample_arrivals [1, 2, 3, 4, 5, 6, 7] @ replicate 6 (Resume (sample_env 8))"

definition sample_marked :: "nat \<Rightarrow> qpkt" where
  "sample_marked n = (sample_pkt n)\<lparr>pk_ce := True\<rparr>"

definition sample_out :: "qpkt list" where
  "sample_out = [sample_pkt 1, sample_pkt 2, sample_pkt 3, sample_pkt 4, sample_marked 5, sample_marked 6, sample_marked 7]"

lemma sample_burst_run:
  "sw_fits False 2 10 sample_burst sample_switch" "snd (sw_run False 2 sample_burst sample_switch) = sample_out"
  by (simp_all add: sample_burst_def sample_arrivals_def sample_switch_def sw_arrive_def sw_resume_def
    sw_pass_def sw_above_def backlog_def numeral_eq_Suc sample_marked_def sample_out_def)

lemma sample_burst_events:
  "events_ok draw_unit 1500 sample_burst" "\<forall>p\<in>set (arrivals sample_burst). pk_ect p"
  "uids (arrivals sample_burst) = [1, 2, 3, 4, 5, 6, 7]" "length sample_burst = 13"
  by (simp_all add: sample_burst_def sample_arrivals_def numeral_eq_Suc sample_env_def sample_pkt_def
    draws_ok_def draw_unit_def pkt_ok_def)

lemma sample_circuit_acks:
  "rx_acks (fold rx_step (segments sample_out @ [Output]) sample_rx)
     = [(2050, False), (4050, False), (6050, True)] @ [(7050, True)]"
  by (simp add: sample_out_def segments_def sample_pkt_def sample_marked_def sample_rx_def recv_in_order_def
    ce_update_def ack_previous_def take_data_def need_send_def output_ack_def i32_def Let_def)

theorem circuit_estimates_marks_witness:
  "\<exists>q'. link_run red_enque red_deque sample_burst (sample_red 10) = Some (q', sample_out, [])
    \<and> ft_dctcp_alpha (fold ack_arrives (rx_acks (fold rx_step (segments sample_out @ [Output]) sample_rx))
        (sample_sender\<lparr>ft_dctcp_alpha_update_seq := 6500\<rparr>)) = (1 - 1 / 16) * (1 / 2) + 1 / 16 * (3 / 7)"
proof -
  let ?f = "sample_sender\<lparr>ft_dctcp_alpha_update_seq := 6500\<rparr>"
  have q: "rd_qib (sample_red 10) = False" "red_limit (sample_red 10) = 10" "ev_count (rd_edv (sample_red 10)) = 0"
    "pkts (sample_red 10) = []"
    by (simp_all add: sample_queue_defs pq_new_def red_limit_def)
  have out: "sum_size sample_out = 7000" "marked_size sample_out = 3000"
    by (simp_all add: sample_out_def sample_marked_def sample_pkt_def marked_size_def)
  have r: "rx_start 50 sample_rx" "50 + sum_size sample_out < 2147483648"
    by (simp_all add: rx_start_def sample_rx_def out)
  have f: "ft_highest_ack ?f = 50" "ft_dctcp_total ?f = 0" "ft_dctcp_marked ?f = 0" "ft_dctcp_g ?f = 1 / 16"
    "ft_dctcp_alpha ?f = 1 / 2" "ft_dctcp_alpha_update_seq ?f = 6500"
    by (simp_all add: sample_sender_def)
  have i: "increasing 50 ([(2050, False), (4050, False), (6050, True)] @ [(7050, True)])"
    "\<forall>x\<in>set [(2050, False), (4050, False), (6050, True)]. fst x \<le> ft_dctcp_alpha_update_seq ?f"
    "ft_dctcp_alpha_update_seq ?f < 7050"
    by (simp_all add: f)
  have e: "distinct (uids (pkts (sample_red 10) @ arrivals sample_burst))"
    "ev_count (rd_edv (sample_red 10)) + int (length sample_burst) < 2147483648"
    "sw_fits (rd_qib (sample_red 10)) 2 (red_limit (sample_red 10)) sample_burst sample_switch"
    "sample_out = snd (sw_run (rd_qib (sample_red 10)) 2 sample_burst sample_switch)"
    using sample_burst_run sample_burst_events by (simp_all add: q)
  from circuit_estimates_marks [OF sample_switch_rel sample_burst_events(1,2) e r sample_circuit_acks i(1) f(1-3) i(2,3)]
  show ?thesis
    by (simp add: f out)
qed

section \<open>The full TCP agent: reassembly and selective acknowledgments\<close>

text \<open>A reachable queue, a receiver in ESTABLISHED that expects byte 1, and a sender in recovery.\<close>

definition sample_queue :: rqueue where
  "sample_queue = \<lparr>rq_fifo = [\<lparr>sg_addr = 0, sg_start = 10, sg_end = 20, sg_pflags = 0, sg_rqflags = 0, sg_cnt = 1\<rparr>,
     \<lparr>sg_addr = 1, sg_start = 30, sg_end = 40, sg_pflags = 0, sg_rqflags = 0, sg_cnt = 1\<rparr>],
     rq_lifo = [1, 0], rq_total = 20, rq_rcv_nxt = 1, rq_fresh = 2\<rparr>"

lemma sample_queue_reachable: "rq_reachable sample_queue"
proof -
  define q1 where "q1 = \<lparr>rq_fifo = [\<lparr>sg_addr = 0, sg_start = 10, sg_end = 20, sg_pflags = 0, sg_rqflags = 0, sg_cnt = 1\<rparr>],
     rq_lifo = [0], rq_total = 10, rq_rcv_nxt = 1, rq_fresh = 1\<rparr>"
  have a: "rq_add 10 20 0 0 (rq_new 1) = Some (0, q1)"
    unfolding q1_def by code_simp
  have b: "rq_add 30 40 0 0 q1 = Some (0, sample_queue)"
    unfolding q1_def sample_queue_def by code_simp
  have "rq_reachable q1"
    by (rule rq_reachable.add [OF rq_reachable.new _ a]) simp
  then show ?thesis
    by (rule rq_reachable.add [OF _ _ b]) simp
qed

definition sample_full :: full_rx where
  "sample_full = \<lparr>fr_q = rq_new 1, fr_ecn = sample_rx\<lparr>rx_rcv_nxt := 1\<rparr>, fr_state = TCPS_ESTABLISHED_num, fr_delivered = 0\<rparr>"

definition sample_seg :: "int \<Rightarrow> int \<Rightarrow> tcp_seg" where
  "sample_seg m n = \<lparr>ts_seqno = m, ts_size = n + 40, ts_hlen = 40, ts_flags = 16\<rparr>"

lemma sample_full_ready: "rx_ready sample_full"
  using clear_ok(2) [of 1]
  by (auto simp: sample_full_def rx_ready_def ahead_def flags_in_def got_def rq_new_def SEQ_LIMIT_def synchronised_def)

lemma sample_seg_data: "0 \<le> m \<Longrightarrow> 0 < n \<Longrightarrow> m + n < 2147483000 \<Longrightarrow> data_seg (sample_seg m n) m n"
  by (simp add: data_seg_def sample_seg_def SEQ_LIMIT_def flag_set_def TH_SYN_def TH_FIN_def)

definition sample_sack :: sack_tx where
  "sample_sack = \<lparr>sx_sq = rq_new (- 1), sx_highest_ack = 0, sx_h_seqno = 0, sx_recover = 50, sx_t_seqno = 50,
     sx_maxseq = 50, sx_curseq = 50, sx_maxseg = 10, sx_wnd = 20, sx_cwnd = 4, sx_window = 4, sx_pipe = 50,
     sx_rtxbytes = 0, sx_pipectrl = True, sx_fastrecov = True, sx_infinite_send = False, sx_dupacks = 3,
     sx_state = TCPS_ESTABLISHED_num, sx_clear_on_timeout = True, sx_max_sack_blocks = 3, sx_threshmode = 0,
     sx_cthresh = 0, sx_bthresh = 0\<rparr>"

text \<open>
  C24: \<open>add\<close> returns on every queue that the class can make and every segment that is not empty,
  wherever it lies and however it overlaps; exactly the bytes of the segment are added. When the
  queue holds only bytes beyond \<open>rcv_nxt\<close> and the segment does not begin before it, \<open>rcv_nxt\<close>
  moves to the first byte that is missing.
\<close>

theorem reassembly_add:
  assumes "rq_reachable Q" and "start < e"
  shows "\<exists>f Q'. rq_add start e t r Q = Some (f, Q') \<and> rq_reachable Q'
    \<and> covers (rq_fifo Q') = covers (rq_fifo Q) \<union> {start..<e}
    \<and> (ahead Q \<and> rq_rcv_nxt Q \<le> start \<longrightarrow>
        rq_rcv_nxt Q \<le> rq_rcv_nxt Q' \<and> {rq_rcv_nxt Q..<rq_rcv_nxt Q'} \<subseteq> covers (rq_fifo Q')
        \<and> rq_rcv_nxt Q' \<notin> covers (rq_fifo Q'))"
proof -
  obtain f Q' where a: "rq_add start e t r Q = Some (f, Q')" "added start e Q Q'"
    using add_ok [OF reachable_ok [OF assms(1)] assms(2)] by blast
  show ?thesis
    using a added_next_missing [OF a(2) _ _ assms(2)] rq_reachable.add [OF assms a(1)]
    by (auto simp: added_def)
qed

theorem reassembly_add_witness:
  "\<exists>f Q'. rq_add 1 10 0 0 sample_queue = Some (f, Q') \<and> covers (rq_fifo Q') = {1..<20} \<union> {30..<40}
    \<and> rq_rcv_nxt Q' \<notin> {1..<20}"
proof -
  have "ahead sample_queue" "rq_rcv_nxt sample_queue = 1"
    by (simp_all add: ahead_def sample_queue_def)
  moreover have "{10..<20} \<union> {30..<40} \<union> {1..<10} = {1..<20} \<union> {30..<40 :: int}"
    by auto
  ultimately show ?thesis
    using reassembly_add [OF sample_queue_reachable, of 1 10 0 0] by (auto simp: sample_queue_def)
qed

text \<open>
  C13: every queue is well formed: its segments are in order with gaps between them, none is empty,
  the LIFO holds each exactly once, and \<open>total_\<close> is the number of bytes held.
\<close>

theorem queue_well_formed:
  assumes "rq_reachable Q"
  shows "sorted_wrt (\<lambda>s t. sg_end s < sg_start t) (rq_fifo Q) \<and> (\<forall>s\<in>set (rq_fifo Q). sg_start s < sg_end s)
    \<and> distinct (map sg_addr (rq_fifo Q)) \<and> distinct (rq_lifo Q) \<and> set (rq_lifo Q) = sg_addr ` set (rq_fifo Q)
    \<and> (covers (rq_fifo Q) \<subseteq> {0..<2147483647} \<longrightarrow> rq_total Q = int (card (covers (rq_fifo Q))))"
  using reachable_ok [OF assms] total_ok [of Q] by (simp add: rq_ok_def segs_ok_def)

theorem queue_well_formed_witness: "rq_total sample_queue = int (card ({10..<20} \<union> {30..<40 :: int}))"
  using queue_well_formed [OF sample_queue_reachable] by (simp add: sample_queue_def)

text \<open>
  C21: the blocks that \<open>gensack\<close> reports are maximal runs of bytes that have arrived, as many as
  fit; when all fit they are all that is queued.
\<close>

theorem sack_blocks_exact:
  assumes "rq_reachable Q"
  shows "(\<forall>(l, r)\<in>set (gensack n Q). l < r \<and> {l..<r} \<subseteq> covers (rq_fifo Q)
        \<and> l - 1 \<notin> covers (rq_fifo Q) \<and> r \<notin> covers (rq_fifo Q))
    \<and> length (gensack n Q) = min n (length (rq_fifo Q))
    \<and> (length (rq_fifo Q) \<le> n \<longrightarrow> (\<Union>(l, r)\<in>set (gensack n Q). {l..<r}) = covers (rq_fifo Q))"
proof -
  have ok: "rq_ok Q" and so: "segs_ok (rq_fifo Q)"
    using reachable_ok [OF assms] by (simp_all add: rq_ok_def)
  have "\<forall>(l, r)\<in>set (gensack n Q). l < r \<and> {l..<r} \<subseteq> covers (rq_fifo Q)
        \<and> l - 1 \<notin> covers (rq_fifo Q) \<and> r \<notin> covers (rq_fifo Q)"
    using gensack_blocks(1) [OF ok, of n] segment_maximal [OF so] by (fastforce simp only: split_beta)
  moreover have "(\<Union>(l, r)\<in>set (gensack n Q). {l..<r}) = covers (rq_fifo Q)" if "length (rq_fifo Q) \<le> n"
    unfolding gensack_blocks(3) [OF ok that] by (simp add: covers_def)
  ultimately show ?thesis
    using gensack_blocks(2) [OF ok] by blast
qed

theorem sack_blocks_exact_witness: "length (gensack 3 sample_queue) = 2"
  using sack_blocks_exact [OF sample_queue_reachable, of 3] by (simp add: sample_queue_def)

text \<open>
  C28: every byte that arrives is passed on. Segments of data, in any order, overlapping, repeated
  or late, are all handled; what has arrived grows by exactly their bytes; \<open>rcv_nxt\<close> ends at the first
  byte that is missing, so that it passes \<open>N\<close> when the segments hold every byte below \<open>N\<close>; the
  application has been given the bytes by which it moved; nothing is lost in \<open>total_\<close> or left behind.
\<close>

theorem every_byte_delivered:
  assumes "rx_ready R" and "\<forall>(marks, s)\<in>set ss. \<exists>m n. data_seg s m n"
    and "{rq_rcv_nxt (fr_q R)..<N} \<subseteq> covers (rq_fifo (fr_q R)) \<union> (\<Union>(marks, s)\<in>set ss. seg_bytes s)"
  shows "\<exists>R'. recv_all ss R = Some R' \<and> rx_ready R' \<and> N \<le> rq_rcv_nxt (fr_q R')
    \<and> got (fr_q R') = got (fr_q R) \<union> (\<Union>(marks, s)\<in>set ss. seg_bytes s)
    \<and> {..<rq_rcv_nxt (fr_q R')} \<subseteq> got (fr_q R') \<and> rq_rcv_nxt (fr_q R') \<notin> got (fr_q R')
    \<and> fr_delivered R' - fr_delivered R = rq_rcv_nxt (fr_q R') - rq_rcv_nxt (fr_q R)"
proof -
  obtain R' where r: "recv_all ss R = Some R'" "rx_ready R'"
    "got (fr_q R') = got (fr_q R) \<union> (\<Union>(marks, s)\<in>set ss. seg_bytes s)"
    "fr_delivered R' - fr_delivered R = rq_rcv_nxt (fr_q R') - rq_rcv_nxt (fr_q R)"
    using recv_all_ok [OF assms(1,2)] by blast
  have f: "rq_rcv_nxt (fr_q R') \<notin> got (fr_q R')" "{..<rq_rcv_nxt (fr_q R')} \<subseteq> got (fr_q R')"
    using first_missing r(2) by (simp_all add: rx_ready_def)
  have "{..<N} \<subseteq> {..<rq_rcv_nxt (fr_q R)} \<union> {rq_rcv_nxt (fr_q R)..<N}"
    by auto
  also have "\<dots> \<subseteq> got (fr_q R')"
    unfolding r(3) unfolding got_def [of "fr_q R"] using assms(3) by blast
  finally have "{..<N} \<subseteq> got (fr_q R')" .
  then have "N \<le> rq_rcv_nxt (fr_q R')"
    using f(1) by (meson lessThan_iff not_le_imp_less subsetD)
  then show ?thesis
    using r f by blast
qed

text \<open>The second segment first, then the first, then one that overlaps both.\<close>

theorem every_byte_delivered_witness:
  "\<exists>R'. recv_all [((False, False, False), sample_seg 101 100), ((False, False, False), sample_seg 1 100),
      ((False, False, False), sample_seg 51 100)] sample_full = Some R'
    \<and> 201 \<le> rq_rcv_nxt (fr_q R') \<and> 200 \<le> fr_delivered R'"
proof -
  let ?ss = "[((False, False, False), sample_seg 101 100), ((False, False, False), sample_seg 1 100),
      ((False, False, False), sample_seg 51 100)]"
  have v: "rq_rcv_nxt (fr_q sample_full) = 1" "fr_delivered sample_full = 0"
    by (simp_all add: sample_full_def rq_new_def)
  have d: "\<forall>(marks, s)\<in>set ?ss. \<exists>m n. data_seg s m n"
    using sample_seg_data [of 101 100] sample_seg_data [of 1 100] sample_seg_data [of 51 100] by auto
  have "{1..<201} \<subseteq> {101..<201} \<union> {1..<101} \<union> {51..<151 :: int}"
    by auto
  also have "\<dots> = (\<Union>(marks, s)\<in>set ?ss. seg_bytes s)"
    by (simp add: seg_bytes_def sample_seg_def Un_assoc)
  finally have "{rq_rcv_nxt (fr_q sample_full)..<201}
      \<subseteq> covers (rq_fifo (fr_q sample_full)) \<union> (\<Union>(marks, s)\<in>set ?ss. seg_bytes s)"
    unfolding v by blast
  from every_byte_delivered [OF sample_full_ready d this] obtain R' where "recv_all ?ss sample_full = Some R'"
    "201 \<le> rq_rcv_nxt (fr_q R')" "fr_delivered R' - 0 = rq_rcv_nxt (fr_q R') - 1"
    unfolding v by blast
  then show ?thesis
    by (intro exI [of _ R']) simp
qed

text \<open>
  C11: what the scoreboard makes of SACK blocks. On a segment without FIN, whatever the blocks, it
  does not abort: the illegal ones (empty or reversed) are skipped and exactly the bytes of the
  others are added. On a segment with FIN nothing is skipped: a reversed block aborts the program;
  without one exactly the bytes of the blocks are added. (Empty blocks on a segment with FIN, which
  the queue inserts as they are, are excluded.)
\<close>

theorem sack_blocks_recorded:
  assumes "rq_reachable (sx_sq s)" and "0 < sx_max_sack_blocks s"
    and "flag_set flags TH_FIN \<longrightarrow> (\<forall>(l, r)\<in>set blks. l \<noteq> r)"
  shows "if flag_set flags TH_FIN \<and> (\<exists>(l, r)\<in>set blks. r < l) then process_sack flags blks s = None
    else \<exists>q. process_sack flags blks s = Some (s\<lparr>sx_sq := q\<rparr>) \<and> rq_ok q
      \<and> covers (rq_fifo q) = covers (rq_fifo (sx_sq s)) \<union> (\<Union>(l, r)\<in>set blks. {l..<r})"
proof (cases "flag_set flags TH_FIN")
  case True
  with process_sack_fin [OF reachable_ok [OF assms(1)] True _ assms(2)] assms(3) show ?thesis by (simp only: simp_thms)
next
  case False
  with process_sack_ok [OF reachable_ok [OF assms(1)] False assms(2)] show ?thesis by (simp only: simp_thms if_False)
qed

theorem sack_blocks_recorded_witness:
  "(\<exists>q. process_sack 16 [(10, 20), (7, 7), (20, 25), (9, 3)] sample_sack = Some (sample_sack\<lparr>sx_sq := q\<rparr>)
      \<and> covers (rq_fifo q) = {10..<25})
    \<and> process_sack 17 [(10, 20), (9, 3)] sample_sack = None"
proof -
  have "{10..<20} \<union> {7..<7} \<union> {20..<25} \<union> {9..<3} = {10..<25 :: int}"
    by auto
  moreover have "rq_reachable (sx_sq sample_sack)" "covers (rq_fifo (sx_sq sample_sack)) = {}"
    "0 < sx_max_sack_blocks sample_sack"
    by (simp_all add: sample_sack_def rq_reachable.new) (simp add: rq_new_def)
  ultimately show ?thesis
    using sack_blocks_recorded [of sample_sack 16 "[(10, 20), (7, 7), (20, 25), (9, 3)]"]
      sack_blocks_recorded [of sample_sack 17 "[(10, 20), (9, 3)]"]
    by (auto simp: flag_set_def TH_FIN_def Un_assoc)
qed

text \<open>
  C27: the search for the next hole ends, although the source's loop need not, when a segment has a
  size and the numbers are in range. What it finds is not on the scoreboard and not below where it
  started; when no threshold is set it is the first such byte. Otherwise new data are sent.
\<close>

theorem hole_search_ends:
  assumes "sq_bounded s"
  shows "\<exists>v s'. nxt_tseq s = Some (v, s')
    \<and> (v = sx_t_seqno s \<and> s' = s
       \<or> sx_highest_ack s < sx_recover s \<and> sx_h_seqno s \<le> v \<and> v \<notin> covers (rq_fifo (sx_sq s))
         \<and> (sx_threshmode s = 0 \<longrightarrow> {sx_h_seqno s..<v} \<subseteq> covers (rq_fifo (sx_sq s)))
         \<and> s' = s\<lparr>sx_h_seqno := v\<rparr>)"
  using assms by (rule nxt_tseq_ok)

theorem hole_search_ends_witness:
  "\<exists>v s'. nxt_tseq (sample_sack\<lparr>sx_sq := sample_queue, sx_h_seqno := 10\<rparr>) = Some (v, s')
    \<and> (v = 50 \<or> 10 \<le> v \<and> v \<notin> {10..<20} \<union> {30..<40})"
proof -
  have "sq_bounded (sample_sack\<lparr>sx_sq := sample_queue, sx_h_seqno := 10\<rparr>)"
    using reachable_ok [OF sample_queue_reachable]
    by (auto simp: sq_bounded_def sample_sack_def SEQ_LIMIT_def) (auto simp: sample_queue_def)
  from hole_search_ends [OF this] show ?thesis
    by (auto simp: sample_sack_def sample_queue_def)
qed



section \<open>Two full TCP agents\<close>

definition sample_conf :: full_conf where
  "sample_conf = \<lparr>fc_iss = 0, fc_dupthresh = 3, fc_maxburst = 0, fc_nodelay = False, fc_data_on_syn = False, fc_dupseg_fix = True,
     fc_dupack_reset = False, fc_halfclose = False, fc_nopredict = False, fc_pipectrl = False, fc_reno_fastrecov = True,
     fc_open_cwnd_on_pack = True, fc_bug_fix = True, fc_slow_start_restart = True, fc_restart_bugfix = True, fc_delay_growth = False,
     fc_cwr_on_rtx = True, fc_ts_reset_rto = False, fc_ecn_syn = False, fc_ecn_syn_wait = 0, fc_overhead = 0, fc_hdr_size = 40,
     fc_ts_option_size = 10, fc_increase_num = 1, fc_wnd_const = 4, fc_max_ssthresh = 0, fc_maxcwnd = 0, fc_qs_cwnd = 0,
     fc_srtt_init = 0, fc_rttvar_init = 12, fc_rtxcur_init = 3\<rparr>"

definition sample_peer :: full_agent where
  "sample_peer = \<lparr>fa_tcp = sample_sender\<lparr>ft_maxseq := - 1, ft_highest_ack := - 1\<rparr>,
     fa_rx = \<lparr>fr_q = rq_new (- 1), fr_ecn = sample_rx\<lparr>rx_rcv_nxt := - 1\<rparr>, fr_state = TCPS_CLOSED_num, fr_delivered = 0\<rparr>,
     fa_conf = sample_conf, fa_t_seqno = 0, fa_curseq = 0, fa_dupacks = 0, fa_pipe = 0, fa_rtxbytes = 0, fa_last_state = 0,
     fa_needfin = False, fa_needclose = False, fa_infinite_send = False, fa_close_on_empty = False, fa_fastrecov = False,
     fa_rtt_active = False, fa_rtt_seq = - 1, fa_rtt_ts = 0, fa_recent = - 1, fa_recent_age = - 1, fa_last_send = - 1,
     fa_rtx_on = False, fa_delsnd_on = False, fa_delack_on = False, fa_ecn_burst = False, fa_ecn_syn_next = False,
     fa_wnd_init_option = 1, fa_awnd = 1, fa_incr_count = 0, fa_out = []\<rparr>"

definition peer_env :: "rat \<Rightarrow> net_env" where
  "peer_env t = \<lparr>en_now = t, en_uniform = 0, en_pow_l = id, en_pow_k = id, en_decrease = 0, en_increase = 1\<rparr>"

lemma sample_peer_new: "new_agent sample_peer"
  using clear_ok(2) [of "- 1"]
  by (simp add: new_agent_def fresh_def unopened_def base_def conf_ok_def tcp_ok_def timer_ok_def iw_ok_def sample_peer_def
      sample_conf_def sample_sender_def sample_rx_def rq_new_def trunc_int_def CUR_LIMIT_def)

text \<open>
  C17: the two ways of \<open>recv\<close> through the next segment of data with nothing queued, at the level of
  the whole agent. Where the predicted path can be taken (\<open>predict_ok\<close>), the slow path returns
  exactly what the predicted path makes of the same packet, with every byte passed on, every
  acknowledgment, echo and timer, but for two things: it first does the reset that \<open>dupack_reset_\<close>
  asks for, and when no acknowledgment is due after the data it ends with an attempt to send more.
  So when nothing may be sent then, the two are the same.
\<close>

theorem predicted_path_agrees:
  assumes "predict_ok p a" and "\<not> fc_nopredict (fa_conf a)" and "0 < n" and "fp_ackno p = fa_highest_ack a"
    and "rq_empty (fr_q (fa_rx a))"
    and "a0 = (if fc_dupack_reset (fa_conf a) then a\<lparr>fa_dupacks := 0, fa_fastrecov := False\<rparr> else a)"
    and "ack_pending ev (note_ce p n (note_ts ev p a0)) = Some a1" and "due \<longleftrightarrow> need_send (fa_ecn (take_next n a1))"
    and "recv_fast ev p n a0 = Some r"
    and "slow = recv_slow ev \<lparr>si_pkt = p, si_datalen = n, si_tiflags = ts_flags (fp_seg p), si_dupseg = False,
      si_needoutput = False\<rparr> a"
  shows "\<exists>b. r = Inl b
    \<and> slow = (if \<not> due \<and> (fa_curseq b \<ge> fa_highest_ack b \<or> fa_infinite_send b)
              then agent_send_much ev False REASON_NORMAL (fc_maxburst (fa_conf b)) b else Some b)
    \<and> (fa_delsnd_on b \<or> \<not> agent_send_allowed (fa_t_seqno b) b \<longrightarrow> slow = Some b)"
proof -
  have "a0 = dup_reset a" using assms(6) by (simp add: dup_reset_def)
  then obtain b where b: "r = Inl b" "slow = (if due then Some b else send_more ev b)"
    using slow_is_predicted [OF assms(1-5) _ assms(8) _ refl] assms(7,9,10) by blast
  have "slow = (if \<not> due \<and> (fa_curseq b \<ge> fa_highest_ack b \<or> fa_infinite_send b)
      then agent_send_much ev False REASON_NORMAL (fc_maxburst (fa_conf b)) b else Some b)"
    using b(2) by (simp add: send_more_def)
  moreover have "send_more ev b = Some b" if "fa_delsnd_on b \<or> \<not> agent_send_allowed (fa_t_seqno b) b"
    using that by (auto simp: send_more_def agent_send_much_def agent_send_loop.simps Let_def)
  then have "fa_delsnd_on b \<or> \<not> agent_send_allowed (fa_t_seqno b) b \<longrightarrow> slow = Some b"
    using b(2) by simp
  ultimately show ?thesis using b(1) by blast
qed

definition sample_peer_data :: full_agent where
  "sample_peer_data = sample_peer\<lparr>fa_tcp := sample_sender, fa_rx := sample_full, fa_t_seqno := 60, fa_curseq := 60, fa_dupacks := 2,
     fa_conf := sample_conf\<lparr>fc_dupack_reset := True\<rparr>\<rparr>"

definition sample_data_pkt :: full_pkt where
  "sample_data_pkt = \<lparr>fp_seg = sample_seg 1 100, fp_ackno = 50, fp_reason = 0, fp_sa_length = 0, fp_ts = 0, fp_ts_echo = 0,
     fp_no_ts = False, fp_ecnecho = False, fp_cwr = False, fp_ect = True, fp_ce = False\<rparr>"

theorem predicted_path_agrees_witness:
  "\<exists>b. recv_slow (peer_env 1) \<lparr>si_pkt = sample_data_pkt, si_datalen = 100, si_tiflags = 16, si_dupseg = False,
      si_needoutput = False\<rparr> sample_peer_data = Some b \<and> fr_delivered (fa_rx b) = 100 \<and> fa_dupacks b = 0"
proof -
  let ?a0 = "sample_peer_data\<lparr>fa_dupacks := 0, fa_fastrecov := False\<rparr>"
  note d = sample_peer_data_def sample_peer_def sample_data_pkt_def sample_sender_def sample_full_def sample_rx_def sample_seg_def
    sample_conf_def rq_new_def rq_empty_def full_codes peer_env_def
  have p: "predict_ok sample_data_pkt sample_peer_data" "\<not> fc_nopredict (fa_conf sample_peer_data)"
    by (simp_all add: predict_ok_def d)
  define a1 where "a1 = note_ce sample_data_pkt 100 (note_ts (peer_env 1) sample_data_pkt ?a0)"
  have a1: "ack_pending (peer_env 1) a1 = Some a1"
    by (simp add: a1_def ack_pending_def note_ce_def note_ts_def on_ecn_def on_rx_def ce_update_def d)
  have due: "\<not> need_send (fa_ecn (take_next 100 a1))"
    by (simp add: a1_def take_next_def set_rcv_nxt_def set_rcv_def note_ce_def note_ts_def on_ecn_def on_rx_def ce_update_def
        need_send_def i32_def d)
  have f: "recv_fast (peer_env 1) sample_data_pkt 100 ?a0 = Some (Inl (take_next 100 a1))"
    using p a1 due by (simp add: recv_fast_def predict_ok_def a1_def [symmetric] Let_def)
      (simp add: a1_def note_ce_def note_ts_def on_ecn_def on_rx_def d)
  have c: "\<not> agent_send_allowed (fa_t_seqno (take_next 100 a1)) (take_next 100 a1)"
    "fr_delivered (fa_rx (take_next 100 a1)) = 100" "fa_dupacks (take_next 100 a1) = 0"
    by (simp_all add: agent_send_allowed_def a1_def take_next_def set_rcv_nxt_def set_rcv_def note_ce_def note_ts_def on_ecn_def
        on_rx_def window_def trunc_int_def i32_def d)
  have "fp_ackno sample_data_pkt = fa_highest_ack sample_peer_data" "rq_empty (fr_q (fa_rx sample_peer_data))"
    "?a0 = (if fc_dupack_reset (fa_conf sample_peer_data) then ?a0 else sample_peer_data)"
    by (simp_all add: d)
  from predicted_path_agrees [OF p _ this a1 [unfolded a1_def] _ f [unfolded a1_def] refl, of False] due
  obtain b where "Inl (take_next 100 a1) = (Inl b :: full_agent + full_agent)" "fa_delsnd_on b \<or> \<not> agent_send_allowed (fa_t_seqno b) b
      \<longrightarrow> recv_slow (peer_env 1) \<lparr>si_pkt = sample_data_pkt, si_datalen = 100, si_tiflags = ts_flags (fp_seg sample_data_pkt),
        si_dupseg = False, si_needoutput = False\<rparr> sample_peer_data = Some b"
    unfolding a1_def by auto
  then have "recv_slow (peer_env 1) \<lparr>si_pkt = sample_data_pkt, si_datalen = 100, si_tiflags = ts_flags (fp_seg sample_data_pkt),
        si_dupseg = False, si_needoutput = False\<rparr> sample_peer_data = Some (take_next 100 a1)"
    using c(1) by simp
  then show ?thesis using c(2,3) by (simp add: sample_data_pkt_def sample_seg_def)
qed

text \<open>
  C2: a connection of two full TCP agents is safe and reliable. Whatever the applications write
  and however the network loses, repeats, reorders, delays and marks the packets, through the
  handshake (simultaneous too), data in both directions, fast retransmits and timeouts, every
  handler returns; on each side the bytes acknowledged have been passed on by the other, and what
  it has passed on has been written.
\<close>

theorem connection_reliable:
  assumes "new_agent a" and "new_agent b" and "\<forall>x\<in>set es. 0 \<le> event_cost (snd x)"
    and "written Near es \<le> 2000000000" and "written Far es \<le> 2000000000"
  shows "\<exists>a' b'. net_run es (a, b) = Some (a', b')
     \<and> 0 \<le> acked_bytes a' \<and> acked_bytes a' \<le> fr_delivered (fa_rx b') \<and> fr_delivered (fa_rx b') \<le> written Near es
     \<and> 0 \<le> acked_bytes b' \<and> acked_bytes b' \<le> fr_delivered (fa_rx a') \<and> fr_delivered (fa_rx a') \<le> written Far es"
  using assms by (rule reliable)

text \<open>One side writes, the other listens; the SYN arrives twice, its answer once and late, then a timer fires.\<close>

theorem connection_reliable_witness:
  "\<exists>a' b'. net_run [(Far, Listen), (Near, Write (peer_env 0) 2300), (Far, Deliver (peer_env 1) 0 False),
      (Far, Deliver (peer_env 2) 0 False), (Far, Write (peer_env 2) 10), (Near, Deliver (peer_env 3) 0 True),
      (Near, Expire (peer_env 9) Rtx_timer)] (sample_peer, sample_peer) = Some (a', b')
    \<and> acked_bytes a' \<le> fr_delivered (fa_rx b') \<and> fr_delivered (fa_rx b') \<le> 2300 \<and> fr_delivered (fa_rx a') \<le> 10"
  using connection_reliable [OF sample_peer_new sample_peer_new, of "[(Far, Listen), (Near, Write (peer_env 0) 2300),
      (Far, Deliver (peer_env 1) 0 False), (Far, Deliver (peer_env 2) 0 False), (Far, Write (peer_env 2) 10),
      (Near, Deliver (peer_env 3) 0 True), (Near, Expire (peer_env 9) Rtx_timer)]"]
  by (auto simp: written_def)

end
